(* ===== verification/Prelude.thy ===== *)
theory Prelude
  imports "HOL-Library.Word" "HOL-Library.Monad_Syntax"
begin

unbundle bit_operations_syntax

text \<open>
  The vocabulary every component of the kernel model shares.

  A kernel routine is a HOL function on an explicit state whose result is an option:
  \<open>Some (r, s)\<close> is a return with value \<open>r\<close> and the state \<open>s\<close>, and \<open>None\<close> is a run
  that does not return: a failed \<^verbatim>\<open>assert\<close>, a \<^verbatim>\<open>panic\<close>, or a pointer loop that never
  reaches its end. The error codes of \<^verbatim>\<open>libs/error.h\<close> are integers and travel in the
  return value, negated, as in the C code. Here are also the rounding macros of
  \<^verbatim>\<open>libs/defs.h\<close> on 64-bit words, the 32-bit truncation of \<^verbatim>\<open>unsigned int\<close> fields and
  the lemmas on lists, options and words that the components reuse.
\<close>

section \<open>Collections of rewrite rules\<close>

named_theorems errno \<open>values of the kernel error codes\<close>
named_theorems kdefs \<open>definitions of kernel routines unfolded together\<close>

section \<open>Stopping\<close>

definition kassert :: "bool \<Rightarrow> unit option" where
  "kassert b = (if b then Some () else None)"

definition panic :: "'a option" where
  "panic = None"

lemma kassert_bind [simp]: "(kassert b \<bind> f) = (if b then f () else None)"
  by (simp add: kassert_def)

lemma kassert_True [simp]: "kassert True = Some ()" and kassert_False [simp]: "kassert False = None"
  by (simp_all add: kassert_def)

lemma kassert_Some_iff [simp]: "kassert b = Some u \<longleftrightarrow> b"
  by (simp add: kassert_def)

lemma panic_not_Some [simp]: "panic \<noteq> Some x"
  by (simp add: panic_def)

lemma panic_bind [simp]: "(panic \<bind> f) = None"
  by (simp add: panic_def)

lemma bind_SomeE: "m \<bind> f = Some r \<Longrightarrow> (\<And>x. m = Some x \<Longrightarrow> f x = Some r \<Longrightarrow> P) \<Longrightarrow> P"
  by (cases m) simp_all

section \<open>Error codes\<close>

definition E_UNSPECIFIED :: int where [errno]: "E_UNSPECIFIED = 1"
definition E_BAD_PROC :: int where [errno]: "E_BAD_PROC = 2"
definition E_INVAL :: int where [errno]: "E_INVAL = 3"
definition E_NO_MEM :: int where [errno]: "E_NO_MEM = 4"
definition E_NO_FREE_PROC :: int where [errno]: "E_NO_FREE_PROC = 5"
definition E_FAULT :: int where [errno]: "E_FAULT = 6"
definition E_SWAP_FAULT :: int where [errno]: "E_SWAP_FAULT = 7"
definition E_INVAL_ELF :: int where [errno]: "E_INVAL_ELF = 8"
definition E_KILLED :: int where [errno]: "E_KILLED = 9"
definition E_PANIC :: int where [errno]: "E_PANIC = 10"
definition E_TIMEOUT :: int where [errno]: "E_TIMEOUT = 11"
definition E_TOO_BIG :: int where [errno]: "E_TOO_BIG = 12"
definition E_NO_DEV :: int where [errno]: "E_NO_DEV = 13"
definition E_NA_DEV :: int where [errno]: "E_NA_DEV = 14"
definition E_BUSY :: int where [errno]: "E_BUSY = 15"
definition E_NOENT :: int where [errno]: "E_NOENT = 16"
definition E_ISDIR :: int where [errno]: "E_ISDIR = 17"
definition E_NOTDIR :: int where [errno]: "E_NOTDIR = 18"
definition E_XDEV :: int where [errno]: "E_XDEV = 19"
definition E_UNIMP :: int where [errno]: "E_UNIMP = 20"
definition E_SEEK :: int where [errno]: "E_SEEK = 21"
definition E_MAX_OPEN :: int where [errno]: "E_MAX_OPEN = 22"
definition E_EXISTS :: int where [errno]: "E_EXISTS = 23"
definition E_NOTEMPTY :: int where [errno]: "E_NOTEMPTY = 24"

section \<open>Machine integers\<close>

type_synonym u8 = "8 word"
type_synonym u16 = "16 word"
type_synonym u32 = "32 word"
type_synonym u64 = "64 word"

definition to_u32 :: "nat \<Rightarrow> nat" where
  "to_u32 n = n mod 2 ^ 32"

lemma to_u32_id [simp]: "n < 2 ^ 32 \<Longrightarrow> to_u32 n = n"
  by (simp add: to_u32_def)

lemma to_u32_bound [simp]: "to_u32 n < 2 ^ 32"
  by (simp add: to_u32_def)

definition ROUNDDOWN :: "u64 \<Rightarrow> u64 \<Rightarrow> u64" where
  "ROUNDDOWN a n = a - a mod n"

definition ROUNDUP :: "u64 \<Rightarrow> u64 \<Rightarrow> u64" where
  "ROUNDUP a n = ROUNDDOWN (a + n - 1) n"

definition ROUNDUP_DIV :: "u64 \<Rightarrow> u64 \<Rightarrow> u64" where
  "ROUNDUP_DIV a n = (a + n - 1) div n"

lemma unat_ROUNDDOWN: "unat (ROUNDDOWN a n) = unat a - unat a mod unat n"
  unfolding ROUNDDOWN_def
  by (subst unat_sub) (simp_all add: word_le_nat_alt unat_mod)

lemma find_mem: "find P xs = Some x \<Longrightarrow> x \<in> set xs \<and> P x"
  by (auto simp: find_Some_iff)

end
