(* ===== verification/List_Heap.thy ===== *)
theory List_Heap
  imports Prelude
begin

text \<open>
  The circular doubly linked lists of \<^verbatim>\<open>libs/list.h\<close>.

  The model is a store: two total functions from link addresses to link addresses, the
  \<^verbatim>\<open>next\<close> and \<^verbatim>\<open>prev\<close> fields of every \<^verbatim>\<open>list_entry_t\<close> of the kernel. Each routine is the
  sequence of field assignments of the C code, in the order C performs them, so aliased
  arguments behave as they do in C. The predicate \<open>ring h a xs\<close> says that following the
  links from the head \<open>a\<close> visits exactly \<open>xs\<close>, forwards and backwards, and returns. The
  lemmas show that each routine changes \<open>xs\<close> as its comment promises and leaves every
  disjoint ring alone; the locale \<open>fifo_list\<close> is what the kernel's queues rely on.
\<close>

section \<open>The store and the routines\<close>

record 'l links =
  lprev :: "'l \<Rightarrow> 'l"
  lnext :: "'l \<Rightarrow> 'l"

definition set_next :: "'l links \<Rightarrow> 'l \<Rightarrow> 'l \<Rightarrow> 'l links" where
  "set_next h a b = h\<lparr>lnext := (lnext h)(a := b)\<rparr>"

definition set_prev :: "'l links \<Rightarrow> 'l \<Rightarrow> 'l \<Rightarrow> 'l links" where
  "set_prev h a b = h\<lparr>lprev := (lprev h)(a := b)\<rparr>"

lemma set_next_simps [simp]:
  "lnext (set_next h a b) = (lnext h)(a := b)" "lprev (set_next h a b) = lprev h"
  "lnext (set_prev h a b) = lnext h" "lprev (set_prev h a b) = (lprev h)(a := b)"
  by (simp_all add: set_next_def set_prev_def)

definition list_init :: "'l links \<Rightarrow> 'l \<Rightarrow> 'l links" where
  "list_init h elm = set_prev (set_next h elm elm) elm elm"

definition link_between :: "'l links \<Rightarrow> 'l \<Rightarrow> 'l \<Rightarrow> 'l \<Rightarrow> 'l links" where
  "link_between h elm prev nxt =
     (let h = set_prev h nxt elm;
          h = set_next h prev elm;
          h = set_next h elm nxt
      in set_prev h elm prev)"

definition unlink_between :: "'l links \<Rightarrow> 'l \<Rightarrow> 'l \<Rightarrow> 'l links" where
  "unlink_between h prev nxt = set_prev (set_next h prev nxt) nxt prev"

definition list_add_after :: "'l links \<Rightarrow> 'l \<Rightarrow> 'l \<Rightarrow> 'l links" where
  "list_add_after h listelm elm = link_between h elm listelm (lnext h listelm)"

definition list_add :: "'l links \<Rightarrow> 'l \<Rightarrow> 'l \<Rightarrow> 'l links" where
  "list_add h listelm elm = list_add_after h listelm elm"

definition list_add_before :: "'l links \<Rightarrow> 'l \<Rightarrow> 'l \<Rightarrow> 'l links" where
  "list_add_before h listelm elm = link_between h elm (lprev h listelm) listelm"

definition list_del :: "'l links \<Rightarrow> 'l \<Rightarrow> 'l links" where
  "list_del h listelm = unlink_between h (lprev h listelm) (lnext h listelm)"

definition list_del_init :: "'l links \<Rightarrow> 'l \<Rightarrow> 'l links" where
  "list_del_init h listelm = list_init (list_del h listelm) listelm"

definition list_empty :: "'l links \<Rightarrow> 'l \<Rightarrow> bool" where
  "list_empty h l \<longleftrightarrow> lnext h l = l"

definition list_next :: "'l links \<Rightarrow> 'l \<Rightarrow> 'l" where
  "list_next h listelm = lnext h listelm"

definition list_prev :: "'l links \<Rightarrow> 'l \<Rightarrow> 'l" where
  "list_prev h listelm = lprev h listelm"

lemmas list_defs = list_init_def link_between_def unlink_between_def list_add_after_def
  list_add_def list_add_before_def list_del_def list_del_init_def list_next_def list_prev_def

section \<open>Rings\<close>

fun seg :: "'l links \<Rightarrow> 'l \<Rightarrow> 'l list \<Rightarrow> 'l \<Rightarrow> bool" where
  "seg h a [] b \<longleftrightarrow> lnext h a = b \<and> lprev h b = a"
| "seg h a (x # xs) b \<longleftrightarrow> lnext h a = x \<and> lprev h x = a \<and> seg h x xs b"

definition ring :: "'l links \<Rightarrow> 'l \<Rightarrow> 'l list \<Rightarrow> bool" where
  "ring h a xs \<longleftrightarrow> distinct (a # xs) \<and> seg h a xs a"

lemma seg_append [simp]: "seg h a (xs @ x # ys) b \<longleftrightarrow> seg h a xs x \<and> seg h x ys b"
  by (induction xs arbitrary: a) auto

lemma seg_first: "seg h a xs b \<Longrightarrow> lnext h a = hd (xs @ [b])"
  by (cases xs) auto

lemma seg_last: "seg h a xs b \<Longrightarrow> lprev h b = last (a # xs)"
  by (induction xs arbitrary: a) auto

lemma seg_cong:
  assumes "\<And>x. x \<in> set (a # xs) \<Longrightarrow> lnext h' x = lnext h x"
    and "\<And>x. x \<in> set (xs @ [b]) \<Longrightarrow> lprev h' x = lprev h x"
  shows "seg h' a xs b \<longleftrightarrow> seg h a xs b"
  using assms by (induction xs arbitrary: a) auto

lemma seg_set_next [simp]: "c \<notin> set (a # xs) \<Longrightarrow> seg (set_next h c d) a xs b \<longleftrightarrow> seg h a xs b"
  by (rule seg_cong) auto

lemma seg_set_prev [simp]: "c \<notin> set (xs @ [b]) \<Longrightarrow> seg (set_prev h c d) a xs b \<longleftrightarrow> seg h a xs b"
  by (rule seg_cong) auto

lemma ring_cong:
  assumes "\<And>x. x \<in> set (b # ys) \<Longrightarrow> lnext h' x = lnext h x \<and> lprev h' x = lprev h x"
  shows "ring h' b ys \<longleftrightarrow> ring h b ys"
  unfolding ring_def by (subst seg_cong [of b ys h' h b]) (use assms in auto)

lemma ring_distinct: "ring h a xs \<Longrightarrow> distinct (a # xs)"
  by (simp add: ring_def)

lemma ring_next_head: "ring h a xs \<Longrightarrow> lnext h a = hd (xs @ [a])"
  by (auto simp: ring_def dest: seg_first)

lemma ring_prev_head: "ring h a xs \<Longrightarrow> lprev h a = last (a # xs)"
  unfolding ring_def by (metis seg_last)

lemma ring_next: "ring h a (xs @ x # ys) \<Longrightarrow> lnext h x = hd (ys @ [a])"
  unfolding ring_def by (auto dest: seg_first)

lemma ring_prev: "ring h a (xs @ x # ys) \<Longrightarrow> lprev h x = last (a # xs)"
  unfolding ring_def using seg_last by fastforce

lemma ring_closed:
  assumes "ring h a xs" and "x \<in> set (a # xs)"
  shows "lnext h x \<in> set (a # xs)" and "lprev h x \<in> set (a # xs)"
proof -
  have "lnext h x \<in> set (a # xs) \<and> lprev h x \<in> set (a # xs)"
  proof (cases "x = a")
    case True
    with assms(1) show ?thesis
      by (cases xs) (auto simp: ring_next_head ring_prev_head)
  next
    case False
    with assms(2) obtain ys zs where xs: "xs = ys @ x # zs"
      by (auto dest: split_list)
    with assms(1) have "lnext h x = hd (zs @ [a])" "lprev h x = last (a # ys)"
      using ring_next [of h a ys x zs] ring_prev [of h a ys x zs] by auto
    then show ?thesis
      by (cases zs) (auto simp: xs)
  qed
  then show "lnext h x \<in> set (a # xs)" and "lprev h x \<in> set (a # xs)" by auto
qed

section \<open>What the routines do to a ring\<close>

lemma ring_list_init: "ring (list_init h a) a []"
  by (simp add: ring_def list_init_def)

lemma list_empty_ring: "ring h a xs \<Longrightarrow> list_empty h a \<longleftrightarrow> xs = []"
  by (cases xs) (auto simp: list_empty_def ring_next_head dest: ring_distinct)

lemma ring_rotate: "ring h a (xs @ x # ys) \<longleftrightarrow> ring h x (ys @ a # xs)"
  by (auto simp: ring_def)

lemma ring_add_after_head:
  assumes "ring h a xs" and "e \<notin> set (a # xs)"
  shows "ring (list_add_after h a e) a (e # xs)"
proof (cases xs)
  case Nil
  with assms show ?thesis
    by (auto simp: ring_def list_add_after_def link_between_def)
next
  case (Cons x ys)
  with assms show ?thesis
    by (auto simp: ring_def list_add_after_def link_between_def Let_def)
qed

lemma ring_add_after:
  assumes "ring h a (xs @ x # ys)" and "e \<notin> set (a # xs @ x # ys)"
  shows "ring (list_add_after h x e) a (xs @ x # e # ys)"
proof -
  have "ring h x (ys @ a # xs)" using assms(1) by (simp add: ring_rotate)
  then have "ring (list_add_after h x e) x ((e # ys) @ a # xs)"
    using ring_add_after_head [of h x "ys @ a # xs" e] assms(2) by auto
  then show ?thesis using ring_rotate [of _ a xs x "e # ys"] by simp
qed

lemma list_add_before_eq_after:
  "list_add_before h x e = list_add_after h (lprev h x) e" if "lnext h (lprev h x) = x"
  using that by (simp add: list_add_before_def list_add_after_def)

lemma ring_next_prev: "ring h a xs \<Longrightarrow> x \<in> set (a # xs) \<Longrightarrow> lnext h (lprev h x) = x"
proof -
  assume r: "ring h a xs" and x: "x \<in> set (a # xs)"
  show ?thesis
  proof (cases "x = a")
    case True
    with r show ?thesis
      by (cases xs rule: rev_cases) (auto simp: ring_def)
  next
    case False
    with x obtain ys zs where "xs = ys @ x # zs" by (auto dest: split_list)
    with r show ?thesis
      by (cases ys rule: rev_cases) (auto simp: ring_def)
  qed
qed

lemma ring_add_before_head:
  assumes "ring h a xs" and "e \<notin> set (a # xs)"
  shows "ring (list_add_before h a e) a (xs @ [e])"
proof (cases xs rule: rev_cases)
  case Nil
  with assms show ?thesis
    by (auto simp: ring_def list_add_before_def link_between_def Let_def)
next
  case (snoc ys y)
  with assms show ?thesis
    using ring_add_after [of h a ys y "[]" e]
    by (simp add: list_add_before_eq_after [OF ring_next_prev] ring_prev_head)
qed

lemma ring_add_before:
  assumes "ring h a (xs @ x # ys)" and "e \<notin> set (a # xs @ x # ys)"
  shows "ring (list_add_before h x e) a (xs @ e # x # ys)"
proof -
  have "ring h x (ys @ a # xs)" using assms(1) by (simp add: ring_rotate)
  then have "ring (list_add_before h x e) x ((ys @ a # xs) @ [e])"
    by (rule ring_add_before_head) (use assms(2) in auto)
  then show ?thesis using ring_rotate [of _ a "xs @ [e]" x ys] by simp
qed

lemma ring_list_del:
  assumes "ring h a (xs @ x # ys)"
  shows "ring (list_del h x) a (xs @ ys)"
proof -
  have "ring (list_del h x) a ys" if "ring h a (x # ys)" for a ys
    using that by (cases ys) (auto simp: ring_def list_del_def unlink_between_def)
  note hd = this
  show ?thesis
  proof (cases xs rule: rev_cases)
    case Nil
    with assms hd show ?thesis by simp
  next
    case (snoc zs z)
    with assms have "ring h z (x # ys @ a # zs)"
      using ring_rotate [of h a zs z "x # ys"] by simp
    then have "ring (list_del h x) z (ys @ a # zs)" by (rule hd)
    then show ?thesis using snoc by (simp add: ring_rotate)
  qed
qed

lemma ring_succ: "ring h a (xs @ ys) \<Longrightarrow> lnext h (last (a # xs)) = hd (ys @ [a])"
  by (cases xs rule: rev_cases) (auto simp: ring_next_head ring_next)

lemma ring_pred: "ring h a (xs @ ys) \<Longrightarrow> lprev h (hd (ys @ [a])) = last (a # xs)"
  by (cases ys) (auto simp: ring_prev_head dest: ring_prev)

lemma ring_add_at:
  "ring h a (xs @ ys) \<Longrightarrow> e \<notin> set (a # xs @ ys) \<Longrightarrow>
     ring (list_add_after h (last (a # xs)) e) a (xs @ e # ys)"
  by (cases xs rule: rev_cases) (auto intro: ring_add_after_head dest: ring_add_after)

lemma ring_add_before_at:
  "ring h a (xs @ ys) \<Longrightarrow> e \<notin> set (a # xs @ ys) \<Longrightarrow>
     ring (list_add_before h (hd (ys @ [a])) e) a (xs @ e # ys)"
  by (cases ys) (auto intro: ring_add_before_head dest: ring_add_before)

section \<open>Frame: disjoint rings are left alone\<close>

lemma ring_frame_init: "ring h b ys \<Longrightarrow> e \<notin> set (b # ys) \<Longrightarrow> ring (list_init h e) b ys"
  by (subst ring_cong) (auto simp: list_init_def)

lemma ring_frame_add_after:
  assumes "ring h b ys" and "ring h a xs" and "n \<in> set (a # xs)"
    and "set (a # xs) \<inter> set (b # ys) = {}" and "e \<notin> set (b # ys)"
  shows "ring (list_add_after h n e) b ys"
proof -
  have "n \<notin> set (b # ys)" "lnext h n \<notin> set (b # ys)"
    using assms ring_closed [OF assms(2,3)] by blast+
  with assms show ?thesis
    by (subst ring_cong) (auto simp: list_add_after_def link_between_def Let_def)
qed

lemma ring_frame_add_before:
  assumes "ring h b ys" and "ring h a xs" and "n \<in> set (a # xs)"
    and "set (a # xs) \<inter> set (b # ys) = {}" and "e \<notin> set (b # ys)"
  shows "ring (list_add_before h n e) b ys"
  using assms ring_frame_add_after [OF assms(1,2), of "lprev h n"]
    ring_closed [OF assms(2,3)] ring_next_prev [OF assms(2,3)]
  by (simp add: list_add_before_eq_after)

lemma ring_frame_del:
  assumes "ring h b ys" and "ring h a xs" and "x \<in> set (a # xs)"
    and "set (a # xs) \<inter> set (b # ys) = {}"
  shows "ring (list_del h x) b ys"
proof -
  have "lprev h x \<notin> set (b # ys)" "lnext h x \<notin> set (b # ys)"
    using assms ring_closed [OF assms(2,3)] by blast+
  with assms(1) show ?thesis
    by (subst ring_cong) (auto simp: list_del_def unlink_between_def)
qed

lemma ring_list_del_init:
  assumes "ring h a (xs @ x # ys)"
  shows "ring (list_del_init h x) a (xs @ ys)" and "ring (list_del_init h x) x []"
proof -
  have "x \<notin> set (a # xs @ ys)" using ring_distinct [OF assms] by auto
  then show "ring (list_del_init h x) a (xs @ ys)"
    unfolding list_del_init_def by (intro ring_frame_init ring_list_del assms)
  show "ring (list_del_init h x) x []"
    unfolding list_del_init_def by (rule ring_list_init)
qed

lemma ring_frame_del_init:
  assumes "ring h b ys" and "ring h a xs" and "x \<in> set (a # xs)"
    and "set (a # xs) \<inter> set (b # ys) = {}"
  shows "ring (list_del_init h x) b ys"
  unfolding list_del_init_def
  using assms by (intro ring_frame_init ring_frame_del) auto

section \<open>The queue interface\<close>

text \<open>
  What the run queue, the wait queues and the timer list rely on: a list whose tail is
  extended by inserting before the head, whose front is the head's successor, and from
  which any element can be unlinked. \<open>drain\<close> takes \<open>n\<close> elements off the front.
\<close>

fun drain :: "('h \<Rightarrow> 'l \<Rightarrow> 'l) \<Rightarrow> ('h \<Rightarrow> 'l \<Rightarrow> 'h) \<Rightarrow> 'l \<Rightarrow> nat \<Rightarrow> 'h \<Rightarrow> 'l list \<times> 'h" where
  "drain front del a 0 h = ([], h)"
| "drain front del a (Suc n) h =
     (let x = front h a; (xs, h') = drain front del a n (del h x) in (x # xs, h'))"

locale fifo_list =
  fixes rep :: "'h \<Rightarrow> 'l \<Rightarrow> 'l list \<Rightarrow> bool"
    and init :: "'h \<Rightarrow> 'l \<Rightarrow> 'h"
    and add_tail :: "'h \<Rightarrow> 'l \<Rightarrow> 'l \<Rightarrow> 'h"
    and del :: "'h \<Rightarrow> 'l \<Rightarrow> 'h"
    and is_empty :: "'h \<Rightarrow> 'l \<Rightarrow> bool"
    and front :: "'h \<Rightarrow> 'l \<Rightarrow> 'l"
  assumes rep_distinct: "rep h a xs \<Longrightarrow> distinct (a # xs)"
    and rep_init: "rep (init h a) a []"
    and rep_add_tail: "rep h a xs \<Longrightarrow> e \<notin> set (a # xs) \<Longrightarrow> rep (add_tail h a e) a (xs @ [e])"
    and rep_del: "rep h a (xs @ x # ys) \<Longrightarrow> rep (del h x) a (xs @ ys)"
    and rep_del_self: "rep h a (xs @ x # ys) \<Longrightarrow> rep (del h x) x []"
    and rep_is_empty: "rep h a xs \<Longrightarrow> is_empty h a \<longleftrightarrow> xs = []"
    and rep_front: "rep h a (x # xs) \<Longrightarrow> front h a = x"
    and rep_frame_add: "rep h b ys \<Longrightarrow> rep h a xs \<Longrightarrow> set (a # xs) \<inter> set (b # ys) = {} \<Longrightarrow>
          e \<notin> set (b # ys) \<Longrightarrow> rep (add_tail h a e) b ys"
    and rep_frame_del: "rep h b ys \<Longrightarrow> rep h a xs \<Longrightarrow> set (a # xs) \<inter> set (b # ys) = {} \<Longrightarrow>
          x \<in> set xs \<Longrightarrow> rep (del h x) b ys"
begin

lemma add_all:
  "rep h a xs \<Longrightarrow> distinct (a # xs @ es) \<Longrightarrow> rep (fold (\<lambda>e h. add_tail h a e) es h) a (xs @ es)"
proof (induction es arbitrary: h xs)
  case Nil
  then show ?case by simp
next
  case (Cons e es)
  then have "rep (add_tail h a e) a (xs @ [e])" by (intro rep_add_tail) auto
  then have "rep (fold (\<lambda>e h. add_tail h a e) es (add_tail h a e)) a ((xs @ [e]) @ es)"
    by (rule Cons.IH) (use Cons.prems in auto)
  then show ?case by simp
qed

lemma drain_prefix:
  "rep h a (xs @ ys) \<Longrightarrow> \<exists>h'. drain front del a (length xs) h = (xs, h') \<and> rep h' a ys"
proof (induction xs arbitrary: h)
  case Nil
  then show ?case by simp
next
  case (Cons x xs)
  have "front h a = x" using Cons.prems by (auto intro: rep_front)
  moreover have "rep (del h x) a (xs @ ys)" using rep_del [of h a "[]" x "xs @ ys"] Cons.prems by simp
  then obtain h' where "drain front del a (length xs) (del h x) = (xs, h')" "rep h' a ys"
    using Cons.IH by blast
  ultimately show ?case by simp
qed

lemma fifo:
  assumes "distinct (a # es)"
  shows "\<exists>h'. drain front del a (length es) (fold (\<lambda>e h. add_tail h a e) es (init h a)) = (es, h')
           \<and> rep h' a []"
  using drain_prefix [of _ a es "[]"] add_all [OF rep_init, of a es h] assms by simp

end

interpretation klist: fifo_list ring list_init list_add_before list_del_init list_empty list_next
proof unfold_locales
  show "ring h a xs \<Longrightarrow> distinct (a # xs)" for h :: "'a links" and a xs
    by (rule ring_distinct)
  show "ring (list_init h a) a []" for h :: "'a links" and a
    by (rule ring_list_init)
  show "ring h a xs \<Longrightarrow> e \<notin> set (a # xs) \<Longrightarrow> ring (list_add_before h a e) a (xs @ [e])"
    for h :: "'a links" and a xs e
    by (rule ring_add_before_head)
  show "ring h a (xs @ x # ys) \<Longrightarrow> ring (list_del_init h x) a (xs @ ys)"
    "ring h a (xs @ x # ys) \<Longrightarrow> ring (list_del_init h x) x []" for h :: "'a links" and a xs x ys
    by (fact ring_list_del_init)+
  show "ring h a xs \<Longrightarrow> list_empty h a \<longleftrightarrow> xs = []" for h :: "'a links" and a xs
    by (rule list_empty_ring)
  show "ring h a (x # xs) \<Longrightarrow> list_next h a = x" for h :: "'a links" and a x xs
    by (simp add: list_next_def ring_next_head)
  show "ring h b ys \<Longrightarrow> ring h a xs \<Longrightarrow> set (a # xs) \<inter> set (b # ys) = {} \<Longrightarrow>
    e \<notin> set (b # ys) \<Longrightarrow> ring (list_add_before h a e) b ys" for h :: "'a links" and a b xs ys e
    by (rule ring_frame_add_before) auto
  show "ring h b ys \<Longrightarrow> ring h a xs \<Longrightarrow> set (a # xs) \<inter> set (b # ys) = {} \<Longrightarrow>
    x \<in> set xs \<Longrightarrow> ring (list_del_init h x) b ys" for h :: "'a links" and a b xs ys x
    by (rule ring_frame_del_init) auto
qed

text \<open>in-order service. Entries linked one after the other before the head of a fresh
  list by \<^verbatim>\<open>list_add_before\<close> come off its front, by \<^verbatim>\<open>list_next\<close> and \<^verbatim>\<open>list_del_init\<close>, in
  exactly the order they were added, and the list is empty again afterwards.\<close>

theorem list_fifo:
  assumes "distinct (a # es)"
  shows "\<exists>h'. drain list_next list_del_init a (length es)
            (fold (\<lambda>e h. list_add_before h a e) es (list_init h a)) = (es, h')
           \<and> ring h' a []"
  using assms by (rule klist.fifo)

theorem list_fifo_witness:
  "\<exists>h'. drain list_next list_del_init (0::nat) 3
     (fold (\<lambda>e h. list_add_before h 0 e) [7, 3, 9]
       (list_init \<lparr>lprev = (\<lambda>_. 0), lnext = (\<lambda>_. 0)\<rparr> 0)) = ([7, 3, 9], h') \<and> ring h' 0 []"
proof -
  have "length [7, 3, 9 :: nat] = 3" by simp
  note fifo = list_fifo [of 0 "[7, 3, 9 :: nat]" "\<lparr>lprev = (\<lambda>_. 0), lnext = (\<lambda>_. 0)\<rparr>", unfolded this]
  show ?thesis by (rule fifo) simp
qed

end
