(* ===== verification/Skew_Heap.thy ===== *)
theory Skew_Heap
  imports Prelude "HOL-Library.Tree" "HOL-Library.Tree_Multiset"
begin

text \<open>
  The skew heap of \<^verbatim>\<open>libs/skew_heap.h\<close>, the priority queue under the stride scheduler.

  An entry is embedded in the object it orders, so a pointer to an entry is the name of that
  object and the heap is a store from names to entries with \<^verbatim>\<open>parent\<close>, \<^verbatim>\<open>left\<close> and \<^verbatim>\<open>right\<close>
  pointers; \<open>None\<close> is the null pointer. The routines assign to the store exactly as the C code
  does. The abstraction is a binary tree: \<open>shape h p t\<close> says that the pointer \<open>p\<close> is the root of
  the tree \<open>t\<close> in the store \<open>h\<close>, \<open>parents h q t\<close> that all its parent pointers are right with
  \<open>q\<close> above the root. Every routine is shown to refine a function on trees, and these keep the
  multiset of entries and the heap order.
\<close>

section \<open>The routines\<close>

record 'e skew_heap_entry =
  sk_parent :: "'e option"
  sk_left :: "'e option"
  sk_right :: "'e option"

type_synonym 'e pool = "'e \<Rightarrow> 'e skew_heap_entry"

type_synonym 'e compare_f = "'e \<Rightarrow> 'e \<Rightarrow> int"

definition set_parent :: "'e option \<Rightarrow> 'e option \<Rightarrow> 'e pool \<Rightarrow> 'e pool" where
  "set_parent l q h = (case l of None \<Rightarrow> h | Some x \<Rightarrow> h(x := (h x)\<lparr>sk_parent := q\<rparr>))"

definition skew_heap_init :: "'e \<Rightarrow> 'e pool \<Rightarrow> 'e pool" where
  "skew_heap_init a h = h(a := \<lparr>sk_parent = None, sk_left = None, sk_right = None\<rparr>)"

partial_function (option) skew_heap_merge ::
  "'e compare_f \<Rightarrow> 'e option \<Rightarrow> 'e option \<Rightarrow> 'e pool \<Rightarrow> ('e option \<times> 'e pool) option" where
  "skew_heap_merge cmp a b h =
     (case a of
        None \<Rightarrow> Some (b, h)
      | Some x \<Rightarrow>
          (case b of
             None \<Rightarrow> Some (a, h)
           | Some y \<Rightarrow>
               if cmp x y = - 1 then do {
                 let r = sk_left (h x);
                 (l, h) \<leftarrow> skew_heap_merge cmp (sk_right (h x)) b h;
                 let h = h(x := (h x)\<lparr>sk_left := l, sk_right := r\<rparr>);
                 Some (a, set_parent l a h)
               } else do {
                 let r = sk_left (h y);
                 (l, h) \<leftarrow> skew_heap_merge cmp a (sk_right (h y)) h;
                 let h = h(y := (h y)\<lparr>sk_left := l, sk_right := r\<rparr>);
                 Some (b, set_parent l b h)
               }))"

definition skew_heap_insert ::
  "'e compare_f \<Rightarrow> 'e option \<Rightarrow> 'e \<Rightarrow> 'e pool \<Rightarrow> ('e option \<times> 'e pool) option" where
  "skew_heap_insert cmp a b h = skew_heap_merge cmp a (Some b) (skew_heap_init b h)"

definition skew_heap_remove ::
  "'e compare_f \<Rightarrow> 'e option \<Rightarrow> 'e \<Rightarrow> 'e pool \<Rightarrow> ('e option \<times> 'e pool) option" where
  "skew_heap_remove cmp a b h = do {
     let p = sk_parent (h b);
     (rep, h) \<leftarrow> skew_heap_merge cmp (sk_left (h b)) (sk_right (h b)) h;
     let h = set_parent rep p h;
     (case p of
        Some q \<Rightarrow>
          if sk_left (h q) = Some b then Some (a, h(q := (h q)\<lparr>sk_left := rep\<rparr>))
          else Some (a, h(q := (h q)\<lparr>sk_right := rep\<rparr>))
      | None \<Rightarrow> Some (rep, h))
   }"

section \<open>Trees in the store\<close>

fun shape :: "'e pool \<Rightarrow> 'e option \<Rightarrow> 'e tree \<Rightarrow> bool" where
  "shape h p Leaf = (p = None)"
| "shape h p (Node l x r) = (p = Some x \<and> shape h (sk_left (h x)) l \<and> shape h (sk_right (h x)) r)"

fun parents :: "'e pool \<Rightarrow> 'e option \<Rightarrow> 'e tree \<Rightarrow> bool" where
  "parents h q Leaf = True"
| "parents h q (Node l x r) =
     (sk_parent (h x) = q \<and> parents h (Some x) l \<and> parents h (Some x) r)"

fun inner :: "'e pool \<Rightarrow> 'e tree \<Rightarrow> bool" where
  "inner h Leaf = True"
| "inner h (Node l x r) = (parents h (Some x) l \<and> parents h (Some x) r)"

fun single :: "'e tree \<Rightarrow> bool" where
  "single Leaf = True"
| "single (Node l x r) =
     (single l \<and> single r \<and> x \<notin> set_tree l \<and> x \<notin> set_tree r \<and> set_tree l \<inter> set_tree r = {})"

definition skew :: "'e pool \<Rightarrow> 'e option \<Rightarrow> 'e tree \<Rightarrow> bool" where
  "skew h p t \<longleftrightarrow> shape h p t \<and> parents h None t \<and> single t"

section \<open>The functions the routines refine\<close>

fun smerge :: "'e compare_f \<Rightarrow> 'e tree \<Rightarrow> 'e tree \<Rightarrow> 'e tree" where
  "smerge cmp Leaf t = t"
| "smerge cmp t Leaf = t"
| "smerge cmp (Node l1 x r1) (Node l2 y r2) =
     (if cmp x y = - 1 then Node (smerge cmp r1 (Node l2 y r2)) x l1
      else Node (smerge cmp (Node l1 x r1) r2) y l2)"

fun sremove :: "'e compare_f \<Rightarrow> 'e \<Rightarrow> 'e tree \<Rightarrow> 'e tree" where
  "sremove cmp b Leaf = Leaf"
| "sremove cmp b (Node l x r) =
     (if x = b then smerge cmp l r else Node (sremove cmp b l) x (sremove cmp b r))"

lemma smerge_Leaf2 [simp]: "smerge cmp t Leaf = t"
  by (cases t) simp_all

lemma mset_smerge [simp]: "mset_tree (smerge cmp t u) = mset_tree t + mset_tree u"
  by (induction cmp t u rule: smerge.induct) simp_all

lemma set_smerge [simp]: "set_tree (smerge cmp t u) = set_tree t \<union> set_tree u"
  by (induction cmp t u rule: smerge.induct) auto

lemma single_smerge:
  "single t \<Longrightarrow> single u \<Longrightarrow> set_tree t \<inter> set_tree u = {} \<Longrightarrow> single (smerge cmp t u)"
  by (induction cmp t u rule: smerge.induct) auto

lemma set_sremove: "single t \<Longrightarrow> set_tree (sremove cmp b t) = set_tree t - {b}"
proof (induction t)
  case (Node l x r)
  then show ?case
    by (cases "x = b") auto
qed simp

lemma single_sremove: "single t \<Longrightarrow> single (sremove cmp b t)"
proof (induction t)
  case (Node l x r)
  then show ?case
    by (cases "x = b") (auto simp: set_sremove intro: single_smerge)
qed simp

lemma sremove_absent [simp]: "b \<notin> set_tree t \<Longrightarrow> sremove cmp b t = t"
  by (induction t) auto

section \<open>Heap order\<close>

text \<open>The comparison routine agrees with an integer key on the entries of a set.\<close>

definition ranks :: "'e compare_f \<Rightarrow> ('e \<Rightarrow> int) \<Rightarrow> 'e set \<Rightarrow> bool" where
  "ranks cmp key S \<longleftrightarrow> (\<forall>x\<in>S. \<forall>y\<in>S. cmp x y = - 1 \<longleftrightarrow> key x < key y)"

fun heap_by :: "('e \<Rightarrow> int) \<Rightarrow> 'e tree \<Rightarrow> bool" where
  "heap_by key Leaf = True"
| "heap_by key (Node l x r) =
     (heap_by key l \<and> heap_by key r \<and> (\<forall>y\<in>set_tree l \<union> set_tree r. key x \<le> key y))"

lemma ranks_mono: "ranks cmp key S \<Longrightarrow> T \<subseteq> S \<Longrightarrow> ranks cmp key T"
  unfolding ranks_def by blast

lemma heap_by_root: "heap_by key (Node l x r) \<Longrightarrow> y \<in> set_tree (Node l x r) \<Longrightarrow> key x \<le> key y"
  by auto

lemma heap_smerge:
  "heap_by key t \<Longrightarrow> heap_by key u \<Longrightarrow> ranks cmp key (set_tree t \<union> set_tree u) \<Longrightarrow>
   heap_by key (smerge cmp t u)"
proof (induction cmp t u rule: smerge.induct)
  case (3 cmp l1 x r1 l2 y r2)
  have xy: "cmp x y = - 1 \<longleftrightarrow> key x < key y"
    using "3.prems"(3) by (simp add: ranks_def)
  show ?case
  proof (cases "cmp x y = - 1")
    case True
    have "ranks cmp key (set_tree r1 \<union> set_tree (Node l2 y r2))"
      by (rule ranks_mono [OF "3.prems"(3)]) auto
    then have "heap_by key (smerge cmp r1 (Node l2 y r2))"
      using "3.IH"(1) [OF True] "3.prems" by simp
    moreover have "\<forall>z\<in>set_tree (Node l2 y r2). key x \<le> key z"
      using True xy heap_by_root [OF "3.prems"(2)] by fastforce
    ultimately show ?thesis
      using True "3.prems"(1) by auto
  next
    case False
    have "ranks cmp key (set_tree (Node l1 x r1) \<union> set_tree r2)"
      by (rule ranks_mono [OF "3.prems"(3)]) auto
    then have "heap_by key (smerge cmp (Node l1 x r1) r2)"
      using "3.IH"(2) [OF False] "3.prems" by simp
    moreover have "\<forall>z\<in>set_tree (Node l1 x r1). key y \<le> key z"
      using False xy heap_by_root [OF "3.prems"(1)] by fastforce
    ultimately show ?thesis
      using False "3.prems"(2) by auto
  qed
qed simp_all

lemma heap_sremove:
  "heap_by key t \<Longrightarrow> single t \<Longrightarrow> ranks cmp key (set_tree t) \<Longrightarrow> heap_by key (sremove cmp b t)"
proof (induction t)
  case (Node l x r)
  have rl: "ranks cmp key (set_tree l)" and rr: "ranks cmp key (set_tree r)"
    and rlr: "ranks cmp key (set_tree l \<union> set_tree r)"
    by (rule ranks_mono [OF Node.prems(3)], auto)+
  show ?case
  proof (cases "x = b")
    case True
    then show ?thesis using Node.prems rlr by (simp add: heap_smerge)
  next
    case False
    then show ?thesis
      using Node rl rr by (auto simp: set_sremove)
  qed
qed simp

section \<open>Refinement\<close>

lemma shape_cong: "(\<And>x. x \<in> set_tree t \<Longrightarrow> h' x = h x) \<Longrightarrow> shape h' p t = shape h p t"
  by (induction t arbitrary: p) auto

lemma shape_links_cong:
  "(\<And>x. x \<in> set_tree t \<Longrightarrow> sk_left (h' x) = sk_left (h x) \<and> sk_right (h' x) = sk_right (h x)) \<Longrightarrow>
   shape h' p t = shape h p t"
  by (induction t arbitrary: p) auto

lemma parents_cong:
  "(\<And>x. x \<in> set_tree t \<Longrightarrow> sk_parent (h' x) = sk_parent (h x)) \<Longrightarrow> parents h' q t = parents h q t"
  by (induction t arbitrary: q) auto

lemma inner_cong:
  "(\<And>x. x \<in> set_tree t \<Longrightarrow> sk_parent (h' x) = sk_parent (h x)) \<Longrightarrow> inner h' t = inner h t"
  by (cases t) (auto cong: parents_cong)

lemma parents_inner: "parents h q t \<Longrightarrow> inner h t"
  by (cases t) simp_all

lemma set_parent_sel [simp]:
  "sk_left (set_parent p q h x) = sk_left (h x)"
  "sk_right (set_parent p q h x) = sk_right (h x)"
  "sk_parent (set_parent p q h x) = (if p = Some x then q else sk_parent (h x))"
  by (auto simp: set_parent_def split: option.splits)

lemma set_parent_other: "p \<noteq> Some x \<Longrightarrow> set_parent p q h x = h x"
  by (auto simp: set_parent_def split: option.splits)

lemma shape_None [simp]: "shape h None t \<longleftrightarrow> t = Leaf"
  by (cases t) auto

lemma shape_Some: "shape h (Some x) t \<longleftrightarrow>
   (\<exists>l r. t = Node l x r \<and> shape h (sk_left (h x)) l \<and> shape h (sk_right (h x)) r)"
  by (cases t) auto

lemma shape_root: "shape h p t \<Longrightarrow> p = Some x \<Longrightarrow> x \<in> set_tree t"
  by (cases t) auto

lemma tree_frame:
  "(\<And>x. x \<in> set_tree t \<Longrightarrow> h' x = h x) \<Longrightarrow> shape h p t \<Longrightarrow> parents h q t \<Longrightarrow>
   shape h' p t \<and> parents h' q t"
  using shape_cong [of t h' h] parents_cong [of t h' h] by simp

lemma adopt:
  assumes sh: "shape h p t" and inn: "inner h t" and si: "single t"
  shows "parents (set_parent p q h) q t"
proof (cases t)
  case (Node l x r)
  have "parents (set_parent (Some x) q h) (Some x) u = parents h (Some x) u" if "u = l \<or> u = r" for u
    by (rule parents_cong) (use si Node that in auto)
  then show ?thesis using assms Node by simp
qed simp

text \<open>One level of the merge: the root \<open>x\<close> takes the merged tree on its left and its old left
  subtree on its right.\<close>

lemma merge_level:
  assumes sh: "shape h1 p u" and inn: "inner h1 u" and si: "single u" and x: "x \<notin> set_tree u"
    and keep: "shape h1 q l" "parents h1 (Some x) l" and dl: "x \<notin> set_tree l"
    and du: "set_tree l \<inter> set_tree u = {}"
    and h2: "h2 = set_parent p (Some x) (h1(x := (h1 x)\<lparr>sk_left := p, sk_right := q\<rparr>))"
  shows "shape h2 (Some x) (Node u x l)" "inner h2 (Node u x l)"
proof -
  let ?g = "h1(x := (h1 x)\<lparr>sk_left := p, sk_right := q\<rparr>)"
  have p: "p \<noteq> Some x" using sh x shape_root by metis
  have pl: "p \<noteq> Some y" if "y \<in> set_tree l" for y using sh du that shape_root [OF sh] by blast
  have x2: "sk_left (h2 x) = p" "sk_right (h2 x) = q" using p by (simp_all add: h2)
  have su: "shape h2 p u"
    using sh x by (subst shape_links_cong [of u h2 h1]) (auto simp: h2)
  have sl: "shape h2 q l"
    using keep dl by (subst shape_links_cong [of l h2 h1]) (auto simp: h2)
  show "shape h2 (Some x) (Node u x l)" using x2 su sl by simp
  have sg: "shape ?g p u" using sh x by (subst shape_links_cong [of u ?g h1]) auto
  have ig: "inner ?g u" using inn x by (subst inner_cong [of u ?g h1]) auto
  have pu: "parents h2 (Some x) u" unfolding h2 by (rule adopt [OF sg ig si])
  have "parents h2 (Some x) l = parents h1 (Some x) l"
    by (rule parents_cong) (use dl pl in \<open>auto simp: h2\<close>)
  then show "inner h2 (Node u x l)" using pu keep by simp
qed

lemma merge_refines:
  assumes "shape h a t" "shape h b u" "inner h t" "inner h u" "single t" "single u"
    "set_tree t \<inter> set_tree u = {}"
  shows "\<exists>p h'. skew_heap_merge cmp a b h = Some (p, h') \<and> shape h' p (smerge cmp t u) \<and>
    inner h' (smerge cmp t u) \<and> (\<forall>z. z \<notin> set_tree t \<union> set_tree u \<longrightarrow> h' z = h z) \<and>
    (\<forall>z. p = Some z \<longrightarrow> sk_parent (h' z) = sk_parent (h z))"
  using assms
proof (induction cmp t u arbitrary: a b h rule: smerge.induct)
  case (1 cmp t)
  then show ?case by (subst skew_heap_merge.simps) simp
next
  case (2 cmp v va vb)
  then show ?case by (subst skew_heap_merge.simps) simp
next
  case (3 cmp l1 x r1 l2 y r2)
  note prems = "3.prems"
  have a: "a = Some x" and b: "b = Some y" using prems by simp_all
  have ne: "x \<noteq> y" using prems by auto
  show ?case
  proof (cases "cmp x y = - 1")
    case True
    have i: "inner h r1" using prems(3) parents_inner by auto
    have d: "set_tree r1 \<inter> set_tree (Node l2 y r2) = {}" using prems(7) by auto
    obtain p h1 where m: "skew_heap_merge cmp (sk_right (h x)) b h = Some (p, h1)"
      and s: "shape h1 p (smerge cmp r1 (Node l2 y r2))"
      and inn: "inner h1 (smerge cmp r1 (Node l2 y r2))"
      and fr: "\<And>z. z \<notin> set_tree r1 \<union> set_tree (Node l2 y r2) \<Longrightarrow> h1 z = h z"
      using "3.IH"(1) [OF True, of h "sk_right (h x)" b] prems i d by auto
    define h2 where "h2 = set_parent p (Some x) (h1(x := (h1 x)\<lparr>sk_left := p, sk_right := sk_left (h x)\<rparr>))"
    have x1: "h1 x = h x" using fr [of x] prems ne by auto
    have l1: "h1 z = h z" if "z \<in> set_tree l1" for z using fr [of z] that prems by auto
    have run: "skew_heap_merge cmp a b h = Some (Some x, h2)"
      by (subst skew_heap_merge.simps) (simp add: a b True m [unfolded b] h2_def Let_def)
    have sl: "shape h1 (sk_left (h x)) l1"
      using prems(1) l1 by (simp add: shape_cong [of l1 h1 h])
    have pl: "parents h1 (Some x) l1"
      using prems(3) l1 by (simp add: parents_cong [of l1 h1 h])
    have si: "single (smerge cmp r1 (Node l2 y r2))"
      using prems(5,6) d by (intro single_smerge) auto
    have lev: "shape h2 (Some x) (Node (smerge cmp r1 (Node l2 y r2)) x l1)"
      "inner h2 (Node (smerge cmp r1 (Node l2 y r2)) x l1)"
      using merge_level [OF s inn si _ sl pl _ _ h2_def] prems ne by auto
    have p: "p \<noteq> Some z" if "z \<notin> set_tree r1 \<union> set_tree (Node l2 y r2)" for z
      using shape_root [OF s] that by fastforce
    have fr2: "h2 z = h z" if "z \<notin> set_tree (Node l1 x r1) \<union> set_tree (Node l2 y r2)" for z
      using that p [of z] fr [of z] by (auto simp: h2_def set_parent_other)
    have "p \<noteq> Some x" using p [of x] prems ne by auto
    then have "sk_parent (h2 x) = sk_parent (h x)" by (simp add: h2_def x1)
    then show ?thesis using run lev fr2 True by auto
  next
    case False
    have i: "inner h r2" using prems(4) parents_inner by auto
    have d: "set_tree (Node l1 x r1) \<inter> set_tree r2 = {}" using prems(7) by auto
    obtain p h1 where m: "skew_heap_merge cmp a (sk_right (h y)) h = Some (p, h1)"
      and s: "shape h1 p (smerge cmp (Node l1 x r1) r2)"
      and inn: "inner h1 (smerge cmp (Node l1 x r1) r2)"
      and fr: "\<And>z. z \<notin> set_tree (Node l1 x r1) \<union> set_tree r2 \<Longrightarrow> h1 z = h z"
      using "3.IH"(2) [OF False, of h a "sk_right (h y)"] prems i d by auto
    define h2 where "h2 = set_parent p (Some y) (h1(y := (h1 y)\<lparr>sk_left := p, sk_right := sk_left (h y)\<rparr>))"
    have y1: "h1 y = h y" using fr [of y] prems ne by auto
    have l2: "h1 z = h z" if "z \<in> set_tree l2" for z using fr [of z] that prems by auto
    have run: "skew_heap_merge cmp a b h = Some (Some y, h2)"
      by (subst skew_heap_merge.simps) (simp add: a b False m [unfolded a] h2_def Let_def)
    have sl: "shape h1 (sk_left (h y)) l2"
      using prems(2) l2 by (simp add: shape_cong [of l2 h1 h])
    have pl: "parents h1 (Some y) l2"
      using prems(4) l2 by (simp add: parents_cong [of l2 h1 h])
    have si: "single (smerge cmp (Node l1 x r1) r2)"
      using prems(5,6) d by (intro single_smerge) auto
    have lev: "shape h2 (Some y) (Node (smerge cmp (Node l1 x r1) r2) y l2)"
      "inner h2 (Node (smerge cmp (Node l1 x r1) r2) y l2)"
      using merge_level [OF s inn si _ sl pl _ _ h2_def] prems ne by auto
    have p: "p \<noteq> Some z" if "z \<notin> set_tree (Node l1 x r1) \<union> set_tree r2" for z
      using shape_root [OF s] that by fastforce
    have fr2: "h2 z = h z" if "z \<notin> set_tree (Node l1 x r1) \<union> set_tree (Node l2 y r2)" for z
      using that p [of z] fr [of z] by (auto simp: h2_def set_parent_other)
    have "p \<noteq> Some y" using p [of y] prems ne by auto
    then have "sk_parent (h2 y) = sk_parent (h y)" by (simp add: h2_def y1)
    then show ?thesis using run lev fr2 False by auto
  qed
qed

lemma insert_refines:
  assumes sk: "skew h a t" and b: "b \<notin> set_tree t"
  shows "\<exists>p h'. skew_heap_insert cmp a b h = Some (p, h') \<and>
    skew h' p (smerge cmp t (Node Leaf b Leaf)) \<and> (\<forall>z. z \<notin> insert b (set_tree t) \<longrightarrow> h' z = h z)"
proof -
  let ?h = "skew_heap_init b h" and ?u = "Node Leaf b Leaf"
  have same: "?h z = h z" if "z \<in> set_tree t" for z using that b by (auto simp: skew_heap_init_def)
  have pa: "parents ?h None t" using sk same by (simp add: skew_def parents_cong [of t ?h h])
  have t: "shape ?h a t" "inner ?h t" "single t"
    using sk same parents_inner [OF pa] by (simp_all add: skew_def shape_cong [of t ?h h])
  have u: "shape ?h (Some b) ?u" "inner ?h ?u" "single ?u" by (simp_all add: skew_heap_init_def)
  have d: "set_tree t \<inter> set_tree ?u = {}" using b by simp
  obtain p h' where m: "skew_heap_merge cmp a (Some b) ?h = Some (p, h')"
    and s: "shape h' p (smerge cmp t ?u)" and i: "inner h' (smerge cmp t ?u)"
    and fr: "\<And>z. z \<notin> set_tree t \<union> set_tree ?u \<Longrightarrow> h' z = ?h z"
    and rt: "\<And>z. p = Some z \<Longrightarrow> sk_parent (h' z) = sk_parent (?h z)"
    using merge_refines [OF t(1) u(1) t(2) u(2) t(3) u(3) d, of cmp] by auto
  have root: "sk_parent (h' z) = None" if z: "p = Some z" for z
  proof -
    have "z \<in> insert b (set_tree t)" using shape_root [OF s z] by simp
    moreover from s z t(1) have "z = b \<or> a = Some z"
      by (cases t; cases "smerge cmp t ?u") (auto split: if_splits)
    ultimately have "sk_parent (?h z) = None"
      using pa t(1) by (cases t) (auto simp: skew_heap_init_def)
    then show ?thesis using rt [OF z] by simp
  qed
  have "parents h' None (smerge cmp t ?u)"
    using i s root by (cases "smerge cmp t ?u") auto
  moreover have "single (smerge cmp t ?u)" using t(3) b by (intro single_smerge) auto
  moreover have "h' z = h z" if "z \<notin> insert b (set_tree t)" for z
    using fr [of z] that by (auto simp: skew_heap_init_def)
  ultimately show ?thesis using m s by (auto simp: skew_heap_insert_def skew_def)
qed

text \<open>The subtree below an entry, and the tree with that subtree replaced.\<close>

fun below :: "'e \<Rightarrow> 'e tree \<Rightarrow> 'e tree" where
  "below b Leaf = Leaf"
| "below b (Node l x r) =
     (if x = b then Node l x r else if b \<in> set_tree l then below b l else below b r)"

fun graft :: "'e \<Rightarrow> 'e tree \<Rightarrow> 'e tree \<Rightarrow> 'e tree" where
  "graft b u Leaf = Leaf"
| "graft b u (Node l x r) = (if x = b then u else Node (graft b u l) x (graft b u r))"

lemma graft_absent [simp]: "b \<notin> set_tree t \<Longrightarrow> graft b u t = t"
  by (induction t) auto

lemma below_subset: "set_tree (below b t) \<subseteq> set_tree t"
  by (induction t) auto

lemma below_node:
  assumes "shape h p t" "parents h q t" "single t" "b \<in> set_tree t"
  obtains l r where "below b t = Node l b r" "shape h (sk_left (h b)) l" "shape h (sk_right (h b)) r"
    "parents h (Some b) l" "parents h (Some b) r" "single l" "single r"
    "b \<notin> set_tree l" "b \<notin> set_tree r" "set_tree l \<inter> set_tree r = {}"
  using assms
proof (induction t arbitrary: p q thesis)
  case (Node L x R)
  consider "x = b" | "x \<noteq> b" "b \<in> set_tree L" | "x \<noteq> b" "b \<notin> set_tree L" "b \<in> set_tree R"
    using Node.prems(5) by auto
  then show ?case
  proof cases
    case 1
    then show ?thesis using Node.prems by auto
  next
    case 2
    show ?thesis
      by (rule Node.IH(1) [where p = "sk_left (h x)" and q = "Some x"]) (use Node.prems 2 in auto)
  next
    case 3
    show ?thesis
      by (rule Node.IH(2) [where p = "sk_right (h x)" and q = "Some x"]) (use Node.prems 3 in auto)
  qed
qed simp

lemma sremove_graft:
  "single t \<Longrightarrow> below b t = Node l b r \<Longrightarrow> sremove cmp b t = graft b (smerge cmp l r) t"
proof (induction t)
  case (Node L x R)
  show ?case
  proof (cases "x = b")
    case False
    show ?thesis
    proof (cases "b \<in> set_tree L")
      case True
      then have "b \<notin> set_tree R" using Node.prems(1) by auto
      then show ?thesis using Node False True by simp
    next
      case bL: False
      then show ?thesis using Node False by simp
    qed
  qed (use Node in auto)
qed simp

lemma root_parent:
  "shape h p t \<Longrightarrow> parents h q t \<Longrightarrow> p = Some b \<Longrightarrow> sk_parent (h b) = q"
  by (cases t) auto

lemma parent_in_tree:
  "b \<in> set_tree t \<Longrightarrow> shape h p t \<Longrightarrow> parents h q t \<Longrightarrow> p \<noteq> Some b \<Longrightarrow> sk_parent (h b) = Some c \<Longrightarrow>
   c \<in> set_tree t"
proof (induction t arbitrary: p q)
  case (Node l y r)
  have yb: "y \<noteq> b" using Node.prems by auto
  have l: "shape h (sk_left (h y)) l" "parents h (Some y) l"
    and r: "shape h (sk_right (h y)) r" "parents h (Some y) r"
    using Node.prems by auto
  show ?case
  proof (cases "sk_left (h y) = Some b \<or> sk_right (h y) = Some b")
    case True
    then have "c = y" using root_parent [OF l] root_parent [OF r] Node.prems(5) by auto
    then show ?thesis by simp
  next
    case False
    then show ?thesis using Node.IH(1) [OF _ l] Node.IH(2) [OF _ r] Node.prems yb by auto
  qed
qed simp

lemma parents_Some: "parents h (Some c) t \<Longrightarrow> b \<in> set_tree t \<Longrightarrow> \<exists>d\<in>insert c (set_tree t). sk_parent (h b) = Some d"
  by (induction t arbitrary: c) auto

lemma parent_outside:
  "shape h p t \<Longrightarrow> parents h q t \<Longrightarrow> single t \<Longrightarrow> b \<in> set_tree t \<Longrightarrow> sk_parent (h b) = Some c \<Longrightarrow>
   q = None \<or> (\<exists>c'. q = Some c' \<and> c' \<notin> set_tree t) \<Longrightarrow> c \<notin> set_tree (below b t)"
proof (induction t arbitrary: p q)
  case (Node L x R)
  note pr = Node.prems
  consider "x = b" | "x \<noteq> b" "b \<in> set_tree L" | "x \<noteq> b" "b \<notin> set_tree L" "b \<in> set_tree R"
    using pr(4) by auto
  then show ?case
  proof cases
    case 1
    then show ?thesis using pr by auto
  next
    case 2
    then show ?thesis using Node.IH(1) [of "sk_left (h x)" "Some x"] pr by auto
  next
    case 3
    then show ?thesis using Node.IH(2) [of "sk_right (h x)" "Some x"] pr by auto
  qed
qed simp

lemma graft_refines:
  assumes "shape h p t" "parents h q t" "single t" "b \<in> set_tree t" "p \<noteq> Some b"
    "sk_parent (h b) = Some c"
    "\<And>z. z \<in> set_tree t \<Longrightarrow> z \<notin> set_tree (below b t) \<Longrightarrow> z \<noteq> c \<Longrightarrow> h3 z = h z"
    "h3 c = (if sk_left (h c) = Some b then (h c)\<lparr>sk_left := rep\<rparr> else (h c)\<lparr>sk_right := rep\<rparr>)"
    "shape h3 rep u" "parents h3 (Some c) u"
  shows "shape h3 p (graft b u t) \<and> parents h3 q (graft b u t)"
  using assms(1-5,7)
proof (induction t arbitrary: p q)
  case (Node L x R)
  note pr = Node.prems
  have xb: "x \<noteq> b" using pr by auto
  have shL: "shape h (sk_left (h x)) L" and shR: "shape h (sk_right (h x)) R" and p: "p = Some x"
    and paL: "parents h (Some x) L" and paR: "parents h (Some x) R" and px: "sk_parent (h x) = q"
    using pr by auto
  show ?case
  proof (cases "b \<in> set_tree L")
    case True
    have bR: "b \<notin> set_tree R" using pr True by auto
    have be: "below b (Node L x R) = below b L" using xb True by simp
    have subL: "set_tree (below b L) \<subseteq> set_tree L" by (rule below_subset)
    have xne: "x \<notin> set_tree (below b (Node L x R))" using be subL pr by auto
    have Rfr: "h3 z = h z" if "z \<in> set_tree R" "z \<noteq> c" for z
      using pr(6) [of z] that be subL pr(3) by auto
    show ?thesis
    proof (cases "sk_left (h x) = Some b")
      case lb: True
      have c: "c = x" using root_parent [OF shL paL lb] assms(6) by simp
      have g: "graft b u L = u" using shL lb by (cases L) auto
      have R3: "shape h3 (sk_right (h x)) R" "parents h3 (Some x) R"
        using tree_frame [OF Rfr shR paR] c pr(3) by auto
      show ?thesis using xb g bR R3 assms(8,9,10) c lb p px by simp
    next
      case False
      have "c \<in> set_tree L" by (rule parent_in_tree [OF True shL paL False assms(6)])
      then have nc: "c \<notin> set_tree R" and cx: "c \<noteq> x" using pr(3) by auto
      have L3: "shape h3 (sk_left (h x)) (graft b u L) \<and> parents h3 (Some x) (graft b u L)"
        by (rule Node.IH(1)) (use pr shL paL True False be in auto)
      have R3: "shape h3 (sk_right (h x)) R" "parents h3 (Some x) R"
        using tree_frame [OF Rfr shR paR] nc by auto
      have x3: "h3 x = h x" using pr(6) [of x] xne cx by simp
      show ?thesis using L3 R3 xb bR x3 p px by simp
    qed
  next
    case False
    have bR: "b \<in> set_tree R" using pr False xb by auto
    have be: "below b (Node L x R) = below b R" using xb False by simp
    have subR: "set_tree (below b R) \<subseteq> set_tree R" by (rule below_subset)
    have xne: "x \<notin> set_tree (below b (Node L x R))" using be subR pr by auto
    have nl: "sk_left (h x) \<noteq> Some b" using shape_root [OF shL] False by auto
    have Lfr: "h3 z = h z" if "z \<in> set_tree L" "z \<noteq> c" for z
      using pr(6) [of z] that be subR pr(3) by auto
    show ?thesis
    proof (cases "sk_right (h x) = Some b")
      case rb: True
      have c: "c = x" using root_parent [OF shR paR rb] assms(6) by simp
      have g: "graft b u R = u" using shR rb by (cases R) auto
      have L3: "shape h3 (sk_left (h x)) L" "parents h3 (Some x) L"
        using tree_frame [OF Lfr shL paL] c pr(3) by auto
      show ?thesis using xb g False L3 assms(8,9,10) c nl p px by simp
    next
      case nrb: False
      have "c \<in> set_tree R" by (rule parent_in_tree [OF bR shR paR nrb assms(6)])
      then have nc: "c \<notin> set_tree L" and cx: "c \<noteq> x" using pr(3) by auto
      have R3: "shape h3 (sk_right (h x)) (graft b u R) \<and> parents h3 (Some x) (graft b u R)"
        by (rule Node.IH(2)) (use pr shR paR bR nrb be in auto)
      have L3: "shape h3 (sk_left (h x)) L" "parents h3 (Some x) L"
        using tree_frame [OF Lfr shL paL] nc by auto
      have x3: "h3 x = h x" using pr(6) [of x] xne cx by simp
      show ?thesis using L3 R3 xb False x3 p px by simp
    qed
  qed
qed simp

lemma remove_refines:
  assumes sk: "skew h a t" and b: "b \<in> set_tree t"
  shows "\<exists>p h'. skew_heap_remove cmp a b h = Some (p, h') \<and>
    skew h' p (sremove cmp b t) \<and> (\<forall>z. z \<notin> set_tree t \<longrightarrow> h' z = h z)"
proof -
  have sh: "shape h a t" and pa: "parents h None t" and si: "single t" using sk by (auto simp: skew_def)
  obtain l r where be: "below b t = Node l b r"
    and l: "shape h (sk_left (h b)) l" "parents h (Some b) l" "single l" "b \<notin> set_tree l"
    and r: "shape h (sk_right (h b)) r" "parents h (Some b) r" "single r" "b \<notin> set_tree r"
    and d: "set_tree l \<inter> set_tree r = {}"
    by (rule below_node [OF sh pa si b])
  let ?u = "smerge cmp l r" and ?q = "sk_parent (h b)"
  have rem: "sremove cmp b t = graft b ?u t" by (rule sremove_graft [OF si be])
  have sub: "set_tree l \<union> set_tree r \<subseteq> set_tree t" using below_subset [of b t] be by auto
  obtain rep h1 where m: "skew_heap_merge cmp (sk_left (h b)) (sk_right (h b)) h = Some (rep, h1)"
    and s1: "shape h1 rep ?u" and i1: "inner h1 ?u"
    and fr: "\<And>z. z \<notin> set_tree l \<union> set_tree r \<Longrightarrow> h1 z = h z"
    using merge_refines [OF l(1) r(1) parents_inner [OF l(2)] parents_inner [OF r(2)] l(3) r(3) d, of cmp]
    by auto
  have su: "single ?u" by (rule single_smerge [OF l(3) r(3) d])
  define h2 where "h2 = set_parent rep ?q h1"
  have s2: "shape h2 rep ?u" using s1 shape_links_cong [of ?u h2 h1] by (simp add: h2_def)
  have p2: "parents h2 ?q ?u" unfolding h2_def by (rule adopt [OF s1 i1 su])
  have fr2: "h2 z = h z" if "z \<notin> set_tree l \<union> set_tree r" for z
  proof -
    have "rep \<noteq> Some z" using shape_root [OF s1, of z] that by auto
    then show ?thesis using fr [OF that] by (simp add: h2_def set_parent_other)
  qed
  have sr: "single (sremove cmp b t)" by (rule single_sremove [OF si])
  show ?thesis
  proof (cases ?q)
    case None
    have "a = Some b"
    proof (cases t)
      case (Node L x R)
      have "x = b"
      proof (rule ccontr)
        assume "x \<noteq> b"
        then have "b \<in> set_tree L \<or> b \<in> set_tree R" using b Node by auto
        then show False using pa Node None parents_Some [of h x L b] parents_Some [of h x R b] by auto
      qed
      then show ?thesis using sh Node by simp
    qed (use b in simp)
    then have "graft b ?u t = ?u" using sh by (cases t) auto
    then have "skew h2 rep (sremove cmp b t)" using s2 p2 None sr rem by (simp add: skew_def)
    moreover have "skew_heap_remove cmp a b h = Some (rep, h2)"
      by (simp add: skew_heap_remove_def m None h2_def)
    ultimately show ?thesis using fr2 sub by blast
  next
    case (Some c)
    define h3 where "h3 = h2(c := (if sk_left (h2 c) = Some b then (h2 c)\<lparr>sk_left := rep\<rparr>
      else (h2 c)\<lparr>sk_right := rep\<rparr>))"
    have run: "skew_heap_remove cmp a b h = Some (a, h3)"
      by (simp add: skew_heap_remove_def m Some h2_def [symmetric, unfolded Some] h3_def)
    have ab: "a \<noteq> Some b" using root_parent [OF sh pa, of b] Some by auto
    have ct: "c \<in> set_tree t" by (rule parent_in_tree [OF b sh pa ab Some])
    have cb: "c \<notin> set_tree (below b t)" by (rule parent_outside [OF sh pa si b Some]) simp
    then have clr: "c \<notin> set_tree l \<union> set_tree r" using be by auto
    have h3c: "h3 c = (if sk_left (h c) = Some b then (h c)\<lparr>sk_left := rep\<rparr> else (h c)\<lparr>sk_right := rep\<rparr>)"
      using fr2 [OF clr] by (simp add: h3_def)
    have h3o: "h3 z = h z" if "z \<notin> set_tree (below b t)" "z \<noteq> c" for z
      using fr2 [of z] that be by (auto simp: h3_def)
    have u3: "shape h3 rep ?u \<and> parents h3 (Some c) ?u"
      by (rule tree_frame [OF _ s2 p2 [unfolded Some]]) (use clr in \<open>auto simp: h3_def\<close>)
    have "shape h3 a (graft b ?u t) \<and> parents h3 None (graft b ?u t)"
      by (rule graft_refines [OF sh pa si b ab Some, of h3 rep]) (use h3o u3 h3c in auto)
    then have "skew h3 a (sremove cmp b t)" using sr rem by (simp add: skew_def)
    moreover have "h3 z = h z" if "z \<notin> set_tree t" for z
      using h3o [of z] that ct below_subset [of b t] by auto
    ultimately show ?thesis using run by blast
  qed
qed

section \<open>The pool as a priority queue\<close>

definition min_pool :: "('e \<Rightarrow> int) \<Rightarrow> 'e pool \<Rightarrow> 'e option \<Rightarrow> 'e set \<Rightarrow> bool" where
  "min_pool key h p S \<longleftrightarrow> (\<exists>t. skew h p t \<and> heap_by key t \<and> set_tree t = S)"

lemma min_pool_finite: "min_pool key h p S \<Longrightarrow> finite S"
  unfolding min_pool_def by auto

lemma min_pool_empty: "min_pool key h p S \<Longrightarrow> p = None \<longleftrightarrow> S = {}"
  unfolding min_pool_def skew_def by (metis shape_None shape.simps(1) eq_set_tree_empty)

lemma min_pool_init: "min_pool key h None {}"
  unfolding min_pool_def skew_def by (rule exI [of _ Leaf]) simp

lemma min_pool_root:
  assumes "min_pool key h (Some x) S"
  shows "x \<in> S" "y \<in> S \<Longrightarrow> key x \<le> key y"
proof -
  obtain t where t: "shape h (Some x) t" "heap_by key t" "set_tree t = S"
    using assms by (auto simp: min_pool_def skew_def)
  then obtain l r where "t = Node l x r" by (auto simp: shape_Some)
  then show "x \<in> S" "y \<in> S \<Longrightarrow> key x \<le> key y" using t by auto
qed

lemma min_pool_key_cong:
  assumes "min_pool key h p S" "\<And>x y. x \<in> S \<Longrightarrow> y \<in> S \<Longrightarrow> key x \<le> key y \<Longrightarrow> key' x \<le> key' y"
  shows "min_pool key' h p S"
proof -
  have "heap_by key' t" if "heap_by key t" "set_tree t \<subseteq> S" for t
    using that assms(2) by (induction t) auto
  then show ?thesis using assms(1) by (auto simp: min_pool_def)
qed

lemma min_pool_insert:
  assumes "min_pool key h p S" "b \<notin> S" "ranks cmp key (insert b S)"
  shows "\<exists>q h'. skew_heap_insert cmp p b h = Some (q, h') \<and> min_pool key h' q (insert b S)"
proof -
  obtain t where t: "skew h p t" "heap_by key t" "set_tree t = S"
    using assms(1) by (auto simp: min_pool_def)
  obtain q h' where "skew_heap_insert cmp p b h = Some (q, h')"
    "skew h' q (smerge cmp t (Node Leaf b Leaf))"
    using insert_refines [OF t(1), of b cmp] t(3) assms(2) by auto
  moreover have "heap_by key (smerge cmp t (Node Leaf b Leaf))"
    using t assms(3) by (intro heap_smerge) auto
  ultimately show ?thesis using t(3) by (fastforce simp: min_pool_def)
qed

lemma min_pool_remove:
  assumes "min_pool key h p S" "b \<in> S" "ranks cmp key S"
  shows "\<exists>q h'. skew_heap_remove cmp p b h = Some (q, h') \<and> min_pool key h' q (S - {b})"
proof -
  obtain t where t: "skew h p t" "heap_by key t" "set_tree t = S"
    using assms(1) by (auto simp: min_pool_def)
  then have si: "single t" by (simp add: skew_def)
  obtain q h' where "skew_heap_remove cmp p b h = Some (q, h')" "skew h' q (sremove cmp b t)"
    using remove_refines [OF t(1), of b cmp] t(3) assms(2) by auto
  moreover have "heap_by key (sremove cmp b t)"
    using t assms(3) si by (intro heap_sremove) auto
  ultimately show ?thesis using t(3) set_sremove [OF si] by (fastforce simp: min_pool_def)
qed

text \<open>After the root is taken out its key no longer matters: the other entries are ordered by any key
  that agrees with the comparison on them.\<close>

lemma min_pool_remove_root:
  assumes "min_pool key h (Some b) S" "ranks cmp key (S - {b})"
  shows "\<exists>q h'. skew_heap_remove cmp (Some b) b h = Some (q, h') \<and> min_pool key h' q (S - {b})"
proof -
  obtain t where t: "skew h (Some b) t" "heap_by key t" "set_tree t = S"
    using assms(1) by (auto simp: min_pool_def)
  obtain l r where lr: "t = Node l b r" using t(1) by (auto simp: skew_def shape_Some)
  have S: "S - {b} = set_tree l \<union> set_tree r" using t lr by (auto simp: skew_def)
  obtain q h' where "skew_heap_remove cmp (Some b) b h = Some (q, h')" "skew h' q (smerge cmp l r)"
    using remove_refines [OF t(1), of b cmp] lr by auto
  moreover have "heap_by key (smerge cmp l r)"
    using t(2) assms(2) lr S by (intro heap_smerge) auto
  ultimately show ?thesis using S by (fastforce simp: min_pool_def)
qed

section \<open>A concrete heap\<close>

definition demo_cmp :: "int compare_f" where
  "demo_cmp x y = sgn (x - y)"

definition demo_pool :: "int pool" where
  "demo_pool = (\<lambda>_. \<lparr>sk_parent = None, sk_left = None, sk_right = None\<rparr>)
     (3 := \<lparr>sk_parent = None, sk_left = Some 7, sk_right = None\<rparr>,
      7 := \<lparr>sk_parent = Some 3, sk_left = None, sk_right = None\<rparr>)"

lemma demo_skew: "skew demo_pool (Some 3) (Node (Node Leaf 7 Leaf) 3 Leaf)"
  by (simp add: skew_def demo_pool_def)

lemma demo_ranks: "ranks demo_cmp id S"
  by (auto simp: ranks_def demo_cmp_def sgn_if)

text \<open>C24: Inserting an entry into a skew heap in the store always returns, and gives a well-linked
  heap (children and parent pointers right, the root without a parent) that holds the old entries
  and the new one exactly once, is in heap order for every key the comparison routine agrees with,
  and leaves every entry outside the heap untouched.\<close>

theorem skew_heap_insert_correct:
  assumes "skew h a t" "b \<notin> set_tree t" "heap_by key t" "ranks cmp key (insert b (set_tree t))"
  shows "\<exists>p h' u. skew_heap_insert cmp a b h = Some (p, h') \<and> skew h' p u \<and>
    mset_tree u = add_mset b (mset_tree t) \<and> heap_by key u \<and>
    (\<forall>z. z \<notin> insert b (set_tree t) \<longrightarrow> h' z = h z)"
proof -
  have "heap_by key (smerge cmp t (Node Leaf b Leaf))"
    using assms(3,4) by (intro heap_smerge) auto
  then show ?thesis using insert_refines [OF assms(1,2), of cmp] by fastforce
qed

theorem skew_heap_insert_correct_witness:
  "\<exists>p h' u. skew_heap_insert demo_cmp (Some 3) 5 demo_pool = Some (p, h') \<and> skew h' p u \<and>
    mset_tree u = {#5, 7, 3#} \<and> heap_by id u \<and> (\<forall>z. z \<notin> {5, 3, 7} \<longrightarrow> h' z = demo_pool z)"
  using skew_heap_insert_correct [OF demo_skew, of 5 id demo_cmp] demo_ranks
  by (simp add: insert_commute)

text \<open>C31: Removing any entry of a skew heap by its pointer, the root or an inner entry, always
  returns, and gives a well-linked heap in heap order that holds exactly the other entries.\<close>

theorem skew_heap_remove_correct:
  assumes "skew h a t" "b \<in> set_tree t" "heap_by key t" "ranks cmp key (set_tree t)"
  shows "\<exists>p h' u. skew_heap_remove cmp a b h = Some (p, h') \<and> skew h' p u \<and>
    set_tree u = set_tree t - {b} \<and> heap_by key u \<and> (\<forall>z. z \<notin> set_tree t \<longrightarrow> h' z = h z)"
proof -
  have si: "single t" using assms(1) by (simp add: skew_def)
  show ?thesis
    using remove_refines [OF assms(1,2), of cmp] heap_sremove [OF assms(3) si assms(4), of b]
      set_sremove [OF si, of cmp b] by fastforce
qed

theorem skew_heap_remove_correct_witness:
  "\<exists>p h' u. skew_heap_remove demo_cmp (Some 3) 7 demo_pool = Some (p, h') \<and> skew h' p u \<and>
    set_tree u = {7, 3} - {7} \<and> heap_by id u \<and> (\<forall>z. z \<notin> {3, 7} \<longrightarrow> h' z = demo_pool z)"
  using skew_heap_remove_correct [OF demo_skew, of 7 id demo_cmp] demo_ranks
  by (simp add: insert_commute)

end
