(* ===== verification/Kernel_State.thy ===== *)
theory Kernel_State
  imports List_Heap Skew_Heap
begin

text \<open>
  The data the scheduler, the synchronisation primitives and the process manager share: the
  process control block of \<^verbatim>\<open>kern/process/proc.h\<close>, the run queue and the timers of
  \<^verbatim>\<open>kern/schedule/sched.h\<close>, the wait queues and semaphores of \<^verbatim>\<open>kern/sync/wait.h\<close> and
  \<^verbatim>\<open>kern/sync/sem.h\<close>, and the record \<open>kernel\<close> of the global variables.

  A \<^verbatim>\<open>struct proc_struct *\<close> is a natural number and an optional one where the code tests for
  null; reading through a null pointer is a bind on \<open>None\<close>, so it stops the run. Timers, waits and
  semaphores are named by numbers in the same way. The list entries of different kinds are
  different struct members and are never linked to each other, so every kind has a link store
  of its own (\<open>run_links\<close>, \<open>timer_links\<close>, \<open>wait_links\<close>, \<open>proc_links\<close>, \<open>hash_links\<close>), in
  which \<open>Head\<close> names the head of a list and \<open>Elem n\<close> the entry embedded in object \<open>n\<close>.
  Every routine between \<^verbatim>\<open>local_intr_save\<close> and \<^verbatim>\<open>local_intr_restore\<close> is one step of the model.
\<close>

section \<open>Processes\<close>

datatype proc_state = PROC_UNINIT | PROC_SLEEPING | PROC_RUNNABLE | PROC_ZOMBIE

datatype ctx_reg = Ctx_ra | Ctx_sp | Ctx_s nat

record proc_struct =
  state :: proc_state
  pid :: int
  runs :: int
  kstack :: u64
  need_resched :: bool
  parent :: "nat option"
  mm :: "nat option"
  pcontext :: "ctx_reg \<Rightarrow> u64"
  tf :: u64
  pgdir :: u64
  filesp :: "nat option"
  pflags :: u32
  pname :: string
  exit_code :: int
  wait_state :: u32
  cptr :: "nat option"
  yptr :: "nat option"
  optr :: "nat option"
  prq :: "unit option"
  time_slice :: int
  lab6_stride :: u32
  lab6_priority :: u32

definition PF_EXITING :: u32 where "PF_EXITING = 1"
definition WT_INTERRUPTED :: u32 where "WT_INTERRUPTED = 0x80000000"
definition WT_CHILD :: u32 where "WT_CHILD = (0x00000001 OR WT_INTERRUPTED)"
definition WT_KSEM :: u32 where "WT_KSEM = 0x00000100"
definition WT_TIMER :: u32 where "WT_TIMER = (0x00000002 OR WT_INTERRUPTED)"
definition WT_KBD :: u32 where "WT_KBD = (0x00000004 OR WT_INTERRUPTED)"

lemmas wt_defs = PF_EXITING_def WT_INTERRUPTED_def WT_CHILD_def WT_KSEM_def WT_TIMER_def WT_KBD_def

section \<open>Run queue, timers, waits and semaphores\<close>

record run_queue =
  proc_num :: nat
  max_time_slice :: int
  lab6_run_pool :: "nat option"

record timer =
  expires :: nat
  tproc :: "nat option"

record wait =
  wproc :: "nat option"
  wakeup_flags :: u32
  wqueue :: "nat option"

record semaphore =
  sem_value :: int

section \<open>Links\<close>

datatype 'h hook = Head 'h | Elem nat

fun owner :: "'h hook \<Rightarrow> nat option" where
  "owner (Elem n) = Some n"
| "owner (Head h) = None"

lemma inj_Elem [simp]: "inj_on Elem S"
  by (simp add: inj_on_def)

lemma distinct_Elem [simp]: "distinct (map Elem xs) \<longleftrightarrow> distinct xs"
  by (simp add: distinct_map)

lemma Head_notin_Elem [simp]: "Head h \<notin> Elem ` S" "Elem n \<in> Elem ` S \<longleftrightarrow> n \<in> S"
  by auto

section \<open>The global state\<close>

record kernel =
  procs :: "nat \<Rightarrow> proc_struct"
  current :: "nat option"
  idleproc :: "nat option"
  initproc :: "nat option"
  satp :: u64
  rq :: run_queue
  run_links :: "unit hook links"
  pool :: "nat pool"
  timers :: "nat \<Rightarrow> timer"
  timer_links :: "unit hook links"
  waits :: "nat \<Rightarrow> wait"
  wait_links :: "nat hook links"
  sems :: "nat \<Rightarrow> semaphore"
  proc_links :: "unit hook links"
  hash_links :: "nat hook links"
  nr_process :: int
  last_pid :: int
  next_safe :: int

definition set_proc :: "nat \<Rightarrow> (proc_struct \<Rightarrow> proc_struct) \<Rightarrow> 'a kernel_scheme \<Rightarrow> 'a kernel_scheme" where
  "set_proc p f s = s\<lparr>procs := (procs s)(p := f (procs s p))\<rparr>"

lemma set_proc_simps [simp]:
  "procs (set_proc p f s) = (procs s)(p := f (procs s p))"
  "current (set_proc p f s) = current s" "idleproc (set_proc p f s) = idleproc s"
  "initproc (set_proc p f s) = initproc s" "satp (set_proc p f s) = satp s"
  "rq (set_proc p f s) = rq s" "run_links (set_proc p f s) = run_links s"
  "pool (set_proc p f s) = pool s" "timers (set_proc p f s) = timers s"
  "timer_links (set_proc p f s) = timer_links s" "waits (set_proc p f s) = waits s"
  "wait_links (set_proc p f s) = wait_links s" "sems (set_proc p f s) = sems s"
  "proc_links (set_proc p f s) = proc_links s" "hash_links (set_proc p f s) = hash_links s"
  "nr_process (set_proc p f s) = nr_process s" "last_pid (set_proc p f s) = last_pid s"
  "next_safe (set_proc p f s) = next_safe s"
  by (simp_all add: set_proc_def)

section \<open>An empty kernel\<close>

text \<open>A state with nothing linked anywhere, from which the concrete examples start.\<close>

definition blank_proc :: proc_struct where
  "blank_proc = \<lparr>state = PROC_UNINIT, pid = - 1, runs = 0, kstack = 0, need_resched = False,
     parent = None, mm = None, pcontext = (\<lambda>_. 0), tf = 0, pgdir = 0, filesp = None, pflags = 0,
     pname = [], exit_code = 0, wait_state = 0, cptr = None, yptr = None, optr = None, prq = None,
     time_slice = 0, lab6_stride = 0, lab6_priority = 1\<rparr>"

definition blank_kernel :: kernel where
  "blank_kernel = \<lparr>procs = (\<lambda>_. blank_proc), current = Some 0, idleproc = Some 0, initproc = Some 1,
     satp = 0, rq = \<lparr>proc_num = 0, max_time_slice = 5, lab6_run_pool = None\<rparr>,
     run_links = \<lparr>lprev = id, lnext = id\<rparr>,
     pool = (\<lambda>_. \<lparr>sk_parent = None, sk_left = None, sk_right = None\<rparr>),
     timers = (\<lambda>_. \<lparr>expires = 0, tproc = None\<rparr>), timer_links = \<lparr>lprev = id, lnext = id\<rparr>,
     waits = (\<lambda>_. \<lparr>wproc = None, wakeup_flags = 0, wqueue = None\<rparr>),
     wait_links = \<lparr>lprev = id, lnext = id\<rparr>, sems = (\<lambda>_. \<lparr>sem_value = 0\<rparr>),
     proc_links = \<lparr>lprev = id, lnext = id\<rparr>, hash_links = \<lparr>lprev = id, lnext = id\<rparr>,
     nr_process = 2, last_pid = 1, next_safe = 8192\<rparr>"

lemma ring_id [simp]: "ring \<lparr>lprev = id, lnext = id\<rparr> a []"
  by (simp add: ring_def)

end
