(* ===== verification/Sched_Class.thy ===== *)
theory Sched_Class
  imports Kernel_State
begin

text \<open>
  The two scheduling classes of the kernel, round robin (\<^verbatim>\<open>kern/schedule/default_sched.c\<close>) and
  stride (\<^verbatim>\<open>kern/schedule/default_sched_stride.c\<close>), and the interface they share.

  A scheduling class is the record of its routines, as the \<^verbatim>\<open>struct sched_class\<close> of function
  pointers is. \<open>proc->rq\<close> is null or the only run queue of the kernel, so it is a \<open>unit option\<close>.
  The locale \<open>sched_policy\<close> states what \<^verbatim>\<open>sched.c\<close> relies on: the queue holds a set of
  processes, enqueue and dequeue add and remove one, pick-next returns a queued one and returns
  null only when the queue is empty. Both classes interpret it. Round robin is moreover shown to be
  first in first out, and stride to pick a process of least stride across wrap-around as long as
  the strides lie in a window of \<open>BIG_STRIDE\<close>, which a round keeps.
\<close>

section \<open>The interface record\<close>

record 's sched_class =
  cls_name :: string
  cls_init :: "'s \<Rightarrow> 's"
  cls_enqueue :: "nat \<Rightarrow> 's \<Rightarrow> 's option"
  cls_dequeue :: "nat \<Rightarrow> 's \<Rightarrow> 's option"
  cls_pick_next :: "'s \<Rightarrow> (nat option \<times> 's) option"
  cls_proc_tick :: "nat \<Rightarrow> 's \<Rightarrow> 's"

section \<open>Round robin\<close>

definition RR_init :: "'a kernel_scheme \<Rightarrow> 'a kernel_scheme" where
  "RR_init s = s\<lparr>run_links := list_init (run_links s) (Head ()),
                 rq := (rq s)\<lparr>lab6_run_pool := None, proc_num := 0\<rparr>\<rparr>"

definition RR_enqueue :: "nat \<Rightarrow> 'a kernel_scheme \<Rightarrow> 'a kernel_scheme option" where
  "RR_enqueue p s = do {
     kassert (list_empty (run_links s) (Elem p));
     kassert (prq (procs s p) = None);
     let s = (if time_slice (procs s p) \<le> 0 \<or> time_slice (procs s p) > max_time_slice (rq s)
              then set_proc p (\<lambda>x. x\<lparr>time_slice := max_time_slice (rq s)\<rparr>) s else s);
     let s = set_proc p (\<lambda>x. x\<lparr>prq := Some ()\<rparr>) s;
     let s = s\<lparr>rq := (rq s)\<lparr>proc_num := to_u32 (proc_num (rq s) + 1)\<rparr>\<rparr>;
     Some (s\<lparr>run_links := list_add_before (run_links s) (Head ()) (Elem p)\<rparr>)
   }"

definition RR_dequeue :: "nat \<Rightarrow> 'a kernel_scheme \<Rightarrow> 'a kernel_scheme option" where
  "RR_dequeue p s = do {
     kassert (prq (procs s p) = Some ());
     kassert (\<not> list_empty (run_links s) (Elem p));
     let s = s\<lparr>run_links := list_del_init (run_links s) (Elem p)\<rparr>;
     let s = set_proc p (\<lambda>x. x\<lparr>prq := None\<rparr>) s;
     Some (s\<lparr>rq := (rq s)\<lparr>proc_num := to_u32 (proc_num (rq s) + (2 ^ 32 - 1))\<rparr>\<rparr>)
   }"

definition RR_pick_next :: "'a kernel_scheme \<Rightarrow> (nat option \<times> 'a kernel_scheme) option" where
  "RR_pick_next s =
     (if list_empty (run_links s) (Head ()) then Some (None, s)
      else do {
        p \<leftarrow> owner (list_next (run_links s) (Head ()));
        Some (Some p, s)
      })"

definition RR_proc_tick :: "nat \<Rightarrow> 'a kernel_scheme \<Rightarrow> 'a kernel_scheme" where
  "RR_proc_tick p s =
     (let s = (if time_slice (procs s p) > 0
               then set_proc p (\<lambda>x. x\<lparr>time_slice := time_slice x - 1\<rparr>) s else s)
      in if time_slice (procs s p) = 0 then set_proc p (\<lambda>x. x\<lparr>need_resched := True\<rparr>) s else s)"

definition default_sched_class :: "'a kernel_scheme sched_class" where
  "default_sched_class = \<lparr>cls_name = ''RR_scheduler'', cls_init = RR_init,
     cls_enqueue = RR_enqueue, cls_dequeue = RR_dequeue, cls_pick_next = RR_pick_next,
     cls_proc_tick = RR_proc_tick\<rparr>"

section \<open>Stride\<close>

definition BIG_STRIDE :: u32 where
  "BIG_STRIDE = push_bit 30 1"

definition proc_stride_comp_f :: "'a kernel_scheme \<Rightarrow> nat compare_f" where
  "proc_stride_comp_f s p q =
     (let c = sint (lab6_stride (procs s p) - lab6_stride (procs s q))
      in if c > 0 then 1 else if c = 0 then 0 else - 1)"

definition stride_init :: "'a kernel_scheme \<Rightarrow> 'a kernel_scheme" where
  "stride_init s = s\<lparr>run_links := list_init (run_links s) (Head ()),
                     rq := (rq s)\<lparr>lab6_run_pool := None, proc_num := 0\<rparr>\<rparr>"

definition stride_enqueue :: "nat \<Rightarrow> 'a kernel_scheme \<Rightarrow> 'a kernel_scheme option" where
  "stride_enqueue p s = do {
     (root, h) \<leftarrow> skew_heap_insert (proc_stride_comp_f s) (lab6_run_pool (rq s)) p (pool s);
     let s = s\<lparr>pool := h, rq := (rq s)\<lparr>lab6_run_pool := root\<rparr>\<rparr>;
     let s = (if time_slice (procs s p) = 0 \<or> time_slice (procs s p) > max_time_slice (rq s)
              then set_proc p (\<lambda>x. x\<lparr>time_slice := max_time_slice (rq s)\<rparr>) s else s);
     let s = set_proc p (\<lambda>x. x\<lparr>prq := Some ()\<rparr>) s;
     Some (s\<lparr>rq := (rq s)\<lparr>proc_num := to_u32 (proc_num (rq s) + 1)\<rparr>\<rparr>)
   }"

definition stride_dequeue :: "nat \<Rightarrow> 'a kernel_scheme \<Rightarrow> 'a kernel_scheme option" where
  "stride_dequeue p s = do {
     (root, h) \<leftarrow> skew_heap_remove (proc_stride_comp_f s) (lab6_run_pool (rq s)) p (pool s);
     let s = s\<lparr>pool := h, rq := (rq s)\<lparr>lab6_run_pool := root\<rparr>\<rparr>;
     let s = set_proc p (\<lambda>x. x\<lparr>prq := None\<rparr>) s;
     Some (s\<lparr>rq := (rq s)\<lparr>proc_num := to_u32 (proc_num (rq s) + (2 ^ 32 - 1))\<rparr>\<rparr>)
   }"

definition stride_pick_next :: "'a kernel_scheme \<Rightarrow> (nat option \<times> 'a kernel_scheme) option" where
  "stride_pick_next s =
     (case lab6_run_pool (rq s) of
        None \<Rightarrow> Some (None, s)
      | Some p \<Rightarrow>
          if lab6_priority (procs s p) = 0
          then Some (Some p, set_proc p (\<lambda>x. x\<lparr>lab6_stride := lab6_stride x + BIG_STRIDE\<rparr>) s)
          else Some (Some p, set_proc p
                 (\<lambda>x. x\<lparr>lab6_stride := lab6_stride x + BIG_STRIDE div lab6_priority x\<rparr>) s))"

definition stride_proc_tick :: "nat \<Rightarrow> 'a kernel_scheme \<Rightarrow> 'a kernel_scheme" where
  "stride_proc_tick p s =
     (let s = (if time_slice (procs s p) > 0
               then set_proc p (\<lambda>x. x\<lparr>time_slice := time_slice x - 1\<rparr>) s else s)
      in if time_slice (procs s p) = 0 then set_proc p (\<lambda>x. x\<lparr>need_resched := True\<rparr>) s else s)"

definition stride_sched_class :: "'a kernel_scheme sched_class" where
  "stride_sched_class = \<lparr>cls_name = ''stride_scheduler'', cls_init = stride_init,
     cls_enqueue = stride_enqueue, cls_dequeue = stride_dequeue, cls_pick_next = stride_pick_next,
     cls_proc_tick = stride_proc_tick\<rparr>"

text \<open>The part of \<^verbatim>\<open>alloc_proc\<close> that sets the scheduling fields of a new process.\<close>

definition init_sched_fields :: "nat \<Rightarrow> 'a kernel_scheme \<Rightarrow> 'a kernel_scheme" where
  "init_sched_fields p s =
     (let s = set_proc p (\<lambda>x. x\<lparr>prq := None\<rparr>) s;
          s = s\<lparr>run_links := list_init (run_links s) (Elem p)\<rparr>;
          s = set_proc p (\<lambda>x. x\<lparr>time_slice := 0\<rparr>) s;
          s = s\<lparr>pool := (pool s)(p := \<lparr>sk_parent = None, sk_left = None, sk_right = None\<rparr>)\<rparr>
      in set_proc p (\<lambda>x. x\<lparr>lab6_stride := 0, lab6_priority := 1\<rparr>) s)"

section \<open>What a class promises\<close>

text \<open>\<open>rq_only s s'\<close>: the step from \<open>s\<close> to \<open>s'\<close> touched only what belongs to the scheduling class,
  the run queue and the scheduling fields of the processes. \<open>sched_view\<close> is what a class reads.\<close>

definition bare :: "proc_struct \<Rightarrow> proc_struct" where
  "bare x = x\<lparr>prq := None, time_slice := 0, lab6_stride := 0\<rparr>"

definition rq_only :: "'a kernel_scheme \<Rightarrow> 'a kernel_scheme \<Rightarrow> bool" where
  "rq_only s s' \<longleftrightarrow>
     s' = s\<lparr>procs := procs s', rq := rq s', run_links := run_links s', pool := pool s'\<rparr> \<and>
     max_time_slice (rq s') = max_time_slice (rq s) \<and> (\<forall>p. bare (procs s' p) = bare (procs s p))"

definition sched_view where
  "sched_view s = (rq s, run_links s, pool s,
     \<lambda>p. (prq (procs s p), time_slice (procs s p), lab6_stride (procs s p), lab6_priority (procs s p)))"

lemma bare_eq_fields:
  assumes "bare x = bare y"
  shows "state x = state y" "pid x = pid y" "wait_state x = wait_state y" "runs x = runs y"
    "need_resched x = need_resched y" "pgdir x = pgdir y" "pflags x = pflags y"
    "lab6_priority x = lab6_priority y" "parent x = parent y" "mm x = mm y" "filesp x = filesp y"
    "cptr x = cptr y" "yptr x = yptr y" "optr x = optr y" "exit_code x = exit_code y"
    "kstack x = kstack y" "tf x = tf y" "pcontext x = pcontext y" "pname x = pname y"
  using assms by (cases x; cases y; simp add: bare_def)+

lemma rq_only_fields:
  assumes "rq_only s s'"
  shows "current s' = current s" "idleproc s' = idleproc s" "initproc s' = initproc s"
    "satp s' = satp s" "timers s' = timers s" "timer_links s' = timer_links s" "waits s' = waits s"
    "wait_links s' = wait_links s" "sems s' = sems s" "proc_links s' = proc_links s"
    "hash_links s' = hash_links s" "nr_process s' = nr_process s" "last_pid s' = last_pid s"
    "next_safe s' = next_safe s" "kernel.more s' = kernel.more s"
  using assms unfolding rq_only_def by (cases s; cases s'; simp)+

lemma rq_only_bare: "rq_only s s' \<Longrightarrow> bare (procs s' p) = bare (procs s p)"
  by (simp add: rq_only_def)

lemmas rq_only_proc = bare_eq_fields [OF rq_only_bare]

lemma rq_only_refl [simp]: "rq_only s s"
  by (simp add: rq_only_def)

lemma rq_only_trans: "rq_only s s' \<Longrightarrow> rq_only s' s'' \<Longrightarrow> rq_only s s''"
  unfolding rq_only_def by (cases s; cases s'; cases s''; simp)

locale sched_policy =
  fixes cls :: "'a kernel_scheme sched_class"
    and ready :: "'a kernel_scheme \<Rightarrow> nat set \<Rightarrow> bool"
    and detached :: "'a kernel_scheme \<Rightarrow> nat \<Rightarrow> bool"
  assumes enqueue_frame: "cls_enqueue cls p s = Some s' \<Longrightarrow> rq_only s s'"
    and dequeue_frame: "cls_dequeue cls p s = Some s' \<Longrightarrow> rq_only s s'"
    and pick_frame: "cls_pick_next cls s = Some (r, s') \<Longrightarrow> rq_only s s'"
    and ready_init: "ready (cls_init cls s) {}"
    and detached_init: "detached s p \<Longrightarrow> detached (cls_init cls s) p"
    and ready_view: "sched_view s' = sched_view s \<Longrightarrow> ready s' Q = ready s Q"
    and detached_view: "sched_view s' = sched_view s \<Longrightarrow> detached s' p = detached s p"
    and ready_num: "ready s Q \<Longrightarrow> finite Q \<and> proc_num (rq s) = to_u32 (card Q)"
    and enqueue_ok: "ready s Q \<Longrightarrow> p \<notin> Q \<Longrightarrow> detached s p \<Longrightarrow>
      \<exists>s'. cls_enqueue cls p s = Some s' \<and> ready s' (insert p Q) \<and> rq_only s s' \<and>
        (\<forall>q. q \<notin> insert p Q \<longrightarrow> detached s q \<longrightarrow> detached s' q)"
    and dequeue_ok: "ready s Q \<Longrightarrow> p \<in> Q \<Longrightarrow>
      \<exists>s'. cls_dequeue cls p s = Some s' \<and> ready s' (Q - {p}) \<and> detached s' p \<and> rq_only s s' \<and>
        (\<forall>q. q \<notin> Q \<longrightarrow> detached s q \<longrightarrow> detached s' q)"
    and pick_ok: "ready s Q \<Longrightarrow>
      \<exists>r s'. cls_pick_next cls s = Some (r, s') \<and> ready s' Q \<and> rq_only s s' \<and>
        (\<forall>q. detached s q \<longrightarrow> detached s' q) \<and> (r = None \<longleftrightarrow> Q = {}) \<and> (\<forall>p. r = Some p \<longrightarrow> p \<in> Q)"
    and tick_ok: "rq_only s ((cls_proc_tick cls p s)\<lparr>procs := (procs (cls_proc_tick cls p s))
        (p := (procs (cls_proc_tick cls p s) p)\<lparr>need_resched := need_resched (procs s p)\<rparr>)\<rparr>)"
    and fresh_ready: "ready s Q \<Longrightarrow> p \<notin> Q \<Longrightarrow> ready (init_sched_fields p s) Q"
    and fresh_detached: "ready s Q \<Longrightarrow> p \<notin> Q \<Longrightarrow> q = p \<or> detached s q \<Longrightarrow> detached (init_sched_fields p s) q"
    and tick_ready: "ready s Q \<Longrightarrow> ready (cls_proc_tick cls p s) Q"
    and tick_detached: "detached s q \<Longrightarrow> detached (cls_proc_tick cls p s) q"
    and priority_ready: "ready (set_proc p (\<lambda>x. x\<lparr>lab6_priority := n\<rparr>) s) Q = ready s Q"
    and priority_detached: "detached (set_proc p (\<lambda>x. x\<lparr>lab6_priority := n\<rparr>) s) q = detached s q"

section \<open>Round robin keeps its promise\<close>

definition rr_queue :: "'a kernel_scheme \<Rightarrow> nat list \<Rightarrow> bool" where
  "rr_queue s ps \<longleftrightarrow> ring (run_links s) (Head ()) (map Elem ps) \<and>
     (\<forall>p\<in>set ps. prq (procs s p) = Some ()) \<and> proc_num (rq s) = to_u32 (length ps)"

definition rr_ready :: "'a kernel_scheme \<Rightarrow> nat set \<Rightarrow> bool" where
  "rr_ready s Q \<longleftrightarrow> (\<exists>ps. rr_queue s ps \<and> set ps = Q)"

definition rr_detached :: "'a kernel_scheme \<Rightarrow> nat \<Rightarrow> bool" where
  "rr_detached s p \<longleftrightarrow> prq (procs s p) = None \<and> ring (run_links s) (Elem p) []"

lemma rr_queue_distinct: "rr_queue s ps \<Longrightarrow> distinct ps"
  by (auto simp: rr_queue_def dest: ring_distinct)

lemma to_u32_suc: "to_u32 (Suc (to_u32 n)) = to_u32 (Suc n)"
  by (simp add: to_u32_def mod_Suc_eq)

lemma to_u32_pred: "to_u32 (to_u32 (Suc n) + (2 ^ 32 - 1)) = to_u32 n"
proof -
  have "to_u32 (to_u32 (Suc n) + (2 ^ 32 - 1)) = (Suc n + (2 ^ 32 - 1)) mod 2 ^ 32"
    unfolding to_u32_def by (rule mod_add_left_eq)
  also have "Suc n + (2 ^ 32 - 1) = n + 2 ^ 32" by simp
  finally show ?thesis by (simp add: to_u32_def)
qed

lemma RR_enqueue_queue:
  assumes q: "rr_queue s ps" and d: "rr_detached s p"
  obtains s' where "RR_enqueue p s = Some s'" "rr_queue s' (ps @ [p])" "rq_only s s'"
    "\<And>q. q \<notin> set (p # ps) \<Longrightarrow> rr_detached s q \<Longrightarrow> rr_detached s' q"
proof -
  have r: "ring (run_links s) (Head ()) (map Elem ps)"
    and self: "ring (run_links s) (Elem p) []" and n: "prq (procs s p) = None"
    using q d by (auto simp: rr_queue_def rr_detached_def)
  have np: "p \<notin> set ps" using q n by (auto simp: rr_queue_def)
  obtain s' where e: "RR_enqueue p s = Some s'"
    and l: "run_links s' = list_add_before (run_links s) (Head ()) (Elem p)"
    and nu: "proc_num (rq s') = to_u32 (proc_num (rq s) + 1)"
    and o: "rq_only s s'" and pq: "\<And>q. prq (procs s' q) = (if q = p then Some () else prq (procs s q))"
    using n list_empty_ring [OF self]
    by (auto simp: RR_enqueue_def rq_only_def bare_def Let_def set_proc_def)
  have "ring (run_links s') (Head ()) (map Elem ps @ [Elem p])"
    unfolding l by (rule ring_add_before_head [OF r]) (use np in auto)
  then have "rr_queue s' (ps @ [p])"
    using q by (auto simp: rr_queue_def pq nu to_u32_suc)
  moreover have "rr_detached s' x" if "x \<notin> set (p # ps)" "rr_detached s x" for x
    using that ring_frame_add_before [OF _ r, of "Elem x" "[]" "Head ()" "Elem p"]
    by (auto simp: rr_detached_def pq l)
  ultimately show ?thesis using e o that by blast
qed

lemma RR_dequeue_queue:
  assumes q: "rr_queue s (ps @ p # qs)"
  obtains s' where "RR_dequeue p s = Some s'" "rr_queue s' (ps @ qs)" "rr_detached s' p" "rq_only s s'"
    "\<And>q. q \<notin> set (ps @ p # qs) \<Longrightarrow> rr_detached s q \<Longrightarrow> rr_detached s' q"
proof -
  have r: "ring (run_links s) (Head ()) (map Elem ps @ Elem p # map Elem qs)"
    and n: "prq (procs s p) = Some ()"
    using q by (auto simp: rr_queue_def)
  have d: "p \<notin> set ps" "p \<notin> set qs" using rr_queue_distinct [OF q] by auto
  have "\<not> list_empty (run_links s) (Elem p)"
    using list_empty_ring [OF ring_rotate [THEN iffD1, OF r]] by simp
  then obtain s' where e: "RR_dequeue p s = Some s'"
    and l: "run_links s' = list_del_init (run_links s) (Elem p)"
    and nu: "proc_num (rq s') = to_u32 (proc_num (rq s) + (2 ^ 32 - 1))"
    and o: "rq_only s s'" and pq: "\<And>q. prq (procs s' q) = (if q = p then None else prq (procs s q))"
    using n by (auto simp: RR_dequeue_def rq_only_def bare_def Let_def set_proc_def)
  note del = ring_list_del_init [OF r]
  have "rr_queue s' (ps @ qs)"
    using q del(1) d by (auto simp: rr_queue_def pq nu l to_u32_pred [simplified])
  moreover have "rr_detached s' p" using del(2) by (simp add: rr_detached_def pq l)
  moreover have "rr_detached s' x" if "x \<notin> set (ps @ p # qs)" "rr_detached s x" for x
    using that ring_frame_del_init [OF _ r, of "Elem x" "[]" "Elem p"]
    by (auto simp: rr_detached_def pq l)
  ultimately show ?thesis using e o that by blast
qed

lemma RR_pick_queue:
  assumes "rr_queue s ps"
  shows "RR_pick_next s = Some (case ps of [] \<Rightarrow> None | p # _ \<Rightarrow> Some p, s)"
proof -
  have r: "ring (run_links s) (Head ()) (map Elem ps)" using assms by (simp add: rr_queue_def)
  show ?thesis
    using list_empty_ring [OF r] ring_next_head [OF r]
    by (cases ps) (auto simp: RR_pick_next_def list_next_def)
qed

lemma tick_rq_only:
  "rq_only s ((RR_proc_tick p s)\<lparr>procs := (procs (RR_proc_tick p s))
     (p := (procs (RR_proc_tick p s) p)\<lparr>need_resched := need_resched (procs s p)\<rparr>)\<rparr>)"
  by (simp add: RR_proc_tick_def rq_only_def bare_def Let_def set_proc_def)

lemma stride_tick_eq: "stride_proc_tick = RR_proc_tick"
  by (intro ext) (simp add: stride_proc_tick_def RR_proc_tick_def)

lemma tick_keeps:
  "rq (RR_proc_tick p s) = rq s" "run_links (RR_proc_tick p s) = run_links s"
  "pool (RR_proc_tick p s) = pool s" "prq (procs (RR_proc_tick p s) q) = prq (procs s q)"
  by (simp_all add: RR_proc_tick_def Let_def)

lemma sched_view_eq:
  assumes "sched_view s' = sched_view s"
  shows "rq s' = rq s" "run_links s' = run_links s" "pool s' = pool s"
    "prq (procs s' p) = prq (procs s p)" "lab6_stride (procs s' p) = lab6_stride (procs s p)"
  using assms by (auto simp: sched_view_def dest: fun_cong [of _ _ p])

interpretation rr: sched_policy default_sched_class rr_ready rr_detached
proof (unfold_locales, goal_cases)
  case (1 p s s')
  then show ?case by (auto simp: default_sched_class_def RR_enqueue_def rq_only_def bare_def Let_def
        set_proc_def split: if_splits)
next
  case (2 p s s')
  then show ?case by (auto simp: default_sched_class_def RR_dequeue_def rq_only_def bare_def Let_def
        set_proc_def split: if_splits)
next
  case (3 s r s')
  then show ?case by (auto simp: default_sched_class_def RR_pick_next_def bind_eq_Some_conv split: if_splits)
next
  case (4 s)
  then show ?case
    by (simp add: default_sched_class_def RR_init_def rr_ready_def rr_queue_def ring_list_init to_u32_def)
next
  case (5 s p)
  then show ?case
    by (simp add: default_sched_class_def RR_init_def rr_detached_def ring_frame_init)
next
  case (6 s' s Q)
  show ?case by (simp add: rr_ready_def rr_queue_def sched_view_eq [OF 6])
next
  case (7 s' s p)
  show ?case by (simp add: rr_detached_def sched_view_eq [OF 7])
next
  case (8 s Q)
  then obtain ps where "rr_queue s ps" "set ps = Q" by (auto simp: rr_ready_def)
  then show ?case using rr_queue_distinct [of s ps] distinct_card [of ps] by (auto simp: rr_queue_def)
next
  case (9 s Q p)
  then obtain ps where ps: "rr_queue s ps" "set ps = Q" by (auto simp: rr_ready_def)
  obtain s' where "RR_enqueue p s = Some s'" "rr_queue s' (ps @ [p])" "rq_only s s'"
    "\<And>q. q \<notin> set (p # ps) \<Longrightarrow> rr_detached s q \<Longrightarrow> rr_detached s' q"
    by (rule RR_enqueue_queue [OF ps(1) 9(3)]) blast
  moreover from this have "rr_ready s' (insert p Q)"
    unfolding rr_ready_def using ps(2) by (intro exI [of _ "ps @ [p]"]) simp
  ultimately show ?case using ps(2) by (simp add: default_sched_class_def)
next
  case (10 s Q p)
  then obtain ps where ps: "rr_queue s ps" "set ps = Q" by (auto simp: rr_ready_def)
  obtain us vs where uv: "ps = us @ p # vs" using split_list [of p ps] ps(2) 10(2) by auto
  obtain s' where "RR_dequeue p s = Some s'" "rr_queue s' (us @ vs)" "rr_detached s' p" "rq_only s s'"
    "\<And>q. q \<notin> set (us @ p # vs) \<Longrightarrow> rr_detached s q \<Longrightarrow> rr_detached s' q"
    using RR_dequeue_queue [OF ps(1) [unfolded uv]] by metis
  moreover from this have "rr_ready s' (Q - {p})"
    unfolding rr_ready_def using ps(2) uv rr_queue_distinct [OF ps(1)]
    by (intro exI [of _ "us @ vs"]) auto
  ultimately show ?case using ps(2) uv by (auto simp: default_sched_class_def)
next
  case (11 s Q)
  then obtain ps where ps: "rr_queue s ps" "set ps = Q" by (auto simp: rr_ready_def)
  then show ?case using RR_pick_queue [OF ps(1)] 11
    by (auto simp: default_sched_class_def split: list.splits)
next
  case (12 s p)
  then show ?case using tick_rq_only [of s p] by (simp add: default_sched_class_def)
next
  case (13 s Q p)
  then obtain ps where ps: "rr_queue s ps" "set ps = Q" by (auto simp: rr_ready_def)
  then have "rr_queue (init_sched_fields p s) ps"
    using 13(2) ring_frame_init [of "run_links s" "Head ()" "map Elem ps" "Elem p"]
    by (auto simp: rr_queue_def init_sched_fields_def Let_def)
  then show ?case using ps(2) by (auto simp: rr_ready_def)
next
  case (14 s Q p q)
  then show ?case
    using ring_list_init [of "run_links s" "Elem p"] ring_frame_init [of "run_links s" "Elem q" "[]" "Elem p"]
    by (cases "q = p") (auto simp: rr_detached_def init_sched_fields_def Let_def)
next
  case (15 s Q p)
  then show ?case by (simp add: default_sched_class_def rr_ready_def rr_queue_def tick_keeps)
next
  case (16 s q p)
  then show ?case by (simp add: default_sched_class_def rr_detached_def tick_keeps)
next
  case (17 p n s Q)
  have "prq (procs (set_proc p (\<lambda>x. x\<lparr>lab6_priority := n\<rparr>) s) q) = prq (procs s q)" for q by simp
  then show ?case by (simp add: rr_ready_def rr_queue_def del: set_proc_simps(1))
next
  case (18 p n s q)
  show ?case by (simp add: rr_detached_def)
qed

section \<open>Stride keeps its promise\<close>

definition stride_ready :: "'a kernel_scheme \<Rightarrow> nat set \<Rightarrow> bool" where
  "stride_ready s Q \<longleftrightarrow> (\<exists>t. skew (pool s) (lab6_run_pool (rq s)) t \<and> set_tree t = Q) \<and>
     proc_num (rq s) = to_u32 (card Q)"

definition stride_detached :: "'a kernel_scheme \<Rightarrow> nat \<Rightarrow> bool" where
  "stride_detached s p \<longleftrightarrow> prq (procs s p) = None"

lemma stride_enqueue_frame:
  assumes "skew_heap_insert (proc_stride_comp_f s) (lab6_run_pool (rq s)) p (pool s) = Some (root, h)"
  obtains s' where "stride_enqueue p s = Some s'" "pool s' = h" "lab6_run_pool (rq s') = root"
    "proc_num (rq s') = to_u32 (Suc (proc_num (rq s)))" "rq_only s s'"
    "\<And>q. prq (procs s' q) = (if q = p then Some () else prq (procs s q))"
    "\<And>q. lab6_stride (procs s' q) = lab6_stride (procs s q)"
  using assms by (auto simp: stride_enqueue_def rq_only_def bare_def Let_def set_proc_def)

lemma stride_dequeue_frame:
  assumes "skew_heap_remove (proc_stride_comp_f s) (lab6_run_pool (rq s)) p (pool s) = Some (root, h)"
  obtains s' where "stride_dequeue p s = Some s'" "pool s' = h" "lab6_run_pool (rq s') = root"
    "proc_num (rq s') = to_u32 (proc_num (rq s) + (2 ^ 32 - 1))" "rq_only s s'"
    "\<And>q. prq (procs s' q) = (if q = p then None else prq (procs s q))"
    "\<And>q. lab6_stride (procs s' q) = lab6_stride (procs s q)"
  using assms by (auto simp: stride_dequeue_def rq_only_def bare_def Let_def set_proc_def)

definition stride_step :: "proc_struct \<Rightarrow> u32" where
  "stride_step x = (if lab6_priority x = 0 then BIG_STRIDE else BIG_STRIDE div lab6_priority x)"

lemma stride_pick_Some:
  assumes "lab6_run_pool (rq s) = Some p"
  shows "stride_pick_next s =
    Some (Some p, set_proc p (\<lambda>x. x\<lparr>lab6_stride := lab6_stride x + stride_step x\<rparr>) s)"
  using assms by (simp add: stride_pick_next_def stride_step_def set_proc_def)

lemma stride_proc_num_pred:
  assumes "finite Q" "p \<in> Q"
  shows "to_u32 (to_u32 (card Q) + (2 ^ 32 - 1)) = to_u32 (card (Q - {p}))"
  using to_u32_pred [of "card (Q - {p})"] card_Suc_Diff1 [OF assms] by simp

lemma skew_upd: "skew h r t \<Longrightarrow> p \<notin> set_tree t \<Longrightarrow> skew (h(p := e)) r t"
  by (subst skew_def, subst shape_cong [of t _ h], fastforce, subst parents_cong [of t _ h], fastforce) (simp add: skew_def)

interpretation stride: sched_policy stride_sched_class stride_ready stride_detached
proof (unfold_locales, goal_cases)
  case (1 p s s')
  then show ?case by (auto simp: stride_sched_class_def stride_enqueue_def rq_only_def bare_def Let_def
        set_proc_def bind_eq_Some_conv split: if_splits)
next
  case (2 p s s')
  then show ?case by (auto simp: stride_sched_class_def stride_dequeue_def rq_only_def bare_def Let_def
        set_proc_def bind_eq_Some_conv split: if_splits)
next
  case (3 s r s')
  then show ?case by (auto simp: stride_sched_class_def stride_pick_next_def rq_only_def bare_def
        set_proc_def split: if_splits option.splits)
next
  case (4 s)
  have "skew (pool s) None Leaf" by (simp add: skew_def)
  then show ?case
    by (auto simp: stride_sched_class_def stride_init_def stride_ready_def to_u32_def intro: exI [of _ Leaf])
next
  case (5 s p)
  then show ?case by (simp add: stride_sched_class_def stride_init_def stride_detached_def)
next
  case (6 s' s Q)
  show ?case by (simp add: stride_ready_def sched_view_eq [OF 6])
next
  case (7 s' s p)
  show ?case by (simp add: stride_detached_def sched_view_eq [OF 7])
next
  case (8 s Q)
  then show ?case by (auto simp: stride_ready_def)
next
  case (9 s Q p)
  then obtain t where t: "skew (pool s) (lab6_run_pool (rq s)) t" "set_tree t = Q"
    and n: "proc_num (rq s) = to_u32 (card Q)" by (auto simp: stride_ready_def)
  have fin: "finite Q" using t(2) by auto
  obtain root h u where i: "skew_heap_insert (proc_stride_comp_f s) (lab6_run_pool (rq s)) p (pool s) = Some (root, h)"
    and u: "skew h root u" "set_tree u = insert p Q"
    using insert_refines [OF t(1), of p "proc_stride_comp_f s"] t(2) 9(2) by fastforce
  obtain s' where s': "stride_enqueue p s = Some s'" "pool s' = h" "lab6_run_pool (rq s') = root"
    "proc_num (rq s') = to_u32 (Suc (proc_num (rq s)))" "rq_only s s'"
    "\<And>q. prq (procs s' q) = (if q = p then Some () else prq (procs s q))"
    by (rule stride_enqueue_frame [OF i]) blast
  have "stride_ready s' (insert p Q)"
    using u s' n fin 9(2) by (auto simp: stride_ready_def to_u32_suc)
  then show ?case using s' by (auto simp: stride_sched_class_def stride_detached_def)
next
  case (10 s Q p)
  then obtain t where t: "skew (pool s) (lab6_run_pool (rq s)) t" "set_tree t = Q"
    and n: "proc_num (rq s) = to_u32 (card Q)" by (auto simp: stride_ready_def)
  have fin: "finite Q" and si: "single t" using t by (auto simp: skew_def)
  obtain root h u where i: "skew_heap_remove (proc_stride_comp_f s) (lab6_run_pool (rq s)) p (pool s) = Some (root, h)"
    and u: "skew h root u" "set_tree u = Q - {p}"
    using remove_refines [OF t(1), of p "proc_stride_comp_f s"] t(2) 10(2) set_sremove [OF si] by metis
  obtain s' where s': "stride_dequeue p s = Some s'" "pool s' = h" "lab6_run_pool (rq s') = root"
    "proc_num (rq s') = to_u32 (proc_num (rq s) + (2 ^ 32 - 1))" "rq_only s s'"
    "\<And>q. prq (procs s' q) = (if q = p then None else prq (procs s q))"
    by (rule stride_dequeue_frame [OF i]) blast
  have "stride_ready s' (Q - {p})"
    using u s'(2,3,4) n stride_proc_num_pred [OF fin 10(2)] by (auto simp: stride_ready_def)
  then show ?case using s' by (auto simp: stride_sched_class_def stride_detached_def)
next
  case (11 s Q)
  then obtain t where t: "skew (pool s) (lab6_run_pool (rq s)) t" "set_tree t = Q"
    by (auto simp: stride_ready_def)
  show ?case
  proof (cases "lab6_run_pool (rq s)")
    case None
    then have "Q = {}" using t by (simp add: skew_def)
    then show ?thesis using 11 None by (simp add: stride_sched_class_def stride_pick_next_def)
  next
    case (Some p)
    then have "p \<in> Q" using t shape_root [of "pool s" _ t p] by (auto simp: skew_def)
    then show ?thesis using 11 stride_pick_Some [OF Some]
      by (auto simp: stride_sched_class_def stride_ready_def stride_detached_def rq_only_def bare_def set_proc_def)
  qed
next
  case (12 s p)
  then show ?case using tick_rq_only [of s p] by (simp add: stride_sched_class_def stride_tick_eq)
next
  case (13 s Q p)
  then obtain t where t: "skew (pool s) (lab6_run_pool (rq s)) t" "set_tree t = Q"
    and n: "proc_num (rq s) = to_u32 (card Q)" by (auto simp: stride_ready_def)
  have "skew (pool (init_sched_fields p s)) (lab6_run_pool (rq s)) t"
    using t 13(2) skew_upd [of "pool s" "lab6_run_pool (rq s)" t p] by (simp add: init_sched_fields_def Let_def)
  then show ?case using t(2) n by (auto simp: stride_ready_def init_sched_fields_def Let_def)
next
  case (14 s Q p q)
  then show ?case by (auto simp: stride_detached_def init_sched_fields_def Let_def)
next
  case (15 s Q p)
  then show ?case by (simp add: stride_sched_class_def stride_tick_eq stride_ready_def tick_keeps)
next
  case (16 s q p)
  then show ?case by (simp add: stride_sched_class_def stride_tick_eq stride_detached_def tick_keeps)
next
  case (17 p n s Q)
  show ?case by (simp add: stride_ready_def)
next
  case (18 p n s q)
  show ?case by (simp add: stride_detached_def)
qed

section \<open>Least stride first, across wrap-around\<close>

definition stride_dist :: "'a kernel_scheme \<Rightarrow> u32 \<Rightarrow> nat \<Rightarrow> int" where
  "stride_dist s b p = uint (lab6_stride (procs s p) - b)"

definition stride_window :: "'a kernel_scheme \<Rightarrow> u32 \<Rightarrow> nat set \<Rightarrow> bool" where
  "stride_window s b Q \<longleftrightarrow> (\<forall>p\<in>Q. stride_dist s b p \<le> uint BIG_STRIDE)"

definition stride_pool :: "'a kernel_scheme \<Rightarrow> u32 \<Rightarrow> nat set \<Rightarrow> bool" where
  "stride_pool s b Q \<longleftrightarrow> stride_window s b Q \<and>
     min_pool (stride_dist s b) (pool s) (lab6_run_pool (rq s)) Q"

lemma BIG_STRIDE_val: "uint BIG_STRIDE = 2 ^ 30"
  by (simp add: BIG_STRIDE_def)

lemma stride_step_bound: "uint (stride_step x) \<le> uint BIG_STRIDE"
proof -
  have "BIG_STRIDE div lab6_priority x \<le> BIG_STRIDE"
    unfolding word_le_nat_alt by (simp add: unat_div)
  then show ?thesis by (simp add: stride_step_def word_le_def)
qed

lemma sint_diff_window:
  fixes a b :: u32
  assumes "uint a \<le> 2 ^ 30" "uint b \<le> 2 ^ 30"
  shows "sint (a - b) = uint a - uint b"
proof -
  have "sint (a - b) = signed_take_bit 31 (uint a - uint b)"
    by (subst word_sub_wi) (simp only: sint_sbintrunc' len_bit0 len_num1, simp)
  also have "- 2147483648 \<le> uint a - uint b \<and> uint a - uint b < 2147483648"
    using assms [simplified] uint_ge_0 [of a] uint_ge_0 [of b] by linarith
  then have "signed_take_bit 31 (uint a - uint b) = uint a - uint b"
    by (intro signed_take_bit_int_eq_self) simp_all
  finally show ?thesis .
qed

lemma stride_ranks:
  assumes "stride_window s b Q"
  shows "ranks (proc_stride_comp_f s) (stride_dist s b) Q"
proof -
  have "proc_stride_comp_f s p q = - 1 \<longleftrightarrow> stride_dist s b p < stride_dist s b q"
    if "p \<in> Q" "q \<in> Q" for p q
  proof -
    let ?p = "lab6_stride (procs s p) - b" and ?q = "lab6_stride (procs s q) - b"
    have "sint (?p - ?q) = uint ?p - uint ?q"
      using assms that by (intro sint_diff_window) (auto simp: stride_window_def stride_dist_def BIG_STRIDE_val)
    moreover have "lab6_stride (procs s p) - lab6_stride (procs s q) = ?p - ?q" by simp
    ultimately have "sint (lab6_stride (procs s p) - lab6_stride (procs s q)) =
      stride_dist s b p - stride_dist s b q" by (simp only: stride_dist_def)
    then show ?thesis by (simp add: proc_stride_comp_f_def)
  qed
  then show ?thesis by (simp add: ranks_def)
qed

lemma stride_dist_rebase:
  assumes "stride_dist s b p \<le> stride_dist s b q"
  shows "stride_dist s (lab6_stride (procs s p)) q = stride_dist s b q - stride_dist s b p"
proof -
  let ?p = "lab6_stride (procs s p) - b" and ?q = "lab6_stride (procs s q) - b"
  have "lab6_stride (procs s q) - lab6_stride (procs s p) = ?q - ?p" by simp
  moreover have "uint (?q - ?p) = uint ?q - uint ?p"
    using assms by (intro uint_minus_simple_alt [THEN iffD1]) (simp add: stride_dist_def word_le_def)
  ultimately show ?thesis by (simp add: stride_dist_def)
qed

lemma stride_pool_enqueue:
  assumes "stride_pool s b Q" "p \<notin> Q" "stride_dist s b p \<le> uint BIG_STRIDE"
  obtains s' where "stride_enqueue p s = Some s'" "stride_pool s' b (insert p Q)"
    "\<And>q. lab6_stride (procs s' q) = lab6_stride (procs s q)"
proof -
  have w: "stride_window s b (insert p Q)" using assms by (simp add: stride_pool_def stride_window_def)
  obtain root h where i: "skew_heap_insert (proc_stride_comp_f s) (lab6_run_pool (rq s)) p (pool s) = Some (root, h)"
    and m: "min_pool (stride_dist s b) h root (insert p Q)"
    using min_pool_insert [OF _ assms(2) stride_ranks [OF w]] assms(1)
    unfolding stride_pool_def by blast
  obtain s' where s': "stride_enqueue p s = Some s'" "pool s' = h" "lab6_run_pool (rq s') = root"
    "\<And>q. lab6_stride (procs s' q) = lab6_stride (procs s q)"
    by (rule stride_enqueue_frame [OF i]) blast
  have "stride_dist s' b = stride_dist s b" by (simp add: fun_eq_iff stride_dist_def s'(4))
  then have "stride_pool s' b (insert p Q)" using m w s' by (simp add: stride_pool_def stride_window_def)
  then show ?thesis using that s' by blast
qed

lemma stride_pool_pick_dequeue:
  assumes sp: "stride_pool s b Q" and ne: "Q \<noteq> {}"
  obtains p s1 s2 where "stride_pick_next s = Some (Some p, s1)" "stride_dequeue p s1 = Some s2"
    "p \<in> Q" "\<And>q. q \<in> Q \<Longrightarrow> stride_dist s b p \<le> stride_dist s b q"
    "stride_pool s2 (lab6_stride (procs s p)) (Q - {p})"
    "\<And>q. lab6_stride (procs s2 q) =
       lab6_stride (procs s q) + (if q = p then stride_step (procs s p) else 0)"
proof -
  have m: "min_pool (stride_dist s b) (pool s) (lab6_run_pool (rq s)) Q"
    and w: "stride_window s b Q" using sp by (simp_all add: stride_pool_def)
  obtain p where p: "lab6_run_pool (rq s) = Some p" using min_pool_empty [OF m] ne by auto
  have pQ: "p \<in> Q" and le: "\<And>q. q \<in> Q \<Longrightarrow> stride_dist s b p \<le> stride_dist s b q"
    using min_pool_root [OF m [unfolded p]] by auto
  define s1 where "s1 = set_proc p (\<lambda>x. x\<lparr>lab6_stride := lab6_stride x + stride_step x\<rparr>) s"
  let ?b = "lab6_stride (procs s p)" and ?R = "Q - {p}"
  have d1: "stride_dist s1 ?b q = stride_dist s b q - stride_dist s b p" if "q \<in> ?R" for q
    using stride_dist_rebase [OF le, of q] that by (simp add: stride_dist_def s1_def)
  have w1: "stride_window s1 ?b ?R"
  proof (unfold stride_window_def, intro ballI)
    fix q assume q: "q \<in> ?R"
    have "0 \<le> stride_dist s b p" by (simp add: stride_dist_def)
    moreover have "stride_dist s b q \<le> uint BIG_STRIDE" using w q by (simp add: stride_window_def)
    ultimately show "stride_dist s1 ?b q \<le> uint BIG_STRIDE" using d1 [OF q] by linarith
  qed
  define key where "key = (\<lambda>q. if q = p then 0 else stride_dist s1 ?b q)"
  have mk: "min_pool key (pool s) (Some p) Q" unfolding key_def
    by (rule min_pool_key_cong [OF m [unfolded p]]) (use d1 le in auto)
  have rk: "ranks (proc_stride_comp_f s1) key ?R"
    using stride_ranks [OF w1] by (simp add: ranks_def key_def)
  obtain root h where
    r: "skew_heap_remove (proc_stride_comp_f s1) (Some p) p (pool s) = Some (root, h)"
    and m1: "min_pool key h root ?R"
    using min_pool_remove_root [OF mk rk] by auto
  have r1: "skew_heap_remove (proc_stride_comp_f s1) (lab6_run_pool (rq s1)) p (pool s1) = Some (root, h)"
    using r p by (simp add: s1_def)
  obtain s2 where s2: "stride_dequeue p s1 = Some s2" "pool s2 = h" "lab6_run_pool (rq s2) = root"
    "\<And>q. lab6_stride (procs s2 q) = lab6_stride (procs s1 q)"
    by (rule stride_dequeue_frame [OF r1]) blast
  have "min_pool (stride_dist s2 ?b) h root ?R"
    by (rule min_pool_key_cong [OF m1]) (auto simp: stride_dist_def s2(4) key_def)
  then have "stride_pool s2 ?b ?R"
    using w1 s2 by (simp add: stride_pool_def stride_window_def stride_dist_def)
  then show ?thesis
    using that [of p s1 s2] stride_pick_Some [OF p] s2 pQ le by (simp add: s1_def)
qed

text \<open>C28: One turn of the stride scheduler on a non-empty pool whose strides lie in a window of
  \<open>BIG_STRIDE\<close> above some base, with 32-bit strides that wrap around: the process picked has the
  least stride above the base, its stride grows by \<open>BIG_STRIDE\<close> over its priority, and after it is
  taken out and put back the pool holds the same processes, in heap order, with all strides in a
  window of \<open>BIG_STRIDE\<close> above the stride the picked process had. So the signed comparison stays
  right for ever.\<close>

theorem stride_round:
  assumes "stride_pool s b Q" "Q \<noteq> {}"
  shows "\<exists>p s1 s2 s3. stride_pick_next s = Some (Some p, s1) \<and> stride_dequeue p s1 = Some s2 \<and>
    stride_enqueue p s2 = Some s3 \<and> p \<in> Q \<and> (\<forall>q\<in>Q. stride_dist s b p \<le> stride_dist s b q) \<and>
    lab6_stride (procs s3 p) = lab6_stride (procs s p) +
      (if lab6_priority (procs s p) = 0 then BIG_STRIDE else BIG_STRIDE div lab6_priority (procs s p)) \<and>
    stride_pool s3 (lab6_stride (procs s p)) Q"
proof -
  obtain p s1 s2 where 1: "stride_pick_next s = Some (Some p, s1)" "stride_dequeue p s1 = Some s2"
    "p \<in> Q" "\<And>q. q \<in> Q \<Longrightarrow> stride_dist s b p \<le> stride_dist s b q"
    and sp: "stride_pool s2 (lab6_stride (procs s p)) (Q - {p})"
    and st: "\<And>q. lab6_stride (procs s2 q) =
       lab6_stride (procs s q) + (if q = p then stride_step (procs s p) else 0)"
    by (rule stride_pool_pick_dequeue [OF assms]) blast
  have "stride_dist s2 (lab6_stride (procs s p)) p \<le> uint BIG_STRIDE"
    using stride_step_bound by (simp add: stride_dist_def st)
  then obtain s3 where "stride_enqueue p s2 = Some s3"
    "stride_pool s3 (lab6_stride (procs s p)) (insert p (Q - {p}))"
    "\<And>q. lab6_stride (procs s3 q) = lab6_stride (procs s2 q)"
    using stride_pool_enqueue [OF sp] by blast
  then show ?thesis using 1 st [of p] insert_Diff [OF 1(3)] by (auto simp: stride_step_def)
qed

definition demo_strides :: kernel where
  "demo_strides = blank_kernel\<lparr>
     procs := (procs blank_kernel)(2 := blank_proc\<lparr>lab6_stride := 0xFFFFFFF0\<rparr>,
       3 := blank_proc\<lparr>lab6_stride := 5, lab6_priority := 4\<rparr>),
     rq := \<lparr>proc_num = 2, max_time_slice = 5, lab6_run_pool = Some 2\<rparr>,
     pool := (pool blank_kernel)(2 := \<lparr>sk_parent = None, sk_left = Some 3, sk_right = None\<rparr>,
       3 := \<lparr>sk_parent = Some 2, sk_left = None, sk_right = None\<rparr>)\<rparr>"

lemma demo_stride_pool: "stride_pool demo_strides 0xFFFFFFF0 {2, 3}"
proof -
  let ?t = "Node (Node Leaf 3 Leaf) 2 Leaf :: nat tree"
  have "skew (pool demo_strides) (lab6_run_pool (rq demo_strides)) ?t"
    by (simp add: skew_def demo_strides_def)
  moreover have d: "stride_dist demo_strides 0xFFFFFFF0 2 = 0" "stride_dist demo_strides 0xFFFFFFF0 3 = 21"
    by (simp_all add: stride_dist_def demo_strides_def)
  moreover have "set_tree ?t = {2, 3}" by auto
  ultimately have "min_pool (stride_dist demo_strides 0xFFFFFFF0) (pool demo_strides)
    (lab6_run_pool (rq demo_strides)) {2, 3}"
    unfolding min_pool_def by (intro exI [of _ ?t]) simp
  then show ?thesis using d by (simp add: stride_pool_def stride_window_def BIG_STRIDE_val)
qed

theorem stride_round_witness:
  "\<exists>p s1 s2 s3. stride_pick_next demo_strides = Some (Some p, s1) \<and> stride_dequeue p s1 = Some s2 \<and>
    stride_enqueue p s2 = Some s3 \<and> p \<in> {2, 3} \<and>
    (\<forall>q\<in>{2, 3}. stride_dist demo_strides 0xFFFFFFF0 p \<le> stride_dist demo_strides 0xFFFFFFF0 q) \<and>
    lab6_stride (procs s3 p) = lab6_stride (procs demo_strides p) +
      (if lab6_priority (procs demo_strides p) = 0 then BIG_STRIDE
       else BIG_STRIDE div lab6_priority (procs demo_strides p)) \<and>
    stride_pool s3 (lab6_stride (procs demo_strides p)) {2, 3}"
  by (rule stride_round [OF demo_stride_pool]) simp

end
