(* ===== verification/Sched.thy ===== *)
theory Sched
  imports Sched_Class
begin

text \<open>
  The scheduler core of \<^verbatim>\<open>kern/schedule/sched.c\<close>: wake-up, \<^verbatim>\<open>schedule\<close>, the timer list and the
  clock tick.

  The global \<^verbatim>\<open>sched_class\<close> pointer is the argument \<open>cls\<close> of the routines; \<^verbatim>\<open>sched_init\<close> fixes it to
  the round-robin class. \<^verbatim>\<open>proc_run\<close> sets \<open>current\<close> and the page-table register; the register
  switch itself is machine code, and the state after \<open>schedule\<close> is the one in which the process
  switched to goes on. The timer list holds, in the order of expiry, for each timer the ticks that
  remain after the timer before it: the lemmas read it back as the list of absolute expiry times.
\<close>

section \<open>The routines\<close>

definition MAX_TIME_SLICE :: int where
  "MAX_TIME_SLICE = 5"

definition sched_class_enqueue ::
  "'a kernel_scheme sched_class \<Rightarrow> nat \<Rightarrow> 'a kernel_scheme \<Rightarrow> 'a kernel_scheme option" where
  "sched_class_enqueue cls p s = (if Some p \<noteq> idleproc s then cls_enqueue cls p s else Some s)"

definition sched_class_dequeue ::
  "'a kernel_scheme sched_class \<Rightarrow> nat \<Rightarrow> 'a kernel_scheme \<Rightarrow> 'a kernel_scheme option" where
  "sched_class_dequeue cls p s = cls_dequeue cls p s"

definition sched_class_pick_next ::
  "'a kernel_scheme sched_class \<Rightarrow> 'a kernel_scheme \<Rightarrow> (nat option \<times> 'a kernel_scheme) option" where
  "sched_class_pick_next cls s = cls_pick_next cls s"

definition sched_class_proc_tick ::
  "'a kernel_scheme sched_class \<Rightarrow> nat \<Rightarrow> 'a kernel_scheme \<Rightarrow> 'a kernel_scheme" where
  "sched_class_proc_tick cls p s =
     (if Some p \<noteq> idleproc s then cls_proc_tick cls p s
      else set_proc p (\<lambda>x. x\<lparr>need_resched := True\<rparr>) s)"

definition sched_init :: "'a kernel_scheme \<Rightarrow> 'a kernel_scheme" where
  "sched_init s =
     (let s = s\<lparr>timer_links := list_init (timer_links s) (Head ())\<rparr>;
          s = s\<lparr>rq := (rq s)\<lparr>max_time_slice := MAX_TIME_SLICE\<rparr>\<rparr>
      in cls_init default_sched_class s)"

definition wakeup_proc ::
  "'a kernel_scheme sched_class \<Rightarrow> nat \<Rightarrow> 'a kernel_scheme \<Rightarrow> 'a kernel_scheme option" where
  "wakeup_proc cls p s = do {
     kassert (state (procs s p) \<noteq> PROC_ZOMBIE);
     if state (procs s p) \<noteq> PROC_RUNNABLE then do {
       let s = set_proc p (\<lambda>x. x\<lparr>state := PROC_RUNNABLE, wait_state := 0\<rparr>) s;
       if Some p \<noteq> current s then sched_class_enqueue cls p s else Some s
     } else Some s
   }"

text \<open>The value written to the page-table register: the mode in the top bit and the frame of the root table.\<close>

definition lsatp :: "u64 \<Rightarrow> u64" where
  "lsatp pgd = 0x8000000000000000 OR drop_bit 12 pgd"

definition proc_run :: "nat \<Rightarrow> 'a kernel_scheme \<Rightarrow> 'a kernel_scheme" where
  "proc_run p s = (if Some p \<noteq> current s then s\<lparr>current := Some p, satp := lsatp (pgdir (procs s p))\<rparr> else s)"

definition schedule ::
  "'a kernel_scheme sched_class \<Rightarrow> 'a kernel_scheme \<Rightarrow> 'a kernel_scheme option" where
  "schedule cls s = do {
     c \<leftarrow> current s;
     let s = set_proc c (\<lambda>x. x\<lparr>need_resched := False\<rparr>) s;
     s \<leftarrow> (if state (procs s c) = PROC_RUNNABLE then sched_class_enqueue cls c s else Some s);
     (nxt, s) \<leftarrow> sched_class_pick_next cls s;
     s \<leftarrow> (case nxt of Some n \<Rightarrow> sched_class_dequeue cls n s | None \<Rightarrow> Some s);
     n \<leftarrow> (case nxt of Some n \<Rightarrow> Some n | None \<Rightarrow> idleproc s);
     let s = set_proc n (\<lambda>x. x\<lparr>runs := runs x + 1\<rparr>) s;
     if n \<noteq> c then Some (proc_run n s) else Some s
   }"

definition set_timer :: "nat \<Rightarrow> (timer \<Rightarrow> timer) \<Rightarrow> 'a kernel_scheme \<Rightarrow> 'a kernel_scheme" where
  "set_timer t f s = s\<lparr>timers := (timers s)(t := f (timers s t))\<rparr>"

definition timer_init :: "nat \<Rightarrow> nat option \<Rightarrow> int \<Rightarrow> 'a kernel_scheme \<Rightarrow> 'a kernel_scheme" where
  "timer_init t p n s =
     (let s = set_timer t (\<lambda>x. x\<lparr>expires := nat (n mod 2 ^ 32), tproc := p\<rparr>) s
      in s\<lparr>timer_links := list_init (timer_links s) (Elem t)\<rparr>)"

partial_function (option) add_timer_loop ::
  "nat \<Rightarrow> unit hook \<Rightarrow> 'a kernel_scheme \<Rightarrow> (unit hook \<times> 'a kernel_scheme) option" where
  "add_timer_loop t le s =
     (case le of
        Head _ \<Rightarrow> Some (le, s)
      | Elem n \<Rightarrow>
          if expires (timers s t) < expires (timers s n)
          then Some (le, set_timer n (\<lambda>x. x\<lparr>expires := expires x - expires (timers s t)\<rparr>) s)
          else add_timer_loop t (list_next (timer_links s) le)
                 (set_timer t (\<lambda>x. x\<lparr>expires := expires x - expires (timers s n)\<rparr>) s))"

definition add_timer :: "nat \<Rightarrow> 'a kernel_scheme \<Rightarrow> 'a kernel_scheme option" where
  "add_timer t s = do {
     kassert (expires (timers s t) > 0 \<and> tproc (timers s t) \<noteq> None);
     kassert (list_empty (timer_links s) (Elem t));
     (le, s) \<leftarrow> add_timer_loop t (list_next (timer_links s) (Head ())) s;
     Some (s\<lparr>timer_links := list_add_before (timer_links s) le (Elem t)\<rparr>)
   }"

definition del_timer :: "nat \<Rightarrow> 'a kernel_scheme \<Rightarrow> 'a kernel_scheme" where
  "del_timer t s =
     (if \<not> list_empty (timer_links s) (Elem t) then
        let s = (if expires (timers s t) \<noteq> 0 then
                   (case list_next (timer_links s) (Elem t) of
                      Head _ \<Rightarrow> s
                    | Elem n \<Rightarrow> set_timer n (\<lambda>x. x\<lparr>expires := to_u32 (expires x + expires (timers s t))\<rparr>) s)
                 else s)
        in s\<lparr>timer_links := list_del_init (timer_links s) (Elem t)\<rparr>
      else s)"

partial_function (option) expire_loop ::
  "'a kernel_scheme sched_class \<Rightarrow> nat \<Rightarrow> 'a kernel_scheme \<Rightarrow> 'a kernel_scheme option" where
  "expire_loop cls t s =
     (if expires (timers s t) = 0 then do {
        let le = list_next (timer_links s) (Elem t);
        p \<leftarrow> tproc (timers s t);
        kassert (wait_state (procs s p) \<noteq> 0 \<longrightarrow> wait_state (procs s p) AND WT_INTERRUPTED \<noteq> 0);
        s \<leftarrow> wakeup_proc cls p s;
        let s = del_timer t s;
        (case le of Head _ \<Rightarrow> Some s | Elem n \<Rightarrow> expire_loop cls n s)
      } else Some s)"

definition run_timer_list ::
  "'a kernel_scheme sched_class \<Rightarrow> 'a kernel_scheme \<Rightarrow> 'a kernel_scheme option" where
  "run_timer_list cls s = do {
     s \<leftarrow> (case list_next (timer_links s) (Head ()) of
             Head _ \<Rightarrow> Some s
           | Elem t \<Rightarrow> do {
               kassert (expires (timers s t) \<noteq> 0);
               expire_loop cls t (set_timer t (\<lambda>x. x\<lparr>expires := expires x - 1\<rparr>) s)
             });
     c \<leftarrow> current s;
     Some (sched_class_proc_tick cls c s)
   }"

section \<open>No runnable process is lost\<close>

text \<open>Of the live processes \<open>L\<close>, exactly the runnable ones other than the current and the idle process
  are queued, and the others have their queue fields in the detached state.\<close>

definition waiting_cpu :: "nat set \<Rightarrow> 'a kernel_scheme \<Rightarrow> nat set" where
  "waiting_cpu L s = {p \<in> L. state (procs s p) = PROC_RUNNABLE \<and> Some p \<noteq> current s \<and> Some p \<noteq> idleproc s}"

definition sched_inv ::
  "('a kernel_scheme \<Rightarrow> nat set \<Rightarrow> bool) \<Rightarrow> ('a kernel_scheme \<Rightarrow> nat \<Rightarrow> bool) \<Rightarrow> nat set \<Rightarrow>
   'a kernel_scheme \<Rightarrow> bool" where
  "sched_inv ready detached L s \<longleftrightarrow> ready s (waiting_cpu L s) \<and>
     (\<forall>p\<in>L - waiting_cpu L s. detached s p) \<and> (\<exists>c\<in>L. current s = Some c) \<and> (\<exists>i\<in>L. idleproc s = Some i)"

lemma sched_view_set_proc:
  assumes "\<And>x. prq (f x) = prq x \<and> time_slice (f x) = time_slice x \<and>
    lab6_stride (f x) = lab6_stride x \<and> lab6_priority (f x) = lab6_priority x"
  shows "sched_view (set_proc p f s) = sched_view s"
  using assms by (auto simp: sched_view_def)

lemma sched_view_proc_run: "sched_view (proc_run p s) = sched_view s"
  by (simp add: sched_view_def proc_run_def)

lemma waiting_cpu_rq_only:
  assumes "rq_only s s'"
  shows "waiting_cpu L s' = waiting_cpu L s"
  using rq_only_proc(1) [OF assms] rq_only_fields(1,2) [OF assms] by (simp add: waiting_cpu_def)

text \<open>What waking and scheduling leave alone, whatever the class does.\<close>

definition sched_frame :: "'a kernel_scheme \<Rightarrow> 'a kernel_scheme \<Rightarrow> bool" where
  "sched_frame s s' \<longleftrightarrow> idleproc s' = idleproc s \<and> initproc s' = initproc s \<and> timers s' = timers s \<and>
     timer_links s' = timer_links s \<and> waits s' = waits s \<and> wait_links s' = wait_links s \<and>
     sems s' = sems s \<and> proc_links s' = proc_links s \<and> hash_links s' = hash_links s \<and>
     nr_process s' = nr_process s \<and> last_pid s' = last_pid s \<and> next_safe s' = next_safe s \<and>
     kernel.more s' = kernel.more s"

lemma sched_frame_refl [simp]: "sched_frame s s"
  by (simp add: sched_frame_def)

lemma sched_frame_trans: "sched_frame s s' \<Longrightarrow> sched_frame s' s'' \<Longrightarrow> sched_frame s s''"
  by (simp add: sched_frame_def)

lemma sched_frame_rq_only: "rq_only s s' \<Longrightarrow> sched_frame s s'"
  using rq_only_fields [of s s'] by (simp add: sched_frame_def)

lemma sched_frame_set_proc [simp]: "sched_frame s (set_proc p f s)"
  by (simp add: sched_frame_def) (simp add: set_proc_def)

text \<open>What the scheduler leaves alone in a process.\<close>

definition ident where
  "ident x = (pid x, parent x, cptr x, optr x, yptr x, mm x, filesp x, exit_code x, pflags x, kstack x, tf x, pgdir x, pcontext x, pname x)"

lemma ident_bare: "bare x = bare y \<Longrightarrow> ident x = ident y"
  using bare_eq_fields [of x y] by (simp add: ident_def)

lemma ident_fields:
  assumes "ident x = ident y"
  shows "pid x = pid y" "parent x = parent y" "cptr x = cptr y" "optr x = optr y" "yptr x = yptr y" "mm x = mm y"
    "filesp x = filesp y" "exit_code x = exit_code y" "pflags x = pflags y" "kstack x = kstack y" "tf x = tf y" "pgdir x = pgdir y"
    "pcontext x = pcontext y" "pname x = pname y"
  using assms by (simp_all add: ident_def)

context sched_policy
begin

lemma sched_class_enqueue_frame: "sched_class_enqueue cls p s = Some s' \<Longrightarrow> rq_only s s'"
  by (auto simp: sched_class_enqueue_def dest: enqueue_frame split: if_splits)

lemma wakeup_frame:
  assumes "wakeup_proc cls p s = Some s'"
  shows "sched_frame s s'" "current s' = current s"
    "q \<noteq> p \<Longrightarrow> bare (procs s' q) = bare (procs s q)"
    "state (procs s p) \<noteq> PROC_RUNNABLE \<Longrightarrow> state (procs s' p) = PROC_RUNNABLE \<and> wait_state (procs s' p) = 0"
    "state (procs s p) = PROC_RUNNABLE \<Longrightarrow> s' = s" "ident (procs s' r) = ident (procs s r)"
proof -
  define s1 where "s1 = set_proc p (\<lambda>x. x\<lparr>state := PROC_RUNNABLE, wait_state := 0\<rparr>) s"
  have *: "state (procs s p) \<noteq> PROC_RUNNABLE \<Longrightarrow> rq_only s1 s'"
    using assms by (auto simp: wakeup_proc_def s1_def [symmetric] Let_def dest: sched_class_enqueue_frame split: if_splits)
  show e: "state (procs s p) = PROC_RUNNABLE \<Longrightarrow> s' = s"
    using assms by (simp add: wakeup_proc_def)
  have f: "sched_frame s s1" "current s1 = current s" by (simp_all add: s1_def)
  show "sched_frame s s'" using e * sched_frame_trans [OF f(1) sched_frame_rq_only] by fastforce
  show "current s' = current s" using e * rq_only_fields(1) f(2) by fastforce
  show "q \<noteq> p \<Longrightarrow> bare (procs s' q) = bare (procs s q)"
    using e * rq_only_bare [of s1 s' q] by (fastforce simp: s1_def)
  have "ident (procs s1 r) = ident (procs s r)" by (simp add: s1_def ident_def)
  then show "ident (procs s' r) = ident (procs s r)" using e * ident_bare [OF rq_only_bare [of s1 s' r]] by fastforce
  show "state (procs s p) \<noteq> PROC_RUNNABLE \<Longrightarrow> state (procs s' p) = PROC_RUNNABLE \<and> wait_state (procs s' p) = 0"
    using * rq_only_proc(1,3) [of s1 s' p] by (simp add: s1_def)
qed

lemma schedule_frame:
  assumes "schedule cls s = Some s'"
  shows "sched_frame s s'" "state (procs s' p) = state (procs s p)" "wait_state (procs s' p) = wait_state (procs s p)"
    "ident (procs s' p) = ident (procs s p)"
proof -
  obtain c where c: "current s = Some c" using assms by (auto simp: schedule_def bind_eq_Some_conv)
  define s1 where "s1 = set_proc c (\<lambda>x. x\<lparr>need_resched := False\<rparr>) s"
  let ?fin = "\<lambda>n s4. if n \<noteq> c then proc_run n (set_proc n (\<lambda>x. x\<lparr>runs := runs x + 1\<rparr>) s4)
      else set_proc n (\<lambda>x. x\<lparr>runs := runs x + 1\<rparr>) s4"
  note run = assms [unfolded schedule_def c Let_def Option.bind.bind_lunit s1_def [symmetric] sched_class_pick_next_def]
  obtain s2 where
    e: "(if state (procs s1 c) = PROC_RUNNABLE then sched_class_enqueue cls c s1 else Some s1) = Some s2"
    and r2: "(cls_pick_next cls s2 \<bind> (\<lambda>(nxt, s). (case nxt of Some n \<Rightarrow> sched_class_dequeue cls n s | None \<Rightarrow> Some s)
      \<bind> (\<lambda>s. (case nxt of Some n \<Rightarrow> Some n | None \<Rightarrow> idleproc s) \<bind>
        (\<lambda>n. if n \<noteq> c then Some (proc_run n (set_proc n (\<lambda>x. x\<lparr>runs := runs x + 1\<rparr>) s))
             else Some (set_proc n (\<lambda>x. x\<lparr>runs := runs x + 1\<rparr>) s))))) = Some s'"
    using run by (rule bind_SomeE)
  obtain nxt s3 where pk: "cls_pick_next cls s2 = Some (nxt, s3)"
    and r3: "((case nxt of Some n \<Rightarrow> sched_class_dequeue cls n s3 | None \<Rightarrow> Some s3)
      \<bind> (\<lambda>s. (case nxt of Some n \<Rightarrow> Some n | None \<Rightarrow> idleproc s) \<bind>
        (\<lambda>n. if n \<noteq> c then Some (proc_run n (set_proc n (\<lambda>x. x\<lparr>runs := runs x + 1\<rparr>) s))
             else Some (set_proc n (\<lambda>x. x\<lparr>runs := runs x + 1\<rparr>) s)))) = Some s'"
    using r2 by (rule bind_SomeE) auto
  obtain s4 where dq: "(case nxt of Some n \<Rightarrow> sched_class_dequeue cls n s3 | None \<Rightarrow> Some s3) = Some s4"
    and r4: "((case nxt of Some n \<Rightarrow> Some n | None \<Rightarrow> idleproc s4) \<bind>
        (\<lambda>n. if n \<noteq> c then Some (proc_run n (set_proc n (\<lambda>x. x\<lparr>runs := runs x + 1\<rparr>) s4))
             else Some (set_proc n (\<lambda>x. x\<lparr>runs := runs x + 1\<rparr>) s4))) = Some s'"
    using r3 by (rule bind_SomeE)
  obtain n where n: "s' = ?fin n s4"
    using r4 by (rule bind_SomeE) (simp add: if_distrib [of Some, symmetric], blast)
  have o: "rq_only s1 s4"
  proof -
    have "rq_only s1 s2" using e sched_class_enqueue_frame by (auto split: if_splits)
    moreover have "rq_only s2 s3" using pk pick_frame by blast
    moreover have "rq_only s3 s4" using dq dequeue_frame by (auto simp: sched_class_dequeue_def split: option.splits)
    ultimately show ?thesis using rq_only_trans by blast
  qed
  have "sched_frame s s1" by (simp add: s1_def)
  then have f4: "sched_frame s s4" using sched_frame_trans sched_frame_rq_only [OF o] by blast
  have "sched_frame s4 s'"
    using n by (auto simp: proc_run_def sched_frame_def) (simp_all add: set_proc_def)
  then show "sched_frame s s'" using f4 sched_frame_trans by blast
  show "state (procs s' p) = state (procs s p)" "wait_state (procs s' p) = wait_state (procs s p)"
    using rq_only_proc(1,3) [OF o, of p] n by (auto simp: proc_run_def s1_def split: if_splits)
  have "ident (procs s' p) = ident (procs s4 p)" using n by (auto simp: proc_run_def ident_def)
  also have "\<dots> = ident (procs s1 p)" by (rule ident_bare [OF rq_only_bare [OF o]])
  also have "\<dots> = ident (procs s p)" by (simp add: s1_def ident_def)
  finally show "ident (procs s' p) = ident (procs s p)" .
qed

lemma inv_cong:
  assumes "sched_view s' = sched_view s" "current s' = current s" "idleproc s' = idleproc s"
    "\<And>p. state (procs s' p) = state (procs s p)"
  shows "sched_inv ready detached L s' = sched_inv ready detached L s"
proof -
  have "waiting_cpu L s' = waiting_cpu L s" using assms by (simp add: waiting_cpu_def)
  then show ?thesis
    using assms ready_view [OF assms(1)] detached_view [OF assms(1)] by (simp add: sched_inv_def)
qed

lemma enqueue_set:
  assumes r: "ready s Q" and d: "\<And>q. q \<in> L - Q \<Longrightarrow> detached s q" and p: "p \<in> L" "p \<notin> Q" "Some p \<noteq> idleproc s"
  obtains s' where "sched_class_enqueue cls p s = Some s'" "ready s' (insert p Q)" "rq_only s s'"
    "\<And>q. q \<in> L - insert p Q \<Longrightarrow> detached s' q"
proof -
  obtain s' where "cls_enqueue cls p s = Some s'" "ready s' (insert p Q)" "rq_only s s'"
    "\<forall>q. q \<notin> insert p Q \<longrightarrow> detached s q \<longrightarrow> detached s' q"
    using enqueue_ok [OF r p(2)] d p by blast
  then show ?thesis using d p(3) that by (auto simp: sched_class_enqueue_def)
qed

lemma wakeup_inv:
  assumes inv: "sched_inv ready detached L s" and p: "p \<in> L" "state (procs s p) \<noteq> PROC_ZOMBIE"
  obtains s' where "wakeup_proc cls p s = Some s'" "sched_inv ready detached L s'"
    "state (procs s' p) = PROC_RUNNABLE"
    "\<And>q. q \<noteq> p \<Longrightarrow> bare (procs s' q) = bare (procs s q)"
    "wait_state (procs s' p) = (if state (procs s p) = PROC_RUNNABLE then wait_state (procs s p) else 0)"
    "rq_only (if state (procs s p) = PROC_RUNNABLE then s
       else set_proc p (\<lambda>x. x\<lparr>state := PROC_RUNNABLE, wait_state := 0\<rparr>) s) s'"
proof (cases "state (procs s p) = PROC_RUNNABLE")
  case True
  then show ?thesis using inv that [of s] by (simp add: wakeup_proc_def)
next
  case False
  let ?Q = "waiting_cpu L s"
  define s1 where "s1 = set_proc p (\<lambda>x. x\<lparr>state := PROC_RUNNABLE, wait_state := 0\<rparr>) s"
  have v: "sched_view s1 = sched_view s" unfolding s1_def by (rule sched_view_set_proc) simp
  have pQ: "p \<notin> ?Q" using False by (simp add: waiting_cpu_def)
  have r1: "ready s1 ?Q" and d1: "\<And>q. q \<in> L - ?Q \<Longrightarrow> detached s1 q"
    using inv ready_view [OF v] detached_view [OF v] by (auto simp: sched_inv_def)
  show ?thesis
  proof (cases "Some p \<noteq> current s \<and> Some p \<noteq> idleproc s")
    case True
    have ip: "Some p \<noteq> idleproc s1" using True by (simp add: s1_def)
    obtain s' where s': "sched_class_enqueue cls p s1 = Some s'" "ready s' (insert p ?Q)" "rq_only s1 s'"
      "\<And>q. q \<in> L - insert p ?Q \<Longrightarrow> detached s' q"
      using enqueue_set [OF r1 d1 p(1) pQ ip] by blast
    have w1: "waiting_cpu L s1 = insert p ?Q"
      using True p(1) by (auto simp: waiting_cpu_def s1_def)
    then have "sched_inv ready detached L s'"
      using s' inv rq_only_fields(1,2) [OF s'(3)] waiting_cpu_rq_only [OF s'(3)]
      by (auto simp: sched_inv_def s1_def)
    moreover have "wakeup_proc cls p s = Some s'"
      using False p(2) True s'(1) by (simp add: wakeup_proc_def s1_def)
    moreover have "bare (procs s' q) = bare (procs s q)" if "q \<noteq> p" for q
      using rq_only_bare [OF s'(3)] that by (simp add: s1_def)
    ultimately show ?thesis
      using that [of s'] False rq_only_proc(1,3) [OF s'(3), of p] s'(3) by (simp add: s1_def)
  next
    case nc: False
    have w1: "waiting_cpu L s1 = ?Q"
      using nc False by (auto simp: waiting_cpu_def s1_def)
    have "sched_inv ready detached L s1"
      using inv r1 d1 unfolding sched_inv_def w1 by (auto simp: s1_def)
    moreover have "wakeup_proc cls p s = Some s1"
      using False p(2) nc by (auto simp: wakeup_proc_def s1_def sched_class_enqueue_def Let_def)
    ultimately show ?thesis using that [of s1] False by (simp add: s1_def)
  qed
qed

text \<open>The part of \<open>schedule\<close> before the switch: the current process goes back to the queue when it is
  runnable, and the process picked leaves it.\<close>

lemma requeue_current:
  assumes inv: "sched_inv ready detached L s" and c: "current s = Some c"
    and R: "R = {p \<in> L. state (procs s p) = PROC_RUNNABLE \<and> Some p \<noteq> idleproc s}"
  obtains s2 where
    "(if state (procs s c) = PROC_RUNNABLE then sched_class_enqueue cls c s else Some s) = Some s2"
    "ready s2 R" "\<And>q. q \<in> L \<Longrightarrow> q \<notin> R \<Longrightarrow> detached s2 q" "rq_only s s2"
proof -
  let ?Q = "waiting_cpu L s"
  have cL: "c \<in> L" using inv c by (auto simp: sched_inv_def)
  have r: "ready s ?Q" and d: "\<And>q. q \<in> L - ?Q \<Longrightarrow> detached s q" using inv by (auto simp: sched_inv_def)
  have cQ: "c \<notin> ?Q" using c by (simp add: waiting_cpu_def)
  show ?thesis
  proof (cases "state (procs s c) = PROC_RUNNABLE \<and> Some c \<noteq> idleproc s")
    case True
    have R: "insert c ?Q = R" using True cL c by (auto simp: waiting_cpu_def R)
    obtain s2 where "sched_class_enqueue cls c s = Some s2" "ready s2 (insert c ?Q)" "rq_only s s2"
      "\<And>q. q \<in> L - insert c ?Q \<Longrightarrow> detached s2 q"
      using enqueue_set [OF r d cL cQ] True by blast
    then show ?thesis using that [of s2] True unfolding R by auto
  next
    case False
    have R: "?Q = R" using False c by (auto simp: waiting_cpu_def R)
    have "(if state (procs s c) = PROC_RUNNABLE then sched_class_enqueue cls c s else Some s) = Some s"
      using False by (simp add: sched_class_enqueue_def)
    then show ?thesis using that [of s] r d unfolding R by auto
  qed
qed

lemma schedule_inv:
  assumes inv: "sched_inv ready detached L s"
  obtains s' n where "schedule cls s = Some s'" "sched_inv ready detached L s'" "current s' = Some n"
    "n \<in> L" "state (procs s n) = PROC_RUNNABLE \<or> Some n = idleproc s"
    "(\<exists>p\<in>L. state (procs s p) = PROC_RUNNABLE \<and> Some p \<noteq> idleproc s) \<Longrightarrow> Some n \<noteq> idleproc s"
    "\<And>p. state (procs s' p) = state (procs s p)" "\<And>p. wait_state (procs s' p) = wait_state (procs s p)"
    "satp s' = (if current s = Some n then satp s else lsatp (pgdir (procs s n)))"
proof -
  obtain c i where c: "current s = Some c" "c \<in> L" and i: "idleproc s = Some i" "i \<in> L"
    using inv by (auto simp: sched_inv_def)
  let ?R = "{p \<in> L. state (procs s p) = PROC_RUNNABLE \<and> Some p \<noteq> idleproc s}"
  define s1 where "s1 = set_proc c (\<lambda>x. x\<lparr>need_resched := False\<rparr>) s"
  have v1: "sched_view s1 = sched_view s" unfolding s1_def by (rule sched_view_set_proc) simp
  have st1: "state (procs s1 p) = state (procs s p)" for p by (simp add: s1_def)
  have inv1: "sched_inv ready detached L s1"
    using inv inv_cong [OF v1, of L] by (simp add: s1_def)
  have c1: "current s1 = Some c" and i1: "idleproc s1 = idleproc s" using c by (simp_all add: s1_def)
  obtain s2 where e: "(if state (procs s1 c) = PROC_RUNNABLE then sched_class_enqueue cls c s1 else Some s1) = Some s2"
    and r2: "ready s2 ?R" and d2: "\<And>q. q \<in> L \<Longrightarrow> q \<notin> ?R \<Longrightarrow> detached s2 q" and o2: "rq_only s1 s2"
    by (rule requeue_current [OF inv1 c1, of ?R]) (auto simp: st1 i1)
  obtain r s3 where pk: "cls_pick_next cls s2 = Some (r, s3)" and r3: "ready s3 ?R" and o3: "rq_only s2 s3"
    and d3: "\<And>q. detached s2 q \<Longrightarrow> detached s3 q" and rn: "r = None \<longleftrightarrow> ?R = {}"
    and rp: "\<And>p. r = Some p \<Longrightarrow> p \<in> ?R"
    using pick_ok [OF r2] by blast
  define n where "n = (case r of Some n \<Rightarrow> n | None \<Rightarrow> i)"
  have n: "n \<in> L" "state (procs s n) = PROC_RUNNABLE \<or> Some n = idleproc s"
    "?R \<noteq> {} \<Longrightarrow> Some n \<noteq> idleproc s"
    using rn rp i by (auto simp: n_def split: option.splits)
  obtain s4 where dq: "(case r of Some n \<Rightarrow> sched_class_dequeue cls n s3 | None \<Rightarrow> Some s3) = Some s4"
    and r4: "ready s4 (?R - {n})" and o4: "rq_only s3 s4"
    and d4: "\<And>q. q \<in> L \<Longrightarrow> q \<notin> ?R - {n} \<Longrightarrow> detached s4 q"
  proof (cases r)
    case None
    then have "?R = {}" using rn by blast
    then show ?thesis using that [of s3] None r3 d2 d3 by auto
  next
    case (Some m)
    then have m: "m \<in> ?R" "n = m" using rp by (auto simp: n_def)
    obtain s' where "cls_dequeue cls m s3 = Some s'" "ready s' (?R - {m})" "detached s' m" "rq_only s3 s'"
      "\<forall>q. q \<notin> ?R \<longrightarrow> detached s3 q \<longrightarrow> detached s' q"
      using dequeue_ok [OF r3 m(1)] by blast
    then show ?thesis using that [of s'] Some m d2 d3 by (auto simp: sched_class_dequeue_def)
  qed
  have o: "rq_only s1 s4" by (rule rq_only_trans [OF rq_only_trans [OF o2 o3] o4])
  note f = rq_only_fields [OF o] and fp = rq_only_proc [OF o]
  define s5 where "s5 = set_proc n (\<lambda>x. x\<lparr>runs := runs x + 1\<rparr>) s4"
  define s6 where "s6 = (if n \<noteq> c then proc_run n s5 else s5)"
  have "idleproc s4 = Some i" using f i by (simp add: s1_def)
  then have "(case r of Some n \<Rightarrow> Some n | None \<Rightarrow> idleproc s4) = Some n"
    by (simp add: n_def split: option.splits)
  then have run: "schedule cls s = Some s6"
    by (simp only: schedule_def c(1) Let_def Option.bind.bind_lunit s1_def [symmetric] e pk dq
        sched_class_pick_next_def prod.case s5_def [symmetric] s6_def if_distrib [of Some])
  have v6: "sched_view s6 = sched_view s4"
    using sched_view_set_proc [of "\<lambda>x. x\<lparr>runs := runs x + 1\<rparr>" _ s4] by (simp add: s6_def sched_view_proc_run s5_def)
  have cur: "current s6 = Some n" using f c1 by (simp add: s6_def s5_def proc_run_def)
  have id: "idleproc s6 = idleproc s" using f i1 by (simp add: s6_def s5_def proc_run_def)
  have st: "state (procs s6 p) = state (procs s p)" for p
    using fp(1) [of p] st1 by (auto simp: s6_def s5_def proc_run_def)
  have ws: "wait_state (procs s6 p) = wait_state (procs s p)" for p
    using fp(3) [of p] by (auto simp: s6_def s5_def proc_run_def s1_def split: if_splits)
  have W: "waiting_cpu L s6 = ?R - {n}"
    using cur id st by (auto simp: waiting_cpu_def)
  have "sched_inv ready detached L s6"
    using r4 d4 ready_view [OF v6] detached_view [OF v6] cur id i n
    unfolding sched_inv_def W by auto
  moreover have "satp s6 = (if current s = Some n then satp s else lsatp (pgdir (procs s n)))"
    using f fp(6) [of n] c by (auto simp: s6_def s5_def proc_run_def s1_def split: if_splits)
  ultimately show ?thesis using that [of s6 n] run cur n st ws by blast
qed

end

section \<open>Round robin is fair\<close>

fun schedule_times ::
  "'a kernel_scheme sched_class \<Rightarrow> nat \<Rightarrow> 'a kernel_scheme \<Rightarrow> 'a kernel_scheme option" where
  "schedule_times cls 0 s = Some s"
| "schedule_times cls (Suc k) s = do { s \<leftarrow> schedule cls s; schedule_times cls k s }"

text \<open>The current process runs on, the queue holds \<open>ps\<close> in this order, and the current process is
  neither the idle process nor asleep.\<close>

definition rr_running :: "'a kernel_scheme \<Rightarrow> nat \<Rightarrow> nat list \<Rightarrow> bool" where
  "rr_running s c ps \<longleftrightarrow> current s = Some c \<and> rr_queue s ps \<and> rr_detached s c \<and>
     (\<forall>p\<in>set (c # ps). state (procs s p) = PROC_RUNNABLE \<and> Some p \<noteq> idleproc s)"

lemma rr_view:
  assumes "sched_view s' = sched_view s"
  shows "rr_queue s' ps = rr_queue s ps" "rr_detached s' p = rr_detached s p"
  by (simp_all add: rr_queue_def rr_detached_def sched_view_eq [OF assms])

lemma rr_schedule_step:
  assumes "rr_running s c (p # ps)"
  obtains s' where "schedule default_sched_class s = Some s'" "rr_running s' p (ps @ [c])"
proof -
  have c: "current s = Some c" and q: "rr_queue s (p # ps)" and d: "rr_detached s c"
    and st: "\<And>x. x \<in> set (c # p # ps) \<Longrightarrow> state (procs s x) = PROC_RUNNABLE \<and> Some x \<noteq> idleproc s"
    using assms unfolding rr_running_def by blast+
  have cp: "c \<noteq> p" using q d by (auto simp: rr_queue_def rr_detached_def)
  define s1 where "s1 = set_proc c (\<lambda>x. x\<lparr>need_resched := False\<rparr>) s"
  have v1: "sched_view s1 = sched_view s" unfolding s1_def by (rule sched_view_set_proc) simp
  obtain s2 where e: "RR_enqueue c s1 = Some s2" and q2: "rr_queue s2 ((p # ps) @ [c])" and o2: "rq_only s1 s2"
    using RR_enqueue_queue [of s1 "p # ps" c] q d rr_view [OF v1] by metis
  have q2': "rr_queue s2 ([] @ p # (ps @ [c]))" using q2 by simp
  obtain s3 where dq: "RR_dequeue p s2 = Some s3" and q3: "rr_queue s3 ([] @ (ps @ [c]))"
    and d3: "rr_detached s3 p" and o3: "rq_only s2 s3"
    using RR_dequeue_queue [OF q2'] by metis
  have o: "rq_only s1 s3" by (rule rq_only_trans [OF o2 o3])
  define s4 where "s4 = proc_run p (set_proc p (\<lambda>x. x\<lparr>runs := runs x + 1\<rparr>) s3)"
  have sc: "state (procs s1 c) = PROC_RUNNABLE" and ic: "Some c \<noteq> idleproc s1"
    using st [of c] by (simp_all add: s1_def)
  have en: "(if state (procs s1 c) = PROC_RUNNABLE then sched_class_enqueue default_sched_class c s1 else Some s1) = Some s2"
    using sc ic e by (simp add: sched_class_enqueue_def default_sched_class_def)
  have "schedule default_sched_class s = Some s4"
    using RR_pick_queue [OF q2] dq cp
    by (simp only: schedule_def c Let_def Option.bind.bind_lunit s1_def [symmetric] en
        sched_class_pick_next_def sched_class_dequeue_def)
      (simp add: default_sched_class_def s4_def)
  moreover have v4: "sched_view s4 = sched_view s3"
    using sched_view_set_proc [of "\<lambda>x. x\<lparr>runs := runs x + 1\<rparr>" p s3] by (simp add: s4_def sched_view_proc_run)
  moreover have "current s4 = Some p" by (simp add: s4_def proc_run_def)
  moreover have "state (procs s4 x) = state (procs s x)" for x
    using rq_only_proc(1) [OF o, of x] by (auto simp: s4_def proc_run_def s1_def split: if_splits)
  moreover have "idleproc s4 = idleproc s"
    using rq_only_fields(2) [OF o] by (simp add: s4_def proc_run_def s1_def)
  ultimately show ?thesis
    using that [of s4] rr_view [OF v4] q3 d3 st by (simp add: rr_running_def)
qed

text \<open>C27: Round robin is fair. While processes only use up their slices, the process at position
  \<open>k\<close> of the run queue gets the CPU at exactly the \<open>k + 1\<close>-st call of \<open>schedule\<close>, and the
  processes that ran before it have gone to the back of the queue in their old order. So nobody
  waits longer than one turn of every other process.\<close>

theorem rr_fair:
  assumes "rr_running s c ps" "k < length ps"
  shows "\<exists>s'. schedule_times default_sched_class (Suc k) s = Some s' \<and>
    rr_running s' (ps ! k) (drop (Suc k) ps @ c # take k ps)"
  using assms
proof (induction k arbitrary: s c ps)
  case 0
  then obtain p qs where ps: "ps = p # qs" by (cases ps) auto
  then show ?case using rr_schedule_step [of s c p qs] 0 by fastforce
next
  case (Suc k)
  then obtain p qs where ps: "ps = p # qs" by (cases ps) auto
  obtain s1 where s1: "schedule default_sched_class s = Some s1" "rr_running s1 p (qs @ [c])"
    using rr_schedule_step Suc.prems(1) ps by metis
  have k: "k < length qs" using Suc.prems(2) ps by simp
  obtain s' where s': "schedule_times default_sched_class (Suc k) s1 = Some s'"
    "rr_running s' ((qs @ [c]) ! k) (drop (Suc k) (qs @ [c]) @ p # take k (qs @ [c]))"
    using Suc.IH [OF s1(2)] k by auto
  have "schedule_times default_sched_class (Suc (Suc k)) s = Some s'"
    using s1(1) s'(1) by (simp only: schedule_times.simps Option.bind.bind_lunit)
  moreover have "rr_running s' (ps ! Suc k) (drop (Suc (Suc k)) ps @ c # take (Suc k) ps)"
    using s'(2) k ps by (simp add: nth_append)
  ultimately show ?case by blast
qed

definition demo_ready :: "proc_struct" where
  "demo_ready = blank_proc\<lparr>state := PROC_RUNNABLE, time_slice := 5, prq := Some ()\<rparr>"

definition demo_rr :: kernel where
  "demo_rr = blank_kernel\<lparr>current := Some 2,
     procs := (procs blank_kernel)(2 := demo_ready\<lparr>prq := None\<rparr>, 3 := demo_ready, 4 := demo_ready),
     rq := \<lparr>proc_num = 2, max_time_slice = 5, lab6_run_pool = None\<rparr>,
     run_links := \<lparr>lprev = id(Head () := Elem 4, Elem 3 := Head (), Elem 4 := Elem 3),
       lnext = id(Head () := Elem 3, Elem 3 := Elem 4, Elem 4 := Head ())\<rparr>\<rparr>"

lemma demo_rr_running: "rr_running demo_rr 2 [3, 4]"
  by (simp add: rr_running_def rr_queue_def rr_detached_def demo_rr_def demo_ready_def blank_proc_def
      blank_kernel_def ring_def to_u32_def)

theorem rr_fair_witness:
  "\<exists>s'. schedule_times default_sched_class 2 demo_rr = Some s' \<and> rr_running s' 4 [2, 3]"
  using rr_fair [OF demo_rr_running, of 1] by (simp add: numeral_2_eq_2)

section \<open>The scheduler on either class\<close>

lemma demo_rr_inv: "sched_inv rr_ready rr_detached {0, 2, 3, 4} demo_rr"
proof -
  have W: "waiting_cpu {0, 2, 3, 4} demo_rr = {3, 4}"
    by (auto simp: waiting_cpu_def demo_rr_def demo_ready_def blank_proc_def blank_kernel_def)
  have "rr_ready demo_rr {3, 4}"
    unfolding rr_ready_def using demo_rr_running by (intro exI [of _ "[3, 4]"]) (simp add: rr_running_def)
  moreover have "rr_detached demo_rr 0" "rr_detached demo_rr 2"
    by (simp_all add: rr_detached_def demo_rr_def demo_ready_def blank_proc_def blank_kernel_def ring_def)
  moreover have "current demo_rr = Some 2" "idleproc demo_rr = Some 0"
    by (simp_all add: demo_rr_def blank_kernel_def)
  ultimately show ?thesis unfolding sched_inv_def W by auto
qed

text \<open>C14: \<open>schedule\<close> with the round-robin class never fails and loses no process: when the
  queue holds exactly the runnable processes that are neither current nor idle, it does so again
  afterwards; the new current process is runnable or the idle process; the idle process gets the CPU
  only when no other live process is runnable; and the page-table register is that of the new
  current process after a switch.\<close>

theorem schedule_rr:
  assumes "sched_inv rr_ready rr_detached L s"
  shows "\<exists>s' n. schedule default_sched_class s = Some s' \<and> sched_inv rr_ready rr_detached L s' \<and>
    current s' = Some n \<and> n \<in> L \<and> (state (procs s n) = PROC_RUNNABLE \<or> Some n = idleproc s) \<and>
    ((\<exists>p\<in>L. state (procs s p) = PROC_RUNNABLE \<and> Some p \<noteq> idleproc s) \<longrightarrow> Some n \<noteq> idleproc s) \<and>
    (\<forall>p. state (procs s' p) = state (procs s p)) \<and>
    satp s' = (if current s = Some n then satp s else lsatp (pgdir (procs s n)))"
  by (rule rr.schedule_inv [OF assms]) auto

theorem schedule_rr_witness:
  "\<exists>s' n. schedule default_sched_class demo_rr = Some s' \<and>
    sched_inv rr_ready rr_detached {0, 2, 3, 4} s' \<and> current s' = Some n \<and> n \<in> {0, 2, 3, 4} \<and>
    (state (procs demo_rr n) = PROC_RUNNABLE \<or> Some n = idleproc demo_rr)"
proof -
  obtain s' n where "schedule default_sched_class demo_rr = Some s'"
    "sched_inv rr_ready rr_detached {0, 2, 3, 4} s'" "current s' = Some n" "n \<in> {0, 2, 3, 4}"
    "state (procs demo_rr n) = PROC_RUNNABLE \<or> Some n = idleproc demo_rr"
    using schedule_rr [OF demo_rr_inv] by auto
  then show ?thesis by blast
qed

lemma demo_stride_inv: "sched_inv stride_ready stride_detached {0} blank_kernel"
proof -
  have W: "waiting_cpu {0} blank_kernel = {}"
    by (simp add: waiting_cpu_def blank_proc_def blank_kernel_def)
  have "skew (pool blank_kernel) (lab6_run_pool (rq blank_kernel)) Leaf"
    by (simp add: skew_def blank_kernel_def)
  then have "stride_ready blank_kernel {}"
    by (auto simp: stride_ready_def blank_kernel_def to_u32_def intro: exI [of _ Leaf])
  moreover have "stride_detached blank_kernel 0" "current blank_kernel = Some 0" "idleproc blank_kernel = Some 0"
    by (simp_all add: stride_detached_def blank_proc_def blank_kernel_def)
  ultimately show ?thesis unfolding sched_inv_def W by auto
qed

text \<open>The same for the stride class: whatever the strides are, \<open>schedule\<close> never fails, the pool
  keeps holding exactly the runnable processes that are neither current nor idle, and the idle
  process runs only when nothing else can.\<close>

theorem schedule_stride:
  assumes "sched_inv stride_ready stride_detached L s"
  shows "\<exists>s' n. schedule stride_sched_class s = Some s' \<and> sched_inv stride_ready stride_detached L s' \<and>
    current s' = Some n \<and> n \<in> L \<and> (state (procs s n) = PROC_RUNNABLE \<or> Some n = idleproc s) \<and>
    ((\<exists>p\<in>L. state (procs s p) = PROC_RUNNABLE \<and> Some p \<noteq> idleproc s) \<longrightarrow> Some n \<noteq> idleproc s) \<and>
    (\<forall>p. state (procs s' p) = state (procs s p))"
  by (rule stride.schedule_inv [OF assms]) auto

theorem schedule_stride_witness:
  "\<exists>s' n. schedule stride_sched_class blank_kernel = Some s' \<and>
    sched_inv stride_ready stride_detached {0} s' \<and> current s' = Some n \<and> n \<in> {0}"
proof -
  obtain s' n where "schedule stride_sched_class blank_kernel = Some s'"
    "sched_inv stride_ready stride_detached {0} s'" "current s' = Some n" "n \<in> {0}"
    using schedule_stride [OF demo_stride_inv] by auto
  then show ?thesis by blast
qed

text \<open>Waking a live process that is not a zombie never fails: it becomes runnable with its wait
  state cleared, it is queued unless it is the current or the idle process, a process that was
  runnable already is left alone, and no other process changes outside its queue fields.\<close>

theorem wakeup_rr:
  assumes "sched_inv rr_ready rr_detached L s" "p \<in> L" "state (procs s p) \<noteq> PROC_ZOMBIE"
  shows "\<exists>s'. wakeup_proc default_sched_class p s = Some s' \<and> sched_inv rr_ready rr_detached L s' \<and>
    state (procs s' p) = PROC_RUNNABLE \<and>
    (Some p \<noteq> current s \<and> Some p \<noteq> idleproc s \<longrightarrow> p \<in> waiting_cpu L s') \<and>
    (state (procs s p) \<noteq> PROC_RUNNABLE \<longrightarrow> wait_state (procs s' p) = 0) \<and>
    (\<forall>q. q \<noteq> p \<longrightarrow> bare (procs s' q) = bare (procs s q))"
proof -
  obtain s' where s': "wakeup_proc default_sched_class p s = Some s'" "sched_inv rr_ready rr_detached L s'"
    "state (procs s' p) = PROC_RUNNABLE" "\<And>q. q \<noteq> p \<Longrightarrow> bare (procs s' q) = bare (procs s q)"
    "wait_state (procs s' p) = (if state (procs s p) = PROC_RUNNABLE then wait_state (procs s p) else 0)"
    and o: "rq_only (if state (procs s p) = PROC_RUNNABLE then s
       else set_proc p (\<lambda>x. x\<lparr>state := PROC_RUNNABLE, wait_state := 0\<rparr>) s) s'"
    by (rule rr.wakeup_inv [OF assms]) blast
  have "current s' = current s" "idleproc s' = idleproc s"
    using rq_only_fields(1,2) [OF o] by simp_all
  then show ?thesis using s' assms(2) by (simp add: waiting_cpu_def)
qed

theorem wakeup_rr_witness:
  "\<exists>s'. wakeup_proc default_sched_class 0 demo_rr = Some s' \<and>
    sched_inv rr_ready rr_detached {0, 2, 3, 4} s' \<and> state (procs s' 0) = PROC_RUNNABLE"
proof -
  have "state (procs demo_rr 0) \<noteq> PROC_ZOMBIE" by (simp add: demo_rr_def blank_kernel_def blank_proc_def)
  then show ?thesis using wakeup_rr [OF demo_rr_inv, of 0] by auto
qed

end
