(* ===== verification/Timer.thy ===== *)
theory Timer
  imports Sched
begin

text \<open>
  The timer list of \<^verbatim>\<open>kern/schedule/sched.c\<close>, read back as absolute expiry times.

  \<open>tlist s ts\<close> says that the timer list holds the timers \<open>ts\<close> in this order; each timer stores the
  ticks that remain after the timer before it, and \<open>due e 0 ts\<close> pairs every timer with its absolute
  number of remaining ticks. Adding a timer is a stable insertion into that sorted list, deleting
  one removes its pair and nothing else, and a clock tick takes one off every pair, wakes the
  processes whose timers reach zero and drops those timers.
\<close>

definition tlist :: "'a kernel_scheme \<Rightarrow> nat list \<Rightarrow> bool" where
  "tlist s ts \<longleftrightarrow> ring (timer_links s) (Head ()) (map Elem ts)"

fun due :: "(nat \<Rightarrow> nat) \<Rightarrow> nat \<Rightarrow> nat list \<Rightarrow> (nat \<times> nat) list" where
  "due e a [] = []"
| "due e a (t # ts) = (t, a + e t) # due e (a + e t) ts"

abbreviation ticks :: "'a kernel_scheme \<Rightarrow> nat \<Rightarrow> nat" where
  "ticks s t \<equiv> expires (timers s t)"

lemma due_cong: "(\<And>t. t \<in> set ts \<Longrightarrow> e' t = e t) \<Longrightarrow> due e' a ts = due e a ts"
  by (induction ts arbitrary: a) auto

lemma due_append: "due e a (us @ vs) = due e a us @ due e (a + sum_list (map e us)) vs"
  by (induction us arbitrary: a) (auto simp: add.assoc)

lemma due_ge: "x \<in> set (due e a ts) \<Longrightarrow> a \<le> snd x"
  by (induction ts arbitrary: a) (auto, metis add_leD1)

lemma due_sorted: "sorted (map snd (due e a ts))"
  by (induction ts arbitrary: a) (auto dest: due_ge)

lemma map_fst_due [simp]: "map fst (due e a ts) = ts"
  by (induction ts arbitrary: a) auto

lemma due_zero: "(\<And>t. t \<in> set ws \<Longrightarrow> e t = 0) \<Longrightarrow> due e a ws = map (\<lambda>t. (t, a)) ws"
  by (induction ws) auto

lemma set_timer_simps [simp]:
  "timers (set_timer t f s) = (timers s)(t := f (timers s t))"
  "timer_links (set_timer t f s) = timer_links s" "procs (set_timer t f s) = procs s"
  "current (set_timer t f s) = current s" "idleproc (set_timer t f s) = idleproc s"
  "rq (set_timer t f s) = rq s" "run_links (set_timer t f s) = run_links s"
  "pool (set_timer t f s) = pool s"
  by (simp_all add: set_timer_def)

section \<open>Adding a timer\<close>

lemma tlist_next:
  assumes "tlist s (us @ n # vs)"
  shows "lnext (timer_links s) (Elem n) = hd (map Elem vs @ [Head ()])"
  using ring_next [of "timer_links s" "Head ()" "map Elem us" "Elem n" "map Elem vs"] assms
  by (simp add: tlist_def)

lemma tlist_distinct: "tlist s ts \<Longrightarrow> distinct ts"
  by (auto simp: tlist_def dest: ring_distinct)

text \<open>The stable insertion of a pair into a list of pairs sorted by time.\<close>

definition insert_due :: "nat \<Rightarrow> nat \<Rightarrow> (nat \<times> nat) list \<Rightarrow> (nat \<times> nat) list" where
  "insert_due t d xs = takeWhile (\<lambda>x. snd x \<le> d) xs @ (t, d) # dropWhile (\<lambda>x. snd x \<le> d) xs"

lemma add_timer_loop_due:
  assumes "tlist s (us @ vs)" "t \<notin> set (us @ vs)"
  shows "\<exists>s' ws zs. add_timer_loop t (hd (map Elem vs @ [Head ()])) s = Some (hd (map Elem zs @ [Head ()]), s') \<and>
    vs = ws @ zs \<and> timer_links s' = timer_links s \<and> s' = s\<lparr>timers := timers s'\<rparr> \<and>
    (\<forall>x. x \<notin> set (t # vs) \<longrightarrow> timers s' x = timers s x) \<and> (\<forall>x. tproc (timers s' x) = tproc (timers s x)) \<and>
    (\<forall>a. due (ticks s') a (ws @ t # zs) = insert_due t (a + ticks s t) (due (ticks s) a vs))"
  using assms
proof (induction vs arbitrary: us s)
  case Nil
  then show ?case
    by (subst add_timer_loop.simps) (simp add: insert_due_def)
next
  case (Cons n vs)
  have d: "n \<notin> set vs" "t \<noteq> n" "t \<notin> set vs" using tlist_distinct [OF Cons.prems(1)] Cons.prems(2) by auto
  show ?case
  proof (cases "ticks s t < ticks s n")
    case True
    define s' where "s' = set_timer n (\<lambda>x. x\<lparr>expires := expires x - ticks s t\<rparr>) s"
    have "add_timer_loop t (Elem n) s = Some (Elem n, s')"
      using True by (subst add_timer_loop.simps) (simp add: s'_def)
    moreover have "due (ticks s') b vs = due (ticks s) b vs" for b
      by (rule due_cong) (use d in \<open>auto simp: s'_def\<close>)
    then have "due (ticks s') a (t # n # vs) = insert_due t (a + ticks s t) (due (ticks s) a (n # vs))" for a
      using True d by (simp add: insert_due_def s'_def)
    moreover have "timer_links s' = timer_links s" "s' = s\<lparr>timers := timers s'\<rparr>"
      "\<forall>x. x \<notin> set (t # n # vs) \<longrightarrow> timers s' x = timers s x" "\<forall>x. tproc (timers s' x) = tproc (timers s x)"
      by (simp_all add: s'_def set_timer_def)
    ultimately show ?thesis
      by (intro exI [of _ s'] exI [of _ "[]"] exI [of _ "n # vs"]) (simp del: due.simps)
  next
    case False
    define s1 where "s1 = set_timer t (\<lambda>x. x\<lparr>expires := expires x - ticks s n\<rparr>) s"
    have "tlist s1 ((us @ [n]) @ vs)" "t \<notin> set ((us @ [n]) @ vs)"
      using Cons.prems by (simp_all add: tlist_def s1_def)
    from Cons.IH [OF this] obtain s' ws zs where
      run: "add_timer_loop t (hd (map Elem vs @ [Head ()])) s1 = Some (hd (map Elem zs @ [Head ()]), s')"
      and vs: "vs = ws @ zs" and l: "timer_links s' = timer_links s1" and o: "s' = s1\<lparr>timers := timers s'\<rparr>"
      and fr: "\<forall>x. x \<notin> set (t # vs) \<longrightarrow> timers s' x = timers s1 x"
      and tp: "\<forall>x. tproc (timers s' x) = tproc (timers s1 x)"
      and du: "\<And>a. due (ticks s') a (ws @ t # zs) = insert_due t (a + ticks s1 t) (due (ticks s1) a vs)"
      by blast
    have "add_timer_loop t (Elem n) s = Some (hd (map Elem zs @ [Head ()]), s')"
      using False run tlist_next [OF Cons.prems(1)]
      by (subst add_timer_loop.simps) (simp add: s1_def list_next_def)
    moreover have "due (ticks s1) b vs = due (ticks s) b vs" for b
      by (rule due_cong) (use d in \<open>auto simp: s1_def\<close>)
    then have "due (ticks s') a (n # ws @ t # zs) = insert_due t (a + ticks s t) (due (ticks s) a (n # vs))" for a
      using du [of "a + ticks s n"] fr d False by (simp add: insert_due_def s1_def)
    moreover have "s' = s\<lparr>timers := timers s'\<rparr>"
      by (subst o) (simp add: s1_def set_timer_def)
    ultimately show ?thesis
      using vs l fr tp
      by (intro exI [of _ s'] exI [of _ "n # ws"] exI [of _ zs]) (simp del: due.simps add: s1_def)
  qed
qed

lemma add_timer_due_list:
  assumes ts: "tlist s ts" and t: "t \<notin> set ts" "ring (timer_links s) (Elem t) []"
    and e: "ticks s t > 0" "tproc (timers s t) \<noteq> None"
  obtains s' us where "add_timer t s = Some s'" "tlist s' us"
    "due (ticks s') 0 us = insert_due t (ticks s t) (due (ticks s) 0 ts)"
    "s' = s\<lparr>timers := timers s', timer_links := timer_links s'\<rparr>"
    "\<And>x. tproc (timers s' x) = tproc (timers s x)"
proof -
  have "tlist s ([] @ ts)" "t \<notin> set ([] @ ts)" using ts t by simp_all
  from add_timer_loop_due [OF this] obtain s' ws zs where
    run: "add_timer_loop t (hd (map Elem ts @ [Head ()])) s = Some (hd (map Elem zs @ [Head ()]), s')"
    and tsz: "ts = ws @ zs" and l: "timer_links s' = timer_links s" and o: "s' = s\<lparr>timers := timers s'\<rparr>"
    and tp: "\<And>x. tproc (timers s' x) = tproc (timers s x)"
    and du: "due (ticks s') 0 (ws @ t # zs) = insert_due t (0 + ticks s t) (due (ticks s) 0 ts)"
    by blast
  define s2 where "s2 = s'\<lparr>timer_links := list_add_before (timer_links s') (hd (map Elem zs @ [Head ()])) (Elem t)\<rparr>"
  have nx: "list_next (timer_links s) (Head ()) = hd (map Elem ts @ [Head ()])"
    using ring_next_head ts by (auto simp: tlist_def list_next_def)
  have "add_timer t s = Some s2"
    using e list_empty_ring [OF t(2)] run nx by (simp add: add_timer_def s2_def)
  moreover have "ring (timer_links s2) (Head ()) (map Elem ws @ Elem t # map Elem zs)"
    using ring_add_before_at [of "timer_links s" "Head ()" "map Elem ws" "map Elem zs" "Elem t"] ts t(1) tsz
    by (auto simp: tlist_def s2_def l)
  then have "tlist s2 (ws @ t # zs)" by (simp add: tlist_def)
  moreover have "due (ticks s2) 0 (ws @ t # zs) = insert_due t (ticks s t) (due (ticks s) 0 ts)"
    using du by (simp add: s2_def)
  moreover have "s2 = s\<lparr>timers := timers s2, timer_links := timer_links s2\<rparr>"
    using o by (cases s; cases s') (simp add: s2_def)
  moreover have "tproc (timers s2 x) = tproc (timers s x)" for x using tp by (simp add: s2_def)
  ultimately show ?thesis using that [of s2 "ws @ t # zs"] by blast
qed

section \<open>Deleting a timer\<close>

lemma del_timer_due_list:
  assumes ts: "tlist s (us @ t # vs)"
    and nw: "\<And>n. vs \<noteq> [] \<Longrightarrow> ticks s t + ticks s (hd vs) < 2 ^ 32"
  shows "tlist (del_timer t s) (us @ vs)"
    and "due (ticks (del_timer t s)) a (us @ vs) = filter (\<lambda>x. fst x \<noteq> t) (due (ticks s) a (us @ t # vs))"
    and "ring (timer_links (del_timer t s)) (Elem t) []"
    and "ticks s t = 0 \<Longrightarrow> timers (del_timer t s) = timers s"
    and "del_timer t s = s\<lparr>timers := timers (del_timer t s), timer_links := timer_links (del_timer t s)\<rparr>"
    and "tproc (timers (del_timer t s) x) = tproc (timers s x)"
proof -
  have r: "ring (timer_links s) (Head ()) (map Elem us @ Elem t # map Elem vs)"
    using ts by (simp add: tlist_def)
  have ne: "\<not> list_empty (timer_links s) (Elem t)"
    using list_empty_ring [OF ring_rotate [THEN iffD1, OF r]] by simp
  have nx: "list_next (timer_links s) (Elem t) = hd (map Elem vs @ [Head ()])"
    using tlist_next [OF ts] by (simp add: list_next_def)
  define e' where "e' = (\<lambda>x. if vs \<noteq> [] \<and> x = hd vs then ticks s x + ticks s t else ticks s x)"
  have l: "timer_links (del_timer t s) = list_del_init (timer_links s) (Elem t)"
    using ne nx by (cases vs) (simp_all add: del_timer_def Let_def)
  have e: "ticks (del_timer t s) = e'"
  proof (rule ext)
    fix x show "ticks (del_timer t s) x = e' x"
      using ne nx nw by (cases vs) (simp_all add: del_timer_def e'_def Let_def add.commute)
  qed
  show "tlist (del_timer t s) (us @ vs)" "ring (timer_links (del_timer t s)) (Elem t) []"
    using ring_list_del_init [OF r] by (simp_all add: tlist_def l)
  show "ticks s t = 0 \<Longrightarrow> timers (del_timer t s) = timers s"
    using ne by (simp add: del_timer_def)
  show "del_timer t s = s\<lparr>timers := timers (del_timer t s), timer_links := timer_links (del_timer t s)\<rparr>"
    using ne nx by (cases vs; cases s) (simp_all add: del_timer_def Let_def set_timer_def)
  show "tproc (timers (del_timer t s) x) = tproc (timers s x)"
    using ne nx by (cases vs) (simp_all add: del_timer_def Let_def)
  have d: "distinct (us @ t # vs)" by (rule tlist_distinct [OF ts])
  have e'us: "e' x = ticks s x" if "x \<in> set us" for x
    using d that by (cases vs) (auto simp: e'_def)
  have us: "due e' a us = due (ticks s) a us" and sus: "map e' us = map (ticks s) us"
    using e'us by (auto intro!: due_cong)
  have vs: "due e' b vs = due (ticks s) (b + ticks s t) vs" for b
  proof (cases vs)
    case (Cons n ns)
    have "due e' c ns = due (ticks s) c ns" for c
      using d Cons by (intro due_cong) (auto simp: e'_def)
    then show ?thesis using Cons by (simp add: e'_def add_ac)
  qed simp
  have keep: "filter (\<lambda>x. fst x \<noteq> t) (due f c xs) = due f c xs" if "t \<notin> set xs" for f c xs
    using that by (induction xs arbitrary: c) auto
  show "due (ticks (del_timer t s)) a (us @ vs) = filter (\<lambda>x. fst x \<noteq> t) (due (ticks s) a (us @ t # vs))"
    using d us vs keep unfolding e by (simp add: due_append sus)
qed

section \<open>The clock tick\<close>

definition timer_procs_ok :: "nat set \<Rightarrow> 'a kernel_scheme \<Rightarrow> nat list \<Rightarrow> bool" where
  "timer_procs_ok L s ts \<longleftrightarrow> (\<forall>t\<in>set ts. \<exists>p\<in>L. tproc (timers s t) = Some p \<and>
     state (procs s p) \<noteq> PROC_ZOMBIE \<and>
     (wait_state (procs s p) = 0 \<or> wait_state (procs s p) AND WT_INTERRUPTED \<noteq> 0))"

definition woken :: "'a kernel_scheme \<Rightarrow> 'a kernel_scheme \<Rightarrow> nat list \<Rightarrow> bool" where
  "woken s s' ws \<longleftrightarrow> (\<forall>t\<in>set ws. \<forall>p. tproc (timers s t) = Some p \<longrightarrow> state (procs s' p) = PROC_RUNNABLE)"

context sched_policy
begin

lemma expire_one:
  assumes inv: "sched_inv ready detached L s" and tl: "tlist s (t # vs)" and ok: "timer_procs_ok L s (t # vs)"
    and z: "ticks s t = 0" and small: "\<And>x. ticks s x < 2 ^ 32"
  obtains p s1 where "tproc (timers s t) = Some p"
    "wait_state (procs s p) \<noteq> 0 \<longrightarrow> wait_state (procs s p) AND WT_INTERRUPTED \<noteq> 0"
    "wakeup_proc cls p s = Some s1"
    "sched_inv ready detached L (del_timer t s1)" "tlist (del_timer t s1) vs"
    "timers (del_timer t s1) = timers s" "timer_procs_ok L (del_timer t s1) vs"
    "state (procs (del_timer t s1) p) = PROC_RUNNABLE"
    "\<And>q. state (procs s q) = PROC_RUNNABLE \<Longrightarrow> state (procs (del_timer t s1) q) = PROC_RUNNABLE"
    "current (del_timer t s1) = current s" "timer_links s1 = timer_links s"
proof -
  obtain p where p: "tproc (timers s t) = Some p" "p \<in> L" "state (procs s p) \<noteq> PROC_ZOMBIE"
    "wait_state (procs s p) = 0 \<or> wait_state (procs s p) AND WT_INTERRUPTED \<noteq> 0"
    using ok by (auto simp: timer_procs_ok_def)
  obtain s1 where s1: "wakeup_proc cls p s = Some s1" "sched_inv ready detached L s1"
    "state (procs s1 p) = PROC_RUNNABLE"
    and ot: "\<And>q. q \<noteq> p \<Longrightarrow> bare (procs s1 q) = bare (procs s q)"
    and ws: "wait_state (procs s1 p) = (if state (procs s p) = PROC_RUNNABLE then wait_state (procs s p) else 0)"
    and o: "rq_only (if state (procs s p) = PROC_RUNNABLE then s
       else set_proc p (\<lambda>x. x\<lparr>state := PROC_RUNNABLE, wait_state := 0\<rparr>) s) s1"
    using wakeup_inv [OF inv p(2,3)] by metis
  have k: "timers s1 = timers s" "timer_links s1 = timer_links s" "current s1 = current s"
    using rq_only_fields(1,5,6) [OF o] by simp_all
  define s2 where "s2 = del_timer t s1"
  have tl1: "tlist s1 ([] @ t # vs)" using tl k by (simp add: tlist_def)
  note del = del_timer_due_list [OF tl1, folded s2_def]
  have nw: "ticks s1 t + ticks s1 (hd vs) < 2 ^ 32" using z small k by simp
  have t2: "timers s2 = timers s" and l2: "tlist s2 vs"
    and u2: "s2 = s1\<lparr>timers := timers s2, timer_links := timer_links s2\<rparr>"
    using del(1,4,5) nw z k by (simp_all del: One_nat_def)
  have p2: "procs s2 = procs s1" "current s2 = current s1" "idleproc s2 = idleproc s1"
    and v2: "sched_view s2 = sched_view s1"
    by (subst u2, simp add: sched_view_def)+
  have inv2: "sched_inv ready detached L s2" using inv_cong [OF v2] s1(2) p2 by simp
  have "timer_procs_ok L s2 vs"
  proof (unfold timer_procs_ok_def, intro ballI)
    fix x assume "x \<in> set vs"
    then obtain q where q: "q \<in> L" "tproc (timers s x) = Some q" "state (procs s q) \<noteq> PROC_ZOMBIE"
      "wait_state (procs s q) = 0 \<or> wait_state (procs s q) AND WT_INTERRUPTED \<noteq> 0"
      using ok by (auto simp: timer_procs_ok_def)
    have "state (procs s1 q) \<noteq> PROC_ZOMBIE \<and>
      (wait_state (procs s1 q) = 0 \<or> wait_state (procs s1 q) AND WT_INTERRUPTED \<noteq> 0)"
      using q s1(3) ws bare_eq_fields(1,3) [OF ot] by (cases "q = p") (simp_all split: if_splits)
    then show "\<exists>p\<in>L. tproc (timers s2 x) = Some p \<and> state (procs s2 p) \<noteq> PROC_ZOMBIE \<and>
      (wait_state (procs s2 p) = 0 \<or> wait_state (procs s2 p) AND WT_INTERRUPTED \<noteq> 0)"
      using q(1,2) t2 p2 by auto
  qed
  moreover have "state (procs s2 q) = PROC_RUNNABLE" if "state (procs s q) = PROC_RUNNABLE" for q
    using that s1(3) bare_eq_fields(1) [OF ot, of q] p2 by (cases "q = p") auto
  ultimately show ?thesis
    by (intro that [of p s1, folded s2_def]) (use p s1 inv2 l2 t2 p2 k in auto)
qed

lemma expire_all:
  assumes "sched_inv ready detached L s" "tlist s (t # vs)" "timer_procs_ok L s (t # vs)"
    "\<And>x. ticks s x < 2 ^ 32"
  shows "\<exists>s' ws zs. expire_loop cls t s = Some s' \<and> t # vs = ws @ zs \<and> sched_inv ready detached L s' \<and>
    tlist s' zs \<and> timers s' = timers s \<and> (\<forall>x\<in>set ws. ticks s x = 0) \<and> (zs \<noteq> [] \<longrightarrow> ticks s (hd zs) \<noteq> 0) \<and>
    woken s s' ws \<and> current s' = current s \<and>
    (\<forall>q. state (procs s q) = PROC_RUNNABLE \<longrightarrow> state (procs s' q) = PROC_RUNNABLE)"
  using assms
proof (induction vs arbitrary: t s)
  case Nil
  show ?case
  proof (cases "ticks s t = 0")
    case False
    then have "expire_loop cls t s = Some s" by (subst expire_loop.simps) simp
    then show ?thesis using False Nil
      by (intro exI [of _ s] exI [of _ "[]"] exI [of _ "[t]"]) (simp add: woken_def)
  next
    case True
    from expire_one [OF Nil(1-3) True Nil(4)] obtain p s1 where
      p: "tproc (timers s t) = Some p"
      "wait_state (procs s p) \<noteq> 0 \<longrightarrow> wait_state (procs s p) AND WT_INTERRUPTED \<noteq> 0"
      "wakeup_proc cls p s = Some s1"
      and s2: "sched_inv ready detached L (del_timer t s1)" "tlist (del_timer t s1) []"
      "timers (del_timer t s1) = timers s" "state (procs (del_timer t s1) p) = PROC_RUNNABLE"
      "\<And>q. state (procs s q) = PROC_RUNNABLE \<Longrightarrow> state (procs (del_timer t s1) q) = PROC_RUNNABLE"
      "current (del_timer t s1) = current s" by metis
    have "list_next (timer_links s) (Elem t) = Head ()"
      using tlist_next [of s "[]" t "[]"] Nil(2) by (simp add: list_next_def)
    then have "expire_loop cls t s = Some (del_timer t s1)"
      using True p by (subst expire_loop.simps) (simp add: Let_def)
    then show ?thesis using True s2 p
      by (intro exI [of _ "del_timer t s1"] exI [of _ "[t]"] exI [of _ "[]"]) (simp add: woken_def)
  qed
next
  case (Cons n vs)
  show ?case
  proof (cases "ticks s t = 0")
    case False
    then have "expire_loop cls t s = Some s" by (subst expire_loop.simps) simp
    then show ?thesis using False Cons.prems
      by (intro exI [of _ s] exI [of _ "[]"] exI [of _ "t # n # vs"]) (simp add: woken_def)
  next
    case True
    from expire_one [OF Cons.prems(1-3) True Cons.prems(4)] obtain p s1 where
      p: "tproc (timers s t) = Some p"
      "wait_state (procs s p) \<noteq> 0 \<longrightarrow> wait_state (procs s p) AND WT_INTERRUPTED \<noteq> 0"
      "wakeup_proc cls p s = Some s1"
      and s2: "sched_inv ready detached L (del_timer t s1)" "tlist (del_timer t s1) (n # vs)"
      and tm: "timers (del_timer t s1) = timers s" and ok: "timer_procs_ok L (del_timer t s1) (n # vs)"
      and pr: "state (procs (del_timer t s1) p) = PROC_RUNNABLE"
      and mono: "\<And>q. state (procs s q) = PROC_RUNNABLE \<Longrightarrow> state (procs (del_timer t s1) q) = PROC_RUNNABLE"
      and cu: "current (del_timer t s1) = current s" by metis
    have "list_next (timer_links s) (Elem t) = Elem n"
      using tlist_next [of s "[]" t "n # vs"] Cons.prems(2) by (simp add: list_next_def)
    then have run: "expire_loop cls t s = expire_loop cls n (del_timer t s1)"
      using True p by (subst expire_loop.simps) (simp add: Let_def)
    from Cons.IH [OF s2 ok] obtain s' ws zs where
      r: "expire_loop cls n (del_timer t s1) = Some s'" "n # vs = ws @ zs" "sched_inv ready detached L s'"
      "tlist s' zs" "timers s' = timers s" "\<forall>x\<in>set ws. ticks s x = 0" "zs \<noteq> [] \<longrightarrow> ticks s (hd zs) \<noteq> 0"
      "woken (del_timer t s1) s' ws" "current s' = current s"
      and m2: "\<And>q. state (procs (del_timer t s1) q) = PROC_RUNNABLE \<Longrightarrow> state (procs s' q) = PROC_RUNNABLE"
      using tm cu Cons.prems(4) by auto
    have "woken s s' (t # ws)" using r(8) p(1) m2 [OF pr] tm by (simp add: woken_def)
    then show ?thesis using run r True mono m2
      by (intro exI [of _ s'] exI [of _ "t # ws"] exI [of _ zs]) simp
  qed
qed

lemma tick_inv:
  assumes inv: "sched_inv ready detached L s"
  shows "sched_inv ready detached L (sched_class_proc_tick cls c s)"
    and "timers (sched_class_proc_tick cls c s) = timers s"
    and "timer_links (sched_class_proc_tick cls c s) = timer_links s"
    and "state (procs (sched_class_proc_tick cls c s) p) = state (procs s p)"
proof -
  let ?s = "cls_proc_tick cls c s"
  let ?u = "?s\<lparr>procs := (procs ?s)(c := (procs ?s c)\<lparr>need_resched := need_resched (procs s c)\<rparr>)\<rparr>"
  have o: "rq_only s ?u" by (rule tick_ok)
  have st: "state (procs ?s q) = state (procs s q)" for q
    using rq_only_proc(1) [OF o, of q] by (simp split: if_splits)
  have f: "timers ?s = timers s" "timer_links ?s = timer_links s" "current ?s = current s" "idleproc ?s = idleproc s"
    using rq_only_fields [OF o] by simp_all
  have w: "waiting_cpu L ?s = waiting_cpu L s" using st f by (simp add: waiting_cpu_def)
  have i1: "sched_inv ready detached L ?s"
    using inv tick_ready [of s _ c] tick_detached [of s _ c] f unfolding sched_inv_def w by auto
  define s2 where "s2 = set_proc c (\<lambda>x. x\<lparr>need_resched := True\<rparr>) s"
  have v2: "sched_view s2 = sched_view s" unfolding s2_def by (rule sched_view_set_proc) simp
  have i2: "sched_inv ready detached L s2" using inv inv_cong [OF v2] by (simp add: s2_def)
  show "sched_inv ready detached L (sched_class_proc_tick cls c s)"
    using i1 i2 by (simp add: sched_class_proc_tick_def s2_def)
  show "timers (sched_class_proc_tick cls c s) = timers s"
    "timer_links (sched_class_proc_tick cls c s) = timer_links s"
    "state (procs (sched_class_proc_tick cls c s) p) = state (procs s p)"
    using f st by (simp_all add: sched_class_proc_tick_def)
qed

end

section \<open>The timer list as a calendar\<close>

lemma due_decrement:
  assumes "distinct (t # ts)" "e t \<noteq> 0"
  shows "due (e(t := e t - 1)) 0 (t # ts) = map (\<lambda>x. (fst x, snd x - 1)) (due e 0 (t # ts))"
proof -
  have "due (e(t := e t - 1)) (b - 1) us = map (\<lambda>x. (fst x, snd x - 1)) (due e b us)"
    if "t \<notin> set us" "b \<noteq> 0" for b us
    using that
  proof (induction us arbitrary: b)
    case (Cons u us)
    then have "b - 1 + e u = b + e u - 1" by simp
    then show ?case using Cons.IH [of "b + e u"] Cons.prems by auto
  qed simp
  then show ?thesis using assms by simp
qed

lemma due_drop_zero:
  assumes "\<forall>x\<in>set ws. e x = 0" "zs \<noteq> [] \<longrightarrow> e (hd zs) \<noteq> 0"
  shows "filter (\<lambda>x. snd x \<noteq> 0) (due e 0 (ws @ zs)) = due e 0 zs"
    and "filter (\<lambda>x. snd x = 0) (due e 0 (ws @ zs)) = map (\<lambda>t. (t, 0)) ws"
proof -
  have w: "due e 0 ws = map (\<lambda>t. (t, 0)) ws" "sum_list (map e ws) = 0"
    using assms(1) by (auto intro: due_zero)
  have z: "snd x \<noteq> 0" if "x \<in> set (due e 0 zs)" for x
  proof (cases zs)
    case (Cons z us)
    then have "e z \<le> snd x" using that due_ge [of x e "e z" us] by auto
    then show ?thesis using assms(2) Cons by auto
  qed (use that in simp)
  show "filter (\<lambda>x. snd x \<noteq> 0) (due e 0 (ws @ zs)) = due e 0 zs"
    using z by (simp add: due_append filter_id_conv w)
  show "filter (\<lambda>x. snd x = 0) (due e 0 (ws @ zs)) = map (\<lambda>t. (t, 0)) ws"
    using z by (simp add: due_append filter_empty_conv filter_id_conv w)
qed

text \<open>C29: \<open>add_timer\<close> is a stable insertion by absolute expiry time: a fresh timer with a process
  and a positive time is put after every timer that is due no later and before the others, it is
  due in exactly the time asked for, and no other timer becomes due earlier or later.\<close>

theorem add_timer_calendar:
  assumes "tlist s ts" "t \<notin> set ts" "ring (timer_links s) (Elem t) []"
    "ticks s t > 0" "tproc (timers s t) \<noteq> None"
  shows "\<exists>s' us. add_timer t s = Some s' \<and> tlist s' us \<and>
    due (ticks s') 0 us = takeWhile (\<lambda>x. snd x \<le> ticks s t) (due (ticks s) 0 ts) @
      (t, ticks s t) # dropWhile (\<lambda>x. snd x \<le> ticks s t) (due (ticks s) 0 ts)"
  using add_timer_due_list [OF assms] unfolding insert_due_def by metis

definition demo_timers :: kernel where
  "demo_timers = blank_kernel\<lparr>
     procs := (procs blank_kernel)(2 := blank_proc\<lparr>state := PROC_SLEEPING, wait_state := WT_TIMER\<rparr>),
     timers := (timers blank_kernel)(7 := \<lparr>expires = 3, tproc = Some 2\<rparr>, 8 := \<lparr>expires = 5, tproc = Some 2\<rparr>),
     timer_links := \<lparr>lprev = id(Head () := Elem 7, Elem 7 := Head ()),
       lnext = id(Head () := Elem 7, Elem 7 := Head ())\<rparr>\<rparr>"

lemma demo_tlist: "tlist demo_timers [7]"
  by (simp add: tlist_def demo_timers_def ring_def)

theorem add_timer_calendar_witness:
  "\<exists>s' us. add_timer 8 demo_timers = Some s' \<and> tlist s' us \<and> due (ticks s') 0 us = [(7, 3), (8, 5)]"
proof -
  have "ring (timer_links demo_timers) (Elem 8) []" "ticks demo_timers 8 = 5" "ticks demo_timers 7 = 3"
    "tproc (timers demo_timers 8) \<noteq> None"
    by (simp_all add: demo_timers_def ring_def)
  then show ?thesis using add_timer_calendar [OF demo_tlist, of 8] by simp
qed

lemma run_timer_list_idle:
  assumes inv: "sched_inv rr_ready rr_detached L s" and tl: "tlist s []"
  shows "\<exists>s'. run_timer_list default_sched_class s = Some s' \<and> tlist s' [] \<and> sched_inv rr_ready rr_detached L s'"
proof -
  obtain c where c: "current s = Some c" using inv by (auto simp: sched_inv_def)
  have "list_next (timer_links s) (Head ()) = Head ()"
    using ring_next_head [of "timer_links s" "Head ()" "map Elem []"] tl by (simp add: tlist_def list_next_def)
  then have "run_timer_list default_sched_class s = Some (sched_class_proc_tick default_sched_class c s)"
    using c by (simp add: run_timer_list_def)
  then show ?thesis using rr.tick_inv [OF inv, of c] tl by (simp add: tlist_def)
qed

text \<open>C30: The clock tick \<open>run_timer_list\<close>, with the round-robin class: it never fails when the
  first timer is not yet due and the timers' processes are alive and interruptible; every timer
  is due one tick earlier; exactly the timers that become due leave the list, and the processes
  they belong to are runnable afterwards; the queue invariant holds again.\<close>

theorem run_timer_list_tick:
  assumes inv: "sched_inv rr_ready rr_detached L s" and tl: "tlist s ts" and ok: "timer_procs_ok L s ts"
    and pos: "\<forall>x\<in>set (due (ticks s) 0 ts). 0 < snd x" and small: "\<forall>x. ticks s x < 2 ^ 32"
  shows "\<exists>s' us. run_timer_list default_sched_class s = Some s' \<and> tlist s' us \<and>
    due (ticks s') 0 us = filter (\<lambda>x. snd x \<noteq> 0) (map (\<lambda>x. (fst x, snd x - 1)) (due (ticks s) 0 ts)) \<and>
    (\<forall>t p. (t, 1) \<in> set (due (ticks s) 0 ts) \<longrightarrow> tproc (timers s t) = Some p \<longrightarrow>
       state (procs s' p) = PROC_RUNNABLE) \<and>
    sched_inv rr_ready rr_detached L s'"
proof (cases ts)
  case Nil
  obtain s' where "run_timer_list default_sched_class s = Some s'" "tlist s' []" "sched_inv rr_ready rr_detached L s'"
    using run_timer_list_idle [OF inv tl[unfolded Nil]] by blast
  then show ?thesis using Nil by (intro exI [of _ s'] exI [of _ "[]"]) simp
next
  case (Cons t vs)
  have tp: "ticks s t \<noteq> 0" using pos Cons by auto
  have d: "distinct (t # vs)" using tlist_distinct [OF tl] Cons by simp
  have nx: "list_next (timer_links s) (Head ()) = Elem t"
    using ring_next_head [of "timer_links s" "Head ()" "map Elem ts"] tl Cons by (simp add: tlist_def list_next_def)
  define s1 where "s1 = set_timer t (\<lambda>x. x\<lparr>expires := expires x - 1\<rparr>) s"
  have e1: "ticks s1 = (ticks s)(t := ticks s t - 1)" by (auto simp: s1_def fun_eq_iff)
  have D: "due (ticks s1) 0 ts = map (\<lambda>x. (fst x, snd x - 1)) (due (ticks s) 0 ts)"
    unfolding e1 Cons by (rule due_decrement [OF d]) (use tp in simp)
  have v1: "sched_view s1 = sched_view s" by (simp add: sched_view_def s1_def)
  have inv1: "sched_inv rr_ready rr_detached L s1" using rr.inv_cong [OF v1] inv by (simp add: s1_def)
  have tl1: "tlist s1 (t # vs)" and sm1: "\<And>x. ticks s1 x < 2 ^ 32"
    using tl Cons small by (auto simp: tlist_def s1_def intro: le_less_trans [OF diff_le_self])
  have pc: "tproc (timers s1 x) = tproc (timers s x)" "procs s1 = procs s" for x by (simp_all add: s1_def)
  have ok1: "timer_procs_ok L s1 (t # vs)" using ok Cons by (simp add: timer_procs_ok_def pc)
  from rr.expire_all [OF inv1 tl1 ok1 sm1] obtain s2 ws zs where
    run: "expire_loop default_sched_class t s1 = Some s2" and tz: "t # vs = ws @ zs"
    and inv2: "sched_inv rr_ready rr_detached L s2" and tl2: "tlist s2 zs" and tm2: "timers s2 = timers s1"
    and z: "\<forall>x\<in>set ws. ticks s1 x = 0" "zs \<noteq> [] \<longrightarrow> ticks s1 (hd zs) \<noteq> 0"
    and wk: "woken s1 s2 ws" by blast
  obtain c where c: "current s2 = Some c" using inv2 by (auto simp: sched_inv_def)
  define s3 where "s3 = sched_class_proc_tick default_sched_class c s2"
  note t3 = rr.tick_inv [OF inv2, of c, folded s3_def]
  have "run_timer_list default_sched_class s = Some s3"
    using nx tp run c by (simp add: run_timer_list_def s1_def s3_def)
  moreover have "tlist s3 zs" using tl2 t3(3) by (simp add: tlist_def)
  moreover have "due (ticks s3) 0 zs = filter (\<lambda>x. snd x \<noteq> 0) (due (ticks s1) 0 ts)"
    using due_drop_zero(1) [OF z] Cons tz t3(2) tm2 by simp
  moreover have "state (procs s3 p) = PROC_RUNNABLE"
    if "(x, 1) \<in> set (due (ticks s) 0 ts)" "tproc (timers s x) = Some p" for x p
  proof -
    have "(x, 0) \<in> set (due (ticks s1) 0 ts)" unfolding D using that(1) by force
    then have "(x, 0) \<in> set (filter (\<lambda>x. snd x = 0) (due (ticks s1) 0 (ws @ zs)))" using Cons tz by auto
    then have "x \<in> set ws" unfolding due_drop_zero(2) [OF z] by auto
    then show ?thesis using wk that(2) t3(4) pc by (simp add: woken_def)
  qed
  ultimately show ?thesis using t3(1) D by auto
qed

lemma demo_timers_inv: "sched_inv rr_ready rr_detached {0, 2} demo_timers"
proof -
  have W: "waiting_cpu {0, 2} demo_timers = {}"
    by (auto simp: waiting_cpu_def demo_timers_def blank_proc_def blank_kernel_def)
  have "rr_ready demo_timers {}"
    unfolding rr_ready_def by (intro exI [of _ "[]"]) (simp add: rr_queue_def demo_timers_def blank_kernel_def to_u32_def)
  moreover have "rr_detached demo_timers 0" "rr_detached demo_timers 2"
    by (simp_all add: rr_detached_def demo_timers_def blank_proc_def blank_kernel_def)
  moreover have "current demo_timers = Some 0" "idleproc demo_timers = Some 0"
    by (simp_all add: demo_timers_def blank_kernel_def)
  ultimately show ?thesis unfolding sched_inv_def W by auto
qed

theorem run_timer_list_tick_witness:
  "\<exists>s' us. run_timer_list default_sched_class demo_timers = Some s' \<and> tlist s' us \<and>
    due (ticks s') 0 us = [(7, 2)] \<and> sched_inv rr_ready rr_detached {0, 2} s'"
proof -
  have d: "due (ticks demo_timers) 0 [7] = [(7, 3)]" by (simp add: demo_timers_def)
  have "timer_procs_ok {0, 2} demo_timers [7]"
    by (simp add: timer_procs_ok_def demo_timers_def wt_defs)
  moreover have "\<forall>x. ticks demo_timers x < 2 ^ 32" by (simp add: demo_timers_def blank_kernel_def)
  ultimately show ?thesis
    using run_timer_list_tick [OF demo_timers_inv demo_tlist] d by auto
qed

end
