(* ===== verification/Page_Alloc.thy ===== *)
theory Page_Alloc
  imports List_Heap
begin

text \<open>
  The physical page allocators of \<^verbatim>\<open>kern/mm/default_pmm.c\<close> (first fit, the one
  \<^verbatim>\<open>init_pmm_manager\<close> installs) and \<^verbatim>\<open>kern/mm/best_fit_pmm.c\<close>.

  A \<^verbatim>\<open>struct Page *\<close> is its index in the \<^verbatim>\<open>pages\<close> array, so pointer arithmetic and
  comparison are arithmetic and comparison of naturals. The free list is a ring in the
  link store of \<open>List_Heap\<close>: \<^verbatim>\<open>Free_list\<close> is the head in \<^verbatim>\<open>free_area\<close>, \<open>Page_link p\<close> the
  \<^verbatim>\<open>page_link\<close> field of page \<open>p\<close>. Fields of type \<^verbatim>\<open>unsigned int\<close> (\<^verbatim>\<open>property\<close>, \<^verbatim>\<open>nr_free\<close>) are
  naturals truncated to 32 bits at each assignment that can overflow. The scans of the
  free list follow the pointers and may loop for ever on a damaged list; they are partial
  functions, and for well-formed lists their results are computed by lemmas.
\<close>

section \<open>Pages and the free list\<close>

record page =
  pg_ref :: int
  pg_flags :: u64
  pg_property :: nat

datatype pmm_link = Free_list | Page_link nat

primrec le2page :: "pmm_link \<Rightarrow> nat" where
  "le2page (Page_link p) = p"

record pmm =
  pages :: "nat \<Rightarrow> page"
  plinks :: "pmm_link links"
  nr_free :: nat

definition PG_reserved :: nat where "PG_reserved = 0"
definition PG_property :: nat where "PG_property = 1"

definition PageReserved :: "page \<Rightarrow> bool" where
  "PageReserved pg = bit (pg_flags pg) PG_reserved"

definition PageProperty :: "page \<Rightarrow> bool" where
  "PageProperty pg = bit (pg_flags pg) PG_property"

definition SetPageProperty :: "page \<Rightarrow> page" where
  "SetPageProperty pg = pg\<lparr>pg_flags := set_bit PG_property (pg_flags pg)\<rparr>"

definition ClearPageProperty :: "page \<Rightarrow> page" where
  "ClearPageProperty pg = pg\<lparr>pg_flags := unset_bit PG_property (pg_flags pg)\<rparr>"

lemma page_flag_simps [simp]:
  "PageProperty (SetPageProperty pg)" "\<not> PageProperty (ClearPageProperty pg)"
  "PageReserved (SetPageProperty pg) = PageReserved pg"
  "PageReserved (ClearPageProperty pg) = PageReserved pg"
  "pg_property (SetPageProperty pg) = pg_property pg"
  "pg_property (ClearPageProperty pg) = pg_property pg"
  "PageProperty (pg\<lparr>pg_property := k\<rparr>) = PageProperty pg"
  "PageReserved (pg\<lparr>pg_property := k\<rparr>) = PageReserved pg"
  "PageProperty (pg\<lparr>pg_ref := r\<rparr>) = PageProperty pg"
  "PageReserved (pg\<lparr>pg_ref := r\<rparr>) = PageReserved pg"
  "\<not> PageProperty (pg\<lparr>pg_flags := 0\<rparr>)" "\<not> PageReserved (pg\<lparr>pg_flags := 0\<rparr>)"
  by (simp_all add: PageProperty_def PageReserved_def SetPageProperty_def ClearPageProperty_def
      PG_reserved_def PG_property_def bit_simps)

definition upd_page :: "nat \<Rightarrow> (page \<Rightarrow> page) \<Rightarrow> pmm \<Rightarrow> pmm" where
  "upd_page p f s = s\<lparr>pages := (pages s)(p := f (pages s p))\<rparr>"

lemma upd_page_simps [simp]:
  "pages (upd_page p f s) = (pages s)(p := f (pages s p))"
  "plinks (upd_page p f s) = plinks s" "nr_free (upd_page p f s) = nr_free s"
  by (simp_all add: upd_page_def)

section \<open>First fit\<close>

definition default_init :: "pmm \<Rightarrow> pmm" where
  "default_init s = s\<lparr>plinks := list_init (plinks s) Free_list, nr_free := 0\<rparr>"

fun init_memmap_pages :: "nat \<Rightarrow> nat \<Rightarrow> pmm \<Rightarrow> pmm option" where
  "init_memmap_pages p 0 s = Some s"
| "init_memmap_pages p (Suc k) s =
     do {
       kassert (PageReserved (pages s p));
       init_memmap_pages (Suc p) k
         (upd_page p (\<lambda>pg. pg\<lparr>pg_property := 0, pg_flags := 0, pg_ref := 0\<rparr>) s)
     }"

partial_function (option) insert_scan ::
  "nat \<Rightarrow> pmm_link \<Rightarrow> pmm_link links \<Rightarrow> pmm_link links option" where
  "insert_scan base le h =
     (let le = list_next h le in
      if le = Free_list then Some h
      else if base < le2page le then Some (list_add_before h le (Page_link base))
      else if list_next h le = Free_list
        then insert_scan base le (list_add h le (Page_link base))
      else insert_scan base le h)"

definition insert_block :: "nat \<Rightarrow> pmm \<Rightarrow> pmm option" where
  "insert_block base s =
     (if list_empty (plinks s) Free_list
      then Some (s\<lparr>plinks := list_add (plinks s) Free_list (Page_link base)\<rparr>)
      else do {
        h \<leftarrow> insert_scan base Free_list (plinks s);
        Some (s\<lparr>plinks := h\<rparr>)
      })"

definition default_init_memmap :: "nat \<Rightarrow> nat \<Rightarrow> pmm \<Rightarrow> pmm option" where
  "default_init_memmap base n s =
     do {
       kassert (n > 0);
       s \<leftarrow> init_memmap_pages base n s;
       let s = upd_page base (\<lambda>pg. SetPageProperty (pg\<lparr>pg_property := to_u32 n\<rparr>)) s;
       let s = s\<lparr>nr_free := to_u32 (nr_free s + n)\<rparr>;
       insert_block base s
     }"

partial_function (option) first_fit_scan ::
  "pmm \<Rightarrow> nat \<Rightarrow> pmm_link \<Rightarrow> nat option option" where
  "first_fit_scan s n le =
     (let le = list_next (plinks s) le in
      if le = Free_list then Some None
      else if pg_property (pages s (le2page le)) \<ge> n then Some (Some (le2page le))
      else first_fit_scan s n le)"

definition take_block :: "nat \<Rightarrow> nat \<Rightarrow> pmm \<Rightarrow> pmm" where
  "take_block page n s =
     (let prev = list_prev (plinks s) (Page_link page);
          s = s\<lparr>plinks := list_del (plinks s) (Page_link page)\<rparr>;
          s = (if pg_property (pages s page) > n
               then let p = page + n;
                        k = pg_property (pages s page) - n;
                        s = upd_page p (\<lambda>pg. SetPageProperty (pg\<lparr>pg_property := k\<rparr>)) s
                    in s\<lparr>plinks := list_add (plinks s) prev (Page_link p)\<rparr>
               else s);
          s = s\<lparr>nr_free := nr_free s - n\<rparr>
      in upd_page page ClearPageProperty s)"

definition default_alloc_pages :: "nat \<Rightarrow> pmm \<Rightarrow> (nat option \<times> pmm) option" where
  "default_alloc_pages n s =
     do {
       kassert (n > 0);
       if n > nr_free s then Some (None, s)
       else do {
         r \<leftarrow> first_fit_scan s n Free_list;
         (case r of
            None \<Rightarrow> Some (None, s)
          | Some page \<Rightarrow> Some (Some page, take_block page n s))
       }
     }"

fun free_pages_reset :: "nat \<Rightarrow> nat \<Rightarrow> pmm \<Rightarrow> pmm option" where
  "free_pages_reset p 0 s = Some s"
| "free_pages_reset p (Suc k) s =
     do {
       kassert (\<not> PageReserved (pages s p) \<and> \<not> PageProperty (pages s p));
       free_pages_reset (Suc p) k (upd_page p (\<lambda>pg. pg\<lparr>pg_flags := 0, pg_ref := 0\<rparr>) s)
     }"

definition merge_prev :: "nat \<Rightarrow> pmm \<Rightarrow> nat \<times> pmm" where
  "merge_prev base s =
     (let le = list_prev (plinks s) (Page_link base) in
      if le \<noteq> Free_list then
        let p = le2page le in
        if p + pg_property (pages s p) = base then
          let k = to_u32 (pg_property (pages s p) + pg_property (pages s base));
              s = upd_page p (\<lambda>pg. pg\<lparr>pg_property := k\<rparr>) s;
              s = upd_page base ClearPageProperty s
          in (p, s\<lparr>plinks := list_del (plinks s) (Page_link base)\<rparr>)
        else (base, s)
      else (base, s))"

definition merge_next :: "nat \<Rightarrow> pmm \<Rightarrow> pmm" where
  "merge_next base s =
     (let le = list_next (plinks s) (Page_link base) in
      if le \<noteq> Free_list then
        let p = le2page le in
        if base + pg_property (pages s base) = p then
          let k = to_u32 (pg_property (pages s base) + pg_property (pages s p));
              s = upd_page base (\<lambda>pg. pg\<lparr>pg_property := k\<rparr>) s;
              s = upd_page p ClearPageProperty s
          in s\<lparr>plinks := list_del (plinks s) (Page_link p)\<rparr>
        else s
      else s)"

definition default_free_pages :: "nat \<Rightarrow> nat \<Rightarrow> pmm \<Rightarrow> pmm option" where
  "default_free_pages base n s =
     do {
       kassert (n > 0);
       s \<leftarrow> free_pages_reset base n s;
       let s = upd_page base (\<lambda>pg. SetPageProperty (pg\<lparr>pg_property := to_u32 n\<rparr>)) s;
       let s = s\<lparr>nr_free := to_u32 (nr_free s + n)\<rparr>;
       s \<leftarrow> insert_block base s;
       let (base, s) = merge_prev base s;
       Some (merge_next base s)
     }"

definition default_nr_free_pages :: "pmm \<Rightarrow> nat" where
  "default_nr_free_pages s = nr_free s"

section \<open>Best fit\<close>

definition best_fit_init :: "pmm \<Rightarrow> pmm" where
  "best_fit_init s = s\<lparr>plinks := list_init (plinks s) Free_list, nr_free := 0\<rparr>"

definition best_fit_init_memmap :: "nat \<Rightarrow> nat \<Rightarrow> pmm \<Rightarrow> pmm option" where
  "best_fit_init_memmap base n s =
     do {
       kassert (n > 0);
       s \<leftarrow> init_memmap_pages base n s;
       let s = upd_page base (\<lambda>pg. SetPageProperty (pg\<lparr>pg_property := to_u32 n\<rparr>)) s;
       let s = s\<lparr>nr_free := to_u32 (nr_free s + n)\<rparr>;
       insert_block base s
     }"

partial_function (option) best_fit_scan ::
  "pmm \<Rightarrow> nat \<Rightarrow> pmm_link \<Rightarrow> nat option \<Rightarrow> nat \<Rightarrow> nat option option" where
  "best_fit_scan s n le page min_size =
     (let le = list_next (plinks s) le in
      if le = Free_list then Some page
      else let p = le2page le; k = pg_property (pages s p) in
        if k \<ge> n \<and> k < min_size then best_fit_scan s n le (Some p) k
        else best_fit_scan s n le page min_size)"

definition best_fit_alloc_pages :: "nat \<Rightarrow> pmm \<Rightarrow> (nat option \<times> pmm) option" where
  "best_fit_alloc_pages n s =
     do {
       kassert (n > 0);
       if n > nr_free s then Some (None, s)
       else do {
         r \<leftarrow> best_fit_scan s n Free_list None (to_u32 (nr_free s + 1));
         (case r of
            None \<Rightarrow> Some (None, s)
          | Some page \<Rightarrow> Some (Some page, take_block page n s))
       }
     }"

definition best_fit_free_pages :: "nat \<Rightarrow> nat \<Rightarrow> pmm \<Rightarrow> pmm option" where
  "best_fit_free_pages base n s =
     do {
       kassert (n > 0);
       s \<leftarrow> free_pages_reset base n s;
       let s = upd_page base (\<lambda>pg. SetPageProperty (pg\<lparr>pg_property := to_u32 n\<rparr>)) s;
       let s = s\<lparr>nr_free := to_u32 (nr_free s + n)\<rparr>;
       s \<leftarrow> insert_block base s;
       let (base, s) = merge_prev base s;
       Some (merge_next base s)
     }"

definition best_fit_nr_free_pages :: "pmm \<Rightarrow> nat" where
  "best_fit_nr_free_pages s = nr_free s"

text \<open>Sequences of allocator calls, for the statements below.\<close>

fun alloc_seq :: "(nat \<Rightarrow> 's \<Rightarrow> (nat option \<times> 's) option) \<Rightarrow> nat list \<Rightarrow> 's \<Rightarrow> (nat option list \<times> 's) option" where
  "alloc_seq alloc [] s = Some ([], s)"
| "alloc_seq alloc (n # ns) s =
     do {
       (r, s) \<leftarrow> alloc n s;
       (rs, s) \<leftarrow> alloc_seq alloc ns s;
       Some (r # rs, s)
     }"

section \<open>Well-formed free lists\<close>

abbreviation psize :: "pmm \<Rightarrow> nat \<Rightarrow> nat" where
  "psize s p \<equiv> pg_property (pages s p)"

text \<open>
  \<open>layout sz ps\<close>: the blocks of \<open>sz p\<close> pages headed by \<open>p\<close>, for \<open>p\<close> in \<open>ps\<close>, are in address
  order, non-empty, disjoint and never adjacent. \<open>covered\<close> are their pages.
\<close>

definition layout :: "(nat \<Rightarrow> nat) \<Rightarrow> nat list \<Rightarrow> bool" where
  "layout sz ps \<longleftrightarrow> sorted_wrt (\<lambda>p q. p + sz p < q) ps \<and> (\<forall>p \<in> set ps. 0 < sz p)"

definition covered :: "(nat \<Rightarrow> nat) \<Rightarrow> nat list \<Rightarrow> nat set" where
  "covered sz ps = (\<Union>p \<in> set ps. {p..<p + sz p})"

lemma layout_cong: "(\<And>p. p \<in> set ps \<Longrightarrow> sz p = sz' p) \<Longrightarrow> layout sz ps \<longleftrightarrow> layout sz' ps"
  by (induction ps) (auto simp: layout_def)

lemma covered_cong: "(\<And>p. p \<in> set ps \<Longrightarrow> sz p = sz' p) \<Longrightarrow> covered sz ps = covered sz' ps"
  by (simp add: covered_def)

lemma total_cong: "(\<And>p. p \<in> set ps \<Longrightarrow> sz p = sz' p) \<Longrightarrow> (\<Sum>p\<leftarrow>ps. sz p) = (\<Sum>p\<leftarrow>ps. sz' p)"
  by (induction ps) auto

lemma layout_Nil [simp]: "layout sz []"
  by (simp add: layout_def)

lemma layout_Cons [simp]:
  "layout sz (p # ps) \<longleftrightarrow> 0 < sz p \<and> (\<forall>q \<in> set ps. p + sz p < q) \<and> layout sz ps"
  by (auto simp: layout_def)

lemma layout_append [simp]:
  "layout sz (xs @ ys) \<longleftrightarrow> layout sz xs \<and> layout sz ys \<and> (\<forall>x \<in> set xs. \<forall>y \<in> set ys. x + sz x < y)"
  by (auto simp: layout_def sorted_wrt_append)

lemma covered_simps [simp]:
  "covered sz [] = {}" "covered sz (p # ps) = {p..<p + sz p} \<union> covered sz ps"
  "covered sz (xs @ ys) = covered sz xs \<union> covered sz ys"
  by (auto simp: covered_def)

lemma layout_upd_notin [simp]: "a \<notin> set ps \<Longrightarrow> layout (sz(a := k)) ps \<longleftrightarrow> layout sz ps"
  by (rule layout_cong) auto

lemma covered_upd_notin [simp]: "a \<notin> set ps \<Longrightarrow> covered (sz(a := k)) ps = covered sz ps"
  by (rule covered_cong) auto

lemma total_upd_notin [simp]: "a \<notin> set ps \<Longrightarrow> (\<Sum>p\<leftarrow>ps. (sz(a := k)) p) = (\<Sum>p\<leftarrow>ps. sz p)"
  by (rule total_cong) auto

lemma covered_gaps:
  "\<forall>x \<in> set xs. x + sz x < p \<Longrightarrow> q \<in> covered sz xs \<Longrightarrow> q < p"
  "\<forall>y \<in> set ys. p < y \<Longrightarrow> q \<in> covered sz ys \<Longrightarrow> p < q"
  by (auto simp: covered_def)

lemma card_covered: "layout sz ps \<Longrightarrow> card (covered sz ps) = (\<Sum>p\<leftarrow>ps. sz p)"
proof (induction ps)
  case Nil
  then show ?case by simp
next
  case (Cons p ps)
  then have "{p..<p + sz p} \<inter> covered sz ps = {}"
    by (fastforce simp: covered_def)
  moreover have "finite (covered sz ps)" by (simp add: covered_def)
  ultimately show ?case using Cons by (simp add: card_Un_disjoint)
qed

text \<open>
  \<open>free_blocks s ps\<close>: the free list is the ring of the blocks headed by \<open>ps\<close>, laid out as
  above (so every possible merge has been done); exactly the heads carry the property flag,
  no free page is reserved, and \<open>nr_free\<close> counts the free pages.
\<close>

definition free_blocks :: "pmm \<Rightarrow> nat list \<Rightarrow> bool" where
  "free_blocks s ps \<longleftrightarrow>
     ring (plinks s) Free_list (map Page_link ps)
     \<and> layout (psize s) ps
     \<and> (\<forall>p. PageProperty (pages s p) \<longleftrightarrow> p \<in> set ps)
     \<and> (\<forall>q \<in> covered (psize s) ps. \<not> PageReserved (pages s q))
     \<and> nr_free s = (\<Sum>p\<leftarrow>ps. psize s p)
     \<and> nr_free s < 2 ^ 32"

definition free_page_set :: "pmm \<Rightarrow> nat set" where
  "free_page_set s = (\<Union>p \<in> {p. PageProperty (pages s p)}. {p..<p + psize s p})"

lemma free_page_set_blocks: "free_blocks s ps \<Longrightarrow> free_page_set s = covered (psize s) ps"
  by (simp add: free_page_set_def free_blocks_def covered_def)

lemma nr_free_card: "free_blocks s ps \<Longrightarrow> nr_free s = card (free_page_set s)"
  by (metis card_covered free_blocks_def free_page_set_blocks)

lemma Page_link_image [simp]: "Page_link p \<in> Page_link ` A \<longleftrightarrow> p \<in> A"
  by auto

lemma find_is_None_small: "nr_free s < n \<Longrightarrow> free_blocks s ps \<Longrightarrow> find (\<lambda>p. n \<le> psize s p) ps = None"
proof -
  assume n: "nr_free s < n" and fb: "free_blocks s ps"
  have "psize s p \<le> (\<Sum>p\<leftarrow>ps. psize s p)" if "p \<in> set ps" for p
    using that by (auto intro: member_le_sum_list)
  with n fb show ?thesis by (fastforce simp: find_None_iff free_blocks_def)
qed

section \<open>Allocation\<close>

lemma first_fit_scan_ring:
  "ring (plinks s) Free_list (map Page_link (xs @ ys)) \<Longrightarrow>
     first_fit_scan s n (last (Free_list # map Page_link xs)) = Some (find (\<lambda>p. n \<le> psize s p) ys)"
proof (induction ys arbitrary: xs)
  case Nil
  then have "lnext (plinks s) (last (Free_list # map Page_link xs)) = Free_list"
    using ring_succ [of "plinks s" Free_list "map Page_link xs" "[]"] by simp
  then show ?case by (subst first_fit_scan.simps) (simp add: list_next_def)
next
  case (Cons y ys)
  have nx: "lnext (plinks s) (last (Free_list # map Page_link xs)) = Page_link y"
    using ring_succ [of "plinks s" Free_list "map Page_link xs" "map Page_link (y # ys)"] Cons.prems
    by simp
  have "first_fit_scan s n (Page_link y) = Some (find (\<lambda>p. n \<le> psize s p) ys)"
    using Cons.IH [of "xs @ [y]"] Cons.prems by simp
  with nx show ?case by (subst first_fit_scan.simps) (simp add: list_next_def)
qed

lemma take_block_whole:
  assumes fb: "free_blocks s (xs @ p # ys)" and eq: "psize s p = n"
  shows "free_blocks (take_block p n s) (xs @ ys)"
    and "free_page_set (take_block p n s) = free_page_set s - {p..<p + n}"
proof -
  let ?s = "take_block p n s"
  have sz: "psize ?s = psize s" and ps: "pages ?s = (pages s)(p := ClearPageProperty (pages s p))"
    and nr: "nr_free ?s = nr_free s - n" and ln: "plinks ?s = list_del (plinks s) (Page_link p)"
    using eq by (auto simp: take_block_def Let_def)
  have new: "p \<notin> set (xs @ ys)" using fb by (auto simp: free_blocks_def)
  show fb': "free_blocks ?s (xs @ ys)"
    using fb eq new unfolding free_blocks_def sz nr ln by (auto simp: ps intro: ring_list_del)
  have "covered (psize s) (xs @ ys) = covered (psize s) (xs @ p # ys) - {p..<p + n}"
    using fb eq covered_gaps(1) [of xs "psize s" p] covered_gaps(2) [of ys "p + n"]
    by (fastforce simp: free_blocks_def)
  then show "free_page_set ?s = free_page_set s - {p..<p + n}"
    by (simp add: free_page_set_blocks [OF fb] free_page_set_blocks [OF fb'] sz)
qed

lemma take_block_split:
  assumes fb: "free_blocks s (xs @ p # ys)" and lt: "n < psize s p" and n: "0 < n"
  shows "free_blocks (take_block p n s) (xs @ (p + n) # ys)"
    and "free_page_set (take_block p n s) = free_page_set s - {p..<p + n}"
proof -
  let ?s = "take_block p n s"
  let ?h = "list_del (plinks s) (Page_link p)"
  let ?pv = "last (Free_list # map Page_link xs)"
  have ring0: "ring (plinks s) Free_list (map Page_link xs @ Page_link p # map Page_link ys)"
    using fb by (simp add: free_blocks_def)
  have pv: "list_prev (plinks s) (Page_link p) = ?pv"
    using ring_prev [OF ring0] by (simp add: list_prev_def)
  have ln: "plinks ?s = list_add_after ?h ?pv (Page_link (p + n))"
    and sz: "psize ?s = (psize s)(p + n := psize s p - n)"
    and ps: "pages ?s = (pages s)(p + n := SetPageProperty ((pages s (p + n))\<lparr>pg_property := psize s p - n\<rparr>),
               p := ClearPageProperty (pages s p))"
    and nr: "nr_free ?s = nr_free s - n"
    using lt n pv by (auto simp: take_block_def Let_def list_add_def)
  have new: "p + n \<notin> set (xs @ ys)" "p \<notin> set (xs @ ys)" using fb lt by (fastforce simp: free_blocks_def)+
  have "ring ?h Free_list (map Page_link xs @ map Page_link ys)"
    using ring0 by (rule ring_list_del)
  then have ring: "ring (plinks ?s) Free_list (map Page_link (xs @ (p + n) # ys))"
    unfolding ln using ring_add_at [of ?h Free_list "map Page_link xs" "map Page_link ys" "Page_link (p + n)"] new
    by auto
  have cov: "covered (psize ?s) (xs @ (p + n) # ys) = covered (psize s) (xs @ p # ys) - {p..<p + n}"
    using fb lt new covered_gaps(1) [of xs "psize s" p] covered_gaps(2) [of ys "p + n"]
    unfolding sz by (fastforce simp: free_blocks_def)
  have lay: "layout (psize ?s) (xs @ (p + n) # ys)"
    using fb lt new unfolding sz by (fastforce simp: free_blocks_def)
  have "(\<Sum>q\<leftarrow>xs @ (p + n) # ys. psize ?s q) = nr_free s - n"
    using fb lt new unfolding sz by (simp add: free_blocks_def del: fun_upd_apply) simp
  then show fb': "free_blocks ?s (xs @ (p + n) # ys)"
    using ring lay cov fb n new unfolding free_blocks_def nr by (auto simp: ps)
  show "free_page_set ?s = free_page_set s - {p..<p + n}"
    by (simp only: free_page_set_blocks [OF fb] free_page_set_blocks [OF fb'] cov)
qed

lemma take_block_ok:
  assumes "free_blocks s ps" and "p \<in> set ps" and "n \<le> psize s p" and "0 < n"
  shows "\<exists>ps'. free_blocks (take_block p n s) ps'"
    and "free_page_set (take_block p n s) = free_page_set s - {p..<p + n}"
    and "{p..<p + n} \<subseteq> free_page_set s"
proof -
  obtain xs ys where ps: "ps = xs @ p # ys" using assms(2) by (auto dest: split_list)
  show "\<exists>ps'. free_blocks (take_block p n s) ps'"
    and "free_page_set (take_block p n s) = free_page_set s - {p..<p + n}"
    using take_block_whole [of s xs p ys n] take_block_split [of s xs p ys n] assms ps
    by (cases "psize s p = n"; force)+
  show "{p..<p + n} \<subseteq> free_page_set s"
    using assms free_page_set_blocks [OF assms(1)] by (fastforce simp: covered_def)
qed

lemma default_alloc_pages_eq:
  assumes fb: "free_blocks s ps" and n: "0 < n"
  shows "default_alloc_pages n s =
    (case find (\<lambda>p. n \<le> psize s p) ps of
       None \<Rightarrow> Some (None, s) | Some p \<Rightarrow> Some (Some p, take_block p n s))"
proof -
  have "first_fit_scan s n Free_list = Some (find (\<lambda>p. n \<le> psize s p) ps)"
    using first_fit_scan_ring [of s "[]" ps n] fb by (simp add: free_blocks_def)
  with n find_is_None_small [OF _ fb, of n] show ?thesis
    by (simp add: default_alloc_pages_def split: option.splits)
qed

section \<open>Freeing\<close>

lemma free_pages_reset_ok:
  assumes "\<And>q. base \<le> q \<Longrightarrow> q < base + n \<Longrightarrow> \<not> PageReserved (pages s q) \<and> \<not> PageProperty (pages s q)"
  shows "free_pages_reset base n s =
    Some (s\<lparr>pages := \<lambda>q. if base \<le> q \<and> q < base + n
       then (pages s q)\<lparr>pg_flags := 0, pg_ref := 0\<rparr> else pages s q\<rparr>)"
  using assms
proof (induction n arbitrary: base s)
  case 0
  have "(\<lambda>q. if base \<le> q \<and> q < base + 0 then (pages s q)\<lparr>pg_flags := 0, pg_ref := 0\<rparr> else pages s q)
      = pages s" by (rule ext) auto
  then show ?case by simp
next
  case (Suc n)
  let ?s = "upd_page base (\<lambda>pg. pg\<lparr>pg_flags := 0, pg_ref := 0\<rparr>) s"
  have "free_pages_reset (Suc base) n ?s =
    Some (?s\<lparr>pages := \<lambda>q. if Suc base \<le> q \<and> q < Suc base + n
       then (pages ?s q)\<lparr>pg_flags := 0, pg_ref := 0\<rparr> else pages ?s q\<rparr>)"
    by (rule Suc.IH) (use Suc.prems in auto)
  moreover have "\<not> PageReserved (pages s base) \<and> \<not> PageProperty (pages s base)"
    using Suc.prems by simp
  moreover have "(\<lambda>q. if Suc base \<le> q \<and> q < Suc base + n
       then (pages ?s q)\<lparr>pg_flags := 0, pg_ref := 0\<rparr> else pages ?s q) =
     (\<lambda>q. if base \<le> q \<and> q < base + Suc n
       then (pages s q)\<lparr>pg_flags := 0, pg_ref := 0\<rparr> else pages s q)"
    by (rule ext) auto
  ultimately show ?case by (simp add: upd_page_def)
qed

lemma free_pages_reset_bad:
  assumes "base \<le> q" "q < base + n" "PageReserved (pages s q) \<or> PageProperty (pages s q)"
  shows "free_pages_reset base n s = None"
  using assms
proof (induction n arbitrary: base s)
  case 0
  then show ?case by simp
next
  case (Suc n)
  then show ?case by (cases "q = base") auto
qed

lemma insert_scan_before:
  "ring h Free_list (map Page_link (xs @ zs @ q # ys)) \<Longrightarrow> \<forall>z \<in> set zs. z \<le> base \<Longrightarrow> base < q \<Longrightarrow>
     insert_scan base (last (Free_list # map Page_link xs)) h =
       Some (list_add_before h (Page_link q) (Page_link base))"
proof (induction zs arbitrary: xs)
  case Nil
  then have "lnext h (last (Free_list # map Page_link xs)) = Page_link q"
    using ring_succ [of h Free_list "map Page_link xs" "map Page_link (q # ys)"] by simp
  with Nil show ?case by (subst insert_scan.simps) (simp add: list_next_def)
next
  case (Cons z zs)
  have "lnext h (last (Free_list # map Page_link xs)) = Page_link z"
    using ring_succ [of h Free_list "map Page_link xs" "map Page_link (z # zs @ q # ys)"] Cons.prems by simp
  moreover have "lnext h (Page_link z) \<noteq> Free_list"
    using ring_next [of h Free_list "map Page_link xs" "Page_link z" "map Page_link (zs @ q # ys)"] Cons.prems
    by (cases zs) auto
  moreover have "insert_scan base (Page_link z) h = Some (list_add_before h (Page_link q) (Page_link base))"
    using Cons.IH [of "xs @ [z]"] Cons.prems by simp
  ultimately show ?case
    using Cons.prems by (subst insert_scan.simps) (simp add: list_next_def Let_def)
qed

text \<open>
  \<open>near_blocks s xs b ys\<close>: as \<open>free_blocks s (xs @ b # ys)\<close>, except that the block \<open>b\<close>, just
  linked in, may touch its neighbours.
\<close>

definition near_blocks :: "pmm \<Rightarrow> nat list \<Rightarrow> nat \<Rightarrow> nat list \<Rightarrow> bool" where
  "near_blocks s xs b ys \<longleftrightarrow>
     ring (plinks s) Free_list (map Page_link (xs @ b # ys))
     \<and> layout (psize s) (xs @ ys) \<and> 0 < psize s b
     \<and> (\<forall>x \<in> set xs. x + psize s x \<le> b) \<and> (\<forall>y \<in> set ys. b + psize s b \<le> y)
     \<and> (\<forall>p. PageProperty (pages s p) \<longleftrightarrow> p \<in> set (xs @ b # ys))
     \<and> (\<forall>q \<in> covered (psize s) (xs @ b # ys). \<not> PageReserved (pages s q))
     \<and> nr_free s = (\<Sum>p\<leftarrow>xs @ b # ys. psize s p)
     \<and> nr_free s < 2 ^ 32"

lemma near_page_set: "near_blocks s xs b ys \<Longrightarrow> free_page_set s = covered (psize s) (xs @ b # ys)"
  by (auto simp: free_page_set_def near_blocks_def covered_def)

lemma near_blocksI:
  assumes "free_blocks s (xs @ ys)" and "\<forall>x \<in> set xs. x < b" and "\<forall>y \<in> set ys. b < y"
    and "{b..<b + n} \<inter> free_page_set s = {}" and "0 < n" and "nr_free s + n < 2 ^ 32"
    and "\<And>q. b \<le> q \<Longrightarrow> q < b + n \<Longrightarrow> \<not> PageReserved (pages s' q)"
    and "\<And>q. q \<notin> {b..<b + n} \<Longrightarrow> pages s' q = pages s q"
    and "\<And>q. b \<le> q \<Longrightarrow> q < b + n \<Longrightarrow> PageProperty (pages s' q) \<longleftrightarrow> q = b"
    and "psize s' b = n" and "nr_free s' = nr_free s + n"
    and "ring (plinks s') Free_list (map Page_link (xs @ b # ys))"
  shows "near_blocks s' xs b ys" and "free_page_set s' = free_page_set s \<union> {b..<b + n}"
proof -
  note fb = assms(1)
  have cov: "free_page_set s = covered (psize s) (xs @ ys)" using fb by (rule free_page_set_blocks)
  have pos: "0 < psize s p" if "p \<in> set (xs @ ys)" for p
    using that fb by (auto simp: free_blocks_def layout_def)
  have inc: "p \<in> free_page_set s" if "p \<in> set (xs @ ys)" for p
    using that pos [OF that] unfolding cov covered_def by force
  have out: "p \<notin> {b..<b + n}" if "p \<in> set (xs @ ys)" for p
    using inc [OF that] assms(4) by blast
  have szq: "psize s' p = psize s p" if "p \<in> set (xs @ ys)" for p
    using assms(8) [OF out [OF that]] by simp
  have left: "x + psize s x \<le> b" if "x \<in> set xs" for x
  proof (rule ccontr)
    assume "\<not> ?thesis"
    then have "b \<in> free_page_set s" using that assms(2) unfolding cov by (fastforce simp: covered_def)
    with assms(5) have "b \<in> {b..<b + n} \<inter> free_page_set s" by simp
    with assms(4) show False by blast
  qed
  have right: "b + n \<le> y" if "y \<in> set ys" for y
    using out [of y] assms(3) that by auto
  have lay: "layout (psize s') (xs @ ys)"
    using fb layout_cong [of "xs @ ys" "psize s'" "psize s"] szq by (auto simp: free_blocks_def)
  have cv: "covered (psize s') (xs @ b # ys) = covered (psize s) (xs @ ys) \<union> {b..<b + n}"
    using covered_cong [of "xs @ ys" "psize s'" "psize s"] szq assms(10) by auto
  have flg: "PageProperty (pages s' p) \<longleftrightarrow> p \<in> set (xs @ b # ys)" for p
    using assms(8,9) [of p] out [of p] fb assms(5) by (cases "p \<in> {b..<b + n}") (auto simp: free_blocks_def)
  have res: "\<not> PageReserved (pages s' q)" if "q \<in> covered (psize s') (xs @ b # ys)" for q
    using that fb assms(7) [of q] assms(8) [of q] unfolding cv
    by (cases "q \<in> {b..<b + n}") (auto simp: free_blocks_def)
  have tot: "(\<Sum>p\<leftarrow>xs @ b # ys. psize s' p) = nr_free s + n"
    using total_cong [of "xs @ ys" "psize s'" "psize s"] szq fb assms(10) by (auto simp: free_blocks_def)
  show nb: "near_blocks s' xs b ys"
    unfolding near_blocks_def using lay left right szq flg res tot assms by auto
  show "free_page_set s' = free_page_set s \<union> {b..<b + n}"
    unfolding near_page_set [OF nb] cv cov ..
qed

lemma merge_prev_near:
  assumes nb: "near_blocks s xs b ys"
  shows "\<exists>b' s' xs'. merge_prev b s = (b', s') \<and> near_blocks s' xs' b' ys
    \<and> (\<forall>x \<in> set xs'. x + psize s' x < b') \<and> free_page_set s' = free_page_set s"
proof (cases "xs \<noteq> [] \<and> last xs + psize s (last xs) = b")
  case False
  have "list_prev (plinks s) (Page_link b) = last (Free_list # map Page_link xs)"
    using ring_prev [of "plinks s" Free_list "map Page_link xs" "Page_link b" "map Page_link ys"] nb
    by (simp add: list_prev_def near_blocks_def)
  with False have "merge_prev b s = (b, s)"
    by (cases xs rule: rev_cases) (auto simp: merge_prev_def Let_def)
  moreover have "\<forall>x \<in> set xs. x + psize s x < b"
  proof (cases xs rule: rev_cases)
    case (snoc zs z)
    with nb False have "z + psize s z < b" by (fastforce simp: near_blocks_def)
    with nb snoc show ?thesis by (fastforce simp: near_blocks_def)
  qed simp
  ultimately show ?thesis using nb by blast
next
  case True
  then obtain zs p where xs: "xs = zs @ [p]" and adj: "p + psize s p = b"
    by (cases xs rule: rev_cases) auto
  let ?k = "psize s p + psize s b"
  let ?s = "snd (merge_prev b s)"
  have ring0: "ring (plinks s) Free_list (map Page_link (zs @ [p]) @ Page_link b # map Page_link ys)"
    using nb xs by (simp add: near_blocks_def)
  have pv: "list_prev (plinks s) (Page_link b) = Page_link p"
    using ring_prev [OF ring0] by (simp add: list_prev_def)
  have k: "to_u32 ?k = ?k" using nb xs by (auto simp: near_blocks_def)
  have ne: "p \<noteq> b" using adj nb xs by (auto simp: near_blocks_def)
  have mp: "merge_prev b s = (p, ?s)" and ln: "plinks ?s = list_del (plinks s) (Page_link b)"
    and sz: "psize ?s = (psize s)(p := ?k)" and nr: "nr_free ?s = nr_free s"
    and ps: "pages ?s = (pages s)(p := (pages s p)\<lparr>pg_property := ?k\<rparr>, b := ClearPageProperty (pages s b))"
    using pv adj k ne by (auto simp: merge_prev_def Let_def intro!: ext)
  have new: "p \<notin> set (zs @ ys)" "b \<notin> set (zs @ p # ys)"
    using nb xs adj by (fastforce simp: near_blocks_def)+
  have cov: "covered (psize ?s) (zs @ p # ys) = covered (psize s) (xs @ b # ys)"
    unfolding sz using new adj by (auto simp: xs)
  have "ring (plinks ?s) Free_list (map Page_link (zs @ p # ys))"
    unfolding ln using ring_list_del [OF ring0] by simp
  moreover have "(\<Sum>q\<leftarrow>zs @ p # ys. psize ?s q) = nr_free s"
    using nb new unfolding sz by (simp add: xs near_blocks_def del: fun_upd_apply) simp
  moreover have "layout (psize ?s) (zs @ ys)"
    using nb new unfolding sz by (auto simp: xs near_blocks_def)
  moreover have "\<forall>x \<in> set zs. x + psize ?s x < p" "\<forall>y \<in> set ys. p + psize ?s p \<le> y"
    using nb new adj fun_cong [OF sz] by (auto simp: xs near_blocks_def)
  moreover have "\<forall>q. PageProperty (pages ?s q) \<longleftrightarrow> q \<in> set (zs @ p # ys)"
    using nb new unfolding ps by (auto simp: xs near_blocks_def)
  moreover have "\<forall>q \<in> covered (psize ?s) (zs @ p # ys). \<not> PageReserved (pages ?s q)"
    unfolding cov using nb by (auto simp: near_blocks_def ps)
  moreover have "0 < psize ?s p" "nr_free ?s < 2 ^ 32"
    using nb nr fun_cong [OF sz, of p] by (auto simp: near_blocks_def)
  ultimately have nb': "near_blocks ?s zs p ys" and lt: "\<forall>x \<in> set zs. x + psize ?s x < p"
    unfolding near_blocks_def nr by (simp_all add: less_imp_le)
  moreover have "free_page_set ?s = free_page_set s"
    unfolding near_page_set [OF nb'] near_page_set [OF nb] cov ..
  ultimately show ?thesis using mp by blast
qed

lemma merge_next_near:
  assumes nb: "near_blocks s xs b ys" and lt: "\<forall>x \<in> set xs. x + psize s x < b"
  shows "\<exists>ps. free_blocks (merge_next b s) ps" and "free_page_set (merge_next b s) = free_page_set s"
proof -
  have "(\<exists>ps. free_blocks (merge_next b s) ps) \<and> free_page_set (merge_next b s) = free_page_set s"
  proof (cases "ys \<noteq> [] \<and> b + psize s b = hd ys")
    case False
    have "list_next (plinks s) (Page_link b) = hd (map Page_link ys @ [Free_list])"
      using ring_next [of "plinks s" Free_list "map Page_link xs" "Page_link b" "map Page_link ys"] nb
      by (simp add: list_next_def near_blocks_def)
    with False have "merge_next b s = s"
      by (cases ys) (auto simp: merge_next_def Let_def)
    moreover have "\<forall>y \<in> set ys. b + psize s b < y"
    proof (cases ys)
      case (Cons z zs)
      with nb False have "b + psize s b < z" by (fastforce simp: near_blocks_def)
      with nb Cons show ?thesis by (fastforce simp: near_blocks_def)
    qed simp
    then have "free_blocks s (xs @ b # ys)"
      using nb lt by (auto simp: near_blocks_def free_blocks_def)
    ultimately show ?thesis by auto
  next
    case True
    then obtain p zs where ys: "ys = p # zs" and adj: "b + psize s b = p" by (cases ys) auto
    let ?k = "psize s b + psize s p"
    let ?s = "merge_next b s"
    have ring0: "ring (plinks s) Free_list (map Page_link (xs @ [b]) @ Page_link p # map Page_link zs)"
      using nb ys by (simp add: near_blocks_def)
    have nx: "list_next (plinks s) (Page_link b) = Page_link p"
      using ring_next [of "plinks s" Free_list "map Page_link xs" "Page_link b" "map Page_link ys"] nb ys
      by (simp add: list_next_def near_blocks_def)
    have k: "to_u32 ?k = ?k" using nb ys by (auto simp: near_blocks_def)
    have ne: "p \<noteq> b" using adj nb by (auto simp: near_blocks_def)
    have ln: "plinks ?s = list_del (plinks s) (Page_link p)"
      and sz: "psize ?s = (psize s)(b := ?k)" and nr: "nr_free ?s = nr_free s"
      and ps: "pages ?s = (pages s)(b := (pages s b)\<lparr>pg_property := ?k\<rparr>, p := ClearPageProperty (pages s p))"
      using nx adj k ne by (auto simp: merge_next_def Let_def intro!: ext)
    have new: "b \<notin> set (xs @ zs)" "p \<notin> set (xs @ b # zs)"
      using nb ys lt adj by (fastforce simp: near_blocks_def)+
    have cov: "covered (psize ?s) (xs @ b # zs) = covered (psize s) (xs @ b # ys)"
      unfolding sz using new adj by (auto simp: ys)
    have "ring (plinks ?s) Free_list (map Page_link (xs @ b # zs))"
      unfolding ln using ring_list_del [OF ring0] by simp
    moreover have "(\<Sum>q\<leftarrow>xs @ b # zs. psize ?s q) = nr_free s"
      using nb new unfolding sz by (simp add: ys near_blocks_def del: fun_upd_apply) simp
    moreover have "layout (psize ?s) (xs @ b # zs)"
      using nb new lt adj unfolding sz by (auto simp: ys near_blocks_def)
    moreover have "\<forall>q. PageProperty (pages ?s q) \<longleftrightarrow> q \<in> set (xs @ b # zs)"
      using nb new unfolding ps by (auto simp: ys near_blocks_def)
    moreover have "\<forall>q \<in> covered (psize ?s) (xs @ b # zs). \<not> PageReserved (pages ?s q)"
      unfolding cov using nb by (auto simp: near_blocks_def ps)
    ultimately have fb: "free_blocks ?s (xs @ b # zs)"
      using nb nr by (auto simp: free_blocks_def near_blocks_def)
    moreover have "free_page_set ?s = free_page_set s"
      unfolding free_page_set_blocks [OF fb] near_page_set [OF nb] cov ..
    ultimately show ?thesis by blast
  qed
  then show "\<exists>ps. free_blocks (merge_next b s) ps" and "free_page_set (merge_next b s) = free_page_set s"
    by auto
qed

text \<open>The state in which \<^verbatim>\<open>default_free_pages\<close> searches for the place of the block.\<close>

definition freed_state :: "nat \<Rightarrow> nat \<Rightarrow> pmm \<Rightarrow> pmm" where
  "freed_state base n s =
     (let s1 = s\<lparr>pages := \<lambda>q. if base \<le> q \<and> q < base + n
                 then (pages s q)\<lparr>pg_flags := 0, pg_ref := 0\<rparr> else pages s q\<rparr>
      in upd_page base (\<lambda>pg. SetPageProperty (pg\<lparr>pg_property := n\<rparr>)) s1
           \<lparr>nr_free := nr_free s + n\<rparr>)"

text \<open>The pages \<open>base..<base+n\<close> can be given back: they are neither reserved nor free, and
  the total stays in range.\<close>

definition can_free :: "nat \<Rightarrow> nat \<Rightarrow> pmm \<Rightarrow> bool" where
  "can_free base n s \<longleftrightarrow> 0 < n \<and> nr_free s + n < 2 ^ 32 \<and> {base..<base + n} \<inter> free_page_set s = {}
     \<and> (\<forall>q. base \<le> q \<and> q < base + n \<longrightarrow> \<not> PageReserved (pages s q))"

lemma can_free_flags:
  assumes "can_free base n s" and "free_blocks s ps" and "base \<le> q" and "q < base + n"
  shows "\<not> PageReserved (pages s q) \<and> \<not> PageProperty (pages s q)"
proof -
  have "q \<in> free_page_set s" if "PageProperty (pages s q)"
    using that assms(2) by (force simp: free_page_set_def free_blocks_def layout_def)
  moreover have "q \<notin> free_page_set s" using assms by (force simp: can_free_def)
  ultimately show ?thesis using assms by (auto simp: can_free_def)
qed

lemma default_free_pages_eq:
  assumes "can_free base n s" and "free_blocks s ps"
  shows "default_free_pages base n s =
    (case insert_block base (freed_state base n s) of None \<Rightarrow> None
       | Some s \<Rightarrow> (case merge_prev base s of (b, s) \<Rightarrow> Some (merge_next b s)))"
proof -
  have n: "0 < n" "to_u32 (nr_free s + n) = nr_free s + n" "to_u32 n = n"
    using assms(1) by (auto simp: can_free_def)
  show ?thesis
    unfolding default_free_pages_def freed_state_def
    using free_pages_reset_ok [OF can_free_flags [OF assms]] n
    by (simp add: upd_page_def Let_def split: option.splits)
qed

lemma insert_block_near:
  assumes cf: "can_free base n s" and fb: "free_blocks s ps"
    and pos: "ps = [] \<or> (\<exists>p \<in> set ps. base < p)"
  shows "\<exists>s' xs ys. insert_block base (freed_state base n s) = Some s' \<and> near_blocks s' xs base ys
           \<and> free_page_set s' = free_page_set s \<union> {base..<base + n}"
proof -
  let ?s = "freed_state base n s"
  have n: "0 < n" "nr_free s + n < 2 ^ 32" "{base..<base + n} \<inter> free_page_set s = {}"
    using cf by (auto simp: can_free_def)
  have out: "base \<notin> set ps"
    using can_free_flags [OF cf fb, of base] n fb by (auto simp: free_blocks_def)
  have sorted: "sorted_wrt (<) ps"
    using fb by (auto simp: free_blocks_def layout_def intro: sorted_wrt_mono_rel [rotated])
  define xs ys where "xs = takeWhile (\<lambda>p. p \<le> base) ps" and "ys = dropWhile (\<lambda>p. p \<le> base) ps"
  have ps: "ps = xs @ ys" by (simp add: xs_def ys_def)
  have xb: "\<forall>x \<in> set xs. x < base"
  proof
    fix x assume "x \<in> set xs"
    then have "x \<in> set ps" "x \<le> base" using set_takeWhileD by (fastforce simp: xs_def)+
    with out show "x < base" by (cases "x = base") auto
  qed
  have yb: "\<forall>y \<in> set ys. base < y"
  proof (cases ys)
    case (Cons y zs)
    then have "base < y" using hd_dropWhile [of "\<lambda>p. p \<le> base" ps] by (simp add: ys_def)
    with Cons sorted ps show ?thesis by (auto simp: sorted_wrt_append)
  qed simp
  have ring0: "ring (plinks s) Free_list (map Page_link xs @ map Page_link ys)"
    using fb ps by (simp add: free_blocks_def)
  have ln: "plinks ?s = plinks s" by (simp add: freed_state_def Let_def)
  obtain h where ib: "insert_block base ?s = Some (?s\<lparr>plinks := h\<rparr>)"
    and ring: "ring h Free_list (map Page_link (xs @ base # ys))"
  proof (cases ys)
    case Nil
    with pos yb xb ps have "ps = []" by fastforce
    with ps Nil ring0 show ?thesis
      by (intro that) (auto simp: insert_block_def ln list_empty_ring list_add_def intro!: ring_add_after_head)
  next
    case (Cons q zs)
    have r: "ring (plinks s) Free_list (map Page_link xs @ Page_link q # map Page_link zs)"
      using ring0 Cons by simp
    have "\<not> list_empty (plinks s) Free_list" using list_empty_ring [OF ring0] Cons by simp
    moreover have "insert_scan base Free_list (plinks s) =
        Some (list_add_before (plinks s) (Page_link q) (Page_link base))"
      using insert_scan_before [of "plinks s" "[]" xs q zs base] r xb yb Cons by (auto simp: less_imp_le)
    ultimately show ?thesis
      using ring_add_before [OF r, of "Page_link base"] xb yb Cons
      by (intro that) (auto simp: insert_block_def ln)
  qed
  let ?s' = "?s\<lparr>plinks := h\<rparr>"
  have "\<And>q. base \<le> q \<Longrightarrow> q < base + n \<Longrightarrow> \<not> PageReserved (pages ?s' q)"
    "\<And>q. q \<notin> {base..<base + n} \<Longrightarrow> pages ?s' q = pages s q"
    "\<And>q. base \<le> q \<Longrightarrow> q < base + n \<Longrightarrow> PageProperty (pages ?s' q) \<longleftrightarrow> q = base"
    "psize ?s' base = n" "nr_free ?s' = nr_free s + n"
    using n by (auto simp: freed_state_def Let_def)
  note facts = fb [unfolded ps] xb yb n(3,1,2) this
  have "near_blocks ?s' xs base ys" "free_page_set ?s' = free_page_set s \<union> {base..<base + n}"
    using near_blocksI [OF facts] ring by simp_all
  with ib show ?thesis by blast
qed

text \<open>C4: first-fit allocation. On a well-formed free list \<^verbatim>\<open>default_alloc_pages\<close> always returns;
  it returns the lowest block that holds \<open>n\<close> pages, or NULL exactly when no block does. On
  success the free list stays well-formed (ordered, disjoint, fully merged, counted), and the
  free pages are the old ones without the \<open>n\<close> pages handed out; on NULL nothing changes.\<close>

theorem default_alloc_first_fit:
  assumes "free_blocks s ps" and "0 < n"
  shows "\<exists>s'. default_alloc_pages n s = Some (find (\<lambda>p. n \<le> psize s p) ps, s')
    \<and> (case find (\<lambda>p. n \<le> psize s p) ps of
         None \<Rightarrow> s' = s
       | Some p \<Rightarrow> (\<exists>ps'. free_blocks s' ps') \<and> {p..<p + n} \<subseteq> free_page_set s
            \<and> free_page_set s' = free_page_set s - {p..<p + n})"
proof (cases "find (\<lambda>p. n \<le> psize s p) ps")
  case None
  then show ?thesis by (simp add: default_alloc_pages_eq [OF assms])
next
  case (Some p)
  then have "p \<in> set ps" "n \<le> psize s p" by (auto simp: find_Some_iff)
  with Some show ?thesis
    using take_block_ok [OF assms(1), of p n] assms(2) by (simp add: default_alloc_pages_eq [OF assms])
qed

lemma default_free_adds:
  assumes "free_blocks s ps" and "can_free base n s" and "ps = [] \<or> (\<exists>p \<in> set ps. base < p)"
  shows "\<exists>s' ps'. default_free_pages base n s = Some s' \<and> free_blocks s' ps'
    \<and> free_page_set s' = free_page_set s \<union> {base..<base + n}"
proof -
  obtain s1 xs ys where 1: "insert_block base (freed_state base n s) = Some s1" "near_blocks s1 xs base ys"
    "free_page_set s1 = free_page_set s \<union> {base..<base + n}"
    using insert_block_near [OF assms(2,1,3)] by blast
  obtain b s2 zs where 2: "merge_prev base s1 = (b, s2)" "near_blocks s2 zs b ys"
    "\<forall>x \<in> set zs. x + psize s2 x < b" "free_page_set s2 = free_page_set s1"
    using merge_prev_near [OF 1(2)] by blast
  then show ?thesis
    using merge_next_near [OF 2(2,3)] 1 by (auto simp: default_free_pages_eq [OF assms(2,1)])
qed

text \<open>C5: freeing. Giving back a range of used pages that lies below some free block, or into
  an empty free list, keeps the free list well-formed: the block is linked at its address,
  merged with whichever neighbours it touches, and the free pages are the old ones plus the
  range.\<close>

theorem default_free_merges:
  assumes "free_blocks s ps" and "can_free base n s" and "ps = [] \<or> (\<exists>p \<in> set ps. base < p)"
  shows "\<exists>s' ps'. default_free_pages base n s = Some s' \<and> free_blocks s' ps'
    \<and> free_page_set s' = free_page_set s \<union> {base..<base + n}"
  by (rule default_free_adds [OF assms])

text \<open>a range that contains the head of a free block, or a reserved page, is refused: the
  assertion of \<^verbatim>\<open>default_free_pages\<close> stops the kernel. In particular a block cannot be freed
  twice in a row.\<close>

theorem default_free_guard:
  assumes "base \<le> q" and "q < base + n" and "PageReserved (pages s q) \<or> PageProperty (pages s q)"
  shows "default_free_pages base n s = None"
  using free_pages_reset_bad [OF assms] by (simp add: default_free_pages_def)

section \<open>Best fit picks a smallest sufficient block\<close>

fun best_of :: "(nat \<Rightarrow> nat) \<Rightarrow> nat \<Rightarrow> nat list \<Rightarrow> nat option \<Rightarrow> nat \<Rightarrow> nat option" where
  "best_of sz n [] page m = page"
| "best_of sz n (p # ps) page m =
     (if sz p \<ge> n \<and> sz p < m then best_of sz n ps (Some p) (sz p) else best_of sz n ps page m)"

lemma best_fit_scan_ring:
  "ring (plinks s) Free_list (map Page_link (xs @ ys)) \<Longrightarrow>
     best_fit_scan s n (last (Free_list # map Page_link xs)) page m = Some (best_of (psize s) n ys page m)"
proof (induction ys arbitrary: xs page m)
  case Nil
  then have "lnext (plinks s) (last (Free_list # map Page_link xs)) = Free_list"
    using ring_succ [of "plinks s" Free_list "map Page_link xs" "[]"] by simp
  then show ?case by (subst best_fit_scan.simps) (simp add: list_next_def)
next
  case (Cons y ys)
  have nx: "lnext (plinks s) (last (Free_list # map Page_link xs)) = Page_link y"
    using ring_succ [of "plinks s" Free_list "map Page_link xs" "map Page_link (y # ys)"] Cons.prems
    by simp
  have "best_fit_scan s n (Page_link y) page m = Some (best_of (psize s) n ys page m)" for page m
    using Cons.IH [of "xs @ [y]"] Cons.prems by simp
  with nx show ?case by (subst best_fit_scan.simps) (simp add: list_next_def Let_def)
qed

lemma best_of_start:
  "best_of sz n ps page m =
     (case best_of sz n ps None m of None \<Rightarrow> page | Some p \<Rightarrow> Some p)"
proof (induction ps arbitrary: page m)
  case Nil
  then show ?case by simp
next
  case (Cons p ps)
  show ?case
    using Cons [of "Some p" "sz p"] Cons [of page m] by (auto split: option.splits)
qed

lemma best_of_Some:
  "best_of sz n ps None m = Some p \<Longrightarrow> p \<in> set ps \<and> n \<le> sz p \<and> sz p < m
     \<and> (\<forall>q \<in> set ps. n \<le> sz q \<longrightarrow> sz p \<le> sz q)"
proof (induction ps arbitrary: m)
  case Nil
  then show ?case by simp
next
  case (Cons r ps)
  show ?case
  proof (cases "n \<le> sz r \<and> sz r < m")
    case True
    with Cons.prems have "(case best_of sz n ps None (sz r) of None \<Rightarrow> Some r | Some q \<Rightarrow> Some q) = Some p"
      by (simp add: best_of_start [of sz n ps "Some r"])
    note p = this
    show ?thesis
    proof (cases "best_of sz n ps None (sz r)")
      case None
      have "\<not> (n \<le> sz q \<and> sz q < sz r)" if "q \<in> set ps" for q
        using None that
      proof (induction ps)
        case (Cons a ps)
        then show ?case by (auto simp: best_of_start [of sz n ps "Some _"] split: if_splits option.splits)
      qed simp
      with True None p show ?thesis by fastforce
    next
      case (Some q)
      with p have "best_of sz n ps None (sz r) = Some p" by simp
      from Cons.IH [OF this] True show ?thesis by auto
    qed
  next
    case False
    with Cons.prems have "best_of sz n ps None m = Some p" by auto
    from Cons.IH [OF this] False show ?thesis by auto
  qed
qed

lemma best_of_None: "best_of sz n ps None m = None \<Longrightarrow> q \<in> set ps \<Longrightarrow> sz q < m \<Longrightarrow> sz q < n"
  by (induction ps) (auto simp: best_of_start [of sz n _ "Some _"] split: if_splits option.splits)

lemma best_fit_alloc_pages_eq:
  assumes fb: "free_blocks s ps" and n: "0 < n" and m: "nr_free s + 1 < 2 ^ 32"
  shows "best_fit_alloc_pages n s =
    (case best_of (psize s) n ps None (nr_free s + 1) of
       None \<Rightarrow> Some (None, s) | Some p \<Rightarrow> Some (Some p, take_block p n s))"
proof -
  have "best_fit_scan s n Free_list None (nr_free s + 1) = Some (best_of (psize s) n ps None (nr_free s + 1))"
    using best_fit_scan_ring [of s "[]" ps n] fb by (simp add: free_blocks_def)
  moreover have "best_of (psize s) n ps None (nr_free s + 1) = None" if "nr_free s < n"
  proof (cases "best_of (psize s) n ps None (nr_free s + 1)")
    case (Some p)
    from best_of_Some [OF Some] that show ?thesis by auto
  qed
  ultimately show ?thesis
    using n m by (auto simp: best_fit_alloc_pages_def split: option.splits)
qed

text \<open>C26: best fit. On a well-formed free list \<^verbatim>\<open>best_fit_alloc_pages\<close> always returns. A block it
  returns holds \<open>n\<close> pages and no sufficient block is smaller; NULL means no block suffices.
  The free list stays well-formed and loses exactly the pages handed out.\<close>

theorem best_fit_alloc_smallest:
  assumes "free_blocks s ps" and "0 < n" and "nr_free s + 1 < 2 ^ 32"
  shows "\<exists>r s'. best_fit_alloc_pages n s = Some (r, s')
    \<and> (case r of
         None \<Rightarrow> s' = s \<and> (\<forall>p \<in> set ps. psize s p < n)
       | Some p \<Rightarrow> p \<in> set ps \<and> n \<le> psize s p \<and> (\<forall>q \<in> set ps. n \<le> psize s q \<longrightarrow> psize s p \<le> psize s q)
            \<and> (\<exists>ps'. free_blocks s' ps') \<and> {p..<p + n} \<subseteq> free_page_set s
            \<and> free_page_set s' = free_page_set s - {p..<p + n})"
proof (cases "best_of (psize s) n ps None (nr_free s + 1)")
  case None
  have "psize s p < nr_free s + 1" if "p \<in> set ps" for p
    using that assms(1) member_le_sum_list [of "psize s p" "map (psize s) ps"]
    by (auto simp: free_blocks_def)
  with best_of_None [OF None] have "\<forall>p \<in> set ps. psize s p < n" by blast
  with None show ?thesis by (simp add: best_fit_alloc_pages_eq [OF assms])
next
  case (Some p)
  with best_of_Some [OF Some] take_block_ok [OF assms(1), of p n] assms(2) show ?thesis
    by (simp add: best_fit_alloc_pages_eq [OF assms])
qed

section \<open>The allocator interface\<close>

text \<open>
  What \<^verbatim>\<open>pmm_manager->alloc_pages\<close> promises its callers: a call returns, a NULL changes nothing,
  and a block comes out of the free pages, which shrink by exactly that block.
\<close>

locale page_allocator =
  fixes alloc :: "nat \<Rightarrow> 's \<Rightarrow> (nat option \<times> 's) option"
    and inv :: "'s \<Rightarrow> bool"
    and avail :: "'s \<Rightarrow> nat set"
  assumes alloc_returns: "inv s \<Longrightarrow> 0 < n \<Longrightarrow> \<exists>r s'. alloc n s = Some (r, s')"
    and alloc_NULL: "inv s \<Longrightarrow> 0 < n \<Longrightarrow> alloc n s = Some (None, s') \<Longrightarrow> s' = s"
    and alloc_block: "inv s \<Longrightarrow> 0 < n \<Longrightarrow> alloc n s = Some (Some p, s') \<Longrightarrow>
          inv s' \<and> {p..<p + n} \<subseteq> avail s \<and> avail s' = avail s - {p..<p + n}"
begin

lemma alloc_seq_ok:
  assumes "inv s" and "\<forall>n \<in> set ns. 0 < n"
  shows "\<exists>rs s'. alloc_seq alloc ns s = Some (rs, s') \<and> length rs = length ns
    \<and> (\<forall>i p. i < length rs \<longrightarrow> rs ! i = Some p \<longrightarrow> {p..<p + ns ! i} \<subseteq> avail s)
    \<and> (\<forall>i j p q. i < j \<longrightarrow> j < length rs \<longrightarrow> rs ! i = Some p \<longrightarrow> rs ! j = Some q \<longrightarrow>
          {p..<p + ns ! i} \<inter> {q..<q + ns ! j} = {})"
  using assms
proof (induction ns arbitrary: s)
  case Nil
  then show ?case by simp
next
  case (Cons n ns)
  then obtain r s1 where r: "alloc n s = Some (r, s1)" using alloc_returns [of s n] by auto
  have s1: "inv s1" "avail s1 \<subseteq> avail s"
    and blk: "\<And>p. r = Some p \<Longrightarrow> {p..<p + n} \<subseteq> avail s \<and> {p..<p + n} \<inter> avail s1 = {}"
    using alloc_NULL [of s n s1] alloc_block [of s n _ s1] Cons.prems r by (cases r; auto)+
  obtain rs s2 where rs: "alloc_seq alloc ns s1 = Some (rs, s2)" "length rs = length ns"
    and sub: "\<And>i p. i < length rs \<Longrightarrow> rs ! i = Some p \<Longrightarrow> {p..<p + ns ! i} \<subseteq> avail s1"
    and dis: "\<And>i j p q. i < j \<Longrightarrow> j < length rs \<Longrightarrow> rs ! i = Some p \<Longrightarrow> rs ! j = Some q \<Longrightarrow>
          {p..<p + ns ! i} \<inter> {q..<q + ns ! j} = {}"
    using Cons.IH [OF s1(1)] Cons.prems(2) by (metis list.set_intros(2))
  have "{p..<p + (n # ns) ! i} \<subseteq> avail s" if "i < length (r # rs)" "(r # rs) ! i = Some p" for i p
    using that blk sub s1(2) by (cases i) (force, fastforce)
  moreover have "{p..<p + (n # ns) ! i} \<inter> {q..<q + (n # ns) ! j} = {}"
    if ij: "i < j" and "j < length (r # rs)" "(r # rs) ! i = Some p" "(r # rs) ! j = Some q" for i j p q
  proof -
    obtain j' where j: "j = Suc j'" using ij by (cases j) auto
    show ?thesis
    proof (cases i)
      case 0
      then have "{p..<p + n} \<inter> avail s1 = {}" "{q..<q + ns ! j'} \<subseteq> avail s1"
        using blk sub [of j' q] that j by auto
      then have "{p..<p + n} \<inter> {q..<q + ns ! j'} = {}" by blast
      with 0 j show ?thesis by simp
    next
      case (Suc i')
      with dis [of i' j' p q] that j show ?thesis by simp
    qed
  qed
  ultimately show ?case using r rs by auto
qed

end

interpretation first_fit: page_allocator default_alloc_pages "\<lambda>s. \<exists>ps. free_blocks s ps" free_page_set
proof unfold_locales
  fix s :: pmm and n :: nat
  assume "\<exists>ps. free_blocks s ps" and n: "0 < n"
  then obtain ps where fb: "free_blocks s ps" by blast
  note eq = default_alloc_pages_eq [OF fb n]
  show "\<exists>r s'. default_alloc_pages n s = Some (r, s')" by (auto simp: eq split: option.splits)
  show "s' = s" if "default_alloc_pages n s = Some (None, s')" for s'
    using that by (auto simp: eq split: option.splits)
  show "(\<exists>ps. free_blocks s' ps) \<and> {p..<p + n} \<subseteq> free_page_set s
      \<and> free_page_set s' = free_page_set s - {p..<p + n}"
    if "default_alloc_pages n s = Some (Some p, s')" for p s'
  proof -
    from that have "find (\<lambda>p. n \<le> psize s p) ps = Some p" "s' = take_block p n s"
      by (auto simp: eq split: option.splits)
    moreover from this have "p \<in> set ps" "n \<le> psize s p" by (auto simp: find_Some_iff)
    ultimately show ?thesis using take_block_ok [OF fb, of p n] n by blast
  qed
qed

interpretation best_fit: page_allocator best_fit_alloc_pages
  "\<lambda>s. (\<exists>ps. free_blocks s ps) \<and> nr_free s + 1 < 2 ^ 32" free_page_set
proof unfold_locales
  fix s :: pmm and n :: nat
  assume "(\<exists>ps. free_blocks s ps) \<and> nr_free s + 1 < 2 ^ 32" and n: "0 < n"
  then obtain ps where fb: "free_blocks s ps" and m: "nr_free s + 1 < 2 ^ 32" by blast
  note eq = best_fit_alloc_pages_eq [OF fb n m]
  show "\<exists>r s'. best_fit_alloc_pages n s = Some (r, s')" by (auto simp: eq split: option.splits)
  show "s' = s" if "best_fit_alloc_pages n s = Some (None, s')" for s'
    using that by (auto simp: eq split: option.splits)
  show "((\<exists>ps. free_blocks s' ps) \<and> nr_free s' + 1 < 2 ^ 32) \<and> {p..<p + n} \<subseteq> free_page_set s
      \<and> free_page_set s' = free_page_set s - {p..<p + n}"
    if "best_fit_alloc_pages n s = Some (Some p, s')" for p s'
  proof -
    from that have p: "best_of (psize s) n ps None (nr_free s + 1) = Some p" and s': "s' = take_block p n s"
      by (auto simp: eq split: option.splits)
    have "nr_free s' \<le> nr_free s" by (simp add: s' take_block_def Let_def)
    with s' best_of_Some [OF p] take_block_ok [OF fb, of p n] n m show ?thesis by auto
  qed
qed

text \<open>no double allocation between frees. Any sequence of \<^verbatim>\<open>alloc_pages\<close> requests served by
  the first-fit allocator from a well-formed free list returns, and the blocks it hands out
  are free pages of the start state and pairwise disjoint.\<close>

theorem default_alloc_disjoint:
  assumes "free_blocks s ps" and "\<forall>n \<in> set ns. 0 < n"
  shows "\<exists>rs s'. alloc_seq default_alloc_pages ns s = Some (rs, s') \<and> length rs = length ns
    \<and> (\<forall>i p. i < length rs \<longrightarrow> rs ! i = Some p \<longrightarrow> {p..<p + ns ! i} \<subseteq> free_page_set s)
    \<and> (\<forall>i j p q. i < j \<longrightarrow> j < length rs \<longrightarrow> rs ! i = Some p \<longrightarrow> rs ! j = Some q \<longrightarrow>
          {p..<p + ns ! i} \<inter> {q..<q + ns ! j} = {})"
  using assms by (intro first_fit.alloc_seq_ok) auto

section \<open>The free list as the kernel boots\<close>

text \<open>Memory before \<^verbatim>\<open>page_init\<close> gives a range to the allocator: every page reserved.\<close>

definition boot_pmm :: pmm where
  "boot_pmm = \<lparr>pages = (\<lambda>_. \<lparr>pg_ref = 0, pg_flags = 1, pg_property = 0\<rparr>),
     plinks = \<lparr>lprev = (\<lambda>l. l), lnext = (\<lambda>l. l)\<rparr>, nr_free = 0\<rparr>"

lemma init_memmap_pages_ok:
  assumes "\<And>q. base \<le> q \<Longrightarrow> q < base + n \<Longrightarrow> PageReserved (pages s q)"
  shows "init_memmap_pages base n s =
    Some (s\<lparr>pages := \<lambda>q. if base \<le> q \<and> q < base + n
       then (pages s q)\<lparr>pg_property := 0, pg_flags := 0, pg_ref := 0\<rparr> else pages s q\<rparr>)"
  using assms
proof (induction n arbitrary: base s)
  case 0
  have "(\<lambda>q. if base \<le> q \<and> q < base + 0
      then (pages s q)\<lparr>pg_property := 0, pg_flags := 0, pg_ref := 0\<rparr> else pages s q) = pages s"
    by (rule ext) auto
  then show ?case by simp
next
  case (Suc n)
  let ?f = "\<lambda>pg. pg\<lparr>pg_property := 0, pg_flags := 0, pg_ref := 0\<rparr>"
  let ?s = "upd_page base ?f s"
  have "init_memmap_pages (Suc base) n ?s =
    Some (?s\<lparr>pages := \<lambda>q. if Suc base \<le> q \<and> q < Suc base + n then ?f (pages ?s q) else pages ?s q\<rparr>)"
    by (rule Suc.IH) (use Suc.prems in auto)
  moreover have "PageReserved (pages s base)" using Suc.prems by simp
  moreover have "(\<lambda>q. if Suc base \<le> q \<and> q < Suc base + n then ?f (pages ?s q) else pages ?s q) =
     (\<lambda>q. if base \<le> q \<and> q < base + Suc n then ?f (pages s q) else pages s q)"
    by (rule ext) auto
  ultimately show ?case by (simp add: upd_page_def)
qed

text \<open>boot. After \<^verbatim>\<open>default_init\<close>, handing one range of reserved pages to
  \<^verbatim>\<open>default_init_memmap\<close>, as \<^verbatim>\<open>page_init\<close> does, gives a well-formed free list whose single block
  is that range.\<close>

theorem boot_free_list:
  assumes "\<And>q. \<not> PageProperty (pages s q)" and "0 < n" and "n < 2 ^ 32"
    and "\<And>q. base \<le> q \<Longrightarrow> q < base + n \<Longrightarrow> PageReserved (pages s q)"
  shows "\<exists>s'. default_init_memmap base n (default_init s) = Some s' \<and> free_blocks s' [base]
    \<and> free_page_set s' = {base..<base + n}"
proof -
  have r: "ring (list_init (plinks s) Free_list) Free_list []" by (rule ring_list_init)
  let ?f = "\<lambda>pg. pg\<lparr>pg_property := 0, pg_flags := 0, pg_ref := 0\<rparr>"
  let ?pg = "\<lambda>q. if base \<le> q \<and> q < base + n then ?f (pages s q) else pages s q"
  let ?h = "list_add (list_init (plinks s) Free_list) Free_list (Page_link base)"
  let ?s1 = "(default_init s)\<lparr>pages := ?pg\<rparr>"
  define s' where "s' = upd_page base (\<lambda>pg. SetPageProperty (pg\<lparr>pg_property := n\<rparr>)) ?s1
    \<lparr>nr_free := n, plinks := ?h\<rparr>"
  have dp: "pages (default_init s) = pages s" by (simp add: default_init_def)
  have "init_memmap_pages base n (default_init s) = Some ?s1"
    using init_memmap_pages_ok [of base n "default_init s", unfolded dp] assms(4) by blast
  then have s': "default_init_memmap base n (default_init s) = Some s'"
    using assms(2,3) list_empty_ring [OF r]
    by (simp add: default_init_memmap_def insert_block_def s'_def default_init_def upd_page_def Let_def)
  have pg: "pages s' q = (if q = base then SetPageProperty ((?f (pages s q))\<lparr>pg_property := n\<rparr>) else ?pg q)"
    and nr: "nr_free s' = n" and ln: "plinks s' = ?h" for q
    using assms(2) by (auto simp: s'_def)
  have "ring (plinks s') Free_list (map Page_link [base])"
    unfolding ln list_add_def using ring_add_after_head [OF r] by simp
  then have fb: "free_blocks s' [base]"
    using assms by (auto simp: free_blocks_def pg nr)
  with free_page_set_blocks [OF fb] s' show ?thesis by (auto simp: pg)
qed

section \<open>Insertion behind the last free block\<close>

text \<open>
  The insertion loops of \<^verbatim>\<open>default_init_memmap\<close> and \<^verbatim>\<open>default_free_pages\<close> have no \<^verbatim>\<open>break\<close> after
  linking a block behind the last one. The loop then visits the block just linked, sees
  again that it is the last one, and links it behind itself.
\<close>

lemma insert_scan_tail:
  "ring h Free_list (map Page_link (xs @ zs @ [z])) \<Longrightarrow> \<forall>x \<in> set (zs @ [z]). x < base \<Longrightarrow>
     Page_link base \<notin> set (map Page_link (xs @ zs @ [z])) \<Longrightarrow>
     insert_scan base (last (Free_list # map Page_link xs)) h =
       Some (list_add (list_add h (Page_link z) (Page_link base)) (Page_link base) (Page_link base))"
proof (induction zs arbitrary: xs)
  case Nil
  let ?h1 = "list_add h (Page_link z) (Page_link base)"
  let ?h2 = "list_add ?h1 (Page_link base) (Page_link base)"
  have "lnext h (last (Free_list # map Page_link xs)) = Page_link z"
    using ring_succ [of h Free_list "map Page_link xs" "[Page_link z]"] Nil by simp
  moreover have "lnext h (Page_link z) = Free_list"
    using ring_next [of h Free_list "map Page_link xs" "Page_link z" "[]"] Nil by simp
  moreover from this have "lnext ?h1 (Page_link z) = Page_link base" "lnext ?h1 (Page_link base) = Free_list"
    using Nil by (auto simp: list_add_def list_add_after_def link_between_def)
  moreover from this have "lnext ?h2 (Page_link base) = Free_list"
    by (simp add: list_add_def list_add_after_def link_between_def)
  moreover have "insert_scan base (Page_link base) ?h2 = Some ?h2"
    using calculation by (subst insert_scan.simps) (simp add: list_next_def)
  moreover from calculation have "insert_scan base (Page_link z) ?h1 = Some ?h2"
    by (subst insert_scan.simps) (simp add: list_next_def Let_def)
  ultimately show ?case
    using Nil.prems by (subst insert_scan.simps) (simp add: list_next_def Let_def)
next
  case (Cons y zs)
  have "lnext h (last (Free_list # map Page_link xs)) = Page_link y"
    using ring_succ [of h Free_list "map Page_link xs" "map Page_link (y # zs @ [z])"] Cons.prems by simp
  moreover have "lnext h (Page_link y) \<noteq> Free_list"
    using ring_next [of h Free_list "map Page_link xs" "Page_link y" "map Page_link (zs @ [z])"] Cons.prems
    by (cases zs) auto
  ultimately show ?case
    using Cons.IH [of "xs @ [y]"] Cons.prems
    by (subst insert_scan.simps) (simp add: list_next_def Let_def)
qed

lemma default_free_tail_eq:
  assumes fb: "free_blocks s ps" and cf: "can_free base n s" and ne: "ps \<noteq> []" and hi: "\<forall>p \<in> set ps. p < base"
  shows "default_free_pages base n s = Some ((freed_state base n s)\<lparr>plinks :=
      list_add (list_add (plinks s) (Page_link (last ps)) (Page_link base)) (Page_link base) (Page_link base)\<rparr>)"
    (is "_ = Some (?s\<lparr>plinks := ?h\<rparr>)")
    and "lprev (list_add (list_add (plinks s) (Page_link (last ps)) (Page_link base)) (Page_link base) (Page_link base))
           (Page_link base) = Page_link base"
proof -
  obtain zs z where ps: "ps = zs @ [z]" using ne by (cases ps rule: rev_cases) auto
  have n: "0 < n" using cf by (simp add: can_free_def)
  have "insert_scan base Free_list (plinks s) = Some ?h"
    using insert_scan_tail [of "plinks s" "[]" zs z base] fb hi by (auto simp: ps free_blocks_def)
  moreover have "\<not> list_empty (plinks s) Free_list"
    using fb ne by (auto simp: free_blocks_def list_empty_ring)
  ultimately have ins: "insert_block base ?s = Some (?s\<lparr>plinks := ?h\<rparr>)"
    by (simp add: insert_block_def freed_state_def Let_def)
  have "lnext (plinks s) (Page_link z) = Free_list"
    using ring_next [of "plinks s" Free_list "map Page_link zs" "Page_link z" "[]"] fb
    by (simp add: ps free_blocks_def)
  then show pv: "lprev ?h (Page_link base) = Page_link base"
    by (auto simp: list_add_def list_add_after_def link_between_def)
  have nx: "lnext ?h (Page_link base) = Free_list"
    using \<open>lnext (plinks s) (Page_link z) = Free_list\<close>
    by (auto simp: ps list_add_def list_add_after_def link_between_def)
  have sz: "psize (?s\<lparr>plinks := ?h\<rparr>) base = n" by (simp add: freed_state_def Let_def)
  show "default_free_pages base n s = Some (?s\<lparr>plinks := ?h\<rparr>)"
    using n pv nx sz
    by (simp add: default_free_pages_eq [OF cf fb] ins merge_prev_def merge_next_def list_prev_def
        list_next_def Let_def)
qed

text \<open>freeing pages above every free block of a non-empty free list returns with the new
  block's back pointer at itself, so no well-formed free list is left: the merge with the
  block before it is skipped, and a later \<^verbatim>\<open>list_del\<close> of the block does not unlink it.\<close>

theorem default_free_tail_self_link:
  assumes "free_blocks s ps" and "can_free base n s" and "ps \<noteq> []" and "\<forall>p \<in> set ps. p < base"
  shows "\<exists>s'. default_free_pages base n s = Some s'
    \<and> list_prev (plinks s') (Page_link base) = Page_link base \<and> (\<forall>ps'. \<not> free_blocks s' ps')"
proof -
  obtain s' where s': "default_free_pages base n s = Some s'"
    and pv: "lprev (plinks s') (Page_link base) = Page_link base"
    and pr: "PageProperty (pages s' base)"
    using default_free_tail_eq [OF assms] by (auto simp: freed_state_def Let_def)
  have "\<not> free_blocks s' ps'" for ps'
  proof
    assume fb': "free_blocks s' ps'"
    with pr have "base \<in> set ps'" by (simp add: free_blocks_def)
    then obtain xs ys where ps': "ps' = xs @ base # ys" by (auto dest: split_list)
    have r: "ring (plinks s') Free_list (map Page_link xs @ Page_link base # map Page_link ys)"
      using fb' by (simp add: free_blocks_def ps')
    have "last (Free_list # map Page_link xs) = Page_link base"
      using ring_prev [OF r] pv by simp
    then have "Page_link base \<in> set (Free_list # map Page_link xs)"
      by (metis last_in_set list.distinct(1))
    with ring_distinct [OF r] show False by auto
  qed
  with s' pv show ?thesis by (auto simp: list_prev_def)
qed

text \<open>A state with the free blocks \<open>{0}\<close> and \<open>{3}\<close>, every other page in use.\<close>

definition two_blocks :: pmm where
  "two_blocks = \<lparr>
     pages = (\<lambda>_. \<lparr>pg_ref = 1, pg_flags = 0, pg_property = 0\<rparr>)
       (0 := \<lparr>pg_ref = 0, pg_flags = 2, pg_property = 1\<rparr>,
        3 := \<lparr>pg_ref = 0, pg_flags = 2, pg_property = 1\<rparr>),
     plinks = \<lparr>
       lprev = (\<lambda>l. l)(Free_list := Page_link 3, Page_link 3 := Page_link 0, Page_link 0 := Free_list),
       lnext = (\<lambda>l. l)(Free_list := Page_link 0, Page_link 0 := Page_link 3, Page_link 3 := Free_list)\<rparr>,
     nr_free = 2\<rparr>"

lemma two_blocks_wf: "free_blocks two_blocks [0, 3]"
  by (simp add: two_blocks_def free_blocks_def ring_def PageProperty_def PageReserved_def
      PG_property_def PG_reserved_def)

lemma two_blocks_set: "free_page_set two_blocks = {0, 3}"
proof -
  have "psize two_blocks 0 = 1" "psize two_blocks 3 = 1" by (simp_all add: two_blocks_def)
  then show ?thesis by (auto simp: free_page_set_blocks [OF two_blocks_wf])
qed

lemma two_blocks_can_free: "can_free 10 2 two_blocks" "can_free 1 2 two_blocks"
  unfolding can_free_def two_blocks_set
  by (simp_all add: two_blocks_def PageReserved_def PG_reserved_def)

lemma first_fit_scan_step:
  "list_next (plinks s) le = Page_link p \<Longrightarrow>
     first_fit_scan s n le = (if n \<le> psize s p then Some (Some p) else first_fit_scan s n (Page_link p))"
  by (subst first_fit_scan.simps) simp

definition tail_freed :: pmm where
  "tail_freed = \<lparr>
     pages = (\<lambda>_. \<lparr>pg_ref = 1, pg_flags = 0, pg_property = 0\<rparr>)
       (0 := \<lparr>pg_ref = 0, pg_flags = 2, pg_property = 1\<rparr>,
        3 := \<lparr>pg_ref = 0, pg_flags = 2, pg_property = 1\<rparr>,
        10 := \<lparr>pg_ref = 0, pg_flags = 2, pg_property = 2\<rparr>,
        11 := \<lparr>pg_ref = 0, pg_flags = 0, pg_property = 0\<rparr>),
     plinks = \<lparr>
       lprev = (\<lambda>l. l)(Page_link 3 := Page_link 0, Page_link 0 := Free_list,
                       Free_list := Page_link 10, Page_link 10 := Page_link 10),
       lnext = (\<lambda>l. l)(Free_list := Page_link 0, Page_link 0 := Page_link 3,
                       Page_link 3 := Page_link 10, Page_link 10 := Free_list)\<rparr>,
     nr_free = 4\<rparr>"

lemma two_blocks_free_tail: "default_free_pages 10 2 two_blocks = Some tail_freed"
proof -
  have "list_add (list_add (plinks two_blocks) (Page_link 3) (Page_link 10)) (Page_link 10) (Page_link 10)
      = plinks tail_freed"
    by (simp add: two_blocks_def tail_freed_def list_add_def list_add_after_def link_between_def
        set_next_def set_prev_def fun_eq_iff)
  moreover have "(freed_state 10 2 two_blocks)\<lparr>plinks := plinks tail_freed\<rparr> = tail_freed"
    by (simp add: freed_state_def two_blocks_def tail_freed_def upd_page_def Let_def
        SetPageProperty_def PG_property_def fun_eq_iff)
  ultimately show ?thesis
    using default_free_tail_eq(1) [OF two_blocks_wf two_blocks_can_free(1)] by simp
qed

lemma scan_three:
  "lnext (plinks s) Free_list = Page_link 0 \<Longrightarrow> lnext (plinks s) (Page_link 0) = Page_link 3 \<Longrightarrow>
   lnext (plinks s) (Page_link 3) = Page_link 10 \<Longrightarrow> psize s 0 = 1 \<Longrightarrow> psize s 3 = 1 \<Longrightarrow>
   psize s 10 = 2 \<Longrightarrow> first_fit_scan s 2 Free_list = Some (Some 10)"
  by (simp add: first_fit_scan_step list_next_def)

text \<open>the consequence of C8. From the well-formed free list with the blocks \<open>{0}\<close> and \<open>{3}\<close>,
  the owner of the pages 10 and 11 frees them and two requests for two pages follow:
  \<^verbatim>\<open>default_alloc_pages\<close> hands out the pages 10 and 11 both times, with no free in between.\<close>

theorem default_double_alloc:
  "free_blocks two_blocks [0, 3] \<and> can_free 10 2 two_blocks \<and>
   do {
     s \<leftarrow> default_free_pages 10 2 two_blocks;
     (a, s) \<leftarrow> default_alloc_pages 2 s;
     (b, s) \<leftarrow> default_alloc_pages 2 s;
     Some (a, b)
   } = Some (Some 10, Some 10)"
proof -
  have "default_alloc_pages 2 tail_freed = Some (Some 10, take_block 10 2 tail_freed)"
    using scan_three [of tail_freed] by (simp add: default_alloc_pages_def tail_freed_def)
  moreover have "default_alloc_pages 2 (take_block 10 2 tail_freed) =
      Some (Some 10, take_block 10 2 (take_block 10 2 tail_freed))"
    using scan_three [of "take_block 10 2 tail_freed"]
    by (simp add: default_alloc_pages_def tail_freed_def take_block_def Let_def list_del_def
        list_prev_def unlink_between_def)
  ultimately show ?thesis
    using two_blocks_wf two_blocks_can_free by (simp add: two_blocks_free_tail)
qed

section \<open>Witnesses\<close>

theorem default_alloc_first_fit_witness:
  "free_blocks two_blocks [0, 3] \<and> find (\<lambda>p. 1 \<le> psize two_blocks p) [0, 3] = Some 0
   \<and> (\<exists>s'. default_alloc_pages 1 two_blocks = Some (Some 0, s') \<and> free_page_set s' = {3})"
proof -
  have "find (\<lambda>p. 1 \<le> psize two_blocks p) [0, 3] = Some 0" by (simp add: two_blocks_def)
  with default_alloc_first_fit [OF two_blocks_wf, of 1] two_blocks_wf two_blocks_set show ?thesis
    by auto
qed

theorem default_free_merges_witness:
  "\<exists>s' ps'. default_free_pages 1 2 two_blocks = Some s' \<and> free_blocks s' ps'
     \<and> free_page_set s' = {0, 3} \<union> {1..<1 + 2}"
  using default_free_merges [OF two_blocks_wf two_blocks_can_free(2)] unfolding two_blocks_set by simp

theorem default_free_guard_witness:
  "PageProperty (pages two_blocks 3) \<and> default_free_pages 2 2 two_blocks = None"
proof -
  have "PageProperty (pages two_blocks 3)" using two_blocks_wf by (simp add: free_blocks_def)
  with default_free_guard [of 2 3 2 two_blocks] show ?thesis by simp
qed

theorem best_fit_alloc_smallest_witness:
  "nr_free two_blocks + 1 < 2 ^ 32 \<and> (\<exists>r s'. best_fit_alloc_pages 1 two_blocks = Some (r, s'))"
proof -
  have "nr_free two_blocks + 1 < 2 ^ 32" by (simp add: two_blocks_def)
  with best_fit_alloc_smallest [OF two_blocks_wf, of 1] show ?thesis by auto
qed

theorem default_alloc_disjoint_witness:
  "\<exists>rs s'. alloc_seq default_alloc_pages [1, 1, 1] two_blocks = Some (rs, s') \<and> length rs = 3"
  using default_alloc_disjoint [OF two_blocks_wf, of "[1, 1, 1]"] by auto

theorem boot_free_list_witness:
  "\<exists>s'. default_init_memmap 4 8 (default_init boot_pmm) = Some s' \<and> free_page_set s' = {4..<12}"
proof -
  have "\<not> PageProperty (pages boot_pmm q)" "PageReserved (pages boot_pmm q)" for q
    by (simp_all add: boot_pmm_def PageProperty_def PageReserved_def PG_property_def PG_reserved_def)
  with boot_free_list [of boot_pmm 8 4] show ?thesis by auto
qed

theorem default_free_tail_self_link_witness:
  "\<exists>s'. default_free_pages 10 2 two_blocks = Some s' \<and> (\<forall>ps'. \<not> free_blocks s' ps')"
  using default_free_tail_self_link [OF two_blocks_wf two_blocks_can_free(1)] by auto

end
