(* ===== verification/Slub.thy ===== *)
theory Slub
  imports Page_Alloc
begin

text \<open>
  The object allocator of \<^verbatim>\<open>kern/mm/slub.c\<close>: \<^verbatim>\<open>kmalloc\<close>, \<^verbatim>\<open>kfree\<close> and the caches behind them, over a page
  allocator that is an argument (\<^verbatim>\<open>pmm_manager\<close>).

  A \<^verbatim>\<open>struct Page *\<close> is the index of the page, as in \<open>Page_Alloc\<close>, and a cache is named by the pointer that
  \<^verbatim>\<open>alloc_page\<close> returned for it. An object is its kernel address; \<open>omem\<close> is the word stored at an address, which in
  a free object is the address of the next free one. The \<^verbatim>\<open>page_link\<close> of a slab is a link of a store
  of its own: a page is not in the free list of the page allocator while it is a slab. Kernel addresses do
  not wrap (less than 1 GB of memory); counters are words of their width. The descriptors under the
  caches of \<^verbatim>\<open>slub_init\<close> and the caches are kept apart here, although the code lays one over the other.

  The invariant \<open>slub_ok\<close> says that every object of every slab is held by a client, or is in exactly one free
  list; the locale \<open>slab_pages\<close> states what the page allocator has to promise, and is interpreted on
  first fit and on best fit.
\<close>

section \<open>The code\<close>

record pmm_manager =
  pm_alloc :: "nat \<Rightarrow> pmm \<Rightarrow> (nat option \<times> pmm) option"
  pm_free :: "nat \<Rightarrow> nat \<Rightarrow> pmm \<Rightarrow> pmm option"

record kmem_cache =
  kc_size :: nat
  kc_align :: nat
  objects_per_slab :: u32
  cpu_freelist :: nat
  cpu_page :: "nat option"
  freelist_count :: u32
  nr_partial :: u64
  alloc_count :: u64
  free_count :: u64
  active_slabs :: u64

record slab_page =
  slab_cache :: "nat option"
  pg_freelist :: nat
  s_mem :: nat
  inuse :: u32
  objects :: u32

datatype slub_link = Null_link | Partial nat | Slab_link nat

primrec le2slab :: "slub_link \<Rightarrow> nat" where
  "le2slab (Slab_link p) = p"

record slub =
  pm :: pmm
  npages :: nat
  slabs :: "nat \<Rightarrow> slab_page"
  slinks :: "slub_link links"
  kcaches :: "nat \<Rightarrow> kmem_cache"
  slub_caches :: "nat \<Rightarrow> nat option"
  slub_initialized :: bool
  omem :: "nat \<Rightarrow> nat"

definition size_table :: "nat list" where
  "size_table = [16, 32, 64, 128, 256, 512, 1024, 2048]"

definition SLUB_CPU_BATCH :: nat where "SLUB_CPU_BATCH = 8"
definition SLUB_CPU_LIMIT :: u32 where "SLUB_CPU_LIMIT = 32"
definition PG_slab :: u64 where "PG_slab = 0x100"
definition SLAB_PGSIZE :: nat where "SLAB_PGSIZE = 4096"
definition KERN_ADDR :: nat where "KERN_ADDR = 0xFFFFFFFFC0200000"
definition va_pa_offset :: nat where "va_pa_offset = 0xFFFFFFFF40000000"
definition first_ppn :: nat where "first_ppn = 0x80000"

definition upd_cache :: "nat \<Rightarrow> (kmem_cache \<Rightarrow> kmem_cache) \<Rightarrow> slub \<Rightarrow> slub" where
  "upd_cache c f s = s\<lparr>kcaches := (kcaches s)(c := f (kcaches s c))\<rparr>"

definition upd_slab :: "nat \<Rightarrow> (slab_page \<Rightarrow> slab_page) \<Rightarrow> slub \<Rightarrow> slub" where
  "upd_slab p f s = s\<lparr>slabs := (slabs s)(p := f (slabs s p))\<rparr>"

definition store :: "nat \<Rightarrow> nat \<Rightarrow> slub \<Rightarrow> slub" where
  "store a v s = s\<lparr>omem := (omem s)(a := v)\<rparr>"

text \<open>\<^verbatim>\<open>PADDR\<close> panics below \<^verbatim>\<open>KERNBASE\<close>; a null result of \<^verbatim>\<open>virt_to_page\<close> is \<open>Some None\<close>.\<close>

definition PADDR_of :: "nat \<Rightarrow> nat option" where
  "PADDR_of va = (if va < KERN_ADDR then panic else Some (va - va_pa_offset))"

definition virt_to_page :: "nat \<Rightarrow> nat option option" where
  "virt_to_page addr =
     (if addr = 0 then Some None
      else do { pa \<leftarrow> PADDR_of addr; Some (Some (pa div SLAB_PGSIZE - first_ppn)) })"

definition page_to_virt :: "nat \<Rightarrow> nat" where
  "page_to_virt p = (p + first_ppn) * SLAB_PGSIZE + va_pa_offset"

definition page_on_partial :: "nat \<Rightarrow> slub \<Rightarrow> bool" where
  "page_on_partial p s \<longleftrightarrow> list_next (slinks s) (Slab_link p) \<noteq> Null_link"

definition add_partial :: "nat \<Rightarrow> nat \<Rightarrow> slub \<Rightarrow> slub" where
  "add_partial c p s =
     (if page_on_partial p s then s
      else upd_cache c (\<lambda>k. k\<lparr>nr_partial := nr_partial k + 1\<rparr>)
             (s\<lparr>slinks := list_add (slinks s) (Partial c) (Slab_link p)\<rparr>))"

definition remove_partial :: "nat \<Rightarrow> nat \<Rightarrow> slub \<Rightarrow> slub" where
  "remove_partial c p s =
     (if \<not> page_on_partial p s then s
      else let h = list_del (slinks s) (Slab_link p);
               h = set_prev (set_next h (Slab_link p) Null_link) (Slab_link p) Null_link
           in upd_cache c (\<lambda>k. k\<lparr>nr_partial := nr_partial k - 1\<rparr>) (s\<lparr>slinks := h\<rparr>))"

definition cpu_push :: "nat \<Rightarrow> nat \<Rightarrow> slub \<Rightarrow> slub" where
  "cpu_push c obj s =
     (let s = store obj (cpu_freelist (kcaches s c)) s
      in upd_cache c (\<lambda>k. k\<lparr>cpu_freelist := obj, freelist_count := freelist_count k + 1\<rparr>) s)"

definition cpu_pop :: "nat \<Rightarrow> slub \<Rightarrow> nat \<times> slub" where
  "cpu_pop c s =
     (let obj = cpu_freelist (kcaches s c)
      in (obj, upd_cache c (\<lambda>k. k\<lparr>cpu_freelist := omem s obj, freelist_count := freelist_count k - 1\<rparr>) s))"

text \<open>One round of the loops of \<^verbatim>\<open>flush_cpu_freelist\<close> and \<^verbatim>\<open>drain_cpu_freelist\<close>.\<close>

definition return_object :: "nat \<Rightarrow> slub \<Rightarrow> slub option" where
  "return_object c s = do {
     let (obj, s) = cpu_pop c s;
     r \<leftarrow> virt_to_page obj;
     page \<leftarrow> r;
     let s = store obj (pg_freelist (slabs s page)) s;
     let s = upd_slab page (\<lambda>g. g\<lparr>pg_freelist := obj\<rparr>) s;
     Some (if cpu_page (kcaches s c) \<noteq> Some page \<and> inuse (slabs s page) < objects (slabs s page)
           then add_partial c page s else s)
   }"

partial_function (option) flush_cpu_freelist :: "nat \<Rightarrow> slub \<Rightarrow> slub option" where
  "flush_cpu_freelist c s =
     (if cpu_freelist (kcaches s c) \<noteq> 0 \<and> freelist_count (kcaches s c) > SLUB_CPU_LIMIT
      then return_object c s \<bind> (\<lambda>s. flush_cpu_freelist c s) else Some s)"

partial_function (option) drain_cpu_freelist :: "nat \<Rightarrow> slub \<Rightarrow> slub option" where
  "drain_cpu_freelist c s =
     (if cpu_freelist (kcaches s c) \<noteq> 0 then return_object c s \<bind> (\<lambda>s. drain_cpu_freelist c s) else Some s)"

text \<open>The loop of \<^verbatim>\<open>init_slab_freelist\<close> that links the objects; \<open>objects - 1\<close> is computed in 32 bits.\<close>

fun link_objects :: "nat \<Rightarrow> nat \<Rightarrow> nat \<Rightarrow> slub \<Rightarrow> slub" where
  "link_objects sz cur 0 s = store cur 0 s"
| "link_objects sz cur (Suc k) s = link_objects sz (cur + sz) k (store cur (cur + sz) s)"

definition init_slab_freelist :: "nat \<Rightarrow> nat \<Rightarrow> slub \<Rightarrow> slub" where
  "init_slab_freelist c p s =
     (let addr = page_to_virt p;
          n = objects_per_slab (kcaches s c);
          s = upd_slab p (\<lambda>g. g\<lparr>s_mem := addr, inuse := 0, objects := n, slab_cache := Some c\<rparr>) s;
          s = s\<lparr>pm := upd_page p (\<lambda>pg. pg\<lparr>pg_flags := pg_flags pg OR PG_slab\<rparr>) (pm s)\<rparr>;
          s = link_objects (kc_size (kcaches s c)) addr (unat (n - 1)) s
      in upd_slab p (\<lambda>g. g\<lparr>pg_freelist := addr\<rparr>) s)"

definition allocate_slab :: "pmm_manager \<Rightarrow> nat \<Rightarrow> slub \<Rightarrow> (nat option \<times> slub) option" where
  "allocate_slab mgr c s = do {
     (r, m) \<leftarrow> pm_alloc mgr 1 (pm s);
     let s = s\<lparr>pm := m\<rparr>;
     (case r of
        None \<Rightarrow> Some (None, s)
      | Some p \<Rightarrow>
          let s = s\<lparr>pm := upd_page p (\<lambda>pg. pg\<lparr>pg_flags := 0, pg_property := 0, pg_ref := 0\<rparr>) (pm s)\<rparr>;
              s = s\<lparr>slinks := set_next (set_prev (slinks s) (Slab_link p) Null_link) (Slab_link p) Null_link\<rparr>;
              s = s\<lparr>pm := upd_page p (\<lambda>pg. pg\<lparr>pg_flags := PG_slab\<rparr>) (pm s)\<rparr>;
              s = init_slab_freelist c p s
          in Some (Some p, upd_cache c (\<lambda>k. k\<lparr>active_slabs := active_slabs k + 1\<rparr>) s))
   }"

text \<open>\<^verbatim>\<open>free_slab\<close> has no caller.\<close>

definition free_slab :: "pmm_manager \<Rightarrow> nat \<Rightarrow> nat \<Rightarrow> slub \<Rightarrow> slub option" where
  "free_slab mgr c p s = do {
     kassert (inuse (slabs s p) = 0);
     let s = s\<lparr>pm := upd_page p (\<lambda>pg. (ClearPageProperty (pg\<lparr>pg_flags := 0\<rparr>))\<lparr>pg_property := 0, pg_ref := 0\<rparr>) (pm s)\<rparr>;
     let s = upd_slab p (\<lambda>g. g\<lparr>slab_cache := None, pg_freelist := 0, s_mem := 0, inuse := 0, objects := 0\<rparr>) s;
     m \<leftarrow> pm_free mgr p 1 (pm s);
     Some (upd_cache c (\<lambda>k. k\<lparr>active_slabs := active_slabs k - 1\<rparr>) (s\<lparr>pm := m\<rparr>))
   }"

definition acquire_slab :: "pmm_manager \<Rightarrow> nat \<Rightarrow> slub \<Rightarrow> (nat option \<times> slub) option" where
  "acquire_slab mgr c s =
     (let page = cpu_page (kcaches s c) in
      if page \<noteq> None \<and> pg_freelist (slabs s (the page)) \<noteq> 0 then Some (page, s)
      else do {
        let s = (if page \<noteq> None \<and> pg_freelist (slabs s (the page)) = 0 \<and> cpu_freelist (kcaches s c) = 0 \<and>
                    inuse (slabs s (the page)) = objects (slabs s (the page))
                 then upd_cache c (\<lambda>k. k\<lparr>cpu_page := None\<rparr>) s else s);
        if \<not> list_empty (slinks s) (Partial c) then
          let p = le2slab (list_next (slinks s) (Partial c));
              s = remove_partial c p s
          in Some (Some p, upd_cache c (\<lambda>k. k\<lparr>cpu_page := Some p\<rparr>) s)
        else do {
          (r, s) \<leftarrow> allocate_slab mgr c s;
          Some (r, if r \<noteq> None then upd_cache c (\<lambda>k. k\<lparr>cpu_page := r\<rparr>) s else s)
        }
      })"

fun refill_objects :: "nat \<Rightarrow> nat \<Rightarrow> nat \<Rightarrow> slub \<Rightarrow> slub" where
  "refill_objects 0 c p s = s"
| "refill_objects (Suc batch) c p s =
     (if pg_freelist (slabs s p) \<noteq> 0 then
        let obj = pg_freelist (slabs s p);
            s = upd_slab p (\<lambda>g. g\<lparr>pg_freelist := omem s obj\<rparr>) s
        in refill_objects batch c p (cpu_push c obj s)
      else s)"

definition refill_cpu_freelist :: "pmm_manager \<Rightarrow> nat \<Rightarrow> slub \<Rightarrow> (bool \<times> slub) option" where
  "refill_cpu_freelist mgr c s = do {
     (r, s) \<leftarrow> acquire_slab mgr c s;
     (case r of
        None \<Rightarrow> Some (False, s)
      | Some p \<Rightarrow>
          let s = refill_objects SLUB_CPU_BATCH c p s
          in Some (cpu_freelist (kcaches s c) \<noteq> 0, s))
   }"

definition kmem_cache_alloc :: "pmm_manager \<Rightarrow> nat option \<Rightarrow> slub \<Rightarrow> (nat \<times> slub) option" where
  "kmem_cache_alloc mgr cache s =
     (case cache of
        None \<Rightarrow> Some (0, s)
      | Some c \<Rightarrow> do {
          let s = upd_cache c (\<lambda>k. k\<lparr>alloc_count := alloc_count k + 1\<rparr>) s;
          (ok, s) \<leftarrow> (if cpu_freelist (kcaches s c) = 0 then refill_cpu_freelist mgr c s else Some (True, s));
          if \<not> ok then Some (0, s)
          else do {
            let (obj, s) = cpu_pop c s;
            r \<leftarrow> virt_to_page obj;
            page \<leftarrow> r;
            Some (obj, upd_slab page (\<lambda>g. g\<lparr>inuse := inuse g + 1\<rparr>) s)
          }
        })"

definition kmem_cache_free :: "nat option \<Rightarrow> nat \<Rightarrow> slub \<Rightarrow> slub option" where
  "kmem_cache_free cache obj s =
     (if cache = None \<or> obj = 0 then Some s
      else do {
        c \<leftarrow> cache;
        let s = upd_cache c (\<lambda>k. k\<lparr>free_count := free_count k + 1\<rparr>) s;
        r \<leftarrow> virt_to_page obj;
        page \<leftarrow> r;
        if slab_cache (slabs s page) \<noteq> cache then panic
        else do {
          let s = cpu_push c obj s;
          let s = upd_slab page (\<lambda>g. g\<lparr>inuse := inuse g - 1\<rparr>) s;
          if freelist_count (kcaches s c) > SLUB_CPU_LIMIT then flush_cpu_freelist c s else Some s
        }
      })"

text \<open>
  \<^verbatim>\<open>kmem_cache_create\<close> with the sizes of \<^verbatim>\<open>struct Page\<close> and of a page in bytes (96 and 4096); division by zero has
  no result. The name, the flags and the constructor are not used by the code.
\<close>

definition kmem_cache_create :: "pmm_manager \<Rightarrow> nat \<Rightarrow> nat \<Rightarrow> slub \<Rightarrow> (nat option \<times> slub) option" where
  "kmem_cache_create mgr sz align s = do {
     (r, m) \<leftarrow> pm_alloc mgr 1 (pm s);
     let s = s\<lparr>pm := m\<rparr>;
     (case r of
        None \<Rightarrow> Some (None, s)
      | Some c \<Rightarrow> do {
          kassert (sz \<noteq> 0);
          let n = (of_nat ((SLAB_PGSIZE - 96) div sz) :: u32);
          let s = s\<lparr>slinks := list_init (slinks s) (Partial c)\<rparr>;
          Some (Some c, upd_cache c (\<lambda>k. \<lparr>kc_size = sz, kc_align = align, objects_per_slab = (if n = 0 then 1 else n),
            cpu_freelist = 0, cpu_page = None, freelist_count = 0, nr_partial = 0,
            alloc_count = 0, free_count = 0, active_slabs = 0\<rparr>) s)
        })
   }"

text \<open>The loop of \<^verbatim>\<open>slub_init\<close>; it leaves the three statistics of a cache as they were.\<close>

fun slub_init_caches :: "pmm_manager \<Rightarrow> nat \<Rightarrow> nat list \<Rightarrow> slub \<Rightarrow> slub option" where
  "slub_init_caches mgr i [] s = Some s"
| "slub_init_caches mgr i (sz # szs) s = do {
     (r, m) \<leftarrow> pm_alloc mgr 1 (pm s);
     let s = s\<lparr>pm := m\<rparr>;
     (case r of
        None \<Rightarrow> panic
      | Some c \<Rightarrow>
          let s = upd_cache c (\<lambda>k. k\<lparr>kc_size := sz, kc_align := 8, objects_per_slab := of_nat (SLAB_PGSIZE div sz),
                cpu_freelist := 0, cpu_page := None, freelist_count := 0, nr_partial := 0\<rparr>)
                (s\<lparr>slinks := list_init (slinks s) (Partial c)\<rparr>)
          in slub_init_caches mgr (Suc i) szs (s\<lparr>slub_caches := (slub_caches s)(i := Some c)\<rparr>))
   }"

definition slub_init :: "pmm_manager \<Rightarrow> slub \<Rightarrow> slub option" where
  "slub_init mgr s = do {
     s \<leftarrow> slub_init_caches mgr 0 size_table s;
     Some (s\<lparr>slub_initialized := True\<rparr>)
   }"

fun cache_index :: "nat \<Rightarrow> nat \<Rightarrow> nat list \<Rightarrow> nat option" where
  "cache_index sz i [] = None"
| "cache_index sz i (t # ts) = (if sz \<le> t then Some i else cache_index sz (Suc i) ts)"

definition get_cache_for_size :: "nat \<Rightarrow> slub \<Rightarrow> nat option" where
  "get_cache_for_size sz s =
     (case cache_index sz 0 size_table of None \<Rightarrow> None | Some i \<Rightarrow> slub_caches s i)"

text \<open>
  The search for the order of a large block. It is computed in C \<^verbatim>\<open>int\<close>, which overflows for more than
  \<open>2 ^ 30\<close> bytes; there is no result then.
\<close>

partial_function (option) block_order :: "nat \<Rightarrow> nat \<Rightarrow> nat option" where
  "block_order sz order =
     (if order \<ge> 19 then None
      else if 2 ^ order * SLAB_PGSIZE < sz then block_order sz (order + 1) else Some order)"

definition kmalloc :: "pmm_manager \<Rightarrow> nat \<Rightarrow> slub \<Rightarrow> (nat \<times> slub) option" where
  "kmalloc mgr sz s =
     (if \<not> slub_initialized s then Some (0, s)
      else case get_cache_for_size sz s of
        None \<Rightarrow> do {
          order \<leftarrow> block_order sz 0;
          (r, m) \<leftarrow> pm_alloc mgr (2 ^ order) (pm s);
          let s = s\<lparr>pm := m\<rparr>;
          (case r of
             None \<Rightarrow> Some (0, s)
           | Some p \<Rightarrow> if p + first_ppn \<ge> npages s then panic else Some (page_to_virt p, s))
        }
      | Some c \<Rightarrow> kmem_cache_alloc mgr (Some c) s)"

definition kfree :: "pmm_manager \<Rightarrow> nat \<Rightarrow> slub \<Rightarrow> slub option" where
  "kfree mgr obj s =
     (if obj = 0 \<or> \<not> slub_initialized s then Some s
      else do {
        r \<leftarrow> virt_to_page obj;
        page \<leftarrow> r;
        if pg_flags (pages (pm s) page) AND PG_slab \<noteq> 0
        then kmem_cache_free (slab_cache (slabs s page)) obj s
        else do { m \<leftarrow> pm_free mgr page 1 (pm s); Some (s\<lparr>pm := m\<rparr>) }
      })"

definition kallocated :: "slub \<Rightarrow> u64" where
  "kallocated s = (\<Sum>i\<leftarrow>[0..<length size_table].
     (case slub_caches s i of
        None \<Rightarrow> 0
      | Some c \<Rightarrow> (alloc_count (kcaches s c) - free_count (kcaches s c)) * of_nat (kc_size (kcaches s c))))"


section \<open>Objects and chains\<close>

lemma upd_simps [simp]:
  "pm (upd_cache c f s) = pm s" "slabs (upd_cache c f s) = slabs s" "slinks (upd_cache c f s) = slinks s"
  "omem (upd_cache c f s) = omem s" "kcaches (upd_cache c f s) = (kcaches s)(c := f (kcaches s c))"
  "slub_caches (upd_cache c f s) = slub_caches s" "slub_initialized (upd_cache c f s) = slub_initialized s"
  "npages (upd_cache c f s) = npages s"
  "pm (upd_slab p g s) = pm s" "slabs (upd_slab p g s) = (slabs s)(p := g (slabs s p))" "slinks (upd_slab p g s) = slinks s"
  "omem (upd_slab p g s) = omem s" "kcaches (upd_slab p g s) = kcaches s"
  "slub_caches (upd_slab p g s) = slub_caches s" "slub_initialized (upd_slab p g s) = slub_initialized s"
  "npages (upd_slab p g s) = npages s"
  "pm (store a v s) = pm s" "slabs (store a v s) = slabs s" "slinks (store a v s) = slinks s"
  "omem (store a v s) = (omem s)(a := v)" "kcaches (store a v s) = kcaches s"
  "slub_caches (store a v s) = slub_caches s" "slub_initialized (store a v s) = slub_initialized s"
  "npages (store a v s) = npages s"
  by (simp_all add: upd_cache_def upd_slab_def store_def)

fun obj_chain :: "(nat \<Rightarrow> nat) \<Rightarrow> nat \<Rightarrow> nat list \<Rightarrow> bool" where
  "obj_chain m a [] \<longleftrightarrow> a = 0"
| "obj_chain m a (x # xs) \<longleftrightarrow> a = x \<and> x \<noteq> 0 \<and> obj_chain m (m x) xs"

lemma obj_chain_cong: "(\<And>x. x \<in> set xs \<Longrightarrow> m' x = m x) \<Longrightarrow> obj_chain m' a xs \<longleftrightarrow> obj_chain m a xs"
  by (induction xs arbitrary: a) auto

lemma obj_chain_upd [simp]: "b \<notin> set xs \<Longrightarrow> obj_chain (m(b := v)) a xs \<longleftrightarrow> obj_chain m a xs"
  by (rule obj_chain_cong) auto

lemma obj_chain_head: "obj_chain m a xs \<Longrightarrow> a = 0 \<longleftrightarrow> xs = []"
  by (cases xs) auto

definition good_cache :: "kmem_cache \<Rightarrow> bool" where
  "good_cache k \<longleftrightarrow> 8 \<le> kc_size k \<and> 0 < unat (objects_per_slab k) \<and> unat (objects_per_slab k) * kc_size k \<le> 4096"

text \<open>The objects of the slab \<open>p\<close> of a cache, and the bytes of a page.\<close>

definition objs :: "kmem_cache \<Rightarrow> nat \<Rightarrow> nat set" where
  "objs k p = (\<lambda>i. page_to_virt p + i * kc_size k) ` {..<unat (objects_per_slab k)}"

definition bytes :: "nat \<Rightarrow> nat set" where
  "bytes p = {page_to_virt p..<page_to_virt p + 4096}"

lemmas addr_defs = page_to_virt_def virt_to_page_def PADDR_of_def first_ppn_def va_pa_offset_def SLAB_PGSIZE_def KERN_ADDR_def

lemma bytes_disjoint: "a \<in> bytes p \<Longrightarrow> a \<in> bytes q \<Longrightarrow> p = q"
  unfolding bytes_def addr_defs by simp

lemma object_fits:
  assumes "good_cache k" and "a \<in> objs k p"
  shows "page_to_virt p \<le> a" and "a + kc_size k \<le> page_to_virt p + 4096" and "a \<in> bytes p" and "a \<noteq> 0"
proof -
  obtain i where i: "i < unat (objects_per_slab k)" "a = page_to_virt p + i * kc_size k"
    using assms(2) by (auto simp: objs_def)
  have "Suc i * kc_size k \<le> unat (objects_per_slab k) * kc_size k" using i(1) by (intro mult_le_mono1) simp
  then have "i * kc_size k + kc_size k \<le> 4096" using assms(1) by (simp add: good_cache_def)
  moreover have "0 < kc_size k" using assms(1) by (simp add: good_cache_def)
  ultimately show "page_to_virt p \<le> a" "a + kc_size k \<le> page_to_virt p + 4096" "a \<in> bytes p" "a \<noteq> 0"
    using i(2) by (auto simp: bytes_def page_to_virt_def va_pa_offset_def)
qed

lemma objs_same: "good_cache k \<Longrightarrow> good_cache k' \<Longrightarrow> a \<in> objs k p \<Longrightarrow> a \<in> objs k' q \<Longrightarrow> p = q"
  by (rule bytes_disjoint [OF object_fits(3) object_fits(3)])

lemma virt_to_page_bytes: "512 \<le> p \<Longrightarrow> a \<in> bytes p \<Longrightarrow> virt_to_page a = Some (Some p)"
  unfolding bytes_def addr_defs by (auto simp: panic_def)

lemma card_objs:
  assumes "good_cache k"
  shows "card (objs k p) = unat (objects_per_slab k)" and "finite (objs k p)"
proof -
  have "inj_on (\<lambda>i. page_to_virt p + i * kc_size k) {..<unat (objects_per_slab k)}"
    using assms by (auto simp: inj_on_def good_cache_def)
  then show "card (objs k p) = unat (objects_per_slab k)" by (simp add: objs_def card_image)
qed (simp add: objs_def)

text \<open>Two objects of one cache do not overlap.\<close>

lemma objs_apart:
  assumes "good_cache k" and "a \<in> objs k p" "b \<in> objs k q" "a < b"
  shows "a + kc_size k \<le> b"
proof (cases "p = q")
  case True
  then obtain i j where ij: "a = page_to_virt p + i * kc_size k" "b = page_to_virt p + j * kc_size k"
    using assms by (auto simp: objs_def)
  then have "Suc i \<le> j" using assms(4) by (metis Suc_leI add_less_cancel_left mult_less_cancel2)
  then have "Suc i * kc_size k \<le> j * kc_size k" by (rule mult_le_mono1)
  then show ?thesis using ij by simp
next
  case False
  have a: "page_to_virt p \<le> a" "a + kc_size k \<le> page_to_virt p + 4096" using object_fits [OF assms(1,2)] by auto
  have b: "page_to_virt q \<le> b" "b + kc_size k \<le> page_to_virt q + 4096" using object_fits [OF assms(1,3)] by auto
  from False assms(4) a b have "p < q" by (auto simp: page_to_virt_def SLAB_PGSIZE_def)
  then have "page_to_virt p + 4096 \<le> page_to_virt q" by (auto simp: page_to_virt_def SLAB_PGSIZE_def)
  with a b show ?thesis by linarith
qed

lemma u32_count [simp]: "n \<le> 4096 \<Longrightarrow> unat (of_nat n :: u32) = n"
  by (simp add: unat_of_nat take_bit_nat_eq_self)

section \<open>One cache: the free lists\<close>

definition page_ok :: "slub \<Rightarrow> nat set \<Rightarrow> kmem_cache \<Rightarrow> nat list \<Rightarrow> nat \<Rightarrow> nat list \<Rightarrow> bool" where
  "page_ok s A k F p Lp \<longleftrightarrow>
     objects (slabs s p) = objects_per_slab k \<and> obj_chain (omem s) (pg_freelist (slabs s p)) Lp \<and>
     distinct Lp \<and> set Lp \<subseteq> objs k p \<and> set Lp \<inter> set F = {} \<and>
     A \<inter> objs k p = objs k p - set F - set Lp \<and> inuse (slabs s p) = of_nat (card (A \<inter> objs k p))"

definition free_ok :: "slub \<Rightarrow> nat set \<Rightarrow> nat set \<Rightarrow> nat \<Rightarrow> nat list \<Rightarrow> (nat \<Rightarrow> nat list) \<Rightarrow> bool" where
  "free_ok s S A c F L \<longleftrightarrow> good_cache (kcaches s c) \<and>
     obj_chain (omem s) (cpu_freelist (kcaches s c)) F \<and> freelist_count (kcaches s c) = of_nat (length F) \<and>
     distinct F \<and> set F \<subseteq> (\<Union>p\<in>S. objs (kcaches s c) p) \<and> (\<forall>p\<in>S. page_ok s A (kcaches s c) F p (L p))"

lemma free_okD:
  assumes "free_ok s S A c F L"
  shows "good_cache (kcaches s c)" and "obj_chain (omem s) (cpu_freelist (kcaches s c)) F"
    and "freelist_count (kcaches s c) = of_nat (length F)" and "distinct F"
    and "x \<in> set F \<Longrightarrow> \<exists>p\<in>S. x \<in> objs (kcaches s c) p"
    and "p \<in> S \<Longrightarrow> page_ok s A (kcaches s c) F p (L p)"
  using assms by (auto simp: free_ok_def)

lemma objs_simps [simp]:
  "objs (k\<lparr>cpu_freelist := x\<rparr>) = objs k" "objs (k\<lparr>freelist_count := y\<rparr>) = objs k" "objs (k\<lparr>cpu_page := z\<rparr>) = objs k"
  "objs (k\<lparr>nr_partial := n\<rparr>) = objs k" "objs (k\<lparr>alloc_count := n\<rparr>) = objs k" "objs (k\<lparr>free_count := n\<rparr>) = objs k"
  "objs (k\<lparr>active_slabs := n\<rparr>) = objs k"
  by (auto simp: objs_def)

lemma good_cache_simps [simp]:
  "good_cache (k\<lparr>cpu_freelist := x\<rparr>) = good_cache k" "good_cache (k\<lparr>freelist_count := y\<rparr>) = good_cache k"
  "good_cache (k\<lparr>cpu_page := z\<rparr>) = good_cache k" "good_cache (k\<lparr>nr_partial := n\<rparr>) = good_cache k"
  "good_cache (k\<lparr>alloc_count := n\<rparr>) = good_cache k" "good_cache (k\<lparr>free_count := n\<rparr>) = good_cache k"
  "good_cache (k\<lparr>active_slabs := n\<rparr>) = good_cache k"
  by (auto simp: good_cache_def)

lemma page_okD:
  assumes "page_ok s A k F p Lp"
  shows "objects (slabs s p) = objects_per_slab k" "obj_chain (omem s) (pg_freelist (slabs s p)) Lp" "distinct Lp"
    "set Lp \<subseteq> objs k p" "set Lp \<inter> set F = {}" "A \<inter> objs k p = objs k p - set F - set Lp"
    "inuse (slabs s p) = of_nat (card (A \<inter> objs k p))"
  using assms by (auto simp: page_ok_def)

text \<open>A page is undisturbed when its fields, the links in its objects and its share of the sets are.\<close>

lemma page_ok_cong:
  assumes "page_ok s A k F p Lp" and "slabs s' p = slabs s p" and "\<And>a. a \<in> objs k p \<Longrightarrow> omem s' a = omem s a"
    and "objs k' = objs k" "objects_per_slab k' = objects_per_slab k"
    and "A' \<inter> objs k p = A \<inter> objs k p" "set F' \<inter> objs k p = set F \<inter> objs k p"
  shows "page_ok s' A' k' F' p Lp"
proof -
  have "obj_chain (omem s') (pg_freelist (slabs s p)) Lp = obj_chain (omem s) (pg_freelist (slabs s p)) Lp"
    by (rule obj_chain_cong) (use assms(3) page_okD(4) [OF assms(1)] in blast)
  moreover have "set Lp \<inter> set F' = {}" using page_okD(4,5) [OF assms(1)] assms(7) by blast
  moreover have "objs k p - set F' - set Lp = objs k p - set F - set Lp" using assms(7) by blast
  ultimately show ?thesis using assms(1) by (simp add: page_ok_def assms)
qed

text \<open>The fast path: an object leaves the list of the processor and is the client's.\<close>

lemma take_object:
  assumes ok: "free_ok s S A c (x # F) L" and p: "p \<in> S" "x \<in> objs (kcaches s c) p"
    and s': "s' = upd_slab p (\<lambda>g. g\<lparr>inuse := inuse g + 1\<rparr>) (snd (cpu_pop c s))"
  shows "fst (cpu_pop c s) = x" and "x \<notin> A" and "free_ok s' S (insert x A) c F L"
proof -
  let ?k = "kcaches s c"
  note D = free_okD [OF ok]
  note good = D(1)
  show x: "fst (cpu_pop c s) = x" using D(2) by (simp add: cpu_pop_def Let_def)
  have hd: "cpu_freelist ?k = x" and ch: "obj_chain (omem s) (omem s x) F" using D(2) by auto
  have sep: "x \<notin> objs ?k q" if "q \<noteq> p" for q using objs_same [OF good good p(2), of q] that by blast
  note P = page_okD [OF D(6) [OF p(1)]]
  show new: "x \<notin> A" using P(6) p(2) by auto
  have k': "kcaches s' c = ?k\<lparr>cpu_freelist := omem s x, freelist_count := freelist_count ?k - 1\<rparr>"
    and m': "omem s' = omem s" and sl': "slabs s' = (slabs s)(p := (slabs s p)\<lparr>inuse := inuse (slabs s p) + 1\<rparr>)"
    by (simp_all add: s' cpu_pop_def Let_def hd)
  have "page_ok s' (insert x A) (kcaches s' c) F q (L q)" if q: "q \<in> S" for q
  proof (cases "q = p")
    case True
    have A: "insert x A \<inter> objs ?k p = insert x (A \<inter> objs ?k p)" using p(2) by auto
    have fin: "finite (A \<inter> objs ?k p)" using card_objs(2) [OF good] by auto
    have "inuse (slabs s' p) = of_nat (card (insert x A \<inter> objs ?k p))"
      using P(7) new by (simp add: A card_insert_disjoint [OF fin] sl')
    moreover have "insert x A \<inter> objs ?k p = objs ?k p - set F - set (L p)"
      using P(4,5,6) p(2) D(4) by auto
    moreover have "set (L p) \<inter> set F = {}" using P(5) by auto
    ultimately show ?thesis using P(1-4) by (simp add: page_ok_def True k' m') (simp add: sl')
  next
    case False
    show ?thesis
      by (rule page_ok_cong [OF D(6) [OF q]]) (use False sep [OF False] in \<open>auto simp: k' m' sl'\<close>)
  qed
  moreover have "set F \<subseteq> (\<Union>q\<in>S. objs ?k q)" using ok by (auto simp: free_ok_def)
  ultimately show "free_ok s' S (insert x A) c F L"
    using D(1,3,4) ch by (simp add: free_ok_def k' m')
qed

text \<open>And back: an object of the client goes to the list of the processor.\<close>

lemma put_object:
  assumes ok: "free_ok s S A c F L" and p: "p \<in> S" "x \<in> objs (kcaches s c) p" and x: "x \<in> A"
    and s': "s' = upd_slab p (\<lambda>g. g\<lparr>inuse := inuse g - 1\<rparr>) (cpu_push c x s)"
  shows "free_ok s' S (A - {x}) c (x # F) L"
proof -
  let ?k = "kcaches s c"
  note D = free_okD [OF ok]
  note good = D(1)
  have sep: "x \<notin> objs ?k q" if "q \<noteq> p" for q using objs_same [OF good good p(2), of q] that by blast
  note P = page_okD [OF D(6) [OF p(1)]]
  have out: "x \<notin> set F" "x \<notin> set (L p)" using P(6) p(2) x by auto
  have k': "kcaches s' c = ?k\<lparr>cpu_freelist := x, freelist_count := freelist_count ?k + 1\<rparr>"
    and m': "omem s' = (omem s)(x := cpu_freelist ?k)"
    and sl': "slabs s' = (slabs s)(p := (slabs s p)\<lparr>inuse := inuse (slabs s p) - 1\<rparr>)"
    by (simp_all add: s' cpu_push_def Let_def)
  have "page_ok s' (A - {x}) (kcaches s' c) (x # F) q (L q)" if q: "q \<in> S" for q
  proof (cases "q = p")
    case True
    have A: "(A - {x}) \<inter> objs ?k p = A \<inter> objs ?k p - {x}" by auto
    have fin: "finite (A \<inter> objs ?k p)" using card_objs(2) [OF good] by auto
    obtain n where n: "card (A \<inter> objs ?k p) = Suc n" "card (A \<inter> objs ?k p - {x}) = n"
      using x p(2) fin by (metis IntI card_Suc_Diff1)
    have "inuse (slabs s' p) = of_nat (card ((A - {x}) \<inter> objs ?k p))"
      using P(7) by (simp add: A n sl')
    moreover have "(A - {x}) \<inter> objs ?k p = objs ?k p - set (x # F) - set (L p)" using P(6) by auto
    ultimately show ?thesis using P(1-5) out by (simp add: page_ok_def True k' m') (simp add: sl')
  next
    case False
    show ?thesis
      by (rule page_ok_cong [OF D(6) [OF q]]) (use False sep [OF False] in \<open>auto simp: k' m' sl'\<close>)
  qed
  moreover have "x \<noteq> 0" using object_fits(4) [OF good p(2)] .
  ultimately show ?thesis using D(1,2,3,4) out p ok by (auto simp: free_ok_def k' m')
qed


text \<open>One round of \<^verbatim>\<open>refill_cpu_freelist\<close>: an object moves from its page to the processor.\<close>

lemma move_to_cpu:
  assumes ok: "free_ok s S A c F L" and p: "p \<in> S" and L: "L p = x # l"
    and s': "s' = cpu_push c x (upd_slab p (\<lambda>g. g\<lparr>pg_freelist := omem s x\<rparr>) s)"
  shows "free_ok s' S A c (x # F) (L(p := l))"
proof -
  let ?k = "kcaches s c"
  note D = free_okD [OF ok]
  note good = D(1)
  note P = page_okD [OF D(6) [OF p], unfolded L]
  have x: "x \<in> objs ?k p" "x \<notin> set F" "x \<notin> set l" "x \<noteq> 0" using P(2-5) by auto
  have sep: "x \<notin> objs ?k q" if "q \<noteq> p" for q using objs_same [OF good good x(1), of q] that by blast
  have k': "kcaches s' c = ?k\<lparr>cpu_freelist := x, freelist_count := freelist_count ?k + 1\<rparr>"
    and m': "omem s' = (omem s)(x := cpu_freelist ?k)"
    and sl': "slabs s' = (slabs s)(p := (slabs s p)\<lparr>pg_freelist := omem s x\<rparr>)"
    by (simp_all add: s' cpu_push_def Let_def)
  have "page_ok s' A (kcaches s' c) (x # F) q ((L(p := l)) q)" if q: "q \<in> S" for q
  proof (cases "q = p")
    case True
    have "A \<inter> objs ?k p = objs ?k p - set (x # F) - set l" using P(6) by auto
    then show ?thesis using P x(2,3) by (simp add: page_ok_def True k' m') (auto simp: sl')
  next
    case False
    show ?thesis unfolding fun_upd_other [OF False]
      by (rule page_ok_cong [OF D(6) [OF q]]) (use False sep [OF False] in \<open>auto simp: k' m' sl'\<close>)
  qed
  then show ?thesis using D(1,2,3,4) x p ok by (auto simp: free_ok_def k' m')
qed

text \<open>One round of \<^verbatim>\<open>flush_cpu_freelist\<close>, without the partial list: the other way.\<close>

lemma move_to_page:
  assumes ok: "free_ok s S A c (x # F) L" and p: "p \<in> S" "x \<in> objs (kcaches s c) p"
    and s': "s' = upd_slab p (\<lambda>g. g\<lparr>pg_freelist := x\<rparr>) (store x (pg_freelist (slabs s p)) (snd (cpu_pop c s)))"
  shows "free_ok s' S A c F (L(p := x # L p))"
proof -
  let ?k = "kcaches s c"
  note D = free_okD [OF ok]
  note good = D(1)
  note P = page_okD [OF D(6) [OF p(1)]]
  have x: "x \<notin> set F" "x \<notin> set (L p)" "x \<noteq> 0" using D(4) P(5) object_fits(4) [OF good p(2)] by auto
  have hd: "cpu_freelist ?k = x" and ch: "obj_chain (omem s) (omem s x) F" using D(2) by auto
  have sep: "x \<notin> objs ?k q" if "q \<noteq> p" for q using objs_same [OF good good p(2), of q] that by blast
  have k': "kcaches s' c = ?k\<lparr>cpu_freelist := omem s x, freelist_count := freelist_count ?k - 1\<rparr>"
    and m': "omem s' = (omem s)(x := pg_freelist (slabs s p))"
    and sl': "slabs s' = (slabs s)(p := (slabs s p)\<lparr>pg_freelist := x\<rparr>)"
    by (simp_all add: s' cpu_pop_def Let_def hd)
  have "page_ok s' A (kcaches s' c) F q ((L(p := x # L p)) q)" if q: "q \<in> S" for q
  proof (cases "q = p")
    case True
    have "A \<inter> objs ?k p = objs ?k p - set F - set (x # L p)" using P(6) by auto
    then show ?thesis using P x p(2) by (simp add: page_ok_def True k' m') (auto simp: sl')
  next
    case False
    show ?thesis unfolding fun_upd_other [OF False]
      by (rule page_ok_cong [OF D(6) [OF q]]) (use False sep [OF False] in \<open>auto simp: k' m' sl'\<close>)
  qed
  moreover have "set F \<subseteq> (\<Union>q\<in>S. objs ?k q)" using ok by (auto simp: free_ok_def)
  ultimately show ?thesis using D(1,3,4) ch x by (simp add: free_ok_def k' m')
qed

section \<open>One cache: the partial list\<close>

definition part_ok :: "slub \<Rightarrow> nat set \<Rightarrow> nat \<Rightarrow> (nat \<Rightarrow> bool) \<Rightarrow> nat list \<Rightarrow> bool" where
  "part_ok s S c has P \<longleftrightarrow>
     ring (slinks s) (Partial c) (map Slab_link P) \<and> nr_partial (kcaches s c) = of_nat (length P) \<and>
     (\<forall>p. p \<in> set P \<longleftrightarrow> p \<in> S \<and> has p \<and> cpu_page (kcaches s c) \<noteq> Some p) \<and>
     (\<forall>p\<in>S. lnext (slinks s) (Slab_link p) \<noteq> Null_link \<longleftrightarrow> p \<in> set P) \<and>
     (\<forall>p. cpu_page (kcaches s c) = Some p \<longrightarrow> p \<in> S)"

lemma part_ok_cong:
  assumes "part_ok s S c has P" and "slinks s' = slinks s"
    and "nr_partial (kcaches s' c) = nr_partial (kcaches s c)" "cpu_page (kcaches s' c) = cpu_page (kcaches s c)"
    and "\<And>p. p \<in> S \<Longrightarrow> cpu_page (kcaches s c) \<noteq> Some p \<Longrightarrow> has' p \<longleftrightarrow> has p"
  shows "part_ok s' S c has' P"
  using assms unfolding part_ok_def by auto

lemma inj_links [simp]: "inj Slab_link" "inj_on Slab_link X"
  by (auto simp: inj_on_def)

lemma Slab_link_image [simp]: "Slab_link p \<in> Slab_link ` X \<longleftrightarrow> p \<in> X" "Partial c \<notin> Slab_link ` X" "Null_link \<notin> Slab_link ` X"
  by auto

lemma part_add:
  assumes ok: "part_ok s S c has P" and p: "p \<in> S" "cpu_page (kcaches s c) \<noteq> Some p" and has': "has' = (\<lambda>q. q = p \<or> has q)"
  shows "\<exists>P'. part_ok (add_partial c p s) S c has' P'"
proof (cases "p \<in> set P")
  case True
  then have "add_partial c p s = s" using ok p by (auto simp: add_partial_def page_on_partial_def part_ok_def list_next_def)
  moreover have "has p" using True ok by (auto simp: part_ok_def)
  then have "has' = has" by (auto simp: has')
  ultimately show ?thesis using ok by auto
next
  case False
  let ?s = "add_partial c p s"
  have ring: "ring (slinks s) (Partial c) (map Slab_link P)" using ok by (simp add: part_ok_def)
  have sl: "slinks ?s = list_add_after (slinks s) (Partial c) (Slab_link p)"
    and k: "kcaches ?s c = (kcaches s c)\<lparr>nr_partial := nr_partial (kcaches s c) + 1\<rparr>"
    using False ok p by (auto simp: add_partial_def page_on_partial_def part_ok_def list_next_def list_add_def)
  have ring': "ring (slinks ?s) (Partial c) (map Slab_link (p # P))"
    using ring_add_after_head [OF ring, of "Slab_link p"] False by (simp add: sl)
  have nx: "lnext (slinks ?s) (Slab_link q) = lnext (slinks s) (Slab_link q)" if "q \<noteq> p" for q
    using that by (simp add: sl list_add_after_def link_between_def Let_def)
  have nn: "lnext (slinks s) (Partial c) \<noteq> Null_link"
    using ring_closed(1) [OF ring, of "Partial c"] by auto
  have np: "lnext (slinks ?s) (Slab_link p) \<noteq> Null_link"
    using nn by (simp add: sl list_add_after_def link_between_def Let_def)
  have cv: "\<forall>q\<in>S. lnext (slinks ?s) (Slab_link q) \<noteq> Null_link \<longleftrightarrow> q \<in> set (p # P)"
  proof
    fix q assume q: "q \<in> S"
    show "lnext (slinks ?s) (Slab_link q) \<noteq> Null_link \<longleftrightarrow> q \<in> set (p # P)"
      using nx [of q] np ok q by (cases "q = p") (auto simp: part_ok_def)
  qed
  have mem: "\<forall>q. q \<in> set (p # P) \<longleftrightarrow> q \<in> S \<and> has' q \<and> cpu_page (kcaches ?s c) \<noteq> Some q"
    using ok p by (auto simp: part_ok_def has' k)
  have nr: "nr_partial (kcaches ?s c) = of_nat (length (p # P))" using ok by (simp add: k part_ok_def)
  have "part_ok ?s S c has' (p # P)"
    unfolding part_ok_def using ring' cv mem nr ok by (simp add: k part_ok_def)
  then show ?thesis ..
qed

text \<open>A page of the list becomes the page of the processor, when that has none with free objects.\<close>

lemma part_remove:
  assumes ok: "part_ok s S c has (p # P)" and none: "\<And>q. cpu_page (kcaches s c) = Some q \<Longrightarrow> \<not> has q"
    and s': "s' = upd_cache c (\<lambda>k. k\<lparr>cpu_page := Some p\<rparr>) (remove_partial c p s)"
  shows "part_ok s' S c has P" and "le2slab (list_next (slinks s) (Partial c)) = p" and "p \<in> S" and "has p"
proof -
  have ring: "ring (slinks s) (Partial c) (map Slab_link (p # P))" using ok by (simp add: part_ok_def)
  then show "le2slab (list_next (slinks s) (Partial c)) = p" by (simp add: list_next_def ring_next_head)
  have mem: "q \<in> set (p # P) \<longleftrightarrow> q \<in> S \<and> has q \<and> cpu_page (kcaches s c) \<noteq> Some q" for q
    using ok by (auto simp: part_ok_def)
  show pS: "p \<in> S" and hp: "has p" using mem [of p] by auto
  let ?h = "list_del (slinks s) (Slab_link p)"
  have sl: "slinks s' = set_prev (set_next ?h (Slab_link p) Null_link) (Slab_link p) Null_link"
    and k: "kcaches s' c = (kcaches s c)\<lparr>nr_partial := nr_partial (kcaches s c) - 1, cpu_page := Some p\<rparr>"
    using pS ok by (simp_all add: s' remove_partial_def page_on_partial_def part_ok_def list_next_def Let_def)
  have dist: "p \<notin> set P" using ring_distinct [OF ring] by (auto simp: distinct_map)
  have "ring ?h (Partial c) (map Slab_link P)"
    using ring_list_del [of "slinks s" "Partial c" "[]" "Slab_link p" "map Slab_link P"] ring by simp
  then have ring': "ring (slinks s') (Partial c) (map Slab_link P)"
    unfolding sl by (subst ring_cong [where h = ?h]) (use dist in auto)
  have pv: "lprev (slinks s) (Slab_link p) = Partial c"
    using ring_prev [of "slinks s" "Partial c" "[]" "Slab_link p" "map Slab_link P"] ring by simp
  have nx: "lnext (slinks s') (Slab_link q) = (if q = p then Null_link else lnext (slinks s) (Slab_link q))" for q
    by (auto simp: sl list_del_def unlink_between_def pv)
  have "\<forall>q\<in>S. lnext (slinks s') (Slab_link q) \<noteq> Null_link \<longleftrightarrow> q \<in> set P"
    using ok dist by (auto simp: nx part_ok_def)
  moreover have "\<forall>q. q \<in> set P \<longleftrightarrow> q \<in> S \<and> has q \<and> cpu_page (kcaches s' c) \<noteq> Some q"
  proof
    fix q
    show "q \<in> set P \<longleftrightarrow> q \<in> S \<and> has q \<and> cpu_page (kcaches s' c) \<noteq> Some q"
      using mem [of q] none [of q] dist by (auto simp: k)
  qed
  moreover have "nr_partial (kcaches s' c) = of_nat (length P)" using ok by (simp add: k part_ok_def)
  ultimately show "part_ok s' S c has P" using ring' pS by (simp add: part_ok_def k)
qed

section \<open>One cache: the operations\<close>

definition cache_ok :: "slub \<Rightarrow> nat set \<Rightarrow> nat set \<Rightarrow> nat \<Rightarrow> nat list \<Rightarrow> (nat \<Rightarrow> nat list) \<Rightarrow> nat list \<Rightarrow> bool" where
  "cache_ok s S A c F L P \<longleftrightarrow> free_ok s S A c F L \<and> part_ok s S c (\<lambda>p. L p \<noteq> []) P \<and> length F \<le> 32"

text \<open>What an operation on the cache \<open>c\<close>, with the slabs \<open>S\<close>, leaves alone: the other caches and their slabs \<open>T\<close>.\<close>

definition elsewhere :: "nat set \<Rightarrow> nat set \<Rightarrow> nat \<Rightarrow> slub \<Rightarrow> slub \<Rightarrow> bool" where
  "elsewhere S T c s s' \<longleftrightarrow>
     (\<forall>d. d \<noteq> c \<longrightarrow> kcaches s' d = kcaches s d \<and> lnext (slinks s') (Partial d) = lnext (slinks s) (Partial d) \<and>
        lprev (slinks s') (Partial d) = lprev (slinks s) (Partial d)) \<and>
     (\<forall>p\<in>T. slabs s' p = slabs s p \<and> lnext (slinks s') (Slab_link p) = lnext (slinks s) (Slab_link p) \<and>
        lprev (slinks s') (Slab_link p) = lprev (slinks s) (Slab_link p) \<and> (\<forall>a\<in>bytes p. omem s' a = omem s a)) \<and>
     (\<forall>p\<in>S. slab_cache (slabs s' p) = slab_cache (slabs s p)) \<and>
     kc_size (kcaches s' c) = kc_size (kcaches s c) \<and> objects_per_slab (kcaches s' c) = objects_per_slab (kcaches s c) \<and>
     slub_caches s' = slub_caches s \<and> slub_initialized s' = slub_initialized s \<and> npages s' = npages s"

lemma elsewhere_refl [simp]: "elsewhere S T c s s"
  by (simp add: elsewhere_def)

lemma elsewhere_trans [trans]: "\<lbrakk> elsewhere S T c s s1; elsewhere S T c s1 s2 \<rbrakk> \<Longrightarrow> elsewhere S T c s s2"
  unfolding elsewhere_def by auto

lemma elsewhere_cache:
  "\<lbrakk> \<And>k. kc_size (f k) = kc_size k; \<And>k. objects_per_slab (f k) = objects_per_slab k \<rbrakk> \<Longrightarrow> elsewhere S T c s (upd_cache c f s)"
  by (simp add: elsewhere_def)

lemma elsewhere_upd:
  "\<lbrakk> elsewhere S T c s s'; \<And>k. kc_size (f k) = kc_size k; \<And>k. objects_per_slab (f k) = objects_per_slab k \<rbrakk> \<Longrightarrow>
     elsewhere S T c s (upd_cache c f s')"
  by (rule elsewhere_trans [OF _ elsewhere_cache])

lemma elsewhere_slab: "\<lbrakk> p \<notin> T; \<And>g. slab_cache (f g) = slab_cache g \<rbrakk> \<Longrightarrow> elsewhere S T c s (upd_slab p f s)"
  by (auto simp: elsewhere_def)

lemma elsewhere_store: "\<lbrakk> a \<in> bytes p; p \<notin> T \<rbrakk> \<Longrightarrow> elsewhere S T c s (store a v s)"
  using bytes_disjoint by (fastforce simp: elsewhere_def)

lemma elsewhere_pop: "elsewhere S T c s (snd (cpu_pop c s))"
  by (simp add: cpu_pop_def Let_def elsewhere_cache)

lemma elsewhere_push: "\<lbrakk> a \<in> bytes p; p \<notin> T \<rbrakk> \<Longrightarrow> elsewhere S T c s (cpu_push c a s)"
  unfolding cpu_push_def Let_def by (rule elsewhere_trans [OF elsewhere_store elsewhere_cache]) auto

lemma links_elsewhere:
  assumes "\<And>x. x \<notin> insert (Partial c) (Slab_link ` S) \<Longrightarrow> lnext h x = lnext (slinks s) x \<and> lprev h x = lprev (slinks s) x"
    and "S \<inter> T = {}"
  shows "elsewhere S T c s (s\<lparr>slinks := h\<rparr>)"
  using assms unfolding elsewhere_def by auto

lemma part_nodes: "part_ok s S c has P \<Longrightarrow> set (Partial c # map Slab_link P) \<subseteq> insert (Partial c) (Slab_link ` S)"
  by (auto simp: part_ok_def)

lemma elsewhere_add_partial:
  assumes ok: "part_ok s S c has P" and p: "p \<in> S" and T: "S \<inter> T = {}"
  shows "elsewhere S T c s (add_partial c p s)" and "pm (add_partial c p s) = pm s"
    and "slabs (add_partial c p s) = slabs s" and "omem (add_partial c p s) = omem s"
    and "objs (kcaches (add_partial c p s) c) = objs (kcaches s c)"
proof -
  have ring: "ring (slinks s) (Partial c) (map Slab_link P)" using ok by (simp add: part_ok_def)
  have "lnext (slinks s) (Partial c) \<in> insert (Partial c) (Slab_link ` S)"
    using ring_closed(1) [OF ring, of "Partial c"] part_nodes [OF ok] by auto
  then have "elsewhere S T c s (s\<lparr>slinks := list_add (slinks s) (Partial c) (Slab_link p)\<rparr>)"
    using p by (intro links_elsewhere T) (auto simp: list_add_def list_add_after_def link_between_def Let_def)
  then show "elsewhere S T c s (add_partial c p s)"
    unfolding add_partial_def by (auto intro: elsewhere_upd)
qed (simp_all add: add_partial_def)

lemma elsewhere_remove_partial:
  assumes ok: "part_ok s S c has P" and p: "p \<in> set P" and T: "S \<inter> T = {}"
  shows "elsewhere S T c s (remove_partial c p s)" and "pm (remove_partial c p s) = pm s"
    and "slabs (remove_partial c p s) = slabs s" and "omem (remove_partial c p s) = omem s"
    and "objs (kcaches (remove_partial c p s) c) = objs (kcaches s c)"
proof -
  have ring: "ring (slinks s) (Partial c) (map Slab_link P)" using ok by (simp add: part_ok_def)
  have n: "lnext (slinks s) (Slab_link p) \<in> insert (Partial c) (Slab_link ` S)"
    "lprev (slinks s) (Slab_link p) \<in> insert (Partial c) (Slab_link ` S)"
    using ring_closed [OF ring, of "Slab_link p"] part_nodes [OF ok] p by auto
  let ?h = "set_prev (set_next (list_del (slinks s) (Slab_link p)) (Slab_link p) Null_link) (Slab_link p) Null_link"
  have pS: "p \<in> S" using p ok by (auto simp: part_ok_def)
  have "elsewhere S T c s (s\<lparr>slinks := ?h\<rparr>)"
    using n pS by (intro links_elsewhere T) (auto simp: list_del_def unlink_between_def)
  then show "elsewhere S T c s (remove_partial c p s)"
    unfolding remove_partial_def by (auto simp: Let_def intro: elsewhere_upd)
qed (simp_all add: remove_partial_def Let_def)

lemma cache_ok_elsewhere:
  assumes ok: "cache_ok s U A d F L P" and e: "elsewhere S T c s s'" and d: "d \<noteq> c" "U \<subseteq> T"
    and A: "\<And>p. p \<in> U \<Longrightarrow> A' \<inter> bytes p = A \<inter> bytes p"
  shows "cache_ok s' U A' d F L P"
proof -
  have f: "free_ok s U A d F L" and g: "part_ok s U d (\<lambda>p. L p \<noteq> []) P" and n: "length F \<le> 32"
    using ok by (simp_all add: cache_ok_def)
  note D = free_okD [OF f]
  have k: "kcaches s' d = kcaches s d" using e d by (simp add: elsewhere_def)
  have sl: "slabs s' p = slabs s p" and m: "a \<in> bytes p \<Longrightarrow> omem s' a = omem s a" if "p \<in> U" for p a
    using that e d by (auto simp: elsewhere_def)
  have "page_ok s' A' (kcaches s d) F p (L p)" if p: "p \<in> U" for p
  proof (rule page_ok_cong [OF D(6) [OF p] sl [OF p]])
    show "omem s' a = omem s a" if "a \<in> objs (kcaches s d) p" for a
      using m [OF p] object_fits(3) [OF D(1) that] by blast
    show "A' \<inter> objs (kcaches s d) p = A \<inter> objs (kcaches s d) p"
      using A [OF p] object_fits(3) [OF D(1)] by blast
  qed auto
  moreover have "obj_chain (omem s') (cpu_freelist (kcaches s d)) F"
    by (subst obj_chain_cong [where m = "omem s"]) (use D(2) D(5) m object_fits(3) [OF D(1)] in blast)+
  ultimately have f': "free_ok s' U A' d F L" using f by (auto simp: free_ok_def k)
  have "ring (slinks s') (Partial d) (map Slab_link P) \<longleftrightarrow> ring (slinks s) (Partial d) (map Slab_link P)"
    using part_nodes [OF g] e d by (intro ring_cong) (auto simp: elsewhere_def part_ok_def)
  moreover have "lnext (slinks s') (Slab_link p) = lnext (slinks s) (Slab_link p)" if "p \<in> U" for p
    using that e d by (auto simp: elsewhere_def)
  ultimately have "part_ok s' U d (\<lambda>p. L p \<noteq> []) P" using g by (simp add: part_ok_def k)
  with f' n show ?thesis by (simp add: cache_ok_def)
qed


lemma free_ok_cong:
  assumes "free_ok s S A c F L" and "omem s' = omem s" "slabs s' = slabs s"
    and "kc_size (kcaches s' c) = kc_size (kcaches s c)" "objects_per_slab (kcaches s' c) = objects_per_slab (kcaches s c)"
    and "cpu_freelist (kcaches s' c) = cpu_freelist (kcaches s c)" "freelist_count (kcaches s' c) = freelist_count (kcaches s c)"
  shows "free_ok s' S A c F L"
proof -
  have o: "objs (kcaches s' c) = objs (kcaches s c)" using assms(4,5) by (auto simp: objs_def)
  have "good_cache (kcaches s' c) = good_cache (kcaches s c)" using assms(4,5) by (simp add: good_cache_def)
  with assms(1) show ?thesis by (simp add: free_ok_def page_ok_def o assms)
qed

lemma free_add_partial: "free_ok s S A c F L \<Longrightarrow> free_ok (add_partial c p s) S A c F L"
  by (erule free_ok_cong) (auto simp: add_partial_def)

lemma cpu_lists_upd [simp]:
  "slinks (snd (cpu_pop c s)) = slinks s" "slabs (snd (cpu_pop c s)) = slabs s" "pm (snd (cpu_pop c s)) = pm s"
  "omem (snd (cpu_pop c s)) = omem s" "nr_partial (kcaches (snd (cpu_pop c s)) c) = nr_partial (kcaches s c)"
  "cpu_page (kcaches (snd (cpu_pop c s)) c) = cpu_page (kcaches s c)"
  "slinks (cpu_push c a s) = slinks s" "slabs (cpu_push c a s) = slabs s" "pm (cpu_push c a s) = pm s"
  "nr_partial (kcaches (cpu_push c a s) c) = nr_partial (kcaches s c)"
  "cpu_page (kcaches (cpu_push c a s) c) = cpu_page (kcaches s c)"
  by (simp_all add: cpu_pop_def cpu_push_def Let_def)

lemma free_head:
  assumes "free_ok s S A c (x # F) L" and "\<forall>p\<in>S. 512 \<le> p"
  obtains p where "p \<in> S" "x \<in> objs (kcaches s c) p" "virt_to_page x = Some (Some p)" "fst (cpu_pop c s) = x" "x \<noteq> 0" "x \<in> bytes p"
proof -
  note D = free_okD [OF assms(1)]
  obtain p where p: "p \<in> S" "x \<in> objs (kcaches s c) p" using D(5) [of x] by auto
  moreover have "fst (cpu_pop c s) = x" using D(2) by (simp add: cpu_pop_def Let_def)
  moreover have b: "x \<in> bytes p" "x \<noteq> 0" using object_fits [OF D(1) p(2)] by auto
  moreover have "virt_to_page x = Some (Some p)" using virt_to_page_bytes [OF _ b(1)] assms(2) p(1) by blast
  ultimately show thesis using that by blast
qed

lemma inuse_room:
  assumes "free_ok s S A c F L" and "p \<in> S" "x \<in> objs (kcaches s c) p" "x \<notin> A"
  shows "inuse (slabs s p) < objects (slabs s p)"
proof -
  note D = free_okD [OF assms(1)]
  note P = page_okD [OF D(6) [OF assms(2)]]
  have fin: "finite (objs (kcaches s c) p)" using card_objs(2) [OF D(1)] .
  have lt: "card (A \<inter> objs (kcaches s c) p) < card (objs (kcaches s c) p)"
    by (rule psubset_card_mono [OF fin]) (use assms(3,4) in blast)
  have "unat (objects_per_slab (kcaches s c)) * 8 \<le> unat (objects_per_slab (kcaches s c)) * kc_size (kcaches s c)"
    using D(1) by (intro mult_le_mono2) (simp add: good_cache_def)
  moreover have "unat (objects_per_slab (kcaches s c)) * kc_size (kcaches s c) \<le> 4096"
    using D(1) by (simp add: good_cache_def)
  ultimately have "unat (objects_per_slab (kcaches s c)) \<le> 4096" by linarith
  with lt have "unat (inuse (slabs s p)) < unat (objects (slabs s p))"
    unfolding P(1,7) card_objs(1) [OF D(1)] by simp
  then show ?thesis by (simp add: word_less_nat_alt)
qed

lemma return_object_ok:
  assumes ok: "free_ok s S A c (x # F) L" and part: "part_ok s S c (\<lambda>p. L p \<noteq> []) P"
    and S: "\<forall>p\<in>S. 512 \<le> p" and T: "S \<inter> T = {}"
  obtains s' p P' where "return_object c s = Some s'" "free_ok s' S A c F (L(p := x # L p))"
    "part_ok s' S c (\<lambda>q. (L(p := x # L p)) q \<noteq> []) P'" "elsewhere S T c s s'" "pm s' = pm s"
proof -
  obtain p where p: "p \<in> S" "x \<in> objs (kcaches s c) p" "virt_to_page x = Some (Some p)" "fst (cpu_pop c s) = x"
    "x \<noteq> 0" "x \<in> bytes p" by (rule free_head [OF ok S])
  let ?s1 = "upd_slab p (\<lambda>g. g\<lparr>pg_freelist := x\<rparr>) (store x (pg_freelist (slabs s p)) (snd (cpu_pop c s)))"
  let ?L = "L(p := x # L p)"
  have pT: "p \<notin> T" using p(1) T by blast
  have free1: "free_ok ?s1 S A c F ?L" by (rule move_to_page [OF ok p(1,2) refl])
  have e1: "elsewhere S T c s ?s1"
    by (rule elsewhere_trans [OF elsewhere_trans [OF elsewhere_pop elsewhere_store [OF p(6) pT]] elsewhere_slab [OF pT]]) simp
  have x: "x \<notin> A" using take_object(2) [OF ok p(1,2) refl] .
  have k1: "objs (kcaches ?s1 c) = objs (kcaches s c)" by (simp add: cpu_pop_def Let_def)
  have room: "inuse (slabs ?s1 p) < objects (slabs ?s1 p)" using inuse_room [OF free1 p(1) _ x] p(2) k1 by simp
  have run: "return_object c s = Some (if cpu_page (kcaches s c) \<noteq> Some p then add_partial c p ?s1 else ?s1)"
    using room p(3,4) by (simp add: return_object_def case_prod_beta Let_def)
  have cong: "part_ok ?s1 S c has P" if "\<And>q. \<lbrakk> q \<in> S; cpu_page (kcaches s c) \<noteq> Some q \<rbrakk> \<Longrightarrow> has q \<longleftrightarrow> L q \<noteq> []" for has
    by (rule part_ok_cong [OF part]) (use that in auto)
  show thesis
  proof (cases "cpu_page (kcaches s c) = Some p")
    case True
    show thesis
    proof (rule that [of ?s1 p P])
      show "part_ok ?s1 S c (\<lambda>q. ?L q \<noteq> []) P" by (rule cong) (use True in auto)
    qed (use run True free1 e1 in simp_all)
  next
    case False
    let ?s = "add_partial c p ?s1"
    have part1: "part_ok ?s1 S c (\<lambda>q. L q \<noteq> []) P" by (rule cong) simp
    obtain P' where "part_ok ?s S c (\<lambda>q. q = p \<or> L q \<noteq> []) P'"
      using part_add [OF part1 p(1) _ refl] False by auto
    moreover have "(\<lambda>q. q = p \<or> L q \<noteq> []) = (\<lambda>q. ?L q \<noteq> [])" by auto
    ultimately have "part_ok ?s S c (\<lambda>q. ?L q \<noteq> []) P'" by simp
    moreover have "elsewhere S T c s ?s"
      by (rule elsewhere_trans [OF e1 elsewhere_add_partial(1) [OF part1 p(1) T]])
    moreover have "pm ?s = pm s" using elsewhere_add_partial(2) [OF part1 p(1) T] by simp
    ultimately show thesis
      using that [of ?s p P'] free_add_partial [OF free1] run False by (simp del: fun_upd_apply)
  qed
qed

lemma flush_ok:
  assumes "free_ok s S A c F L" and "part_ok s S c (\<lambda>p. L p \<noteq> []) P" and S: "\<forall>p\<in>S. 512 \<le> p" and T: "S \<inter> T = {}"
    and "length F \<le> 4096"
  shows "\<exists>s' F' L' P'. flush_cpu_freelist c s = Some s' \<and> free_ok s' S A c F' L' \<and>
    part_ok s' S c (\<lambda>p. L' p \<noteq> []) P' \<and> length F' \<le> 32 \<and> elsewhere S T c s s' \<and> pm s' = pm s"
  using assms(1,2,5)
proof (induction F arbitrary: s L P)
  case Nil
  then have "cpu_freelist (kcaches s c) = 0" by (simp add: free_ok_def)
  then have "flush_cpu_freelist c s = Some s" by (simp add: flush_cpu_freelist.simps)
  with Nil show ?case by (auto intro!: exI)
next
  case (Cons x F)
  note D = free_okD [OF Cons.prems(1)]
  have big: "freelist_count (kcaches s c) > SLUB_CPU_LIMIT \<longleftrightarrow> length (x # F) > 32"
    unfolding D(3) using Cons.prems(3) by (simp add: SLUB_CPU_LIMIT_def word_less_nat_alt u32_count [of "length (x # F)", simplified])
  show ?case
  proof (cases "length (x # F) > 32")
    case False
    with big have "flush_cpu_freelist c s = Some s" by (simp add: flush_cpu_freelist.simps)
    with Cons.prems False show ?thesis by (intro exI [of _ s] exI [of _ "x # F"] exI [of _ L] exI [of _ P]) auto
  next
    case True
    obtain s1 p P1 where r: "return_object c s = Some s1" "free_ok s1 S A c F (L(p := x # L p))"
      "part_ok s1 S c (\<lambda>q. (L(p := x # L p)) q \<noteq> []) P1" "elsewhere S T c s s1" "pm s1 = pm s"
      by (rule return_object_ok [OF Cons.prems(1,2) S T])
    have "flush_cpu_freelist c s = flush_cpu_freelist c s1"
      using True big D(2) r(1) by (subst flush_cpu_freelist.simps) simp
    moreover have "length F \<le> 4096" using Cons.prems(3) by simp
    then obtain s' F' L' P' where "flush_cpu_freelist c s1 = Some s'" "free_ok s' S A c F' L'"
      "part_ok s' S c (\<lambda>p. L' p \<noteq> []) P'" "length F' \<le> 32" "elsewhere S T c s1 s'" "pm s' = pm s1"
      using Cons.IH [OF r(2,3)] by blast
    ultimately show ?thesis using r(5) elsewhere_trans [OF r(4)] by metis
  qed
qed

lemma refill_objects_ok:
  assumes "free_ok s S A c F L" and "p \<in> S" and T: "p \<notin> T"
  shows "free_ok (refill_objects n c p s) S A c (rev (take n (L p)) @ F) (L(p := drop n (L p)))
    \<and> elsewhere S T c s (refill_objects n c p s) \<and> slinks (refill_objects n c p s) = slinks s
    \<and> pm (refill_objects n c p s) = pm s \<and> cpu_page (kcaches (refill_objects n c p s) c) = cpu_page (kcaches s c)
    \<and> nr_partial (kcaches (refill_objects n c p s) c) = nr_partial (kcaches s c)"
  using assms(1)
proof (induction n arbitrary: s F L)
  case 0
  then show ?case by simp
next
  case (Suc n)
  note D = free_okD [OF Suc.prems]
  note P = page_okD [OF D(6) [OF assms(2)]]
  show ?case
  proof (cases "L p")
    case Nil
    then have "pg_freelist (slabs s p) = 0" using P(2) by simp
    then show ?thesis using Nil Suc.prems by (simp add: fun_upd_idem)
  next
    case (Cons x l)
    let ?s = "cpu_push c x (upd_slab p (\<lambda>g. g\<lparr>pg_freelist := omem s x\<rparr>) s)"
    have hd: "pg_freelist (slabs s p) = x" "x \<noteq> 0" using P(2) Cons by auto
    have x: "x \<in> bytes p" using object_fits(3) [OF D(1), of x p] P(4) Cons by auto
    have ok: "free_ok ?s S A c (x # F) (L(p := l))" by (rule move_to_cpu [OF Suc.prems assms(2) Cons refl])
    have e: "elsewhere S T c s ?s"
      by (rule elsewhere_trans [OF elsewhere_slab [OF T] elsewhere_push [OF x T]]) simp
    have run: "refill_objects (Suc n) c p s = refill_objects n c p ?s" using hd by (simp add: Let_def)
    show ?thesis unfolding run using Suc.IH [OF ok] elsewhere_trans [OF e] Cons by (auto simp del: fun_upd_apply simp: fun_upd_same)
  qed
qed


section \<open>New slabs\<close>

lemma link_objects_frame [simp]:
  "pm (link_objects sz cur k s) = pm s" "slabs (link_objects sz cur k s) = slabs s" "slinks (link_objects sz cur k s) = slinks s"
  "kcaches (link_objects sz cur k s) = kcaches s" "slub_caches (link_objects sz cur k s) = slub_caches s"
  "slub_initialized (link_objects sz cur k s) = slub_initialized s" "npages (link_objects sz cur k s) = npages s"
  by (induction sz cur k s rule: link_objects.induct) auto

lemma link_objects_other: "\<forall>i\<le>k. a \<noteq> cur + i * sz \<Longrightarrow> omem (link_objects sz cur k s) a = omem s a"
proof (induction k arbitrary: cur s)
  case 0
  then show ?case by auto
next
  case (Suc k)
  have "a \<noteq> cur" using Suc.prems by (auto dest: spec [of _ 0])
  moreover have "\<forall>i\<le>k. a \<noteq> (cur + sz) + i * sz"
  proof (intro allI impI)
    fix i assume "i \<le> k"
    then show "a \<noteq> (cur + sz) + i * sz" using Suc.prems spec [of _ "Suc i"] by auto
  qed
  ultimately show ?case using Suc.IH [of "cur + sz" "store cur (cur + sz) s"] by simp
qed

lemma link_objects_linked:
  "\<lbrakk> 0 < sz; 0 < cur \<rbrakk> \<Longrightarrow> obj_chain (omem (link_objects sz cur k s)) cur (map (\<lambda>i. cur + i * sz) [0..<Suc k])"
proof (induction k arbitrary: cur s)
  case 0
  then show ?case by simp
next
  case (Suc k)
  have "map (\<lambda>i. cur + i * sz) [0..<Suc (Suc k)] = cur # map (\<lambda>i. (cur + sz) + i * sz) [0..<Suc k]"
    unfolding upt_conv_Cons [OF zero_less_Suc] map_Suc_upt [symmetric] by (simp add: comp_def algebra_simps)
  moreover have "omem (link_objects sz (cur + sz) k (store cur (cur + sz) s)) cur = cur + sz"
    by (subst link_objects_other) (use Suc.prems in auto)
  ultimately show ?case using Suc.IH [of "cur + sz" "store cur (cur + sz) s"] Suc.prems by (simp del: upt_Suc)
qed

definition slab_flag :: "slub \<Rightarrow> nat \<Rightarrow> bool" where
  "slab_flag s p \<longleftrightarrow> pg_flags (pages (pm s) p) AND PG_slab \<noteq> 0"

lemma no_property_flags [simp]:
  "\<not> PageProperty (pg\<lparr>pg_flags := PG_slab\<rparr>)" "\<not> PageProperty (pg\<lparr>pg_flags := PG_slab OR PG_slab\<rparr>)"
  "\<not> PageProperty (pg\<lparr>pg_flags := 0, pg_property := n, pg_ref := r\<rparr>)"
proof -
  have b: "\<not> bit PG_slab 1" by (simp add: PG_slab_def bit_iff_odd_drop_bit drop_bit_eq_div)
  then show "\<not> PageProperty (pg\<lparr>pg_flags := PG_slab\<rparr>)" "\<not> PageProperty (pg\<lparr>pg_flags := PG_slab OR PG_slab\<rparr>)"
    "\<not> PageProperty (pg\<lparr>pg_flags := 0, pg_property := n, pg_ref := r\<rparr>)"
    by (simp_all add: PageProperty_def PG_property_def)
qed

section \<open>All caches together\<close>

definition own :: "slub \<Rightarrow> nat set \<Rightarrow> nat \<Rightarrow> nat set" where
  "own s Sl c = {p \<in> Sl. slab_cache (slabs s p) = Some c}"

text \<open>The caches are \<open>C\<close>, the slabs \<open>Sl\<close>, and clients hold the objects \<open>A\<close>.\<close>

definition slub_ok :: "(pmm \<Rightarrow> bool) \<Rightarrow> (pmm \<Rightarrow> nat set) \<Rightarrow> slub \<Rightarrow> nat set \<Rightarrow> nat set \<Rightarrow> nat set \<Rightarrow> bool" where
  "slub_ok pm_ok avail s C Sl A \<longleftrightarrow>
     (\<forall>c\<in>C. \<exists>F L P. cache_ok s (own s Sl c) A c F L P) \<and>
     (\<forall>p\<in>Sl. 512 \<le> p \<and> p \<notin> avail (pm s) \<and> slab_flag s p \<and> slab_cache (slabs s p) \<in> Some ` C) \<and>
     (\<forall>x\<in>A. \<exists>c\<in>C. \<exists>p\<in>own s Sl c. x \<in> objs (kcaches s c) p) \<and>
     pm_ok (pm s) \<and> (\<forall>p\<in>avail (pm s). 512 \<le> p)"

text \<open>The tables of \<^verbatim>\<open>slub_init\<close>.\<close>

definition classes_ok :: "slub \<Rightarrow> nat set \<Rightarrow> bool" where
  "classes_ok s C \<longleftrightarrow> slub_initialized s \<and>
     (\<forall>i<length size_table. \<exists>c\<in>C. slub_caches s i = Some c \<and> kc_size (kcaches s c) = size_table ! i)"

text \<open>The bytes a client may use of an object: the size of the objects of its page's cache.\<close>

definition usable :: "slub \<Rightarrow> nat \<Rightarrow> nat" where
  "usable s x = (case virt_to_page x of
     Some (Some p) \<Rightarrow> (case slab_cache (slabs s p) of Some c \<Rightarrow> kc_size (kcaches s c) | None \<Rightarrow> 0)
   | _ \<Rightarrow> 0)"

text \<open>
  The runs of the allocator after \<^verbatim>\<open>slub_init\<close>, with the set of objects that clients hold: calls of \<^verbatim>\<open>kmalloc\<close> and
  \<^verbatim>\<open>kfree\<close>, a client that writes a word inside an object it holds, and the rest of the kernel, which takes and
  gives back pages that are no slabs.
\<close>

inductive slub_run :: "pmm_manager \<Rightarrow> (pmm \<Rightarrow> bool) \<Rightarrow> (pmm \<Rightarrow> nat set) \<Rightarrow> slub \<Rightarrow> nat set \<Rightarrow> bool"
  for mgr and pm_ok and avail where
  start: "\<lbrakk> pm_ok (pm s); \<forall>p\<in>avail (pm s). 512 \<le> p; slub_init mgr s = Some s' \<rbrakk> \<Longrightarrow> slub_run mgr pm_ok avail s' {}"
| alloc: "\<lbrakk> slub_run mgr pm_ok avail s A; sz \<le> 2048; kmalloc mgr sz s = Some (x, s') \<rbrakk> \<Longrightarrow>
     slub_run mgr pm_ok avail s' (if x = 0 then A else insert x A)"
| free: "\<lbrakk> slub_run mgr pm_ok avail s A; x \<in> A; kfree mgr x s = Some s' \<rbrakk> \<Longrightarrow> slub_run mgr pm_ok avail s' (A - {x})"
| poke: "\<lbrakk> slub_run mgr pm_ok avail s A; x \<in> A; x \<le> a; a + 8 \<le> x + usable s x \<rbrakk> \<Longrightarrow> slub_run mgr pm_ok avail (store a v s) A"
| other: "\<lbrakk> slub_run mgr pm_ok avail s A; pm_ok m; \<forall>p\<in>avail m. 512 \<le> p;
     \<forall>p. slab_flag s p \<longrightarrow> p \<notin> avail m \<and> pages m p = pages (pm s) p \<rbrakk> \<Longrightarrow> slub_run mgr pm_ok avail (s\<lparr>pm := m\<rparr>) A"

text \<open>What the page allocator has to promise beyond the blocks themselves.\<close>

locale slab_pages = page_allocator alloc inv avail
  for alloc :: "nat \<Rightarrow> pmm \<Rightarrow> (nat option \<times> pmm) option" and inv and avail +
  assumes alloc_frame: "inv m \<Longrightarrow> 0 < n \<Longrightarrow> alloc n m = Some (r, m') \<Longrightarrow> q \<notin> avail m \<Longrightarrow> pages m' q = pages m q"
    and alloc_one: "inv m \<Longrightarrow> alloc 1 m = Some (None, m') \<Longrightarrow> avail m = {}"
    and upd_keeps: "inv m \<Longrightarrow> p \<notin> avail m \<Longrightarrow> \<not> PageProperty (f (pages m p)) \<Longrightarrow>
          inv (upd_page p f m) \<and> avail (upd_page p f m) = avail m"
begin

text \<open>How the slabs of a cache may grow in an operation.\<close>

definition grown :: "slub \<Rightarrow> slub \<Rightarrow> nat \<Rightarrow> nat set \<Rightarrow> nat set \<Rightarrow> bool" where
  "grown s s' c S S' \<longleftrightarrow> S \<subseteq> S' \<and> S' - S \<subseteq> avail (pm s) \<and> inv (pm s') \<and> avail (pm s') = avail (pm s) - (S' - S) \<and>
     (\<forall>q. q \<notin> avail (pm s) \<longrightarrow> pages (pm s') q = pages (pm s) q) \<and>
     (\<forall>p\<in>S' - S. slab_flag s' p \<and> slab_cache (slabs s' p) = Some c)"

lemma grown_refl: "inv (pm s) \<Longrightarrow> pm s' = pm s \<Longrightarrow> grown s s' c S S"
  by (simp add: grown_def)

lemma grown_later: "\<lbrakk> grown s s1 c S S'; pm s2 = pm s1; elsewhere S' T c s1 s2 \<rbrakk> \<Longrightarrow> grown s s2 c S S'"
  unfolding grown_def elsewhere_def slab_flag_def by auto

lemma alloc_page_cases:
  assumes "inv m"
  obtains (none) "alloc 1 m = Some (None, m)" "avail m = {}"
  | (page) p m' where "alloc 1 m = Some (Some p, m')" "inv m'" "p \<in> avail m" "avail m' = avail m - {p}"
      "\<And>q. q \<notin> avail m \<Longrightarrow> pages m' q = pages m q"
proof -
  obtain r m' where a: "alloc 1 m = Some (r, m')" using alloc_returns [OF assms, of 1] by auto
  show thesis
  proof (cases r)
    case None
    then show thesis using none a alloc_NULL [OF assms, of 1 m'] alloc_one [OF assms] by simp
  next
    case (Some p)
    then show thesis using page [of p m'] a alloc_block [OF assms, of 1 p m'] alloc_frame [OF assms, of 1 r m'] by auto
  qed
qed

lemma elsewhere_links_upd:
  assumes "elsewhere S T c s s'" and "slinks s2 = slinks s'" "kcaches s2 = kcaches s'" "slabs s2 = slabs s'" "omem s2 = omem s'"
    "slub_caches s2 = slub_caches s'" "slub_initialized s2 = slub_initialized s'" "npages s2 = npages s'"
  shows "elsewhere S T c s s2"
  using assms by (simp add: elsewhere_def)

lemma allocate_slab_eq:
  assumes mgr: "pm_alloc mgr = alloc" and a: "alloc 1 (pm s) = Some (Some p, m)"
  obtains s' where "allocate_slab mgr c s = Some (Some p, s')"
    "kcaches s' = (kcaches s)(c := (kcaches s c)\<lparr>active_slabs := active_slabs (kcaches s c) + 1\<rparr>)"
    "slabs s' = (slabs s)(p := \<lparr>slab_cache = Some c, pg_freelist = page_to_virt p, s_mem = page_to_virt p, inuse = 0,
       objects = objects_per_slab (kcaches s c)\<rparr>)"
    "slinks s' = set_next (set_prev (slinks s) (Slab_link p) Null_link) (Slab_link p) Null_link"
    "omem s' = omem (link_objects (kc_size (kcaches s c)) (page_to_virt p) (unat (objects_per_slab (kcaches s c) - 1)) s)"
    "pm s' = upd_page p (\<lambda>pg. pg\<lparr>pg_flags := pg_flags pg OR PG_slab\<rparr>) (upd_page p (\<lambda>pg. pg\<lparr>pg_flags := PG_slab\<rparr>)
       (upd_page p (\<lambda>pg. pg\<lparr>pg_flags := 0, pg_property := 0, pg_ref := 0\<rparr>) m))"
    "slub_caches s' = slub_caches s" "slub_initialized s' = slub_initialized s" "npages s' = npages s"
proof -
  have m: "omem (link_objects sz cur n s1) = omem (link_objects sz cur n s2)" if "omem s1 = omem s2" for sz cur n s1 s2
    using that by (induction n arbitrary: cur s1 s2) auto
  obtain s' where s': "allocate_slab mgr c s = Some (Some p, s')"
    using a by (simp add: allocate_slab_def mgr)
  show thesis
    by (rule that [OF s']) (use s' a in \<open>auto simp: allocate_slab_def mgr init_slab_freelist_def Let_def intro!: m\<close>)
qed

text \<open>A new slab becomes the page of the processor.\<close>

lemma new_slab:
  assumes free: "free_ok s S A c [] L" and part: "part_ok s S c (\<lambda>q. L q \<noteq> []) []" and none: "cpu_page (kcaches s c) = None"
    and mgr: "pm_alloc mgr = alloc" and a: "alloc 1 (pm s) = Some (Some p, m)" and i: "inv (pm s)" "inv m"
    and av: "p \<in> avail (pm s)" "avail m = avail (pm s) - {p}" "\<And>q. q \<notin> avail (pm s) \<Longrightarrow> pages m q = pages (pm s) q"
    and fresh: "p \<notin> S" "p \<notin> T" "A \<inter> bytes p = {}" and ST: "S \<inter> T = {}"
  obtains s1 l where "allocate_slab mgr c s = Some (Some p, s1)"
    and "free_ok (upd_cache c (\<lambda>k. k\<lparr>cpu_page := Some p\<rparr>) s1) (insert p S) A c [] (L(p := l))"
    and "part_ok (upd_cache c (\<lambda>k. k\<lparr>cpu_page := Some p\<rparr>) s1) (insert p S) c (\<lambda>q. (L(p := l)) q \<noteq> []) []"
    and "l \<noteq> []" and "elsewhere S T c s (upd_cache c (\<lambda>k. k\<lparr>cpu_page := Some p\<rparr>) s1)"
    and "grown s (upd_cache c (\<lambda>k. k\<lparr>cpu_page := Some p\<rparr>) s1) c S (insert p S)"
proof -
  let ?k = "kcaches s c"
  let ?n = "unat (objects_per_slab ?k)"
  note D = free_okD [OF free]
  note good = D(1)
  have n: "0 < ?n" "8 \<le> kc_size ?k" using good by (auto simp: good_cache_def)
  then have n1: "Suc (unat (objects_per_slab ?k - 1)) = ?n"
    by (subst unat_sub) (auto simp: word_le_nat_alt)
  define l where "l = map (\<lambda>i. page_to_virt p + i * kc_size ?k) [0..<?n]"
  obtain s1 where s1: "allocate_slab mgr c s = Some (Some p, s1)"
    "kcaches s1 = (kcaches s)(c := ?k\<lparr>active_slabs := active_slabs ?k + 1\<rparr>)"
    "slabs s1 = (slabs s)(p := \<lparr>slab_cache = Some c, pg_freelist = page_to_virt p, s_mem = page_to_virt p, inuse = 0,
       objects = objects_per_slab ?k\<rparr>)"
    "slinks s1 = set_next (set_prev (slinks s) (Slab_link p) Null_link) (Slab_link p) Null_link"
    "omem s1 = omem (link_objects (kc_size ?k) (page_to_virt p) (unat (objects_per_slab ?k - 1)) s)"
    "pm s1 = upd_page p (\<lambda>pg. pg\<lparr>pg_flags := pg_flags pg OR PG_slab\<rparr>) (upd_page p (\<lambda>pg. pg\<lparr>pg_flags := PG_slab\<rparr>)
       (upd_page p (\<lambda>pg. pg\<lparr>pg_flags := 0, pg_property := 0, pg_ref := 0\<rparr>) m))"
    "slub_caches s1 = slub_caches s" "slub_initialized s1 = slub_initialized s" "npages s1 = npages s"
    by (rule allocate_slab_eq [OF mgr a])
  let ?s = "upd_cache c (\<lambda>k. k\<lparr>cpu_page := Some p\<rparr>) s1"
  have k': "objs (kcaches ?s c) = objs ?k" "good_cache (kcaches ?s c)" "cpu_freelist (kcaches ?s c) = cpu_freelist ?k"
    "freelist_count (kcaches ?s c) = freelist_count ?k" "objects_per_slab (kcaches ?s c) = objects_per_slab ?k"
    "nr_partial (kcaches ?s c) = nr_partial ?k" "cpu_page (kcaches ?s c) = Some p"
    using good by (simp_all add: s1(2))
  have set_l: "set l = objs ?k p" by (auto simp: l_def objs_def)
  have dist_l: "distinct l" using n(2) by (auto simp: l_def distinct_map inj_on_def)
  have new_mem: "omem ?s b = omem s b" if "b \<notin> objs ?k p" for b
    unfolding upd_simps s1(5)
  proof (rule link_objects_other, intro allI impI)
    fix i assume "i \<le> unat (objects_per_slab ?k - 1)"
    then have "page_to_virt p + i * kc_size ?k \<in> objs ?k p" unfolding objs_def using n1 by auto
    with that show "b \<noteq> page_to_virt p + i * kc_size ?k" by blast
  qed
  have obj_chain_l: "obj_chain (omem ?s) (page_to_virt p) l"
    using link_objects_linked [of "kc_size ?k" "page_to_virt p" "unat (objects_per_slab ?k - 1)" s] n
    unfolding l_def n1 upd_simps s1(5) by (simp add: page_to_virt_def va_pa_offset_def)
  have new_page: "page_ok ?s A (kcaches ?s c) [] p l"
  proof -
    have "A \<inter> objs ?k p = {}" using fresh(3) object_fits(3) [OF good] by blast
    moreover have "slabs ?s p = \<lparr>slab_cache = Some c, pg_freelist = page_to_virt p, s_mem = page_to_virt p, inuse = 0,
      objects = objects_per_slab ?k\<rparr>" by (simp add: s1(3))
    ultimately show ?thesis using obj_chain_l dist_l set_l unfolding page_ok_def k' by simp
  qed
  have old_page: "page_ok ?s A (kcaches ?s c) [] q (L q)" if q: "q \<in> S" for q
  proof (rule page_ok_cong [OF D(6) [OF q]])
    have ne: "q \<noteq> p" using q fresh(1) by blast
    then show "slabs ?s q = slabs s q" by (simp add: s1(3))
    show "omem ?s b = omem s b" if "b \<in> objs ?k q" for b
      by (rule new_mem) (use ne objs_same [OF good good that] in blast)
  qed (use k' in auto)
  have "page_ok ?s A (kcaches ?s c) [] q ((L(p := l)) q)" if "q \<in> insert p S" for q
    using that new_page old_page [of q] by (cases "q = p") auto
  moreover have "obj_chain (omem ?s) (cpu_freelist ?k) []" using D(2) by simp
  ultimately have free': "free_ok ?s (insert p S) A c [] (L(p := l))"
    using D(3) k' by (simp add: free_ok_def del: upd_simps)
  have L0: "L q = []" if "q \<in> S" for q using part none that by (auto simp: part_ok_def)
  have l0: "l \<noteq> []" using n(1) by (simp add: l_def)
  have ring: "ring (slinks s) (Partial c) []" using part by (simp add: part_ok_def)
  have ring': "ring (slinks ?s) (Partial c) []"
    by (subst ring_cong [where h = "slinks s"]) (use ring in \<open>simp_all add: s1(4)\<close>)
  have nx: "lnext (slinks ?s) (Slab_link q) = (if q = p then Null_link else lnext (slinks s) (Slab_link q))" for q
    by (simp add: s1(4))
  have "lnext (slinks s) (Slab_link q) = Null_link" if "q \<in> S" for q using part that by (simp add: part_ok_def)
  then have null: "lnext (slinks ?s) (Slab_link q) = Null_link" if "q \<in> insert p S" for q
    using that unfolding nx by auto
  have "q = p" if "q \<in> insert p S" "(L(p := l)) q \<noteq> []" for q using L0 [of q] that by (auto split: if_splits)
  then have "(q \<in> insert p S \<and> (L(p := l)) q \<noteq> [] \<and> Some p \<noteq> Some q) = False" for q by blast
  moreover have "nr_partial ?k = 0" using part by (simp add: part_ok_def)
  ultimately have part': "part_ok ?s (insert p S) c (\<lambda>q. (L(p := l)) q \<noteq> []) []"
    using ring' null by (simp add: part_ok_def k' del: upd_simps fun_upd_apply)
  have "elsewhere S T c s ?s"
    unfolding elsewhere_def
  proof (intro conjI allI ballI impI)
    fix q b assume q: "q \<in> T" and b: "b \<in> bytes q"
    show "omem ?s b = omem s b"
      by (rule new_mem) (use q b fresh(2) bytes_disjoint object_fits(3) [OF good] in blast)
  qed (use fresh in \<open>auto simp: s1\<close>)
  moreover have "grown s ?s c S (insert p S)"
  proof -
    define m1 where "m1 = upd_page p (\<lambda>pg. pg\<lparr>pg_flags := 0, pg_property := 0, pg_ref := 0\<rparr>) m"
    define m2 where "m2 = upd_page p (\<lambda>pg. pg\<lparr>pg_flags := PG_slab\<rparr>) m1"
    have u: "p \<notin> avail m" using av(2) by simp
    have 1: "inv m1 \<and> avail m1 = avail m" unfolding m1_def by (rule upd_keeps [OF i(2) u]) simp
    have 2: "inv m2 \<and> avail m2 = avail m" unfolding m2_def using upd_keeps [of m1 p] 1 u by simp
    have "pg_flags (pages m2 p) = PG_slab" by (simp add: m2_def)
    then have "inv (pm ?s) \<and> avail (pm ?s) = avail m"
      using upd_keeps [of m2 p "\<lambda>pg. pg\<lparr>pg_flags := pg_flags pg OR PG_slab\<rparr>"] 2 u
      by (simp add: s1(6) m1_def [symmetric] m2_def [symmetric])
    moreover have "slab_flag ?s p" by (simp add: slab_flag_def s1(6) PG_slab_def)
    ultimately show ?thesis
      using av fresh(1) by (auto simp: grown_def s1(3) s1(6))
  qed
  ultimately show thesis using that [OF s1(1) free' part' l0] by blast
qed

text \<open>When the processor's list is empty and its page too, that page is in use altogether, and is let go.\<close>

lemma drop_full_page:
  assumes free: "free_ok s S A c [] L" and part: "part_ok s S c (\<lambda>q. L q \<noteq> []) P"
    and full: "\<And>q. cpu_page (kcaches s c) = Some q \<Longrightarrow> L q = []"
  defines "page \<equiv> cpu_page (kcaches s c)"
  obtains s0 where "s0 = (if page \<noteq> None \<and> pg_freelist (slabs s (the page)) = 0 \<and> cpu_freelist (kcaches s c) = 0 \<and>
                    inuse (slabs s (the page)) = objects (slabs s (the page))
                 then upd_cache c (\<lambda>k. k\<lparr>cpu_page := None\<rparr>) s else s)"
    "\<not> (page \<noteq> None \<and> pg_freelist (slabs s (the page)) \<noteq> 0)"
    "free_ok s0 S A c [] L" "part_ok s0 S c (\<lambda>q. L q \<noteq> []) P" "cpu_page (kcaches s0 c) = None" "elsewhere S T c s s0" "pm s0 = pm s"
proof (cases page)
  case None
  show thesis by (rule that [of s]) (use None free part in \<open>simp_all add: page_def\<close>)
next
  case (Some q)
  have q: "q \<in> S" "L q = []" using part Some full by (auto simp: part_ok_def page_def)
  note D = free_okD [OF free]
  note P = page_okD [OF D(6) [OF q(1)], unfolded q(2)]
  have "A \<inter> objs (kcaches s c) q = objs (kcaches s c) q" using P(6) by simp
  then have "inuse (slabs s q) = objects (slabs s q)" using P(1,7) card_objs(1) [OF D(1)] by simp
  moreover have "pg_freelist (slabs s q) = 0" "cpu_freelist (kcaches s c) = 0" using P(2) D(2) by simp_all
  moreover have "free_ok (upd_cache c (\<lambda>k. k\<lparr>cpu_page := None\<rparr>) s) S A c [] L"
    by (rule free_ok_cong [OF free]) simp_all
  moreover have "part_ok (upd_cache c (\<lambda>k. k\<lparr>cpu_page := None\<rparr>) s) S c (\<lambda>q. L q \<noteq> []) P"
    using part q(2) Some unfolding part_ok_def page_def by auto
  ultimately show thesis using that [of "upd_cache c (\<lambda>k. k\<lparr>cpu_page := None\<rparr>) s"] Some by (simp add: elsewhere_cache)
qed

lemma acquire_ok:
  assumes free: "free_ok s S A c [] L" and part: "part_ok s S c (\<lambda>q. L q \<noteq> []) P" and mgr: "pm_alloc mgr = alloc"
    and i: "inv (pm s)" and ST: "S \<inter> T = {}"
    and fresh: "\<And>p. p \<in> avail (pm s) \<Longrightarrow> p \<notin> S \<and> p \<notin> T \<and> A \<inter> bytes p = {}"
  obtains (none) s' where "acquire_slab mgr c s = Some (None, s')" "avail (pm s) = {}" "\<forall>p\<in>S. L p = []"
      "free_ok s' S A c [] L" "part_ok s' S c (\<lambda>q. L q \<noteq> []) P" "elsewhere S T c s s'" "pm s' = pm s"
  | (some) s' p S' L' P' where "acquire_slab mgr c s = Some (Some p, s')" "p \<in> S'" "p \<notin> T" "L' p \<noteq> []"
      "cpu_page (kcaches s' c) = Some p" "free_ok s' S' A c [] L'" "part_ok s' S' c (\<lambda>q. L' q \<noteq> []) P'"
      "elsewhere S T c s s'" "grown s s' c S S'"
proof (cases "\<exists>p. cpu_page (kcaches s c) = Some p \<and> L p \<noteq> []")
  case True
  then obtain p where p: "cpu_page (kcaches s c) = Some p" "L p \<noteq> []" by blast
  have pS: "p \<in> S" using part p(1) by (simp add: part_ok_def)
  have "pg_freelist (slabs s p) \<noteq> 0"
    using obj_chain_head [OF page_okD(2) [OF free_okD(6) [OF free pS]]] p(2) by simp
  then have "acquire_slab mgr c s = Some (Some p, s)" by (simp add: acquire_slab_def p(1))
  then show thesis using some [of p s S L P] pS p free part ST grown_refl [of s s c S] i by auto
next
  case False
  let ?page = "cpu_page (kcaches s c)"
  have full: "L q = []" if "?page = Some q" for q using False that by blast
  obtain s0 where s0: "s0 = (if ?page \<noteq> None \<and> pg_freelist (slabs s (the ?page)) = 0 \<and> cpu_freelist (kcaches s c) = 0 \<and>
                    inuse (slabs s (the ?page)) = objects (slabs s (the ?page))
                 then upd_cache c (\<lambda>k. k\<lparr>cpu_page := None\<rparr>) s else s)"
    "\<not> (?page \<noteq> None \<and> pg_freelist (slabs s (the ?page)) \<noteq> 0)"
    "free_ok s0 S A c [] L" "part_ok s0 S c (\<lambda>q. L q \<noteq> []) P" "cpu_page (kcaches s0 c) = None" "elsewhere S T c s s0" "pm s0 = pm s"
    by (rule drop_full_page [OF free part full])
  have run: "acquire_slab mgr c s =
    (if \<not> list_empty (slinks s0) (Partial c) then
       let p = le2slab (list_next (slinks s0) (Partial c)); s = remove_partial c p s0
       in Some (Some p, upd_cache c (\<lambda>k. k\<lparr>cpu_page := Some p\<rparr>) s)
     else do { (r, s) \<leftarrow> allocate_slab mgr c s0; Some (r, if r \<noteq> None then upd_cache c (\<lambda>k. k\<lparr>cpu_page := r\<rparr>) s else s) })"
    unfolding acquire_slab_def Let_def if_not_P [OF s0(2)] s0(1) [symmetric] ..
  have emp: "list_empty (slinks s0) (Partial c) \<longleftrightarrow> P = []"
    using list_empty_ring [of "slinks s0" "Partial c" "map Slab_link P"] s0(4) by (simp add: part_ok_def)
  show thesis
  proof (cases P)
    case (Cons p P')
    let ?s = "upd_cache c (\<lambda>k. k\<lparr>cpu_page := Some p\<rparr>) (remove_partial c p s0)"
    note R = part_remove [OF s0(4)[unfolded Cons] _ refl]
    have part': "part_ok ?s S c (\<lambda>q. L q \<noteq> []) P'" and le: "le2slab (list_next (slinks s0) (Partial c)) = p"
      and p: "p \<in> S" "L p \<noteq> []" by (rule R; use s0(5) in simp)+
    have pP: "p \<in> set P" using Cons by simp
    note E = elsewhere_remove_partial [OF s0(4) pP ST]
    have "free_ok (remove_partial c p s0) S A c [] L"
      by (rule free_ok_cong [OF s0(3)]) (use E(3,4) in \<open>auto simp: remove_partial_def Let_def\<close>)
    then have "free_ok ?s S A c [] L" by (rule free_ok_cong) simp_all
    moreover have "elsewhere S T c s ?s"
      by (rule elsewhere_upd [OF elsewhere_trans [OF s0(6) E(1)]]) simp_all
    moreover have "grown s ?s c S S" by (rule grown_refl [OF i]) (simp add: E(2) s0(7))
    moreover have "acquire_slab mgr c s = Some (Some p, ?s)" using emp Cons by (simp add: run le Let_def)
    ultimately show thesis using some [of p ?s S L P'] part' p ST by auto
  next
    case Nil
    have run': "acquire_slab mgr c s =
       do { (r, s) \<leftarrow> allocate_slab mgr c s0; Some (r, if r \<noteq> None then upd_cache c (\<lambda>k. k\<lparr>cpu_page := r\<rparr>) s else s) }"
      using emp Nil by (simp add: run)
    show thesis
    proof (cases rule: alloc_page_cases [OF i])
      case none': 1
      have "allocate_slab mgr c s0 = Some (None, s0)" using none'(1) by (simp add: allocate_slab_def mgr s0(7))
      then have "acquire_slab mgr c s = Some (None, s0)" by (simp add: run')
      moreover have "\<forall>p\<in>S. L p = []" using s0(4,5) Nil by (auto simp: part_ok_def)
      ultimately show thesis using none none'(2) s0(3,4,6,7) by blast
    next
      case (2 p m)
      have pf: "p \<notin> S" "p \<notin> T" "A \<inter> bytes p = {}" using fresh [OF 2(3)] by auto
      obtain s1 l where n: "allocate_slab mgr c s0 = Some (Some p, s1)"
        "free_ok (upd_cache c (\<lambda>k. k\<lparr>cpu_page := Some p\<rparr>) s1) (insert p S) A c [] (L(p := l))"
        "part_ok (upd_cache c (\<lambda>k. k\<lparr>cpu_page := Some p\<rparr>) s1) (insert p S) c (\<lambda>q. (L(p := l)) q \<noteq> []) []"
        "l \<noteq> []" "elsewhere S T c s0 (upd_cache c (\<lambda>k. k\<lparr>cpu_page := Some p\<rparr>) s1)"
        "grown s0 (upd_cache c (\<lambda>k. k\<lparr>cpu_page := Some p\<rparr>) s1) c S (insert p S)"
        by (rule new_slab [OF s0(3) s0(4)[unfolded Nil] s0(5) mgr _ _ 2(2) _ _ _ pf ST])
          (use 2 i s0(7) in auto)
      let ?s = "upd_cache c (\<lambda>k. k\<lparr>cpu_page := Some p\<rparr>) s1"
      have run2: "acquire_slab mgr c s = Some (Some p, ?s)" by (simp add: run' n(1))
      have gr: "grown s ?s c S (insert p S)" using n(6) unfolding grown_def s0(7) .
      have cp: "cpu_page (kcaches ?s c) = Some p" and Lp: "(L(p := l)) p \<noteq> []" using n(4) by simp_all
      show thesis
        by (rule some [OF run2 insertI1 pf(2) Lp cp n(2,3) elsewhere_trans [OF s0(6) n(5)] gr])
    qed
  qed
qed

lemma pop_ok:
  assumes ok: "free_ok s S A c (x # F) L" and part: "part_ok s S c has P" and S: "\<forall>p\<in>S. 512 \<le> p" and ST: "S \<inter> T = {}"
  obtains s' p where "do {
      let (obj, s) = cpu_pop c s; r \<leftarrow> virt_to_page obj; page \<leftarrow> r;
      Some (obj, upd_slab page (\<lambda>g. g\<lparr>inuse := inuse g + 1\<rparr>) s)
    } = Some (x, s')" "p \<in> S" "x \<in> objs (kcaches s c) p" "x \<notin> A" "free_ok s' S (insert x A) c F L" "part_ok s' S c has P"
    "elsewhere S T c s s'" "pm s' = pm s"
proof -
  obtain p where p: "p \<in> S" "x \<in> objs (kcaches s c) p" "virt_to_page x = Some (Some p)" "fst (cpu_pop c s) = x"
    "x \<noteq> 0" "x \<in> bytes p" by (rule free_head [OF ok S])
  let ?s = "upd_slab p (\<lambda>g. g\<lparr>inuse := inuse g + 1\<rparr>) (snd (cpu_pop c s))"
  note t = take_object(2,3) [OF ok p(1,2) refl]
  have pT: "p \<notin> T" using p(1) ST by blast
  have "elsewhere S T c s ?s" by (rule elsewhere_trans [OF elsewhere_pop elsewhere_slab [OF pT]]) simp
  moreover have "part_ok ?s S c has P" by (rule part_ok_cong [OF part]) simp_all
  ultimately show thesis using that [of ?s p] p(1-4) t by (simp add: case_prod_beta Let_def)
qed

lemma elsewhere_mono: "elsewhere S' T c s s' \<Longrightarrow> S \<subseteq> S' \<Longrightarrow> elsewhere S T c s s'"
  unfolding elsewhere_def by blast

lemma grown_start: "grown s1 s2 c S S' \<Longrightarrow> pm s = pm s1 \<Longrightarrow> grown s s2 c S S'"
  by (auto simp: grown_def)

lemma cache_alloc_ok:
  assumes cache: "cache_ok s S A c F L P" and mgr: "pm_alloc mgr = alloc"
    and i: "inv (pm s)" and ST: "S \<inter> T = {}" and low: "\<forall>p\<in>S \<union> avail (pm s). 512 \<le> p"
    and fresh: "\<And>p. p \<in> avail (pm s) \<Longrightarrow> p \<notin> S \<and> p \<notin> T \<and> A \<inter> bytes p = {}"
  obtains (none) s' where "kmem_cache_alloc mgr (Some c) s = Some (0, s')" "avail (pm s) = {}"
      "\<forall>p\<in>S. objs (kcaches s c) p \<subseteq> A" "cache_ok s' S A c F L P" "elsewhere S T c s s'" "pm s' = pm s"
  | (object) x s' S' p F' L' P' where "kmem_cache_alloc mgr (Some c) s = Some (x, s')" "p \<in> S'" "x \<in> objs (kcaches s c) p"
      "x \<notin> A" "cache_ok s' S' (insert x A) c F' L' P'" "elsewhere S T c s s'" "grown s s' c S S'"
proof -
  let ?s = "upd_cache c (\<lambda>k. k\<lparr>alloc_count := alloc_count k + 1\<rparr>) s"
  have len: "length F \<le> 32" using cache by (simp add: cache_ok_def)
  have free: "free_ok ?s S A c F L" by (rule free_ok_cong [of s]) (use cache in \<open>simp_all add: cache_ok_def\<close>)
  have part: "part_ok ?s S c (\<lambda>p. L p \<noteq> []) P" by (rule part_ok_cong [of s]) (use cache in \<open>simp_all add: cache_ok_def\<close>)
  have e: "elsewhere S T c s ?s" by (rule elsewhere_cache) simp_all
  have pm: "pm ?s = pm s" by simp
  have k: "objs (kcaches ?s c) = objs (kcaches s c)" by simp
  have empty: "cpu_freelist (kcaches ?s c) = 0 \<longleftrightarrow> F = []" using obj_chain_head [OF free_okD(2) [OF free]] .
  show thesis
  proof (cases F)
    case (Cons x f)
    obtain s' p where r: "do {
        let (obj, s) = cpu_pop c ?s; r \<leftarrow> virt_to_page obj; page \<leftarrow> r;
        Some (obj, upd_slab page (\<lambda>g. g\<lparr>inuse := inuse g + 1\<rparr>) s)
      } = Some (x, s')" "p \<in> S" "x \<in> objs (kcaches ?s c) p" "x \<notin> A" "free_ok s' S (insert x A) c f L"
      "part_ok s' S c (\<lambda>p. L p \<noteq> []) P" "elsewhere S T c ?s s'" "pm s' = pm ?s"
      by (rule pop_ok [OF free[unfolded Cons] part _ ST]) (use low in auto)
    have "kmem_cache_alloc mgr (Some c) s = Some (x, s')"
      using empty Cons r(1) by (simp add: kmem_cache_alloc_def Let_def)
    moreover have "cache_ok s' S (insert x A) c f L P" using r(5,6) len Cons by (simp add: cache_ok_def)
    ultimately show thesis
      using object [of x s' p S f L P] r(2,3,4) elsewhere_trans [OF e r(7)] grown_refl [OF i, of s' c S] r(8) by simp
  next
    case Nil
    have run: "kmem_cache_alloc mgr (Some c) s = do {
        (ok, s) \<leftarrow> refill_cpu_freelist mgr c ?s;
        if \<not> ok then Some (0, s)
        else do {
          let (obj, s) = cpu_pop c s; r \<leftarrow> virt_to_page obj; page \<leftarrow> r;
          Some (obj, upd_slab page (\<lambda>g. g\<lparr>inuse := inuse g + 1\<rparr>) s)
        } }" using empty Nil by (simp add: kmem_cache_alloc_def Let_def)
    have i': "inv (pm ?s)" and fresh': "\<And>p. p \<in> avail (pm ?s) \<Longrightarrow> p \<notin> S \<and> p \<notin> T \<and> A \<inter> bytes p = {}"
      using i fresh by simp_all
    show thesis
    proof (cases rule: acquire_ok [OF free[unfolded Nil] part mgr i' ST fresh'])
      case (2 s')
      then have "kmem_cache_alloc mgr (Some c) s = Some (0, s')" by (simp add: run refill_cpu_freelist_def)
      moreover have "objs (kcaches s c) p \<subseteq> A" if "p \<in> S" for p
        using page_okD(6) [OF free_okD(6) [OF free that]] 2(3) that Nil by auto
      moreover have "cache_ok s' S A c F L P" using 2(4,5) Nil by (simp add: cache_ok_def)
      ultimately show thesis using none 2(2) elsewhere_trans [OF e 2(6)] 2(7) by auto
    next
      case (3 s1 p S' L' P')
      let ?s2 = "refill_objects SLUB_CPU_BATCH c p s1"
      let ?F = "rev (take SLUB_CPU_BATCH (L' p))" and ?L = "L'(p := drop SLUB_CPU_BATCH (L' p))"
      have gr: "grown s s1 c S S'" using grown_start [OF 3(9)] by simp
      have sub: "S \<subseteq> S'" and new: "S' - S \<subseteq> avail (pm s)" using gr by (auto simp: grown_def)
      have ST': "S' \<inter> T = {}" using ST new fresh by blast
      have low': "\<forall>p\<in>S'. 512 \<le> p" using low new by blast
      have R: "free_ok ?s2 S' A c ?F ?L" "elsewhere S' T c s1 ?s2" "slinks ?s2 = slinks s1" "pm ?s2 = pm s1"
        "cpu_page (kcaches ?s2 c) = cpu_page (kcaches s1 c)" "nr_partial (kcaches ?s2 c) = nr_partial (kcaches s1 c)"
        using refill_objects_ok [OF 3(6) 3(2,3), of SLUB_CPU_BATCH] by simp_all
      have part2: "part_ok ?s2 S' c (\<lambda>q. ?L q \<noteq> []) P'"
        by (rule part_ok_cong [OF 3(7) R(3,6,5)]) (use 3(5) in auto)
      obtain x f where F: "?F = x # f"
        using 3(4) by (cases ?F) (auto simp: SLUB_CPU_BATCH_def)
      have "length (x # f) \<le> 8" unfolding F [symmetric] by (simp add: SLUB_CPU_BATCH_def)
      then have lf: "length f \<le> 32" by simp
      have nz: "cpu_freelist (kcaches ?s2 c) \<noteq> 0" using obj_chain_head [OF free_okD(2) [OF R(1)]] F by simp
      obtain s' q where r: "do {
          let (obj, s) = cpu_pop c ?s2; r \<leftarrow> virt_to_page obj; page \<leftarrow> r;
          Some (obj, upd_slab page (\<lambda>g. g\<lparr>inuse := inuse g + 1\<rparr>) s)
        } = Some (x, s')" "q \<in> S'" "x \<in> objs (kcaches ?s2 c) q" "x \<notin> A" "free_ok s' S' (insert x A) c f ?L"
        "part_ok s' S' c (\<lambda>q. ?L q \<noteq> []) P'" "elsewhere S' T c ?s2 s'" "pm s' = pm ?s2"
        by (rule pop_ok [OF R(1)[unfolded F] part2 low' ST'])
      have "kmem_cache_alloc mgr (Some c) s = Some (x, s')"
        unfolding run refill_cpu_freelist_def 3(1) using nz r(1) by (simp add: Let_def)
      moreover have late: "elsewhere S' T c s1 s'" by (rule elsewhere_trans [OF R(2) r(7)])
      moreover have el: "elsewhere S T c s s1" by (rule elsewhere_trans [OF e 3(8)])
      moreover have "objs (kcaches ?s2 c) = objs (kcaches s c)"
        using el R(2) unfolding elsewhere_def objs_def by auto
      moreover have "cache_ok s' S' (insert x A) c f ?L P'" using r(5,6) lf by (simp add: cache_ok_def del: fun_upd_apply)
      moreover have "grown s s' c S S'" by (rule grown_later [OF gr _ late]) (simp add: r(8) R(4))
      ultimately show thesis
        using object [of x s' q S' f ?L P'] r(2,3,4) elsewhere_trans [OF el elsewhere_mono [OF late sub]] by simp
    qed
  qed
qed

lemma cache_free_ok:
  assumes cache: "cache_ok s S A c F L P" and p: "p \<in> S" "x \<in> objs (kcaches s c) p" and x: "x \<in> A"
    and owner: "slab_cache (slabs s p) = Some c" and S: "\<forall>p\<in>S. 512 \<le> p" and ST: "S \<inter> T = {}"
  obtains s' F' L' P' where "kmem_cache_free (Some c) x s = Some s'" "cache_ok s' S (A - {x}) c F' L' P'"
    "elsewhere S T c s s'" "pm s' = pm s"
proof -
  have len: "length F \<le> 32" using cache by (simp add: cache_ok_def)
  let ?s = "upd_cache c (\<lambda>k. k\<lparr>free_count := free_count k + 1\<rparr>) s"
  let ?s1 = "upd_slab p (\<lambda>g. g\<lparr>inuse := inuse g - 1\<rparr>) (cpu_push c x ?s)"
  have free: "free_ok ?s S A c F L" by (rule free_ok_cong [of s]) (use cache in \<open>simp_all add: cache_ok_def\<close>)
  have good: "good_cache (kcaches s c)" using free_okD(1) [OF free] by simp
  have xb: "x \<in> bytes p" "x \<noteq> 0" using object_fits [OF good p(2)] by auto
  have pT: "p \<notin> T" using p(1) ST by blast
  have vp: "virt_to_page x = Some (Some p)" using virt_to_page_bytes [OF _ xb(1)] S p(1) by blast
  have free1: "free_ok ?s1 S (A - {x}) c (x # F) L" by (rule put_object [OF free p(1) _ x refl]) (use p(2) in simp)
  have part1: "part_ok ?s1 S c (\<lambda>p. L p \<noteq> []) P"
    by (rule part_ok_cong [of s]) (use cache in \<open>simp_all add: cache_ok_def\<close>)
  have e1: "elsewhere S T c s ?s1"
    by (rule elsewhere_trans [OF elsewhere_trans [OF elsewhere_cache elsewhere_push [OF xb(1) pT]] elsewhere_slab [OF pT]]) simp_all
  have run: "kmem_cache_free (Some c) x s = (if freelist_count (kcaches ?s1 c) > SLUB_CPU_LIMIT then flush_cpu_freelist c ?s1 else Some ?s1)"
    using xb(2) vp owner by (simp add: kmem_cache_free_def Let_def)
  have big: "freelist_count (kcaches ?s1 c) > SLUB_CPU_LIMIT \<longleftrightarrow> length (x # F) > 32"
    unfolding free_okD(3) [OF free1] using len
    by (simp add: SLUB_CPU_LIMIT_def word_less_nat_alt u32_count [of "length (x # F)", simplified])
  show thesis
  proof (cases "length (x # F) > 32")
    case False
    then show thesis using that [of ?s1 "x # F" L P] run big free1 part1 e1 by (simp add: cache_ok_def)
  next
    case True
    obtain s' F' L' P' where "flush_cpu_freelist c ?s1 = Some s'" "free_ok s' S (A - {x}) c F' L'"
      "part_ok s' S c (\<lambda>p. L' p \<noteq> []) P'" "length F' \<le> 32" "elsewhere S T c ?s1 s'" "pm s' = pm ?s1"
      using flush_ok [OF free1 part1 S ST] len by auto
    then show thesis using that [of s' F' L' P'] run big True elsewhere_trans [OF e1] by (simp add: cache_ok_def)
  qed
qed

lemma slub_okD:
  assumes "slub_ok inv avail s C Sl A"
  shows "c \<in> C \<Longrightarrow> \<exists>F L P. cache_ok s (own s Sl c) A c F L P"
    and "p \<in> Sl \<Longrightarrow> 512 \<le> p \<and> p \<notin> avail (pm s) \<and> slab_flag s p \<and> slab_cache (slabs s p) \<in> Some ` C"
    and "x \<in> A \<Longrightarrow> \<exists>c\<in>C. \<exists>p\<in>own s Sl c. x \<in> objs (kcaches s c) p" and "inv (pm s)" and "p \<in> avail (pm s) \<Longrightarrow> 512 \<le> p"
  using assms by (auto simp: slub_ok_def)

lemma cache_good: "cache_ok s S A c F L P \<Longrightarrow> good_cache (kcaches s c)"
  by (simp add: cache_ok_def free_ok_def)

lemma held_bytes:
  assumes "slub_ok inv avail s C Sl A" and "x \<in> A"
  obtains c p where "c \<in> C" "p \<in> own s Sl c" "x \<in> objs (kcaches s c) p" "x \<in> bytes p" "good_cache (kcaches s c)"
    "virt_to_page x = Some (Some p)" "usable s x = kc_size (kcaches s c)" "x \<noteq> 0" "slab_cache (slabs s p) = Some c" "slab_flag s p"
proof -
  obtain c p where cp: "c \<in> C" "p \<in> own s Sl c" "x \<in> objs (kcaches s c) p" using slub_okD(3) [OF assms] by blast
  have good: "good_cache (kcaches s c)" using slub_okD(1) [OF assms(1) cp(1)] cache_good by blast
  have b: "x \<in> bytes p" "x \<noteq> 0" using object_fits [OF good cp(3)] by auto
  have p: "512 \<le> p" "slab_flag s p" using slub_okD(2) [OF assms(1), of p] cp(2) by (auto simp: own_def)
  have v: "virt_to_page x = Some (Some p)" by (rule virt_to_page_bytes [OF p(1) b(1)])
  have o: "slab_cache (slabs s p) = Some c" using cp(2) by (simp add: own_def)
  then have "usable s x = kc_size (kcaches s c)" by (simp add: usable_def v)
  then show thesis using that cp b good v o p(2) by blast
qed

text \<open>An operation on one cache keeps the invariant of all.\<close>

lemma slub_ok_update:
  assumes ok: "slub_ok inv avail s C Sl A" and c: "c \<in> C" and cache: "cache_ok s' S' A' c F' L' P'"
    and e: "elsewhere (own s Sl c) (Sl - own s Sl c) c s s'" and g: "grown s s' c (own s Sl c) S'"
    and same: "\<And>p. p \<in> Sl - own s Sl c \<Longrightarrow> A' \<inter> bytes p = A \<inter> bytes p"
    and new: "\<And>x. x \<in> A' \<Longrightarrow> x \<in> A \<or> (\<exists>p\<in>S'. x \<in> objs (kcaches s c) p)"
  shows "slub_ok inv avail s' C (Sl \<union> S') A'"
proof -
  let ?S = "own s Sl c"
  have sub: "?S \<subseteq> S'" "S' - ?S \<subseteq> avail (pm s)" and av: "avail (pm s') = avail (pm s) - (S' - ?S)" and i: "inv (pm s')"
    and pg: "\<And>q. q \<notin> avail (pm s) \<Longrightarrow> pages (pm s') q = pages (pm s) q"
    and nw: "\<And>p. p \<in> S' - ?S \<Longrightarrow> slab_flag s' p \<and> slab_cache (slabs s' p) = Some c"
    using g by (auto simp: grown_def)
  have old: "slab_cache (slabs s' p) = slab_cache (slabs s p)" if "p \<in> Sl" for p
    using e that unfolding elsewhere_def by (cases "p \<in> ?S") auto
  have out: "p \<notin> Sl" if "p \<in> S' - ?S" for p using that sub(2) slub_okD(2) [OF ok, of p] by blast
  have own': "own s' (Sl \<union> S') d = (if d = c then S' else own s Sl d)" for d
  proof -
    have "p \<in> own s' (Sl \<union> S') d \<longleftrightarrow> p \<in> (if d = c then S' else own s Sl d)" for p
    proof (cases "p \<in> S' - ?S")
      case True
      then show ?thesis using nw [OF True] out [OF True] by (auto simp: own_def)
    next
      case False
      then show ?thesis using old [of p] sub(1) by (auto simp: own_def)
    qed
    then show ?thesis by blast
  qed
  have "\<exists>F L P. cache_ok s' (own s' (Sl \<union> S') d) A' d F L P" if d: "d \<in> C" for d
  proof (cases "d = c")
    case True
    then show ?thesis using cache own' by auto
  next
    case False
    obtain F L P where "cache_ok s (own s Sl d) A d F L P" using slub_okD(1) [OF ok d] by blast
    moreover have "own s Sl d \<subseteq> Sl - ?S" using False by (auto simp: own_def)
    ultimately have "cache_ok s' (own s Sl d) A' d F L P"
      by (rule cache_ok_elsewhere [OF _ e False]) (use same False in \<open>auto simp: own_def\<close>)
    then show ?thesis using own' False by auto
  qed
  moreover have "512 \<le> p \<and> p \<notin> avail (pm s') \<and> slab_flag s' p \<and> slab_cache (slabs s' p) \<in> Some ` C" if "p \<in> Sl \<union> S'" for p
  proof (cases "p \<in> S' - ?S")
    case True
    then show ?thesis using nw [OF True] sub(2) slub_okD(5) [OF ok, of p] c av by auto
  next
    case False
    then have p: "p \<in> Sl" using that by (auto simp: own_def)
    show ?thesis using slub_okD(2) [OF ok p] old [OF p] pg [of p] av by (auto simp: slab_flag_def)
  qed
  moreover have "\<exists>d\<in>C. \<exists>p\<in>own s' (Sl \<union> S') d. x \<in> objs (kcaches s' d) p" if x: "x \<in> A'" for x
  proof -
    have k: "objs (kcaches s' d) = objs (kcaches s d)" for d
      using e unfolding elsewhere_def objs_def by (cases "d = c") auto
    show ?thesis using new [OF x]
    proof
      assume "x \<in> A"
      then obtain d p where "d \<in> C" "p \<in> own s Sl d" "x \<in> objs (kcaches s d) p" using slub_okD(3) [OF ok] by blast
      moreover have "own s Sl d \<subseteq> own s' (Sl \<union> S') d" using sub(1) by (simp add: own')
      ultimately show ?thesis unfolding k by blast
    next
      assume "\<exists>p\<in>S'. x \<in> objs (kcaches s c) p"
      then show ?thesis using c k own' by auto
    qed
  qed
  moreover have "\<forall>p\<in>avail (pm s'). 512 \<le> p" using slub_okD(5) [OF ok] av by auto
  ultimately show ?thesis using i unfolding slub_ok_def by blast
qed

lemma other_pages_same:
  assumes "x \<in> bytes p" and "p \<notin> T" and "q \<in> T"
  shows "insert x A \<inter> bytes q = A \<inter> bytes q" and "(A - {x}) \<inter> bytes q = A \<inter> bytes q"
  using assms bytes_disjoint by blast+

lemma slub_alloc_ok:
  assumes ok: "slub_ok inv avail s C Sl A" and c: "c \<in> C" and mgr: "pm_alloc mgr = alloc"
  obtains (none) s' where "kmem_cache_alloc mgr (Some c) s = Some (0, s')" "avail (pm s) = {}"
      "\<forall>p\<in>own s Sl c. objs (kcaches s c) p \<subseteq> A" "slub_ok inv avail s' C Sl A" "elsewhere (own s Sl c) (Sl - own s Sl c) c s s'"
  | (object) x s' Sl' p where "kmem_cache_alloc mgr (Some c) s = Some (x, s')" "Sl \<subseteq> Sl'" "p \<in> own s' Sl' c" "x \<in> objs (kcaches s c) p"
      "x \<noteq> 0" "x \<notin> A" "slub_ok inv avail s' C Sl' (insert x A)" "elsewhere (own s Sl c) (Sl - own s Sl c) c s s'"
      "p \<in> own s Sl c \<or> p \<in> avail (pm s)"
proof -
  let ?S = "own s Sl c" and ?T = "Sl - own s Sl c"
  obtain F L P where cache: "cache_ok s ?S A c F L P" using slub_okD(1) [OF ok c] by blast
  have i: "inv (pm s)" using slub_okD(4) [OF ok] .
  have fresh: "p \<notin> ?S \<and> p \<notin> ?T \<and> A \<inter> bytes p = {}" if "p \<in> avail (pm s)" for p
  proof -
    have "p \<notin> Sl" using slub_okD(2) [OF ok, of p] that by blast
    moreover have "x \<notin> bytes p" if x: "x \<in> A" for x
    proof
      assume xp: "x \<in> bytes p"
      obtain d q where "q \<in> own s Sl d" "x \<in> bytes q" by (rule held_bytes [OF ok x])
      then have "p = q" "q \<in> Sl" using bytes_disjoint [OF xp] by (auto simp: own_def)
      with \<open>p \<notin> Sl\<close> show False by blast
    qed
    ultimately show ?thesis by (auto simp: own_def)
  qed
  have low: "\<forall>p\<in>?S \<union> avail (pm s). 512 \<le> p" using slub_okD(2,5) [OF ok] by (auto simp: own_def)
  have good: "good_cache (kcaches s c)" by (rule cache_good [OF cache])
  have ST: "?S \<inter> ?T = {}" by blast
  have SlS: "Sl \<union> ?S = Sl" by (auto simp: own_def)
  show thesis
  proof (cases rule: cache_alloc_ok [OF cache mgr i ST low fresh])
    case (2 s')
    have "slub_ok inv avail s' C (Sl \<union> ?S) A"
      by (rule slub_ok_update [OF ok c 2(4,5) grown_refl [OF i 2(6)]]) auto
    then show thesis using none 2 SlS by simp
  next
    case (3 x s' S' p F' L' P')
    have b: "x \<in> bytes p" "x \<noteq> 0" using object_fits [OF good 3(3)] by auto
    have pT: "p \<notin> ?T" using 3(2,7) fresh [of p] by (auto simp: grown_def)
    have ok': "slub_ok inv avail s' C (Sl \<union> S') (insert x A)"
      by (rule slub_ok_update [OF ok c 3(5,6,7)]) (use other_pages_same(1) [OF b(1) pT] 3(2,3) in auto)
    have "slab_cache (slabs s' p) = Some c"
      using 3(2,6,7) unfolding grown_def elsewhere_def by (cases "p \<in> ?S") (auto simp: own_def)
    then have "p \<in> own s' (Sl \<union> S') c" using 3(2) by (simp add: own_def)
    moreover have "p \<in> ?S \<or> p \<in> avail (pm s)" using 3(2,7) by (auto simp: grown_def)
    ultimately show thesis using object [of x s' "Sl \<union> S'" p] 3 ok' b by auto
  qed
qed

lemma slub_free_ok:
  assumes ok: "slub_ok inv avail s C Sl A" and x: "x \<in> A" and init: "slub_initialized s"
  obtains s' c where "kfree mgr x s = Some s'" "slub_ok inv avail s' C Sl (A - {x})" "elsewhere (own s Sl c) (Sl - own s Sl c) c s s'"
proof -
  obtain c p where cp: "c \<in> C" "p \<in> own s Sl c" "x \<in> objs (kcaches s c) p" "x \<in> bytes p" "good_cache (kcaches s c)"
    "virt_to_page x = Some (Some p)" "usable s x = kc_size (kcaches s c)" "x \<noteq> 0" "slab_cache (slabs s p) = Some c" "slab_flag s p"
    by (rule held_bytes [OF ok x])
  let ?S = "own s Sl c" and ?T = "Sl - own s Sl c"
  obtain F L P where cache: "cache_ok s ?S A c F L P" using slub_okD(1) [OF ok cp(1)] by blast
  have low: "\<forall>p\<in>?S. 512 \<le> p" using slub_okD(2) [OF ok] by (auto simp: own_def)
  have ST: "?S \<inter> ?T = {}" and pT: "p \<notin> ?T" using cp(2) by blast+
  obtain s' F' L' P' where f: "kmem_cache_free (Some c) x s = Some s'" "cache_ok s' ?S (A - {x}) c F' L' P'"
    "elsewhere ?S ?T c s s'" "pm s' = pm s" by (rule cache_free_ok [OF cache cp(2,3) x cp(9) low ST])
  have "kfree mgr x s = Some s'" using f(1) cp(6,8,9,10) init by (simp add: kfree_def slab_flag_def)
  moreover have "slub_ok inv avail s' C (Sl \<union> ?S) (A - {x})"
    by (rule slub_ok_update [OF ok cp(1) f(2,3) grown_refl [OF slub_okD(4) [OF ok] f(4)]])
      (use other_pages_same(2) [OF cp(4) pT] in auto)
  moreover have "Sl \<union> ?S = Sl" by (auto simp: own_def)
  ultimately show thesis using that f(3) by simp
qed

lemma empty_cache:
  "(\<exists>F L P. cache_ok s {} {} d F L P) \<longleftrightarrow> good_cache (kcaches s d) \<and> cpu_freelist (kcaches s d) = 0 \<and>
     freelist_count (kcaches s d) = 0 \<and> ring (slinks s) (Partial d) [] \<and> nr_partial (kcaches s d) = 0 \<and>
     cpu_page (kcaches s d) = None"
  (is "?l \<longleftrightarrow> ?r")
proof
  assume ?l
  then obtain F L P where c: "cache_ok s {} {} d F L P" by blast
  then have "F = []" "P = []" by (auto simp: cache_ok_def free_ok_def part_ok_def)
  with c show ?r by (auto simp: cache_ok_def free_ok_def part_ok_def)
next
  assume ?r
  then have "cache_ok s {} {} d [] (\<lambda>_. []) []" by (auto simp: cache_ok_def free_ok_def part_ok_def)
  then show ?l by blast
qed

lemma no_slabs_ok:
  "slub_ok inv avail s C {} {} \<longleftrightarrow> (\<forall>c\<in>C. \<exists>F L P. cache_ok s {} {} c F L P) \<and> inv (pm s) \<and> (\<forall>p\<in>avail (pm s). 512 \<le> p)"
  by (simp add: slub_ok_def own_def)

lemma slub_init_caches_ok:
  "\<lbrakk> slub_ok inv avail s C {} {}; C \<inter> avail (pm s) = {}; \<forall>sz\<in>set szs. 8 \<le> sz \<and> sz \<le> 4096; pm_alloc mgr = alloc \<rbrakk> \<Longrightarrow>
     (length szs \<le> card (avail (pm s)) \<longrightarrow> slub_init_caches mgr i szs s \<noteq> None) \<and>
     (\<forall>s'. slub_init_caches mgr i szs s = Some s' \<longrightarrow>
       (card (avail (pm s)) \<le> card (avail (pm s')) + length szs) \<and>
       (\<exists>C'. C \<subseteq> C' \<and> slub_ok inv avail s' C' {} {} \<and> (\<forall>d\<in>C. kc_size (kcaches s' d) = kc_size (kcaches s d)) \<and>
          (\<forall>j<i. slub_caches s' j = slub_caches s j) \<and>
          (\<forall>j<length szs. \<exists>c\<in>C'. slub_caches s' (i + j) = Some c \<and> kc_size (kcaches s' c) = szs ! j)))"
proof (induction szs arbitrary: i s C)
  case Nil
  then show ?case by auto
next
  case (Cons sz szs)
  have i: "inv (pm s)" using Cons.prems(1) by (simp add: no_slabs_ok)
  have sz: "8 \<le> sz" "sz \<le> 4096" using Cons.prems(3) by auto
  show ?case
  proof (cases rule: alloc_page_cases [OF i])
    case 1
    then have "slub_init_caches mgr i (sz # szs) s = None" using Cons.prems(4) by (simp add: panic_def)
    then show ?thesis using 1(2) by simp
  next
    case (2 c m)
    let ?s1 = "s\<lparr>pm := m, slinks := list_init (slinks s) (Partial c)\<rparr>"
    let ?f = "\<lambda>k. k\<lparr>kc_size := sz, kc_align := 8, objects_per_slab := of_nat (SLAB_PGSIZE div sz),
                cpu_freelist := 0, cpu_page := None, freelist_count := 0, nr_partial := 0\<rparr>"
    let ?s = "(upd_cache c ?f ?s1)\<lparr>slub_caches := (slub_caches s)(i := Some c)\<rparr>"
    have run: "slub_init_caches mgr i (sz # szs) s = slub_init_caches mgr (Suc i) szs ?s"
      using 2(1) Cons.prems(4) by (simp add: upd_cache_def)
    have new: "c \<notin> C" using 2(3) Cons.prems(2) by blast
    have k': "kcaches ?s = (kcaches s)(c := ?f (kcaches s c))" by (simp add: upd_cache_def)
    have "4096 div sz \<le> 4096" by simp
    then have n: "unat (of_nat (SLAB_PGSIZE div sz) :: u32) = 4096 div sz" by (simp add: SLAB_PGSIZE_def)
    have "good_cache (kcaches ?s c)"
      using sz by (simp add: k' good_cache_def n div_greater_zero_iff div_times_less_eq_dividend)
    moreover have "ring (slinks ?s) (Partial c) []" using ring_list_init by (simp add: upd_cache_def)
    ultimately have c_ok: "\<exists>F L P. cache_ok ?s {} {} c F L P" unfolding empty_cache k' by simp
    have d_ok: "\<exists>F L P. cache_ok ?s {} {} d F L P" if d: "d \<in> C" for d
    proof -
      have ne: "d \<noteq> c" using d new by blast
      have old: "\<exists>F L P. cache_ok s {} {} d F L P" using Cons.prems(1) d by (simp add: no_slabs_ok)
      then have "ring (slinks s) (Partial d) []" unfolding empty_cache by blast
      then have "ring (slinks ?s) (Partial d) []" using ne ring_frame_init [of "slinks s" "Partial d" "[]" "Partial c"]
        by (simp add: upd_cache_def)
      then show ?thesis using old ne unfolding empty_cache k' by simp
    qed
    have "slub_ok inv avail ?s (insert c C) {} {}"
      unfolding no_slabs_ok using c_ok d_ok 2(2,4) Cons.prems(1) by (auto simp: no_slabs_ok upd_cache_def)
    moreover have "insert c C \<inter> avail (pm ?s) = {}" using 2(4) Cons.prems(2) by (auto simp: upd_cache_def)
    moreover have "\<forall>sz\<in>set szs. 8 \<le> sz \<and> sz \<le> 4096" using Cons.prems(3) by simp
    ultimately have IH: "(length szs \<le> card (avail (pm ?s)) \<longrightarrow> slub_init_caches mgr (Suc i) szs ?s \<noteq> None) \<and>
      (\<forall>s'. slub_init_caches mgr (Suc i) szs ?s = Some s' \<longrightarrow>
        (card (avail (pm ?s)) \<le> card (avail (pm s')) + length szs) \<and>
        (\<exists>C'. insert c C \<subseteq> C' \<and> slub_ok inv avail s' C' {} {} \<and> (\<forall>d\<in>insert c C. kc_size (kcaches s' d) = kc_size (kcaches ?s d)) \<and>
          (\<forall>j<Suc i. slub_caches s' j = slub_caches ?s j) \<and>
          (\<forall>j<length szs. \<exists>c\<in>C'. slub_caches s' (Suc i + j) = Some c \<and> kc_size (kcaches s' c) = szs ! j)))"
      using Cons.IH [of ?s "insert c C" "Suc i"] Cons.prems(4) by blast
    have fin: "card (avail (pm s)) = Suc (card (avail (pm ?s)))" if "finite (avail (pm s))"
      using 2(4) card_Suc_Diff1 [OF that 2(3)] by (simp add: upd_cache_def)
    have total: "length szs \<le> card (avail (pm ?s))" if "length (sz # szs) \<le> card (avail (pm s))"
      using that fin card.infinite [of "avail (pm s)"] by (cases "finite (avail (pm s))") simp_all
    have less: "card (avail (pm s)) \<le> Suc (card (avail (pm ?s)))"
      using fin card.infinite [of "avail (pm s)"] by (cases "finite (avail (pm s))") simp_all
    have "(card (avail (pm s)) \<le> card (avail (pm s')) + length (sz # szs)) \<and> (\<exists>C'. C \<subseteq> C' \<and> slub_ok inv avail s' C' {} {} \<and> (\<forall>d\<in>C. kc_size (kcaches s' d) = kc_size (kcaches s d)) \<and>
          (\<forall>j<i. slub_caches s' j = slub_caches s j) \<and>
          (\<forall>j<length (sz # szs). \<exists>c\<in>C'. slub_caches s' (i + j) = Some c \<and> kc_size (kcaches s' c) = (sz # szs) ! j))"
      if s': "slub_init_caches mgr i (sz # szs) s = Some s'" for s'
    proof -
      have "card (avail (pm s)) \<le> card (avail (pm s')) + length (sz # szs)"
        using IH s'[unfolded run] less by fastforce
      moreover obtain C' where C': "insert c C \<subseteq> C'" "slub_ok inv avail s' C' {} {}"
        "\<forall>d\<in>insert c C. kc_size (kcaches s' d) = kc_size (kcaches ?s d)" "\<forall>j<Suc i. slub_caches s' j = slub_caches ?s j"
        "\<forall>j<length szs. \<exists>c\<in>C'. slub_caches s' (Suc i + j) = Some c \<and> kc_size (kcaches s' c) = szs ! j"
        using IH s'[unfolded run] by blast
      have tab: "\<exists>c\<in>C'. slub_caches s' (i + j) = Some c \<and> kc_size (kcaches s' c) = (sz # szs) ! j" if "j < length (sz # szs)" for j
      proof (cases j)
        case 0
        then show ?thesis using C'(1,3,4) by (intro bexI [of _ c]) (auto simp: k')
      next
        case (Suc j')
        then show ?thesis using C'(5) that by auto
      qed
      moreover have "\<forall>d\<in>C. kc_size (kcaches s' d) = kc_size (kcaches s d)" using C'(3) new by (auto simp: k')
      moreover have "\<forall>j<i. slub_caches s' j = slub_caches s j" using C'(4) by simp
      ultimately show ?thesis using C'(1,2) tab by blast
    qed
    then show ?thesis using conjunct1 [OF IH] total unfolding run by blast
  qed
qed

text \<open>A client's write inside its object reaches no link of a free object.\<close>

lemma write_misses:
  assumes good: "good_cache k" and x: "x \<in> objs k p" and y: "y \<in> objs k q" and ne: "y \<noteq> x"
    and a: "x \<le> a" "a + 8 \<le> x + kc_size k"
  shows "a \<noteq> y"
proof (cases "y < x")
  case True
  then show ?thesis using a(1) by simp
next
  case False
  then have "x < y" using ne by simp
  then have "x + kc_size k \<le> y" by (rule objs_apart [OF good x y])
  then show ?thesis using a(2) by simp
qed

lemma poke_cache:
  assumes cache: "cache_ok s S A c F L P" and x: "x \<in> A" "p \<in> S" "x \<in> objs (kcaches s c) p"
    and a: "x \<le> a" "a + 8 \<le> x + kc_size (kcaches s c)"
  shows "cache_ok (store a v s) S A c F L P"
proof -
  let ?k = "kcaches s c"
  have free: "free_ok s S A c F L" using cache by (simp add: cache_ok_def)
  note D = free_okD [OF free]
  have xF: "x \<notin> set F" using page_okD(6) [OF D(6) [OF x(2)]] x by auto
  have F: "a \<notin> set F"
  proof
    assume aF: "a \<in> set F"
    then obtain q where "a \<in> objs ?k q" using D(5) by blast
    then show False using write_misses [OF D(1) x(3) _ _ a, of a q] xF aF by blast
  qed
  have "page_ok (store a v s) A ?k F q (L q)" if q: "q \<in> S" for q
  proof -
    note P = page_okD [OF D(6) [OF q]]
    have "x \<notin> set (L q)" using P(4,6) x(1) by blast
    then have "a \<notin> set (L q)" using write_misses [OF D(1) x(3) _ _ a, of a q] P(4) by blast
    then show ?thesis using D(6) [OF q] by (simp add: page_ok_def)
  qed
  then have "free_ok (store a v s) S A c F L" using free F by (simp add: free_ok_def)
  moreover have "part_ok (store a v s) S c (\<lambda>p. L p \<noteq> []) P"
    by (rule part_ok_cong [of s]) (use cache in \<open>simp_all add: cache_ok_def\<close>)
  ultimately show ?thesis using cache by (simp add: cache_ok_def)
qed

lemma slub_poke_ok:
  assumes ok: "slub_ok inv avail s C Sl A" and x: "x \<in> A" and a: "x \<le> a" "a + 8 \<le> x + usable s x"
  shows "slub_ok inv avail (store a v s) C Sl A"
proof -
  obtain c p where cp: "c \<in> C" "p \<in> own s Sl c" "x \<in> objs (kcaches s c) p" "x \<in> bytes p" "good_cache (kcaches s c)"
    "virt_to_page x = Some (Some p)" "usable s x = kc_size (kcaches s c)" "x \<noteq> 0" "slab_cache (slabs s p) = Some c" "slab_flag s p"
    by (rule held_bytes [OF ok x])
  let ?S = "own s Sl c"
  obtain F L P where cache: "cache_ok s ?S A c F L P" using slub_okD(1) [OF ok cp(1)] by blast
  have ab: "a \<in> bytes p" using object_fits(1,2) [OF cp(5,3)] a cp(7) by (auto simp: bytes_def)
  have cache': "cache_ok (store a v s) ?S A c F L P"
    by (rule poke_cache [OF cache x cp(2,3) a(1)]) (use a(2) cp(7) in simp)
  have "slub_ok inv avail (store a v s) C (Sl \<union> ?S) A"
  proof (rule slub_ok_update [OF ok cp(1) cache'])
    show "elsewhere ?S (Sl - ?S) c s (store a v s)" by (rule elsewhere_store [OF ab]) (use cp(2) in blast)
    show "grown s (store a v s) c ?S ?S" by (rule grown_refl [OF slub_okD(4) [OF ok]]) simp
  qed auto
  moreover have "Sl \<union> ?S = Sl" by (auto simp: own_def)
  ultimately show ?thesis by simp
qed

text \<open>The rest of the kernel.\<close>

lemma slub_other_ok:
  assumes ok: "slub_ok inv avail s C Sl A" and m: "inv m" "\<forall>p\<in>avail m. 512 \<le> p"
    and same: "\<forall>p. slab_flag s p \<longrightarrow> p \<notin> avail m \<and> pages m p = pages (pm s) p"
  shows "slub_ok inv avail (s\<lparr>pm := m\<rparr>) C Sl A"
proof -
  have o: "own (s\<lparr>pm := m\<rparr>) Sl c = own s Sl c" for c by (simp add: own_def)
  have "cache_ok (s\<lparr>pm := m\<rparr>) = cache_ok s"
    by (intro ext) (simp add: cache_ok_def free_ok_def page_ok_def part_ok_def)
  then show ?thesis using ok m same unfolding slub_ok_def o by (auto simp: slab_flag_def)
qed

lemma classes_elsewhere:
  assumes "classes_ok s C" and e: "elsewhere S T c s s'"
  shows "classes_ok s' C"
proof -
  have "kc_size (kcaches s' d) = kc_size (kcaches s d)" for d using e unfolding elsewhere_def by (cases "d = c") auto
  then show ?thesis using assms unfolding classes_ok_def elsewhere_def by auto
qed

lemma usable_elsewhere:
  assumes ok: "slub_ok inv avail s C Sl A" and e: "elsewhere (own s Sl c) (Sl - own s Sl c) c s s'" and y: "y \<in> A"
  shows "usable s' y = usable s y"
proof -
  obtain d p where dp: "p \<in> own s Sl d" "virt_to_page y = Some (Some p)" "slab_cache (slabs s p) = Some d"
    by (rule held_bytes [OF ok y])
  have "slab_cache (slabs s' p) = Some d" using e dp(1,3) unfolding elsewhere_def own_def by (cases "d = c") auto
  moreover have "kc_size (kcaches s' d) = kc_size (kcaches s d)" using e unfolding elsewhere_def by (cases "d = c") auto
  ultimately show ?thesis using dp by (simp add: usable_def)
qed

lemma cache_index_ok:
  "\<lbrakk> ts \<noteq> []; sz \<le> last ts \<rbrakk> \<Longrightarrow> \<exists>j<length ts. cache_index sz i ts = Some (i + j) \<and> sz \<le> ts ! j"
proof (induction ts arbitrary: i)
  case Nil
  then show ?case by simp
next
  case (Cons t ts)
  show ?case
  proof (cases "sz \<le> t")
    case True
    then show ?thesis by (intro exI [of _ 0]) simp
  next
    case False
    then obtain j where "j < length ts" "cache_index sz (Suc i) ts = Some (Suc i + j)" "sz \<le> ts ! j"
      using Cons.IH [of "Suc i"] Cons.prems by (auto split: if_splits)
    then show ?thesis using False by (intro exI [of _ "Suc j"]) simp
  qed
qed

lemma size_class:
  assumes "classes_ok s C" and "sz \<le> 2048"
  obtains c where "c \<in> C" "kmalloc mgr sz s = kmem_cache_alloc mgr (Some c) s" "sz \<le> kc_size (kcaches s c)" "get_cache_for_size sz s = Some c"
proof -
  obtain i where i: "i < length size_table" "cache_index sz 0 size_table = Some i" "sz \<le> size_table ! i"
    using cache_index_ok [of size_table sz 0] assms(2) by (auto simp: size_table_def)
  obtain c where "c \<in> C" "slub_caches s i = Some c" "kc_size (kcaches s c) = size_table ! i"
    using assms(1) i(1) by (auto simp: classes_ok_def)
  then show thesis using that [of c] i assms(1) by (simp add: kmalloc_def get_cache_for_size_def classes_ok_def)
qed

lemma slub_init_ok:
  assumes "inv (pm s)" and "\<forall>p\<in>avail (pm s). 512 \<le> p" and mgr: "pm_alloc mgr = alloc"
  shows "8 \<le> card (avail (pm s)) \<Longrightarrow> \<exists>s'. slub_init mgr s = Some s'"
    and "slub_init mgr s = Some s' \<Longrightarrow> \<exists>C. slub_ok inv avail s' C {} {} \<and> classes_ok s' C"
    and "slub_init mgr s = Some s' \<Longrightarrow> card (avail (pm s)) \<le> card (avail (pm s')) + 8"
proof -
  have ok: "slub_ok inv avail s {} {} {}" using assms(1,2) by (simp add: no_slabs_ok)
  have "\<forall>sz\<in>set size_table. 8 \<le> sz \<and> sz \<le> 4096" by (simp add: size_table_def)
  note init = slub_init_caches_ok [OF ok _ this mgr, of 0, simplified]
  show "\<exists>s'. slub_init mgr s = Some s'" if "8 \<le> card (avail (pm s))"
    using init that by (auto simp: slub_init_def size_table_def simp del: slub_init_caches.simps)
  assume "slub_init mgr s = Some s'"
  then obtain s1 where s1: "slub_init_caches mgr 0 size_table s = Some s1" "s' = s1\<lparr>slub_initialized := True\<rparr>"
    by (auto simp: slub_init_def bind_eq_Some_conv)
  obtain C where "slub_ok inv avail s1 C {} {}"
    "\<forall>j<length size_table. \<exists>c\<in>C. slub_caches s1 j = Some c \<and> kc_size (kcaches s1 c) = size_table ! j"
    using init s1(1) by blast
  then have "slub_ok inv avail s' C {} {} \<and> classes_ok s' C"
    by (simp add: s1(2) no_slabs_ok empty_cache classes_ok_def)
  then show "\<exists>C. slub_ok inv avail s' C {} {} \<and> classes_ok s' C" ..
  have "card (avail (pm s)) \<le> card (avail (pm s1)) + length size_table" using init s1(1) by blast
  then show "card (avail (pm s)) \<le> card (avail (pm s')) + 8" by (simp add: s1(2) size_table_def)
qed

lemma slub_run_ok:
  assumes "slub_run mgr inv avail s A" and mgr: "pm_alloc mgr = alloc"
  shows "\<exists>C Sl. slub_ok inv avail s C Sl A \<and> classes_ok s C"
  using assms(1)
proof (induction rule: slub_run.induct)
  case (start s s')
  then show ?case using slub_init_ok(2) [OF start(1,2) mgr] by blast
next
  case (alloc s A sz x s')
  then obtain C Sl where ok: "slub_ok inv avail s C Sl A" and cl: "classes_ok s C" by blast
  obtain c where c: "c \<in> C" "kmalloc mgr sz s = kmem_cache_alloc mgr (Some c) s" by (rule size_class [OF cl alloc(2)])
  show ?case
  proof (cases rule: slub_alloc_ok [OF ok c(1) mgr])
    case (1 s'')
    have "classes_ok s'' C" by (rule classes_elsewhere [OF cl 1(5)])
    then show ?thesis using alloc(3) c(2) 1(1,4) by auto
  next
    case (2 y s'' Sl' p)
    have "classes_ok s'' C" by (rule classes_elsewhere [OF cl 2(8)])
    then show ?thesis using alloc(3) c(2) 2(1,5,7) by auto
  qed
next
  case (free s A x s')
  then obtain C Sl where ok: "slub_ok inv avail s C Sl A" and cl: "classes_ok s C" by blast
  obtain s'' c where "kfree mgr x s = Some s''" "slub_ok inv avail s'' C Sl (A - {x})" "elsewhere (own s Sl c) (Sl - own s Sl c) c s s''"
    by (rule slub_free_ok [OF ok free(2)]) (use cl in \<open>simp add: classes_ok_def\<close>)
  then show ?case using free(3) classes_elsewhere [OF cl, of "own s Sl c" "Sl - own s Sl c" c s''] by auto
next
  case (poke s A x a v)
  then obtain C Sl where "slub_ok inv avail s C Sl A" "classes_ok s C" by blast
  then have "slub_ok inv avail (store a v s) C Sl A \<and> classes_ok (store a v s) C"
    using slub_poke_ok poke(2-4) by (simp add: classes_ok_def)
  then show ?case by blast
next
  case (other s A m)
  then obtain C Sl where "slub_ok inv avail s C Sl A" "classes_ok s C" by blast
  then have "slub_ok inv avail (s\<lparr>pm := m\<rparr>) C Sl A \<and> classes_ok (s\<lparr>pm := m\<rparr>) C"
    using slub_other_ok other(2-4) by (simp add: classes_ok_def)
  then show ?case by blast
qed

text \<open>Two held objects do not overlap.\<close>

lemma held_apart:
  assumes ok: "slub_ok inv avail s C Sl A" and x: "x \<in> A" and y: "y \<in> A" and ne: "x \<noteq> y"
  shows "y + usable s y \<le> x \<or> x + usable s x \<le> y"
proof -
  obtain c p where c: "p \<in> own s Sl c" "x \<in> objs (kcaches s c) p" "x \<in> bytes p" "good_cache (kcaches s c)"
    "usable s x = kc_size (kcaches s c)" "slab_cache (slabs s p) = Some c" by (rule held_bytes [OF ok x])
  obtain d q where d: "q \<in> own s Sl d" "y \<in> objs (kcaches s d) q" "y \<in> bytes q" "good_cache (kcaches s d)"
    "usable s y = kc_size (kcaches s d)" "slab_cache (slabs s q) = Some d" by (rule held_bytes [OF ok y])
  show ?thesis
  proof (cases "p = q")
    case True
    then have "c = d" using c(6) d(6) by simp
    then show ?thesis
      using objs_apart [OF c(4) c(2), of y q] objs_apart [OF c(4), of y q x p] d(2) c(2,5) d(5) ne by (cases "x < y") auto
  next
    case False
    then have "page_to_virt p + 4096 \<le> page_to_virt q \<or> page_to_virt q + 4096 \<le> page_to_virt p"
      by (cases "p < q") (auto simp: page_to_virt_def SLAB_PGSIZE_def)
    then show ?thesis using object_fits(1,2) [OF c(4,2)] object_fits(1,2) [OF d(4,2)] c(5) d(5) by linarith
  qed
qed

lemma kmalloc_blocks_run:
  assumes run: "slub_run mgr inv avail s A" and mgr: "pm_alloc mgr = alloc" and sz: "sz \<le> 2048"
  shows "\<exists>x s'. kmalloc mgr sz s = Some (x, s') \<and> (x = 0 \<longrightarrow> avail (pm s) = {}) \<and>
    (x \<noteq> 0 \<longrightarrow> x \<notin> A \<and> sz \<le> usable s' x \<and>
      (\<forall>y\<in>A. usable s' y = usable s y \<and> (y + usable s y \<le> x \<or> x + usable s' x \<le> y)))"
proof -
  obtain C Sl where ok: "slub_ok inv avail s C Sl A" and cl: "classes_ok s C" using slub_run_ok [OF run mgr] by blast
  obtain c where c: "c \<in> C" "kmalloc mgr sz s = kmem_cache_alloc mgr (Some c) s" "sz \<le> kc_size (kcaches s c)"
    by (rule size_class [OF cl sz])
  show ?thesis
  proof (cases rule: slub_alloc_ok [OF ok c(1) mgr])
    case (1 s')
    then show ?thesis using c(2) by simp
  next
    case (2 x s' Sl' p)
    have u: "usable s' y = usable s y" if "y \<in> A" for y by (rule usable_elsewhere [OF ok 2(8) that])
    obtain d q where d: "usable s' x = kc_size (kcaches s' d)" "x \<in> bytes q" "slab_cache (slabs s' q) = Some d"
      by (rule held_bytes [OF 2(7) insertI1])
    have "good_cache (kcaches s c)" using slub_okD(1) [OF ok c(1)] cache_good by blast
    then have "p = q" using bytes_disjoint d(2) object_fits(3) 2(4) by blast
    then have "d = c" using 2(3) d(3) by (simp add: own_def)
    then have "sz \<le> usable s' x" using d(1) c(3) 2(8) by (simp add: elsewhere_def)
    moreover have "\<forall>y\<in>A. usable s' y = usable s y \<and> (y + usable s y \<le> x \<or> x + usable s' x \<le> y)"
      using held_apart [OF 2(7), of x] u 2(6) by (metis insertI1 insertI2)
    ultimately show ?thesis using c(2) 2(1,5,6) by simp
  qed
qed

lemma kfree_run:
  assumes run: "slub_run mgr inv avail s A" and mgr: "pm_alloc mgr = alloc" and x: "x \<in> A"
  shows "\<exists>s'. kfree mgr x s = Some s'"
proof -
  obtain C Sl where ok: "slub_ok inv avail s C Sl A" and cl: "classes_ok s C" using slub_run_ok [OF run mgr] by blast
  obtain s' c where "kfree mgr x s = Some s'"
    by (rule slub_free_ok [OF ok x]) (use cl in \<open>simp add: classes_ok_def\<close>)
  then show ?thesis ..
qed

lemma alloc_exact:
  assumes ok: "slub_ok inv avail s C Sl A" and c: "c \<in> C" and mgr: "pm_alloc mgr = alloc"
  shows "\<exists>x s' Sl'. kmem_cache_alloc mgr (Some c) s = Some (x, s') \<and>
    (x = 0 \<longleftrightarrow> avail (pm s) = {} \<and> (\<forall>p\<in>own s Sl c. objs (kcaches s c) p \<subseteq> A)) \<and>
    (x \<noteq> 0 \<longrightarrow> x \<notin> A \<and> (\<exists>p\<in>own s' Sl' c. x \<in> objs (kcaches s c) p)) \<and>
    slub_ok inv avail s' C Sl' (if x = 0 then A else insert x A)"
proof (cases rule: slub_alloc_ok [OF ok c mgr])
  case (1 s')
  then show ?thesis by (intro exI [of _ 0] exI [of _ s'] exI [of _ Sl]) simp
next
  case (2 x s' Sl' p)
  have "\<not> (avail (pm s) = {} \<and> (\<forall>p\<in>own s Sl c. objs (kcaches s c) p \<subseteq> A))" using 2(4,6,9) by blast
  then show ?thesis using 2 by (intro exI [of _ x] exI [of _ s'] exI [of _ Sl']) auto
qed

end

section \<open>The two page allocators\<close>

lemma take_block_pages:
  assumes fb: "free_blocks m ps" and p: "p \<in> set ps" "n \<le> psize m p" "0 < n" and q: "q \<notin> free_page_set m"
  shows "pages (take_block p n m) q = pages m q"
proof -
  have "{p..<p + psize m p} \<subseteq> free_page_set m" using p(1) free_page_set_blocks [OF fb] by (auto simp: covered_def)
  then have i: "r \<in> free_page_set m" if "p \<le> r" "r < p + psize m p" for r using that by auto
  have "q \<noteq> p" "psize m p > n \<Longrightarrow> q \<noteq> p + n" using p q i [of p] i [of "p + n"] by auto
  then show ?thesis by (auto simp: take_block_def Let_def)
qed

lemma free_blocks_upd:
  assumes fb: "free_blocks m ps" and p: "p \<notin> free_page_set m" "\<not> PageProperty (f (pages m p))"
  shows "free_blocks (upd_page p f m) ps" and "free_page_set (upd_page p f m) = free_page_set m"
proof -
  have cov: "free_page_set m = covered (psize m) ps" by (rule free_page_set_blocks [OF fb])
  have pos: "0 < psize m q" if "q \<in> set ps" for q using fb that by (auto simp: free_blocks_def layout_def)
  have np: "p \<notin> set ps" using p(1) pos unfolding cov covered_def by force
  let ?m = "upd_page p f m"
  have sz: "psize ?m q = psize m q" if "q \<in> set ps" for q using that np by auto
  have cov': "covered (psize ?m) ps = covered (psize m) ps" by (rule covered_cong [OF sz])
  have "layout (psize ?m) ps = layout (psize m) ps" by (rule layout_cong [OF sz])
  moreover have "(\<Sum>q\<leftarrow>ps. psize ?m q) = (\<Sum>q\<leftarrow>ps. psize m q)" by (rule total_cong [OF sz])
  moreover have "PageProperty (pages ?m q) \<longleftrightarrow> q \<in> set ps" for q
    using fb p(2) np by (cases "q = p") (auto simp: free_blocks_def)
  moreover have "\<not> PageReserved (pages ?m q)" if "q \<in> covered (psize m) ps" for q
    using that fb p(1) cov by (auto simp: free_blocks_def)
  ultimately show fb': "free_blocks ?m ps"
    using fb unfolding free_blocks_def cov' by (simp del: upd_page_simps(1))
  show "free_page_set ?m = free_page_set m" using free_page_set_blocks [OF fb'] cov cov' by simp
qed

lemma block_sizes: "free_blocks m ps \<Longrightarrow> q \<in> set ps \<Longrightarrow> 0 < psize m q \<and> psize m q \<le> nr_free m"
  by (auto simp: free_blocks_def layout_def intro: member_le_sum_list)

interpretation slab_first_fit: slab_pages default_alloc_pages "\<lambda>s. \<exists>ps. free_blocks s ps" free_page_set
proof unfold_locales
  fix m :: pmm and n :: nat and r m' q
  assume "\<exists>ps. free_blocks m ps" and n: "0 < n" and a: "default_alloc_pages n m = Some (r, m')" and q: "q \<notin> free_page_set m"
  then obtain ps where fb: "free_blocks m ps" by blast
  show "pages m' q = pages m q"
  proof (cases "find (\<lambda>p. n \<le> psize m p) ps")
    case None
    then show ?thesis using a by (simp add: default_alloc_pages_eq [OF fb n])
  next
    case (Some p)
    then show ?thesis using a take_block_pages [OF fb _ _ n q] find_mem [OF Some]
      by (auto simp: default_alloc_pages_eq [OF fb n])
  qed
next
  fix m m' :: pmm
  assume "\<exists>ps. free_blocks m ps" and a: "default_alloc_pages 1 m = Some (None, m')"
  then obtain ps where fb: "free_blocks m ps" by blast
  have "find (\<lambda>p. 1 \<le> psize m p) ps = None" using a by (auto simp: default_alloc_pages_eq [OF fb] split: option.splits)
  then have "ps = []" using block_sizes [OF fb, of "hd ps"] by (cases ps) (auto split: if_splits)
  then show "free_page_set m = {}" using free_page_set_blocks [OF fb] by simp
next
  fix m :: pmm and p f
  assume "\<exists>ps. free_blocks m ps" and p: "p \<notin> free_page_set m" "\<not> PageProperty (f (pages m p))"
  then show "(\<exists>ps. free_blocks (upd_page p f m) ps) \<and> free_page_set (upd_page p f m) = free_page_set m"
    using free_blocks_upd [where m = m and p = p and f = f] p by blast
qed

interpretation slab_best_fit: slab_pages best_fit_alloc_pages
  "\<lambda>s. (\<exists>ps. free_blocks s ps) \<and> nr_free s + 1 < 2 ^ 32" free_page_set
proof unfold_locales
  fix m :: pmm and n :: nat and r m' q
  assume "(\<exists>ps. free_blocks m ps) \<and> nr_free m + 1 < 2 ^ 32" and n: "0 < n"
    and a: "best_fit_alloc_pages n m = Some (r, m')" and q: "q \<notin> free_page_set m"
  then obtain ps where fb: "free_blocks m ps" and b: "nr_free m + 1 < 2 ^ 32" by blast
  show "pages m' q = pages m q"
  proof (cases "best_of (psize m) n ps None (nr_free m + 1)")
    case None
    then show ?thesis using a by (simp add: best_fit_alloc_pages_eq [OF fb n b])
  next
    case (Some p)
    then show ?thesis using a take_block_pages [OF fb _ _ n q] best_of_Some [OF Some]
      by (auto simp: best_fit_alloc_pages_eq [OF fb n b])
  qed
next
  fix m m' :: pmm
  assume "(\<exists>ps. free_blocks m ps) \<and> nr_free m + 1 < 2 ^ 32" and a: "best_fit_alloc_pages 1 m = Some (None, m')"
  then obtain ps where fb: "free_blocks m ps" and b: "nr_free m + 1 < 2 ^ 32" by blast
  have "best_of (psize m) 1 ps None (nr_free m + 1) = None"
    using a by (auto simp: best_fit_alloc_pages_eq [OF fb _ b] split: option.splits)
  then have "psize m q < 1" if "q \<in> set ps" for q
    using best_of_None [of "psize m" 1 ps "nr_free m + 1" q] block_sizes [OF fb that] that by simp
  then have "ps = []" using block_sizes [OF fb] by (cases ps) force+
  then show "free_page_set m = {}" using free_page_set_blocks [OF fb] by simp
next
  fix m :: pmm and p f
  assume "(\<exists>ps. free_blocks m ps) \<and> nr_free m + 1 < 2 ^ 32" and p: "p \<notin> free_page_set m" "\<not> PageProperty (f (pages m p))"
  then show "((\<exists>ps. free_blocks (upd_page p f m) ps) \<and> nr_free (upd_page p f m) + 1 < 2 ^ 32) \<and>
      free_page_set (upd_page p f m) = free_page_set m"
    using free_blocks_upd [where m = m and p = p and f = f] p by auto
qed

definition default_pmm_manager :: pmm_manager where
  "default_pmm_manager = \<lparr>pm_alloc = default_alloc_pages, pm_free = default_free_pages\<rparr>"

definition best_fit_pmm_manager :: pmm_manager where
  "best_fit_pmm_manager = \<lparr>pm_alloc = best_fit_alloc_pages, pm_free = best_fit_free_pages\<rparr>"

lemma managers [simp]:
  "pm_alloc default_pmm_manager = default_alloc_pages" "pm_free default_pmm_manager = default_free_pages"
  "pm_alloc best_fit_pmm_manager = best_fit_alloc_pages" "pm_free best_fit_pmm_manager = best_fit_free_pages"
  by (simp_all add: default_pmm_manager_def best_fit_pmm_manager_def)

text \<open>A kernel with 20 free pages.\<close>

definition demo_slub :: slub where
  "demo_slub = \<lparr>pm = the (default_init_memmap 512 20 (default_init boot_pmm)), npages = 0x80300,
     slabs = (\<lambda>_. \<lparr>slab_cache = None, pg_freelist = 0, s_mem = 0, inuse = 0, objects = 0\<rparr>),
     slinks = \<lparr>lprev = (\<lambda>_. Null_link), lnext = (\<lambda>_. Null_link)\<rparr>,
     kcaches = (\<lambda>_. \<lparr>kc_size = 0, kc_align = 0, objects_per_slab = 0, cpu_freelist = 0, cpu_page = None, freelist_count = 0,
       nr_partial = 0, alloc_count = 0, free_count = 0, active_slabs = 0\<rparr>),
     slub_caches = (\<lambda>_. None), slub_initialized = False, omem = (\<lambda>_. 0)\<rparr>"

lemma block_order_ok: "sz \<le> 2 ^ 30 \<Longrightarrow> \<exists>k. block_order sz k0 = Some k \<and> sz \<le> 2 ^ k * SLAB_PGSIZE" if "k0 \<le> 18"
  using that
proof (induction "18 - k0" arbitrary: k0)
  case 0
  then have "k0 = 18" by simp
  with 0 show ?case by (subst block_order.simps) (simp add: SLAB_PGSIZE_def)
next
  case (Suc n)
  show ?case
  proof (cases "2 ^ k0 * SLAB_PGSIZE < sz")
    case True
    then show ?thesis using Suc.hyps(1) [of "k0 + 1"] Suc.hyps(2) Suc.prems by (subst block_order.simps) simp
  next
    case False
    then show ?thesis using Suc.hyps(2) by (subst block_order.simps) simp
  qed
qed

abbreviation first_fit_ok :: "pmm \<Rightarrow> bool" where
  "first_fit_ok m \<equiv> \<exists>ps. free_blocks m ps"

text \<open>C8: memory from \<^verbatim>\<open>kmalloc\<close>. In every run of the allocator over the first-fit manager (calls of \<^verbatim>\<open>kmalloc\<close> and
  \<^verbatim>\<open>kfree\<close>, writes of clients inside their objects, other users of pages), \<^verbatim>\<open>kmalloc\<close> of up to 2048 bytes returns; it returns
  NULL only when no page is free, and otherwise an object of at least that size, which nobody holds and which overlaps no
  object that is held. \<^verbatim>\<open>kfree\<close> of a held object returns.\<close>

theorem kmalloc_gives_fresh_object:
  assumes "slub_run default_pmm_manager first_fit_ok free_page_set s A" and "sz \<le> 2048"
  shows "(\<exists>x s'. kmalloc default_pmm_manager sz s = Some (x, s') \<and> (x = 0 \<longrightarrow> free_page_set (pm s) = {}) \<and>
      (x \<noteq> 0 \<longrightarrow> x \<notin> A \<and> sz \<le> usable s' x \<and>
        (\<forall>y\<in>A. usable s' y = usable s y \<and> (y + usable s y \<le> x \<or> x + usable s' x \<le> y)))) \<and>
    (\<forall>x\<in>A. \<exists>s'. kfree default_pmm_manager x s = Some s')"
  using slab_first_fit.kmalloc_blocks_run [OF assms(1) managers(1) assms(2)] slab_first_fit.kfree_run [OF assms(1) managers(1)]
  by blast

text \<open>C25: one cache. While the invariant of the allocator holds, \<^verbatim>\<open>kmem_cache_alloc\<close> returns NULL exactly when no page
  is free and every object of every slab of the cache is held; otherwise it returns an object of a slab of the cache that
  nobody holds. The invariant holds again with that object held, so nothing is lost between the free lists.\<close>

theorem kmem_cache_alloc_exact:
  assumes "slub_ok first_fit_ok free_page_set s C Sl A" and "c \<in> C"
  shows "\<exists>x s' Sl'. kmem_cache_alloc default_pmm_manager (Some c) s = Some (x, s') \<and>
    (x = 0 \<longleftrightarrow> free_page_set (pm s) = {} \<and> (\<forall>p\<in>own s Sl c. objs (kcaches s c) p \<subseteq> A)) \<and>
    (x \<noteq> 0 \<longrightarrow> x \<notin> A \<and> (\<exists>p\<in>own s' Sl' c. x \<in> objs (kcaches s c) p)) \<and>
    slub_ok first_fit_ok free_page_set s' C Sl' (if x = 0 then A else insert x A)"
  using slab_first_fit.alloc_exact [OF assms managers(1)] .

section \<open>The theorems on a small kernel\<close>

lemma demo_pages: "free_blocks (pm demo_slub) [512]" "free_page_set (pm demo_slub) = {512..<532}"
proof -
  have "\<not> PageProperty (pages boot_pmm q)" "PageReserved (pages boot_pmm q)" for q
    by (simp_all add: boot_pmm_def PageProperty_def PageReserved_def PG_property_def PG_reserved_def)
  then obtain m where m: "default_init_memmap 512 20 (default_init boot_pmm) = Some m" "free_blocks m [512]"
    "free_page_set m = {512..<512 + 20}"
    using boot_free_list [of boot_pmm 20 512] by auto
  have "pm demo_slub = m" unfolding demo_slub_def m(1) by simp
  then show "free_blocks (pm demo_slub) [512]" "free_page_set (pm demo_slub) = {512..<532}" using m(2,3) by simp_all
qed

lemma demo_init:
  obtains s where "slub_init default_pmm_manager demo_slub = Some s" "slub_run default_pmm_manager first_fit_ok free_page_set s {}"
    "free_page_set (pm s) \<noteq> {}" "\<exists>C. slub_ok first_fit_ok free_page_set s C {} {} \<and> classes_ok s C"
proof -
  have fb: "first_fit_ok (pm demo_slub)" using demo_pages(1) by blast
  have low: "\<forall>p\<in>free_page_set (pm demo_slub). 512 \<le> p" by (simp add: demo_pages(2))
  have "8 \<le> card (free_page_set (pm demo_slub))" by (simp add: demo_pages(2))
  then obtain s where s: "slub_init default_pmm_manager demo_slub = Some s"
    using slab_first_fit.slub_init_ok(1) [OF fb low managers(1)] by blast
  have "card (free_page_set (pm demo_slub)) \<le> card (free_page_set (pm s)) + 8"
    by (rule slab_first_fit.slub_init_ok(3) [OF fb low managers(1) s])
  then have "free_page_set (pm s) \<noteq> {}" by (auto simp: demo_pages(2))
  then show thesis using that [OF s slub_run.start [where pm_ok = first_fit_ok and avail = free_page_set, OF fb low s]]
      slab_first_fit.slub_init_ok(2) [OF fb low managers(1) s] by blast
qed

theorem kmalloc_gives_fresh_object_witness:
  "\<exists>s x. x \<noteq> 0 \<and> slub_run default_pmm_manager first_fit_ok free_page_set s {x} \<and> 100 \<le> usable s x \<and>
     (\<exists>y s'. kmalloc default_pmm_manager 20 s = Some (y, s') \<and>
        (y \<noteq> 0 \<longrightarrow> 20 \<le> usable s' y \<and> (x + usable s x \<le> y \<or> y + usable s' y \<le> x))) \<and>
     (\<exists>s'. kfree default_pmm_manager x s = Some s')"
proof -
  obtain s0 where s0: "slub_run default_pmm_manager first_fit_ok free_page_set s0 {}" "free_page_set (pm s0) \<noteq> {}"
    by (rule demo_init)
  obtain x s where x: "kmalloc default_pmm_manager 100 s0 = Some (x, s)" "x \<noteq> 0" "100 \<le> usable s x"
    using kmalloc_gives_fresh_object [OF s0(1), of 100] s0(2) by auto
  have run: "slub_run default_pmm_manager first_fit_ok free_page_set s {x}"
    using slub_run.alloc [OF s0(1) _ x(1)] x(2) by simp
  show ?thesis using kmalloc_gives_fresh_object [OF run, of 20] run x(2,3) by auto
qed

theorem kmem_cache_alloc_exact_witness:
  "\<exists>s C c. slub_ok first_fit_ok free_page_set s C {} {} \<and> c \<in> C \<and> kc_size (kcaches s c) = 64 \<and>
     (\<exists>x s' Sl'. kmem_cache_alloc default_pmm_manager (Some c) s = Some (x, s') \<and> x \<noteq> 0 \<and>
        slub_ok first_fit_ok free_page_set s' C Sl' {x})"
proof -
  obtain s C where s: "free_page_set (pm s) \<noteq> {}" "slub_ok first_fit_ok free_page_set s C {} {}" "classes_ok s C"
    by (rule demo_init) blast
  have "2 < length size_table" "size_table ! 2 = 64" by (simp_all add: size_table_def)
  then obtain c where c: "c \<in> C" "kc_size (kcaches s c) = 64" using s(3) unfolding classes_ok_def by metis
  obtain x s' Sl' where "kmem_cache_alloc default_pmm_manager (Some c) s = Some (x, s')" "x \<noteq> 0"
    "slub_ok first_fit_ok free_page_set s' C Sl' {x}"
    using kmem_cache_alloc_exact [OF s(2) c(1)] s(1) by (auto split: if_splits)
  then show ?thesis using s(2) c by blast
qed

end
