(* ===== verification/Sync.thy ===== *)
theory Sync
  imports Sched
begin

text \<open>
  Wait queues (\<^verbatim>\<open>kern/sync/wait.c\<close>, \<^verbatim>\<open>wait.h\<close>) and semaphores (\<^verbatim>\<open>kern/sync/sem.c\<close>).

  A semaphore and the wait queue embedded in it have the same number; a \<^verbatim>\<open>wait_t\<close> lives on the
  kernel stack of the process that waits and has a number of its own. \<^verbatim>\<open>__down\<close> gives up the CPU
  in the middle, so it is two steps: \<open>down_enter\<close> up to and including the call of \<open>schedule\<close>, with the
  result \<open>Some flags\<close> when it returned without blocking and \<open>None\<close> when the process was switched
  away, and \<open>down_leave\<close>, which the process runs when it has the CPU again. The invariant
  \<open>sync_inv\<close> describes a family of semaphores at once: who waits where, in which order, and that a
  semaphore with waiters has value zero. The ghost counts of the step relation \<open>sem_run\<close> give the
  conservation law: units taken never exceed units given, and nobody waits while a unit is there.
\<close>

section \<open>Wait queues\<close>

definition set_wait :: "nat \<Rightarrow> (wait \<Rightarrow> wait) \<Rightarrow> 'a kernel_scheme \<Rightarrow> 'a kernel_scheme" where
  "set_wait w f s = s\<lparr>waits := (waits s)(w := f (waits s w))\<rparr>"

definition wait_init :: "nat \<Rightarrow> nat option \<Rightarrow> 'a kernel_scheme \<Rightarrow> 'a kernel_scheme" where
  "wait_init w p s =
     (let s = set_wait w (\<lambda>x. x\<lparr>wproc := p, wakeup_flags := WT_INTERRUPTED\<rparr>) s
      in s\<lparr>wait_links := list_init (wait_links s) (Elem w)\<rparr>)"

definition wait_queue_init :: "nat \<Rightarrow> 'a kernel_scheme \<Rightarrow> 'a kernel_scheme" where
  "wait_queue_init q s = s\<lparr>wait_links := list_init (wait_links s) (Head q)\<rparr>"

definition wait_queue_add :: "nat \<Rightarrow> nat \<Rightarrow> 'a kernel_scheme \<Rightarrow> 'a kernel_scheme option" where
  "wait_queue_add q w s = do {
     kassert (list_empty (wait_links s) (Elem w) \<and> wproc (waits s w) \<noteq> None);
     let s = set_wait w (\<lambda>x. x\<lparr>wqueue := Some q\<rparr>) s;
     Some (s\<lparr>wait_links := list_add_before (wait_links s) (Head q) (Elem w)\<rparr>)
   }"

definition wait_queue_del :: "nat \<Rightarrow> nat \<Rightarrow> 'a kernel_scheme \<Rightarrow> 'a kernel_scheme option" where
  "wait_queue_del q w s = do {
     kassert (\<not> list_empty (wait_links s) (Elem w) \<and> wqueue (waits s w) = Some q);
     Some (s\<lparr>wait_links := list_del_init (wait_links s) (Elem w)\<rparr>)
   }"

text \<open>The entry at a position of a queue: null at the head, the wait itself otherwise; meeting the
  head of another queue is not a value the routines can return.\<close>

definition le2wait :: "nat \<Rightarrow> nat hook \<Rightarrow> nat option option" where
  "le2wait q le = (if le = Head q then Some None else do { w \<leftarrow> owner le; Some (Some w) })"

definition wait_queue_next :: "nat \<Rightarrow> nat \<Rightarrow> 'a kernel_scheme \<Rightarrow> nat option option" where
  "wait_queue_next q w s = do {
     kassert (\<not> list_empty (wait_links s) (Elem w) \<and> wqueue (waits s w) = Some q);
     le2wait q (list_next (wait_links s) (Elem w))
   }"

definition wait_queue_prev :: "nat \<Rightarrow> nat \<Rightarrow> 'a kernel_scheme \<Rightarrow> nat option option" where
  "wait_queue_prev q w s = do {
     kassert (\<not> list_empty (wait_links s) (Elem w) \<and> wqueue (waits s w) = Some q);
     le2wait q (list_prev (wait_links s) (Elem w))
   }"

definition wait_queue_first :: "nat \<Rightarrow> 'a kernel_scheme \<Rightarrow> nat option option" where
  "wait_queue_first q s = le2wait q (list_next (wait_links s) (Head q))"

definition wait_queue_last :: "nat \<Rightarrow> 'a kernel_scheme \<Rightarrow> nat option option" where
  "wait_queue_last q s = le2wait q (list_prev (wait_links s) (Head q))"

definition wait_queue_empty :: "nat \<Rightarrow> 'a kernel_scheme \<Rightarrow> bool" where
  "wait_queue_empty q s = list_empty (wait_links s) (Head q)"

definition wait_in_queue :: "nat \<Rightarrow> 'a kernel_scheme \<Rightarrow> bool" where
  "wait_in_queue w s = (\<not> list_empty (wait_links s) (Elem w))"

definition wakeup_wait ::
  "'a kernel_scheme sched_class \<Rightarrow> nat \<Rightarrow> nat \<Rightarrow> u32 \<Rightarrow> bool \<Rightarrow> 'a kernel_scheme \<Rightarrow> 'a kernel_scheme option" where
  "wakeup_wait cls q w flags del s = do {
     s \<leftarrow> (if del then wait_queue_del q w s else Some s);
     let s = set_wait w (\<lambda>x. x\<lparr>wakeup_flags := flags\<rparr>) s;
     p \<leftarrow> wproc (waits s w);
     wakeup_proc cls p s
   }"

definition wakeup_first ::
  "'a kernel_scheme sched_class \<Rightarrow> nat \<Rightarrow> u32 \<Rightarrow> bool \<Rightarrow> 'a kernel_scheme \<Rightarrow> 'a kernel_scheme option" where
  "wakeup_first cls q flags del s = do {
     w \<leftarrow> wait_queue_first q s;
     (case w of None \<Rightarrow> Some s | Some w \<Rightarrow> wakeup_wait cls q w flags del s)
   }"

partial_function (option) wakeup_del_loop ::
  "'a kernel_scheme sched_class \<Rightarrow> nat \<Rightarrow> u32 \<Rightarrow> nat \<Rightarrow> 'a kernel_scheme \<Rightarrow> 'a kernel_scheme option" where
  "wakeup_del_loop cls q flags w s = do {
     s \<leftarrow> wakeup_wait cls q w flags True s;
     w \<leftarrow> wait_queue_first q s;
     (case w of None \<Rightarrow> Some s | Some w \<Rightarrow> wakeup_del_loop cls q flags w s)
   }"

partial_function (option) wakeup_keep_loop ::
  "'a kernel_scheme sched_class \<Rightarrow> nat \<Rightarrow> u32 \<Rightarrow> nat \<Rightarrow> 'a kernel_scheme \<Rightarrow> 'a kernel_scheme option" where
  "wakeup_keep_loop cls q flags w s = do {
     s \<leftarrow> wakeup_wait cls q w flags False s;
     w \<leftarrow> wait_queue_next q w s;
     (case w of None \<Rightarrow> Some s | Some w \<Rightarrow> wakeup_keep_loop cls q flags w s)
   }"

definition wakeup_queue ::
  "'a kernel_scheme sched_class \<Rightarrow> nat \<Rightarrow> u32 \<Rightarrow> bool \<Rightarrow> 'a kernel_scheme \<Rightarrow> 'a kernel_scheme option" where
  "wakeup_queue cls q flags del s = do {
     w \<leftarrow> wait_queue_first q s;
     (case w of
        None \<Rightarrow> Some s
      | Some w \<Rightarrow> if del then wakeup_del_loop cls q flags w s else wakeup_keep_loop cls q flags w s)
   }"

definition wait_current_set :: "nat \<Rightarrow> nat \<Rightarrow> u32 \<Rightarrow> 'a kernel_scheme \<Rightarrow> 'a kernel_scheme option" where
  "wait_current_set q w ws s = do {
     c \<leftarrow> current s;
     let s = wait_init w (Some c) s;
     let s = set_proc c (\<lambda>x. x\<lparr>state := PROC_SLEEPING\<rparr>) s;
     let s = set_proc c (\<lambda>x. x\<lparr>wait_state := ws\<rparr>) s;
     wait_queue_add q w s
   }"

definition wait_current_del :: "nat \<Rightarrow> nat \<Rightarrow> 'a kernel_scheme \<Rightarrow> 'a kernel_scheme option" where
  "wait_current_del q w s = (if wait_in_queue w s then wait_queue_del q w s else Some s)"

section \<open>Semaphores\<close>

definition set_sem :: "nat \<Rightarrow> int \<Rightarrow> 'a kernel_scheme \<Rightarrow> 'a kernel_scheme" where
  "set_sem q v s = s\<lparr>sems := (sems s)(q := \<lparr>sem_value = v\<rparr>)\<rparr>"

definition sem_init :: "nat \<Rightarrow> int \<Rightarrow> 'a kernel_scheme \<Rightarrow> 'a kernel_scheme" where
  "sem_init q v s = wait_queue_init q (set_sem q v s)"

definition up_flags ::
  "'a kernel_scheme sched_class \<Rightarrow> nat \<Rightarrow> u32 \<Rightarrow> 'a kernel_scheme \<Rightarrow> 'a kernel_scheme option" where
  "up_flags cls q ws s = do {
     wt \<leftarrow> wait_queue_first q s;
     (case wt of
        None \<Rightarrow> Some (set_sem q (sem_value (sems s q) + 1) s)
      | Some w \<Rightarrow> do {
          p \<leftarrow> wproc (waits s w);
          kassert (wait_state (procs s p) = ws);
          wakeup_wait cls q w ws True s
        })
   }"

definition down_enter ::
  "'a kernel_scheme sched_class \<Rightarrow> nat \<Rightarrow> u32 \<Rightarrow> nat \<Rightarrow> 'a kernel_scheme \<Rightarrow>
   (u32 option \<times> 'a kernel_scheme) option" where
  "down_enter cls q ws w s =
     (if sem_value (sems s q) > 0 then Some (Some 0, set_sem q (sem_value (sems s q) - 1) s)
      else do {
        s \<leftarrow> wait_current_set q w ws s;
        s \<leftarrow> schedule cls s;
        Some (None, s)
      })"

definition down_leave :: "nat \<Rightarrow> u32 \<Rightarrow> nat \<Rightarrow> 'a kernel_scheme \<Rightarrow> (u32 \<times> 'a kernel_scheme) option" where
  "down_leave q ws w s = do {
     s \<leftarrow> wait_current_del q w s;
     if wakeup_flags (waits s w) \<noteq> ws then Some (wakeup_flags (waits s w), s) else Some (0, s)
   }"

definition up :: "'a kernel_scheme sched_class \<Rightarrow> nat \<Rightarrow> 'a kernel_scheme \<Rightarrow> 'a kernel_scheme option" where
  "up cls q s = up_flags cls q WT_KSEM s"

text \<open>\<open>down\<close> in its two parts: the first returns at once or blocks, the second resumes; both check
  that the flags are zero.\<close>

definition down_start ::
  "'a kernel_scheme sched_class \<Rightarrow> nat \<Rightarrow> nat \<Rightarrow> 'a kernel_scheme \<Rightarrow> (bool \<times> 'a kernel_scheme) option" where
  "down_start cls q w s = do {
     (r, s) \<leftarrow> down_enter cls q WT_KSEM w s;
     (case r of
        None \<Rightarrow> Some (False, s)
      | Some flags \<Rightarrow> do { kassert (flags = 0); Some (True, s) })
   }"

definition down_resume :: "nat \<Rightarrow> nat \<Rightarrow> 'a kernel_scheme \<Rightarrow> 'a kernel_scheme option" where
  "down_resume q w s = do {
     (flags, s) \<leftarrow> down_leave q WT_KSEM w s;
     kassert (flags = 0);
     Some s
   }"

definition try_down :: "nat \<Rightarrow> 'a kernel_scheme \<Rightarrow> bool \<times> 'a kernel_scheme" where
  "try_down q s =
     (if sem_value (sems s q) > 0 then (True, set_sem q (sem_value (sems s q) - 1) s) else (False, s))"

section \<open>The invariant\<close>

definition waiters :: "nat set \<Rightarrow> (nat \<Rightarrow> nat list) \<Rightarrow> nat set" where
  "waiters S W = (\<Union>q\<in>S. set (W q))"

definition asleep :: "'a kernel_scheme \<Rightarrow> nat \<Rightarrow> nat \<Rightarrow> bool" where
  "asleep s q w \<longleftrightarrow> wqueue (waits s w) = Some q \<and>
     (\<exists>p. wproc (waits s w) = Some p \<and> state (procs s p) = PROC_SLEEPING \<and> wait_state (procs s p) = WT_KSEM)"

definition sem_ok :: "'a kernel_scheme \<Rightarrow> nat \<Rightarrow> nat list \<Rightarrow> bool" where
  "sem_ok s q ws \<longleftrightarrow> ring (wait_links s) (Head q) (map Elem ws) \<and> 0 \<le> sem_value (sems s q) \<and>
     (ws \<noteq> [] \<longrightarrow> sem_value (sems s q) = 0) \<and> (\<forall>w\<in>set ws. asleep s q w)"

definition sync_inv :: "'a kernel_scheme \<Rightarrow> nat set \<Rightarrow> (nat \<Rightarrow> nat list) \<Rightarrow> bool" where
  "sync_inv s S W \<longleftrightarrow> (\<forall>q\<in>S. sem_ok s q (W q)) \<and>
     (\<forall>q\<in>S. \<forall>q'\<in>S. q \<noteq> q' \<longrightarrow> set (W q) \<inter> set (W q') = {}) \<and>
     inj_on (\<lambda>w. wproc (waits s w)) (waiters S W)"

lemma set_wait_simps [simp]:
  "waits (set_wait w f s) = (waits s)(w := f (waits s w))" "wait_links (set_wait w f s) = wait_links s"
  "procs (set_wait w f s) = procs s" "sems (set_wait w f s) = sems s" "current (set_wait w f s) = current s"
  "idleproc (set_wait w f s) = idleproc s" "sched_view (set_wait w f s) = sched_view s"
  by (simp_all add: set_wait_def sched_view_def)

lemma set_sem_simps [simp]:
  "sems (set_sem q v s) = (sems s)(q := \<lparr>sem_value = v\<rparr>)" "waits (set_sem q v s) = waits s"
  "wait_links (set_sem q v s) = wait_links s" "procs (set_sem q v s) = procs s"
  "current (set_sem q v s) = current s" "idleproc (set_sem q v s) = idleproc s"
  "sched_view (set_sem q v s) = sched_view s"
  by (simp_all add: set_sem_def sched_view_def)

lemma sem_ok_distinct: "sem_ok s q ws \<Longrightarrow> distinct ws"
  by (auto simp: sem_ok_def dest: ring_distinct)

lemma first_waiter:
  assumes "sem_ok s q ws"
  shows "wait_queue_first q s = Some (case ws of [] \<Rightarrow> None | w # _ \<Rightarrow> Some w)"
proof -
  have r: "ring (wait_links s) (Head q) (map Elem ws)" using assms by (simp add: sem_ok_def)
  show ?thesis
    using ring_next_head [OF r]
    by (cases ws) (simp_all add: wait_queue_first_def le2wait_def list_next_def)
qed

lemma sync_inv_sem: "sync_inv s S W \<Longrightarrow> q \<in> S \<Longrightarrow> sem_ok s q (W q)"
  by (simp add: sync_inv_def)

lemma sync_inv_disjoint:
  "sync_inv s S W \<Longrightarrow> q \<in> S \<Longrightarrow> q' \<in> S \<Longrightarrow> q \<noteq> q' \<Longrightarrow> set (W q) \<inter> set (W q') = {}"
  by (simp add: sync_inv_def)

lemma waiter_asleep:
  assumes "sync_inv s S W" "q \<in> S" "w \<in> set (W q)"
  obtains p where "wproc (waits s w) = Some p" "state (procs s p) = PROC_SLEEPING"
    "wait_state (procs s p) = WT_KSEM" "wqueue (waits s w) = Some q"
  using sync_inv_sem [OF assms(1,2)] assms(3) by (auto simp: sem_ok_def asleep_def)

lemma waiter_unique:
  assumes "sync_inv s S W" "q \<in> S" "w \<in> set (W q)" "q' \<in> S" "w' \<in> set (W q')"
    "wproc (waits s w) = wproc (waits s w')"
  shows "w = w'"
  using assms by (auto simp: sync_inv_def waiters_def inj_on_def)

text \<open>What a step that is not a semaphore operation must leave alone.\<close>

definition sync_same :: "nat set \<Rightarrow> (nat \<Rightarrow> nat list) \<Rightarrow> 'a kernel_scheme \<Rightarrow> 'a kernel_scheme \<Rightarrow> bool" where
  "sync_same S W s s' \<longleftrightarrow> wait_links s' = wait_links s \<and> waits s' = waits s \<and> sems s' = sems s \<and>
     (\<forall>w\<in>waiters S W. \<forall>p. wproc (waits s w) = Some p \<longrightarrow>
        state (procs s' p) = state (procs s p) \<and> wait_state (procs s' p) = wait_state (procs s p))"

lemma sync_inv_same:
  assumes inv: "sync_inv s S W" and same: "sync_same S W s s'"
  shows "sync_inv s' S W"
proof -
  have "sem_ok s' q (W q)" if q: "q \<in> S" for q
  proof -
    have "asleep s' q w" if w: "w \<in> set (W q)" for w
    proof -
      have "w \<in> waiters S W" using q w by (auto simp: waiters_def)
      then show ?thesis using inv same q w by (force simp: sync_inv_def sem_ok_def asleep_def sync_same_def)
    qed
    then show ?thesis using inv same q by (simp add: sync_inv_def sem_ok_def sync_same_def)
  qed
  then show ?thesis using inv same by (simp add: sync_inv_def sync_same_def)
qed

section \<open>Taking and giving\<close>

lemma sync_inv_set_sem:
  assumes "sync_inv s S W" "0 \<le> v" "W q \<noteq> [] \<longrightarrow> v = 0"
  shows "sync_inv (set_sem q v s) S W"
  using assms by (auto simp: sync_inv_def sem_ok_def asleep_def)

text \<open>Taking the first waiter off its queue: the rings of all queues stay right and the wait itself is
  detached.\<close>

lemma sync_inv_dequeue:
  assumes inv: "sync_inv s S W" and q: "q \<in> S" "W q = w # ws" and p: "wproc (waits s w) = Some p"
    and l: "wait_links s' = list_del_init (wait_links s) (Elem w)" and se: "sems s' = sems s"
    and wt: "\<And>x. x \<noteq> w \<Longrightarrow> waits s' x = waits s x"
    and st: "\<And>x. x \<noteq> p \<Longrightarrow> state (procs s' x) = state (procs s x) \<and> wait_state (procs s' x) = wait_state (procs s x)"
  shows "sync_inv s' S (W(q := ws))" and "ring (wait_links s') (Elem w) []"
proof -
  have r: "ring (wait_links s) (Head q) ([] @ Elem w # map Elem ws)"
    using inv q by (auto simp: sync_inv_def sem_ok_def)
  have dis: "\<And>q'. q' \<in> S \<Longrightarrow> q' \<noteq> q \<Longrightarrow> set (W q') \<inter> set (W q) = {}" and dw: "distinct (w # ws)"
    using sync_inv_disjoint [OF inv] q sem_ok_distinct [OF sync_inv_sem [OF inv q(1)]] by (fastforce, simp)
  show "ring (wait_links s') (Elem w) []" using ring_list_del_init(2) [OF r] l by simp
  have other: "asleep s' q' x" if x: "q' \<in> S" "x \<in> set (W q')" "x \<noteq> w" for q' x
  proof -
    obtain p' where p': "wproc (waits s x) = Some p'" "state (procs s p') = PROC_SLEEPING"
      "wait_state (procs s p') = WT_KSEM" "wqueue (waits s x) = Some q'"
      using waiter_asleep [OF inv x(1,2)] by blast
    have "p' \<noteq> p" using waiter_unique [OF inv x(1,2) q(1), of w] q(2) p p'(1) x(3) by auto
    then show ?thesis using p' st [of p'] wt [OF x(3)] by (simp add: asleep_def)
  qed
  have "sem_ok s' q' ((W(q := ws)) q')" if q': "q' \<in> S" for q'
  proof (cases "q' = q")
    case True
    have "ring (wait_links s') (Head q) (map Elem ws)" using ring_list_del_init(1) [OF r] l by simp
    moreover have "asleep s' q x" if "x \<in> set ws" for x using other [of q x] q that dw by auto
    ultimately show ?thesis using inv q True se by (auto simp: sync_inv_def sem_ok_def)
  next
    case False
    have rq: "ring (wait_links s) (Head q') (map Elem (W q'))" using inv q' by (simp add: sync_inv_def sem_ok_def)
    have "ring (wait_links s') (Head q') (map Elem (W q'))"
      unfolding l by (rule ring_frame_del_init [OF rq r]) (use dis [OF q' False] q False in auto)
    moreover have "asleep s' q' x" if "x \<in> set (W q')" for x
      using other [OF q' that] dis [OF q' False] q that by auto
    ultimately show ?thesis using inv q' False se by (auto simp: sync_inv_def sem_ok_def)
  qed
  moreover have "inj_on (\<lambda>x. wproc (waits s' x)) (waiters S (W(q := ws)))"
  proof -
    have sub: "waiters S (W(q := ws)) \<subseteq> waiters S W - {w}"
      using q dis dw by (auto simp: waiters_def split: if_splits)
    have "inj_on (\<lambda>x. wproc (waits s x)) (waiters S (W(q := ws)))"
      using inv sub by (auto simp: sync_inv_def intro: inj_on_subset)
    then show ?thesis using sub wt by (auto simp: inj_on_def) (metis (no_types, lifting) DiffD2 insertI1 subsetD wt)
  qed
  moreover have "\<forall>a\<in>S. \<forall>b\<in>S. a \<noteq> b \<longrightarrow> set ((W(q := ws)) a) \<inter> set ((W(q := ws)) b) = {}"
  proof (intro ballI impI)
    fix a b assume ab: "a \<in> S" "b \<in> S" "a \<noteq> b"
    show "set ((W(q := ws)) a) \<inter> set ((W(q := ws)) b) = {}"
      using sync_inv_disjoint [OF inv ab] q ab(3) by (cases "a = q"; cases "b = q") auto
  qed
  ultimately show "sync_inv s' S (W(q := ws))" by (simp add: sync_inv_def)
qed

text \<open>The current process joins the back of a queue.\<close>

lemma sync_inv_enqueue:
  assumes inv: "sync_inv s S W" and q: "q \<in> S" "sem_value (sems s q) = 0" and w: "w \<notin> waiters S W"
    and c: "state (procs s c) \<noteq> PROC_SLEEPING"
    and l: "wait_links s' = list_add_before (list_init (wait_links s) (Elem w)) (Head q) (Elem w)"
    and se: "sems s' = sems s" and wt: "\<And>x. x \<noteq> w \<Longrightarrow> waits s' x = waits s x"
    and ww: "wqueue (waits s' w) = Some q" "wproc (waits s' w) = Some c"
    and sc: "state (procs s' c) = PROC_SLEEPING" "wait_state (procs s' c) = WT_KSEM"
    and st: "\<And>x. x \<noteq> c \<Longrightarrow> state (procs s' x) = state (procs s x) \<and> wait_state (procs s' x) = wait_state (procs s x)"
  shows "sync_inv s' S (W(q := W q @ [w]))"
proof -
  have nw: "w \<notin> set (W q')" if "q' \<in> S" for q' using w that by (auto simp: waiters_def)
  have ring0: "ring (list_init (wait_links s) (Elem w)) (Head q') (map Elem (W q'))" if "q' \<in> S" for q'
    using inv that nw [OF that] by (intro ring_frame_init) (auto simp: sync_inv_def sem_ok_def)
  have old: "asleep s' q' x" and np: "wproc (waits s x) \<noteq> Some c"
    if x: "q' \<in> S" "x \<in> set (W q')" for q' x
  proof -
    obtain p' where p': "wproc (waits s x) = Some p'" "state (procs s p') = PROC_SLEEPING"
      "wait_state (procs s p') = WT_KSEM" "wqueue (waits s x) = Some q'"
      using waiter_asleep [OF inv x] by blast
    have "p' \<noteq> c" using p'(2) c by auto
    moreover have "x \<noteq> w" using nw x by auto
    ultimately show "asleep s' q' x" "wproc (waits s x) \<noteq> Some c"
      using p' st [of p'] wt [of x] by (simp_all add: asleep_def)
  qed
  have "sem_ok s' q' ((W(q := W q @ [w])) q')" if q': "q' \<in> S" for q'
  proof (cases "q' = q")
    case True
    have "ring (wait_links s') (Head q) (map Elem (W q) @ [Elem w])"
      unfolding l by (rule ring_add_before_head [OF ring0 [OF q(1)]]) (use nw [OF q(1)] in auto)
    moreover have "asleep s' q w" using ww sc by (simp add: asleep_def)
    ultimately show ?thesis using True q old [OF q(1)] se by (auto simp: sem_ok_def)
  next
    case False
    have "set (W q) \<inter> set (W q') = {}" using inv q q' False by (auto simp: sync_inv_def)
    then have "ring (wait_links s') (Head q') (map Elem (W q'))"
      unfolding l by (intro ring_frame_add_before [OF ring0 [OF q'] ring0 [OF q(1)]])
        (use False nw [OF q'] in auto)
    then show ?thesis using False inv q' old [OF q'] se by (auto simp: sync_inv_def sem_ok_def)
  qed
  moreover have "inj_on (\<lambda>x. wproc (waits s' x)) (waiters S (W(q := W q @ [w])))"
  proof -
    have sub: "waiters S (W(q := W q @ [w])) \<subseteq> insert w (waiters S W)"
      by (auto simp: waiters_def split: if_splits)
    have "inj_on (\<lambda>x. wproc (waits s x)) (waiters S W)" using inv by (simp add: sync_inv_def)
    then have "inj_on (\<lambda>x. wproc (waits s' x)) (waiters S W)"
      using wt w by (auto simp: inj_on_def) (metis wt w)
    moreover have "wproc (waits s' w) \<notin> (\<lambda>x. wproc (waits s' x)) ` waiters S W"
      using ww(2) np wt w by (auto simp: waiters_def) (metis ww(2) wt np)
    ultimately have "inj_on (\<lambda>x. wproc (waits s' x)) (insert w (waiters S W))" by (simp add: w)
    then show ?thesis using sub by (rule inj_on_subset)
  qed
  moreover have "\<forall>a\<in>S. \<forall>b\<in>S. a \<noteq> b \<longrightarrow>
      set ((W(q := W q @ [w])) a) \<inter> set ((W(q := W q @ [w])) b) = {}"
  proof (intro ballI impI)
    fix a b assume ab: "a \<in> S" "b \<in> S" "a \<noteq> b"
    show "set ((W(q := W q @ [w])) a) \<inter> set ((W(q := W q @ [w])) b) = {}"
      using sync_inv_disjoint [OF inv ab] nw ab by (cases "a = q"; cases "b = q") auto
  qed
  ultimately show ?thesis by (simp add: sync_inv_def)
qed

lemma list_not_empty_waiter:
  assumes "sync_inv s S W" "q \<in> S" "w \<in> set (W q)"
  shows "\<not> list_empty (wait_links s) (Elem w)"
proof -
  obtain us vs where uv: "W q = us @ w # vs" using assms(3) split_list by metis
  have "ring (wait_links s) (Head q) (map Elem us @ Elem w # map Elem vs)"
    using sync_inv_sem [OF assms(1,2)] uv by (simp add: sem_ok_def)
  then show ?thesis using list_empty_ring [OF ring_rotate [THEN iffD1]] by fastforce
qed

text \<open>The part of \<open>wakeup_wait\<close> before the process is made runnable.\<close>

definition unqueue :: "nat \<Rightarrow> u32 \<Rightarrow> 'a kernel_scheme \<Rightarrow> 'a kernel_scheme" where
  "unqueue w flags s = set_wait w (\<lambda>x. x\<lparr>wakeup_flags := flags\<rparr>)
     (s\<lparr>wait_links := list_del_init (wait_links s) (Elem w)\<rparr>)"

lemma unqueue_simps [simp]:
  "wait_links (unqueue w flags s) = list_del_init (wait_links s) (Elem w)"
  "waits (unqueue w flags s) = (waits s)(w := (waits s w)\<lparr>wakeup_flags := flags\<rparr>)"
  "procs (unqueue w flags s) = procs s" "sems (unqueue w flags s) = sems s"
  "current (unqueue w flags s) = current s" "idleproc (unqueue w flags s) = idleproc s"
  by (simp_all add: unqueue_def)

lemma sched_view_unqueue: "sched_view (unqueue w flags s) = sched_view s"
  by (simp add: unqueue_def) (simp add: sched_view_def)

lemma up_eq:
  assumes inv: "sync_inv s S W" and q: "q \<in> S"
  shows "W q = [] \<Longrightarrow> up cls q s = Some (set_sem q (sem_value (sems s q) + 1) s)"
    and "W q = w # ws \<Longrightarrow> wproc (waits s w) = Some p \<Longrightarrow>
      up cls q s = wakeup_proc cls p (unqueue w WT_KSEM s)"
proof -
  note f = first_waiter [OF sync_inv_sem [OF inv q]]
  show "W q = [] \<Longrightarrow> up cls q s = Some (set_sem q (sem_value (sems s q) + 1) s)"
    using f by (simp add: up_def up_flags_def)
  assume W: "W q = w # ws" and p: "wproc (waits s w) = Some p"
  have ne: "\<not> list_empty (wait_links s) (Elem w)" using list_not_empty_waiter [OF inv q] W by simp
  have "wait_state (procs s p) = WT_KSEM" "wqueue (waits s w) = Some q"
    using waiter_asleep [OF inv q, of w] W p by auto
  then show "up cls q s = wakeup_proc cls p (unqueue w WT_KSEM s)"
    using f W p ne by (simp add: up_def up_flags_def wakeup_wait_def wait_queue_del_def unqueue_def Let_def set_wait_def)
qed

context sched_policy
begin

lemma up_step:
  assumes inv: "sync_inv s S W" and q: "q \<in> S" and run: "up cls q s = Some s'"
  shows "W q = [] \<Longrightarrow> sync_inv s' S W \<and> sems s' = (sems s)(q := \<lparr>sem_value = sem_value (sems s q) + 1\<rparr>)"
    and "W q = w # ws \<Longrightarrow> sync_inv s' S (W(q := ws)) \<and> sems s' = sems s \<and>
      ring (wait_links s') (Elem w) [] \<and> wakeup_flags (waits s' w) = WT_KSEM \<and>
      (\<exists>p. wproc (waits s w) = Some p \<and> state (procs s' p) = PROC_RUNNABLE)"
proof -
  show "W q = [] \<Longrightarrow> sync_inv s' S W \<and> sems s' = (sems s)(q := \<lparr>sem_value = sem_value (sems s q) + 1\<rparr>)"
    using up_eq(1) [OF inv q] run sync_inv_set_sem [OF inv, of _ q] sync_inv_sem [OF inv q]
    by (auto simp: sem_ok_def)
  assume W: "W q = w # ws"
  obtain p where p: "wproc (waits s w) = Some p" "state (procs s p) = PROC_SLEEPING"
    using waiter_asleep [OF inv q, of w] W by auto
  let ?u = "unqueue w WT_KSEM s"
  have wk: "wakeup_proc cls p ?u = Some s'" using up_eq(2) [OF inv q W p(1)] run by simp
  note fr = wakeup_frame [OF wk]
  have sf: "wait_links s' = wait_links ?u" "waits s' = waits ?u" "sems s' = sems ?u"
    using fr(1) by (simp_all add: sched_frame_def)
  have d: "sync_inv s' S (W(q := ws))" "ring (wait_links s') (Elem w) []"
    using sync_inv_dequeue [OF inv q W p(1), of s'] sf bare_eq_fields(1,3) [OF fr(3)] by simp_all
  moreover have "state (procs s' p) = PROC_RUNNABLE" using fr(4) p(2) by simp
  ultimately show "sync_inv s' S (W(q := ws)) \<and> sems s' = sems s \<and>
      ring (wait_links s') (Elem w) [] \<and> wakeup_flags (waits s' w) = WT_KSEM \<and>
      (\<exists>p. wproc (waits s w) = Some p \<and> state (procs s' p) = PROC_RUNNABLE)"
    using sf p(1) by simp
qed

lemma down_start_step:
  assumes inv: "sync_inv s S W" and q: "q \<in> S" and w: "w \<notin> waiters S W"
    and c: "current s = Some c" "state (procs s c) \<noteq> PROC_SLEEPING"
    and run: "down_start cls q w s = Some (r, s')"
  shows "r \<Longrightarrow> 0 < sem_value (sems s q) \<and> sync_inv s' S W \<and>
      sems s' = (sems s)(q := \<lparr>sem_value = sem_value (sems s q) - 1\<rparr>)"
    and "\<not> r \<Longrightarrow> sem_value (sems s q) = 0 \<and> sync_inv s' S (W(q := W q @ [w])) \<and> sems s' = sems s"
proof -
  have ok: "sem_ok s q (W q)" by (rule sync_inv_sem [OF inv q])
  have pos: "0 < sem_value (sems s q) \<Longrightarrow> r \<and> s' = set_sem q (sem_value (sems s q) - 1) s"
    using run by (auto simp: down_start_def down_enter_def)
  have neg: "\<not> 0 < sem_value (sems s q) \<Longrightarrow> \<not> r \<and>
    (\<exists>s1. wait_current_set q w WT_KSEM s = Some s1 \<and> schedule cls s1 = Some s')"
    using run by (auto simp: down_start_def down_enter_def bind_eq_Some_conv)
  show "0 < sem_value (sems s q) \<and> sync_inv s' S W \<and>
      sems s' = (sems s)(q := \<lparr>sem_value = sem_value (sems s q) - 1\<rparr>)" if r
  proof -
    have v: "0 < sem_value (sems s q)" using neg that by blast
    then have "W q = []" using ok by (auto simp: sem_ok_def)
    then have "sync_inv (set_sem q (sem_value (sems s q) - 1) s) S W"
      using v by (intro sync_inv_set_sem [OF inv]) auto
    then show ?thesis using pos [OF v] v by simp
  qed
  assume "\<not> r"
  then have z: "sem_value (sems s q) = 0" using pos ok by (auto simp: sem_ok_def)
  then obtain s1 where s1: "wait_current_set q w WT_KSEM s = Some s1" and sch: "schedule cls s1 = Some s'"
    using neg by auto
  have f1: "wait_links s1 = list_add_before (list_init (wait_links s) (Elem w)) (Head q) (Elem w)"
    "waits s1 = (waits s)(w := (waits s w)\<lparr>wproc := Some c, wakeup_flags := WT_INTERRUPTED, wqueue := Some q\<rparr>)"
    "procs s1 = (procs s)(c := (procs s c)\<lparr>state := PROC_SLEEPING, wait_state := WT_KSEM\<rparr>)" "sems s1 = sems s"
    using s1 c(1) by (auto simp: wait_current_set_def wait_queue_add_def wait_init_def Let_def set_wait_def
        set_proc_def split: if_splits)
  note sf = schedule_frame [OF sch]
  have "wait_links s' = wait_links s1" "waits s' = waits s1" "sems s' = sems s1"
    using sf(1) by (simp_all add: sched_frame_def)
  then show "sem_value (sems s q) = 0 \<and> sync_inv s' S (W(q := W q @ [w])) \<and> sems s' = sems s"
    using sync_inv_enqueue [OF inv q z w c(2), of s'] sf(2,3) f1 z by simp
qed

lemma up_total:
  assumes inv: "sync_inv s S W" and q: "q \<in> S" and W: "W q = w # ws" and p: "wproc (waits s w) = Some p" "p \<in> L"
    and sch: "sched_inv ready detached L s"
  obtains s' where "up cls q s = Some s'" "sched_inv ready detached L s'" "sync_inv s' S (W(q := ws))"
    "state (procs s' p) = PROC_RUNNABLE" "sems s' = sems s" "p \<in> waiting_cpu L s' \<or> Some p \<in> {current s, idleproc s}"
proof -
  let ?u = "unqueue w WT_KSEM s"
  have sl: "state (procs s p) = PROC_SLEEPING" using waiter_asleep [OF inv q, of w] W p(1) by auto
  have "sched_inv ready detached L ?u"
    using sch inv_cong [OF sched_view_unqueue [of w WT_KSEM s], of L] by simp
  moreover have "state (procs ?u p) \<noteq> PROC_ZOMBIE" using sl by simp
  ultimately obtain s' where s': "wakeup_proc cls p ?u = Some s'" "sched_inv ready detached L s'"
    "state (procs s' p) = PROC_RUNNABLE"
    using wakeup_inv [OF _ p(2)] by metis
  then have run: "up cls q s = Some s'" using up_eq(2) [OF inv q W p(1)] by simp
  note fr = wakeup_frame [OF s'(1)]
  have "p \<in> waiting_cpu L s' \<or> Some p \<in> {current s, idleproc s}"
    using s'(3) p(2) fr(1,2) by (auto simp: waiting_cpu_def sched_frame_def)
  then show ?thesis using that [of s'] run s' up_step(2) [OF inv q run W] by blast
qed

end

section \<open>Runs of semaphore operations\<close>

text \<open>\<open>sem_run cls S q v s W u d\<close>: from a state in which semaphore \<open>q\<close> had the value \<open>v\<close> and no waiters,
  operations on the semaphores \<open>S\<close>, interleaved with steps of the rest of the kernel, have led to \<open>s\<close>
  with the queues \<open>W\<close>; so far \<open>u\<close> units were given to \<open>q\<close> and \<open>d\<close> were taken or handed over.\<close>

inductive sem_run ::
  "'a kernel_scheme sched_class \<Rightarrow> nat set \<Rightarrow> nat \<Rightarrow> int \<Rightarrow> 'a kernel_scheme \<Rightarrow> (nat \<Rightarrow> nat list) \<Rightarrow> nat \<Rightarrow> nat \<Rightarrow> bool"
  for cls S q v where
  start: "sync_inv s S W \<Longrightarrow> W q = [] \<Longrightarrow> sem_value (sems s q) = v \<Longrightarrow> sem_run cls S q v s W 0 0"
| up_free: "sem_run cls S q v s W u d \<Longrightarrow> a \<in> S \<Longrightarrow> W a = [] \<Longrightarrow> up cls a s = Some s' \<Longrightarrow>
    sem_run cls S q v s' W (if a = q then Suc u else u) d"
| up_hand: "sem_run cls S q v s W u d \<Longrightarrow> a \<in> S \<Longrightarrow> W a = w # ws \<Longrightarrow> up cls a s = Some s' \<Longrightarrow>
    sem_run cls S q v s' (W(a := ws)) (if a = q then Suc u else u) (if a = q then Suc d else d)"
| down_pass: "sem_run cls S q v s W u d \<Longrightarrow> a \<in> S \<Longrightarrow> w \<notin> waiters S W \<Longrightarrow> current s = Some c \<Longrightarrow>
    state (procs s c) \<noteq> PROC_SLEEPING \<Longrightarrow> down_start cls a w s = Some (True, s') \<Longrightarrow>
    sem_run cls S q v s' W u (if a = q then Suc d else d)"
| down_block: "sem_run cls S q v s W u d \<Longrightarrow> a \<in> S \<Longrightarrow> w \<notin> waiters S W \<Longrightarrow> current s = Some c \<Longrightarrow>
    state (procs s c) \<noteq> PROC_SLEEPING \<Longrightarrow> down_start cls a w s = Some (False, s') \<Longrightarrow>
    sem_run cls S q v s' (W(a := W a @ [w])) u d"
| resume: "sem_run cls S q v s W u d \<Longrightarrow> ring (wait_links s) (Elem w) [] \<Longrightarrow> down_resume a w s = Some s' \<Longrightarrow>
    sem_run cls S q v s' W u d"
| try_take: "sem_run cls S q v s W u d \<Longrightarrow> a \<in> S \<Longrightarrow> try_down a s = (True, s') \<Longrightarrow>
    sem_run cls S q v s' W u (if a = q then Suc d else d)"
| other: "sem_run cls S q v s W u d \<Longrightarrow> sync_same S W s s' \<Longrightarrow> sem_run cls S q v s' W u d"

lemma down_resume_detached:
  assumes "ring (wait_links s) (Elem w) []"
  shows "down_resume a w s =
    (if wakeup_flags (waits s w) = WT_KSEM \<or> wakeup_flags (waits s w) = 0 then Some s else None)"
  using list_empty_ring [OF assms]
  by (auto simp: down_resume_def down_leave_def wait_current_del_def wait_in_queue_def)

lemma try_down_step:
  assumes inv: "sync_inv s S W" and q: "q \<in> S" and run: "try_down q s = (True, s')"
  shows "sync_inv s' S W \<and> sems s' = (sems s)(q := \<lparr>sem_value = sem_value (sems s q) - 1\<rparr>)"
proof -
  have v: "0 < sem_value (sems s q)" and s': "s' = set_sem q (sem_value (sems s q) - 1) s"
    using run by (auto simp: try_down_def split: if_splits)
  then have "W q = []" using sync_inv_sem [OF inv q] by (auto simp: sem_ok_def)
  then show ?thesis using v s' sync_inv_set_sem [OF inv, of "sem_value (sems s q) - 1" q] by simp
qed

context sched_policy
begin

lemma sem_run_counts:
  assumes "sem_run cls S q v s W u d"
  shows "sync_inv s S W \<and> sem_value (sems s q) = v + int u - int d"
  using assms
proof (induction rule: sem_run.induct)
  case (up_free s W u d a s')
  then show ?case using up_step(1) [of s S W a s'] by auto
next
  case (up_hand s W u d a w ws s')
  then show ?case using up_step(2) [of s S W a s' w ws] by (auto simp: fun_upd_def)
next
  case (down_pass s W u d a w c s')
  then show ?case using down_start_step(1) [of s S W a w c True s'] by auto
next
  case (down_block s W u d a w c s')
  then show ?case using down_start_step(2) [of s S W a w c False s'] by (auto simp: fun_upd_def)
next
  case (resume s W u d w a s')
  then show ?case using down_resume_detached [of s w a] by (auto split: if_splits)
next
  case (try_take s W u d a s')
  then show ?case using try_down_step [of s S W a s'] by auto
next
  case (other s W u d s')
  then show ?case using sync_inv_same [of s S W s'] by (auto simp: sync_same_def)
qed simp

lemma sem_run_conserves:
  assumes run: "sem_run cls S q v s W u d" and q: "q \<in> S"
  shows "int d \<le> v + int u" "W q \<noteq> [] \<Longrightarrow> int d = v + int u"
  using sem_run_counts [OF run] sync_inv_sem [of s S W q] q by (auto simp: sem_ok_def)

end

text \<open>C11: Conservation of semaphore units, over every interleaving of \<open>up\<close>, \<open>down\<close>, \<open>try_down\<close> and other
  kernel steps on any family of semaphores: the units taken from or handed over by a semaphore never
  exceed its initial value plus the units given to it, so a semaphore that starts at one is a
  mutual-exclusion lock; and while a process waits on it every unit has been taken, so no wake-up is
  ever lost.\<close>

theorem semaphore_conservation:
  assumes "sem_run default_sched_class S q v s W u d" "q \<in> S"
  shows "int d \<le> v + int u \<and> (W q \<noteq> [] \<longrightarrow> int d = v + int u) \<and>
    sem_value (sems s q) = v + int u - int d"
  using rr.sem_run_conserves [OF assms] rr.sem_run_counts [OF assms(1)] by auto

definition demo_lock :: kernel where
  "demo_lock = blank_kernel\<lparr>sems := (\<lambda>_. \<lparr>sem_value = 1\<rparr>)\<rparr>"

lemma demo_lock_run: "sem_run default_sched_class {5} 5 1 (snd (try_down 5 demo_lock)) (\<lambda>_. []) 0 (Suc 0)"
proof -
  have "sync_inv demo_lock {5} (\<lambda>_. [])"
    by (simp add: sync_inv_def sem_ok_def waiters_def demo_lock_def blank_kernel_def)
  then have "sem_run default_sched_class {5} 5 1 demo_lock (\<lambda>_. []) 0 0"
    by (rule sem_run.start) (simp_all add: demo_lock_def)
  moreover have "try_down 5 demo_lock = (True, snd (try_down 5 demo_lock))"
    by (simp add: try_down_def demo_lock_def)
  ultimately show ?thesis using sem_run.try_take by fastforce
qed

theorem semaphore_conservation_witness:
  "int (Suc 0) \<le> 1 + int 0 \<and> sem_value (sems (snd (try_down 5 demo_lock)) 5) = 0"
  using semaphore_conservation [OF demo_lock_run] by simp

text \<open>\<open>up\<close> on a semaphore with waiters never fails and wakes exactly the process that has waited
  longest: it leaves the queue, it becomes runnable and is put into the run queue, the value stays zero
  and the other waiters keep their order.\<close>

theorem up_wakes_longest_waiter:
  assumes "sync_inv s S W" "q \<in> S" "W q = w # ws" "wproc (waits s w) = Some p" "p \<in> L"
    "sched_inv rr_ready rr_detached L s"
  shows "\<exists>s'. up default_sched_class q s = Some s' \<and> sync_inv s' S (W(q := ws)) \<and>
    state (procs s' p) = PROC_RUNNABLE \<and> sems s' = sems s \<and> sched_inv rr_ready rr_detached L s' \<and>
    (p \<in> waiting_cpu L s' \<or> Some p \<in> {current s, idleproc s})"
  by (rule rr.up_total [OF assms]) blast

definition demo_blocked :: kernel where
  "demo_blocked = blank_kernel\<lparr>
     procs := (procs blank_kernel)(2 := blank_proc\<lparr>state := PROC_SLEEPING, wait_state := WT_KSEM\<rparr>),
     waits := (waits blank_kernel)(9 := \<lparr>wproc = Some 2, wakeup_flags = WT_INTERRUPTED, wqueue = Some 5\<rparr>),
     wait_links := \<lparr>lprev = id(Head 5 := Elem 9, Elem 9 := Head 5), lnext = id(Head 5 := Elem 9, Elem 9 := Head 5)\<rparr>\<rparr>"

lemma demo_blocked_sync: "sync_inv demo_blocked {5} (\<lambda>_. [9])"
  by (simp add: sync_inv_def sem_ok_def asleep_def waiters_def demo_blocked_def blank_kernel_def ring_def)

lemma demo_blocked_sched: "sched_inv rr_ready rr_detached {0, 2} demo_blocked"
proof -
  have W: "waiting_cpu {0, 2} demo_blocked = {}"
    by (auto simp: waiting_cpu_def demo_blocked_def blank_proc_def blank_kernel_def)
  have "rr_ready demo_blocked {}"
    unfolding rr_ready_def by (intro exI [of _ "[]"]) (simp add: rr_queue_def demo_blocked_def blank_kernel_def to_u32_def)
  moreover have "rr_detached demo_blocked 0" "rr_detached demo_blocked 2"
    by (simp_all add: rr_detached_def demo_blocked_def blank_proc_def blank_kernel_def)
  moreover have "current demo_blocked = Some 0" "idleproc demo_blocked = Some 0"
    by (simp_all add: demo_blocked_def blank_kernel_def)
  ultimately show ?thesis unfolding sched_inv_def W by auto
qed

theorem up_wakes_longest_waiter_witness:
  "\<exists>s'. up default_sched_class 5 demo_blocked = Some s' \<and> sync_inv s' {5} ((\<lambda>_. [9])(5 := [])) \<and>
    state (procs s' 2) = PROC_RUNNABLE"
proof -
  have "wproc (waits demo_blocked 9) = Some 2" by (simp add: demo_blocked_def)
  then have "\<exists>s'. up default_sched_class 5 demo_blocked = Some s' \<and> sync_inv s' {5} ((\<lambda>_. [9])(5 := [])) \<and>
    state (procs s' 2) = PROC_RUNNABLE \<and> sems s' = sems demo_blocked \<and> sched_inv rr_ready rr_detached {0, 2} s' \<and>
    (2 \<in> waiting_cpu {0, 2} s' \<or> Some 2 \<in> {current demo_blocked, idleproc demo_blocked})"
    by (intro up_wakes_longest_waiter [OF demo_blocked_sync _ _ _ _ demo_blocked_sched]) auto
  then show ?thesis by (elim exE conjE) (intro exI conjI)
qed

end
