(* ===== verification/Monitor.thy ===== *)
theory Monitor
  imports Sync
begin

text \<open>
  Monitors with condition variables (\<^verbatim>\<open>kern/sync/monitor.c\<close>, \<^verbatim>\<open>monitor.h\<close>) over the semaphores of \<open>Sync\<close>.

  A monitor and a condition variable hold the numbers of the semaphores embedded in them; a process
  waits with the \<^verbatim>\<open>wait_t\<close> of its own number, since it waits for one thing at a time. \<open>cond_signal\<close> and
  \<open>cond_wait\<close> give up the CPU in a call of \<^verbatim>\<open>down\<close>, so each has a second part, run when the process has
  the CPU again. Kernel code is not preempted (\<^verbatim>\<open>trap\<close> calls \<^verbatim>\<open>schedule\<close> only on the way back to user mode),
  so the code between two such points is one step.

  \<open>mon_step\<close> is the step relation of any set of processes that use one monitor by its rules: take the
  mutex, then wait and signal, then leave through \<open>monitor_leave\<close>. The invariant \<open>mon_inv\<close> says that there
  is one right to be inside the monitor, and who has it.
\<close>

section \<open>The code\<close>

record condvar =
  cv_sem :: nat
  cv_count :: int
  cv_owner :: nat

record monitor =
  mt_mutex :: nat
  mt_next :: nat
  next_count :: int
  mt_cv :: "nat option"

record sync_kernel = kernel +
  monitors :: "nat \<Rightarrow> monitor"
  condvars :: "nat \<Rightarrow> condvar"

definition set_monitor :: "nat \<Rightarrow> (monitor \<Rightarrow> monitor) \<Rightarrow> 'a sync_kernel_scheme \<Rightarrow> 'a sync_kernel_scheme" where
  "set_monitor m f s = s\<lparr>monitors := (monitors s)(m := f (monitors s m))\<rparr>"

definition set_condvar :: "nat \<Rightarrow> (condvar \<Rightarrow> condvar) \<Rightarrow> 'a sync_kernel_scheme \<Rightarrow> 'a sync_kernel_scheme" where
  "set_condvar c f s = s\<lparr>condvars := (condvars s)(c := f (condvars s c))\<rparr>"

text \<open>The condition variables from number \<open>a\<close> on; the loop of \<^verbatim>\<open>monitor_init\<close>.\<close>

fun init_condvars :: "nat \<Rightarrow> nat \<Rightarrow> nat \<Rightarrow> 'a sync_kernel_scheme \<Rightarrow> 'a sync_kernel_scheme" where
  "init_condvars m a 0 s = s"
| "init_condvars m a (Suc n) s =
     (let s = set_condvar a (\<lambda>c. c\<lparr>cv_count := 0\<rparr>) s;
          s = sem_init (cv_sem (condvars s a)) 0 s;
          s = set_condvar a (\<lambda>c. c\<lparr>cv_owner := m\<rparr>) s
      in init_condvars m (Suc a) n s)"

text \<open>\<open>mem\<close> is what \<^verbatim>\<open>kmalloc\<close> returns for the condition variables.\<close>

definition monitor_init :: "nat \<Rightarrow> nat \<Rightarrow> nat option \<Rightarrow> 'a sync_kernel_scheme \<Rightarrow> 'a sync_kernel_scheme option" where
  "monitor_init m num_cv mem s = do {
     kassert (num_cv > 0);
     let s = set_monitor m (\<lambda>x. x\<lparr>next_count := 0, mt_cv := None\<rparr>) s;
     let s = sem_init (mt_mutex (monitors s m)) 1 s;
     let s = sem_init (mt_next (monitors s m)) 0 s;
     let s = set_monitor m (\<lambda>x. x\<lparr>mt_cv := mem\<rparr>) s;
     a \<leftarrow> mt_cv (monitors s m);
     Some (init_condvars m a num_cv s)
   }"

definition cond_signal_exit :: "nat \<Rightarrow> 'a sync_kernel_scheme \<Rightarrow> 'a sync_kernel_scheme" where
  "cond_signal_exit c s = set_monitor (cv_owner (condvars s c)) (\<lambda>m. m\<lparr>next_count := next_count m - 1\<rparr>) s"

definition cond_signal ::
  "'a sync_kernel_scheme sched_class \<Rightarrow> nat \<Rightarrow> nat \<Rightarrow> 'a sync_kernel_scheme \<Rightarrow> (bool \<times> 'a sync_kernel_scheme) option" where
  "cond_signal cls c w s =
     (if cv_count (condvars s c) > 0 then do {
        let s = set_monitor (cv_owner (condvars s c)) (\<lambda>m. m\<lparr>next_count := next_count m + 1\<rparr>) s;
        s \<leftarrow> up cls (cv_sem (condvars s c)) s;
        (r, s) \<leftarrow> down_start cls (mt_next (monitors s (cv_owner (condvars s c)))) w s;
        if r then Some (True, cond_signal_exit c s) else Some (False, s)
      } else Some (True, s))"

definition cond_signal_resume :: "nat \<Rightarrow> nat \<Rightarrow> 'a sync_kernel_scheme \<Rightarrow> 'a sync_kernel_scheme option" where
  "cond_signal_resume c w s = do {
     s \<leftarrow> down_resume (mt_next (monitors s (cv_owner (condvars s c)))) w s;
     Some (cond_signal_exit c s)
   }"

text \<open>Giving the monitor up: to a signaller that waits for its turn, else to whoever takes the mutex.
  \<open>cond_wait\<close> does this, and every routine of a monitor when it leaves.\<close>

definition monitor_leave ::
  "'a sync_kernel_scheme sched_class \<Rightarrow> nat \<Rightarrow> 'a sync_kernel_scheme \<Rightarrow> 'a sync_kernel_scheme option" where
  "monitor_leave cls m s =
     (if next_count (monitors s m) > 0 then up cls (mt_next (monitors s m)) s
      else up cls (mt_mutex (monitors s m)) s)"

definition cond_wait_exit :: "nat \<Rightarrow> 'a sync_kernel_scheme \<Rightarrow> 'a sync_kernel_scheme" where
  "cond_wait_exit c s = set_condvar c (\<lambda>x. x\<lparr>cv_count := cv_count x - 1\<rparr>) s"

definition cond_wait ::
  "'a sync_kernel_scheme sched_class \<Rightarrow> nat \<Rightarrow> nat \<Rightarrow> 'a sync_kernel_scheme \<Rightarrow> (bool \<times> 'a sync_kernel_scheme) option" where
  "cond_wait cls c w s = do {
     let s = set_condvar c (\<lambda>x. x\<lparr>cv_count := cv_count x + 1\<rparr>) s;
     s \<leftarrow> monitor_leave cls (cv_owner (condvars s c)) s;
     (r, s) \<leftarrow> down_start cls (cv_sem (condvars s c)) w s;
     if r then Some (True, cond_wait_exit c s) else Some (False, s)
   }"

definition cond_wait_resume :: "nat \<Rightarrow> nat \<Rightarrow> 'a sync_kernel_scheme \<Rightarrow> 'a sync_kernel_scheme option" where
  "cond_wait_resume c w s = do {
     s \<leftarrow> down_resume (cv_sem (condvars s c)) w s;
     Some (cond_wait_exit c s)
   }"

lemma set_monitor_simps [simp]:
  "monitors (set_monitor m f s) = (monitors s)(m := f (monitors s m))" "condvars (set_monitor m f s) = condvars s"
  "waits (set_monitor m f s) = waits s" "wait_links (set_monitor m f s) = wait_links s"
  "procs (set_monitor m f s) = procs s" "sems (set_monitor m f s) = sems s"
  "current (set_monitor m f s) = current s" "idleproc (set_monitor m f s) = idleproc s"
  "sched_view (set_monitor m f s) = sched_view s" "sync_kernel.more (set_monitor m f s) = sync_kernel.more s"
  by (simp_all add: set_monitor_def sched_view_def)

lemma set_condvar_simps [simp]:
  "condvars (set_condvar c g s) = (condvars s)(c := g (condvars s c))" "monitors (set_condvar c g s) = monitors s"
  "waits (set_condvar c g s) = waits s" "wait_links (set_condvar c g s) = wait_links s"
  "procs (set_condvar c g s) = procs s" "sems (set_condvar c g s) = sems s"
  "current (set_condvar c g s) = current s" "idleproc (set_condvar c g s) = idleproc s"
  "sched_view (set_condvar c g s) = sched_view s" "sync_kernel.more (set_condvar c g s) = sync_kernel.more s"
  by (simp_all add: set_condvar_def sched_view_def)

section \<open>Semaphore operations of processes that wait for themselves\<close>

definition sem_core :: "nat set \<Rightarrow> (nat \<Rightarrow> nat list) \<Rightarrow> 'a kernel_scheme \<Rightarrow> bool" where
  "sem_core S W s \<longleftrightarrow> sync_inv s S W \<and> (\<forall>w\<in>waiters S W. wproc (waits s w) = Some w)"

text \<open>A process that was handed what it waited for and has not run since.\<close>

definition woken :: "'a kernel_scheme \<Rightarrow> nat \<Rightarrow> bool" where
  "woken s p \<longleftrightarrow> ring (wait_links s) (Elem p) [] \<and> wakeup_flags (waits s p) = WT_KSEM"

definition running :: "nat \<Rightarrow> 'a kernel_scheme \<Rightarrow> bool" where
  "running p s \<longleftrightarrow> current s = Some p \<and> state (procs s p) = PROC_RUNNABLE"

lemma running_not_waiting: "sem_core S W s \<Longrightarrow> running p s \<Longrightarrow> p \<notin> waiters S W"
proof
  assume a: "sem_core S W s" "running p s" "p \<in> waiters S W"
  then obtain q where q: "q \<in> S" "p \<in> set (W q)" by (auto simp: waiters_def)
  have i: "sync_inv s S W" and p: "wproc (waits s p) = Some p" using a by (auto simp: sem_core_def)
  show False using waiter_asleep [OF i q] p a(2) by (auto simp: running_def)
qed

lemma sem_coreD:
  assumes "sem_core S W s"
  shows "sync_inv s S W" "q \<in> S \<Longrightarrow> w \<in> set (W q) \<Longrightarrow> wproc (waits s w) = Some w" "q \<in> S \<Longrightarrow> distinct (W q)"
    "q \<in> S \<Longrightarrow> 0 \<le> sem_value (sems s q)" "q \<in> S \<Longrightarrow> W q \<noteq> [] \<Longrightarrow> sem_value (sems s q) = 0"
    "q \<in> S \<Longrightarrow> q' \<in> S \<Longrightarrow> w \<in> set (W q) \<Longrightarrow> w \<in> set (W q') \<Longrightarrow> q = q'"
proof -
  show i: "sync_inv s S W" using assms by (simp add: sem_core_def)
  show "q \<in> S \<Longrightarrow> w \<in> set (W q) \<Longrightarrow> wproc (waits s w) = Some w"
    using assms by (auto simp: sem_core_def waiters_def)
  show "q \<in> S \<Longrightarrow> distinct (W q)" using sem_ok_distinct [OF sync_inv_sem [OF i]] .
  show "q \<in> S \<Longrightarrow> 0 \<le> sem_value (sems s q)" "q \<in> S \<Longrightarrow> W q \<noteq> [] \<Longrightarrow> sem_value (sems s q) = 0"
    using sync_inv_sem [OF i] by (simp_all add: sem_ok_def)
  show "q \<in> S \<Longrightarrow> q' \<in> S \<Longrightarrow> w \<in> set (W q) \<Longrightarrow> w \<in> set (W q') \<Longrightarrow> q = q'"
    using sync_inv_disjoint [OF i] by blast
qed

lemma woken_frame:
  assumes "sync_inv s S W" "q \<in> S" "p \<notin> set (W q)" "woken s p"
  shows "w \<in> set (W q) \<Longrightarrow> ring (list_del_init (wait_links s) (Elem w)) (Elem p) []"
    and "w \<noteq> p \<Longrightarrow> w \<notin> set (W q) \<Longrightarrow>
      ring (list_add_before (list_init (wait_links s) (Elem w)) (Head q) (Elem w)) (Elem p) []"
proof -
  have p: "ring (wait_links s) (Elem p) []" using assms(4) by (simp add: woken_def)
  have r: "ring (wait_links s) (Head q) (map Elem (W q))" using sync_inv_sem [OF assms(1,2)] by (simp add: sem_ok_def)
  show "ring (list_del_init (wait_links s) (Elem w)) (Elem p) []" if w: "w \<in> set (W q)"
  proof -
    obtain us vs where uv: "W q = us @ w # vs" using w split_list by metis
    then have "ring (wait_links s) (Head q) (map Elem us @ Elem w # map Elem vs)" using r by simp
    then show ?thesis by (rule ring_frame_del_init [OF p]) (use assms(3) uv in auto)
  qed
  show "ring (list_add_before (list_init (wait_links s) (Elem w)) (Head q) (Elem w)) (Elem p) []"
    if w: "w \<noteq> p" "w \<notin> set (W q)"
  proof (rule ring_frame_add_before)
    show "ring (list_init (wait_links s) (Elem w)) (Elem p) []" by (rule ring_frame_init [OF p]) (use w in simp)
    show "ring (list_init (wait_links s) (Elem w)) (Head q) (map Elem (W q))"
      by (rule ring_frame_init [OF r]) (use w in auto)
  qed (use assms(3) w in auto)
qed

text \<open>What every semaphore operation leaves alone.\<close>

definition sync_step :: "nat set \<Rightarrow> 'a kernel_scheme \<Rightarrow> 'a kernel_scheme \<Rightarrow> bool" where
  "sync_step P s s' \<longleftrightarrow> kernel.more s' = kernel.more s \<and> idleproc s' = idleproc s \<and>
     (\<forall>p. p \<notin> P \<longrightarrow> woken s p \<longrightarrow> woken s' p)"

lemma sync_stepD:
  assumes "sync_step P s s'"
  shows "kernel.more s' = kernel.more s" "idleproc s' = idleproc s" "p \<notin> P \<Longrightarrow> woken s p \<Longrightarrow> woken s' p"
  using assms by (simp_all add: sync_step_def)

lemma sched_frame_sync:
  assumes "sched_frame s s'"
  shows "wait_links s' = wait_links s" "waits s' = waits s" "sems s' = sems s" "kernel.more s' = kernel.more s"
    "idleproc s' = idleproc s" "woken s' p = woken s p"
  using assms by (simp_all add: sched_frame_def woken_def)

context sched_policy
begin

lemma up_core:
  assumes core: "sem_core S W s" and q: "q \<in> S" and sch: "sched_inv ready detached L s" and L: "waiters S W \<subseteq> L"
  obtains s' where "up cls q s = Some s'" "sem_core S (W(q := tl (W q))) s'" "sched_inv ready detached L s'"
    "sync_step (waiters S W) s s'" "current s' = current s"
    "sems s' = (if W q = [] then (sems s)(q := \<lparr>sem_value = sem_value (sems s q) + 1\<rparr>) else sems s)"
    "W q \<noteq> [] \<Longrightarrow> woken s' (hd (W q))" "\<And>p. p \<notin> waiters S W \<Longrightarrow> state (procs s' p) = state (procs s p)"
proof (cases "W q")
  case Nil
  define s' where "s' = set_sem q (sem_value (sems s q) + 1) s"
  have run: "up cls q s = Some s'" using up_eq(1) [OF sem_coreD(1) [OF core] q Nil] by (simp add: s'_def)
  have W: "W(q := tl (W q)) = W" using Nil by auto
  show thesis
  proof (rule that [OF run])
    show "sem_core S (W(q := tl (W q))) s'"
      using up_step(1) [OF sem_coreD(1) [OF core] q run Nil] core unfolding W by (simp add: sem_core_def s'_def)
    show "sched_inv ready detached L s'" using sch inv_cong [of s' s L] by (simp add: s'_def)
  qed (simp_all add: s'_def sync_step_def woken_def Nil, simp add: set_sem_def)
next
  case (Cons w ws)
  note inv = sem_coreD(1) [OF core]
  have w: "w \<in> waiters S W" using q Cons by (auto simp: waiters_def intro: bexI [of _ q])
  have p: "wproc (waits s w) = Some w" using core w by (simp add: sem_core_def)
  obtain s' where s': "up cls q s = Some s'" "sched_inv ready detached L s'" "sync_inv s' S (W(q := ws))"
    "state (procs s' w) = PROC_RUNNABLE" "sems s' = sems s"
    using up_total [OF inv q Cons p _ sch] w L by blast
  have wk: "wakeup_proc cls w (unqueue w WT_KSEM s) = Some s'" using up_eq(2) [OF inv q Cons p] s'(1) by simp
  note fr = sched_frame_sync [OF wakeup_frame(1) [OF wk]]
  have m: "kernel.more s' = kernel.more s" using fr(4) by (simp add: unqueue_def set_wait_def)
  have wk': "woken s' p" if "p \<notin> waiters S W" "woken s p" for p
  proof -
    have pq: "p \<notin> set (W q)" "p \<noteq> w" using that q w by (auto simp: waiters_def)
    then have "ring (list_del_init (wait_links s) (Elem w)) (Elem p) []"
      using woken_frame(1) [OF inv q pq(1) that(2)] Cons by simp
    then show ?thesis using that(2) pq(2) fr(1,2) by (simp add: woken_def)
  qed
  have st: "state (procs s' p) = state (procs s p)" if "p \<noteq> w" for p
    using bare_eq_fields(1) [OF wakeup_frame(3) [OF wk that]] by simp
  show thesis
  proof (rule that [OF s'(1)])
    have "waiters S (W(q := ws)) \<subseteq> waiters S W" using Cons by (auto simp: waiters_def split: if_splits)
    then show "sem_core S (W(q := tl (W q))) s'" using s'(3) core fr(2) Cons by (auto simp: sem_core_def)
    show "sync_step (waiters S W) s s'" using m fr(5) wk' by (simp add: sync_step_def)
    show "current s' = current s" using wakeup_frame(2) [OF wk] by simp
    show "woken s' (hd (W q))" using up_step(2) [OF inv q s'(1) Cons] Cons by (simp add: woken_def)
    show "state (procs s' p) = state (procs s p)" if "p \<notin> waiters S W" for p
      by (rule st) (use w that in auto)
  qed (use s' Cons in auto)
qed

lemma sched_inv_sleep:
  assumes "sched_inv ready detached L s" "current s = Some c" "sched_view s' = sched_view s" "current s' = Some c"
    "idleproc s' = idleproc s" "\<And>p. p \<noteq> c \<Longrightarrow> state (procs s' p) = state (procs s p)"
  shows "sched_inv ready detached L s'"
proof -
  have "waiting_cpu L s' = waiting_cpu L s" using assms(2,4,5,6) by (auto simp: waiting_cpu_def)
  then show ?thesis using assms ready_view [OF assms(3)] detached_view [OF assms(3)] by (simp add: sched_inv_def)
qed

lemma down_core:
  assumes core: "sem_core S W s" and q: "q \<in> S" and sch: "sched_inv ready detached L s"
    and c: "current s = Some p" "state (procs s p) \<noteq> PROC_SLEEPING" and p: "p \<notin> waiters S W"
  obtains r s' where "down_start cls q p s = Some (r, s')" "sched_inv ready detached L s'"
    "sync_step (insert p (waiters S W)) s s'" "r \<longleftrightarrow> 0 < sem_value (sems s q)"
    "sem_core S (if r then W else W(q := W q @ [p])) s'"
    "sems s' = (if r then (sems s)(q := \<lparr>sem_value = sem_value (sems s q) - 1\<rparr>) else sems s)"
    "r \<Longrightarrow> current s' = current s \<and> procs s' = procs s \<and> sync_step {} s s'"
proof (cases "0 < sem_value (sems s q)")
  case True
  define s' where "s' = set_sem q (sem_value (sems s q) - 1) s"
  have run: "down_start cls q p s = Some (True, s')"
    using True by (simp add: down_start_def down_enter_def s'_def)
  show thesis
  proof (rule that [OF run])
    show "sched_inv ready detached L s'" using sch inv_cong [of s' s L] by (simp add: s'_def)
    show "sem_core S (if True then W else W(q := W q @ [p])) s'"
      using down_start_step(1) [OF sem_coreD(1) [OF core] q p c run] core by (simp add: sem_core_def s'_def)
  qed (use True in \<open>simp_all add: s'_def sync_step_def woken_def\<close>, simp_all add: set_sem_def)
next
  case False
  define s1 where "s1 = set_wait p (\<lambda>x. x\<lparr>wqueue := Some q\<rparr>) (set_proc p (\<lambda>x. x\<lparr>state := PROC_SLEEPING, wait_state := WT_KSEM\<rparr>)
    (wait_init p (Some p) s))"
  define s2 where "s2 = s1\<lparr>wait_links := list_add_before (wait_links s1) (Head q) (Elem p)\<rparr>"
  have e: "list_empty (list_init h (Elem p)) (Elem p)" for h by (simp add: list_empty_def list_init_def)
  have w: "wait_current_set q p WT_KSEM s = Some s2"
    by (simp add: wait_current_set_def c wait_queue_add_def s2_def s1_def wait_init_def Let_def e)
      (simp add: set_wait_def set_proc_def)
  have s2: "sched_view s2 = sched_view s" "current s2 = Some p" "idleproc s2 = idleproc s" "kernel.more s2 = kernel.more s"
    "\<And>x. x \<noteq> p \<Longrightarrow> state (procs s2 x) = state (procs s x)" "sems s2 = sems s"
    "wait_links s2 = list_add_before (list_init (wait_links s) (Elem p)) (Head q) (Elem p)"
    "\<And>x. x \<noteq> p \<Longrightarrow> waits s2 x = waits s x" "wproc (waits s2 p) = Some p"
    using c(1) by (simp_all add: s2_def s1_def wait_init_def set_wait_def set_proc_def Let_def sched_view_def fun_eq_iff)
  obtain s' n where s': "schedule cls s2 = Some s'" "sched_inv ready detached L s'"
    by (rule schedule_inv [OF sched_inv_sleep [OF sch c(1) s2(1,2,3,5)]]) blast
  have run: "down_start cls q p s = Some (False, s')"
    using False w s'(1) by (simp add: down_start_def down_enter_def)
  note fr = sched_frame_sync [OF schedule_frame(1) [OF s'(1)]]
  have W: "waiters S (W(q := W q @ [p])) = insert p (waiters S W)"
    using q by (auto simp: waiters_def intro: bexI [of _ q] split: if_splits)
  show thesis
  proof (rule that [OF run s'(2)])
    have "woken s' x" if x: "x \<notin> insert p (waiters S W)" "woken s x" for x
    proof -
      have "x \<notin> set (W q)" "p \<notin> set (W q)" using x p q by (auto simp: waiters_def)
      then have "ring (list_add_before (list_init (wait_links s) (Elem p)) (Head q) (Elem p)) (Elem x) []"
        using woken_frame(2) [OF sem_coreD(1) [OF core] q _ x(2), of p] x(1) by simp
      then show ?thesis using x fr(1,2) s2(7,8) by (simp add: woken_def)
    qed
    then show "sync_step (insert p (waiters S W)) s s'" using fr(4,5) s2(3,4) by (simp add: sync_step_def)
    show "sem_core S (if False then W else W(q := W q @ [p])) s'"
      using down_start_step(2) [OF sem_coreD(1) [OF core] q p c run] core fr(2) s2(8,9) p
      by (auto simp: sem_core_def W) (metis s2(8))
  qed (use False fr(3) s2(6) in auto)
qed

end

lemma resume_core: "woken s p \<Longrightarrow> down_resume q p s = Some s"
  by (simp add: woken_def down_resume_detached)

section \<open>Who may be inside\<close>

text \<open>Where a process is with respect to a monitor: outside, inside, or asleep in a call of \<^verbatim>\<open>down\<close> for the
  mutex, in \<open>cond_wait\<close> or in \<open>cond_signal\<close>.\<close>

datatype place = Outside | Inside | At_mutex | At_cond nat | At_next nat

fun place_sem :: "nat \<Rightarrow> nat \<Rightarrow> (nat \<Rightarrow> nat) \<Rightarrow> place \<Rightarrow> nat option" where
  "place_sem M N CS At_mutex = Some M"
| "place_sem M N CS (At_cond c) = Some (CS c)"
| "place_sem M N CS (At_next c) = Some N"
| "place_sem M N CS Outside = None"
| "place_sem M N CS Inside = None"

text \<open>The processes with the right to be inside: those inside, and those that have been handed what
  they waited for and have not run since.\<close>

definition holders :: "nat \<Rightarrow> nat \<Rightarrow> (nat \<Rightarrow> nat) \<Rightarrow> (nat \<Rightarrow> place) \<Rightarrow> (nat \<Rightarrow> nat list) \<Rightarrow> nat set" where
  "holders M N CS pc W = {p. pc p = Inside \<or> (\<exists>q. place_sem M N CS (pc p) = Some q \<and> p \<notin> set (W q))}"

definition signallers :: "(nat \<Rightarrow> place) \<Rightarrow> nat set" where
  "signallers pc = {p. \<exists>c. pc p = At_next c}"

definition baton ::
  "nat \<Rightarrow> nat \<Rightarrow> (nat \<Rightarrow> nat) \<Rightarrow> nat set \<Rightarrow> nat set \<Rightarrow> (nat \<Rightarrow> place) \<Rightarrow> (nat \<Rightarrow> nat list) \<Rightarrow> int \<Rightarrow> int \<Rightarrow> (nat \<Rightarrow> int) \<Rightarrow> bool" where
  "baton M N CS C L pc W v nc cnt \<longleftrightarrow>
     finite {p. pc p \<noteq> Outside} \<and> {p. pc p \<noteq> Outside} \<subseteq> L \<and>
     (\<forall>p c. pc p = At_cond c \<or> pc p = At_next c \<longrightarrow> c \<in> C) \<and>
     (\<forall>q\<in>insert M (insert N (CS ` C)). distinct (W q) \<and> (\<forall>p\<in>set (W q). place_sem M N CS (pc p) = Some q)) \<and>
     nc = int (card (signallers pc)) \<and> (\<forall>c\<in>C. cnt c = int (card {p. pc p = At_cond c})) \<and>
     (if v = 0 then \<exists>h. holders M N CS pc W = {h} else v = 1 \<and> holders M N CS pc W = {} \<and> nc = 0)"

lemma batonD:
  assumes "baton M N CS C L pc W v nc cnt"
  shows "finite {p. pc p \<noteq> Outside}" "pc p \<noteq> Outside \<Longrightarrow> p \<in> L" "pc p = At_cond c \<or> pc p = At_next c \<Longrightarrow> c \<in> C"
    "q \<in> insert M (insert N (CS ` C)) \<Longrightarrow> p \<in> set (W q) \<Longrightarrow> place_sem M N CS (pc p) = Some q"
    "q \<in> insert M (insert N (CS ` C)) \<Longrightarrow> distinct (W q)"
    "nc = int (card (signallers pc))" "c \<in> C \<Longrightarrow> cnt c = int (card {p. pc p = At_cond c})" "v = 0 \<or> v = 1"
    "v = 1 \<Longrightarrow> holders M N CS pc W = {} \<and> nc = 0" "v = 0 \<Longrightarrow> \<exists>h. holders M N CS pc W = {h}"
  using assms by (auto simp: baton_def split: if_splits)

lemma baton_holder:
  assumes "baton M N CS C L pc W v nc cnt" "h \<in> holders M N CS pc W"
  shows "v = 0" "holders M N CS pc W = {h}"
proof -
  show "v = 0" using batonD(8,9) [OF assms(1)] assms(2) by blast
  then show "holders M N CS pc W = {h}" using batonD(10) [OF assms(1)] assms(2) by auto
qed

text \<open>While somebody is inside, whoever sleeps is still in the queue.\<close>

lemma baton_inside:
  assumes b: "baton M N CS C L pc W v nc cnt" and p: "pc p = Inside"
  shows "v = 0" "holders M N CS pc W = {p}" "place_sem M N CS (pc p') = Some q \<Longrightarrow> p' \<in> set (W q)"
    "0 < nc \<Longrightarrow> W N \<noteq> []" "c \<in> C \<Longrightarrow> 0 < cnt c \<Longrightarrow> W (CS c) \<noteq> []" "0 \<le> nc" "c \<in> C \<Longrightarrow> 0 \<le> cnt c"
proof -
  have h: "p \<in> holders M N CS pc W" using p by (simp add: holders_def)
  show v: "v = 0" "holders M N CS pc W = {p}" using baton_holder [OF b h] by auto
  show q: "place_sem M N CS (pc p') = Some q \<Longrightarrow> p' \<in> set (W q)" for p' q
    using v(2) p by (cases "p' = p") (auto simp: holders_def)
  show "W N \<noteq> []" if "0 < nc"
  proof -
    have "signallers pc \<noteq> {}" using that batonD(6) [OF b] by auto
    then obtain p' c where "pc p' = At_next c" by (auto simp: signallers_def)
    then show ?thesis using q [of p' N] by auto
  qed
  show "W (CS c) \<noteq> []" if c: "c \<in> C" "0 < cnt c"
  proof -
    have "{p. pc p = At_cond c} \<noteq> {}"
    proof
      assume "{p. pc p = At_cond c} = {}"
      then show False using batonD(7) [OF b c(1)] c(2) by simp
    qed
    then obtain p' where "pc p' = At_cond c" by auto
    then show ?thesis using q [of p' "CS c"] by auto
  qed
  show "0 \<le> nc" "c \<in> C \<Longrightarrow> 0 \<le> cnt c" using batonD(6,7) [OF b] by auto
qed

text \<open>The moves. \<open>mon_distinct\<close> says that the semaphores are different ones.\<close>

definition mon_distinct :: "nat \<Rightarrow> nat \<Rightarrow> (nat \<Rightarrow> nat) \<Rightarrow> nat set \<Rightarrow> bool" where
  "mon_distinct M N CS C \<longleftrightarrow> M \<noteq> N \<and> M \<notin> CS ` C \<and> N \<notin> CS ` C \<and> inj_on CS C"

lemma signallers_upd: "signallers (pc(p := pl)) = (if \<exists>c. pl = At_next c then insert p (signallers pc) else signallers pc - {p})"
  by (auto simp: signallers_def)

lemma at_cond_upd: "{x. (pc(p := pl)) x = At_cond c} =
    (if pl = At_cond c then insert p {x. pc x = At_cond c} else {x. pc x = At_cond c} - {p})"
  by auto

lemma outside_upd: "{x. (pc(p := pl)) x \<noteq> Outside} =
    (if pl = Outside then {x. pc x \<noteq> Outside} - {p} else insert p {x. pc x \<noteq> Outside})"
  by auto

lemma batonI:
  assumes "finite {p. pc p \<noteq> Outside}" "\<And>p. pc p \<noteq> Outside \<Longrightarrow> p \<in> L"
    "\<And>p c. pc p = At_cond c \<or> pc p = At_next c \<Longrightarrow> c \<in> C"
    "\<And>q. q \<in> insert M (insert N (CS ` C)) \<Longrightarrow> distinct (W q)"
    "\<And>q p. q \<in> insert M (insert N (CS ` C)) \<Longrightarrow> p \<in> set (W q) \<Longrightarrow> place_sem M N CS (pc p) = Some q"
    "nc = int (card (signallers pc))" "\<And>c. c \<in> C \<Longrightarrow> cnt c = int (card {p. pc p = At_cond c})"
    "v = 0 \<and> holders M N CS pc W = {h} \<or> v = 1 \<and> holders M N CS pc W = {} \<and> nc = 0"
  shows "baton M N CS C L pc W v nc cnt"
proof -
  have "{p. pc p \<noteq> Outside} \<subseteq> L" using assms(2) by blast
  moreover have "if v = 0 then \<exists>h. holders M N CS pc W = {h} else v = 1 \<and> holders M N CS pc W = {} \<and> nc = 0"
    using assms(8) by auto
  ultimately show ?thesis unfolding baton_def using assms(1,3-7) by blast
qed

lemma baton_token:
  assumes "baton M N CS C L pc W v nc cnt"
  obtains h where "v = 0 \<and> holders M N CS pc W = {h} \<or> v = 1 \<and> holders M N CS pc W = {} \<and> nc = 0"
  using assms by (cases "v = 0") (auto simp: baton_def)

text \<open>Taking the free mutex.\<close>

lemma baton_take:
  assumes b: "baton M N CS C L pc W v nc cnt" and p: "pc p = Outside" "p \<in> L" and v: "0 < v"
  shows "baton M N CS C L (pc(p := Inside)) W (v - 1) nc cnt"
proof (rule batonI)
  have v1: "v = 1" using batonD(8) [OF b] v by auto
  have "holders M N CS (pc(p := Inside)) W = insert p (holders M N CS pc W)" using p by (auto simp: holders_def)
  then show "v - 1 = 0 \<and> holders M N CS (pc(p := Inside)) W = {p} \<or>
      v - 1 = 1 \<and> holders M N CS (pc(p := Inside)) W = {} \<and> nc = 0" using batonD(9) [OF b v1] v1 by simp
  show "finite {x. (pc(p := Inside)) x \<noteq> Outside}" unfolding outside_upd using batonD(1) [OF b] by simp
  show "nc = int (card (signallers (pc(p := Inside))))"
    using batonD(6) [OF b] p by (simp add: signallers_upd) (simp add: signallers_def)
  show "cnt c = int (card {x. (pc(p := Inside)) x = At_cond c})" if "c \<in> C" for c
    using batonD(7) [OF b that] p unfolding at_cond_upd by simp
  show "place_sem M N CS ((pc(p := Inside)) x) = Some q" if "q \<in> insert M (insert N (CS ` C))" "x \<in> set (W q)" for q x
    using batonD(4) [OF b that] p by auto
qed (use batonD(2,3,5) [OF b] p(2) in \<open>auto split: if_splits\<close>)

text \<open>A process outside goes to sleep; \<open>nc'\<close> and \<open>cnt'\<close> count it.\<close>

lemma baton_block:
  assumes b: "baton M N CS C L pc W v nc cnt" and sh: "mon_distinct M N CS C" and p: "pc p = Outside" "p \<in> L"
    and pl: "place_sem M N CS pl = Some q" "\<And>c. pl = At_cond c \<or> pl = At_next c \<Longrightarrow> c \<in> C"
    and v: "\<And>c. pl = At_next c \<Longrightarrow> v = 0"
  shows "baton M N CS C L (pc(p := pl)) (W(q := W q @ [p])) v (if \<exists>c. pl = At_next c then nc + 1 else nc)
    (case pl of At_cond c \<Rightarrow> cnt(c := cnt c + 1) | _ \<Rightarrow> cnt)"
proof -
  have q: "q \<in> insert M (insert N (CS ` C))" using pl by (cases pl) auto
  have np: "p \<notin> set (W q')" if "q' \<in> insert M (insert N (CS ` C))" for q' using batonD(4) [OF b that, of p] p by auto
  have h: "holders M N CS (pc(p := pl)) (W(q := W q @ [p])) = holders M N CS pc W"
    using p pl(1) by (auto simp: holders_def split: if_splits)
  have fs: "finite (signallers pc)" "p \<notin> signallers pc" "\<And>c. finite {x. pc x = At_cond c}"
    using p by (auto simp: signallers_def intro: finite_subset [OF _ batonD(1) [OF b]])
  obtain h where "v = 0 \<and> holders M N CS pc W = {h} \<or> v = 1 \<and> holders M N CS pc W = {} \<and> nc = 0"
    using baton_token [OF b] .
  then show ?thesis
  proof (intro batonI [where h = h], unfold h)
    show "finite {x. (pc(p := pl)) x \<noteq> Outside}" unfolding outside_upd using batonD(1) [OF b] by simp
    show "(if \<exists>c. pl = At_next c then nc + 1 else nc) = int (card (signallers (pc(p := pl))))"
      using batonD(6) [OF b] fs by (simp add: signallers_upd)
    show "(case pl of At_cond c \<Rightarrow> cnt(c := cnt c + 1) | _ \<Rightarrow> cnt) c = int (card {x. (pc(p := pl)) x = At_cond c})" if "c \<in> C" for c
      using batonD(7) [OF b that] fs(3) [of c] p(1) unfolding at_cond_upd by (auto split: place.split)
    show "place_sem M N CS ((pc(p := pl)) x) = Some q'"
      if "q' \<in> insert M (insert N (CS ` C))" "x \<in> set ((W(q := W q @ [p])) q')" for q' x
      using batonD(4) [OF b that(1), of x] that(2) np [OF that(1)] pl(1) by (auto split: if_splits)
    show "distinct ((W(q := W q @ [p])) q')" if "q' \<in> insert M (insert N (CS ` C))" for q'
      using batonD(5) [OF b that] np [OF that] by (cases "q' = q") auto
  qed (use batonD(2,3) [OF b] p(2) pl(2) v in \<open>auto split: if_splits\<close>)
qed

text \<open>A process that was handed what it waited for goes on, and is counted no more.\<close>

lemma baton_wake:
  assumes b: "baton M N CS C L pc W v nc cnt" and pl: "place_sem M N CS (pc p) = Some q" "p \<notin> set (W q)"
  shows "baton M N CS C L (pc(p := Inside)) W v (if \<exists>c. pc p = At_next c then nc - 1 else nc)
    (case pc p of At_cond c \<Rightarrow> cnt(c := cnt c - 1) | _ \<Rightarrow> cnt)" "v = 0"
proof -
  have hp: "p \<in> holders M N CS pc W" using pl by (auto simp: holders_def)
  show v: "v = 0" using baton_holder(1) [OF b hp] .
  have h: "holders M N CS pc W = {p}" using baton_holder(2) [OF b hp] .
  have h': "holders M N CS (pc(p := Inside)) W = {p}" using h by (auto simp: holders_def)
  have fs: "finite (signallers pc)" "\<And>c. finite {x. pc x = At_cond c}"
    by (auto simp: signallers_def intro: finite_subset [OF _ batonD(1) [OF b]])
  have np: "p \<notin> set (W q')" if "q' \<in> insert M (insert N (CS ` C))" for q'
    using batonD(4) [OF b that, of p] pl by auto
  show "baton M N CS C L (pc(p := Inside)) W v (if \<exists>c. pc p = At_next c then nc - 1 else nc)
    (case pc p of At_cond c \<Rightarrow> cnt(c := cnt c - 1) | _ \<Rightarrow> cnt)"
  proof (intro batonI [where h = p])
    show "finite {x. (pc(p := Inside)) x \<noteq> Outside}" unfolding outside_upd using batonD(1) [OF b] by simp
    show "(if \<exists>c. pc p = At_next c then nc - 1 else nc) = int (card (signallers (pc(p := Inside))))"
    proof (cases "p \<in> signallers pc")
      case True
      then have "0 < card (signallers pc)" using fs(1) card_gt_0_iff by blast
      moreover have "\<exists>c. pc p = At_next c" using True by (simp add: signallers_def)
      ultimately show ?thesis using batonD(6) [OF b] True fs(1) by (simp add: signallers_upd)
    next
      case False
      then have "\<not> (\<exists>c. pc p = At_next c)" by (simp add: signallers_def)
      then show ?thesis using batonD(6) [OF b] False by (simp add: signallers_upd)
    qed
    show "(case pc p of At_cond c \<Rightarrow> cnt(c := cnt c - 1) | _ \<Rightarrow> cnt) c = int (card {x. (pc(p := Inside)) x = At_cond c})"
      if c: "c \<in> C" for c
    proof (cases "pc p = At_cond c")
      case True
      then have "0 < card {x. pc x = At_cond c}" using fs(2) [of c] by (auto simp: card_gt_0_iff)
      then show ?thesis using batonD(7) [OF b c] True fs(2) [of c] unfolding at_cond_upd by simp
    next
      case False
      then show ?thesis using batonD(7) [OF b c] unfolding at_cond_upd by (auto split: place.split)
    qed
    show "place_sem M N CS ((pc(p := Inside)) x) = Some q'"
      if "q' \<in> insert M (insert N (CS ` C))" "x \<in> set (W q')" for q' x
      using batonD(4) [OF b that] that(2) np [OF that(1)] by auto
    show "x \<in> L" if "(pc(p := Inside)) x \<noteq> Outside" for x
    proof -
      have "pc p \<noteq> Outside" using pl by auto
      then show ?thesis using batonD(2) [OF b, of x] that by (cases "x = p") auto
    qed
  qed (use batonD(3,5) [OF b] h' v in \<open>auto split: if_splits\<close>)
qed

text \<open>The process inside hands the monitor to the first process of a queue.\<close>

lemma baton_hand:
  assumes b: "baton M N CS C L pc W v nc cnt" and sh: "mon_distinct M N CS C" and p: "pc p = Inside"
    and q: "q \<in> insert M (insert N (CS ` C))" "W q \<noteq> []"
  shows "baton M N CS C L (pc(p := Outside)) (W(q := tl (W q))) v nc cnt"
    "holders M N CS (pc(p := Outside)) (W(q := tl (W q))) = {hd (W q)}"
proof -
  obtain w ws where W: "W q = w # ws" using q(2) by (cases "W q") auto
  have w: "place_sem M N CS (pc w) = Some q" using batonD(4) [OF b q(1)] W by simp
  have d: "w \<notin> set ws" using batonD(5) [OF b q(1)] W by simp
  note i = baton_inside [OF b p]
  have wp: "w \<noteq> p" using w p by auto
  have H: "x \<in> holders M N CS (pc(p := Outside)) (W(q := tl (W q))) \<longleftrightarrow> x = w" for x
  proof (cases "x = p")
    case True
    then show ?thesis using wp by (auto simp: holders_def)
  next
    case False
    then have "pc x \<noteq> Inside" using i(2) by (auto simp: holders_def)
    moreover have "place_sem M N CS (pc x) = Some q' \<Longrightarrow> x \<notin> set ((W(q := tl (W q))) q') \<longleftrightarrow> x = w" for q'
      using i(3) [of x q'] w d W by (cases "q' = q") auto
    ultimately show ?thesis using False w by (auto simp: holders_def)
  qed
  show h: "holders M N CS (pc(p := Outside)) (W(q := tl (W q))) = {hd (W q)}" using H W by auto
  show "baton M N CS C L (pc(p := Outside)) (W(q := tl (W q))) v nc cnt"
  proof (rule batonI [where h = w])
    show "finite {x. (pc(p := Outside)) x \<noteq> Outside}" unfolding outside_upd using batonD(1) [OF b] by simp
    show "nc = int (card (signallers (pc(p := Outside))))"
      using batonD(6) [OF b] p by (simp add: signallers_upd) (simp add: signallers_def)
    show "cnt c = int (card {x. (pc(p := Outside)) x = At_cond c})" if "c \<in> C" for c
      using batonD(7) [OF b that] p unfolding at_cond_upd by simp
    show "distinct ((W(q := tl (W q))) q')" if "q' \<in> insert M (insert N (CS ` C))" for q'
      using batonD(5) [OF b that] by (cases "q' = q") (auto simp: distinct_tl)
    show "place_sem M N CS ((pc(p := Outside)) x) = Some q'"
      if "q' \<in> insert M (insert N (CS ` C))" "x \<in> set ((W(q := tl (W q))) q')" for q' x
    proof -
      have "x \<in> set (W q')" using that(2) W by (auto split: if_splits)
      then show ?thesis using batonD(4) [OF b that(1), of x] p by (cases "x = p") auto
    qed
    show "v = 0 \<and> holders M N CS (pc(p := Outside)) (W(q := tl (W q))) = {w} \<or>
      v = 1 \<and> holders M N CS (pc(p := Outside)) (W(q := tl (W q))) = {} \<and> nc = 0" using i(1) h W by simp
  qed (use batonD(2,3) [OF b] in \<open>auto split: if_splits\<close>)
qed

text \<open>The process inside leaves and nobody waits for the mutex.\<close>

lemma baton_free:
  assumes b: "baton M N CS C L pc W v nc cnt" and p: "pc p = Inside" and nc: "nc = 0"
  shows "baton M N CS C L (pc(p := Outside)) W (v + 1) nc cnt"
proof (rule batonI)
  note i = baton_inside [OF b p]
  have "x \<notin> holders M N CS (pc(p := Outside)) W" for x
    using i(2) i(3) [of x] by (cases "x = p") (auto simp: holders_def)
  then show "v + 1 = 0 \<and> holders M N CS (pc(p := Outside)) W = {p} \<or>
      v + 1 = 1 \<and> holders M N CS (pc(p := Outside)) W = {} \<and> nc = 0" using i(1) nc by auto
  show "finite {x. (pc(p := Outside)) x \<noteq> Outside}" unfolding outside_upd using batonD(1) [OF b] by simp
  show "nc = int (card (signallers (pc(p := Outside))))"
    using batonD(6) [OF b] p by (simp add: signallers_upd) (simp add: signallers_def)
  show "cnt c = int (card {x. (pc(p := Outside)) x = At_cond c})" if "c \<in> C" for c
    using batonD(7) [OF b that] p unfolding at_cond_upd by simp
  show "place_sem M N CS ((pc(p := Outside)) x) = Some q" if "q \<in> insert M (insert N (CS ` C))" "x \<in> set (W q)" for q x
    using batonD(4) [OF b that] p by auto
qed (use batonD(2,3,5) [OF b] in \<open>auto split: if_splits\<close>)

section \<open>The invariant on the state\<close>

abbreviation mutex_of :: "nat \<Rightarrow> 'a sync_kernel_scheme \<Rightarrow> nat" where
  "mutex_of m s \<equiv> mt_mutex (monitors s m)"

abbreviation next_of :: "nat \<Rightarrow> 'a sync_kernel_scheme \<Rightarrow> nat" where
  "next_of m s \<equiv> mt_next (monitors s m)"

abbreviation sem_of :: "'a sync_kernel_scheme \<Rightarrow> nat \<Rightarrow> nat" where
  "sem_of s \<equiv> (\<lambda>c. cv_sem (condvars s c))"

definition mon_sems :: "nat \<Rightarrow> nat set \<Rightarrow> 'a sync_kernel_scheme \<Rightarrow> nat set" where
  "mon_sems m C s = insert (mutex_of m s) (insert (next_of m s) (sem_of s ` C))"

definition mon_layout :: "nat \<Rightarrow> nat set \<Rightarrow> 'a sync_kernel_scheme \<Rightarrow> bool" where
  "mon_layout m C s \<longleftrightarrow> mon_distinct (mutex_of m s) (next_of m s) (sem_of s) C \<and> (\<forall>c\<in>C. cv_owner (condvars s c) = m)"

text \<open>\<open>nc\<close> and \<open>cnt\<close> are the numbers of sleeping signallers and waiters; in \<open>mon_inv\<close> they are what the
  monitor records, which is not so in the middle of a call.\<close>

definition mon_rel ::
  "nat \<Rightarrow> nat set \<Rightarrow> nat set \<Rightarrow> (nat \<Rightarrow> place) \<Rightarrow> (nat \<Rightarrow> nat list) \<Rightarrow> int \<Rightarrow> (nat \<Rightarrow> int) \<Rightarrow> 'a sync_kernel_scheme \<Rightarrow> bool" where
  "mon_rel m C L pc W nc cnt s \<longleftrightarrow> mon_layout m C s \<and> sem_core (mon_sems m C s) W s \<and>
     baton (mutex_of m s) (next_of m s) (sem_of s) C L pc W (sem_value (sems s (mutex_of m s))) nc cnt \<and>
     sem_value (sems s (next_of m s)) = 0 \<and> (\<forall>c\<in>C. sem_value (sems s (sem_of s c)) = 0) \<and>
     (\<forall>p q. place_sem (mutex_of m s) (next_of m s) (sem_of s) (pc p) = Some q \<longrightarrow> p \<notin> set (W q) \<longrightarrow> woken s p)"

definition mon_inv ::
  "nat \<Rightarrow> nat set \<Rightarrow> nat set \<Rightarrow> (nat \<Rightarrow> place) \<Rightarrow> (nat \<Rightarrow> nat list) \<Rightarrow> 'a sync_kernel_scheme \<Rightarrow> bool" where
  "mon_inv m C L pc W s \<longleftrightarrow> mon_rel m C L pc W (next_count (monitors s m)) (\<lambda>c. cv_count (condvars s c)) s"

lemma mon_relD:
  assumes "mon_rel m C L pc W nc cnt s"
  shows "mon_layout m C s" "sem_core (mon_sems m C s) W s"
    "baton (mutex_of m s) (next_of m s) (sem_of s) C L pc W (sem_value (sems s (mutex_of m s))) nc cnt"
    "sem_value (sems s (next_of m s)) = 0" "c \<in> C \<Longrightarrow> sem_value (sems s (sem_of s c)) = 0"
    "place_sem (mutex_of m s) (next_of m s) (sem_of s) (pc p) = Some q \<Longrightarrow> p \<notin> set (W q) \<Longrightarrow> woken s p"
    "mon_distinct (mutex_of m s) (next_of m s) (sem_of s) C"
  using assms by (auto simp: mon_rel_def mon_layout_def)

text \<open>What the relation reads of the state.\<close>

definition mon_view where
  "mon_view m C s = (mutex_of m s, next_of m s, sem_of s, \<lambda>c. if c \<in> C then cv_owner (condvars s c) else 0,
     wait_links s, waits s, sems s)"

lemma sem_core_cong:
  fixes s s' :: "'a kernel_scheme"
  assumes "sem_core S W s" "wait_links s' = wait_links s" "waits s' = waits s" "sems s' = sems s"
    "\<And>p. state (procs s p) = PROC_SLEEPING \<Longrightarrow> wait_state (procs s p) = WT_KSEM \<Longrightarrow>
      state (procs s' p) = PROC_SLEEPING \<and> wait_state (procs s' p) = WT_KSEM"
  shows "sem_core S W s'"
proof -
  have "sync_same S W s s'"
    unfolding sync_same_def
  proof (intro conjI ballI allI impI assms(2-4))
    fix w p assume "w \<in> waiters S W" "wproc (waits s w) = Some p"
    then obtain q where "q \<in> S" "w \<in> set (W q)" by (auto simp: waiters_def)
    then have "state (procs s p) = PROC_SLEEPING" "wait_state (procs s p) = WT_KSEM"
      using waiter_asleep [OF sem_coreD(1) [OF assms(1)], of q w] \<open>wproc (waits s w) = Some p\<close> by auto
    then show "state (procs s' p) = state (procs s p)" "wait_state (procs s' p) = wait_state (procs s p)"
      using assms(5) [of p] by auto
  qed
  then show ?thesis using assms(1,3) sync_inv_same by (auto simp: sem_core_def)
qed

lemma mon_rel_cong:
  fixes s s' :: "'a sync_kernel_scheme"
  assumes r: "mon_rel m C L pc W nc cnt s" and v: "mon_view m C s' = mon_view m C s"
    and st: "\<And>p. state (procs s p) = PROC_SLEEPING \<Longrightarrow> wait_state (procs s p) = WT_KSEM \<Longrightarrow>
      state (procs s' p) = PROC_SLEEPING \<and> wait_state (procs s' p) = WT_KSEM"
  shows "mon_rel m C L pc W nc cnt s'"
proof -
  have e: "mutex_of m s' = mutex_of m s" "next_of m s' = next_of m s" "sem_of s' = sem_of s" "sems s' = sems s"
    "wait_links s' = wait_links s" "waits s' = waits s"
    "(\<lambda>c. if c \<in> C then cv_owner (condvars s' c) else 0) = (\<lambda>c. if c \<in> C then cv_owner (condvars s c) else 0)"
    using v by (simp_all add: mon_view_def)
  have o: "cv_owner (condvars s' c) = cv_owner (condvars s c)" if "c \<in> C" for c
    using fun_cong [OF e(7), of c] that by simp
  have "sem_core (mon_sems m C s) W s'" by (rule sem_core_cong [OF mon_relD(2) [OF r] e(5,6,4) st])
  moreover have "woken s' = woken s" by (simp add: fun_eq_iff woken_def e)
  moreover have "cv_sem (condvars s' c) = cv_sem (condvars s c)" for c using fun_cong [OF e(3), of c] .
  ultimately show ?thesis using r o unfolding mon_rel_def mon_layout_def mon_sems_def e by simp
qed

lemma more_sync:
  assumes "kernel.more s' = kernel.more s"
  shows "monitors s' = monitors s" "condvars s' = condvars s" "sync_kernel.more s' = sync_kernel.more s"
  using assms by (cases s; cases s'; simp)+

lemma mon_rel_sync_step:
  fixes s s' :: "'a sync_kernel_scheme"
  assumes r: "mon_rel m C L pc W nc cnt s" and more: "sync_step P s s'"
    and core: "sem_core (mon_sems m C s) W' s'"
    and b: "baton (mutex_of m s) (next_of m s) (sem_of s) C L pc' W' (sem_value (sems s' (mutex_of m s))) nc' cnt'"
    and z: "\<And>q. q \<in> mon_sems m C s \<Longrightarrow> q \<noteq> mutex_of m s \<Longrightarrow> sem_value (sems s' q) = 0"
    and w: "\<And>p q. place_sem (mutex_of m s) (next_of m s) (sem_of s) (pc' p) = Some q \<Longrightarrow> p \<notin> set (W' q) \<Longrightarrow>
      woken s' p"
  shows "mon_rel m C L pc' W' nc' cnt' s'"
proof -
  note e = more_sync [OF sync_stepD(1) [OF more]]
  have d: "next_of m s \<noteq> mutex_of m s" "\<And>c. c \<in> C \<Longrightarrow> sem_of s c \<noteq> mutex_of m s"
    using mon_relD(7) [OF r] by (auto simp: mon_distinct_def image_iff)
  have "sem_value (sems s' (next_of m s)) = 0" "\<And>c. c \<in> C \<Longrightarrow> sem_value (sems s' (sem_of s c)) = 0"
    using z [of "next_of m s"] d z [of "sem_of s _"] by (auto simp: mon_sems_def)
  then show ?thesis using mon_relD(1) [OF r] core b w unfolding mon_rel_def mon_layout_def mon_sems_def e by blast
qed

lemma asleep_in_queue:
  "mon_rel m C L pc W nc cnt s \<Longrightarrow> q \<in> mon_sems m C s \<Longrightarrow> p \<in> set (W q) \<Longrightarrow>
     place_sem (mutex_of m s) (next_of m s) (sem_of s) (pc p) = Some q"
  using batonD(4) [OF mon_relD(3)] by (simp add: mon_sems_def)

lemma mon_waiters_L:
  assumes "mon_rel m C L pc W nc cnt s"
  shows "waiters (mon_sems m C s) W \<subseteq> L"
proof
  fix p assume "p \<in> waiters (mon_sems m C s) W"
  then obtain q where "q \<in> mon_sems m C s" "p \<in> set (W q)" by (auto simp: waiters_def)
  then have "pc p \<noteq> Outside" using asleep_in_queue [OF assms] by fastforce
  then show "p \<in> L" using batonD(2) [OF mon_relD(3) [OF assms]] by blast
qed

text \<open>Leaving the monitor: to a signaller, to a process that waits for the mutex, or to nobody.\<close>

definition released :: "int \<Rightarrow> nat \<Rightarrow> nat \<Rightarrow> (nat \<Rightarrow> nat list) \<Rightarrow> (nat \<Rightarrow> nat list)" where
  "released nc M N W = (if 0 < nc then W(N := tl (W N)) else W(M := tl (W M)))"

locale monitor_machine = sched_policy cls ready detached
  for cls :: "'a sync_kernel_scheme sched_class" and ready and detached
begin

text \<open>Handing the monitor to the first process of a queue.\<close>

lemma rel_hand:
  assumes r: "mon_rel m C L pc W nc cnt s" and sch: "sched_inv ready detached L s" and p: "pc p = Inside" "running p s"
    and q: "q \<in> mon_sems m C s" "W q \<noteq> []"
  obtains s' where "up cls q s = Some s'" "sched_inv ready detached L s'" "running p s'"
    "mon_rel m C L (pc(p := Outside)) (W(q := tl (W q))) nc cnt s'" "kernel.more s' = kernel.more s"
    "sems s' = sems s"
proof -
  note core = mon_relD(2) [OF r]
  obtain s' where s': "up cls q s = Some s'" "sem_core (mon_sems m C s) (W(q := tl (W q))) s'" "sched_inv ready detached L s'"
    "sync_step (waiters (mon_sems m C s) W) s s'" "current s' = current s" "sems s' = sems s"
    "woken s' (hd (W q))" "\<And>x. x \<notin> waiters (mon_sems m C s) W \<Longrightarrow> state (procs s' x) = state (procs s x)"
    by (rule up_core [OF core q(1) sch mon_waiters_L [OF r]]) (use q(2) in auto)
  have run: "running p s'" using p(2) s'(5) s'(8) [OF running_not_waiting [OF core p(2)]] by (simp add: running_def)
  let ?b = "baton (mutex_of m s) (next_of m s) (sem_of s) C L"
  have qm: "q \<in> insert (mutex_of m s) (insert (next_of m s) (sem_of s ` C))" using q(1) by (simp add: mon_sems_def)
  note h = baton_hand [OF mon_relD(3) [OF r] mon_relD(7) [OF r] p(1) qm q(2)]
  have "mon_rel m C L (pc(p := Outside)) (W(q := tl (W q))) nc cnt s'"
  proof (rule mon_rel_sync_step [OF r s'(4,2)])
    show "?b (pc(p := Outside)) (W(q := tl (W q))) (sem_value (sems s' (mutex_of m s))) nc cnt"
      using h(1) s'(6) by simp
    show "sem_value (sems s' q') = 0" if "q' \<in> mon_sems m C s" "q' \<noteq> mutex_of m s" for q'
      using mon_relD(4,5) [OF r] that s'(6) by (auto simp: mon_sems_def)
    show "woken s' x"
      if x: "place_sem (mutex_of m s) (next_of m s) (sem_of s) ((pc(p := Outside)) x) = Some q'" "x \<notin> set ((W(q := tl (W q))) q')" for x q'
    proof -
      have "x \<in> holders (mutex_of m s) (next_of m s) (sem_of s) (pc(p := Outside)) (W(q := tl (W q)))"
        using x by (auto simp: holders_def)
      then show ?thesis using h(2) s'(7) by auto
    qed
  qed
  then show ?thesis using that s'(1,3,6) run sync_stepD(1) [OF s'(4)] by blast
qed

lemma rel_leave:
  assumes r: "mon_rel m C L pc W nc cnt s" and sch: "sched_inv ready detached L s" and p: "pc p = Inside" "running p s"
    and nc: "next_count (monitors s m) = nc"
  obtains s' where "monitor_leave cls m s = Some s'" "sched_inv ready detached L s'" "running p s'"
    "mon_rel m C L (pc(p := Outside)) (released nc (mutex_of m s) (next_of m s) W) nc cnt s'"
    "kernel.more s' = kernel.more s" "\<And>q. q \<noteq> mutex_of m s \<Longrightarrow> sems s' q = sems s q"
proof -
  note b = mon_relD(3) [OF r]
  note core = mon_relD(2) [OF r]
  show thesis
  proof (cases "0 < nc")
    case True
    have q: "next_of m s \<in> mon_sems m C s" "W (next_of m s) \<noteq> []"
      using baton_inside(4) [OF b p(1) True] by (simp_all add: mon_sems_def)
    obtain s' where "up cls (next_of m s) s = Some s'" "sched_inv ready detached L s'" "running p s'"
      "mon_rel m C L (pc(p := Outside)) (W(next_of m s := tl (W (next_of m s)))) nc cnt s'"
      "kernel.more s' = kernel.more s" "sems s' = sems s" by (rule rel_hand [OF r sch p q])
    then show ?thesis using that [of s'] by (simp add: monitor_leave_def nc True released_def)
  next
    case False
    have z: "nc = 0" using baton_inside(6) [OF b p(1)] False by simp
    have q: "mutex_of m s \<in> mon_sems m C s" by (simp add: mon_sems_def)
    show ?thesis
    proof (cases "W (mutex_of m s) = []")
      case e: False
      obtain s' where "up cls (mutex_of m s) s = Some s'" "sched_inv ready detached L s'" "running p s'"
      "mon_rel m C L (pc(p := Outside)) (W(mutex_of m s := tl (W (mutex_of m s)))) nc cnt s'"
      "kernel.more s' = kernel.more s" "sems s' = sems s" by (rule rel_hand [OF r sch p q e])
    then show ?thesis using that [of s'] by (simp add: monitor_leave_def nc z released_def)
    next
      case True
      then have W: "W(mutex_of m s := tl (W (mutex_of m s))) = W" by auto
      obtain s' where s': "up cls (mutex_of m s) s = Some s'" "sem_core (mon_sems m C s) W s'" "sched_inv ready detached L s'"
        "sync_step (waiters (mon_sems m C s) W) s s'" "current s' = current s"
        "sems s' = (sems s)(mutex_of m s := \<lparr>sem_value = sem_value (sems s (mutex_of m s)) + 1\<rparr>)"
        "\<And>x. x \<notin> waiters (mon_sems m C s) W \<Longrightarrow> state (procs s' x) = state (procs s x)"
        by (rule up_core [OF core q sch mon_waiters_L [OF r]], unfold W) (use True in auto)
      have run: "running p s'"
        using p(2) s'(5) s'(7) [OF running_not_waiting [OF core p(2)]] by (simp add: running_def)
      have "mon_rel m C L (pc(p := Outside)) W nc cnt s'"
      proof (rule mon_rel_sync_step [OF r s'(4,2)])
        show "baton (mutex_of m s) (next_of m s) (sem_of s) C L (pc(p := Outside)) W (sem_value (sems s' (mutex_of m s))) nc cnt"
          using baton_free [OF b p(1) z] s'(6) by simp
        show "sem_value (sems s' q') = 0" if "q' \<in> mon_sems m C s" "q' \<noteq> mutex_of m s" for q'
          using mon_relD(4,5) [OF r] that s'(6) by (auto simp: mon_sems_def)
        show "woken s' x" if "place_sem (mutex_of m s) (next_of m s) (sem_of s) ((pc(p := Outside)) x) = Some q'" "x \<notin> set (W q')" for x q'
          using baton_inside(3) [OF b p(1), of x q'] that by (cases "x = p") auto
      qed
      then show ?thesis
        using that [of s'] s' run z W sync_stepD(1) [OF s'(4)] by (simp add: monitor_leave_def nc released_def)
    qed
  qed
qed

text \<open>A process outside goes to sleep on one of the semaphores.\<close>

lemma rel_block:
  assumes r: "mon_rel m C L pc W nc cnt s" and sch: "sched_inv ready detached L s" and p: "pc p = Outside" "running p s"
    and pl: "place_sem (mutex_of m s) (next_of m s) (sem_of s) pl = Some q" "\<And>c. pl = At_cond c \<or> pl = At_next c \<Longrightarrow> c \<in> C"
    and z: "sem_value (sems s q) = 0" "\<And>c. pl = At_next c \<Longrightarrow> sem_value (sems s (mutex_of m s)) = 0"
  obtains s' where "down_start cls q p s = Some (False, s')" "sched_inv ready detached L s'"
    "mon_rel m C L (pc(p := pl)) (W(q := W q @ [p])) (if \<exists>c. pl = At_next c then nc + 1 else nc)
       (case pl of At_cond c \<Rightarrow> cnt(c := cnt c + 1) | _ \<Rightarrow> cnt) s'"
    "kernel.more s' = kernel.more s" "sems s' = sems s"
proof -
  note core = mon_relD(2) [OF r]
  have q: "q \<in> mon_sems m C s" using pl by (cases pl) (auto simp: mon_sems_def)
  have pL: "p \<in> L" using p(2) sch by (auto simp: running_def sched_inv_def)
  have c: "current s = Some p" "state (procs s p) \<noteq> PROC_SLEEPING" using p(2) by (auto simp: running_def)
  note pw = running_not_waiting [OF core p(2)]
  obtain s' where s': "down_start cls q p s = Some (False, s')" "sched_inv ready detached L s'"
    "sync_step (insert p (waiters (mon_sems m C s) W)) s s'" "sem_core (mon_sems m C s) (W(q := W q @ [p])) s'" "sems s' = sems s"
    by (rule down_core [OF core q sch c pw]) (use z(1) in \<open>auto split: if_splits\<close>)
  have "mon_rel m C L (pc(p := pl)) (W(q := W q @ [p])) (if \<exists>c. pl = At_next c then nc + 1 else nc)
       (case pl of At_cond c \<Rightarrow> cnt(c := cnt c + 1) | _ \<Rightarrow> cnt) s'"
  proof (rule mon_rel_sync_step [OF r s'(3,4)])
    show "baton (mutex_of m s) (next_of m s) (sem_of s) C L (pc(p := pl)) (W(q := W q @ [p]))
        (sem_value (sems s' (mutex_of m s))) (if \<exists>c. pl = At_next c then nc + 1 else nc)
        (case pl of At_cond c \<Rightarrow> cnt(c := cnt c + 1) | _ \<Rightarrow> cnt)"
      unfolding s'(5) by (rule baton_block [OF mon_relD(3,7) [OF r] p(1) pL pl z(2)])
    show "sem_value (sems s' q') = 0" if "q' \<in> mon_sems m C s" "q' \<noteq> mutex_of m s" for q'
      using mon_relD(4,5) [OF r] that s'(5) by (auto simp: mon_sems_def)
    show "woken s' x" if x: "place_sem (mutex_of m s) (next_of m s) (sem_of s) ((pc(p := pl)) x) = Some q'"
        "x \<notin> set ((W(q := W q @ [p])) q')" for x q'
    proof -
      have xp: "x \<noteq> p" using x pl(1) by auto
      then have x': "place_sem (mutex_of m s) (next_of m s) (sem_of s) (pc x) = Some q'" "x \<notin> set (W q')"
        using x by (auto split: if_splits)
      have "x \<notin> waiters (mon_sems m C s) W"
        using asleep_in_queue [OF r, of _ x] x' by (auto simp: waiters_def)
      then show ?thesis using mon_relD(6) [OF r x'] sync_stepD(3) [OF s'(3)] xp by blast
    qed
  qed
  then show ?thesis using that s' sync_stepD(1) [OF s'(3)] by blast
qed

text \<open>Taking the mutex.\<close>

lemma rel_enter:
  assumes r: "mon_rel m C L pc W nc cnt s" and sch: "sched_inv ready detached L s" and p: "pc p = Outside" "running p s"
  obtains t s' where "down_start cls (mutex_of m s) p s = Some (t, s')" "sched_inv ready detached L s'"
    "kernel.more s' = kernel.more s" "t \<longrightarrow> running p s'"
    "mon_rel m C L (pc(p := if t then Inside else At_mutex))
       (if t then W else W(mutex_of m s := W (mutex_of m s) @ [p])) nc cnt s'"
proof (cases "0 < sem_value (sems s (mutex_of m s))")
  case False
  then have z: "sem_value (sems s (mutex_of m s)) = 0" using batonD(8) [OF mon_relD(3) [OF r]] by auto
  have "place_sem (mutex_of m s) (next_of m s) (sem_of s) At_mutex = Some (mutex_of m s)" by simp
  then obtain s' where s': "down_start cls (mutex_of m s) p s = Some (False, s')" "sched_inv ready detached L s'"
    "mon_rel m C L (pc(p := At_mutex)) (W(mutex_of m s := W (mutex_of m s) @ [p])) nc cnt s'" "kernel.more s' = kernel.more s"
    by (rule rel_block [OF r sch p _ _ z]) simp_all
  then show ?thesis using that [of False s'] by simp
next
  case True
  note core = mon_relD(2) [OF r]
  have q: "mutex_of m s \<in> mon_sems m C s" by (simp add: mon_sems_def)
  have pL: "p \<in> L" using p(2) sch by (auto simp: running_def sched_inv_def)
  have c: "current s = Some p" "state (procs s p) \<noteq> PROC_SLEEPING" using p(2) by (auto simp: running_def)
  obtain s' where s': "down_start cls (mutex_of m s) p s = Some (True, s')" "sched_inv ready detached L s'"
    "sem_core (mon_sems m C s) W s'" "current s' = current s" "procs s' = procs s" "sync_step {} s s'"
    "sems s' = (sems s)(mutex_of m s := \<lparr>sem_value = sem_value (sems s (mutex_of m s)) - 1\<rparr>)"
    by (rule down_core [OF core q sch c running_not_waiting [OF core p(2)]]) (use True in \<open>auto split: if_splits\<close>)
  have "mon_rel m C L (pc(p := Inside)) W nc cnt s'"
  proof (rule mon_rel_sync_step [OF r s'(6,3)])
    show "baton (mutex_of m s) (next_of m s) (sem_of s) C L (pc(p := Inside)) W (sem_value (sems s' (mutex_of m s))) nc cnt"
      using baton_take [OF mon_relD(3) [OF r] p(1) pL True] s'(7) by simp
    show "sem_value (sems s' q') = 0" if "q' \<in> mon_sems m C s" "q' \<noteq> mutex_of m s" for q'
      using mon_relD(4,5) [OF r] that s'(7) by (auto simp: mon_sems_def)
    show "woken s' x" if "place_sem (mutex_of m s) (next_of m s) (sem_of s) ((pc(p := Inside)) x) = Some q'" "x \<notin> set (W q')" for x q'
      using mon_relD(6) [OF r, of x q'] that sync_stepD(3) [OF s'(6), of x] by (auto split: if_splits)
  qed
  then show ?thesis using that [of True s'] s' p(2) sync_stepD(1) [OF s'(6)] by (simp add: running_def)
qed

text \<open>Going on after having been handed what one waited for.\<close>

lemma rel_wake:
  assumes r: "mon_rel m C L pc W nc cnt s" and p: "running p s"
    and q: "place_sem (mutex_of m s) (next_of m s) (sem_of s) (pc p) = Some q"
  shows "down_resume q p s = Some s" "p \<notin> set (W q)" "sem_value (sems s (mutex_of m s)) = 0"
    "mon_rel m C L (pc(p := Inside)) W (if \<exists>c. pc p = At_next c then nc - 1 else nc)
       (case pc p of At_cond c \<Rightarrow> cnt(c := cnt c - 1) | _ \<Rightarrow> cnt) s"
proof -
  have "q \<in> mon_sems m C s"
    using q batonD(3) [OF mon_relD(3) [OF r]] by (cases "pc p") (auto simp: mon_sems_def)
  then show np: "p \<notin> set (W q)" using running_not_waiting [OF mon_relD(2) [OF r] p] by (auto simp: waiters_def)
  have w: "woken s p" using mon_relD(6) [OF r q np] .
  show "down_resume q p s = Some s" by (rule resume_core [OF w])
  note b = baton_wake [OF mon_relD(3) [OF r] q np]
  show "sem_value (sems s (mutex_of m s)) = 0" by (rule b(2))
  show "mon_rel m C L (pc(p := Inside)) W (if \<exists>c. pc p = At_next c then nc - 1 else nc)
       (case pc p of At_cond c \<Rightarrow> cnt(c := cnt c - 1) | _ \<Rightarrow> cnt) s"
  proof (rule mon_rel_sync_step [OF r _ mon_relD(2) [OF r] b(1)])
    show "sync_step {} s s" by (simp add: sync_step_def)
    show "sem_value (sems s q') = 0" if "q' \<in> mon_sems m C s" "q' \<noteq> mutex_of m s" for q'
      using mon_relD(4,5) [OF r] that by (auto simp: mon_sems_def)
    show "woken s x" if "place_sem (mutex_of m s) (next_of m s) (sem_of s) ((pc(p := Inside)) x) = Some q'" "x \<notin> set (W q')" for x q'
      using mon_relD(6) [OF r, of x q'] that by (auto split: if_splits)
  qed
qed

text \<open>The operations.\<close>

lemma cond_wait_ok:
  assumes inv: "mon_inv m C L pc W s" and sch: "sched_inv ready detached L s" and p: "pc p = Inside" "running p s" and c: "c \<in> C"
  defines "V \<equiv> released (next_count (monitors s m)) (mutex_of m s) (next_of m s) W"
  obtains s' where "cond_wait cls c p s = Some (False, s')" "sched_inv ready detached L s'"
    "mon_inv m C L (pc(p := At_cond c)) (V(sem_of s c := V (sem_of s c) @ [p])) s'"
    "sync_kernel.more s' = sync_kernel.more s" "monitors s' = monitors s" "sem_of s' = sem_of s"
proof -
  define s0 where "s0 = set_condvar c (\<lambda>x. x\<lparr>cv_count := cv_count x + 1\<rparr>) s"
  let ?nc = "next_count (monitors s m)" and ?cnt = "\<lambda>c. cv_count (condvars s c)"
  have r: "mon_rel m C L pc W ?nc ?cnt s" using inv by (simp add: mon_inv_def)
  have v: "mon_view m C s0 = mon_view m C s" by (auto simp: mon_view_def s0_def fun_eq_iff)
  have r0: "mon_rel m C L pc W ?nc ?cnt s0" by (rule mon_rel_cong [OF r v]) (simp add: s0_def)
  have e0: "monitors s0 = monitors s" "sem_of s0 = sem_of s" "cv_owner (condvars s0 c) = m" "sync_kernel.more s0 = sync_kernel.more s"
    "condvars s0 = (condvars s)(c := (condvars s c)\<lparr>cv_count := cv_count (condvars s c) + 1\<rparr>)"
    using mon_relD(1) [OF r] c by (auto simp: s0_def mon_layout_def fun_eq_iff)
  have sch0: "sched_inv ready detached L s0" using sch inv_cong [of s0 s L] by (simp add: s0_def)
  have p0: "running p s0" using p(2) by (simp add: running_def s0_def)
  obtain s1 where s1: "monitor_leave cls m s0 = Some s1" "sched_inv ready detached L s1" "running p s1"
    "mon_rel m C L (pc(p := Outside)) V ?nc ?cnt s1" "kernel.more s1 = kernel.more s0"
    by (rule rel_leave [OF r0 sch0 p(1) p0]) (simp_all add: e0 V_def)
  note e1 = more_sync [OF s1(5)]
  have pl: "place_sem (mutex_of m s1) (next_of m s1) (sem_of s1) (At_cond c) = Some (sem_of s1 c)" by simp
  have z: "sem_value (sems s1 (sem_of s1 c)) = 0" using mon_relD(5) [OF s1(4) c] .
  obtain s' where s': "down_start cls (sem_of s1 c) p s1 = Some (False, s')" "sched_inv ready detached L s'"
    "mon_rel m C L ((pc(p := Outside))(p := At_cond c)) (V(sem_of s1 c := V (sem_of s1 c) @ [p])) ?nc (?cnt(c := ?cnt c + 1)) s'"
    "kernel.more s' = kernel.more s1"
    by (rule rel_block [OF s1(4,2) _ s1(3) pl _ z]) (use c in simp_all)
  note e' = more_sync [OF s'(4)]
  have i: "sem_of s1 c = sem_of s c" by (simp add: e1 e0)
  show thesis
  proof (rule that [OF _ s'(2)])
    show "cond_wait cls c p s = Some (False, s')"
      using s1(1) s'(1) e0(3) by (simp add: cond_wait_def s0_def [symmetric])
    have "(\<lambda>c. cv_count (condvars s' c)) = ?cnt(c := ?cnt c + 1)" by (auto simp: e' e1 e0 fun_eq_iff)
    then show "mon_inv m C L (pc(p := At_cond c)) (V(sem_of s c := V (sem_of s c) @ [p])) s'"
      using s'(3) by (simp add: mon_inv_def e' e1 e0)
    show "sync_kernel.more s' = sync_kernel.more s" "monitors s' = monitors s" by (simp_all add: e' e1 e0)
    show "sem_of s' = sem_of s" unfolding e' e1 by (rule e0(2))
  qed
qed

lemma cond_signal_ok:
  assumes inv: "mon_inv m C L pc W s" and sch: "sched_inv ready detached L s" and p: "pc p = Inside" "running p s" and c: "c \<in> C"
  shows "cv_count (condvars s c) = 0 \<Longrightarrow> cond_signal cls c p s = Some (True, s)"
    and "cv_count (condvars s c) \<noteq> 0 \<Longrightarrow> W (sem_of s c) \<noteq> [] \<and> (\<exists>s'. cond_signal cls c p s = Some (False, s') \<and>
      sched_inv ready detached L s' \<and>
      mon_inv m C L (pc(p := At_next c)) (W(sem_of s c := tl (W (sem_of s c)), next_of m s := W (next_of m s) @ [p])) s' \<and>
      sync_kernel.more s' = sync_kernel.more s \<and> mt_cv (monitors s' m) = mt_cv (monitors s m) \<and> sem_of s' = sem_of s)"
proof -
  show "cv_count (condvars s c) = 0 \<Longrightarrow> cond_signal cls c p s = Some (True, s)" by (simp add: cond_signal_def)
  assume n0: "cv_count (condvars s c) \<noteq> 0"
  define s0 where "s0 = set_monitor m (\<lambda>x. x\<lparr>next_count := next_count x + 1\<rparr>) s"
  let ?nc = "next_count (monitors s m)" and ?cnt = "\<lambda>c. cv_count (condvars s c)"
  have r: "mon_rel m C L pc W ?nc ?cnt s" using inv by (simp add: mon_inv_def)
  note i = baton_inside [OF mon_relD(3) [OF r] p(1)]
  have cnt: "0 < cv_count (condvars s c)" using i(7) [OF c] n0 by simp
  have v: "mon_view m C s0 = mon_view m C s" by (simp add: mon_view_def s0_def cong: if_cong)
  have r0: "mon_rel m C L pc W ?nc ?cnt s0" by (rule mon_rel_cong [OF r v]) (simp add: s0_def)
  have own: "cv_owner (condvars s c) = m" using mon_relD(1) [OF r] c by (simp add: mon_layout_def)
  have e0: "mutex_of m s0 = mutex_of m s" "next_of m s0 = next_of m s" "condvars s0 = condvars s" "sems s0 = sems s"
    "sync_kernel.more s0 = sync_kernel.more s" "next_count (monitors s0 m) = ?nc + 1"
    "mt_cv (monitors s0 m) = mt_cv (monitors s m)"
    by (simp_all add: s0_def)
  have sch0: "sched_inv ready detached L s0" using sch inv_cong [of s0 s L] by (simp add: s0_def)
  have p0: "running p s0" using p(2) by (simp add: running_def s0_def)
  have q: "sem_of s0 c \<in> mon_sems m C s0" "W (sem_of s0 c) \<noteq> []"
    using c i(5) [OF c cnt] by (simp_all add: mon_sems_def e0)
  obtain s1 where s1: "up cls (sem_of s0 c) s0 = Some s1" "sched_inv ready detached L s1" "running p s1"
    "mon_rel m C L (pc(p := Outside)) (W(sem_of s0 c := tl (W (sem_of s0 c)))) ?nc ?cnt s1"
    "kernel.more s1 = kernel.more s0" "sems s1 = sems s0"
    by (rule rel_hand [OF r0 sch0 p(1) p0 q])
  note e1 = more_sync [OF s1(5)]
  have pl: "place_sem (mutex_of m s1) (next_of m s1) (sem_of s1) (At_next c) = Some (next_of m s1)" by simp
  have z: "sem_value (sems s1 (next_of m s1)) = 0" using mon_relD(4) [OF s1(4)] .
  have zm: "sem_value (sems s1 (mutex_of m s1)) = 0" using i(1) by (simp add: e1 e0 s1(6))
  obtain s' where s': "down_start cls (next_of m s1) p s1 = Some (False, s')" "sched_inv ready detached L s'"
    "mon_rel m C L ((pc(p := Outside))(p := At_next c))
      ((W(sem_of s0 c := tl (W (sem_of s0 c))))(next_of m s1 := (W(sem_of s0 c := tl (W (sem_of s0 c)))) (next_of m s1) @ [p]))
      (?nc + 1) ?cnt s'" "kernel.more s' = kernel.more s1"
    by (rule rel_block [OF s1(4,2) _ s1(3) pl _ z zm]) (use c in simp_all)
  note e' = more_sync [OF s'(4)]
  have ne: "next_of m s \<noteq> sem_of s c" using mon_relD(7) [OF r] c by (auto simp: mon_distinct_def)
  have "cond_signal cls c p s = Some (False, s')"
    using s1(1) s'(1) cnt own by (simp add: cond_signal_def s0_def [symmetric] e0(3) e1)
  moreover have "mon_inv m C L (pc(p := At_next c)) (W(sem_of s c := tl (W (sem_of s c)), next_of m s := W (next_of m s) @ [p])) s'"
    using s'(3) ne by (simp add: mon_inv_def e' e1 e0)
  ultimately show "W (sem_of s c) \<noteq> [] \<and> (\<exists>s'. cond_signal cls c p s = Some (False, s') \<and>
      sched_inv ready detached L s' \<and>
      mon_inv m C L (pc(p := At_next c)) (W(sem_of s c := tl (W (sem_of s c)), next_of m s := W (next_of m s) @ [p])) s' \<and>
      sync_kernel.more s' = sync_kernel.more s \<and> mt_cv (monitors s' m) = mt_cv (monitors s m) \<and> sem_of s' = sem_of s)"
    using s'(2) i(5) [OF c cnt] by (intro conjI exI [of _ s']) (simp_all add: e' e1 e0)
qed

text \<open>The parts after the CPU has come back.\<close>

lemma cond_wait_resume_ok:
  assumes inv: "mon_inv m C L pc W s" and p: "pc p = At_cond c" "running p s"
  shows "cond_wait_resume c p s = Some (cond_wait_exit c s)" "p \<notin> set (W (sem_of s c))"
    "mon_inv m C L (pc(p := Inside)) W (cond_wait_exit c s)"
proof -
  have r: "mon_rel m C L pc W (next_count (monitors s m)) (\<lambda>c. cv_count (condvars s c)) s" using inv by (simp add: mon_inv_def)
  have pl: "place_sem (mutex_of m s) (next_of m s) (sem_of s) (pc p) = Some (sem_of s c)" using p(1) by simp
  note w = rel_wake [OF r p(2) pl]
  show "p \<notin> set (W (sem_of s c))" "cond_wait_resume c p s = Some (cond_wait_exit c s)"
    using w(1,2) by (simp_all add: cond_wait_resume_def)
  have v: "mon_view m C (cond_wait_exit c s) = mon_view m C s" by (auto simp: mon_view_def cond_wait_exit_def fun_eq_iff)
  have "mon_rel m C L (pc(p := Inside)) W (next_count (monitors s m))
      ((\<lambda>c. cv_count (condvars s c))(c := cv_count (condvars s c) - 1)) (cond_wait_exit c s)"
    by (rule mon_rel_cong [OF _ v]) (use w(4) p(1) in \<open>simp_all add: cond_wait_exit_def\<close>)
  moreover have "(\<lambda>x. cv_count (condvars (cond_wait_exit c s) x)) =
      (\<lambda>c. cv_count (condvars s c))(c := cv_count (condvars s c) - 1)"
    by (auto simp: cond_wait_exit_def fun_eq_iff)
  ultimately show "mon_inv m C L (pc(p := Inside)) W (cond_wait_exit c s)"
    by (simp add: mon_inv_def) (simp add: cond_wait_exit_def)
qed

lemma cond_signal_resume_ok:
  assumes inv: "mon_inv m C L pc W s" and p: "pc p = At_next c" "running p s"
  shows "cond_signal_resume c p s = Some (cond_signal_exit c s)" "mon_inv m C L (pc(p := Inside)) W (cond_signal_exit c s)"
    "cond_signal_exit c s = set_monitor m (\<lambda>m. m\<lparr>next_count := next_count m - 1\<rparr>) s"
proof -
  have r: "mon_rel m C L pc W (next_count (monitors s m)) (\<lambda>c. cv_count (condvars s c)) s" using inv by (simp add: mon_inv_def)
  have c: "c \<in> C" using batonD(3) [OF mon_relD(3) [OF r]] p(1) by blast
  have own: "cv_owner (condvars s c) = m" using mon_relD(1) [OF r] c by (simp add: mon_layout_def)
  show e: "cond_signal_exit c s = set_monitor m (\<lambda>m. m\<lparr>next_count := next_count m - 1\<rparr>) s"
    by (simp add: cond_signal_exit_def own)
  have pl: "place_sem (mutex_of m s) (next_of m s) (sem_of s) (pc p) = Some (next_of m s)" using p(1) by simp
  note w = rel_wake [OF r p(2) pl]
  show "cond_signal_resume c p s = Some (cond_signal_exit c s)" using w(1) by (simp add: cond_signal_resume_def own)
  have v: "mon_view m C (cond_signal_exit c s) = mon_view m C s" unfolding e by (simp add: mon_view_def cong: if_cong)
  have "mon_rel m C L (pc(p := Inside)) W (next_count (monitors s m) - 1) (\<lambda>c. cv_count (condvars s c)) (cond_signal_exit c s)"
    by (rule mon_rel_cong [OF _ v]) (use w(4) p(1) in \<open>simp_all add: e\<close>)
  then show "mon_inv m C L (pc(p := Inside)) W (cond_signal_exit c s)" by (simp add: mon_inv_def) (simp add: e)
qed

lemma monitor_enter_ok:
  assumes inv: "mon_inv m C L pc W s" and sch: "sched_inv ready detached L s" and p: "pc p = Outside" "running p s"
  obtains t s' where "down_start cls (mutex_of m s) p s = Some (t, s')" "sched_inv ready detached L s'"
    "kernel.more s' = kernel.more s" "t \<longrightarrow> running p s'"
    "mon_inv m C L (pc(p := if t then Inside else At_mutex)) (if t then W else W(mutex_of m s := W (mutex_of m s) @ [p])) s'"
proof -
  obtain t s' where t: "down_start cls (mutex_of m s) p s = Some (t, s')" "sched_inv ready detached L s'"
    "kernel.more s' = kernel.more s" "t \<longrightarrow> running p s'" "mon_rel m C L (pc(p := if t then Inside else At_mutex))
       (if t then W else W(mutex_of m s := W (mutex_of m s) @ [p])) (next_count (monitors s m)) (\<lambda>c. cv_count (condvars s c)) s'"
    by (rule rel_enter [OF inv [unfolded mon_inv_def] sch p])
  then show ?thesis using that [of t s'] more_sync [OF t(3)] by (simp add: mon_inv_def)
qed

lemma monitor_enter_resume_ok:
  assumes inv: "mon_inv m C L pc W s" and p: "pc p = At_mutex" "running p s"
  shows "down_resume (mutex_of m s) p s = Some s" "mon_inv m C L (pc(p := Inside)) W s"
proof -
  have "place_sem (mutex_of m s) (next_of m s) (sem_of s) (pc p) = Some (mutex_of m s)" using p(1) by simp
  note w = rel_wake [OF inv [unfolded mon_inv_def] p(2) this]
  show "down_resume (mutex_of m s) p s = Some s" "mon_inv m C L (pc(p := Inside)) W s"
    using w(1,4) p(1) by (simp_all add: mon_inv_def)
qed

lemma monitor_leave_ok:
  assumes inv: "mon_inv m C L pc W s" and sch: "sched_inv ready detached L s" and p: "pc p = Inside" "running p s"
  obtains s' where "monitor_leave cls m s = Some s'" "sched_inv ready detached L s'" "kernel.more s' = kernel.more s"
    "mon_inv m C L (pc(p := Outside)) (released (next_count (monitors s m)) (mutex_of m s) (next_of m s) W) s'"
proof -
  obtain s' where s': "monitor_leave cls m s = Some s'" "sched_inv ready detached L s'" "kernel.more s' = kernel.more s"
    "mon_rel m C L (pc(p := Outside)) (released (next_count (monitors s m)) (mutex_of m s) (next_of m s) W)
      (next_count (monitors s m)) (\<lambda>c. cv_count (condvars s c)) s'"
    by (rule rel_leave [OF inv [unfolded mon_inv_def] sch p refl])
  then show ?thesis using that [of s'] more_sync [OF s'(3)] by (simp add: mon_inv_def)
qed

end

section \<open>Runs\<close>

text \<open>What the rest of the kernel keeps of the semaphores \<open>S\<close>: their values and queues; whoever sleeps in such a queue goes on sleeping; and of
  the processes \<open>P\<close>, which are in the middle of an operation on them, those that were woken and have not run since keep their wait entry. Other
  semaphores and wait queues, and their sleepers, may change in any way.\<close>

definition sems_kept :: "nat set \<Rightarrow> nat set \<Rightarrow> 'a kernel_scheme \<Rightarrow> 'a kernel_scheme \<Rightarrow> bool" where
  "sems_kept S P s s' \<longleftrightarrow>
     (\<forall>q\<in>S. sems s' q = sems s q \<and>
        (\<forall>ws. ring (wait_links s) (Head q) (map Elem ws) \<longrightarrow> ring (wait_links s') (Head q) (map Elem ws) \<and>
           (\<forall>w\<in>set ws. waits s' w = waits s w \<and> (\<forall>p. wproc (waits s w) = Some p \<longrightarrow>
              state (procs s p) = PROC_SLEEPING \<and> wait_state (procs s p) = WT_KSEM \<longrightarrow>
              state (procs s' p) = PROC_SLEEPING \<and> wait_state (procs s' p) = WT_KSEM)))) \<and>
     (\<forall>p\<in>P. woken s p \<longrightarrow> woken s' p)"

lemma sem_core_kept:
  assumes core: "sem_core S W s" and kept: "sems_kept S P s s'"
  shows "sem_core S W s'"
proof -
  note i = sem_coreD(1) [OF core]
  have ring: "ring (wait_links s) (Head q) (map Elem (W q))" if "q \<in> S" for q
    using i that by (simp add: sync_inv_def sem_ok_def)
  have w: "waits s' w = waits s w" if "q \<in> S" "w \<in> set (W q)" for q w
    using kept ring [OF that(1)] that by (auto simp: sems_kept_def)
  have "sem_ok s' q (W q)" if q: "q \<in> S" for q
  proof -
    have "asleep s' q x" if x: "x \<in> set (W q)" for x
    proof -
      have "asleep s q x" using i q x by (simp add: sync_inv_def sem_ok_def)
      then show ?thesis using kept ring [OF q] w [OF q x] q x unfolding asleep_def sems_kept_def by fastforce
    qed
    then show ?thesis using i kept ring [OF q] q by (simp add: sync_inv_def sem_ok_def sems_kept_def)
  qed
  moreover have "inj_on (\<lambda>w. wproc (waits s' w)) (waiters S W)"
    using i w by (subst inj_on_cong [of _ _ "\<lambda>w. wproc (waits s w)"]) (auto simp: sync_inv_def waiters_def)
  moreover have "wproc (waits s' x) = Some x" if "x \<in> waiters S W" for x
    using core that w by (auto simp: sem_core_def waiters_def)
  ultimately show ?thesis using i by (simp add: sem_core_def sync_inv_def)
qed

text \<open>A step of the rest of the kernel leaves the monitor alone and keeps its semaphores; \<open>K\<close> is what it keeps of the scheduler.\<close>

definition other_step :: "nat \<Rightarrow> nat set \<Rightarrow> nat set \<Rightarrow> 'a sync_kernel_scheme \<Rightarrow> 'a sync_kernel_scheme \<Rightarrow> bool" where
  "other_step m C P s s' \<longleftrightarrow> monitors s' m = monitors s m \<and> (\<forall>c\<in>C. condvars s' c = condvars s c) \<and> sem_of s' = sem_of s \<and>
     sems_kept (mon_sems m C s) P s s'"

text \<open>The steps of processes that use the monitor \<open>m\<close> with the condition variables \<open>C\<close>.\<close>

inductive mon_step ::
  "'a sync_kernel_scheme sched_class \<Rightarrow> ('a sync_kernel_scheme \<Rightarrow> bool) \<Rightarrow> nat \<Rightarrow> nat set \<Rightarrow>
   (nat \<Rightarrow> place) \<times> 'a sync_kernel_scheme \<Rightarrow> (nat \<Rightarrow> place) \<times> 'a sync_kernel_scheme \<Rightarrow> bool" for cls K m C where
  enter: "running p s \<Longrightarrow> pc p = Outside \<Longrightarrow> down_start cls (mutex_of m s) p s = Some (r, s') \<Longrightarrow>
    mon_step cls K m C (pc, s) (pc(p := if r then Inside else At_mutex), s')"
| enter_resume: "running p s \<Longrightarrow> pc p = At_mutex \<Longrightarrow> down_resume (mutex_of m s) p s = Some s' \<Longrightarrow>
    mon_step cls K m C (pc, s) (pc(p := Inside), s')"
| wait: "running p s \<Longrightarrow> pc p = Inside \<Longrightarrow> c \<in> C \<Longrightarrow> cond_wait cls c p s = Some (r, s') \<Longrightarrow>
    mon_step cls K m C (pc, s) (pc(p := if r then Inside else At_cond c), s')"
| wait_resume: "running p s \<Longrightarrow> pc p = At_cond c \<Longrightarrow> cond_wait_resume c p s = Some s' \<Longrightarrow>
    mon_step cls K m C (pc, s) (pc(p := Inside), s')"
| signal: "running p s \<Longrightarrow> pc p = Inside \<Longrightarrow> c \<in> C \<Longrightarrow> cond_signal cls c p s = Some (r, s') \<Longrightarrow>
    mon_step cls K m C (pc, s) (pc(p := if r then Inside else At_next c), s')"
| signal_resume: "running p s \<Longrightarrow> pc p = At_next c \<Longrightarrow> cond_signal_resume c p s = Some s' \<Longrightarrow>
    mon_step cls K m C (pc, s) (pc(p := Inside), s')"
| leave: "running p s \<Longrightarrow> pc p = Inside \<Longrightarrow> monitor_leave cls m s = Some s' \<Longrightarrow>
    mon_step cls K m C (pc, s) (pc(p := Outside), s')"
| other: "other_step m C {p. pc p \<noteq> Outside \<and> pc p \<noteq> Inside} s s' \<Longrightarrow> K s' \<Longrightarrow> mon_step cls K m C (pc, s) (pc, s')"

abbreviation mon_steps where
  "mon_steps cls K m C \<equiv> (mon_step cls K m C)\<^sup>*\<^sup>*"

text \<open>No operation that the process \<open>p\<close> can come to next stops the kernel.\<close>

definition mon_goes_on ::
  "'a sync_kernel_scheme sched_class \<Rightarrow> nat \<Rightarrow> nat set \<Rightarrow> nat \<Rightarrow> place \<Rightarrow> 'a sync_kernel_scheme \<Rightarrow> bool" where
  "mon_goes_on cls m C p pl s = (case pl of
     Outside \<Rightarrow> down_start cls (mutex_of m s) p s \<noteq> None
   | Inside \<Rightarrow> monitor_leave cls m s \<noteq> None \<and> (\<forall>c\<in>C. cond_wait cls c p s \<noteq> None \<and> cond_signal cls c p s \<noteq> None)
   | At_mutex \<Rightarrow> down_resume (mutex_of m s) p s \<noteq> None
   | At_cond c \<Rightarrow> cond_wait_resume c p s \<noteq> None
   | At_next c \<Rightarrow> cond_signal_resume c p s \<noteq> None)"

lemma baton_cnt:
  assumes "baton M N CS C L pc W v nc cnt" "\<And>c. c \<in> C \<Longrightarrow> cnt' c = cnt c"
  shows "baton M N CS C L pc W v nc cnt'"
proof -
  have e: "(\<forall>c\<in>C. cnt' c = f c) \<longleftrightarrow> (\<forall>c\<in>C. cnt c = f c)" for f using assms(2) by simp
  show ?thesis using assms(1) unfolding baton_def e .
qed

lemma mon_inv_other:
  assumes inv: "mon_inv m C L pc W s" and other: "other_step m C P s s'" and P: "{p. pc p \<noteq> Outside \<and> pc p \<noteq> Inside} \<subseteq> P"
  shows "mon_inv m C L pc W s'"
proof -
  have c: "condvars s' x = condvars s x" if "x \<in> C" for x
    using other that by (auto simp: other_step_def)
  have so: "sem_of s' = sem_of s" using other by (simp add: other_step_def)
  have k1: "monitors s' m = monitors s m" "cv_sem (condvars s' x) = cv_sem (condvars s x)" "sems_kept (mon_sems m C s) P s s'" for x
    using other fun_cong [OF so, of x] by (simp_all add: other_step_def)
  have e: "mon_sems m C s' = mon_sems m C s" by (simp add: mon_sems_def k1)
  have v: "sems s' q = sems s q" if "q \<in> mon_sems m C s" for q using k1(3) that by (simp add: sems_kept_def)
  note r = inv [unfolded mon_inv_def]
  have "mon_layout m C s'" using mon_relD(1) [OF r] c by (simp add: mon_layout_def k1)
  moreover have "sem_core (mon_sems m C s') W s'" unfolding e by (rule sem_core_kept [OF mon_relD(2) [OF r] k1(3)])
  moreover have "baton (mutex_of m s') (next_of m s') (sem_of s') C L pc W (sem_value (sems s' (mutex_of m s')))
      (next_count (monitors s' m)) (\<lambda>c. cv_count (condvars s' c))"
    unfolding k1 by (rule baton_cnt [where cnt = "\<lambda>c. cv_count (condvars s c)"])
      (use mon_relD(3) [OF r] c v [of "mutex_of m s"] in \<open>simp_all add: mon_sems_def\<close>)
  moreover have "woken s' p" if "place_sem (mutex_of m s) (next_of m s) (sem_of s) (pc p) = Some q" "p \<notin> set (W q)" for p q
  proof -
    have "p \<in> P" using that(1) P by (cases "pc p") auto
    then show ?thesis using k1(3) mon_relD(6) [OF r that] by (simp add: sems_kept_def)
  qed
  ultimately show ?thesis using mon_relD(4,5) [OF r] v by (simp add: mon_inv_def mon_rel_def k1 mon_sems_def)
qed

lemma mon_inv_exclusive:
  assumes "mon_inv m C L pc W s" "pc p = Inside" "pc q = Inside"
  shows "p = q"
proof -
  have b: "baton (mutex_of m s) (next_of m s) (sem_of s) C L pc W (sem_value (sems s (mutex_of m s)))
      (next_count (monitors s m)) (\<lambda>c. cv_count (condvars s c))"
    using mon_relD(3) assms(1) by (simp add: mon_inv_def)
  have "q \<in> holders (mutex_of m s) (next_of m s) (sem_of s) pc W" using assms(3) by (simp add: holders_def)
  then show ?thesis using baton_inside(2) [OF b assms(2)] by simp
qed

context monitor_machine
begin

lemma mon_step_inv:
  assumes step: "mon_step cls (sched_inv ready detached L) m C (pc, s) (pc', s')"
    and inv: "mon_inv m C L pc W s" and sch: "sched_inv ready detached L s"
  shows "(\<exists>W'. mon_inv m C L pc' W' s') \<and> sched_inv ready detached L s'"
  using step
proof (cases rule: mon_step.cases)
  case (enter p r)
  obtain t W' s2 where "down_start cls (mutex_of m s) p s = Some (t, s2)" "sched_inv ready detached L s2"
    "mon_inv m C L (pc(p := if t then Inside else At_mutex)) W' s2"
    by (rule monitor_enter_ok [OF inv sch enter(3,2)])
  then show ?thesis using enter(1,4) by auto
next
  case (enter_resume p)
  then show ?thesis using monitor_enter_resume_ok [OF inv enter_resume(3,2)] sch by auto
next
  case (wait p c r)
  obtain V s2 where "cond_wait cls c p s = Some (False, s2)" "sched_inv ready detached L s2" "mon_inv m C L (pc(p := At_cond c)) V s2"
    by (rule cond_wait_ok [OF inv sch wait(3,2,4)])
  then show ?thesis using wait by auto
next
  case (wait_resume p c)
  have "s' = cond_wait_exit c s" using wait_resume(4) cond_wait_resume_ok(1) [OF inv wait_resume(3,2)] by simp
  moreover have "sched_inv ready detached L (cond_wait_exit c s)" using sch inv_cong [of "cond_wait_exit c s" s L] by (simp add: cond_wait_exit_def)
  ultimately show ?thesis using cond_wait_resume_ok(3) [OF inv wait_resume(3,2)] wait_resume(1) by auto
next
  case (signal p c r)
  note o = cond_signal_ok [OF inv sch signal(3,2,4)]
  show ?thesis
  proof (cases "cv_count (condvars s c) = 0")
    case True
    have "pc(p := Inside) = pc" using signal(3) by auto
    then show ?thesis using o(1) [OF True] signal(1,5) inv sch by auto
  next
    case False
    then show ?thesis using o(2) signal(1,5) by auto
  qed
next
  case (signal_resume p c)
  note o = cond_signal_resume_ok [OF inv signal_resume(3,2)]
  have s': "s' = cond_signal_exit c s" using signal_resume(4) o(1) by simp
  have "sched_inv ready detached L (cond_signal_exit c s)" using sch inv_cong [of "cond_signal_exit c s" s L] by (simp add: o(3))
  then show ?thesis using o(2) signal_resume(1) s' by auto
next
  case (leave p)
  obtain V s2 where "monitor_leave cls m s = Some s2" "sched_inv ready detached L s2" "mon_inv m C L (pc(p := Outside)) V s2"
    by (rule monitor_leave_ok [OF inv sch leave(3,2)])
  then show ?thesis using leave by auto
next
  case other
  then show ?thesis using mon_inv_other [OF inv] by blast
qed

lemma mon_steps_inv:
  assumes "mon_steps cls (sched_inv ready detached L) m C (pc, s) (pc', s')"
    "mon_inv m C L pc W s" "sched_inv ready detached L s"
  shows "(\<exists>W'. mon_inv m C L pc' W' s') \<and> sched_inv ready detached L s'"
  using assms(1)
proof (induction rule: rtranclp_induct2)
  case refl
  then show ?case using assms(2,3) by blast
next
  case (step pc1 s1 pc2 s2)
  then show ?case using mon_step_inv by blast
qed

lemma mon_goes_on_ok:
  assumes inv: "mon_inv m C L pc W s" and sch: "sched_inv ready detached L s" and p: "running p s"
  shows "mon_goes_on cls m C p (pc p) s"
proof (cases "pc p")
  case Outside
  show ?thesis unfolding mon_goes_on_def Outside by (simp, rule monitor_enter_ok [OF inv sch Outside p]) blast
next
  case Inside
  have "monitor_leave cls m s \<noteq> None" by (rule monitor_leave_ok [OF inv sch Inside p]) blast
  moreover have "cond_wait cls c p s \<noteq> None" if "c \<in> C" for c by (rule cond_wait_ok [OF inv sch Inside p that]) blast
  moreover have "cond_signal cls c p s \<noteq> None" if "c \<in> C" for c
    using cond_signal_ok [OF inv sch Inside p that] by (cases "cv_count (condvars s c) = 0") auto
  ultimately show ?thesis by (simp add: mon_goes_on_def Inside)
next
  case At_mutex
  then show ?thesis using monitor_enter_resume_ok(1) [OF inv At_mutex p] by (simp add: mon_goes_on_def)
next
  case (At_cond c)
  then show ?thesis using cond_wait_resume_ok(1) [OF inv At_cond p] by (simp add: mon_goes_on_def)
next
  case (At_next c)
  then show ?thesis using cond_signal_resume_ok(1) [OF inv At_next p] by (simp add: mon_goes_on_def)
qed

end

section \<open>A new monitor\<close>

lemma sem_init_simps [simp]:
  fixes s :: "'a kernel_scheme"
  shows "sems (sem_init q v s) = (sems s)(q := \<lparr>sem_value = v\<rparr>)" "procs (sem_init q v s) = procs s"
    "wait_links (sem_init q v s) = list_init (wait_links s) (Head q)" "current (sem_init q v s) = current s"
    "waits (sem_init q v s) = waits s" "idleproc (sem_init q v s) = idleproc s" "sched_view (sem_init q v s) = sched_view s"
  by (simp_all add: sem_init_def wait_queue_init_def set_sem_def sched_view_def)

lemma sem_init_sync_simps [simp]:
  fixes s :: "'a sync_kernel_scheme"
  shows "monitors (sem_init q v s) = monitors s" "condvars (sem_init q v s) = condvars s"
    "sync_kernel.more (sem_init q v s) = sync_kernel.more s"
  by (simp_all add: sem_init_def wait_queue_init_def set_sem_def)

text \<open>A semaphore nobody waits for.\<close>

definition fresh_sem :: "'a kernel_scheme \<Rightarrow> nat \<Rightarrow> int \<Rightarrow> bool" where
  "fresh_sem s q v \<longleftrightarrow> sem_value (sems s q) = v \<and> ring (wait_links s) (Head q) []"

lemma fresh_sem_init: "fresh_sem (sem_init q v s) q v" "q' \<noteq> q \<Longrightarrow> fresh_sem (sem_init q v s) q' w = fresh_sem s q' w"
  by (auto simp: fresh_sem_def ring_list_init list_init_def ring_def)

lemma init_condvars_fields [simp]:
  "monitors (init_condvars m a n s) = monitors s" "sem_of (init_condvars m a n s) = sem_of s"
  "procs (init_condvars m a n s) = procs s" "current (init_condvars m a n s) = current s"
  "idleproc (init_condvars m a n s) = idleproc s" "sched_view (init_condvars m a n s) = sched_view s"
  "sync_kernel.more (init_condvars m a n s) = sync_kernel.more s"
  by (induction m a n s rule: init_condvars.induct) (auto simp: Let_def fun_eq_iff)

lemma init_condvars_ok:
  assumes "inj_on (sem_of s) {a..<a + n}"
  shows "(\<forall>c\<in>{a..<a + n}. cv_count (condvars (init_condvars m a n s) c) = 0 \<and>
      cv_owner (condvars (init_condvars m a n s) c) = m \<and> fresh_sem (init_condvars m a n s) (sem_of s c) 0) \<and>
    (\<forall>q v. q \<notin> sem_of s ` {a..<a + n} \<longrightarrow> fresh_sem (init_condvars m a n s) q v = fresh_sem s q v) \<and>
    (\<forall>c. c \<notin> {a..<a + n} \<longrightarrow> condvars (init_condvars m a n s) c = condvars s c)"
  using assms
proof (induction n arbitrary: a s)
  case (Suc n)
  define s1 where "s1 = set_condvar a (\<lambda>c. c\<lparr>cv_owner := m\<rparr>)
    (sem_init (cv_sem (condvars s a)) 0 (set_condvar a (\<lambda>c. c\<lparr>cv_count := 0\<rparr>) s))"
  have e: "init_condvars m a (Suc n) s = init_condvars m (Suc a) n s1" by (simp add: s1_def Let_def)
  have so: "sem_of s1 = sem_of s" by (auto simp: s1_def fun_eq_iff)
  have fr: "fresh_sem s1 (sem_of s a) 0" "q' \<noteq> sem_of s a \<Longrightarrow> fresh_sem s1 q' w = fresh_sem s q' w" for q' w
    by (auto simp: s1_def fresh_sem_def ring_list_init list_init_def ring_def)
  have me: "cv_count (condvars s1 a) = 0" "cv_owner (condvars s1 a) = m" by (simp_all add: s1_def)
  have ot: "x \<noteq> a \<Longrightarrow> condvars s1 x = condvars s x" for x by (simp add: s1_def)
  have I: "{a..<a + Suc n} = insert a {Suc a..<Suc a + n}" by auto
  have inj: "inj_on (sem_of s1) {Suc a..<Suc a + n}" "sem_of s a \<notin> sem_of s ` {Suc a..<Suc a + n}"
    using Suc.prems unfolding so I by (simp_all add: inj_on_def image_iff)
  have so1: "sem_of s1 x = sem_of s x" for x using fun_cong [OF so] .
  note IH = Suc.IH [OF inj(1)]
  have c1: "x \<in> {Suc a..<Suc a + n} \<Longrightarrow> cv_count (condvars (init_condvars m (Suc a) n s1) x) = 0 \<and>
      cv_owner (condvars (init_condvars m (Suc a) n s1) x) = m \<and> fresh_sem (init_condvars m (Suc a) n s1) (sem_of s x) 0" for x
    using bspec [OF conjunct1 [OF IH], of x] so1 by simp
  have c2: "q \<notin> sem_of s ` {Suc a..<Suc a + n} \<Longrightarrow> fresh_sem (init_condvars m (Suc a) n s1) q v = fresh_sem s1 q v" for q v
    using conjunct1 [OF conjunct2 [OF IH]] unfolding so by simp
  have c3: "x \<notin> {Suc a..<Suc a + n} \<Longrightarrow> condvars (init_condvars m (Suc a) n s1) x = condvars s1 x" for x
    using conjunct2 [OF conjunct2 [OF IH]] by simp
  have f: "fresh_sem (init_condvars m (Suc a) n s1) (sem_of s a) 0" using c2 [OF inj(2)] fr(1) by simp
  have na: "condvars (init_condvars m (Suc a) n s1) a = condvars s1 a" using c3 [of a] by simp
  show ?case unfolding e I
  proof (intro conjI ballI allI impI)
    fix c assume c: "c \<in> insert a {Suc a..<Suc a + n}"
    show "cv_count (condvars (init_condvars m (Suc a) n s1) c) = 0"
      "cv_owner (condvars (init_condvars m (Suc a) n s1) c) = m" "fresh_sem (init_condvars m (Suc a) n s1) (sem_of s c) 0"
      using c1 [of c] c f na me by (cases "c = a"; simp)+
  next
    fix q v assume "q \<notin> sem_of s ` insert a {Suc a..<Suc a + n}"
    then show "fresh_sem (init_condvars m (Suc a) n s1) q v = fresh_sem s q v" using c2 [of q v] fr(2) [of q v] by simp
  next
    fix c assume "c \<notin> insert a {Suc a..<Suc a + n}"
    then show "condvars (init_condvars m (Suc a) n s1) c = condvars s c" using c3 [of c] ot [of c] by simp
  qed
qed simp

lemma monitor_init_some: "monitor_init m n mem s \<noteq> None \<longleftrightarrow> 0 < n \<and> mem \<noteq> None"
  by (cases mem) (simp_all add: monitor_init_def Let_def)

lemma fresh_sems_core: "(\<And>q. q \<in> S \<Longrightarrow> \<exists>v\<ge>0. fresh_sem s q v) \<Longrightarrow> sem_core S (\<lambda>_. []) s"
  by (fastforce simp: sem_core_def sync_inv_def sem_ok_def waiters_def fresh_sem_def)

lemma monitor_init_ok:
  assumes run: "monitor_init m n (Some a) s = Some t"
    and d: "mon_distinct (mutex_of m s) (next_of m s) (sem_of s) {a..<a + n}"
  shows "mon_inv m {a..<a + n} L (\<lambda>_. Outside) (\<lambda>_. []) t" "sync_kernel.more t = sync_kernel.more s"
    "mutex_of m t = mutex_of m s" "next_of m t = next_of m s" "sem_of t = sem_of s" "procs t = procs s"
    "current t = current s" "idleproc t = idleproc s" "sched_view t = sched_view s" "mt_cv (monitors t m) = Some a"
proof -
  let ?C = "{a..<a + n}"
  define s2 where "s2 = set_monitor m (\<lambda>x. x\<lparr>mt_cv := Some a\<rparr>) (sem_init (next_of m s) 0 (sem_init (mutex_of m s) 1
    (set_monitor m (\<lambda>x. x\<lparr>next_count := 0, mt_cv := None\<rparr>) s)))"
  have t: "t = init_condvars m a n s2" using run by (auto simp: monitor_init_def s2_def Let_def split: if_splits)
  have so: "sem_of s2 = sem_of s" by (simp add: s2_def)
  have mm: "monitors s2 m = (monitors s m)\<lparr>next_count := 0, mt_cv := Some a\<rparr>" by (simp add: s2_def)
  have inj: "inj_on (sem_of s2) ?C" using d by (simp add: so mon_distinct_def)
  note I = init_condvars_ok [OF inj, of m]
  have I1: "cv_count (condvars t c) = 0 \<and> cv_owner (condvars t c) = m \<and> fresh_sem t (sem_of s c) 0" if "c \<in> ?C" for c
    using bspec [OF conjunct1 [OF I] that] fun_cong [OF so, of c] by (simp add: t)
  have I2: "fresh_sem t q v = fresh_sem s2 q v" if "q \<notin> sem_of s ` ?C" for q v
    using conjunct1 [OF conjunct2 [OF I]] that unfolding so t by simp
  show e: "sync_kernel.more t = sync_kernel.more s" "mutex_of m t = mutex_of m s" "next_of m t = next_of m s"
    "procs t = procs s" "current t = current s" "idleproc t = idleproc s" "sched_view t = sched_view s"
    "mt_cv (monitors t m) = Some a"
    by (simp_all add: t s2_def)
  show so': "sem_of t = sem_of s" unfolding t init_condvars_fields by (rule so)
  have fc: "fresh_sem t (sem_of s c) 0" "cv_count (condvars t c) = 0" "cv_owner (condvars t c) = m" if "c \<in> ?C" for c
    using I1 [OF that] by simp_all
  have "fresh_sem s2 (mutex_of m s) 1" "fresh_sem s2 (next_of m s) 0"
    using d by (auto simp: s2_def fresh_sem_def ring_list_init list_init_def ring_def mon_distinct_def)
  then have fm: "fresh_sem t (mutex_of m s) 1" "fresh_sem t (next_of m s) 0"
    using I2 d by (simp_all add: mon_distinct_def)
  have nc: "next_count (monitors t m) = 0" by (simp add: t mm)
  show "mon_inv m ?C L (\<lambda>_. Outside) (\<lambda>_. []) t"
    unfolding mon_inv_def mon_rel_def
  proof (intro conjI)
    show "mon_layout m ?C t" unfolding mon_layout_def e so' using d fc(3) by blast
    show "sem_core (mon_sems m ?C t) (\<lambda>_. []) t"
      unfolding mon_sems_def e so' by (rule fresh_sems_core) (use fm fc(1) in \<open>auto intro: exI [of _ "1::int"] exI [of _ "0::int"]\<close>)
    have "sem_value (sems t (mutex_of m t)) = 1" using fm(1) by (simp add: e fresh_sem_def)
    then show "baton (mutex_of m t) (next_of m t) (sem_of t) ?C L (\<lambda>_. Outside) (\<lambda>_. []) (sem_value (sems t (mutex_of m t)))
        (next_count (monitors t m)) (\<lambda>c. cv_count (condvars t c))"
      using fc(2) by (intro batonI) (auto simp: nc signallers_def holders_def)
    show "sem_value (sems t (next_of m t)) = 0" using fm(2) by (simp add: e fresh_sem_def)
    show "\<forall>c\<in>?C. sem_value (sems t (sem_of t c)) = 0" using fc(1) fun_cong [OF so'] by (simp add: fresh_sem_def)
  qed simp
qed

interpretation rr_monitor: monitor_machine default_sched_class rr_ready rr_detached
  by unfold_locales

interpretation stride_monitor: monitor_machine stride_sched_class stride_ready stride_detached
  by unfold_locales

text \<open>C12: A monitor is a lock that is handed over: from \<open>monitor_init\<close> on, whatever the processes do that use
  it (enter, wait on and signal its condition variables, leave) and however these steps are interleaved
  with each other and with the rest of the kernel, at most one process is inside, and the next
  operation of the running process never stops the kernel.\<close>

theorem monitor_exclusive:
  assumes "monitor_init m n (Some a) s = Some t"
    and "mon_distinct (mutex_of m s) (next_of m s) (sem_of s) {a..<a + n}"
    and "sched_inv rr_ready rr_detached L s"
    and "mon_steps default_sched_class (sched_inv rr_ready rr_detached L) m {a..<a + n} (\<lambda>_. Outside, t) (pc, u)"
  shows "(pc p = Inside \<and> pc q = Inside \<longrightarrow> p = q) \<and>
    (running p u \<longrightarrow> mon_goes_on default_sched_class m {a..<a + n} p (pc p) u)"
proof -
  note i = monitor_init_ok [OF assms(1,2)]
  have "sched_inv rr_ready rr_detached L t" using assms(3) rr.inv_cong [of t s L] i(6-9) by simp
  then obtain W where "mon_inv m {a..<a + n} L pc W u" "sched_inv rr_ready rr_detached L u"
    using rr_monitor.mon_steps_inv [OF assms(4) i(1)] by blast
  then show ?thesis using mon_inv_exclusive rr_monitor.mon_goes_on_ok by blast
qed

text \<open>Three processes ready to run, the process 2 running, and room for a monitor.\<close>

definition demo_sync :: sync_kernel where
  "demo_sync = kernel.extend demo_rr
     (sync_kernel.fields (\<lambda>_. \<lparr>mt_mutex = 8, mt_next = 9, next_count = 0, mt_cv = None\<rparr>)
        (\<lambda>c. \<lparr>cv_sem = c, cv_count = 0, cv_owner = 0\<rparr>))"

lemma extend_fields:
  fixes s :: kernel and t :: "'a kernel_scheme"
  assumes "t = kernel.extend s x"
  shows "procs t = procs s" "rq t = rq s" "run_links t = run_links s" "pool t = pool s" "current t = current s"
    "idleproc t = idleproc s" "rr_ready t Q = rr_ready s Q" "rr_detached t p = rr_detached s p" "waiting_cpu L t = waiting_cpu L s"
    "sched_inv rr_ready rr_detached L t = sched_inv rr_ready rr_detached L s"
proof -
  show e: "procs t = procs s" "rq t = rq s" "run_links t = run_links s" "pool t = pool s" "current t = current s"
    "idleproc t = idleproc s"
    using assms by (simp_all add: kernel.extend_def)
  show r: "rr_ready t Q = rr_ready s Q" "rr_detached t p = rr_detached s p" for Q p
    by (simp_all add: rr_ready_def rr_queue_def rr_detached_def e)
  show w: "waiting_cpu L t = waiting_cpu L s" by (simp add: waiting_cpu_def e)
  show "sched_inv rr_ready rr_detached L t = sched_inv rr_ready rr_detached L s"
    by (simp add: sched_inv_def e r w)
qed

lemma demo_sync_inv: "sched_inv rr_ready rr_detached {0, 2, 3, 4} demo_sync"
  using demo_rr_inv extend_fields(10) [OF demo_sync_def] by simp

lemma demo_sync_fields [simp]:
  "mutex_of m demo_sync = 8" "next_of m demo_sync = 9" "cv_sem (condvars demo_sync c) = c"
  "current demo_sync = Some 2" "state (procs demo_sync 2) = PROC_RUNNABLE"
  by (simp_all add: demo_sync_def kernel.extend_def sync_kernel.fields_def demo_rr_def demo_ready_def)

theorem monitor_exclusive_witness:
  "\<exists>t u. monitor_init 0 5 (Some 10) demo_sync = Some t \<and>
     mon_steps default_sched_class (sched_inv rr_ready rr_detached {0, 2, 3, 4}) 0 {10..<15}
       (\<lambda>_. Outside, t) ((\<lambda>_. Outside)(2 := Inside), u) \<and>
     running 2 u \<and> mon_goes_on default_sched_class 0 {10..<15} 2 Inside u"
proof -
  let ?L = "{0, 2, 3, 4 :: nat}"
  obtain t where t: "monitor_init 0 5 (Some 10) demo_sync = Some t"
    using monitor_init_some [of 0 5 "Some 10" demo_sync] by auto
  have d: "mon_distinct (mutex_of 0 demo_sync) (next_of 0 demo_sync) (sem_of demo_sync) {10..<10 + 5}"
    by (simp add: mon_distinct_def)
  note i = monitor_init_ok [OF t d]
  define u where "u = set_sem 8 0 t"
  have v: "sem_value (sems t 8) = 1" "mutex_of 0 t = 8"
  proof -
    show "mutex_of 0 t = 8" using i(3) by simp
    show "sem_value (sems t 8) = 1"
    proof -
      have "mon_inv 0 {10..<10 + 5} ?L (\<lambda>_. Outside) (\<lambda>_. []) t" by (rule i(1))
      then have b: "baton (mutex_of 0 t) (next_of 0 t) (sem_of t) {10..<10 + 5} ?L (\<lambda>_. Outside) (\<lambda>_. [])
          (sem_value (sems t (mutex_of 0 t))) (next_count (monitors t 0)) (\<lambda>c. cv_count (condvars t c))"
        by (auto simp: mon_inv_def dest: mon_relD(3))
      show ?thesis using batonD(8,10) [OF b] \<open>mutex_of 0 t = 8\<close> by (auto simp: holders_def)
    qed
  qed
  have r: "running 2 t" by (simp add: running_def i)
  have ds: "down_start default_sched_class (mutex_of 0 t) 2 t = Some (True, u)"
    by (simp add: down_start_def down_enter_def v u_def)
  have "mon_step default_sched_class (sched_inv rr_ready rr_detached ?L) 0 {10..<10 + 5}
      (\<lambda>_. Outside, t) ((\<lambda>_. Outside)(2 := Inside), u)"
    using mon_step.enter [OF r _ ds, where pc = "\<lambda>_. Outside"] by simp
  then have s: "mon_steps default_sched_class (sched_inv rr_ready rr_detached ?L) 0 {10..<10 + 5}
      (\<lambda>_. Outside, t) ((\<lambda>_. Outside)(2 := Inside), u)" by blast
  have u: "running 2 u" using r by (simp add: running_def u_def)
  show ?thesis
    using monitor_exclusive [OF t d demo_sync_inv s, of 2 2] t s u by (intro exI [of _ t] exI [of _ u]) simp
qed

end
