(* ===== verification/Philosophers.thy ===== *)
theory Philosophers
  imports Monitor
begin

text \<open>
  The dining philosophers of \<^verbatim>\<open>kern/sync/check_sync.c\<close>, with a monitor and with semaphores.

  A philosopher is a kernel thread. Its code is cut at the calls that may give up the CPU: \<open>seat\<close> says
  between which two pieces it is, and \<open>philosopher_condvar\<close>, \<open>philosopher_sema\<close> run the next piece. The pauses
  (\<^verbatim>\<open>do_sleep\<close>) and everything else the kernel does are the other steps of the relations; the number of
  rounds is not bounded. The messages are left out.

  The invariants relate where a philosopher is to what the state array says. They give the safety of the
  protocols (no two neighbours eat at once), that no piece of code stops the kernel, and that no
  wake-up is lost (whoever waits for forks has a neighbour that eats).
\<close>

section \<open>The code\<close>

datatype meal = THINKING | HUNGRY | EATING

definition N :: nat where "N = 5"
definition LEFT :: "nat \<Rightarrow> nat" where "LEFT i = (i + N - 1) mod N"
definition RIGHT :: "nat \<Rightarrow> nat" where "RIGHT i = (i + 1) mod N"

record table = sync_kernel +
  state_condvar :: "nat \<Rightarrow> meal"
  mtp :: nat
  state_sema :: "nat \<Rightarrow> meal"
  mutex_sema :: nat
  s_sema :: "nat \<Rightarrow> nat"

datatype seat = Thinks | Take_enter | Take_test | Take_wait | Eats | Put_enter | Put_left | Put_right

definition set_state_condvar :: "nat \<Rightarrow> meal \<Rightarrow> 'a table_scheme \<Rightarrow> 'a table_scheme" where
  "set_state_condvar i x s = s\<lparr>state_condvar := (state_condvar s)(i := x)\<rparr>"

definition self_cv :: "nat \<Rightarrow> 'a table_scheme \<Rightarrow> nat option" where
  "self_cv i s = map_option (\<lambda>a. a + i) (mt_cv (monitors s (mtp s)))"

definition phi_test_condvar ::
  "'a table_scheme sched_class \<Rightarrow> nat \<Rightarrow> nat \<Rightarrow> 'a table_scheme \<Rightarrow> (bool \<times> 'a table_scheme) option" where
  "phi_test_condvar cls i w s =
     (if state_condvar s i = HUNGRY \<and> state_condvar s (LEFT i) \<noteq> EATING \<and> state_condvar s (RIGHT i) \<noteq> EATING
      then do {
        let s = set_state_condvar i EATING s;
        c \<leftarrow> self_cv i s;
        cond_signal cls c w s
      } else Some (True, s))"

text \<open>The end of a routine of the monitor, and the pieces of \<open>phi_take_forks_condvar\<close> from the back.\<close>

definition take_leave ::
  "'a table_scheme sched_class \<Rightarrow> 'a table_scheme \<Rightarrow> (seat \<times> 'a table_scheme) option" where
  "take_leave cls s = do { s \<leftarrow> monitor_leave cls (mtp s) s; Some (Eats, s) }"

definition take_rest ::
  "'a table_scheme sched_class \<Rightarrow> nat \<Rightarrow> nat \<Rightarrow> 'a table_scheme \<Rightarrow> (seat \<times> 'a table_scheme) option" where
  "take_rest cls i w s =
     (if state_condvar s i \<noteq> EATING then do {
        c \<leftarrow> self_cv i s;
        (r, s) \<leftarrow> cond_wait cls c w s;
        if r then take_leave cls s else Some (Take_wait, s)
      } else take_leave cls s)"

definition take_inside ::
  "'a table_scheme sched_class \<Rightarrow> nat \<Rightarrow> nat \<Rightarrow> 'a table_scheme \<Rightarrow> (seat \<times> 'a table_scheme) option" where
  "take_inside cls i w s = do {
     let s = set_state_condvar i HUNGRY s;
     (r, s) \<leftarrow> phi_test_condvar cls i w s;
     if r then take_rest cls i w s else Some (Take_test, s)
   }"

definition phi_take_forks_condvar ::
  "'a table_scheme sched_class \<Rightarrow> nat \<Rightarrow> nat \<Rightarrow> 'a table_scheme \<Rightarrow> (seat \<times> 'a table_scheme) option" where
  "phi_take_forks_condvar cls i w s = do {
     (r, s) \<leftarrow> down_start cls (mt_mutex (monitors s (mtp s))) w s;
     if r then take_inside cls i w s else Some (Take_enter, s)
   }"

definition put_leave ::
  "'a table_scheme sched_class \<Rightarrow> 'a table_scheme \<Rightarrow> (seat \<times> 'a table_scheme) option" where
  "put_leave cls s = do { s \<leftarrow> monitor_leave cls (mtp s) s; Some (Thinks, s) }"

definition put_right ::
  "'a table_scheme sched_class \<Rightarrow> nat \<Rightarrow> nat \<Rightarrow> 'a table_scheme \<Rightarrow> (seat \<times> 'a table_scheme) option" where
  "put_right cls i w s = do {
     (r, s) \<leftarrow> phi_test_condvar cls (RIGHT i) w s;
     if r then put_leave cls s else Some (Put_right, s)
   }"

definition put_inside ::
  "'a table_scheme sched_class \<Rightarrow> nat \<Rightarrow> nat \<Rightarrow> 'a table_scheme \<Rightarrow> (seat \<times> 'a table_scheme) option" where
  "put_inside cls i w s = do {
     let s = set_state_condvar i THINKING s;
     (r, s) \<leftarrow> phi_test_condvar cls (LEFT i) w s;
     if r then put_right cls i w s else Some (Put_left, s)
   }"

definition phi_put_forks_condvar ::
  "'a table_scheme sched_class \<Rightarrow> nat \<Rightarrow> nat \<Rightarrow> 'a table_scheme \<Rightarrow> (seat \<times> 'a table_scheme) option" where
  "phi_put_forks_condvar cls i w s = do {
     (r, s) \<leftarrow> down_start cls (mt_mutex (monitors s (mtp s))) w s;
     if r then put_inside cls i w s else Some (Put_enter, s)
   }"

text \<open>What philosopher \<open>i\<close>, a process that waits with \<open>w\<close>, runs next.\<close>

definition philosopher_condvar ::
  "'a table_scheme sched_class \<Rightarrow> nat \<Rightarrow> nat \<Rightarrow> seat \<Rightarrow> 'a table_scheme \<Rightarrow> (seat \<times> 'a table_scheme) option" where
  "philosopher_condvar cls i w a s = (case a of
     Thinks \<Rightarrow> phi_take_forks_condvar cls i w s
   | Take_enter \<Rightarrow> do { s \<leftarrow> down_resume (mt_mutex (monitors s (mtp s))) w s; take_inside cls i w s }
   | Take_test \<Rightarrow> do { c \<leftarrow> self_cv i s; s \<leftarrow> cond_signal_resume c w s; take_rest cls i w s }
   | Take_wait \<Rightarrow> do { c \<leftarrow> self_cv i s; s \<leftarrow> cond_wait_resume c w s; take_leave cls s }
   | Eats \<Rightarrow> phi_put_forks_condvar cls i w s
   | Put_enter \<Rightarrow> do { s \<leftarrow> down_resume (mt_mutex (monitors s (mtp s))) w s; put_inside cls i w s }
   | Put_left \<Rightarrow> do { c \<leftarrow> self_cv (LEFT i) s; s \<leftarrow> cond_signal_resume c w s; put_right cls i w s }
   | Put_right \<Rightarrow> do { c \<leftarrow> self_cv (RIGHT i) s; s \<leftarrow> cond_signal_resume c w s; put_leave cls s })"

section \<open>Neighbours\<close>

lemma neighbours [simp]:
  assumes "i < N"
  shows "LEFT i < N" "RIGHT i < N" "LEFT (RIGHT i) = i" "RIGHT (LEFT i) = i" "LEFT i \<noteq> i" "RIGHT i \<noteq> i"
    "LEFT i \<noteq> RIGHT i" "RIGHT (RIGHT i) \<noteq> i" "LEFT (LEFT i) \<noteq> i"
proof -
  have "i = 0 \<or> i = 1 \<or> i = 2 \<or> i = 3 \<or> i = 4" using assms by (auto simp: N_def)
  then show "LEFT i < N" "RIGHT i < N" "LEFT (RIGHT i) = i" "RIGHT (LEFT i) = i" "LEFT i \<noteq> i" "RIGHT i \<noteq> i"
    "LEFT i \<noteq> RIGHT i" "RIGHT (RIGHT i) \<noteq> i" "LEFT (LEFT i) \<noteq> i"
    by (elim disjE; simp add: LEFT_def RIGHT_def N_def)+
qed

lemma neighbour_iff: "i < N \<Longrightarrow> k < N \<Longrightarrow> LEFT k = i \<longleftrightarrow> k = RIGHT i" "i < N \<Longrightarrow> k < N \<Longrightarrow> RIGHT k = i \<longleftrightarrow> k = LEFT i"
  by auto

section \<open>Where they are and what the array says\<close>

text \<open>\<open>Q i\<close>: philosopher \<open>i\<close> is in the queue of its condition variable. \<open>J\<close> are the philosophers that are still
  to be tested.\<close>

definition place_ok :: "seat \<Rightarrow> bool \<Rightarrow> meal \<Rightarrow> meal \<Rightarrow> meal \<Rightarrow> bool" where
  "place_ok a q x l r \<longleftrightarrow> \<not> (x = EATING \<and> (l = EATING \<or> r = EATING)) \<and>
     (case a of Eats \<Rightarrow> x = EATING | Put_enter \<Rightarrow> x = EATING | Take_test \<Rightarrow> False
      | Take_wait \<Rightarrow> x = (if q then HUNGRY else EATING) | _ \<Rightarrow> x = THINKING)"

definition served :: "seat \<Rightarrow> bool \<Rightarrow> meal \<Rightarrow> meal \<Rightarrow> seat \<Rightarrow> bool" where
  "served a q l r la \<longleftrightarrow> (a = Take_wait \<and> q \<longrightarrow> l = EATING \<or> r = EATING \<or> la = Put_left)"

definition meals_but :: "nat set \<Rightarrow> (nat \<Rightarrow> seat) \<Rightarrow> (nat \<Rightarrow> bool) \<Rightarrow> (nat \<Rightarrow> meal) \<Rightarrow> bool" where
  "meals_but J at Q st \<longleftrightarrow> (\<forall>k<N. place_ok (at k) (Q k) (st k) (st (LEFT k)) (st (RIGHT k)) \<and>
     (k \<notin> J \<longrightarrow> served (at k) (Q k) (st (LEFT k)) (st (RIGHT k)) (at (LEFT k))))"

abbreviation meals :: "(nat \<Rightarrow> seat) \<Rightarrow> (nat \<Rightarrow> bool) \<Rightarrow> (nat \<Rightarrow> meal) \<Rightarrow> bool" where
  "meals \<equiv> meals_but {}"

lemma mealsD:
  assumes "meals_but J at Q st" "k < N"
  shows "place_ok (at k) (Q k) (st k) (st (LEFT k)) (st (RIGHT k))"
    "k \<notin> J \<Longrightarrow> served (at k) (Q k) (st (LEFT k)) (st (RIGHT k)) (at (LEFT k))"
  using assms by (auto simp: meals_but_def)

lemma place_ok_calm:
  "place_ok a q x l r \<Longrightarrow> r' \<noteq> EATING \<Longrightarrow> place_ok a q x l r'" "place_ok a q x l r \<Longrightarrow> l' \<noteq> EATING \<Longrightarrow> place_ok a q x l' r"
  by (auto simp: place_ok_def)

lemma served_calm:
  "served a q l r la \<Longrightarrow> r \<noteq> EATING \<Longrightarrow> served a q l r' la"
  "served a q l r la \<Longrightarrow> l \<noteq> EATING \<Longrightarrow> la \<noteq> Put_left \<Longrightarrow> served a q l' r la'"
  by (auto simp: served_def)

text \<open>A move that changes one place: what there is to show is about that place and its neighbours.\<close>

lemma meals_move:
  assumes m: "meals_but J at Q st" and i: "i < N"
    and me: "place_ok y q x (st (LEFT i)) (st (RIGHT i))" "i \<notin> J' \<Longrightarrow> served y q (st (LEFT i)) (st (RIGHT i)) (at (LEFT i))"
    and l: "place_ok (at (LEFT i)) (Q (LEFT i)) (st (LEFT i)) (st (LEFT (LEFT i))) x"
      "LEFT i \<notin> J' \<Longrightarrow> served (at (LEFT i)) (Q (LEFT i)) (st (LEFT (LEFT i))) x (at (LEFT (LEFT i)))"
    and r: "place_ok (at (RIGHT i)) (Q (RIGHT i)) (st (RIGHT i)) x (st (RIGHT (RIGHT i)))"
      "RIGHT i \<notin> J' \<Longrightarrow> served (at (RIGHT i)) (Q (RIGHT i)) x (st (RIGHT (RIGHT i))) y"
    and J: "J \<subseteq> J' \<union> {LEFT i, i, RIGHT i}"
  shows "meals_but J' (at(i := y)) (Q(i := q)) (st(i := x))"
  unfolding meals_but_def
proof (intro allI impI)
  fix k assume k: "k < N"
  consider "k = i" | "k = LEFT i" | "k = RIGHT i" | "k \<noteq> i" "k \<noteq> LEFT i" "k \<noteq> RIGHT i" by blast
  then show "place_ok ((at(i := y)) k) ((Q(i := q)) k) ((st(i := x)) k) ((st(i := x)) (LEFT k)) ((st(i := x)) (RIGHT k)) \<and>
     (k \<notin> J' \<longrightarrow> served ((at(i := y)) k) ((Q(i := q)) k) ((st(i := x)) (LEFT k)) ((st(i := x)) (RIGHT k)) ((at(i := y)) (LEFT k)))"
  proof cases
    case 4
    then have "LEFT k \<noteq> i" "RIGHT k \<noteq> i" using neighbour_iff [OF i k] by auto
    then show ?thesis using 4 mealsD [OF m k] J by auto
  qed (use i me l r in simp_all)
qed

lemma meals_test_yes:
  assumes m: "meals_but J at Q st" and j: "j < N" and e: "st j = HUNGRY" "st (LEFT j) \<noteq> EATING" "st (RIGHT j) \<noteq> EATING"
  shows "meals_but (J - {j}) at (Q(j := False)) (st(j := EATING))" "at j = Take_wait" "Q j"
proof -
  note p = mealsD(1) [OF m j]
  show a: "at j = Take_wait" "Q j" using p e(1) by (auto simp: place_ok_def split: seat.splits if_splits)
  have "meals_but (J - {j}) (at(j := at j)) (Q(j := False)) (st(j := EATING))"
    by (rule meals_move [OF m j]) (use a e j mealsD [OF m, of "LEFT j"] mealsD [OF m, of "RIGHT j"]
      in \<open>auto simp: place_ok_def served_def split: seat.splits\<close>)
  then show "meals_but (J - {j}) at (Q(j := False)) (st(j := EATING))" by simp
qed

lemma meals_test_no:
  assumes m: "meals_but J at Q st" and j: "j < N" and e: "\<not> (st j = HUNGRY \<and> st (LEFT j) \<noteq> EATING \<and> st (RIGHT j) \<noteq> EATING)"
  shows "meals_but (J - {j}) at Q st"
  unfolding meals_but_def
proof (intro allI impI conjI)
  fix k assume k: "k < N"
  show "place_ok (at k) (Q k) (st k) (st (LEFT k)) (st (RIGHT k))" by (rule mealsD(1) [OF m k])
  assume "k \<notin> J - {j}"
  then show "served (at k) (Q k) (st (LEFT k)) (st (RIGHT k)) (at (LEFT k))"
    using mealsD [OF m k] e by (cases "k = j") (auto simp: served_def place_ok_def)
qed

text \<open>A philosopher moves on, the array stays.\<close>

lemma meals_pass:
  assumes m: "meals_but J at Q st" and i: "i < N" and p: "place_ok y q (st i) (st (LEFT i)) (st (RIGHT i))"
    and y: "y \<noteq> Take_wait" and J: "J \<subseteq> J' \<union> {RIGHT i}"
    and pl: "RIGHT i \<notin> J' \<Longrightarrow> RIGHT i \<in> J \<or> at i = Put_left \<Longrightarrow> y = Put_left"
  shows "meals_but J' (at(i := y)) (Q(i := q)) st"
proof -
  have LJ: "LEFT i \<in> J \<Longrightarrow> LEFT i \<in> J'" using J neighbours(7) [OF i] by auto
  have "meals_but J' (at(i := y)) (Q(i := q)) (st(i := st i))"
    by (rule meals_move [OF m i]) (use p y J pl i LJ mealsD [OF m, of "LEFT i"] mealsD [OF m, of "RIGHT i"]
      in \<open>auto simp: served_def\<close>)
  then show ?thesis by simp
qed

lemma meals_put_down:
  assumes m: "meals at Q st" and i: "i < N"
  shows "meals_but {LEFT i, RIGHT i} (at(i := Thinks)) (Q(i := q)) (st(i := THINKING))"
proof (rule meals_move [OF m i])
  show "place_ok (at (LEFT i)) (Q (LEFT i)) (st (LEFT i)) (st (LEFT (LEFT i))) THINKING"
    "place_ok (at (RIGHT i)) (Q (RIGHT i)) (st (RIGHT i)) THINKING (st (RIGHT (RIGHT i)))"
    using mealsD(1) [OF m, of "LEFT i"] mealsD(1) [OF m, of "RIGHT i"] i by (auto intro: place_ok_calm)
qed (auto simp: place_ok_def served_def)

lemma meals_take:
  assumes m: "meals at Q st" and i: "i < N" "at i = Thinks \<or> at i = Take_enter"
  shows "meals_but {i} (at(i := Take_wait)) (Q(i := True)) (st(i := HUNGRY))"
proof (rule meals_move [OF m i(1)])
  have x: "st i = THINKING" using mealsD(1) [OF m i(1)] i(2) by (auto simp: place_ok_def)
  show "place_ok (at (LEFT i)) (Q (LEFT i)) (st (LEFT i)) (st (LEFT (LEFT i))) HUNGRY"
    "place_ok (at (RIGHT i)) (Q (RIGHT i)) (st (RIGHT i)) HUNGRY (st (RIGHT (RIGHT i)))"
    using mealsD(1) [OF m, of "LEFT i"] mealsD(1) [OF m, of "RIGHT i"] i by (auto intro: place_ok_calm)
  show "served (at (LEFT i)) (Q (LEFT i)) (st (LEFT (LEFT i))) HUNGRY (at (LEFT (LEFT i)))"
    using mealsD(2) [OF m, of "LEFT i"] i(1) x by (simp add: served_def)
  show "served (at (RIGHT i)) (Q (RIGHT i)) HUNGRY (st (RIGHT (RIGHT i))) Take_wait"
    using mealsD(2) [OF m, of "RIGHT i"] i x by (auto simp: served_def)
qed (auto simp: place_ok_def)

lemma meals_cong:
  assumes "meals_but J at Q st" "\<And>k. k < N \<Longrightarrow> Q' k = Q k"
  shows "meals_but J at Q' st"
  using assms by (simp add: meals_but_def)

section \<open>The philosophers and the monitor\<close>

lemma set_state_condvar_simps [simp]:
  "state_condvar (set_state_condvar i x s) = (state_condvar s)(i := x)" "mtp (set_state_condvar i x s) = mtp s"
  "monitors (set_state_condvar i x s) = monitors s" "condvars (set_state_condvar i x s) = condvars s"
  "waits (set_state_condvar i x s) = waits s" "wait_links (set_state_condvar i x s) = wait_links s"
  "procs (set_state_condvar i x s) = procs s" "sems (set_state_condvar i x s) = sems s"
  "current (set_state_condvar i x s) = current s" "idleproc (set_state_condvar i x s) = idleproc s"
  "sched_view (set_state_condvar i x s) = sched_view s" "self_cv j (set_state_condvar i x s) = self_cv j s"
  by (simp_all add: set_state_condvar_def sched_view_def self_cv_def)

lemma more_table:
  assumes "sync_kernel.more s' = sync_kernel.more s"
  shows "state_condvar s' = state_condvar s" "mtp s' = mtp s" "state_sema s' = state_sema s"
    "mutex_sema s' = mutex_sema s" "s_sema s' = s_sema s"
  using assms by (cases s; cases s'; simp)+

text \<open>Where a philosopher is in the monitor; the condition variables begin at \<open>a\<close>, philosopher \<open>i\<close> is the
  process \<open>ph i\<close>.\<close>

fun place_of :: "nat \<Rightarrow> nat \<Rightarrow> seat \<Rightarrow> place" where
  "place_of a i Thinks = Outside"
| "place_of a i Take_enter = At_mutex"
| "place_of a i Take_test = At_next (a + i)"
| "place_of a i Take_wait = At_cond (a + i)"
| "place_of a i Eats = Outside"
| "place_of a i Put_enter = At_mutex"
| "place_of a i Put_left = At_next (a + LEFT i)"
| "place_of a i Put_right = At_next (a + RIGHT i)"

definition places :: "nat \<Rightarrow> (nat \<Rightarrow> nat) \<Rightarrow> (nat \<Rightarrow> seat) \<Rightarrow> nat \<Rightarrow> place" where
  "places a ph at p = (if p \<in> ph ` {..<N} then let i = the_inv_into {..<N} ph p in place_of a i (at i) else Outside)"

lemma places_ph: "inj_on ph {..<N} \<Longrightarrow> i < N \<Longrightarrow> places a ph at (ph i) = place_of a i (at i)"
  by (simp add: places_def the_inv_into_f_f Let_def)

lemma places_other: "p \<notin> ph ` {..<N} \<Longrightarrow> places a ph at p = Outside"
  by (simp add: places_def)

lemma places_upd:
  assumes "inj_on ph {..<N}" "i < N"
  shows "places a ph (at(i := x)) = (places a ph at)(ph i := place_of a i x)"
proof
  fix p
  show "places a ph (at(i := x)) p = ((places a ph at)(ph i := place_of a i x)) p"
  proof (cases "p \<in> ph ` {..<N}")
    case True
    then obtain k where k: "k < N" "p = ph k" by auto
    then have "ph k = ph i \<longleftrightarrow> k = i" using assms by (auto dest: inj_onD)
    then show ?thesis using k assms by (auto simp: places_ph)
  next
    case False
    then show ?thesis using assms by (auto simp: places_other)
  qed
qed

definition queued :: "nat \<Rightarrow> (nat \<Rightarrow> nat) \<Rightarrow> (nat \<Rightarrow> nat list) \<Rightarrow> (nat \<Rightarrow> nat) \<Rightarrow> nat \<Rightarrow> bool" where
  "queued a ph W so k \<longleftrightarrow> ph k \<in> set (W (so (a + k)))"

abbreviation table_cvs :: "nat \<Rightarrow> nat set" where
  "table_cvs a \<equiv> {a..<a + N}"

lemma mon_inv_distinct:
  assumes "mon_inv m C L pc W s"
  shows "c \<in> C \<Longrightarrow> d \<in> C \<Longrightarrow> sem_of s c = sem_of s d \<longleftrightarrow> c = d" "c \<in> C \<Longrightarrow> sem_of s c \<noteq> next_of m s"
    "c \<in> C \<Longrightarrow> sem_of s c \<noteq> mutex_of m s" "mutex_of m s \<noteq> next_of m s"
  using mon_relD(7) [OF assms [unfolded mon_inv_def]] by (auto simp: mon_distinct_def inj_on_def image_iff)

lemma mon_inv_baton:
  assumes "mon_inv m C L pc W s"
  shows "baton (mutex_of m s) (next_of m s) (sem_of s) C L pc W (sem_value (sems s (mutex_of m s)))
    (next_count (monitors s m)) (\<lambda>c. cv_count (condvars s c))"
  using mon_relD(3) [OF assms [unfolded mon_inv_def]] .

text \<open>A queue of a condition variable holds at most its philosopher.\<close>

lemma queue_of_one:
  assumes inv: "mon_inv m (table_cvs a) L ((places a ph at)(ph i := pl)) W s" and inj: "inj_on ph {..<N}"
    and pl: "pl = Inside \<or> pl = Outside" and j: "j < N"
  shows "set (W (sem_of s (a + j))) \<subseteq> {ph j}" "distinct (W (sem_of s (a + j)))"
proof -
  have q: "sem_of s (a + j) \<in> insert (mutex_of m s) (insert (next_of m s) (sem_of s ` table_cvs a))" using j by auto
  show "distinct (W (sem_of s (a + j)))" using batonD(5) [OF mon_inv_baton [OF inv] q] .
  show "set (W (sem_of s (a + j))) \<subseteq> {ph j}"
  proof
    fix p assume p: "p \<in> set (W (sem_of s (a + j)))"
    have ps: "place_sem (mutex_of m s) (next_of m s) (sem_of s) (((places a ph at)(ph i := pl)) p) = Some (sem_of s (a + j))"
      by (rule batonD(4) [OF mon_inv_baton [OF inv] q p])
    then have np: "p \<noteq> ph i" using pl by auto
    have "p \<in> ph ` {..<N}"
    proof (rule ccontr)
      assume "p \<notin> ph ` {..<N}"
      then show False using ps np by (simp add: places_other)
    qed
    then obtain k where k: "k < N" "p = ph k" by auto
    have ps': "place_sem (mutex_of m s) (next_of m s) (sem_of s) (place_of a k (at k)) = Some (sem_of s (a + j))"
      using ps np k inj by (simp add: places_ph)
    have d: "sem_of s (a + j) \<noteq> next_of m s" "sem_of s (a + j) \<noteq> mutex_of m s"
      "sem_of s (a + k) = sem_of s (a + j) \<longleftrightarrow> a + k = a + j"
      using mon_inv_distinct [OF inv] j k(1) by auto
    have "k = j" using ps' d by (cases "at k") auto
    then show "p \<in> {ph j}" using k(2) by simp
  qed
qed

locale philosophers = monitor_machine cls ready detached
  for cls :: "'a table_scheme sched_class" and ready and detached
begin

text \<open>The state in the middle of a piece: philosopher \<open>i\<close> is inside, \<open>J\<close> are still to be tested.\<close>

definition busy :: "nat \<Rightarrow> (nat \<Rightarrow> nat) \<Rightarrow> nat set \<Rightarrow> nat set \<Rightarrow> nat \<Rightarrow> (nat \<Rightarrow> seat) \<Rightarrow> (nat \<Rightarrow> nat list) \<Rightarrow> 'a table_scheme \<Rightarrow> bool" where
  "busy a ph L J i at W s \<longleftrightarrow> i < N \<and> inj_on ph {..<N} \<and> mt_cv (monitors s (mtp s)) = Some a \<and>
     running (ph i) s \<and> sched_inv ready detached L s \<and>
     mon_inv (mtp s) (table_cvs a) L ((places a ph at)(ph i := Inside)) W s \<and>
     meals_but J at (queued a ph W (sem_of s)) (state_condvar s)"

text \<open>The state between two pieces.\<close>

definition seated :: "nat \<Rightarrow> (nat \<Rightarrow> nat) \<Rightarrow> nat set \<Rightarrow> (nat \<Rightarrow> seat) \<Rightarrow> (nat \<Rightarrow> nat list) \<Rightarrow> 'a table_scheme \<Rightarrow> bool" where
  "seated a ph L at W s \<longleftrightarrow> inj_on ph {..<N} \<and> mt_cv (monitors s (mtp s)) = Some a \<and> sched_inv ready detached L s \<and>
     mon_inv (mtp s) (table_cvs a) L (places a ph at) W s \<and> meals at (queued a ph W (sem_of s)) (state_condvar s)"

lemma busyD:
  assumes "busy a ph L J i at W s"
  shows "i < N" "inj_on ph {..<N}" "mt_cv (monitors s (mtp s)) = Some a" "running (ph i) s" "sched_inv ready detached L s"
    "mon_inv (mtp s) (table_cvs a) L ((places a ph at)(ph i := Inside)) W s"
    "meals_but J at (queued a ph W (sem_of s)) (state_condvar s)" "self_cv k s = Some (a + k)"
  using assms by (simp_all add: busy_def self_cv_def)

text \<open>Writing the state array.\<close>

lemma busy_set_state:
  assumes b: "busy a ph L J i at W s"
    and m: "meals_but J' at' Q (st(k := x))" "\<And>k. k < N \<Longrightarrow> Q k = queued a ph W (sem_of s) k" "st = state_condvar s"
    and at: "places a ph at' = (places a ph at)(ph i := pl)"
  shows "busy a ph L J' i at' W (set_state_condvar k x s)"
proof -
  have "mon_view (mtp s) (table_cvs a) (set_state_condvar k x s) = mon_view (mtp s) (table_cvs a) s"
    by (simp add: mon_view_def cong: if_cong)
  then have "mon_inv (mtp s) (table_cvs a) L ((places a ph at)(ph i := Inside)) W (set_state_condvar k x s)"
    using mon_rel_cong [OF busyD(6) [OF b, unfolded mon_inv_def], of "set_state_condvar k x s"]
    by (simp add: mon_inv_def)
  moreover have "sched_inv ready detached L (set_state_condvar k x s)"
    using busyD(5) [OF b] inv_cong [of "set_state_condvar k x s" s L] by simp
  moreover have "meals_but J' at' (queued a ph W (sem_of s)) (st(k := x))" by (rule meals_cong [OF m(1)]) (simp add: m(2))
  ultimately show ?thesis using b m(3) by (simp add: busy_def running_def at)
qed

text \<open>Testing a neighbour: either it stays hungry and there is nobody to wake, or it is woken and the
  tester sleeps until the monitor comes back to it.\<close>

lemma phi_test_ok:
  assumes b: "busy a ph L J i at W s" and j: "j < N" "j \<noteq> i"
  shows "phi_test_condvar cls j (ph i) s = Some (True, s) \<and> busy a ph L (J - {j}) i at W s \<or>
    (\<exists>s' W'. phi_test_condvar cls j (ph i) s = Some (False, s') \<and> mtp s' = mtp s \<and>
      mt_cv (monitors s' (mtp s)) = Some a \<and> sched_inv ready detached L s' \<and>
      mon_inv (mtp s) (table_cvs a) L ((places a ph at)(ph i := At_next (a + j))) W' s' \<and>
      meals_but (J - {j}) at (queued a ph W' (sem_of s')) (state_condvar s'))"
proof (cases "state_condvar s j = HUNGRY \<and> state_condvar s (LEFT j) \<noteq> EATING \<and> state_condvar s (RIGHT j) \<noteq> EATING")
  case False
  have "meals_but (J - {j}) at (queued a ph W (sem_of s)) (state_condvar s)"
    by (rule meals_test_no [OF busyD(7) [OF b] j(1) False])
  then have "busy a ph L (J - {j}) i at W s" using b by (simp add: busy_def)
  moreover have "phi_test_condvar cls j (ph i) s = Some (True, s)" unfolding phi_test_condvar_def if_not_P [OF False] ..
  ultimately show ?thesis by blast
next
  case True
  let ?m = "mtp s" and ?C = "table_cvs a"
  note i = busyD(1,2) [OF b]
  have nij: "ph j \<noteq> ph i" using i j by (auto dest: inj_onD)
  have T: "state_condvar s j = HUNGRY" "state_condvar s (LEFT j) \<noteq> EATING" "state_condvar s (RIGHT j) \<noteq> EATING"
    using True by auto
  note y = meals_test_yes [OF busyD(7) [OF b] j(1) T]
  define s0 where "s0 = set_state_condvar j EATING s"
  have v: "mon_view ?m ?C s0 = mon_view ?m ?C s" by (simp add: mon_view_def s0_def cong: if_cong)
  have inv0: "mon_inv ?m ?C L ((places a ph at)(ph i := Inside)) W s0"
    using mon_rel_cong [OF busyD(6) [OF b, unfolded mon_inv_def] v] by (simp add: mon_inv_def s0_def)
  have sch0: "sched_inv ready detached L s0" using busyD(5) [OF b] inv_cong [of s0 s L] by (simp add: s0_def)
  have run0: "running (ph i) s0" using busyD(4) [OF b] by (simp add: running_def s0_def)
  have c: "a + j \<in> ?C" using j(1) by simp
  have pj: "((places a ph at)(ph i := Inside)) (ph j) = At_cond (a + j)" using y(2) nij i j by (simp add: places_ph)
  have "finite {p. ((places a ph at)(ph i := Inside)) p = At_cond (a + j)}"
    by (rule finite_subset [OF _ batonD(1) [OF mon_inv_baton [OF inv0]]]) auto
  then have "0 < card {p. ((places a ph at)(ph i := Inside)) p = At_cond (a + j)}" using pj card_gt_0_iff by blast
  then have cnt: "cv_count (condvars s0 (a + j)) \<noteq> 0" using batonD(7) [OF mon_inv_baton [OF inv0] c] by simp
  obtain s' where s': "cond_signal cls (a + j) (ph i) s0 = Some (False, s')" "sched_inv ready detached L s'"
    "mon_inv ?m ?C L ((places a ph at)(ph i := Inside, ph i := At_next (a + j)))
       (W(sem_of s0 (a + j) := tl (W (sem_of s0 (a + j))), next_of ?m s0 := W (next_of ?m s0) @ [ph i])) s'"
    "sync_kernel.more s' = sync_kernel.more s0" "mt_cv (monitors s' ?m) = mt_cv (monitors s0 ?m)" "sem_of s' = sem_of s0"
    using cond_signal_ok(2) [OF inv0 sch0 _ run0 c cnt] by (auto simp del: fun_upd_apply simp: fun_upd_same)
  let ?W = "W(sem_of s0 (a + j) := tl (W (sem_of s0 (a + j))), next_of ?m s0 := W (next_of ?m s0) @ [ph i])"
  note e = more_table [OF s'(4)]
  note one = queue_of_one [OF inv0 i(2) disjI1 [OF refl] j(1)]
  have "queued a ph ?W (sem_of s') k = ((queued a ph W (sem_of s))(j := False)) k" if k: "k < N" for k
  proof -
    have "sem_of s0 (a + k) \<noteq> next_of ?m s0" "sem_of s0 (a + k) = sem_of s0 (a + j) \<longleftrightarrow> k = j"
      using mon_inv_distinct [OF inv0] j k by auto
    moreover have "ph j \<notin> set (tl (W (sem_of s0 (a + j))))"
      using one by (cases "W (sem_of s0 (a + j))") auto
    moreover have "cv_sem (condvars s x) = cv_sem (condvars s0 x)" for x by (simp add: s0_def)
    ultimately show ?thesis by (cases "k = j") (simp_all add: queued_def s'(6))
  qed
  then have "meals_but (J - {j}) at (queued a ph ?W (sem_of s')) (state_condvar s')"
    using meals_cong [OF y(1)] by (simp add: e(1) s0_def)
  moreover have "phi_test_condvar cls j (ph i) s = Some (False, s')"
    unfolding phi_test_condvar_def if_P [OF True] using s'(1) busyD(8) [OF b] by (simp add: s0_def)
  ultimately show ?thesis using s' e(2) busyD(3) [OF b] by (intro disjI2 exI [of _ s'] exI [of _ ?W]) (simp add: s0_def)
qed

lemma not_queued:
  assumes "busy a ph L J i at W s"
  shows "\<not> queued a ph W (sem_of s) i"
proof -
  have q: "sem_of s (a + i) \<in> mon_sems (mtp s) (table_cvs a) s" using busyD(1) [OF assms] by (simp add: mon_sems_def)
  have "ph i \<notin> waiters (mon_sems (mtp s) (table_cvs a) s) W"
    by (rule running_not_waiting [OF mon_relD(2) [OF busyD(6) [OF assms, unfolded mon_inv_def]] busyD(4) [OF assms]])
  then have "\<forall>q\<in>mon_sems (mtp s) (table_cvs a) s. ph i \<notin> set (W q)" unfolding waiters_def by blast
  from bspec [OF this q] show ?thesis by (simp add: queued_def)
qed

lemma no_waiter_of_own:
  assumes "inj_on ph {..<N}" "i < N"
  shows "{p. ((places a ph at)(ph i := Inside)) p = At_cond (a + i)} = {}"
proof (rule ccontr)
  assume "{p. ((places a ph at)(ph i := Inside)) p = At_cond (a + i)} \<noteq> {}"
  then obtain p where p: "p \<noteq> ph i" "places a ph at p = At_cond (a + i)" by (auto split: if_splits)
  have "p \<in> ph ` {..<N}" by (rule ccontr) (use p(2) in \<open>simp add: places_other\<close>)
  then obtain k where k: "k < N" "p = ph k" by auto
  then have "place_of a k (at k) = At_cond (a + i)" using p(2) assms(1) by (simp add: places_ph)
  then have "k = i" by (cases "at k") auto
  then show False using p(1) k(2) by simp
qed

lemma queued_released:
  assumes inv: "mon_inv m (table_cvs a) L pc W s" and k: "k < N"
  shows "queued a ph (released nc (mutex_of m s) (next_of m s) W) (sem_of s) k = queued a ph W (sem_of s) k"
  using mon_inv_distinct(2,3) [OF inv, of "a + k"] k by (auto simp: queued_def released_def)

lemma leave_ok:
  assumes b: "busy a ph L J i at W s" and y: "place_of a i y = Outside"
    and m: "meals (at(i := y)) (queued a ph W (sem_of s)) (state_condvar s)"
  obtains s' W' where "monitor_leave cls (mtp s) s = Some s'" "seated a ph L (at(i := y)) W' s'"
proof -
  let ?V = "released (next_count (monitors s (mtp s))) (mutex_of (mtp s) s) (next_of (mtp s) s) W"
  have pi: "((places a ph at)(ph i := Inside)) (ph i) = Inside" by simp
  obtain s' where s': "monitor_leave cls (mtp s) s = Some s'" "sched_inv ready detached L s'" "kernel.more s' = kernel.more s"
    "mon_inv (mtp s) (table_cvs a) L ((places a ph at)(ph i := Inside, ph i := Outside)) ?V s'"
    by (rule monitor_leave_ok [OF busyD(6,5) [OF b] pi busyD(4) [OF b]])
  note e = more_sync [OF s'(3)] more_table [OF more_sync(3) [OF s'(3)]]
  have pc: "places a ph (at(i := y)) = (places a ph at)(ph i := Outside)"
    using places_upd [OF busyD(2,1) [OF b], where at = at and x = y] y by simp
  have "meals (at(i := y)) (queued a ph ?V (sem_of s')) (state_condvar s')"
    unfolding e by (rule meals_cong [OF m queued_released [OF busyD(6) [OF b]]])
  then show ?thesis using that [of s' ?V] s' busyD(2,3) [OF b] pc by (simp add: seated_def e)
qed

lemma take_inside_ok:
  assumes b: "busy a ph L {} i at W s" and ti: "at i = Thinks \<or> at i = Take_enter"
  shows "\<exists>x s' W'. take_inside cls i (ph i) s = Some (x, s') \<and> seated a ph L (at(i := x)) W' s'"
proof -
  note i = busyD(1,2) [OF b]
  let ?Q = "queued a ph W (sem_of s)" and ?st = "state_condvar s"
  define s1 where "s1 = set_state_condvar i HUNGRY s"
  note m1 = meals_take [OF busyD(7) [OF b] i(1) ti]
  have nq: "\<not> ?Q i" by (rule not_queued [OF b])
  have pl: "places a ph (at(i := Take_wait)) = (places a ph at)(ph i := At_cond (a + i))" using places_upd [OF i(2,1)] by simp
  let ?test = "state_condvar s1 i = HUNGRY \<and> state_condvar s1 (LEFT i) \<noteq> EATING \<and> state_condvar s1 (RIGHT i) \<noteq> EATING"
  have s1: "state_condvar s1 = ?st(i := HUNGRY)" "self_cv i s1 = Some (a + i)" using busyD(8) [OF b] by (simp_all add: s1_def)
  show ?thesis
  proof (cases ?test)
    case True
    define s2 where "s2 = set_state_condvar i EATING s1"
    have m2: "meals (at(i := Take_wait)) (?Q(i := False)) (?st(i := EATING))"
      using meals_test_yes(1) [OF m1 i(1)] True by (simp add: s1)
    have s2: "s2 = set_state_condvar i EATING s" by (simp add: s2_def s1_def set_state_condvar_def)
    have b2: "busy a ph L {} i (at(i := Take_wait)) W s2"
      unfolding s2 by (rule busy_set_state [OF b m2 _ refl pl]) (use nq in auto)
    have cnt: "cv_count (condvars s2 (a + i)) = 0"
      using batonD(7) [OF mon_inv_baton [OF busyD(6) [OF b2]], of "a + i"] i(1) no_waiter_of_own [OF i(2,1)] by simp
    have t: "phi_test_condvar cls i (ph i) s1 = Some (True, s2)"
      unfolding phi_test_condvar_def if_P [OF True] using s1(2) cnt by (simp add: s2_def [symmetric] cond_signal_def)
        (simp add: s2_def)
    have q2: "queued a ph W (sem_of s2) = ?Q" by (auto simp: queued_def s2 fun_eq_iff)
    have "meals (at(i := Take_wait, i := Eats)) ((queued a ph W (sem_of s2))(i := ?Q i)) (state_condvar s2)"
      by (rule meals_pass [OF busyD(7) [OF b2] i(1)])
        (use mealsD(1) [OF busyD(7) [OF b2] i(1)] nq q2 in \<open>auto simp: place_ok_def\<close>)
    moreover have "(queued a ph W (sem_of s2))(i := ?Q i) = queued a ph W (sem_of s2)" by (simp add: q2)
    ultimately have m3: "meals (at(i := Take_wait, i := Eats)) (queued a ph W (sem_of s2)) (state_condvar s2)" by simp
    obtain s' W' where s': "monitor_leave cls (mtp s2) s2 = Some s'" "seated a ph L (at(i := Take_wait, i := Eats)) W' s'"
      by (rule leave_ok [OF b2 _ m3]) simp
    have "take_inside cls i (ph i) s = Some (Eats, s')"
      using s'(1) t by (simp add: take_inside_def s1_def [symmetric] take_rest_def s2 take_leave_def)
    then show ?thesis using s'(2) by auto
  next
    case False
    have m2: "meals (at(i := Take_wait)) (?Q(i := True)) (state_condvar s1)"
      using meals_test_no [OF m1 i(1)] False by (simp add: s1)
    have t: "phi_test_condvar cls i (ph i) s1 = Some (True, s1)" unfolding phi_test_condvar_def if_not_P [OF False] ..
    have v: "mon_view (mtp s) (table_cvs a) s1 = mon_view (mtp s) (table_cvs a) s" by (simp add: mon_view_def s1_def cong: if_cong)
    have inv1: "mon_inv (mtp s) (table_cvs a) L ((places a ph at)(ph i := Inside)) W s1"
      using mon_rel_cong [OF busyD(6) [OF b, unfolded mon_inv_def] v] by (simp add: mon_inv_def s1_def)
    have sch1: "sched_inv ready detached L s1" using busyD(5) [OF b] inv_cong [of s1 s L] by (simp add: s1_def)
    have run1: "running (ph i) s1" using busyD(4) [OF b] by (simp add: running_def s1_def)
    have c: "a + i \<in> table_cvs a" using i(1) by simp
    have pi: "((places a ph at)(ph i := Inside)) (ph i) = Inside" by simp
    let ?V = "released (next_count (monitors s1 (mtp s))) (mutex_of (mtp s) s1) (next_of (mtp s) s1) W"
    let ?W = "?V(sem_of s1 (a + i) := ?V (sem_of s1 (a + i)) @ [ph i])"
    obtain s' where s': "cond_wait cls (a + i) (ph i) s1 = Some (False, s')" "sched_inv ready detached L s'"
      "mon_inv (mtp s) (table_cvs a) L ((places a ph at)(ph i := Inside, ph i := At_cond (a + i))) ?W s'"
      "sync_kernel.more s' = sync_kernel.more s1" "monitors s' = monitors s1" "sem_of s' = sem_of s1"
      by (rule cond_wait_ok [OF inv1 sch1 pi run1 c])
    note e = more_table [OF s'(4)]
    have "queued a ph ?W (sem_of s') k = (?Q(i := True)) k" if k: "k < N" for k
    proof -
      have "sem_of s1 (a + k) = sem_of s1 (a + i) \<longleftrightarrow> k = i" using mon_inv_distinct(1) [OF inv1, of "a + k" "a + i"] i(1) k by simp
      moreover have "queued a ph ?V (sem_of s1) k = queued a ph W (sem_of s1) k" by (rule queued_released [OF inv1 k])
      moreover have "cv_sem (condvars s x) = cv_sem (condvars s1 x)" for x by (simp add: s1_def)
      ultimately show ?thesis by (cases "k = i") (simp_all add: queued_def s'(6))
    qed
    then have "meals (at(i := Take_wait)) (queued a ph ?W (sem_of s')) (state_condvar s')" using meals_cong [OF m2] by (simp add: e)
    then have "seated a ph L (at(i := Take_wait)) ?W s'"
      using s' busyD(3) [OF b] i pl by (simp add: seated_def e) (simp add: s1_def)
    moreover have "take_inside cls i (ph i) s = Some (Take_wait, s')"
      using t s'(1) s1 by (simp add: take_inside_def s1_def [symmetric] take_rest_def)
    ultimately show ?thesis by blast
  qed
qed

lemma put_leave_ok:
  assumes b: "busy a ph L {} i at W s" and ti: "at i = Thinks"
  shows "\<exists>s' W'. put_leave cls s = Some (Thinks, s') \<and> seated a ph L at W' s'"
proof -
  have e: "at(i := Thinks) = at" using ti by auto
  obtain s' W' where "monitor_leave cls (mtp s) s = Some s'" "seated a ph L (at(i := Thinks)) W' s'"
    by (rule leave_ok [OF b, where y = Thinks]) (use busyD(7) [OF b] in \<open>simp_all add: e\<close>)
  then show ?thesis by (auto simp: put_leave_def e)
qed

text \<open>A tester that has gone to sleep.\<close>

lemma seated_at_next:
  assumes b: "busy a ph L J i at W s" and s': "mtp s' = mtp s" "mt_cv (monitors s' (mtp s)) = Some a" "sched_inv ready detached L s'"
    "mon_inv (mtp s) (table_cvs a) L ((places a ph at)(ph i := At_next c)) W' s'"
    and m: "meals (at(i := x)) (queued a ph W' (sem_of s')) (state_condvar s')" and x: "place_of a i x = At_next c"
  shows "seated a ph L (at(i := x)) W' s'"
  using s' m busyD(2) [OF b] places_upd [OF busyD(2,1) [OF b], where at = at and x = x] x by (simp add: seated_def)

lemma put_right_ok:
  assumes b: "busy a ph L {RIGHT i} i at W s" and ti: "at i = Thinks"
  shows "\<exists>x s' W'. put_right cls i (ph i) s = Some (x, s') \<and> seated a ph L (at(i := x)) W' s'"
proof -
  note i = busyD(1) [OF b]
  consider "phi_test_condvar cls (RIGHT i) (ph i) s = Some (True, s)" "busy a ph L {} i at W s"
    | s' W' where "phi_test_condvar cls (RIGHT i) (ph i) s = Some (False, s')" "mtp s' = mtp s"
      "mt_cv (monitors s' (mtp s)) = Some a" "sched_inv ready detached L s'"
      "mon_inv (mtp s) (table_cvs a) L ((places a ph at)(ph i := At_next (a + RIGHT i))) W' s'"
      "meals at (queued a ph W' (sem_of s')) (state_condvar s')"
    using phi_test_ok [OF b, of "RIGHT i"] i by auto
  then show ?thesis
  proof cases
    case 1
    have "at(i := Thinks) = at" using ti by auto
    then show ?thesis using put_leave_ok [OF 1(2) ti] 1(1) by (auto simp: put_right_def)
  next
    case (2 s' W')
    have "meals (at(i := Put_right)) ((queued a ph W' (sem_of s'))(i := queued a ph W' (sem_of s') i)) (state_condvar s')"
      by (rule meals_pass [OF 2(6) i]) (use mealsD(1) [OF 2(6) i] ti in \<open>auto simp: place_ok_def\<close>)
    then have m: "meals (at(i := Put_right)) (queued a ph W' (sem_of s')) (state_condvar s')" by simp
    have "seated a ph L (at(i := Put_right)) W' s'" by (rule seated_at_next [OF b 2(2-5) m]) simp
    then show ?thesis using 2(1) by (auto simp: put_right_def)
  qed
qed

lemma put_inside_ok:
  assumes b: "busy a ph L {} i at W s"
  shows "\<exists>x s' W'. put_inside cls i (ph i) s = Some (x, s') \<and> seated a ph L (at(i := x)) W' s'"
proof -
  note i = busyD(1,2) [OF b]
  let ?at = "at(i := Thinks)"
  define s1 where "s1 = set_state_condvar i THINKING s"
  have pl: "places a ph ?at = (places a ph at)(ph i := Outside)" using places_upd [OF i(2,1)] by simp
  have b1: "busy a ph L {LEFT i, RIGHT i} i ?at W s1"
    unfolding s1_def
    by (rule busy_set_state [OF b meals_put_down [OF busyD(7) [OF b] i(1), where q = "queued a ph W (sem_of s) i"] _ refl pl]) simp
  have J: "{LEFT i, RIGHT i} - {LEFT i} = {RIGHT i}" using i(1) by auto
  consider "phi_test_condvar cls (LEFT i) (ph i) s1 = Some (True, s1)" "busy a ph L {RIGHT i} i ?at W s1"
    | s' W' where "phi_test_condvar cls (LEFT i) (ph i) s1 = Some (False, s')" "mtp s' = mtp s1"
      "mt_cv (monitors s' (mtp s1)) = Some a" "sched_inv ready detached L s'"
      "mon_inv (mtp s1) (table_cvs a) L ((places a ph ?at)(ph i := At_next (a + LEFT i))) W' s'"
      "meals_but {RIGHT i} ?at (queued a ph W' (sem_of s')) (state_condvar s')"
    using phi_test_ok [OF b1, of "LEFT i"] i(1) unfolding J by auto
  then show ?thesis
  proof cases
    case 1
    then show ?thesis using put_right_ok [OF 1(2)] by (auto simp: put_inside_def s1_def)
  next
    case (2 s' W')
    have "meals (?at(i := Put_left)) ((queued a ph W' (sem_of s'))(i := queued a ph W' (sem_of s') i)) (state_condvar s')"
      by (rule meals_pass [OF 2(6) i(1)]) (use mealsD(1) [OF 2(6) i(1)] in \<open>auto simp: place_ok_def\<close>)
    then have m: "meals (?at(i := Put_left)) (queued a ph W' (sem_of s')) (state_condvar s')" by simp
    have "seated a ph L (?at(i := Put_left)) W' s'" by (rule seated_at_next [OF b1 2(2-5) m]) simp
    then show ?thesis using 2(1) by (auto simp: put_inside_def s1_def)
  qed
qed

lemma seatedD:
  assumes "seated a ph L at W s"
  shows "inj_on ph {..<N}" "mt_cv (monitors s (mtp s)) = Some a" "sched_inv ready detached L s"
    "mon_inv (mtp s) (table_cvs a) L (places a ph at) W s" "meals at (queued a ph W (sem_of s)) (state_condvar s)"
    "self_cv k s = Some (a + k)"
  using assms by (simp_all add: seated_def self_cv_def)

text \<open>A philosopher that has the monitor again after a sleep.\<close>

lemma back_inside:
  assumes s: "seated a ph L at W s" and i: "i < N" "running (ph i) s"
    and s': "state_condvar s' = state_condvar s" "mtp s' = mtp s" "mt_cv (monitors s' (mtp s)) = Some a" "sem_of s' = sem_of s"
    "running (ph i) s'" "sched_inv ready detached L s'"
    "mon_inv (mtp s) (table_cvs a) L ((places a ph at)(ph i := Inside)) W s'"
    and m: "meals_but J (at(i := y)) (queued a ph W (sem_of s)) (state_condvar s)"
  shows "busy a ph L J i (at(i := y)) W s'"
proof -
  have "(places a ph (at(i := y)))(ph i := Inside) = (places a ph at)(ph i := Inside)"
    using places_upd [OF seatedD(1) [OF s] i(1), where at = at and x = y] by simp
  then show ?thesis using assms seatedD(1) [OF s] by (simp add: busy_def)
qed

text \<open>Coming to the mutex.\<close>

lemma come_in:
  assumes s: "seated a ph L at W s" and i: "i < N" "running (ph i) s" and o: "place_of a i (at i) = Outside"
    and x: "place_of a i x = At_mutex" and m: "meals (at(i := x)) (queued a ph W (sem_of s)) (state_condvar s)"
    and inside: "\<And>s'. busy a ph L {} i at W s' \<Longrightarrow> \<exists>x s'' W'. f s' = Some (x, s'') \<and> seated a ph L (at(i := x)) W' s''"
  shows "\<exists>x' s' W'. do { (r, s) \<leftarrow> down_start cls (mutex_of (mtp s) s) (ph i) s; if r then f s else Some (x, s) } = Some (x', s') \<and>
    seated a ph L (at(i := x')) W' s'"
proof -
  have pc: "places a ph at (ph i) = Outside" using seatedD(1) [OF s] i(1) o by (simp add: places_ph)
  obtain t s' where t: "down_start cls (mutex_of (mtp s) s) (ph i) s = Some (t, s')" "sched_inv ready detached L s'"
    "kernel.more s' = kernel.more s" "t \<longrightarrow> running (ph i) s'"
    "mon_inv (mtp s) (table_cvs a) L ((places a ph at)(ph i := if t then Inside else At_mutex))
       (if t then W else W(mutex_of (mtp s) s := W (mutex_of (mtp s) s) @ [ph i])) s'"
    by (rule monitor_enter_ok [OF seatedD(4,3) [OF s] pc i(2)])
  note e = more_sync [OF t(3)] more_table [OF more_sync(3) [OF t(3)]]
  show ?thesis
  proof (cases t)
    case True
    then have "busy a ph L {} i at W s'" using t s i(1) by (simp add: busy_def seated_def e)
    then show ?thesis using inside [of s'] t(1) True by simp
  next
    case False
    let ?W = "W(mutex_of (mtp s) s := W (mutex_of (mtp s) s) @ [ph i])"
    have "meals (at(i := x)) (queued a ph ?W (sem_of s')) (state_condvar s')"
      unfolding e by (rule meals_cong [OF m]) (use mon_inv_distinct(3) [OF seatedD(4) [OF s]] in \<open>simp add: queued_def\<close>)
    then have "seated a ph L (at(i := x)) ?W s'"
      using t False s places_upd [OF seatedD(1) [OF s] i(1), where at = at and x = x] x by (simp add: seated_def e)
    then show ?thesis using t(1) False by auto
  qed
qed

lemma back_from_mutex:
  assumes s: "seated a ph L at W s" and i: "i < N" "running (ph i) s" and x: "place_of a i (at i) = At_mutex"
  shows "down_resume (mutex_of (mtp s) s) (ph i) s = Some s" "busy a ph L {} i at W s"
proof -
  have pc: "places a ph at (ph i) = At_mutex" using seatedD(1) [OF s] i(1) x by (simp add: places_ph)
  note r = monitor_enter_resume_ok [OF seatedD(4) [OF s] pc i(2)]
  show "down_resume (mutex_of (mtp s) s) (ph i) s = Some s" by (rule r(1))
  have m: "meals (at(i := at i)) (queued a ph W (sem_of s)) (state_condvar s)" using seatedD(5) [OF s] by simp
  have "busy a ph L {} i (at(i := at i)) W s"
    by (rule back_inside [OF s i refl refl seatedD(2) [OF s] refl i(2) seatedD(3) [OF s] r(2) m])
  then show "busy a ph L {} i at W s" by simp
qed

lemma back_from_signal:
  assumes s: "seated a ph L at W s" and i: "i < N" "running (ph i) s" and x: "place_of a i (at i) = At_next c"
    and m: "meals_but J (at(i := y)) (queued a ph W (sem_of s)) (state_condvar s)"
  shows "cond_signal_resume c (ph i) s = Some (cond_signal_exit c s)" "busy a ph L J i (at(i := y)) W (cond_signal_exit c s)"
proof -
  have pc: "places a ph at (ph i) = At_next c" using seatedD(1) [OF s] i(1) x by (simp add: places_ph)
  note r = cond_signal_resume_ok [OF seatedD(4) [OF s] pc i(2)]
  show "cond_signal_resume c (ph i) s = Some (cond_signal_exit c s)" by (rule r(1))
  let ?s = "cond_signal_exit c s"
  have v: "state_condvar ?s = state_condvar s" "mtp ?s = mtp s" "mt_cv (monitors ?s (mtp s)) = mt_cv (monitors s (mtp s))"
    "sched_view ?s = sched_view s" "procs ?s = procs s" "current ?s = current s" "idleproc ?s = idleproc s" "sem_of ?s = sem_of s"
    unfolding r(3) by (auto simp: set_monitor_def sched_view_def)
  have sch: "sched_inv ready detached L ?s" using seatedD(3) [OF s] inv_cong [of ?s s L] by (simp add: v)
  show "busy a ph L J i (at(i := y)) W ?s"
    by (rule back_inside [OF s i v(1,2) _ v(8) _ sch r(2) m]) (use i(2) seatedD(2) [OF s] in \<open>simp_all add: v running_def\<close>)
qed

lemma back_from_wait:
  assumes s: "seated a ph L at W s" and i: "i < N" "running (ph i) s" and x: "at i = Take_wait"
  shows "\<exists>s' W'. do { s \<leftarrow> cond_wait_resume (a + i) (ph i) s; take_leave cls s } = Some (Eats, s') \<and> seated a ph L (at(i := Eats)) W' s'"
proof -
  let ?Q = "queued a ph W (sem_of s)" and ?s = "cond_wait_exit (a + i) s"
  have pc: "places a ph at (ph i) = At_cond (a + i)" using seatedD(1) [OF s] i(1) x by (simp add: places_ph)
  note r = cond_wait_resume_ok [OF seatedD(4) [OF s] pc i(2)]
  have nq: "\<not> ?Q i" using r(2) by (simp add: queued_def)
  have "meals (at(i := Eats)) (?Q(i := ?Q i)) (state_condvar s)"
    by (rule meals_pass [OF seatedD(5) [OF s] i(1)])
      (use mealsD(1) [OF seatedD(5) [OF s] i(1)] x nq in \<open>auto simp: place_ok_def\<close>)
  then have m: "meals (at(i := Eats)) ?Q (state_condvar s)" by simp
  have v: "state_condvar ?s = state_condvar s" "mtp ?s = mtp s" "monitors ?s = monitors s" "sched_view ?s = sched_view s"
    "procs ?s = procs s" "current ?s = current s" "idleproc ?s = idleproc s" "sem_of ?s = sem_of s"
    by (auto simp: cond_wait_exit_def set_condvar_def sched_view_def fun_eq_iff)
  have sch: "sched_inv ready detached L ?s" using seatedD(3) [OF s] inv_cong [of ?s s L] by (simp add: v)
  have b: "busy a ph L {} i (at(i := Eats)) W ?s"
    by (rule back_inside [OF s i v(1,2) _ v(8) _ sch r(3) m]) (use i(2) seatedD(2) [OF s] in \<open>simp_all add: v running_def\<close>)
  have m2: "meals ((at(i := Eats))(i := Eats)) (queued a ph W (sem_of ?s)) (state_condvar ?s)" using m by (simp add: v)
  obtain s' W' where "monitor_leave cls (mtp ?s) ?s = Some s'" "seated a ph L ((at(i := Eats))(i := Eats)) W' s'"
    by (rule leave_ok [OF b _ m2]) simp
  then show ?thesis using r(1) by (auto simp: take_leave_def v)
qed

text \<open>Whatever a philosopher runs next returns and keeps the order.\<close>

lemma philosopher_condvar_ok:
  assumes s: "seated a ph L at W s" and i: "i < N" "running (ph i) s"
  shows "\<exists>x s' W'. philosopher_condvar cls i (ph i) (at i) s = Some (x, s') \<and> seated a ph L (at(i := x)) W' s'"
proof -
  let ?Q = "queued a ph W (sem_of s)"
  note M = seatedD(5) [OF s]
  note p = mealsD(1) [OF M i(1)]
  have pass: "meals_but J' (at(i := y)) ?Q (state_condvar s)"
    if "place_ok y (?Q i) (state_condvar s i) (state_condvar s (LEFT i)) (state_condvar s (RIGHT i))" "y \<noteq> Take_wait"
      "RIGHT i \<notin> J' \<Longrightarrow> at i = Put_left \<Longrightarrow> y = Put_left" for y J'
  proof -
    have "meals_but J' (at(i := y)) (?Q(i := ?Q i)) (state_condvar s)"
      by (rule meals_pass [OF M i(1) that(1,2)]) (use that(3) in auto)
    then show ?thesis by simp
  qed
  show ?thesis
  proof (cases "at i")
    case Thinks
    have "meals (at(i := Take_enter)) ?Q (state_condvar s)" by (rule pass) (use p Thinks in \<open>auto simp: place_ok_def\<close>)
    then show ?thesis unfolding Thinks philosopher_condvar_def seat.case phi_take_forks_condvar_def
      by (rule come_in [OF s i _ _ _ take_inside_ok, rotated 2]) (simp_all add: Thinks)
  next
    case Take_enter
    then show ?thesis using back_from_mutex [OF s i] take_inside_ok [of a ph L i at W s] by (simp add: philosopher_condvar_def)
  next
    case Take_test
    then show ?thesis using p by (simp add: place_ok_def)
  next
    case Take_wait
    then show ?thesis using back_from_wait [OF s i Take_wait] seatedD(6) [OF s] by (auto simp: philosopher_condvar_def)
  next
    case Eats
    have "meals (at(i := Put_enter)) ?Q (state_condvar s)" by (rule pass) (use p Eats in \<open>auto simp: place_ok_def\<close>)
    then show ?thesis unfolding Eats philosopher_condvar_def seat.case phi_put_forks_condvar_def
      by (rule come_in [OF s i _ _ _ put_inside_ok, rotated 2]) (simp_all add: Eats)
  next
    case Put_enter
    then show ?thesis using back_from_mutex [OF s i] put_inside_ok [of a ph L i at W s] by (simp add: philosopher_condvar_def)
  next
    case Put_left
    have "meals_but {RIGHT i} (at(i := Thinks)) ?Q (state_condvar s)" by (rule pass) (use p Put_left in \<open>auto simp: place_ok_def\<close>)
    from back_from_signal [OF s i _ this, of "a + LEFT i"]
    show ?thesis using put_right_ok Put_left seatedD(6) [OF s] by (fastforce simp: philosopher_condvar_def)
  next
    case Put_right
    have "meals (at(i := Thinks)) ?Q (state_condvar s)" by (rule pass) (use p Put_right in \<open>auto simp: place_ok_def\<close>)
    from back_from_signal [OF s i _ this, of "a + RIGHT i"]
    show ?thesis using put_leave_ok Put_right seatedD(6) [OF s] by (fastforce simp: philosopher_condvar_def)
  qed
qed

end

section \<open>Runs with the monitor\<close>

text \<open>The processes of the philosophers that are in the middle of taking or putting forks.\<close>

definition in_call :: "(nat \<Rightarrow> nat) \<Rightarrow> (nat \<Rightarrow> seat) \<Rightarrow> nat set" where
  "in_call ph at = ph ` {i. i < N \<and> at i \<noteq> Thinks \<and> at i \<noteq> Eats}"

text \<open>The rest of the kernel leaves the monitor, its semaphores and the array of the philosophers' states alone; what it does with other
  semaphores, wait queues and processes is open.\<close>

inductive table_step ::
  "'a table_scheme sched_class \<Rightarrow> ('a table_scheme \<Rightarrow> bool) \<Rightarrow> (nat \<Rightarrow> nat) \<Rightarrow>
   (nat \<Rightarrow> seat) \<times> 'a table_scheme \<Rightarrow> (nat \<Rightarrow> seat) \<times> 'a table_scheme \<Rightarrow> bool" for cls K ph where
  act: "i < N \<Longrightarrow> running (ph i) s \<Longrightarrow> philosopher_condvar cls i (ph i) (at i) s = Some (x, s') \<Longrightarrow>
    table_step cls K ph (at, s) (at(i := x), s')"
| other: "mt_cv (monitors s (mtp s)) = Some a \<Longrightarrow> other_step (mtp s) (table_cvs a) (in_call ph at) s s' \<Longrightarrow> mtp s' = mtp s \<Longrightarrow> state_condvar s' = state_condvar s \<Longrightarrow> K s' \<Longrightarrow>
    table_step cls K ph (at, s) (at, s')"

abbreviation table_steps where
  "table_steps cls K ph \<equiv> (table_step cls K ph)\<^sup>*\<^sup>*"

context philosophers
begin

lemma seated_step:
  assumes step: "table_step cls (sched_inv ready detached L) ph (at, s) (at', s')" and inv: "seated a ph L at W s"
  shows "\<exists>W'. seated a ph L at' W' s'"
  using step
proof (cases rule: table_step.cases)
  case (act i x)
  then show ?thesis using philosopher_condvar_ok [OF inv act(2,3)] by auto
next
  case (other b)
  have ab: "b = a" using other(2) seatedD(2) [OF inv] by simp
  have e: "sem_of s' = sem_of s" "mt_cv (monitors s' (mtp s)) = mt_cv (monitors s (mtp s))"
    using other(3) by (simp_all add: other_step_def)
  have P: "{p. places a ph at p \<noteq> Outside \<and> places a ph at p \<noteq> Inside} \<subseteq> in_call ph at"
  proof
    fix p assume p: "p \<in> {p. places a ph at p \<noteq> Outside \<and> places a ph at p \<noteq> Inside}"
    then obtain i where i: "i < N" "p = ph i" using places_other [of p ph a at] by auto
    then have "place_of a i (at i) \<noteq> Outside" using p seatedD(1) [OF inv] by (simp add: places_ph)
    then show "p \<in> in_call ph at" using i by (cases "at i") (auto simp: in_call_def)
  qed
  have "mon_inv (mtp s') (table_cvs a) L (places a ph at) W s'"
    unfolding other(4) by (rule mon_inv_other [OF seatedD(4) [OF inv] other(3) [unfolded ab] P])
  then have "seated a ph L at W s'"
    using inv other(4-6) unfolding seated_def by (simp only: e)
  then show ?thesis using other(1) by blast
qed

lemma seated_steps:
  assumes "table_steps cls (sched_inv ready detached L) ph (at, s) (at', s')" "seated a ph L at W s"
  shows "\<exists>W'. seated a ph L at' W' s'"
  using assms(1)
proof (induction rule: rtranclp_induct2)
  case refl
  then show ?case using assms(2) by blast
next
  case (step at1 s1 at2 s2)
  then show ?case using seated_step by blast
qed

text \<open>Nobody starves next to free forks: while the monitor is free, whoever waits has a neighbour that
  eats.\<close>

lemma seated_free:
  assumes s: "seated a ph L at W s" and v: "sem_value (sems s (mutex_of (mtp s) s)) = 1" and i: "i < N" "at i = Take_wait"
  shows "at (LEFT i) = Eats \<or> at (RIGHT i) = Eats"
proof -
  let ?M = "mutex_of (mtp s) s" and ?X = "next_of (mtp s) s" and ?Q = "queued a ph W (sem_of s)"
  note inv = seatedD(4) [OF s]
  note b = mon_inv_baton [OF inv]
  have h: "holders ?M ?X (sem_of s) (places a ph at) W = {}" and nc: "next_count (monitors s (mtp s)) = 0"
    using batonD(9) [OF b v] by auto
  have core: "sem_core (mon_sems (mtp s) (table_cvs a) s) W s" using mon_relD(2) [OF inv [unfolded mon_inv_def]] .
  have WM: "W ?M = []" using sem_coreD(5) [OF core, of ?M] v by (auto simp: mon_sems_def)
  have fin: "finite (signallers (places a ph at))"
    by (rule finite_subset [OF _ batonD(1) [OF b]]) (auto simp: signallers_def)
  have ns: "signallers (places a ph at) = {}" using batonD(6) [OF b] nc fin by simp
  have pl: "places a ph at (ph k) = place_of a k (at k)" if "k < N" for k using seatedD(1) [OF s] that by (simp add: places_ph)
  have nn: "at k \<noteq> Put_left \<and> at k \<noteq> Put_right \<and> at k \<noteq> Take_enter \<and> at k \<noteq> Put_enter" if k: "k < N" for k
  proof -
    have "ph k \<notin> signallers (places a ph at)" "ph k \<notin> holders ?M ?X (sem_of s) (places a ph at) W" using ns h by auto
    then show ?thesis using pl [OF k] WM by (auto simp: signallers_def holders_def)
  qed
  have q: "?Q k" if k: "k < N" "at k = Take_wait" for k
  proof -
    have "ph k \<notin> holders ?M ?X (sem_of s) (places a ph at) W" using h by simp
    then show ?thesis using pl [OF k(1)] k(2) by (simp add: holders_def queued_def)
  qed
  note M = seatedD(5) [OF s]
  have e: "at k = Eats" if k: "k < N" "state_condvar s k = EATING" for k
    using mealsD(1) [OF M k(1)] nn [OF k(1)] q [OF k(1)] k(2) by (cases "at k") (auto simp: place_ok_def)
  show ?thesis
    using mealsD(2) [OF M i(1)] q [OF i] i nn [of "LEFT i"] e [of "LEFT i"] e [of "RIGHT i"] by (auto simp: served_def)
qed

lemma seated_start:
  assumes init: "monitor_init (mtp s) N (Some a) s = Some t"
    and d: "mon_distinct (mutex_of (mtp s) s) (next_of (mtp s) s) (sem_of s) (table_cvs a)"
    and sch: "sched_inv ready detached L s" and ph: "inj_on ph {..<N}" and st: "state_condvar s = (\<lambda>_. THINKING)"
  shows "seated a ph L (\<lambda>_. Thinks) (\<lambda>_. []) t"
proof -
  note i = monitor_init_ok [OF init d]
  note e = more_table [OF i(2)]
  have "sched_inv ready detached L t" using sch inv_cong [of t s L] i(6-9) by simp
  moreover have "places a ph (\<lambda>_. Thinks) = (\<lambda>_. Outside)" by (simp add: places_def fun_eq_iff)
  moreover have "meals (\<lambda>_. Thinks) (queued a ph (\<lambda>_. []) (sem_of t)) (\<lambda>_. THINKING)"
    by (simp add: meals_but_def place_ok_def served_def)
  ultimately show ?thesis using i(1,10) ph st by (simp add: seated_def e)
qed

end

interpretation rr_table: philosophers default_sched_class rr_ready rr_detached
  by unfold_locales

interpretation stride_table: philosophers stride_sched_class stride_ready stride_detached
  by unfold_locales

text \<open>C13: The dining philosophers with the monitor, in every interleaving with each other and the rest of the
  kernel: two neighbours never eat at the same time, no piece of the code stops the kernel, and while
  nobody is in the monitor, every philosopher that waits for its forks has a neighbour that eats, so no
  wake-up is lost.\<close>

theorem philosophers_condvar_safe:
  assumes "monitor_init (mtp s) N (Some a) s = Some t"
    and "mon_distinct (mutex_of (mtp s) s) (next_of (mtp s) s) (sem_of s) {a..<a + N}"
    and "sched_inv rr_ready rr_detached L s" and "inj_on ph {..<N}" and "state_condvar s = (\<lambda>_. THINKING)"
    and "table_steps default_sched_class (sched_inv rr_ready rr_detached L) ph (\<lambda>_. Thinks, t) (at, u)"
  shows "(\<forall>i<N. \<not> (at i = Eats \<and> at (RIGHT i) = Eats)) \<and>
    (\<forall>i<N. running (ph i) u \<longrightarrow> philosopher_condvar default_sched_class i (ph i) (at i) u \<noteq> None) \<and>
    (sem_value (sems u (mutex_of (mtp u) u)) = 1 \<longrightarrow> (\<forall>i<N. at i = Take_wait \<longrightarrow> at (LEFT i) = Eats \<or> at (RIGHT i) = Eats))"
proof -
  obtain W where W: "rr_table.seated a ph L at W u"
    using rr_table.seated_steps [OF assms(6) rr_table.seated_start [OF assms(1-5)]] by blast
  have "\<not> (at i = Eats \<and> at (RIGHT i) = Eats)" if i: "i < N" for i
    using mealsD(1) [OF rr_table.seatedD(5) [OF W] i] mealsD(1) [OF rr_table.seatedD(5) [OF W], of "RIGHT i"] i
    by (auto simp: place_ok_def)
  moreover have "philosopher_condvar default_sched_class i (ph i) (at i) u \<noteq> None" if "i < N" "running (ph i) u" for i
    using rr_table.philosopher_condvar_ok [OF W that] by auto
  ultimately show ?thesis using rr_table.seated_free [OF W] by blast
qed

definition demo_table :: table where
  "demo_table = sync_kernel.extend demo_sync (table.fields (\<lambda>_. THINKING) 0 (\<lambda>_. THINKING) 30 (\<lambda>i. 31 + i))"

lemma demo_table_extends: "demo_table = kernel.extend demo_rr (kernel.more demo_table)"
  by (simp add: demo_table_def demo_sync_def sync_kernel.extend_def kernel.extend_def)

lemma demo_table_inv: "sched_inv rr_ready rr_detached {0, 2, 3, 4} demo_table"
  using demo_rr_inv extend_fields(10) [OF demo_table_extends] by simp

lemma demo_table_fields [simp]:
  "mutex_of m demo_table = 8" "next_of m demo_table = 9" "cv_sem (condvars demo_table c) = c" "mtp demo_table = 0"
  "current demo_table = Some 2" "state (procs demo_table 2) = PROC_RUNNABLE" "state_condvar demo_table = (\<lambda>_. THINKING)"
  "state_sema demo_table = (\<lambda>_. THINKING)" "mutex_sema demo_table = 30" "s_sema demo_table = (\<lambda>i. 31 + i)"
  "wait_links demo_table = \<lparr>lprev = id, lnext = id\<rparr>"
  by (simp_all add: demo_table_def sync_kernel.extend_def table.fields_def demo_sync_def kernel.extend_def
      sync_kernel.fields_def demo_rr_def demo_ready_def blank_kernel_def)

theorem philosophers_condvar_safe_witness:
  "\<exists>x u. table_steps default_sched_class (sched_inv rr_ready rr_detached {0, 2, 3, 4}) (\<lambda>i. 2 + i)
      (\<lambda>_. Thinks, the (monitor_init 0 5 (Some 10) demo_table)) ((\<lambda>_. Thinks)(0 := x), u) \<and>
    \<not> (((\<lambda>_. Thinks)(0 := x)) 0 = Eats \<and> ((\<lambda>_. Thinks)(0 := x)) (RIGHT 0) = Eats)"
proof -
  let ?K = "sched_inv rr_ready rr_detached {0, 2, 3, 4 :: nat}" and ?ph = "\<lambda>i :: nat. 2 + i"
  obtain t where t: "monitor_init (mtp demo_table) N (Some 10) demo_table = Some t"
    using monitor_init_some [of 0 N "Some 10" demo_table] by (auto simp: N_def)
  have d: "mon_distinct (mutex_of (mtp demo_table) demo_table) (next_of (mtp demo_table) demo_table) (sem_of demo_table) {10..<10 + N}"
    by (simp add: mon_distinct_def)
  have ph: "inj_on ?ph {..<N}" by (simp add: inj_on_def)
  have st: "state_condvar demo_table = (\<lambda>_. THINKING)" by simp
  have run: "running (?ph 0) t" by (simp add: running_def monitor_init_ok [OF t d])
  obtain x u where x: "philosopher_condvar default_sched_class 0 (?ph 0) ((\<lambda>_. Thinks) 0) t = Some (x, u)"
    using rr_table.philosopher_condvar_ok [OF rr_table.seated_start [OF t d demo_table_inv ph st] _ run] by (auto simp: N_def)
  have s: "table_steps default_sched_class ?K ?ph (\<lambda>_. Thinks, t) ((\<lambda>_. Thinks)(0 := x), u)"
    by (rule r_into_rtranclp, rule table_step.act [where ph = ?ph and i = 0, OF _ run x]) (simp add: N_def)
  have "the (monitor_init 0 5 (Some 10) demo_table) = t" using t by (simp add: N_def)
  then show ?thesis
    using s philosophers_condvar_safe [OF t d demo_table_inv ph st s] by (intro exI [of _ x] exI [of _ u]) (auto simp: N_def)
qed

end
