(* ===== verification/Philosophers_Sema.thy ===== *)
theory Philosophers_Sema
  imports Philosophers
begin

text \<open>
  The dining philosophers with semaphores (\<^verbatim>\<open>kern/sync/check_sync.c\<close>): a semaphore for mutual exclusion and one for
  each philosopher. The state array, the places of the philosophers and the invariant on them are those of
  \<open>Philosophers\<close>; a philosopher that waits here sleeps on its own semaphore.
\<close>

section \<open>The code\<close>

definition set_state_sema :: "nat \<Rightarrow> meal \<Rightarrow> 'a table_scheme \<Rightarrow> 'a table_scheme" where
  "set_state_sema i x s = s\<lparr>state_sema := (state_sema s)(i := x)\<rparr>"

definition phi_test_sema :: "'a table_scheme sched_class \<Rightarrow> nat \<Rightarrow> 'a table_scheme \<Rightarrow> 'a table_scheme option" where
  "phi_test_sema cls i s =
     (if state_sema s i = HUNGRY \<and> state_sema s (LEFT i) \<noteq> EATING \<and> state_sema s (RIGHT i) \<noteq> EATING
      then do {
        let s = set_state_sema i EATING s;
        up cls (s_sema s i) s
      } else Some s)"

definition take_inside_sema ::
  "'a table_scheme sched_class \<Rightarrow> nat \<Rightarrow> nat \<Rightarrow> 'a table_scheme \<Rightarrow> (seat \<times> 'a table_scheme) option" where
  "take_inside_sema cls i w s = do {
     let s = set_state_sema i HUNGRY s;
     s \<leftarrow> phi_test_sema cls i s;
     s \<leftarrow> up cls (mutex_sema s) s;
     (r, s) \<leftarrow> down_start cls (s_sema s i) w s;
     Some (if r then Eats else Take_wait, s)
   }"

definition phi_take_forks_sema ::
  "'a table_scheme sched_class \<Rightarrow> nat \<Rightarrow> nat \<Rightarrow> 'a table_scheme \<Rightarrow> (seat \<times> 'a table_scheme) option" where
  "phi_take_forks_sema cls i w s = do {
     (r, s) \<leftarrow> down_start cls (mutex_sema s) w s;
     if r then take_inside_sema cls i w s else Some (Take_enter, s)
   }"

definition put_inside_sema ::
  "'a table_scheme sched_class \<Rightarrow> nat \<Rightarrow> 'a table_scheme \<Rightarrow> (seat \<times> 'a table_scheme) option" where
  "put_inside_sema cls i s = do {
     let s = set_state_sema i THINKING s;
     s \<leftarrow> phi_test_sema cls (LEFT i) s;
     s \<leftarrow> phi_test_sema cls (RIGHT i) s;
     s \<leftarrow> up cls (mutex_sema s) s;
     Some (Thinks, s)
   }"

definition phi_put_forks_sema ::
  "'a table_scheme sched_class \<Rightarrow> nat \<Rightarrow> nat \<Rightarrow> 'a table_scheme \<Rightarrow> (seat \<times> 'a table_scheme) option" where
  "phi_put_forks_sema cls i w s = do {
     (r, s) \<leftarrow> down_start cls (mutex_sema s) w s;
     if r then put_inside_sema cls i s else Some (Put_enter, s)
   }"

text \<open>What philosopher \<open>i\<close> runs next; with semaphores it never sleeps in the middle of a test.\<close>

definition philosopher_sema ::
  "'a table_scheme sched_class \<Rightarrow> nat \<Rightarrow> nat \<Rightarrow> seat \<Rightarrow> 'a table_scheme \<Rightarrow> (seat \<times> 'a table_scheme) option" where
  "philosopher_sema cls i w a s = (case a of
     Thinks \<Rightarrow> phi_take_forks_sema cls i w s
   | Take_enter \<Rightarrow> do { s \<leftarrow> down_resume (mutex_sema s) w s; take_inside_sema cls i w s }
   | Take_wait \<Rightarrow> do { s \<leftarrow> down_resume (s_sema s i) w s; Some (Eats, s) }
   | Eats \<Rightarrow> phi_put_forks_sema cls i w s
   | Put_enter \<Rightarrow> do { s \<leftarrow> down_resume (mutex_sema s) w s; put_inside_sema cls i s }
   | _ \<Rightarrow> panic)"

definition sema_init :: "'a table_scheme \<Rightarrow> 'a table_scheme" where
  "sema_init s = fold (\<lambda>i s. sem_init (s_sema s i) 0 s) [0..<N] (sem_init (mutex_sema s) 1 s)"

section \<open>The invariant\<close>

lemma set_state_sema_simps [simp]:
  "state_sema (set_state_sema i x s) = (state_sema s)(i := x)" "mutex_sema (set_state_sema i x s) = mutex_sema s"
  "s_sema (set_state_sema i x s) = s_sema s"
  "waits (set_state_sema i x s) = waits s" "wait_links (set_state_sema i x s) = wait_links s"
  "procs (set_state_sema i x s) = procs s" "sems (set_state_sema i x s) = sems s"
  "current (set_state_sema i x s) = current s" "idleproc (set_state_sema i x s) = idleproc s"
  "sched_view (set_state_sema i x s) = sched_view s"
  by (simp_all add: set_state_sema_def sched_view_def)

definition sema_sems :: "'a table_scheme \<Rightarrow> nat set" where
  "sema_sems s = insert (mutex_sema s) (s_sema s ` {..<N})"

text \<open>The semaphore of a seat.\<close>

definition seat_sem :: "'a table_scheme \<Rightarrow> nat \<Rightarrow> seat \<Rightarrow> nat option" where
  "seat_sem s i x = (case x of Take_enter \<Rightarrow> Some (mutex_sema s) | Put_enter \<Rightarrow> Some (mutex_sema s)
     | Take_wait \<Rightarrow> Some (s_sema s i) | _ \<Rightarrow> None)"

text \<open>The queues and the sleepers. \<open>v\<close> are the values of the philosophers' semaphores.\<close>

definition sema_rel ::
  "(nat \<Rightarrow> nat) \<Rightarrow> nat set \<Rightarrow> (nat \<Rightarrow> seat) \<Rightarrow> (nat \<Rightarrow> nat list) \<Rightarrow> (nat \<Rightarrow> int) \<Rightarrow> 'a table_scheme \<Rightarrow> bool" where
  "sema_rel ph L at W v s \<longleftrightarrow> inj_on ph {..<N} \<and> inj_on (s_sema s) {..<N} \<and> (\<forall>i<N. s_sema s i \<noteq> mutex_sema s) \<and>
     sem_core (sema_sems s) W s \<and> waiters (sema_sems s) W \<subseteq> L \<and>
     (\<forall>i<N. sem_value (sems s (s_sema s i)) = v i) \<and>
     (\<forall>q\<in>sema_sems s. \<forall>p\<in>set (W q). \<exists>i<N. p = ph i \<and> seat_sem s i (at i) = Some q) \<and>
     (\<forall>i<N. \<forall>q. seat_sem s i (at i) = Some q \<longrightarrow> ph i \<notin> set (W q) \<longrightarrow> woken s (ph i))"

definition waits_own :: "(nat \<Rightarrow> nat) \<Rightarrow> (nat \<Rightarrow> nat list) \<Rightarrow> 'a table_scheme \<Rightarrow> nat \<Rightarrow> bool" where
  "waits_own ph W s i \<longleftrightarrow> ph i \<in> set (W (s_sema s i))"

lemma sema_relD:
  assumes "sema_rel ph L at W v s"
  shows "inj_on ph {..<N}" "inj_on (s_sema s) {..<N}" "i < N \<Longrightarrow> s_sema s i \<noteq> mutex_sema s" "sem_core (sema_sems s) W s"
    "waiters (sema_sems s) W \<subseteq> L" "i < N \<Longrightarrow> sem_value (sems s (s_sema s i)) = v i"
    "q \<in> sema_sems s \<Longrightarrow> p \<in> set (W q) \<Longrightarrow> \<exists>i<N. p = ph i \<and> seat_sem s i (at i) = Some q"
    "i < N \<Longrightarrow> seat_sem s i (at i) = Some q \<Longrightarrow> ph i \<notin> set (W q) \<Longrightarrow> woken s (ph i)"
  using assms by (simp_all add: sema_rel_def)

lemma sema_rel_cong:
  assumes "sema_rel ph L at W v s" "\<And>k. k < N \<Longrightarrow> v' k = v k" "\<And>k. k < N \<Longrightarrow> seat_sem s k (at' k) = seat_sem s k (at k)"
  shows "sema_rel ph L at' W v' s"
proof -
  have "\<exists>i<N. p = ph i \<and> seat_sem s i (at' i) = Some q" if q: "q \<in> sema_sems s" "p \<in> set (W q)" for q p
  proof -
    obtain i where "i < N" "p = ph i" "seat_sem s i (at i) = Some q" using sema_relD(7) [OF assms(1) q] by blast
    then show ?thesis using assms(3) by (intro exI [of _ i]) simp
  qed
  then show ?thesis using assms unfolding sema_rel_def by simp
qed

lemma seat_sem_in: "i < N \<Longrightarrow> seat_sem s i x = Some q \<Longrightarrow> q \<in> sema_sems s"
  by (auto simp: seat_sem_def sema_sems_def split: seat.splits)

lemma sema_sleeper:
  assumes r: "sema_rel ph L at W v s" and i: "i < N" and q: "q \<in> sema_sems s" "ph i \<in> set (W q)"
  shows "seat_sem s i (at i) = Some q"
proof -
  obtain k where k: "k < N" "ph i = ph k" "seat_sem s k (at k) = Some q" using sema_relD(7) [OF r q] by auto
  then have "k = i" using inj_onD [OF sema_relD(1) [OF r] k(2)] i by simp
  then show ?thesis using k(3) by simp
qed

lemma sema_not_waiting:
  assumes r: "sema_rel ph L at W v s" and i: "i < N" "seat_sem s i (at i) = Some q" "ph i \<notin> set (W q)"
  shows "ph i \<notin> waiters (sema_sems s) W"
  using sema_sleeper [OF r i(1)] i(2,3) by (auto simp: waiters_def)

lemma own_queue:
  assumes r: "sema_rel ph L at W v s" and i: "i < N"
  shows "set (W (s_sema s i)) \<subseteq> {ph i}" "W (s_sema s i) \<noteq> [] \<Longrightarrow> at i = Take_wait \<and> W (s_sema s i) = [ph i]"
proof -
  have q: "s_sema s i \<in> sema_sems s" using i by (simp add: sema_sems_def)
  have *: "p = ph i \<and> at i = Take_wait" if p: "p \<in> set (W (s_sema s i))" for p
  proof -
    obtain k where k: "k < N" "p = ph k" "seat_sem s k (at k) = Some (s_sema s i)" using sema_relD(7) [OF r q p] by auto
    have t: "at k = Take_wait" "s_sema s k = s_sema s i"
      using k(3) sema_relD(3) [OF r i] by (auto simp: seat_sem_def split: seat.splits)
    have "k = i" using inj_onD [OF sema_relD(2) [OF r] t(2)] k(1) i by simp
    then show ?thesis using k(2) t(1) by simp
  qed
  then show s: "set (W (s_sema s i)) \<subseteq> {ph i}" by blast
  assume ne: "W (s_sema s i) \<noteq> []"
  have "distinct (W (s_sema s i))" using sem_coreD(3) [OF sema_relD(4) [OF r] q] .
  then have "W (s_sema s i) = [ph i]" using s ne by (cases "W (s_sema s i)") (auto simp: subset_singleton_iff)
  then show "at i = Take_wait \<and> W (s_sema s i) = [ph i]" using * by simp
qed

lemma sema_rel_sync_step:
  fixes s s' :: "'a table_scheme"
  assumes r: "sema_rel ph L at W v s" and more: "kernel.more s' = kernel.more s"
    and core: "sem_core (sema_sems s) W' s'" "waiters (sema_sems s) W' \<subseteq> L"
    and v: "\<And>i. i < N \<Longrightarrow> sem_value (sems s' (s_sema s i)) = v' i"
    and q: "\<And>q p. q \<in> sema_sems s \<Longrightarrow> p \<in> set (W' q) \<Longrightarrow> \<exists>i<N. p = ph i \<and> seat_sem s i (at' i) = Some q"
    and w: "\<And>i q. i < N \<Longrightarrow> seat_sem s i (at' i) = Some q \<Longrightarrow> ph i \<notin> set (W' q) \<Longrightarrow> woken s' (ph i)"
  shows "sema_rel ph L at' W' v' s'"
proof -
  note e = more_table [OF more_sync(3) [OF more]]
  have "seat_sem s' = seat_sem s" "sema_sems s' = sema_sems s" by (auto simp: seat_sem_def sema_sems_def e fun_eq_iff split: seat.split)
  then show ?thesis using sema_relD(1,2,3) [OF r] assms(3-7) by (simp add: sema_rel_def e)
qed

context philosophers
begin

lemma sema_up:
  assumes r: "sema_rel ph L at W v s" and sch: "sched_inv ready detached L s" and p: "running p s" "p \<notin> waiters (sema_sems s) W"
    and q: "q \<in> sema_sems s"
  obtains s' where "up cls q s = Some s'" "sched_inv ready detached L s'" "running p s'" "kernel.more s' = kernel.more s"
    "sema_rel ph L at (W(q := tl (W q))) (\<lambda>i. if s_sema s i = q \<and> W q = [] then v i + 1 else v i) s'"
proof -
  note core = sema_relD(4) [OF r]
  obtain s' where s': "up cls q s = Some s'" "sem_core (sema_sems s) (W(q := tl (W q))) s'" "sched_inv ready detached L s'"
    "sync_step (waiters (sema_sems s) W) s s'" "current s' = current s"
    "sems s' = (if W q = [] then (sems s)(q := \<lparr>sem_value = sem_value (sems s q) + 1\<rparr>) else sems s)"
    "W q \<noteq> [] \<longrightarrow> woken s' (hd (W q))" "\<And>x. x \<notin> waiters (sema_sems s) W \<Longrightarrow> state (procs s' x) = state (procs s x)"
    by (rule up_core [OF core q sch sema_relD(5) [OF r]]) auto
  have run: "running p s'" using p(1) s'(5) s'(8) [OF p(2)] by (simp add: running_def)
  let ?W = "W(q := tl (W q))"
  have sub: "set (?W q') \<subseteq> set (W q')" for q' by (cases "W q") auto
  note more = sync_stepD(1) [OF s'(4)]
  have "sema_rel ph L at ?W (\<lambda>i. if s_sema s i = q \<and> W q = [] then v i + 1 else v i) s'"
  proof (rule sema_rel_sync_step [OF r more s'(2)])
    show "waiters (sema_sems s) ?W \<subseteq> L" using sema_relD(5) [OF r] sub by (fastforce simp: waiters_def)
    show "sem_value (sems s' (s_sema s i)) = (if s_sema s i = q \<and> W q = [] then v i + 1 else v i)" if "i < N" for i
      using sema_relD(6) [OF r that] s'(6) by auto
    show "\<exists>i<N. p = ph i \<and> seat_sem s i (at i) = Some q'" if "q' \<in> sema_sems s" "p \<in> set (?W q')" for q' p
      using sema_relD(7) [OF r that(1)] that(2) sub by blast
    show "woken s' (ph i)" if i: "i < N" "seat_sem s i (at i) = Some q'" "ph i \<notin> set (?W q')" for i q'
    proof (cases "ph i \<in> set (W q')")
      case True
      then have "q' = q" using i(3) by (auto split: if_splits)
      then have "W q \<noteq> []" "hd (W q) = ph i" using True i(3) by (cases "W q"; auto)+
      then show ?thesis using s'(7) by auto
    next
      case False
      then show ?thesis using sema_relD(8) [OF r i(1,2)] sema_not_waiting [OF r i(1,2)] sync_stepD(3) [OF s'(4)] by blast
    qed
  qed
  then show ?thesis using that [of s'] s' run more by blast
qed

lemma sema_down:
  assumes r: "sema_rel ph L at W v s" and sch: "sched_inv ready detached L s" and i: "i < N" "running (ph i) s" "seat_sem s i (at i) = None"
    and q: "seat_sem s i x = Some q" "0 \<le> sem_value (sems s q)"
  obtains t s' where "down_start cls q (ph i) s = Some (t, s')" "sched_inv ready detached L s'" "kernel.more s' = kernel.more s"
    "t \<longleftrightarrow> 0 < sem_value (sems s q)" "t \<longrightarrow> running (ph i) s'"
    "sema_rel ph L (if t then at else at(i := x)) (if t then W else W(q := W q @ [ph i]))
       (\<lambda>k. if s_sema s k = q \<and> t then v k - 1 else v k) s'"
proof -
  note core = sema_relD(4) [OF r]
  have qS: "q \<in> sema_sems s" by (rule seat_sem_in [OF i(1) q(1)])
  have c: "current s = Some (ph i)" "state (procs s (ph i)) \<noteq> PROC_SLEEPING" using i(2) by (auto simp: running_def)
  have pL: "ph i \<in> L" using c(1) sch by (auto simp: sched_inv_def)
  have pw: "ph i \<notin> waiters (sema_sems s) W" by (rule running_not_waiting [OF core i(2)])
  obtain t s' where s': "down_start cls q (ph i) s = Some (t, s')" "sched_inv ready detached L s'"
    "sync_step (insert (ph i) (waiters (sema_sems s) W)) s s'" "t \<longleftrightarrow> 0 < sem_value (sems s q)"
    "sem_core (sema_sems s) (if t then W else W(q := W q @ [ph i])) s'"
    "sems s' = (if t then (sems s)(q := \<lparr>sem_value = sem_value (sems s q) - 1\<rparr>) else sems s)"
    "t \<longrightarrow> current s' = current s \<and> procs s' = procs s \<and> sync_step {} s s'"
    by (rule down_core [OF core qS sch c pw]) auto
  note more = sync_stepD(1) [OF s'(3)]
  let ?at = "if t then at else at(i := x)" and ?W = "if t then W else W(q := W q @ [ph i])"
  have val: "sem_value (sems s' (s_sema s k)) = (if s_sema s k = q \<and> t then v k - 1 else v k)" if "k < N" for k
    using sema_relD(6) [OF r that] s'(6) by auto
  have nin: "ph i \<notin> set (W q')" if "q' \<in> sema_sems s" for q' using pw that by (auto simp: waiters_def)
  have "sema_rel ph L ?at ?W (\<lambda>k. if s_sema s k = q \<and> t then v k - 1 else v k) s'"
  proof (rule sema_rel_sync_step [OF r more s'(5)])
    have "waiters (sema_sems s) ?W \<subseteq> insert (ph i) (waiters (sema_sems s) W)" using qS by (auto simp: waiters_def split: if_splits)
    then show "waiters (sema_sems s) ?W \<subseteq> L" using sema_relD(5) [OF r] pL by blast
    show "sem_value (sems s' (s_sema s k)) = (if s_sema s k = q \<and> t then v k - 1 else v k)" if "k < N" for k by (rule val [OF that])
    show "\<exists>k<N. p = ph k \<and> seat_sem s k (?at k) = Some q'" if q': "q' \<in> sema_sems s" "p \<in> set (?W q')" for q' p
    proof (cases "p \<in> set (W q')")
      case True
      then obtain k where "k < N" "p = ph k" "seat_sem s k (at k) = Some q'" using sema_relD(7) [OF r q'(1)] by blast
      then show ?thesis using i(3) by (intro exI [of _ k]) auto
    next
      case False
      then have "\<not> t" "q' = q" "p = ph i" using q'(2) by (auto split: if_splits)
      then show ?thesis using i(1) q(1) by auto
    qed
    show "woken s' (ph k)" if k: "k < N" "seat_sem s k (?at k) = Some q'" "ph k \<notin> set (?W q')" for k q'
    proof (cases "k = i")
      case True
      then show ?thesis using k i(3) q(1) by (auto split: if_splits)
    next
      case False
      then have k': "seat_sem s k (at k) = Some q'" "ph k \<notin> set (W q')" using k(2,3) by (auto split: if_splits)
      have "ph k \<noteq> ph i" using inj_onD [OF sema_relD(1) [OF r]] k(1) i(1) False by auto
      then show ?thesis
        using sema_relD(8) [OF r k(1) k'] sema_not_waiting [OF r k(1) k'] sync_stepD(3) [OF s'(3), of "ph k"] by simp
    qed
  qed
  moreover have "t \<longrightarrow> running (ph i) s'" using s'(7) i(2) by (simp add: running_def)
  ultimately show ?thesis using that [of t s'] s'(1,2,4) more by blast
qed

text \<open>Whoever runs and had been asleep was handed what it waited for.\<close>

lemma sema_wake:
  assumes r: "sema_rel ph L at W v s" and i: "i < N" "running (ph i) s" "seat_sem s i (at i) = Some q" and x: "seat_sem s i x = None"
  shows "down_resume q (ph i) s = Some s" "ph i \<notin> set (W q)" "sema_rel ph L (at(i := x)) W v s"
proof -
  have pw: "ph i \<notin> waiters (sema_sems s) W" by (rule running_not_waiting [OF sema_relD(4) [OF r] i(2)])
  then show n: "ph i \<notin> set (W q)" using seat_sem_in [OF i(1,3)] by (auto simp: waiters_def)
  show "down_resume q (ph i) s = Some s" by (rule resume_core [OF sema_relD(8) [OF r i(1,3) n]])
  show "sema_rel ph L (at(i := x)) W v s"
  proof (rule sema_rel_sync_step [OF r refl sema_relD(4,5) [OF r]])
    show "\<exists>k<N. p = ph k \<and> seat_sem s k ((at(i := x)) k) = Some q'" if q': "q' \<in> sema_sems s" "p \<in> set (W q')" for q' p
    proof -
      obtain k where k: "k < N" "p = ph k" "seat_sem s k (at k) = Some q'" using sema_relD(7) [OF r q'] by blast
      have "k \<noteq> i" using pw q' k(2) by (auto simp: waiters_def)
      then show ?thesis using k by (intro exI [of _ k]) simp
    qed
    show "woken s (ph k)" if "k < N" "seat_sem s k ((at(i := x)) k) = Some q'" "ph k \<notin> set (W q')" for k q'
      using sema_relD(8) [OF r that(1) _ that(3)] that(2) x by (auto split: if_splits)
  qed (use sema_relD(6) [OF r] in auto)
qed

text \<open>Philosopher \<open>i\<close> runs between its \<^verbatim>\<open>down\<close> and its \<^verbatim>\<open>up\<close> of the mutex; \<open>J\<close> are still to be tested.\<close>

definition sema_busy :: "(nat \<Rightarrow> nat) \<Rightarrow> nat set \<Rightarrow> nat set \<Rightarrow> nat \<Rightarrow> (nat \<Rightarrow> seat) \<Rightarrow> (nat \<Rightarrow> nat list) \<Rightarrow> 'a table_scheme \<Rightarrow> bool" where
  "sema_busy ph L J i at W s \<longleftrightarrow> i < N \<and> at i = Thinks \<and> running (ph i) s \<and> sched_inv ready detached L s \<and>
     sema_rel ph L at W (\<lambda>_. 0) s \<and> meals_but J at (waits_own ph W s) (state_sema s)"

definition sema_seated :: "(nat \<Rightarrow> nat) \<Rightarrow> nat set \<Rightarrow> (nat \<Rightarrow> seat) \<Rightarrow> (nat \<Rightarrow> nat list) \<Rightarrow> 'a table_scheme \<Rightarrow> bool" where
  "sema_seated ph L at W s \<longleftrightarrow> sched_inv ready detached L s \<and> sema_rel ph L at W (\<lambda>_. 0) s \<and>
     meals at (waits_own ph W s) (state_sema s)"

lemma sema_set_state:
  assumes "sema_rel ph L at W v s" "sched_inv ready detached L s" "running p s"
  shows "sema_rel ph L at W v (set_state_sema k x s)" "sched_inv ready detached L (set_state_sema k x s)"
    "running p (set_state_sema k x s)" "waits_own ph W (set_state_sema k x s) = waits_own ph W s"
proof -
  let ?s = "set_state_sema k x s"
  have e: "seat_sem ?s = seat_sem s" "sema_sems ?s = sema_sems s"
    by (auto simp: seat_sem_def sema_sems_def fun_eq_iff split: seat.split)
  have "sem_core (sema_sems s) W ?s" by (rule sem_core_cong [OF sema_relD(4) [OF assms(1)]]) simp_all
  then show "sema_rel ph L at W v ?s"
    using assms(1) unfolding sema_rel_def e by (simp add: woken_def)
  show "sched_inv ready detached L ?s" using assms(2) inv_cong [of ?s s L] by simp
  show "running p ?s" using assms(3) by (simp add: running_def)
  show "waits_own ph W ?s = waits_own ph W s" by (simp add: waits_own_def fun_eq_iff)
qed

lemma waits_own_more:
  assumes "kernel.more s' = kernel.more s"
  shows "waits_own ph W s' = waits_own ph W s" "state_sema s' = state_sema s" "mutex_sema s' = mutex_sema s" "s_sema s' = s_sema s"
  using more_table [OF more_sync(3) [OF assms]] by (simp_all add: waits_own_def fun_eq_iff)

lemma test_neighbour:
  assumes b: "sema_busy ph L J i at W s" and j: "j < N" "j \<noteq> i"
  shows "\<exists>s' W'. phi_test_sema cls j s = Some s' \<and> sema_busy ph L (J - {j}) i at W' s'"
proof (cases "state_sema s j = HUNGRY \<and> state_sema s (LEFT j) \<noteq> EATING \<and> state_sema s (RIGHT j) \<noteq> EATING")
  case False
  have "phi_test_sema cls j s = Some s" unfolding phi_test_sema_def if_not_P [OF False] ..
  then show ?thesis using b meals_test_no [OF _ j(1) False] by (auto simp: sema_busy_def)
next
  case True
  have r: "sema_rel ph L at W (\<lambda>_. 0) s" "sched_inv ready detached L s" "running (ph i) s" and ii: "i < N"
    and m: "meals_but J at (waits_own ph W s) (state_sema s)" using b by (simp_all add: sema_busy_def)
  have T: "state_sema s j = HUNGRY" "state_sema s (LEFT j) \<noteq> EATING" "state_sema s (RIGHT j) \<noteq> EATING" using True by auto
  note y = meals_test_yes [OF m j(1) T]
  let ?s = "set_state_sema j EATING s"
  note e = sema_set_state [OF r, of j EATING]
  have q: "s_sema ?s j \<in> sema_sems ?s" using j(1) by (simp add: sema_sems_def)
  have W: "W (s_sema s j) = [ph j]" using own_queue(2) [OF r(1) j(1)] y(3) by (cases "W (s_sema s j) = []") (simp_all add: waits_own_def)
  have np: "ph i \<notin> waiters (sema_sems ?s) W" by (rule running_not_waiting [OF sema_relD(4) [OF e(1)] e(3)])
  obtain s' where s': "up cls (s_sema ?s j) ?s = Some s'" "sched_inv ready detached L s'" "running (ph i) s'"
    "kernel.more s' = kernel.more ?s" "sema_rel ph L at (W(s_sema ?s j := tl (W (s_sema ?s j))))
       (\<lambda>k. if s_sema ?s k = s_sema ?s j \<and> W (s_sema ?s j) = [] then 0 + 1 else 0) s'"
    by (rule sema_up [OF e(1-3) np q])
  let ?W = "W(s_sema s j := [])"
  note e' = waits_own_more [OF s'(4)]
  have "waits_own ph ?W s' k = ((waits_own ph W s)(j := False)) k" if k: "k < N" for k
    using inj_on_eq_iff [OF sema_relD(2) [OF r(1)], of k j] k j(1) by (simp add: waits_own_def e')
  then have "meals_but (J - {j}) at (waits_own ph ?W s') (state_sema s')" using meals_cong [OF y(1)] by (simp add: e')
  then have "sema_busy ph L (J - {j}) i at ?W s'" using b s'(2,3,5) W by (simp add: sema_busy_def)
  then show ?thesis using s'(1) True by (auto simp: phi_test_sema_def)
qed

text \<open>Leaving the critical section does not touch the philosophers' own queues.\<close>

lemma sema_up_mutex:
  assumes r: "sema_rel ph L at W v s" and sch: "sched_inv ready detached L s" and p: "running p s"
  obtains s' W' where "up cls (mutex_sema s) s = Some s'" "sched_inv ready detached L s'" "running p s'" "kernel.more s' = kernel.more s"
    "sema_rel ph L at W' v s'" "\<And>k. k < N \<Longrightarrow> waits_own ph W' s k = waits_own ph W s k"
proof -
  have q: "mutex_sema s \<in> sema_sems s" by (simp add: sema_sems_def)
  have np: "p \<notin> waiters (sema_sems s) W" by (rule running_not_waiting [OF sema_relD(4) [OF r] p])
  let ?W = "W(mutex_sema s := tl (W (mutex_sema s)))"
  obtain s' where s': "up cls (mutex_sema s) s = Some s'" "sched_inv ready detached L s'" "running p s'"
    "kernel.more s' = kernel.more s" "sema_rel ph L at ?W
       (\<lambda>k. if s_sema s k = mutex_sema s \<and> W (mutex_sema s) = [] then v k + 1 else v k) s'"
    by (rule sema_up [OF r sch p np q])
  have "sema_rel ph L at ?W v s'"
    using s'(5) sema_relD(3) [OF r] by (simp add: sema_rel_def)
  moreover have "waits_own ph ?W s k = waits_own ph W s k" if "k < N" for k using sema_relD(3) [OF r that] by (simp add: waits_own_def)
  ultimately show ?thesis using that [of s' ?W] s'(1-4) by blast
qed

lemma put_inside_sema_ok:
  assumes s: "sema_rel ph L (at(i := Thinks)) W (\<lambda>_. 0) s" "sched_inv ready detached L s" "running (ph i) s" and i: "i < N"
    and m: "meals at (waits_own ph W s) (state_sema s)"
  shows "\<exists>x s' W'. put_inside_sema cls i s = Some (x, s') \<and> sema_seated ph L (at(i := x)) W' s'"
proof -
  let ?s = "set_state_sema i THINKING s"
  note e = sema_set_state [OF s, of i THINKING]
  have "meals_but {LEFT i, RIGHT i} (at(i := Thinks)) ((waits_own ph W s)(i := waits_own ph W s i)) ((state_sema s)(i := THINKING))"
    by (rule meals_put_down [OF m i])
  then have b: "sema_busy ph L {LEFT i, RIGHT i} i (at(i := Thinks)) W ?s" using i e by (simp add: sema_busy_def)
  obtain s1 W1 where s1: "phi_test_sema cls (LEFT i) ?s = Some s1" "sema_busy ph L ({LEFT i, RIGHT i} - {LEFT i}) i (at(i := Thinks)) W1 s1"
    using test_neighbour [OF b, of "LEFT i"] i by auto
  have J: "{LEFT i, RIGHT i} - {LEFT i} = {RIGHT i}" using i by auto
  obtain s2 W2 where s2: "phi_test_sema cls (RIGHT i) s1 = Some s2" "sema_busy ph L {} i (at(i := Thinks)) W2 s2"
    using test_neighbour [OF s1(2), of "RIGHT i"] i unfolding J by auto
  have r2: "sema_rel ph L (at(i := Thinks)) W2 (\<lambda>_. 0) s2" "sched_inv ready detached L s2" "running (ph i) s2"
    "meals (at(i := Thinks)) (waits_own ph W2 s2) (state_sema s2)" using s2(2) by (simp_all add: sema_busy_def)
  obtain s' W' where s': "up cls (mutex_sema s2) s2 = Some s'" "sched_inv ready detached L s'" "kernel.more s' = kernel.more s2"
    "sema_rel ph L (at(i := Thinks)) W' (\<lambda>_. 0) s'" "\<And>k. k < N \<Longrightarrow> waits_own ph W' s2 k = waits_own ph W2 s2 k"
    by (rule sema_up_mutex [OF r2(1-3)]) blast
  have "meals (at(i := Thinks)) (waits_own ph W' s') (state_sema s')"
    unfolding waits_own_more [OF s'(3)] by (rule meals_cong [OF r2(4) s'(5)])
  then have "sema_seated ph L (at(i := Thinks)) W' s'" using s'(2,4) by (simp add: sema_seated_def)
  moreover have "put_inside_sema cls i s = Some (Thinks, s')" using s1(1) s2(1) s'(1) by (simp add: put_inside_sema_def)
  ultimately show ?thesis by blast
qed

text \<open>Taking the forks at once: the test gives one unit and the \<^verbatim>\<open>down\<close> takes it.\<close>

lemma take_at_once:
  assumes s: "sema_rel ph L (at(i := Thinks)) W (\<lambda>_. 0) s" "sched_inv ready detached L s" "running (ph i) s" and i: "i < N"
  obtains s1 s2 s3 W' where "up cls (s_sema s i) s = Some s1" "up cls (mutex_sema s1) s1 = Some s2"
    "down_start cls (s_sema s2 i) (ph i) s2 = Some (True, s3)" "sched_inv ready detached L s3" "kernel.more s3 = kernel.more s"
    "sema_rel ph L (at(i := Eats)) W' (\<lambda>_. 0) s3" "\<And>k. k < N \<Longrightarrow> waits_own ph W' s k = waits_own ph W s k"
proof -
  let ?at = "at(i := Thinks)" and ?v = "\<lambda>k. if k = i then 1 else 0 :: int"
  have inj: "s_sema s k = s_sema s i \<longleftrightarrow> k = i" if "k < N" for k using inj_on_eq_iff [OF sema_relD(2) [OF s(1)]] that i by simp
  have We: "W (s_sema s i) = []" using own_queue(2) [OF s(1) i] by (cases "W (s_sema s i) = []") auto
  have q: "s_sema s i \<in> sema_sems s" using i by (simp add: sema_sems_def)
  have np: "ph i \<notin> waiters (sema_sems s) W" by (rule running_not_waiting [OF sema_relD(4) [OF s(1)] s(3)])
  have W1: "W(s_sema s i := tl (W (s_sema s i))) = W" using We by auto
  obtain s1 where s1: "up cls (s_sema s i) s = Some s1" "sched_inv ready detached L s1" "running (ph i) s1"
    "kernel.more s1 = kernel.more s" "sema_rel ph L ?at W (\<lambda>k. if s_sema s k = s_sema s i \<and> W (s_sema s i) = [] then 0 + 1 else 0) s1"
    by (rule sema_up [OF s np q, unfolded W1])
  note f1 = waits_own_more [OF s1(4)]
  have r1: "sema_rel ph L ?at W ?v s1" by (rule sema_rel_cong [OF s1(5)]) (simp_all add: inj We)
  obtain s2 W2 where s2: "up cls (mutex_sema s1) s1 = Some s2" "sched_inv ready detached L s2" "running (ph i) s2"
    "kernel.more s2 = kernel.more s1" "sema_rel ph L ?at W2 ?v s2" "\<And>k. k < N \<Longrightarrow> waits_own ph W2 s1 k = waits_own ph W s1 k"
    by (rule sema_up_mutex [OF r1 s1(2,3)]) blast
  note f2 = waits_own_more [OF s2(4)]
  have v2: "sem_value (sems s2 (s_sema s2 i)) = 1" using sema_relD(6) [OF s2(5) i] by simp
  have nx: "seat_sem s2 i (?at i) = None" and tk: "seat_sem s2 i Take_wait = Some (s_sema s2 i)" by (simp_all add: seat_sem_def)
  have v0: "0 \<le> sem_value (sems s2 (s_sema s2 i))" using v2 by simp
  obtain t s3 where s3: "down_start cls (s_sema s2 i) (ph i) s2 = Some (t, s3)" "sched_inv ready detached L s3"
    "kernel.more s3 = kernel.more s2" "t \<longleftrightarrow> 0 < sem_value (sems s2 (s_sema s2 i))"
    "sema_rel ph L (if t then ?at else ?at(i := Take_wait)) (if t then W2 else W2(s_sema s2 i := W2 (s_sema s2 i) @ [ph i]))
       (\<lambda>k. if s_sema s2 k = s_sema s2 i \<and> t then ?v k - 1 else ?v k) s3"
    by (rule sema_down [OF s2(5,2) i s2(3) nx tk v0])
  have t: t using s3(4) v2 by simp
  have "sema_rel ph L ?at W2 (\<lambda>k. if s_sema s2 k = s_sema s2 i \<and> t then ?v k - 1 else ?v k) s3" using s3(5) t by simp
  then have r3: "sema_rel ph L (at(i := Eats)) W2 (\<lambda>_. 0) s3"
    by (rule sema_rel_cong) (use t inj in \<open>auto simp: f1 f2 seat_sem_def\<close>)
  have w: "waits_own ph W2 s k = waits_own ph W s k" if "k < N" for k using s2(6) [OF that] by (simp add: f1)
  have more: "kernel.more s3 = kernel.more s" using s3(3) s2(4) s1(4) by simp
  have d: "down_start cls (s_sema s2 i) (ph i) s2 = Some (True, s3)" using s3(1) t by simp
  show ?thesis by (rule that [OF s1(1) s2(1) d s3(2) more r3 w])
qed

text \<open>Not getting them: the philosopher sleeps on its semaphore.\<close>

lemma take_later:
  assumes s: "sema_rel ph L (at(i := Thinks)) W (\<lambda>_. 0) s" "sched_inv ready detached L s" "running (ph i) s" and i: "i < N"
  obtains s1 s2 W' where "up cls (mutex_sema s) s = Some s1"
    "down_start cls (s_sema s1 i) (ph i) s1 = Some (False, s2)" "sched_inv ready detached L s2" "kernel.more s2 = kernel.more s"
    "sema_rel ph L (at(i := Take_wait)) W' (\<lambda>_. 0) s2"
    "\<And>k. k < N \<Longrightarrow> waits_own ph W' s k = ((waits_own ph W s)(i := True)) k"
proof -
  let ?at = "at(i := Thinks)"
  obtain s1 W1 where s1: "up cls (mutex_sema s) s = Some s1" "sched_inv ready detached L s1" "running (ph i) s1"
    "kernel.more s1 = kernel.more s" "sema_rel ph L ?at W1 (\<lambda>_. 0) s1" "\<And>k. k < N \<Longrightarrow> waits_own ph W1 s k = waits_own ph W s k"
    by (rule sema_up_mutex [OF s]) blast
  note f1 = waits_own_more [OF s1(4)]
  have v1: "sem_value (sems s1 (s_sema s1 i)) = 0" using sema_relD(6) [OF s1(5) i] by simp
  have nx: "seat_sem s1 i (?at i) = None" and tk: "seat_sem s1 i Take_wait = Some (s_sema s1 i)" by (simp_all add: seat_sem_def)
  have v0: "0 \<le> sem_value (sems s1 (s_sema s1 i))" using v1 by simp
  obtain t s2 where s2: "down_start cls (s_sema s1 i) (ph i) s1 = Some (t, s2)" "sched_inv ready detached L s2"
    "kernel.more s2 = kernel.more s1" "t \<longleftrightarrow> 0 < sem_value (sems s1 (s_sema s1 i))"
    "sema_rel ph L (if t then ?at else ?at(i := Take_wait)) (if t then W1 else W1(s_sema s1 i := W1 (s_sema s1 i) @ [ph i]))
       (\<lambda>k. if s_sema s1 k = s_sema s1 i \<and> t then 0 - 1 else 0) s2"
    by (rule sema_down [OF s1(5,2) i s1(3) nx tk v0])
  have t: "\<not> t" using s2(4) v1 by simp
  let ?W = "W1(s_sema s1 i := W1 (s_sema s1 i) @ [ph i])"
  have r2: "sema_rel ph L (at(i := Take_wait)) ?W (\<lambda>_. 0) s2" using s2(5) t by simp
  have w: "waits_own ph ?W s k = ((waits_own ph W s)(i := True)) k" if k: "k < N" for k
    using inj_on_eq_iff [OF sema_relD(2) [OF s(1)], of k i] k i s1(6) [OF k] by (auto simp: waits_own_def f1)
  have more: "kernel.more s2 = kernel.more s" using s2(3) s1(4) by simp
  have d: "down_start cls (s_sema s1 i) (ph i) s1 = Some (False, s2)" using s2(1) t by simp
  show ?thesis by (rule that [OF s1(1) d s2(2) more r2 w])
qed

lemma take_inside_sema_ok:
  assumes s: "sema_rel ph L (at(i := Thinks)) W (\<lambda>_. 0) s" "sched_inv ready detached L s" "running (ph i) s" and i: "i < N"
    and ti: "at i = Thinks \<or> at i = Take_enter" and m: "meals at (waits_own ph W s) (state_sema s)"
  shows "\<exists>x s' W'. take_inside_sema cls i (ph i) s = Some (x, s') \<and> sema_seated ph L (at(i := x)) W' s'"
proof -
  let ?Q = "waits_own ph W s" and ?st = "state_sema s" and ?s = "set_state_sema i HUNGRY s"
  note e = sema_set_state [OF s, of i HUNGRY]
  note m1 = meals_take [OF m i ti]
  let ?test = "state_sema ?s i = HUNGRY \<and> state_sema ?s (LEFT i) \<noteq> EATING \<and> state_sema ?s (RIGHT i) \<noteq> EATING"
  show ?thesis
  proof (cases ?test)
    case True
    let ?s1 = "set_state_sema i EATING ?s"
    note e1 = sema_set_state [OF e(1-3), of i EATING]
    obtain s1 s2 s3 W' where r: "up cls (s_sema ?s1 i) ?s1 = Some s1" "up cls (mutex_sema s1) s1 = Some s2"
      "down_start cls (s_sema s2 i) (ph i) s2 = Some (True, s3)" "sched_inv ready detached L s3" "kernel.more s3 = kernel.more ?s1"
      "sema_rel ph L (at(i := Eats)) W' (\<lambda>_. 0) s3" "\<And>k. k < N \<Longrightarrow> waits_own ph W' ?s1 k = waits_own ph W ?s1 k"
      by (rule take_at_once [OF e1(1-3) i]) blast
    have T: "((state_sema s)(i := HUNGRY)) i = HUNGRY" "((state_sema s)(i := HUNGRY)) (LEFT i) \<noteq> EATING"
      "((state_sema s)(i := HUNGRY)) (RIGHT i) \<noteq> EATING" using True by simp_all
    have m2: "meals (at(i := Take_wait)) (?Q(i := False)) (?st(i := EATING))"
      using meals_test_yes(1) [OF m1 i T] by (simp only: fun_upd_upd Diff_cancel)
    have "meals ((at(i := Take_wait))(i := Eats)) ((?Q(i := False))(i := ?Q i)) (?st(i := EATING))"
      by (rule meals_pass [OF m2 i]) (use mealsD(1) [OF m2 i] in \<open>auto simp: place_ok_def\<close>)
    then have m3: "meals (at(i := Eats)) ?Q (?st(i := EATING))" by simp
    have "meals (at(i := Eats)) (waits_own ph W' s3) (state_sema s3)"
      unfolding waits_own_more [OF r(5)] by (simp, rule meals_cong [OF m3]) (use r(7) e1(4) e(4) in simp)
    then have "sema_seated ph L (at(i := Eats)) W' s3" using r(4,6) by (simp add: sema_seated_def)
    moreover have "take_inside_sema cls i (ph i) s = Some (Eats, s3)"
      using r(1-3) True by (simp add: take_inside_sema_def phi_test_sema_def)
    ultimately show ?thesis by blast
  next
    case False
    obtain s1 s2 W' where r: "up cls (mutex_sema ?s) ?s = Some s1"
      "down_start cls (s_sema s1 i) (ph i) s1 = Some (False, s2)" "sched_inv ready detached L s2" "kernel.more s2 = kernel.more ?s"
      "sema_rel ph L (at(i := Take_wait)) W' (\<lambda>_. 0) s2"
      "\<And>k. k < N \<Longrightarrow> waits_own ph W' ?s k = ((waits_own ph W ?s)(i := True)) k"
      by (rule take_later [OF e(1-3) i]) blast
    have m2: "meals (at(i := Take_wait)) (?Q(i := True)) (?st(i := HUNGRY))"
      using meals_test_no [OF m1 i] False by simp
    have "meals (at(i := Take_wait)) (waits_own ph W' s2) (state_sema s2)"
      unfolding waits_own_more [OF r(4)] by (simp, rule meals_cong [OF m2]) (use r(6) e(4) in simp)
    then have "sema_seated ph L (at(i := Take_wait)) W' s2" using r(3,5) by (simp add: sema_seated_def)
    moreover have "phi_test_sema cls i ?s = Some ?s" unfolding phi_test_sema_def if_not_P [OF False] ..
    then have "take_inside_sema cls i (ph i) s = Some (Take_wait, s2)" using r(1,2) by (simp add: take_inside_sema_def)
    ultimately show ?thesis by blast
  qed
qed

lemma sema_come_in:
  assumes s: "sema_seated ph L at W s" and i: "i < N" "running (ph i) s" and o: "seat_sem s i (at i) = None"
    and x: "seat_sem s i x = Some (mutex_sema s)" and m: "meals (at(i := x)) (waits_own ph W s) (state_sema s)"
    and inside: "\<And>s'. sema_rel ph L (at(i := Thinks)) W (\<lambda>_. 0) s' \<Longrightarrow> sched_inv ready detached L s' \<Longrightarrow> running (ph i) s' \<Longrightarrow>
      meals at (waits_own ph W s') (state_sema s') \<Longrightarrow> \<exists>x s'' W'. f s' = Some (x, s'') \<and> sema_seated ph L (at(i := x)) W' s''"
  shows "\<exists>x' s' W'. do { (r, s) \<leftarrow> down_start cls (mutex_sema s) (ph i) s; if r then f s else Some (x, s) } = Some (x', s') \<and>
    sema_seated ph L (at(i := x')) W' s'"
proof -
  have r: "sema_rel ph L at W (\<lambda>_. 0) s" "sched_inv ready detached L s" "meals at (waits_own ph W s) (state_sema s)"
    using s by (simp_all add: sema_seated_def)
  have v: "0 \<le> sem_value (sems s (mutex_sema s))" by (rule sem_coreD(4) [OF sema_relD(4) [OF r(1)]]) (simp add: sema_sems_def)
  obtain t s' where t: "down_start cls (mutex_sema s) (ph i) s = Some (t, s')" "sched_inv ready detached L s'"
    "kernel.more s' = kernel.more s" "t \<longleftrightarrow> 0 < sem_value (sems s (mutex_sema s))" "t \<longrightarrow> running (ph i) s'"
    "sema_rel ph L (if t then at else at(i := x)) (if t then W else W(mutex_sema s := W (mutex_sema s) @ [ph i]))
       (\<lambda>k. if s_sema s k = mutex_sema s \<and> t then 0 - 1 else 0) s'"
    by (rule sema_down [OF r(1,2) i o x v])
  note f = waits_own_more [OF t(3)]
  have rt: "sema_rel ph L (if t then at else at(i := x)) (if t then W else W(mutex_sema s := W (mutex_sema s) @ [ph i])) (\<lambda>_. 0) s'"
    by (rule sema_rel_cong [OF t(6)]) (use sema_relD(3) [OF r(1)] in auto)
  show ?thesis
  proof (cases t)
    case True
    have "sema_rel ph L at W (\<lambda>_. 0) s'" using rt True by simp
    then have "sema_rel ph L (at(i := Thinks)) W (\<lambda>_. 0) s'"
      by (rule sema_rel_cong) (use o in \<open>auto simp: seat_sem_def f split: seat.splits\<close>)
    then show ?thesis using inside [of s'] t(1,2,5) True r(3) by (simp add: f)
  next
    case False
    let ?W = "W(mutex_sema s := W (mutex_sema s) @ [ph i])"
    have "meals (at(i := x)) (waits_own ph ?W s') (state_sema s')"
      unfolding f by (rule meals_cong [OF m]) (use sema_relD(3) [OF r(1)] in \<open>simp add: waits_own_def\<close>)
    then have "sema_seated ph L (at(i := x)) ?W s'" using rt False t(2) by (simp add: sema_seated_def)
    then show ?thesis using t(1) False by auto
  qed
qed

lemma philosopher_sema_ok:
  assumes s: "sema_seated ph L at W s" and i: "i < N" "running (ph i) s" and np: "at i \<noteq> Put_left" "at i \<noteq> Put_right"
  shows "\<exists>x s' W'. philosopher_sema cls i (ph i) (at i) s = Some (x, s') \<and> sema_seated ph L (at(i := x)) W' s'"
proof -
  have r: "sema_rel ph L at W (\<lambda>_. 0) s" "sched_inv ready detached L s" "meals at (waits_own ph W s) (state_sema s)"
    using s by (simp_all add: sema_seated_def)
  let ?Q = "waits_own ph W s"
  note p = mealsD(1) [OF r(3) i(1)]
  have pass: "meals (at(i := y)) ?Q (state_sema s)"
    if "place_ok y (?Q i) (state_sema s i) (state_sema s (LEFT i)) (state_sema s (RIGHT i))" "y \<noteq> Take_wait" for y
  proof -
    have "meals (at(i := y)) (?Q(i := ?Q i)) (state_sema s)" by (rule meals_pass [OF r(3) i(1) that]) (use np in auto)
    then show ?thesis by simp
  qed
  show ?thesis
  proof (cases "at i")
    case Thinks
    have m: "meals (at(i := Take_enter)) ?Q (state_sema s)" by (rule pass) (use p Thinks in \<open>auto simp: place_ok_def\<close>)
    show ?thesis unfolding Thinks philosopher_sema_def seat.case phi_take_forks_sema_def
      by (rule sema_come_in [OF s i _ _ m]) (use take_inside_sema_ok i(1) Thinks in \<open>auto simp: seat_sem_def\<close>)
  next
    case Take_enter
    then have q: "seat_sem s i (at i) = Some (mutex_sema s)" "seat_sem s i Thinks = None" by (simp_all add: seat_sem_def)
    note w = sema_wake [OF r(1) i q]
    show ?thesis using take_inside_sema_ok [OF w(3) r(2) i(2,1) _ r(3)] w(1) Take_enter by (simp add: philosopher_sema_def)
  next
    case Take_test
    then show ?thesis using p by (simp add: place_ok_def)
  next
    case Take_wait
    then have q: "seat_sem s i (at i) = Some (s_sema s i)" "seat_sem s i Eats = None" by (simp_all add: seat_sem_def)
    note w = sema_wake [OF r(1) i q]
    have "meals (at(i := Eats)) ?Q (state_sema s)"
      by (rule pass) (use p Take_wait w(2) in \<open>auto simp: place_ok_def waits_own_def\<close>)
    then show ?thesis using w(1,3) r(2) Take_wait by (auto simp: philosopher_sema_def sema_seated_def)
  next
    case Eats
    have m: "meals (at(i := Put_enter)) ?Q (state_sema s)" by (rule pass) (use p Eats in \<open>auto simp: place_ok_def\<close>)
    show ?thesis unfolding Eats philosopher_sema_def seat.case phi_put_forks_sema_def
      by (rule sema_come_in [OF s i _ _ m]) (use put_inside_sema_ok i(1) Eats in \<open>auto simp: seat_sem_def\<close>)
  next
    case Put_enter
    then have q: "seat_sem s i (at i) = Some (mutex_sema s)" "seat_sem s i Thinks = None" by (simp_all add: seat_sem_def)
    note w = sema_wake [OF r(1) i q]
    show ?thesis using put_inside_sema_ok [OF w(3) r(2) i(2,1) r(3)] w(1) Put_enter by (simp add: philosopher_sema_def)
  qed (use np in simp_all)
qed

end

section \<open>Runs with the semaphores\<close>

text \<open>A step of the rest of the kernel, for the semaphores: it keeps those of the philosophers and the array of their states.\<close>

definition other_sema_step :: "nat set \<Rightarrow> 'a table_scheme \<Rightarrow> 'a table_scheme \<Rightarrow> bool" where
  "other_sema_step P s s' \<longleftrightarrow> mutex_sema s' = mutex_sema s \<and> s_sema s' = s_sema s \<and> state_sema s' = state_sema s \<and>
     sems_kept (sema_sems s) P s s'"

inductive sema_step ::
  "'a table_scheme sched_class \<Rightarrow> ('a table_scheme \<Rightarrow> bool) \<Rightarrow> (nat \<Rightarrow> nat) \<Rightarrow>
   (nat \<Rightarrow> seat) \<times> 'a table_scheme \<Rightarrow> (nat \<Rightarrow> seat) \<times> 'a table_scheme \<Rightarrow> bool" for cls K ph where
  act: "i < N \<Longrightarrow> running (ph i) s \<Longrightarrow> philosopher_sema cls i (ph i) (at i) s = Some (x, s') \<Longrightarrow>
    sema_step cls K ph (at, s) (at(i := x), s')"
| other: "other_sema_step (in_call ph at) s s' \<Longrightarrow> K s' \<Longrightarrow> sema_step cls K ph (at, s) (at, s')"

abbreviation sema_steps where
  "sema_steps cls K ph \<equiv> (sema_step cls K ph)\<^sup>*\<^sup>*"

definition no_puts :: "(nat \<Rightarrow> seat) \<Rightarrow> bool" where
  "no_puts at \<longleftrightarrow> (\<forall>i<N. at i \<noteq> Put_left \<and> at i \<noteq> Put_right)"

lemma philosopher_sema_seats:
  "philosopher_sema cls i w a s = Some (x, s') \<Longrightarrow> x \<noteq> Put_left \<and> x \<noteq> Put_right"
  by (auto simp: philosopher_sema_def phi_take_forks_sema_def phi_put_forks_sema_def take_inside_sema_def put_inside_sema_def
      Let_def bind_eq_Some_conv split: seat.splits if_splits)

context philosophers
begin

lemma sema_seated_step:
  assumes step: "sema_step cls (sched_inv ready detached L) ph (at, s) (at', s')" and inv: "sema_seated ph L at W s" and np: "no_puts at"
  shows "(\<exists>W'. sema_seated ph L at' W' s') \<and> no_puts at'"
  using step
proof (cases rule: sema_step.cases)
  case (act i x)
  have "at i \<noteq> Put_left" "at i \<noteq> Put_right" using np act(2) by (auto simp: no_puts_def)
  then show ?thesis
    using philosopher_sema_ok [OF inv act(2,3)] act philosopher_sema_seats [OF act(4)] np by (auto simp: no_puts_def)
next
  case other
  have r: "sema_rel ph L at W (\<lambda>_. 0) s" using inv by (simp add: sema_seated_def)
  have e: "mutex_sema s' = mutex_sema s" "s_sema s' = s_sema s" "state_sema s' = state_sema s"
    and k: "sems_kept (sema_sems s) (in_call ph at) s s'" using other(2) by (simp_all add: other_sema_step_def)
  have same: "seat_sem s' = seat_sem s" "sema_sems s' = sema_sems s" "waits_own ph W s' = waits_own ph W s"
    by (auto simp: seat_sem_def sema_sems_def waits_own_def e fun_eq_iff split: seat.split)
  have v: "sems s' (s_sema s i) = sems s (s_sema s i)" if "i < N" for i
    using k that by (simp add: sems_kept_def sema_sems_def)
  have w: "woken s' (ph i)" if i: "i < N" "seat_sem s i (at i) = Some q" "ph i \<notin> set (W q)" for i q
  proof -
    have "at i \<noteq> Thinks \<and> at i \<noteq> Eats" using i(2) by (auto simp: seat_sem_def)
    then have "ph i \<in> in_call ph at" using i(1) by (auto simp: in_call_def)
    then show ?thesis using k sema_relD(8) [OF r i] by (simp add: sems_kept_def)
  qed
  have "sem_core (sema_sems s) W s'" by (rule sem_core_kept [OF sema_relD(4) [OF r] k])
  then have "sema_rel ph L at W (\<lambda>_. 0) s'"
    using r w v unfolding sema_rel_def e same by simp
  then have "sema_seated ph L at W s'"
    using inv other(3) unfolding sema_seated_def e same by simp
  then show ?thesis using other(1) np by blast
qed

lemma sema_seated_steps:
  assumes "sema_steps cls (sched_inv ready detached L) ph (at, s) (at', s')" "sema_seated ph L at W s" "no_puts at"
  shows "(\<exists>W'. sema_seated ph L at' W' s') \<and> no_puts at'"
  using assms(1)
proof (induction rule: rtranclp_induct2)
  case refl
  then show ?case using assms(2,3) by blast
next
  case (step at1 s1 at2 s2)
  then show ?case using sema_seated_step by blast
qed

lemma sema_served:
  assumes s: "sema_seated ph L at W s" "no_puts at" and i: "i < N" "at i = Take_wait" "ph i \<in> set (W (s_sema s i))"
  shows "state_sema s (LEFT i) = EATING \<or> state_sema s (RIGHT i) = EATING"
proof -
  have m: "meals at (waits_own ph W s) (state_sema s)" using s(1) by (simp add: sema_seated_def)
  show ?thesis using mealsD(2) [OF m i(1)] i s(2) by (auto simp: served_def no_puts_def waits_own_def)
qed

end

lemma sem_init_table_simps [simp]:
  fixes s :: "'a table_scheme"
  shows "state_sema (sem_init q v s) = state_sema s" "mutex_sema (sem_init q v s) = mutex_sema s" "s_sema (sem_init q v s) = s_sema s"
  by (simp_all add: sem_init_def wait_queue_init_def set_sem_def)

lemma sema_init_loop:
  fixes s :: "'a table_scheme"
  defines "f \<equiv> fold (\<lambda>i s. sem_init (s_sema s i) 0 s)"
  shows "state_sema (f xs s) = state_sema s" "mutex_sema (f xs s) = mutex_sema s" "s_sema (f xs s) = s_sema s"
    "procs (f xs s) = procs s" "current (f xs s) = current s" "idleproc (f xs s) = idleproc s"
    "sched_view (f xs s) = sched_view s"
    "fresh_sem (f xs s) q v = (if q \<in> s_sema s ` set xs then v = 0 else fresh_sem s q v)"
proof -
  show "state_sema (f xs s) = state_sema s" "mutex_sema (f xs s) = mutex_sema s" "s_sema (f xs s) = s_sema s"
    "procs (f xs s) = procs s" "current (f xs s) = current s" "idleproc (f xs s) = idleproc s"
    "sched_view (f xs s) = sched_view s"
    by (induction xs arbitrary: s) (simp_all add: f_def)
  have init: "fresh_sem (sem_init p 0 s) x v = (if x = p then v = 0 else fresh_sem s x v)" for p x and s :: "'a table_scheme"
    using fresh_sem_init(1) [where q = p and v = 0 and s = s] fresh_sem_init(2) [where q' = x and q = p and v = 0 and s = s and w = v]
    by (auto simp: fresh_sem_def)
  show "fresh_sem (f xs s) q v = (if q \<in> s_sema s ` set xs then v = 0 else fresh_sem s q v)"
    by (induction xs arbitrary: s) (auto simp: f_def init)
qed

context philosophers
begin

lemma sema_seated_start:
  assumes d: "inj_on (s_sema s) {..<N}" "\<And>i. i < N \<Longrightarrow> s_sema s i \<noteq> mutex_sema s"
    and sch: "sched_inv ready detached L s" and ph: "inj_on ph {..<N}" and st: "state_sema s = (\<lambda>_. THINKING)"
  shows "sema_seated ph L (\<lambda>_. Thinks) (\<lambda>_. []) (sema_init s)"
proof -
  let ?t = "sema_init s"
  have e: "mutex_sema ?t = mutex_sema s" "s_sema ?t = s_sema s" "state_sema ?t = (\<lambda>_. THINKING)"
    by (simp_all add: sema_init_def sema_init_loop st)
  have f: "fresh_sem ?t (s_sema s i) 0" if "i < N" for i using that by (simp add: sema_init_def sema_init_loop(8))
  have fm: "fresh_sem ?t (mutex_sema s) 1"
    using d(2) fresh_sem_init(1) [of "mutex_sema s" 1 s] by (force simp: sema_init_def sema_init_loop(8))
  have "sched_inv ready detached L ?t"
    using sch inv_cong [of ?t s L] by (simp add: sema_init_def sema_init_loop(4-7))
  moreover have "sema_rel ph L (\<lambda>_. Thinks) (\<lambda>_. []) (\<lambda>_. 0) ?t"
    unfolding sema_rel_def e
  proof (intro conjI ph d(1) allI impI)
    have "\<exists>v\<ge>0. fresh_sem ?t q v" if "q \<in> sema_sems ?t" for q
      using that f fm by (auto simp: sema_sems_def e intro: exI [of _ "0::int"] exI [of _ "1::int"])
    then show "sem_core (sema_sems ?t) (\<lambda>_. []) ?t" by (rule fresh_sems_core)
    show "sem_value (sems ?t (s_sema s i)) = 0" if "i < N" for i using f [OF that] by (simp add: fresh_sem_def)
  qed (use d(2) in \<open>auto simp: waiters_def seat_sem_def\<close>)
  moreover have "meals (\<lambda>_. Thinks) (waits_own ph (\<lambda>_. []) ?t) (state_sema ?t)"
    by (simp add: e meals_but_def place_ok_def served_def)
  ultimately show ?thesis by (simp add: sema_seated_def)
qed

end

text \<open>C21: The dining philosophers with semaphores, in every interleaving with each other and the rest of the
  kernel: two neighbours never eat at the same time, no piece of the code stops the kernel, and every
  hungry philosopher has a neighbour that eats, so no wake-up is lost.\<close>

theorem philosophers_sema_safe:
  assumes "inj_on (s_sema s) {..<N}" and "\<And>i. i < N \<Longrightarrow> s_sema s i \<noteq> mutex_sema s"
    and "sched_inv rr_ready rr_detached L s" and "inj_on ph {..<N}" and "state_sema s = (\<lambda>_. THINKING)"
    and "sema_steps default_sched_class (sched_inv rr_ready rr_detached L) ph (\<lambda>_. Thinks, sema_init s) (at, u)"
  shows "(\<forall>i<N. \<not> (at i = Eats \<and> at (RIGHT i) = Eats)) \<and>
    (\<forall>i<N. running (ph i) u \<longrightarrow> philosopher_sema default_sched_class i (ph i) (at i) u \<noteq> None) \<and>
    (\<forall>i<N. state_sema u i = HUNGRY \<longrightarrow> state_sema u (LEFT i) = EATING \<or> state_sema u (RIGHT i) = EATING)"
proof -
  have "no_puts (\<lambda>_. Thinks)" by (simp add: no_puts_def)
  then obtain W where W: "rr_table.sema_seated ph L at W u" and np: "no_puts at"
    using rr_table.sema_seated_steps [OF assms(6) rr_table.sema_seated_start [OF assms(1-5)]] by blast
  have m: "meals at (waits_own ph W u) (state_sema u)" using W by (simp add: rr_table.sema_seated_def)
  have "\<not> (at i = Eats \<and> at (RIGHT i) = Eats)" if i: "i < N" for i
    using mealsD(1) [OF m i] mealsD(1) [OF m, of "RIGHT i"] i by (auto simp: place_ok_def)
  moreover have "philosopher_sema default_sched_class i (ph i) (at i) u \<noteq> None" if "i < N" "running (ph i) u" for i
    using rr_table.philosopher_sema_ok [OF W that] np that(1) by (auto simp: no_puts_def)
  moreover have "state_sema u (LEFT i) = EATING \<or> state_sema u (RIGHT i) = EATING" if i: "i < N" "state_sema u i = HUNGRY" for i
  proof -
    have "at i = Take_wait" "ph i \<in> set (W (s_sema u i))"
      using mealsD(1) [OF m i(1)] i(2) by (auto simp: place_ok_def waits_own_def split: seat.splits if_splits)
    then show ?thesis using rr_table.sema_served [OF W np i(1)] by blast
  qed
  ultimately show ?thesis by blast
qed

theorem philosophers_sema_safe_witness:
  "\<exists>x u. sema_steps default_sched_class (sched_inv rr_ready rr_detached {0, 2, 3, 4}) (\<lambda>i. 2 + i)
      (\<lambda>_. Thinks, sema_init demo_table) ((\<lambda>_. Thinks)(0 := x), u) \<and>
    (state_sema u 0 = HUNGRY \<longrightarrow> state_sema u 4 = EATING \<or> state_sema u 1 = EATING)"
proof -
  let ?K = "sched_inv rr_ready rr_detached {0, 2, 3, 4 :: nat}" and ?ph = "\<lambda>i :: nat. 2 + i"
  have d: "inj_on (s_sema demo_table) {..<N}" "i < N \<Longrightarrow> s_sema demo_table i \<noteq> mutex_sema demo_table" for i
    by (simp_all add: inj_on_def)
  have ph: "inj_on ?ph {..<N}" by (simp add: inj_on_def)
  have st: "state_sema demo_table = (\<lambda>_. THINKING)" by simp
  have run: "running (?ph 0) (sema_init demo_table)" by (simp add: running_def sema_init_def sema_init_loop)
  obtain x u where x: "philosopher_sema default_sched_class 0 (?ph 0) ((\<lambda>_. Thinks) 0) (sema_init demo_table) = Some (x, u)"
    using rr_table.philosopher_sema_ok [OF rr_table.sema_seated_start [OF d demo_table_inv ph st] _ run] by (auto simp: N_def)
  have s: "sema_steps default_sched_class ?K ?ph (\<lambda>_. Thinks, sema_init demo_table) ((\<lambda>_. Thinks)(0 := x), u)"
    by (rule r_into_rtranclp, rule sema_step.act [where ph = ?ph and i = 0, OF _ run x]) (simp add: N_def)
  have n: "LEFT 0 = 4" "RIGHT 0 = 1" "0 < N" by (simp_all add: LEFT_def RIGHT_def N_def)
  have "state_sema u 0 = HUNGRY \<longrightarrow> state_sema u 4 = EATING \<or> state_sema u 1 = EATING"
    using philosophers_sema_safe [OF d demo_table_inv ph st s] n by auto
  then show ?thesis using s by blast
qed

end
