(* ===== verification/Block_Dev.thy ===== *)
theory Block_Dev
  imports Prelude
begin

text \<open>
  I/O buffers (\<^verbatim>\<open>kern/fs/iobuf.c\<close>) and the block device under the file system: the disk device
  (\<^verbatim>\<open>kern/fs/devs/dev_disk0.c\<close>), the IDE layer (\<^verbatim>\<open>kern/driver/ide.c\<close>) and the RAM disk
  (\<^verbatim>\<open>kern/driver/ramdisk.c\<close>).

  An \<^verbatim>\<open>iobuf\<close> carries the memory it points into as a list of bytes and \<^verbatim>\<open>io_base\<close> as a position in it.
  The image of the RAM disk is a function from byte addresses to bytes. The bounce buffer
  \<^verbatim>\<open>disk0_buffer\<close> is part of the device. The lock of the device is not modelled: between
  \<^verbatim>\<open>lock_disk0\<close> and \<^verbatim>\<open>unlock_disk0\<close> one transfer runs at a time. The block copied by a transfer is
  shown to be the block asked for, through the chunks of the bounce buffer and the sectors.
\<close>

section \<open>Bytes at an address\<close>

type_synonym image = "nat \<Rightarrow> u8"

definition rd :: "image \<Rightarrow> nat \<Rightarrow> nat \<Rightarrow> u8 list" where
  "rd d a n = map d [a ..< a + n]"

definition wr :: "image \<Rightarrow> nat \<Rightarrow> u8 list \<Rightarrow> image" where
  "wr d a bs = (\<lambda>x. if a \<le> x \<and> x < a + length bs then bs ! (x - a) else d x)"

lemma length_rd [simp]: "length (rd d a n) = n"
  by (simp add: rd_def)

lemma rd_zero [simp]: "rd d a 0 = []"
  by (simp add: rd_def)

lemma nth_rd [simp]: "i < n \<Longrightarrow> rd d a n ! i = d (a + i)"
  by (simp add: rd_def)

lemma rd_append: "rd d a (m + n) = rd d a m @ rd d (a + m) n"
  by (rule nth_equalityI) (auto simp: nth_append)

lemma wr_nil [simp]: "wr d a [] = d"
  by (auto simp: wr_def fun_eq_iff)

lemma wr_append: "wr d a (xs @ ys) = wr (wr d a xs) (a + length xs) ys"
  by (auto simp: wr_def fun_eq_iff nth_append)

lemma rd_wr_same [simp]: "length bs = n \<Longrightarrow> rd (wr d a bs) a n = bs"
  by (rule nth_equalityI) (auto simp: wr_def)

lemma rd_wr_other: "b + n \<le> a \<or> a + length bs \<le> b \<Longrightarrow> rd (wr d a bs) b n = rd d b n"
  by (rule nth_equalityI) (auto simp: wr_def)

lemma rd_wr_inside:
  "a \<le> b \<Longrightarrow> b + n \<le> a + length bs \<Longrightarrow> rd (wr d a bs) b n = take n (drop (b - a) bs)"
  by (rule nth_equalityI) (auto simp: wr_def)

lemma rd_sub: "k + m \<le> n \<Longrightarrow> take m (drop k (rd d a n)) = rd d (a + k) m"
  by (rule nth_equalityI) (auto simp: add_ac)

section \<open>I/O buffers\<close>

record iobuf =
  io_mem :: "u8 list"
  io_base :: nat
  io_offset :: int
  io_len :: nat
  io_resid :: nat

definition iobuf_init :: "u8 list \<Rightarrow> nat \<Rightarrow> int \<Rightarrow> iobuf" where
  "iobuf_init base len offset = \<lparr>io_mem = base, io_base = 0, io_offset = offset, io_len = len, io_resid = len\<rparr>"

definition iobuf_used :: "iobuf \<Rightarrow> nat" where
  "iobuf_used iob = io_len iob - io_resid iob"

definition iobuf_skip :: "iobuf \<Rightarrow> nat \<Rightarrow> iobuf option" where
  "iobuf_skip iob n = do {
     kassert (io_resid iob \<ge> n);
     Some (iob\<lparr>io_base := io_base iob + n, io_offset := io_offset iob + int n, io_resid := io_resid iob - n\<rparr>)
   }"

text \<open>\<open>memmove\<close> of \<open>n\<close> bytes of \<open>src\<close> to position \<open>k\<close> of a memory area.\<close>

definition put_bytes :: "u8 list \<Rightarrow> nat \<Rightarrow> u8 list \<Rightarrow> u8 list" where
  "put_bytes m k bs = take k m @ bs @ drop (k + length bs) m"

definition iobuf_move :: "iobuf \<Rightarrow> u8 list \<Rightarrow> nat \<Rightarrow> bool \<Rightarrow> (int \<times> nat \<times> iobuf \<times> u8 list) option" where
  "iobuf_move iob data len m2b = do {
     let alen = (if io_resid iob > len then len else io_resid iob);
     (if alen > 0 then
        if m2b then do {
          iob' \<leftarrow> iobuf_skip (iob\<lparr>io_mem := put_bytes (io_mem iob) (io_base iob) (take alen data)\<rparr>) alen;
          Some (if len - alen = 0 then 0 else - E_NO_MEM, alen, iob', data)
        } else do {
          iob' \<leftarrow> iobuf_skip iob alen;
          Some (if len - alen = 0 then 0 else - E_NO_MEM, alen, iob',
                put_bytes data 0 (take alen (drop (io_base iob) (io_mem iob))))
        }
      else Some (if len = 0 then 0 else - E_NO_MEM, alen, iob, data))
   }"

definition iobuf_move_zeros :: "iobuf \<Rightarrow> nat \<Rightarrow> (int \<times> nat \<times> iobuf) option" where
  "iobuf_move_zeros iob len = do {
     let alen = (if io_resid iob > len then len else io_resid iob);
     (if alen > 0 then do {
        iob' \<leftarrow> iobuf_skip (iob\<lparr>io_mem := put_bytes (io_mem iob) (io_base iob) (replicate alen 0)\<rparr>) alen;
        Some (if len - alen = 0 then 0 else - E_NO_MEM, alen, iob')
      } else Some (if len = 0 then 0 else - E_NO_MEM, alen, iob))
   }"

lemma length_put_bytes [simp]: "k + length bs \<le> length m \<Longrightarrow> length (put_bytes m k bs) = length m"
  by (simp add: put_bytes_def)

lemma put_bytes_append:
  assumes "k + length xs + length ys \<le> length m"
  shows "put_bytes (put_bytes m k xs) (k + length xs) ys = put_bytes m k (xs @ ys)"
proof -
  have "length (take k m) = k" using assms by simp
  then show ?thesis by (simp add: put_bytes_def add_ac)
qed

lemma iobuf_move_in:
  assumes "0 < n" "n \<le> io_resid iob"
  shows "iobuf_move iob data n True = Some (0, n,
    iob\<lparr>io_mem := put_bytes (io_mem iob) (io_base iob) (take n data), io_base := io_base iob + n,
      io_offset := io_offset iob + int n, io_resid := io_resid iob - n\<rparr>, data)"
proof -
  have "(if io_resid iob > n then n else io_resid iob) = n" using assms by auto
  then show ?thesis using assms unfolding iobuf_move_def iobuf_skip_def Let_def by simp
qed

lemma iobuf_move_out:
  assumes "0 < io_resid iob" "len > 0"
  shows "iobuf_move iob data len False = Some (if len - min len (io_resid iob) = 0 then 0 else - E_NO_MEM,
    min len (io_resid iob),
    iob\<lparr>io_base := io_base iob + min len (io_resid iob), io_offset := io_offset iob + int (min len (io_resid iob)),
      io_resid := io_resid iob - min len (io_resid iob)\<rparr>,
    put_bytes data 0 (take (min len (io_resid iob)) (drop (io_base iob) (io_mem iob))))"
proof -
  have "(if io_resid iob > len then len else io_resid iob) = min len (io_resid iob)" by auto
  then show ?thesis using assms unfolding iobuf_move_def iobuf_skip_def Let_def by simp
qed

lemma put_bytes_whole: "length bs = length m \<Longrightarrow> put_bytes m 0 bs = bs"
  by (simp add: put_bytes_def)

section \<open>RAM disk and IDE layer\<close>

definition SECTSIZE :: nat where "SECTSIZE = 512"
definition MAX_NSECS :: nat where "MAX_NSECS = 128"
definition MAX_DISK_NSECS :: nat where "MAX_DISK_NSECS = 0x10000000"

record ide_device =
  ide_valid :: bool
  ide_size :: nat
  ide_img :: image

text \<open>\<open>dev->size - secno\<close> is computed in \<open>size_t\<close> and wraps around; it is never negative.\<close>

definition sectors_left :: "ide_device \<Rightarrow> nat \<Rightarrow> nat" where
  "sectors_left dev secno = (if secno \<le> ide_size dev then ide_size dev - secno else 2 ^ 64 + ide_size dev - secno)"

definition ramdisk_read :: "ide_device \<Rightarrow> nat \<Rightarrow> u8 list \<Rightarrow> nat \<Rightarrow> int \<times> u8 list" where
  "ramdisk_read dev secno dst nsecs =
     (let nsecs = (if nsecs < sectors_left dev secno then nsecs else sectors_left dev secno)
      in (0, put_bytes dst 0 (rd (ide_img dev) (secno * SECTSIZE) (nsecs * SECTSIZE))))"

definition ramdisk_write :: "ide_device \<Rightarrow> nat \<Rightarrow> u8 list \<Rightarrow> nat \<Rightarrow> int \<times> ide_device" where
  "ramdisk_write dev secno src nsecs =
     (let nsecs = (if nsecs < sectors_left dev secno then nsecs else sectors_left dev secno)
      in (0, dev\<lparr>ide_img := wr (ide_img dev) (secno * SECTSIZE) (take (nsecs * SECTSIZE) src)\<rparr>))"

definition ide_read_secs :: "ide_device \<Rightarrow> nat \<Rightarrow> u8 list \<Rightarrow> nat \<Rightarrow> (int \<times> u8 list) option" where
  "ide_read_secs dev secno dst nsecs = do {
     kassert (nsecs \<le> MAX_NSECS \<and> ide_valid dev);
     kassert (secno < MAX_DISK_NSECS \<and> secno + nsecs \<le> MAX_DISK_NSECS);
     Some (ramdisk_read dev secno dst nsecs)
   }"

definition ide_write_secs :: "ide_device \<Rightarrow> nat \<Rightarrow> u8 list \<Rightarrow> nat \<Rightarrow> (int \<times> ide_device) option" where
  "ide_write_secs dev secno src nsecs = do {
     kassert (nsecs \<le> MAX_NSECS \<and> ide_valid dev);
     kassert (secno < MAX_DISK_NSECS \<and> secno + nsecs \<le> MAX_DISK_NSECS);
     Some (ramdisk_write dev secno src nsecs)
   }"

section \<open>The disk device\<close>

definition DISK0_BLKSIZE :: nat where "DISK0_BLKSIZE = 4096"
definition DISK0_BUFSIZE :: nat where "DISK0_BUFSIZE = 4 * DISK0_BLKSIZE"
definition DISK0_BLK_NSECT :: nat where "DISK0_BLK_NSECT = DISK0_BLKSIZE div SECTSIZE"

lemmas disk0_sizes = DISK0_BLKSIZE_def DISK0_BUFSIZE_def DISK0_BLK_NSECT_def SECTSIZE_def

lemma DISK0_BLKSIZE_pos [simp]: "0 < DISK0_BLKSIZE" "DISK0_BLKSIZE \<noteq> 0"
  by (simp_all add: DISK0_BLKSIZE_def)

record disk0 =
  d0_ide :: ide_device
  d0_buffer :: "u8 list"
  d_blocks :: nat
  d_blocksize :: nat

definition disk0_read_blks_nolock :: "nat \<Rightarrow> nat \<Rightarrow> disk0 \<Rightarrow> disk0 option" where
  "disk0_read_blks_nolock blkno nblks d = do {
     let sectno = to_u32 (blkno * DISK0_BLK_NSECT);
     let nsecs = to_u32 (nblks * DISK0_BLK_NSECT);
     (ret, buf) \<leftarrow> ide_read_secs (d0_ide d) sectno (d0_buffer d) nsecs;
     if ret \<noteq> 0 then panic else Some (d\<lparr>d0_buffer := buf\<rparr>)
   }"

definition disk0_write_blks_nolock :: "nat \<Rightarrow> nat \<Rightarrow> disk0 \<Rightarrow> disk0 option" where
  "disk0_write_blks_nolock blkno nblks d = do {
     let sectno = to_u32 (blkno * DISK0_BLK_NSECT);
     let nsecs = to_u32 (nblks * DISK0_BLK_NSECT);
     (ret, ide) \<leftarrow> ide_write_secs (d0_ide d) sectno (d0_buffer d) nsecs;
     if ret \<noteq> 0 then panic else Some (d\<lparr>d0_ide := ide\<rparr>)
   }"

partial_function (option) disk0_io_loop ::
  "bool \<Rightarrow> nat \<Rightarrow> nat \<Rightarrow> iobuf \<Rightarrow> disk0 \<Rightarrow> (iobuf \<times> disk0) option" where
  "disk0_io_loop write resid blkno iob d =
     (if resid \<noteq> 0 then
        if write then do {
          (_, copied, iob, buf) \<leftarrow> iobuf_move iob (d0_buffer d) DISK0_BUFSIZE False;
          let d = d\<lparr>d0_buffer := buf\<rparr>;
          kassert (copied \<noteq> 0 \<and> copied \<le> resid \<and> copied mod DISK0_BLKSIZE = 0);
          let nblks = to_u32 (copied div DISK0_BLKSIZE);
          d \<leftarrow> disk0_write_blks_nolock blkno nblks d;
          disk0_io_loop write (resid - copied) (to_u32 (blkno + nblks)) iob d
        } else do {
          let alen = (if DISK0_BUFSIZE > resid then resid else DISK0_BUFSIZE);
          let nblks = to_u32 (alen div DISK0_BLKSIZE);
          d \<leftarrow> disk0_read_blks_nolock blkno nblks d;
          (_, copied, iob, buf) \<leftarrow> iobuf_move iob (d0_buffer d) alen True;
          kassert (copied = alen \<and> copied mod DISK0_BLKSIZE = 0);
          disk0_io_loop write (resid - copied) (to_u32 (blkno + nblks)) iob d
        }
      else Some (iob, d))"

definition disk0_io :: "iobuf \<Rightarrow> bool \<Rightarrow> disk0 \<Rightarrow> (int \<times> iobuf \<times> disk0) option" where
  "disk0_io iob write d =
     (let offset = io_offset iob;
          resid = io_resid iob;
          blkno = nat ((offset div int DISK0_BLKSIZE) mod 2 ^ 32);
          nblks = to_u32 (resid div DISK0_BLKSIZE)
      in if offset mod int DISK0_BLKSIZE \<noteq> 0 \<or> resid mod DISK0_BLKSIZE \<noteq> 0 then Some (- E_INVAL, iob, d)
         else if to_u32 (blkno + nblks) > d_blocks d then Some (- E_INVAL, iob, d)
         else if nblks = 0 then Some (0, iob, d)
         else do {
           (iob, d) \<leftarrow> disk0_io_loop write resid blkno iob d;
           Some (0, iob, d)
         })"

definition disk0_open :: "u32 \<Rightarrow> int" where "disk0_open flags = 0"
definition disk0_close :: int where "disk0_close = 0"
definition disk0_ioctl :: int where "disk0_ioctl = - E_UNIMP"

text \<open>\<open>disk0_device_init\<close> with the IDE device and the bounce buffer it allocated, or none.\<close>

definition disk0_device_init :: "ide_device \<Rightarrow> u8 list option \<Rightarrow> disk0 option" where
  "disk0_device_init ide mem = do {
     _ \<leftarrow> (if \<not> ide_valid ide then panic else Some ());
     buf \<leftarrow> mem;
     Some \<lparr>d0_ide = ide, d0_buffer = buf, d_blocks = ide_size ide div DISK0_BLK_NSECT, d_blocksize = DISK0_BLKSIZE\<rparr>
   }"

section \<open>Transfers\<close>

definition disk0_wf :: "disk0 \<Rightarrow> bool" where
  "disk0_wf d \<longleftrightarrow> ide_valid (d0_ide d) \<and> length (d0_buffer d) = DISK0_BUFSIZE \<and>
     d_blocks d * DISK0_BLK_NSECT \<le> ide_size (d0_ide d) \<and> ide_size (d0_ide d) \<le> MAX_DISK_NSECS \<and>
     d_blocksize d = DISK0_BLKSIZE"

abbreviation disk_img :: "disk0 \<Rightarrow> image" where
  "disk_img d \<equiv> ide_img (d0_ide d)"

definition set_img :: "disk0 \<Rightarrow> image \<Rightarrow> disk0" where
  "set_img d f = d\<lparr>d0_ide := (d0_ide d)\<lparr>ide_img := f\<rparr>\<rparr>"

lemma disk0_wf_blocks: "disk0_wf d \<Longrightarrow> d_blocks d \<le> 0x2000000"
  by (simp add: disk0_wf_def disk0_sizes MAX_DISK_NSECS_def)

lemma read_blks:
  assumes wf: "disk0_wf d" and b: "b + n \<le> d_blocks d" and n: "0 < n" "n \<le> 4"
  shows "disk0_read_blks_nolock b n d =
    Some (d\<lparr>d0_buffer := put_bytes (d0_buffer d) 0 (rd (disk_img d) (b * DISK0_BLKSIZE) (n * DISK0_BLKSIZE))\<rparr>)"
proof -
  have u: "to_u32 (b * DISK0_BLK_NSECT) = b * 8" "to_u32 (n * DISK0_BLK_NSECT) = n * 8"
    using b n disk0_wf_blocks [OF wf] by (simp_all add: disk0_sizes)
  have s: "b * 8 + n * 8 \<le> ide_size (d0_ide d)" using wf b by (simp add: disk0_wf_def disk0_sizes)
  then have l: "(if n * 8 < sectors_left (d0_ide d) (b * 8) then n * 8 else sectors_left (d0_ide d) (b * 8)) = n * 8"
    by (auto simp: sectors_left_def)
  have ok: "n * 8 \<le> MAX_NSECS" "b * 8 < MAX_DISK_NSECS" "b * 8 + n * 8 \<le> MAX_DISK_NSECS" "ide_valid (d0_ide d)"
    using wf s n by (auto simp: disk0_wf_def MAX_NSECS_def MAX_DISK_NSECS_def)
  show ?thesis
    using ok unfolding disk0_read_blks_nolock_def ide_read_secs_def ramdisk_read_def Let_def u l
    by (simp add: disk0_sizes mult.commute)
qed

lemma write_blks:
  assumes wf: "disk0_wf d" and b: "b + n \<le> d_blocks d" and n: "0 < n" "n \<le> 4"
  shows "disk0_write_blks_nolock b n d =
    Some (set_img d (wr (disk_img d) (b * DISK0_BLKSIZE) (take (n * DISK0_BLKSIZE) (d0_buffer d))))"
proof -
  have u: "to_u32 (b * DISK0_BLK_NSECT) = b * 8" "to_u32 (n * DISK0_BLK_NSECT) = n * 8"
    using b n disk0_wf_blocks [OF wf] by (simp_all add: disk0_sizes)
  have s: "b * 8 + n * 8 \<le> ide_size (d0_ide d)" using wf b by (simp add: disk0_wf_def disk0_sizes)
  then have l: "(if n * 8 < sectors_left (d0_ide d) (b * 8) then n * 8 else sectors_left (d0_ide d) (b * 8)) = n * 8"
    by (auto simp: sectors_left_def)
  have ok: "n * 8 \<le> MAX_NSECS" "b * 8 < MAX_DISK_NSECS" "b * 8 + n * 8 \<le> MAX_DISK_NSECS" "ide_valid (d0_ide d)"
    using wf s n by (auto simp: disk0_wf_def MAX_NSECS_def MAX_DISK_NSECS_def)
  show ?thesis
    using ok unfolding disk0_write_blks_nolock_def ide_write_secs_def ramdisk_write_def Let_def u l set_img_def
    by (simp add: disk0_sizes mult.commute)
qed

lemma disk0_wf_set_img [simp]: "disk0_wf (set_img d f) = disk0_wf d"
  by (simp add: disk0_wf_def set_img_def)

lemma disk0_wf_buffer [simp]: "length buf = DISK0_BUFSIZE \<Longrightarrow> disk0_wf d \<Longrightarrow> disk0_wf (d\<lparr>d0_buffer := buf\<rparr>)"
  by (simp add: disk0_wf_def)

lemma set_img_simps [simp]:
  "disk_img (set_img d f) = f" "d_blocks (set_img d f) = d_blocks d" "d0_buffer (set_img d f) = d0_buffer d"
  by (simp_all add: set_img_def)

text \<open>\<open>d'\<close> is the device \<open>d\<close> with image \<open>f\<close>, apart from the contents of the bounce buffer.\<close>

definition disk_is :: "disk0 \<Rightarrow> image \<Rightarrow> disk0 \<Rightarrow> bool" where
  "disk_is d f d' \<longleftrightarrow> disk0_wf d' \<and> disk_img d' = f \<and> d_blocks d' = d_blocks d"

text \<open>One chunk of a transfer of \<open>n\<close> blocks moves \<open>min 4 n\<close> of them.\<close>

lemma read_loop:
  assumes "disk0_wf d" "b + n \<le> d_blocks d" "io_resid iob = n * DISK0_BLKSIZE"
    "io_base iob + n * DISK0_BLKSIZE \<le> length (io_mem iob)"
  shows "\<exists>iob' d'. disk0_io_loop False (n * DISK0_BLKSIZE) b iob d = Some (iob', d') \<and>
    disk_is d (disk_img d) d' \<and>
    io_mem iob' = put_bytes (io_mem iob) (io_base iob) (rd (disk_img d) (b * DISK0_BLKSIZE) (n * DISK0_BLKSIZE)) \<and>
    io_resid iob' = 0 \<and> io_base iob' = io_base iob + n * DISK0_BLKSIZE"
  using assms
proof (induction n arbitrary: b iob d rule: less_induct)
  case (less n)
  show ?case
  proof (cases "n = 0")
    case True
    then show ?thesis
      using less.prems by (subst disk0_io_loop.simps) (simp add: disk_is_def put_bytes_def)
  next
    case False
    define m where "m = min 4 n"
    have m: "0 < m" "m \<le> 4" "m \<le> n" using False by (auto simp: m_def)
    have al: "(if DISK0_BUFSIZE > n * DISK0_BLKSIZE then n * DISK0_BLKSIZE else DISK0_BUFSIZE) = m * DISK0_BLKSIZE"
      by (auto simp: m_def disk0_sizes)
    have um: "to_u32 m = m" using m by simp
    have bm: "b + m \<le> d_blocks d" using less.prems(2) m by simp
    let ?bs = "rd (disk_img d) (b * DISK0_BLKSIZE) (m * DISK0_BLKSIZE)"
    define d1 where "d1 = d\<lparr>d0_buffer := put_bytes (d0_buffer d) 0 ?bs\<rparr>"
    have rb: "disk0_read_blks_nolock b m d = Some d1"
      unfolding d1_def by (rule read_blks [OF less.prems(1) bm m(1,2)])
    have lb: "m * DISK0_BLKSIZE \<le> DISK0_BUFSIZE" using m by (simp add: disk0_sizes)
    have wf1: "disk0_wf d1" and tk: "take (m * DISK0_BLKSIZE) (d0_buffer d1) = ?bs"
      using less.prems(1) lb unfolding d1_def by (simp_all add: disk0_wf_def put_bytes_def)
    define iob1 where "iob1 = iob\<lparr>io_mem := put_bytes (io_mem iob) (io_base iob) ?bs,
      io_base := io_base iob + m * DISK0_BLKSIZE, io_offset := io_offset iob + int (m * DISK0_BLKSIZE),
      io_resid := io_resid iob - m * DISK0_BLKSIZE\<rparr>"
    have pos: "0 < m * DISK0_BLKSIZE" using m by (simp add: disk0_sizes)
    have le: "m * DISK0_BLKSIZE \<le> io_resid iob" using less.prems(3) m by simp
    have mv: "iobuf_move iob (d0_buffer d1) (m * DISK0_BLKSIZE) True = Some (0, m * DISK0_BLKSIZE, iob1, d0_buffer d1)"
      using iobuf_move_in [OF pos le] tk by (simp add: iob1_def)
    have step: "disk0_io_loop False (n * DISK0_BLKSIZE) b iob d =
      disk0_io_loop False ((n - m) * DISK0_BLKSIZE) (b + m) iob1 d1"
    proof -
      have "to_u32 (b + m) = b + m" using bm disk0_wf_blocks [OF less.prems(1)] by simp
      moreover have "n * DISK0_BLKSIZE \<noteq> 0" using False by (simp add: disk0_sizes)
      ultimately show ?thesis
        by (subst disk0_io_loop.simps) (simp add: al um rb mv Let_def diff_mult_distrib)
    qed
    have len1: "length (io_mem iob1) = length (io_mem iob)"
    proof -
      have "io_base iob + m * DISK0_BLKSIZE \<le> length (io_mem iob)"
        using less.prems(4) mult_le_mono1 [OF m(3), of DISK0_BLKSIZE] by linarith
      then show ?thesis by (simp add: iob1_def)
    qed
    have nm: "m * DISK0_BLKSIZE + (n - m) * DISK0_BLKSIZE = n * DISK0_BLKSIZE"
      using m by (simp add: diff_mult_distrib mult_le_mono1)
    have "\<exists>iob' d'. disk0_io_loop False ((n - m) * DISK0_BLKSIZE) (b + m) iob1 d1 = Some (iob', d') \<and>
      disk_is d1 (disk_img d1) d' \<and>
      io_mem iob' = put_bytes (io_mem iob1) (io_base iob1) (rd (disk_img d1) ((b + m) * DISK0_BLKSIZE) ((n - m) * DISK0_BLKSIZE)) \<and>
      io_resid iob' = 0 \<and> io_base iob' = io_base iob1 + (n - m) * DISK0_BLKSIZE"
    proof (rule less.IH [OF _ wf1])
      show "n - m < n" using m by simp
      show "b + m + (n - m) \<le> d_blocks d1" using less.prems(2) m by (simp add: d1_def)
      show "io_resid iob1 = (n - m) * DISK0_BLKSIZE" using less.prems(3) by (simp add: iob1_def diff_mult_distrib)
      have "io_base iob1 = io_base iob + m * DISK0_BLKSIZE" by (simp add: iob1_def)
      then show "io_base iob1 + (n - m) * DISK0_BLKSIZE \<le> length (io_mem iob1)"
        unfolding len1 using less.prems(4) nm by linarith
    qed
    then obtain iob' d' where r: "disk0_io_loop False ((n - m) * DISK0_BLKSIZE) (b + m) iob1 d1 = Some (iob', d')"
      "disk_is d1 (disk_img d1) d'" "io_resid iob' = 0" "io_base iob' = io_base iob1 + (n - m) * DISK0_BLKSIZE"
      "io_mem iob' = put_bytes (io_mem iob1) (io_base iob1) (rd (disk_img d1) ((b + m) * DISK0_BLKSIZE) ((n - m) * DISK0_BLKSIZE))"
      by blast
    have "io_mem iob' = put_bytes (io_mem iob) (io_base iob) (?bs @ rd (disk_img d) (b * DISK0_BLKSIZE + m * DISK0_BLKSIZE) ((n - m) * DISK0_BLKSIZE))"
      using r(5) put_bytes_append [of "io_base iob" ?bs _ "io_mem iob"] less.prems(4) nm
      by (simp add: iob1_def d1_def add_mult_distrib)
    then have "io_mem iob' = put_bytes (io_mem iob) (io_base iob) (rd (disk_img d) (b * DISK0_BLKSIZE) (n * DISK0_BLKSIZE))"
      by (simp only: rd_append [symmetric] nm)
    then show ?thesis
      using step r nm by (auto simp: disk_is_def d1_def iob1_def)
  qed
qed

lemma write_loop:
  assumes "disk0_wf d" "b + n \<le> d_blocks d" "io_resid iob = n * DISK0_BLKSIZE"
    "io_base iob + n * DISK0_BLKSIZE \<le> length (io_mem iob)"
  shows "\<exists>iob' d'. disk0_io_loop True (n * DISK0_BLKSIZE) b iob d = Some (iob', d') \<and>
    disk_is d (wr (disk_img d) (b * DISK0_BLKSIZE) (take (n * DISK0_BLKSIZE) (drop (io_base iob) (io_mem iob)))) d' \<and>
    io_mem iob' = io_mem iob \<and> io_resid iob' = 0 \<and> io_base iob' = io_base iob + n * DISK0_BLKSIZE"
  using assms
proof (induction n arbitrary: b iob d rule: less_induct)
  case (less n)
  show ?case
  proof (cases "n = 0")
    case True
    then show ?thesis
      using less.prems by (subst disk0_io_loop.simps) (simp add: disk_is_def)
  next
    case False
    define m where "m = min 4 n"
    have m: "0 < m" "m \<le> 4" "m \<le> n" using False by (auto simp: m_def)
    have mi: "min DISK0_BUFSIZE (io_resid iob) = m * DISK0_BLKSIZE"
      using less.prems(3) by (auto simp: m_def disk0_sizes)
    have um: "to_u32 m = m" using m by simp
    have bm: "b + m \<le> d_blocks d" using less.prems(2) m by simp
    have mn: "m * DISK0_BLKSIZE \<le> n * DISK0_BLKSIZE" using m by (intro mult_le_mono1)
    let ?bs = "take (m * DISK0_BLKSIZE) (drop (io_base iob) (io_mem iob))"
    have "m * DISK0_BLKSIZE \<le> length (io_mem iob) - io_base iob" using less.prems(4) mn by linarith
    then have lb: "length ?bs = m * DISK0_BLKSIZE" by simp
    define d1 where "d1 = d\<lparr>d0_buffer := put_bytes (d0_buffer d) 0 ?bs\<rparr>"
    have lB: "m * DISK0_BLKSIZE \<le> DISK0_BUFSIZE" using m by (simp add: disk0_sizes)
    have wf1: "disk0_wf d1" and tk: "take (m * DISK0_BLKSIZE) (d0_buffer d1) = ?bs"
      using less.prems(1) lB lb unfolding d1_def by (simp_all add: disk0_wf_def put_bytes_def)
    define d2 where "d2 = set_img d1 (wr (disk_img d) (b * DISK0_BLKSIZE) ?bs)"
    have wb: "disk0_write_blks_nolock b m d1 = Some d2"
      using write_blks [OF wf1 _ m(1,2), of b] bm tk by (simp add: d2_def d1_def)
    define iob1 where "iob1 = iob\<lparr>io_base := io_base iob + m * DISK0_BLKSIZE,
      io_offset := io_offset iob + int (m * DISK0_BLKSIZE), io_resid := io_resid iob - m * DISK0_BLKSIZE\<rparr>"
    have pos: "0 < io_resid iob" "0 < DISK0_BUFSIZE" "m * DISK0_BLKSIZE \<noteq> 0"
      using m False less.prems(3) by (simp_all add: disk0_sizes)
    obtain r where mv: "iobuf_move iob (d0_buffer d) DISK0_BUFSIZE False = Some (r, m * DISK0_BLKSIZE, iob1, d0_buffer d1)"
      using iobuf_move_out [OF pos(1,2), of "d0_buffer d"] unfolding mi by (simp add: iob1_def d1_def)
    have step: "disk0_io_loop True (n * DISK0_BLKSIZE) b iob d =
      disk0_io_loop True ((n - m) * DISK0_BLKSIZE) (b + m) iob1 d2"
    proof -
      have "to_u32 (b + m) = b + m" using bm disk0_wf_blocks [OF less.prems(1)] by simp
      moreover have "n * DISK0_BLKSIZE \<noteq> 0" using False by (simp add: disk0_sizes)
      moreover have "d\<lparr>d0_buffer := d0_buffer d1\<rparr> = d1" by (simp add: d1_def)
      ultimately show ?thesis using pos(3) mn
        by (subst disk0_io_loop.simps) (simp add: um wb mv Let_def diff_mult_distrib)
    qed
    have nm: "m * DISK0_BLKSIZE + (n - m) * DISK0_BLKSIZE = n * DISK0_BLKSIZE"
      using mn by (simp add: diff_mult_distrib)
    have f2: "disk_img d2 = wr (disk_img d) (b * DISK0_BLKSIZE) ?bs" "d_blocks d2 = d_blocks d" "disk0_wf d2"
      using wf1 by (simp_all add: d2_def d1_def)
    have "\<exists>iob' d'. disk0_io_loop True ((n - m) * DISK0_BLKSIZE) (b + m) iob1 d2 = Some (iob', d') \<and>
      disk_is d2 (wr (disk_img d2) ((b + m) * DISK0_BLKSIZE) (take ((n - m) * DISK0_BLKSIZE) (drop (io_base iob1) (io_mem iob1)))) d' \<and>
      io_mem iob' = io_mem iob1 \<and> io_resid iob' = 0 \<and> io_base iob' = io_base iob1 + (n - m) * DISK0_BLKSIZE"
      using less.prems m nm f2 by (intro less.IH) (auto simp: iob1_def diff_mult_distrib)
    then obtain iob' d' where r: "disk0_io_loop True ((n - m) * DISK0_BLKSIZE) (b + m) iob1 d2 = Some (iob', d')"
      "disk_is d2 (wr (disk_img d2) ((b + m) * DISK0_BLKSIZE) (take ((n - m) * DISK0_BLKSIZE) (drop (io_base iob1) (io_mem iob1)))) d'"
      "io_mem iob' = io_mem iob1" "io_resid iob' = 0" "io_base iob' = io_base iob1 + (n - m) * DISK0_BLKSIZE"
      by blast
    have "take (n * DISK0_BLKSIZE) (drop (io_base iob) (io_mem iob)) =
      ?bs @ take ((n - m) * DISK0_BLKSIZE) (drop (io_base iob1) (io_mem iob1))"
      unfolding nm [symmetric] take_add by (simp add: iob1_def add.commute)
    then have "wr (disk_img d2) ((b + m) * DISK0_BLKSIZE) (take ((n - m) * DISK0_BLKSIZE) (drop (io_base iob1) (io_mem iob1)))
      = wr (disk_img d) (b * DISK0_BLKSIZE) (take (n * DISK0_BLKSIZE) (drop (io_base iob) (io_mem iob)))"
      using lb f2(1) by (simp add: wr_append add_mult_distrib)
    then show ?thesis
      using step r nm f2(2) by (auto simp: disk_is_def iob1_def)
  qed
qed

section \<open>One block in, one block out\<close>

lemma disk0_io_guard:
  assumes wf: "disk0_wf d" and b: "b + n \<le> d_blocks d" and o: "io_offset iob = int (b * DISK0_BLKSIZE)"
    and r: "io_resid iob = n * DISK0_BLKSIZE" and n: "0 < n"
  shows "disk0_io iob w d = disk0_io_loop w (n * DISK0_BLKSIZE) b iob d \<bind> (\<lambda>(iob, d). Some (0, iob, d))"
proof -
  have small: "b + n < 2 ^ 32" using b disk0_wf_blocks [OF wf] by simp
  then have "int b mod 2 ^ 32 = int b" by simp
  moreover have "int (b * DISK0_BLKSIZE) div int DISK0_BLKSIZE = int b"
    by (simp add: zdiv_int [symmetric])
  moreover have "int (b * DISK0_BLKSIZE) mod int DISK0_BLKSIZE = 0"
    by (simp add: zmod_int [symmetric])
  moreover have "to_u32 n = n" "to_u32 (b + n) = b + n" using small by simp_all
  ultimately show ?thesis using o r n b by (simp add: disk0_io_def Let_def)
qed

lemma disk0_transfer:
  assumes "disk0_wf d" "b + n \<le> d_blocks d" "0 < n" "length buf = n * DISK0_BLKSIZE"
  shows "\<exists>iob' d'. disk0_io (iobuf_init buf (n * DISK0_BLKSIZE) (int (b * DISK0_BLKSIZE))) False d = Some (0, iob', d') \<and>
      io_mem iob' = rd (disk_img d) (b * DISK0_BLKSIZE) (n * DISK0_BLKSIZE) \<and> io_resid iob' = 0 \<and>
      disk0_wf d' \<and> disk_img d' = disk_img d \<and> d_blocks d' = d_blocks d"
    and "\<exists>iob' d'. disk0_io (iobuf_init buf (n * DISK0_BLKSIZE) (int (b * DISK0_BLKSIZE))) True d = Some (0, iob', d') \<and>
      disk_img d' = wr (disk_img d) (b * DISK0_BLKSIZE) buf \<and> io_resid iob' = 0 \<and> io_mem iob' = buf \<and>
      disk0_wf d' \<and> d_blocks d' = d_blocks d"
proof -
  let ?iob = "iobuf_init buf (n * DISK0_BLKSIZE) (int (b * DISK0_BLKSIZE))"
  have g: "disk0_io ?iob w d = disk0_io_loop w (n * DISK0_BLKSIZE) b ?iob d \<bind> (\<lambda>(iob, d). Some (0, iob, d))" for w
    by (rule disk0_io_guard [OF assms(1,2) _ _ assms(3)]) (simp_all add: iobuf_init_def)
  have r: "io_resid ?iob = n * DISK0_BLKSIZE" "io_base ?iob + n * DISK0_BLKSIZE \<le> length (io_mem ?iob)"
    using assms(4) by (simp_all add: iobuf_init_def)
  obtain i1 d1 where "disk0_io_loop False (n * DISK0_BLKSIZE) b ?iob d = Some (i1, d1)"
    "disk_is d (disk_img d) d1" "io_resid i1 = 0"
    "io_mem i1 = put_bytes (io_mem ?iob) (io_base ?iob) (rd (disk_img d) (b * DISK0_BLKSIZE) (n * DISK0_BLKSIZE))"
    using read_loop [OF assms(1,2) r] by blast
  then show "\<exists>iob' d'. disk0_io ?iob False d = Some (0, iob', d') \<and>
      io_mem iob' = rd (disk_img d) (b * DISK0_BLKSIZE) (n * DISK0_BLKSIZE) \<and> io_resid iob' = 0 \<and>
      disk0_wf d' \<and> disk_img d' = disk_img d \<and> d_blocks d' = d_blocks d"
    using g assms(4) by (auto simp: disk_is_def iobuf_init_def put_bytes_whole)
  obtain i2 d2 where "disk0_io_loop True (n * DISK0_BLKSIZE) b ?iob d = Some (i2, d2)"
    "disk_is d (wr (disk_img d) (b * DISK0_BLKSIZE) (take (n * DISK0_BLKSIZE) (drop (io_base ?iob) (io_mem ?iob)))) d2"
    "io_resid i2 = 0" "io_mem i2 = io_mem ?iob"
    using write_loop [OF assms(1,2) r] by blast
  then show "\<exists>iob' d'. disk0_io ?iob True d = Some (0, iob', d') \<and>
      disk_img d' = wr (disk_img d) (b * DISK0_BLKSIZE) buf \<and> io_resid iob' = 0 \<and> io_mem iob' = buf \<and>
      disk0_wf d' \<and> d_blocks d' = d_blocks d"
    using g assms(4) by (auto simp: disk_is_def iobuf_init_def)
qed

text \<open>A block-aligned transfer of any number of blocks inside the disk never fails. Reading fills the
  caller's buffer with exactly the bytes of those blocks and leaves the disk image alone; writing
  changes exactly those blocks of the image, to the bytes of the buffer; nothing of the request is
  left over.\<close>

theorem disk0_io_blocks:
  assumes "disk0_wf d" "b + n \<le> d_blocks d" "0 < n" "length buf = n * DISK0_BLKSIZE"
  shows "(\<exists>iob' d'. disk0_io (iobuf_init buf (n * DISK0_BLKSIZE) (int (b * DISK0_BLKSIZE))) False d = Some (0, iob', d') \<and>
      io_mem iob' = rd (disk_img d) (b * DISK0_BLKSIZE) (n * DISK0_BLKSIZE) \<and> io_resid iob' = 0 \<and>
      disk0_wf d' \<and> disk_img d' = disk_img d \<and> d_blocks d' = d_blocks d) \<and>
    (\<exists>iob' d'. disk0_io (iobuf_init buf (n * DISK0_BLKSIZE) (int (b * DISK0_BLKSIZE))) True d = Some (0, iob', d') \<and>
      disk_img d' = wr (disk_img d) (b * DISK0_BLKSIZE) buf \<and> io_resid iob' = 0 \<and>
      disk0_wf d' \<and> d_blocks d' = d_blocks d)"
  using disk0_transfer [OF assms] by blast

definition demo_disk :: disk0 where
  "demo_disk = \<lparr>d0_ide = \<lparr>ide_valid = True, ide_size = 800, ide_img = (\<lambda>_. 0)\<rparr>,
     d0_buffer = replicate DISK0_BUFSIZE 0, d_blocks = 100, d_blocksize = DISK0_BLKSIZE\<rparr>"

lemma demo_disk_wf: "disk0_wf demo_disk"
  by (simp add: disk0_wf_def demo_disk_def disk0_sizes MAX_DISK_NSECS_def)

theorem disk0_io_blocks_witness:
  "\<exists>iob' d'. disk0_io (iobuf_init (replicate (5 * DISK0_BLKSIZE) 7) (5 * DISK0_BLKSIZE) (int (9 * DISK0_BLKSIZE))) True
      demo_disk = Some (0, iob', d') \<and>
    disk_img d' = wr (disk_img demo_disk) (9 * DISK0_BLKSIZE) (replicate (5 * DISK0_BLKSIZE) 7)"
proof -
  have "9 + 5 \<le> d_blocks demo_disk" by (simp add: demo_disk_def)
  then show ?thesis
    using disk0_io_blocks [OF demo_disk_wf, of 9 5 "replicate (5 * DISK0_BLKSIZE) 7"] by auto
qed

end
