(* ===== verification/Strings.thy ===== *)
theory Strings
  imports Block_Dev
begin

text \<open>
  The string and memory routines of \<^verbatim>\<open>libs/string.c\<close>, over a memory that is a function from addresses to
  bytes. A routine that walks to the end of a string need not return when no terminator follows, so the
  loops without a length are \<^verbatim>\<open>partial_function (option)\<close>; for terminated strings the results are stated with
  \<open>cstring m a xs\<close>, the bytes \<open>xs\<close> at address \<open>a\<close> followed by the terminator. The architecture-specific
  versions are not compiled in.
\<close>

section \<open>Strings\<close>

type_synonym memory = "nat \<Rightarrow> u8"

partial_function (option) strlen_loop :: "memory \<Rightarrow> nat \<Rightarrow> nat \<Rightarrow> nat option" where
  "strlen_loop m s cnt = (if m s \<noteq> 0 then strlen_loop m (s + 1) (cnt + 1) else Some cnt)"

definition strlen :: "memory \<Rightarrow> nat \<Rightarrow> nat option" where
  "strlen m s = strlen_loop m s 0"

fun strnlen :: "memory \<Rightarrow> nat \<Rightarrow> nat \<Rightarrow> nat" where
  "strnlen m s 0 = 0"
| "strnlen m s (Suc len) = (if m s \<noteq> 0 then Suc (strnlen m (s + 1) len) else 0)"

partial_function (option) strcpy :: "memory \<Rightarrow> nat \<Rightarrow> nat \<Rightarrow> memory option" where
  "strcpy m p src =
     (let m' = m(p := m src) in if m src \<noteq> 0 then strcpy m' (p + 1) (src + 1) else Some m')"

fun strncpy :: "memory \<Rightarrow> nat \<Rightarrow> nat \<Rightarrow> nat \<Rightarrow> memory" where
  "strncpy m p src 0 = m"
| "strncpy m p src (Suc len) = strncpy (m(p := m src)) (p + 1) (if m src \<noteq> 0 then src + 1 else src) len"

partial_function (option) strcmp :: "memory \<Rightarrow> nat \<Rightarrow> nat \<Rightarrow> int option" where
  "strcmp m s1 s2 =
     (if m s1 \<noteq> 0 \<and> m s1 = m s2 then strcmp m (s1 + 1) (s2 + 1) else Some (uint (m s1) - uint (m s2)))"

fun strncmp :: "memory \<Rightarrow> nat \<Rightarrow> nat \<Rightarrow> nat \<Rightarrow> int" where
  "strncmp m s1 s2 0 = 0"
| "strncmp m s1 s2 (Suc n) =
     (if m s1 \<noteq> 0 \<and> m s1 = m s2 then strncmp m (s1 + 1) (s2 + 1) n else uint (m s1) - uint (m s2))"

text \<open>The inner option is the null pointer.\<close>

partial_function (option) strchr :: "memory \<Rightarrow> nat \<Rightarrow> u8 \<Rightarrow> nat option option" where
  "strchr m s c = (if m s \<noteq> 0 then if m s = c then Some (Some s) else strchr m (s + 1) c else Some None)"

partial_function (option) strfind :: "memory \<Rightarrow> nat \<Rightarrow> u8 \<Rightarrow> nat option" where
  "strfind m s c = (if m s \<noteq> 0 then if m s = c then Some s else strfind m (s + 1) c else Some s)"

section \<open>Numbers\<close>

text \<open>The letters that \<open>strtol\<close> knows, by their codes.\<close>

partial_function (option) skip_blanks :: "memory \<Rightarrow> nat \<Rightarrow> nat option" where
  "skip_blanks m s = (if m s = 32 \<or> m s = 9 then skip_blanks m (s + 1) else Some s)"

definition strtol_digit :: "u8 \<Rightarrow> nat option" where
  "strtol_digit c =
     (if 48 \<le> c \<and> c \<le> 57 then Some (unat c - 48)
      else if 97 \<le> c \<and> c \<le> 122 then Some (unat c - 97 + 10)
      else if 65 \<le> c \<and> c \<le> 90 then Some (unat c - 65 + 10)
      else None)"

definition to_long :: "int \<Rightarrow> int" where
  "to_long x = (x + 2 ^ 63) mod 2 ^ 64 - 2 ^ 63"

partial_function (option) strtol_digits :: "memory \<Rightarrow> nat \<Rightarrow> nat \<Rightarrow> int \<Rightarrow> (int \<times> nat) option" where
  "strtol_digits m s base val =
     (case strtol_digit (m s) of
        None \<Rightarrow> Some (val, s)
      | Some dig \<Rightarrow>
          if dig \<ge> base then Some (val, s)
          else strtol_digits m (s + 1) base (to_long (val * int base + int dig)))"

definition strtol :: "memory \<Rightarrow> nat \<Rightarrow> nat \<Rightarrow> (int \<times> nat) option" where
  "strtol m s base = do {
     s \<leftarrow> skip_blanks m s;
     let neg = (m s = 45);
     let s = (if m s = 43 \<or> m s = 45 then s + 1 else s);
     let (s, base) =
       (if (base = 0 \<or> base = 16) \<and> m s = 48 \<and> m (s + 1) = 120 then (s + 2, 16)
        else if base = 0 \<and> m s = 48 then (s + 1, 8)
        else if base = 0 then (s, 10)
        else (s, base));
     (val, e) \<leftarrow> strtol_digits m s base 0;
     Some (if neg then to_long (- val) else val, e)
   }"

section \<open>Memory areas\<close>

fun memset :: "memory \<Rightarrow> nat \<Rightarrow> u8 \<Rightarrow> nat \<Rightarrow> memory" where
  "memset m p c 0 = m"
| "memset m p c (Suc n) = memset (m(p := c)) (p + 1) c n"

fun copy_up :: "memory \<Rightarrow> nat \<Rightarrow> nat \<Rightarrow> nat \<Rightarrow> memory" where
  "copy_up m d s 0 = m"
| "copy_up m d s (Suc n) = copy_up (m(d := m s)) (d + 1) (s + 1) n"

text \<open>The downward loop, with the pointers behind the last bytes.\<close>

fun copy_down :: "memory \<Rightarrow> nat \<Rightarrow> nat \<Rightarrow> nat \<Rightarrow> memory" where
  "copy_down m d s 0 = m"
| "copy_down m d s (Suc n) = copy_down (m(d - 1 := m (s - 1))) (d - 1) (s - 1) n"

definition memmove :: "memory \<Rightarrow> nat \<Rightarrow> nat \<Rightarrow> nat \<Rightarrow> memory" where
  "memmove m d s n = (if s < d \<and> s + n > d then copy_down m (d + n) (s + n) n else copy_up m d s n)"

definition memcpy :: "memory \<Rightarrow> nat \<Rightarrow> nat \<Rightarrow> nat \<Rightarrow> memory" where
  "memcpy m d s n = copy_up m d s n"

fun memcmp :: "memory \<Rightarrow> nat \<Rightarrow> nat \<Rightarrow> nat \<Rightarrow> int" where
  "memcmp m s1 s2 0 = 0"
| "memcmp m s1 s2 (Suc n) =
     (if m s1 \<noteq> m s2 then uint (m s1) - uint (m s2) else memcmp m (s1 + 1) (s2 + 1) n)"

section \<open>Copying\<close>

lemma memset_wr: "memset m p c n = wr m p (replicate n c)"
proof (induction n arbitrary: m p)
  case (Suc n)
  have "wr (m(p := c)) (p + 1) (replicate n c) = wr m p (replicate (Suc n) c)"
    by (auto simp: wr_def fun_eq_iff nth_Cons split: nat.splits)
  then show ?case using Suc by (simp only: memset.simps)
qed simp

text \<open>Upwards is right unless the target starts inside the source, downwards unless the source starts inside
  the target.\<close>

lemma copy_up_wr: "\<not> (s < d \<and> d < s + n) \<Longrightarrow> copy_up m d s n = wr m d (rd m s n)"
proof (induction n arbitrary: m d s)
  case (Suc n)
  have r: "rd (m(d := m s)) (s + 1) n = rd m (s + 1) n"
    using Suc.prems by (intro nth_equalityI) auto
  have "copy_up m d s (Suc n) = wr (m(d := m s)) (d + 1) (rd m (s + 1) n)"
    unfolding copy_up.simps r [symmetric] by (rule Suc.IH) (use Suc.prems in auto)
  also have "\<dots> = wr m d (rd m s (Suc n))"
  proof
    fix x
    show "wr (m(d := m s)) (d + 1) (rd m (s + 1) n) x = wr m d (rd m s (Suc n)) x"
      by (cases "x = d") (auto simp: wr_def Suc_diff_Suc Suc_diff_le)
  qed
  finally show ?case .
qed simp

lemma copy_down_wr: "\<not> (d < s \<and> s < d + n) \<Longrightarrow> copy_down m (d + n) (s + n) n = wr m d (rd m s n)"
proof (induction n arbitrary: m)
  case (Suc n)
  have r: "rd (m(d + n := m (s + n))) s n = rd m s n"
    using Suc.prems by (intro nth_equalityI) auto
  have "copy_down (m(d + n := m (s + n))) (d + n) (s + n) n = wr (m(d + n := m (s + n))) d (rd (m(d + n := m (s + n))) s n)"
    by (rule Suc.IH) (use Suc.prems in auto)
  then have "copy_down m (d + Suc n) (s + Suc n) (Suc n) = wr (m(d + n := m (s + n))) d (rd m s n)"
    unfolding r by simp
  also have "\<dots> = wr m d (rd m s (Suc n))"
  proof
    fix x
    show "wr (m(d + n := m (s + n))) d (rd m s n) x = wr m d (rd m s (Suc n)) x"
      by (cases "x = d + n") (auto simp: wr_def)
  qed
  finally show ?case .
qed simp

text \<open>C32: \<open>memmove\<close> moves: the bytes at the destination are afterwards the bytes the source had before, and
  nothing else changes, however the two areas overlap.\<close>

theorem memmove_overlapping: "memmove m d s n = wr m d (rd m s n)"
  unfolding memmove_def using copy_down_wr [of d s n m] copy_up_wr [of s d n m] by auto

section \<open>Terminated strings\<close>

definition cstring :: "memory \<Rightarrow> nat \<Rightarrow> u8 list \<Rightarrow> bool" where
  "cstring m a xs \<longleftrightarrow> 0 \<notin> set xs \<and> rd m a (length xs) = xs \<and> m (a + length xs) = 0"

lemma cstring_Nil [simp]: "cstring m a [] \<longleftrightarrow> m a = 0"
  by (simp add: cstring_def)

lemma cstring_Cons [simp]: "cstring m a (x # xs) \<longleftrightarrow> x \<noteq> 0 \<and> m a = x \<and> cstring m (Suc a) xs"
proof -
  have "rd m a (Suc (length xs)) = m a # rd m (Suc a) (length xs)"
    using rd_append [of m a 1 "length xs"] by (simp add: rd_def)
  then show ?thesis by (auto simp: cstring_def)
qed

lemma cstring_unique: "cstring m a xs \<Longrightarrow> cstring m a ys \<Longrightarrow> xs = ys"
proof (induction xs arbitrary: a ys)
  case Nil
  then show ?case by (cases ys) auto
next
  case (Cons x xs)
  then show ?case by (cases ys) auto
qed

lemma strlen_cstring: "cstring m a xs \<Longrightarrow> strlen m a = Some (length xs)"
proof -
  have "cstring m a xs \<Longrightarrow> strlen_loop m a k = Some (k + length xs)" for k
  proof (induction xs arbitrary: a k)
    case Nil
    then show ?case by (subst strlen_loop.simps) simp
  next
    case (Cons x xs)
    then show ?case by (subst strlen_loop.simps) simp
  qed
  then show "cstring m a xs \<Longrightarrow> strlen m a = Some (length xs)" by (simp add: strlen_def)
qed

lemma strnlen_cstring: "cstring m a xs \<Longrightarrow> strnlen m a n = min n (length xs)"
  by (induction n arbitrary: a xs) (case_tac xs; auto)+

lemma cstring_wr_other:
  "cstring m a xs \<Longrightarrow> p < a \<or> a + length xs < p \<Longrightarrow> cstring (m(p := c)) a xs"
  by (induction xs arbitrary: a) auto

lemma wr_Cons: "wr m p (x # xs) = wr (m(p := x)) (Suc p) xs"
proof
  fix y
  show "wr m p (x # xs) y = wr (m(p := x)) (Suc p) xs y" by (cases "y = p") (auto simp: wr_def nth_Cons')
qed

lemma strcpy_cstring:
  assumes "cstring m src xs" "dst < src \<or> src + length xs < dst"
  shows "strcpy m dst src = Some (wr m dst (xs @ [0]))"
  using assms
proof (induction xs arbitrary: m dst src)
  case Nil
  then show ?case by (subst strcpy.simps) (simp add: Let_def wr_Cons)
next
  case (Cons x xs)
  have "cstring (m(dst := x)) (Suc src) xs" using Cons.prems by (intro cstring_wr_other) auto
  then have "strcpy (m(dst := x)) (Suc dst) (Suc src) = Some (wr (m(dst := x)) (Suc dst) (xs @ [0]))"
    by (rule Cons.IH) (use Cons.prems in auto)
  then show ?case using Cons.prems by (subst strcpy.simps) (simp add: Let_def wr_Cons)
qed

lemma strncpy_cstring:
  assumes "cstring m src xs" "dst + n \<le> src \<or> src + length xs < dst"
  shows "strncpy m dst src n = wr m dst (take n xs @ replicate (n - length xs) 0)"
  using assms
proof (induction n arbitrary: m dst src xs)
  case (Suc n)
  show ?case
  proof (cases xs)
    case Nil
    have "cstring (m(dst := 0)) src []" using Suc.prems Nil by auto
    then have "strncpy (m(dst := 0)) (Suc dst) src n = wr (m(dst := 0)) (Suc dst) (replicate n 0)"
      using Suc.IH [of "m(dst := 0)" src "[]" "Suc dst"] Suc.prems Nil by (auto simp del: fun_upd_apply)
    then show ?thesis using Suc.prems Nil by (simp add: wr_Cons)
  next
    case (Cons x ys)
    have "cstring (m(dst := x)) (Suc src) ys" using Suc.prems Cons by (intro cstring_wr_other) auto
    then have "strncpy (m(dst := x)) (Suc dst) (Suc src) n =
        wr (m(dst := x)) (Suc dst) (take n ys @ replicate (n - length ys) 0)"
      by (rule Suc.IH) (use Suc.prems Cons in auto)
    then show ?thesis using Suc.prems Cons by (simp add: wr_Cons)
  qed
qed simp

lemma strcmp_total:
  assumes "cstring m a xs" "cstring m b ys"
  obtains r where "strcmp m a b = Some r" "r = 0 \<longleftrightarrow> xs = ys" "r < 0 \<longleftrightarrow> ord_class.lexordp xs ys"
proof -
  have "\<exists>r. strcmp m a b = Some r \<and> (r = 0 \<longleftrightarrow> xs = ys) \<and> (r < 0 \<longleftrightarrow> ord_class.lexordp xs ys)"
    using assms
  proof (induction xs arbitrary: a b ys)
    case Nil
    then show ?case by (cases ys) (subst strcmp.simps, auto simp: word_less_def word_neq_0_conv)+
  next
    case (Cons x xs)
    show ?case
    proof (cases "ys \<noteq> [] \<and> hd ys = x")
      case True
      then obtain zs where "ys = x # zs" by (cases ys) auto
      then show ?thesis using Cons by (subst strcmp.simps) auto
    next
      case False
      then have "strcmp m a b = Some (uint (m a) - uint (m b))"
        using Cons.prems by (subst strcmp.simps) (cases ys; auto)
      then show ?thesis using False Cons.prems
        by (cases ys) (auto simp: word_less_def word_uint_eq_iff)
    qed
  qed
  then show ?thesis using that by blast
qed

text \<open>\<open>strcmp\<close> of two terminated strings returns; the result is zero exactly for equal strings and negative
  exactly when the first comes before the second in the lexicographic order of the bytes.\<close>

theorem strcmp_order:
  assumes "cstring m a xs" "cstring m b ys"
  shows "\<exists>r. strcmp m a b = Some r \<and> (r = 0 \<longleftrightarrow> xs = ys) \<and> (r < 0 \<longleftrightarrow> ord_class.lexordp xs ys)"
  using strcmp_total [OF assms] by metis

definition demo_mem :: memory where
  "demo_mem = wr (\<lambda>_. 0) 10 [104, 105, 0, 0, 104, 111, 0]"

theorem strcmp_order_witness:
  "\<exists>r. strcmp demo_mem 10 14 = Some r \<and> (r = 0 \<longleftrightarrow> [104, 105 :: u8] = [104, 111]) \<and>
    (r < 0 \<longleftrightarrow> ord_class.lexordp [104, 105 :: u8] [104, 111])"
  by (rule strcmp_order) (simp_all add: demo_mem_def wr_def)

section \<open>Numerals\<close>

fun spells :: "memory \<Rightarrow> nat \<Rightarrow> nat \<Rightarrow> nat list \<Rightarrow> bool" where
  "spells m s b [] \<longleftrightarrow> (case strtol_digit (m s) of None \<Rightarrow> True | Some d \<Rightarrow> d \<ge> b)"
| "spells m s b (d # ds) \<longleftrightarrow> strtol_digit (m s) = Some d \<and> d < b \<and> spells m (s + 1) b ds"

fun horner :: "nat \<Rightarrow> nat list \<Rightarrow> nat \<Rightarrow> nat" where
  "horner b [] v = v"
| "horner b (d # ds) v = horner b ds (v * b + d)"

lemma horner_ge: "0 < b \<Longrightarrow> v \<le> horner b ds v"
proof (induction ds arbitrary: v)
  case (Cons d ds)
  have "v \<le> v * b + d" using Cons.prems by (simp add: trans_le_add1)
  then show ?case using Cons.IH [OF Cons.prems, of "v * b + d"] by simp
qed simp

lemma to_long_nat: "n < 2 ^ 63 \<Longrightarrow> to_long (int n) = int n" "n < 2 ^ 63 \<Longrightarrow> to_long (- int n) = - int n"
  by (simp_all add: to_long_def)

lemma strtol_digits_value:
  assumes "spells m s b ds" "0 < b" "horner b ds v < 2 ^ 63"
  shows "strtol_digits m s b (int v) = Some (int (horner b ds v), s + length ds)"
  using assms
proof (induction ds arbitrary: s v)
  case Nil
  then show ?case by (subst strtol_digits.simps) (auto split: option.splits)
next
  case (Cons d ds)
  have "v * b + d < 2 ^ 63" using horner_ge [OF Cons.prems(2), of "v * b + d" ds] Cons.prems(3) by simp
  then have "to_long (int v * int b + int d) = int (v * b + d)" using to_long_nat by fastforce
  then show ?case using Cons.prems Cons.IH [of "s + 1" "v * b + d"] by (subst strtol_digits.simps) simp
qed

text \<open>\<open>strtol\<close> in base ten reads a numeral: for digits that end before the next character that is not a digit and a
  value in range, it returns the value and the address after the last digit; a minus sign in front
  negates the value.\<close>

theorem strtol_decimal:
  assumes "spells m s 10 ds" "ds \<noteq> []" "horner 10 ds 0 < 2 ^ 63"
  shows "strtol m s 10 = Some (int (horner 10 ds 0), s + length ds) \<and>
    (\<forall>p. m p = 45 \<and> s = p + 1 \<longrightarrow> strtol m p 10 = Some (- int (horner 10 ds 0), s + length ds))"
proof (intro conjI allI impI)
  have v: "strtol_digits m s 10 0 = Some (int (horner 10 ds 0), s + length ds)"
    using strtol_digits_value [OF assms(1) _ assms(3)] by simp
  obtain d where "strtol_digit (m s) = Some d" using assms(1,2) by (cases ds) auto
  then have c: "m s \<noteq> 32" "m s \<noteq> 9" "m s \<noteq> 43" "m s \<noteq> 45" by (auto simp: strtol_digit_def)
  have "skip_blanks m s = Some s" using c by (subst skip_blanks.simps) simp
  then show "strtol m s 10 = Some (int (horner 10 ds 0), s + length ds)" using v c by (simp add: strtol_def)
  fix p assume p: "m p = 45 \<and> s = p + 1"
  have "skip_blanks m p = Some p" using p by (subst skip_blanks.simps) simp
  then show "strtol m p 10 = Some (- int (horner 10 ds 0), s + length ds)"
    using v p to_long_nat(2) [OF assms(3)] by (simp add: strtol_def)
qed

definition demo_num :: memory where
  "demo_num = wr (\<lambda>_. 0) 5 [45, 52, 50]"

theorem strtol_decimal_witness: "strtol demo_num 5 10 = Some (- 42, 8)"
proof -
  have m: "demo_num 5 = 45" "demo_num 6 = 52" "demo_num 7 = 50" "demo_num 8 = 0" by (simp_all add: demo_num_def wr_def)
  have "spells demo_num 6 10 [4, 2]" by (simp add: m strtol_digit_def)
  then have "demo_num 5 = 45 \<and> 6 = 5 + (1 :: nat) \<longrightarrow> strtol demo_num 5 10 = Some (- 42, 8)"
    using strtol_decimal [of demo_num 6 "[4, 2]"] by simp
  then show ?thesis by (simp add: m)
qed

end
