(* ===== verification/Bitmap.thy ===== *)
theory Bitmap
  imports Prelude
begin

text \<open>
  The free-block bitmap of \<^verbatim>\<open>kern/fs/sfs/bitmap.c\<close>: an array of 32-bit words in which a set bit
  is a free block.

  Whether a \<^verbatim>\<open>kmalloc\<close> of \<open>bitmap_create\<close> succeeds is an argument. A write through the word pointer
  that \<^verbatim>\<open>bitmap_translate\<close> returns is an update of the list at the word's index. The abstraction
  \<open>free_bits\<close> is the set of indices whose bit is set; allocation takes its least element.
\<close>

section \<open>The routines\<close>

definition WORD_BITS :: nat where
  "WORD_BITS = 32"

record bitmap =
  nbits :: nat
  nwords :: nat
  bmap :: "u32 list"

function clear_leftover :: "nat \<Rightarrow> u32 \<Rightarrow> u32" where
  "clear_leftover overbits x =
     (if overbits < WORD_BITS then clear_leftover (Suc overbits) (x XOR push_bit overbits 1) else x)"
  by pat_completeness auto
termination clear_leftover
  by (relation "measure (\<lambda>(k, _). WORD_BITS - k)") auto

declare clear_leftover.simps [simp del]

definition bitmap_create :: "bool \<Rightarrow> bool \<Rightarrow> nat \<Rightarrow> bitmap option option" where
  "bitmap_create mem1 mem2 n = do {
     kassert (n \<noteq> 0 \<and> n + WORD_BITS > n);
     if \<not> mem1 then Some None
     else do {
       let nw = (n + WORD_BITS - 1) div WORD_BITS;
       if \<not> mem2 then Some None
       else do {
         let m = replicate nw (- 1);
         if n \<noteq> nw * WORD_BITS then do {
           let ix = nw - 1;
           let overbits = n - ix * WORD_BITS;
           kassert (n div WORD_BITS = ix);
           kassert (overbits > 0 \<and> overbits < WORD_BITS);
           Some (Some \<lparr>nbits = n, nwords = nw, bmap = m[ix := clear_leftover overbits (m ! ix)]\<rparr>)
         } else Some (Some \<lparr>nbits = n, nwords = nw, bmap = m\<rparr>)
       }
     }
   }"

text \<open>The search in a word: the first offset whose bit is set.\<close>

function find_offset :: "nat \<Rightarrow> u32 \<Rightarrow> nat option" where
  "find_offset offset x =
     (if offset < WORD_BITS
      then if x AND push_bit offset 1 \<noteq> 0 then Some offset else find_offset (Suc offset) x
      else None)"
  by pat_completeness auto
termination find_offset
  by (relation "measure (\<lambda>(k, _). WORD_BITS - k)") auto

declare find_offset.simps [simp del]

function find_word :: "nat \<Rightarrow> bitmap \<Rightarrow> (int \<times> nat \<times> bitmap) option" where
  "find_word ix b =
     (if ix < nwords b
      then if bmap b ! ix \<noteq> 0
           then (case find_offset 0 (bmap b ! ix) of
                   Some offset \<Rightarrow> Some (0, to_u32 (ix * WORD_BITS + offset),
                      b\<lparr>bmap := (bmap b)[ix := bmap b ! ix XOR push_bit offset 1]\<rparr>)
                 | None \<Rightarrow> None)
           else find_word (Suc ix) b
      else Some (- E_NO_MEM, 0, b))"
  by pat_completeness auto
termination find_word
  by (relation "measure (\<lambda>(k, b). nwords b - k)") auto

declare find_word.simps [simp del]

definition bitmap_alloc :: "bitmap \<Rightarrow> (int \<times> nat \<times> bitmap) option" where
  "bitmap_alloc b = find_word 0 b"

definition bitmap_translate :: "bitmap \<Rightarrow> nat \<Rightarrow> (nat \<times> u32) option" where
  "bitmap_translate b index = do {
     kassert (index < nbits b);
     Some (index div WORD_BITS, push_bit (index mod WORD_BITS) 1)
   }"

definition bitmap_test :: "bitmap \<Rightarrow> nat \<Rightarrow> bool option" where
  "bitmap_test b index = do {
     (ix, mask) \<leftarrow> bitmap_translate b index;
     Some (bmap b ! ix AND mask \<noteq> 0)
   }"

definition bitmap_free :: "bitmap \<Rightarrow> nat \<Rightarrow> bitmap option" where
  "bitmap_free b index = do {
     (ix, mask) \<leftarrow> bitmap_translate b index;
     kassert (bmap b ! ix AND mask = 0);
     Some (b\<lparr>bmap := (bmap b)[ix := bmap b ! ix OR mask]\<rparr>)
   }"

definition bitmap_getdata :: "bitmap \<Rightarrow> u32 list \<times> nat" where
  "bitmap_getdata b = (bmap b, 4 * nwords b)"

section \<open>The set of free indices\<close>

definition bit_at :: "bitmap \<Rightarrow> nat \<Rightarrow> bool" where
  "bit_at b i = bit (bmap b ! (i div WORD_BITS)) (i mod WORD_BITS)"

definition free_bits :: "bitmap \<Rightarrow> nat set" where
  "free_bits b = {i. i < nwords b * WORD_BITS \<and> bit_at b i}"

definition bitmap_wf :: "bitmap \<Rightarrow> bool" where
  "bitmap_wf b \<longleftrightarrow> nwords b = length (bmap b) \<and> nwords b = (nbits b + WORD_BITS - 1) div WORD_BITS \<and>
     nwords b * WORD_BITS \<le> 2 ^ 32 \<and> (\<forall>i\<in>free_bits b. i < nbits b)"

lemma WORD_BITS_pos [simp]: "0 < WORD_BITS" "WORD_BITS \<noteq> 0"
  by (simp_all add: WORD_BITS_def)

lemma mask_test:
  fixes x :: u32
  assumes "n < 32"
  shows "x AND push_bit n 1 = 0 \<longleftrightarrow> \<not> bit x n"
proof
  assume "x AND push_bit n 1 = 0"
  then have "bit (x AND push_bit n 1) n = bit (0 :: u32) n" by simp
  then show "\<not> bit x n" using assms by (simp add: bit_simps)
next
  assume "\<not> bit x n"
  then show "x AND push_bit n 1 = 0"
    by (intro bit_eqI) (auto simp: bit_simps)
qed

lemma bit_flip:
  fixes x :: u32
  assumes "n < 32"
  shows "bit (x XOR push_bit n 1) m \<longleftrightarrow> (bit x m \<noteq> (m = n))"
  using assms by (auto simp: bit_simps dest: bit_imp_le_length)

lemma bit_mark:
  fixes x :: u32
  assumes "n < 32"
  shows "bit (x OR push_bit n 1) m \<longleftrightarrow> (bit x m \<or> m = n)"
  using assms by (auto simp: bit_simps)

lemma word_nonzero_bit:
  fixes x :: u32
  assumes "x \<noteq> 0"
  shows "\<exists>n<32. bit x n"
proof (rule ccontr)
  assume "\<not> (\<exists>n<32. bit x n)"
  then have "x = 0" by (intro bit_eqI) (auto simp: bit_simps dest: bit_imp_le_length)
  then show False using assms by simp
qed

lemma index_split: "i < nwords b * WORD_BITS \<Longrightarrow> i div WORD_BITS < nwords b"
  by (simp add: less_mult_imp_div_less)

lemma index_eq_iff: "i = ix * WORD_BITS + n \<longleftrightarrow> i div WORD_BITS = ix \<and> i mod WORD_BITS = n" if "n < WORD_BITS"
  using that by auto

lemma free_bits_finite [simp]: "finite (free_bits b)"
  by (rule finite_subset [of _ "{..<nwords b * WORD_BITS}"]) (auto simp: free_bits_def)

text \<open>Replacing one bit of one word replaces one element of the set.\<close>

lemma bit_at_update:
  assumes "ix < length (bmap b)" "n < WORD_BITS" "\<And>m. bit y m \<longleftrightarrow> (if m = n then v else bit (bmap b ! ix) m)"
  shows "bit_at (b\<lparr>bmap := (bmap b)[ix := y]\<rparr>) i \<longleftrightarrow> (if i = ix * WORD_BITS + n then v else bit_at b i)"
  using assms index_eq_iff [OF assms(2), of i ix] by (auto simp: bit_at_def nth_list_update)

section \<open>Allocation\<close>

lemma find_offset_Some:
  assumes "find_offset k x = Some n"
  shows "k \<le> n \<and> n < WORD_BITS \<and> bit x n \<and> (\<forall>m. k \<le> m \<longrightarrow> m < n \<longrightarrow> \<not> bit x m)"
  using assms
proof (induction k x rule: find_offset.induct)
  case (1 k x)
  have k: "k < WORD_BITS" using "1.prems" by (subst (asm) find_offset.simps) (simp split: if_splits)
  show ?case
  proof (cases "x AND push_bit k 1 \<noteq> 0")
    case True
    then have "n = k" using "1.prems" k by (subst (asm) find_offset.simps) simp
    moreover have "bit x k" using True mask_test [of k x] k by (simp add: WORD_BITS_def)
    ultimately show ?thesis using k by auto
  next
    case False
    then have "find_offset (Suc k) x = Some n" using "1.prems" k by (subst (asm) find_offset.simps) simp
    moreover have "\<not> bit x k" using False mask_test [of k x] k by (simp add: WORD_BITS_def)
    ultimately show ?thesis using "1.IH" [OF k False] by (metis Suc_leD le_antisym not_less_eq_eq)
  qed
qed

lemma find_offset_None:
  assumes "find_offset k x = None" "k \<le> m" "m < WORD_BITS"
  shows "\<not> bit x m"
  using assms
proof (induction k x rule: find_offset.induct)
  case (1 k x)
  have k: "k < WORD_BITS" using "1.prems" by simp
  then have t: "x AND push_bit k 1 = 0" and r: "find_offset (Suc k) x = None"
    using "1.prems"(1) by (subst (asm) find_offset.simps, simp split: if_splits)+
  show ?case
  proof (cases "m = k")
    case True
    then show ?thesis using t mask_test [of k x] k by (simp add: WORD_BITS_def)
  next
    case False
    then show ?thesis using "1.IH" [OF k _ r] "1.prems" t by simp
  qed
qed

lemma free_bits_update:
  assumes wf: "bitmap_wf b" and ix: "ix < length (bmap b)" "n < WORD_BITS"
    and y: "\<And>m. bit y m \<longleftrightarrow> (if m = n then v else bit (bmap b ! ix) m)"
  shows "free_bits (b\<lparr>bmap := (bmap b)[ix := y]\<rparr>) =
    (if v then insert (ix * WORD_BITS + n) (free_bits b) else free_bits b - {ix * WORD_BITS + n})"
proof -
  have "ix * WORD_BITS + n < nwords b * WORD_BITS"
  proof -
    have "ix * WORD_BITS + n < Suc ix * WORD_BITS" using ix by simp
    also have "\<dots> \<le> nwords b * WORD_BITS" using ix wf by (intro mult_le_mono1) (simp add: bitmap_wf_def)
    finally show ?thesis .
  qed
  then show ?thesis using bit_at_update [OF ix y] by (auto simp: free_bits_def)
qed

lemma bitmap_wf_update:
  assumes "bitmap_wf b" "free_bits (b\<lparr>bmap := (bmap b)[ix := y]\<rparr>) \<subseteq> {i. i < nbits b}"
  shows "bitmap_wf (b\<lparr>bmap := (bmap b)[ix := y]\<rparr>)"
  using assms by (auto simp: bitmap_wf_def)

lemma find_word_spec:
  assumes wf: "bitmap_wf b" and low: "\<And>i. i \<in> free_bits b \<Longrightarrow> k \<le> i div WORD_BITS"
  shows "if free_bits b = {} then find_word k b = Some (- E_NO_MEM, 0, b)
    else \<exists>b'. find_word k b = Some (0, Min (free_bits b), b') \<and> bitmap_wf b' \<and>
      nbits b' = nbits b \<and> nwords b' = nwords b \<and> free_bits b' = free_bits b - {Min (free_bits b)}"
  using assms
proof (induction k b rule: find_word.induct)
  case (1 k b)
  note wf = "1.prems"(1) and low = "1.prems"(2)
  have len: "length (bmap b) = nwords b" using wf by (simp add: bitmap_wf_def)
  show ?case
  proof (cases "k < nwords b")
    case False
    have "free_bits b = {}"
      using low index_split False by (force simp: free_bits_def)
    then show ?thesis using False by (subst find_word.simps) simp
  next
    case k: True
    show ?thesis
    proof (cases "bmap b ! k = 0")
      case True
      have "Suc k \<le> i div WORD_BITS" if "i \<in> free_bits b" for i
        using low [OF that] that True by (auto simp: free_bits_def bit_at_def Suc_le_eq le_less)
      then show ?thesis using "1.IH" k True wf by (subst (1 2) find_word.simps) auto
    next
      case nz: False
      obtain m where m: "m < WORD_BITS" "bit (bmap b ! k) m"
        using word_nonzero_bit [OF nz] by (auto simp: WORD_BITS_def)
      then obtain n where n: "find_offset 0 (bmap b ! k) = Some n"
        using find_offset_None [of 0 "bmap b ! k" m] by (cases "find_offset 0 (bmap b ! k)") auto
      note fo = find_offset_Some [OF n]
      let ?i = "k * WORD_BITS + n" and ?y = "bmap b ! k XOR push_bit n 1"
      let ?b = "b\<lparr>bmap := (bmap b)[k := ?y]\<rparr>"
      have iw: "?i < nwords b * WORD_BITS"
        using fo k mult_le_mono1 [of "Suc k" "nwords b" WORD_BITS] by simp
      have di: "?i div WORD_BITS = k" "?i mod WORD_BITS = n" using fo by simp_all
      have inf: "?i \<in> free_bits b" unfolding free_bits_def bit_at_def mem_Collect_eq di using iw fo by simp
      have mn: "Min (free_bits b) = ?i"
      proof (rule Min_eqI [OF free_bits_finite _ inf])
        fix j assume j: "j \<in> free_bits b"
        show "?i \<le> j"
        proof (cases "j div WORD_BITS = k")
          case True
          have "bit (bmap b ! k) (j mod WORD_BITS)" using j True by (simp add: free_bits_def bit_at_def)
          then have "n \<le> j mod WORD_BITS" using fo by (meson le0 not_le)
          then show ?thesis using True div_mult_mod_eq [of j WORD_BITS] by simp
        next
          case False
          then have "Suc k \<le> j div WORD_BITS" using low [OF j] by simp
          then have "Suc k * WORD_BITS \<le> j" by (simp add: less_eq_div_iff_mult_less_eq)
          then show ?thesis using fo by simp
        qed
      qed
      have y: "bit ?y m = (if m = n then False else bit (bmap b ! k) m)" for m
        using bit_flip [of n "bmap b ! k" m] fo by (auto simp: WORD_BITS_def)
      have fb: "free_bits ?b = free_bits b - {?i}"
        using free_bits_update [OF wf _ _ y] k len fo by auto
      have "bitmap_wf ?b" using fb wf by (intro bitmap_wf_update) (auto simp: bitmap_wf_def)
      moreover have "?i < 2 ^ 32" using iw wf unfolding bitmap_wf_def by linarith
      then have "find_word k b = Some (0, ?i, ?b)"
        using k nz n by (subst find_word.simps) simp
      ultimately show ?thesis using inf fb mn by auto
    qed
  qed
qed

lemma bitmap_alloc_spec:
  assumes "bitmap_wf b"
  shows "if free_bits b = {} then bitmap_alloc b = Some (- E_NO_MEM, 0, b)
    else \<exists>b'. bitmap_alloc b = Some (0, Min (free_bits b), b') \<and> bitmap_wf b' \<and>
      nbits b' = nbits b \<and> nwords b' = nwords b \<and> free_bits b' = free_bits b - {Min (free_bits b)}"
  using find_word_spec [OF assms, of 0] by (simp add: bitmap_alloc_def)

section \<open>Test and free\<close>

lemma free_bits_iff:
  assumes "bitmap_wf b" "i < nbits b"
  shows "i \<in> free_bits b \<longleftrightarrow> bmap b ! (i div WORD_BITS) AND push_bit (i mod WORD_BITS) 1 \<noteq> 0"
    and "i div WORD_BITS < length (bmap b)"
proof -
  have "i < nwords b * WORD_BITS"
    using assms by (simp add: bitmap_wf_def WORD_BITS_def) linarith
  then show "i div WORD_BITS < length (bmap b)" using index_split [of i b] assms(1) by (simp add: bitmap_wf_def)
  show "i \<in> free_bits b \<longleftrightarrow> bmap b ! (i div WORD_BITS) AND push_bit (i mod WORD_BITS) 1 \<noteq> 0"
    using \<open>i < nwords b * WORD_BITS\<close> mask_test [of "i mod WORD_BITS" "bmap b ! (i div WORD_BITS)"]
    by (simp add: free_bits_def bit_at_def WORD_BITS_def)
qed

lemma bitmap_test_spec:
  assumes "bitmap_wf b"
  shows "bitmap_test b i = (if i < nbits b then Some (i \<in> free_bits b) else None)"
  using free_bits_iff(1) [OF assms] by (simp add: bitmap_test_def bitmap_translate_def)

lemma bitmap_free_spec:
  assumes wf: "bitmap_wf b"
  shows "i < nbits b \<Longrightarrow> i \<notin> free_bits b \<Longrightarrow> \<exists>b'. bitmap_free b i = Some b' \<and> bitmap_wf b' \<and>
      nbits b' = nbits b \<and> nwords b' = nwords b \<and> free_bits b' = insert i (free_bits b)"
    and "i \<in> free_bits b \<Longrightarrow> bitmap_free b i = None"
    and "\<not> i < nbits b \<Longrightarrow> bitmap_free b i = None"
proof -
  show "\<not> i < nbits b \<Longrightarrow> bitmap_free b i = None"
    by (simp add: bitmap_free_def bitmap_translate_def)
  show "i \<in> free_bits b \<Longrightarrow> bitmap_free b i = None"
    using free_bits_iff(1) [OF wf, of i] by (auto simp: bitmap_free_def bitmap_translate_def)
  assume i: "i < nbits b" "i \<notin> free_bits b"
  let ?ix = "i div WORD_BITS" and ?n = "i mod WORD_BITS"
  let ?y = "bmap b ! ?ix OR push_bit ?n 1"
  have y: "bit ?y m = (if m = ?n then True else bit (bmap b ! ?ix) m)" for m
    using bit_mark [of ?n "bmap b ! ?ix" m] by (simp add: WORD_BITS_def)
  have fb: "free_bits (b\<lparr>bmap := (bmap b)[?ix := ?y]\<rparr>) = insert i (free_bits b)"
    using free_bits_update [OF wf free_bits_iff(2) [OF wf i(1)] _ y] by simp
  have "bitmap_wf (b\<lparr>bmap := (bmap b)[?ix := ?y]\<rparr>)"
    using fb wf i by (intro bitmap_wf_update) (auto simp: bitmap_wf_def)
  then show "\<exists>b'. bitmap_free b i = Some b' \<and> bitmap_wf b' \<and>
      nbits b' = nbits b \<and> nwords b' = nwords b \<and> free_bits b' = insert i (free_bits b)"
    using fb i free_bits_iff(1) [OF wf i(1)] by (auto simp: bitmap_free_def bitmap_translate_def)
qed

section \<open>Creation\<close>

lemma bit_clear_leftover:
  "bit (clear_leftover k x) m \<longleftrightarrow> (bit x m \<noteq> (k \<le> m \<and> m < WORD_BITS))"
proof (induction k x rule: clear_leftover.induct)
  case (1 k x)
  show ?case
  proof (cases "k < WORD_BITS")
    case True
    then show ?thesis
      using 1 [OF True] bit_flip [of k x m] by (subst clear_leftover.simps) (auto simp: WORD_BITS_def)
  qed (subst clear_leftover.simps, auto)
qed

lemma bitmap_create_spec:
  assumes "0 < n" "n + 31 < 2 ^ 32"
  shows "\<exists>b. bitmap_create True True n = Some (Some b) \<and> bitmap_wf b \<and> nbits b = n \<and> free_bits b = {..<n}"
proof -
  define nw where "nw = (n + WORD_BITS - 1) div WORD_BITS"
  define m :: "u32 list" where "m = replicate nw (- 1)"
  define over where "over = n - (nw - 1) * WORD_BITS"
  define m' where "m' = (if n \<noteq> nw * WORD_BITS then m[nw - 1 := clear_leftover over (m ! (nw - 1))] else m)"
  let ?b = "\<lparr>nbits = n, nwords = nw, bmap = m'\<rparr>"
  have nw: "0 < nw" "nw * 32 < n + 32" "n \<le> nw * 32"
    using assms(1) by (simp_all add: nw_def WORD_BITS_def)
  have ne: "n div WORD_BITS = nw - 1 \<and> 0 < over \<and> over < WORD_BITS" if "n \<noteq> nw * WORD_BITS"
    using nw that unfolding over_def WORD_BITS_def by linarith
  have run: "bitmap_create True True n = Some (Some ?b)"
    using assms(1) ne unfolding m'_def
    unfolding bitmap_create_def Let_def nw_def [symmetric] m_def [symmetric] over_def [symmetric]
    by simp
  have bit: "bit_at ?b i \<longleftrightarrow> i < n" if i: "i < nw * WORD_BITS" for i
  proof -
    have d: "i div WORD_BITS < nw" "i mod WORD_BITS < 32"
      using i by (simp_all add: less_mult_imp_div_less WORD_BITS_def)
    then have "m ! (i div WORD_BITS) = - 1" by (simp add: m_def)
    moreover have "length m = nw" by (simp add: m_def)
    moreover have last: "over \<le> i mod WORD_BITS \<longleftrightarrow> n \<le> i" if "i div WORD_BITS = nw - 1"
    proof -
      have "i = (nw - 1) * WORD_BITS + i mod WORD_BITS" using that by (metis div_mult_mod_eq)
      moreover have "(nw - 1) * WORD_BITS \<le> n" using nw by (simp add: WORD_BITS_def)
      ultimately show ?thesis unfolding over_def by linarith
    qed
    ultimately show ?thesis
      using d ne nw i unfolding bit_at_def m'_def
      by (cases "i div WORD_BITS = nw - 1") (auto simp: nth_list_update bit_clear_leftover WORD_BITS_def m_def)
  qed
  have fb: "free_bits ?b = {..<n}"
    using bit nw by (auto simp: free_bits_def WORD_BITS_def)
  have "bitmap_wf ?b"
    using fb nw assms(2) by (auto simp: bitmap_wf_def nw_def m'_def m_def WORD_BITS_def)
  then show ?thesis using run fb by auto
qed

section \<open>The allocator\<close>

text \<open>\<open>bitmap_alloc\<close> on a well-formed bitmap always returns: with no free index it reports
  \<open>E_NO_MEM\<close> and changes nothing; otherwise it returns the least free index, which is then no longer
  free, while every other index keeps its state.\<close>

theorem bitmap_alloc_least:
  assumes "bitmap_wf b"
  shows "if free_bits b = {} then bitmap_alloc b = Some (- E_NO_MEM, 0, b)
    else \<exists>b'. bitmap_alloc b = Some (0, Min (free_bits b), b') \<and> bitmap_wf b' \<and>
      nbits b' = nbits b \<and> free_bits b' = free_bits b - {Min (free_bits b)}"
  using bitmap_alloc_spec [OF assms] by (auto split: if_splits)

theorem bitmap_alloc_least_witness:
  "\<exists>b b'. bitmap_create True True 3 = Some (Some b) \<and> bitmap_alloc b = Some (0, 0, b') \<and> free_bits b' = {1, 2}"
proof -
  obtain b where b: "bitmap_create True True 3 = Some (Some b)" "bitmap_wf b" "free_bits b = {..<3}"
    using bitmap_create_spec [of 3] by auto
  have f: "{..<3} = {0, 1, 2 :: nat}" by auto
  then have "free_bits b \<noteq> {}" "Min (free_bits b) = 0" "free_bits b - {0} = {1, 2}" using b(3) by auto
  then show ?thesis using bitmap_alloc_least [OF b(2)] b(1) by auto
qed

text \<open>A bitmap of \<open>n\<close> bits starts with exactly the indices below \<open>n\<close> free, the leftover bits of the
  last word not among them; \<open>bitmap_test\<close> reads that set; an index allocated by \<open>bitmap_alloc\<close> can be
  given back by \<open>bitmap_free\<close>, which restores the set; and freeing an index that is free already stops
  the kernel.\<close>

theorem bitmap_lifecycle:
  assumes "0 < n" "n + 31 < 2 ^ 32"
  shows "\<exists>b i b1 b2. bitmap_create True True n = Some (Some b) \<and> free_bits b = {..<n} \<and>
    (\<forall>j<n. bitmap_test b j = Some True) \<and> bitmap_free b 0 = None \<and>
    bitmap_alloc b = Some (0, i, b1) \<and> bitmap_test b1 i = Some False \<and>
    bitmap_free b1 i = Some b2 \<and> free_bits b2 = free_bits b"
proof -
  obtain b where b: "bitmap_create True True n = Some (Some b)" "bitmap_wf b" "nbits b = n" "free_bits b = {..<n}"
    using bitmap_create_spec [OF assms] by auto
  have ne: "free_bits b \<noteq> {}" and z: "0 \<in> free_bits b" using assms(1) b(4) by auto
  obtain b1 where b1: "bitmap_alloc b = Some (0, Min (free_bits b), b1)" "bitmap_wf b1" "nbits b1 = n"
    "free_bits b1 = free_bits b - {Min (free_bits b)}"
    using bitmap_alloc_spec [OF b(2)] ne b(3) by auto
  have mi: "Min (free_bits b) < n" "Min (free_bits b) \<in> free_bits b"
    using Min_in [OF free_bits_finite ne] b(4) by auto
  then obtain b2 where "bitmap_free b1 (Min (free_bits b)) = Some b2"
    "free_bits b2 = insert (Min (free_bits b)) (free_bits b1)"
    using bitmap_free_spec(1) [OF b1(2), of "Min (free_bits b)"] b1 by auto
  moreover have "\<forall>j<n. bitmap_test b j = Some True" using bitmap_test_spec [OF b(2)] b(3,4) by simp
  moreover have "bitmap_test b1 (Min (free_bits b)) = Some False"
    using bitmap_test_spec [OF b1(2)] b1(3,4) mi(1) by simp
  moreover have "insert (Min (free_bits b)) (free_bits b1) = free_bits b" using b1(4) mi(2) by blast
  ultimately show ?thesis
    using b(1,4) b1(1) bitmap_free_spec(2) [OF b(2) z] by metis
qed

theorem bitmap_lifecycle_witness:
  "\<exists>b i b1 b2. bitmap_create True True 40 = Some (Some b) \<and> free_bits b = {..<40} \<and>
    (\<forall>j<40. bitmap_test b j = Some True) \<and> bitmap_free b 0 = None \<and>
    bitmap_alloc b = Some (0, i, b1) \<and> bitmap_test b1 i = Some False \<and>
    bitmap_free b1 i = Some b2 \<and> free_bits b2 = free_bits b"
  by (rule bitmap_lifecycle) simp_all

end
