(* ===== verification/Sfs_Io.thy ===== *)
theory Sfs_Io
  imports Block_Dev Bitmap
begin

text \<open>
  The block-level I/O of the simple file system, \<^verbatim>\<open>kern/fs/sfs/sfs_io.c\<close>, over the disk device.

  The record \<open>sfs_fs\<close> holds the in-memory file system: superblock, free map, device and the buffer for
  partial blocks. A buffer argument is the list of its bytes and comes back in the result. The
  locks of \<^verbatim>\<open>sfs_lock.c\<close> are not modelled: a routine between lock and unlock is one step. The lemmas
  say what each routine does to the disk image, with \<open>io_step s f s'\<close> for "\<open>s'\<close> is \<open>s\<close> with the disk
  image \<open>f\<close>", which hides the contents of the two bounce buffers.
\<close>

section \<open>Data\<close>

definition SFS_MAGIC :: u32 where "SFS_MAGIC = 0x2f8dbe2a"
definition SFS_BLKSIZE :: nat where "SFS_BLKSIZE = 4096"
definition SFS_BLKN_SUPER :: nat where "SFS_BLKN_SUPER = 0"
definition SFS_BLKN_ROOT :: nat where "SFS_BLKN_ROOT = 1"
definition SFS_BLKN_FREEMAP :: nat where "SFS_BLKN_FREEMAP = 2"
definition SFS_BLKBITS :: nat where "SFS_BLKBITS = SFS_BLKSIZE * 8"

record sfs_super =
  s_magic :: u32
  s_blocks :: nat
  s_unused_blocks :: nat
  s_info :: "u8 list"

record sfs_fs =
  super :: sfs_super
  dev :: disk0
  freemap :: bitmap
  super_dirty :: bool
  sfs_buffer :: "u8 list"

lemma SFS_BLKSIZE_pos [simp]: "0 < SFS_BLKSIZE" "SFS_BLKSIZE \<noteq> 0"
  by (simp_all add: SFS_BLKSIZE_def)

section \<open>Little-endian words\<close>

definition le32 :: "u32 \<Rightarrow> u8 list" where
  "le32 x = [ucast x, ucast (drop_bit 8 x), ucast (drop_bit 16 x), ucast (drop_bit 24 x)]"

definition of_le32 :: "u8 list \<Rightarrow> u32" where
  "of_le32 bs = ucast (bs ! 0) OR push_bit 8 (ucast (bs ! 1)) OR push_bit 16 (ucast (bs ! 2)) OR
     push_bit 24 (ucast (bs ! 3))"

lemma length_le32 [simp]: "length (le32 x) = 4"
  by (simp add: le32_def)

lemma of_le32_le32 [simp]: "of_le32 (le32 x) = x"
proof (rule bit_word_eqI)
  fix n assume n: "n < LENGTH(32)"
  then have "n < 8 \<or> 8 \<le> n \<and> n < 16 \<or> 16 \<le> n \<and> n < 24 \<or> 24 \<le> n \<and> n < 32" by auto
  then show "bit (of_le32 (le32 x)) n = bit x n"
    by (elim disjE conjE)
      (simp_all add: of_le32_def le32_def bit_or_iff bit_push_bit_iff bit_ucast_iff bit_drop_bit_eq, auto)
qed

definition super_bytes :: "sfs_super \<Rightarrow> u8 list" where
  "super_bytes p = le32 (s_magic p) @ le32 (of_nat (s_blocks p)) @ le32 (of_nat (s_unused_blocks p)) @ s_info p"

section \<open>The routines\<close>

definition sfs_rwblock_nolock ::
  "u8 list \<Rightarrow> nat \<Rightarrow> bool \<Rightarrow> bool \<Rightarrow> 'a sfs_fs_scheme \<Rightarrow> (int \<times> u8 list \<times> 'a sfs_fs_scheme) option" where
  "sfs_rwblock_nolock buf blkno write check s = do {
     kassert ((blkno \<noteq> 0 \<or> \<not> check) \<and> blkno < s_blocks (super s));
     let iob = iobuf_init buf SFS_BLKSIZE (int (to_u32 (blkno * SFS_BLKSIZE)));
     (ret, iob, d) \<leftarrow> disk0_io iob write (dev s);
     Some (ret, io_mem iob, s\<lparr>dev := d\<rparr>)
   }"

fun sfs_rwblock_loop ::
  "bool \<Rightarrow> nat \<Rightarrow> nat \<Rightarrow> nat \<Rightarrow> u8 list \<Rightarrow> 'a sfs_fs_scheme \<Rightarrow> (int \<times> u8 list \<times> 'a sfs_fs_scheme) option" where
  "sfs_rwblock_loop write 0 blkno pos buf s = Some (0, buf, s)"
| "sfs_rwblock_loop write (Suc nblks) blkno pos buf s = do {
     (ret, blk, s) \<leftarrow> sfs_rwblock_nolock (take SFS_BLKSIZE (drop pos buf)) blkno write True s;
     let buf = put_bytes buf pos blk;
     if ret \<noteq> 0 then Some (ret, buf, s)
     else sfs_rwblock_loop write nblks (to_u32 (blkno + 1)) (pos + SFS_BLKSIZE) buf s
   }"

definition sfs_rwblock ::
  "u8 list \<Rightarrow> nat \<Rightarrow> nat \<Rightarrow> bool \<Rightarrow> 'a sfs_fs_scheme \<Rightarrow> (int \<times> u8 list \<times> 'a sfs_fs_scheme) option" where
  "sfs_rwblock buf blkno nblks write s = sfs_rwblock_loop write nblks blkno 0 buf s"

definition sfs_rblock ::
  "u8 list \<Rightarrow> nat \<Rightarrow> nat \<Rightarrow> 'a sfs_fs_scheme \<Rightarrow> (int \<times> u8 list \<times> 'a sfs_fs_scheme) option" where
  "sfs_rblock buf blkno nblks s = sfs_rwblock buf blkno nblks False s"

definition sfs_wblock ::
  "u8 list \<Rightarrow> nat \<Rightarrow> nat \<Rightarrow> 'a sfs_fs_scheme \<Rightarrow> (int \<times> u8 list \<times> 'a sfs_fs_scheme) option" where
  "sfs_wblock buf blkno nblks s = sfs_rwblock buf blkno nblks True s"

definition sfs_rbuf ::
  "u8 list \<Rightarrow> nat \<Rightarrow> nat \<Rightarrow> int \<Rightarrow> 'a sfs_fs_scheme \<Rightarrow> (int \<times> u8 list \<times> 'a sfs_fs_scheme) option" where
  "sfs_rbuf buf len blkno offset s = do {
     kassert (offset \<ge> 0 \<and> offset < int SFS_BLKSIZE \<and> offset + int len \<le> int SFS_BLKSIZE);
     (ret, b, s) \<leftarrow> sfs_rwblock_nolock (sfs_buffer s) blkno False True s;
     let s = s\<lparr>sfs_buffer := b\<rparr>;
     if ret = 0 then Some (ret, put_bytes buf 0 (take len (drop (nat offset) (sfs_buffer s))), s)
     else Some (ret, buf, s)
   }"

definition sfs_wbuf ::
  "u8 list \<Rightarrow> nat \<Rightarrow> nat \<Rightarrow> int \<Rightarrow> 'a sfs_fs_scheme \<Rightarrow> (int \<times> u8 list \<times> 'a sfs_fs_scheme) option" where
  "sfs_wbuf buf len blkno offset s = do {
     kassert (offset \<ge> 0 \<and> offset < int SFS_BLKSIZE \<and> offset + int len \<le> int SFS_BLKSIZE);
     (ret, b, s) \<leftarrow> sfs_rwblock_nolock (sfs_buffer s) blkno False True s;
     let s = s\<lparr>sfs_buffer := b\<rparr>;
     if ret = 0 then do {
       let s = s\<lparr>sfs_buffer := put_bytes (sfs_buffer s) (nat offset) (take len buf)\<rparr>;
       (ret, b, s) \<leftarrow> sfs_rwblock_nolock (sfs_buffer s) blkno True True s;
       Some (ret, buf, s\<lparr>sfs_buffer := b\<rparr>)
     } else Some (ret, buf, s)
   }"

definition sfs_sync_super :: "'a sfs_fs_scheme \<Rightarrow> (int \<times> 'a sfs_fs_scheme) option" where
  "sfs_sync_super s = do {
     let s = s\<lparr>sfs_buffer := replicate SFS_BLKSIZE 0\<rparr>;
     let s = s\<lparr>sfs_buffer := put_bytes (sfs_buffer s) 0 (super_bytes (super s))\<rparr>;
     (ret, b, s) \<leftarrow> sfs_rwblock_nolock (sfs_buffer s) SFS_BLKN_SUPER True False s;
     Some (ret, s\<lparr>sfs_buffer := b\<rparr>)
   }"

definition freemap_bytes :: "bitmap \<Rightarrow> u8 list" where
  "freemap_bytes b = concat (map le32 (fst (bitmap_getdata b)))"

definition sfs_freemap_blocks :: "sfs_super \<Rightarrow> nat" where
  "sfs_freemap_blocks p = (s_blocks p + SFS_BLKBITS - 1) div SFS_BLKBITS"

definition sfs_freemap_bits :: "sfs_super \<Rightarrow> nat" where
  "sfs_freemap_bits p = (s_blocks p + SFS_BLKBITS - 1) - (s_blocks p + SFS_BLKBITS - 1) mod SFS_BLKBITS"

definition sfs_sync_freemap :: "'a sfs_fs_scheme \<Rightarrow> (int \<times> 'a sfs_fs_scheme) option" where
  "sfs_sync_freemap s = do {
     let nblks = sfs_freemap_blocks (super s);
     (ret, _, s) \<leftarrow> sfs_wblock (freemap_bytes (freemap s)) SFS_BLKN_FREEMAP nblks s;
     Some (ret, s)
   }"

text \<open>The loop of \<open>sfs_clear_block\<close>; with no block to clear the routine returns an uninitialised value,
  which is not a value of the model.\<close>

fun sfs_clear_loop :: "nat \<Rightarrow> nat \<Rightarrow> 'a sfs_fs_scheme \<Rightarrow> (int \<times> 'a sfs_fs_scheme) option" where
  "sfs_clear_loop blkno 0 s = None"
| "sfs_clear_loop blkno (Suc nblks) s = do {
     (ret, b, s) \<leftarrow> sfs_rwblock_nolock (sfs_buffer s) blkno True True s;
     let s = s\<lparr>sfs_buffer := b\<rparr>;
     if ret \<noteq> 0 then Some (ret, s)
     else if nblks = 0 then Some (ret, s)
     else sfs_clear_loop (to_u32 (blkno + 1)) nblks s
   }"

definition sfs_clear_block :: "nat \<Rightarrow> nat \<Rightarrow> 'a sfs_fs_scheme \<Rightarrow> (int \<times> 'a sfs_fs_scheme) option" where
  "sfs_clear_block blkno nblks s = sfs_clear_loop blkno nblks (s\<lparr>sfs_buffer := replicate SFS_BLKSIZE 0\<rparr>)"

section \<open>What they do to the disk image\<close>

definition sfs_ok :: "'a sfs_fs_scheme \<Rightarrow> bool" where
  "sfs_ok s \<longleftrightarrow> disk0_wf (dev s) \<and> s_blocks (super s) \<le> d_blocks (dev s) \<and> s_blocks (super s) \<le> 2 ^ 20 \<and>
     length (sfs_buffer s) = SFS_BLKSIZE"

abbreviation img :: "'a sfs_fs_scheme \<Rightarrow> image" where
  "img s \<equiv> disk_img (dev s)"

definition io_step :: "'a sfs_fs_scheme \<Rightarrow> image \<Rightarrow> 'a sfs_fs_scheme \<Rightarrow> bool" where
  "io_step s f s' \<longleftrightarrow> sfs_ok s' \<and> img s' = f \<and> super s' = super s \<and> freemap s' = freemap s \<and>
     super_dirty s' = super_dirty s \<and> sfs_fs.more s' = sfs_fs.more s"

lemma blk_sizes: "SFS_BLKSIZE = DISK0_BLKSIZE"
  by (simp add: SFS_BLKSIZE_def DISK0_BLKSIZE_def)

lemma io_step_trans: "io_step s f s1 \<Longrightarrow> io_step s1 g s2 \<Longrightarrow> io_step s g s2"
  by (auto simp: io_step_def)

lemma rwblock_nolock_step:
  assumes ok: "sfs_ok s" and b: "b < s_blocks (super s)" "b \<noteq> 0 \<or> \<not> c" and l: "length buf = SFS_BLKSIZE"
  shows "\<exists>s'. sfs_rwblock_nolock buf b False c s = Some (0, rd (img s) (b * SFS_BLKSIZE) SFS_BLKSIZE, s') \<and>
      io_step s (img s) s' \<and> sfs_buffer s' = sfs_buffer s"
    and "\<exists>s'. sfs_rwblock_nolock buf b True c s = Some (0, buf, s') \<and>
      io_step s (wr (img s) (b * SFS_BLKSIZE) buf) s' \<and> sfs_buffer s' = sfs_buffer s"
proof -
  have wf: "disk0_wf (dev s)" and bd: "b + 1 \<le> d_blocks (dev s)" using ok b by (auto simp: sfs_ok_def)
  have u: "to_u32 (b * DISK0_BLKSIZE) = b * DISK0_BLKSIZE"
    using ok b by (simp add: sfs_ok_def DISK0_BLKSIZE_def)
  note t = disk0_transfer [OF wf bd zero_less_one, of buf, simplified mult_1_left]
  obtain i1 d1 where "disk0_io (iobuf_init buf DISK0_BLKSIZE (int (b * DISK0_BLKSIZE))) False (dev s) = Some (0, i1, d1)"
    "io_mem i1 = rd (img s) (b * DISK0_BLKSIZE) DISK0_BLKSIZE" "disk0_wf d1" "disk_img d1 = img s"
    "d_blocks d1 = d_blocks (dev s)"
    using t(1) l by (auto simp: blk_sizes)
  then show "\<exists>s'. sfs_rwblock_nolock buf b False c s = Some (0, rd (img s) (b * SFS_BLKSIZE) SFS_BLKSIZE, s') \<and>
      io_step s (img s) s' \<and> sfs_buffer s' = sfs_buffer s"
    using b ok by (auto simp: sfs_rwblock_nolock_def io_step_def sfs_ok_def u blk_sizes)
  obtain i2 d2 where "disk0_io (iobuf_init buf DISK0_BLKSIZE (int (b * DISK0_BLKSIZE))) True (dev s) = Some (0, i2, d2)"
    "disk_img d2 = wr (img s) (b * DISK0_BLKSIZE) buf" "disk0_wf d2" "d_blocks d2 = d_blocks (dev s)" "io_mem i2 = buf"
    using t(2) l by (auto simp: blk_sizes)
  then show "\<exists>s'. sfs_rwblock_nolock buf b True c s = Some (0, buf, s') \<and>
      io_step s (wr (img s) (b * SFS_BLKSIZE) buf) s' \<and> sfs_buffer s' = sfs_buffer s"
    using b ok by (auto simp: sfs_rwblock_nolock_def io_step_def sfs_ok_def u blk_sizes)
qed

lemma io_step_buffer:
  "io_step s f s' \<Longrightarrow> length b = SFS_BLKSIZE \<Longrightarrow> io_step s f (s'\<lparr>sfs_buffer := b\<rparr>)"
  by (auto simp: io_step_def sfs_ok_def)

lemma rbuf_step:
  assumes ok: "sfs_ok s" and b: "b < s_blocks (super s)" "b \<noteq> 0" and o: "o' < SFS_BLKSIZE" "o' + len \<le> SFS_BLKSIZE"
  shows "\<exists>s'. sfs_rbuf buf len b (int o') s = Some (0, put_bytes buf 0 (rd (img s) (b * SFS_BLKSIZE + o') len), s') \<and>
    io_step s (img s) s'"
proof -
  have lb: "length (sfs_buffer s) = SFS_BLKSIZE" using ok by (simp add: sfs_ok_def)
  obtain s1 where s1: "sfs_rwblock_nolock (sfs_buffer s) b False True s =
      Some (0, rd (img s) (b * SFS_BLKSIZE) SFS_BLKSIZE, s1)" "io_step s (img s) s1"
    using rwblock_nolock_step(1) [OF ok b(1) disjI1 [OF b(2)] lb] by blast
  have i: "0 \<le> int o' \<and> int o' < int SFS_BLKSIZE \<and> int o' + int len \<le> int SFS_BLKSIZE" using o by linarith
  have "take len (drop o' (rd (img s) (b * SFS_BLKSIZE) SFS_BLKSIZE)) = rd (img s) (b * SFS_BLKSIZE + o') len"
    by (rule rd_sub) (use o in simp)
  then show ?thesis
    using s1 i io_step_buffer [OF s1(2), of "rd (img s) (b * SFS_BLKSIZE) SFS_BLKSIZE"]
    by (simp add: sfs_rbuf_def)
qed

lemma wr_put_block:
  assumes "k + length bs \<le> n"
  shows "wr d a (put_bytes (rd d a n) k bs) = wr d (a + k) bs"
proof (rule ext)
  fix x
  have l: "length (put_bytes (rd d a n) k bs) = n" using assms by simp
  show "wr d a (put_bytes (rd d a n) k bs) x = wr d (a + k) bs x"
  proof (cases "a \<le> x \<and> x < a + n")
    case True
    then show ?thesis using assms l
      by (cases "x - a < k"; cases "x - a < k + length bs") (auto simp: wr_def put_bytes_def nth_append)
  next
    case False
    then show ?thesis using assms l by (auto simp: wr_def)
  qed
qed

lemma wbuf_step:
  assumes ok: "sfs_ok s" and b: "b < s_blocks (super s)" "b \<noteq> 0" and o: "o' < SFS_BLKSIZE" "o' + len \<le> SFS_BLKSIZE"
    and l: "len \<le> length buf"
  shows "\<exists>s'. sfs_wbuf buf len b (int o') s = Some (0, buf, s') \<and>
    io_step s (wr (img s) (b * SFS_BLKSIZE + o') (take len buf)) s'"
proof -
  have lb: "length (sfs_buffer s) = SFS_BLKSIZE" using ok by (simp add: sfs_ok_def)
  let ?blk = "rd (img s) (b * SFS_BLKSIZE) SFS_BLKSIZE"
  let ?new = "put_bytes ?blk o' (take len buf)"
  obtain s1 where s1: "sfs_rwblock_nolock (sfs_buffer s) b False True s = Some (0, ?blk, s1)" "io_step s (img s) s1"
    using rwblock_nolock_step(1) [OF ok b(1) disjI1 [OF b(2)] lb] by blast
  define s2 where "s2 = s1\<lparr>sfs_buffer := ?new\<rparr>"
  have ln: "length ?new = SFS_BLKSIZE" using o l by simp
  have st2: "io_step s (img s) s2" unfolding s2_def by (rule io_step_buffer [OF s1(2) ln])
  then have ok2: "sfs_ok s2" and b2: "b < s_blocks (super s2)" and i2: "img s2 = img s"
    using b by (simp_all add: io_step_def)
  obtain s3 where s3: "sfs_rwblock_nolock ?new b True True s2 = Some (0, ?new, s3)"
    "io_step s2 (wr (img s2) (b * SFS_BLKSIZE) ?new) s3"
    using rwblock_nolock_step(2) [OF ok2 b2 disjI1 [OF b(2)] ln] by blast
  have i: "0 \<le> int o' \<and> int o' < int SFS_BLKSIZE \<and> int o' + int len \<le> int SFS_BLKSIZE" using o by linarith
  have "wr (img s2) (b * SFS_BLKSIZE) ?new = wr (img s) (b * SFS_BLKSIZE + o') (take len buf)"
    unfolding i2 by (rule wr_put_block) (use o l in simp)
  then have "io_step s (wr (img s) (b * SFS_BLKSIZE + o') (take len buf)) (s3\<lparr>sfs_buffer := ?new\<rparr>)"
    using io_step_trans [OF st2 s3(2)] ln by (simp add: io_step_buffer)
  then show ?thesis using s1(1) s3(1) i by (simp add: sfs_wbuf_def s2_def Let_def)
qed

lemma clear_block_step:
  assumes ok: "sfs_ok s" and b: "b < s_blocks (super s)" "b \<noteq> 0"
  shows "\<exists>s'. sfs_clear_block b 1 s = Some (0, s') \<and>
    io_step s (wr (img s) (b * SFS_BLKSIZE) (replicate SFS_BLKSIZE 0)) s'"
proof -
  let ?z = "replicate SFS_BLKSIZE 0 :: u8 list"
  let ?s = "s\<lparr>sfs_buffer := ?z\<rparr>"
  have st: "io_step s (img s) ?s" using ok by (simp add: io_step_def sfs_ok_def)
  have ok1: "sfs_ok ?s" and b1: "b < s_blocks (super ?s)" using st b by (simp_all add: io_step_def)
  obtain s1 where s1: "sfs_rwblock_nolock ?z b True True ?s = Some (0, ?z, s1)"
    "io_step ?s (wr (img ?s) (b * SFS_BLKSIZE) ?z) s1"
    using rwblock_nolock_step(2) [OF ok1 b1 disjI1 [OF b(2)], of ?z] by auto
  have "io_step s (wr (img s) (b * SFS_BLKSIZE) ?z) (s1\<lparr>sfs_buffer := ?z\<rparr>)"
    using io_step_trans [OF st s1(2)] by (simp add: io_step_buffer)
  moreover have "sfs_clear_block b 1 s = Some (0, s1\<lparr>sfs_buffer := ?z\<rparr>)"
    using s1(1) by (simp add: sfs_clear_block_def)
  ultimately show ?thesis by blast
qed

lemma rblock1_step:
  assumes ok: "sfs_ok s" and b: "b < s_blocks (super s)" "b \<noteq> 0" and l: "length buf = SFS_BLKSIZE"
  shows "\<exists>s'. sfs_rblock buf b 1 s = Some (0, rd (img s) (b * SFS_BLKSIZE) SFS_BLKSIZE, s') \<and> io_step s (img s) s'"
proof -
  obtain s' where "sfs_rwblock_nolock buf b False True s = Some (0, rd (img s) (b * SFS_BLKSIZE) SFS_BLKSIZE, s')"
    "io_step s (img s) s'"
    using rwblock_nolock_step(1) [OF ok b(1) disjI1 [OF b(2)] l] by blast
  then show ?thesis using l by (simp add: sfs_rblock_def sfs_rwblock_def put_bytes_whole Let_def)
qed

lemma wblock1_step:
  assumes ok: "sfs_ok s" and b: "b < s_blocks (super s)" "b \<noteq> 0" and l: "length buf = SFS_BLKSIZE"
  shows "\<exists>s'. sfs_wblock buf b 1 s = Some (0, buf, s') \<and> io_step s (wr (img s) (b * SFS_BLKSIZE) buf) s'"
proof -
  obtain s' where "sfs_rwblock_nolock buf b True True s = Some (0, buf, s')"
    "io_step s (wr (img s) (b * SFS_BLKSIZE) buf) s'"
    using rwblock_nolock_step(2) [OF ok b(1) disjI1 [OF b(2)] l] by blast
  then show ?thesis using l by (simp add: sfs_wblock_def sfs_rwblock_def put_bytes_whole Let_def)
qed

end
