(* ===== verification/Sfs_Inode.thy ===== *)
theory Sfs_Inode
  imports Sfs_Io
begin

text \<open>
  Files of the simple file system, \<^verbatim>\<open>kern/fs/sfs/sfs_inode.c\<close>: allocation of disk blocks, the map from
  file blocks to disk blocks (twelve direct entries and one indirect block), reading and writing,
  truncation and directory search.

  An in-memory inode is a record that the routines take and return; its lock is not modelled. A store
  through a pointer argument is a component of the result. The abstraction of an inode is the
  function \<open>blk\<close> from file blocks to disk blocks, and \<open>file_byte\<close> reads a byte of the file through it.
\<close>

section \<open>Inodes\<close>

text \<open>A file offset is a signed 64-bit number; a sum that leaves its range wraps around.\<close>

definition to_off :: "int \<Rightarrow> int" where
  "to_off x = (x + 2 ^ 63) mod 2 ^ 64 - 2 ^ 63"

lemma to_off_id [simp]: "- (2 ^ 63) \<le> x \<Longrightarrow> x < 2 ^ 63 \<Longrightarrow> to_off x = x"
  by (simp add: to_off_def)

definition SFS_NDIRECT :: nat where "SFS_NDIRECT = 12"
definition SFS_MAX_FNAME_LEN :: nat where "SFS_MAX_FNAME_LEN = 255"
definition SFS_MAX_FILE_SIZE :: nat where "SFS_MAX_FILE_SIZE = 1024 * 1024 * 128"
definition SFS_BLK_NENTRY :: nat where "SFS_BLK_NENTRY = SFS_BLKSIZE div 4"
definition SFS_TYPE_FILE :: nat where "SFS_TYPE_FILE = 1"
definition SFS_TYPE_DIR :: nat where "SFS_TYPE_DIR = 2"
definition SFS_TYPE_LINK :: nat where "SFS_TYPE_LINK = 3"

record sfs_disk_inode =
  di_size :: nat
  di_type :: nat
  di_nlinks :: nat
  di_blocks :: nat
  di_direct :: "nat list"
  di_indirect :: nat

record sfs_inode =
  din :: sfs_disk_inode
  si_ino :: nat
  si_dirty :: bool
  reclaim_count :: int

section \<open>Disk blocks\<close>

definition sfs_block_inuse :: "nat \<Rightarrow> 'a sfs_fs_scheme \<Rightarrow> bool option" where
  "sfs_block_inuse ino s =
     (if ino \<noteq> 0 \<and> ino < s_blocks (super s)
      then do { b \<leftarrow> bitmap_test (freemap s) ino; Some (\<not> b) }
      else panic)"

definition sfs_block_alloc :: "'a sfs_fs_scheme \<Rightarrow> (int \<times> nat \<times> 'a sfs_fs_scheme) option" where
  "sfs_block_alloc s = do {
     (ret, ino, b) \<leftarrow> bitmap_alloc (freemap s);
     let s = s\<lparr>freemap := b\<rparr>;
     if ret \<noteq> 0 then Some (ret, 0, s)
     else do {
       kassert (s_unused_blocks (super s) > 0);
       let s = s\<lparr>super := (super s)\<lparr>s_unused_blocks := s_unused_blocks (super s) - 1\<rparr>, super_dirty := True\<rparr>;
       u \<leftarrow> sfs_block_inuse ino s;
       kassert u;
       (ret, s) \<leftarrow> sfs_clear_block ino 1 s;
       Some (ret, ino, s)
     }
   }"

definition sfs_block_free :: "nat \<Rightarrow> 'a sfs_fs_scheme \<Rightarrow> 'a sfs_fs_scheme option" where
  "sfs_block_free ino s = do {
     u \<leftarrow> sfs_block_inuse ino s;
     kassert u;
     b \<leftarrow> bitmap_free (freemap s) ino;
     Some (s\<lparr>freemap := b,
       super := (super s)\<lparr>s_unused_blocks := to_u32 (s_unused_blocks (super s) + 1)\<rparr>, super_dirty := True\<rparr>)
   }"

section \<open>The block map of a file\<close>

text \<open>The entry with this index of an indirect block: the result is the return value, the block number and
  the entry block, new if it had to be allocated.\<close>

definition sfs_bmap_get_sub_nolock ::
  "nat \<Rightarrow> nat \<Rightarrow> bool \<Rightarrow> 'a sfs_fs_scheme \<Rightarrow> (int \<times> nat \<times> nat \<times> 'a sfs_fs_scheme) option" where
  "sfs_bmap_get_sub_nolock entp index create s = do {
     kassert (index < SFS_BLK_NENTRY);
     let offset = int (index * 4);
     if entp \<noteq> 0 then do {
       (ret, b, s) \<leftarrow> sfs_rbuf (le32 0) 4 entp offset s;
       let ino = unat (of_le32 b);
       if ret \<noteq> 0 then Some (ret, 0, entp, s)
       else if ino \<noteq> 0 \<or> \<not> create then Some (0, ino, entp, s)
       else do {
         (ret, ino, s) \<leftarrow> sfs_block_alloc s;
         if ret \<noteq> 0 then Some (ret, 0, entp, s)
         else do {
           (ret, _, s) \<leftarrow> sfs_wbuf (le32 (of_nat ino)) 4 entp offset s;
           if ret \<noteq> 0 then do { s \<leftarrow> sfs_block_free ino s; Some (ret, 0, entp, s) }
           else Some (0, ino, entp, s)
         }
       }
     } else if \<not> create then Some (0, 0, entp, s)
     else do {
       (ret, ent, s) \<leftarrow> sfs_block_alloc s;
       if ret \<noteq> 0 then Some (ret, 0, entp, s)
       else do {
         (ret, ino, s) \<leftarrow> sfs_block_alloc s;
         if ret \<noteq> 0 then do {
           s \<leftarrow> (if ent \<noteq> entp then sfs_block_free ent s else Some s);
           Some (ret, 0, entp, s)
         } else do {
           (ret, _, s) \<leftarrow> sfs_wbuf (le32 (of_nat ino)) 4 ent offset s;
           if ret \<noteq> 0 then do {
             s \<leftarrow> sfs_block_free ino s;
             s \<leftarrow> (if ent \<noteq> entp then sfs_block_free ent s else Some s);
             Some (ret, 0, entp, s)
           } else Some (0, ino, ent, s)
         }
       }
     }
   }"

text \<open>The check at the label \<open>out\<close>.\<close>

definition bmap_out ::
  "nat \<Rightarrow> sfs_inode \<Rightarrow> 'a sfs_fs_scheme \<Rightarrow> (int \<times> nat \<times> sfs_inode \<times> 'a sfs_fs_scheme) option" where
  "bmap_out ino sin s = do {
     u \<leftarrow> (if ino = 0 then Some True else sfs_block_inuse ino s);
     kassert u;
     Some (0, ino, sin, s)
   }"

definition sfs_bmap_get_nolock ::
  "nat \<Rightarrow> bool \<Rightarrow> sfs_inode \<Rightarrow> 'a sfs_fs_scheme \<Rightarrow> (int \<times> nat \<times> sfs_inode \<times> 'a sfs_fs_scheme) option" where
  "sfs_bmap_get_nolock index create sin s =
     (if index < SFS_NDIRECT then
        let ino = di_direct (din sin) ! index
        in if ino = 0 \<and> create then do {
             (ret, ino, s) \<leftarrow> sfs_block_alloc s;
             if ret \<noteq> 0 then Some (ret, 0, sin, s)
             else bmap_out ino
               (sin\<lparr>din := (din sin)\<lparr>di_direct := (di_direct (din sin))[index := ino]\<rparr>, si_dirty := True\<rparr>) s
           } else bmap_out ino sin s
      else if index - SFS_NDIRECT < SFS_BLK_NENTRY then do {
        (ret, ino, ent, s) \<leftarrow> sfs_bmap_get_sub_nolock (di_indirect (din sin)) (index - SFS_NDIRECT) create s;
        if ret \<noteq> 0 then Some (ret, 0, sin, s)
        else if ent \<noteq> di_indirect (din sin) then do {
          kassert (di_indirect (din sin) = 0);
          bmap_out ino (sin\<lparr>din := (din sin)\<lparr>di_indirect := ent\<rparr>, si_dirty := True\<rparr>) s
        } else bmap_out ino sin s
      } else panic)"

definition sfs_bmap_free_sub_nolock :: "nat \<Rightarrow> nat \<Rightarrow> 'a sfs_fs_scheme \<Rightarrow> (int \<times> 'a sfs_fs_scheme) option" where
  "sfs_bmap_free_sub_nolock ent index s = do {
     u \<leftarrow> sfs_block_inuse ent s;
     kassert (u \<and> index < SFS_BLK_NENTRY);
     (ret, b, s) \<leftarrow> sfs_rbuf (le32 0) 4 ent (int (index * 4)) s;
     let ino = unat (of_le32 b);
     if ret \<noteq> 0 then Some (ret, s)
     else if ino \<noteq> 0 then do {
       (ret, _, s) \<leftarrow> sfs_wbuf (le32 0) 4 ent (int (index * 4)) s;
       if ret \<noteq> 0 then Some (ret, s)
       else do { s \<leftarrow> sfs_block_free ino s; Some (0, s) }
     } else Some (0, s)
   }"

definition sfs_bmap_free_nolock ::
  "nat \<Rightarrow> sfs_inode \<Rightarrow> 'a sfs_fs_scheme \<Rightarrow> (int \<times> sfs_inode \<times> 'a sfs_fs_scheme) option" where
  "sfs_bmap_free_nolock index sin s =
     (if index < SFS_NDIRECT then
        let ino = di_direct (din sin) ! index
        in if ino \<noteq> 0 then do {
             s \<leftarrow> sfs_block_free ino s;
             Some (0, sin\<lparr>din := (din sin)\<lparr>di_direct := (di_direct (din sin))[index := 0]\<rparr>, si_dirty := True\<rparr>, s)
           } else Some (0, sin, s)
      else if index - SFS_NDIRECT < SFS_BLK_NENTRY then
        if di_indirect (din sin) \<noteq> 0 then do {
          (ret, s) \<leftarrow> sfs_bmap_free_sub_nolock (di_indirect (din sin)) (index - SFS_NDIRECT) s;
          Some (ret, sin, s)
        } else Some (0, sin, s)
      else Some (0, sin, s))"

definition sfs_bmap_load_nolock ::
  "nat \<Rightarrow> sfs_inode \<Rightarrow> 'a sfs_fs_scheme \<Rightarrow> (int \<times> nat \<times> sfs_inode \<times> 'a sfs_fs_scheme) option" where
  "sfs_bmap_load_nolock index sin s = do {
     kassert (index \<le> di_blocks (din sin));
     let create = (index = di_blocks (din sin));
     (ret, ino, sin, s) \<leftarrow> sfs_bmap_get_nolock index create sin s;
     if ret \<noteq> 0 then Some (ret, 0, sin, s)
     else do {
       u \<leftarrow> sfs_block_inuse ino s;
       kassert u;
       let sin = (if create then sin\<lparr>din := (din sin)\<lparr>di_blocks := to_u32 (di_blocks (din sin) + 1)\<rparr>\<rparr> else sin);
       Some (0, ino, sin, s)
     }
   }"

definition sfs_bmap_truncate_nolock ::
  "sfs_inode \<Rightarrow> 'a sfs_fs_scheme \<Rightarrow> (int \<times> sfs_inode \<times> 'a sfs_fs_scheme) option" where
  "sfs_bmap_truncate_nolock sin s = do {
     kassert (di_blocks (din sin) \<noteq> 0);
     (ret, sin, s) \<leftarrow> sfs_bmap_free_nolock (di_blocks (din sin) - 1) sin s;
     if ret \<noteq> 0 then Some (ret, sin, s)
     else Some (0, sin\<lparr>din := (din sin)\<lparr>di_blocks := di_blocks (din sin) - 1\<rparr>, si_dirty := True\<rparr>, s)
   }"

section \<open>Reading and writing\<close>

definition sfs_buf_op ::
  "bool \<Rightarrow> u8 list \<Rightarrow> nat \<Rightarrow> nat \<Rightarrow> int \<Rightarrow> 'a sfs_fs_scheme \<Rightarrow> (int \<times> u8 list \<times> 'a sfs_fs_scheme) option" where
  "sfs_buf_op write buf len blkno offset s =
     (if write then sfs_wbuf buf len blkno offset s else sfs_rbuf buf len blkno offset s)"

definition sfs_block_op ::
  "bool \<Rightarrow> u8 list \<Rightarrow> nat \<Rightarrow> nat \<Rightarrow> 'a sfs_fs_scheme \<Rightarrow> (int \<times> u8 list \<times> 'a sfs_fs_scheme) option" where
  "sfs_block_op write buf blkno nblks s =
     (if write then sfs_wblock buf blkno nblks s else sfs_rblock buf blkno nblks s)"

text \<open>The transfer of a part of one file block, from position \<open>pos\<close> of the caller's buffer. The result is
  the return value, the bytes moved, the buffer, the inode and the file system.\<close>

definition io_part ::
  "bool \<Rightarrow> nat \<Rightarrow> nat \<Rightarrow> nat \<Rightarrow> nat \<Rightarrow> u8 list \<Rightarrow> sfs_inode \<Rightarrow> 'a sfs_fs_scheme \<Rightarrow>
   (int \<times> nat \<times> u8 list \<times> sfs_inode \<times> 'a sfs_fs_scheme) option" where
  "io_part write blkno blkoff sz pos buf sin s = do {
     (ret, ino, sin, s) \<leftarrow> sfs_bmap_load_nolock blkno sin s;
     if ret \<noteq> 0 then Some (ret, 0, buf, sin, s)
     else do {
       (ret, b, s) \<leftarrow> sfs_buf_op write (drop pos buf) sz ino (int blkoff) s;
       let buf = put_bytes buf pos b;
       if ret \<noteq> 0 then Some (ret, 0, buf, sin, s) else Some (0, sz, buf, sin, s)
     }
   }"

fun io_blocks ::
  "bool \<Rightarrow> nat \<Rightarrow> nat \<Rightarrow> nat \<Rightarrow> u8 list \<Rightarrow> sfs_inode \<Rightarrow> 'a sfs_fs_scheme \<Rightarrow>
   (int \<times> nat \<times> u8 list \<times> sfs_inode \<times> 'a sfs_fs_scheme) option" where
  "io_blocks write 0 blkno pos buf sin s = Some (0, 0, buf, sin, s)"
| "io_blocks write (Suc nblks) blkno pos buf sin s = do {
     (ret, ino, sin, s) \<leftarrow> sfs_bmap_load_nolock blkno sin s;
     if ret \<noteq> 0 then Some (ret, 0, buf, sin, s)
     else do {
       (ret, b, s) \<leftarrow> sfs_block_op write (take SFS_BLKSIZE (drop pos buf)) ino 1 s;
       let buf = put_bytes buf pos b;
       if ret \<noteq> 0 then Some (ret, 0, buf, sin, s)
       else do {
         (ret, alen, buf, sin, s) \<leftarrow> io_blocks write nblks (blkno + 1) (pos + SFS_BLKSIZE) buf sin s;
         Some (ret, SFS_BLKSIZE + alen, buf, sin, s)
       }
     }
   }"

text \<open>The whole blocks and the part of the last block, then all three parts.\<close>

definition io_rest ::
  "bool \<Rightarrow> nat \<Rightarrow> nat \<Rightarrow> nat \<Rightarrow> nat \<Rightarrow> u8 list \<Rightarrow> sfs_inode \<Rightarrow> 'a sfs_fs_scheme \<Rightarrow>
   (int \<times> nat \<times> u8 list \<times> sfs_inode \<times> 'a sfs_fs_scheme) option" where
  "io_rest write nblks blkno rest pos buf sin s = do {
     (ret, n2, buf, sin, s) \<leftarrow> io_blocks write nblks blkno pos buf sin s;
     if ret \<noteq> 0 \<or> rest = 0 then Some (ret, n2, buf, sin, s)
     else do {
       (ret, n3, buf, sin, s) \<leftarrow> io_part write (blkno + nblks) 0 rest (pos + n2) buf sin s;
       Some (ret, n2 + n3, buf, sin, s)
     }
   }"

definition io_span ::
  "bool \<Rightarrow> nat \<Rightarrow> nat \<Rightarrow> u8 list \<Rightarrow> sfs_inode \<Rightarrow> 'a sfs_fs_scheme \<Rightarrow>
   (int \<times> nat \<times> u8 list \<times> sfs_inode \<times> 'a sfs_fs_scheme) option" where
  "io_span write offset endpos buf sin s = do {
     let blkno = offset div SFS_BLKSIZE;
     let nblks = endpos div SFS_BLKSIZE - blkno;
     let blkoff = offset mod SFS_BLKSIZE;
     let rest = endpos mod SFS_BLKSIZE;
     if blkoff \<noteq> 0 then do {
       let sz = (if nblks \<noteq> 0 then SFS_BLKSIZE - blkoff else endpos - offset);
       (ret, n1, buf, sin, s) \<leftarrow> io_part write blkno blkoff sz 0 buf sin s;
       if ret \<noteq> 0 \<or> nblks = 0 then Some (ret, n1, buf, sin, s)
       else do {
         (ret, n2, buf, sin, s) \<leftarrow> io_rest write (nblks - 1) (blkno + 1) rest n1 buf sin s;
         Some (ret, n1 + n2, buf, sin, s)
       }
     } else io_rest write nblks blkno rest 0 buf sin s
   }"

text \<open>At the label \<open>out\<close> the length moved is stored and the file size grows to the end of it.\<close>

definition sfs_io_nolock ::
  "bool \<Rightarrow> u8 list \<Rightarrow> int \<Rightarrow> nat \<Rightarrow> sfs_inode \<Rightarrow> 'a sfs_fs_scheme \<Rightarrow>
   (int \<times> nat \<times> u8 list \<times> sfs_inode \<times> 'a sfs_fs_scheme) option" where
  "sfs_io_nolock write buf offset alen sin s = do {
     kassert (di_type (din sin) \<noteq> SFS_TYPE_DIR);
     let endpos = to_off (offset + int alen);
     if offset < 0 \<or> offset \<ge> int SFS_MAX_FILE_SIZE \<or> offset > endpos then Some (- E_INVAL, 0, buf, sin, s)
     else if offset = endpos then Some (0, 0, buf, sin, s)
     else do {
       let offset = nat offset;
       let endpos = (if endpos > int SFS_MAX_FILE_SIZE then SFS_MAX_FILE_SIZE else nat endpos);
       if \<not> write \<and> offset \<ge> di_size (din sin) then Some (0, 0, buf, sin, s)
       else do {
         let endpos = (if \<not> write \<and> endpos > di_size (din sin) then di_size (din sin) else endpos);
         (ret, n, buf, sin, s) \<leftarrow> io_span write offset endpos buf sin s;
         let sin = (if offset + n > di_size (din sin)
                    then sin\<lparr>din := (din sin)\<lparr>di_size := to_u32 (offset + n)\<rparr>, si_dirty := True\<rparr> else sin);
         Some (ret, n, buf, sin, s)
       }
     }
   }"

section \<open>Well-formed file systems\<close>

definition used :: "'a sfs_fs_scheme \<Rightarrow> nat \<Rightarrow> bool" where
  "used s b \<longleftrightarrow> b \<noteq> 0 \<and> b < s_blocks (super s) \<and> b \<notin> free_bits (freemap s)"

definition sfs_wf :: "'a sfs_fs_scheme \<Rightarrow> bool" where
  "sfs_wf s \<longleftrightarrow> sfs_ok s \<and> bitmap_wf (freemap s) \<and> s_blocks (super s) \<le> nbits (freemap s) \<and>
     free_bits (freemap s) \<subseteq> {1..<s_blocks (super s)} \<and>
     s_unused_blocks (super s) = card (free_bits (freemap s))"

lemma sfs_wf_ok: "sfs_wf s \<Longrightarrow> sfs_ok s"
  by (simp add: sfs_wf_def)

lemma sfs_wf_io_step: "sfs_wf s \<Longrightarrow> io_step s f s' \<Longrightarrow> sfs_wf s' \<and> (\<forall>b. used s' b = used s b) \<and> img s' = f"
  by (auto simp: sfs_wf_def io_step_def used_def)

lemma block_inuse_eq:
  assumes "sfs_wf s" "b \<noteq> 0" "b < s_blocks (super s)"
  shows "sfs_block_inuse b s = Some (used s b)"
  using assms bitmap_test_spec [of "freemap s" b] by (simp add: sfs_block_inuse_def sfs_wf_def used_def)

lemma used_inuse: "sfs_wf s \<Longrightarrow> used s b \<Longrightarrow> sfs_block_inuse b s = Some True"
  using block_inuse_eq [of s b] by (simp add: used_def)

text \<open>Everything but the free map, the count of unused blocks and the disk image.\<close>

definition same_fs :: "'a sfs_fs_scheme \<Rightarrow> 'a sfs_fs_scheme \<Rightarrow> bool" where
  "same_fs s s' \<longleftrightarrow> s_blocks (super s') = s_blocks (super s) \<and> s_magic (super s') = s_magic (super s) \<and>
     s_info (super s') = s_info (super s) \<and> sfs_fs.more s' = sfs_fs.more s"

lemma same_fs_refl [simp]: "same_fs s s"
  by (simp add: same_fs_def)

lemma same_fs_trans: "same_fs s s' \<Longrightarrow> same_fs s' s'' \<Longrightarrow> same_fs s s''"
  by (simp add: same_fs_def)

lemma same_fs_io_step: "io_step s f s' \<Longrightarrow> same_fs s s'"
  by (simp add: io_step_def same_fs_def)

abbreviation free_blocks :: "'a sfs_fs_scheme \<Rightarrow> nat set" where
  "free_blocks s \<equiv> free_bits (freemap s)"

lemma block_alloc_full:
  assumes "sfs_wf s" "free_blocks s = {}"
  shows "sfs_block_alloc s = Some (- E_NO_MEM, 0, s)"
  using assms bitmap_alloc_spec [of "freemap s"] by (simp add: sfs_block_alloc_def sfs_wf_def errno)

lemma block_alloc_step:
  assumes wf: "sfs_wf s" and ne: "free_blocks s \<noteq> {}"
  obtains m s' where "sfs_block_alloc s = Some (0, m, s')" "m \<in> free_blocks s" "sfs_wf s'"
    "free_blocks s' = free_blocks s - {m}" "img s' = wr (img s) (m * SFS_BLKSIZE) (replicate SFS_BLKSIZE 0)"
    "same_fs s s'" "m \<noteq> 0" "m < s_blocks (super s)"
proof -
  have bw: "bitmap_wf (freemap s)" and nb: "s_blocks (super s) \<le> nbits (freemap s)"
    and sub: "free_blocks s \<subseteq> {1..<s_blocks (super s)}" and un: "s_unused_blocks (super s) = card (free_blocks s)"
    and ok: "sfs_ok s" using wf by (simp_all add: sfs_wf_def)
  define m where "m = Min (free_blocks s)"
  have m: "m \<in> free_blocks s" using Min_in [OF free_bits_finite ne] by (simp add: m_def)
  then have mb: "m \<noteq> 0" "m < s_blocks (super s)" using sub by auto
  obtain b where b: "bitmap_alloc (freemap s) = Some (0, m, b)" "bitmap_wf b" "nbits b = nbits (freemap s)"
    "free_bits b = free_blocks s - {m}"
    using bitmap_alloc_spec [OF bw] ne by (auto simp: m_def)
  define s1 where "s1 = s\<lparr>freemap := b, super := (super s)\<lparr>s_unused_blocks := s_unused_blocks (super s) - 1\<rparr>,
    super_dirty := True\<rparr>"
  have pos: "0 < s_unused_blocks (super s)" using un m by (auto simp: card_gt_0_iff)
  have wf1: "sfs_wf s1"
    using ok b nb sub un m by (auto simp: sfs_wf_def s1_def sfs_ok_def)
  have iu: "sfs_block_inuse m s1 = Some True"
    by (rule used_inuse [OF wf1]) (use mb b in \<open>simp add: used_def s1_def\<close>)
  have mb1: "m < s_blocks (super s1)" using mb by (simp add: s1_def)
  obtain s2 where s2: "sfs_clear_block m 1 s1 = Some (0, s2)"
    "io_step s1 (wr (img s1) (m * SFS_BLKSIZE) (replicate SFS_BLKSIZE 0)) s2"
    using clear_block_step [OF sfs_wf_ok [OF wf1] mb1 mb(1)] by blast
  have "sfs_block_alloc s = Some (0, m, s2)"
    using b(1) pos iu s2(1) by (simp add: sfs_block_alloc_def s1_def Let_def)
  moreover have "free_blocks s2 = free_blocks s - {m}" "same_fs s s2"
    "img s2 = wr (img s) (m * SFS_BLKSIZE) (replicate SFS_BLKSIZE 0)"
    using s2(2) b(4) by (simp_all add: io_step_def s1_def same_fs_def)
  moreover have "sfs_wf s2" using sfs_wf_io_step [OF wf1 s2(2)] by simp
  ultimately show ?thesis using that m mb by blast
qed

lemma block_free_step:
  assumes wf: "sfs_wf s" and b: "used s b"
  obtains s' where "sfs_block_free b s = Some s'" "sfs_wf s'" "free_blocks s' = insert b (free_blocks s)"
    "img s' = img s" "same_fs s s'"
proof -
  have bw: "bitmap_wf (freemap s)" and nb: "s_blocks (super s) \<le> nbits (freemap s)"
    and sub: "free_blocks s \<subseteq> {1..<s_blocks (super s)}" and un: "s_unused_blocks (super s) = card (free_blocks s)"
    and ok: "sfs_ok s" using wf by (simp_all add: sfs_wf_def)
  have bb: "b \<noteq> 0" "b < s_blocks (super s)" "b \<notin> free_blocks s" "b < nbits (freemap s)"
    using b nb by (auto simp: used_def)
  obtain m where m: "bitmap_free (freemap s) b = Some m" "bitmap_wf m" "nbits m = nbits (freemap s)"
    "free_bits m = insert b (free_blocks s)"
    using bitmap_free_spec(1) [OF bw bb(4,3)] by auto
  have "card (insert b (free_blocks s)) \<le> card {1..<s_blocks (super s)}"
    using sub bb by (intro card_mono) auto
  then have "Suc (card (free_blocks s)) \<le> s_blocks (super s) - 1" using bb(3) by simp
  moreover have "s_blocks (super s) \<le> 2 ^ 20" using ok by (simp add: sfs_ok_def)
  ultimately have "Suc (card (free_blocks s)) < 2 ^ 32" by simp
  then have tu: "to_u32 (s_unused_blocks (super s) + 1) = Suc (card (free_blocks s))" using un by simp
  define s1 where "s1 = s\<lparr>freemap := m,
    super := (super s)\<lparr>s_unused_blocks := to_u32 (s_unused_blocks (super s) + 1)\<rparr>, super_dirty := True\<rparr>"
  have "sfs_block_free b s = Some s1"
    using used_inuse [OF wf b] m(1) by (simp add: sfs_block_free_def s1_def)
  moreover have "sfs_wf s1"
    using ok m nb sub bb tu by (auto simp: sfs_wf_def s1_def sfs_ok_def)
  ultimately show ?thesis using that [of s1] m(4) by (simp add: s1_def same_fs_def)
qed

section \<open>The block map of an inode\<close>

definition entry :: "image \<Rightarrow> nat \<Rightarrow> nat \<Rightarrow> nat" where
  "entry f e k = unat (of_le32 (rd f (e * SFS_BLKSIZE + k * 4) 4))"

definition MAX_BLKS :: nat where "MAX_BLKS = SFS_NDIRECT + SFS_BLK_NENTRY"

definition blk :: "image \<Rightarrow> sfs_disk_inode \<Rightarrow> nat \<Rightarrow> nat" where
  "blk f di i =
     (if i < SFS_NDIRECT then di_direct di ! i
      else if i < MAX_BLKS \<and> di_indirect di \<noteq> 0 then entry f (di_indirect di) (i - SFS_NDIRECT) else 0)"

definition inode_ok :: "'a sfs_fs_scheme \<Rightarrow> sfs_inode \<Rightarrow> bool" where
  "inode_ok s sin \<longleftrightarrow> (let di = din sin; B = blk (img s) di in
     length (di_direct di) = SFS_NDIRECT \<and> di_blocks di \<le> MAX_BLKS \<and>
     (\<forall>i<di_blocks di. used s (B i)) \<and> (\<forall>i<MAX_BLKS. di_blocks di \<le> i \<longrightarrow> B i = 0) \<and>
     inj_on B {..<di_blocks di} \<and> used s (si_ino sin) \<and> (\<forall>i<di_blocks di. B i \<noteq> si_ino sin) \<and>
     (di_indirect di \<noteq> 0 \<longrightarrow> used s (di_indirect di) \<and> di_indirect di \<noteq> si_ino sin \<and>
        (\<forall>i<di_blocks di. B i \<noteq> di_indirect di)))"

definition file_byte :: "image \<Rightarrow> sfs_disk_inode \<Rightarrow> nat \<Rightarrow> u8" where
  "file_byte f di k = f (blk f di (k div SFS_BLKSIZE) * SFS_BLKSIZE + k mod SFS_BLKSIZE)"

lemma wr_block_other:
  assumes "off + length bs \<le> SFS_BLKSIZE" "b' \<noteq> b" "o' < SFS_BLKSIZE"
  shows "wr f (b * SFS_BLKSIZE + off) bs (b' * SFS_BLKSIZE + o') = f (b' * SFS_BLKSIZE + o')"
proof -
  have d: "(b' * SFS_BLKSIZE + o') div SFS_BLKSIZE = b'" using assms(3) by simp
  have "\<not> (b * SFS_BLKSIZE + off \<le> b' * SFS_BLKSIZE + o' \<and> b' * SFS_BLKSIZE + o' < b * SFS_BLKSIZE + off + length bs)"
  proof
    assume "b * SFS_BLKSIZE + off \<le> b' * SFS_BLKSIZE + o' \<and> b' * SFS_BLKSIZE + o' < b * SFS_BLKSIZE + off + length bs"
    then have "(b' * SFS_BLKSIZE + o') div SFS_BLKSIZE = b"
      using assms(1) by (intro div_nat_eqI) (auto simp: mult.commute)
    then show False using d assms(2) by simp
  qed
  then show ?thesis by (simp only: wr_def if_False)
qed

lemma entry_cong:
  assumes "\<And>o'. o' < SFS_BLKSIZE \<Longrightarrow> f' (e * SFS_BLKSIZE + o') = f (e * SFS_BLKSIZE + o')" "k < SFS_BLK_NENTRY"
  shows "entry f' e k = entry f e k"
proof -
  have "rd f' (e * SFS_BLKSIZE + k * 4) 4 = rd f (e * SFS_BLKSIZE + k * 4) 4"
  proof (rule nth_equalityI)
    fix j assume "j < length (rd f' (e * SFS_BLKSIZE + k * 4) 4)"
    moreover have "k * 4 + j < SFS_BLKSIZE" using calculation assms(2) by (simp add: SFS_BLK_NENTRY_def SFS_BLKSIZE_def)
    ultimately show "rd f' (e * SFS_BLKSIZE + k * 4) 4 ! j = rd f (e * SFS_BLKSIZE + k * 4) 4 ! j"
      using assms(1) [of "k * 4 + j"] by (simp add: add.assoc)
  qed simp
  then show ?thesis by (simp add: entry_def)
qed

lemma blk_cong:
  assumes "di_indirect di \<noteq> 0 \<Longrightarrow>
    (\<And>o'. o' < SFS_BLKSIZE \<Longrightarrow> f' (di_indirect di * SFS_BLKSIZE + o') = f (di_indirect di * SFS_BLKSIZE + o'))"
  shows "blk f' di i = blk f di i"
  using entry_cong [of f' "di_indirect di" f "i - SFS_NDIRECT"] assms by (auto simp: blk_def MAX_BLKS_def)

lemma blk_upd_blocks [simp]:
  "blk f (di\<lparr>di_blocks := n\<rparr>) i = blk f di i" "blk f (di\<lparr>di_size := n\<rparr>) i = blk f di i"
  by (simp_all add: blk_def)

lemma entry_wr:
  assumes "j < SFS_BLK_NENTRY" "k < SFS_BLK_NENTRY" "m < 2 ^ 32"
  shows "entry (wr f (e * SFS_BLKSIZE + j * 4) (le32 (of_nat m))) e k = (if k = j then m else entry f e k)"
proof (cases "k = j")
  case True
  then show ?thesis using assms(3) by (simp add: entry_def unat_of_nat)
next
  case False
  then have "rd (wr f (e * SFS_BLKSIZE + j * 4) (le32 (of_nat m))) (e * SFS_BLKSIZE + k * 4) 4 =
      rd f (e * SFS_BLKSIZE + k * 4) 4"
    by (intro rd_wr_other) auto
  then show ?thesis using False by (simp add: entry_def)
qed

lemma of_le32_zeros: "of_le32 (replicate 4 0) = 0"
  by (simp add: of_le32_def numeral_eq_Suc)

lemma entry_zeros:
  assumes "k < SFS_BLK_NENTRY"
  shows "entry (wr f (e * SFS_BLKSIZE) (replicate SFS_BLKSIZE 0)) e k = 0"
proof -
  have "rd (wr f (e * SFS_BLKSIZE) (replicate SFS_BLKSIZE 0)) (e * SFS_BLKSIZE + k * 4) 4 =
      take 4 (drop (k * 4) (replicate SFS_BLKSIZE 0))"
    using rd_wr_inside [of "e * SFS_BLKSIZE" "e * SFS_BLKSIZE + k * 4" 4 "replicate SFS_BLKSIZE 0" f] assms
    by (simp add: SFS_BLK_NENTRY_def SFS_BLKSIZE_def)
  also have "\<dots> = replicate 4 0" using assms by (simp add: SFS_BLK_NENTRY_def SFS_BLKSIZE_def min_def)
  finally show ?thesis by (simp add: entry_def of_le32_zeros)
qed

definition untouched :: "image \<Rightarrow> image \<Rightarrow> nat \<Rightarrow> bool" where
  "untouched f f' b \<longleftrightarrow> (\<forall>o'<SFS_BLKSIZE. f' (b * SFS_BLKSIZE + o') = f (b * SFS_BLKSIZE + o'))"

lemma untouched_refl [simp]: "untouched f f b"
  by (simp add: untouched_def)

lemma untouched_trans: "untouched f g b \<Longrightarrow> untouched g h b \<Longrightarrow> untouched f h b"
  by (simp add: untouched_def)

lemma untouched_wr: "off + length bs \<le> SFS_BLKSIZE \<Longrightarrow> b' \<noteq> b \<Longrightarrow> untouched f (wr f (b * SFS_BLKSIZE + off) bs) b'"
  by (simp add: untouched_def wr_block_other)

lemma untouched_wr_block: "length bs \<le> SFS_BLKSIZE \<Longrightarrow> b' \<noteq> b \<Longrightarrow> untouched f (wr f (b * SFS_BLKSIZE) bs) b'"
  using untouched_wr [of 0 bs b' b f] by simp

lemma untouched_entry: "untouched f f' e \<Longrightarrow> k < SFS_BLK_NENTRY \<Longrightarrow> entry f' e k = entry f e k"
  by (rule entry_cong) (simp_all add: untouched_def)

text \<open>The blocks an inode owns.\<close>

definition owned :: "image \<Rightarrow> sfs_inode \<Rightarrow> nat set" where
  "owned f sin = blk f (din sin) ` {..<di_blocks (din sin)} \<union> {di_indirect (din sin), si_ino sin} - {0}"

text \<open>A step of a file operation: the file system stays well formed, the inode stays consistent and takes
  over free blocks only, and every block in use that belongs to someone else keeps its bytes.\<close>

definition fs_step :: "'a sfs_fs_scheme \<Rightarrow> sfs_inode \<Rightarrow> 'a sfs_fs_scheme \<Rightarrow> sfs_inode \<Rightarrow> bool" where
  "fs_step s sin s' sin' \<longleftrightarrow> sfs_wf s' \<and> same_fs s s' \<and> inode_ok s' sin' \<and> free_blocks s' \<subseteq> free_blocks s \<and>
     owned (img s') sin' \<subseteq> owned (img s) sin \<union> free_blocks s \<and>
     (\<forall>b. used s b \<and> b \<notin> owned (img s) sin \<longrightarrow> untouched (img s) (img s') b) \<and> untouched (img s) (img s') 0 \<and>
     si_ino sin' = si_ino sin \<and> reclaim_count sin' = reclaim_count sin \<and>
     di_type (din sin') = di_type (din sin) \<and> di_nlinks (din sin') = di_nlinks (din sin)"

lemma fs_step_refl: "sfs_wf s \<Longrightarrow> inode_ok s sin \<Longrightarrow> fs_step s sin s sin"
  by (auto simp: fs_step_def)

lemma fs_step_trans:
  assumes "fs_step s sin s1 sin1" "fs_step s1 sin1 s2 sin2"
  shows "fs_step s sin s2 sin2"
proof -
  have "used s1 b \<and> b \<notin> owned (img s1) sin1" if "used s b" "b \<notin> owned (img s) sin" for b
    using assms(1) that by (auto simp: fs_step_def used_def same_fs_def)
  then have "untouched (img s) (img s2) b" if "used s b" "b \<notin> owned (img s) sin" for b
    using assms that untouched_trans unfolding fs_step_def by metis
  moreover have "untouched (img s) (img s2) 0" using assms untouched_trans unfolding fs_step_def by metis
  moreover have "owned (img s2) sin2 \<subseteq> owned (img s) sin \<union> free_blocks s"
    using assms unfolding fs_step_def by blast
  moreover have "same_fs s s2" using assms same_fs_trans unfolding fs_step_def by metis
  moreover have "free_blocks s2 \<subseteq> free_blocks s" using assms unfolding fs_step_def by blast
  ultimately show ?thesis using assms unfolding fs_step_def by simp
qed

lemma blk_past: "inode_ok s sin \<Longrightarrow> di_blocks (din sin) \<le> i \<Longrightarrow> blk (img s) (din sin) i = 0"
  by (cases "i < MAX_BLKS") (auto simp: inode_ok_def Let_def blk_def SFS_NDIRECT_def MAX_BLKS_def)

lemma inode_okD:
  assumes "inode_ok s sin"
  shows "length (di_direct (din sin)) = SFS_NDIRECT" "di_blocks (din sin) \<le> MAX_BLKS"
    "i < di_blocks (din sin) \<Longrightarrow> used s (blk (img s) (din sin) i)"
    "inj_on (blk (img s) (din sin)) {..<di_blocks (din sin)}" "used s (si_ino sin)"
    "i < di_blocks (din sin) \<Longrightarrow> blk (img s) (din sin) i \<noteq> si_ino sin"
    "i < di_blocks (din sin) \<Longrightarrow> blk (img s) (din sin) i \<noteq> di_indirect (din sin)"
    "di_indirect (din sin) \<noteq> 0 \<Longrightarrow> used s (di_indirect (din sin))"
    "di_indirect (din sin) \<noteq> 0 \<Longrightarrow> di_indirect (din sin) \<noteq> si_ino sin"
  using assms by (auto simp: inode_ok_def Let_def used_def)

lemma file_byte_at: "o' < SFS_BLKSIZE \<Longrightarrow> file_byte f di (i * SFS_BLKSIZE + o') = f (blk f di i * SFS_BLKSIZE + o')"
  by (simp add: file_byte_def)

lemma in_block: "i * SFS_BLKSIZE \<le> k \<and> k < i * SFS_BLKSIZE + SFS_BLKSIZE \<longleftrightarrow> k div SFS_BLKSIZE = i"
proof
  assume "i * SFS_BLKSIZE \<le> k \<and> k < i * SFS_BLKSIZE + SFS_BLKSIZE"
  then show "k div SFS_BLKSIZE = i" by (intro div_nat_eqI) (auto simp: mult.commute)
next
  assume "k div SFS_BLKSIZE = i"
  then show "i * SFS_BLKSIZE \<le> k \<and> k < i * SFS_BLKSIZE + SFS_BLKSIZE"
    using div_mult_mod_eq [of k SFS_BLKSIZE] mod_less_divisor [of SFS_BLKSIZE k] by (metis SFS_BLKSIZE_pos(1) le_add1 nat_add_left_cancel_less)
qed

lemma grow_ok:
  assumes wf: "sfs_wf s" and ok: "inode_ok s sin" and i: "i = di_blocks (din sin)" "i < MAX_BLKS"
    and m: "m \<in> free_blocks s" "m \<notin> free_blocks s'"
    and s': "sfs_wf s'" "same_fs s s'" "free_blocks s' \<subseteq> free_blocks s"
    and ind: "di_indirect (din sin') = di_indirect (din sin) \<or>
      di_indirect (din sin) = 0 \<and> di_indirect (din sin') \<in> free_blocks s - free_blocks s' - {m}"
    and B: "blk (img s') (din sin') = (blk (img s) (din sin))(i := m)"
    and ch: "\<And>b. b \<noteq> m \<Longrightarrow> b \<noteq> di_indirect (din sin') \<or> b = 0 \<Longrightarrow> untouched (img s) (img s') b"
    and z: "\<And>o'. o' < SFS_BLKSIZE \<Longrightarrow> img s' (m * SFS_BLKSIZE + o') = 0"
    and di: "length (di_direct (din sin')) = SFS_NDIRECT" "di_blocks (din sin') = Suc i"
      "si_ino sin' = si_ino sin" "reclaim_count sin' = reclaim_count sin"
      "di_type (din sin') = di_type (din sin)" "di_nlinks (din sin') = di_nlinks (din sin)"
  shows "fs_step s sin s' sin' \<and>
    file_byte (img s') (din sin') = wr (file_byte (img s) (din sin)) (i * SFS_BLKSIZE) (replicate SFS_BLKSIZE 0)"
proof
  note D = inode_okD [OF ok]
  have fr: "free_blocks s \<subseteq> {1..<s_blocks (super s)}" using wf by (simp add: sfs_wf_def)
  then have m0: "m \<noteq> 0" "used s' m" using m s'(2) by (auto simp: used_def same_fs_def)
  have um: "used s' b" "b \<noteq> m" if "used s b" for b using that s'(2,3) m by (auto simp: used_def same_fs_def)
  have ind': "used s' (di_indirect (din sin')) \<and> di_indirect (din sin') \<noteq> m \<and>
      di_indirect (din sin') \<noteq> si_ino sin \<and> (\<forall>j<i. blk (img s) (din sin) j \<noteq> di_indirect (din sin'))"
    if "di_indirect (din sin') \<noteq> 0"
    using ind
  proof
    assume "di_indirect (din sin') = di_indirect (din sin)"
    then show ?thesis using that D(7,8,9) um i by auto
  next
    assume a: "di_indirect (din sin) = 0 \<and> di_indirect (din sin') \<in> free_blocks s - free_blocks s' - {m}"
    then have "used s' (di_indirect (din sin'))" using fr s'(2) by (auto simp: used_def same_fs_def)
    moreover have ne: "b \<noteq> di_indirect (din sin')" if "used s b" for b using that a by (auto simp: used_def)
    moreover have "\<forall>j<i. blk (img s) (din sin) j \<noteq> di_indirect (din sin')" using ne [OF D(3)] i(1) by blast
    ultimately show ?thesis using ne [OF D(5)] a by auto
  qed
  have past: "blk (img s) (din sin) j = 0" if "i \<le> j" for j using blk_past [OF ok] that i by simp
  have "inj_on (blk (img s') (din sin')) {..<Suc i}"
    unfolding B using D(3,4) um(2) i
    by (auto simp: inj_on_def less_Suc_eq split: if_splits) metis+
  moreover have "\<forall>j<Suc i. used s' (((blk (img s) (din sin))(i := m)) j) \<and> ((blk (img s) (din sin))(i := m)) j \<noteq> si_ino sin
      \<and> (di_indirect (din sin') \<noteq> 0 \<longrightarrow> ((blk (img s) (din sin))(i := m)) j \<noteq> di_indirect (din sin'))"
    using D(3,6) um(1) um(2) [OF D(5)] m0 ind' i by (auto simp: less_Suc_eq)
  ultimately have ok': "inode_ok s' sin'"
    using di i past um(1) [OF D(5)] ind' by (auto simp: inode_ok_def Let_def B)
  have un: "untouched (img s) (img s') b" if "used s b" "b \<notin> owned (img s) sin" for b
  proof (rule ch)
    show "b \<noteq> m" using um that by simp
    show "b \<noteq> di_indirect (din sin') \<or> b = 0" using that ind by (auto simp: owned_def used_def)
  qed
  have "owned (img s') sin' \<subseteq> owned (img s) sin \<union> free_blocks s"
    using ind m(1) di i by (auto simp: owned_def B less_Suc_eq split: if_splits)
  moreover have "untouched (img s) (img s') 0" using ch m0 by simp
  ultimately show "fs_step s sin s' sin'" using s' ok' un di by (simp add: fs_step_def)
  show "file_byte (img s') (din sin') = wr (file_byte (img s) (din sin)) (i * SFS_BLKSIZE) (replicate SFS_BLKSIZE 0)"
  proof
    fix k
    let ?j = "k div SFS_BLKSIZE"
    show "file_byte (img s') (din sin') k = wr (file_byte (img s) (din sin)) (i * SFS_BLKSIZE) (replicate SFS_BLKSIZE 0) k"
    proof (cases "?j = i")
      case True
      then have b: "i * SFS_BLKSIZE \<le> k" "k < i * SFS_BLKSIZE + SFS_BLKSIZE" using in_block [of i k] by auto
      then have "k - i * SFS_BLKSIZE < SFS_BLKSIZE" by linarith
      then show ?thesis using True z b by (simp add: file_byte_def B wr_def)
    next
      case False
      have "untouched (img s) (img s') (blk (img s) (din sin) ?j)"
      proof (cases "?j < i")
        case True
        then show ?thesis using ch D(3) um(2) ind' i by metis
      next
        case False
        then show ?thesis using ch past m0 by simp
      qed
      then show ?thesis using False in_block [of i k] by (auto simp: file_byte_def B wr_def untouched_def)
    qed
  qed
qed

lemma used_bounds: "used s b \<Longrightarrow> b \<noteq> 0 \<and> b < s_blocks (super s) \<and> b \<notin> free_blocks s"
  by (simp add: used_def)

lemma bmap_out_used: "sfs_wf s \<Longrightarrow> used s b \<Longrightarrow> bmap_out b sin s = Some (0, b, sin, s)"
  using used_inuse [of s b] by (simp add: bmap_out_def)

lemma entry_offset: "k < SFS_BLK_NENTRY \<Longrightarrow> k * 4 < SFS_BLKSIZE \<and> k * 4 + 4 \<le> SFS_BLKSIZE"
  by (simp add: SFS_BLK_NENTRY_def SFS_BLKSIZE_def)

lemma rbuf_entry:
  assumes wf: "sfs_wf s" and e: "used s e" and k: "k < SFS_BLK_NENTRY"
  obtains b s' where "sfs_rbuf (le32 0) 4 e (int (k * 4)) s = Some (0, b, s')" "unat (of_le32 b) = entry (img s) e k"
    "io_step s (img s) s'" "sfs_wf s'" "\<And>b. used s' b = used s b"
proof -
  obtain s' where "sfs_rbuf (le32 0) 4 e (int (k * 4)) s =
      Some (0, put_bytes (le32 0) 0 (rd (img s) (e * SFS_BLKSIZE + k * 4) 4), s')" "io_step s (img s) s'"
    using rbuf_step [OF sfs_wf_ok [OF wf], of e "k * 4" 4 "le32 0"] used_bounds [OF e] entry_offset [OF k] by blast
  then show ?thesis using that sfs_wf_io_step [OF wf] by (auto simp: put_bytes_whole entry_def)
qed

lemma wbuf_entry:
  assumes wf: "sfs_wf s" and e: "used s e" and k: "k < SFS_BLK_NENTRY"
  obtains s' where "sfs_wbuf (le32 x) 4 e (int (k * 4)) s = Some (0, le32 x, s')"
    "io_step s (wr (img s) (e * SFS_BLKSIZE + k * 4) (le32 x)) s'" "sfs_wf s'" "\<And>b. used s' b = used s b"
    "free_blocks s' = free_blocks s" "same_fs s s'"
proof -
  obtain s' where "sfs_wbuf (le32 x) 4 e (int (k * 4)) s = Some (0, le32 x, s')"
    "io_step s (wr (img s) (e * SFS_BLKSIZE + k * 4) (le32 x)) s'"
    using wbuf_step [OF sfs_wf_ok [OF wf], of e "k * 4" 4 "le32 x"] used_bounds [OF e] entry_offset [OF k] by auto
  moreover from this have "free_blocks s' = free_blocks s" "same_fs s s'" by (simp_all add: io_step_def same_fs_def)
  ultimately show ?thesis using that sfs_wf_io_step [OF wf] by blast
qed

lemma get_old:
  assumes wf: "sfs_wf s" and ok: "inode_ok s sin" and i: "i < di_blocks (din sin)"
  obtains s' where "sfs_bmap_get_nolock i False sin s = Some (0, blk (img s) (din sin) i, sin, s')"
    "io_step s (img s) s'"
proof (cases "i < SFS_NDIRECT")
  case True
  have "used s (blk (img s) (din sin) i)" using inode_okD(3) [OF ok i] .
  then have "sfs_bmap_get_nolock i False sin s = Some (0, blk (img s) (din sin) i, sin, s)"
    using True bmap_out_used [OF wf] by (simp add: sfs_bmap_get_nolock_def blk_def)
  then show ?thesis using that wf by (simp add: io_step_def sfs_wf_def)
next
  case False
  let ?e = "di_indirect (din sin)" and ?k = "i - SFS_NDIRECT"
  have u: "used s (blk (img s) (din sin) i)" using inode_okD(3) [OF ok i] .
  have k: "?k < SFS_BLK_NENTRY" "i < MAX_BLKS" using i inode_okD(2) [OF ok] False by (auto simp: MAX_BLKS_def)
  have e0: "?e \<noteq> 0" using u False by (auto simp: blk_def used_def split: if_splits)
  have b: "blk (img s) (din sin) i = entry (img s) ?e ?k" using False e0 k by (simp add: blk_def)
  obtain bs s1 where r: "sfs_rbuf (le32 0) 4 ?e (int (?k * 4)) s = Some (0, bs, s1)"
    "unat (of_le32 bs) = entry (img s) ?e ?k" "io_step s (img s) s1" "sfs_wf s1" "\<And>b. used s1 b = used s b"
    using rbuf_entry [OF wf inode_okD(8) [OF ok e0] k(1)] by blast
  have "sfs_bmap_get_sub_nolock ?e ?k False s = Some (0, blk (img s) (din sin) i, ?e, s1)"
    using e0 k r(1,2) b by (simp add: sfs_bmap_get_sub_nolock_def)
  moreover have "bmap_out (blk (img s) (din sin) i) sin s1 = Some (0, blk (img s) (din sin) i, sin, s1)"
    using bmap_out_used [OF r(4)] u r(5) by simp
  ultimately show ?thesis using that r(3) False k by (simp add: sfs_bmap_get_nolock_def)
qed

lemma load_old:
  assumes wf: "sfs_wf s" and ok: "inode_ok s sin" and i: "i < di_blocks (din sin)"
  obtains s' where "sfs_bmap_load_nolock i sin s = Some (0, blk (img s) (din sin) i, sin, s')" "io_step s (img s) s'"
    "sfs_wf s'" "inode_ok s' sin"
proof -
  obtain s' where g: "sfs_bmap_get_nolock i False sin s = Some (0, blk (img s) (din sin) i, sin, s')"
    "io_step s (img s) s'" using get_old [OF assms] .
  have w: "sfs_wf s'" "\<And>b. used s' b = used s b" "img s' = img s" using sfs_wf_io_step [OF wf g(2)] by auto
  have "sfs_block_inuse (blk (img s) (din sin) i) s' = Some True"
    using used_inuse [OF w(1)] w(2) inode_okD(3) [OF ok i] by simp
  then have "sfs_bmap_load_nolock i sin s = Some (0, blk (img s) (din sin) i, sin, s')"
    using i g(1) by (simp add: sfs_bmap_load_nolock_def)
  moreover have "inode_ok s' sin" using ok w by (simp add: inode_ok_def)
  ultimately show ?thesis using that g w by blast
qed

text \<open>Outcomes of appending a block: the file has a further block of zeros, or there was no room and
  neither the inode nor the file changed.\<close>

abbreviation one_more :: "sfs_inode \<Rightarrow> sfs_inode" where
  "one_more sin \<equiv> sin\<lparr>din := (din sin)\<lparr>di_blocks := Suc (di_blocks (din sin))\<rparr>\<rparr>"

definition grown :: "'a sfs_fs_scheme \<Rightarrow> sfs_inode \<Rightarrow> 'a sfs_fs_scheme \<Rightarrow> sfs_inode \<Rightarrow> bool" where
  "grown s sin s' sin' \<longleftrightarrow> fs_step s sin s' sin' \<and> di_blocks (din sin') = Suc (di_blocks (din sin)) \<and>
     di_size (din sin') = di_size (din sin) \<and>
     file_byte (img s') (din sin') =
       wr (file_byte (img s) (din sin)) (di_blocks (din sin) * SFS_BLKSIZE) (replicate SFS_BLKSIZE 0)"

definition no_room :: "'a sfs_fs_scheme \<Rightarrow> sfs_inode \<Rightarrow> 'a sfs_fs_scheme \<Rightarrow> bool" where
  "no_room s sin s' \<longleftrightarrow> fs_step s sin s' sin \<and> file_byte (img s') (din sin) = file_byte (img s) (din sin) \<and>
     card (free_blocks s) \<le> 1"

definition get_new_result ::
  "'a sfs_fs_scheme \<Rightarrow> sfs_inode \<Rightarrow> nat \<Rightarrow> (int \<times> nat \<times> sfs_inode \<times> 'a sfs_fs_scheme) option \<Rightarrow> bool" where
  "get_new_result s sin i r \<longleftrightarrow>
     (\<exists>sin1 s'. r = Some (0, blk (img s') (din sin1) i, sin1, s') \<and> grown s sin s' (one_more sin1) \<and>
        di_blocks (din sin1) = i) \<or>
     (\<exists>s'. r = Some (- E_NO_MEM, 0, sin, s') \<and> no_room s sin s')"

lemma no_room_same: "sfs_wf s \<Longrightarrow> inode_ok s sin \<Longrightarrow> card (free_blocks s) \<le> 1 \<Longrightarrow> no_room s sin s"
  by (simp add: no_room_def fs_step_refl)

lemma wf_free: "sfs_wf s \<Longrightarrow> b \<in> free_blocks s \<Longrightarrow> b \<noteq> 0 \<and> b < 2 ^ 20 \<and> b < s_blocks (super s)"
  by (fastforce simp: sfs_wf_def sfs_ok_def)

lemma get_new_direct:
  assumes wf: "sfs_wf s" and ok: "inode_ok s sin" and i: "i = di_blocks (din sin)" "i < SFS_NDIRECT"
  shows "get_new_result s sin i (sfs_bmap_get_nolock i True sin s)"
proof (cases "free_blocks s = {}")
  case True
  have z: "di_direct (din sin) ! i = 0" using blk_past [OF ok, of i] i by (simp add: blk_def)
  then have "sfs_bmap_get_nolock i True sin s = Some (- E_NO_MEM, 0, sin, s)"
    using i block_alloc_full [OF wf True] by (simp add: sfs_bmap_get_nolock_def errno)
  then show ?thesis using no_room_same [OF wf ok] True by (auto simp: get_new_result_def)
next
  case False
  have z: "di_direct (din sin) ! i = 0" using blk_past [OF ok, of i] i by (simp add: blk_def)
  obtain m s1 where a: "sfs_block_alloc s = Some (0, m, s1)" "m \<in> free_blocks s" "sfs_wf s1"
    "free_blocks s1 = free_blocks s - {m}" "img s1 = wr (img s) (m * SFS_BLKSIZE) (replicate SFS_BLKSIZE 0)"
    "same_fs s s1" "m \<noteq> 0" "m < s_blocks (super s)" using block_alloc_step [OF wf False] .
  define sin1 where "sin1 = sin\<lparr>din := (din sin)\<lparr>di_direct := (di_direct (din sin))[i := m]\<rparr>, si_dirty := True\<rparr>"
  have um: "used s1 m" using a by (simp add: used_def same_fs_def)
  have ne: "di_indirect (din sin) \<noteq> m" if "di_indirect (din sin) \<noteq> 0"
    using inode_okD(8) [OF ok that] a(2) by (auto simp: used_def)
  have g: "sfs_bmap_get_nolock i True sin s = Some (0, m, sin1, s1)"
    using i z a(1) bmap_out_used [OF a(3) um] by (simp add: sfs_bmap_get_nolock_def sin1_def)
  have len: "length (di_direct (din sin)) = SFS_NDIRECT" using inode_okD(1) [OF ok] .
  have un: "untouched (img s) (img s1) b" if "b \<noteq> m" for b unfolding a(5) using that by (intro untouched_wr_block) auto
  have "blk (img s1) (din sin) = blk (img s) (din sin)"
    using un [OF ne] by (intro ext blk_cong) (simp add: untouched_def)
  then have B: "blk (img s1) (din sin1) = (blk (img s) (din sin))(i := m)"
    using i len by (auto simp: fun_eq_iff sin1_def blk_def MAX_BLKS_def split: if_splits)
  have "fs_step s sin s1 (one_more sin1) \<and> file_byte (img s1) (din (one_more sin1)) =
      wr (file_byte (img s) (din sin)) (i * SFS_BLKSIZE) (replicate SFS_BLKSIZE 0)"
  proof (rule grow_ok [OF wf ok i(1), where m = m])
    show "i < MAX_BLKS" using i by (simp add: MAX_BLKS_def)
    show "\<And>o'. o' < SFS_BLKSIZE \<Longrightarrow> img s1 (m * SFS_BLKSIZE + o') = 0" by (simp add: a(5) wr_def)
    show "blk (img s1) (din (one_more sin1)) = (blk (img s) (din sin))(i := m)" using B by (simp add: fun_eq_iff)
  qed (use a un i len in \<open>auto simp: sin1_def\<close>)
  then have "grown s sin s1 (one_more sin1)" using i by (simp add: grown_def sin1_def)
  moreover have "blk (img s1) (din sin1) i = m" using B by simp
  moreover have "di_blocks (din sin1) = i" using i by (simp add: sin1_def)
  ultimately show ?thesis using g unfolding get_new_result_def by blast
qed

lemma blk_indirect:
  assumes "length (di_direct di) = SFS_NDIRECT" "SFS_NDIRECT \<le> i" "i < MAX_BLKS" "e \<noteq> 0"
    "\<And>k. k < SFS_BLK_NENTRY \<Longrightarrow> entry f' e k = (if k = i - SFS_NDIRECT then m else blk f di (k + SFS_NDIRECT))"
  shows "blk f' (di\<lparr>di_indirect := e\<rparr>) = (blk f di)(i := m)"
proof
  fix j
  show "blk f' (di\<lparr>di_indirect := e\<rparr>) j = ((blk f di)(i := m)) j"
  proof (cases "j < SFS_NDIRECT \<or> \<not> j < MAX_BLKS")
    case True
    then show ?thesis using assms(1,2,3) by (auto simp: blk_def MAX_BLKS_def)
  next
    case False
    then have "blk f' (di\<lparr>di_indirect := e\<rparr>) j = entry f' e (j - SFS_NDIRECT)" using assms(4) by (simp add: blk_def)
    then show ?thesis using False assms(2) assms(5) [of "j - SFS_NDIRECT"] by (auto simp: MAX_BLKS_def)
  qed
qed

lemma get_new_entry:
  assumes wf: "sfs_wf s" and ok: "inode_ok s sin" and i: "i = di_blocks (din sin)" "SFS_NDIRECT \<le> i" "i < MAX_BLKS"
    and e0: "di_indirect (din sin) \<noteq> 0"
  shows "get_new_result s sin i (sfs_bmap_get_nolock i True sin s)"
proof -
  let ?e = "di_indirect (din sin)" and ?k = "i - SFS_NDIRECT"
  have ue: "used s ?e" using inode_okD(8) [OF ok e0] .
  have k: "?k < SFS_BLK_NENTRY" using i by (auto simp: MAX_BLKS_def)
  have z: "entry (img s) ?e ?k = 0" using blk_past [OF ok, of i] i e0 by (simp add: blk_def)
  obtain bs s1 where r: "sfs_rbuf (le32 0) 4 ?e (int (?k * 4)) s = Some (0, bs, s1)"
    "unat (of_le32 bs) = 0" "io_step s (img s) s1" "sfs_wf s1" "\<And>b. used s1 b = used s b"
    using rbuf_entry [OF wf ue k] z by metis
  have f1: "free_blocks s1 = free_blocks s" "same_fs s s1" "img s1 = img s"
    using r(3) by (simp_all add: io_step_def same_fs_def)
  show ?thesis
  proof (cases "free_blocks s1 = {}")
    case True
    have "sfs_bmap_get_sub_nolock ?e ?k True s = Some (- E_NO_MEM, 0, ?e, s1)"
      using e0 k r(1,2) block_alloc_full [OF r(4) True] by (simp add: sfs_bmap_get_sub_nolock_def errno)
    then have "sfs_bmap_get_nolock i True sin s = Some (- E_NO_MEM, 0, sin, s1)"
      using i k by (simp add: sfs_bmap_get_nolock_def errno)
    moreover have "inode_ok s1 sin" using ok r(5) f1 by (simp add: inode_ok_def)
    then have "no_room s sin s1" using True f1 r(4) by (simp add: no_room_def fs_step_def)
    ultimately show ?thesis by (auto simp: get_new_result_def)
  next
    case False
    obtain m s2 where a: "sfs_block_alloc s1 = Some (0, m, s2)" "m \<in> free_blocks s1" "sfs_wf s2"
      "free_blocks s2 = free_blocks s1 - {m}" "img s2 = wr (img s1) (m * SFS_BLKSIZE) (replicate SFS_BLKSIZE 0)"
      "same_fs s1 s2" "m \<noteq> 0" "m < s_blocks (super s1)" using block_alloc_step [OF r(4) False] .
    have me: "m \<noteq> ?e" using ue a(2) f1 by (auto simp: used_def)
    have ue2: "used s2 ?e" using ue a(4,6) f1 by (auto simp: used_def same_fs_def)
    obtain s3 where w: "sfs_wbuf (le32 (of_nat m)) 4 ?e (int (?k * 4)) s2 = Some (0, le32 (of_nat m), s3)"
      "io_step s2 (wr (img s2) (?e * SFS_BLKSIZE + ?k * 4) (le32 (of_nat m))) s3" "sfs_wf s3"
      "\<And>b. used s3 b = used s2 b" "free_blocks s3 = free_blocks s2" "same_fs s2 s3"
      using wbuf_entry [OF a(3) ue2 k] by blast
    have i3: "img s3 = wr (img s2) (?e * SFS_BLKSIZE + ?k * 4) (le32 (of_nat m))" using w(2) by (simp add: io_step_def)
    have um: "used s3 m" unfolding w(4) using a by (simp add: used_def same_fs_def)
    have "sfs_bmap_get_sub_nolock ?e ?k True s = Some (0, m, ?e, s3)"
      using e0 k r(1,2) a(1) w(1) by (simp add: sfs_bmap_get_sub_nolock_def)
    then have g: "sfs_bmap_get_nolock i True sin s = Some (0, m, sin, s3)"
      using i k bmap_out_used [OF w(3) um] by (simp add: sfs_bmap_get_nolock_def)
    have u2: "untouched (img s) (img s2) b" if "b \<noteq> m" for b
      unfolding a(5) f1 using that by (intro untouched_wr_block) auto
    have u3: "untouched (img s2) (img s3) b" if "b \<noteq> ?e" for b
      unfolding i3 using that entry_offset [OF k] by (intro untouched_wr) auto
    have un: "untouched (img s) (img s3) b" if "b \<noteq> m" "b \<noteq> ?e" for b
      using untouched_trans [OF u2 u3] that by blast
    have m32: "m < 2 ^ 32" using wf_free [OF r(4) a(2)] by simp
    have "entry (img s3) ?e j = (if j = ?k then m else blk (img s) (din sin) (j + SFS_NDIRECT))"
      if "j < SFS_BLK_NENTRY" for j
      using entry_wr [OF k that m32] untouched_entry [OF u2 that] me that e0
      by (simp add: i3 blk_def MAX_BLKS_def)
    then have B: "blk (img s3) (din sin) = (blk (img s) (din sin))(i := m)"
      using blk_indirect [OF inode_okD(1) [OF ok] i(2,3) e0] by simp
    have zm: "img s3 (m * SFS_BLKSIZE + o') = 0" if "o' < SFS_BLKSIZE" for o'
      using u3 [OF me] that by (simp add: untouched_def a(5) wr_def)
    have "fs_step s sin s3 (one_more sin) \<and> file_byte (img s3) (din (one_more sin)) =
        wr (file_byte (img s) (din sin)) (i * SFS_BLKSIZE) (replicate SFS_BLKSIZE 0)"
    proof (rule grow_ok [OF wf ok i(1,3), where m = m])
      show "same_fs s s3" using f1 a(6) w(6) by (simp add: same_fs_def)
      show "blk (img s3) (din (one_more sin)) = (blk (img s) (din sin))(i := m)" using B by (simp add: fun_eq_iff)
      show "untouched (img s) (img s3) b" if "b \<noteq> m" "b \<noteq> di_indirect (din (one_more sin)) \<or> b = 0" for b
        using un that e0 by auto
    qed (use a w f1 zm i inode_okD(1) [OF ok] in auto)
    then have "grown s sin s3 (one_more sin)" using i by (simp add: grown_def)
    moreover have "blk (img s3) (din sin) i = m" using B by simp
    ultimately show ?thesis using g i unfolding get_new_result_def by blast
  qed
qed

lemma inode_ok_cong:
  assumes ok: "inode_ok s sin" and u: "\<And>b. used s b \<Longrightarrow> used s' b \<and> untouched (img s) (img s') b"
  shows "inode_ok s' sin" and "blk (img s') (din sin) = blk (img s) (din sin)"
proof -
  show B: "blk (img s') (din sin) = blk (img s) (din sin)"
    using inode_okD(8) [OF ok] u by (intro ext blk_cong) (auto simp: untouched_def)
  show "inode_ok s' sin" using ok u unfolding inode_ok_def Let_def B by auto
qed

lemma file_byte_cong:
  assumes ok: "inode_ok s sin" and u: "\<And>b. used s b \<or> b = 0 \<Longrightarrow> untouched (img s) (img s') b"
    and u': "\<And>b. used s b \<Longrightarrow> used s' b"
  shows "file_byte (img s') (din sin) = file_byte (img s) (din sin)"
proof
  fix k
  let ?b = "blk (img s) (din sin) (k div SFS_BLKSIZE)"
  have "used s ?b \<or> ?b = 0"
    using inode_okD(3) [OF ok] blk_past [OF ok] by (cases "k div SFS_BLKSIZE < di_blocks (din sin)") auto
  then have "untouched (img s) (img s') ?b" by (rule u)
  moreover have "blk (img s') (din sin) = blk (img s) (din sin)" using u u' by (intro inode_ok_cong(2) [OF ok]) auto
  ultimately show "file_byte (img s') (din sin) k = file_byte (img s) (din sin) k"
    by (simp add: file_byte_def untouched_def)
qed

lemma no_roomI:
  assumes ok: "inode_ok s sin" and wf: "sfs_wf s'" and s': "same_fs s s'" "free_blocks s' = free_blocks s"
    and u: "\<And>b. b \<notin> free_blocks s \<Longrightarrow> untouched (img s) (img s') b" and z: "0 \<notin> free_blocks s"
    and c: "card (free_blocks s) \<le> 1"
  shows "no_room s sin s'"
proof -
  have us: "used s' b = used s b" for b using s' by (simp add: used_def same_fs_def)
  have "inode_ok s' sin" "blk (img s') (din sin) = blk (img s) (din sin)"
    using inode_ok_cong [OF ok, of s'] u us used_bounds by auto
  moreover have "file_byte (img s') (din sin) = file_byte (img s) (din sin)"
    using file_byte_cong [OF ok, of s'] u us z used_bounds by auto
  ultimately show ?thesis using assms used_bounds by (auto simp: no_room_def fs_step_def owned_def)
qed

lemma get_new_indirect:
  assumes wf: "sfs_wf s" and ok: "inode_ok s sin" and i: "i = di_blocks (din sin)" "SFS_NDIRECT \<le> i" "i < MAX_BLKS"
    and e0: "di_indirect (din sin) = 0"
  shows "get_new_result s sin i (sfs_bmap_get_nolock i True sin s)"
proof (cases "free_blocks s = {}")
  case True
  then have "sfs_bmap_get_nolock i True sin s = Some (- E_NO_MEM, 0, sin, s)"
    using i e0 block_alloc_full [OF wf]
    by (auto simp: sfs_bmap_get_nolock_def sfs_bmap_get_sub_nolock_def errno MAX_BLKS_def)
  then show ?thesis using no_room_same [OF wf ok] True by (auto simp: get_new_result_def)
next
  case False
  let ?k = "i - SFS_NDIRECT"
  have k: "?k < SFS_BLK_NENTRY" using i by (auto simp: MAX_BLKS_def)
  obtain e s1 where a: "sfs_block_alloc s = Some (0, e, s1)" "e \<in> free_blocks s" "sfs_wf s1"
    "free_blocks s1 = free_blocks s - {e}" "img s1 = wr (img s) (e * SFS_BLKSIZE) (replicate SFS_BLKSIZE 0)"
    "same_fs s s1" "e \<noteq> 0" "e < s_blocks (super s)" using block_alloc_step [OF wf False] .
  have u1: "untouched (img s) (img s1) b" if "b \<noteq> e" for b unfolding a(5) using that by (intro untouched_wr_block) auto
  have ue: "used s1 e" using a by (simp add: used_def same_fs_def)
  show ?thesis
  proof (cases "free_blocks s1 = {}")
    case True
    obtain s2 where f: "sfs_block_free e s1 = Some s2" "sfs_wf s2" "free_blocks s2 = insert e (free_blocks s1)"
      "img s2 = img s1" "same_fs s1 s2" using block_free_step [OF a(3) ue] .
    have "sfs_bmap_get_nolock i True sin s = Some (- E_NO_MEM, 0, sin, s2)"
      using i k e0 a(1,7) block_alloc_full [OF a(3) True] f(1)
      by (simp add: sfs_bmap_get_nolock_def sfs_bmap_get_sub_nolock_def errno)
    moreover have "no_room s sin s2"
    proof (rule no_roomI [OF ok f(2)])
      show "same_fs s s2" using same_fs_trans [OF a(6) f(5)] .
      show "free_blocks s2 = free_blocks s" using a(2,4) f(3) by auto
      show "card (free_blocks s) \<le> 1" using True a(4) card_mono [of "{e}" "free_blocks s"] by auto
      show "untouched (img s) (img s2) b" if "b \<notin> free_blocks s" for b using u1 f(4) that a(2) by metis
      show "0 \<notin> free_blocks s" using wf_free [OF wf] by blast
    qed
    ultimately show ?thesis by (auto simp: get_new_result_def)
  next
    case False
    obtain m s2 where b: "sfs_block_alloc s1 = Some (0, m, s2)" "m \<in> free_blocks s1" "sfs_wf s2"
      "free_blocks s2 = free_blocks s1 - {m}" "img s2 = wr (img s1) (m * SFS_BLKSIZE) (replicate SFS_BLKSIZE 0)"
      "same_fs s1 s2" "m \<noteq> 0" "m < s_blocks (super s1)" using block_alloc_step [OF a(3) False] .
    have me: "m \<noteq> e" using b(2) a(4) by auto
    have u2: "untouched (img s1) (img s2) b" if "b \<noteq> m" for b unfolding b(5) using that by (intro untouched_wr_block) auto
    have ue2: "used s2 e" using ue b(4,6) by (auto simp: used_def same_fs_def)
    obtain s3 where w: "sfs_wbuf (le32 (of_nat m)) 4 e (int (?k * 4)) s2 = Some (0, le32 (of_nat m), s3)"
      "io_step s2 (wr (img s2) (e * SFS_BLKSIZE + ?k * 4) (le32 (of_nat m))) s3" "sfs_wf s3"
      "\<And>b. used s3 b = used s2 b" "free_blocks s3 = free_blocks s2" "same_fs s2 s3"
      using wbuf_entry [OF b(3) ue2 k] by blast
    have i3: "img s3 = wr (img s2) (e * SFS_BLKSIZE + ?k * 4) (le32 (of_nat m))" using w(2) by (simp add: io_step_def)
    have um: "used s3 m" unfolding w(4) using b by (simp add: used_def same_fs_def)
    define sin1 where "sin1 = sin\<lparr>din := (din sin)\<lparr>di_indirect := e\<rparr>, si_dirty := True\<rparr>"
    have "sfs_bmap_get_sub_nolock 0 ?k True s = Some (0, m, e, s3)"
      using k a(1) b(1) w(1) by (simp add: sfs_bmap_get_sub_nolock_def)
    then have g: "sfs_bmap_get_nolock i True sin s = Some (0, m, sin1, s3)"
      using i k e0 a(7) bmap_out_used [OF w(3) um] by (simp add: sfs_bmap_get_nolock_def sin1_def)
    have u3: "untouched (img s2) (img s3) b" if "b \<noteq> e" for b
      unfolding i3 using that entry_offset [OF k] by (intro untouched_wr) auto
    have un: "untouched (img s) (img s3) b" if "b \<noteq> m" "b \<noteq> e" for b
      using untouched_trans [OF untouched_trans [OF u1 u2] u3] that by blast
    have m32: "m < 2 ^ 32" using wf_free [OF a(3) b(2)] by simp
    have "entry (img s3) e j = (if j = ?k then m else blk (img s) (din sin) (j + SFS_NDIRECT))"
      if "j < SFS_BLK_NENTRY" for j
      using entry_wr [OF k that m32] untouched_entry [OF u2 that] me that e0 entry_zeros [OF that]
      by (simp add: i3 blk_def a(5))
    then have B: "blk (img s3) (din sin1) = (blk (img s) (din sin))(i := m)"
      using blk_indirect [OF inode_okD(1) [OF ok] i(2,3) a(7)] by (simp add: sin1_def)
    have zm: "img s3 (m * SFS_BLKSIZE + o') = 0" if "o' < SFS_BLKSIZE" for o'
      using u3 [OF me] that by (simp add: untouched_def b(5) wr_def)
    have "fs_step s sin s3 (one_more sin1) \<and> file_byte (img s3) (din (one_more sin1)) =
        wr (file_byte (img s) (din sin)) (i * SFS_BLKSIZE) (replicate SFS_BLKSIZE 0)"
    proof (rule grow_ok [OF wf ok i(1,3), where m = m])
      show "same_fs s s3" using a(6) b(6) w(6) by (simp add: same_fs_def)
      show "blk (img s3) (din (one_more sin1)) = (blk (img s) (din sin))(i := m)" using B by (simp add: fun_eq_iff)
      show "untouched (img s) (img s3) b" if "b \<noteq> m" "b \<noteq> di_indirect (din (one_more sin1)) \<or> b = 0" for b
        using un that a(7) by (auto simp: sin1_def)
    qed (use a b w zm i me e0 inode_okD(1) [OF ok] in \<open>auto simp: sin1_def\<close>)
    then have "grown s sin s3 (one_more sin1)" using i by (simp add: grown_def sin1_def)
    moreover have "blk (img s3) (din sin1) i = m" using B by simp
    moreover have "di_blocks (din sin1) = i" using i by (simp add: sin1_def)
    ultimately show ?thesis using g unfolding get_new_result_def by blast
  qed
qed

lemma load_new:
  assumes wf: "sfs_wf s" and ok: "inode_ok s sin" and i: "i = di_blocks (din sin)" "i < MAX_BLKS"
  obtains (grown) sin' s' where "sfs_bmap_load_nolock i sin s = Some (0, blk (img s') (din sin') i, sin', s')"
      "grown s sin s' sin'"
  | (full) s' where "sfs_bmap_load_nolock i sin s = Some (- E_NO_MEM, 0, sin, s')" "no_room s sin s'"
proof -
  have "get_new_result s sin i (sfs_bmap_get_nolock i True sin s)"
    using get_new_direct [OF wf ok i(1)] get_new_entry [OF wf ok i(1) _ i(2)] get_new_indirect [OF wf ok i(1) _ i(2)]
    by (meson not_le)
  then consider (a) sin1 s' where "sfs_bmap_get_nolock i True sin s = Some (0, blk (img s') (din sin1) i, sin1, s')"
      "grown s sin s' (one_more sin1)" "di_blocks (din sin1) = i"
    | (b) s' where "sfs_bmap_get_nolock i True sin s = Some (- E_NO_MEM, 0, sin, s')" "no_room s sin s'"
    unfolding get_new_result_def by blast
  then show ?thesis
  proof cases
    case a
    have st: "sfs_wf s'" "inode_ok s' (one_more sin1)" using a(2) unfolding grown_def fs_step_def by blast+
    have "used s' (blk (img s') (din sin1) i)" using inode_okD(3) [OF st(2), of i] a(3) by simp
    then have "sfs_block_inuse (blk (img s') (din sin1) i) s' = Some True" using used_inuse [OF st(1)] by simp
    moreover have "to_u32 (Suc i) = Suc i" using i(2) by (simp add: MAX_BLKS_def SFS_NDIRECT_def SFS_BLK_NENTRY_def SFS_BLKSIZE_def)
    ultimately have "sfs_bmap_load_nolock i sin s = Some (0, blk (img s') (din (one_more sin1)) i, one_more sin1, s')"
      using a(1,3) i(1) by (simp add: sfs_bmap_load_nolock_def)
    then show ?thesis using that(1) a(2) by blast
  next
    case b
    then show ?thesis using that(2) i(1) by (simp add: sfs_bmap_load_nolock_def errno)
  qed
qed

section \<open>Writing\<close>

text \<open>From \<open>s\<close> and \<open>sin\<close> to \<open>s'\<close> and \<open>sin'\<close> the data were written at the offset; the rest of the file kept its bytes.\<close>

definition wrote ::
  "'a sfs_fs_scheme \<Rightarrow> sfs_inode \<Rightarrow> nat \<Rightarrow> u8 list \<Rightarrow> 'a sfs_fs_scheme \<Rightarrow> sfs_inode \<Rightarrow> bool" where
  "wrote s sin offset data s' sin' \<longleftrightarrow> fs_step s sin s' sin' \<and> di_size (din sin') = di_size (din sin) \<and>
     di_blocks (din sin) \<le> di_blocks (din sin') \<and>
     (data \<noteq> [] \<longrightarrow> offset + length data \<le> di_blocks (din sin') * SFS_BLKSIZE) \<and>
     (\<forall>k. k < di_blocks (din sin) * SFS_BLKSIZE \<or> offset \<le> k \<and> k < offset + length data \<longrightarrow>
        file_byte (img s') (din sin') k = wr (file_byte (img s) (din sin)) offset data k)"

lemma wrote_nil: "sfs_wf s \<Longrightarrow> inode_ok s sin \<Longrightarrow> wrote s sin x [] s sin"
  by (simp add: wrote_def fs_step_refl)

lemma wrote_wf: "wrote s sin x d s' sin' \<Longrightarrow> sfs_wf s' \<and> inode_ok s' sin'"
  by (simp add: wrote_def fs_step_def)

lemma wrote_append:
  assumes "wrote s sin x d1 s1 sin1" "wrote s1 sin1 (x + length d1) d2 s2 sin2"
  shows "wrote s sin x (d1 @ d2) s2 sin2"
proof -
  have le: "di_blocks (din sin) * SFS_BLKSIZE \<le> di_blocks (din sin1) * SFS_BLKSIZE"
    using assms(1) by (intro mult_le_mono1) (simp add: wrote_def)
  have le2: "di_blocks (din sin1) * SFS_BLKSIZE \<le> di_blocks (din sin2) * SFS_BLKSIZE"
    using assms(2) by (intro mult_le_mono1) (simp add: wrote_def)
  have b: "file_byte (img s2) (din sin2) k = wr (file_byte (img s) (din sin)) x (d1 @ d2) k"
    if k: "k < di_blocks (din sin) * SFS_BLKSIZE \<or> x \<le> k \<and> k < x + length (d1 @ d2)" for k
  proof -
    have e: "d1 \<noteq> [] \<longrightarrow> x + length d1 \<le> di_blocks (din sin1) * SFS_BLKSIZE" using assms(1) by (simp add: wrote_def)
    have k1: "k < di_blocks (din sin1) * SFS_BLKSIZE \<or> x + length d1 \<le> k \<and> k < x + length d1 + length d2"
    proof (cases "k < di_blocks (din sin1) * SFS_BLKSIZE")
      case False
      then have "\<not> k < di_blocks (din sin) * SFS_BLKSIZE" using le by linarith
      then have "x \<le> k" "k < x + length d1 + length d2" using k by auto
      moreover have "x + length d1 \<le> k" using False e calculation(1) by (cases "d1 = []") auto
      ultimately show ?thesis by simp
    qed simp
    then have f2: "file_byte (img s2) (din sin2) k = wr (file_byte (img s1) (din sin1)) (x + length d1) d2 k"
      using assms(2) unfolding wrote_def by blast
    show ?thesis
    proof (cases "x + length d1 \<le> k \<and> k < x + length d1 + length d2")
      case True
      then show ?thesis unfolding f2 wr_append by (simp add: wr_def)
    next
      case False
      then have "file_byte (img s1) (din sin1) k = wr (file_byte (img s) (din sin)) x d1 k"
        using assms(1) k unfolding wrote_def length_append by (metis add.assoc not_le)
      then show ?thesis unfolding f2 wr_append using False by (auto simp: wr_def)
    qed
  qed
  have "d1 @ d2 \<noteq> [] \<longrightarrow> x + length (d1 @ d2) \<le> di_blocks (din sin2) * SFS_BLKSIZE"
    using assms order.trans [OF _ le2, of "x + length d1"] by (cases "d2 = []") (auto simp: wrote_def)
  moreover have "fs_step s sin s2 sin2"
    by (rule fs_step_trans [of _ _ s1 sin1]) (use assms in \<open>simp_all add: wrote_def\<close>)
  moreover have "di_size (din sin2) = di_size (din sin)" "di_blocks (din sin) \<le> di_blocks (din sin2)"
    using assms by (auto simp: wrote_def)
  ultimately show ?thesis using b unfolding wrote_def by blast
qed

lemma block_write_wrote:
  assumes wf: "sfs_wf s" and ok: "inode_ok s sin" and i: "i < di_blocks (din sin)"
    and o: "off + length bs \<le> SFS_BLKSIZE"
    and st: "io_step s (wr (img s) (blk (img s) (din sin) i * SFS_BLKSIZE + off) bs) s'"
  shows "wrote s sin (i * SFS_BLKSIZE + off) bs s' sin"
proof -
  note D = inode_okD [OF ok]
  let ?b = "blk (img s) (din sin) i"
  have w: "sfs_wf s'" "\<And>b. used s' b = used s b" and im: "img s' = wr (img s) (?b * SFS_BLKSIZE + off) bs"
    using sfs_wf_io_step [OF wf st] by auto
  have un: "untouched (img s) (img s') b" if "b \<noteq> ?b" for b
    unfolding im using untouched_wr [OF o that] .
  have B: "blk (img s') (din sin) = blk (img s) (din sin)"
    using un D(7) [OF i] by (intro ext blk_cong) (metis untouched_def)
  have ok': "inode_ok s' sin" using ok w by (simp add: inode_ok_def B)
  have fb: "file_byte (img s') (din sin) k = wr (file_byte (img s) (din sin)) (i * SFS_BLKSIZE + off) bs k" for k
  proof (cases "k div SFS_BLKSIZE = i")
    case True
    then have "k = i * SFS_BLKSIZE + k mod SFS_BLKSIZE" by (metis div_mult_mod_eq)
    then obtain r where r: "k = i * SFS_BLKSIZE + r" "r < SFS_BLKSIZE" by (metis SFS_BLKSIZE_pos(1) mod_less_divisor)
    have "file_byte (img s') (din sin) k = img s' (?b * SFS_BLKSIZE + r)"
      "file_byte (img s) (din sin) k = img s (?b * SFS_BLKSIZE + r)" using r by (simp_all add: file_byte_at B)
    then show ?thesis by (auto simp: im wr_def r(1))
  next
    case False
    have ne: "blk (img s) (din sin) (k div SFS_BLKSIZE) \<noteq> ?b"
    proof (cases "k div SFS_BLKSIZE < di_blocks (din sin)")
      case True
      then show ?thesis using False i D(4) by (auto simp: inj_on_def)
    next
      case f: False
      then show ?thesis using blk_past [OF ok, of "k div SFS_BLKSIZE"] used_bounds [OF D(3) [OF i]] by simp
    qed
    have "\<not> (i * SFS_BLKSIZE + off \<le> k \<and> k < i * SFS_BLKSIZE + off + length bs)"
      using False in_block [of i k] o by linarith
    then show ?thesis using un [OF ne] by (auto simp: file_byte_def B untouched_def wr_def)
  qed
  have "used s b \<and> b \<notin> owned (img s) sin \<Longrightarrow> untouched (img s) (img s') b" for b
    using un i used_bounds [OF D(3) [OF i]] by (auto simp: owned_def)
  moreover have "untouched (img s) (img s') 0" using un used_bounds [OF D(3) [OF i]] by simp
  moreover have "same_fs s s'" "free_blocks s' = free_blocks s" using st by (auto simp: io_step_def same_fs_def)
  ultimately have "fs_step s sin s' sin" using w ok' by (auto simp: fs_step_def owned_def B)
  moreover have "i * SFS_BLKSIZE + off + length bs \<le> di_blocks (din sin) * SFS_BLKSIZE"
    using o mult_le_mono1 [of "Suc i" "di_blocks (din sin)" SFS_BLKSIZE] i by simp
  ultimately show ?thesis using fb by (simp add: wrote_def)
qed

lemma load_wrote:
  assumes wf: "sfs_wf s" and ok: "inode_ok s sin" and i: "i \<le> di_blocks (din sin)" "i < MAX_BLKS"
  obtains (loaded) sin' s' where "sfs_bmap_load_nolock i sin s = Some (0, blk (img s') (din sin') i, sin', s')"
      "wrote s sin x [] s' sin'" "i < di_blocks (din sin')"
  | (full) s' where "sfs_bmap_load_nolock i sin s = Some (- E_NO_MEM, 0, sin, s')" "wrote s sin x [] s' sin"
      "card (free_blocks s') \<le> 1"
proof (cases "i < di_blocks (din sin)")
  case True
  obtain s' where l: "sfs_bmap_load_nolock i sin s = Some (0, blk (img s) (din sin) i, sin, s')" "io_step s (img s) s'"
    "sfs_wf s'" "inode_ok s' sin" using load_old [OF wf ok True] .
  have "img s' = img s" "wrote s sin x [] s' sin"
    using l by (auto simp: wrote_def fs_step_def io_step_def same_fs_def)
  then show ?thesis using that(1) [of s' sin] l(1) True by simp
next
  case False
  then have ii: "i = di_blocks (din sin)" using i by simp
  show ?thesis
    using wf ok ii i(2)
  proof (cases rule: load_new)
    case (grown sin' s')
    then have "wrote s sin x [] s' sin'"
      unfolding grown_def wrote_def by (auto simp: wr_def)
    then show ?thesis using that(1) grown ii by (simp add: grown_def)
  next
    case (full s')
    have "card (free_blocks s') \<le> card (free_blocks s)"
      using full(2) by (intro card_mono) (auto simp: no_room_def fs_step_def)
    then show ?thesis using that(2) full by (auto simp: no_room_def wrote_def)
  qed
qed

text \<open>Outcome of writing \<open>n\<close> bytes from position \<open>pos\<close> of the buffer to file offset \<open>x\<close>: all of them, or
  a proper prefix when the disk is full.\<close>

definition io_wrote ::
  "'a sfs_fs_scheme \<Rightarrow> sfs_inode \<Rightarrow> nat \<Rightarrow> u8 list \<Rightarrow> nat \<Rightarrow> nat \<Rightarrow>
   (int \<times> nat \<times> u8 list \<times> sfs_inode \<times> 'a sfs_fs_scheme) option \<Rightarrow> bool" where
  "io_wrote s sin x buf pos n r \<longleftrightarrow> (\<exists>ret m sin' s'. r = Some (ret, m, buf, sin', s') \<and>
     wrote s sin x (take m (drop pos buf)) s' sin' \<and>
     (ret = 0 \<and> m = n \<or> ret = - E_NO_MEM \<and> m < n \<and> card (free_blocks s') \<le> 1))"

lemma put_bytes_same: "k \<le> length m \<Longrightarrow> put_bytes m k (drop k m) = m"
  by (simp add: put_bytes_def)

lemma put_bytes_same': "k + n \<le> length m \<Longrightarrow> put_bytes m k (take n (drop k m)) = m"
  using append_take_drop_id [of n "drop k m"] by (simp add: put_bytes_def add.commute)

lemma io_part_write:
  assumes wf: "sfs_wf s" and ok: "inode_ok s sin" and i: "i \<le> di_blocks (din sin)" "i < MAX_BLKS"
    and n: "0 < n" "off + n \<le> SFS_BLKSIZE" "pos + n \<le> length buf"
  shows "io_wrote s sin (i * SFS_BLKSIZE + off) buf pos n (io_part True i off n pos buf sin s)"
  using wf ok i
proof (cases rule: load_wrote [where x = "i * SFS_BLKSIZE + off"])
  case (loaded sin1 s1)
  have w1: "sfs_wf s1" "inode_ok s1 sin1" using wrote_wf [OF loaded(2)] by auto
  let ?b = "blk (img s1) (din sin1) i"
  have ub: "?b < s_blocks (super s1)" "?b \<noteq> 0" using used_bounds [OF inode_okD(3) [OF w1(2) loaded(3)]] by auto
  obtain s2 where w2: "sfs_wbuf (drop pos buf) n ?b (int off) s1 = Some (0, drop pos buf, s2)"
    "io_step s1 (wr (img s1) (?b * SFS_BLKSIZE + off) (take n (drop pos buf))) s2"
    using wbuf_step [OF sfs_wf_ok [OF w1(1)] ub, of off n "drop pos buf"] n le_diff_conv2 [of pos "length buf" n] by auto
  have "wrote s1 sin1 (i * SFS_BLKSIZE + off) (take n (drop pos buf)) s2 sin1"
    by (rule block_write_wrote [OF w1 loaded(3) _ w2(2)]) (use n in simp)
  then have "wrote s sin (i * SFS_BLKSIZE + off) (take n (drop pos buf)) s2 sin1"
    using wrote_append [OF loaded(2)] by simp
  moreover have "io_part True i off n pos buf sin s = Some (0, n, buf, sin1, s2)"
    using loaded(1) w2(1) n by (simp add: io_part_def sfs_buf_op_def put_bytes_same)
  ultimately show ?thesis unfolding io_wrote_def by blast
next
  case (full s1)
  then show ?thesis using n by (auto simp: io_part_def io_wrote_def errno)
qed

lemma io_blocks_write:
  assumes "sfs_wf s" "inode_ok s sin" "i \<le> di_blocks (din sin)" "i + n \<le> MAX_BLKS" "pos + n * SFS_BLKSIZE \<le> length buf"
  shows "io_wrote s sin (i * SFS_BLKSIZE) buf pos (n * SFS_BLKSIZE) (io_blocks True n i pos buf sin s)"
  using assms
proof (induction n arbitrary: i pos sin s)
  case 0
  then show ?case using wrote_nil by (auto simp: io_wrote_def)
next
  case (Suc n)
  have i: "i < MAX_BLKS" using Suc.prems by simp
  show ?case
    using Suc.prems(1,2,3) i
  proof (cases rule: load_wrote [where x = "i * SFS_BLKSIZE"])
    case (loaded sin1 s1)
    have w1: "sfs_wf s1" "inode_ok s1 sin1" using wrote_wf [OF loaded(2)] by auto
    let ?b = "blk (img s1) (din sin1) i" and ?d = "take SFS_BLKSIZE (drop pos buf)"
    have ld: "length ?d = SFS_BLKSIZE" and pb: "put_bytes buf pos ?d = buf"
      using Suc.prems(5) put_bytes_same' [of pos SFS_BLKSIZE buf] by simp_all
    have ub: "?b < s_blocks (super s1)" "?b \<noteq> 0" using used_bounds [OF inode_okD(3) [OF w1(2) loaded(3)]] by auto
    obtain s2 where w2: "sfs_wblock ?d ?b 1 s1 = Some (0, ?d, s2)" "io_step s1 (wr (img s1) (?b * SFS_BLKSIZE) ?d) s2"
      using wblock1_step [OF sfs_wf_ok [OF w1(1)] ub ld] by blast
    have "wrote s1 sin1 (i * SFS_BLKSIZE + 0) ?d s2 sin1"
      by (rule block_write_wrote [OF w1 loaded(3)]) (use w2(2) ld in simp_all)
    then have wr1: "wrote s sin (i * SFS_BLKSIZE) ?d s2 sin1" using wrote_append [OF loaded(2)] by simp
    have "io_wrote s2 sin1 (Suc i * SFS_BLKSIZE) buf (pos + SFS_BLKSIZE) (n * SFS_BLKSIZE)
        (io_blocks True n (Suc i) (pos + SFS_BLKSIZE) buf sin1 s2)"
      using wrote_wf [OF wr1] Suc.prems loaded(3) by (intro Suc.IH) auto
    then obtain ret m sin' s' where r: "io_blocks True n (Suc i) (pos + SFS_BLKSIZE) buf sin1 s2 = Some (ret, m, buf, sin', s')"
      "wrote s2 sin1 (Suc i * SFS_BLKSIZE) (take m (drop (pos + SFS_BLKSIZE) buf)) s' sin'"
      "ret = 0 \<and> m = n * SFS_BLKSIZE \<or> ret = - E_NO_MEM \<and> m < n * SFS_BLKSIZE \<and> card (free_blocks s') \<le> 1"
      unfolding io_wrote_def by blast
    have x: "Suc i * SFS_BLKSIZE = i * SFS_BLKSIZE + length ?d" using ld by simp
    have tk: "?d @ take m (drop (pos + SFS_BLKSIZE) buf) = take (SFS_BLKSIZE + m) (drop pos buf)"
      by (simp add: take_add add.commute)
    have "wrote s sin (i * SFS_BLKSIZE) (take (SFS_BLKSIZE + m) (drop pos buf)) s' sin'"
      using wrote_append [OF wr1 r(2) [unfolded x]] tk by simp
    moreover have "io_blocks True (Suc n) i pos buf sin s = Some (ret, SFS_BLKSIZE + m, buf, sin', s')"
      using loaded(1) w2(1) r(1) pb by (simp add: sfs_block_op_def)
    ultimately show ?thesis using r(3) unfolding io_wrote_def by auto
  next
    case (full s1)
    then show ?thesis by (auto simp: io_wrote_def errno)
  qed
qed

lemma io_wrote_seq:
  assumes "wrote s sin x (take n1 (drop pos buf)) s1 sin1" "pos + n1 \<le> length buf"
    "io_wrote s1 sin1 (x + n1) buf (pos + n1) n2 (Some (ret, m, buf, sin2, s2))"
  shows "io_wrote s sin x buf pos (n1 + n2) (Some (ret, n1 + m, buf, sin2, s2))"
proof -
  have w: "wrote s1 sin1 (x + n1) (take m (drop (pos + n1) buf)) s2 sin2"
    using assms(3) by (simp add: io_wrote_def)
  have "length (take n1 (drop pos buf)) = n1" using assms(2) by simp
  then have "wrote s sin x (take n1 (drop pos buf) @ take m (drop (pos + n1) buf)) s2 sin2"
    using wrote_append [OF assms(1)] w by simp
  moreover have "take (n1 + m) (drop pos buf) = take n1 (drop pos buf) @ take m (drop (pos + n1) buf)"
    by (simp add: take_add add.commute [of pos n1])
  ultimately show ?thesis using assms(3) by (auto simp: io_wrote_def)
qed

lemma io_wrote_cases:
  assumes "io_wrote s sin x buf pos n r"
  obtains (all) sin' s' where "r = Some (0, n, buf, sin', s')" "wrote s sin x (take n (drop pos buf)) s' sin'"
  | (part) m sin' s' where "r = Some (- E_NO_MEM, m, buf, sin', s')" "wrote s sin x (take m (drop pos buf)) s' sin'"
      "m < n" "card (free_blocks s') \<le> 1"
  using assms unfolding io_wrote_def by blast

lemma io_wrote_fail:
  "wrote s sin x (take m (drop pos buf)) s' sin' \<Longrightarrow> m < n \<Longrightarrow> card (free_blocks s') \<le> 1 \<Longrightarrow>
    io_wrote s sin x buf pos n (Some (- E_NO_MEM, m, buf, sin', s'))"
  by (simp add: io_wrote_def)

lemma io_wrote_all:
  "wrote s sin x (take n (drop pos buf)) s' sin' \<Longrightarrow> io_wrote s sin x buf pos n (Some (0, n, buf, sin', s'))"
  by (simp add: io_wrote_def)

lemma io_rest_write:
  assumes wf: "sfs_wf s" and ok: "inode_ok s sin" and i: "i \<le> di_blocks (din sin)"
    and n: "(i + n) * SFS_BLKSIZE + rest \<le> MAX_BLKS * SFS_BLKSIZE" "rest < SFS_BLKSIZE"
    and l: "pos + n * SFS_BLKSIZE + rest \<le> length buf"
  shows "io_wrote s sin (i * SFS_BLKSIZE) buf pos (n * SFS_BLKSIZE + rest) (io_rest True n i rest pos buf sin s)"
proof -
  have m: "i + n \<le> MAX_BLKS" using n(1) by (metis SFS_BLKSIZE_pos(1) add_leD1 mult_le_cancel2)
  have "io_wrote s sin (i * SFS_BLKSIZE) buf pos (n * SFS_BLKSIZE) (io_blocks True n i pos buf sin s)"
    by (rule io_blocks_write [OF wf ok i m]) (use l in simp)
  then show ?thesis
  proof (cases rule: io_wrote_cases)
    case (all sin1 s1)
    have w1: "sfs_wf s1" "inode_ok s1 sin1" using wrote_wf [OF all(2)] by auto
    show ?thesis
    proof (cases "rest = 0")
      case True
      then show ?thesis using io_wrote_all [OF all(2)] all(1) by (simp add: io_rest_def)
    next
      case False
      have "di_blocks (din sin) \<le> di_blocks (din sin1)" using all(2) by (simp add: wrote_def)
      moreover have "(i + n) * SFS_BLKSIZE \<le> di_blocks (din sin1) * SFS_BLKSIZE" if "n \<noteq> 0"
      proof -
        have "0 < n * SFS_BLKSIZE" using that by simp
        then have "\<not> length buf \<le> pos" using l by linarith
        then show ?thesis using all(2) that l by (simp add: wrote_def add_mult_distrib)
      qed
      ultimately have in1: "i + n \<le> di_blocks (din sin1)" using i by (cases "n = 0") auto
      have mm: "i + n < MAX_BLKS"
      proof (rule ccontr)
        assume "\<not> i + n < MAX_BLKS"
        then have "MAX_BLKS * SFS_BLKSIZE \<le> (i + n) * SFS_BLKSIZE" by (intro mult_le_mono1) simp
        then show False using n(1) False by linarith
      qed
      have "io_wrote s1 sin1 ((i + n) * SFS_BLKSIZE + 0) buf (pos + n * SFS_BLKSIZE) rest
          (io_part True (i + n) 0 rest (pos + n * SFS_BLKSIZE) buf sin1 s1)"
        by (rule io_part_write [OF w1 in1 mm]) (use False n l in auto)
      then obtain ret k sin2 s2 where p: "io_part True (i + n) 0 rest (pos + n * SFS_BLKSIZE) buf sin1 s1 = Some (ret, k, buf, sin2, s2)"
        "io_wrote s1 sin1 (i * SFS_BLKSIZE + n * SFS_BLKSIZE) buf (pos + n * SFS_BLKSIZE) rest (Some (ret, k, buf, sin2, s2))"
        by (auto simp: io_wrote_def add_mult_distrib)
      have "io_rest True n i rest pos buf sin s = Some (ret, n * SFS_BLKSIZE + k, buf, sin2, s2)"
        using all(1) p(1) False by (simp add: io_rest_def)
      then show ?thesis using io_wrote_seq [OF all(2) _ p(2)] l by simp
    qed
  next
    case (part m sin1 s1)
    then show ?thesis using io_wrote_fail [OF part(2), of "n * SFS_BLKSIZE + rest"] by (simp add: io_rest_def errno)
  qed
qed

lemma span_split:
  fixes offset endpos :: nat
  assumes "offset < endpos"
  defines "i \<equiv> offset div SFS_BLKSIZE" and "off \<equiv> offset mod SFS_BLKSIZE"
    and "n \<equiv> endpos div SFS_BLKSIZE - offset div SFS_BLKSIZE" and "rest \<equiv> endpos mod SFS_BLKSIZE"
  shows "offset = i * SFS_BLKSIZE + off" "off < SFS_BLKSIZE" "rest < SFS_BLKSIZE"
    "endpos = (i + n) * SFS_BLKSIZE + rest"
    "n = 0 \<Longrightarrow> off + (endpos - offset) = rest"
proof -
  show o: "offset = i * SFS_BLKSIZE + off" and "off < SFS_BLKSIZE" "rest < SFS_BLKSIZE"
    by (simp_all add: i_def off_def rest_def)
  have "i \<le> endpos div SFS_BLKSIZE" using assms(1) by (simp add: i_def div_le_mono)
  then have "i + n = endpos div SFS_BLKSIZE" by (simp add: i_def n_def)
  then show e: "endpos = (i + n) * SFS_BLKSIZE + rest" by (simp add: rest_def)
  show "off + (endpos - offset) = rest" if "n = 0" using e o that assms(1) by simp
qed

lemma io_span_write:
  assumes wf: "sfs_wf s" and ok: "inode_ok s sin" and o: "offset \<le> di_blocks (din sin) * SFS_BLKSIZE"
    and e: "offset < endpos" "endpos \<le> MAX_BLKS * SFS_BLKSIZE" "endpos - offset \<le> length buf"
  shows "io_wrote s sin offset buf 0 (endpos - offset) (io_span True offset endpos buf sin s)"
proof -
  define i off n rest where d: "i = offset div SFS_BLKSIZE" "off = offset mod SFS_BLKSIZE"
    "n = endpos div SFS_BLKSIZE - offset div SFS_BLKSIZE" "rest = endpos mod SFS_BLKSIZE"
  note sp = span_split [OF e(1), folded d]
  have i: "i \<le> di_blocks (din sin)"
    using div_le_mono [OF o, of SFS_BLKSIZE] by (simp add: d)
  show ?thesis
  proof (cases "off = 0")
    case True
    then have off: "offset = i * SFS_BLKSIZE" and en: "endpos - offset = n * SFS_BLKSIZE + rest"
      using sp(1,4) by (simp_all add: add_mult_distrib)
    have "io_wrote s sin (i * SFS_BLKSIZE) buf 0 (n * SFS_BLKSIZE + rest) (io_rest True n i rest 0 buf sin s)"
      by (rule io_rest_write [OF wf ok i]) (use sp e en in auto)
    moreover have "io_span True offset endpos buf sin s = io_rest True n i rest 0 buf sin s"
      using True by (simp add: io_span_def Let_def d)
    ultimately show ?thesis using off en by metis
  next
    case False
    define sz where "sz = (if n \<noteq> 0 then SFS_BLKSIZE - off else endpos - offset)"
    have iM: "i < MAX_BLKS"
    proof -
      have "i * SFS_BLKSIZE < MAX_BLKS * SFS_BLKSIZE" using sp(1) e by linarith
      then show ?thesis by simp
    qed
    have nb: "SFS_BLKSIZE \<le> n * SFS_BLKSIZE" if "n \<noteq> 0" using that by simp
    have len: "endpos - offset = n * SFS_BLKSIZE + rest - off" using sp(1,4) e(1) by (simp add: add_mult_distrib)
    have "sz \<le> endpos - offset"
    proof (cases "n = 0")
      case False
      then have "sz = SFS_BLKSIZE - off" by (simp add: sz_def)
      then show ?thesis using nb [OF False] len by linarith
    qed (simp add: sz_def)
    moreover have "0 < sz" "off + sz \<le> SFS_BLKSIZE" using sp(2,3) sp(5) e(1) by (auto simp: sz_def)
    ultimately have szb: "0 < sz" "off + sz \<le> SFS_BLKSIZE" "sz \<le> endpos - offset" by auto
    have "io_wrote s sin (i * SFS_BLKSIZE + off) buf 0 sz (io_part True i off sz 0 buf sin s)"
      by (rule io_part_write [OF wf ok i iM]) (use szb e(3) in auto)
    then show ?thesis
    proof (cases rule: io_wrote_cases)
      case (all sin1 s1)
      have w1: "sfs_wf s1" "inode_ok s1 sin1" using wrote_wf [OF all(2)] by auto
      show ?thesis
      proof (cases "n = 0")
        case True
        then have "io_span True offset endpos buf sin s = Some (0, sz, buf, sin1, s1)" "sz = endpos - offset"
          using False all(1) d by (simp_all add: io_span_def Let_def sz_def)
        then show ?thesis using io_wrote_all [OF all(2)] sp(1) by simp
      next
        case n0: False
        have sz: "sz = SFS_BLKSIZE - off" using n0 by (simp add: sz_def)
        have "length (take sz (drop 0 buf)) = sz" "take sz (drop 0 buf) \<noteq> []" using szb e(3) by auto
        then have "i * SFS_BLKSIZE + off + sz \<le> di_blocks (din sin1) * SFS_BLKSIZE"
          using all(2) unfolding wrote_def by metis
        then have "Suc i * SFS_BLKSIZE \<le> di_blocks (din sin1) * SFS_BLKSIZE" using sz sp(2) by simp
        then have i1: "i + 1 \<le> di_blocks (din sin1)" by (metis SFS_BLKSIZE_pos(1) Suc_eq_plus1 mult_le_cancel2)
        have dist: "n * SFS_BLKSIZE = (n - 1) * SFS_BLKSIZE + SFS_BLKSIZE" using n0 by (cases n) auto
        have in1: "i + 1 + (n - 1) = i + n" using n0 by simp
        have x: "(i + 1) * SFS_BLKSIZE = i * SFS_BLKSIZE + off + sz" using sz sp(2) by simp
        let ?r = "io_rest True (n - 1) (i + 1) rest sz buf sin1 s1"
        have "io_wrote s1 sin1 ((i + 1) * SFS_BLKSIZE) buf sz ((n - 1) * SFS_BLKSIZE + rest) ?r"
        proof (rule io_rest_write [OF w1 i1])
          show "(i + 1 + (n - 1)) * SFS_BLKSIZE + rest \<le> MAX_BLKS * SFS_BLKSIZE" unfolding in1 using sp(4) e(2) by simp
          show "sz + (n - 1) * SFS_BLKSIZE + rest \<le> length buf" using e(3) len dist sz sp(2) by linarith
        qed (rule sp(3))
        then have w: "io_wrote s1 sin1 (i * SFS_BLKSIZE + off + sz) buf (0 + sz) ((n - 1) * SFS_BLKSIZE + rest) ?r"
          unfolding x by simp
        then obtain ret m sin2 s2 where r1: "?r = Some (ret, m, buf, sin2, s2)" unfolding io_wrote_def by blast
        note r = r1 w [unfolded r1]
        have "io_span True offset endpos buf sin s = Some (ret, sz + m, buf, sin2, s2)"
          using False all(1) n0 r(1) d by (simp add: io_span_def Let_def sz_def)
        moreover have "sz + ((n - 1) * SFS_BLKSIZE + rest) = endpos - offset" using len dist sz sp(2) by linarith
        ultimately show ?thesis using io_wrote_seq [OF all(2) _ r(2)] szb e(3) sp(1) by simp
      qed
    next
      case (part m sin1 s1)
      have "m < endpos - offset" using part(3) szb(3) by linarith
      moreover have "io_span True offset endpos buf sin s = Some (- E_NO_MEM, m, buf, sin1, s1)"
        using False part(1) unfolding io_span_def Let_def sz_def d by (simp only: if_True if_False) (simp add: errno)
      ultimately show ?thesis using io_wrote_fail [OF part(2) _ part(4)] sp(1) by simp
    qed
  qed
qed

section \<open>Reading\<close>

text \<open>Outcome of reading \<open>n\<close> bytes at file offset \<open>x\<close> to position \<open>pos\<close> of the buffer.\<close>

definition io_read ::
  "'a sfs_fs_scheme \<Rightarrow> sfs_inode \<Rightarrow> nat \<Rightarrow> u8 list \<Rightarrow> nat \<Rightarrow> nat \<Rightarrow>
   (int \<times> nat \<times> u8 list \<times> sfs_inode \<times> 'a sfs_fs_scheme) option \<Rightarrow> bool" where
  "io_read s sin x buf pos n r \<longleftrightarrow> (\<exists>s'. io_step s (img s) s' \<and>
     r = Some (0, n, put_bytes buf pos (rd (file_byte (img s) (din sin)) x n), sin, s'))"

lemma io_step_same:
  assumes "sfs_wf s" "inode_ok s sin" "io_step s (img s) s'"
  shows "sfs_wf s'" "inode_ok s' sin" "img s' = img s"
  using sfs_wf_io_step [OF assms(1,3)] assms(2) by (auto simp: inode_ok_def)

lemma io_step_refl: "sfs_wf s \<Longrightarrow> io_step s (img s) s"
  by (simp add: io_step_def sfs_wf_def)

lemma put_bytes_drop:
  "pos + length bs \<le> length m \<Longrightarrow> put_bytes m pos (put_bytes (drop pos m) 0 bs) = put_bytes m pos bs"
  by (simp add: put_bytes_def add.commute)

lemma rd_file_block:
  "off + n \<le> SFS_BLKSIZE \<Longrightarrow> rd (file_byte f di) (i * SFS_BLKSIZE + off) n = rd f (blk f di i * SFS_BLKSIZE + off) n"
  by (rule nth_equalityI) (simp_all add: add.assoc file_byte_at)

lemma io_read_seq:
  assumes "pos + n1 + n2 \<le> length buf" "io_step s (img s) s1"
    "io_read s1 sin (x + n1) (put_bytes buf pos (rd (file_byte (img s) (din sin)) x n1)) (pos + n1) n2
       (Some (ret, m, buf', sin', s2))"
  shows "io_read s sin x buf pos (n1 + n2) (Some (ret, n1 + m, buf', sin', s2))"
proof -
  have i: "img s1 = img s" using assms(2) by (simp add: io_step_def)
  have "put_bytes (put_bytes buf pos (rd (file_byte (img s) (din sin)) x n1)) (pos + n1)
      (rd (file_byte (img s) (din sin)) (x + n1) n2) = put_bytes buf pos (rd (file_byte (img s) (din sin)) x (n1 + n2))"
    using put_bytes_append [of pos "rd (file_byte (img s) (din sin)) x n1"
        "rd (file_byte (img s) (din sin)) (x + n1) n2" buf] assms(1) by (simp add: rd_append)
  then show ?thesis using assms(2,3) by (auto simp: io_read_def i intro: io_step_trans)
qed

lemma io_part_read:
  assumes wf: "sfs_wf s" and ok: "inode_ok s sin" and i: "i < di_blocks (din sin)"
    and n: "0 < n" "off + n \<le> SFS_BLKSIZE" "pos + n \<le> length buf"
  shows "io_read s sin (i * SFS_BLKSIZE + off) buf pos n (io_part False i off n pos buf sin s)"
proof -
  obtain s1 where l: "sfs_bmap_load_nolock i sin s = Some (0, blk (img s) (din sin) i, sin, s1)" "io_step s (img s) s1"
    "sfs_wf s1" "inode_ok s1 sin" using load_old [OF wf ok i] .
  let ?b = "blk (img s) (din sin) i"
  have im: "img s1 = img s" using l(2) by (simp add: io_step_def)
  have ub: "?b < s_blocks (super s1)" "?b \<noteq> 0" using used_bounds [OF inode_okD(3) [OF l(4) i]] by (auto simp: im)
  obtain s2 where r: "sfs_rbuf (drop pos buf) n ?b (int off) s1 =
      Some (0, put_bytes (drop pos buf) 0 (rd (img s) (?b * SFS_BLKSIZE + off) n), s2)" "io_step s1 (img s) s2"
    using rbuf_step [OF sfs_wf_ok [OF l(3)] ub, of off n "drop pos buf"] n by (auto simp: im)
  have "io_part False i off n pos buf sin s =
      Some (0, n, put_bytes buf pos (rd (file_byte (img s) (din sin)) (i * SFS_BLKSIZE + off) n), sin, s2)"
    using l(1) r(1) n by (simp add: io_part_def sfs_buf_op_def rd_file_block put_bytes_drop)
  then show ?thesis using io_step_trans [OF l(2) r(2)] by (simp add: io_read_def)
qed

lemma io_blocks_read:
  assumes "sfs_wf s" "inode_ok s sin" "i + n \<le> di_blocks (din sin)" "pos + n * SFS_BLKSIZE \<le> length buf"
  shows "io_read s sin (i * SFS_BLKSIZE) buf pos (n * SFS_BLKSIZE) (io_blocks False n i pos buf sin s)"
  using assms
proof (induction n arbitrary: i pos buf s)
  case 0
  then show ?case by (auto simp: io_read_def put_bytes_def io_step_refl)
next
  case (Suc n)
  have i: "i < di_blocks (din sin)" using Suc.prems by simp
  obtain s1 where l: "sfs_bmap_load_nolock i sin s = Some (0, blk (img s) (din sin) i, sin, s1)" "io_step s (img s) s1"
    "sfs_wf s1" "inode_ok s1 sin" using load_old [OF Suc.prems(1,2) i] .
  let ?b = "blk (img s) (din sin) i" and ?d = "rd (file_byte (img s) (din sin)) (i * SFS_BLKSIZE) SFS_BLKSIZE"
  have im: "img s1 = img s" using l(2) by (simp add: io_step_def)
  have ub: "?b < s_blocks (super s1)" "?b \<noteq> 0" using used_bounds [OF inode_okD(3) [OF l(4) i]] by (auto simp: im)
  have d: "?d = rd (img s) (?b * SFS_BLKSIZE) SFS_BLKSIZE" using rd_file_block [of 0 SFS_BLKSIZE] by simp
  obtain s2 where r: "sfs_rblock (take SFS_BLKSIZE (drop pos buf)) ?b 1 s1 = Some (0, ?d, s2)" "io_step s1 (img s) s2"
    using rblock1_step [OF sfs_wf_ok [OF l(3)] ub, of "take SFS_BLKSIZE (drop pos buf)"] Suc.prems(4) by (auto simp: im d)
  let ?buf = "put_bytes buf pos ?d"
  have st: "io_step s (img s) s2" using io_step_trans [OF l(2) r(2)] .
  note w2 = io_step_same [OF Suc.prems(1,2) st]
  have "io_read s2 sin (Suc i * SFS_BLKSIZE) ?buf (pos + SFS_BLKSIZE) (n * SFS_BLKSIZE)
      (io_blocks False n (Suc i) (pos + SFS_BLKSIZE) ?buf sin s2)"
    by (rule Suc.IH [OF w2(1,2)]) (use Suc.prems in auto)
  then obtain m buf' sin' s' where q: "io_blocks False n (Suc i) (pos + SFS_BLKSIZE) ?buf sin s2 = Some (0, m, buf', sin', s')"
    "io_read s2 sin (i * SFS_BLKSIZE + SFS_BLKSIZE) ?buf (pos + SFS_BLKSIZE) (n * SFS_BLKSIZE) (Some (0, m, buf', sin', s'))"
    by (auto simp: io_read_def add.commute)
  have "io_blocks False (Suc n) i pos buf sin s = Some (0, SFS_BLKSIZE + m, buf', sin', s')"
    using l(1) r(1) q(1) by (simp add: sfs_block_op_def)
  then show ?case using io_read_seq [OF _ st q(2)] Suc.prems(4) by simp
qed

lemma io_readD:
  assumes "io_read s sin x buf pos n r"
  obtains s' where "r = Some (0, n, put_bytes buf pos (rd (file_byte (img s) (din sin)) x n), sin, s')" "io_step s (img s) s'"
  using assms unfolding io_read_def by blast

lemma io_rest_read:
  assumes wf: "sfs_wf s" and ok: "inode_ok s sin"
    and n: "(i + n) * SFS_BLKSIZE + rest \<le> di_blocks (din sin) * SFS_BLKSIZE" "rest < SFS_BLKSIZE"
    and l: "pos + n * SFS_BLKSIZE + rest \<le> length buf"
  shows "io_read s sin (i * SFS_BLKSIZE) buf pos (n * SFS_BLKSIZE + rest) (io_rest False n i rest pos buf sin s)"
proof -
  have m: "i + n \<le> di_blocks (din sin)" using n(1) by (metis SFS_BLKSIZE_pos(1) add_leD1 mult_le_cancel2)
  let ?b1 = "put_bytes buf pos (rd (file_byte (img s) (din sin)) (i * SFS_BLKSIZE) (n * SFS_BLKSIZE))"
  have rb: "io_read s sin (i * SFS_BLKSIZE) buf pos (n * SFS_BLKSIZE) (io_blocks False n i pos buf sin s)"
    by (rule io_blocks_read [OF wf ok m]) (use l in simp)
  then obtain s1 where r1: "io_blocks False n i pos buf sin s = Some (0, n * SFS_BLKSIZE, ?b1, sin, s1)"
    "io_step s (img s) s1" by (rule io_readD)
  note w1 = io_step_same [OF wf ok r1(2)]
  show ?thesis
  proof (cases "rest = 0")
    case True
    then show ?thesis using rb r1(1) by (simp add: io_rest_def)
  next
    case False
    have mm: "i + n < di_blocks (din sin)"
    proof (rule ccontr)
      assume "\<not> i + n < di_blocks (din sin)"
      then have "di_blocks (din sin) * SFS_BLKSIZE \<le> (i + n) * SFS_BLKSIZE" by (intro mult_le_mono1) simp
      then show False using n(1) False by linarith
    qed
    have "io_read s1 sin ((i + n) * SFS_BLKSIZE + 0) ?b1 (pos + n * SFS_BLKSIZE) rest
        (io_part False (i + n) 0 rest (pos + n * SFS_BLKSIZE) ?b1 sin s1)"
      by (rule io_part_read [OF w1(1,2) mm]) (use False n l in auto)
    then have p2: "io_read s1 sin (i * SFS_BLKSIZE + n * SFS_BLKSIZE) ?b1 (pos + n * SFS_BLKSIZE) rest
        (io_part False (i + n) 0 rest (pos + n * SFS_BLKSIZE) ?b1 sin s1)" by (simp add: add_mult_distrib)
    then obtain b2 s2 where p1: "io_part False (i + n) 0 rest (pos + n * SFS_BLKSIZE) ?b1 sin s1 = Some (0, rest, b2, sin, s2)"
      by (rule io_readD)
    have "io_rest False n i rest pos buf sin s = Some (0, n * SFS_BLKSIZE + rest, b2, sin, s2)"
      using r1(1) p1 False by (simp add: io_rest_def)
    then show ?thesis using io_read_seq [OF _ r1(2) p2 [unfolded p1]] l by simp
  qed
qed

lemma io_span_read:
  assumes wf: "sfs_wf s" and ok: "inode_ok s sin"
    and e: "offset < endpos" "endpos \<le> di_blocks (din sin) * SFS_BLKSIZE" "endpos - offset \<le> length buf"
  shows "io_read s sin offset buf 0 (endpos - offset) (io_span False offset endpos buf sin s)"
proof -
  define i off n rest where d: "i = offset div SFS_BLKSIZE" "off = offset mod SFS_BLKSIZE"
    "n = endpos div SFS_BLKSIZE - offset div SFS_BLKSIZE" "rest = endpos mod SFS_BLKSIZE"
  note sp = span_split [OF e(1), folded d]
  show ?thesis
  proof (cases "off = 0")
    case True
    then have off: "offset = i * SFS_BLKSIZE" and en: "endpos - offset = n * SFS_BLKSIZE + rest"
      using sp(1,4) by (simp_all add: add_mult_distrib)
    have "io_read s sin (i * SFS_BLKSIZE) buf 0 (n * SFS_BLKSIZE + rest) (io_rest False n i rest 0 buf sin s)"
      by (rule io_rest_read [OF wf ok]) (use sp e en in auto)
    moreover have "io_span False offset endpos buf sin s = io_rest False n i rest 0 buf sin s"
      using True by (simp add: io_span_def Let_def d)
    ultimately show ?thesis using off en by metis
  next
    case False
    define sz where "sz = (if n \<noteq> 0 then SFS_BLKSIZE - off else endpos - offset)"
    have iM: "i < di_blocks (din sin)"
    proof -
      have "i * SFS_BLKSIZE < di_blocks (din sin) * SFS_BLKSIZE" using sp(1) e by linarith
      then show ?thesis by simp
    qed
    have nb: "SFS_BLKSIZE \<le> n * SFS_BLKSIZE" if "n \<noteq> 0" using that by simp
    have len: "endpos - offset = n * SFS_BLKSIZE + rest - off" using sp(1,4) e(1) by (simp add: add_mult_distrib)
    have "sz \<le> endpos - offset"
    proof (cases "n = 0")
      case False
      then have "sz = SFS_BLKSIZE - off" by (simp add: sz_def)
      then show ?thesis using nb [OF False] len by linarith
    qed (simp add: sz_def)
    moreover have "0 < sz" "off + sz \<le> SFS_BLKSIZE" using sp(2,3) sp(5) e(1) by (auto simp: sz_def)
    ultimately have szb: "0 < sz" "off + sz \<le> SFS_BLKSIZE" "sz \<le> endpos - offset" by auto
    let ?b1 = "put_bytes buf 0 (rd (file_byte (img s) (din sin)) (i * SFS_BLKSIZE + off) sz)"
    have p: "io_read s sin (i * SFS_BLKSIZE + off) buf 0 sz (io_part False i off sz 0 buf sin s)"
      by (rule io_part_read [OF wf ok iM]) (use szb e(3) in auto)
    then obtain s1 where p1: "io_part False i off sz 0 buf sin s = Some (0, sz, ?b1, sin, s1)" "io_step s (img s) s1"
      by (rule io_readD)
    note w1 = io_step_same [OF wf ok p1(2)]
    show ?thesis
    proof (cases "n = 0")
      case True
      then have "io_span False offset endpos buf sin s = Some (0, sz, ?b1, sin, s1)" "sz = endpos - offset"
        using False p1(1) d by (simp_all add: io_span_def Let_def sz_def)
      then show ?thesis using p p1(1) sp(1) by simp
    next
      case n0: False
      have sz: "sz = SFS_BLKSIZE - off" using n0 by (simp add: sz_def)
      have dist: "n * SFS_BLKSIZE = (n - 1) * SFS_BLKSIZE + SFS_BLKSIZE" using n0 by (cases n) auto
      have in1: "i + 1 + (n - 1) = i + n" using n0 by simp
      have x: "(i + 1) * SFS_BLKSIZE = i * SFS_BLKSIZE + off + sz" using sz sp(2) by simp
      let ?r = "io_rest False (n - 1) (i + 1) rest sz ?b1 sin s1"
      have lb: "length ?b1 = length buf" using szb e(3) by simp
      have "io_read s1 sin ((i + 1) * SFS_BLKSIZE) ?b1 sz ((n - 1) * SFS_BLKSIZE + rest) ?r"
      proof (rule io_rest_read [OF w1(1,2)])
        show "(i + 1 + (n - 1)) * SFS_BLKSIZE + rest \<le> di_blocks (din sin) * SFS_BLKSIZE"
          unfolding in1 using sp(4) e(2) by simp
        show "sz + (n - 1) * SFS_BLKSIZE + rest \<le> length ?b1" using e(3) len dist sz sp(2) lb by linarith
      qed (rule sp(3))
      then have w: "io_read s1 sin (i * SFS_BLKSIZE + off + sz) ?b1 (0 + sz) ((n - 1) * SFS_BLKSIZE + rest) ?r"
        unfolding x by simp
      then obtain b2 s2 where r: "?r = Some (0, (n - 1) * SFS_BLKSIZE + rest, b2, sin, s2)" by (rule io_readD)
      have "io_span False offset endpos buf sin s = Some (0, sz + ((n - 1) * SFS_BLKSIZE + rest), b2, sin, s2)"
        using False p1(1) n0 r d by (simp add: io_span_def Let_def sz_def)
      moreover have "sz + ((n - 1) * SFS_BLKSIZE + rest) = endpos - offset" using len dist sz sp(2) by linarith
      ultimately show ?thesis using io_read_seq [OF _ p1(2) w [unfolded r]] szb e(3) sp(1) by simp
    qed
  qed
qed

section \<open>Files as byte strings\<close>

definition contents :: "'a sfs_fs_scheme \<Rightarrow> sfs_inode \<Rightarrow> u8 list" where
  "contents s sin = rd (file_byte (img s) (din sin)) 0 (di_size (din sin))"

definition file_ok :: "'a sfs_fs_scheme \<Rightarrow> sfs_inode \<Rightarrow> bool" where
  "file_ok s sin \<longleftrightarrow> sfs_wf s \<and> inode_ok s sin \<and> di_size (din sin) \<le> di_blocks (din sin) * SFS_BLKSIZE"

lemma max_file: "n \<le> MAX_BLKS * SFS_BLKSIZE \<Longrightarrow> n < SFS_MAX_FILE_SIZE"
  by (simp add: MAX_BLKS_def SFS_BLKSIZE_def SFS_MAX_FILE_SIZE_def SFS_NDIRECT_def SFS_BLK_NENTRY_def)

lemma file_ok_max: "file_ok s sin \<Longrightarrow> di_size (din sin) < SFS_MAX_FILE_SIZE"
proof (rule max_file)
  assume f: "file_ok s sin"
  then have "di_blocks (din sin) * SFS_BLKSIZE \<le> MAX_BLKS * SFS_BLKSIZE"
    using inode_okD(2) by (intro mult_le_mono1) (auto simp: file_ok_def)
  then show "di_size (din sin) \<le> MAX_BLKS * SFS_BLKSIZE" using f unfolding file_ok_def by linarith
qed

lemma length_contents [simp]: "length (contents s sin) = di_size (din sin)"
  by (simp add: contents_def)

lemma blk_size [simp]: "blk f (di\<lparr>di_size := n\<rparr>) = blk f di"
  by (simp add: fun_eq_iff)

lemma inode_ok_size [simp]:
  "inode_ok s (sin\<lparr>din := (din sin)\<lparr>di_size := n\<rparr>, si_dirty := d\<rparr>) = inode_ok s sin"
  by (simp add: inode_ok_def Let_def)

lemma file_byte_size [simp]: "file_byte f (di\<lparr>di_size := n\<rparr>) = file_byte f di"
  by (simp add: file_byte_def fun_eq_iff)

lemma owned_size [simp]: "owned f (sin\<lparr>din := (din sin)\<lparr>di_size := n\<rparr>, si_dirty := d\<rparr>) = owned f sin"
  by (simp add: owned_def)

lemma fs_step_size:
  "fs_step s sin s' sin' \<Longrightarrow> fs_step s sin s' (sin'\<lparr>din := (din sin')\<lparr>di_size := n\<rparr>, si_dirty := d\<rparr>)"
  by (simp add: fs_step_def)

lemma wrote_contents:
  assumes w: "wrote s sin offset data s' sin'" and f: "file_ok s sin" and o: "offset \<le> di_size (din sin)"
    and n: "n = max (di_size (din sin)) (offset + length data)"
  shows "rd (file_byte (img s') (din sin')) 0 n = put_bytes (contents s sin) offset data"
    and "n \<le> di_blocks (din sin') * SFS_BLKSIZE"
proof -
  let ?c = "contents s sin"
  have fs: "di_size (din sin) \<le> di_blocks (din sin) * SFS_BLKSIZE" using f by (simp add: file_ok_def)
  have bb: "di_blocks (din sin) * SFS_BLKSIZE \<le> di_blocks (din sin') * SFS_BLKSIZE"
    using w by (intro mult_le_mono1) (simp add: wrote_def)
  show "n \<le> di_blocks (din sin') * SFS_BLKSIZE"
    using w n o order.trans [OF fs bb] by (cases "data = []") (simp_all add: wrote_def)
  have l: "length (put_bytes ?c offset data) = n" using o n by (auto simp: put_bytes_def max_def)
  show "rd (file_byte (img s') (din sin')) 0 n = put_bytes ?c offset data"
  proof (rule nth_equalityI)
    fix k assume "k < length (rd (file_byte (img s') (din sin')) 0 n)"
    then have k: "k < n" by simp
    then have kk: "k < di_blocks (din sin) * SFS_BLKSIZE \<or> offset \<le> k \<and> k < offset + length data"
      using n o fs by (auto simp: max_def split: if_splits)
    then have "file_byte (img s') (din sin') k = wr (file_byte (img s) (din sin)) offset data k"
      using w unfolding wrote_def by blast
    then show "rd (file_byte (img s') (din sin')) 0 n ! k = put_bytes ?c offset data ! k"
      using k n o by (auto simp: wr_def put_bytes_def nth_append contents_def max_def split: if_splits)
  qed (use l in simp)
qed

text \<open>C6: Writing to a file is writing into its byte string. At an offset inside the file or at its end, with the data
  inside the block map, the write returns: it wrote all of the data, or it returns out-of-memory with a
  proper prefix written and at most one block left free. The file then consists of its old bytes with
  that prefix put at the offset, the inode and the file system stay consistent, and no block that
  belongs to another file has changed.\<close>

theorem sfs_write_refines:
  assumes f: "file_ok s sin" and ty: "di_type (din sin) \<noteq> SFS_TYPE_DIR" and o: "offset \<le> di_size (din sin)"
    and d: "data \<noteq> []" "offset + length data \<le> MAX_BLKS * SFS_BLKSIZE"
  shows "\<exists>ret n sin' s'. sfs_io_nolock True data (int offset) (length data) sin s = Some (ret, n, data, sin', s') \<and>
    (ret = 0 \<and> n = length data \<or> ret = - E_NO_MEM \<and> n < length data \<and> card (free_blocks s') \<le> 1) \<and>
    contents s' sin' = put_bytes (contents s sin) offset (take n data) \<and>
    file_ok s' sin' \<and> fs_step s sin s' sin'"
proof -
  have wf: "sfs_wf s" and ok: "inode_ok s sin" and sz: "di_size (din sin) \<le> di_blocks (din sin) * SFS_BLKSIZE"
    using f by (simp_all add: file_ok_def)
  have ob: "offset \<le> di_blocks (din sin) * SFS_BLKSIZE" using o sz by linarith
  have len: "0 < length data" using d(1) by simp
  have bd: "offset + length data < SFS_MAX_FILE_SIZE" using max_file [OF d(2)] .
  have eo: "to_off (int offset + int (length data)) = int (offset + length data)"
    using bd by (simp add: SFS_MAX_FILE_SIZE_def)
  have "io_wrote s sin offset data 0 (offset + length data - offset) (io_span True offset (offset + length data) data sin s)"
    by (rule io_span_write [OF wf ok ob]) (use len d in auto)
  then obtain ret n sin1 s' where sp: "io_span True offset (offset + length data) data sin s = Some (ret, n, data, sin1, s')"
    "wrote s sin offset (take n data) s' sin1"
    "ret = 0 \<and> n = length data \<or> ret = - E_NO_MEM \<and> n < length data \<and> card (free_blocks s') \<le> 1"
    unfolding io_wrote_def by auto
  have n: "n \<le> length data" using sp(3) by auto
  define sin' where "sin' = (if offset + n > di_size (din sin1)
      then sin1\<lparr>din := (din sin1)\<lparr>di_size := to_u32 (offset + n)\<rparr>, si_dirty := True\<rparr> else sin1)"
  have s1: "di_size (din sin1) = di_size (din sin)" using sp(2) by (simp add: wrote_def)
  have "to_u32 (offset + n) = offset + n" using bd n by (simp add: SFS_MAX_FILE_SIZE_def)
  then have sz': "di_size (din sin') = max (di_size (din sin)) (offset + length (take n data))"
    using s1 n by (simp add: sin'_def max_def)
  have fb: "file_byte (img s') (din sin') = file_byte (img s') (din sin1)" by (simp add: sin'_def)
  note w = wrote_contents [OF sp(2) f o sz']
  have ty': "sfs_io_nolock True data (int offset) (length data) sin s = Some (ret, n, data, sin', s')"
    unfolding sfs_io_nolock_def eo using ty len bd sp(1) by (simp add: Let_def sin'_def del: of_nat_add)
  have "fs_step s sin s' sin1" using sp(2) by (simp add: wrote_def)
  then have st: "fs_step s sin s' sin'" unfolding sin'_def by (simp add: fs_step_size)
  have "di_blocks (din sin') = di_blocks (din sin1)" by (simp add: sin'_def)
  then have "file_ok s' sin'" using st w(2) by (simp add: file_ok_def fs_step_def)
  moreover have "contents s' sin' = put_bytes (contents s sin) offset (take n data)"
    using w(1) by (simp add: contents_def fb)
  ultimately show ?thesis using ty' sp(3) st by blast
qed

text \<open>C18: Reading from a file is reading from its byte string. The read returns the bytes of the file from the
  offset on, as many as were asked for or as the file has, and changes neither the inode nor the disk.\<close>

theorem sfs_read_refines:
  assumes f: "file_ok s sin" and ty: "di_type (din sin) \<noteq> SFS_TYPE_DIR" and l: "len \<le> length buf"
    and o: "offset < SFS_MAX_FILE_SIZE" "offset + len < 2 ^ 63"
  shows "\<exists>s'. sfs_io_nolock False buf (int offset) len sin s =
      Some (0, min len (di_size (din sin) - offset), put_bytes buf 0 (take len (drop offset (contents s sin))), sin, s') \<and>
    io_step s (img s) s'"
proof -
  have wf: "sfs_wf s" and ok: "inode_ok s sin" and sz: "di_size (din sin) \<le> di_blocks (din sin) * SFS_BLKSIZE"
    using f by (simp_all add: file_ok_def)
  have eo: "to_off (int offset + int len) = int (offset + len)" using o(2) by simp
  show ?thesis
  proof (cases "len = 0 \<or> di_size (din sin) \<le> offset")
    case True
    then have "sfs_io_nolock False buf (int offset) len sin s = Some (0, 0, buf, sin, s)"
      unfolding sfs_io_nolock_def eo using ty o(1) by (auto simp: Let_def)
    then show ?thesis using True io_step_refl [OF wf] by (auto simp: put_bytes_def)
  next
    case False
    define e where "e = min (offset + len) (di_size (din sin))"
    have e: "offset < e" "e \<le> di_blocks (din sin) * SFS_BLKSIZE" "e - offset \<le> length buf"
      using False sz l by (auto simp: e_def)
    obtain s' where r: "io_span False offset e buf sin s =
        Some (0, e - offset, put_bytes buf 0 (rd (file_byte (img s) (din sin)) offset (e - offset)), sin, s')"
      "io_step s (img s) s'" using io_readD [OF io_span_read [OF wf ok e]] .
    have mx: "di_size (din sin) < SFS_MAX_FILE_SIZE" using file_ok_max [OF f] .
    have "sfs_io_nolock False buf (int offset) len sin s = Some (0, e - offset,
        put_bytes buf 0 (rd (file_byte (img s) (din sin)) offset (e - offset)), sin, s')"
    proof -
      have "(if (if int (offset + len) > int SFS_MAX_FILE_SIZE then SFS_MAX_FILE_SIZE else nat (int (offset + len))) >
          di_size (din sin) then di_size (din sin)
          else (if int (offset + len) > int SFS_MAX_FILE_SIZE then SFS_MAX_FILE_SIZE else nat (int (offset + len)))) = e"
        using mx by (auto simp: e_def)
      moreover have "\<not> e > di_size (din sin)" by (simp add: e_def)
      ultimately show ?thesis
        unfolding sfs_io_nolock_def eo using ty False o(1) r(1) e(1)
        by (auto simp: Let_def simp del: of_nat_add)
    qed
    moreover have "rd (file_byte (img s) (din sin)) offset (e - offset) = take len (drop offset (contents s sin))"
      by (rule nth_equalityI) (use False in \<open>auto simp: e_def contents_def\<close>)
    moreover have "e - offset = min len (di_size (din sin) - offset)" using False by (auto simp: e_def)
    ultimately show ?thesis using r(2) by auto
  qed
qed

definition demo_fs :: sfs_fs where
  "demo_fs = \<lparr>super = \<lparr>s_magic = SFS_MAGIC, s_blocks = 8, s_unused_blocks = 4, s_info = replicate 32 0\<rparr>,
     dev = demo_disk, freemap = \<lparr>nbits = 8, nwords = 1, bmap = [0xF0]\<rparr>, super_dirty = False,
     sfs_buffer = replicate SFS_BLKSIZE 0\<rparr>"

definition demo_file :: sfs_inode where
  "demo_file = \<lparr>din = \<lparr>di_size = 0, di_type = SFS_TYPE_FILE, di_nlinks = 1, di_blocks = 0,
     di_direct = replicate SFS_NDIRECT 0, di_indirect = 0\<rparr>, si_ino = 3, si_dirty = False, reclaim_count = 1\<rparr>"

lemma demo_free: "free_blocks demo_fs = {4, 5, 6, 7}"
proof -
  have "free_blocks demo_fs = set (filter (bit_at (freemap demo_fs)) [0..<32])"
    by (auto simp: free_bits_def demo_fs_def WORD_BITS_def)
  also have "\<dots> = {4, 5, 6, 7}" by (simp add: upt_rec demo_fs_def bit_at_def WORD_BITS_def, simp add: numeral_eq_Suc)
  finally show ?thesis .
qed

lemma demo_file_ok: "file_ok demo_fs demo_file"
proof -
  have "sfs_ok demo_fs" using demo_disk_wf by (simp add: sfs_ok_def demo_fs_def demo_disk_def)
  moreover have "bitmap_wf (freemap demo_fs)"
    using demo_free by (auto simp: bitmap_wf_def) (auto simp: demo_fs_def WORD_BITS_def)
  ultimately have "sfs_wf demo_fs" using demo_free by (simp add: sfs_wf_def) (simp add: demo_fs_def)
  moreover have "used demo_fs 3" using demo_free by (simp add: used_def) (simp add: demo_fs_def)
  moreover have "blk f (din demo_file) i = 0" for f i
    by (simp add: blk_def demo_file_def)
  ultimately show ?thesis by (simp add: file_ok_def inode_ok_def Let_def) (simp add: demo_file_def)
qed

theorem sfs_write_refines_witness:
  "\<exists>ret n sin' s'. sfs_io_nolock True (replicate 5000 1) 0 5000 demo_file demo_fs =
      Some (ret, n, replicate 5000 1, sin', s') \<and>
    contents s' sin' = put_bytes (contents demo_fs demo_file) 0 (take n (replicate 5000 1)) \<and> file_ok s' sin'"
  using sfs_write_refines [OF demo_file_ok, of 0 "replicate 5000 1"]
  by (auto simp: demo_file_def SFS_TYPE_FILE_def SFS_TYPE_DIR_def MAX_BLKS_def SFS_NDIRECT_def SFS_BLK_NENTRY_def
      SFS_BLKSIZE_def)

text \<open>A file of three bytes in block 2.\<close>

definition demo_text :: sfs_inode where
  "demo_text = \<lparr>din = \<lparr>di_size = 3, di_type = SFS_TYPE_FILE, di_nlinks = 1, di_blocks = 1,
     di_direct = 2 # replicate 11 0, di_indirect = 0\<rparr>, si_ino = 3, si_dirty = False, reclaim_count = 1\<rparr>"

lemma demo_text_ok: "file_ok demo_fs demo_text"
proof -
  have wf: "sfs_wf demo_fs" and u3: "used demo_fs 3" using demo_file_ok by (simp_all add: file_ok_def inode_ok_def Let_def demo_file_def)
  have "used demo_fs 2" using demo_free by (simp add: used_def) (simp add: demo_fs_def)
  moreover have "blk f (din demo_text) i = (if i = 0 then 2 else 0)" for f i
    by (auto simp: blk_def demo_text_def SFS_NDIRECT_def nth_Cons')
  ultimately show ?thesis using wf u3
    by (simp add: file_ok_def inode_ok_def Let_def) (simp add: demo_text_def SFS_NDIRECT_def MAX_BLKS_def SFS_BLKSIZE_def inj_on_def)
qed

theorem sfs_read_refines_witness:
  "\<exists>s'. sfs_io_nolock False [1, 2, 3, 4] 1 4 demo_text demo_fs =
     Some (0, 2, put_bytes [1, 2, 3, 4] 0 (drop 1 (contents demo_fs demo_text)), demo_text, s') \<and>
     length (contents demo_fs demo_text) = 3"
proof -
  have l: "length (contents demo_fs demo_text) = 3" by (simp add: contents_def demo_text_def)
  then show ?thesis
    using sfs_read_refines [OF demo_text_ok, of 4 "[1, 2, 3, 4]" 1]
    by (auto simp: demo_text_def SFS_TYPE_FILE_def SFS_TYPE_DIR_def SFS_MAX_FILE_SIZE_def)
qed

end
