(* ===== verification/Sfs_Dir.thy ===== *)
theory Sfs_Dir
  imports Sfs_Inode
begin

text \<open>
  Directories and changing the length of a file, the parts of \<^verbatim>\<open>kern/fs/sfs/sfs_inode.c\<close> that work on one file
  system and one inode.

  A directory entry takes a block; its name is the bytes before the first zero.
\<close>

section \<open>Directory entries\<close>

definition word_at :: "u8 list \<Rightarrow> nat \<Rightarrow> nat" where
  "word_at bs k = unat (of_le32 (take 4 (drop k bs)))"

record sfs_disk_entry =
  de_ino :: nat
  de_name :: "u8 list"

definition sfs_dentry_size :: nat where "sfs_dentry_size = SFS_MAX_FNAME_LEN + 1"

definition entry_of :: "u8 list \<Rightarrow> sfs_disk_entry" where
  "entry_of bs = \<lparr>de_ino = word_at bs 0, de_name = take sfs_dentry_size (drop 4 bs)\<rparr>"

definition cstr :: "u8 list \<Rightarrow> u8 list" where
  "cstr bs = takeWhile (\<lambda>b. b \<noteq> 0) bs"

definition sfs_dirent_read_nolock ::
  "nat \<Rightarrow> sfs_inode \<Rightarrow> 'a sfs_fs_scheme \<Rightarrow> (int \<times> sfs_disk_entry \<times> sfs_inode \<times> 'a sfs_fs_scheme) option" where
  "sfs_dirent_read_nolock slot sin s = do {
     kassert (di_type (din sin) = SFS_TYPE_DIR \<and> slot < di_blocks (din sin));
     (ret, ino, sin, s) \<leftarrow> sfs_bmap_load_nolock slot sin s;
     if ret \<noteq> 0 then Some (ret, \<lparr>de_ino = 0, de_name = []\<rparr>, sin, s)
     else do {
       u \<leftarrow> sfs_block_inuse ino s;
       kassert u;
       (ret, b, s) \<leftarrow> sfs_rbuf (replicate (4 + sfs_dentry_size) 0) (4 + sfs_dentry_size) ino 0 s;
       let e = entry_of b;
       Some (ret, if ret \<noteq> 0 then e else e\<lparr>de_name := (de_name e)[SFS_MAX_FNAME_LEN := 0]\<rparr>, sin, s)
     }
   }"

text \<open>The search: the result is the return value, the inode number and the slot found and the last empty slot seen.\<close>

fun dirent_search_loop ::
  "u8 list \<Rightarrow> nat \<Rightarrow> nat \<Rightarrow> nat \<Rightarrow> sfs_inode \<Rightarrow> 'a sfs_fs_scheme \<Rightarrow> (int \<times> nat \<times> nat \<times> nat \<times> sfs_inode \<times> 'a sfs_fs_scheme) option" where
  "dirent_search_loop name i 0 emp sin s = Some (- E_NOENT, 0, 0, emp, sin, s)"
| "dirent_search_loop name i (Suc k) emp sin s = do {
     (ret, e, sin, s) \<leftarrow> sfs_dirent_read_nolock i sin s;
     if ret \<noteq> 0 then Some (ret, 0, 0, emp, sin, s)
     else if de_ino e = 0 then dirent_search_loop name (Suc i) k i sin s
     else if name = cstr (de_name e) then Some (0, de_ino e, i, emp, sin, s)
     else dirent_search_loop name (Suc i) k emp sin s
   }"

text \<open>\<open>mem\<close> tells whether \<^verbatim>\<open>kmalloc\<close> had memory for the entry.\<close>

definition sfs_dirent_search_nolock ::
  "bool \<Rightarrow> u8 list \<Rightarrow> sfs_inode \<Rightarrow> 'a sfs_fs_scheme \<Rightarrow> (int \<times> nat \<times> nat \<times> nat \<times> sfs_inode \<times> 'a sfs_fs_scheme) option" where
  "sfs_dirent_search_nolock mem name sin s = do {
     kassert (length name \<le> SFS_MAX_FNAME_LEN);
     if \<not> mem then Some (- E_NO_MEM, 0, 0, 0, sin, s)
     else dirent_search_loop name 0 (di_blocks (din sin)) (di_blocks (din sin)) sin s
   }"

fun dirent_findino_loop ::
  "nat \<Rightarrow> nat \<Rightarrow> nat \<Rightarrow> sfs_disk_entry \<Rightarrow> sfs_inode \<Rightarrow> 'a sfs_fs_scheme \<Rightarrow> (int \<times> sfs_disk_entry \<times> sfs_inode \<times> 'a sfs_fs_scheme) option" where
  "dirent_findino_loop ino i 0 e sin s = Some (- E_NOENT, e, sin, s)"
| "dirent_findino_loop ino i (Suc k) e sin s = do {
     (ret, e, sin, s) \<leftarrow> sfs_dirent_read_nolock i sin s;
     if ret \<noteq> 0 then Some (ret, e, sin, s)
     else if de_ino e = ino then Some (0, e, sin, s)
     else dirent_findino_loop ino (Suc i) k e sin s
   }"

definition sfs_dirent_findino_nolock ::
  "nat \<Rightarrow> sfs_disk_entry \<Rightarrow> sfs_inode \<Rightarrow> 'a sfs_fs_scheme \<Rightarrow> (int \<times> sfs_disk_entry \<times> sfs_inode \<times> 'a sfs_fs_scheme) option" where
  "sfs_dirent_findino_nolock ino e sin s = dirent_findino_loop ino 0 (di_blocks (din sin)) e sin s"

fun getdirentry_loop ::
  "nat \<Rightarrow> nat \<Rightarrow> nat \<Rightarrow> sfs_disk_entry \<Rightarrow> sfs_inode \<Rightarrow> 'a sfs_fs_scheme \<Rightarrow> (int \<times> sfs_disk_entry \<times> sfs_inode \<times> 'a sfs_fs_scheme) option" where
  "getdirentry_loop slot i 0 e sin s = Some (- E_NOENT, e, sin, s)"
| "getdirentry_loop slot i (Suc k) e sin s = do {
     (ret, e, sin, s) \<leftarrow> sfs_dirent_read_nolock i sin s;
     if ret \<noteq> 0 then Some (ret, e, sin, s)
     else if de_ino e \<noteq> 0 then
       if slot = 0 then Some (0, e, sin, s) else getdirentry_loop (slot - 1) (Suc i) k e sin s
     else getdirentry_loop slot (Suc i) k e sin s
   }"

definition sfs_getdirentry_sub_nolock ::
  "nat \<Rightarrow> sfs_disk_entry \<Rightarrow> sfs_inode \<Rightarrow> 'a sfs_fs_scheme \<Rightarrow> (int \<times> sfs_disk_entry \<times> sfs_inode \<times> 'a sfs_fs_scheme) option" where
  "sfs_getdirentry_sub_nolock slot e sin s = getdirentry_loop slot 0 (di_blocks (din sin)) e sin s"

section \<open>Changing the length\<close>

fun grow_loop :: "nat \<Rightarrow> nat \<Rightarrow> sfs_inode \<Rightarrow> 'a sfs_fs_scheme \<Rightarrow> (int \<times> sfs_inode \<times> 'a sfs_fs_scheme) option" where
  "grow_loop nblks 0 sin s = Some (0, sin, s)"
| "grow_loop nblks (Suc k) sin s = do {
     (ret, _, sin, s) \<leftarrow> sfs_bmap_load_nolock nblks sin s;
     if ret \<noteq> 0 then Some (ret, sin, s) else grow_loop (Suc nblks) k sin s
   }"

fun shrink_loop :: "nat \<Rightarrow> sfs_inode \<Rightarrow> 'a sfs_fs_scheme \<Rightarrow> (int \<times> sfs_inode \<times> 'a sfs_fs_scheme) option" where
  "shrink_loop 0 sin s = Some (0, sin, s)"
| "shrink_loop (Suc k) sin s = do {
     (ret, sin, s) \<leftarrow> sfs_bmap_truncate_nolock sin s;
     if ret \<noteq> 0 then Some (ret, sin, s) else shrink_loop k sin s
   }"

definition trunc_sin :: "int \<Rightarrow> sfs_inode \<Rightarrow> 'a sfs_fs_scheme \<Rightarrow> (int \<times> sfs_inode \<times> 'a sfs_fs_scheme) option" where
  "trunc_sin len sin s =
     (if len < 0 \<or> len > int SFS_MAX_FILE_SIZE then Some (- E_INVAL, sin, s)
      else do {
        let len = nat len;
        let tblks = (len + SFS_BLKSIZE - 1) div SFS_BLKSIZE;
        if di_size (din sin) = len then do { kassert (tblks = di_blocks (din sin)); Some (0, sin, s) }
        else do {
          let nblks = di_blocks (din sin);
          (ret, sin, s) \<leftarrow> (if nblks < tblks then grow_loop nblks (tblks - nblks) sin s else shrink_loop (nblks - tblks) sin s);
          if ret \<noteq> 0 then Some (ret, sin, s)
          else do {
            kassert (di_blocks (din sin) = tblks);
            Some (0, sin\<lparr>din := (din sin)\<lparr>di_size := len\<rparr>, si_dirty := True\<rparr>, s)
          }
        }
      })"

section \<open>Directories as maps\<close>

text \<open>The entry in a slot, as the disk image has it, the slots in use, and the directory as a list of names and inode numbers.\<close>

definition dent :: "image \<Rightarrow> sfs_disk_inode \<Rightarrow> nat \<Rightarrow> sfs_disk_entry" where
  "dent f di i = (let e = entry_of (rd f (blk f di i * SFS_BLKSIZE) (4 + sfs_dentry_size)) in e\<lparr>de_name := (de_name e)[SFS_MAX_FNAME_LEN := 0]\<rparr>)"

definition dir_slots :: "image \<Rightarrow> sfs_disk_inode \<Rightarrow> nat list" where
  "dir_slots f di = filter (\<lambda>i. de_ino (dent f di i) \<noteq> 0) [0..<di_blocks di]"

definition dir_map :: "image \<Rightarrow> sfs_disk_inode \<Rightarrow> (u8 list \<times> nat) list" where
  "dir_map f di = map (\<lambda>i. (cstr (de_name (dent f di i)), de_ino (dent f di i))) (dir_slots f di)"

definition dir_ok :: "'a sfs_fs_scheme \<Rightarrow> sfs_inode \<Rightarrow> bool" where
  "dir_ok s sin \<longleftrightarrow> sfs_wf s \<and> inode_ok s sin \<and> di_type (din sin) = SFS_TYPE_DIR"

lemma dir_ok_step: "dir_ok s sin \<Longrightarrow> io_step s (img s) s' \<Longrightarrow> dir_ok s' sin \<and> img s' = img s"
  using io_step_same [of s sin s'] by (simp add: dir_ok_def)

lemma dirent_read_ok:
  assumes d: "dir_ok s sin" and i: "i < di_blocks (din sin)"
  obtains s' where "sfs_dirent_read_nolock i sin s = Some (0, dent (img s) (din sin) i, sin, s')" "io_step s (img s) s'"
proof -
  have wf: "sfs_wf s" "inode_ok s sin" "di_type (din sin) = SFS_TYPE_DIR" using d by (simp_all add: dir_ok_def)
  let ?b = "blk (img s) (din sin) i"
  obtain s1 where l: "sfs_bmap_load_nolock i sin s = Some (0, ?b, sin, s1)" "io_step s (img s) s1" "sfs_wf s1" "inode_ok s1 sin"
    by (rule load_old [OF wf(1,2) i])
  have im: "img s1 = img s" using l(2) by (simp add: io_step_def)
  have u: "used s1 ?b" using inode_okD(3) [OF l(4) i] im by simp
  have le: "4 + sfs_dentry_size \<le> SFS_BLKSIZE" by (simp add: sfs_dentry_size_def SFS_MAX_FNAME_LEN_def SFS_BLKSIZE_def)
  obtain s2 where r: "sfs_rbuf (replicate (4 + sfs_dentry_size) 0) (4 + sfs_dentry_size) ?b 0 s1 =
      Some (0, put_bytes (replicate (4 + sfs_dentry_size) 0) 0 (rd (img s) (?b * SFS_BLKSIZE) (4 + sfs_dentry_size)), s2)" "io_step s1 (img s1) s2"
    using rbuf_step [OF sfs_wf_ok [OF l(3)], of ?b 0 "4 + sfs_dentry_size" "replicate (4 + sfs_dentry_size) 0"] used_bounds [OF u] le im by auto
  have "put_bytes (replicate (4 + sfs_dentry_size) 0) 0 (rd (img s) (?b * SFS_BLKSIZE) (4 + sfs_dentry_size)) = rd (img s) (?b * SFS_BLKSIZE) (4 + sfs_dentry_size)"
    by (simp add: put_bytes_def)
  then have "sfs_dirent_read_nolock i sin s = Some (0, dent (img s) (din sin) i, sin, s2)"
    using wf(3) i l(1) used_inuse [OF l(3) u] r(1) by (simp add: sfs_dirent_read_nolock_def dent_def Let_def)
  moreover have "io_step s (img s) s2" using io_step_trans [OF l(2)] r(2) im by simp
  ultimately show ?thesis using that by blast
qed

text \<open>The search for a name looks it up: the first entry with it, or the code for a missing file. The slot returned is the one of the
  entry, and the third result is the last empty slot before it.\<close>

abbreviation named :: "image \<Rightarrow> sfs_disk_inode \<Rightarrow> u8 list \<Rightarrow> nat \<Rightarrow> bool" where
  "named f di name i \<equiv> de_ino (dent f di i) \<noteq> 0 \<and> cstr (de_name (dent f di i)) = name"

abbreviation last_empty :: "image \<Rightarrow> sfs_disk_inode \<Rightarrow> nat \<Rightarrow> nat list \<Rightarrow> nat" where
  "last_empty f di emp is \<equiv> last (emp # filter (\<lambda>i. de_ino (dent f di i) = 0) is)"

lemma dirent_search_loop_ok:
  assumes "dir_ok s sin" "i + k = di_blocks (din sin)"
  shows "\<exists>s'. io_step s (img s) s' \<and> dirent_search_loop name i k emp sin s =
     (case find (named (img s) (din sin) name) [i..<i + k] of
        None \<Rightarrow> Some (- E_NOENT, 0, 0, last_empty (img s) (din sin) emp [i..<i + k], sin, s')
      | Some j \<Rightarrow> Some (0, de_ino (dent (img s) (din sin) j), j, last_empty (img s) (din sin) emp [i..<j], sin, s'))"
  using assms
proof (induction k arbitrary: i emp s)
  case 0
  then show ?case using io_step_refl [of s] by (auto simp: dir_ok_def)
next
  case (Suc k)
  let ?f = "img s" and ?d = "din sin"
  obtain s1 where r: "sfs_dirent_read_nolock i sin s = Some (0, dent ?f ?d i, sin, s1)" "io_step s ?f s1"
    by (rule dirent_read_ok [OF Suc.prems(1), of i]) (use Suc.prems(2) in auto)
  have d1: "dir_ok s1 sin" "img s1 = ?f" using dir_ok_step [OF Suc.prems(1) r(2)] by auto
  have up: "[i..<i + Suc k] = i # [Suc i..<Suc i + k]" by (simp add: upt_conv_Cons)
  show ?case
  proof (cases "named ?f ?d name i")
    case True
    then have "dirent_search_loop name i (Suc k) emp sin s = Some (0, de_ino (dent ?f ?d i), i, emp, sin, s1)" using r(1) by auto
    moreover have "find (named ?f ?d name) [i..<i + Suc k] = Some i" using True unfolding up by simp
    ultimately show ?thesis using r(2) by auto
  next
    case False
    have eq: "Suc i + k = di_blocks ?d" using Suc.prems(2) by simp
    define emp' where "emp' = (if de_ino (dent ?f ?d i) = 0 then i else emp)"
    obtain s' where ih: "io_step s1 ?f s'" "dirent_search_loop name (Suc i) k emp' sin s1 =
     (case find (named ?f ?d name) [Suc i..<Suc i + k] of
        None \<Rightarrow> Some (- E_NOENT, 0, 0, last_empty ?f ?d emp' [Suc i..<Suc i + k], sin, s')
      | Some j \<Rightarrow> Some (0, de_ino (dent ?f ?d j), j, last_empty ?f ?d emp' [Suc i..<j], sin, s'))"
      using Suc.IH [OF d1(1) eq, of emp', unfolded d1(2)] by blast
    have st: "dirent_search_loop name i (Suc k) emp sin s = dirent_search_loop name (Suc i) k emp' sin s1"
      using r(1) False by (auto simp: emp'_def)
    have fi: "find (named ?f ?d name) [i..<i + Suc k] = find (named ?f ?d name) [Suc i..<Suc i + k]" using False unfolding up by auto
    have le: "last_empty ?f ?d emp' [Suc i..<j] = last_empty ?f ?d emp [i..<j]" if "i < j" for j
      using that by (simp add: upt_conv_Cons [of i j] emp'_def)
    have gt: "i < j" if "find (named ?f ?d name) [Suc i..<Suc i + k] = Some j" for j using find_mem [OF that] by auto
    show ?thesis
    proof (intro exI [of _ s'] conjI)
      show "io_step s ?f s'" by (rule io_step_trans [OF r(2) ih(1)])
      show "dirent_search_loop name i (Suc k) emp sin s = (case find (named ?f ?d name) [i..<i + Suc k] of
          None \<Rightarrow> Some (- E_NOENT, 0, 0, last_empty ?f ?d emp [i..<i + Suc k], sin, s')
        | Some j \<Rightarrow> Some (0, de_ino (dent ?f ?d j), j, last_empty ?f ?d emp [i..<j], sin, s'))"
        unfolding st fi ih(2) using le [of "Suc i + k"] le gt by (cases "find (named ?f ?d name) [Suc i..<Suc i + k]") simp_all
    qed
  qed
qed

lemma map_of_find:
  "map_of (map (\<lambda>i. (g i, h i)) (filter P xs)) x = map_option h (find (\<lambda>i. P i \<and> g i = x) xs)"
  by (induction xs) auto

lemma dirent_findino_loop_ok:
  assumes "dir_ok s sin" "i + k = di_blocks (din sin)"
  shows "\<exists>s' e'. io_step s (img s) s' \<and> dirent_findino_loop ino i k e sin s =
     (case find (\<lambda>j. de_ino (dent (img s) (din sin) j) = ino) [i..<i + k] of
        None \<Rightarrow> Some (- E_NOENT, e', sin, s') | Some j \<Rightarrow> Some (0, dent (img s) (din sin) j, sin, s'))"
  using assms
proof (induction k arbitrary: i e s)
  case 0
  then show ?case using io_step_refl [of s] by (auto simp: dir_ok_def)
next
  case (Suc k)
  obtain s1 where r: "sfs_dirent_read_nolock i sin s = Some (0, dent (img s) (din sin) i, sin, s1)" "io_step s (img s) s1"
    by (rule dirent_read_ok [OF Suc.prems(1), of i]) (use Suc.prems(2) in auto)
  have d1: "dir_ok s1 sin" "img s1 = img s" using dir_ok_step [OF Suc.prems(1) r(2)] by auto
  have up: "[i..<i + Suc k] = i # [Suc i..<Suc i + k]" by (simp add: upt_conv_Cons)
  have eq: "Suc i + k = di_blocks (din sin)" using Suc.prems(2) by simp
  show ?case
  proof (cases "de_ino (dent (img s) (din sin) i) = ino")
    case True
    then show ?thesis unfolding up using r by auto
  next
    case False
    then show ?thesis unfolding up using r Suc.IH [OF d1(1) eq, unfolded d1(2)] io_step_trans [OF r(2)] by (auto simp del: upt.simps) blast
  qed
qed

lemma getdirentry_loop_ok:
  assumes "dir_ok s sin" "i + k = di_blocks (din sin)"
  shows "\<exists>s' e'. io_step s (img s) s' \<and> getdirentry_loop slot i k e sin s =
     (let js = filter (\<lambda>j. de_ino (dent (img s) (din sin) j) \<noteq> 0) [i..<i + k] in
      if slot < length js then Some (0, dent (img s) (din sin) (js ! slot), sin, s') else Some (- E_NOENT, e', sin, s'))"
  using assms
proof (induction k arbitrary: i e s slot)
  case 0
  then show ?case using io_step_refl [of s] by (auto simp: dir_ok_def)
next
  case (Suc k)
  obtain s1 where r: "sfs_dirent_read_nolock i sin s = Some (0, dent (img s) (din sin) i, sin, s1)" "io_step s (img s) s1"
    by (rule dirent_read_ok [OF Suc.prems(1), of i]) (use Suc.prems(2) in auto)
  have d1: "dir_ok s1 sin" "img s1 = img s" using dir_ok_step [OF Suc.prems(1) r(2)] by auto
  have up: "[i..<i + Suc k] = i # [Suc i..<Suc i + k]" by (simp add: upt_conv_Cons)
  have eq: "Suc i + k = di_blocks (din sin)" using Suc.prems(2) by simp
  define slot' where "slot' = (if de_ino (dent (img s) (din sin) i) = 0 then slot else slot - 1)"
  obtain s' e' where ih: "io_step s1 (img s) s'" "getdirentry_loop slot' (Suc i) k (dent (img s) (din sin) i) sin s1 =
     (let js = filter (\<lambda>j. de_ino (dent (img s) (din sin) j) \<noteq> 0) [Suc i..<Suc i + k] in
      if slot' < length js then Some (0, dent (img s) (din sin) (js ! slot'), sin, s') else Some (- E_NOENT, e', sin, s'))"
    using Suc.IH [OF d1(1) eq, unfolded d1(2)] by blast
  show ?case
  proof (cases "de_ino (dent (img s) (din sin) i) \<noteq> 0 \<and> slot = 0")
    case True
    then show ?thesis unfolding up using r by auto
  next
    case False
    then have "getdirentry_loop slot i (Suc k) e sin s = getdirentry_loop slot' (Suc i) k (dent (img s) (din sin) i) sin s1"
      using r(1) by (auto simp: slot'_def)
    moreover have "slot = Suc slot'" if "de_ino (dent (img s) (din sin) i) \<noteq> 0" using False that by (simp add: slot'_def)
    ultimately show ?thesis unfolding up using ih io_step_trans [OF r(2) ih(1)]
      by (intro exI [of _ s'] exI [of _ e']) (auto simp: Let_def slot'_def simp del: upt.simps)
  qed
qed

text \<open>C19: A directory is a finite map from names to inode numbers. Looking up a name returns what the map has, or that there is no
  such file; an inode number is searched in the order of the slots; and the entry with a given position is the one at that
  position among the used slots. The disk and the inode stay as they are.\<close>

theorem sfs_directory_refines:
  assumes "dir_ok s sin" "length name \<le> SFS_MAX_FNAME_LEN"
  shows "(\<exists>ret ino slot emp s'. sfs_dirent_search_nolock True name sin s = Some (ret, ino, slot, emp, sin, s') \<and> io_step s (img s) s' \<and>
      (case map_of (dir_map (img s) (din sin)) name of
         None \<Rightarrow> ret = - E_NOENT
       | Some n \<Rightarrow> ret = 0 \<and> ino = n \<and> slot \<in> set (dir_slots (img s) (din sin)) \<and> de_ino (dent (img s) (din sin) slot) = n) \<and>
      (emp < di_blocks (din sin) \<longrightarrow> de_ino (dent (img s) (din sin) emp) = 0)) \<and>
    (\<exists>e' s'. io_step s (img s) s' \<and> sfs_dirent_findino_nolock ino e sin s =
      (case find (\<lambda>j. de_ino (dent (img s) (din sin) j) = ino) [0..<di_blocks (din sin)] of
         None \<Rightarrow> Some (- E_NOENT, e', sin, s') | Some j \<Rightarrow> Some (0, dent (img s) (din sin) j, sin, s'))) \<and>
    (\<exists>e' s'. io_step s (img s) s' \<and> sfs_getdirentry_sub_nolock k e sin s =
      (if k < length (dir_slots (img s) (din sin)) then Some (0, dent (img s) (din sin) (dir_slots (img s) (din sin) ! k), sin, s')
       else Some (- E_NOENT, e', sin, s')))"
proof (intro conjI)
  let ?n = "di_blocks (din sin)"
  obtain s' where s': "io_step s (img s) s'" "dirent_search_loop name 0 ?n ?n sin s =
     (case find (named (img s) (din sin) name) [0..<?n] of
        None \<Rightarrow> Some (- E_NOENT, 0, 0, last_empty (img s) (din sin) ?n [0..<?n], sin, s')
      | Some j \<Rightarrow> Some (0, de_ino (dent (img s) (din sin) j), j, last_empty (img s) (din sin) ?n [0..<j], sin, s'))"
    using dirent_search_loop_ok [OF assms(1) add_0, of name ?n, unfolded add_0] by blast
  have m: "map_of (dir_map (img s) (din sin)) name = map_option (\<lambda>i. de_ino (dent (img s) (din sin) i)) (find (named (img s) (din sin) name) [0..<?n])"
    by (simp add: dir_map_def dir_slots_def map_of_find)
  have le: "last_empty (img s) (din sin) ?n xs < ?n \<Longrightarrow> de_ino (dent (img s) (din sin) (last_empty (img s) (din sin) ?n xs)) = 0" for xs
    using last_in_set [of "filter (\<lambda>i. de_ino (dent (img s) (din sin) i) = 0) xs"] by (cases "filter (\<lambda>i. de_ino (dent (img s) (din sin) i) = 0) xs = []") auto
  show "\<exists>ret ino slot emp s'. sfs_dirent_search_nolock True name sin s = Some (ret, ino, slot, emp, sin, s') \<and> io_step s (img s) s' \<and>
      (case map_of (dir_map (img s) (din sin)) name of
         None \<Rightarrow> ret = - E_NOENT
       | Some n \<Rightarrow> ret = 0 \<and> ino = n \<and> slot \<in> set (dir_slots (img s) (din sin)) \<and> de_ino (dent (img s) (din sin) slot) = n) \<and>
      (emp < ?n \<longrightarrow> de_ino (dent (img s) (din sin) emp) = 0)"
  proof (cases "find (named (img s) (din sin) name) [0..<?n]")
    case None
    then show ?thesis using s' m le assms(2) by (auto simp: sfs_dirent_search_nolock_def)
  next
    case (Some j)
    then have "j \<in> set (dir_slots (img s) (din sin))" using find_mem [OF Some] by (simp add: dir_slots_def)
    then show ?thesis using s' m le assms(2) Some by (auto simp: sfs_dirent_search_nolock_def)
  qed
next
  show "\<exists>e' s'. io_step s (img s) s' \<and> sfs_dirent_findino_nolock ino e sin s =
      (case find (\<lambda>j. de_ino (dent (img s) (din sin) j) = ino) [0..<di_blocks (din sin)] of
         None \<Rightarrow> Some (- E_NOENT, e', sin, s') | Some j \<Rightarrow> Some (0, dent (img s) (din sin) j, sin, s'))"
    using dirent_findino_loop_ok [OF assms(1) add_0, of ino e, unfolded add_0] unfolding sfs_dirent_findino_nolock_def by blast
  show "\<exists>e' s'. io_step s (img s) s' \<and> sfs_getdirentry_sub_nolock k e sin s =
      (if k < length (dir_slots (img s) (din sin)) then Some (0, dent (img s) (din sin) (dir_slots (img s) (din sin) ! k), sin, s')
       else Some (- E_NOENT, e', sin, s'))"
    using getdirentry_loop_ok [OF assms(1) add_0, of k e, unfolded add_0 Let_def, folded dir_slots_def]
    unfolding sfs_getdirentry_sub_nolock_def by blast
qed

text \<open>A directory with one entry, of inode 5 and the name \<open>a\<close>.\<close>

definition demo_dir_fs :: sfs_fs where
  "demo_dir_fs = demo_fs\<lparr>dev := set_img demo_disk (\<lambda>k. if k = 4096 then 5 else if k = 4100 then 97 else 0)\<rparr>"

definition demo_dir :: sfs_inode where
  "demo_dir = demo_file\<lparr>din := \<lparr>di_size = 4096, di_type = SFS_TYPE_DIR, di_nlinks = 1, di_blocks = 1,
     di_direct = 1 # replicate 11 0, di_indirect = 0\<rparr>\<rparr>"

lemma demo_dir_ok: "dir_ok demo_dir_fs demo_dir"
proof -
  have "sfs_wf demo_fs" using demo_file_ok by (simp add: file_ok_def)
  then have "sfs_wf demo_dir_fs"
    by (simp add: sfs_wf_def sfs_ok_def demo_dir_fs_def) (simp add: demo_fs_def demo_disk_def disk0_wf_def set_img_def)
  moreover have "used demo_dir_fs b = used demo_fs b" for b by (simp add: used_def demo_dir_fs_def)
  moreover have "used demo_fs 1" "used demo_fs 3" using demo_free by (simp_all add: used_def) (simp_all add: demo_fs_def)
  moreover have "blk f (din demo_dir) i = (if i = 0 then 1 else 0)" for f i
    by (auto simp: blk_def demo_dir_def SFS_NDIRECT_def nth_Cons split: nat.splits)
  ultimately show ?thesis
    by (simp add: dir_ok_def inode_ok_def Let_def) (auto simp: demo_dir_def demo_file_def SFS_NDIRECT_def MAX_BLKS_def inj_on_def)
qed

lemma demo_dent: "de_ino (dent (img demo_dir_fs) (din demo_dir) 0) = 5" "cstr (de_name (dent (img demo_dir_fs) (din demo_dir) 0)) = [97]"
proof -
  let ?f = "\<lambda>k :: nat. if k = 4096 then 5 else if k = 4100 then 97 else 0 :: u8"
  have b: "blk f (din demo_dir) 0 = 1" "img demo_dir_fs = ?f" for f by (simp_all add: blk_def demo_dir_def SFS_NDIRECT_def demo_dir_fs_def)
  have "rd ?f 4096 (6 + 254) = rd ?f 4096 6 @ rd ?f (4096 + 6) 254" by (rule rd_append)
  moreover have "rd ?f 4096 6 = [5, 0, 0, 0, 97, 0]" by (simp add: rd_def upt_rec)
  ultimately have r: "rd ?f 4096 260 = [5, 0, 0, 0, 97, 0] @ rd ?f 4102 254" by simp
  have n: "[97, 0] @ take 254 (rd ?f 4102 254) = take 256 (drop 4 (rd ?f 4096 260))" unfolding r by simp
  show "de_ino (dent (img demo_dir_fs) (din demo_dir) 0) = 5"
    unfolding dent_def b by (simp add: SFS_BLKSIZE_def sfs_dentry_size_def SFS_MAX_FNAME_LEN_def r entry_of_def word_at_def of_le32_def Let_def)
  show "cstr (de_name (dent (img demo_dir_fs) (din demo_dir) 0)) = [97]"
    unfolding dent_def b
    by (simp add: SFS_BLKSIZE_def sfs_dentry_size_def SFS_MAX_FNAME_LEN_def entry_of_def Let_def n [symmetric] list_update_append cstr_def)
qed

theorem sfs_directory_refines_witness:
  "\<exists>slot emp s'. sfs_dirent_search_nolock True [97] demo_dir demo_dir_fs = Some (0, 5, slot, emp, demo_dir, s')"
proof -
  have "dir_map (img demo_dir_fs) (din demo_dir) = [([97], 5)]"
    using demo_dent by (simp add: dir_map_def dir_slots_def) (simp add: demo_dir_def)
  then show ?thesis
    using sfs_directory_refines [OF demo_dir_ok, of "[97]" 0 "\<lparr>de_ino = 0, de_name = []\<rparr>" 0] by (auto simp: SFS_MAX_FNAME_LEN_def simp del: split_paired_Ex)
qed

end
