(* ===== verification/Vfs.thy ===== *)
theory Vfs
  imports Block_Dev Kernel_State
begin

text \<open>
  The virtual file system, \<^verbatim>\<open>kern/fs/vfs\<close>: inodes with their reference and open counts, the calls through
  the tables of function pointers, the list of named devices, path lookup, the working directory, opening and closing.

  The field \<^verbatim>\<open>in_ops\<close> of an inode points to one of three tables of function pointers, and a \<^verbatim>\<open>struct fs\<close> holds its own; the
  argument \<open>W\<close> gives the functions in them. An operation that is missing in a table is \<open>None\<close>, and a call of it
  stops the kernel, as the assertion in \<^verbatim>\<open>__vop_op\<close> does. The objects \<^verbatim>\<open>kmalloc\<close> has handed out are
  the sets \<open>node_live\<close>, \<open>vdev_live\<close> and \<open>files_live\<close>; its choice is the argument \<open>km\<close>. The mutexes around these
  routines are not modelled. Strings have no zero byte; comparing them is equality.
\<close>

section \<open>State\<close>

datatype ops_table = Dev_node_ops | Sfs_node_dirops | Sfs_node_fileops

record inode =
  ref_count :: int
  open_count :: int
  in_fs :: "nat option"
  in_device :: bool
  in_ops :: ops_table

record vfs_dev =
  devname :: string
  devnode :: "nat option"
  dev_fs :: "nat option"
  mountable :: bool

datatype fd_status = FD_NONE | FD_INIT | FD_OPENED | FD_CLOSED

record file_item =
  fstatus :: fd_status
  readable :: bool
  writable :: bool
  ffd :: nat
  fpos :: int
  fnode :: "nat option"
  fopen_count :: int

record files_struct =
  pwd :: "nat option"
  fd_array :: "nat \<Rightarrow> file_item"
  files_count :: int
  files_nlinks :: int

record vfs =
  inodes :: "nat \<Rightarrow> inode"
  node_live :: "nat set"
  bootfs_node :: "nat option"
  vdevs :: "nat \<Rightarrow> vfs_dev"
  vdev_live :: "nat set"
  vdev_links :: "unit hook links"
  files :: "nat \<Rightarrow> files_struct"
  files_live :: "nat set"
  cur_files :: "nat option"

record stat =
  st_mode :: u32
  st_nlinks :: nat
  st_blocks :: nat
  st_size :: nat

record 's inode_ops =
  op_open :: "(nat \<Rightarrow> u32 \<Rightarrow> 's \<Rightarrow> (int \<times> 's) option) option"
  op_close :: "(nat \<Rightarrow> 's \<Rightarrow> (int \<times> 's) option) option"
  op_read :: "(nat \<Rightarrow> iobuf \<Rightarrow> 's \<Rightarrow> (int \<times> iobuf \<times> 's) option) option"
  op_write :: "(nat \<Rightarrow> iobuf \<Rightarrow> 's \<Rightarrow> (int \<times> iobuf \<times> 's) option) option"
  op_fstat :: "(nat \<Rightarrow> 's \<Rightarrow> (int \<times> stat \<times> 's) option) option"
  op_fsync :: "(nat \<Rightarrow> 's \<Rightarrow> (int \<times> 's) option) option"
  op_namefile :: "(nat \<Rightarrow> iobuf \<Rightarrow> 's \<Rightarrow> (int \<times> iobuf \<times> 's) option) option"
  op_getdirentry :: "(nat \<Rightarrow> iobuf \<Rightarrow> 's \<Rightarrow> (int \<times> iobuf \<times> 's) option) option"
  op_reclaim :: "(nat \<Rightarrow> 's \<Rightarrow> (int \<times> 's) option) option"
  op_gettype :: "(nat \<Rightarrow> 's \<Rightarrow> (int \<times> u32 \<times> 's) option) option"
  op_tryseek :: "(nat \<Rightarrow> int \<Rightarrow> 's \<Rightarrow> (int \<times> 's) option) option"
  op_truncate :: "(nat \<Rightarrow> int \<Rightarrow> 's \<Rightarrow> (int \<times> 's) option) option"
  op_create :: "(nat \<Rightarrow> string \<Rightarrow> bool \<Rightarrow> 's \<Rightarrow> (int \<times> nat option \<times> 's) option) option"
  op_lookup :: "(nat \<Rightarrow> string \<Rightarrow> 's \<Rightarrow> (int \<times> nat option \<times> 's) option) option"

record 's fs_ops =
  fs_sync :: "nat \<Rightarrow> 's \<Rightarrow> (int \<times> 's) option"
  fs_get_root :: "nat \<Rightarrow> 's \<Rightarrow> (nat option \<times> 's) option"
  fs_unmount :: "nat \<Rightarrow> 's \<Rightarrow> (int \<times> 's) option"
  fs_cleanup :: "nat \<Rightarrow> 's \<Rightarrow> 's option"

record 's world =
  iops :: "ops_table \<Rightarrow> 's inode_ops"
  fops :: "nat \<Rightarrow> 's fs_ops"

definition set_node :: "nat \<Rightarrow> (inode \<Rightarrow> inode) \<Rightarrow> 'a vfs_scheme \<Rightarrow> 'a vfs_scheme" where
  "set_node n f s = s\<lparr>inodes := (inodes s)(n := f (inodes s n))\<rparr>"

definition set_files :: "nat \<Rightarrow> (files_struct \<Rightarrow> files_struct) \<Rightarrow> 'a vfs_scheme \<Rightarrow> 'a vfs_scheme" where
  "set_files p f s = s\<lparr>files := (files s)(p := f (files s p))\<rparr>"

section \<open>Inodes\<close>

definition MAX_INODE_COUNT :: int where "MAX_INODE_COUNT = 0x10000"

definition inode_check :: "nat \<Rightarrow> 'a vfs_scheme \<Rightarrow> unit option" where
  "inode_check n s = do {
     kassert (ref_count (inodes s n) \<ge> open_count (inodes s n) \<and> open_count (inodes s n) \<ge> 0);
     kassert (ref_count (inodes s n) < MAX_INODE_COUNT \<and> open_count (inodes s n) < MAX_INODE_COUNT)
   }"

text \<open>The operation of the table of inode \<open>n\<close> selected by \<open>sel\<close>, after the checks.\<close>

definition vop_op :: "('a vfs_scheme inode_ops \<Rightarrow> 'f option) \<Rightarrow> 'a vfs_scheme world \<Rightarrow> nat \<Rightarrow> 'a vfs_scheme \<Rightarrow> 'f option" where
  "vop_op sel W n s = do { f \<leftarrow> sel (iops W (in_ops (inodes s n))); inode_check n s; Some f }"

definition alloc_inode :: "(nat set \<Rightarrow> nat option) \<Rightarrow> bool \<Rightarrow> 'a vfs_scheme \<Rightarrow> nat option \<times> 'a vfs_scheme" where
  "alloc_inode km dev s =
     (case km (node_live s) of
        None \<Rightarrow> (None, s)
      | Some n \<Rightarrow> (Some n, set_node n (\<lambda>x. x\<lparr>in_device := dev\<rparr>) (s\<lparr>node_live := insert n (node_live s)\<rparr>)))"

definition inode_ref_inc :: "nat \<Rightarrow> 'a vfs_scheme \<Rightarrow> 'a vfs_scheme" where
  "inode_ref_inc n s = set_node n (\<lambda>x. x\<lparr>ref_count := ref_count x + 1\<rparr>) s"

definition inode_init :: "nat \<Rightarrow> ops_table \<Rightarrow> nat option \<Rightarrow> 'a vfs_scheme \<Rightarrow> 'a vfs_scheme" where
  "inode_init n ops fs s =
     inode_ref_inc n (set_node n (\<lambda>x. x\<lparr>ref_count := 0, open_count := 0, in_ops := ops, in_fs := fs\<rparr>) s)"

definition inode_kill :: "nat \<Rightarrow> 'a vfs_scheme \<Rightarrow> 'a vfs_scheme option" where
  "inode_kill n s = do {
     kassert (ref_count (inodes s n) = 0);
     kassert (open_count (inodes s n) = 0);
     Some (s\<lparr>node_live := node_live s - {n}\<rparr>)
   }"

definition inode_ref_dec :: "'a vfs_scheme world \<Rightarrow> nat \<Rightarrow> 'a vfs_scheme \<Rightarrow> (int \<times> 'a vfs_scheme) option" where
  "inode_ref_dec W n s = do {
     kassert (ref_count (inodes s n) > 0);
     let s = set_node n (\<lambda>x. x\<lparr>ref_count := ref_count x - 1\<rparr>) s;
     let c = ref_count (inodes s n);
     s \<leftarrow> (if c = 0 then do {
              f \<leftarrow> vop_op op_reclaim W n s;
              (_, s) \<leftarrow> f n s;
              Some s
            } else Some s);
     Some (c, s)
   }"

definition inode_open_inc :: "nat \<Rightarrow> 'a vfs_scheme \<Rightarrow> 'a vfs_scheme" where
  "inode_open_inc n s = set_node n (\<lambda>x. x\<lparr>open_count := open_count x + 1\<rparr>) s"

definition inode_open_dec :: "'a vfs_scheme world \<Rightarrow> nat \<Rightarrow> 'a vfs_scheme \<Rightarrow> (int \<times> 'a vfs_scheme) option" where
  "inode_open_dec W n s = do {
     kassert (open_count (inodes s n) > 0);
     let s = set_node n (\<lambda>x. x\<lparr>open_count := open_count x - 1\<rparr>) s;
     let c = open_count (inodes s n);
     s \<leftarrow> (if c = 0 then do {
              f \<leftarrow> vop_op op_close W n s;
              (_, s) \<leftarrow> f n s;
              Some s
            } else Some s);
     Some (c, s)
   }"

section \<open>Named devices\<close>

partial_function (option) vdev_find ::
  "(vfs_dev \<Rightarrow> bool) \<Rightarrow> unit hook \<Rightarrow> 'a vfs_scheme \<Rightarrow> nat option option" where
  "vdev_find P le s =
     (let le = list_next (vdev_links s) le in
      if le = Head () then Some None
      else do { d \<leftarrow> owner le; if P (vdevs s d) then Some (Some d) else vdev_find P le s })"

definition vfs_devlist_init :: "'a vfs_scheme \<Rightarrow> 'a vfs_scheme" where
  "vfs_devlist_init s = s\<lparr>vdev_links := list_init (vdev_links s) (Head ())\<rparr>"

definition vfs_get_root :: "'a vfs_scheme world \<Rightarrow> string \<Rightarrow> 'a vfs_scheme \<Rightarrow> (int \<times> nat option \<times> 'a vfs_scheme) option" where
  "vfs_get_root W name s =
     (if list_empty (vdev_links s) (Head ()) then Some (- E_NO_DEV, None, s)
      else do {
        r \<leftarrow> vdev_find (\<lambda>d. devname d = name) (Head ()) s;
        (case r of
           None \<Rightarrow> Some (- E_NO_DEV, None, s)
         | Some d \<Rightarrow> do {
             (found, s) \<leftarrow>
               (case dev_fs (vdevs s d) of
                  Some fs \<Rightarrow> fs_get_root (fops W fs) fs s
                | None \<Rightarrow>
                    if \<not> mountable (vdevs s d)
                    then do { n \<leftarrow> devnode (vdevs s d); Some (Some n, inode_ref_inc n s) }
                    else Some (None, s));
             Some (if found \<noteq> None then 0 else - E_NA_DEV, found, s)
           })
      })"

definition vfs_get_devname :: "nat \<Rightarrow> 'a vfs_scheme \<Rightarrow> string option option" where
  "vfs_get_devname fs s = do {
     r \<leftarrow> vdev_find (\<lambda>d. dev_fs d = Some fs) (Head ()) s;
     Some (map_option (\<lambda>d. devname (vdevs s d)) r)
   }"

definition check_devname_conflict :: "string \<Rightarrow> 'a vfs_scheme \<Rightarrow> bool option" where
  "check_devname_conflict name s = do { r \<leftarrow> vdev_find (\<lambda>d. devname d = name) (Head ()) s; Some (r = None) }"

definition FS_MAX_DNAME_LEN :: nat where "FS_MAX_DNAME_LEN = 31"

text \<open>The copy of the name is made by \<^verbatim>\<open>strdup\<close>; \<open>dup_ok\<close> tells whether there was memory for it.\<close>

definition vfs_do_add ::
  "(nat set \<Rightarrow> nat option) \<Rightarrow> bool \<Rightarrow> string \<Rightarrow> nat option \<Rightarrow> nat option \<Rightarrow> bool \<Rightarrow> 'a vfs_scheme \<Rightarrow> (int \<times> 'a vfs_scheme) option" where
  "vfs_do_add km dup_ok name node fs mnt s = do {
     kassert ((node = None \<and> \<not> mnt) \<or> (\<exists>n. node = Some n \<and> in_device (inodes s n)));
     if length name > FS_MAX_DNAME_LEN then Some (- E_TOO_BIG, s)
     else if \<not> dup_ok then Some (- E_NO_MEM, s)
     else (case km (vdev_live s) of
       None \<Rightarrow> Some (- E_NO_MEM, s)
     | Some d \<Rightarrow> do {
         free \<leftarrow> check_devname_conflict name s;
         if \<not> free then Some (- E_EXISTS, s)
         else Some (0, s\<lparr>vdev_live := insert d (vdev_live s),
           vdevs := (vdevs s)(d := \<lparr>devname = name, devnode = node, dev_fs = fs, mountable = mnt\<rparr>),
           vdev_links := list_add (vdev_links s) (Head ()) (Elem d)\<rparr>)
       })
   }"

definition vfs_add_fs ::
  "(nat set \<Rightarrow> nat option) \<Rightarrow> bool \<Rightarrow> string \<Rightarrow> nat option \<Rightarrow> 'a vfs_scheme \<Rightarrow> (int \<times> 'a vfs_scheme) option" where
  "vfs_add_fs km dup_ok name fs s = vfs_do_add km dup_ok name None fs False s"

definition vfs_add_dev ::
  "(nat set \<Rightarrow> nat option) \<Rightarrow> bool \<Rightarrow> string \<Rightarrow> nat option \<Rightarrow> bool \<Rightarrow> 'a vfs_scheme \<Rightarrow> (int \<times> 'a vfs_scheme) option" where
  "vfs_add_dev km dup_ok name node mnt s = vfs_do_add km dup_ok name node None mnt s"

definition find_mount :: "string \<Rightarrow> 'a vfs_scheme \<Rightarrow> (int \<times> nat option) option" where
  "find_mount name s = do {
     r \<leftarrow> vdev_find (\<lambda>d. mountable d \<and> devname d = name) (Head ()) s;
     Some (if r = None then - E_NO_DEV else 0, r)
   }"

definition vfs_mount ::
  "(nat \<Rightarrow> 'a vfs_scheme \<Rightarrow> (int \<times> nat option \<times> 'a vfs_scheme) option) \<Rightarrow> string \<Rightarrow> 'a vfs_scheme \<Rightarrow> (int \<times> 'a vfs_scheme) option" where
  "vfs_mount mountfunc name s = do {
     (ret, r) \<leftarrow> find_mount name s;
     (case r of
        None \<Rightarrow> Some (ret, s)
      | Some d \<Rightarrow>
          if dev_fs (vdevs s d) \<noteq> None then Some (- E_BUSY, s)
          else do {
            n \<leftarrow> devnode (vdevs s d);
            kassert (in_device (inodes s n));
            (ret, fs, s) \<leftarrow> mountfunc n s;
            let s = s\<lparr>vdevs := (vdevs s)(d := (vdevs s d)\<lparr>dev_fs := fs\<rparr>)\<rparr>;
            kassert (ret = 0 \<longrightarrow> fs \<noteq> None);
            Some (ret, s)
          })
   }"

definition vfs_unmount :: "'a vfs_scheme world \<Rightarrow> string \<Rightarrow> 'a vfs_scheme \<Rightarrow> (int \<times> 'a vfs_scheme) option" where
  "vfs_unmount W name s = do {
     (ret, r) \<leftarrow> find_mount name s;
     (case r of
        None \<Rightarrow> Some (ret, s)
      | Some d \<Rightarrow>
          (case dev_fs (vdevs s d) of
             None \<Rightarrow> Some (- E_INVAL, s)
           | Some fs \<Rightarrow> do {
               (ret, s) \<leftarrow> fs_sync (fops W fs) fs s;
               if ret \<noteq> 0 then Some (ret, s)
               else do {
                 (ret, s) \<leftarrow> fs_unmount (fops W fs) fs s;
                 Some (ret, if ret = 0 then s\<lparr>vdevs := (vdevs s)(d := (vdevs s d)\<lparr>dev_fs := None\<rparr>)\<rparr> else s)
               }
             }))
   }"

partial_function (option) unmount_loop :: "'a vfs_scheme world \<Rightarrow> unit hook \<Rightarrow> 'a vfs_scheme \<Rightarrow> 'a vfs_scheme option" where
  "unmount_loop W le s =
     (let le = list_next (vdev_links s) le in
      if le = Head () then Some s
      else do {
        d \<leftarrow> owner le;
        (case dev_fs (vdevs s d) of
           Some fs \<Rightarrow>
             if mountable (vdevs s d) then do {
               (r1, s) \<leftarrow> fs_sync (fops W fs) fs s;
               if r1 \<noteq> 0 then unmount_loop W le s
               else do {
                 (r2, s) \<leftarrow> fs_unmount (fops W fs) fs s;
                 if r2 \<noteq> 0 then unmount_loop W le s
                 else unmount_loop W le (s\<lparr>vdevs := (vdevs s)(d := (vdevs s d)\<lparr>dev_fs := None\<rparr>)\<rparr>)
               }
             } else unmount_loop W le s
         | None \<Rightarrow> unmount_loop W le s)
      })"

definition vfs_unmount_all :: "'a vfs_scheme world \<Rightarrow> 'a vfs_scheme \<Rightarrow> (int \<times> 'a vfs_scheme) option" where
  "vfs_unmount_all W s =
     (if list_empty (vdev_links s) (Head ()) then Some (0, s)
      else do { s \<leftarrow> unmount_loop W (Head ()) s; Some (0, s) })"

partial_function (option) cleanup_loop :: "'a vfs_scheme world \<Rightarrow> unit hook \<Rightarrow> 'a vfs_scheme \<Rightarrow> 'a vfs_scheme option" where
  "cleanup_loop W le s =
     (let le = list_next (vdev_links s) le in
      if le = Head () then Some s
      else do {
        d \<leftarrow> owner le;
        s \<leftarrow> (case dev_fs (vdevs s d) of None \<Rightarrow> Some s | Some fs \<Rightarrow> fs_cleanup (fops W fs) fs s);
        cleanup_loop W le s
      })"

definition vfs_cleanup :: "'a vfs_scheme world \<Rightarrow> 'a vfs_scheme \<Rightarrow> 'a vfs_scheme option" where
  "vfs_cleanup W s = (if list_empty (vdev_links s) (Head ()) then Some s else cleanup_loop W (Head ()) s)"

section \<open>The working directory and the boot file system\<close>

definition S_IFMT :: u32 where "S_IFMT = 0x7000"
definition S_IFDIR :: u32 where "S_IFDIR = 0x2000"
definition S_ISDIR :: "u32 \<Rightarrow> bool" where "S_ISDIR mode \<longleftrightarrow> mode AND S_IFMT = S_IFDIR"

definition get_cwd_nolock :: "'a vfs_scheme \<Rightarrow> nat option option" where
  "get_cwd_nolock s = do { p \<leftarrow> cur_files s; Some (pwd (files s p)) }"

definition set_cwd_nolock :: "nat option \<Rightarrow> 'a vfs_scheme \<Rightarrow> 'a vfs_scheme option" where
  "set_cwd_nolock d s = do { p \<leftarrow> cur_files s; Some (set_files p (\<lambda>f. f\<lparr>pwd := d\<rparr>) s) }"

definition vfs_get_curdir :: "'a vfs_scheme \<Rightarrow> (int \<times> nat option \<times> 'a vfs_scheme) option" where
  "vfs_get_curdir s = do {
     r \<leftarrow> get_cwd_nolock s;
     Some (case r of Some n \<Rightarrow> (0, r, inode_ref_inc n s) | None \<Rightarrow> (- E_NOENT, None, s))
   }"

definition drop_ref :: "'a vfs_scheme world \<Rightarrow> nat option \<Rightarrow> 'a vfs_scheme \<Rightarrow> 'a vfs_scheme option" where
  "drop_ref W r s = (case r of None \<Rightarrow> Some s | Some n \<Rightarrow> do { (_, s) \<leftarrow> inode_ref_dec W n s; Some s })"

definition vfs_set_curdir :: "'a vfs_scheme world \<Rightarrow> nat option \<Rightarrow> 'a vfs_scheme \<Rightarrow> (int \<times> 'a vfs_scheme) option" where
  "vfs_set_curdir W dir s = do {
     old \<leftarrow> get_cwd_nolock s;
     if old = dir then Some (0, s)
     else do {
       (ret, s) \<leftarrow>
         (case dir of
            None \<Rightarrow> Some (0, s)
          | Some n \<Rightarrow> do {
              f \<leftarrow> vop_op op_gettype W n s;
              (ret, ty, s) \<leftarrow> f n s;
              if ret \<noteq> 0 then Some (ret, s)
              else if \<not> S_ISDIR ty then Some (- E_NOTDIR, s)
              else Some (0, inode_ref_inc n s)
            });
       if ret \<noteq> 0 then Some (ret, s)
       else do {
         s \<leftarrow> set_cwd_nolock dir s;
         s \<leftarrow> drop_ref W old s;
         Some (0, s)
       }
     }
   }"

definition change_bootfs :: "'a vfs_scheme world \<Rightarrow> nat option \<Rightarrow> 'a vfs_scheme \<Rightarrow> 'a vfs_scheme option" where
  "change_bootfs W node s = do {
     let old = bootfs_node s;
     drop_ref W old (s\<lparr>bootfs_node := node\<rparr>)
   }"

definition vfs_get_bootfs :: "'a vfs_scheme \<Rightarrow> int \<times> nat option \<times> 'a vfs_scheme" where
  "vfs_get_bootfs s =
     (case bootfs_node s of None \<Rightarrow> (- E_NOENT, None, s) | Some n \<Rightarrow> (0, Some n, inode_ref_inc n s))"

section \<open>Path lookup\<close>

text \<open>The first colon or slash of a path: its position and whether it is the colon.\<close>

fun first_mark :: "string \<Rightarrow> (nat \<times> bool) option" where
  "first_mark [] = None"
| "first_mark (c # cs) =
     (if c = CHR '':'' then Some (0, True)
      else if c = CHR ''/'' then Some (0, False)
      else map_option (\<lambda>(i, b). (Suc i, b)) (first_mark cs))"

definition skip_slashes :: "string \<Rightarrow> string" where
  "skip_slashes p = dropWhile (\<lambda>c. c = CHR ''/'') p"

definition get_device ::
  "'a vfs_scheme world \<Rightarrow> string \<Rightarrow> 'a vfs_scheme \<Rightarrow> (int \<times> string \<times> nat option \<times> 'a vfs_scheme) option" where
  "get_device W path s =
     (case first_mark path of
        Some (Suc i, True) \<Rightarrow> do {
          let colon = Suc i;
          (ret, node, s) \<leftarrow> vfs_get_root W (take colon path) s;
          Some (ret, skip_slashes (drop (Suc colon) path), node, s)
        }
      | Some (0, False) \<Rightarrow>
          (let (ret, node, s) = vfs_get_bootfs s in
           Some (ret, skip_slashes (tl path), node, s))
      | Some (0, True) \<Rightarrow> do {
          (ret, node, s) \<leftarrow> vfs_get_curdir s;
          (case node of
             None \<Rightarrow> Some (ret, [], None, s)
           | Some n \<Rightarrow> do {
               fs \<leftarrow> in_fs (inodes s n);
               (root, s) \<leftarrow> fs_get_root (fops W fs) fs s;
               s \<leftarrow> drop_ref W (Some n) s;
               Some (0, skip_slashes (tl path), root, s)
             })
        }
      | _ \<Rightarrow> do {
          (ret, node, s) \<leftarrow> vfs_get_curdir s;
          Some (ret, path, node, s)
        })"

text \<open>The path in its buffer after \<^verbatim>\<open>get_device\<close> has put a zero byte in the place of the colon behind a device name.\<close>

definition cut_device :: "string \<Rightarrow> string" where
  "cut_device path = (case first_mark path of Some (Suc i, True) \<Rightarrow> take (Suc i) path | _ \<Rightarrow> path)"

definition vfs_lookup ::
  "'a vfs_scheme world \<Rightarrow> string \<Rightarrow> 'a vfs_scheme \<Rightarrow> (int \<times> nat option \<times> 'a vfs_scheme) option" where
  "vfs_lookup W path s = do {
     (ret, sub, node, s) \<leftarrow> get_device W path s;
     if ret \<noteq> 0 then Some (ret, None, s)
     else if sub \<noteq> [] then do {
       n \<leftarrow> node;
       f \<leftarrow> vop_op op_lookup W n s;
       (ret, found, s) \<leftarrow> f n sub s;
       s \<leftarrow> drop_ref W node s;
       Some (ret, found, s)
     } else Some (0, node, s)
   }"

definition vfs_lookup_parent ::
  "'a vfs_scheme world \<Rightarrow> string \<Rightarrow> 'a vfs_scheme \<Rightarrow> (int \<times> nat option \<times> string \<times> 'a vfs_scheme) option" where
  "vfs_lookup_parent W path s = do {
     (ret, sub, node, s) \<leftarrow> get_device W path s;
     Some (if ret \<noteq> 0 then (ret, None, [], s) else (0, node, sub, s))
   }"

definition vfs_chdir :: "'a vfs_scheme world \<Rightarrow> string \<Rightarrow> 'a vfs_scheme \<Rightarrow> (int \<times> 'a vfs_scheme) option" where
  "vfs_chdir W path s = do {
     (ret, node, s) \<leftarrow> vfs_lookup W path s;
     if ret \<noteq> 0 then Some (ret, s)
     else do {
       (ret, s) \<leftarrow> vfs_set_curdir W node s;
       n \<leftarrow> node;
       s \<leftarrow> drop_ref W (Some n) s;
       Some (ret, s)
     }
   }"

definition vfs_set_bootfs :: "'a vfs_scheme world \<Rightarrow> string option \<Rightarrow> 'a vfs_scheme \<Rightarrow> (int \<times> 'a vfs_scheme) option" where
  "vfs_set_bootfs W fsname s =
     (case fsname of
        None \<Rightarrow> do { s \<leftarrow> change_bootfs W None s; Some (0, s) }
      | Some name \<Rightarrow>
          if CHR '':'' \<notin> set name \<or> dropWhile (\<lambda>c. c \<noteq> CHR '':'') name \<noteq> '':'' then Some (- E_INVAL, s)
          else do {
            (ret, s) \<leftarrow> vfs_chdir W name s;
            if ret \<noteq> 0 then Some (ret, s)
            else do {
              (ret, node, s) \<leftarrow> vfs_get_curdir s;
              if ret \<noteq> 0 then Some (ret, s)
              else do { s \<leftarrow> change_bootfs W node s; Some (0, s) }
            }
          })"

definition bytes_of :: "string \<Rightarrow> u8 list" where
  "bytes_of cs = map (\<lambda>c. of_nat (of_char c)) cs"

definition vfs_getcwd :: "'a vfs_scheme world \<Rightarrow> iobuf \<Rightarrow> 'a vfs_scheme \<Rightarrow> (int \<times> iobuf \<times> 'a vfs_scheme) option" where
  "vfs_getcwd W iob s = do {
     (ret, node, s) \<leftarrow> vfs_get_curdir s;
     if ret \<noteq> 0 then Some (ret, iob, s)
     else do {
       n \<leftarrow> node;
       fs \<leftarrow> in_fs (inodes s n);
       r \<leftarrow> vfs_get_devname fs s;
       name \<leftarrow> r;
       (ret, _, iob, _) \<leftarrow> iobuf_move iob (bytes_of name) (length name) True;
       (ret, iob, s) \<leftarrow>
         (if ret \<noteq> 0 then Some (ret, iob, s)
          else do {
            (ret, _, iob, _) \<leftarrow> iobuf_move iob (bytes_of '':'') 1 True;
            if ret \<noteq> 0 then Some (ret, iob, s)
            else do { f \<leftarrow> vop_op op_namefile W n s; f n iob s }
          });
       s \<leftarrow> drop_ref W node s;
       Some (ret, iob, s)
     }
   }"

section \<open>Opening and closing\<close>

definition O_RDONLY :: u32 where "O_RDONLY = 0"
definition O_WRONLY :: u32 where "O_WRONLY = 1"
definition O_RDWR :: u32 where "O_RDWR = 2"
definition O_CREAT :: u32 where "O_CREAT = 4"
definition O_EXCL :: u32 where "O_EXCL = 8"
definition O_TRUNC :: u32 where "O_TRUNC = 0x10"
definition O_APPEND :: u32 where "O_APPEND = 0x20"
definition O_ACCMODE :: u32 where "O_ACCMODE = 3"

lemmas o_defs = O_RDONLY_def O_WRONLY_def O_RDWR_def O_CREAT_def O_EXCL_def O_TRUNC_def O_APPEND_def O_ACCMODE_def

text \<open>The part of \<^verbatim>\<open>vfs_open\<close> after the inode has been found.\<close>

definition open_node ::
  "'a vfs_scheme world \<Rightarrow> nat \<Rightarrow> u32 \<Rightarrow> 'a vfs_scheme \<Rightarrow> (int \<times> nat option \<times> 'a vfs_scheme) option" where
  "open_node W n flags s = do {
     f \<leftarrow> vop_op op_open W n s;
     (ret, s) \<leftarrow> f n flags s;
     if ret \<noteq> 0 then do { s \<leftarrow> drop_ref W (Some n) s; Some (ret, None, s) }
     else do {
       let s = inode_open_inc n s;
       (ret, s) \<leftarrow>
         (if flags AND O_TRUNC \<noteq> 0 \<or> flags AND O_CREAT \<noteq> 0
          then do { g \<leftarrow> vop_op op_truncate W n s; g n 0 s } else Some (0, s));
       if ret \<noteq> 0 then do {
         (_, s) \<leftarrow> inode_open_dec W n s;
         s \<leftarrow> drop_ref W (Some n) s;
         Some (ret, None, s)
       } else Some (0, Some n, s)
     }
   }"

text \<open>Finding or creating the inode. The second lookup reads the buffer the first one has cut. The result of \<^verbatim>\<open>vop_create\<close> is not
  tested; when it fails, \<^verbatim>\<open>node\<close> has never been set, and the run has no meaning from there on.\<close>

definition create_node ::
  "'a vfs_scheme world \<Rightarrow> string \<Rightarrow> bool \<Rightarrow> 'a vfs_scheme \<Rightarrow> (int \<times> nat option \<times> 'a vfs_scheme) option" where
  "create_node W path excl s = do {
     (ret, dir, name, s) \<leftarrow> vfs_lookup_parent W path s;
     if ret \<noteq> 0 then Some (ret, None, s)
     else do {
       d \<leftarrow> dir;
       f \<leftarrow> vop_op op_create W d s;
       (ret, node, s) \<leftarrow> f d name excl s;
       kassert (ret = 0);
       Some (0, node, s)
     }
   }"

definition find_node ::
  "'a vfs_scheme world \<Rightarrow> string \<Rightarrow> u32 \<Rightarrow> 'a vfs_scheme \<Rightarrow> (int \<times> nat option \<times> 'a vfs_scheme) option" where
  "find_node W path flags s = do {
     let excl = (flags AND O_EXCL \<noteq> 0);
     let create = (flags AND O_CREAT \<noteq> 0);
     (ret, node, s) \<leftarrow> vfs_lookup W path s;
     if ret \<noteq> 0 then
       if ret = - 16 \<and> create then create_node W (cut_device path) excl s else Some (ret, None, s)
     else if excl \<and> create then Some (- E_EXISTS, None, s)
     else Some (0, node, s)
   }"

definition vfs_open ::
  "'a vfs_scheme world \<Rightarrow> string \<Rightarrow> u32 \<Rightarrow> 'a vfs_scheme \<Rightarrow> (int \<times> nat option \<times> 'a vfs_scheme) option" where
  "vfs_open W path flags s =
     (let mode = flags AND O_ACCMODE;
          can_write = (mode = O_WRONLY \<or> mode = O_RDWR) in
      if mode \<noteq> O_RDONLY \<and> \<not> can_write then Some (- E_INVAL, None, s)
      else if flags AND O_TRUNC \<noteq> 0 \<and> \<not> can_write then Some (- E_INVAL, None, s)
      else do {
        (ret, node, s) \<leftarrow> find_node W path flags s;
        if ret \<noteq> 0 then Some (ret, None, s)
        else do { n \<leftarrow> node; open_node W n flags s }
      })"

definition vfs_close :: "'a vfs_scheme world \<Rightarrow> nat \<Rightarrow> 'a vfs_scheme \<Rightarrow> (int \<times> 'a vfs_scheme) option" where
  "vfs_close W n s = do {
     (_, s) \<leftarrow> inode_open_dec W n s;
     (_, s) \<leftarrow> inode_ref_dec W n s;
     Some (0, s)
   }"

text \<open>The calls the kernel does not implement.\<close>

definition vfs_unlink :: "string \<Rightarrow> int" where "vfs_unlink path = - E_UNIMP"
definition vfs_rename :: "string \<Rightarrow> string \<Rightarrow> int" where "vfs_rename old new = - E_UNIMP"
definition vfs_link :: "string \<Rightarrow> string \<Rightarrow> int" where "vfs_link old new = - E_UNIMP"
definition vfs_symlink :: "string \<Rightarrow> string \<Rightarrow> int" where "vfs_symlink old new = - E_UNIMP"
definition vfs_readlink :: "string \<Rightarrow> int" where "vfs_readlink path = - E_UNIMP"
definition vfs_mkdir :: "string \<Rightarrow> int" where "vfs_mkdir path = - E_UNIMP"

end
