(* ===== verification/File_Table.thy ===== *)
theory File_Table
  imports Vfs
begin

text \<open>
  Open files of a process, \<^verbatim>\<open>kern/fs/file.c\<close> and \<^verbatim>\<open>kern/fs/fs.c\<close>: the table of file descriptors, opening, closing, reading,
  writing and seeking, duplicating a descriptor, and creating, copying and destroying a whole table.

  A \<^verbatim>\<open>struct file *\<close> is the table and the index of the entry in it.
\<close>

section \<open>The descriptor table\<close>

text \<open>A page holds the structure and as many entries as fit behind it; an entry takes 56 bytes (\<^verbatim>\<open>bool\<close> is
  \<^verbatim>\<open>long long\<close>), and so does the structure.\<close>

definition FILES_STRUCT_BUFSIZE :: nat where "FILES_STRUCT_BUFSIZE = 4096 - 56"
definition FILES_STRUCT_NENTRY :: nat where "FILES_STRUCT_NENTRY = FILES_STRUCT_BUFSIZE div 56"
definition NO_FD :: int where "NO_FD = - 100"

definition testfd :: "int \<Rightarrow> bool" where
  "testfd fd \<longleftrightarrow> 0 \<le> fd \<and> fd < int FILES_STRUCT_NENTRY"

abbreviation item :: "'a vfs_scheme \<Rightarrow> nat \<Rightarrow> nat \<Rightarrow> file_item" where
  "item s t i \<equiv> fd_array (files s t) i"

definition set_item :: "nat \<Rightarrow> nat \<Rightarrow> (file_item \<Rightarrow> file_item) \<Rightarrow> 'a vfs_scheme \<Rightarrow> 'a vfs_scheme" where
  "set_item t i f s = set_files t (\<lambda>x. x\<lparr>fd_array := (fd_array x)(i := f (fd_array x i))\<rparr>) s"

fun fd_init_loop :: "nat \<Rightarrow> nat \<Rightarrow> nat \<Rightarrow> 'a vfs_scheme \<Rightarrow> 'a vfs_scheme" where
  "fd_init_loop t fd 0 s = s"
| "fd_init_loop t fd (Suc k) s =
     fd_init_loop t (Suc fd) k (set_item t fd (\<lambda>f. f\<lparr>fopen_count := 0, fstatus := FD_NONE, ffd := fd\<rparr>) s)"

definition fd_array_init :: "nat \<Rightarrow> 'a vfs_scheme \<Rightarrow> 'a vfs_scheme" where
  "fd_array_init t s = fd_init_loop t 0 FILES_STRUCT_NENTRY s"

fun free_slot :: "'a vfs_scheme \<Rightarrow> nat \<Rightarrow> nat \<Rightarrow> nat \<Rightarrow> nat option" where
  "free_slot s t fd 0 = None"
| "free_slot s t fd (Suc k) = (if fstatus (item s t fd) = FD_NONE then Some fd else free_slot s t (Suc fd) k)"

definition fd_array_alloc :: "int \<Rightarrow> 'a vfs_scheme \<Rightarrow> (int \<times> nat option \<times> 'a vfs_scheme) option" where
  "fd_array_alloc fd s = do {
     t \<leftarrow> cur_files s;
     let (ret, r) =
       (if fd = NO_FD then
          (case free_slot s t 0 FILES_STRUCT_NENTRY of None \<Rightarrow> (- E_MAX_OPEN, None) | Some i \<Rightarrow> (0, Some i))
        else if testfd fd then
          if fstatus (item s t (nat fd)) = FD_NONE then (0, Some (nat fd)) else (- E_BUSY, None)
        else (- E_INVAL, None));
     (case r of
        None \<Rightarrow> Some (ret, None, s)
      | Some i \<Rightarrow> do {
          kassert (fopen_count (item s t i) = 0);
          Some (0, Some i, set_item t i (\<lambda>f. f\<lparr>fstatus := FD_INIT, fnode := None\<rparr>) s)
        })
   }"

definition fd_array_free :: "'a vfs_scheme world \<Rightarrow> nat \<Rightarrow> nat \<Rightarrow> 'a vfs_scheme \<Rightarrow> 'a vfs_scheme option" where
  "fd_array_free W t i s = do {
     kassert (fstatus (item s t i) = FD_INIT \<or> fstatus (item s t i) = FD_CLOSED);
     kassert (fopen_count (item s t i) = 0);
     s \<leftarrow> (if fstatus (item s t i) = FD_CLOSED
           then do { n \<leftarrow> fnode (item s t i); (_, s) \<leftarrow> vfs_close W n s; Some s } else Some s);
     Some (set_item t i (\<lambda>f. f\<lparr>fstatus := FD_NONE\<rparr>) s)
   }"

definition fd_array_acquire :: "nat \<Rightarrow> nat \<Rightarrow> 'a vfs_scheme \<Rightarrow> 'a vfs_scheme option" where
  "fd_array_acquire t i s = do {
     kassert (fstatus (item s t i) = FD_OPENED);
     Some (set_item t i (\<lambda>f. f\<lparr>fopen_count := fopen_count f + 1\<rparr>) s)
   }"

definition fd_array_release :: "'a vfs_scheme world \<Rightarrow> nat \<Rightarrow> nat \<Rightarrow> 'a vfs_scheme \<Rightarrow> 'a vfs_scheme option" where
  "fd_array_release W t i s = do {
     kassert (fstatus (item s t i) = FD_OPENED \<or> fstatus (item s t i) = FD_CLOSED);
     kassert (fopen_count (item s t i) > 0);
     let s = set_item t i (\<lambda>f. f\<lparr>fopen_count := fopen_count f - 1\<rparr>) s;
     if fopen_count (item s t i) = 0 then fd_array_free W t i s else Some s
   }"

definition fd_array_open :: "nat \<Rightarrow> nat \<Rightarrow> 'a vfs_scheme \<Rightarrow> 'a vfs_scheme option" where
  "fd_array_open t i s = do {
     kassert (fstatus (item s t i) = FD_INIT \<and> fnode (item s t i) \<noteq> None);
     Some (set_item t i (\<lambda>f. f\<lparr>fstatus := FD_OPENED, fopen_count := fopen_count f + 1\<rparr>) s)
   }"

definition fd_array_close :: "'a vfs_scheme world \<Rightarrow> nat \<Rightarrow> nat \<Rightarrow> 'a vfs_scheme \<Rightarrow> 'a vfs_scheme option" where
  "fd_array_close W t i s = do {
     kassert (fstatus (item s t i) = FD_OPENED);
     kassert (fopen_count (item s t i) > 0);
     let s = set_item t i (\<lambda>f. f\<lparr>fstatus := FD_CLOSED, fopen_count := fopen_count f - 1\<rparr>) s;
     if fopen_count (item s t i) = 0 then fd_array_free W t i s else Some s
   }"

definition fd_array_dup :: "nat \<Rightarrow> nat \<Rightarrow> nat \<Rightarrow> nat \<Rightarrow> 'a vfs_scheme \<Rightarrow> 'a vfs_scheme option" where
  "fd_array_dup t i ft fi s = do {
     kassert (fstatus (item s t i) = FD_INIT \<and> fstatus (item s ft fi) = FD_OPENED);
     let from = item s ft fi;
     n \<leftarrow> fnode from;
     let s = inode_open_inc n (inode_ref_inc n s);
     let s = set_item t i (\<lambda>f. f\<lparr>fpos := fpos from, readable := readable from, writable := writable from, fnode := Some n\<rparr>) s;
     fd_array_open t i s
   }"

definition fd2file :: "int \<Rightarrow> 'a vfs_scheme \<Rightarrow> (int \<times> nat option) option" where
  "fd2file fd s =
     (if testfd fd then do {
        t \<leftarrow> cur_files s;
        let f = item s t (nat fd);
        Some (if fstatus f = FD_OPENED \<and> int (ffd f) = fd then (0, Some (nat fd)) else (- E_INVAL, None))
      } else Some (- E_INVAL, None))"

definition file_testfd :: "int \<Rightarrow> bool \<Rightarrow> bool \<Rightarrow> 'a vfs_scheme \<Rightarrow> bool option" where
  "file_testfd fd rd1 wr1 s = do {
     (ret, r) \<leftarrow> fd2file fd s;
     (case r of
        None \<Rightarrow> Some False
      | Some i \<Rightarrow> do {
          t \<leftarrow> cur_files s;
          Some (\<not> (rd1 \<and> \<not> readable (item s t i)) \<and> \<not> (wr1 \<and> \<not> writable (item s t i)))
        })
   }"

section \<open>Operations on open files\<close>

text \<open>The part of \<^verbatim>\<open>file_open\<close> after \<^verbatim>\<open>vfs_open\<close> has returned the inode.\<close>

definition install_file ::
  "'a vfs_scheme world \<Rightarrow> nat \<Rightarrow> nat \<Rightarrow> nat \<Rightarrow> u32 \<Rightarrow> bool \<Rightarrow> bool \<Rightarrow> 'a vfs_scheme \<Rightarrow> (int \<times> 'a vfs_scheme) option" where
  "install_file W t i n flags rd1 wr1 s = do {
     let s = set_item t i (\<lambda>f. f\<lparr>fpos := 0\<rparr>) s;
     (ret, s) \<leftarrow>
       (if flags AND O_APPEND \<noteq> 0 then do {
          g \<leftarrow> vop_op op_fstat W n s;
          (ret, st, s) \<leftarrow> g n s;
          if ret \<noteq> 0 then do { (_, s) \<leftarrow> vfs_close W n s; s \<leftarrow> fd_array_free W t i s; Some (ret, s) }
          else Some (0, set_item t i (\<lambda>f. f\<lparr>fpos := int (st_size st)\<rparr>) s)
        } else Some (0, s));
     if ret \<noteq> 0 then Some (ret, s)
     else do {
       let s = set_item t i (\<lambda>f. f\<lparr>fnode := Some n, readable := rd1, writable := wr1\<rparr>) s;
       s \<leftarrow> fd_array_open t i s;
       Some (int (ffd (item s t i)), s)
     }
   }"

definition file_open :: "'a vfs_scheme world \<Rightarrow> string \<Rightarrow> u32 \<Rightarrow> 'a vfs_scheme \<Rightarrow> (int \<times> 'a vfs_scheme) option" where
  "file_open W path flags s =
     (let mode = flags AND O_ACCMODE in
      if mode \<noteq> O_RDONLY \<and> mode \<noteq> O_WRONLY \<and> mode \<noteq> O_RDWR then Some (- E_INVAL, s)
      else do {
        let rd1 = (mode = O_RDONLY \<or> mode = O_RDWR);
        let wr1 = (mode = O_WRONLY \<or> mode = O_RDWR);
        t \<leftarrow> cur_files s;
        (ret, r, s) \<leftarrow> fd_array_alloc NO_FD s;
        (case r of
           None \<Rightarrow> Some (ret, s)
         | Some i \<Rightarrow> do {
             (ret, node, s) \<leftarrow> vfs_open W path flags s;
             if ret \<noteq> 0 then do { s \<leftarrow> fd_array_free W t i s; Some (ret, s) }
             else do { n \<leftarrow> node; install_file W t i n flags rd1 wr1 s }
           })
      })"

definition file_close :: "'a vfs_scheme world \<Rightarrow> int \<Rightarrow> 'a vfs_scheme \<Rightarrow> (int \<times> 'a vfs_scheme) option" where
  "file_close W fd s = do {
     (ret, r) \<leftarrow> fd2file fd s;
     (case r of
        None \<Rightarrow> Some (ret, s)
      | Some i \<Rightarrow> do { t \<leftarrow> cur_files s; s \<leftarrow> fd_array_close W t i s; Some (0, s) })
   }"

text \<open>An operation on the inode of an open file, between acquiring and releasing the entry.\<close>

definition file_io ::
  "('a vfs_scheme inode_ops \<Rightarrow> (nat \<Rightarrow> iobuf \<Rightarrow> 'a vfs_scheme \<Rightarrow> (int \<times> iobuf \<times> 'a vfs_scheme) option) option) \<Rightarrow>
   'a vfs_scheme world \<Rightarrow> nat \<Rightarrow> nat \<Rightarrow> u8 list \<Rightarrow> nat \<Rightarrow> 'a vfs_scheme \<Rightarrow> (int \<times> nat \<times> u8 list \<times> 'a vfs_scheme) option" where
  "file_io sel W t i base len s = do {
     s \<leftarrow> fd_array_acquire t i s;
     n \<leftarrow> fnode (item s t i);
     f \<leftarrow> vop_op sel W n s;
     (ret, iob, s) \<leftarrow> f n (iobuf_init base len (fpos (item s t i))) s;
     let copied = iobuf_used iob;
     let s = (if fstatus (item s t i) = FD_OPENED then set_item t i (\<lambda>f. f\<lparr>fpos := fpos f + int copied\<rparr>) s else s);
     s \<leftarrow> fd_array_release W t i s;
     Some (ret, copied, io_mem iob, s)
   }"

definition file_read ::
  "'a vfs_scheme world \<Rightarrow> int \<Rightarrow> u8 list \<Rightarrow> nat \<Rightarrow> 'a vfs_scheme \<Rightarrow> (int \<times> nat \<times> u8 list \<times> 'a vfs_scheme) option" where
  "file_read W fd base len s = do {
     (ret, r) \<leftarrow> fd2file fd s;
     (case r of
        None \<Rightarrow> Some (ret, 0, base, s)
      | Some i \<Rightarrow> do {
          t \<leftarrow> cur_files s;
          if \<not> readable (item s t i) then Some (- E_INVAL, 0, base, s)
          else file_io op_read W t i base len s
        })
   }"

definition file_write ::
  "'a vfs_scheme world \<Rightarrow> int \<Rightarrow> u8 list \<Rightarrow> nat \<Rightarrow> 'a vfs_scheme \<Rightarrow> (int \<times> nat \<times> 'a vfs_scheme) option" where
  "file_write W fd base len s = do {
     (ret, r) \<leftarrow> fd2file fd s;
     (case r of
        None \<Rightarrow> Some (ret, 0, s)
      | Some i \<Rightarrow> do {
          t \<leftarrow> cur_files s;
          if \<not> writable (item s t i) then Some (- E_INVAL, 0, s)
          else do { (ret, copied, _, s) \<leftarrow> file_io op_write W t i base len s; Some (ret, copied, s) }
        })
   }"

definition file_seek :: "'a vfs_scheme world \<Rightarrow> int \<Rightarrow> int \<Rightarrow> int \<Rightarrow> 'a vfs_scheme \<Rightarrow> (int \<times> 'a vfs_scheme) option" where
  "file_seek W fd pos whence s = do {
     (ret, r) \<leftarrow> fd2file fd s;
     (case r of
        None \<Rightarrow> Some (ret, s)
      | Some i \<Rightarrow> do {
          t \<leftarrow> cur_files s;
          s \<leftarrow> fd_array_acquire t i s;
          n \<leftarrow> fnode (item s t i);
          (ret, pos, s) \<leftarrow>
            (if whence = 0 then Some (0, pos, s)
             else if whence = 1 then Some (0, pos + fpos (item s t i), s)
             else if whence = 2 then do {
               g \<leftarrow> vop_op op_fstat W n s;
               (ret, st, s) \<leftarrow> g n s;
               Some (ret, if ret = 0 then pos + int (st_size st) else pos, s)
             } else Some (- E_INVAL, pos, s));
          (ret, s) \<leftarrow>
            (if ret = 0 then do {
               g \<leftarrow> vop_op op_tryseek W n s;
               (ret, s) \<leftarrow> g n pos s;
               Some (ret, if ret = 0 then set_item t i (\<lambda>f. f\<lparr>fpos := pos\<rparr>) s else s)
             } else Some (ret, s));
          s \<leftarrow> fd_array_release W t i s;
          Some (ret, s)
        })
   }"

definition file_fstat :: "'a vfs_scheme world \<Rightarrow> int \<Rightarrow> 'a vfs_scheme \<Rightarrow> (int \<times> stat option \<times> 'a vfs_scheme) option" where
  "file_fstat W fd s = do {
     (ret, r) \<leftarrow> fd2file fd s;
     (case r of
        None \<Rightarrow> Some (ret, None, s)
      | Some i \<Rightarrow> do {
          t \<leftarrow> cur_files s;
          s \<leftarrow> fd_array_acquire t i s;
          n \<leftarrow> fnode (item s t i);
          g \<leftarrow> vop_op op_fstat W n s;
          (ret, st, s) \<leftarrow> g n s;
          s \<leftarrow> fd_array_release W t i s;
          Some (ret, Some st, s)
        })
   }"

definition file_fsync :: "'a vfs_scheme world \<Rightarrow> int \<Rightarrow> 'a vfs_scheme \<Rightarrow> (int \<times> 'a vfs_scheme) option" where
  "file_fsync W fd s = do {
     (ret, r) \<leftarrow> fd2file fd s;
     (case r of
        None \<Rightarrow> Some (ret, s)
      | Some i \<Rightarrow> do {
          t \<leftarrow> cur_files s;
          s \<leftarrow> fd_array_acquire t i s;
          n \<leftarrow> fnode (item s t i);
          g \<leftarrow> vop_op op_fsync W n s;
          (ret, s) \<leftarrow> g n s;
          s \<leftarrow> fd_array_release W t i s;
          Some (ret, s)
        })
   }"

text \<open>The name buffer of a directory entry is 256 bytes; \<open>off\<close> is its field \<^verbatim>\<open>offset\<close>.\<close>

definition file_getdirentry ::
  "'a vfs_scheme world \<Rightarrow> int \<Rightarrow> int \<Rightarrow> u8 list \<Rightarrow> 'a vfs_scheme \<Rightarrow> (int \<times> int \<times> u8 list \<times> 'a vfs_scheme) option" where
  "file_getdirentry W fd off name s = do {
     (ret, r) \<leftarrow> fd2file fd s;
     (case r of
        None \<Rightarrow> Some (ret, off, name, s)
      | Some i \<Rightarrow> do {
          t \<leftarrow> cur_files s;
          s \<leftarrow> fd_array_acquire t i s;
          n \<leftarrow> fnode (item s t i);
          g \<leftarrow> vop_op op_getdirentry W n s;
          (ret, iob, s) \<leftarrow> g n (iobuf_init name 256 off) s;
          s \<leftarrow> fd_array_release W t i s;
          Some (ret, if ret = 0 then off + int (iobuf_used iob) else off, io_mem iob, s)
        })
   }"

definition file_dup :: "int \<Rightarrow> int \<Rightarrow> 'a vfs_scheme \<Rightarrow> (int \<times> 'a vfs_scheme) option" where
  "file_dup fd1 fd2 s = do {
     (ret, r1) \<leftarrow> fd2file fd1 s;
     (case r1 of
        None \<Rightarrow> Some (ret, s)
      | Some i1 \<Rightarrow> do {
          t \<leftarrow> cur_files s;
          (ret, r2, s) \<leftarrow> fd_array_alloc fd2 s;
          (case r2 of
             None \<Rightarrow> Some (ret, s)
           | Some i2 \<Rightarrow> do {
               s \<leftarrow> fd_array_dup t i2 t i1 s;
               Some (int (ffd (item s t i2)), s)
             })
        })
   }"

section \<open>Whole tables\<close>

definition files_create :: "(nat set \<Rightarrow> nat option) \<Rightarrow> 'a vfs_scheme \<Rightarrow> nat option \<times> 'a vfs_scheme" where
  "files_create km s =
     (case km (files_live s) of
        None \<Rightarrow> (None, s)
      | Some t \<Rightarrow>
          (Some t, fd_array_init t (set_files t (\<lambda>x. x\<lparr>pwd := None, files_count := 0, files_nlinks := 1\<rparr>)
             (s\<lparr>files_live := insert t (files_live s)\<rparr>))))"

fun destroy_files_loop :: "'a vfs_scheme world \<Rightarrow> nat \<Rightarrow> nat \<Rightarrow> nat \<Rightarrow> 'a vfs_scheme \<Rightarrow> 'a vfs_scheme option" where
  "destroy_files_loop W t i 0 s = Some s"
| "destroy_files_loop W t i (Suc k) s = do {
     s \<leftarrow> (if fstatus (item s t i) = FD_OPENED then fd_array_close W t i s else Some s);
     kassert (fstatus (item s t i) = FD_NONE);
     destroy_files_loop W t (Suc i) k s
   }"

definition files_destroy :: "'a vfs_scheme world \<Rightarrow> nat \<Rightarrow> 'a vfs_scheme \<Rightarrow> 'a vfs_scheme option" where
  "files_destroy W t s = do {
     kassert (files_count (files s t) = 0);
     s \<leftarrow> drop_ref W (pwd (files s t)) s;
     s \<leftarrow> destroy_files_loop W t 0 FILES_STRUCT_NENTRY s;
     Some (s\<lparr>files_live := files_live s - {t}\<rparr>)
   }"

fun closeall_loop :: "'a vfs_scheme world \<Rightarrow> nat \<Rightarrow> nat \<Rightarrow> nat \<Rightarrow> 'a vfs_scheme \<Rightarrow> 'a vfs_scheme option" where
  "closeall_loop W t i 0 s = Some s"
| "closeall_loop W t i (Suc k) s = do {
     s \<leftarrow> (if fstatus (item s t i) = FD_OPENED then fd_array_close W t i s else Some s);
     closeall_loop W t (Suc i) k s
   }"

definition files_closeall :: "'a vfs_scheme world \<Rightarrow> nat \<Rightarrow> 'a vfs_scheme \<Rightarrow> 'a vfs_scheme option" where
  "files_closeall W t s = do {
     kassert (files_count (files s t) > 0);
     closeall_loop W t 2 (FILES_STRUCT_NENTRY - 2) s
   }"

fun dup_files_loop :: "nat \<Rightarrow> nat \<Rightarrow> nat \<Rightarrow> nat \<Rightarrow> 'a vfs_scheme \<Rightarrow> 'a vfs_scheme option" where
  "dup_files_loop t from i 0 s = Some s"
| "dup_files_loop t from i (Suc k) s = do {
     s \<leftarrow> (if fstatus (item s from i) = FD_OPENED
           then fd_array_dup t i from i (set_item t i (\<lambda>f. f\<lparr>fstatus := FD_INIT\<rparr>) s) else Some s);
     dup_files_loop t from (Suc i) k s
   }"

definition dup_files :: "nat \<Rightarrow> nat \<Rightarrow> 'a vfs_scheme \<Rightarrow> (int \<times> 'a vfs_scheme) option" where
  "dup_files t from s = do {
     kassert (files_count (files s t) = 0);
     let d = pwd (files s from);
     let s = set_files t (\<lambda>x. x\<lparr>pwd := d\<rparr>) s;
     let s = (case d of None \<Rightarrow> s | Some n \<Rightarrow> inode_ref_inc n s);
     s \<leftarrow> dup_files_loop t from 0 FILES_STRUCT_NENTRY s;
     Some (0, s)
   }"

end
