(* ===== verification/File_Refs.thy ===== *)
theory File_Refs
  imports File_Table
begin

text \<open>
  Accounting for inodes: the open count of an inode is the number of descriptors that have it open, and its reference count is the
  number of descriptors, working directories and devices that name it, together with what running calls hold.

  Calls run concurrently and an inode operation may block in the middle of a call. What the calls under way hold is therefore
  part of the statement: a \<open>holdings\<close> record says how many calls use an entry, which entries are reserved by a call that opens or
  frees them, how many references and opens calls hold, which tables calls rely on (\<open>pinned\<close>), and which tables are being destroyed
  and how far (\<open>dying\<close>). An inode operation may run anything in between, as long as
  the accounts are true when it returns; this is the interface \<open>vnode_ops\<close>. From it every routine of the file layer is shown
  to give back exactly what it took.
\<close>

section \<open>The accounts\<close>

record holdings =
  gcur :: "nat option"
  acq :: "nat \<Rightarrow> nat \<Rightarrow> nat"
  res :: "nat \<Rightarrow> nat \<Rightarrow> fd_status option"
  xref :: "nat \<Rightarrow> nat"
  xopen :: "nat \<Rightarrow> nat"
  pinned :: "nat set"
  dying :: "nat \<Rightarrow> nat option"

definition users :: "('b \<Rightarrow> nat option) \<Rightarrow> 'b set \<Rightarrow> nat \<Rightarrow> nat" where
  "users f A n = card {x \<in> A. f x = Some n}"

definition slot_of :: "fd_status option \<Rightarrow> file_item \<Rightarrow> nat option" where
  "slot_of r f = (if r \<noteq> None then None else if fstatus f = FD_OPENED \<or> fstatus f = FD_CLOSED then fnode f else None)"

definition slots :: "'a vfs_scheme \<Rightarrow> (nat \<times> nat) set" where
  "slots s = files_live s \<times> {..<FILES_STRUCT_NENTRY}"

definition slot_users :: "holdings \<Rightarrow> 'a vfs_scheme \<Rightarrow> nat \<Rightarrow> nat" where
  "slot_users g s = users (\<lambda>(t, i). slot_of (res g t i) (item s t i)) (slots s)"

definition pwd_users :: "holdings \<Rightarrow> 'a vfs_scheme \<Rightarrow> nat \<Rightarrow> nat" where
  "pwd_users g s = users (\<lambda>t. if dying g t = None then pwd (files s t) else None) (files_live s)"

definition dev_users :: "'a vfs_scheme \<Rightarrow> nat \<Rightarrow> nat" where
  "dev_users s = users (\<lambda>d. devnode (vdevs s d)) (vdev_live s)"

definition entry_ok :: "nat \<Rightarrow> fd_status option \<Rightarrow> nat \<Rightarrow> file_item \<Rightarrow> bool" where
  "entry_ok a r i f \<longleftrightarrow> ffd f = i \<and>
     (case r of
        Some st \<Rightarrow> (st = FD_INIT \<or> st = FD_CLOSED) \<and> fstatus f = st \<and> fopen_count f = 0 \<and> a = 0
      | None \<Rightarrow> (case fstatus f of
            FD_NONE \<Rightarrow> fopen_count f = 0 \<and> a = 0
          | FD_INIT \<Rightarrow> False
          | FD_OPENED \<Rightarrow> fnode f \<noteq> None \<and> fopen_count f = 1 + int a
          | FD_CLOSED \<Rightarrow> fnode f \<noteq> None \<and> 0 < a \<and> fopen_count f = int a))"

definition accounted :: "holdings \<Rightarrow> 'a vfs_scheme \<Rightarrow> bool" where
  "accounted g s \<longleftrightarrow>
     finite (files_live s) \<and> finite (vdev_live s) \<and>
     cur_files s = gcur g \<and> (\<forall>t\<in>pinned g. t \<in> files_live s \<and> dying g t = None) \<and>
     (\<forall>t k. dying g t = Some k \<longrightarrow> t \<in> files_live s \<and> (\<forall>i<k. fstatus (item s t i) = FD_NONE)) \<and>
     (\<forall>t i. acq g t i > 0 \<or> res g t i \<noteq> None \<longrightarrow> t \<in> files_live s \<and> i < FILES_STRUCT_NENTRY) \<and>
     (\<forall>t\<in>files_live s. \<forall>i<FILES_STRUCT_NENTRY. entry_ok (acq g t i) (res g t i) i (item s t i)) \<and>
     (\<forall>n. xopen g n \<le> xref g n) \<and>
     (\<forall>n. open_count (inodes s n) = int (slot_users g s n + xopen g n)) \<and>
     (\<forall>n. ref_count (inodes s n) =
        int (slot_users g s n + pwd_users g s n + of_bool (bootfs_node s = Some n) + dev_users s n + xref g n))"

text \<open>The table of the running process is one its calls rely on.\<close>

definition cur_pinned :: "holdings \<Rightarrow> bool" where
  "cur_pinned g \<longleftrightarrow> (\<forall>t. gcur g = Some t \<longrightarrow> t \<in> pinned g)"

text \<open>What a call takes and gives back.\<close>

definition take_ref :: "nat \<Rightarrow> holdings \<Rightarrow> holdings" where
  "take_ref n g = g\<lparr>xref := (xref g)(n := xref g n + 1)\<rparr>"

definition take_open :: "nat \<Rightarrow> holdings \<Rightarrow> holdings" where
  "take_open n g = g\<lparr>xopen := (xopen g)(n := xopen g n + 1)\<rparr>"

definition use_entry :: "nat \<Rightarrow> nat \<Rightarrow> holdings \<Rightarrow> holdings" where
  "use_entry t i g = g\<lparr>acq := (acq g)(t := (acq g t)(i := acq g t i + 1))\<rparr>"

definition reserve :: "nat \<Rightarrow> nat \<Rightarrow> fd_status \<Rightarrow> holdings \<Rightarrow> holdings" where
  "reserve t i st g = g\<lparr>res := (res g)(t := (res g t)(i := Some st))\<rparr>"

lemmas holding_defs = take_ref_def take_open_def use_entry_def reserve_def

section \<open>Changing one entry, one inode, one working directory\<close>

lemma users_upd:
  assumes "finite A" "x \<in> A" "\<forall>y\<in>A. y \<noteq> x \<longrightarrow> f' y = f y"
  shows "users f' A n + of_bool (f x = Some n) = users f A n + of_bool (f' x = Some n)"
proof -
  let ?B = "{y \<in> A - {x}. f y = Some n}"
  have *: "users h A n = card ?B + of_bool (h x = Some n)" if "\<forall>y\<in>A. y \<noteq> x \<longrightarrow> h y = f y" for h
  proof -
    have e: "{y \<in> A. h y = Some n} = (if h x = Some n then insert x ?B else ?B)"
      using that assms(2) by auto
    have "finite ?B" using assms(1) by auto
    then show ?thesis unfolding users_def e by (auto simp: card_insert_if)
  qed
  show ?thesis using *[OF assms(3)] *[of f] by simp
qed

lemma users_cong: "\<lbrakk> A = B; \<And>x. x \<in> B \<Longrightarrow> f x = h x \<rbrakk> \<Longrightarrow> users f A n = users h B n"
  unfolding users_def by (rule arg_cong [where f = card]) auto

lemma item_set_item: "item (set_item t i F s) u j = (if u = t \<and> j = i then F (item s t i) else item s u j)"
  by (simp add: set_item_def set_files_def)

lemma set_item_same [simp]:
  "files_live (set_item t i F s) = files_live s" "vdev_live (set_item t i F s) = vdev_live s"
  "inodes (set_item t i F s) = inodes s" "vdevs (set_item t i F s) = vdevs s"
  "cur_files (set_item t i F s) = cur_files s" "bootfs_node (set_item t i F s) = bootfs_node s"
  "pwd (files (set_item t i F s) u) = pwd (files s u)" "node_live (set_item t i F s) = node_live s"
  by (simp_all add: set_item_def set_files_def)

lemma set_node_same [simp]:
  "files_live (set_node n F s) = files_live s" "vdev_live (set_node n F s) = vdev_live s"
  "files (set_node n F s) = files s" "vdevs (set_node n F s) = vdevs s"
  "cur_files (set_node n F s) = cur_files s" "bootfs_node (set_node n F s) = bootfs_node s"
  "node_live (set_node n F s) = node_live s"
  "inodes (set_node n F s) m = (if m = n then F (inodes s n) else inodes s m)"
  by (simp_all add: set_node_def)

lemma slots_same [simp]: "slots (set_item t i F s) = slots s" "slots (set_node n H s) = slots s"
  by (simp_all add: slots_def)

lemma users_same [simp]:
  "pwd_users g (set_item t i F s) = pwd_users g s" "dev_users (set_item t i F s) = dev_users s"
  "pwd_users g (set_node n H s) = pwd_users g s" "dev_users (set_node n H s) = dev_users s"
  "slot_users g (set_node n H s) = slot_users g s"
  by (simp_all add: pwd_users_def dev_users_def slot_users_def cong: if_cong)

lemma slot_users_res: "res g' = res g \<Longrightarrow> slot_users g' s = slot_users g s"
  by (simp add: slot_users_def)

lemma pwd_users_dying: "dying g' = dying g \<Longrightarrow> pwd_users g' s = pwd_users g s"
  by (simp add: pwd_users_def)

lemma accounted_entry:
  assumes inv: "accounted g s" and t: "t \<in> files_live s" and i: "i < FILES_STRUCT_NENTRY"
    and g: "gcur g' = gcur g" "acq g' = (acq g)(t := (acq g t)(i := a))" "res g' = (res g)(t := (res g t)(i := r))"
      "pinned g' = pinned g" "dying g' = dying g"
    and d: "fstatus (item s t i) \<noteq> FD_NONE \<or> fstatus (F (item s t i)) = FD_NONE \<or> dying g t = None"
    and e: "entry_ok a r i (F (item s t i))"
    and o1: "\<forall>n. xopen g' n + of_bool (slot_of r (F (item s t i)) = Some n) =
                  xopen g n + of_bool (slot_of (res g t i) (item s t i) = Some n)"
    and o2: "\<forall>n. xref g' n + of_bool (slot_of r (F (item s t i)) = Some n) =
                  xref g n + of_bool (slot_of (res g t i) (item s t i) = Some n)"
  shows "accounted g' (set_item t i F s)"
proof -
  let ?s = "set_item t i F s"
  have fin: "finite (slots s)" using inv by (simp add: accounted_def slots_def)
  have u: "slot_users g' ?s n + of_bool (slot_of (res g t i) (item s t i) = Some n) =
           slot_users g s n + of_bool (slot_of r (F (item s t i)) = Some n)" for n
  proof -
    have "\<forall>y\<in>slots s. y \<noteq> (t, i) \<longrightarrow>
        (\<lambda>(t, i). slot_of (res g' t i) (item ?s t i)) y = (\<lambda>(t, i). slot_of (res g t i) (item s t i)) y"
      by (auto simp: g item_set_item split: if_splits)
    from users_upd [OF fin _ this, of n] show ?thesis
      using t i by (simp add: slot_users_def slots_def g item_set_item)
  qed
  have p: "slot_users g' ?s n + xopen g' n = slot_users g s n + xopen g n"
    "slot_users g' ?s n + xref g' n = slot_users g s n + xref g n" for n
    using u [of n] o1 [rule_format, of n] o2 [rule_format, of n] by linarith+
  have le: "xopen g' n \<le> xref g' n" for n
  proof -
    have "xopen g n \<le> xref g n" using inv by (simp add: accounted_def)
    then show ?thesis using o1 [rule_format, of n] o2 [rule_format, of n] by linarith
  qed
  have en: "entry_ok (acq g' u j) (res g' u j) j (item ?s u j)"
    if "u \<in> files_live s" "j < FILES_STRUCT_NENTRY" for u j
    using that e inv unfolding accounted_def by (auto simp: g item_set_item)
  have dy: "fstatus (item ?s u j) = FD_NONE" if "dying g u = Some k" "j < k" for u k j
    using that d inv unfolding accounted_def by (auto simp: item_set_item)
  have ref: "slot_users g' ?s n + P + B + D + xref g' n = slot_users g s n + P + B + D + xref g n" for n P B D
    using p(2) [of n] by linarith
  show ?thesis
    using inv t i en le dy unfolding accounted_def
    by (auto simp: p ref g pwd_users_dying [OF g(5)] simp del: of_nat_add split: if_splits)
qed

lemma accounted_node:
  assumes inv: "accounted g s"
    and g: "gcur g' = gcur g" "acq g' = acq g" "res g' = res g" "pinned g' = pinned g" "dying g' = dying g"
    and le: "xopen g' n \<le> xref g' n"
    and other: "\<forall>m. m \<noteq> n \<longrightarrow> xref g' m = xref g m \<and> xopen g' m = xopen g m"
    and r: "ref_count (F (inodes s n)) + int (xref g n) = ref_count (inodes s n) + int (xref g' n)"
    and op: "open_count (F (inodes s n)) + int (xopen g n) = open_count (inodes s n) + int (xopen g' n)"
  shows "accounted g' (set_node n F s)"
proof -
  have u: "slot_users g' s = slot_users g s" "pwd_users g' s = pwd_users g s"
    using slot_users_res [of g' g] pwd_users_dying [of g' g] g(3,5) by blast+
  have le': "xopen g' m \<le> xref g' m" for m
    using le other inv unfolding accounted_def by (cases "m = n") auto
  have oc: "open_count (inodes (set_node n F s) m) = int (slot_users g s m + xopen g' m)" for m
    using inv op other unfolding accounted_def by (cases "m = n") auto
  have rc: "ref_count (inodes (set_node n F s) m) =
      int (slot_users g s m + pwd_users g s m + of_bool (bootfs_node s = Some m) + dev_users s m + xref g' m)" for m
    using inv r other unfolding accounted_def by (cases "m = n") auto
  show ?thesis
    using inv unfolding accounted_def
    by (simp only: u g users_same set_node_same(1-7) le' oc rc) simp
qed


lemma accounted_pwd:
  assumes inv: "accounted g s" and t: "t \<in> files_live s" "dying g t = None"
    and g: "gcur g' = gcur g" "acq g' = acq g" "res g' = res g" "pinned g' = pinned g" "dying g' = dying g" "xopen g' = xopen g"
    and le: "\<forall>n. xopen g n \<le> xref g' n"
    and r: "\<forall>n. xref g' n + of_bool (d = Some n) = xref g n + of_bool (pwd (files s t) = Some n)"
  shows "accounted g' (set_files t (\<lambda>x. x\<lparr>pwd := d\<rparr>) s)"
proof -
  let ?s = "set_files t (\<lambda>x. x\<lparr>pwd := d\<rparr>) s"
  have same: "files_live ?s = files_live s" "vdev_live ?s = vdev_live s" "inodes ?s = inodes s" "vdevs ?s = vdevs s"
    "cur_files ?s = cur_files s" "bootfs_node ?s = bootfs_node s" "item ?s u j = item s u j"
    "pwd (files ?s u) = (if u = t then d else pwd (files s u))" for u j
    by (simp_all add: set_files_def)
  have fin: "finite (files_live s)" using inv by (simp add: accounted_def)
  have u: "slot_users g' ?s = slot_users g s" "dev_users ?s = dev_users s" "pwd_users g' ?s = pwd_users g ?s"
    by (simp_all add: slot_users_def dev_users_def slots_def same g pwd_users_dying [OF g(5)])
  have "\<forall>y\<in>files_live s. y \<noteq> t \<longrightarrow>
      (if dying g y = None then pwd (files ?s y) else None) = (if dying g y = None then pwd (files s y) else None)"
    by (simp add: same)
  from users_upd [OF fin t(1) this]
  have p: "pwd_users g ?s n + of_bool (pwd (files s t) = Some n) = pwd_users g s n + of_bool (d = Some n)" for n
    unfolding pwd_users_def same(1) by (simp add: same(8) t(2))
  have eq: "slot_users g s n + pwd_users g ?s n + b + c + xref g' n = slot_users g s n + pwd_users g s n + b + c + xref g n" for n b c
    using r [rule_format, of n] p [of n] by linarith
  have "ref_count (inodes s n) =
      int (slot_users g s n + pwd_users g ?s n + of_bool (bootfs_node s = Some n) + dev_users s n + xref g' n)" for n
    unfolding eq using inv by (simp add: accounted_def)
  then show ?thesis using inv le unfolding accounted_def
    by (simp only: u same g) blast
qed

lemma accounted_boot:
  assumes inv: "accounted g s"
    and g: "gcur g' = gcur g" "acq g' = acq g" "res g' = res g" "pinned g' = pinned g" "dying g' = dying g" "xopen g' = xopen g"
    and le: "\<forall>n. xopen g n \<le> xref g' n"
    and r: "\<forall>n. xref g' n + of_bool (d = Some n) = xref g n + of_bool (bootfs_node s = Some n)"
  shows "accounted g' (s\<lparr>bootfs_node := d\<rparr>)"
proof -
  let ?s = "s\<lparr>bootfs_node := d\<rparr>"
  have u: "slot_users g' ?s = slot_users g s" "dev_users ?s = dev_users s" "pwd_users g' ?s = pwd_users g s"
    by (simp_all add: slot_users_def dev_users_def pwd_users_def slots_def g cong: if_cong)
  have "a + of_bool (d = Some n) + c + xref g' n = a + of_bool (bootfs_node s = Some n) + c + xref g n" for n a c
    using r [rule_format, of n] by linarith
  then show ?thesis using inv le unfolding accounted_def
    by (simp add: u g del: of_nat_add)
qed

section \<open>References and opens\<close>

lemma accounted_sane: "accounted g s \<Longrightarrow> xopen g n \<le> xref g n"
  by (simp add: accounted_def)

lemma ref_inc_accounted: "accounted g s \<Longrightarrow> accounted (take_ref n g) (inode_ref_inc n s)"
  unfolding inode_ref_inc_def
  by (rule accounted_node) (auto simp: take_ref_def accounted_sane le_SucI)

lemma open_inc_accounted:
  "\<lbrakk> accounted g s; xopen g n < xref g n \<rbrakk> \<Longrightarrow> accounted (take_open n g) (inode_open_inc n s)"
  unfolding inode_open_inc_def
  by (rule accounted_node) (auto simp: take_open_def)

lemma ref_drop_accounted:
  "\<lbrakk> accounted (take_ref n g) s; xopen g n \<le> xref g n \<rbrakk> \<Longrightarrow>
   accounted g (set_node n (\<lambda>x. x\<lparr>ref_count := ref_count x - 1\<rparr>) s)"
  by (rule accounted_node [where g = "take_ref n g"]) (auto simp: take_ref_def)

lemma open_drop_accounted:
  assumes "accounted (take_open n g) s"
  shows "accounted g (set_node n (\<lambda>x. x\<lparr>open_count := open_count x - 1\<rparr>) s)"
proof -
  have "xopen g n \<le> xref g n" using accounted_sane [OF assms, of n] by (simp add: take_open_def)
  then show ?thesis using assms
    by (intro accounted_node [where g = "take_open n g"]) (auto simp: take_open_def)
qed

section \<open>The interface to the inode operations\<close>

definition keeps :: "('a vfs_scheme \<Rightarrow> 'a vfs_scheme option) \<Rightarrow> bool" where
  "keeps F \<longleftrightarrow> (\<forall>g s s'. accounted g s \<longrightarrow> F s = Some s' \<longrightarrow> accounted g s')"

definition hands_back :: "('a vfs_scheme \<Rightarrow> (int \<times> nat option \<times> 'a vfs_scheme) option) \<Rightarrow> bool" where
  "hands_back F \<longleftrightarrow> (\<forall>g s ret r s'. accounted g s \<longrightarrow> F s = Some (ret, r, s') \<longrightarrow>
     (if ret = 0 then \<exists>n. r = Some n \<and> accounted (take_ref n g) s' else accounted g s'))"

lemma keepsD: "\<lbrakk> keeps (\<lambda>s. map_option h (F s)); accounted g s; F s = Some r \<rbrakk> \<Longrightarrow> accounted g (h r)"
  by (auto simp: keeps_def)

lemma hands_backD:
  assumes "hands_back F" "accounted g s" "F s = Some (ret, r, s')"
  shows "(ret \<noteq> 0 \<and> accounted g s') \<or> (\<exists>n. ret = 0 \<and> r = Some n \<and> accounted (take_ref n g) s')"
proof -
  have "if ret = 0 then \<exists>n. r = Some n \<and> accounted (take_ref n g) s' else accounted g s'"
    using assms unfolding hands_back_def by blast
  then show ?thesis by (auto split: if_splits)
qed

abbreviation last_state :: "'b \<times> 'c \<times> 's \<Rightarrow> 's" where
  "last_state \<equiv> \<lambda>(_, _, s). s"

locale vnode_ops =
  fixes W :: "'a vfs_scheme world"
  assumes open_keeps: "op_open (iops W k) = Some f1 \<Longrightarrow> keeps (\<lambda>s. map_option snd (f1 n flags s))"
    and close_keeps: "op_close (iops W k) = Some f2 \<Longrightarrow> keeps (\<lambda>s. map_option snd (f2 n s))"
    and read_keeps: "op_read (iops W k) = Some f3 \<Longrightarrow> keeps (\<lambda>s. map_option last_state (f3 n iob s))"
    and write_keeps: "op_write (iops W k) = Some f4 \<Longrightarrow> keeps (\<lambda>s. map_option last_state (f4 n iob s))"
    and fstat_keeps: "op_fstat (iops W k) = Some f5 \<Longrightarrow> keeps (\<lambda>s. map_option last_state (f5 n s))"
    and fsync_keeps: "op_fsync (iops W k) = Some f2 \<Longrightarrow> keeps (\<lambda>s. map_option snd (f2 n s))"
    and namefile_keeps: "op_namefile (iops W k) = Some f3 \<Longrightarrow> keeps (\<lambda>s. map_option last_state (f3 n iob s))"
    and getdirentry_keeps: "op_getdirentry (iops W k) = Some f3 \<Longrightarrow> keeps (\<lambda>s. map_option last_state (f3 n iob s))"
    and reclaim_keeps: "op_reclaim (iops W k) = Some f2 \<Longrightarrow> keeps (\<lambda>s. map_option snd (f2 n s))"
    and gettype_pure: "\<lbrakk> op_gettype (iops W k) = Some f6; f6 n s = Some (ret, ty, s') \<rbrakk> \<Longrightarrow> s' = s"
    and tryseek_keeps: "op_tryseek (iops W k) = Some f7 \<Longrightarrow> keeps (\<lambda>s. map_option snd (f7 n pos s))"
    and truncate_keeps: "op_truncate (iops W k) = Some f7 \<Longrightarrow> keeps (\<lambda>s. map_option snd (f7 n pos s))"
    and create_hands_back: "op_create (iops W k) = Some f8 \<Longrightarrow> hands_back (f8 n name excl)"
    and lookup_hands_back: "op_lookup (iops W k) = Some f9 \<Longrightarrow> hands_back (f9 n name)"
    and root_hands_back: "hands_back (\<lambda>s. map_option (\<lambda>(r, s). (0, r, s)) (fs_get_root (fops W fs) fs s))"
begin

lemma vop_open_keeps: "\<lbrakk> vop_op op_open W n s = Some f; accounted g s; f m flags s = Some (r, s') \<rbrakk> \<Longrightarrow> accounted g s'"
  using keepsD [OF open_keeps] by (fastforce simp: vop_op_def bind_eq_Some_conv)

lemma vop_unary_keeps:
  "\<lbrakk> vop_op sel W n s = Some f; sel = op_close \<or> sel = op_fsync \<or> sel = op_reclaim; accounted g s; f m s = Some (r, s') \<rbrakk> \<Longrightarrow>
   accounted g s'"
  using keepsD [OF close_keeps] keepsD [OF fsync_keeps] keepsD [OF reclaim_keeps]
  by (fastforce simp: vop_op_def bind_eq_Some_conv)

lemma vop_io_keeps:
  "\<lbrakk> vop_op sel W n s = Some f;
     sel = op_read \<or> sel = op_write \<or> sel = op_namefile \<or> sel = op_getdirentry; accounted g s;
     f m iob s = Some (r, iob', s') \<rbrakk> \<Longrightarrow> accounted g s'"
  using keepsD [OF read_keeps] keepsD [OF write_keeps] keepsD [OF namefile_keeps] keepsD [OF getdirentry_keeps]
  by (fastforce simp: vop_op_def bind_eq_Some_conv)

lemma vop_fstat_keeps: "\<lbrakk> vop_op op_fstat W n s = Some f; accounted g s; f m s = Some (r, st, s') \<rbrakk> \<Longrightarrow> accounted g s'"
  using keepsD [OF fstat_keeps] by (fastforce simp: vop_op_def bind_eq_Some_conv)

lemma vop_gettype_pure: "\<lbrakk> vop_op op_gettype W n s = Some f; f m u = Some (r, ty, u') \<rbrakk> \<Longrightarrow> u' = u"
  using gettype_pure by (fastforce simp: vop_op_def bind_eq_Some_conv)

lemma vop_pos_keeps:
  "\<lbrakk> vop_op sel W n s = Some f; sel = op_tryseek \<or> sel = op_truncate; accounted g s; f m pos s = Some (r, s') \<rbrakk> \<Longrightarrow> accounted g s'"
  using keepsD [OF tryseek_keeps] keepsD [OF truncate_keeps] by (fastforce simp: vop_op_def bind_eq_Some_conv)

lemma ref_dec_gives:
  assumes "accounted (take_ref n g) s" "xopen g n \<le> xref g n" "inode_ref_dec W n s = Some (c, s')"
  shows "accounted g s'"
  using assms(3) ref_drop_accounted [OF assms(1,2)]
  by (auto simp: inode_ref_dec_def Let_def bind_eq_Some_conv split: if_splits
      intro: vop_unary_keeps [where sel = op_reclaim])

lemma open_dec_gives:
  assumes "accounted (take_open n g) s" "inode_open_dec W n s = Some (c, s')"
  shows "accounted g s'"
  using assms(2) open_drop_accounted [OF assms(1)]
  by (auto simp: inode_open_dec_def Let_def bind_eq_Some_conv split: if_splits
      intro: vop_unary_keeps [where sel = op_close])

lemma close_gives:
  assumes "accounted (take_open n (take_ref n g)) s" "vfs_close W n s = Some (c, s')"
  shows "accounted g s'"
proof -
  have "xopen g n \<le> xref g n"
    using accounted_sane [OF assms(1), of n] by (simp add: holding_defs)
  moreover obtain s1 c1 c2 where "inode_open_dec W n s = Some (c1, s1)" "inode_ref_dec W n s1 = Some (c2, s')"
    using assms(2) by (auto simp: vfs_close_def bind_eq_Some_conv)
  ultimately show ?thesis using open_dec_gives [OF assms(1)] ref_dec_gives by blast
qed

lemma drop_ref_gives:
  "\<lbrakk> accounted (take_ref n g) s; xopen g n \<le> xref g n; drop_ref W (Some n) s = Some s' \<rbrakk> \<Longrightarrow> accounted g s'"
  using ref_dec_gives by (auto simp: drop_ref_def bind_eq_Some_conv)

end


section \<open>Paths and the working directory\<close>

lemma hands_backI:
  assumes "\<And>g s ret r s'. \<lbrakk> accounted g s; F s = Some (ret, r, s') \<rbrakk> \<Longrightarrow>
    (ret \<noteq> 0 \<and> accounted g s') \<or> (\<exists>n. ret = 0 \<and> r = Some n \<and> accounted (take_ref n g) s')"
  shows "hands_back F"
  unfolding hands_back_def using assms by (metis (full_types))

lemma curdir_hands_back: "hands_back (vfs_get_curdir :: 'a vfs_scheme \<Rightarrow> _)"
  by (rule hands_backI)
     (auto simp: vfs_get_curdir_def get_cwd_nolock_def bind_eq_Some_conv errno ref_inc_accounted split: option.splits)

lemma bootfs_hands_back: "hands_back (\<lambda>s :: 'a vfs_scheme. Some (vfs_get_bootfs s))"
  by (rule hands_backI) (auto simp: vfs_get_bootfs_def errno ref_inc_accounted split: option.splits)

context vnode_ops
begin

lemma fs_root_hands:
  assumes "accounted g s" "fs_get_root (fops W fs) fs s = Some (r, s')"
  obtains n where "r = Some n" "accounted (take_ref n g) s'"
  using hands_backD [OF root_hands_back assms(1), of fs 0 r s'] assms(2) by auto

lemma get_root_hands_back: "hands_back (vfs_get_root W name)"
proof (rule hands_backI)
  fix g s ret r s'
  assume inv: "accounted g s" and run: "vfs_get_root W name s = Some (ret, r, s')"
  show "(ret \<noteq> 0 \<and> accounted g s') \<or> (\<exists>n. ret = 0 \<and> r = Some n \<and> accounted (take_ref n g) s')"
    using run inv
    by (auto simp: vfs_get_root_def bind_eq_Some_conv errno ref_inc_accounted split: if_splits option.splits
        elim!: fs_root_hands [OF inv])
qed

lemma get_device_hands:
  assumes inv: "accounted g s" and run: "get_device W path s = Some (ret, sub, r, s')"
  shows "(ret \<noteq> 0 \<and> accounted g s') \<or> (\<exists>n. ret = 0 \<and> r = Some n \<and> accounted (take_ref n g) s')"
proof -
  note hb = hands_backD [OF get_root_hands_back inv] hands_backD [OF curdir_hands_back inv]
    hands_backD [OF bootfs_hands_back inv]
  consider (rel) "vfs_get_curdir s = Some (ret, r, s')"
    | (dev) name where "vfs_get_root W name s = Some (ret, r, s')"
    | (boot) "vfs_get_bootfs s = (ret, r, s')"
    | (none) "vfs_get_curdir s = Some (ret, None, s')"
    | (cur) n fs s1 s2 ret1 where "ret = 0" "vfs_get_curdir s = Some (ret1, Some n, s1)"
        "fs_get_root (fops W fs) fs s1 = Some (r, s2)" "drop_ref W (Some n) s2 = Some s'"
    using run unfolding get_device_def
    by (auto simp: bind_eq_Some_conv split: option.splits nat.splits bool.splits prod.splits) (metis not_None_eq)
  then show ?thesis
  proof cases
    case rel then show ?thesis using hb(2) by blast
  next
    case dev then show ?thesis using hb(1) by blast
  next
    case boot then show ?thesis using hb(3) by simp
  next
    case none then show ?thesis using hb(2) by blast
  next
    case cur
    have "accounted (take_ref n g) s1"
      using hb(2) [OF cur(2)] cur(2) by (auto simp: vfs_get_curdir_def bind_eq_Some_conv split: option.splits)
    then obtain m where m: "r = Some m" "accounted (take_ref m (take_ref n g)) s2"
      using fs_root_hands cur(3) by blast
    have "take_ref m (take_ref n g) = take_ref n (take_ref m g)" by (auto simp: take_ref_def fun_upd_def fun_eq_iff)
    then have "accounted (take_ref m g) s'"
      using drop_ref_gives [OF _ _ cur(4), of "take_ref m g"] m(2) accounted_sane [OF inv, of n]
      by (auto simp: take_ref_def split: if_splits)
    then show ?thesis using m(1) cur(1) by blast
  qed
qed

lemma lookup_hands: "hands_back (vfs_lookup W path)"
proof (rule hands_backI)
  fix g s ret r s'
  assume inv: "accounted g s" and run: "vfs_lookup W path s = Some (ret, r, s')"
  obtain ret1 sub node s1 where d: "get_device W path s = Some (ret1, sub, node, s1)"
    using run by (auto simp: vfs_lookup_def bind_eq_Some_conv)
  note h = get_device_hands [OF inv d]
  show "(ret \<noteq> 0 \<and> accounted g s') \<or> (\<exists>n. ret = 0 \<and> r = Some n \<and> accounted (take_ref n g) s')"
  proof (cases "ret1 = 0 \<and> sub \<noteq> []")
    case False
    then show ?thesis using h run d by (auto simp: vfs_lookup_def)
  next
    case True
    then obtain n f s2 where n: "node = Some n" "accounted (take_ref n g) s1"
      and f: "vop_op op_lookup W n s1 = Some f" "f n sub s1 = Some (ret, r, s2)" "drop_ref W (Some n) s2 = Some s'"
      using h run d by (auto simp: vfs_lookup_def bind_eq_Some_conv)
    have hb: "hands_back (f n sub)" using f(1) lookup_hands_back by (auto simp: vop_op_def bind_eq_Some_conv)
    note sane = accounted_sane [OF inv, of n]
    from hands_backD [OF hb n(2) f(2)] show ?thesis
    proof (elim disjE exE conjE)
      assume "ret \<noteq> 0" "accounted (take_ref n g) s2"
      then show ?thesis using drop_ref_gives [OF _ sane f(3)] by blast
    next
      fix m assume m: "ret = 0" "r = Some m" "accounted (take_ref m (take_ref n g)) s2"
      have "take_ref m (take_ref n g) = take_ref n (take_ref m g)" by (auto simp: take_ref_def fun_upd_def fun_eq_iff)
      then show ?thesis using m drop_ref_gives [OF _ _ f(3), of "take_ref m g"] sane
        by (auto simp: take_ref_def split: if_splits)
    qed
  qed
qed

end


definition take_opt :: "nat option \<Rightarrow> holdings \<Rightarrow> holdings" where
  "take_opt r g = (case r of None \<Rightarrow> g | Some n \<Rightarrow> take_ref n g)"

lemma take_ref_same [simp]:
  "gcur (take_ref n g) = gcur g" "pinned (take_ref n g) = pinned g" "dying (take_ref n g) = dying g" "acq (take_ref n g) = acq g" "res (take_ref n g) = res g" "xopen (take_ref n g) = xopen g"
  "xref (take_ref n g) m = xref g m + of_bool (n = m)"
  by (auto simp: take_ref_def)

lemma take_opt_same [simp]:
  "gcur (take_opt r g) = gcur g" "pinned (take_opt r g) = pinned g" "dying (take_opt r g) = dying g" "acq (take_opt r g) = acq g" "res (take_opt r g) = res g" "xopen (take_opt r g) = xopen g"
  "xref (take_opt r g) m = xref g m + of_bool (r = Some m)"
  by (auto simp: take_opt_def split: option.splits)

lemma set_cwd_accounted:
  assumes inv: "accounted (take_opt d g) s" and p: "get_cwd_nolock s = Some old" and sane: "\<forall>n. xopen g n \<le> xref g n"
    and run: "set_cwd_nolock d s = Some s'" and runs: "cur_pinned g"
  shows "accounted (take_opt old g) s'"
proof -
  obtain t where t: "cur_files s = Some t" "old = pwd (files s t)" "s' = set_files t (\<lambda>x. x\<lparr>pwd := d\<rparr>) s"
    using p run by (auto simp: get_cwd_nolock_def set_cwd_nolock_def bind_eq_Some_conv)
  moreover have "t \<in> files_live s" "dying g t = None" using inv t(1) runs by (auto simp: accounted_def cur_pinned_def)
  ultimately show ?thesis using sane
    by (auto intro!: accounted_pwd [OF inv] simp: trans_le_add1)
qed

context vnode_ops
begin

lemma drop_opt_gives:
  "\<lbrakk> accounted (take_opt r g) s; \<forall>n. xopen g n \<le> xref g n; drop_ref W r s = Some s' \<rbrakk> \<Longrightarrow> accounted g s'"
  using drop_ref_gives by (cases r) (auto simp: take_opt_def drop_ref_def)

lemma set_curdir_keeps:
  assumes inv: "accounted g s" and runs: "cur_pinned g" and run: "vfs_set_curdir W dir s = Some (ret, s')"
  shows "accounted g s'"
proof -
  have sane: "\<forall>n. xopen g n \<le> xref g n" using accounted_sane [OF inv] by blast
  obtain old where old: "get_cwd_nolock s = Some old"
    using run by (auto simp: vfs_set_curdir_def bind_eq_Some_conv)
  have tail: "accounted g s'" if "accounted (take_opt dir g) s1" "get_cwd_nolock s1 = Some old"
    "set_cwd_nolock dir s1 = Some s2" "drop_ref W old s2 = Some s'" for s1 s2
    using drop_opt_gives [OF set_cwd_accounted [OF that(1,2) sane that(3) runs] sane that(4)] .
  show ?thesis
  proof (cases dir)
    case None
    then show ?thesis using run old inv tail [of s]
      by (auto simp: vfs_set_curdir_def bind_eq_Some_conv take_opt_def split: if_splits)
  next
    case (Some n)
    have cwd: "get_cwd_nolock (inode_ref_inc n s) = get_cwd_nolock s"
      by (simp add: get_cwd_nolock_def inode_ref_inc_def)
    show ?thesis using run old inv tail [of "inode_ref_inc n s"] ref_inc_accounted [OF inv, of n]
      by (auto simp: vfs_set_curdir_def bind_eq_Some_conv take_opt_def Some cwd errno split: if_splits
          dest!: vop_gettype_pure)
  qed
qed

lemma chdir_keeps:
  assumes inv: "accounted g s" and runs: "cur_pinned g" and run: "vfs_chdir W path s = Some (ret, s')"
  shows "accounted g s'"
proof -
  obtain ret1 r s1 where l: "vfs_lookup W path s = Some (ret1, r, s1)"
    using run by (auto simp: vfs_chdir_def bind_eq_Some_conv)
  from hands_backD [OF lookup_hands inv l] show ?thesis
  proof (elim disjE exE conjE)
    assume "ret1 \<noteq> 0" "accounted g s1"
    then show ?thesis using run l by (simp add: vfs_chdir_def)
  next
    fix n assume n: "ret1 = 0" "r = Some n" "accounted (take_ref n g) s1"
    then obtain s2 where "vfs_set_curdir W (Some n) s1 = Some (ret, s2)" "drop_ref W (Some n) s2 = Some s'"
      using run l by (auto simp: vfs_chdir_def bind_eq_Some_conv)
    moreover have "cur_pinned (take_ref n g)" using runs by (simp add: cur_pinned_def)
    ultimately show ?thesis using set_curdir_keeps [OF n(3)] drop_ref_gives [OF _ accounted_sane [OF inv]] by blast
  qed
qed

lemma change_bootfs_gives:
  assumes "accounted (take_opt r g) s" "\<forall>n. xopen g n \<le> xref g n" "change_bootfs W r s = Some s'"
  shows "accounted g s'"
proof -
  have "accounted (take_opt (bootfs_node s) g) (s\<lparr>bootfs_node := r\<rparr>)"
    using assms(2) by (intro accounted_boot [OF assms(1)]) (auto simp: trans_le_add1)
  then show ?thesis using drop_opt_gives assms by (auto simp: change_bootfs_def Let_def)
qed

lemma set_bootfs_keeps:
  assumes inv: "accounted g s" and runs: "cur_pinned g" and run: "vfs_set_bootfs W fsname s = Some (ret, s')"
  shows "accounted g s'"
proof -
  have sane: "\<forall>n. xopen g n \<le> xref g n" using accounted_sane [OF inv] by blast
  have 1: "accounted g s'" if "change_bootfs W None s = Some s'"
    using change_bootfs_gives [of None g s s'] inv sane that by (simp add: take_opt_def)
  have 2: "accounted g s'" if c: "vfs_chdir W name s = Some (ret1, s1)" "vfs_get_curdir s1 = Some (ret2, r, s2)"
    "(ret2 \<noteq> 0 \<and> s' = s2) \<or> (ret2 = 0 \<and> change_bootfs W r s2 = Some s')" for name ret1 s1 ret2 r s2
    using hands_backD [OF curdir_hands_back chdir_keeps [OF inv runs c(1)] c(2)] c(3) sane change_bootfs_gives [of r g s2 s']
    by (auto simp: take_opt_def)
  show ?thesis
    using run inv 1 2 chdir_keeps [OF inv runs]
    by (auto simp: vfs_set_bootfs_def bind_eq_Some_conv split: option.splits if_splits)
qed

lemma getcwd_keeps:
  assumes inv: "accounted g s" and run: "vfs_getcwd W iob s = Some (ret, iob', s')"
  shows "accounted g s'"
proof -
  obtain ret1 r s1 where c: "vfs_get_curdir s = Some (ret1, r, s1)"
    using run by (auto simp: vfs_getcwd_def bind_eq_Some_conv)
  from hands_backD [OF curdir_hands_back inv c] show ?thesis
  proof (elim disjE exE conjE)
    assume "ret1 \<noteq> 0" "accounted g s1"
    then show ?thesis using run c by (simp add: vfs_getcwd_def)
  next
    fix n assume n: "ret1 = 0" "r = Some n" "accounted (take_ref n g) s1"
    have "\<exists>s2. accounted (take_ref n g) s2 \<and> drop_ref W (Some n) s2 = Some s'"
      using run c n vop_io_keeps [of op_namefile]
      by (auto simp: vfs_getcwd_def bind_eq_Some_conv split: if_splits) blast+
    then show ?thesis using drop_ref_gives [OF _ accounted_sane [OF inv]] by blast
  qed
qed

end


section \<open>Opening a file\<close>

text \<open>What \<^verbatim>\<open>vfs_open\<close> may leave behind: nothing, or with \<^verbatim>\<open>O_CREAT\<close> one reference that nobody gives back, when it refuses
  an existing file with \<^verbatim>\<open>E_EXISTS\<close> or where some table of inode operations can create a file.\<close>

definition leaks :: "'a vfs_scheme world \<Rightarrow> u32 \<Rightarrow> int \<Rightarrow> holdings \<Rightarrow> holdings \<Rightarrow> bool" where
  "leaks W flags ret g g' \<longleftrightarrow> g' = g \<or>
     (flags AND O_CREAT \<noteq> 0 \<and> (\<exists>d. g' = take_ref d g) \<and>
      (flags AND O_EXCL \<noteq> 0 \<and> ret = - E_EXISTS \<or> (\<exists>k. op_create (iops W k) \<noteq> None)))"

lemma leaks_refl [simp]: "leaks W flags ret g g"
  by (simp add: leaks_def)

lemma leaks_found: "leaks W flags 0 g g' \<Longrightarrow> leaks W flags ret g g'"
  by (auto simp: leaks_def errno)

context vnode_ops
begin

lemma open_node_gives:
  assumes inv: "accounted (take_ref n g) s" and sane: "xopen g n \<le> xref g n"
    and run: "open_node W n flags s = Some (ret, r, s')"
  shows "(ret \<noteq> 0 \<and> accounted g s') \<or> (ret = 0 \<and> r = Some n \<and> accounted (take_open n (take_ref n g)) s')"
proof -
  obtain f ret1 s1 where f: "vop_op op_open W n s = Some f" "f n flags s = Some (ret1, s1)"
    using run by (auto simp: open_node_def bind_eq_Some_conv)
  have s1: "accounted (take_ref n g) s1" using vop_open_keeps [OF f(1) inv f(2)] .
  show ?thesis
  proof (cases "ret1 = 0")
    case False
    then show ?thesis using run f drop_ref_gives [OF s1 sane] by (auto simp: open_node_def bind_eq_Some_conv)
  next
    case True
    have s2: "accounted (take_open n (take_ref n g)) (inode_open_inc n s1)"
      using s1 sane by (intro open_inc_accounted) simp_all
    obtain ret2 s3 where t: "(if flags AND O_TRUNC \<noteq> 0 \<or> flags AND O_CREAT \<noteq> 0
          then do { h \<leftarrow> vop_op op_truncate W n (inode_open_inc n s1); h n 0 (inode_open_inc n s1) }
          else Some (0, inode_open_inc n s1)) = Some (ret2, s3)"
      and rest: "(if ret2 \<noteq> 0 then do {
           (_, s) \<leftarrow> inode_open_dec W n s3; s \<leftarrow> drop_ref W (Some n) s; Some (ret2, None, s)
         } else Some (0, Some n, s3)) = Some (ret, r, s')"
      using run f True by (auto simp: open_node_def Let_def bind_eq_Some_conv)
    have s3: "accounted (take_open n (take_ref n g)) s3"
      using t s2 vop_pos_keeps [where sel = op_truncate]
      by (cases "flags AND O_TRUNC \<noteq> 0 \<or> flags AND O_CREAT \<noteq> 0") (auto simp: bind_eq_Some_conv)
    show ?thesis
    proof (cases "ret2 = 0")
      case True
      then show ?thesis using rest s3 by simp
    next
      case False
      then obtain c s4 where "inode_open_dec W n s3 = Some (c, s4)" "drop_ref W (Some n) s4 = Some s'" "ret = ret2"
        using rest by (auto simp: bind_eq_Some_conv)
      then show ?thesis using False drop_ref_gives [OF open_dec_gives [OF s3] sane] by blast
    qed
  qed
qed

lemma create_node_gives:
  assumes inv: "accounted g s" and run: "create_node W path excl s = Some (ret, r, s')"
  shows "(ret \<noteq> 0 \<and> accounted g s') \<or> 
    (\<exists>n d. ret = 0 \<and> r = Some n \<and> accounted (take_ref n (take_ref d g)) s' \<and> (\<exists>k. op_create (iops W k) \<noteq> None))"
proof -
  obtain ret2 sub dir s2 where d: "get_device W path s = Some (ret2, sub, dir, s2)"
    using run by (auto simp: create_node_def vfs_lookup_parent_def bind_eq_Some_conv)
  from get_device_hands [OF inv d] show ?thesis
  proof (elim disjE exE conjE)
    assume "ret2 \<noteq> 0" "accounted g s2"
    then show ?thesis using run d by (auto simp: create_node_def vfs_lookup_parent_def)
  next
    fix m assume m: "ret2 = 0" "dir = Some m" "accounted (take_ref m g) s2"
    then obtain f where f: "vop_op op_create W m s2 = Some f" "f m sub excl s2 = Some (0, r, s')" "ret = 0"
      using run d by (auto simp: create_node_def vfs_lookup_parent_def bind_eq_Some_conv split: if_splits)
    have k: "op_create (iops W (in_ops (inodes s2 m))) = Some f"
      using f(1) by (auto simp: vop_op_def bind_eq_Some_conv)
    have hb: "hands_back (f m sub excl)" using k create_hands_back by blast
    show ?thesis using hands_backD [OF hb m(3) f(2)] f(3) k by auto
  qed
qed

lemma find_node_gives:
  assumes inv: "accounted g s" and run: "find_node W path flags s = Some (ret, r, s')"
  shows "\<exists>g'. leaks W flags ret g g' \<and>
    ((ret \<noteq> 0 \<and> accounted g' s') \<or> (\<exists>n. ret = 0 \<and> r = Some n \<and> accounted (take_ref n g') s'))"
proof -
  obtain ret1 node s1 where l: "vfs_lookup W path s = Some (ret1, node, s1)"
    using run by (auto simp: find_node_def Let_def bind_eq_Some_conv)
  from hands_backD [OF lookup_hands inv l] show ?thesis
  proof (elim disjE exE conjE)
    fix n assume n: "ret1 = 0" "node = Some n" "accounted (take_ref n g) s1"
    show ?thesis
    proof (cases "flags AND O_EXCL \<noteq> 0 \<and> flags AND O_CREAT \<noteq> 0")
      case True
      then show ?thesis using n l run
        by (intro exI [of _ "take_ref n g"]) (auto simp: find_node_def leaks_def errno)
    next
      case False
      then show ?thesis using n l run
        by (intro exI [of _ g]) (auto simp: find_node_def Let_def split: if_splits)
    qed
  next
    assume e: "ret1 \<noteq> 0" "accounted g s1"
    show ?thesis
    proof (cases "ret1 = - 16 \<and> flags AND O_CREAT \<noteq> 0")
      case False
      then show ?thesis using l e run
        by (intro exI [of _ g]) (auto simp: find_node_def Let_def split: if_splits)
    next
      case True
      then have "create_node W (cut_device path) (flags AND O_EXCL \<noteq> 0) s1 = Some (ret, r, s')"
        using l run by (simp add: find_node_def Let_def)
      from create_node_gives [OF e(2) this] True show ?thesis by (auto simp: leaks_def)
    qed
  qed
qed

lemma vfs_open_gives:
  assumes inv: "accounted g s" and run: "vfs_open W path flags s = Some (ret, r, s')"
  shows "\<exists>g'. leaks W flags ret g g' \<and>
    ((ret \<noteq> 0 \<and> accounted g' s') \<or> (\<exists>n. ret = 0 \<and> r = Some n \<and> accounted (take_open n (take_ref n g')) s'))"
proof (cases "ret = - E_INVAL \<and> s' = s")
  case True then show ?thesis using inv by (intro exI [of _ g]) (simp add: errno)
next
  case False
  then obtain ret1 node s1 where l: "find_node W path flags s = Some (ret1, node, s1)"
    and rest: "(if ret1 \<noteq> 0 then Some (ret1, None, s1) else do { n \<leftarrow> node; open_node W n flags s1 }) = Some (ret, r, s')"
    using run by (auto simp: vfs_open_def Let_def bind_eq_Some_conv split: if_splits)
  obtain g' where g': "leaks W flags ret1 g g'"
    and h: "(ret1 \<noteq> 0 \<and> accounted g' s1) \<or> (\<exists>n. ret1 = 0 \<and> node = Some n \<and> accounted (take_ref n g') s1)"
    using find_node_gives [OF inv l] by blast
  have sane: "xopen g' n \<le> xref g' n" for n
    using g' accounted_sane [OF inv, of n] by (auto simp: leaks_def trans_le_add1)
  show ?thesis
  proof (cases "ret1 = 0")
    case True
    then obtain n where n: "accounted (take_ref n g') s1" "open_node W n flags s1 = Some (ret, r, s')"
      using h rest by auto
    show ?thesis using open_node_gives [OF n(1) sane n(2)] leaks_found g' True by blast
  qed (use h rest g' in auto)
qed

end


section \<open>Descriptors\<close>

lemma accounted_entryD:
  "\<lbrakk> accounted g s; t \<in> files_live s; i < FILES_STRUCT_NENTRY \<rbrakk> \<Longrightarrow> entry_ok (acq g t i) (res g t i) i (item s t i)"
  by (simp add: accounted_def)

lemma accounted_held:
  "accounted g s \<Longrightarrow> acq g t i > 0 \<or> res g t i \<noteq> None \<Longrightarrow> t \<in> files_live s \<and> i < FILES_STRUCT_NENTRY"
  unfolding accounted_def by blast

lemma accounted_cur:
  "\<lbrakk> accounted g s; cur_pinned g; cur_files s = Some t \<rbrakk> \<Longrightarrow> t \<in> files_live s \<and> gcur g = Some t \<and> dying g t = None"
  unfolding accounted_def cur_pinned_def by simp

lemma entry_ok_status:
  "entry_ok a r i f \<Longrightarrow> fstatus f = FD_NONE \<Longrightarrow> r = None \<and> a = 0 \<and> fopen_count f = 0"
  "entry_ok a r i f \<Longrightarrow> fstatus f = FD_OPENED \<Longrightarrow> r = None \<and> fnode f \<noteq> None \<and> fopen_count f = 1 + int a"
  "entry_ok a r i f \<Longrightarrow> 0 < a \<Longrightarrow>
     r = None \<and> fnode f \<noteq> None \<and> (fstatus f = FD_OPENED \<and> fopen_count f = 1 + int a \<or> fstatus f = FD_CLOSED \<and> fopen_count f = int a)"
  "entry_ok a (Some st) i f \<Longrightarrow> fstatus f = st \<and> fopen_count f = 0 \<and> a = 0 \<and> (st = FD_INIT \<or> st = FD_CLOSED)"
  "entry_ok a r i f \<Longrightarrow> ffd f = i"
  by (auto simp: entry_ok_def split: option.splits fd_status.splits)

lemma entry_ok_pos [simp]: "entry_ok a r i (f\<lparr>fpos := p\<rparr>) = entry_ok a r i f"
  by (auto simp: entry_ok_def split: option.splits fd_status.splits)

lemma free_slot_Some:
  "free_slot s t fd k = Some i \<Longrightarrow>
   fd \<le> i \<and> i < fd + k \<and> fstatus (item s t i) = FD_NONE \<and> (\<forall>j. fd \<le> j \<and> j < i \<longrightarrow> fstatus (item s t j) \<noteq> FD_NONE)"
proof (induction k arbitrary: fd)
  case (Suc k)
  show ?case
  proof (cases "fstatus (item s t fd) = FD_NONE")
    case False
    then have "free_slot s t (Suc fd) k = Some i" using Suc.prems by simp
    from Suc.IH [OF this] False show ?thesis by (auto simp: Suc_le_eq order_le_less [of fd])
  qed (use Suc.prems in auto)
qed simp

lemma free_slot_None: "free_slot s t fd k = None \<longleftrightarrow> (\<forall>j. fd \<le> j \<and> j < fd + k \<longrightarrow> fstatus (item s t j) \<noteq> FD_NONE)"
proof (induction k arbitrary: fd)
  case (Suc k)
  have "(\<forall>j. fd \<le> j \<and> j < fd + Suc k \<longrightarrow> P j) \<longleftrightarrow> P fd \<and> (\<forall>j. Suc fd \<le> j \<and> j < Suc fd + k \<longrightarrow> P j)" for P :: "nat \<Rightarrow> bool"
    by (auto simp: Suc_le_eq order_le_less [of fd])
  then show ?case using Suc.IH [of "Suc fd"] by simp
qed (auto simp: not_less)

lemma reserve_same [simp]:
  "gcur (reserve t i st g) = gcur g" "pinned (reserve t i st g) = pinned g" "dying (reserve t i st g) = dying g" "acq (reserve t i st g) = acq g" "xref (reserve t i st g) = xref g"
  "xopen (reserve t i st g) = xopen g" "res (reserve t i st g) = (res g)(t := (res g t)(i := Some st))"
  by (auto simp: reserve_def)

lemma take_open_same [simp]:
  "gcur (take_open n g) = gcur g" "pinned (take_open n g) = pinned g" "dying (take_open n g) = dying g" "acq (take_open n g) = acq g" "res (take_open n g) = res g" "xref (take_open n g) = xref g"
  "xopen (take_open n g) m = xopen g m + of_bool (n = m)"
  by (auto simp: take_open_def)

lemma use_entry_same [simp]:
  "gcur (use_entry t i g) = gcur g" "pinned (use_entry t i g) = pinned g" "dying (use_entry t i g) = dying g" "res (use_entry t i g) = res g" "xref (use_entry t i g) = xref g"
  "xopen (use_entry t i g) = xopen g" "acq (use_entry t i g) = (acq g)(t := (acq g t)(i := acq g t i + 1))"
  by (auto simp: use_entry_def)

lemma reserve_entry:
  assumes "accounted g s" "t \<in> files_live s" "i < FILES_STRUCT_NENTRY" "fstatus (item s t i) = FD_NONE" "dying g t = None"
    "F (item s t i) = (item s t i)\<lparr>fstatus := FD_INIT, fnode := N\<rparr>"
  shows "accounted (reserve t i FD_INIT g) (set_item t i F s)" "res g t i = None"
proof -
  note e = accounted_entryD [OF assms(1-3)]
  show r: "res g t i = None" using entry_ok_status(1) [OF e assms(4)] by simp
  show "accounted (reserve t i FD_INIT g) (set_item t i F s)"
    by (rule accounted_entry [OF assms(1-3), where r = "Some FD_INIT" and a = 0])
       (use entry_ok_status(1,5) [OF e] assms(4-6) in \<open>auto simp: slot_of_def entry_ok_def fun_upd_idem\<close>)
qed

lemma alloc_reserves:
  assumes inv: "accounted g s" and runs: "cur_pinned g" and cur: "cur_files s = Some t" and run: "fd_array_alloc fd s = Some (ret, r, s')"
  shows "(ret \<noteq> 0 \<and> r = None \<and> s' = s) \<or>
    (\<exists>i. ret = 0 \<and> r = Some i \<and> i < FILES_STRUCT_NENTRY \<and> res g t i = None \<and> fstatus (item s t i) = FD_NONE \<and>
         s' = set_item t i (\<lambda>f. f\<lparr>fstatus := FD_INIT, fnode := None\<rparr>) s \<and> accounted (reserve t i FD_INIT g) s')"
proof -
  have t: "t \<in> files_live s" "dying g t = None" using accounted_cur [OF inv runs cur] by blast+
  have "r = None \<and> ret \<noteq> 0 \<and> s' = s \<or>
    (\<exists>i. ret = 0 \<and> r = Some i \<and> i < FILES_STRUCT_NENTRY \<and> fstatus (item s t i) = FD_NONE \<and>
         s' = set_item t i (\<lambda>f. f\<lparr>fstatus := FD_INIT, fnode := None\<rparr>) s)"
    using run cur free_slot_Some [of s t 0 FILES_STRUCT_NENTRY]
    by (cases "free_slot s t 0 FILES_STRUCT_NENTRY") (auto simp: fd_array_alloc_def testfd_def errno split: if_splits, metis)
  then show ?thesis using reserve_entry [OF inv t(1) _ _ t(2)] by auto
qed

lemma alloc_total:
  assumes inv: "accounted g s" and runs: "cur_pinned g" and cur: "cur_files s = Some t"
  shows "fd_array_alloc fd s \<noteq> None"
proof -
  have t: "t \<in> files_live s" "dying g t = None" using accounted_cur [OF inv runs cur] by blast+
  have "fopen_count (item s t i) = 0" if "i < FILES_STRUCT_NENTRY" "fstatus (item s t i) = FD_NONE" for i
    using entry_ok_status(1) [OF accounted_entryD [OF inv t(1) that(1)] that(2)] by simp
  then show ?thesis using cur free_slot_Some [of s t 0 FILES_STRUCT_NENTRY]
    by (auto simp: fd_array_alloc_def testfd_def split: if_splits option.splits)
qed

lemma release_reserved:
  assumes inv: "accounted (reserve t i st g) s" and r: "res g t i = None"
    and F: "F (item s t i) = (item s t i)\<lparr>fstatus := FD_NONE\<rparr>"
  shows "accounted g (set_item t i F s)"
proof -
  have ti: "t \<in> files_live s" "i < FILES_STRUCT_NENTRY" using accounted_held [OF inv, of t i] by auto
  note e = accounted_entryD [OF inv ti]
  show ?thesis
    by (rule accounted_entry [OF inv ti, where r = None and a = 0])
       (use e r F entry_ok_status(5) [OF e] in \<open>auto simp: slot_of_def entry_ok_def fun_upd_idem\<close>)
qed

lemma open_reserved:
  assumes inv: "accounted (reserve t i FD_INIT (take_open n (take_ref n g))) s" and r: "res g t i = None"
    and run: "fd_array_open t i s = Some s'" and n: "fnode (item s t i) = Some n"
  shows "accounted g s'"
proof -
  have ti: "t \<in> files_live s" "i < FILES_STRUCT_NENTRY" using accounted_held [OF inv, of t i] by auto
  note e = accounted_entryD [OF inv ti]
  have s': "s' = set_item t i (\<lambda>f. f\<lparr>fstatus := FD_OPENED, fopen_count := fopen_count f + 1\<rparr>) s"
    using run by (auto simp: fd_array_open_def split: if_splits)
  show ?thesis unfolding s'
    by (rule accounted_entry [OF inv ti, where r = None and a = 0])
       (use e r n entry_ok_status(5) [OF e] in \<open>auto simp: slot_of_def entry_ok_def fun_upd_idem\<close>)
qed

lemma acquire_uses:
  assumes inv: "accounted g s" and ti: "t \<in> files_live s" "i < FILES_STRUCT_NENTRY"
    and run: "fd_array_acquire t i s = Some s'"
  shows "accounted (use_entry t i g) s'"
proof -
  note e = accounted_entryD [OF inv ti]
  have o: "fstatus (item s t i) = FD_OPENED" and s': "s' = set_item t i (\<lambda>f. f\<lparr>fopen_count := fopen_count f + 1\<rparr>) s"
    using run by (auto simp: fd_array_acquire_def split: if_splits)
  show ?thesis unfolding s'
    by (rule accounted_entry [OF inv ti, where r = None and a = "acq g t i + 1"])
       (use entry_ok_status(2,5) [OF e] o in \<open>auto simp: slot_of_def entry_ok_def fun_upd_idem\<close>)
qed

lemma set_pos_accounted:
  assumes inv: "accounted g s" and ti: "t \<in> files_live s" "i < FILES_STRUCT_NENTRY"
    and F: "F (item s t i) = (item s t i)\<lparr>fpos := p\<rparr>"
  shows "accounted g (set_item t i F s)"
  by (rule accounted_entry [OF inv ti, where r = "res g t i" and a = "acq g t i"])
     (use accounted_entryD [OF inv ti] F in \<open>auto simp: slot_of_def fun_upd_idem\<close>)


lemma hand_over_entry:
  assumes inv: "accounted g s" and ti: "t \<in> files_live s" "i < FILES_STRUCT_NENTRY"
    and e: "res g t i = None" "fnode (item s t i) = Some n" "fstatus (item s t i) = FD_OPENED \<or> fstatus (item s t i) = FD_CLOSED"
    and g': "pinned g' = pinned g" "dying g' = dying g" "gcur g' = gcur g" "acq g' = (acq g)(t := (acq g t)(i := 0))" "res g' = res g" "xref g' = xref g" "xopen g' = xopen g"
    and F: "F (item s t i) = (item s t i)\<lparr>fstatus := FD_CLOSED, fopen_count := 0\<rparr>"
  shows "accounted (reserve t i FD_CLOSED (take_open n (take_ref n g'))) (set_item t i F s)"
  by (rule accounted_entry [OF inv ti, where r = "Some FD_CLOSED" and a = 0])
     (use accounted_entryD [OF inv ti, THEN entry_ok_status(5)] e g' F in \<open>auto simp: slot_of_def entry_ok_def fun_upd_idem\<close>)

lemma leave_entry:
  assumes inv: "accounted g s" and ti: "t \<in> files_live s" "i < FILES_STRUCT_NENTRY"
    and e: "fstatus (item s t i) = FD_OPENED \<or> fstatus (item s t i) = FD_CLOSED" "res g t i = None"
    and g': "pinned g' = pinned g" "dying g' = dying g" "gcur g' = gcur g" "acq g' = (acq g)(t := (acq g t)(i := a))" "res g' = res g" "xref g' = xref g" "xopen g' = xopen g"
    and F: "F (item s t i) = (item s t i)\<lparr>fstatus := st, fopen_count := c\<rparr>"
    and st: "st = FD_OPENED \<and> c = 1 + int a \<or> st = FD_CLOSED \<and> 0 < a \<and> c = int a" "fnode (item s t i) \<noteq> None"
  shows "accounted g' (set_item t i F s)"
  by (rule accounted_entry [OF inv ti, where r = None and a = a])
     (use accounted_entryD [OF inv ti, THEN entry_ok_status(5)] e g' F st in \<open>auto simp: slot_of_def entry_ok_def fun_upd_idem\<close>)

context vnode_ops
begin

lemma free_init_gives:
  assumes inv: "accounted (reserve t i FD_INIT g) s" and r: "res g t i = None" and run: "fd_array_free W t i s = Some s'"
  shows "accounted g s'"
proof -
  have ti: "t \<in> files_live s" "i < FILES_STRUCT_NENTRY" using accounted_held [OF inv, of t i] by auto
  have "fstatus (item s t i) = FD_INIT"
    using accounted_entryD [OF inv ti] entry_ok_status(4) by fastforce
  then show ?thesis using run release_reserved [OF inv r] by (auto simp: fd_array_free_def split: if_splits)
qed

lemma free_closed_gives:
  assumes inv: "accounted (reserve t i FD_CLOSED (take_open n (take_ref n g))) s" and r: "res g t i = None"
    and n: "fnode (item s t i) = Some n" and run: "fd_array_free W t i s = Some s'"
  shows "accounted g s'"
proof -
  have ti: "t \<in> files_live s" "i < FILES_STRUCT_NENTRY" using accounted_held [OF inv, of t i] by auto
  have c: "fstatus (item s t i) = FD_CLOSED"
    using accounted_entryD [OF inv ti] entry_ok_status(4) by fastforce
  have eq: "reserve t i FD_CLOSED (take_open n (take_ref n g)) = take_open n (take_ref n (reserve t i FD_CLOSED g))"
    by (simp add: holding_defs)
  obtain v s1 where v: "vfs_close W n s = Some (v, s1)" and s': "s' = set_item t i (\<lambda>f. f\<lparr>fstatus := FD_NONE\<rparr>) s1"
    using run c n by (auto simp: fd_array_free_def bind_eq_Some_conv split: if_splits)
  have "accounted (reserve t i FD_CLOSED g) s1" using close_gives [OF _ v] inv unfolding eq by blast
  then show ?thesis unfolding s' by (rule release_reserved [OF _ r]) simp
qed

lemma fd_close_gives:
  assumes inv: "accounted g s" and ti: "t \<in> files_live s" "i < FILES_STRUCT_NENTRY" and run: "fd_array_close W t i s = Some s'"
  shows "accounted g s'"
proof -
  let ?F = "\<lambda>f. f\<lparr>fstatus := FD_CLOSED, fopen_count := fopen_count f - 1\<rparr>"
  have o: "fstatus (item s t i) = FD_OPENED" using run by (auto simp: fd_array_close_def split: if_splits)
  obtain n where e: "res g t i = None" "fnode (item s t i) = Some n" "fopen_count (item s t i) = 1 + int (acq g t i)"
    using entry_ok_status(2) [OF accounted_entryD [OF inv ti] o] by auto
  show ?thesis
  proof (cases "acq g t i = 0")
    case True
    then have "accounted (reserve t i FD_CLOSED (take_open n (take_ref n g))) (set_item t i ?F s)"
      using e o by (intro hand_over_entry [OF inv ti e(1,2)]) (auto simp: fun_upd_idem)
    then show ?thesis using run o e True free_closed_gives [OF _ e(1)]
      by (auto simp: fd_array_close_def item_set_item)
  next
    case False
    then have "accounted g (set_item t i ?F s)"
      using e o by (intro leave_entry [OF inv ti, where st = FD_CLOSED and a = "acq g t i"]) (auto simp: fun_upd_idem)
    then show ?thesis using run o e False by (auto simp: fd_array_close_def item_set_item)
  qed
qed

lemma fd_release_gives:
  assumes inv: "accounted (use_entry t i g) s" and run: "fd_array_release W t i s = Some s'"
  shows "accounted g s'"
proof -
  let ?F = "\<lambda>f. f\<lparr>fopen_count := fopen_count f - 1\<rparr>"
  have ti: "t \<in> files_live s" "i < FILES_STRUCT_NENTRY" using accounted_held [OF inv, of t i] by auto
  obtain n where e: "res g t i = None" "fnode (item s t i) = Some n"
      "fstatus (item s t i) = FD_OPENED \<and> fopen_count (item s t i) = 2 + int (acq g t i) \<or>
       fstatus (item s t i) = FD_CLOSED \<and> fopen_count (item s t i) = 1 + int (acq g t i)"
    using entry_ok_status(3) [OF accounted_entryD [OF inv ti]] by auto
  then have o: "fstatus (item s t i) = FD_OPENED \<or> fstatus (item s t i) = FD_CLOSED" by blast
  show ?thesis
  proof (cases "fstatus (item s t i) = FD_CLOSED \<and> acq g t i = 0")
    case True
    then have "accounted (reserve t i FD_CLOSED (take_open n (take_ref n g))) (set_item t i ?F s)"
      using e o by (intro hand_over_entry [OF inv ti _ e(2)]) (auto simp: fun_upd_idem)
    then show ?thesis using run o e True free_closed_gives [OF _ e(1)]
      by (auto simp: fd_array_release_def item_set_item)
  next
    case False
    then have "accounted g (set_item t i ?F s)"
      using e o by (intro leave_entry [OF inv ti o, where st = "fstatus (item s t i)" and a = "acq g t i"])
        (auto simp: fun_upd_idem)
    then show ?thesis using run o e False by (auto simp: fd_array_release_def item_set_item)
  qed
qed

end


section \<open>The operations on open files\<close>

lemma fd2file_some:
  assumes "accounted g s" "cur_pinned g" "fd2file fd s = Some (ret, Some i)"
  obtains t where "cur_files s = Some t" "t \<in> files_live s" "dying g t = None" "i < FILES_STRUCT_NENTRY" "fstatus (item s t i) = FD_OPENED"
    "fd = int i" "ret = 0"
proof -
  obtain t where t: "cur_files s = Some t"
    using assms(3) by (auto simp: fd2file_def bind_eq_Some_conv split: if_splits)
  moreover have "i < FILES_STRUCT_NENTRY" "fstatus (item s t i) = FD_OPENED" "fd = int i" "ret = 0"
    using assms(3) t by (auto simp: fd2file_def testfd_def Let_def split: if_splits)
  ultimately show thesis using that accounted_cur [OF assms(1,2) t] by blast
qed

lemma fd_dup_accounted:
  assumes inv: "accounted (reserve t i FD_INIT g) s" and r: "res g t i = None" and run: "fd_array_dup t i ft fi s = Some s'"
  shows "accounted g s'"
proof -
  obtain n where n: "fnode (item s ft fi) = Some n" and i: "fstatus (item s t i) = FD_INIT"
    and run': "fd_array_open t i (set_item t i (\<lambda>f. f\<lparr>fpos := fpos (item s ft fi), readable := readable (item s ft fi),
        writable := writable (item s ft fi), fnode := Some n\<rparr>) (inode_open_inc n (inode_ref_inc n s))) = Some s'"
    using run by (auto simp: fd_array_dup_def Let_def bind_eq_Some_conv split: if_splits)
  let ?s = "inode_open_inc n (inode_ref_inc n s)"
  have "xopen g n \<le> xref g n" using accounted_sane [OF inv, of n] by simp
  then have "accounted (take_open n (take_ref n (reserve t i FD_INIT g))) ?s"
    using inv by (intro open_inc_accounted ref_inc_accounted) simp_all
  moreover have "take_open n (take_ref n (reserve t i FD_INIT g)) = reserve t i FD_INIT (take_open n (take_ref n g))"
    by (simp add: holding_defs)
  ultimately have a: "accounted (reserve t i FD_INIT (take_open n (take_ref n g))) ?s" by simp
  have ti: "t \<in> files_live ?s" "i < FILES_STRUCT_NENTRY" using accounted_held [OF a, of t i] by auto
  have b: "accounted (reserve t i FD_INIT (take_open n (take_ref n g)))
     (set_item t i (\<lambda>f. f\<lparr>fpos := fpos (item s ft fi), readable := readable (item s ft fi),
        writable := writable (item s ft fi), fnode := Some n\<rparr>) ?s)"
    by (rule accounted_entry [OF a ti, where r = "Some FD_INIT" and a = 0])
       (use accounted_entryD [OF a ti] in \<open>auto simp: slot_of_def entry_ok_def fun_upd_idem\<close>)
  show ?thesis by (rule open_reserved [OF b r run']) (simp add: item_set_item)
qed

context vnode_ops
begin

lemma install_file_gives:
  assumes inv: "accounted (reserve t i FD_INIT (take_open n (take_ref n g))) s" and r: "res g t i = None"
    and run: "install_file W t i n flags rd1 wr1 s = Some (ret, s')"
  shows "accounted g s'"
proof -
  let ?h = "reserve t i FD_INIT (take_open n (take_ref n g))"
  have posn: "accounted ?h (set_item t i (\<lambda>f. f\<lparr>fpos := p\<rparr>) u)" if "accounted ?h u" for p u
    using that accounted_held [OF that, of t i] by (intro set_pos_accounted) auto
  have tail: "accounted g u'" if a: "accounted ?h u" and "fd_array_open t i
     (set_item t i (\<lambda>f. f\<lparr>fnode := Some n, readable := rd1, writable := wr1\<rparr>) u) = Some u'" for u u'
  proof -
    have ti: "t \<in> files_live u" "i < FILES_STRUCT_NENTRY" using accounted_held [OF a, of t i] by auto
    have b: "accounted ?h (set_item t i (\<lambda>f. f\<lparr>fnode := Some n, readable := rd1, writable := wr1\<rparr>) u)"
      by (rule accounted_entry [OF a ti, where r = "Some FD_INIT" and a = 0])
         (use accounted_entryD [OF a ti] in \<open>auto simp: slot_of_def entry_ok_def fun_upd_idem\<close>)
    show ?thesis by (rule open_reserved [OF b r that(2)]) (simp add: item_set_item)
  qed
  have sw: "?h = take_open n (take_ref n (reserve t i FD_INIT g))" by (simp add: holding_defs)
  have close2: "accounted g u''" if "accounted ?h u" "vfs_close W n u = Some (c, u')"
    "fd_array_free W t i u' = Some u''" for u c u' u''
    using free_init_gives [OF close_gives [OF that(1) [unfolded sw] that(2)] r that(3)] .
  show ?thesis
  proof (cases "flags AND O_APPEND = 0")
    case True
    then show ?thesis using run tail [OF posn [OF inv]] by (auto simp: install_file_def Let_def bind_eq_Some_conv)
  next
    case False
    then obtain f ret1 st u where f: "vop_op op_fstat W n (set_item t i (\<lambda>f. f\<lparr>fpos := 0\<rparr>) s) = Some f"
        "f n (set_item t i (\<lambda>f. f\<lparr>fpos := 0\<rparr>) s) = Some (ret1, st, u)"
      using run by (auto simp: install_file_def Let_def bind_eq_Some_conv)
    have u: "accounted ?h u" using vop_fstat_keeps [OF f(1) posn [OF inv] f(2)] .
    show ?thesis
      using run f False tail [OF posn [OF u]] close2 [OF u]
      by (cases "ret1 = 0") (auto simp: install_file_def Let_def bind_eq_Some_conv split: if_splits)
  qed
qed

lemma leaks_reserve:
  assumes "leaks W flags ret (reserve t i st g) h" "res g t i = None"
  obtains g' where "leaks W flags ret g g'" "h = reserve t i st g'" "res g' t i = None"
proof (cases "h = reserve t i st g")
  case True then show thesis using that [of g] assms(2) by simp
next
  case False
  then obtain d where "h = take_ref d (reserve t i st g)" "leaks W flags ret g (take_ref d g)"
    using assms(1) by (auto simp: leaks_def)
  then show thesis using that [of "take_ref d g"] assms(2) by (auto simp: holding_defs)
qed

lemma file_open_gives:
  assumes inv: "accounted g s" and runs: "cur_pinned g" and run: "file_open W path flags s = Some (ret, s')"
  shows "\<exists>g'. leaks W flags ret g g' \<and> accounted g' s'"
proof (cases "s' = s")
  case True then show ?thesis using inv leaks_refl by blast
next
  case False
  then obtain t ret1 r s1 where cur: "cur_files s = Some t" and al: "fd_array_alloc NO_FD s = Some (ret1, r, s1)"
    using run by (auto simp: file_open_def Let_def bind_eq_Some_conv split: if_splits)
  obtain i where i: "ret1 = 0" "r = Some i" "res g t i = None" "accounted (reserve t i FD_INIT g) s1"
    using alloc_reserves [OF inv runs cur al] run al False cur
    by (auto simp: file_open_def Let_def split: if_splits)
  obtain ret2 node s2 where v: "vfs_open W path flags s1 = Some (ret2, node, s2)"
    and rest: "(if ret2 \<noteq> 0 then do { s \<leftarrow> fd_array_free W t i s2; Some (ret2, s) }
       else do { n \<leftarrow> node; install_file W t i n flags (flags AND O_ACCMODE = O_RDONLY \<or> flags AND O_ACCMODE = O_RDWR)
         (flags AND O_ACCMODE = O_WRONLY \<or> flags AND O_ACCMODE = O_RDWR) s2 }) = Some (ret, s')"
    using run cur al i(1,2) False by (auto simp: file_open_def Let_def bind_eq_Some_conv split: if_splits)
  obtain h where h: "leaks W flags ret2 (reserve t i FD_INIT g) h"
    and hv: "(ret2 \<noteq> 0 \<and> accounted h s2) \<or> (\<exists>n. ret2 = 0 \<and> node = Some n \<and> accounted (take_open n (take_ref n h)) s2)"
    using vfs_open_gives [OF i(4) v] by blast
  obtain g' where g': "leaks W flags ret2 g g'" "h = reserve t i FD_INIT g'" "res g' t i = None"
    using leaks_reserve [OF h i(3)] .
  have sw: "take_open n (take_ref n h) = reserve t i FD_INIT (take_open n (take_ref n g'))" for n
    unfolding g'(2) by (simp add: holding_defs)
  have "accounted g' s'"
  proof (cases "ret2 = 0")
    case True
    then obtain n where "accounted (reserve t i FD_INIT (take_open n (take_ref n g'))) s2"
      "\<exists>rd1 wr1. install_file W t i n flags rd1 wr1 s2 = Some (ret, s')"
      using hv rest unfolding sw by (auto simp: bind_eq_Some_conv)
    then show ?thesis using install_file_gives [OF _ g'(3)] by blast
  next
    case False
    then have "accounted (reserve t i FD_INIT g') s2" "fd_array_free W t i s2 = Some s'"
      using hv rest g'(2) by (auto simp: bind_eq_Some_conv)
    then show ?thesis using free_init_gives [OF _ g'(3)] by blast
  qed
  moreover have "leaks W flags ret g g'"
    using g'(1) leaks_found rest by (cases "ret2 = 0") (auto simp: bind_eq_Some_conv)
  ultimately show ?thesis by blast
qed

end


context vnode_ops
begin

lemma file_close_gives:
  assumes inv: "accounted g s" "cur_pinned g" and run: "file_close W fd s = Some (ret, s')"
  shows "accounted g s'"
proof (cases "s' = s")
  case False
  then obtain ret1 i t where f: "fd2file fd s = Some (ret1, Some i)" and c: "cur_files s = Some t" "fd_array_close W t i s = Some s'"
    using run by (auto simp: file_close_def bind_eq_Some_conv split: option.splits)
  have "t \<in> files_live s \<and> i < FILES_STRUCT_NENTRY" by (rule fd2file_some [OF inv f]) (use c(1) in simp)
  then show ?thesis using fd_close_gives [OF inv(1) _ _ c(2)] by blast
qed (use inv in simp)

text \<open>Every operation on an open file has the shape: acquire the entry, call the inode, release it.\<close>

lemma held_op_gives:
  assumes inv: "accounted g s" "cur_pinned g" and f: "fd2file fd s = Some (ret1, Some i)" and c: "cur_files s = Some t"
    and acq: "fd_array_acquire t i s = Some s1"
    and op: "accounted (use_entry t i g) s1 \<Longrightarrow> accounted (use_entry t i g) s2" and rel: "fd_array_release W t i s2 = Some s'"
  shows "accounted g s'"
proof -
  have "t \<in> files_live s \<and> i < FILES_STRUCT_NENTRY" by (rule fd2file_some [OF inv f]) (use c in simp)
  then have "accounted (use_entry t i g) s1" using acquire_uses [OF inv(1) _ _ acq] by blast
  then show ?thesis using fd_release_gives [OF op rel] by blast
qed

lemma held_pos:
  assumes "accounted (use_entry t i g) s" "F (item s t i) = (item s t i)\<lparr>fpos := p\<rparr>"
  shows "accounted (use_entry t i g) (set_item t i F s)"
  using assms accounted_held [OF assms(1), of t i] by (intro set_pos_accounted) auto

lemma file_io_gives:
  assumes inv: "accounted g s" "cur_pinned g" and f: "fd2file fd s = Some (ret1, Some i)" and c: "cur_files s = Some t"
    and sel: "sel = op_read \<or> sel = op_write" and run: "file_io sel W t i base len s = Some (ret, k, m, s')"
  shows "accounted g s'"
proof -
  obtain s1 n h iob s2 where s1: "fd_array_acquire t i s = Some s1" and h: "vop_op sel W n s1 = Some h"
      "h n (iobuf_init base len (fpos (item s1 t i))) s1 = Some (ret, iob, s2)"
    and rel: "fd_array_release W t i (if fstatus (item s2 t i) = FD_OPENED
        then set_item t i (\<lambda>f. f\<lparr>fpos := fpos f + int (iobuf_used iob)\<rparr>) s2 else s2) = Some s'"
    using run by (auto simp: file_io_def Let_def bind_eq_Some_conv)
  show ?thesis
  proof (rule held_op_gives [OF inv f c s1 _ rel])
    assume a: "accounted (use_entry t i g) s1"
    have "accounted (use_entry t i g) s2" using sel by (intro vop_io_keeps [OF h(1) _ a h(2)]) blast
    then show "accounted (use_entry t i g) (if fstatus (item s2 t i) = FD_OPENED
        then set_item t i (\<lambda>f. f\<lparr>fpos := fpos f + int (iobuf_used iob)\<rparr>) s2 else s2)"
      by (simp add: held_pos [where p = "fpos (item s2 t i) + int (iobuf_used iob)"])
  qed
qed

lemma file_read_gives:
  "\<lbrakk> accounted g s; cur_pinned g; file_read W fd base len s = Some (ret, k, m, s') \<rbrakk> \<Longrightarrow> accounted g s'"
  by (auto simp: file_read_def bind_eq_Some_conv split: option.splits if_splits dest: file_io_gives)

lemma file_write_gives:
  "\<lbrakk> accounted g s; cur_pinned g; file_write W fd base len s = Some (ret, k, s') \<rbrakk> \<Longrightarrow> accounted g s'"
  by (auto simp: file_write_def bind_eq_Some_conv split: option.splits if_splits dest: file_io_gives)

lemma file_fstat_gives:
  assumes inv: "accounted g s" "cur_pinned g" and run: "file_fstat W fd s = Some (ret, st, s')"
  shows "accounted g s'"
proof (cases "s' = s")
  case False
  then obtain ret1 i t s1 n h s2 where f: "fd2file fd s = Some (ret1, Some i)" and c: "cur_files s = Some t"
    and a: "fd_array_acquire t i s = Some s1" and h: "vop_op op_fstat W n s1 = Some h" "\<exists>r st. h n s1 = Some (r, st, s2)"
    and rel: "fd_array_release W t i s2 = Some s'"
    using run by (auto simp: file_fstat_def bind_eq_Some_conv split: option.splits)
  obtain r2 st2 where h2: "h n s1 = Some (r2, st2, s2)" using h(2) by blast
  show ?thesis by (rule held_op_gives [OF inv f c a _ rel]) (rule vop_fstat_keeps [OF h(1) _ h2])
qed (use inv in simp)

lemma file_fsync_gives:
  assumes inv: "accounted g s" "cur_pinned g" and run: "file_fsync W fd s = Some (ret, s')"
  shows "accounted g s'"
proof (cases "s' = s")
  case False
  then obtain ret1 i t s1 n h s2 where f: "fd2file fd s = Some (ret1, Some i)" and c: "cur_files s = Some t"
    and a: "fd_array_acquire t i s = Some s1" and h: "vop_op op_fsync W n s1 = Some h" "\<exists>r. h n s1 = Some (r, s2)"
    and rel: "fd_array_release W t i s2 = Some s'"
    using run by (auto simp: file_fsync_def bind_eq_Some_conv split: option.splits)
  obtain r2 where h2: "h n s1 = Some (r2, s2)" using h(2) by blast
  show ?thesis by (rule held_op_gives [OF inv f c a _ rel]) (rule vop_unary_keeps [OF h(1) _ _ h2], simp)
qed (use inv in simp)

lemma file_getdirentry_gives:
  assumes inv: "accounted g s" "cur_pinned g" and run: "file_getdirentry W fd off name s = Some (ret, off', m, s')"
  shows "accounted g s'"
proof (cases "s' = s")
  case False
  then obtain ret1 i t s1 n h s2 where f: "fd2file fd s = Some (ret1, Some i)" and c: "cur_files s = Some t"
    and a: "fd_array_acquire t i s = Some s1" and h: "vop_op op_getdirentry W n s1 = Some h" "\<exists>r b. h n (iobuf_init name 256 off) s1 = Some (r, b, s2)"
    and rel: "fd_array_release W t i s2 = Some s'"
    using run by (auto simp: file_getdirentry_def bind_eq_Some_conv split: option.splits)
  obtain r2 b where h2: "h n (iobuf_init name 256 off) s1 = Some (r2, b, s2)" using h(2) by blast
  show ?thesis by (rule held_op_gives [OF inv f c a _ rel]) (rule vop_io_keeps [OF h(1) _ _ h2], simp)
qed (use inv in simp)

lemma file_seek_gives:
  assumes inv: "accounted g s" "cur_pinned g" and run: "file_seek W fd pos whence s = Some (ret, s')"
  shows "accounted g s'"
proof (cases "s' = s")
  case False
  then obtain ret1 i t s1 n where f: "fd2file fd s = Some (ret1, Some i)" and c: "cur_files s = Some t"
    and a: "fd_array_acquire t i s = Some s1" "fnode (item s1 t i) = Some n"
    using run by (auto simp: file_seek_def bind_eq_Some_conv split: option.splits)
  obtain ret2 p s2 where st: "(if whence = 0 then Some (0, pos, s1)
       else if whence = 1 then Some (0, pos + fpos (item s1 t i), s1)
       else if whence = 2 then do {
         g \<leftarrow> vop_op op_fstat W n s1; (ret, st, s) \<leftarrow> g n s1; Some (ret, if ret = 0 then pos + int (st_size st) else pos, s)
       } else Some (- E_INVAL, pos, s1)) = Some (ret2, p, s2)"
    and rest: "do { (ret, s) \<leftarrow>
            (if ret2 = 0 then do {
               g \<leftarrow> vop_op op_tryseek W n s2; (ret, s) \<leftarrow> g n p s2;
               Some (ret, if ret = 0 then set_item t i (\<lambda>f. f\<lparr>fpos := p\<rparr>) s else s)
             } else Some (ret2, s2));
          s \<leftarrow> fd_array_release W t i s; Some (ret, s) } = Some (ret, s')"
    using run f c a by (fastforce simp: file_seek_def bind_eq_Some_conv)
  obtain s3 where s3: "fd_array_release W t i s3 = Some s'"
    and mid: "accounted (use_entry t i g) s2 \<Longrightarrow> accounted (use_entry t i g) s3"
  proof (cases "ret2 = 0")
    case True
    then obtain h r3 u where "vop_op op_tryseek W n s2 = Some h" "h n p s2 = Some (r3, u)"
        "fd_array_release W t i (if r3 = 0 then set_item t i (\<lambda>f. f\<lparr>fpos := p\<rparr>) u else u) = Some s'"
      using rest by (auto simp: bind_eq_Some_conv split: if_splits)
    note u = this
    have "accounted (use_entry t i g) u" if "accounted (use_entry t i g) s2"
      by (rule vop_pos_keeps [OF u(1) _ that u(2)]) simp
    then show thesis using that [OF u(3)] held_pos [of t i g u "\<lambda>f. f\<lparr>fpos := p\<rparr>" p] by simp
  qed (use that rest in \<open>auto simp: bind_eq_Some_conv\<close>)
  have "accounted (use_entry t i g) s2" if "accounted (use_entry t i g) s1"
  proof (cases "s2 = s1")
    case False
    then obtain h r3 st3 where "vop_op op_fstat W n s1 = Some h" "h n s1 = Some (r3, st3, s2)"
      using st by (auto simp: bind_eq_Some_conv split: if_splits)
    then show ?thesis using vop_fstat_keeps that by blast
  qed (use that in simp)
  then show ?thesis using held_op_gives [OF inv f c a(1) _ s3] mid by blast
qed (use inv in simp)

end

lemma file_dup_accounted:
  assumes inv: "accounted g s" "cur_pinned g" and run: "file_dup fd1 fd2 s = Some (ret, s')"
  shows "accounted g s'"
proof (cases "s' = s")
  case False
  then obtain ret1 i t ret2 r s1 where f: "fd2file fd1 s = Some (ret1, Some i)" and c: "cur_files s = Some t"
      and al: "fd_array_alloc fd2 s = Some (ret2, r, s1)"
    using run by (auto simp: file_dup_def bind_eq_Some_conv split: option.splits)
  from alloc_reserves [OF inv c al] show ?thesis
    using run f c al False by (auto simp: file_dup_def bind_eq_Some_conv dest: fd_dup_accounted)
qed (use inv in simp)


section \<open>Whole tables\<close>

lemma fd_init_loop_same [simp]:
  "files_live (fd_init_loop t fd k s) = files_live s" "vdev_live (fd_init_loop t fd k s) = vdev_live s"
  "inodes (fd_init_loop t fd k s) = inodes s" "vdevs (fd_init_loop t fd k s) = vdevs s"
  "cur_files (fd_init_loop t fd k s) = cur_files s" "bootfs_node (fd_init_loop t fd k s) = bootfs_node s"
  "pwd (files (fd_init_loop t fd k s) u) = pwd (files s u)"
  by (induction t fd k s rule: fd_init_loop.induct) simp_all

lemma fd_init_loop_item:
  "item (fd_init_loop t fd k s) u j =
   (if u = t \<and> fd \<le> j \<and> j < fd + k then (item s t j)\<lparr>fopen_count := 0, fstatus := FD_NONE, ffd := j\<rparr> else item s u j)"
  by (induction t fd k s rule: fd_init_loop.induct) (auto simp: item_set_item)

lemma files_create_accounted:
  assumes inv: "accounted g s" and fresh: "km (files_live s) = Some t" "t \<notin> files_live s"
  shows "\<exists>s'. files_create km s = (Some t, s') \<and> accounted g s' \<and> t \<in> files_live s' \<and> pwd (files s' t) = None \<and>
    (\<forall>i<FILES_STRUCT_NENTRY. fstatus (item s' t i) = FD_NONE)"
proof -
  let ?s0 = "set_files t (\<lambda>x. x\<lparr>pwd := None, files_count := 0, files_nlinks := 1\<rparr>) (s\<lparr>files_live := insert t (files_live s)\<rparr>)"
  define s1 where "s1 = fd_array_init t ?s0"
  have other: "files_live s1 = insert t (files_live s)" "vdev_live s1 = vdev_live s" "inodes s1 = inodes s" "vdevs s1 = vdevs s"
    "cur_files s1 = cur_files s" "bootfs_node s1 = bootfs_node s" "pwd (files s1 u) = (if u = t then None else pwd (files s u))" for u
    by (simp_all add: s1_def fd_array_init_def set_files_def)
  have it: "fstatus (item s1 t j) = FD_NONE" "fopen_count (item s1 t j) = 0" "ffd (item s1 t j) = j" if "j < FILES_STRUCT_NENTRY" for j
    using that by (simp_all add: s1_def fd_array_init_def fd_init_loop_item)
  have ot: "item s1 u j = item s u j" if "u \<noteq> t" for u j
    using that by (simp add: s1_def fd_array_init_def fd_init_loop_item set_files_def)
  have none: "acq g t i = 0" "res g t i = None" "dying g t = None" "t \<notin> pinned g" for i
  proof -
    have "\<not> (acq g t i > 0 \<or> res g t i \<noteq> None)" using accounted_held [OF inv] fresh(2) by blast
    then show "acq g t i = 0" "res g t i = None" by simp_all
    show "dying g t = None" using inv fresh(2) unfolding accounted_def by (cases "dying g t") auto
    show "t \<notin> pinned g" using inv fresh(2) unfolding accounted_def by blast
  qed
  have sl: "slot_of (res g t j) (item s1 t j) = None" if "j < FILES_STRUCT_NENTRY" for j
    using it(1) [OF that] by (simp add: slot_of_def)
  have su: "slot_users g s1 n = slot_users g s n" for n
    unfolding slot_users_def users_def
  proof (rule arg_cong [where f = card], rule set_eqI)
    fix x :: "nat \<times> nat"
    obtain u j where x: "x = (u, j)" by fastforce
    show "x \<in> {x \<in> slots s1. (\<lambda>(t, i). slot_of (res g t i) (item s1 t i)) x = Some n} \<longleftrightarrow>
        x \<in> {x \<in> slots s. (\<lambda>(t, i). slot_of (res g t i) (item s t i)) x = Some n}"
      using sl [of j] ot [of u j] fresh(2) by (cases "u = t") (auto simp: x slots_def other)
  qed
  have pu: "pwd_users g s1 n = pwd_users g s n" for n
    unfolding pwd_users_def users_def
    by (rule arg_cong [where f = card]) (use fresh(2) in \<open>auto simp: other\<close>)
  have du: "dev_users s1 = dev_users s" by (simp add: dev_users_def other)
  have en: "entry_ok (acq g u i) (res g u i) i (item s1 u i)" if "u \<in> insert t (files_live s)" "i < FILES_STRUCT_NENTRY" for u i
    using that inv none it [OF that(2)] unfolding accounted_def by (cases "u = t") (auto simp: ot entry_ok_def)
  have dy: "u \<in> insert t (files_live s) \<and> (\<forall>i<k. fstatus (item s1 u i) = FD_NONE)" if "dying g u = Some k" for u k
    using that inv none unfolding accounted_def by (cases "u = t") (auto simp: ot)
  have "accounted g s1"
    unfolding accounted_def other(1-6) su pu du using inv en dy unfolding accounted_def by auto
  then show ?thesis using fresh it by (auto simp: files_create_def other s1_def [symmetric])
qed

text \<open>Copying a table: every open entry is copied, and nothing else changes.\<close>

definition copied :: "file_item \<Rightarrow> file_item \<Rightarrow> file_item" where
  "copied to from = to\<lparr>fstatus := FD_OPENED, readable := readable from, writable := writable from, fpos := fpos from,
     fnode := fnode from, fopen_count := fopen_count to + 1\<rparr>"

lemma dup_files_loop_copies:
  assumes inv: "accounted g s" and t: "t \<in> files_live s" "dying g t = None" "t \<noteq> from" "from \<in> files_live s"
    and k: "i + k = FILES_STRUCT_NENTRY" and fresh: "\<forall>j. i \<le> j \<and> j < FILES_STRUCT_NENTRY \<longrightarrow> fstatus (item s t j) = FD_NONE"
  shows "\<exists>s'. dup_files_loop t from i k s = Some s' \<and> accounted g s' \<and>
    (\<forall>u j. item s' u j = (if u = t \<and> i \<le> j \<and> j < FILES_STRUCT_NENTRY \<and> fstatus (item s from j) = FD_OPENED
       then copied (item s t j) (item s from j) else item s u j))"
  using assms
proof (induction k arbitrary: i s)
  case 0
  then show ?case by (intro exI [of _ s]) auto
next
  case (Suc k)
  have i: "i < FILES_STRUCT_NENTRY" using Suc.prems(6) by linarith
  show ?case
  proof (cases "fstatus (item s from i) = FD_OPENED")
    case False
    from Suc.IH [OF Suc.prems(1-5), of "Suc i"] obtain s' where s': "dup_files_loop t from (Suc i) k s = Some s'" "accounted g s'"
      "\<forall>u j. item s' u j = (if u = t \<and> Suc i \<le> j \<and> j < FILES_STRUCT_NENTRY \<and> fstatus (item s from j) = FD_OPENED
       then copied (item s t j) (item s from j) else item s u j)"
      using Suc.prems(6,7) by auto
    then show ?thesis using False by (auto simp: Suc_le_eq order_le_less [of i])
  next
    case True
    let ?s1 = "set_item t i (\<lambda>f. f\<lparr>fstatus := FD_INIT\<rparr>) s"
    have none: "fstatus (item s t i) = FD_NONE" using Suc.prems(7) i by auto
    have r: "accounted (reserve t i FD_INIT g) ?s1" "res g t i = None"
      using reserve_entry [OF Suc.prems(1,2) i none Suc.prems(3), where N = "fnode (item s t i)"] by auto
    obtain n where n: "fnode (item s from i) = Some n"
      using entry_ok_status(2) [OF accounted_entryD [OF Suc.prems(1) Suc.prems(5) i] True] by blast
    obtain s2 where s2: "fd_array_dup t i from i ?s1 = Some s2"
      and it: "\<forall>u j. item s2 u j = (if u = t \<and> j = i then copied (item s t i) (item s from i) else item s u j)"
      using n True Suc.prems(4)
      by (auto simp: fd_array_dup_def fd_array_open_def Let_def item_set_item copied_def inode_open_inc_def inode_ref_inc_def)
    have a2: "accounted g s2" using fd_dup_accounted [OF r s2] .
    have l2: "files_live s2 = files_live s" using s2
      by (auto simp: fd_array_dup_def fd_array_open_def Let_def bind_eq_Some_conv inode_open_inc_def inode_ref_inc_def split: if_splits)
    have fr: "\<forall>j. Suc i \<le> j \<and> j < FILES_STRUCT_NENTRY \<longrightarrow> fstatus (item s2 t j) = FD_NONE"
      using Suc.prems(7) by (auto simp: it)
    obtain s' where s': "dup_files_loop t from (Suc i) k s2 = Some s'" "accounted g s'"
      "\<forall>u j. item s' u j = (if u = t \<and> Suc i \<le> j \<and> j < FILES_STRUCT_NENTRY \<and> fstatus (item s2 from j) = FD_OPENED
       then copied (item s2 t j) (item s2 from j) else item s2 u j)"
      using Suc.IH [OF a2 _ Suc.prems(3,4), of "Suc i"] Suc.prems(2,5,6) l2 fr by auto
    show ?thesis using s' s2 True i Suc.prems(4)
      by (intro exI [of _ s']) (auto simp: it Suc_le_eq order_le_less [of i])
  qed
qed


lemma dup_files_copies:
  assumes inv: "accounted g s" and t: "t \<in> files_live s" "dying g t = None" "t \<noteq> from" "from \<in> files_live s"
    and new: "files_count (files s t) = 0" "pwd (files s t) = None" "\<forall>i<FILES_STRUCT_NENTRY. fstatus (item s t i) = FD_NONE"
  shows "\<exists>s'. dup_files t from s = Some (0, s') \<and> accounted g s' \<and>
    (\<forall>u j. item s' u j = (if u = t \<and> j < FILES_STRUCT_NENTRY \<and> fstatus (item s from j) = FD_OPENED
       then copied (item s t j) (item s from j) else item s u j))"
proof -
  define d where "d = pwd (files s from)"
  define s1 where "s1 = (case d of None \<Rightarrow> set_files t (\<lambda>x. x\<lparr>pwd := d\<rparr>) s | Some n \<Rightarrow> inode_ref_inc n (set_files t (\<lambda>x. x\<lparr>pwd := d\<rparr>) s))"
  have "s1 = set_files t (\<lambda>x. x\<lparr>pwd := d\<rparr>) (case d of None \<Rightarrow> s | Some n \<Rightarrow> inode_ref_inc n s)"
    by (simp add: s1_def inode_ref_inc_def set_node_def set_files_def split: option.splits)
  moreover have "accounted (take_opt d g) (case d of None \<Rightarrow> s | Some n \<Rightarrow> inode_ref_inc n s)"
    using inv ref_inc_accounted by (auto simp: take_opt_def split: option.splits)
  ultimately have a1: "accounted g s1"
    using t(1,2) new(2) accounted_sane [OF inv]
    by (auto intro!: accounted_pwd [where g = "take_opt d g"] simp: inode_ref_inc_def split: option.splits)
  have it1: "item s1 u j = item s u j" "files_live s1 = files_live s" for u j
    by (simp_all add: s1_def inode_ref_inc_def set_files_def split: option.splits)
  have "dup_files t from s = dup_files_loop t from 0 FILES_STRUCT_NENTRY s1 \<bind> (\<lambda>s. Some (0, s))"
    using new(1) by (simp add: dup_files_def s1_def d_def Let_def cong: option.case_cong)
  then show ?thesis
    using dup_files_loop_copies [OF a1, of t "from" 0 FILES_STRUCT_NENTRY] t new(3) by (auto simp: it1)
qed

definition mark_dying :: "nat \<Rightarrow> nat \<Rightarrow> holdings \<Rightarrow> holdings" where
  "mark_dying t k g = g\<lparr>dying := (dying g)(t := Some k)\<rparr>"

lemma mark_dying_same [simp]:
  "gcur (mark_dying t k g) = gcur g" "acq (mark_dying t k g) = acq g" "res (mark_dying t k g) = res g"
  "xref (mark_dying t k g) = xref g" "xopen (mark_dying t k g) = xopen g" "pinned (mark_dying t k g) = pinned g"
  "dying (mark_dying t k g) = (dying g)(t := Some k)"
  by (auto simp: mark_dying_def)

lemma start_dying:
  assumes inv: "accounted g s" and t: "t \<in> files_live s" "dying g t = None" "t \<notin> pinned g"
  shows "accounted (take_opt (pwd (files s t)) (mark_dying t 0 g)) s"
proof -
  let ?g = "take_opt (pwd (files s t)) (mark_dying t 0 g)"
  have fin: "finite (files_live s)" using inv by (simp add: accounted_def)
  have "\<forall>y\<in>files_live s. y \<noteq> t \<longrightarrow> (if dying ?g y = None then pwd (files s y) else None) =
      (if dying g y = None then pwd (files s y) else None)" by simp
  from users_upd [OF fin t(1) this]
  have p: "pwd_users ?g s n + of_bool (pwd (files s t) = Some n) = pwd_users g s n" for n
    unfolding pwd_users_def by (simp add: t(2))
  have u: "slot_users ?g s = slot_users g s" by (rule slot_users_res) simp
  have eq: "a + pwd_users ?g s n + b + c + xref ?g n = a + pwd_users g s n + b + c + xref g n" for n a b c
    using p [of n] by simp
  have rc: "ref_count (inodes s n) = int (slot_users g s n + pwd_users ?g s n + of_bool (bootfs_node s = Some n) + dev_users s n + xref ?g n)" for n
    unfolding eq using inv by (simp add: accounted_def)
  have pd: "u \<in> files_live s \<and> dying ?g u = None" if "u \<in> pinned g" for u
    using inv that t(3) unfolding accounted_def by auto
  have dy: "u \<in> files_live s \<and> (\<forall>i<k. fstatus (item s u i) = FD_NONE)" if "dying ?g u = Some k" for u k
    using inv that t(1) unfolding accounted_def by (cases "u = t") auto
  show ?thesis
    using inv rc pd dy unfolding accounted_def u by (simp add: trans_le_add1)
qed

lemma more_dying:
  assumes "accounted (mark_dying t k g) s" "fstatus (item s t k) = FD_NONE"
  shows "accounted (mark_dying t (Suc k) g) s"
proof -
  have u: "slot_users (mark_dying t (Suc k) g) s = slot_users (mark_dying t k g) s"
    by (rule slot_users_res) simp
  have p: "pwd_users (mark_dying t (Suc k) g) s = pwd_users (mark_dying t k g) s"
    unfolding pwd_users_def by (rule ext, rule users_cong) auto
  show ?thesis using assms unfolding accounted_def u p by (auto simp: less_Suc_eq)
qed

lemma end_dying:
  assumes inv: "accounted (mark_dying t FILES_STRUCT_NENTRY g) s" and t: "dying g t = None"
  shows "accounted g (s\<lparr>files_live := files_live s - {t}\<rparr>)"
proof -
  let ?s = "s\<lparr>files_live := files_live s - {t}\<rparr>"
  let ?g = "mark_dying t FILES_STRUCT_NENTRY g"
  have tl: "t \<in> files_live s" and st: "\<forall>i<FILES_STRUCT_NENTRY. fstatus (item s t i) = FD_NONE"
    using inv unfolding accounted_def by auto
  have held: "\<not> (acq g t i > 0 \<or> res g t i \<noteq> None)" for i
  proof
    assume h: "acq g t i > 0 \<or> res g t i \<noteq> None"
    then have i: "i < FILES_STRUCT_NENTRY" using accounted_held [OF inv, of t i] by simp
    show False using entry_ok_status(1) [OF accounted_entryD [OF inv tl i]] st i h by auto
  qed
  have su: "slot_users g ?s n = slot_users ?g s n" for n
    unfolding slot_users_def users_def
    by (rule arg_cong [where f = card]) (use st in \<open>auto simp: slots_def slot_of_def split: if_splits\<close>)
  have pu: "pwd_users g ?s n = pwd_users ?g s n" for n
    unfolding pwd_users_def users_def by (rule arg_cong [where f = card]) (auto split: if_splits)
  have du: "dev_users ?s = dev_users s" by (simp add: dev_users_def)
  have pd: "u \<in> files_live s - {t} \<and> dying g u = None" if "u \<in> pinned g" for u
    using inv that unfolding accounted_def by (cases "u = t") auto
  have dy: "u \<in> files_live s - {t} \<and> (\<forall>i<k. fstatus (item s u i) = FD_NONE)" if "dying g u = Some k" for u k
    using inv that t unfolding accounted_def by (cases "u = t") auto
  have hl: "u \<in> files_live s - {t} \<and> i < FILES_STRUCT_NENTRY" if "acq g u i > 0 \<or> res g u i \<noteq> None" for u i
    using that held [of i] accounted_held [OF inv, of u i] by (cases "u = t") auto
  show ?thesis
    using inv pd dy hl unfolding accounted_def by (simp add: su pu du)
qed

context vnode_ops
begin

lemma destroy_loop_gives:
  assumes "accounted (mark_dying t i g) s" "i + k = FILES_STRUCT_NENTRY" "destroy_files_loop W t i k s = Some s'"
  shows "accounted (mark_dying t FILES_STRUCT_NENTRY g) s'"
  using assms
proof (induction k arbitrary: i s)
  case (Suc k)
  obtain s1 where s1: "(if fstatus (item s t i) = FD_OPENED then fd_array_close W t i s else Some s) = Some s1"
      "fstatus (item s1 t i) = FD_NONE" "destroy_files_loop W t (Suc i) k s1 = Some s'"
    using Suc.prems(3) by (auto simp: bind_eq_Some_conv split: if_splits)
  have ti: "t \<in> files_live s" "i < FILES_STRUCT_NENTRY"
    using Suc.prems(1,2) unfolding accounted_def by auto
  have "accounted (mark_dying t i g) s1"
    using s1(1) Suc.prems(1) fd_close_gives [OF Suc.prems(1) ti] by (auto split: if_splits)
  then show ?case using Suc.IH [OF more_dying [OF _ s1(2)] _ s1(3)] Suc.prems(2) by simp
qed simp

lemma files_destroy_gives:
  assumes inv: "accounted g s" and t: "t \<in> files_live s" "dying g t = None" "t \<notin> pinned g"
    and run: "files_destroy W t s = Some s'"
  shows "accounted g s' \<and> t \<notin> files_live s'"
proof -
  obtain s1 s2 where s1: "drop_ref W (pwd (files s t)) s = Some s1" "destroy_files_loop W t 0 FILES_STRUCT_NENTRY s1 = Some s2"
      "s' = s2\<lparr>files_live := files_live s2 - {t}\<rparr>"
    using run by (auto simp: files_destroy_def bind_eq_Some_conv split: if_splits)
  have "accounted (mark_dying t 0 g) s1"
    using drop_opt_gives [OF start_dying [OF inv t] _ s1(1)] accounted_sane [OF inv] by simp
  then show ?thesis using end_dying [OF destroy_loop_gives [OF _ _ s1(2)] t(2)] s1(3) by simp
qed

lemma closeall_loop_gives:
  assumes "accounted g s" "t \<in> pinned g" "i + k = FILES_STRUCT_NENTRY" "closeall_loop W t i k s = Some s'"
  shows "accounted g s'"
  using assms
proof (induction k arbitrary: i s)
  case (Suc k)
  obtain s1 where s1: "(if fstatus (item s t i) = FD_OPENED then fd_array_close W t i s else Some s) = Some s1"
      "closeall_loop W t (Suc i) k s1 = Some s'"
    using Suc.prems(4) by (auto simp: bind_eq_Some_conv)
  have ti: "t \<in> files_live s" "i < FILES_STRUCT_NENTRY"
    using Suc.prems(1,2,3) unfolding accounted_def by auto
  have "accounted g s1"
    using s1(1) Suc.prems(1) fd_close_gives [OF Suc.prems(1) ti] by (auto split: if_splits)
  then show ?case using Suc.IH [OF _ Suc.prems(2) _ s1(2)] Suc.prems(3) by simp
qed simp

lemma files_closeall_gives:
  assumes "accounted g s" "t \<in> pinned g" "files_closeall W t s = Some s'"
  shows "accounted g s'"
proof -
  have "2 \<le> FILES_STRUCT_NENTRY" by (simp add: FILES_STRUCT_NENTRY_def FILES_STRUCT_BUFSIZE_def)
  then show ?thesis using closeall_loop_gives [OF assms(1,2), of 2 "FILES_STRUCT_NENTRY - 2" s'] assms(3)
    by (auto simp: files_closeall_def split: if_splits)
qed

end


section \<open>The calls of the file layer\<close>

datatype file_call =
    Open string u32 | Close int | Read int "u8 list" nat | Write int "u8 list" nat | Seek int int int
  | Fstat int | Fsync int | Getdirentry int int "u8 list" | Dup int int | Chdir string | Getcwd iobuf

fun do_call :: "'a vfs_scheme world \<Rightarrow> file_call \<Rightarrow> 'a vfs_scheme \<Rightarrow> (int \<times> 'a vfs_scheme) option" where
  "do_call W (Open path flags) s = file_open W path flags s"
| "do_call W (Close fd) s = file_close W fd s"
| "do_call W (Read fd base len) s = map_option (\<lambda>(r, _, _, s). (r, s)) (file_read W fd base len s)"
| "do_call W (Write fd base len) s = map_option (\<lambda>(r, _, s). (r, s)) (file_write W fd base len s)"
| "do_call W (Seek fd pos whence) s = file_seek W fd pos whence s"
| "do_call W (Fstat fd) s = map_option (\<lambda>(r, _, s). (r, s)) (file_fstat W fd s)"
| "do_call W (Fsync fd) s = file_fsync W fd s"
| "do_call W (Getdirentry fd off name) s = map_option (\<lambda>(r, _, _, s). (r, s)) (file_getdirentry W fd off name s)"
| "do_call W (Dup fd1 fd2) s = file_dup fd1 fd2 s"
| "do_call W (Chdir path) s = vfs_chdir W path s"
| "do_call W (Getcwd iob) s = map_option (\<lambda>(r, _, s). (r, s)) (vfs_getcwd W iob s)"

text \<open>A sequence of calls with the value each of them returned, and the calls that were refused because the file they were to
  create exists.\<close>

fun run_calls :: "'a vfs_scheme world \<Rightarrow> file_call list \<Rightarrow> 'a vfs_scheme \<Rightarrow> (int list \<times> 'a vfs_scheme) option" where
  "run_calls W [] s = Some ([], s)"
| "run_calls W (c # cs) s = do { (r, s) \<leftarrow> do_call W c s; (rs, s) \<leftarrow> run_calls W cs s; Some (r # rs, s) }"

fun refused_creation :: "file_call \<times> int \<Rightarrow> bool" where
  "refused_creation (Open path flags, r) \<longleftrightarrow> flags AND O_CREAT \<noteq> 0 \<and> flags AND O_EXCL \<noteq> 0 \<and> r = - E_EXISTS"
| "refused_creation _ \<longleftrightarrow> False"

lemma take_ref_keeps [simp]: "cur_pinned (take_ref d g) = cur_pinned g"
  by (simp add: cur_pinned_def take_ref_def)

context vnode_ops
begin

lemma do_call_gives:
  assumes inv: "accounted g s" "cur_pinned g" and run: "do_call W c s = Some (r, s')"
    and nc: "\<And>k. op_create (iops W k) = None" and ok: "\<not> refused_creation (c, r)"
  shows "accounted g s'"
proof (cases c)
  case (Open path flags)
  then have run': "file_open W path flags s = Some (r, s')" using run by simp
  obtain g' where "leaks W flags r g g'" "accounted g' s'" using file_open_gives [OF inv run'] by blast
  then show ?thesis using nc ok Open by (auto simp: leaks_def)
next
  case (Getcwd iob)
  then show ?thesis using run getcwd_keeps [OF inv(1)] by auto
qed (use run in \<open>auto dest: file_close_gives [OF inv] file_read_gives [OF inv] file_write_gives [OF inv] file_seek_gives [OF inv]
      file_fstat_gives [OF inv] file_fsync_gives [OF inv] file_getdirentry_gives [OF inv] file_dup_accounted [OF inv]
      chdir_keeps [OF inv]\<close>)

text \<open>A refused creation keeps the reference of its lookup: one that finds the file, where no lookup fails with
  \<^verbatim>\<open>E_EXISTS\<close> itself.\<close>

lemma refused_open_gives:
  assumes inv: "accounted g s" "cur_pinned g" and run: "file_open W path flags s = Some (- E_EXISTS, s')"
    and fl: "flags AND O_CREAT \<noteq> 0" "flags AND O_EXCL \<noteq> 0" and nc: "\<And>k. op_create (iops W k) = None"
    and look: "\<And>s n s'. vfs_lookup W path s \<noteq> Some (- E_EXISTS, n, s')"
      "\<And>s p sub n s'. get_device W p s \<noteq> Some (- E_EXISTS, sub, n, s')"
  shows "\<exists>d. accounted (take_ref d g) s'"
proof -
  obtain t ret1 r s1 where cur: "cur_files s = Some t" and al: "fd_array_alloc NO_FD s = Some (ret1, r, s1)"
    using run by (auto simp: file_open_def Let_def bind_eq_Some_conv errno split: if_splits)
  have al1: "ret1 = 0 \<or> ret1 = - E_MAX_OPEN \<and> r = None"
    using al by (auto simp: fd_array_alloc_def Let_def bind_eq_Some_conv split: option.splits if_splits)
  obtain i where i: "ret1 = 0" "r = Some i" "res g t i = None" "accounted (reserve t i FD_INIT g) s1"
    using alloc_reserves [OF inv cur al] run al al1 cur
    by (auto simp: file_open_def Let_def errno split: if_splits)
  obtain ret2 node s2 where v: "vfs_open W path flags s1 = Some (ret2, node, s2)"
    and rest: "(if ret2 \<noteq> 0 then do { s \<leftarrow> fd_array_free W t i s2; Some (ret2, s) }
       else do { n \<leftarrow> node; install_file W t i n flags (flags AND O_ACCMODE = O_RDONLY \<or> flags AND O_ACCMODE = O_RDWR)
         (flags AND O_ACCMODE = O_WRONLY \<or> flags AND O_ACCMODE = O_RDWR) s2 }) = Some (- E_EXISTS, s')"
    using run cur al i(1,2) by (auto simp: file_open_def Let_def bind_eq_Some_conv errno split: if_splits)
  have no_find: "find_node W path flags s1 \<noteq> Some (0, r, s2)" for r s2
    using nc fl by (auto simp: find_node_def create_node_def vop_op_def Let_def bind_eq_Some_conv errno split: if_splits)
  have E: "ret2 = - E_EXISTS"  "fd_array_free W t i s2 = Some s'"
    using v rest no_find by (auto simp: vfs_open_def Let_def bind_eq_Some_conv errno split: if_splits)
  obtain r2 where "find_node W path flags s1 = Some (- E_EXISTS, r2, s2)"
    using v E(1) no_find by (auto simp: vfs_open_def Let_def bind_eq_Some_conv errno split: if_splits)
  then obtain n where l: "vfs_lookup W path s1 = Some (0, n, s2)"
    using look fl nc
    by (auto simp: find_node_def create_node_def vfs_lookup_parent_def vop_op_def Let_def bind_eq_Some_conv errno split: if_splits)
  then obtain d where "accounted (take_ref d (reserve t i FD_INIT g)) s2"
    using hands_backD [OF lookup_hands i(4) l] by auto
  moreover have "take_ref d (reserve t i FD_INIT g) = reserve t i FD_INIT (take_ref d g)" by (simp add: holding_defs)
  ultimately have "accounted (reserve t i FD_INIT (take_ref d g)) s2" by simp
  then have "accounted (take_ref d g) s'"
    by (rule free_init_gives [OF _ _ E(2)]) (use i(3) in \<open>simp add: take_ref_def\<close>)
  then show ?thesis by blast
qed

end

end
