(* ===== verification/Stdin.thy ===== *)
theory Stdin
  imports Sync
begin

text \<open>
  The keyboard device, \<^verbatim>\<open>kern/fs/devs/dev_stdin.c\<close>: a ring buffer of 4096 characters that the interrupt handler fills and
  that readers empty, and the wait queue of the readers.

  \<^verbatim>\<open>dev_stdin_read\<close> gives up the CPU when the buffer is empty, so it is two steps, as \<open>down\<close> is in \<open>Sync\<close>: \<open>stdin_read_from\<close> runs until the
  request is filled or the reader sleeps, \<open>stdin_read_resume\<close> is what the reader does when it has the CPU again. The
  queue of unread characters is the abstraction. As long as the buffer has room it is a queue; when it is full the next character
  replaces the oldest unread one.
\<close>

section \<open>State and operations\<close>

definition STDIN_BUFSIZE :: nat where "STDIN_BUFSIZE = 4096"

record tty = kernel +
  stdin_buffer :: "nat \<Rightarrow> u8"
  p_rpos :: nat
  p_wpos :: nat

definition dev_stdin_write ::
  "'a tty_scheme sched_class \<Rightarrow> nat \<Rightarrow> u8 \<Rightarrow> 'a tty_scheme \<Rightarrow> 'a tty_scheme option" where
  "dev_stdin_write cls q c s =
     (if c \<noteq> 0 then do {
        let s = s\<lparr>stdin_buffer := (stdin_buffer s)(p_wpos s mod STDIN_BUFSIZE := c)\<rparr>;
        let s = (if int (p_wpos s) - int (p_rpos s) < int STDIN_BUFSIZE then s\<lparr>p_wpos := p_wpos s + 1\<rparr> else s);
        if \<not> wait_queue_empty q s then wakeup_queue cls q WT_KBD True s else Some s
      } else Some s)"

text \<open>The loop over the characters that are there: what has been stored so far, whether the reader has to wait, the state.\<close>

fun stdin_loop :: "nat \<Rightarrow> u8 list \<Rightarrow> 'a tty_scheme \<Rightarrow> u8 list \<times> bool \<times> 'a tty_scheme" where
  "stdin_loop 0 buf s = (buf, False, s)"
| "stdin_loop (Suc k) buf s =
     (if p_rpos s < p_wpos s
      then stdin_loop k (buf @ [stdin_buffer s (p_rpos s mod STDIN_BUFSIZE)]) (s\<lparr>p_rpos := p_rpos s + 1\<rparr>)
      else (buf, True, s))"

text \<open>From \<^verbatim>\<open>try_again\<close> on, with the characters in \<open>buf\<close> stored: \<open>Inl\<close> is a return of the stored characters, \<open>Inr\<close> a reader asleep.\<close>

definition stdin_read_from ::
  "'a tty_scheme sched_class \<Rightarrow> nat \<Rightarrow> nat \<Rightarrow> nat \<Rightarrow> u8 list \<Rightarrow> 'a tty_scheme \<Rightarrow> ((u8 list + u8 list) \<times> 'a tty_scheme) option" where
  "stdin_read_from cls q w len buf s =
     (let (buf, blocked, s) = stdin_loop (len - length buf) buf s in
      if \<not> blocked then Some (Inl buf, s)
      else do {
        s \<leftarrow> wait_current_set q w WT_KBD s;
        s \<leftarrow> schedule cls s;
        Some (Inr buf, s)
      })"

definition stdin_read_resume ::
  "'a tty_scheme sched_class \<Rightarrow> nat \<Rightarrow> nat \<Rightarrow> nat \<Rightarrow> u8 list \<Rightarrow> 'a tty_scheme \<Rightarrow> ((u8 list + u8 list) \<times> 'a tty_scheme) option" where
  "stdin_read_resume cls q w len buf s = do {
     s \<leftarrow> wait_current_del q w s;
     if wakeup_flags (waits s w) = WT_KBD then stdin_read_from cls q w len buf s else Some (Inl buf, s)
   }"

definition dev_stdin_read ::
  "'a tty_scheme sched_class \<Rightarrow> nat \<Rightarrow> nat \<Rightarrow> nat \<Rightarrow> 'a tty_scheme \<Rightarrow> ((u8 list + u8 list) \<times> 'a tty_scheme) option" where
  "dev_stdin_read cls q w len s = stdin_read_from cls q w len [] s"

definition stdin_device_init :: "nat \<Rightarrow> 'a tty_scheme \<Rightarrow> 'a tty_scheme" where
  "stdin_device_init q s = wait_queue_init q (s\<lparr>p_rpos := 0, p_wpos := 0\<rparr>)"

section \<open>The ring buffer as a queue\<close>

definition stdin_ok :: "'a tty_scheme \<Rightarrow> bool" where
  "stdin_ok s \<longleftrightarrow> p_rpos s \<le> p_wpos s \<and> p_wpos s \<le> p_rpos s + STDIN_BUFSIZE"

definition unread :: "'a tty_scheme \<Rightarrow> u8 list" where
  "unread s = map (\<lambda>i. stdin_buffer s (i mod STDIN_BUFSIZE)) [p_rpos s..<p_wpos s]"

lemma mod_distinct:
  assumes "i < j" "j < i + m"
  shows "i mod m \<noteq> j mod (m::nat)"
proof
  assume "i mod m = j mod m"
  then have "m dvd j - i" by (metis assms(1) mod_eq_dvd_iff_nat less_imp_le_nat)
  then show False using assms by (auto dest: dvd_imp_le)
qed

lemma unread_room:
  assumes "stdin_ok s" "p_wpos s < p_rpos s + STDIN_BUFSIZE"
  shows "map (\<lambda>i. ((stdin_buffer s)(p_wpos s mod STDIN_BUFSIZE := c)) (i mod STDIN_BUFSIZE)) [p_rpos s..<Suc (p_wpos s)] = unread s @ [c]"
proof -
  have "i mod STDIN_BUFSIZE \<noteq> p_wpos s mod STDIN_BUFSIZE" if "p_rpos s \<le> i" "i < p_wpos s" for i
    using that assms(2) by (intro mod_distinct) auto
  then show ?thesis using assms(1) by (simp add: stdin_ok_def unread_def)
qed

lemma unread_full:
  assumes "p_wpos s = p_rpos s + STDIN_BUFSIZE"
  shows "map (\<lambda>i. ((stdin_buffer s)(p_wpos s mod STDIN_BUFSIZE := c)) (i mod STDIN_BUFSIZE)) [p_rpos s..<p_wpos s] = c # tl (unread s)"
proof -
  have B: "0 < STDIN_BUFSIZE" by (simp add: STDIN_BUFSIZE_def)
  have u: "[p_rpos s..<p_wpos s] = p_rpos s # [Suc (p_rpos s)..<p_wpos s]"
    using assms B by (simp add: upt_conv_Cons)
  have "i mod STDIN_BUFSIZE \<noteq> p_wpos s mod STDIN_BUFSIZE" if "Suc (p_rpos s) \<le> i" "i < p_wpos s" for i
    using that assms by (intro mod_distinct) auto
  then have m: "map (\<lambda>i. ((stdin_buffer s)(p_wpos s mod STDIN_BUFSIZE := c)) (i mod STDIN_BUFSIZE)) [Suc (p_rpos s)..<p_wpos s] =
      map (\<lambda>i. stdin_buffer s (i mod STDIN_BUFSIZE)) [Suc (p_rpos s)..<p_wpos s]" by simp
  show ?thesis unfolding unread_def u list.map m list.sel using assms by simp
qed

lemma stdin_loop_takes:
  "stdin_ok s \<Longrightarrow>
   stdin_loop k buf s = (buf @ take k (unread s), length (unread s) < k, s\<lparr>p_rpos := p_rpos s + min k (length (unread s))\<rparr>)"
proof (induction k arbitrary: buf s)
  case (Suc k)
  show ?case
  proof (cases "p_rpos s < p_wpos s")
    case True
    let ?s = "s\<lparr>p_rpos := p_rpos s + 1\<rparr>"
    have ok: "stdin_ok ?s" using Suc.prems True by (simp add: stdin_ok_def)
    have u: "unread s = stdin_buffer s (p_rpos s mod STDIN_BUFSIZE) # unread ?s"
      using True by (simp add: unread_def upt_conv_Cons)
    show ?thesis using Suc.IH [OF ok] True by (simp add: u)
  qed (use Suc.prems in \<open>simp add: unread_def stdin_ok_def\<close>)
qed simp

lemma unread_after:
  assumes "stdin_ok s" "k \<le> length (unread s)"
  shows "unread (s\<lparr>p_rpos := p_rpos s + k\<rparr>) = drop k (unread s)" "stdin_ok (s\<lparr>p_rpos := p_rpos s + k\<rparr>)"
  using assms by (auto simp: unread_def stdin_ok_def drop_map)

lemma length_unread: "length (unread s) = p_wpos s - p_rpos s"
  by (simp add: unread_def)

lemma stdin_write_queue:
  assumes ok: "stdin_ok s" and e0: "wait_queue_empty q s"
  shows "\<exists>s'. dev_stdin_write cls q c s = Some s' \<and> stdin_ok s' \<and>
      unread s' = (if c = 0 then unread s
                   else if length (unread s) < STDIN_BUFSIZE then unread s @ [c] else c # tl (unread s))"
proof -
  let ?b = "(stdin_buffer s)(p_wpos s mod STDIN_BUFSIZE := c)"
  have e: "wait_queue_empty q (s\<lparr>stdin_buffer := b, p_wpos := x\<rparr>)" "wait_queue_empty q (s\<lparr>stdin_buffer := b\<rparr>)" for b x
    using e0 by (simp_all add: wait_queue_empty_def)
  consider "c = 0" | (full) "c \<noteq> 0" "p_wpos s = p_rpos s + STDIN_BUFSIZE" | (room) "c \<noteq> 0" "p_wpos s < p_rpos s + STDIN_BUFSIZE"
    using ok by (auto simp: stdin_ok_def order_le_less)
  then show ?thesis
  proof cases
    case full
    then have "dev_stdin_write cls q c s = Some (s\<lparr>stdin_buffer := ?b\<rparr>)" using e by (simp add: dev_stdin_write_def)
    moreover have "unread (s\<lparr>stdin_buffer := ?b\<rparr>) = c # tl (unread s)" using unread_full [OF full(2), of c] by (simp add: unread_def)
    ultimately show ?thesis using ok full by (simp add: stdin_ok_def length_unread)
  next
    case room
    then have "int (p_wpos s) - int (p_rpos s) < int STDIN_BUFSIZE" by linarith
    then have "dev_stdin_write cls q c s = Some (s\<lparr>stdin_buffer := ?b, p_wpos := Suc (p_wpos s)\<rparr>)"
      using e room by (simp add: dev_stdin_write_def)
    moreover have "unread (s\<lparr>stdin_buffer := ?b, p_wpos := Suc (p_wpos s)\<rparr>) = unread s @ [c]"
      using unread_room [OF ok room(2), of c] by (simp add: unread_def)
    moreover have "length (unread s) < STDIN_BUFSIZE" using ok room unfolding length_unread stdin_ok_def by linarith
    ultimately show ?thesis using ok room by (simp add: stdin_ok_def)
  qed (use ok in \<open>simp add: dev_stdin_write_def\<close>)
qed

text \<open>C36: The keyboard buffer is a bounded queue of the unread characters. With no reader asleep, storing a character adds it at
  the back while fewer than 4096 are unread, and otherwise replaces the oldest unread one; a zero byte is ignored. A
  read of at most as many characters as are unread returns exactly those, oldest first, without waiting, and
  removes them; a longer read takes them all and then sleeps on the wait queue.\<close>

theorem stdin_queue:
  assumes "stdin_ok s" "wait_queue_empty q s"
  shows "(\<exists>s'. dev_stdin_write cls q c s = Some s' \<and> stdin_ok s' \<and>
      unread s' = (if c = 0 then unread s
                   else if length (unread s) < STDIN_BUFSIZE then unread s @ [c] else c # tl (unread s))) \<and>
    (if len \<le> length (unread s)
     then \<exists>s'. dev_stdin_read cls q w len s = Some (Inl (take len (unread s)), s') \<and> stdin_ok s' \<and> unread s' = drop len (unread s)
     else dev_stdin_read cls q w len s = do {
        s1 \<leftarrow> wait_current_set q w WT_KBD (s\<lparr>p_rpos := p_wpos s\<rparr>); s2 \<leftarrow> schedule cls s1; Some (Inr (unread s), s2) })"
proof (intro conjI stdin_write_queue [OF assms])
  have sl: "stdin_read_from cls q w len [] s = (if length (unread s) < len then do {
        s1 \<leftarrow> wait_current_set q w WT_KBD (s\<lparr>p_rpos := p_rpos s + min len (length (unread s))\<rparr>);
        s2 \<leftarrow> schedule cls s1; Some (Inr (take len (unread s)), s2) }
      else Some (Inl (take len (unread s)), s\<lparr>p_rpos := p_rpos s + min len (length (unread s))\<rparr>))"
    by (simp add: stdin_read_from_def stdin_loop_takes [OF assms(1)])
  have all: "p_rpos s + min len (length (unread s)) = p_wpos s" if "length (unread s) < len"
    using that assms(1) by (simp add: length_unread stdin_ok_def)
  show "if len \<le> length (unread s)
     then \<exists>s'. dev_stdin_read cls q w len s = Some (Inl (take len (unread s)), s') \<and> stdin_ok s' \<and> unread s' = drop len (unread s)
     else dev_stdin_read cls q w len s = do {
        s1 \<leftarrow> wait_current_set q w WT_KBD (s\<lparr>p_rpos := p_wpos s\<rparr>); s2 \<leftarrow> schedule cls s1; Some (Inr (unread s), s2) }"
    using all unread_after [OF assms(1)] by (auto simp: dev_stdin_read_def sl min_def)
qed

definition demo_tty :: tty where
  "demo_tty = kernel.extend blank_kernel \<lparr>stdin_buffer = (\<lambda>_. 0)(0 := 104, 1 := 105), p_rpos = 0, p_wpos = 2\<rparr>"

lemma demo_tty_ok: "stdin_ok demo_tty" "wait_queue_empty 0 demo_tty" "unread demo_tty = [104, 105]"
  by (simp_all add: demo_tty_def stdin_ok_def STDIN_BUFSIZE_def wait_queue_empty_def list_empty_def unread_def
      kernel.defs blank_kernel_def upt_rec)

theorem stdin_queue_witness:
  "(\<exists>s'. dev_stdin_write default_sched_class 0 33 demo_tty = Some s' \<and> unread s' = [104, 105, 33]) \<and>
   (\<exists>s'. dev_stdin_read default_sched_class 0 7 1 demo_tty = Some (Inl [104], s') \<and> unread s' = [105])"
  using stdin_queue [OF demo_tty_ok(1,2), of default_sched_class 33 1 7]
  by (auto simp: demo_tty_ok(3) STDIN_BUFSIZE_def)

end
