(* ===== verification/Devices.thy ===== *)
theory Devices
  imports File_Refs Stdin
begin

text \<open>
  The devices of the file system, \<^verbatim>\<open>kern/fs/devs\<close>: the inode operations every device shares (\<^verbatim>\<open>dev.c\<close>), the keyboard, the
  screen and the disk behind them, and their registration when the kernel starts.

  The four function pointers of a \<^verbatim>\<open>struct device\<close> always come from one driver, so a device is the name of its driver
  (\<open>dev_kind\<close>) and the calls through the pointers are cases on it. The state adds the device of each inode, the disk, the characters on the screen
  and the keyboard with the processes that wait for it. A read of the keyboard that has to wait does not return within the call, and is
  \<open>None\<close> here; what happens then is in \<open>Stdin\<close>. \<open>cls\<close> is the scheduling class, \<open>q\<close> the wait queue of the keyboard and \<open>w\<close> the wait entry
  on the stack of the reader.
\<close>

section \<open>State\<close>

datatype dev_kind = Dev_stdin | Dev_stdout | Dev_disk0

record devs = vfs +
  dev_of :: "nat \<Rightarrow> dev_kind"
  disk :: disk0
  console :: "u8 list"
  keyboard :: tty

definition S_IFCHR :: u32 where "S_IFCHR = 0x4000"
definition S_IFBLK :: u32 where "S_IFBLK = 0x5000"

section \<open>Drivers\<close>

definition stdin_open :: "u32 \<Rightarrow> int" where
  "stdin_open flags = (if flags \<noteq> O_RDONLY then - E_INVAL else 0)"

definition stdin_close :: int where "stdin_close = 0"

definition stdin_io ::
  "tty sched_class \<Rightarrow> nat \<Rightarrow> nat \<Rightarrow> iobuf \<Rightarrow> bool \<Rightarrow> 'a devs_scheme \<Rightarrow> (int \<times> iobuf \<times> 'a devs_scheme) option" where
  "stdin_io cls q w iob write s =
     (if \<not> write then do {
        (r, t) \<leftarrow> dev_stdin_read cls q w (io_resid iob) (keyboard s);
        (case r of
           Inr _ \<Rightarrow> None
         | Inl bs \<Rightarrow>
             Some (int (length bs),
               iob\<lparr>io_mem := put_bytes (io_mem iob) (io_base iob) bs, io_resid := io_resid iob - length bs\<rparr>,
               s\<lparr>keyboard := t\<rparr>))
      } else Some (- E_INVAL, iob, s))"

definition stdin_ioctl :: int where "stdin_ioctl = - E_INVAL"

definition stdout_open :: "u32 \<Rightarrow> int" where
  "stdout_open flags = (if flags \<noteq> O_WRONLY then - E_INVAL else 0)"

definition stdout_close :: int where "stdout_close = 0"

fun stdout_loop :: "u8 list \<Rightarrow> nat \<Rightarrow> nat \<Rightarrow> 'a devs_scheme \<Rightarrow> 'a devs_scheme" where
  "stdout_loop m p 0 s = s"
| "stdout_loop m p (Suc k) s = stdout_loop m (Suc p) k (s\<lparr>console := console s @ [m ! p]\<rparr>)"

definition stdout_io :: "iobuf \<Rightarrow> bool \<Rightarrow> 'a devs_scheme \<Rightarrow> (int \<times> iobuf \<times> 'a devs_scheme) option" where
  "stdout_io iob write s =
     (if write then Some (0, iob\<lparr>io_resid := 0\<rparr>, stdout_loop (io_mem iob) (io_base iob) (io_resid iob) s)
      else Some (- E_INVAL, iob, s))"

definition stdout_ioctl :: int where "stdout_ioctl = - E_INVAL"

fun dop_open :: "dev_kind \<Rightarrow> u32 \<Rightarrow> int" where
  "dop_open Dev_stdin flags = stdin_open flags"
| "dop_open Dev_stdout flags = stdout_open flags"
| "dop_open Dev_disk0 flags = disk0_open flags"

fun dop_close :: "dev_kind \<Rightarrow> int" where
  "dop_close Dev_stdin = stdin_close"
| "dop_close Dev_stdout = stdout_close"
| "dop_close Dev_disk0 = disk0_close"

fun dop_io ::
  "tty sched_class \<Rightarrow> nat \<Rightarrow> nat \<Rightarrow> dev_kind \<Rightarrow> iobuf \<Rightarrow> bool \<Rightarrow> 'a devs_scheme \<Rightarrow> (int \<times> iobuf \<times> 'a devs_scheme) option" where
  "dop_io cls q w Dev_stdin iob write s = stdin_io cls q w iob write s"
| "dop_io cls q w Dev_stdout iob write s = stdout_io iob write s"
| "dop_io cls q w Dev_disk0 iob write s = do {
     (ret, iob, d) \<leftarrow> disk0_io iob write (disk s);
     Some (ret, iob, s\<lparr>disk := d\<rparr>)
   }"

fun dop_ioctl :: "dev_kind \<Rightarrow> int" where
  "dop_ioctl Dev_stdin = stdin_ioctl"
| "dop_ioctl Dev_stdout = stdout_ioctl"
| "dop_ioctl Dev_disk0 = disk0_ioctl"

text \<open>The fields \<^verbatim>\<open>d_blocks\<close> and \<^verbatim>\<open>d_blocksize\<close> as the three \<^verbatim>\<open>device_init\<close> routines set them.\<close>

fun dev_blocks :: "dev_kind \<Rightarrow> 'a devs_scheme \<Rightarrow> nat" where
  "dev_blocks Dev_disk0 s = d_blocks (disk s)"
| "dev_blocks _ s = 0"

fun dev_blocksize :: "dev_kind \<Rightarrow> 'a devs_scheme \<Rightarrow> nat" where
  "dev_blocksize Dev_disk0 s = d_blocksize (disk s)"
| "dev_blocksize _ s = 1"

section \<open>The operations of a device inode\<close>

definition dev_info :: "nat \<Rightarrow> 'a devs_scheme \<Rightarrow> dev_kind option" where
  "dev_info n s = do { kassert (in_device (inodes s n)); Some (dev_of s n) }"

definition dev_open :: "nat \<Rightarrow> u32 \<Rightarrow> 'a devs_scheme \<Rightarrow> (int \<times> 'a devs_scheme) option" where
  "dev_open n flags s =
     (if flags AND (O_CREAT OR O_TRUNC OR O_EXCL OR O_APPEND) \<noteq> 0 then Some (- E_INVAL, s)
      else do { d \<leftarrow> dev_info n s; Some (dop_open d flags, s) })"

definition dev_close :: "nat \<Rightarrow> 'a devs_scheme \<Rightarrow> (int \<times> 'a devs_scheme) option" where
  "dev_close n s = do { d \<leftarrow> dev_info n s; Some (dop_close d, s) }"

definition dev_read ::
  "tty sched_class \<Rightarrow> nat \<Rightarrow> nat \<Rightarrow> nat \<Rightarrow> iobuf \<Rightarrow> 'a devs_scheme \<Rightarrow> (int \<times> iobuf \<times> 'a devs_scheme) option" where
  "dev_read cls q w n iob s = do { d \<leftarrow> dev_info n s; dop_io cls q w d iob False s }"

definition dev_write ::
  "tty sched_class \<Rightarrow> nat \<Rightarrow> nat \<Rightarrow> nat \<Rightarrow> iobuf \<Rightarrow> 'a devs_scheme \<Rightarrow> (int \<times> iobuf \<times> 'a devs_scheme) option" where
  "dev_write cls q w n iob s = do { d \<leftarrow> dev_info n s; dop_io cls q w d iob True s }"

definition dev_ioctl :: "nat \<Rightarrow> 'a devs_scheme \<Rightarrow> (int \<times> 'a devs_scheme) option" where
  "dev_ioctl n s = do { d \<leftarrow> dev_info n s; Some (dop_ioctl d, s) }"

definition dev_gettype :: "nat \<Rightarrow> 'a devs_scheme \<Rightarrow> (int \<times> u32 \<times> 'a devs_scheme) option" where
  "dev_gettype n s = do { d \<leftarrow> dev_info n s; Some (0, if dev_blocks d s > 0 then S_IFBLK else S_IFCHR, s) }"

definition dev_fstat :: "nat \<Rightarrow> 'a devs_scheme \<Rightarrow> (int \<times> stat \<times> 'a devs_scheme) option" where
  "dev_fstat n s = do {
     inode_check n s;
     (ret, ty, s) \<leftarrow> dev_gettype n s;
     if ret \<noteq> 0 then Some (ret, \<lparr>st_mode = ty, st_nlinks = 0, st_blocks = 0, st_size = 0\<rparr>, s)
     else do {
       d \<leftarrow> dev_info n s;
       Some (0, \<lparr>st_mode = ty, st_nlinks = 1, st_blocks = dev_blocks d s, st_size = dev_blocks d s * dev_blocksize d s\<rparr>, s)
     }
   }"

definition dev_tryseek :: "nat \<Rightarrow> int \<Rightarrow> 'a devs_scheme \<Rightarrow> (int \<times> 'a devs_scheme) option" where
  "dev_tryseek n pos s = do {
     d \<leftarrow> dev_info n s;
     Some (if dev_blocks d s > 0 \<and> pos mod int (dev_blocksize d s) = 0 \<and> 0 \<le> pos \<and>
              pos < int (dev_blocks d s * dev_blocksize d s) then 0 else - E_INVAL, s)
   }"

definition dev_lookup :: "nat \<Rightarrow> string \<Rightarrow> 'a devs_scheme \<Rightarrow> (int \<times> nat option \<times> 'a devs_scheme) option" where
  "dev_lookup n path s = (if path \<noteq> [] then Some (- E_NOENT, None, s) else Some (0, Some n, inode_ref_inc n s))"

definition dev_node_ops :: "tty sched_class \<Rightarrow> nat \<Rightarrow> nat \<Rightarrow> 'a devs_scheme inode_ops" where
  "dev_node_ops cls q w =
     \<lparr>op_open = Some dev_open, op_close = Some dev_close, op_read = Some (dev_read cls q w), op_write = Some (dev_write cls q w),
      op_fstat = Some dev_fstat, op_fsync = None, op_namefile = None, op_getdirentry = None, op_reclaim = None,
      op_gettype = Some dev_gettype, op_tryseek = Some dev_tryseek, op_truncate = None, op_create = None,
      op_lookup = Some dev_lookup\<rparr>"

section \<open>Registration\<close>

definition dev_create_inode :: "(nat set \<Rightarrow> nat option) \<Rightarrow> 'a devs_scheme \<Rightarrow> nat option \<times> 'a devs_scheme" where
  "dev_create_inode km s =
     (case alloc_inode km True s of
        (None, s) \<Rightarrow> (None, s)
      | (Some n, s) \<Rightarrow> (Some n, inode_init n Dev_node_ops None s))"

definition set_dev :: "nat \<Rightarrow> dev_kind \<Rightarrow> 'a devs_scheme \<Rightarrow> 'a devs_scheme" where
  "set_dev n k s = s\<lparr>dev_of := (dev_of s)(n := k)\<rparr>"

definition stdout_device_init :: "nat \<Rightarrow> 'a devs_scheme \<Rightarrow> 'a devs_scheme" where
  "stdout_device_init n s = set_dev n Dev_stdout s"

definition dev_init_stdin ::
  "(nat set \<Rightarrow> nat option) \<Rightarrow> (nat set \<Rightarrow> nat option) \<Rightarrow> bool \<Rightarrow> nat \<Rightarrow> 'a devs_scheme \<Rightarrow> 'a devs_scheme option" where
  "dev_init_stdin km kv dup_ok q s = do {
     let (r, s) = dev_create_inode km s;
     n \<leftarrow> r;
     kassert (in_device (inodes s n));
     let s = set_dev n Dev_stdin (s\<lparr>keyboard := stdin_device_init q (keyboard s)\<rparr>);
     (ret, s) \<leftarrow> vfs_add_dev kv dup_ok ''stdin'' (Some n) False s;
     if ret \<noteq> 0 then panic else Some s
   }"

definition dev_init_stdout ::
  "(nat set \<Rightarrow> nat option) \<Rightarrow> (nat set \<Rightarrow> nat option) \<Rightarrow> bool \<Rightarrow> 'a devs_scheme \<Rightarrow> 'a devs_scheme option" where
  "dev_init_stdout km kv dup_ok s = do {
     let (r, s) = dev_create_inode km s;
     n \<leftarrow> r;
     kassert (in_device (inodes s n));
     (ret, s) \<leftarrow> vfs_add_dev kv dup_ok ''stdout'' (Some n) False (stdout_device_init n s);
     if ret \<noteq> 0 then panic else Some s
   }"

text \<open>\<open>mem\<close> is the transfer buffer \<^verbatim>\<open>disk0_device_init\<close> gets from \<^verbatim>\<open>kmalloc\<close>.\<close>

definition dev_init_disk0 ::
  "(nat set \<Rightarrow> nat option) \<Rightarrow> (nat set \<Rightarrow> nat option) \<Rightarrow> bool \<Rightarrow> u8 list option \<Rightarrow> 'a devs_scheme \<Rightarrow> 'a devs_scheme option" where
  "dev_init_disk0 km kv dup_ok mem s = do {
     let (r, s) = dev_create_inode km s;
     n \<leftarrow> r;
     kassert (in_device (inodes s n));
     d \<leftarrow> disk0_device_init (d0_ide (disk s)) mem;
     (ret, s) \<leftarrow> vfs_add_dev kv dup_ok ''disk0'' (Some n) True (set_dev n Dev_disk0 (s\<lparr>disk := d\<rparr>));
     if ret \<noteq> 0 then panic else Some s
   }"

definition dev_init ::
  "(nat set \<Rightarrow> nat option) \<Rightarrow> (nat set \<Rightarrow> nat option) \<Rightarrow> bool \<Rightarrow> nat \<Rightarrow> u8 list option \<Rightarrow> 'a devs_scheme \<Rightarrow> 'a devs_scheme option" where
  "dev_init km kv dup_ok q mem s = do {
     s \<leftarrow> dev_init_stdin km kv dup_ok q s;
     s \<leftarrow> dev_init_stdout km kv dup_ok s;
     dev_init_disk0 km kv dup_ok mem s
   }"

section \<open>The devices keep the accounts\<close>

lemma accounted_truncate: "accounted g (vfs.truncate s) \<longleftrightarrow> accounted g s"
  by (simp add: accounted_def slot_users_def pwd_users_def dev_users_def slots_def vfs.defs cong: if_cong)

lemma accounted_view: "vfs.truncate s' = vfs.truncate s \<Longrightarrow> accounted g s' \<longleftrightarrow> accounted g s"
  using accounted_truncate by metis

lemma keeps_view:
  assumes "\<And>s r. F s = Some r \<Longrightarrow> vfs.truncate (h r) = vfs.truncate s"
  shows "keeps (\<lambda>s. map_option h (F s))"
  using assms accounted_view by (fastforce simp: keeps_def)

lemma devs_view [simp]:
  "vfs.truncate (s\<lparr>keyboard := t\<rparr>) = vfs.truncate s" "vfs.truncate (s\<lparr>disk := d\<rparr>) = vfs.truncate s"
  "vfs.truncate (s\<lparr>console := c\<rparr>) = vfs.truncate s"
  by (simp_all add: vfs.defs)

lemma stdout_loop_view: "vfs.truncate (stdout_loop m p k s) = vfs.truncate s"
  by (induction m p k s rule: stdout_loop.induct) simp_all

lemma stdout_loop_console:
  "p + k \<le> length m \<Longrightarrow> stdout_loop m p k s = s\<lparr>console := console s @ take k (drop p m)\<rparr>"
proof (induction m p k s rule: stdout_loop.induct)
  case (2 m p k s)
  then have "drop p m = m ! p # drop (Suc p) m" by (intro Cons_nth_drop_Suc [symmetric]) simp
  then show ?case using 2 by simp
qed simp

lemma stdin_io_view:
  assumes "stdin_io cls q w iob write s = Some (ret, iob', s')"
  shows "vfs.truncate s' = vfs.truncate s"
proof (cases "write")
  case False
  then obtain r t where "dev_stdin_read cls q w (io_resid iob) (keyboard s) = Some (r, t)"
    using assms by (auto simp: stdin_io_def bind_eq_Some_conv)
  then show ?thesis using assms False by (cases r) (auto simp: stdin_io_def)
qed (use assms in \<open>simp add: stdin_io_def\<close>)

lemma dop_io_view: "dop_io cls q w d iob write s = Some (ret, iob', s') \<Longrightarrow> vfs.truncate s' = vfs.truncate s"
  using stdin_io_view [of cls q w iob "write" s ret iob' s']
  by (cases d) (auto simp: stdout_io_def bind_eq_Some_conv stdout_loop_view split: if_split_asm)

lemmas dev_op_defs = dev_open_def dev_close_def dev_read_def dev_write_def dev_gettype_def dev_fstat_def dev_tryseek_def dev_info_def

lemma dev_ops_keep:
  "keeps (\<lambda>s. map_option snd (dev_open n flags s))" "keeps (\<lambda>s. map_option snd (dev_close n s))"
  "keeps (\<lambda>s. map_option last_state (dev_read cls q w n iob s))" "keeps (\<lambda>s. map_option last_state (dev_write cls q w n iob s))"
  "keeps (\<lambda>s. map_option last_state (dev_fstat n s))" "keeps (\<lambda>s. map_option snd (dev_tryseek n pos s))"
  by (rule keeps_view; auto simp: dev_op_defs bind_eq_Some_conv split: if_splits dest: dop_io_view)+

lemma dev_lookup_hands_back: "hands_back (dev_lookup n path)"
  by (rule hands_backI) (auto simp: dev_lookup_def errno ref_inc_accounted split: if_splits)

lemma dev_gettype_pure: "dev_gettype n s = Some (ret, ty, s') \<Longrightarrow> s' = s"
  by (auto simp: dev_gettype_def dev_info_def split: if_splits)


section \<open>The kernel with its devices\<close>

text \<open>The tables of a kernel on which no file system is mounted yet: no inode has one of the file system tables and no \<^verbatim>\<open>struct fs\<close> is
  called.\<close>

definition no_ops :: "'s inode_ops" where
  "no_ops = \<lparr>op_open = None, op_close = None, op_read = None, op_write = None, op_fstat = None, op_fsync = None, op_namefile = None,
     op_getdirentry = None, op_reclaim = None, op_gettype = None, op_tryseek = None, op_truncate = None, op_create = None,
     op_lookup = None\<rparr>"

definition device_world :: "tty sched_class \<Rightarrow> nat \<Rightarrow> nat \<Rightarrow> 'a devs_scheme world" where
  "device_world cls q w =
     \<lparr>iops = (\<lambda>k. case k of Dev_node_ops \<Rightarrow> dev_node_ops cls q w | _ \<Rightarrow> no_ops),
      fops = (\<lambda>_. \<lparr>fs_sync = (\<lambda>_ _. None), fs_get_root = (\<lambda>_ _. None), fs_unmount = (\<lambda>_ _. None), fs_cleanup = (\<lambda>_ _. None)\<rparr>)\<rparr>"

lemma hands_back_none: "hands_back (\<lambda>s. None)"
  by (simp add: hands_back_def)

interpretation devices: vnode_ops "device_world cls q w"
  by unfold_locales
     (auto simp: device_world_def dev_node_ops_def no_ops_def dev_ops_keep dev_lookup_hands_back dev_gettype_pure hands_back_none
       split: ops_table.splits)


section \<open>What the file layer promises\<close>

text \<open>No path walk of this kernel fails with \<^verbatim>\<open>E_EXISTS\<close>, and no table creates files: a creating open that is refused with that
  code has found the file.\<close>

lemma device_world_root: "vfs_get_root (device_world cls q w) name s \<noteq> Some (- E_EXISTS, n, s')"
  by (auto simp: vfs_get_root_def device_world_def bind_eq_Some_conv errno split: option.splits if_splits)

lemma device_world_device: "get_device (device_world cls q w) p s \<noteq> Some (- E_EXISTS, sub, n, s')"
  using device_world_root [where cls = cls and q = q and w = w]
  by (auto simp: get_device_def vfs_get_bootfs_def vfs_get_curdir_def Let_def bind_eq_Some_conv errno
      split: option.splits if_splits nat.splits prod.splits bool.splits)

lemma device_world_ret:
  "\<lbrakk> vop_op op_lookup (device_world cls q w) m s = Some f; f m sub s = Some (- E_EXISTS, n, s') \<rbrakk> \<Longrightarrow> False"
  by (auto simp: vop_op_def device_world_def dev_node_ops_def no_ops_def dev_lookup_def bind_eq_Some_conv errno
      split: ops_table.splits if_splits)

lemma device_world_lookup: "vfs_lookup (device_world cls q w) path s \<noteq> Some (- E_EXISTS, n, s')"
proof -
  have "E_EXISTS \<noteq> 0" by (simp add: errno)
  then show ?thesis using device_world_device [of cls q w path s]
    by (auto simp: vfs_lookup_def bind_eq_Some_conv split: if_splits dest: device_world_ret)
qed

lemma device_world_no_create [simp]: "op_create (iops (device_world cls q w) k) = None"
  by (simp add: device_world_def dev_node_ops_def no_ops_def split: ops_table.splits)

lemma do_call_accounts:
  assumes "accounted g s" "cur_pinned g" "do_call (device_world cls q w) c s = Some (r, s')"
  shows "\<exists>ds. length ds = of_bool (refused_creation (c, r)) \<and> accounted (fold take_ref ds g) s'"
proof (cases "refused_creation (c, r)")
  case False
  then show ?thesis using devices.do_call_gives [OF assms] by (intro exI [of _ "[]"]) simp
next
  case True
  then obtain path flags where c: "c = Open path flags" "r = - E_EXISTS" "flags AND O_CREAT \<noteq> 0" "flags AND O_EXCL \<noteq> 0"
    by (cases c) auto
  have run: "file_open (device_world cls q w) path flags s = Some (- E_EXISTS, s')" using assms(3) c(1,2) by simp
  obtain d where "accounted (take_ref d g) s'"
    using devices.refused_open_gives [OF assms(1,2) run c(3,4) device_world_no_create device_world_lookup device_world_device] by blast
  then show ?thesis using True by (intro exI [of _ "[d]"]) simp
qed

text \<open>C15: In any sequence of open, close, read, write, seek, stat, sync, directory, dup, chdir and getcwd calls on devices that return,
  successful or not, the accounts stay true: the open count of every inode is the number of descriptors that have it open, its reference
  count is the number of descriptors, working directories and devices that name it plus what other calls hold, and every entry of every
  table is free, open with one count per user, or closed and still in use. The calls give back everything they take, with one exception:
  every open with \<^verbatim>\<open>O_CREAT\<close> and \<^verbatim>\<open>O_EXCL\<close> that is refused with \<^verbatim>\<open>E_EXISTS\<close> keeps exactly one reference for good. Inodes of
  a file system have no operations here, so a call that reaches one does not return.\<close>

theorem file_calls_accounted:
  assumes "accounted g s" "cur_pinned g" "run_calls (device_world cls q w) cs s = Some (rs, s')"
  shows "\<exists>ds. length ds = length (filter refused_creation (zip cs rs)) \<and> accounted (fold take_ref ds g) s'"
  using assms
proof (induction cs arbitrary: g s rs)
  case (Cons c cs)
  obtain r s1 rs1 where run: "do_call (device_world cls q w) c s = Some (r, s1)" "run_calls (device_world cls q w) cs s1 = Some (rs1, s')"
      "rs = r # rs1"
    using Cons.prems(3) by (auto simp: bind_eq_Some_conv)
  obtain ds where ds: "length ds = of_bool (refused_creation (c, r))" "accounted (fold take_ref ds g) s1"
    using do_call_accounts [OF Cons.prems(1,2) run(1)] by blast
  have "cur_pinned (fold take_ref es h) = cur_pinned h" for es h by (induction es arbitrary: h) auto
  then obtain es where "length es = length (filter refused_creation (zip cs rs1))" "accounted (fold take_ref es (fold take_ref ds g)) s'"
    using Cons.IH [OF ds(2) _ run(2)] Cons.prems(2) by auto
  then show ?case using ds(1) run(3) by (intro exI [of _ "ds @ es"]) simp
qed simp

lemma dev_vfs_close:
  assumes dev: "in_device (inodes s n)" "in_ops (inodes s n) = Dev_node_ops"
    and c: "0 < open_count (inodes s n)" "open_count (inodes s n) < ref_count (inodes s n)" "ref_count (inodes s n) < MAX_INODE_COUNT"
  shows "vfs_close (device_world cls q w) n s =
    Some (0, set_node n (\<lambda>x. x\<lparr>ref_count := ref_count x - 1\<rparr>) (set_node n (\<lambda>x. x\<lparr>open_count := open_count x - 1\<rparr>) s))"
proof -
  have "inode_open_dec (device_world cls q w) n s =
      Some (open_count (inodes s n) - 1, set_node n (\<lambda>x. x\<lparr>open_count := open_count x - 1\<rparr>) s)"
    using dev c by (simp add: inode_open_dec_def Let_def vop_op_def device_world_def dev_node_ops_def inode_check_def
        dev_close_def dev_info_def)
  then show ?thesis using c by (simp add: vfs_close_def inode_ref_dec_def Let_def)
qed

text \<open>C22: Closing a descriptor of a device always returns. If no call is using the entry, it becomes free and the open count and the
  reference count of the inode go down by one; if a call is still reading or writing through it, the
  entry is only marked closed and the inode stays as it is, until that call leaves it.\<close>

theorem close_descriptor:
  assumes "accounted g s" "cur_pinned g" "cur_files s = Some t" "fd2file fd s = Some (0, Some i)" "fnode (item s t i) = Some n"
    "in_device (inodes s n)" "in_ops (inodes s n) = Dev_node_ops" "0 < dev_users s n" "ref_count (inodes s n) < MAX_INODE_COUNT"
  shows "\<exists>s'. file_close (device_world cls q w) fd s = Some (0, s') \<and>
    (if acq g t i = 0
     then fstatus (item s' t i) = FD_NONE \<and> open_count (inodes s' n) = open_count (inodes s n) - 1 \<and>
          ref_count (inodes s' n) = ref_count (inodes s n) - 1
     else fstatus (item s' t i) = FD_CLOSED \<and> inodes s' = inodes s)"
proof -
  have ti: "t \<in> files_live s" "i < FILES_STRUCT_NENTRY" and o: "fstatus (item s t i) = FD_OPENED"
    using fd2file_some [OF assms(1,2,4)] assms(3) by (metis option.inject)+
  have e: "res g t i = None" "fopen_count (item s t i) = 1 + int (acq g t i)"
    using entry_ok_status(2) [OF accounted_entryD [OF assms(1) ti] o] by auto
  let ?s = "set_item t i (\<lambda>f. f\<lparr>fstatus := FD_CLOSED, fopen_count := fopen_count f - 1\<rparr>) s"
  have sl: "slot_users g s n > 0"
  proof -
    have "(t, i) \<in> {x \<in> slots s. (\<lambda>(t, i). slot_of (res g t i) (item s t i)) x = Some n}"
      using ti e(1) o assms(5) by (simp add: slots_def slot_of_def)
    moreover have "finite (slots s)" using assms(1) by (simp add: accounted_def slots_def)
    ultimately show ?thesis unfolding slot_users_def users_def by (subst card_gt_0_iff) auto
  qed
  have c: "0 < open_count (inodes s n)" "open_count (inodes s n) < ref_count (inodes s n)"
  proof -
    have "open_count (inodes s n) = int (slot_users g s n + xopen g n)"
      "ref_count (inodes s n) = int (slot_users g s n + pwd_users g s n + of_bool (bootfs_node s = Some n) + dev_users s n + xref g n)"
      using assms(1) unfolding accounted_def by blast+
    then show "0 < open_count (inodes s n)" "open_count (inodes s n) < ref_count (inodes s n)"
      using sl assms(8) accounted_sane [OF assms(1), of n] by linarith+
  qed
  have v: "vfs_close (device_world cls q w) n ?s =
      Some (0, set_node n (\<lambda>x. x\<lparr>ref_count := ref_count x - 1\<rparr>) (set_node n (\<lambda>x. x\<lparr>open_count := open_count x - 1\<rparr>) ?s))"
    by (rule dev_vfs_close) (use assms(6,7,9) c in simp_all)
  show ?thesis
  proof (cases "acq g t i = 0")
    case True
    then show ?thesis using assms(3,4,5) o e v
      by (simp add: file_close_def fd_array_close_def fd_array_free_def item_set_item)
  next
    case False
    then show ?thesis using assms(3,4) o e by (simp add: file_close_def fd_array_close_def item_set_item)
  qed
qed


text \<open>C23: The life of a descriptor table. A new table is empty. Copying a table into a new one, as \<^verbatim>\<open>do_fork\<close> does, always returns: every open
  descriptor appears under the same number with the same file, position and mode and one use, nothing else changes, and each copy is a
  reference and an open of its inode. Destroying a table that no call relies on gives back all its descriptors and its
  working directory, and the accounts are true without it.\<close>

theorem table_lifecycle:
  assumes inv: "accounted g s"
  shows "(km (files_live s) = Some t \<and> t \<notin> files_live s \<longrightarrow>
      (\<exists>s'. files_create km s = (Some t, s') \<and> accounted g s' \<and> t \<in> files_live s' \<and>
         (\<forall>i<FILES_STRUCT_NENTRY. fstatus (item s' t i) = FD_NONE))) \<and>
    (t \<in> files_live s \<and> from \<in> files_live s \<and> t \<noteq> from \<and> dying g t = None \<and> files_count (files s t) = 0 \<and>
       pwd (files s t) = None \<and> (\<forall>i<FILES_STRUCT_NENTRY. fstatus (item s t i) = FD_NONE) \<longrightarrow>
      (\<exists>s'. dup_files t from s = Some (0, s') \<and> accounted g s' \<and>
        (\<forall>u j. item s' u j = (if u = t \<and> j < FILES_STRUCT_NENTRY \<and> fstatus (item s from j) = FD_OPENED
           then copied (item s t j) (item s from j) else item s u j)))) \<and>
    (t \<in> files_live s \<and> dying g t = None \<and> t \<notin> pinned g \<longrightarrow>
      (\<forall>s'. files_destroy (device_world cls q w) t s = Some s' \<longrightarrow> accounted g s' \<and> t \<notin> files_live s'))"
  using files_create_accounted [OF inv, of km t] dup_files_copies [OF inv, of t "from"] devices.files_destroy_gives [OF inv, of t cls q w]
  by blast

text \<open>Opening an existing device with both \<^verbatim>\<open>O_CREAT\<close> and \<^verbatim>\<open>O_EXCL\<close> fails with \<^verbatim>\<open>E_EXISTS\<close>, as it should, but keeps the
  reference the lookup took: every such call raises the reference count of the inode by one for good, and nothing else changes.\<close>

theorem excl_open_leaks:
  assumes "accounted g s" "cur_pinned g" "cur_files s = Some t" "free_slot s t 0 FILES_STRUCT_NENTRY = Some i"
    "vfs_get_root (device_world cls q w) name s' = Some (0, Some n, inode_ref_inc n s')"
    "s' = set_item t i (\<lambda>f. f\<lparr>fstatus := FD_INIT, fnode := None\<rparr>) s"
    "name \<noteq> []" "CHR '':'' \<notin> set name" "CHR ''/'' \<notin> set name"
  shows "\<exists>s''. file_open (device_world cls q w) (name @ '':'') (O_RDWR OR O_CREAT OR O_EXCL) s = Some (- E_EXISTS, s'') \<and>
    ref_count (inodes s'' n) = ref_count (inodes s n) + 1 \<and> open_count (inodes s'' n) = open_count (inodes s n) \<and>
    fstatus (item s'' t i) = FD_NONE \<and> accounted (take_ref n g) s''"
proof -
  let ?W = "device_world cls q w" and ?fl = "O_RDWR OR O_CREAT OR O_EXCL :: u32"
  have fm: "first_mark (xs @ '':'') = Some (length xs, True)" if "CHR '':'' \<notin> set xs" "CHR ''/'' \<notin> set xs" for xs
    using that by (induction xs) auto
  obtain m where m: "length name = Suc m" using assms(7) by (cases name) auto
  have fl: "?fl AND O_ACCMODE = O_RDWR" "?fl AND O_TRUNC = 0" "?fl AND O_EXCL \<noteq> 0" "?fl AND O_CREAT \<noteq> 0"
    "O_RDWR \<noteq> O_RDONLY" "O_RDWR \<noteq> O_WRONLY"
    by (simp_all add: o_defs)
  have al: "fd_array_alloc NO_FD s = Some (0, Some i, s')"
    using alloc_total [OF assms(1-3), of NO_FD] assms(3,4,6) by (auto simp: fd_array_alloc_def split: if_splits)
  have gd: "get_device ?W (name @ '':'') s' = Some (0, [], Some n, inode_ref_inc n s')"
    using assms(5,8,9) m by (simp add: get_device_def fm skip_slashes_def)
  then have vo: "vfs_open ?W (name @ '':'') ?fl s' = Some (- E_EXISTS, None, inode_ref_inc n s')"
    using fl by (simp add: vfs_open_def find_node_def vfs_lookup_def errno)
  obtain s'' where s'': "fd_array_free ?W t i (inode_ref_inc n s') = Some s''"
    "s'' = set_item t i (\<lambda>f. f\<lparr>fstatus := FD_NONE\<rparr>) (inode_ref_inc n s')"
  proof -
    have "fopen_count (item s' t i) = 0"
      using al assms(3,4,6) by (auto simp: fd_array_alloc_def item_set_item split: if_splits)
    then show thesis using that assms(6) by (simp add: fd_array_free_def inode_ref_inc_def item_set_item)
  qed
  have run: "file_open ?W (name @ '':'') ?fl s = Some (- E_EXISTS, s'')"
    using fl assms(3) al vo s''(1) by (simp add: file_open_def Let_def errno)
  have r: "res g t i = None" "accounted (reserve t i FD_INIT g) s'"
    using alloc_reserves [OF assms(1-3) al] by auto
  have "accounted (take_ref n (reserve t i FD_INIT g)) (inode_ref_inc n s')" using ref_inc_accounted [OF r(2)] .
  moreover have "take_ref n (reserve t i FD_INIT g) = reserve t i FD_INIT (take_ref n g)" by (simp add: holding_defs)
  ultimately have "accounted (take_ref n g) s''"
    unfolding s''(2) using r(1) by (intro release_reserved [where st = FD_INIT]) auto
  then show ?thesis using run s''(2) assms(6) by (auto simp: inode_ref_inc_def item_set_item)
qed


section \<open>A kernel with a keyboard\<close>

definition demo_devs :: devs where
  "demo_devs = \<lparr>
     inodes = (\<lambda>n. \<lparr>ref_count = (if n = 0 then 1 else 0), open_count = 0, in_fs = None, in_device = (n = 0), in_ops = Dev_node_ops\<rparr>),
     node_live = {0}, bootfs_node = None,
     vdevs = (\<lambda>_. \<lparr>devname = ''stdin'', devnode = Some 0, dev_fs = None, mountable = False\<rparr>), vdev_live = {0},
     vdev_links = \<lparr>lprev = id(Head () := Elem 0, Elem 0 := Head ()), lnext = id(Head () := Elem 0, Elem 0 := Head ())\<rparr>,
     files = (\<lambda>_. \<lparr>pwd = None, fd_array = (\<lambda>i. \<lparr>fstatus = FD_NONE, readable = False, writable = False, ffd = i, fpos = 0,
        fnode = None, fopen_count = 0\<rparr>), files_count = 1, files_nlinks = 1\<rparr>),
     files_live = {5}, cur_files = Some 5, dev_of = (\<lambda>_. Dev_stdin),
     disk = \<lparr>d0_ide = \<lparr>ide_valid = False, ide_size = 0, ide_img = (\<lambda>_. 0)\<rparr>, d0_buffer = [], d_blocks = 0, d_blocksize = 4096\<rparr>,
     console = [], keyboard = demo_tty\<rparr>"

definition idle :: holdings where
  "idle = \<lparr>gcur = Some 5, acq = (\<lambda>_ _. 0), res = (\<lambda>_ _. None), xref = (\<lambda>_. 0), xopen = (\<lambda>_. 0), pinned = {5}, dying = (\<lambda>_. None)\<rparr>"

lemma demo_accounted: "accounted idle demo_devs" "cur_pinned idle"
proof -
  have "slot_users idle demo_devs n = 0" "pwd_users idle demo_devs n = 0" for n
    by (simp_all add: slot_users_def pwd_users_def users_def slot_of_def demo_devs_def idle_def case_prod_unfold)
  moreover have "{d. d = (0::nat) \<and> n = 0} = (if n = 0 then {0} else {})" for n :: nat by auto
  then have "dev_users demo_devs n = (if n = 0 then 1 else 0)" for n
    by (simp add: dev_users_def users_def demo_devs_def)
  ultimately show "accounted idle demo_devs"
    unfolding accounted_def by (simp add: idle_def demo_devs_def entry_ok_def)
qed (simp add: cur_pinned_def idle_def)

lemma NENTRY: "FILES_STRUCT_NENTRY = 72"
  by (simp add: FILES_STRUCT_NENTRY_def FILES_STRUCT_BUFSIZE_def)

lemma demo_root:
  assumes "vdev_links s = vdev_links demo_devs" "vdevs s = vdevs demo_devs"
  shows "vfs_get_root W ''stdin'' s = Some (0, Some 0, inode_ref_inc 0 s)"
  using assms by (simp add: vfs_get_root_def list_empty_def list_next_def vdev_find.simps demo_devs_def)

definition demo_open :: devs where
  "demo_open = set_item 5 0 (\<lambda>f. f\<lparr>fstatus := FD_OPENED, fopen_count := fopen_count f + 1\<rparr>)
     (set_item 5 0 (\<lambda>f. f\<lparr>fnode := Some 0, readable := True, writable := False\<rparr>)
     (set_item 5 0 (\<lambda>f. f\<lparr>fpos := 0\<rparr>)
     (inode_open_inc 0 (inode_ref_inc 0 (set_item 5 0 (\<lambda>f. f\<lparr>fstatus := FD_INIT, fnode := None\<rparr>) demo_devs)))))"

lemma free_slot_first: "fstatus (item s t 0) = FD_NONE \<Longrightarrow> free_slot s t 0 FILES_STRUCT_NENTRY = Some 0"
  unfolding NENTRY by (simp add: numeral_eq_Suc)

lemma stdin_device_name: "get_device W ''stdin:'' s = do { (ret, node, s) \<leftarrow> vfs_get_root W ''stdin'' s; Some (ret, [], node, s) }"
  by (simp add: get_device_def skip_slashes_def)

lemma demo_opens: "file_open (device_world default_sched_class 0 7) ''stdin:'' O_RDONLY demo_devs = Some (0, demo_open)"
proof -
  let ?s1 = "set_item 5 0 (\<lambda>f. f\<lparr>fstatus := FD_INIT, fnode := None\<rparr>) demo_devs"
  have cur: "cur_files demo_devs = Some 5" "ffd (item demo_devs 5 0) = 0" by (simp_all add: demo_devs_def)
  have counts_item: "item (inode_open_inc n s) u j = item s u j" "item (inode_ref_inc n s) u j = item s u j" for n u j and s :: devs
    by (simp_all add: inode_open_inc_def inode_ref_inc_def)
  have al: "fd_array_alloc NO_FD demo_devs = Some (0, Some 0, ?s1)"
    using free_slot_first [of demo_devs 5] by (simp add: fd_array_alloc_def demo_devs_def)
  have same: "vdev_links ?s1 = vdev_links demo_devs" "vdevs ?s1 = vdevs demo_devs"
    by (simp_all add: set_item_def set_files_def)
  have vo: "vfs_open (device_world default_sched_class 0 7) ''stdin:'' 0 ?s1 = Some (0, Some 0, inode_open_inc 0 (inode_ref_inc 0 ?s1))"
    by (simp add: vfs_open_def find_node_def vfs_lookup_def stdin_device_name demo_root [OF same] o_defs open_node_def vop_op_def
        device_world_def dev_node_ops_def inode_check_def inode_ref_inc_def MAX_INODE_COUNT_def dev_open_def dev_info_def
        stdin_open_def) (simp add: demo_devs_def dev_open_def dev_info_def stdin_open_def o_defs set_item_def set_files_def set_node_def)
  show ?thesis
    using al vo cur
    by (simp add: file_open_def o_defs install_file_def fd_array_open_def demo_open_def item_set_item counts_item)
qed

lemma demo_open_accounted: "accounted idle demo_open"
  using devices.file_open_gives [OF demo_accounted demo_opens] by (simp add: leaks_def o_defs)

lemma demo_closes: "\<exists>s'. file_close (device_world default_sched_class 0 7) 0 demo_open = Some (0, s')"
  by (simp add: file_close_def fd2file_def testfd_def NENTRY demo_open_def inode_open_inc_def inode_ref_inc_def item_set_item fd_array_close_def fd_array_free_def dev_vfs_close
      MAX_INODE_COUNT_def)
    (simp add: demo_devs_def fd_array_close_def fd_array_free_def item_set_item dev_vfs_close MAX_INODE_COUNT_def)

lemma demo_open_facts:
  "cur_files demo_open = Some 5" "fd2file 0 demo_open = Some (0, Some 0)" "fnode (item demo_open 5 0) = Some 0"
  "in_device (inodes demo_open 0)" "in_ops (inodes demo_open 0) = Dev_node_ops" "0 < dev_users demo_open 0"
  "ref_count (inodes demo_open 0) < MAX_INODE_COUNT"
proof -
  have "dev_users demo_open 0 = dev_users demo_devs 0" by (simp add: demo_open_def inode_open_inc_def inode_ref_inc_def)
  then show "0 < dev_users demo_open 0" by (simp add: dev_users_def users_def demo_devs_def)
qed (simp_all add: demo_open_def inode_open_inc_def inode_ref_inc_def fd2file_def testfd_def NENTRY item_set_item MAX_INODE_COUNT_def, simp_all add: demo_devs_def item_set_item)

theorem close_descriptor_witness:
  "\<exists>s'. file_close (device_world default_sched_class 0 7) 0 demo_open = Some (0, s') \<and> fstatus (item s' 5 0) = FD_NONE \<and>
     ref_count (inodes s' 0) = 1"
  using close_descriptor [OF demo_open_accounted demo_accounted(2) demo_open_facts, of default_sched_class 0 7]
  by (auto simp: idle_def) (simp add: demo_open_def inode_open_inc_def inode_ref_inc_def demo_devs_def)

lemma fd_init_loop_count: "files_count (files (fd_init_loop t fd k s) u) = files_count (files s u)"
  by (induction t fd k s rule: fd_init_loop.induct) (simp_all add: set_item_def set_files_def)

lemma destroy_empty_loop:
  "\<forall>j. i \<le> j \<and> j < i + k \<longrightarrow> fstatus (item s t j) = FD_NONE \<Longrightarrow> destroy_files_loop W t i k s = Some s"
  by (induction k arbitrary: i) auto

theorem table_lifecycle_witness:
  "\<exists>s1. files_create (\<lambda>_. Some 6) demo_open = (Some 6, s1) \<and>
     (\<exists>s2. dup_files 6 5 s1 = Some (0, s2) \<and> fstatus (item s2 6 0) = FD_OPENED \<and> fnode (item s2 6 0) = Some 0 \<and> accounted idle s2) \<and>
     (\<exists>s2. files_destroy (device_world default_sched_class 0 7) 6 s1 = Some s2 \<and> accounted idle s2 \<and> 6 \<notin> files_live s2)"
proof -
  have l: "files_live demo_open = {5}" by (simp add: demo_open_def inode_open_inc_def inode_ref_inc_def demo_devs_def)
  obtain s1 where s1: "files_create (\<lambda>_. Some 6) demo_open = (Some 6, s1)" "accounted idle s1" "6 \<in> files_live s1"
    "\<forall>i<FILES_STRUCT_NENTRY. fstatus (item s1 6 i) = FD_NONE"
    using table_lifecycle [OF demo_open_accounted, of "\<lambda>_. Some 6" 6] l by auto
  define s0 where "s0 = set_files 6 (\<lambda>x. x\<lparr>pwd := None, files_count := 0, files_nlinks := 1\<rparr>) (demo_open\<lparr>files_live := {6, 5}\<rparr>)"
  have e: "s1 = fd_init_loop 6 0 FILES_STRUCT_NENTRY s0" using s1(1) l by (simp add: files_create_def fd_array_init_def s0_def)
  have f: "files_count (files s1 6) = 0" "pwd (files s1 6) = None" "5 \<in> files_live s1"
    by (simp_all add: e fd_init_loop_count) (simp_all add: s0_def set_files_def)
  have i: "item s1 5 0 = item demo_open 5 0" by (simp add: e fd_init_loop_item) (simp add: s0_def set_files_def)
  have o: "fstatus (item s1 5 0) = FD_OPENED" "fnode (item s1 5 0) = Some 0"
    unfolding i by (simp_all add: demo_open_def item_set_item)
  have d: "dying idle 6 = None" "6 \<notin> pinned idle" by (simp_all add: idle_def)
  obtain s2 where s2: "dup_files 6 5 s1 = Some (0, s2)" "accounted idle s2"
    "\<forall>u j. item s2 u j = (if u = 6 \<and> j < FILES_STRUCT_NENTRY \<and> fstatus (item s1 5 j) = FD_OPENED
       then copied (item s1 6 j) (item s1 5 j) else item s1 u j)"
    using table_lifecycle [OF s1(2), of "\<lambda>_. None" 6 5 default_sched_class 0 7, THEN conjunct2, THEN conjunct1] s1(3,4) f d by auto
  have "item s2 6 0 = copied (item s1 6 0) (item s1 5 0)" using s2(3) o(1) by (simp add: NENTRY)
  then have "\<exists>s2. dup_files 6 5 s1 = Some (0, s2) \<and> fstatus (item s2 6 0) = FD_OPENED \<and> fnode (item s2 6 0) = Some 0 \<and> accounted idle s2"
    using s2 o(2) by (auto simp: copied_def)
  moreover have "\<exists>s2. files_destroy (device_world default_sched_class 0 7) 6 s1 = Some s2"
    using f s1(4) by (simp add: files_destroy_def destroy_empty_loop drop_ref_def)
  ultimately show ?thesis
    using table_lifecycle [OF s1(2), of "\<lambda>_. None" 6 5 default_sched_class 0 7] s1(1,3) d by blast
qed

theorem excl_open_leaks_witness:
  "\<exists>s''. file_open (device_world default_sched_class 0 7) ''stdin:'' (O_RDWR OR O_CREAT OR O_EXCL) demo_devs = Some (- E_EXISTS, s'') \<and>
     ref_count (inodes s'' 0) = 2"
proof -
  let ?s1 = "set_item 5 0 (\<lambda>f. f\<lparr>fstatus := FD_INIT, fnode := None\<rparr>) demo_devs"
  have c: "cur_files demo_devs = Some 5" "free_slot demo_devs 5 0 FILES_STRUCT_NENTRY = Some 0"
    using free_slot_first [of demo_devs 5] by (simp_all add: demo_devs_def)
  have v: "vfs_get_root (device_world default_sched_class 0 7) ''stdin'' ?s1 = Some (0, Some 0, inode_ref_inc 0 ?s1)"
    by (rule demo_root) (simp_all add: set_item_def set_files_def)
  from excl_open_leaks [OF demo_accounted c v refl] show ?thesis by (auto simp: demo_devs_def)
qed

theorem file_calls_accounted_witness:
  "(\<exists>s'. run_calls (device_world default_sched_class 0 7) [Open ''stdin:'' O_RDONLY, Close 0] demo_devs = Some ([0, 0], s') \<and>
      accounted idle s') \<and>
   (\<exists>s' d. run_calls (device_world default_sched_class 0 7) [Open ''stdin:'' (O_RDWR OR O_CREAT OR O_EXCL)] demo_devs =
      Some ([- E_EXISTS], s') \<and> accounted (take_ref d idle) s')"
proof
  obtain s' where "file_close (device_world default_sched_class 0 7) 0 demo_open = Some (0, s')" using demo_closes by blast
  then have run: "run_calls (device_world default_sched_class 0 7) [Open ''stdin:'' O_RDONLY, Close 0] demo_devs = Some ([0, 0], s')"
    by (simp add: demo_opens)
  from file_calls_accounted [OF demo_accounted run] run
  show "\<exists>s'. run_calls (device_world default_sched_class 0 7) [Open ''stdin:'' O_RDONLY, Close 0] demo_devs = Some ([0, 0], s') \<and>
      accounted idle s'" by (auto simp: o_defs)
next
  obtain s' where "file_open (device_world default_sched_class 0 7) ''stdin:'' (O_RDWR OR O_CREAT OR O_EXCL) demo_devs = Some (- E_EXISTS, s')"
    using excl_open_leaks_witness by blast
  then have run: "run_calls (device_world default_sched_class 0 7) [Open ''stdin:'' (O_RDWR OR O_CREAT OR O_EXCL)] demo_devs =
      Some ([- E_EXISTS], s')" by simp
  have "\<exists>d. accounted (take_ref d idle) s'"
    using file_calls_accounted [OF demo_accounted run] by (auto simp: o_defs length_Suc_conv)
  with run show "\<exists>s' d. run_calls (device_world default_sched_class 0 7) [Open ''stdin:'' (O_RDWR OR O_CREAT OR O_EXCL)] demo_devs =
      Some ([- E_EXISTS], s') \<and> accounted (take_ref d idle) s'" by blast
qed

end
