(* ===== verification/Proc_Table.thy ===== *)
theory Proc_Table
  imports Kernel_State
begin

text \<open>
  The tables of processes, from \<^verbatim>\<open>kern/process/proc.c\<close> and \<^verbatim>\<open>libs/hash.c\<close>: process identifiers, the
  hash lists that find a process by its identifier, and the family links (\<^verbatim>\<open>parent\<close>, \<^verbatim>\<open>cptr\<close>,
  \<^verbatim>\<open>optr\<close>, \<^verbatim>\<open>yptr\<close>) with the global list of processes.

  The static variables of \<^verbatim>\<open>get_pid\<close> are the fields \<open>last_pid\<close> and \<open>next_safe\<close> of the kernel state. The search for
  a free identifier jumps back to the start of the list; it is one loop whose restart is a call from the head.
\<close>

definition MAX_PROCESS :: int where "MAX_PROCESS = 4096"
definition MAX_PID :: int where "MAX_PID = MAX_PROCESS * 2"

section \<open>Identifiers\<close>

partial_function (option) pid_scan :: "'a kernel_scheme \<Rightarrow> unit hook \<Rightarrow> int \<Rightarrow> int \<Rightarrow> (int \<times> int) option" where
  "pid_scan s le lp ns =
     (let le = list_next (proc_links s) le in
      if le = Head () then Some (lp, ns)
      else do {
        p \<leftarrow> owner le;
        if pid (procs s p) = lp then
          let lp = lp + 1 in
          if lp \<ge> ns then pid_scan s (Head ()) (if lp \<ge> MAX_PID then 1 else lp) MAX_PID
          else pid_scan s le lp ns
        else if pid (procs s p) > lp \<and> ns > pid (procs s p) then pid_scan s le lp (pid (procs s p))
        else pid_scan s le lp ns
      })"

definition get_pid :: "'a kernel_scheme \<Rightarrow> (int \<times> 'a kernel_scheme) option" where
  "get_pid s = do {
     let lp = last_pid s + 1;
     (lp, ns) \<leftarrow>
       (if lp \<ge> MAX_PID then pid_scan s (Head ()) 1 MAX_PID
        else if lp \<ge> next_safe s then pid_scan s (Head ()) lp MAX_PID
        else Some (lp, next_safe s));
     Some (lp, s\<lparr>last_pid := lp, next_safe := ns\<rparr>)
   }"

section \<open>Hash lists\<close>

definition hash32 :: "u32 \<Rightarrow> nat \<Rightarrow> u32" where
  "hash32 val bits = drop_bit (32 - bits) (val * 0x9e370001)"

definition HASH_SHIFT :: nat where "HASH_SHIFT = 10"
definition HASH_LIST_SIZE :: nat where "HASH_LIST_SIZE = push_bit HASH_SHIFT 1"

definition pid_hashfn :: "int \<Rightarrow> nat" where
  "pid_hashfn x = unat (hash32 (word_of_int x) HASH_SHIFT)"

definition hash_proc :: "nat \<Rightarrow> 'a kernel_scheme \<Rightarrow> 'a kernel_scheme" where
  "hash_proc p s = s\<lparr>hash_links := list_add (hash_links s) (Head (pid_hashfn (pid (procs s p)))) (Elem p)\<rparr>"

definition unhash_proc :: "nat \<Rightarrow> 'a kernel_scheme \<Rightarrow> 'a kernel_scheme" where
  "unhash_proc p s = s\<lparr>hash_links := list_del (hash_links s) (Elem p)\<rparr>"

partial_function (option) find_scan :: "'a kernel_scheme \<Rightarrow> nat hook \<Rightarrow> nat hook \<Rightarrow> int \<Rightarrow> nat option option" where
  "find_scan s list le i =
     (let le = list_next (hash_links s) le in
      if le = list then Some None
      else do {
        p \<leftarrow> owner le;
        if pid (procs s p) = i then Some (Some p) else find_scan s list le i
      })"

definition find_proc :: "int \<Rightarrow> 'a kernel_scheme \<Rightarrow> nat option option" where
  "find_proc i s =
     (if 0 < i \<and> i < MAX_PID then find_scan s (Head (pid_hashfn i)) (Head (pid_hashfn i)) i else Some None)"

section \<open>Family links\<close>

definition set_links :: "nat \<Rightarrow> 'a kernel_scheme \<Rightarrow> 'a kernel_scheme option" where
  "set_links p s = do {
     let s = s\<lparr>proc_links := list_add (proc_links s) (Head ()) (Elem p)\<rparr>;
     let s = set_proc p (\<lambda>x. x\<lparr>yptr := None\<rparr>) s;
     q \<leftarrow> parent (procs s p);
     let old = cptr (procs s q);
     let s = set_proc p (\<lambda>x. x\<lparr>optr := old\<rparr>) s;
     let s = (case old of None \<Rightarrow> s | Some o1 \<Rightarrow> set_proc o1 (\<lambda>x. x\<lparr>yptr := Some p\<rparr>) s);
     let s = set_proc q (\<lambda>x. x\<lparr>cptr := Some p\<rparr>) s;
     Some (s\<lparr>nr_process := nr_process s + 1\<rparr>)
   }"

definition remove_links :: "nat \<Rightarrow> 'a kernel_scheme \<Rightarrow> 'a kernel_scheme option" where
  "remove_links p s = do {
     let s = s\<lparr>proc_links := list_del (proc_links s) (Elem p)\<rparr>;
     let s = (case optr (procs s p) of None \<Rightarrow> s
              | Some o1 \<Rightarrow> set_proc o1 (\<lambda>x. x\<lparr>yptr := yptr (procs s p)\<rparr>) s);
     s \<leftarrow> (case yptr (procs s p) of
             Some y \<Rightarrow> Some (set_proc y (\<lambda>x. x\<lparr>optr := optr (procs s p)\<rparr>) s)
           | None \<Rightarrow> do { q \<leftarrow> parent (procs s p); Some (set_proc q (\<lambda>x. x\<lparr>cptr := optr (procs s p)\<rparr>) s) });
     Some (s\<lparr>nr_process := nr_process s - 1\<rparr>)
   }"

text \<open>The step of \<^verbatim>\<open>do_exit\<close> that gives the first child of a process to another one, and the loop over all children;
  \<open>wake\<close> is what is done for a child that is a zombie already.\<close>

definition adopt :: "nat \<Rightarrow> nat \<Rightarrow> nat \<Rightarrow> 'a kernel_scheme \<Rightarrow> 'a kernel_scheme" where
  "adopt c i p s =
     (let s = set_proc c (\<lambda>x. x\<lparr>cptr := optr (procs s p)\<rparr>) s;
          s = set_proc p (\<lambda>x. x\<lparr>yptr := None\<rparr>) s;
          old = cptr (procs s i);
          s = set_proc p (\<lambda>x. x\<lparr>optr := old\<rparr>) s;
          s = (case old of None \<Rightarrow> s | Some o1 \<Rightarrow> set_proc o1 (\<lambda>x. x\<lparr>yptr := Some p\<rparr>) s);
          s = set_proc p (\<lambda>x. x\<lparr>parent := Some i\<rparr>) s
      in set_proc i (\<lambda>x. x\<lparr>cptr := Some p\<rparr>) s)"

partial_function (option) reparent_loop ::
  "('a kernel_scheme \<Rightarrow> 'a kernel_scheme option) \<Rightarrow> nat \<Rightarrow> nat \<Rightarrow> 'a kernel_scheme \<Rightarrow> 'a kernel_scheme option" where
  "reparent_loop wake c i s =
     (case cptr (procs s c) of
        None \<Rightarrow> Some s
      | Some p \<Rightarrow> do {
          let s = adopt c i p s;
          s \<leftarrow> (if state (procs s p) = PROC_ZOMBIE \<and> wait_state (procs s i) = WT_CHILD then wake s else Some s);
          reparent_loop wake c i s
        })"

section \<open>A free identifier is found\<close>

text \<open>The list of all processes, and what the two static variables promise: the identifiers strictly between them are
  free.\<close>

definition pids :: "'a kernel_scheme \<Rightarrow> nat list \<Rightarrow> int set" where
  "pids s ps = (\<lambda>p. pid (procs s p)) ` set ps"

definition pid_window :: "'a kernel_scheme \<Rightarrow> nat list \<Rightarrow> bool" where
  "pid_window s ps \<longleftrightarrow> 0 \<le> last_pid s \<and> next_safe s \<le> MAX_PID \<and>
     (\<forall>i\<in>pids s ps. i \<le> last_pid s \<or> next_safe s \<le> i)"

text \<open>The steps from one identifier to another in the cycle of all of them.\<close>

definition pid_dist :: "int \<Rightarrow> int \<Rightarrow> nat" where
  "pid_dist f i = (if i \<le> f then nat (f - i) else nat (f + MAX_PID - i))"

lemma pid_dist_step:
  assumes "1 \<le> i" "i < MAX_PID" "1 \<le> f" "f < MAX_PID" "i \<noteq> f"
  shows "pid_dist f (if i + 1 \<ge> MAX_PID then 1 else i + 1) < pid_dist f i"
  using assms by (auto simp: pid_dist_def)

lemma pid_scan_ok:
  assumes "ring (proc_links s) (Head ()) (map Elem (pre @ post))" and f: "1 \<le> f" "f < MAX_PID" "f \<notin> pids s (pre @ post)"
    and "1 \<le> lp" "lp < ns" "ns \<le> MAX_PID" "\<forall>i\<in>pids s pre. i < lp \<or> ns \<le> i"
  shows "\<exists>lp' ns'. pid_scan s (last (Head () # map Elem pre)) lp ns = Some (lp', ns') \<and> 1 \<le> lp' \<and> lp' < ns' \<and> ns' \<le> MAX_PID \<and>
    (\<forall>i\<in>pids s (pre @ post). i < lp' \<or> ns' \<le> i)"
  using assms
proof (induction "(pid_dist f lp, length post)" arbitrary: pre post lp ns
    rule: wf_induct_rule [OF wf_lex_prod [OF wf_less_than wf_less_than]])
  case 1
  note IH = 1(1) and prems = 1(2-)
  show ?case
  proof (cases post)
    case Nil
    have "list_next (proc_links s) (last (Head () # map Elem pre)) = Head ()"
      using ring_succ [of "proc_links s" "Head ()" "map Elem pre" "[]"] prems(1) Nil by (simp add: list_next_def)
    then show ?thesis using prems Nil by (subst pid_scan.simps) (simp add: Let_def del: last.simps)
  next
    case (Cons p post')
    let ?i = "pid (procs s p)"
    have n: "list_next (proc_links s) (last (Head () # map Elem pre)) = Elem p"
      using ring_succ [of "proc_links s" "Head ()" "map Elem pre" "map Elem (p # post')"] prems(1) Cons
      by (simp add: list_next_def)
    have split: "pre @ post = (pre @ [p]) @ post'" by (simp add: Cons)
    have lst: "last (Head () # map Elem (pre @ [p])) = Elem p" by simp
    have all: "pids s (pre @ [p]) = insert ?i (pids s pre)" by (auto simp: pids_def)
    have lf: "?i = lp \<Longrightarrow> lp \<noteq> f" using prems(4) Cons by (auto simp: pids_def)
    have step: "\<exists>lp'' ns''. pid_scan s (Elem p) lp' ns' = Some (lp'', ns'') \<and> 1 \<le> lp'' \<and> lp'' < ns'' \<and> ns'' \<le> MAX_PID \<and>
        (\<forall>i\<in>pids s (pre @ post). i < lp'' \<or> ns'' \<le> i)"
      if "pid_dist f lp' \<le> pid_dist f lp" "1 \<le> lp'" "lp' < ns'" "ns' \<le> MAX_PID" "\<forall>i\<in>pids s (pre @ [p]). i < lp' \<or> ns' \<le> i"
      for lp' ns'
    proof -
      have m: "((pid_dist f lp', length post'), (pid_dist f lp, length post)) \<in> less_than <*lex*> less_than"
        using that(1) Cons by auto
      show ?thesis
        using IH [OF m, of "pre @ [p]" ns'] prems(1-4) that(2-5) unfolding split lst by blast
    qed
    show ?thesis
    proof (cases "?i = lp")
      case eq: True
      have dl: "pid_dist f (if lp + 1 \<ge> MAX_PID then 1 else lp + 1) < pid_dist f lp"
        using pid_dist_step [of lp f] prems lf eq by simp
      show ?thesis
      proof (cases "lp + 1 \<ge> ns")
        case True
        let ?l = "if lp + 1 \<ge> MAX_PID then 1 else lp + 1"
        have m: "((pid_dist f ?l, length (pre @ post)), (pid_dist f lp, length post)) \<in> less_than <*lex*> less_than"
          using dl by simp
        have lb: "1 \<le> ?l" "?l < MAX_PID" using prems by (auto simp: MAX_PID_def MAX_PROCESS_def)
        have "\<exists>lp'' ns''. pid_scan s (last (Head () # map Elem [])) ?l MAX_PID = Some (lp'', ns'') \<and> 1 \<le> lp'' \<and> lp'' < ns'' \<and>
            ns'' \<le> MAX_PID \<and> (\<forall>i\<in>pids s ([] @ (pre @ post)). i < lp'' \<or> ns'' \<le> i)"
          by (rule IH [OF m]) (use prems(1-4) lb in \<open>simp_all add: pids_def\<close>)
        then have "\<exists>lp'' ns''. pid_scan s (Head ()) ?l MAX_PID = Some (lp'', ns'') \<and> 1 \<le> lp'' \<and> lp'' < ns'' \<and>
            ns'' \<le> MAX_PID \<and> (\<forall>i\<in>pids s (pre @ post). i < lp'' \<or> ns'' \<le> i)" by simp
        then show ?thesis
          using True eq by (subst pid_scan.simps) (simp add: Let_def n del: last.simps split del: if_split)
      next
        case False
        have "\<forall>i\<in>pids s (pre @ [p]). i < lp + 1 \<or> ns \<le> i" unfolding all using prems(8) eq by auto
        then show ?thesis
          using step [of "lp + 1" ns] dl False eq prems(5-7)
          by (subst pid_scan.simps) (simp add: Let_def n del: last.simps)
      qed
    next
      case False
      show ?thesis
      proof (cases "?i > lp \<and> ns > ?i")
        case True
        then have "\<forall>i\<in>pids s (pre @ [p]). i < lp \<or> ?i \<le> i" unfolding all using prems(8) by auto
        then show ?thesis
          using step [of lp ?i] True False prems(5-7) by (subst pid_scan.simps) (simp add: Let_def n del: last.simps)
      next
        case b: False
        then have "\<forall>i\<in>pids s (pre @ [p]). i < lp \<or> ns \<le> i" unfolding all using prems(8) False by auto
        then show ?thesis
          using step [of lp ns] b False prems(5-7) by (subst pid_scan.simps) (auto simp: Let_def n simp del: last.simps)
      qed
    qed
  qed
qed

lemma get_pid_ok:
  assumes "ring (proc_links s) (Head ()) (map Elem ps)" "int (length ps) < MAX_PID - 1" "pid_window s ps"
  shows "\<exists>i ns. get_pid s = Some (i, s\<lparr>last_pid := i, next_safe := ns\<rparr>) \<and> 1 \<le> i \<and> i < ns \<and> ns \<le> MAX_PID \<and>
    (\<forall>j\<in>pids s ps. j < i \<or> ns \<le> j)"
proof -
  have "card (pids s ps) \<le> length ps" unfolding pids_def by (meson card_image_le card_length finite_set order.trans)
  moreover have "card {1..<MAX_PID} = nat (MAX_PID - 1)" by simp
  ultimately have "\<not> {1..<MAX_PID} \<subseteq> pids s ps"
    using assms(2) card_mono [of "pids s ps" "{1..<MAX_PID}"] by (auto simp: pids_def)
  then obtain f where f: "1 \<le> f" "f < MAX_PID" "f \<notin> pids s ps" by (meson atLeastLessThan_iff subsetI)
  have scan: "\<exists>lp' ns'. pid_scan s (Head ()) lp MAX_PID = Some (lp', ns') \<and> 1 \<le> lp' \<and> lp' < ns' \<and> ns' \<le> MAX_PID \<and>
      (\<forall>i\<in>pids s ps. i < lp' \<or> ns' \<le> i)" if "1 \<le> lp" "lp < MAX_PID" for lp
    using pid_scan_ok [of s "[]" ps f lp MAX_PID] assms(1) f that by (simp add: pids_def)
  let ?l = "last_pid s + 1"
  show ?thesis
  proof (cases "?l \<ge> MAX_PID \<or> ?l \<ge> next_safe s")
    case True
    define l where "l = (if ?l \<ge> MAX_PID then 1 else ?l)"
    have "1 \<le> l" "l < MAX_PID" using assms(3) by (auto simp: l_def pid_window_def MAX_PID_def MAX_PROCESS_def)
    then obtain lp ns where r: "pid_scan s (Head ()) l MAX_PID = Some (lp, ns)" "1 \<le> lp" "lp < ns" "ns \<le> MAX_PID"
      "\<forall>i\<in>pids s ps. i < lp \<or> ns \<le> i" using scan by blast
    have "get_pid s = Some (lp, s\<lparr>last_pid := lp, next_safe := ns\<rparr>)" 
      using True r(1) by (cases "?l \<ge> MAX_PID") (simp_all add: get_pid_def Let_def l_def)
    then show ?thesis using r(2-5) by blast
  next
    case False
    then have "get_pid s = Some (?l, s\<lparr>last_pid := ?l, next_safe := next_safe s\<rparr>)" by (simp add: get_pid_def Let_def)
    moreover have "\<forall>i\<in>pids s ps. i < ?l \<or> next_safe s \<le> i" using assms(3) by (auto simp: pid_window_def)
    ultimately show ?thesis using False assms(3) by (intro exI [of _ ?l] exI [of _ "next_safe s"]) (simp add: pid_window_def)
  qed
qed

text \<open>C34: \<open>get_pid\<close> always returns, although its search starts over again and again: with fewer than
  \<^verbatim>\<open>MAX_PID - 1\<close> processes it gives an identifier from 1 to \<^verbatim>\<open>MAX_PID - 1\<close> that no process has, and
  afterwards the identifiers between the two static variables are free again.\<close>

theorem get_pid_fresh:
  assumes "ring (proc_links s) (Head ()) (map Elem ps)" "int (length ps) < MAX_PID - 1" "pid_window s ps"
  shows "\<exists>i s'. get_pid s = Some (i, s') \<and> 1 \<le> i \<and> i < MAX_PID \<and> i \<notin> pids s ps \<and> last_pid s' = i \<and> pid_window s' ps \<and>
    procs s' = procs s \<and> proc_links s' = proc_links s"
proof -
  obtain i ns where r: "get_pid s = Some (i, s\<lparr>last_pid := i, next_safe := ns\<rparr>)" "1 \<le> i" "i < ns" "ns \<le> MAX_PID"
    "\<forall>j\<in>pids s ps. j < i \<or> ns \<le> j" using get_pid_ok [OF assms] by blast
  have "pid_window (s\<lparr>last_pid := i, next_safe := ns\<rparr>) ps" using r(2-5) by (auto simp: pid_window_def pids_def)
  then show ?thesis using r by auto
qed

definition demo_pids :: kernel where
  "demo_pids = blank_kernel\<lparr>
     procs := (\<lambda>_. blank_proc)(1 := blank_proc\<lparr>pid := 1\<rparr>, 2 := blank_proc\<lparr>pid := 2\<rparr>),
     proc_links := \<lparr>lprev = (\<lambda>l. l)(Head () := Elem 2, Elem 2 := Elem 1, Elem 1 := Head ()),
       lnext = (\<lambda>l. l)(Head () := Elem 1, Elem 1 := Elem 2, Elem 2 := Head ())\<rparr>,
     last_pid := 8191, next_safe := 8192\<rparr>"

theorem get_pid_fresh_witness:
  "ring (proc_links demo_pids) (Head ()) (map Elem [1, 2]) \<and> pid_window demo_pids [1, 2] \<and>
   (\<exists>i s'. get_pid demo_pids = Some (i, s') \<and> 1 \<le> i \<and> i < MAX_PID \<and> i \<notin> {1, 2})"
proof -
  have r: "ring (proc_links demo_pids) (Head ()) (map Elem [1, 2])" by (simp add: demo_pids_def ring_def)
  have w: "pid_window demo_pids [1, 2]" "pids demo_pids [1, 2] = {1, 2}"
    by (auto simp: pid_window_def pids_def demo_pids_def MAX_PID_def MAX_PROCESS_def)
  show ?thesis
    using get_pid_fresh [OF r _ w(1)] r w by (simp add: MAX_PID_def MAX_PROCESS_def) blast
qed

section \<open>Finding a process by its identifier\<close>

lemma pid_hashfn_bound: "pid_hashfn i < 1024"
proof -
  have "unat (drop_bit 22 (w :: u32)) < 1024" for w
  proof -
    have "unat w < 2 ^ 32" using unsigned_less [of w, where ?'a = nat] by simp
    then show ?thesis unfolding unat_drop_bit_eq by (simp add: drop_bit_eq_div less_mult_imp_div_less)
  qed
  then show ?thesis by (simp add: pid_hashfn_def hash32_def HASH_SHIFT_def)
qed

lemma pid_hashfn_less [simp]: "pid_hashfn i < HASH_LIST_SIZE"
  using pid_hashfn_bound [of i] by (simp add: HASH_LIST_SIZE_def HASH_SHIFT_def)

text \<open>Bucket \<open>b\<close> holds the list \<open>B b\<close>; the processes of \<open>T\<close> are each in the bucket of their identifier, and no two have the same.\<close>

definition hash_ok :: "'a kernel_scheme \<Rightarrow> (nat \<Rightarrow> nat list) \<Rightarrow> nat set \<Rightarrow> bool" where
  "hash_ok s B T \<longleftrightarrow>
     (\<forall>b<HASH_LIST_SIZE. ring (hash_links s) (Head b) (map Elem (B b)) \<and> set (B b) = {p \<in> T. pid_hashfn (pid (procs s p)) = b}) \<and>
     inj_on (\<lambda>p. pid (procs s p)) T"

lemma find_scan_ok:
  assumes "ring (hash_links s) (Head b) (map Elem (pre @ post))"
  shows "find_scan s (Head b) (last (Head b # map Elem pre)) i = Some (find (\<lambda>p. pid (procs s p) = i) post)"
  using assms
proof (induction post arbitrary: pre)
  case Nil
  then have "list_next (hash_links s) (last (Head b # map Elem pre)) = Head b"
    using ring_succ [of "hash_links s" "Head b" "map Elem pre" "[]"] by (simp add: list_next_def)
  then show ?case by (subst find_scan.simps) (simp add: Let_def del: last.simps)
next
  case (Cons p post)
  have n: "list_next (hash_links s) (last (Head b # map Elem pre)) = Elem p"
    using ring_succ [of "hash_links s" "Head b" "map Elem pre" "map Elem (p # post)"] Cons.prems by (simp add: list_next_def)
  have "find_scan s (Head b) (Elem p) i = Some (find (\<lambda>p. pid (procs s p) = i) post)"
    using Cons.IH [of "pre @ [p]"] Cons.prems by simp
  then show ?case by (subst find_scan.simps) (simp add: Let_def n del: last.simps)
qed

lemma find_proc_ok:
  assumes "hash_ok s B T"
  obtains r where "find_proc i s = Some r" "\<forall>p. r = Some p \<longleftrightarrow> p \<in> T \<and> pid (procs s p) = i \<and> 0 < i \<and> i < MAX_PID"
proof (cases "0 < i \<and> i < MAX_PID")
  case True
  let ?b = "pid_hashfn i"
  let ?r = "find (\<lambda>p. pid (procs s p) = i) (B ?b)"
  have "find_proc i s = Some ?r"
    using find_scan_ok [of s ?b "[]" "B ?b" i] assms True by (simp add: find_proc_def hash_ok_def)
  moreover have "?r = Some p \<longleftrightarrow> p \<in> T \<and> pid (procs s p) = i \<and> 0 < i \<and> i < MAX_PID" for p
  proof
    assume "?r = Some p"
    then have "p \<in> set (B ?b)" "pid (procs s p) = i" by (auto simp: find_Some_iff)
    then show "p \<in> T \<and> pid (procs s p) = i \<and> 0 < i \<and> i < MAX_PID" using assms True by (auto simp: hash_ok_def)
  next
    assume a: "p \<in> T \<and> pid (procs s p) = i \<and> 0 < i \<and> i < MAX_PID"
    then have "p \<in> set (B ?b)" using assms by (auto simp: hash_ok_def)
    then obtain q where q: "?r = Some q" using a by (cases ?r) (auto simp: find_None_iff)
    then have "q \<in> set (B ?b)" "pid (procs s q) = i" by (auto simp: find_Some_iff)
    then have "q = p" using a assms by (auto simp: hash_ok_def dest: inj_onD)
    then show "?r = Some p" using q by simp
  qed
  ultimately show ?thesis using that by blast
next
  case False
  then have "find_proc i s = Some None" by (auto simp: find_proc_def)
  then show ?thesis using that [of None] False by auto
qed

lemma hash_proc_ok:
  assumes ok: "hash_ok s B T" and p: "p \<notin> T" "pid (procs s p) \<notin> (\<lambda>q. pid (procs s q)) ` T"
  shows "hash_ok (hash_proc p s) (B(pid_hashfn (pid (procs s p)) := p # B (pid_hashfn (pid (procs s p))))) (insert p T)"
proof -
  let ?b = "pid_hashfn (pid (procs s p))"
  have nb: "Elem p \<notin> set (Head b # map Elem (B b))" if "b < HASH_LIST_SIZE" for b using ok p that by (auto simp: hash_ok_def)
  have r: "ring (hash_links s) (Head b) (map Elem (B b))" if "b < HASH_LIST_SIZE" for b using ok that by (simp add: hash_ok_def)
  have "ring (hash_links (hash_proc p s)) (Head b) (map Elem ((B(?b := p # B ?b)) b))" if b: "b < HASH_LIST_SIZE" for b
  proof (cases "b = ?b")
    case True
    then show ?thesis using ring_add_after_head [OF r nb, OF b b] by (simp add: hash_proc_def list_add_def)
  next
    case False
    have "set (Head ?b # map Elem (B ?b)) \<inter> set (Head b # map Elem (B b)) = {}"
      using False ok b pid_hashfn_less by (auto simp: hash_ok_def)
    then show ?thesis
      using ring_frame_add_after [OF r [OF b] r [OF pid_hashfn_less [of "pid (procs s p)"]], of "Head ?b" "Elem p"] nb [OF b] nb [OF pid_hashfn_less] False by (simp add: hash_proc_def list_add_def)
  qed
  moreover have "set ((B(?b := p # B ?b)) b) = {q \<in> insert p T. pid_hashfn (pid (procs s q)) = b}" if "b < HASH_LIST_SIZE" for b
    using ok that by (auto simp: hash_ok_def)
  ultimately show ?thesis using ok p by (auto simp: hash_ok_def hash_proc_def)
qed

lemma unhash_proc_ok:
  assumes ok: "hash_ok s B T" and p: "p \<in> T"
  shows "hash_ok (unhash_proc p s) (\<lambda>b. remove1 p (B b)) (T - {p})"
proof -
  let ?b = "pid_hashfn (pid (procs s p))"
  have r: "ring (hash_links s) (Head b) (map Elem (B b))" if "b < HASH_LIST_SIZE" for b using ok that by (simp add: hash_ok_def)
  have d: "distinct (B b)" if "b < HASH_LIST_SIZE" for b using ring_distinct [OF r [OF that]] by (simp add: distinct_map)
  have pb: "p \<in> set (B ?b)" using ok p by (auto simp: hash_ok_def)
  then obtain xs ys where xy: "B ?b = xs @ p # ys" "p \<notin> set xs" by (meson split_list_first)
  have "ring (hash_links (unhash_proc p s)) (Head b) (map Elem (remove1 p (B b)))" if b: "b < HASH_LIST_SIZE" for b
  proof (cases "b = ?b")
    case True
    have "ring (hash_links s) (Head ?b) (map Elem xs @ Elem p # map Elem ys)" using r [of ?b] xy(1) pid_hashfn_less by simp
    from ring_list_del [OF this] show ?thesis using True xy by (simp add: unhash_proc_def remove1_append)
  next
    case False
    have "set (Head ?b # map Elem (B ?b)) \<inter> set (Head b # map Elem (B b)) = {}"
      using False ok b pid_hashfn_less by (auto simp: hash_ok_def)
    moreover have "p \<notin> set (B b)" using ok b False by (auto simp: hash_ok_def)
    ultimately show ?thesis
      using ring_frame_del [OF r [OF b] r [OF pid_hashfn_less [of "pid (procs s p)"]], of "Elem p"] pb by (simp add: unhash_proc_def remove1_idem)
  qed
  then show ?thesis using ok d by (auto simp: hash_ok_def unhash_proc_def intro: inj_on_subset)
qed

text \<open>C35: The process table is a map from identifiers to processes. After \<open>hash_proc\<close> of a process with a new valid
  identifier \<open>find_proc\<close> finds it, and every other identifier gives what it gave before; after \<open>unhash_proc\<close>
  it is gone again and \<open>find_proc\<close> answers as at the start.\<close>

theorem process_table_map:
  assumes "hash_ok s B T" "p \<notin> T" "pid (procs s p) \<notin> (\<lambda>q. pid (procs s q)) ` T" "0 < pid (procs s p)" "pid (procs s p) < MAX_PID"
  shows "find_proc (pid (procs s p)) (hash_proc p s) = Some (Some p) \<and>
    (\<forall>i. i \<noteq> pid (procs s p) \<longrightarrow> find_proc i (hash_proc p s) = find_proc i s) \<and>
    (\<forall>i. find_proc i (unhash_proc p (hash_proc p s)) = find_proc i s)"
proof -
  have pr: "procs (hash_proc p s) = procs s" "procs (unhash_proc p s') = procs s'" for s' :: "'a kernel_scheme"
    by (simp_all add: hash_proc_def unhash_proc_def)
  note h1 = hash_proc_ok [OF assms(1-3)]
  note h2 = unhash_proc_ok [OF h1 insertI1]
  have T: "insert p T - {p} = T" using assms(2) by simp
  have eq: "find_proc i s1 = find_proc i s2"
    if h: "hash_ok s1 B1 T1" "hash_ok s2 B2 T2" "procs s1 = procs s2" "\<And>q. pid (procs s2 q) = i \<Longrightarrow> q \<in> T1 \<longleftrightarrow> q \<in> T2"
    for i B1 B2 T1 T2 and s1 s2 :: "'a kernel_scheme"
  proof -
    obtain r1 where r1: "find_proc i s1 = Some r1" "\<forall>q. r1 = Some q \<longleftrightarrow> q \<in> T1 \<and> pid (procs s1 q) = i \<and> 0 < i \<and> i < MAX_PID"
      using find_proc_ok [OF h(1), where i = i] by blast
    obtain r2 where r2: "find_proc i s2 = Some r2" "\<forall>q. r2 = Some q \<longleftrightarrow> q \<in> T2 \<and> pid (procs s2 q) = i \<and> 0 < i \<and> i < MAX_PID"
      using find_proc_ok [OF h(2), where i = i] by blast
    have "r1 = Some q \<longleftrightarrow> r2 = Some q" for q using r1(2) r2(2) h(3,4) by auto
    then have "r1 = r2" by (metis option.exhaust)
    then show ?thesis using r1(1) r2(1) by simp
  qed
  obtain r where r: "find_proc (pid (procs s p)) (hash_proc p s) = Some r"
    "\<forall>q. r = Some q \<longleftrightarrow> q \<in> insert p T \<and> pid (procs (hash_proc p s) q) = pid (procs s p) \<and> 0 < pid (procs s p) \<and> pid (procs s p) < MAX_PID"
    using find_proc_ok [OF h1, where i = "pid (procs s p)"] by blast
  have "r = Some p" using r(2) assms(4,5) by (simp add: pr)
  then have "find_proc (pid (procs s p)) (hash_proc p s) = Some (Some p)" using r(1) by simp
  moreover have "find_proc i (hash_proc p s) = find_proc i s" if "i \<noteq> pid (procs s p)" for i
    by (rule eq [OF h1 assms(1)]) (use that in \<open>auto simp: pr\<close>)
  moreover have "find_proc i (unhash_proc p (hash_proc p s)) = find_proc i s" for i
    by (rule eq [OF h2 assms(1)]) (use assms(2) in \<open>auto simp: pr\<close>)
  ultimately show ?thesis by blast
qed

theorem process_table_map_witness:
  "find_proc 7 (hash_proc 3 (blank_kernel\<lparr>procs := (\<lambda>_. blank_proc)(3 := blank_proc\<lparr>pid := 7\<rparr>)\<rparr>)) = Some (Some 3)"
proof -
  let ?s = "blank_kernel\<lparr>procs := (\<lambda>_. blank_proc)(3 := blank_proc\<lparr>pid := 7\<rparr>)\<rparr>"
  have "hash_ok ?s (\<lambda>_. []) {}" by (simp add: hash_ok_def blank_kernel_def)
  from process_table_map [OF this, of 3] show ?thesis by (simp add: MAX_PID_def MAX_PROCESS_def)
qed

section \<open>Families\<close>

text \<open>A chain of siblings from the youngest on: \<^verbatim>\<open>optr\<close> leads to the next older one and \<^verbatim>\<open>yptr\<close> back.\<close>

fun chain :: "(nat \<Rightarrow> proc_struct) \<Rightarrow> nat option \<Rightarrow> nat option \<Rightarrow> nat list \<Rightarrow> bool" where
  "chain P f y [] \<longleftrightarrow> f = None"
| "chain P f y (c # cs) \<longleftrightarrow> f = Some c \<and> yptr (P c) = y \<and> chain P (optr (P c)) (Some c) cs"

lemma chain_cong:
  "chain P f y cs \<Longrightarrow> (\<forall>x\<in>set cs. optr (P' x) = optr (P x)) \<Longrightarrow> (\<forall>x\<in>set (tl cs). yptr (P' x) = yptr (P x)) \<Longrightarrow>
   (cs \<noteq> [] \<Longrightarrow> yptr (P' (hd cs)) = y') \<Longrightarrow> chain P' f y' cs"
proof (induction cs arbitrary: f y y')
  case (Cons c cs)
  have "yptr (P' (hd cs)) = Some c" if "cs \<noteq> []"
    using Cons.prems(1,3) that by (cases cs) auto
  moreover have "\<forall>x\<in>set (tl cs). yptr (P' x) = yptr (P x)" using Cons.prems(3) by (cases cs) auto
  ultimately show ?case using Cons.IH [of "optr (P c)" "Some c" "Some c"] Cons.prems by auto
qed simp

lemma chain_same:
  "chain P f y cs \<Longrightarrow> \<forall>x\<in>set cs. optr (P' x) = optr (P x) \<and> yptr (P' x) = yptr (P x) \<Longrightarrow> chain P' f y cs"
  by (induction cs arbitrary: f y) auto

lemma chain_append:
  "chain P f y (cs @ d # ds) \<longleftrightarrow> chain (P(d := (P d)\<lparr>optr := None\<rparr>)) f y (cs @ [d]) \<and> chain P (optr (P d)) (Some d) ds"
  if "d \<notin> set cs"
  using that by (induction cs arbitrary: f y) auto

lemma chain_first: "chain P f y cs \<Longrightarrow> f = (case cs of [] \<Rightarrow> None | c # _ \<Rightarrow> Some c)"
  by (cases cs) auto

definition fam_ok :: "(nat \<Rightarrow> proc_struct) \<Rightarrow> nat set \<Rightarrow> (nat \<Rightarrow> nat list) \<Rightarrow> bool" where
  "fam_ok P L C \<longleftrightarrow> (\<forall>p\<in>L. chain P (cptr (P p)) None (C p) \<and> distinct (C p) \<and>
     (\<forall>c\<in>set (C p). parent (P c) = Some p))"

lemma fam_disjoint: "fam_ok P L C \<Longrightarrow> p \<in> L \<Longrightarrow> q \<in> L \<Longrightarrow> c \<in> set (C p) \<Longrightarrow> c \<in> set (C q) \<Longrightarrow> p = q"
  unfolding fam_ok_def by (metis option.inject)

lemma fam_first: "fam_ok P L C \<Longrightarrow> p \<in> L \<Longrightarrow> cptr (P p) = (case C p of [] \<Rightarrow> None | c # _ \<Rightarrow> Some c)"
  unfolding fam_ok_def using chain_first by blast

text \<open>Putting a process in front of the children of \<open>q\<close>, whatever its links were before.\<close>

lemma fam_push:
  assumes ok: "fam_ok P L C" and q: "q \<in> L" "p \<noteq> q" and pl: "p \<in> L' " "L \<subseteq> L'" "L' \<subseteq> insert p L"
    and free: "\<forall>x\<in>L. x \<noteq> p \<longrightarrow> p \<notin> set (C x)"
    and Cp: "p \<notin> L \<longrightarrow> cptr (P p) = None \<and> C' p = []" "p \<in> L \<longrightarrow> C' p = C p"
    and C': "C' q = p # C q" "\<forall>x\<in>L. x \<noteq> p \<longrightarrow> x \<noteq> q \<longrightarrow> C' x = C x"
    and self: "p \<in> L \<longrightarrow> p \<notin> set (C p)"
    and P': "\<forall>x. optr (P' x) = (if x = p then cptr (P q) else optr (P x))"
      "\<forall>x. yptr (P' x) = (if x = p then None else if Some x = cptr (P q) then Some p else yptr (P x))"
      "\<forall>x\<in>L'. cptr (P' x) = (if x = q then Some p else cptr (P x))"
      "\<forall>x. parent (P' x) = (if x = p then Some q else parent (P x))"
  shows "fam_ok P' L' C'"
proof -
  have fq: "cptr (P q) = (case C q of [] \<Rightarrow> None | c # _ \<Rightarrow> Some c)" using fam_first [OF ok q(1)] .
  have nq: "p \<notin> set (C q)" using free q by auto
  have chq: "chain P (cptr (P q)) None (C q)" "distinct (C q)" using ok q(1) by (auto simp: fam_ok_def)
  have hdq: "\<forall>x\<in>set (tl (C q)). Some x \<noteq> cptr (P q)" using fq chq(2) by (cases "C q") auto
  have tlq: "\<forall>x\<in>set (tl (C q)). x \<in> set (C q)" by (cases "C q") auto
  have "chain P' (cptr (P q)) (Some p) (C q)"
    by (rule chain_cong [OF chq(1)]) (use P' nq hdq tlq fq in \<open>auto simp: split: list.splits\<close>)
  moreover have "cptr (P' q) = Some p" using bspec [OF P'(3), of q] q(1) pl(2) by auto
  ultimately have one: "chain P' (cptr (P' q)) None (C' q)" using P'(1,2) C'(1) by simp
  have other: "chain P' (cptr (P' x)) None (C x)" if x: "x \<in> L" "x \<noteq> q" for x
  proof -
    have nx: "p \<notin> set (C x)" using free self x by (cases "x = p") auto
    have "Some c \<noteq> cptr (P q)" if "c \<in> set (C x)" for c
      using fam_disjoint [OF ok x(1) q(1) that] x(2) fq by (cases "C q") auto
    then have "\<forall>c\<in>set (C x). optr (P' c) = optr (P c) \<and> yptr (P' c) = yptr (P c)" using nx P'(1,2) by auto
    moreover have "chain P (cptr (P x)) None (C x)" using ok x(1) by (simp add: fam_ok_def)
    ultimately have "chain P' (cptr (P x)) None (C x)" by (rule chain_same [rotated])
    then show ?thesis using bspec [OF P'(3), of x] x pl(2) by auto
  qed
  show ?thesis
    unfolding fam_ok_def
  proof (intro ballI)
    fix x assume x: "x \<in> L'"
    show "chain P' (cptr (P' x)) None (C' x) \<and> distinct (C' x) \<and> (\<forall>c\<in>set (C' x). parent (P' c) = Some x)"
    proof (cases "x = q")
      case True
      then show ?thesis using one C' chq(2) nq pl ok q P'(4) by (auto simp: fam_ok_def)
    next
      case xq: False
      show ?thesis
      proof (cases "x \<in> L")
        case True
        have e: "C' x = C x" using C'(2) Cp(2) True xq by (cases "x = p") auto
        have nx: "p \<notin> set (C x)" using free self True by (cases "x = p") auto
        show ?thesis unfolding e using other [OF True xq] ok True nx P'(4) pl by (auto simp: fam_ok_def)
      next
        case False
        then have "x = p" using pl x by auto
        then show ?thesis using Cp(1) False bspec [OF P'(3) x] q by auto
      qed
    qed
  qed
qed

text \<open>A family: every live process has its children, all of them live, in a chain under it.\<close>

definition family :: "'a kernel_scheme \<Rightarrow> nat set \<Rightarrow> (nat \<Rightarrow> nat list) \<Rightarrow> bool" where
  "family s L C \<longleftrightarrow> fam_ok (procs s) L C \<and> (\<forall>p\<in>L. set (C p) \<subseteq> L \<and> p \<notin> set (C p))"

lemma set_links_fields:
  assumes "set_links p s = Some s'" "parent (procs s p) = Some q" "p \<noteq> q" "cptr (procs s q) \<noteq> Some p"
  shows "\<forall>x. optr (procs s' x) = (if x = p then cptr (procs s q) else optr (procs s x))"
    "\<forall>x. yptr (procs s' x) = (if x = p then None else if Some x = cptr (procs s q) then Some p else yptr (procs s x))"
    "\<forall>x. cptr (procs s' x) = (if x = q then Some p else cptr (procs s x))"
    "\<forall>x. parent (procs s' x) = parent (procs s x)"
    "proc_links s' = list_add (proc_links s) (Head ()) (Elem p)" "nr_process s' = nr_process s + 1"
  using assms by (cases "cptr (procs s q)"; auto simp: set_links_def Let_def)+

lemma set_links_fam:
  assumes ok: "family s L C" and q: "q \<in> L" and p: "p \<notin> L" "parent (procs s p) = Some q" "cptr (procs s p) = None"
  obtains s' where "set_links p s = Some s'" "family s' (insert p L) (C(q := p # C q, p := []))"
    "proc_links s' = list_add (proc_links s) (Head ()) (Elem p)" "nr_process s' = nr_process s + 1"
proof -
  have pq: "p \<noteq> q" using p q by auto
  have f: "fam_ok (procs s) L C" "\<forall>x\<in>L. set (C x) \<subseteq> L" "\<forall>x\<in>L. x \<notin> set (C x)" using ok by (auto simp: family_def)
  have np: "\<forall>x\<in>L. p \<notin> set (C x)" using f(2) p(1) by blast
  have nc: "cptr (procs s q) \<noteq> Some p" using fam_first [OF f(1) q] np q by (cases "C q") auto
  obtain s' where s': "set_links p s = Some s'" using p(2) by (auto simp: set_links_def Let_def)
  note fs = set_links_fields [OF s' p(2) pq nc]
  have "fam_ok (procs s') (insert p L) (C(q := p # C q, p := []))"
    by (rule fam_push [OF f(1) q pq, of "insert p L"]) (use fs p np pq f(3) in auto)
  then have "family s' (insert p L) (C(q := p # C q, p := []))" using f np pq q by (auto simp: family_def)
  then show ?thesis using that s' fs(5,6) by blast
qed

lemma adopt_fields:
  assumes "p \<noteq> c" "p \<noteq> i" "c \<noteq> i" "cptr (procs s i) \<noteq> Some p"
  shows "\<forall>x. optr (procs (adopt c i p s) x) = (if x = p then cptr (procs s i) else optr (procs s x))"
    "\<forall>x. yptr (procs (adopt c i p s) x) =
      (if x = p then None else if Some x = cptr (procs s i) then Some p else yptr (procs s x))"
    "\<forall>x. cptr (procs (adopt c i p s) x) = (if x = i then Some p else if x = c then optr (procs s p) else cptr (procs s x))"
    "\<forall>x. parent (procs (adopt c i p s) x) = (if x = p then Some i else parent (procs s x))"
    "\<forall>x. state (procs (adopt c i p s) x) = state (procs s x) \<and> wait_state (procs (adopt c i p s) x) = wait_state (procs s x)"
  using assms by (cases "cptr (procs s i)"; auto simp: adopt_def Let_def)+

text \<open>The state in the middle of the loop: the rest of the children of \<open>c\<close> still hang on it, with a stale link from the
  first of them.\<close>

definition half_way :: "'a kernel_scheme \<Rightarrow> nat \<Rightarrow> nat set \<Rightarrow> (nat \<Rightarrow> nat list) \<Rightarrow> bool" where
  "half_way s c L C \<longleftrightarrow> fam_ok (procs s) (L - {c}) C \<and> (\<exists>y. chain (procs s) (cptr (procs s c)) y (C c)) \<and> distinct (C c) \<and>
     (\<forall>x\<in>set (C c). parent (procs s x) = Some c) \<and> (\<forall>x\<in>L. set (C x) \<subseteq> L \<and> x \<notin> set (C x))"

lemma adopt_step:
  assumes h: "half_way s c L C" and c: "c \<in> L" "i \<in> L" "c \<noteq> i" and Cc: "C c = p # cs" and ni: "i \<notin> set (C c)"
  shows "half_way (adopt c i p s) c L (C(c := cs, i := p # C i))"
proof -
  let ?s = "adopt c i p s"
  have f: "fam_ok (procs s) (L - {c}) C" "distinct (C c)" "\<forall>x\<in>set (C c). parent (procs s x) = Some c"
    "\<forall>x\<in>L. set (C x) \<subseteq> L \<and> x \<notin> set (C x)" using h by (auto simp: half_way_def)
  obtain y where y: "chain (procs s) (cptr (procs s c)) y (C c)" using h by (auto simp: half_way_def)
  have pc: "p \<noteq> c" "p \<noteq> i" "p \<in> L" "parent (procs s p) = Some c" using f Cc c ni by auto
  have iL: "i \<in> L - {c}" using c by simp
  have free: "\<forall>x\<in>L - {c}. p \<notin> set (C x)" using f(1) pc(4) unfolding fam_ok_def by auto
  have fi: "cptr (procs s i) = (case C i of [] \<Rightarrow> None | d # _ \<Rightarrow> Some d)" using fam_first [OF f(1) iL] .
  have ncp: "cptr (procs s i) \<noteq> Some p" using fi bspec [OF free iL] by (cases "C i") auto
  note a = adopt_fields [OF pc(1,2) c(3) ncp]
  have one: "fam_ok (procs ?s) (L - {c}) (C(c := cs, i := p # C i))"
    by (rule fam_push [OF f(1) iL pc(2), of "L - {c}"]) (use a free pc c(3) in auto)
  have nx: "\<forall>x\<in>set cs. x \<noteq> p \<and> Some x \<noteq> cptr (procs s i)"
  proof
    fix x assume x: "x \<in> set cs"
    have "parent (procs s x) = Some c" using f(3) x Cc by simp
    then have "x \<notin> set (C i)" using f(1) iL c(3) unfolding fam_ok_def by fastforce
    then show "x \<noteq> p \<and> Some x \<noteq> cptr (procs s i)" using f(2) Cc x fi by (cases "C i") auto
  qed
  have "chain (procs s) (optr (procs s p)) (Some p) cs" using y Cc by simp
  then have "chain (procs ?s) (optr (procs s p)) (Some p) cs" by (rule chain_same) (use a(1,2) nx in auto)
  then have "chain (procs ?s) (cptr (procs ?s c)) (Some p) cs" using a(3) c(3) by simp
  moreover have "\<forall>x\<in>set cs. parent (procs ?s x) = Some c" using a(4) f(3) Cc nx by auto
  moreover have "\<forall>x\<in>L. set ((C(c := cs, i := p # C i)) x) \<subseteq> L \<and> x \<notin> set ((C(c := cs, i := p # C i)) x)"
    using f(4) bspec [OF f(4) c(1)] Cc pc c by auto
  ultimately show ?thesis unfolding half_way_def using one f(2) Cc c(3) by auto
qed

text \<open>A step that leaves all family links alone.\<close>

definition same_links :: "'a kernel_scheme \<Rightarrow> 'a kernel_scheme \<Rightarrow> bool" where
  "same_links s s' \<longleftrightarrow> (\<forall>x. optr (procs s' x) = optr (procs s x) \<and> yptr (procs s' x) = yptr (procs s x) \<and>
     cptr (procs s' x) = cptr (procs s x) \<and> parent (procs s' x) = parent (procs s x))"

lemma half_way_same:
  assumes "half_way s c L C" "same_links s s'"
  shows "half_way s' c L C"
proof -
  have ch: "chain (procs s') f y cs = chain (procs s) f y cs" for f y cs
    using assms(2) by (induction cs arbitrary: f y) (auto simp: same_links_def)
  have "cptr (procs s' x) = cptr (procs s x)" "parent (procs s' x) = parent (procs s x)" for x
    using assms(2) by (auto simp: same_links_def)
  then show ?thesis using assms(1) by (simp add: half_way_def fam_ok_def ch)
qed

lemma reparent_ok:
  assumes "half_way s c L C" "c \<in> L" "i \<in> L" "c \<noteq> i" "i \<notin> set (C c)"
    and J: "J s" "\<forall>t p. J t \<longrightarrow> J (adopt c i p t)"
      "\<forall>t. J t \<longrightarrow> wait_state (procs t i) = WT_CHILD \<longrightarrow> (\<exists>t'. wake t = Some t' \<and> same_links t t' \<and> J t')"
  shows "\<exists>s'. reparent_loop wake c i s = Some s' \<and> family s' L (C(c := [], i := rev (C c) @ C i)) \<and> J s'"
  using assms(1,5) J(1)
proof (induction "C c" arbitrary: s C)
  case Nil
  have "cptr (procs s c) = None" using Nil(1,2) by (auto simp: half_way_def)
  moreover have "fam_ok (procs s) L C" using Nil(1,2) assms(2) by (auto simp: half_way_def fam_ok_def)
  moreover have "C(c := [], i := rev (C c) @ C i) = C" using Nil(1) assms(4) by auto
  ultimately show ?case using Nil(2,4) by (subst reparent_loop.simps) (auto simp: family_def half_way_def)
next
  case (Cons p cs)
  let ?C = "C(c := cs, i := p # C i)"
  have pc: "cptr (procs s c) = Some p" using Cons.prems(1) Cons.hyps(2) [symmetric] by (auto simp: half_way_def)
  have st: "half_way (adopt c i p s) c L ?C"
    using adopt_step [OF Cons.prems(1) assms(2-4) Cons.hyps(2) [symmetric] Cons.prems(2)] .
  obtain s1 where s1: "(if state (procs (adopt c i p s) p) = PROC_ZOMBIE \<and> wait_state (procs (adopt c i p s) i) = WT_CHILD
      then wake (adopt c i p s) else Some (adopt c i p s)) = Some s1" "same_links (adopt c i p s) s1" "J s1"
  proof (cases "state (procs (adopt c i p s) p) = PROC_ZOMBIE \<and> wait_state (procs (adopt c i p s) i) = WT_CHILD")
    case True
    have "J (adopt c i p s)" using J(2) Cons.prems(3) by blast
    then obtain t where "wake (adopt c i p s) = Some t" "same_links (adopt c i p s) t" "J t" using J(3) True by blast
    then show thesis using that True by simp
  next
    case False
    then show thesis using that [of "adopt c i p s"] J(2) Cons.prems(3) by (auto simp: same_links_def)
  qed
  have "i \<notin> set cs" using Cons.prems(2) Cons.hyps(2) [symmetric] by simp
  then have "\<exists>s'. reparent_loop wake c i s1 = Some s' \<and> family s' L (?C(c := [], i := rev (?C c) @ ?C i)) \<and> J s'"
    by (intro Cons.hyps(1)) (use half_way_same [OF st s1(2)] assms(4) s1(3) in auto)
  moreover have "?C(c := [], i := rev (?C c) @ ?C i) = C(c := [], i := rev (C c) @ C i)"
    using assms(4) Cons.hyps(2) [symmetric] by auto
  ultimately show ?case by (subst reparent_loop.simps) (simp add: pc Let_def s1(1))
qed

lemma set_proc_keeps: "(\<And>y. g (f y) = g y) \<Longrightarrow> g (procs (set_proc p f s) x) = g (procs s x)"
  by simp

lemma adopt_states:
  "state (procs (adopt c i p s) x) = state (procs s x)" "wait_state (procs (adopt c i p s) x) = wait_state (procs s x)"
proof -
  have g: "g (procs (adopt c i p s) x) = g (procs s x)"
    if "\<And>y v. g (y\<lparr>cptr := v\<rparr>) = g y" "\<And>y v. g (y\<lparr>yptr := v\<rparr>) = g y" "\<And>y v. g (y\<lparr>optr := v\<rparr>) = g y"
      "\<And>y v. g (y\<lparr>parent := v\<rparr>) = g y" for g
    unfolding adopt_def Let_def by (simp only: set_proc_keeps [of g] that split: option.split) simp
  show "state (procs (adopt c i p s) x) = state (procs s x)" "wait_state (procs (adopt c i p s) x) = wait_state (procs s x)"
    by (rule g; simp)+
qed

text \<open>A child that is a zombie already is not handed over in silence: afterwards the new parent does not wait for a child any more.\<close>

lemma reparent_notifies:
  assumes "half_way s c L C" "c \<in> L" "i \<in> L" "c \<noteq> i" "i \<notin> set (C c)"
    and wake: "\<forall>t t'. wake t = Some t' \<longrightarrow> same_links t t' \<and> (wait_state (procs t i) = WT_CHILD \<longrightarrow> state (procs t i) \<noteq> PROC_RUNNABLE \<longrightarrow>
        wait_state (procs t' i) = 0 \<and> (\<forall>x. x \<noteq> i \<longrightarrow> state (procs t' x) = state (procs t x)))"
    and z: "wait_state (procs s i) = WT_CHILD \<longrightarrow> state (procs s i) \<noteq> PROC_RUNNABLE \<and> (\<exists>x\<in>set (C c). state (procs s x) = PROC_ZOMBIE)"
    and run: "reparent_loop wake c i s = Some s'"
  shows "wait_state (procs s' i) \<noteq> WT_CHILD"
  using assms(1,5) z run
proof (induction "C c" arbitrary: s C)
  case Nil
  have "cptr (procs s c) = None" using Nil(1,2) by (auto simp: half_way_def)
  then show ?case using Nil(1,4,5) by (auto simp: reparent_loop.simps [of wake c i s])
next
  case (Cons p cs)
  let ?C = "C(c := cs, i := p # C i)" and ?t = "adopt c i p s"
  have pc: "cptr (procs s c) = Some p" using Cons.prems(1) Cons.hyps(2) [symmetric] by (auto simp: half_way_def)
  have st: "half_way ?t c L ?C"
    using adopt_step [OF Cons.prems(1) assms(2-4) Cons.hyps(2) [symmetric] Cons.prems(2)] .
  have same: "state (procs ?t x) = state (procs s x)" "wait_state (procs ?t x) = wait_state (procs s x)" for x
    by (rule adopt_states)+
  obtain s1 where s1: "(if state (procs ?t p) = PROC_ZOMBIE \<and> wait_state (procs ?t i) = WT_CHILD then wake ?t else Some ?t) = Some s1"
    "reparent_loop wake c i s1 = Some s'"
    using Cons.prems(4) [unfolded reparent_loop.simps [of wake c i s] pc option.case Let_def] by (rule bind_SomeE)
  have sl: "same_links ?t s1" using s1(1) wake by (auto simp: same_links_def split: if_splits)
  have ni: "i \<notin> set cs" using Cons.prems(2) Cons.hyps(2) [symmetric] by simp
  have "wait_state (procs s1 i) = WT_CHILD \<longrightarrow> state (procs s1 i) \<noteq> PROC_RUNNABLE \<and> (\<exists>x\<in>set cs. state (procs s1 x) = PROC_ZOMBIE)"
  proof (cases "state (procs ?t p) = PROC_ZOMBIE \<and> wait_state (procs ?t i) = WT_CHILD")
    case True
    then have "wait_state (procs s1 i) = 0" using s1(1) wake Cons.prems(3) same by simp
    then show ?thesis by (simp add: wt_defs)
  next
    case False
    then have "s1 = ?t" using s1(1) by auto
    then show ?thesis using Cons.prems(3) Cons.hyps(2) [symmetric] False same by auto
  qed
  then show ?case using Cons.hyps(1) [of ?C s1] half_way_same [OF st sl] ni assms(4) s1(2) by simp
qed

lemma remove_links_fields:
  assumes "remove_links p s = Some s'" "parent (procs s p) = Some q" "optr (procs s p) \<noteq> Some p" "yptr (procs s p) \<noteq> Some p"
  shows "\<forall>x. optr (procs s' x) = (if yptr (procs s p) = Some x then optr (procs s p) else optr (procs s x))"
    "\<forall>x. yptr (procs s' x) = (if optr (procs s p) = Some x then yptr (procs s p) else yptr (procs s x))"
    "\<forall>x. cptr (procs s' x) = (if x = q \<and> yptr (procs s p) = None then optr (procs s p) else cptr (procs s x))"
    "\<forall>x. parent (procs s' x) = parent (procs s x)"
    "proc_links s' = list_del (proc_links s) (Elem p)" "nr_process s' = nr_process s - 1"
  using assms by (cases "optr (procs s p)"; cases "yptr (procs s p)"; auto simp: remove_links_def Let_def)+

lemma chain_neighbours:
  "chain P f y (xs @ p # ys) \<Longrightarrow> distinct (xs @ p # ys) \<Longrightarrow>
     optr (P p) = (case ys of [] \<Rightarrow> None | z # _ \<Rightarrow> Some z) \<and> yptr (P p) = (if xs = [] then y else Some (last xs))"
proof (induction xs arbitrary: f y)
  case Nil
  then show ?case by (cases ys) auto
qed auto

lemma chain_remove:
  assumes "chain P f y (xs @ p # ys)" "distinct (xs @ p # ys)"
    and "\<forall>x\<in>set (xs @ ys). optr (P' x) = (if xs \<noteq> [] \<and> x = last xs then optr (P p) else optr (P x))"
    and "\<forall>x\<in>set (xs @ ys). yptr (P' x) = (if ys \<noteq> [] \<and> x = hd ys then yptr (P p) else yptr (P x))"
  shows "chain P' (if xs = [] then optr (P p) else f) y (xs @ ys)"
  using assms
proof (induction xs arbitrary: f y)
  case Nil
  have ch: "chain P (optr (P p)) (Some p) ys" "yptr (P p) = y" using Nil.prems(1) by auto
  have "chain P' (optr (P p)) y ys"
    by (rule chain_cong [OF ch(1)]) (use Nil.prems(2-4) ch(2) in \<open>cases ys; auto\<close>)+
  then show ?case by simp
next
  case (Cons a xs)
  have ch: "f = Some a" "yptr (P a) = y" "chain P (optr (P a)) (Some a) (xs @ p # ys)" using Cons.prems(1) by auto
  have ya: "yptr (P' a) = y" using Cons.prems(2,4) ch(2) by (cases ys) auto
  have "chain P' (if xs = [] then optr (P p) else optr (P a)) (Some a) (xs @ ys)"
    by (rule Cons.IH [OF ch(3)]) (use Cons.prems(2-4) in \<open>auto split: if_splits\<close>)
  moreover have "optr (P' a) = (if xs = [] then optr (P p) else optr (P a))" using Cons.prems(2,3) by auto
  ultimately show ?case using ch ya by simp
qed

lemma remove_links_fam:
  assumes ok: "family s L C" and q: "q \<in> L" and p: "p \<in> set (C q)"
  obtains s' where "remove_links p s = Some s'" "family s' (L - {p}) (C(q := remove1 p (C q)))"
    "proc_links s' = list_del (proc_links s) (Elem p)" "nr_process s' = nr_process s - 1"
proof -
  have f: "fam_ok (procs s) L C" "\<forall>x\<in>L. set (C x) \<subseteq> L \<and> x \<notin> set (C x)" using ok by (auto simp: family_def)
  have pp: "parent (procs s p) = Some q" "p \<noteq> q" using f p q by (auto simp: fam_ok_def)
  obtain xs ys where xy: "C q = xs @ p # ys" using split_list [OF p] by blast
  have ch: "chain (procs s) (cptr (procs s q)) None (xs @ p # ys)" "distinct (xs @ p # ys)"
    using bspec [OF f(1) [unfolded fam_ok_def] q] unfolding xy by blast+
  have nb: "optr (procs s p) = (case ys of [] \<Rightarrow> None | z # _ \<Rightarrow> Some z)" "yptr (procs s p) = (if xs = [] then None else Some (last xs))"
    using chain_neighbours [OF ch] by auto
  have self: "optr (procs s p) \<noteq> Some p" "yptr (procs s p) \<noteq> Some p" using nb ch(2) by (cases ys; auto)+
  have "remove_links p s \<noteq> None"
    using pp(1) self by (cases "optr (procs s p)"; cases "yptr (procs s p)") (auto simp: remove_links_def Let_def)
  then obtain s' where s': "remove_links p s = Some s'" by blast
  note fs = remove_links_fields [OF s' pp(1) self]
  have cq: "chain (procs s') (cptr (procs s' q)) None (xs @ ys)"
  proof -
    have "chain (procs s') (if xs = [] then optr (procs s p) else cptr (procs s q)) None (xs @ ys)"
      by (rule chain_remove [OF ch]) (use fs(1,2) nb in \<open>auto split: list.splits\<close>)
    then show ?thesis using fs(3) nb by (cases "xs = []") auto
  qed
  have other: "chain (procs s') (cptr (procs s' x)) None (C x)" if x: "x \<in> L" "x \<noteq> q" for x
  proof -
    have "yptr (procs s p) \<noteq> Some c \<and> optr (procs s p) \<noteq> Some c" if c: "c \<in> set (C x)" for c
    proof -
      have "c \<notin> set (C q)" using fam_disjoint [OF f(1) x(1) q c] x(2) by blast
      then show ?thesis using nb xy by (cases ys) auto
    qed
    then have "\<forall>c\<in>set (C x). optr (procs s' c) = optr (procs s c) \<and> yptr (procs s' c) = yptr (procs s c)"
      using fs(1,2) by auto
    moreover have "chain (procs s) (cptr (procs s x)) None (C x)" using f(1) x(1) by (simp add: fam_ok_def)
    ultimately have "chain (procs s') (cptr (procs s x)) None (C x)" by (rule chain_same [rotated])
    then show ?thesis using fs(3) x(2) by simp
  qed
  have r1: "remove1 p (C q) = xs @ ys" using ch(2) xy by (simp add: remove1_append)
  have "fam_ok (procs s') (L - {p}) (C(q := remove1 p (C q)))"
    unfolding fam_ok_def
  proof (intro ballI)
    fix x assume x: "x \<in> L - {p}"
    show "chain (procs s') (cptr (procs s' x)) None ((C(q := remove1 p (C q))) x) \<and> distinct ((C(q := remove1 p (C q))) x) \<and>
        (\<forall>c\<in>set ((C(q := remove1 p (C q))) x). parent (procs s' c) = Some x)"
    proof (cases "x = q")
      case True
      have "\<forall>c\<in>set (C q). parent (procs s' c) = Some q" using f(1) q fs(4) by (auto simp: fam_ok_def)
      then show ?thesis using True cq ch(2) xy by (simp add: remove1_append)
    next
      case False
      then show ?thesis using other f(1) x fs(4) by (auto simp: fam_ok_def)
    qed
  qed
  moreover have "p \<notin> set (C x)" if "x \<in> L" "x \<noteq> q" for x using fam_disjoint [OF f(1) that(1) q _ p] that(2) by blast
  ultimately have "family s' (L - {p}) (C(q := remove1 p (C q)))"
    using f(2) bspec [OF f(2) q] q ch(2) xy unfolding family_def by (auto simp: remove1_append)
  then show ?thesis using that s' fs(5,6) by blast
qed

text \<open>Process families keep their shape. Linking a new process under its parent puts it first among the
  parent's children; unlinking a child takes exactly it out, wherever it stands; and when the children of an exiting
  process are handed to another one, loop and all, every child ends up below the new parent, in
  reverse order before the children it had, the exiting process has none, and the sibling and parent
  pointers of all processes agree with this.\<close>

theorem families_kept:
  assumes "family s L C"
  shows "(\<forall>p q. q \<in> L \<and> p \<notin> L \<and> parent (procs s p) = Some q \<and> cptr (procs s p) = None \<longrightarrow>
      (\<exists>s'. set_links p s = Some s' \<and> family s' (insert p L) (C(q := p # C q, p := [])))) \<and>
    (\<forall>p q. q \<in> L \<and> p \<in> set (C q) \<longrightarrow>
      (\<exists>s'. remove_links p s = Some s' \<and> family s' (L - {p}) (C(q := remove1 p (C q))))) \<and>
    (\<forall>c i. c \<in> L \<and> i \<in> L \<and> c \<noteq> i \<and> i \<notin> set (C c) \<longrightarrow>
      (\<exists>s'. reparent_loop Some c i s = Some s' \<and> family s' L (C(c := [], i := rev (C c) @ C i))))"
proof (intro conjI allI impI)
  fix p q assume a: "q \<in> L \<and> p \<notin> L \<and> parent (procs s p) = Some q \<and> cptr (procs s p) = None"
  show "\<exists>s'. set_links p s = Some s' \<and> family s' (insert p L) (C(q := p # C q, p := []))"
    using set_links_fam [OF assms, of q p] a by metis
next
  fix p q assume a: "q \<in> L \<and> p \<in> set (C q)"
  show "\<exists>s'. remove_links p s = Some s' \<and> family s' (L - {p}) (C(q := remove1 p (C q)))"
    using remove_links_fam [OF assms, of q p] a by metis
next
  fix c i assume a: "c \<in> L \<and> i \<in> L \<and> c \<noteq> i \<and> i \<notin> set (C c)"
  have "half_way s c L C" using assms a by (auto simp: half_way_def family_def fam_ok_def)
  then show "\<exists>s'. reparent_loop Some c i s = Some s' \<and> family s' L (C(c := [], i := rev (C c) @ C i))"
    using reparent_ok [of s c L C i "\<lambda>_. True" Some] a by (auto simp: same_links_def)
qed

definition demo_family :: kernel where
  "demo_family = blank_kernel\<lparr>procs := (\<lambda>_. blank_proc)(
     1 := blank_proc\<lparr>cptr := Some 3\<rparr>, 3 := blank_proc\<lparr>parent := Some 1, optr := Some 2, cptr := Some 4\<rparr>,
     2 := blank_proc\<lparr>parent := Some 1, yptr := Some 3\<rparr>, 4 := blank_proc\<lparr>parent := Some 3\<rparr>)\<rparr>"

theorem families_kept_witness:
  "family demo_family {1, 2, 3, 4} ((\<lambda>_. [])(1 := [3, 2], 3 := [4])) \<and>
   (\<exists>s'. reparent_loop Some 3 1 demo_family = Some s' \<and>
      family s' {1, 2, 3, 4} ((\<lambda>_. [])(1 := [3, 2], 3 := [4], 3 := [], 1 := [4, 3, 2])))"
proof -
  have f: "family demo_family {1, 2, 3, 4} ((\<lambda>_. [])(1 := [3, 2], 3 := [4]))"
    by (simp add: family_def fam_ok_def demo_family_def blank_proc_def)
  show ?thesis using spec [OF spec [OF conjunct2 [OF conjunct2 [OF families_kept [OF f]]], of 3], of 1] f by simp
qed

end
