(* ===== verification/Paging.thy ===== *)
theory Paging
  imports Page_Alloc
begin

text \<open>
  Page tables, \<^verbatim>\<open>kern/mm/pmm.c\<close> with \<^verbatim>\<open>pmm.h\<close> and \<^verbatim>\<open>mmu.h\<close>: the three-level Sv39 walk with tables allocated on
  demand, inserting and removing mappings with reference counts, unmapping, releasing and copying ranges.

  Physical memory is a function from physical page numbers to pages of 512 words of 64 bits; the
  pages come from the first-fit allocator. A kernel virtual address of a page is written as its
  physical page number, a \<^verbatim>\<open>struct Page\<close> pointer as its index in \<^verbatim>\<open>pages\<close>, a pointer to a table entry as
  the page of the table and the index of the entry. The translation look-aside buffer is not modelled.
\<close>

section \<open>Addresses and entries\<close>

definition PGSIZE :: u64 where "PGSIZE = 4096"
definition PTSIZE :: u64 where "PTSIZE = 0x200000"
definition PDSIZE :: u64 where "PDSIZE = 0x40000000"
definition NPTEENTRY :: nat where "NPTEENTRY = 512"
definition USERBASE :: u64 where "USERBASE = 0x200000"
definition USERTOP :: u64 where "USERTOP = 0x80000000"
definition KERNBASE :: u64 where "KERNBASE = 0xFFFFFFFFC0200000"
definition KERNTOP :: u64 where "KERNTOP = KERNBASE + 0x7E00000"

definition USER_ACCESS :: "u64 \<Rightarrow> u64 \<Rightarrow> bool" where
  "USER_ACCESS start end' \<longleftrightarrow> USERBASE \<le> start \<and> start < end' \<and> end' \<le> USERTOP"

definition KERN_ACCESS :: "u64 \<Rightarrow> u64 \<Rightarrow> bool" where
  "KERN_ACCESS start end' \<longleftrightarrow> KERNBASE \<le> start \<and> start < end' \<and> end' \<le> KERNTOP"

definition PDX1 :: "u64 \<Rightarrow> nat" where "PDX1 la = unat (drop_bit 30 la AND 0x1FF)"
definition PDX0 :: "u64 \<Rightarrow> nat" where "PDX0 la = unat (drop_bit 21 la AND 0x1FF)"
definition PTX :: "u64 \<Rightarrow> nat" where "PTX la = unat (drop_bit 12 la AND 0x1FF)"

definition PTE_V :: u64 where "PTE_V = 1"
definition PTE_R :: u64 where "PTE_R = 2"
definition PTE_W :: u64 where "PTE_W = 4"
definition PTE_X :: u64 where "PTE_X = 8"
definition PTE_U :: u64 where "PTE_U = 0x10"
definition PTE_A :: u64 where "PTE_A = 0x40"
definition PTE_D :: u64 where "PTE_D = 0x80"
definition PTE_COW :: u64 where "PTE_COW = 0x100"
definition PTE_USER :: u64 where "PTE_USER = PTE_R OR PTE_W OR PTE_X OR PTE_U OR PTE_V"

definition PTE_ADDR :: "u64 \<Rightarrow> u64" where
  "PTE_ADDR pte = push_bit 2 (pte AND NOT 0x3FF)"

definition PPN :: "u64 \<Rightarrow> nat" where
  "PPN pa = unat (drop_bit 12 pa)"

definition pte_create :: "nat \<Rightarrow> u64 \<Rightarrow> u64" where
  "pte_create ppn ty = push_bit 10 (of_nat ppn) OR PTE_V OR ty"

abbreviation valid :: "u64 \<Rightarrow> bool" where
  "valid e \<equiv> e AND PTE_V \<noteq> 0"

section \<open>State\<close>

record paging =
  phys :: pmm
  npage :: nat
  pmem :: "nat \<Rightarrow> nat \<Rightarrow> u64"

definition nbase :: nat where "nbase = 0x80000"

definition page2ppn :: "nat \<Rightarrow> nat" where
  "page2ppn p = p + nbase"

text \<open>Outside the physical memory the macros stop the kernel; a page number below the base would index the
  array \<^verbatim>\<open>pages\<close> out of its bounds.\<close>

definition pa2page :: "nat \<Rightarrow> 'a paging_scheme \<Rightarrow> nat option" where
  "pa2page ppn s = (if ppn \<ge> npage s \<or> ppn < nbase then panic else Some (ppn - nbase))"

definition KADDR :: "nat \<Rightarrow> 'a paging_scheme \<Rightarrow> nat option" where
  "KADDR ppn s = (if ppn \<ge> npage s then panic else Some ppn)"

definition page2kva :: "nat \<Rightarrow> 'a paging_scheme \<Rightarrow> nat option" where
  "page2kva p s = KADDR (page2ppn p) s"

definition pte2page :: "u64 \<Rightarrow> 'a paging_scheme \<Rightarrow> nat option" where
  "pte2page pte s = (if \<not> valid pte then panic else pa2page (PPN (PTE_ADDR pte)) s)"

definition pde2page :: "u64 \<Rightarrow> 'a paging_scheme \<Rightarrow> nat option" where
  "pde2page pde s = pa2page (PPN (PTE_ADDR pde)) s"

definition page_ref :: "nat \<Rightarrow> 'a paging_scheme \<Rightarrow> int" where
  "page_ref p s = pg_ref (pages (phys s) p)"

definition set_page_ref :: "nat \<Rightarrow> int \<Rightarrow> 'a paging_scheme \<Rightarrow> 'a paging_scheme" where
  "set_page_ref p v s = s\<lparr>phys := upd_page p (\<lambda>pg. pg\<lparr>pg_ref := v\<rparr>) (phys s)\<rparr>"

definition page_ref_inc :: "nat \<Rightarrow> 'a paging_scheme \<Rightarrow> 'a paging_scheme" where
  "page_ref_inc p s = set_page_ref p (page_ref p s + 1) s"

definition page_ref_dec :: "nat \<Rightarrow> 'a paging_scheme \<Rightarrow> 'a paging_scheme" where
  "page_ref_dec p s = set_page_ref p (page_ref p s - 1) s"

definition alloc_pages :: "nat \<Rightarrow> 'a paging_scheme \<Rightarrow> (nat option \<times> 'a paging_scheme) option" where
  "alloc_pages n s = do { (r, m) \<leftarrow> default_alloc_pages n (phys s); Some (r, s\<lparr>phys := m\<rparr>) }"

definition free_pages :: "nat \<Rightarrow> nat \<Rightarrow> 'a paging_scheme \<Rightarrow> 'a paging_scheme option" where
  "free_pages base n s = do { m \<leftarrow> default_free_pages base n (phys s); Some (s\<lparr>phys := m\<rparr>) }"

abbreviation alloc_page :: "'a paging_scheme \<Rightarrow> (nat option \<times> 'a paging_scheme) option" where
  "alloc_page \<equiv> alloc_pages 1"

abbreviation free_page :: "nat \<Rightarrow> 'a paging_scheme \<Rightarrow> 'a paging_scheme option" where
  "free_page p \<equiv> free_pages p 1"

definition nr_free_pages :: "'a paging_scheme \<Rightarrow> nat" where
  "nr_free_pages s = default_nr_free_pages (phys s)"

definition set_entry :: "nat \<Rightarrow> nat \<Rightarrow> u64 \<Rightarrow> 'a paging_scheme \<Rightarrow> 'a paging_scheme" where
  "set_entry t i e s = s\<lparr>pmem := (pmem s)(t := (pmem s t)(i := e))\<rparr>"

definition put_page :: "nat \<Rightarrow> (nat \<Rightarrow> u64) \<Rightarrow> 'a paging_scheme \<Rightarrow> 'a paging_scheme" where
  "put_page k w s = s\<lparr>pmem := (pmem s)(k := w)\<rparr>"

section \<open>The walk\<close>

text \<open>One level: the entry \<open>i\<close> of table \<open>t\<close>, made if it is missing and \<open>create\<close> is set, and the table it points to.\<close>

definition walk_level :: "bool \<Rightarrow> nat \<Rightarrow> nat \<Rightarrow> 'a paging_scheme \<Rightarrow> (nat option \<times> 'a paging_scheme) option" where
  "walk_level create t i s = do {
     (found, s) \<leftarrow>
       (if valid (pmem s t i) then Some (True, s)
        else if \<not> create then Some (False, s)
        else do {
          (r, s) \<leftarrow> alloc_page s;
          (case r of
             None \<Rightarrow> Some (False, s)
           | Some page \<Rightarrow> do {
               let s = set_page_ref page 1 s;
               k \<leftarrow> KADDR (page2ppn page) s;
               let s = put_page k (\<lambda>_. 0) s;
               Some (True, set_entry t i (pte_create (page2ppn page) (PTE_U OR PTE_V)) s)
             })
        });
     if found then do { k \<leftarrow> KADDR (PPN (PTE_ADDR (pmem s t i))) s; Some (Some k, s) }
     else Some (None, s)
   }"

definition get_pte :: "nat \<Rightarrow> u64 \<Rightarrow> bool \<Rightarrow> 'a paging_scheme \<Rightarrow> ((nat \<times> nat) option \<times> 'a paging_scheme) option" where
  "get_pte pgdir la create s = do {
     (r1, s) \<leftarrow> walk_level create pgdir (PDX1 la) s;
     (case r1 of
        None \<Rightarrow> Some (None, s)
      | Some pd0 \<Rightarrow> do {
          (r0, s) \<leftarrow> walk_level create pd0 (PDX0 la) s;
          (case r0 of
             None \<Rightarrow> Some (None, s)
           | Some pt \<Rightarrow> Some (Some (pt, PTX la), s))
        })
   }"

definition get_page :: "nat \<Rightarrow> u64 \<Rightarrow> 'a paging_scheme \<Rightarrow> (nat option \<times> (nat \<times> nat) option) option" where
  "get_page pgdir la s = do {
     (r, _) \<leftarrow> get_pte pgdir la False s;
     (case r of
        Some (t, i) \<Rightarrow>
          if valid (pmem s t i) then do { p \<leftarrow> pte2page (pmem s t i) s; Some (Some p, r) } else Some (None, r)
      | None \<Rightarrow> Some (None, r))
   }"

section \<open>Mappings\<close>

definition page_remove_pte :: "nat \<Rightarrow> u64 \<Rightarrow> nat \<times> nat \<Rightarrow> 'a paging_scheme \<Rightarrow> 'a paging_scheme option" where
  "page_remove_pte pgdir la ptep s =
     (let (t, i) = ptep in
      if valid (pmem s t i) then do {
        page \<leftarrow> pte2page (pmem s t i) s;
        let s = page_ref_dec page s;
        s \<leftarrow> (if page_ref page s = 0 then free_page page s else Some s);
        Some (set_entry t i 0 s)
      } else Some s)"

definition page_remove :: "nat \<Rightarrow> u64 \<Rightarrow> 'a paging_scheme \<Rightarrow> 'a paging_scheme option" where
  "page_remove pgdir la s = do {
     (r, s) \<leftarrow> get_pte pgdir la False s;
     (case r of None \<Rightarrow> Some s | Some ptep \<Rightarrow> page_remove_pte pgdir la ptep s)
   }"

definition page_insert :: "nat \<Rightarrow> nat \<Rightarrow> u64 \<Rightarrow> u64 \<Rightarrow> 'a paging_scheme \<Rightarrow> (int \<times> 'a paging_scheme) option" where
  "page_insert pgdir page la perm s = do {
     (r, s) \<leftarrow> get_pte pgdir la True s;
     (case r of
        None \<Rightarrow> Some (- E_NO_MEM, s)
      | Some (t, i) \<Rightarrow> do {
          let s = page_ref_inc page s;
          s \<leftarrow> (if valid (pmem s t i) then do {
                  p \<leftarrow> pte2page (pmem s t i) s;
                  if p = page then Some (page_ref_dec page s) else page_remove_pte pgdir la (t, i) s
                } else Some s);
          Some (0, set_entry t i (pte_create (page2ppn page) (PTE_V OR perm)) s)
        })
   }"

definition pgdir_alloc_page ::
  "nat \<Rightarrow> u64 \<Rightarrow> u64 \<Rightarrow> 'a paging_scheme \<Rightarrow> (nat option \<times> 'a paging_scheme) option" where
  "pgdir_alloc_page pgdir la perm s = do {
     (r, s) \<leftarrow> alloc_page s;
     (case r of
        None \<Rightarrow> Some (None, s)
      | Some page \<Rightarrow> do {
          (ret, s) \<leftarrow> page_insert pgdir page la perm s;
          if ret \<noteq> 0 then do { s \<leftarrow> free_page page s; Some (None, s) }
          else do { kassert (page_ref page s = 1); Some (Some page, s) }
        })
   }"

definition boot_alloc_page :: "'a paging_scheme \<Rightarrow> (nat \<times> 'a paging_scheme) option" where
  "boot_alloc_page s = do {
     (r, s) \<leftarrow> alloc_page s;
     (case r of None \<Rightarrow> panic | Some p \<Rightarrow> do { k \<leftarrow> page2kva p s; Some (k, s) })
   }"

fun boot_map_loop :: "nat \<Rightarrow> nat \<Rightarrow> u64 \<Rightarrow> u64 \<Rightarrow> u64 \<Rightarrow> 'a paging_scheme \<Rightarrow> 'a paging_scheme option" where
  "boot_map_loop pgdir 0 la pa perm s = Some s"
| "boot_map_loop pgdir (Suc n) la pa perm s = do {
     (r, s) \<leftarrow> get_pte pgdir la True s;
     (case r of
        None \<Rightarrow> panic
      | Some (t, i) \<Rightarrow>
          boot_map_loop pgdir n (la + PGSIZE) (pa + PGSIZE) perm (set_entry t i (pte_create (PPN pa) (PTE_V OR perm)) s))
   }"

definition boot_map_segment ::
  "nat \<Rightarrow> u64 \<Rightarrow> u64 \<Rightarrow> u64 \<Rightarrow> u64 \<Rightarrow> 'a paging_scheme \<Rightarrow> 'a paging_scheme option" where
  "boot_map_segment pgdir la sz pa perm s = do {
     kassert (la AND 0xFFF = pa AND 0xFFF);
     let n = unat (ROUNDUP (sz + (la AND 0xFFF)) PGSIZE div PGSIZE);
     boot_map_loop pgdir n (ROUNDDOWN la PGSIZE) (ROUNDDOWN pa PGSIZE) perm s
   }"

section \<open>Ranges\<close>

partial_function (option) unmap_loop :: "nat \<Rightarrow> u64 \<Rightarrow> u64 \<Rightarrow> 'a paging_scheme \<Rightarrow> 'a paging_scheme option" where
  "unmap_loop pgdir start end' s = do {
     (r, s) \<leftarrow> get_pte pgdir start False s;
     (start, s) \<leftarrow> (case r of
        None \<Rightarrow> Some (ROUNDDOWN (start + PTSIZE) PTSIZE, s)
      | Some (t, i) \<Rightarrow> do {
          s \<leftarrow> (if pmem s t i \<noteq> 0 then page_remove_pte pgdir start (t, i) s else Some s);
          Some (start + PGSIZE, s)
        });
     if start \<noteq> 0 \<and> start < end' then unmap_loop pgdir start end' s else Some s
   }"

definition unmap_range :: "nat \<Rightarrow> u64 \<Rightarrow> u64 \<Rightarrow> 'a paging_scheme \<Rightarrow> 'a paging_scheme option" where
  "unmap_range pgdir start end' s = do {
     kassert (start mod PGSIZE = 0 \<and> end' mod PGSIZE = 0);
     kassert (USER_ACCESS start end');
     unmap_loop pgdir start end' s
   }"

text \<open>The inner loop of \<open>exit_range\<close> over the entries of one directory, with the flag \<^verbatim>\<open>free_pd0\<close>.\<close>

partial_function (option) exit_pd0_loop ::
  "nat \<Rightarrow> u64 \<Rightarrow> u64 \<Rightarrow> u64 \<Rightarrow> bool \<Rightarrow> 'a paging_scheme \<Rightarrow> (bool \<times> 'a paging_scheme) option" where
  "exit_pd0_loop pd0 d1start d0start end' free_pd0 s = do {
     let pde0 = pmem s pd0 (PDX0 d0start);
     (free_pd0, s) \<leftarrow>
       (if valid pde0 then do {
          p \<leftarrow> pde2page pde0 s;
          pt \<leftarrow> page2kva p s;
          if \<forall>i<NPTEENTRY. \<not> valid (pmem s pt i) then do {
            s \<leftarrow> free_page p s;
            Some (free_pd0, set_entry pd0 (PDX0 d0start) 0 s)
          } else Some (free_pd0, s)
        } else Some (False, s));
     let d0start = d0start + PTSIZE;
     if d0start \<noteq> 0 \<and> d0start < d1start + PDSIZE \<and> d0start < end'
     then exit_pd0_loop pd0 d1start d0start end' free_pd0 s else Some (free_pd0, s)
   }"

partial_function (option) exit_loop ::
  "nat \<Rightarrow> u64 \<Rightarrow> u64 \<Rightarrow> u64 \<Rightarrow> 'a paging_scheme \<Rightarrow> 'a paging_scheme option" where
  "exit_loop pgdir d1start d0start end' s = do {
     let pde1 = pmem s pgdir (PDX1 d1start);
     s \<leftarrow>
       (if valid pde1 then do {
          p \<leftarrow> pde2page pde1 s;
          pd0 \<leftarrow> page2kva p s;
          (free_pd0, s) \<leftarrow> exit_pd0_loop pd0 d1start d0start end' True s;
          if free_pd0 then do {
            s \<leftarrow> free_page p s;
            Some (set_entry pgdir (PDX1 d1start) 0 s)
          } else Some s
        } else Some s);
     let d1start = d1start + PDSIZE;
     if d1start \<noteq> 0 \<and> d1start < end' then exit_loop pgdir d1start d1start end' s else Some s
   }"

definition exit_range :: "nat \<Rightarrow> u64 \<Rightarrow> u64 \<Rightarrow> 'a paging_scheme \<Rightarrow> 'a paging_scheme option" where
  "exit_range pgdir start end' s = do {
     kassert (start mod PGSIZE = 0 \<and> end' mod PGSIZE = 0);
     kassert (USER_ACCESS start end');
     exit_loop pgdir (ROUNDDOWN start PDSIZE) (ROUNDDOWN start PTSIZE) end' s
   }"

partial_function (option) copy_loop ::
  "nat \<Rightarrow> nat \<Rightarrow> u64 \<Rightarrow> u64 \<Rightarrow> 'a paging_scheme \<Rightarrow> (int \<times> 'a paging_scheme) option" where
  "copy_loop to from start end' s = do {
     (r, s) \<leftarrow> get_pte from start False s;
     (ret, start, s) \<leftarrow> (case r of
        None \<Rightarrow> Some (0, ROUNDDOWN (start + PTSIZE) PTSIZE, s)
      | Some (t, i) \<Rightarrow>
          if valid (pmem s t i) then do {
            (nr, s) \<leftarrow> get_pte to start True s;
            if nr = None then Some (- E_NO_MEM, start, s)
            else do {
              let perm = pmem s t i AND PTE_USER;
              page \<leftarrow> pte2page (pmem s t i) s;
              (np, s) \<leftarrow> alloc_page s;
              (case np of
                 None \<Rightarrow> panic
               | Some np1 \<Rightarrow> do {
                   src \<leftarrow> page2kva page s;
                   dst \<leftarrow> page2kva np1 s;
                   let s = put_page dst (pmem s src) s;
                   (ret, s) \<leftarrow> page_insert to np1 start perm s;
                   kassert (ret = 0);
                   Some (0, start + PGSIZE, s)
                 })
            }
          } else Some (0, start + PGSIZE, s));
     if ret \<noteq> 0 then Some (ret, s)
     else if start \<noteq> 0 \<and> start < end' then copy_loop to from start end' s
     else Some (0, s)
   }"

definition copy_range :: "nat \<Rightarrow> nat \<Rightarrow> u64 \<Rightarrow> u64 \<Rightarrow> 'a paging_scheme \<Rightarrow> (int \<times> 'a paging_scheme) option" where
  "copy_range to from start end' s = do {
     kassert (start mod PGSIZE = 0 \<and> end' mod PGSIZE = 0);
     kassert (USER_ACCESS start end');
     copy_loop to from start end' s
   }"

section \<open>Words\<close>

lemma mask9: "(0x1FF :: u64) = mask 9" and mask10: "(0x3FF :: u64) = mask 10"
  by (simp_all add: mask_eq_exp_minus_1)

lemma unat_index: "unat (drop_bit n (la :: u64) AND 0x1FF) = unat la div 2 ^ n mod 512"
  by (simp only: mask9 take_bit_eq_mask [symmetric] unsigned_take_bit_eq unat_drop_bit_eq)
    (simp add: take_bit_eq_mod drop_bit_eq_div)

lemma index_nat: "PDX1 la = unat la div 2 ^ 30 mod 512" "PDX0 la = unat la div 2 ^ 21 mod 512"
  "PTX la = unat la div 2 ^ 12 mod 512"
  by (simp_all only: PDX1_def PDX0_def PTX_def unat_index)

lemma index_bound [simp]: "PDX1 la < 512" "PDX0 la < 512" "PTX la < 512"
  by (simp_all add: index_nat)

lemma valid_iff_bit: "valid e \<longleftrightarrow> bit e 0"
  by (simp add: PTE_V_def and_one_eq bit_0 odd_iff_mod_2_eq_one)

lemma valid_create [simp]: "valid (pte_create ppn ty)"
  unfolding valid_iff_bit pte_create_def by (simp add: PTE_V_def bit_or_iff)

lemma not_valid_0 [simp]: "\<not> valid 0"
  by simp

lemma bit_high: "(ty :: u64) < 1024 \<Longrightarrow> 10 \<le> n \<Longrightarrow> n < 64 \<Longrightarrow> \<not> bit ty n"
proof -
  assume "ty < 1024" "10 \<le> n" "n < 64"
  then have "unat ty < 2 ^ 10" by (simp add: word_less_nat_alt)
  then have "\<not> bit (unat ty) n" using \<open>10 \<le> n\<close> by (metis bit_take_bit_iff leD take_bit_nat_eq_self)
  then show ?thesis by (simp add: bit_unsigned_iff \<open>n < 64\<close>)
qed

lemma bit_of_nat_high: "ppn < 2 ^ k \<Longrightarrow> k \<le> n \<Longrightarrow> \<not> bit (of_nat ppn :: u64) n"
proof -
  assume "ppn < 2 ^ k" "k \<le> n"
  then have "\<not> bit ppn n" by (metis bit_take_bit_iff leD take_bit_nat_eq_self)
  then show ?thesis by (simp add: bit_of_nat_iff)
qed

lemma PPN_create: "ppn < 2 ^ 44 \<Longrightarrow> ty < 1024 \<Longrightarrow> PPN (PTE_ADDR (pte_create ppn ty)) = ppn"
proof -
  assume p: "ppn < 2 ^ 44" and t: "ty < 1024"
  have "drop_bit 12 (PTE_ADDR (pte_create ppn ty)) = of_nat ppn"
  proof (rule bit_word_eqI)
    fix n assume n: "n < LENGTH(64)"
    show "bit (drop_bit 12 (PTE_ADDR (pte_create ppn ty))) n = bit (of_nat ppn :: u64) n"
      using n bit_of_nat_high [OF p, of n] bit_high [OF t, of "10 + n"]
      by (cases "n < 44") (auto simp: PTE_ADDR_def pte_create_def bit_drop_bit_eq bit_push_bit_iff bit_and_iff bit_not_iff bit_or_iff
          mask10 bit_mask_iff PTE_V_def bit_1_iff)
  qed
  moreover have "unat (of_nat ppn :: u64) = ppn" using p by (simp add: unat_of_nat)
  ultimately show ?thesis by (simp add: PPN_def)
qed

section \<open>Pages in use\<close>

abbreviation frees :: "'a paging_scheme \<Rightarrow> nat set" where
  "frees s \<equiv> free_page_set (phys s)"

definition pg_ok :: "'a paging_scheme \<Rightarrow> bool" where
  "pg_ok s \<longleftrightarrow> (\<exists>ps. free_blocks (phys s) ps) \<and> npage s \<le> 2 ^ 32 \<and> nbase \<le> npage s \<and>
     frees s \<subseteq> {..<npage s - nbase}"

text \<open>A page of physical memory that is not free.\<close>

definition in_use :: "'a paging_scheme \<Rightarrow> nat \<Rightarrow> bool" where
  "in_use s t \<longleftrightarrow> nbase \<le> t \<and> t < npage s \<and> t - nbase \<notin> frees s"

text \<open>Reference counts are kept outside a set of pages, and no page becomes reserved.\<close>

definition reserved :: "'a paging_scheme \<Rightarrow> nat \<Rightarrow> bool" where
  "reserved s q \<longleftrightarrow> PageReserved (pages (phys s) q)"

definition same_refs :: "'a paging_scheme \<Rightarrow> 'a paging_scheme \<Rightarrow> nat set \<Rightarrow> bool" where
  "same_refs s s' A \<longleftrightarrow> (\<forall>q. q \<notin> A \<longrightarrow> page_ref q s' = page_ref q s) \<and> (\<forall>q. reserved s' q \<longrightarrow> reserved s q)"

text \<open>A free page above this one, or none at all.\<close>

definition has_top :: "'a paging_scheme \<Rightarrow> nat \<Rightarrow> bool" where
  "has_top s q \<longleftrightarrow> frees s = {} \<or> (\<exists>f\<in>frees s. q < f)"

lemma has_top_Diff: "has_top s q \<Longrightarrow> frees s' = frees s - {p} \<Longrightarrow> \<forall>f\<in>frees s. p \<le> f \<Longrightarrow> has_top s' q"
proof -
  assume a: "has_top s q" "frees s' = frees s - {p}" "\<forall>f\<in>frees s. p \<le> f"
  show ?thesis
  proof (cases "frees s' = {}")
    case False
    then obtain g where g: "g \<in> frees s'" by blast
    then obtain f where f: "f \<in> frees s" "q < f" using a(1,2) by (auto simp: has_top_def)
    show ?thesis
    proof (cases "f = p")
      case True
      then have "q < g" using a(2,3) g f(2) by fastforce
      then show ?thesis using g by (auto simp: has_top_def)
    next
      case False
      then show ?thesis using f a(2) by (auto simp: has_top_def)
    qed
  qed (simp add: has_top_def)
qed

lemma upd_page_ref: "pg_ref (pages (upd_page p f m) q) = (if q = p then pg_ref (f (pages m p)) else pg_ref (pages m q))"
  by simp

lemma take_block_ref: "pg_ref (pages (take_block p n m) q) = pg_ref (pages m q)"
  by (simp add: take_block_def Let_def SetPageProperty_def ClearPageProperty_def)

lemma take_block_reserved: "PageReserved (pages (take_block p n m) q) = PageReserved (pages m q)"
proof -
  have "PageReserved (pg\<lparr>pg_property := k\<rparr>) = PageReserved pg" for pg k by (simp add: PageReserved_def)
  then show ?thesis by (simp add: take_block_def Let_def)
qed

lemma alloc_page_step:
  assumes ok: "pg_ok s"
  obtains (none) "alloc_page s = Some (None, s)" "frees s = {}"
  | (page) p s' where "alloc_page s = Some (Some p, s')" "p \<in> frees s" "frees s' = frees s - {p}" "pg_ok s'"
      "npage s' = npage s" "pmem s' = pmem s" "paging.more s' = paging.more s" "same_refs s s' {}" "\<forall>f\<in>frees s. p \<le> f"
proof -
  obtain ps where fb: "free_blocks (phys s) ps" using ok by (auto simp: pg_ok_def)
  note eq = default_alloc_pages_eq [OF fb zero_less_one]
  show ?thesis
  proof (cases "find (\<lambda>p. 1 \<le> psize (phys s) p) ps")
    case None
    then have "\<forall>p\<in>set ps. psize (phys s) p = 0" by (auto simp: find_None_iff)
    then have "frees s = {}" by (simp add: free_page_set_blocks [OF fb] covered_def)
    then show ?thesis using none None eq by (simp add: alloc_pages_def)
  next
    case (Some p)
    define m where "m = take_block p 1 (phys s)"
    have lay: "layout (psize (phys s)) ps" using fb by (simp add: free_blocks_def)
    then have "\<forall>p\<in>set ps. 1 \<le> psize (phys s) p" by (auto simp: layout_def Suc_le_eq)
    then obtain qs where qs: "ps = p # qs" using Some by (cases ps) (auto split: if_splits)
    have min: "\<forall>f\<in>frees s. p \<le> f" using lay by (fastforce simp: free_page_set_blocks [OF fb] covered_def qs)
    have a: "default_alloc_pages 1 (phys s) = Some (Some p, m)" using Some eq by (simp add: m_def)
    have b: "(\<exists>ps. free_blocks m ps) \<and> {p..<p + 1} \<subseteq> frees s \<and> free_page_set m = frees s - {p..<p + 1}"
      using first_fit.alloc_block [OF exI [of _ ps] zero_less_one a] fb by simp
    show ?thesis
    proof (rule page [of p "s\<lparr>phys := m\<rparr>"])
      show "alloc_page s = Some (Some p, s\<lparr>phys := m\<rparr>)" using a by (simp add: alloc_pages_def)
      show "pg_ok (s\<lparr>phys := m\<rparr>)" using b ok by (auto simp: pg_ok_def)
      show "same_refs s (s\<lparr>phys := m\<rparr>) {}" by (simp add: same_refs_def page_ref_def reserved_def m_def take_block_ref take_block_reserved)
    qed (use b min in auto)
  qed
qed

lemma set_page_ref_simps [simp]:
  "pmem (set_page_ref p v s) = pmem s" "npage (set_page_ref p v s) = npage s"
  "paging.more (set_page_ref p v s) = paging.more s"
  "page_ref q (set_page_ref p v s) = (if q = p then v else page_ref q s)" "reserved (set_page_ref p v s) q = reserved s q"
  by (simp_all add: set_page_ref_def page_ref_def reserved_def PageReserved_def)

lemma upd_ref_free [simp]: "free_page_set (upd_page p (\<lambda>pg. pg\<lparr>pg_ref := v\<rparr>) m) = free_page_set m"
proof -
  have "PageProperty ((pages (upd_page p (\<lambda>pg. pg\<lparr>pg_ref := v\<rparr>) m)) q) = PageProperty (pages m q)"
    "psize (upd_page p (\<lambda>pg. pg\<lparr>pg_ref := v\<rparr>) m) q = psize m q" for q
    by (simp_all add: PageProperty_def)
  then show ?thesis by (simp add: free_page_set_def)
qed

lemma upd_ref_blocks: "free_blocks m ps \<Longrightarrow> free_blocks (upd_page p (\<lambda>pg. pg\<lparr>pg_ref := v\<rparr>) m) ps"
proof -
  let ?m = "upd_page p (\<lambda>pg. pg\<lparr>pg_ref := v\<rparr>) m"
  have "psize ?m q = psize m q" "PageProperty (pages ?m q) = PageProperty (pages m q)"
    "PageReserved (pages ?m q) = PageReserved (pages m q)" for q
    by (simp_all add: PageProperty_def PageReserved_def)
  moreover assume "free_blocks m ps"
  ultimately show ?thesis by (simp add: free_blocks_def del: upd_page_simps(1))
qed

lemma frees_simps [simp]: "frees (set_page_ref p v s) = frees s"
  by (simp add: set_page_ref_def)

lemma pg_ok_set_ref [simp]: "pg_ok s \<Longrightarrow> pg_ok (set_page_ref p v s)"
  using upd_ref_blocks by (fastforce simp: pg_ok_def set_page_ref_def)

lemma mem_simps [simp]:
  "phys (set_entry t i e s) = phys s" "npage (set_entry t i e s) = npage s"
  "paging.more (set_entry t i e s) = paging.more s"
  "pmem (set_entry t i e s) = (pmem s)(t := (pmem s t)(i := e))"
  "phys (put_page k w s) = phys s" "npage (put_page k w s) = npage s"
  "paging.more (put_page k w s) = paging.more s" "pmem (put_page k w s) = (pmem s)(k := w)"
  by (simp_all add: set_entry_def put_page_def)

lemma ref_mem_simps [simp]:
  "page_ref q (set_entry t i e s) = page_ref q s" "page_ref q (put_page k w s) = page_ref q s"
  "reserved (set_entry t i e s) q = reserved s q" "reserved (put_page k w s) q = reserved s q"
  "pg_ok (set_entry t i e s) = pg_ok s" "pg_ok (put_page k w s) = pg_ok s"
  "in_use (set_entry t i e s) u = in_use s u" "in_use (put_page k w s) u = in_use s u"
  by (simp_all add: page_ref_def pg_ok_def in_use_def reserved_def)

section \<open>Page tables as trees\<close>

fun node :: "(nat \<Rightarrow> nat \<Rightarrow> u64) \<Rightarrow> nat \<Rightarrow> nat list \<Rightarrow> nat option" where
  "node f t [] = Some t"
| "node f t (i # is) = (if valid (f t i) then node f (PPN (PTE_ADDR (f t i))) is else None)"

lemma node_append: "node f r (p @ q) = (case node f r p of None \<Rightarrow> None | Some t \<Rightarrow> node f t q)"
  by (induction p arbitrary: r) auto

lemma node_cong:
  assumes "\<And>p j rest u. q = p @ j # rest \<Longrightarrow> node f r p = Some u \<Longrightarrow> f' u j = f u j"
  shows "node f' r q = node f r q"
  using assms
proof (induction q arbitrary: r)
  case (Cons i q)
  have e: "f' r i = f r i" using Cons.prems [of "[]" i q r] by simp
  have "node f' (PPN (PTE_ADDR (f r i))) q = node f (PPN (PTE_ADDR (f r i))) q" if "valid (f r i)"
  proof (rule Cons.IH)
    fix p j rest u
    assume "q = p @ j # rest" "node f (PPN (PTE_ADDR (f r i))) p = Some u"
    then show "f' u j = f u j" using Cons.prems [of "i # p" j rest u] that by simp
  qed
  then show ?case by (simp add: e)
qed simp

text \<open>The paths to the tables of the user part of an address space: the root, its first two entries and
  their tables.\<close>

definition upath :: "nat list \<Rightarrow> bool" where
  "upath p \<longleftrightarrow> length p \<le> 2 \<and> (\<forall>i\<in>set p. i < 512) \<and> (p \<noteq> [] \<longrightarrow> hd p < 2)"

definition pt_ok :: "'a paging_scheme \<Rightarrow> nat \<Rightarrow> bool" where
  "pt_ok s r \<longleftrightarrow>
     (\<forall>p t. upath p \<longrightarrow> node (pmem s) r p = Some t \<longrightarrow> in_use s t) \<and>
     (\<forall>p q t. upath p \<longrightarrow> upath q \<longrightarrow> node (pmem s) r p = Some t \<longrightarrow> node (pmem s) r q = Some t \<longrightarrow> p = q)"

definition table :: "'a paging_scheme \<Rightarrow> nat \<Rightarrow> nat \<Rightarrow> bool" where
  "table s r t \<longleftrightarrow> (\<exists>p. upath p \<and> node (pmem s) r p = Some t)"

definition translate :: "'a paging_scheme \<Rightarrow> nat \<Rightarrow> u64 \<Rightarrow> u64 option" where
  "translate s r la =
     (case node (pmem s) r [PDX1 la, PDX0 la] of
        None \<Rightarrow> None
      | Some t \<Rightarrow> if valid (pmem s t (PTX la)) then Some (pmem s t (PTX la)) else None)"

text \<open>The entry of an address in its last table, 0 where a table of the walk is missing.\<close>

definition leaf_entry :: "'a paging_scheme \<Rightarrow> nat \<Rightarrow> u64 \<Rightarrow> u64" where
  "leaf_entry s r la = (case node (pmem s) r [PDX1 la, PDX0 la] of None \<Rightarrow> 0 | Some t \<Rightarrow> pmem s t (PTX la))"

lemma translate_leaf: "translate s r la = (if valid (leaf_entry s r la) then Some (leaf_entry s r la) else None)"
  by (simp add: translate_def leaf_entry_def del: node.simps split: option.split)

lemma upath_prefix: "upath (p @ q) \<Longrightarrow> upath p"
  by (cases p) (auto simp: upath_def)

lemma upath_user: "la < USERTOP \<Longrightarrow> upath [PDX1 la, PDX0 la]"
proof -
  assume "la < USERTOP"
  then have "unat la < 2 * 2 ^ 30" by (simp add: USERTOP_def word_less_nat_alt)
  then have "unat la div 2 ^ 30 < 2" by (simp add: less_mult_imp_div_less)
  then show ?thesis using index_bound [of la] by (auto simp: upath_def index_nat(1))
qed

lemma pt_okD:
  assumes "pt_ok s r" "upath p" "node (pmem s) r p = Some t"
  shows "in_use s t" and "upath q \<Longrightarrow> node (pmem s) r q = Some t \<Longrightarrow> p = q"
  using assms unfolding pt_ok_def by blast+

lemma attach_node:
  assumes pt: "pt_ok s r" and pi: "upath (p @ [i])" and t: "node (pmem s) r p = Some t" "\<not> valid (pmem s t i)"
    and u: "u - nbase \<in> frees s" and e: "valid e" "PPN (PTE_ADDR e) = u" and q: "upath q"
    and f': "f' = ((pmem s)(u := (\<lambda>_. 0)))(t := (pmem s t)(i := e))"
  shows "node f' r q = (if q = p @ [i] then Some u else node (pmem s) r q)"
proof -
  let ?f = "pmem s"
  have up: "upath p" using upath_prefix [OF pi] .
  have nu: "v \<noteq> u" if "upath p'" "node ?f r p' = Some v" for p' v
    using pt_okD(1) [OF pt that] u by (auto simp: in_use_def)
  have tu: "t \<noteq> u" using nu [OF up t(1)] .
  have eq: "node f' r q' = node ?f r q'" if q': "upath q'" "\<And>rest. q' \<noteq> p @ i # rest" for q'
  proof (rule node_cong)
    fix p' j rest v
    assume a: "q' = p' @ j # rest" "node ?f r p' = Some v"
    have up': "upath p'" using upath_prefix q'(1) a(1) by blast
    have "\<not> (v = t \<and> j = i)" using pt_okD(2) [OF pt up' a(2) up] t(1) a(1) q'(2) by auto
    then show "f' v j = ?f v j" using nu [OF up' a(2)] tu by (auto simp: f')
  qed
  have np: "p \<noteq> p @ i # rest" for rest by simp
  have pt': "node f' r p = Some t" using eq [OF up np] t(1) by simp
  have fti: "f' t i = e" by (simp add: f')
  show ?thesis
  proof (cases "\<exists>rest. q = p @ i # rest")
    case True
    then obtain rest where rest: "q = p @ i # rest" by blast
    have "node f' r q = node f' u rest" using rest pt' fti e by (simp add: node_append)
    moreover have "node ?f r q = None" using rest t by (simp add: node_append)
    moreover have "rest \<noteq> [] \<Longrightarrow> node f' u rest = None" using tu by (cases rest) (auto simp: f')
    ultimately show ?thesis using rest by (cases "rest = []") auto
  next
    case False
    then show ?thesis using eq [OF q] by auto
  qed
qed

definition pt_ext :: "'a paging_scheme \<Rightarrow> nat \<Rightarrow> 'a paging_scheme \<Rightarrow> bool" where
  "pt_ext s r s' \<longleftrightarrow> pg_ok s' \<and> pt_ok s' r \<and> npage s' = npage s \<and> paging.more s' = paging.more s \<and>
     frees s' \<subseteq> frees s \<and> same_refs s s' (frees s - frees s') \<and> (\<forall>q. has_top s q \<longrightarrow> has_top s' q) \<and>
     (\<forall>p t. upath p \<longrightarrow> node (pmem s) r p = Some t \<longrightarrow> node (pmem s') r p = Some t) \<and>
     (\<forall>u. table s' r u \<longrightarrow> table s r u \<or> u - nbase \<in> frees s - frees s') \<and>
     (\<forall>u. in_use s u \<longrightarrow> \<not> table s r u \<longrightarrow> pmem s' u = pmem s u) \<and>
     (\<forall>la<USERTOP. translate s' r la = translate s r la) \<and> (\<forall>la<USERTOP. leaf_entry s' r la = leaf_entry s r la)"

lemma pt_ext_refl: "pg_ok s \<Longrightarrow> pt_ok s r \<Longrightarrow> pt_ext s r s"
  by (simp add: pt_ext_def same_refs_def)

lemma in_use_mono: "in_use s u \<Longrightarrow> npage s' = npage s \<Longrightarrow> frees s' \<subseteq> frees s \<Longrightarrow> in_use s' u"
  by (auto simp: in_use_def)

lemma pt_ext_trans:
  assumes "pt_ext s r s1" "pt_ext s1 r s2"
  shows "pt_ext s r s2"
proof -
  have fr: "frees s2 \<subseteq> frees s1" "frees s1 \<subseteq> frees s" using assms by (auto simp: pt_ext_def)
  have "same_refs s s2 (frees s - frees s2)" using assms fr by (auto simp: pt_ext_def same_refs_def)
  moreover have "table s2 r u \<Longrightarrow> table s r u \<or> u - nbase \<in> frees s - frees s2" for u
    using assms fr unfolding pt_ext_def by blast
  moreover have "pmem s2 u = pmem s u" if "in_use s u" "\<not> table s r u" for u
  proof -
    have "in_use s1 u" using that assms(1) in_use_mono [of s u s1] by (auto simp: pt_ext_def)
    moreover have "\<not> table s1 r u" using that assms(1) unfolding pt_ext_def in_use_def by blast
    ultimately show ?thesis using that assms unfolding pt_ext_def by metis
  qed
  ultimately show ?thesis using assms unfolding pt_ext_def by auto
qed

lemma attach_ext:
  assumes ok: "pg_ok s" and pt: "pt_ok s r" and pi: "upath (p @ [i])"
    and t: "node (pmem s) r p = Some t" "\<not> valid (pmem s t i)"
    and g: "g \<in> frees s" and s1: "frees s1 = frees s - {g}" "pg_ok s1" "npage s1 = npage s" "pmem s1 = pmem s"
      "paging.more s1 = paging.more s" "same_refs s s1 {}" "\<forall>f\<in>frees s. g \<le> f"
    and e: "valid e" "PPN (PTE_ADDR e) = g + nbase"
    and s': "s' = set_entry t i e (put_page (g + nbase) (\<lambda>_. 0) (set_page_ref g 1 s1))"
  shows "pt_ext s r s'" and "node (pmem s') r (p @ [i]) = Some (g + nbase)"
proof -
  let ?u = "g + nbase"
  have up: "upath p" using upath_prefix [OF pi] .
  have u: "?u - nbase \<in> frees s" using g by simp
  have nu: "v \<noteq> ?u" if "upath p'" "node (pmem s) r p' = Some v" for p' v
    using pt_okD(1) [OF pt that] u by (auto simp: in_use_def)
  have f': "pmem s' = ((pmem s)(?u := (\<lambda>_. 0)))(t := (pmem s t)(i := e))"
    using nu [OF up t(1)] s1(4) by (simp add: s' fun_upd_twist)
  have n: "node (pmem s') r q = (if q = p @ [i] then Some ?u else node (pmem s) r q)" if "upath q" for q
    by (rule attach_node [OF pt pi t u e that f'])
  then show ni: "node (pmem s') r (p @ [i]) = Some ?u" using pi by simp
  have fr: "frees s' = frees s - {g}" "npage s' = npage s" "paging.more s' = paging.more s" "pg_ok s'"
    using s1 by (simp_all add: s')
  have usu: "in_use s' ?u" using g ok fr by (auto simp: in_use_def pg_ok_def)
  have us: "in_use s' v" if "in_use s v" for v using that fr by (auto simp: in_use_def)
  have "pt_ok s' r"
    unfolding pt_ok_def
  proof (intro conjI allI impI)
    fix q v assume "upath q" "node (pmem s') r q = Some v"
    then show "in_use s' v" using n usu us pt_okD(1) [OF pt, of q v] by (metis option.inject)
  next
    fix q q' v assume q: "upath q" "upath q'" "node (pmem s') r q = Some v" "node (pmem s') r q' = Some v"
    show "q = q'"
    proof (cases "v = ?u")
      case True
      have "q = p @ [i]" using n [OF q(1)] q(3) nu [OF q(1), of v] True by (auto split: if_splits)
      moreover have "q' = p @ [i]" using n [OF q(2)] q(4) nu [OF q(2), of v] True by (auto split: if_splits)
      ultimately show ?thesis by simp
    next
      case False
      have "node (pmem s) r q = Some v" using n [OF q(1)] q(3) False by (cases "q = p @ [i]") auto
      moreover have "node (pmem s) r q' = Some v" using n [OF q(2)] q(4) False by (cases "q' = p @ [i]") auto
      ultimately show ?thesis using pt_okD(2) [OF pt q(1) _ q(2)] by blast
    qed
  qed
  moreover have leaf: "leaf_entry s' r la = leaf_entry s r la" if la: "la < USERTOP" for la
  proof (cases "[PDX1 la, PDX0 la] = p @ [i]")
    case True
    have "node (pmem s) r [PDX1 la, PDX0 la] = None" using t unfolding True by (simp add: node_append)
    moreover have "pmem s' ?u (PTX la) = 0" using nu [OF up t(1)] by (simp add: f')
    ultimately show ?thesis using ni unfolding leaf_entry_def True by simp
  next
    case False
    have ul: "upath [PDX1 la, PDX0 la]" using upath_user [OF la] .
    have "pmem s' v = pmem s v" if v: "node (pmem s) r [PDX1 la, PDX0 la] = Some v" for v
    proof -
      have "v \<noteq> t"
      proof
        assume "v = t"
        then have "p = [PDX1 la, PDX0 la]" using pt_okD(2) [OF pt up t(1) ul] v by simp
        then show False using pi by (simp add: upath_def)
      qed
      then show ?thesis using nu [OF ul v] by (simp add: f')
    qed
    then show ?thesis using n [OF ul] False by (auto simp: leaf_entry_def split: option.splits)
  qed
  moreover have "translate s' r la = translate s r la" if la: "la < USERTOP" for la
    using leaf [OF la] by (simp add: translate_leaf)
  moreover have "table s' r v \<Longrightarrow> table s r v \<or> v - nbase \<in> frees s - frees s'" for v
    using n g fr(1) unfolding table_def by (metis add_diff_cancel_right' insert_Diff insert_iff Diff_iff option.inject)
  moreover have "pmem s' v = pmem s v" if "in_use s v" "\<not> table s r v" for v
    using that t(1) up u by (auto simp: f' table_def in_use_def)
  moreover have "node (pmem s') r q = Some v" if "upath q" "node (pmem s) r q = Some v" for q v
  proof -
    have "q \<noteq> p @ [i]" using that(2) t by (auto simp: node_append)
    then show ?thesis using n that by simp
  qed
  moreover have "page_ref q s' = page_ref q s" if "q \<noteq> g" for q using s1(6) that by (simp add: s' same_refs_def)
  then have "same_refs s s' (frees s - frees s')"
    using g s1(6) unfolding same_refs_def fr(1) by (auto simp: s')
  moreover have "has_top s q \<Longrightarrow> has_top s' q" for q using has_top_Diff [OF _ fr(1) s1(7)] by blast
  ultimately show "pt_ext s r s'" using fr by (auto simp: pt_ext_def)
qed

lemma walk_level_found:
  assumes "pg_ok s" "pt_ok s r" "upath (p @ [i])" "node (pmem s) r p = Some t" "valid (pmem s t i)"
  shows "walk_level c t i s = Some (Some (PPN (PTE_ADDR (pmem s t i))), s)"
    and "node (pmem s) r (p @ [i]) = Some (PPN (PTE_ADDR (pmem s t i)))"
proof -
  show n: "node (pmem s) r (p @ [i]) = Some (PPN (PTE_ADDR (pmem s t i)))" using assms by (simp add: node_append)
  then have "in_use s (PPN (PTE_ADDR (pmem s t i)))" using pt_okD(1) [OF assms(2,3)] by blast
  then show "walk_level c t i s = Some (Some (PPN (PTE_ADDR (pmem s t i))), s)"
    using assms(5) by (simp add: walk_level_def KADDR_def in_use_def)
qed

lemma walk_level_create:
  assumes ok: "pg_ok s" and pt: "pt_ok s r" and pi: "upath (p @ [i])" and t: "node (pmem s) r p = Some t"
  obtains (found) u s' where "walk_level True t i s = Some (Some u, s')" "pt_ext s r s'" "node (pmem s') r (p @ [i]) = Some u"
      "if valid (pmem s t i) then s' = s else card (frees s) = Suc (card (frees s')) \<and> pmem s' u = (\<lambda>_. 0)"
  | (full) "walk_level True t i s = Some (None, s)" "frees s = {}" "\<not> valid (pmem s t i)"
proof (cases "valid (pmem s t i)")
  case True
  then show ?thesis
    using found [OF walk_level_found(1) [OF ok pt pi t True] pt_ext_refl [OF ok pt] walk_level_found(2) [OF ok pt pi t True]] True by simp
next
  case False
  show ?thesis
    using ok
  proof (cases rule: alloc_page_step)
    case none
    then show ?thesis using full False by (simp add: walk_level_def)
  next
    case (page g s1)
    let ?e = "pte_create (page2ppn g) (PTE_U OR PTE_V)"
    have g: "g + nbase < npage s" "npage s \<le> 2 ^ 32" using page(2) ok by (auto simp: pg_ok_def)
    have "(PTE_U OR PTE_V :: u64) < 1024" by (simp add: PTE_U_def PTE_V_def)
    then have e: "valid ?e" "PPN (PTE_ADDR ?e) = g + nbase" using g by (simp_all add: PPN_create page2ppn_def)
    define s' where "s' = set_entry t i ?e (put_page (g + nbase) (\<lambda>_. 0) (set_page_ref g 1 s1))"
    note x = attach_ext [OF ok pt pi t False page(2-9) e s'_def]
    have "pmem s' t i = ?e" by (simp add: s'_def)
    then have "walk_level True t i s = Some (Some (g + nbase), s')"
      using False page(1,5) g e(2) by (simp add: walk_level_def KADDR_def page2ppn_def s'_def)
    moreover have "card (frees s) = Suc (card (frees s')) \<and> pmem s' (g + nbase) = (\<lambda>_. 0)"
    proof
      have "finite (frees s)" using ok finite_subset [of "frees s" "{..<npage s - nbase}"] by (auto simp: pg_ok_def)
      then show "card (frees s) = Suc (card (frees s'))" using card.remove [OF _ page(2)] by (simp add: s'_def page(3))
      have "t \<noteq> g + nbase"
        using pt_okD(1) [OF pt upath_prefix [OF pi] t] page(2) by (auto simp: in_use_def)
      then show "pmem s' (g + nbase) = (\<lambda>_. 0)" by (simp add: s'_def)
    qed
    ultimately show ?thesis using found x False by auto
  qed
qed

text \<open>The walk without creation reads the tree; with creation it returns the entry in a tree extended by
  empty tables, or finds the memory exhausted.\<close>

lemma get_pte_read:
  assumes ok: "pg_ok s" and pt: "pt_ok s r" and la: "la < USERTOP"
  shows "get_pte r la False s = Some (map_option (\<lambda>t. (t, PTX la)) (node (pmem s) r [PDX1 la, PDX0 la]), s)"
proof -
  have u2: "upath ([PDX1 la] @ [PDX0 la])" using upath_user [OF la] by simp
  have u1: "upath ([] @ [PDX1 la])" using upath_prefix [OF u2] by simp
  show ?thesis
  proof (cases "valid (pmem s r (PDX1 la))")
    case True
    note w1 = walk_level_found [OF ok pt u1 node.simps(1) True]
    let ?d = "PPN (PTE_ADDR (pmem s r (PDX1 la)))"
    have n1: "node (pmem s) r [PDX1 la] = Some ?d" using w1(2) by simp
    show ?thesis
    proof (cases "valid (pmem s ?d (PDX0 la))")
      case v: True
      note w0 = walk_level_found [OF ok pt u2 n1 v]
      show ?thesis using w1(1) w0 by (simp add: get_pte_def)
    next
      case False
      then show ?thesis using w1(1) True by (simp add: get_pte_def walk_level_def [of False ?d])
    qed
  next
    case False
    then show ?thesis by (simp add: get_pte_def walk_level_def)
  qed
qed

text \<open>How many tables the walk has to create.\<close>

definition tables_missing :: "'a paging_scheme \<Rightarrow> nat \<Rightarrow> u64 \<Rightarrow> nat" where
  "tables_missing s r la =
     (if node (pmem s) r [PDX1 la, PDX0 la] \<noteq> None then 0 else if node (pmem s) r [PDX1 la] \<noteq> None then 1 else 2)"

lemma get_pte_create:
  assumes ok: "pg_ok s" and pt: "pt_ok s r" and la: "la < USERTOP"
  obtains (found) t s' where "get_pte r la True s = Some (Some (t, PTX la), s')" "pt_ext s r s'"
      "node (pmem s') r [PDX1 la, PDX0 la] = Some t" "card (frees s) = card (frees s') + tables_missing s r la"
  | (full) s' where "get_pte r la True s = Some (None, s')" "pt_ext s r s'" "frees s' = {}" "card (frees s) < tables_missing s r la"
proof -
  have u2: "upath ([PDX1 la] @ [PDX0 la])" using upath_user [OF la] by simp
  have u1: "upath ([] @ [PDX1 la])" using upath_prefix [OF u2] by simp
  show ?thesis
    using ok pt u1 node.simps(1)
  proof (cases rule: walk_level_create)
    case f1: (found d s1)
    have s1: "pg_ok s1" "pt_ok s1 r" using f1(2) by (simp_all add: pt_ext_def)
    have n1: "node (pmem s1) r [PDX1 la] = Some d" using f1(3) by simp
    have k: "card (frees s) = card (frees s1) + (if valid (pmem s r (PDX1 la)) then 0 else 1)"
      and miss: "tables_missing s r la = (if valid (pmem s r (PDX1 la)) then 0 else 1) + (if valid (pmem s1 d (PDX0 la)) then 0 else 1)"
      using f1(4) n1 by (auto simp: tables_missing_def split: if_splits)
    show ?thesis
      using s1 u2 n1
    proof (cases rule: walk_level_create)
      case f2: (found t s2)
      have "get_pte r la True s = Some (Some (t, PTX la), s2)" using f1(1) f2(1) by (simp add: get_pte_def)
      moreover have "card (frees s) = card (frees s2) + tables_missing s r la" using f2(4) k miss by (auto split: if_splits)
      ultimately show ?thesis using that(1) pt_ext_trans [OF f1(2) f2(2)] f2(3) by simp
    next
      case full
      have "get_pte r la True s = Some (None, s1)" using f1(1) full(1) by (simp add: get_pte_def)
      moreover have "card (frees s) < tables_missing s r la" using full(2,3) k miss by simp
      ultimately show ?thesis using that(2) f1(2) full(2) by simp
    qed
  next
    case full
    have "get_pte r la True s = Some (None, s)" using full(1) by (simp add: get_pte_def)
    moreover have "card (frees s) < tables_missing s r la" using full(2,3) by (simp add: tables_missing_def)
    ultimately show ?thesis using that(2) pt_ext_refl [OF ok pt] full(2) by simp
  qed
qed

section \<open>Releasing a page\<close>

lemma insert_block_pages: "insert_block b m = Some m' \<Longrightarrow> pages m' = pages m"
  by (auto simp: insert_block_def split: if_splits elim!: bind_SomeE)

lemma merge_ref:
  "pg_ref (pages (snd (merge_prev b m)) q) = pg_ref (pages m q)" "pg_ref (pages (merge_next b m) q) = pg_ref (pages m q)"
  by (simp_all add: merge_prev_def merge_next_def Let_def ClearPageProperty_def)

lemma merge_reserved:
  "PageReserved (pages (snd (merge_prev b m)) q) = PageReserved (pages m q)"
  "PageReserved (pages (merge_next b m) q) = PageReserved (pages m q)"
proof -
  have "PageReserved (pg\<lparr>pg_property := k\<rparr>) = PageReserved pg" for pg k by (simp add: PageReserved_def)
  then show "PageReserved (pages (snd (merge_prev b m)) q) = PageReserved (pages m q)"
    "PageReserved (pages (merge_next b m) q) = PageReserved (pages m q)"
    by (simp_all add: merge_prev_def merge_next_def Let_def)
qed

lemma default_free_one:
  assumes "default_free_pages b 1 m = Some m'"
  shows "pg_ref (pages m' q) = (if q = b then 0 else pg_ref (pages m q))"
    and "PageReserved (pages m' q) \<Longrightarrow> PageReserved (pages m q)"
proof -
  let ?m1 = "upd_page b (\<lambda>pg. pg\<lparr>pg_flags := 0, pg_ref := 0\<rparr>) m"
  let ?m2 = "upd_page b (\<lambda>pg. SetPageProperty (pg\<lparr>pg_property := to_u32 1\<rparr>)) ?m1"
  let ?m3 = "?m2\<lparr>nr_free := to_u32 (nr_free ?m2 + 1)\<rparr>"
  have fr: "free_pages_reset b 1 m = (if \<not> PageReserved (pages m b) \<and> \<not> PageProperty (pages m b) then Some ?m1 else None)"
    unfolding One_nat_def free_pages_reset.simps by simp
  have g: "\<not> PageReserved (pages m b) \<and> \<not> PageProperty (pages m b)"
    using assms unfolding default_free_pages_def fr by (auto split: if_splits)
  then obtain m4 where m4: "insert_block b ?m3 = Some m4" "m' = merge_next (fst (merge_prev b m4)) (snd (merge_prev b m4))"
    using assms fr by (auto simp: default_free_pages_def Let_def split: prod.splits elim!: bind_SomeE)
  have p: "pages m4 = pages ?m3" using insert_block_pages [OF m4(1)] .
  show "pg_ref (pages m' q) = (if q = b then 0 else pg_ref (pages m q))"
    by (simp add: m4(2) merge_ref p SetPageProperty_def)
  assume "PageReserved (pages m' q)"
  then show "PageReserved (pages m q)"
    by (simp add: m4(2) merge_reserved p split: if_splits)
qed

text \<open>A page can be given back if it is in use, not reserved, and below some free page, or no page is free.\<close>

definition can_release :: "'a paging_scheme \<Rightarrow> nat \<Rightarrow> bool" where
  "can_release s q \<longleftrightarrow> q < npage s - nbase \<and> q \<notin> frees s \<and> \<not> reserved s q \<and> has_top s q"

lemma free_page_step:
  assumes ok: "pg_ok s" and q: "can_release s q"
  obtains s' where "free_page q s = Some s'" "pg_ok s'" "frees s' = insert q (frees s)" "pmem s' = pmem s"
    "npage s' = npage s" "paging.more s' = paging.more s" "same_refs s s' {q}" "page_ref q s' = 0"
proof -
  obtain ps where fb: "free_blocks (phys s) ps" using ok by (auto simp: pg_ok_def)
  have sub: "frees s \<subseteq> {..<npage s - nbase}" and np: "npage s \<le> 2 ^ 32" using ok by (auto simp: pg_ok_def)
  have "insert q (frees s) \<subseteq> {..<npage s - nbase}" using sub q by (auto simp: can_release_def)
  then have "card (insert q (frees s)) \<le> npage s - nbase" using card_mono [of "{..<npage s - nbase}"] by fastforce
  moreover have "card (insert q (frees s)) = Suc (card (frees s))"
    using q finite_subset [OF sub] by (simp add: can_release_def)
  moreover have "nbase > 0" by (simp add: nbase_def)
  ultimately have nf: "nr_free (phys s) + 1 < 2 ^ 32" using nr_free_card [OF fb] np by linarith
  have cf: "can_free q 1 (phys s)" using q nf by (auto simp: can_free_def can_release_def reserved_def less_Suc_eq_le dest: le_antisym)
  have "ps = [] \<or> (\<exists>p\<in>set ps. q < p)"
  proof (cases "frees s = {}")
    case True
    then have "covered (psize (phys s)) ps = {}" using free_page_set_blocks [OF fb] by simp
    moreover have "\<forall>p\<in>set ps. 0 < psize (phys s) p" using fb by (simp add: free_blocks_def layout_def)
    ultimately show ?thesis by (cases ps) auto
  next
    case False
    then obtain f where f: "f \<in> frees s" "q < f" using q by (auto simp: can_release_def has_top_def)
    then obtain p where p: "p \<in> set ps" "p \<le> f" "f < p + psize (phys s) p"
      by (auto simp: free_page_set_blocks [OF fb] covered_def)
    have "q < p"
    proof (rule ccontr)
      assume "\<not> q < p"
      then have "q \<in> frees s"
        using p f(2) by (auto simp: free_page_set_blocks [OF fb] covered_def intro!: bexI [of _ p])
      then show False using q by (simp add: can_release_def)
    qed
    then show ?thesis using p(1) by blast
  qed
  then obtain m' ps' where m: "default_free_pages q 1 (phys s) = Some m'" "free_blocks m' ps'"
    "free_page_set m' = frees s \<union> {q..<q + 1}"
    using default_free_adds [OF fb cf] by blast
  show ?thesis
  proof (rule that [of "s\<lparr>phys := m'\<rparr>"])
    show "free_page q s = Some (s\<lparr>phys := m'\<rparr>)" using m(1) by (simp add: free_pages_def)
    show "pg_ok (s\<lparr>phys := m'\<rparr>)" using m ok q by (auto simp: pg_ok_def can_release_def)
    show "same_refs s (s\<lparr>phys := m'\<rparr>) {q}" "page_ref q (s\<lparr>phys := m'\<rparr>) = 0"
      using default_free_one [OF m(1)] by (simp_all add: same_refs_def page_ref_def reserved_def)
  qed (use m in auto)
qed

section \<open>Leaf entries\<close>

definition vpn :: "u64 \<Rightarrow> nat" where "vpn la = unat la div 4096"

lemma index_vpn: "PTX la = vpn la mod 512" "PDX0 la = vpn la div 512 mod 512" "PDX1 la = vpn la div 512 div 512 mod 512"
  by (simp_all add: index_nat vpn_def flip: div_mult2_eq)

lemma vpn_eq_iff:
  assumes "la < USERTOP" "la' < USERTOP"
  shows "vpn la = vpn la' \<longleftrightarrow> PDX1 la = PDX1 la' \<and> PDX0 la = PDX0 la' \<and> PTX la = PTX la'"
proof -
  have b: "vpn x div 512 div 512 < 512" if "x < USERTOP" for x
    using that by (simp add: vpn_def USERTOP_def word_less_nat_alt flip: div_mult2_eq)
  have d: "v = w" if "v div 512 div 512 = w div 512 div 512" "v div 512 mod 512 = w div 512 mod 512" "v mod 512 = w mod 512"
    for v w :: nat using that by (metis div_mult_mod_eq)
  show ?thesis
    using b [OF assms(1)] b [OF assms(2)] d [of "vpn la" "vpn la'"] by (auto simp: index_vpn)
qed

definition put_leaf :: "('k \<rightharpoonup> u64) \<Rightarrow> ('k \<Rightarrow> bool) \<Rightarrow> u64 \<Rightarrow> ('k \<rightharpoonup> u64)" where
  "put_leaf m P e = (\<lambda>k. if P k then if valid e then Some e else None else m k)"

lemma set_leaf:
  assumes pt: "pt_ok s r" and la: "la < USERTOP" and t: "node (pmem s) r [PDX1 la, PDX0 la] = Some t"
    and s': "pmem s' = (pmem s)(t := (pmem s t)(PTX la := e))" "npage s' = npage s" "t - nbase \<notin> frees s'"
      "\<forall>u. table s r u \<longrightarrow> in_use s' u"
  shows "pt_ok s' r" and "table s' r u = table s r u"
    and "la' < USERTOP \<Longrightarrow> translate s' r la' = put_leaf (translate s r) (\<lambda>x. vpn x = vpn la) e la'"
    and "u \<noteq> t \<Longrightarrow> pmem s' u = pmem s u" and "upath q \<Longrightarrow> node (pmem s') r q = node (pmem s) r q"
proof -
  have ul: "upath [PDX1 la, PDX0 la]" using upath_user [OF la] .
  show n: "node (pmem s') r q = node (pmem s) r q" if "upath q" for q
  proof (rule node_cong)
    fix p j rest u assume a: "q = p @ j # rest" "node (pmem s) r p = Some u"
    have up: "upath p" using upath_prefix that a(1) by blast
    have "u \<noteq> t"
    proof
      assume "u = t"
      then have "p = [PDX1 la, PDX0 la]" using pt_okD(2) [OF pt up _ ul] a(2) t by blast
      then show False using that a(1) by (simp add: upath_def)
    qed
    then show "pmem s' u j = pmem s u j" by (simp add: s'(1))
  qed
  show tb: "table s' r u = table s r u" for u unfolding table_def using n by auto
  show "pt_ok s' r"
    unfolding pt_ok_def
  proof (intro conjI allI impI)
    fix p u assume p: "upath p" "node (pmem s') r p = Some u"
    then have "table s r u" using tb by (auto simp: table_def)
    then show "in_use s' u" using s'(4) by blast
  next
    fix p q u assume "upath p" "upath q" "node (pmem s') r p = Some u" "node (pmem s') r q = Some u"
    then show "p = q" using n pt_okD(2) [OF pt, of p u q] by simp
  qed
  show "pmem s' u = pmem s u" if "u \<noteq> t" for u using that by (simp add: s'(1))
  show "translate s' r la' = put_leaf (translate s r) (\<lambda>x. vpn x = vpn la) e la'" if la': "la' < USERTOP" for la'
  proof -
    have ul': "upath [PDX1 la', PDX0 la']" using upath_user [OF la'] .
    show ?thesis
    proof (cases "vpn la' = vpn la")
      case True
      then have "PDX1 la' = PDX1 la" "PDX0 la' = PDX0 la" "PTX la' = PTX la" using vpn_eq_iff [OF la' la] by auto
      then show ?thesis using n [OF ul] t True unfolding translate_def put_leaf_def by (simp add: s'(1))
    next
      case False
      have "pmem s' v (PTX la') = pmem s v (PTX la')" if v: "node (pmem s) r [PDX1 la', PDX0 la'] = Some v" for v
      proof (cases "v = t")
        case True
        then have "[PDX1 la', PDX0 la'] = [PDX1 la, PDX0 la]" using pt_okD(2) [OF pt ul' v ul] t by simp
        then have "PTX la' \<noteq> PTX la" using False vpn_eq_iff [OF la' la] by auto
        then show ?thesis using True by (simp add: s'(1))
      next
        case False
        then show ?thesis by (simp add: s'(1))
      qed
      then show ?thesis using n [OF ul'] False unfolding translate_def put_leaf_def by (auto split: option.splits)
    qed
  qed
qed

text \<open>The page a valid entry points to.\<close>

abbreviation target :: "u64 \<Rightarrow> nat" where
  "target e \<equiv> PPN (PTE_ADDR e) - nbase"

text \<open>A page with a positive reference count that can be given back when the count drops to zero.\<close>

definition page_live :: "'a paging_scheme \<Rightarrow> nat \<Rightarrow> bool" where
  "page_live s q \<longleftrightarrow> can_release s q \<and> 0 < page_ref q s"

definition maps_ok :: "'a paging_scheme \<Rightarrow> nat \<Rightarrow> bool" where
  "maps_ok s r \<longleftrightarrow> (\<forall>la e. la < USERTOP \<longrightarrow> translate s r la = Some e \<longrightarrow>
     nbase \<le> PPN (PTE_ADDR e) \<and> page_live s (target e) \<and> \<not> table s r (PPN (PTE_ADDR e)))"

text \<open>The two halves of \<^verbatim>\<open>maps_ok\<close>: every user address is mapped to a page that is in use, has a reference, and is not a
  table; and above every mapped page there is a free one, or none is free at all. The second half is no property of the address space but
  the condition under which \<^verbatim>\<open>default_free_pages\<close> can take the page back: it loops for ever when it has to put a block behind the last
  one.\<close>

definition maps_sound :: "'a paging_scheme \<Rightarrow> nat \<Rightarrow> bool" where
  "maps_sound s r \<longleftrightarrow> (\<forall>la e. la < USERTOP \<longrightarrow> translate s r la = Some e \<longrightarrow>
     in_use s (PPN (PTE_ADDR e)) \<and> \<not> reserved s (target e) \<and> 0 < page_ref (target e) s \<and> \<not> table s r (PPN (PTE_ADDR e)))"

definition room_above :: "'a paging_scheme \<Rightarrow> nat \<Rightarrow> bool" where
  "room_above s r \<longleftrightarrow> (\<forall>la e. la < USERTOP \<longrightarrow> translate s r la = Some e \<longrightarrow> frees s = {} \<or> (\<exists>f\<in>frees s. target e < f))"

lemma maps_ok_split: "maps_ok s r \<longleftrightarrow> maps_sound s r \<and> room_above s r"
proof -
  have "nbase \<le> x \<and> page_live s (x - nbase) \<longleftrightarrow>
      in_use s x \<and> \<not> reserved s (x - nbase) \<and> 0 < page_ref (x - nbase) s \<and> has_top s (x - nbase)" for x
    by (auto simp: page_live_def can_release_def in_use_def)
  then show ?thesis unfolding maps_ok_def maps_sound_def room_above_def has_top_def by meson
qed

definition leaf_step :: "'a paging_scheme \<Rightarrow> nat \<Rightarrow> u64 \<Rightarrow> u64 \<Rightarrow> 'a paging_scheme \<Rightarrow> bool" where
  "leaf_step s r la e s' \<longleftrightarrow> pg_ok s' \<and> pt_ok s' r \<and> npage s' = npage s \<and> paging.more s' = paging.more s \<and>
     (\<forall>q. upath q \<longrightarrow> node (pmem s') r q = node (pmem s) r q) \<and>
     (\<forall>la'<USERTOP. translate s' r la' = put_leaf (translate s r) (\<lambda>x. vpn x = vpn la) e la') \<and>
     (\<forall>u. \<not> table s r u \<longrightarrow> pmem s' u = pmem s u)"

lemma table_in_use: "pt_ok s r \<Longrightarrow> table s r u \<Longrightarrow> in_use s u"
  using pt_okD(1) by (auto simp: table_def)

lemma leaf_stepI:
  assumes pt: "pt_ok s r" and la: "la < USERTOP" and t: "node (pmem s) r [PDX1 la, PDX0 la] = Some t"
    and s2: "pg_ok s2" "pmem s2 = pmem s" "npage s2 = npage s" "paging.more s2 = paging.more s"
    and u: "\<And>u. table s r u \<Longrightarrow> in_use s2 u"
  shows "leaf_step s r la e (set_entry t (PTX la) e s2)"
proof -
  let ?s = "set_entry t (PTX la) e s2"
  have tt: "table s r t" using t upath_user [OF la] by (auto simp: table_def)
  have m: "pmem ?s = (pmem s)(t := (pmem s t)(PTX la := e))" "npage ?s = npage s" "t - nbase \<notin> frees ?s"
    using s2 u [OF tt] by (auto simp: in_use_def)
  have iu: "\<forall>u. table s r u \<longrightarrow> in_use ?s u" using u by simp
  note l = set_leaf [OF pt la t m iu]
  have "pmem ?s v = pmem s v" if "\<not> table s r v" for v by (rule l(4)) (use that tt in blast)
  then show ?thesis using l s2 unfolding leaf_step_def by simp
qed

lemma remove_pte_step:
  assumes ok: "pg_ok s" and pt: "pt_ok s r" and la: "la < USERTOP" and t: "node (pmem s) r [PDX1 la, PDX0 la] = Some t"
    and e: "valid (pmem s t (PTX la))" and q: "q = target (pmem s t (PTX la))"
    and n: "nbase \<le> PPN (PTE_ADDR (pmem s t (PTX la)))" "\<not> table s r (PPN (PTE_ADDR (pmem s t (PTX la))))"
    and live: "page_live s q"
  obtains s' where "page_remove_pte r la (t, PTX la) s = Some s'" "leaf_step s r la 0 s'" "same_refs s s' {q}"
    "page_ref q s' = page_ref q s - 1" "frees s' = (if page_ref q s = 1 then insert q (frees s) else frees s)"
proof -
  let ?e = "pmem s t (PTX la)"
  have cr: "can_release s q" using live by (simp add: page_live_def)
  have "q < npage s - nbase" using cr by (simp add: can_release_def)
  then have "PPN (PTE_ADDR ?e) < npage s" using n(1) q by linarith
  then have p2: "pte2page ?e s = Some q" using e n q by (simp add: pte2page_def pa2page_def)
  define s1 where "s1 = page_ref_dec q s"
  have s1: "pg_ok s1" "frees s1 = frees s" "pmem s1 = pmem s" "npage s1 = npage s" "paging.more s1 = paging.more s"
    "same_refs s s1 {q}" "page_ref q s1 = page_ref q s - 1"
    using ok by (simp_all add: s1_def page_ref_dec_def same_refs_def)
  have cr1: "can_release s1 q" using cr s1 by (auto simp: can_release_def has_top_def s1_def page_ref_dec_def)
  obtain s2 where s2: "(if page_ref q s1 = 0 then free_page q s1 else Some s1) = Some s2" "pg_ok s2"
    "frees s2 = (if page_ref q s = 1 then insert q (frees s) else frees s)" "pmem s2 = pmem s" "npage s2 = npage s"
    "paging.more s2 = paging.more s" "same_refs s s2 {q}" "page_ref q s2 = page_ref q s - 1"
  proof (cases "page_ref q s1 = 0")
    case True
    obtain s2 where f: "free_page q s1 = Some s2" "pg_ok s2" "frees s2 = insert q (frees s1)" "pmem s2 = pmem s1"
      "npage s2 = npage s1" "paging.more s2 = paging.more s1" "same_refs s1 s2 {q}" "page_ref q s2 = 0"
      using free_page_step [OF s1(1) cr1] .
    show ?thesis
      by (rule that [of s2]) (use f s1 True in \<open>auto simp: same_refs_def\<close>)
  next
    case False
    show ?thesis by (rule that [of s1]) (use s1 False in auto)
  qed
  have iu: "in_use s2 u" if "table s r u" for u
  proof -
    have u: "in_use s u" "u \<noteq> PPN (PTE_ADDR ?e)" using table_in_use [OF pt that] that n by auto
    then have "u - nbase \<noteq> q" using n(1) q by (auto simp: in_use_def)
    then show ?thesis using u s2(3,5) by (auto simp: in_use_def)
  qed
  have "page_remove_pte r la (t, PTX la) s = Some (set_entry t (PTX la) 0 s2)"
    using e p2 s2(1) by (cases "page_ref q s1 = 0") (simp_all add: page_remove_pte_def Let_def s1_def [symmetric])
  moreover have "leaf_step s r la 0 (set_entry t (PTX la) 0 s2)" by (rule leaf_stepI [OF pt la t s2(2,4-6) iu])
  ultimately show ?thesis using that s2 by (auto simp: same_refs_def)
qed

lemma remove_pte_absent:
  "\<not> valid (pmem s t (PTX la)) \<Longrightarrow> page_remove_pte r la (t, PTX la) s = Some s"
  by (simp add: page_remove_pte_def)

lemma translate_node:
  "node (pmem s) r [PDX1 la, PDX0 la] = Some t \<Longrightarrow>
    translate s r la = (if valid (pmem s t (PTX la)) then Some (pmem s t (PTX la)) else None)"
  unfolding translate_def by simp

text \<open>\<open>page_remove\<close> undoes a mapping. It returns; afterwards the address has no translation, every
  other page of the address space keeps the one it had, the page that was mapped loses one reference
  and is free exactly when that was the last, and no other reference count changes.\<close>

theorem page_remove_unmaps:
  assumes "pg_ok s" "pt_ok s r" "maps_ok s r" "la < USERTOP"
  shows "\<exists>s'. page_remove r la s = Some s' \<and> pg_ok s' \<and> pt_ok s' r \<and>
    (\<forall>la'<USERTOP. translate s' r la' = (if vpn la' = vpn la then None else translate s r la')) \<and>
    (case translate s r la of
       None \<Rightarrow> s' = s
     | Some e \<Rightarrow> page_ref (target e) s' = page_ref (target e) s - 1 \<and> same_refs s s' {target e} \<and>
         frees s' = (if page_ref (target e) s = 1 then insert (target e) (frees s) else frees s))"
proof -
  note g = get_pte_read [OF assms(1,2,4)]
  have same: "translate s r la' = translate s r la" if "la' < USERTOP" "vpn la' = vpn la" for la'
    using vpn_eq_iff [OF that(1) assms(4)] that(2) by (simp add: translate_def)
  show ?thesis
  proof (cases "translate s r la")
    case None
    have "page_remove r la s = Some s"
    proof (cases "node (pmem s) r [PDX1 la, PDX0 la]")
      case t: (Some t)
      then have "\<not> valid (pmem s t (PTX la))" using None translate_node [OF t] by (auto split: if_splits)
      then show ?thesis using g unfolding t page_remove_def by (simp add: remove_pte_absent)
    qed (use g in \<open>simp add: page_remove_def del: node.simps\<close>)
    moreover have "\<forall>la'<USERTOP. translate s r la' = (if vpn la' = vpn la then None else translate s r la')"
      using same None by metis
    ultimately show ?thesis using assms(1,2) unfolding None option.case by blast
  next
    case (Some e)
    then obtain t where t: "node (pmem s) r [PDX1 la, PDX0 la] = Some t" "valid (pmem s t (PTX la))" "e = pmem s t (PTX la)"
      by (auto simp: translate_def split: option.splits if_splits)
    have l: "nbase \<le> PPN (PTE_ADDR e)" "page_live s (target e)" "\<not> table s r (PPN (PTE_ADDR e))"
      using assms(3,4) Some by (auto simp: maps_ok_def)
    obtain s' where s': "page_remove_pte r la (t, PTX la) s = Some s'" "leaf_step s r la 0 s'" "same_refs s s' {target e}"
      "page_ref (target e) s' = page_ref (target e) s - 1"
      "frees s' = (if page_ref (target e) s = 1 then insert (target e) (frees s) else frees s)"
      using remove_pte_step [OF assms(1,2,4) t(1,2) refl] l t(3) by metis
    have "page_remove r la s = Some s'" using g t(1) s'(1) by (simp add: page_remove_def del: node.simps)
    then show ?thesis using s' Some by (auto simp: leaf_step_def put_leaf_def)
  qed
qed

lemma leaf_step_table: "leaf_step s r la e s' \<Longrightarrow> table s' r u = table s r u"
  by (auto simp: leaf_step_def table_def)

lemma leaf_step_twice:
  assumes "leaf_step s r la e s1" "leaf_step s1 r la e' s2"
  shows "leaf_step s r la e' s2"
proof -
  have "pmem s2 u = pmem s u" if "\<not> table s r u" for u
    using assms that leaf_step_table [OF assms(1)] by (simp add: leaf_step_def)
  then show ?thesis using assms by (simp add: leaf_step_def put_leaf_def)
qed

text \<open>What inserting a page does to the reference counts and the free pages.\<close>

definition insert_refs :: "'a paging_scheme \<Rightarrow> nat \<Rightarrow> nat \<Rightarrow> u64 \<Rightarrow> 'a paging_scheme \<Rightarrow> bool" where
  "insert_refs s r p la s' \<longleftrightarrow>
     (case translate s r la of
        None \<Rightarrow> page_ref p s' = page_ref p s + 1 \<and> same_refs s s' ({p} \<union> (frees s - frees s')) \<and> frees s' \<subseteq> frees s
      | Some e \<Rightarrow>
          if target e = p then same_refs s s' (frees s - frees s') \<and> frees s' \<subseteq> frees s
          else page_ref p s' = page_ref p s + 1 \<and> page_ref (target e) s' = page_ref (target e) s - 1 \<and>
            same_refs s s' ({p, target e} \<union> (frees s - frees s')) \<and>
            (target e \<in> frees s' \<longleftrightarrow> page_ref (target e) s = 1) \<and> frees s' \<subseteq> insert (target e) (frees s))"

lemma page_live_ext:
  assumes x: "pt_ext s r s1" and l: "page_live s q"
  shows "page_live s1 q"
  using assms by (auto simp: pt_ext_def page_live_def can_release_def same_refs_def)

lemma maps_ok_ext:
  assumes x: "pt_ext s r s1" and m: "maps_ok s r"
  shows "maps_ok s1 r"
  unfolding maps_ok_def
proof (intro allI impI)
  fix la e assume a: "la < USERTOP" "translate s1 r la = Some e"
  then have l: "nbase \<le> PPN (PTE_ADDR e)" "page_live s (target e)" "\<not> table s r (PPN (PTE_ADDR e))"
    using m x by (auto simp: maps_ok_def pt_ext_def)
  then have "target e \<notin> frees s" by (simp add: page_live_def can_release_def)
  then show "nbase \<le> PPN (PTE_ADDR e) \<and> page_live s1 (target e) \<and> \<not> table s1 r (PPN (PTE_ADDR e))"
    using l page_live_ext [OF x l(2)] x by (auto simp: pt_ext_def)
qed

lemma insert_found:
  assumes ok: "pg_ok s" and pt: "pt_ok s r" and m: "maps_ok s r" and la: "la < USERTOP"
    and p: "in_use s (p + nbase)" "\<not> table s r (p + nbase)"
    and x: "pt_ext s r s1" and t: "node (pmem s1) r [PDX1 la, PDX0 la] = Some t"
  defines "s2 \<equiv> page_ref_inc p s1"
  obtains s3 where "(if valid (pmem s2 t (PTX la)) then do {
        q \<leftarrow> pte2page (pmem s2 t (PTX la)) s2;
        if q = p then Some (page_ref_dec p s2) else page_remove_pte r la (t, PTX la) s2
      } else Some s2) = Some s3"
    "leaf_step s1 r la e (set_entry t (PTX la) e s3)" "insert_refs s r p la (set_entry t (PTX la) e s3)"
proof -
  have s1: "pg_ok s1" "pt_ok s1 r" "frees s1 \<subseteq> frees s" "npage s1 = npage s" "same_refs s s1 (frees s - frees s1)"
    and tr: "translate s1 r la = translate s r la" using x la by (auto simp: pt_ext_def)
  have s2: "pg_ok s2" "pmem s2 = pmem s1" "npage s2 = npage s1" "paging.more s2 = paging.more s1" "frees s2 = frees s1"
    "page_ref p s2 = page_ref p s1 + 1" "\<And>q. q \<noteq> p \<Longrightarrow> page_ref q s2 = page_ref q s1" "\<And>q. reserved s2 q = reserved s1 q"
    using s1 by (simp_all add: s2_def page_ref_inc_def)
  have pf: "p \<notin> frees s" using p by (simp add: in_use_def)
  have pr: "page_ref p s1 = page_ref p s" using s1(5) pf by (auto simp: same_refs_def)
  have iu: "in_use s1 u" if "table s1 r u" for u using table_in_use [OF s1(2) that] .
  let ?e0 = "pmem s1 t (PTX la)"
  have pt2: "pt_ok s2 r" using s1(2) s2(2,3,5) by (simp add: pt_ok_def in_use_def)
  have L: "leaf_step s1 r la e (set_entry t (PTX la) e s3)"
    if "pg_ok s3" "pmem s3 = pmem s1" "npage s3 = npage s1" "paging.more s3 = paging.more s1" "frees s3 = frees s1" for s3
    by (rule leaf_stepI [OF s1(2) la t that(1-4)]) (use iu that in \<open>auto simp: in_use_def\<close>)
  show ?thesis
  proof (cases "valid ?e0")
    case False
    then have "translate s r la = None" using translate_node [OF t] tr by simp
    then have "insert_refs s r p la (set_entry t (PTX la) e s2)"
      using s1(3,5) s2(5-8) pr by (auto simp: insert_refs_def same_refs_def)
    then show ?thesis using that [of s2] False s2 L [of s2] by simp
  next
    case True
    then have e0: "translate s r la = Some ?e0" using translate_node [OF t] tr by simp
    let ?q = "target ?e0"
    have l: "nbase \<le> PPN (PTE_ADDR ?e0)" "page_live s ?q" "\<not> table s r (PPN (PTE_ADDR ?e0))"
      using m la e0 by (auto simp: maps_ok_def)
    have l1: "page_live s1 ?q" using page_live_ext [OF x l(2)] .
    have qf: "?q \<notin> frees s" using l(2) by (simp add: page_live_def can_release_def)
    have nt: "\<not> table s1 r (PPN (PTE_ADDR ?e0))" using x l qf by (auto simp: pt_ext_def)
    have "?q < npage s1 - nbase" using l1 by (simp add: page_live_def can_release_def)
    then have "PPN (PTE_ADDR ?e0) < npage s1" using l(1) by linarith
    then have p2: "pte2page (pmem s2 t (PTX la)) s2 = Some ?q"
      using True l(1) s2(2,3) by (simp add: pte2page_def pa2page_def)
    show ?thesis
    proof (cases "?q = p")
      case eq: True
      define s3 where "s3 = page_ref_dec p s2"
      have s3: "pg_ok s3" "pmem s3 = pmem s1" "npage s3 = npage s1" "paging.more s3 = paging.more s1" "frees s3 = frees s1"
        "\<And>q. page_ref q s3 = page_ref q s1" "\<And>q. reserved s3 q = reserved s1 q"
        using s2 by (simp_all add: s3_def page_ref_dec_def)
      have "insert_refs s r p la (set_entry t (PTX la) e s3)"
        using e0 eq s1(3,5) s3(5-7) by (simp add: insert_refs_def same_refs_def)
      then show ?thesis using that [of s3] True p2 eq s2(2) L [OF s3(1-5)] by (simp add: s3_def)
    next
      case ne: False
      have live2: "page_live s2 ?q" using l1 s2 ne by (auto simp: page_live_def can_release_def has_top_def)
      have t2: "node (pmem s2) r [PDX1 la, PDX0 la] = Some t" using t s2(2) by simp
      have v2: "valid (pmem s2 t (PTX la))" using True s2(2) by simp
      have q2: "?q = target (pmem s2 t (PTX la))" using s2(2) by simp
      have n2: "nbase \<le> PPN (PTE_ADDR (pmem s2 t (PTX la)))" "\<not> table s2 r (PPN (PTE_ADDR (pmem s2 t (PTX la))))"
        using l(1) nt s2(2) by (simp_all add: table_def)
      obtain s3 where s3: "page_remove_pte r la (t, PTX la) s2 = Some s3" "leaf_step s2 r la 0 s3" "same_refs s2 s3 {?q}"
        "page_ref ?q s3 = page_ref ?q s2 - 1" "frees s3 = (if page_ref ?q s2 = 1 then insert ?q (frees s2) else frees s2)"
        using remove_pte_step [OF s2(1) pt2 la t2 v2 q2 n2 live2] .
      have L3: "leaf_step s1 r la 0 s3"
        using s3(2) s2(2-4) by (simp add: leaf_step_def translate_def put_leaf_def table_def)
      have t3: "node (pmem s3) r [PDX1 la, PDX0 la] = Some t"
        using L3 t upath_user [OF la] unfolding leaf_step_def by metis
      have "leaf_step s3 r la e (set_entry t (PTX la) e s3)"
        using L3 by (intro leaf_stepI [OF _ la t3]) (auto simp: leaf_step_def intro: table_in_use)
      then have "leaf_step s1 r la e (set_entry t (PTX la) e s3)" by (rule leaf_step_twice [OF L3])
      moreover have qr: "page_ref ?q s2 = page_ref ?q s" using s2(7) [OF ne] s1(5) qf by (auto simp: same_refs_def)
      moreover have "insert_refs s r p la (set_entry t (PTX la) e s3)"
        using e0 ne s1(3,5) s2(5-8) s3(3-5) pr qr qf by (auto simp: insert_refs_def same_refs_def)
      ultimately show ?thesis using that [of s3] True p2 ne s3(1) s2(2) by simp
    qed
  qed
qed

text \<open>All that \<open>page_insert\<close> does, in the two ways it can end.\<close>

lemma page_insert_ok:
  assumes ok: "pg_ok s" and pt: "pt_ok s r" and mp: "maps_ok s r" and la: "la < USERTOP"
    and p: "in_use s (p + nbase)" "\<not> table s r (p + nbase)"
  obtains (mapped) s' where "page_insert r p la perm s = Some (0, s')" "pg_ok s'" "pt_ok s' r"
      "npage s' = npage s" "paging.more s' = paging.more s" "insert_refs s r p la s'"
      "\<forall>la'<USERTOP. translate s' r la' =
         (if vpn la' = vpn la then Some (pte_create (page2ppn p) (PTE_V OR perm)) else translate s r la')"
      "\<forall>u. in_use s u \<longrightarrow> \<not> table s r u \<longrightarrow> pmem s' u = pmem s u"
  | (full) s' where "page_insert r p la perm s = Some (- E_NO_MEM, s')" "pt_ext s r s'" "frees s' = {}"
  using ok pt la
proof (cases rule: get_pte_create)
  case (found t s1)
  let ?e = "pte_create (page2ppn p) (PTE_V OR perm)"
  obtain s3 where s3: "(if valid (pmem (page_ref_inc p s1) t (PTX la)) then do {
        q \<leftarrow> pte2page (pmem (page_ref_inc p s1) t (PTX la)) (page_ref_inc p s1);
        if q = p then Some (page_ref_dec p (page_ref_inc p s1)) else page_remove_pte r la (t, PTX la) (page_ref_inc p s1)
      } else Some (page_ref_inc p s1)) = Some s3"
    "leaf_step s1 r la ?e (set_entry t (PTX la) ?e s3)" "insert_refs s r p la (set_entry t (PTX la) ?e s3)"
    using insert_found [OF assms found(2,3)] by blast
  have eq: "page_insert r p la perm s = Some (0, set_entry t (PTX la) ?e s3)"
    unfolding page_insert_def found(1) Option.bind.bind_lunit prod.case option.case Let_def s3(1) by simp
  have "pmem (set_entry t (PTX la) ?e s3) u = pmem s u" if u: "in_use s u" "\<not> table s r u" for u
  proof -
    have "\<not> table s1 r u" using found(2) u by (auto simp: pt_ext_def in_use_def)
    then show ?thesis using s3(2) found(2) u by (simp add: leaf_step_def pt_ext_def)
  qed
  then show ?thesis
    using mapped [OF eq] s3(2,3) found(2) by (auto simp: leaf_step_def put_leaf_def pt_ext_def)
next
  case f: (full s1)
  then show ?thesis using full [of s1] by (simp add: page_insert_def)
qed

text \<open>C16: \<open>page_insert\<close> maps a page that is in use and is not a table, in an address space whose mapped pages are in use, referenced and
  not tables, and while a free page lies above every mapped one or none is free, so that a page can be given back. It returns; with memory exhausted
  it returns \<^verbatim>\<open>-E_NO_MEM\<close>, where its comment promises 0, and no translation
  changes; otherwise the address translates to the page with the permissions asked for, every other
  page of the address space translates as before, the page gains one reference, the page that was
  mapped there loses one and is free exactly when that was its last; inserting the same page again
  changes no count.\<close>

theorem page_insert_maps:
  assumes "pg_ok s" "pt_ok s r" "maps_sound s r" "room_above s r" "la < USERTOP"
    and "in_use s (p + nbase)" "\<not> table s r (p + nbase)"
  shows "\<exists>ret s'. page_insert r p la perm s = Some (ret, s') \<and> pg_ok s' \<and> pt_ok s' r \<and>
    (ret = - E_NO_MEM \<and> frees s' = {} \<and> (\<forall>la'<USERTOP. translate s' r la' = translate s r la') \<or>
     ret = 0 \<and> insert_refs s r p la s' \<and>
     (\<forall>la'<USERTOP. translate s' r la' =
        (if vpn la' = vpn la then Some (pte_create (page2ppn p) (PTE_V OR perm)) else translate s r la')))"
  using assms(1,2) maps_ok_split [THEN iffD2, OF conjI, OF assms(3,4)] assms(5-7)
proof (cases rule: page_insert_ok [where perm = perm])
  case (mapped s')
  then show ?thesis by auto
next
  case (full s')
  then show ?thesis by (simp add: pt_ext_def)
qed

section \<open>Unmapping a range\<close>

text \<open>The pages of the address space that map to a physical page; each of them holds a reference.\<close>

definition mapped_to :: "'a paging_scheme \<Rightarrow> nat \<Rightarrow> nat \<Rightarrow> nat set" where
  "mapped_to s r q = {v. \<exists>la<USERTOP. vpn la = v \<and> (\<exists>e. translate s r la = Some e \<and> target e = q)}"

definition refs_ok :: "'a paging_scheme \<Rightarrow> nat \<Rightarrow> bool" where
  "refs_ok s r \<longleftrightarrow> (\<forall>q. int (card (mapped_to s r q)) \<le> page_ref q s)"

text \<open>An address space whose pages may all be given back: above every mapped page there is a free one.\<close>

definition space_ok :: "'a paging_scheme \<Rightarrow> nat \<Rightarrow> bool" where
  "space_ok s r \<longleftrightarrow> pg_ok s \<and> pt_ok s r \<and> maps_ok s r \<and> refs_ok s r \<and> frees s \<noteq> {}"

lemma finite_mapped_to: "finite (mapped_to s r q)"
proof (rule finite_subset)
  show "mapped_to s r q \<subseteq> {..<2 ^ 19}"
    by (auto simp: mapped_to_def vpn_def USERTOP_def word_less_nat_alt)
qed simp

lemma translate_vpn: "la < USERTOP \<Longrightarrow> la' < USERTOP \<Longrightarrow> vpn la = vpn la' \<Longrightarrow> translate s r la = translate s r la'"
  using vpn_eq_iff [of la la'] by (simp add: translate_def)

lemma remove_space:
  assumes sp: "space_ok s r" and la: "la < USERTOP" and e: "translate s r la = Some e"
    and t: "node (pmem s) r [PDX1 la, PDX0 la] = Some t"
  obtains s' where "page_remove_pte r la (t, PTX la) s = Some s'" "space_ok s' r"
    "\<forall>la'<USERTOP. translate s' r la' = (if vpn la' = vpn la then None else translate s r la')"
proof -
  have ok: "pg_ok s" "pt_ok s r" "maps_ok s r" "refs_ok s r" "frees s \<noteq> {}" using sp by (auto simp: space_ok_def)
  have v: "valid (pmem s t (PTX la))" "e = pmem s t (PTX la)" using e translate_node [OF t] by (auto split: if_splits)
  have l: "nbase \<le> PPN (PTE_ADDR e)" "page_live s (target e)" "\<not> table s r (PPN (PTE_ADDR e))"
    using ok(3) la e by (auto simp: maps_ok_def)
  obtain s' where s': "page_remove_pte r la (t, PTX la) s = Some s'" "leaf_step s r la 0 s'" "same_refs s s' {target e}"
    "page_ref (target e) s' = page_ref (target e) s - 1"
    "frees s' = (if page_ref (target e) s = 1 then insert (target e) (frees s) else frees s)"
    using remove_pte_step [OF ok(1,2) la t v(1) refl] l v(2) by metis
  have tr: "translate s' r la' = (if vpn la' = vpn la then None else translate s r la')" if "la' < USERTOP" for la'
    using s'(2) that by (simp add: leaf_step_def put_leaf_def)
  have mt: "mapped_to s' r q = mapped_to s r q - {vpn la}" for q
  proof (rule set_eqI)
    fix w show "w \<in> mapped_to s' r q \<longleftrightarrow> w \<in> mapped_to s r q - {vpn la}"
      unfolding mapped_to_def mem_Collect_eq Diff_iff singleton_iff using tr by (metis option.distinct(1))
  qed
  have in_q: "vpn la \<in> mapped_to s r (target e)" using la e by (auto simp: mapped_to_def)
  have "refs_ok s' r"
    unfolding refs_ok_def
  proof
    fix q
    have "int (card (mapped_to s r q)) \<le> page_ref q s" using ok(4) by (simp add: refs_ok_def)
    moreover have "card (mapped_to s' r q) \<le> card (mapped_to s r q)"
      unfolding mt by (rule card_mono) (auto simp: finite_mapped_to)
    moreover have "Suc (card (mapped_to s' r (target e))) = card (mapped_to s r (target e))"
      unfolding mt by (rule card.remove [OF finite_mapped_to in_q, symmetric])
    ultimately show "int (card (mapped_to s' r q)) \<le> page_ref q s'"
      using s'(3,4) by (cases "q = target e") (auto simp: same_refs_def)
  qed
  moreover have "maps_ok s' r"
    unfolding maps_ok_def
  proof (intro allI impI)
    fix x e' assume x: "x < USERTOP" "translate s' r x = Some e'"
    then have x': "vpn x \<noteq> vpn la" "translate s r x = Some e'" using tr [OF x(1)] by (auto split: if_splits)
    have l': "nbase \<le> PPN (PTE_ADDR e')" "page_live s (target e')" "\<not> table s r (PPN (PTE_ADDR e'))"
      using ok(3) x(1) x'(2) by (auto simp: maps_ok_def)
    have two: "page_ref (target e) s \<ge> 2" if "target e' = target e"
    proof -
      have "{vpn x, vpn la} \<subseteq> mapped_to s r (target e)" using x x' in_q that by (auto simp: mapped_to_def)
      then have "card {vpn x, vpn la} \<le> card (mapped_to s r (target e))" by (rule card_mono [OF finite_mapped_to])
      moreover have "int (card (mapped_to s r (target e))) \<le> page_ref (target e) s" using ok(4) by (simp add: refs_ok_def)
      ultimately show ?thesis using x'(1) by simp
    qed
    have np: "npage s' = npage s" using s'(2) by (simp add: leaf_step_def)
    have "page_live s' (target e')"
    proof (cases "target e' = target e")
      case True
      then have "frees s' = frees s" "page_ref (target e) s' > 0" using two s'(4,5) by auto
      then show ?thesis using l'(2) True np s'(3)
        by (auto simp: page_live_def can_release_def has_top_def same_refs_def)
    next
      case False
      then show ?thesis using l'(2) np s'(3,5) ok(5)
        by (auto simp: page_live_def can_release_def has_top_def same_refs_def)
    qed
    then show "nbase \<le> PPN (PTE_ADDR e') \<and> page_live s' (target e') \<and> \<not> table s' r (PPN (PTE_ADDR e'))"
      using l' leaf_step_table [OF s'(2)] by simp
  qed
  moreover have "frees s' \<noteq> {}" using s'(5) ok(5) by auto
  ultimately have "space_ok s' r" using s'(2) by (simp add: space_ok_def leaf_step_def)
  then show ?thesis using that s'(1) tr by blast
qed

lemma user_bound: "la < USERTOP \<longleftrightarrow> unat la < 2 ^ 31" "la \<le> USERTOP \<longleftrightarrow> unat la \<le> 2 ^ 31"
  by (simp_all add: USERTOP_def word_less_nat_alt word_le_nat_alt)

lemma next_page: "la < USERTOP \<Longrightarrow> unat (la + PGSIZE) = unat la + 4096"
  by (simp add: user_bound PGSIZE_def unat_word_ariths)

lemma next_table: "la < USERTOP \<Longrightarrow> unat (ROUNDDOWN (la + PTSIZE) PTSIZE) = (unat la div 2 ^ 21 + 1) * 2 ^ 21"
proof -
  assume "la < USERTOP"
  then have "unat (la + PTSIZE) = unat la + 2 ^ 21" by (simp add: user_bound PTSIZE_def unat_word_ariths)
  moreover have "n + 2 ^ 21 - (n + 2 ^ 21) mod 2 ^ 21 = (n div 2 ^ 21 + 1) * 2 ^ 21" for n :: nat
  proof -
    define a b where ab: "a = n div 2 ^ 21" "b = n mod 2 ^ 21"
    have "n = a * 2 ^ 21 + b" by (simp add: ab)
    moreover have "(n + 2 ^ 21) mod 2 ^ 21 = b" by (simp add: ab)
    ultimately show ?thesis unfolding ab(1) [symmetric] by simp
  qed
  ultimately show ?thesis by (simp add: unat_ROUNDDOWN PTSIZE_def)
qed

lemma unat_numeral_4096: "unat (4096 :: u64) = 4096"
  by simp

lemma aligned_iff: "la mod PGSIZE = 0 \<longleftrightarrow> unat la mod 4096 = 0"
  by (metis PGSIZE_def unat_0 unat_eq_zero unat_mod unat_numeral_4096)

lemma vpn_aligned: "unat la mod 4096 = 0 \<Longrightarrow> vpn x = vpn la \<longleftrightarrow> unat la \<le> unat x \<and> unat x < unat la + 4096"
proof -
  assume "unat la mod 4096 = 0"
  then obtain k where k: "unat la = 4096 * k" by (auto simp: mod_eq_0_iff_dvd dvd_def)
  have "unat x div 4096 = k \<longleftrightarrow> 4096 * k \<le> unat x \<and> unat x < 4096 * k + 4096"
  proof
    assume "4096 * k \<le> unat x \<and> unat x < 4096 * k + 4096"
    then show "unat x div 4096 = k" by (intro div_nat_eqI) auto
  qed (use div_mult_mod_eq [of "unat x" 4096] mod_less_divisor [of 4096 "unat x"] in linarith)
  then show ?thesis by (simp add: vpn_def k)
qed

lemma same_table:
  assumes "x < USERTOP" "la < USERTOP" "unat x div 2 ^ 21 = unat la div 2 ^ 21"
  shows "PDX1 x = PDX1 la" "PDX0 x = PDX0 la"
proof -
  have d: "n div 2 ^ 30 = n div 2 ^ 21 div 2 ^ 9" for n :: nat by (simp flip: div_mult2_eq)
  show "PDX0 x = PDX0 la" using assms(3) by (simp only: index_nat)
  show "PDX1 x = PDX1 la" using assms(3) by (simp only: index_nat d)
qed

lemma unmap_loop_ok:
  assumes "space_ok s r" "start < end'" "end' \<le> USERTOP" "unat start mod 4096 = 0"
  shows "\<exists>s'. unmap_loop r start end' s = Some s' \<and> space_ok s' r \<and>
    (\<forall>la<USERTOP. translate s' r la =
       (if start \<le> la \<and> unat la div 4096 * 4096 < unat end' then None else translate s r la))"
  using assms
proof (induction "unat end' - unat start" arbitrary: start s rule: less_induct)
  case less
  have st: "start < USERTOP" using less.prems(2,3) by (rule less_le_trans)
  have ok: "pg_ok s" "pt_ok s r" using less.prems(1) by (simp_all add: space_ok_def)
  note g = get_pte_read [OF ok st]
  have se: "unat start < unat end'" using less.prems(2) by (simp add: word_less_nat_alt)
  have eb: "unat end' \<le> 2 ^ 31" using less.prems(3) by (simp add: user_bound)
  obtain s1 start1 where step: "unmap_loop r start end' s =
      (if start1 \<noteq> 0 \<and> start1 < end' then unmap_loop r start1 end' s1 else Some s1)"
    "space_ok s1 r" "unat start < unat start1" "unat start1 mod 4096 = 0"
    "\<forall>la<USERTOP. translate s1 r la = (if start \<le> la \<and> la < start1 then None else translate s r la)"
    "\<forall>la<USERTOP. unat start + 4096 \<le> unat la \<and> la < start1 \<longrightarrow> translate s r la = None"
  proof (cases "node (pmem s) r [PDX1 start, PDX0 start]")
    case None
    let ?n = "ROUNDDOWN (start + PTSIZE) PTSIZE"
    have n: "unat ?n = (unat start div 2 ^ 21 + 1) * 2 ^ 21" using next_table [OF st] .
    show ?thesis
    proof (rule that [of ?n s])
      show "unmap_loop r start end' s = (if ?n \<noteq> 0 \<and> ?n < end' then unmap_loop r ?n end' s else Some s)"
        using g None by (subst unmap_loop.simps) (simp del: node.simps)
      show "unat start < unat ?n" unfolding n using dividend_less_div_times [of "2 ^ 21" "unat start"] by simp
      show "unat ?n mod 4096 = 0" unfolding n using mod_mult_right_eq by (simp add: mod_eq_0_iff_dvd dvd_mult)
      have no: "translate s r la = None" if "la < USERTOP" "start \<le> la" "la < ?n" for la
      proof -
          note la = that(1)
          have "unat start \<le> unat la" "unat la < (unat start div 2 ^ 21 + 1) * 2 ^ 21"
            using that(2,3) n by (simp_all add: word_le_nat_alt word_less_nat_alt)
          then have "unat la div 2 ^ 21 = unat start div 2 ^ 21"
            using div_le_mono [of "unat start" "unat la" "2 ^ 21"] less_mult_imp_div_less [of "unat la"] by (simp add: le_antisym)
          then show ?thesis using same_table [OF la st] None by (simp add: translate_def)
      qed
      then show "\<forall>la<USERTOP. translate s r la = (if start \<le> la \<and> la < ?n then None else translate s r la)" by simp
      show "\<forall>la<USERTOP. unat start + 4096 \<le> unat la \<and> la < ?n \<longrightarrow> translate s r la = None"
        using no by (simp add: word_le_nat_alt)
    qed (rule less.prems(1))
  next
    case (Some t)
    have n: "unat (start + PGSIZE) = unat start + 4096" using next_page [OF st] .
    have v: "start \<le> la \<and> la < start + PGSIZE \<longleftrightarrow> vpn la = vpn start" for la
      using vpn_aligned [OF less.prems(4), of la] n by (simp add: word_le_nat_alt word_less_nat_alt)
    obtain s1 where s1: "(if pmem s t (PTX start) \<noteq> 0 then page_remove_pte r start (t, PTX start) s else Some s) = Some s1"
      "space_ok s1 r" "\<forall>la<USERTOP. translate s1 r la = (if vpn la = vpn start then None else translate s r la)"
    proof (cases "translate s r start")
      case None
      then have nv: "\<not> valid (pmem s t (PTX start))" using translate_node [OF Some] by (auto split: if_splits)
      have "translate s r la = (if vpn la = vpn start then None else translate s r la)" if "la < USERTOP" for la
        using translate_vpn [OF that st, of s r] None by simp
      then show ?thesis using that [of s] remove_pte_absent [OF nv] less.prems(1) by simp
    next
      case (Some e)
      have "pmem s t (PTX start) \<noteq> 0" using Some translate_node [OF \<open>node _ _ _ = Some t\<close>] by auto
      then show ?thesis using remove_space [OF less.prems(1) st Some \<open>node _ _ _ = Some t\<close>] that by metis
    qed
    have l: "unmap_loop r start end' s = (if start + PGSIZE \<noteq> 0 \<and> start + PGSIZE < end'
        then unmap_loop r (start + PGSIZE) end' s1 else Some s1)"
      using g s1(1) unfolding Some by (subst unmap_loop.simps) (cases "pmem s t (PTX start) = 0"; simp)
    show ?thesis
      by (rule that [OF l s1(2)]) (use n less.prems(4) s1(3) v in \<open>auto simp: word_less_nat_alt\<close>)
  qed
  have al: "la < start1 \<longleftrightarrow> unat la div 4096 * 4096 < unat start1" for la
  proof -
    obtain k where k: "unat start1 = k * 4096" using step(4) by (metis div_mult_mod_eq add.right_neutral)
    show ?thesis unfolding word_less_nat_alt k by (simp add: less_mult_imp_div_less div_less_iff_less_mult)
  qed
  show ?case
  proof (cases "start1 < end'")
    case True
    then have s1e: "unat start1 < unat end'" by (simp add: word_less_nat_alt)
    have "start1 \<noteq> 0" using step(3) by auto
    then have eq: "unmap_loop r start end' s = unmap_loop r start1 end' s1" using step(1) True by simp
    obtain s' where s': "unmap_loop r start1 end' s1 = Some s'" "space_ok s' r"
      "\<forall>la<USERTOP. translate s' r la =
         (if start1 \<le> la \<and> unat la div 4096 * 4096 < unat end' then None else translate s1 r la)"
      using less.hyps [OF diff_less_mono2 [OF step(3) se] step(2) True less.prems(3) step(4)]
      by blast
    have "translate s' r la = (if start \<le> la \<and> unat la div 4096 * 4096 < unat end' then None else translate s r la)"
      if la: "la < USERTOP" for la
      using s'(3) step(5) la al [of la] s1e step(3) by (auto simp: word_le_nat_alt word_less_nat_alt)
    then show ?thesis using eq s' by auto
  next
    case False
    then have eq: "unmap_loop r start end' s = Some s1" using step(1) by simp
    have e1: "unat end' \<le> unat start1" using False by (simp add: word_less_nat_alt)
    have "translate s1 r la = (if start \<le> la \<and> unat la div 4096 * 4096 < unat end' then None else translate s r la)"
      if la: "la < USERTOP" for la
    proof (cases "start \<le> la \<and> la < start1 \<and> \<not> unat la div 4096 * 4096 < unat end'")
      case True
      obtain k where k: "unat start = k * 4096" using less.prems(4) by (metis div_mult_mod_eq add.right_neutral)
      have "k * 4096 < unat la div 4096 * 4096" using True se k by linarith
      then have "unat start + 4096 \<le> unat la div 4096 * 4096" using k by simp
      also have "\<dots> \<le> unat la" by simp
      finally show ?thesis using step(5,6) la True by auto
    next
      case False
      then show ?thesis using step(5) la al [of la] e1 by auto
    qed
    then show ?thesis using eq step(2) by auto
  qed
qed

lemma unmap_range_ok:
  assumes "space_ok s r" "USER_ACCESS start end'" "start mod PGSIZE = 0" "end' mod PGSIZE = 0"
  shows "\<exists>s'. unmap_range r start end' s = Some s' \<and> space_ok s' r \<and>
    (\<forall>la<USERTOP. translate s' r la = (if start \<le> la \<and> la < end' then None else translate s r la))"
proof -
  have al: "unat start mod 4096 = 0" using iffD1 [OF aligned_iff assms(3)] .
  have rng: "start < end'" "end' \<le> USERTOP" using assms(2) by (auto simp: USER_ACCESS_def)
  obtain s' where s': "unmap_loop r start end' s = Some s'" "space_ok s' r"
    "\<forall>la<USERTOP. translate s' r la = (if start \<le> la \<and> unat la div 4096 * 4096 < unat end' then None else translate s r la)"
    using unmap_loop_ok [OF assms(1) rng al] by blast
  have "unat la div 4096 * 4096 < unat end' \<longleftrightarrow> la < end'" for la
  proof -
    obtain k where k: "unat end' = k * 4096" using assms(4) by (metis aligned_iff div_mult_mod_eq add.right_neutral)
    show ?thesis unfolding word_less_nat_alt k by (simp add: less_mult_imp_div_less div_less_iff_less_mult)
  qed
  then show ?thesis using s' assms by (auto simp: unmap_range_def)
qed

text \<open>C20: While a page is free and a free page lies above every mapped one, \<open>unmap_range\<close> ends and removes exactly the translations of the
  range: no address of the range has a translation afterwards, every other user address keeps its own, the page tables, the
  mapped pages, the reference counts and the free list stay consistent, and there is still room above every page that is mapped. Without that room the call need
  not end: \<^verbatim>\<open>default_free_pages\<close> links a block it puts behind the last one to itself.\<close>

theorem unmap_range_clears:
  assumes "pg_ok s" "pt_ok s r" "maps_sound s r" "refs_ok s r" and "frees s \<noteq> {}" "room_above s r"
    and "USER_ACCESS start end'" "start mod PGSIZE = 0" "end' mod PGSIZE = 0"
  shows "\<exists>s'. unmap_range r start end' s = Some s' \<and>
    pg_ok s' \<and> pt_ok s' r \<and> maps_sound s' r \<and> refs_ok s' r \<and> frees s' \<noteq> {} \<and> room_above s' r \<and>
    (\<forall>la<USERTOP. translate s' r la = (if start \<le> la \<and> la < end' then None else translate s r la))"
  using unmap_range_ok [OF _ assms(7-9), of s r] assms(1-6) by (auto simp: space_ok_def maps_ok_split)

section \<open>A concrete address space\<close>

text \<open>Sixteen pages of memory with pages 0 and 3 free; pages 12 to 14 hold the three levels of tables that map
  the address \<^verbatim>\<open>0x400000\<close> to page 2.\<close>

definition small_space :: "u64 \<Rightarrow> paging" where
  "small_space e = \<lparr>phys = two_blocks, npage = nbase + 16,
     pmem = (\<lambda>_ _. 0)
       (nbase + 12 := (\<lambda>_. 0)(0 := pte_create (nbase + 13) (PTE_U OR PTE_V)),
        nbase + 13 := (\<lambda>_. 0)(2 := pte_create (nbase + 14) (PTE_U OR PTE_V)),
        nbase + 14 := (\<lambda>_. 0)(0 := e))\<rparr>"

definition leaf_ok :: "u64 \<Rightarrow> bool" where
  "leaf_ok e \<longleftrightarrow> valid e \<and> PPN (PTE_ADDR e) = nbase + 2"

definition small_leaf :: u64 where
  "small_leaf = pte_create (nbase + 2) (PTE_U OR PTE_W OR PTE_R OR PTE_V)"

lemma small_entries:
  "valid (pte_create (nbase + 13) (PTE_U OR PTE_V))" "valid (pte_create (nbase + 14) (PTE_U OR PTE_V))"
  "PPN (PTE_ADDR (pte_create (nbase + 13) (PTE_U OR PTE_V))) = nbase + 13"
  "PPN (PTE_ADDR (pte_create (nbase + 14) (PTE_U OR PTE_V))) = nbase + 14"
  by (simp_all add: pte_create_def nbase_def PTE_U_def PTE_V_def PTE_ADDR_def PPN_def)

lemma small_leaf_ok: "leaf_ok small_leaf"
  by (simp add: leaf_ok_def small_leaf_def pte_create_def nbase_def PTE_U_def PTE_V_def PTE_W_def PTE_R_def PTE_ADDR_def PPN_def)

lemma small_node:
  "length p \<le> 2 \<Longrightarrow> node (pmem (small_space e)) (nbase + 12) p =
     (if p = [] then Some (nbase + 12) else if p = [0] then Some (nbase + 13)
      else if p = [0, 2] then Some (nbase + 14) else None)"
  by (cases p; cases "tl p") (auto simp: small_space_def small_entries)

lemma small_translate:
  "leaf_ok e \<Longrightarrow> translate (small_space e) (nbase + 12) la =
     (if PDX1 la = 0 \<and> PDX0 la = 2 \<and> PTX la = 0 then Some e else None)"
  unfolding translate_def by (simp add: small_node) (auto simp: small_space_def small_entries leaf_ok_def)

lemma small_frees: "frees (small_space e) = {0, 3}"
  by (simp add: small_space_def two_blocks_set)

lemma small_refs: "page_ref q (small_space e) = (if q = 0 \<or> q = 3 then 0 else 1)" "\<not> reserved (small_space e) q"
  by (simp_all add: page_ref_def reserved_def small_space_def two_blocks_def PageReserved_def PG_reserved_def)

lemma small_table: "table (small_space e) (nbase + 12) t \<longleftrightarrow> t \<in> {nbase + 12, nbase + 13, nbase + 14}"
proof
  assume "table (small_space e) (nbase + 12) t"
  then show "t \<in> {nbase + 12, nbase + 13, nbase + 14}"
    by (auto simp: table_def upath_def small_node split: if_splits)
next
  have "upath []" "upath [0]" "upath [0, 2]" by (auto simp: upath_def)
  moreover assume "t \<in> {nbase + 12, nbase + 13, nbase + 14}"
  moreover have "node (pmem (small_space e)) (nbase + 12) [] = Some (nbase + 12)"
    "node (pmem (small_space e)) (nbase + 12) [0] = Some (nbase + 13)"
    "node (pmem (small_space e)) (nbase + 12) [0, 2] = Some (nbase + 14)"
    by (simp_all add: small_node del: node.simps)
  ultimately show "table (small_space e) (nbase + 12) t" unfolding table_def by blast
qed

lemma small_space_ok: "leaf_ok e \<Longrightarrow> space_ok (small_space e) (nbase + 12)"
proof -
  assume e: "leaf_ok e"
  then have te: "PPN (PTE_ADDR e) = nbase + 2" by (simp add: leaf_ok_def)
  have "npage (small_space e) = nbase + 16" by (simp add: small_space_def)
  note np = this nbase_def
  have "free_blocks (phys (small_space e)) [0, 3]" using two_blocks_wf by (simp add: small_space_def)
  then have pg: "pg_ok (small_space e)" using small_frees by (auto simp: pg_ok_def np)
  have pt: "pt_ok (small_space e) (nbase + 12)"
    unfolding pt_ok_def in_use_def small_frees
    by (auto simp: upath_def small_node np(1) split: if_splits)
  have mp: "maps_ok (small_space e) (nbase + 12)"
    unfolding maps_ok_def page_live_def can_release_def has_top_def small_frees small_table
    by (auto simp: small_translate [OF e] te small_refs np(1) split: if_splits)
  have "mapped_to (small_space e) (nbase + 12) q \<subseteq> (if q = 2 then {vpn 0x400000} else {})" for q
  proof -
    have x: "(0x400000::u64) < USERTOP" "PDX1 0x400000 = 0" "PDX0 0x400000 = 2" "PTX 0x400000 = 0"
      by (simp_all add: USERTOP_def PDX1_def PDX0_def PTX_def)
    show ?thesis
      using vpn_eq_iff [OF _ x(1)] x(2-)
      by (auto simp: mapped_to_def small_translate [OF e] te split: if_splits)
  qed
  then have cd: "card (mapped_to (small_space e) (nbase + 12) q) \<le> card (if q = 2 then {vpn 0x400000} else {})" for q
    by (intro card_mono) auto
  have "int (card (mapped_to (small_space e) (nbase + 12) q)) \<le> page_ref q (small_space e)" for q
    using small_refs(1) [of q] cd [of q] by (auto split: if_splits)
  with pg pt mp small_frees show ?thesis by (auto simp: space_ok_def refs_ok_def)
qed

lemma small_space_parts:
  "leaf_ok e \<Longrightarrow> pg_ok (small_space e)" "leaf_ok e \<Longrightarrow> pt_ok (small_space e) (nbase + 12)"
  "leaf_ok e \<Longrightarrow> maps_ok (small_space e) (nbase + 12)"
  using small_space_ok [of e] by (auto simp: space_ok_def)

lemmas demo_space_parts = small_space_parts [OF small_leaf_ok]
lemmas demo_space_maps = maps_ok_split [THEN iffD1, OF demo_space_parts(3), THEN conjunct1] maps_ok_split [THEN iffD1, OF demo_space_parts(3), THEN conjunct2]

theorem page_remove_unmaps_witness:
  "\<exists>s'. page_remove (nbase + 12) 0x400000 (small_space small_leaf) = Some s' \<and>
     translate s' (nbase + 12) 0x400000 = None \<and> frees s' = {0, 2, 3}"
proof -
  have la: "(0x400000::u64) < USERTOP" by (simp add: USERTOP_def)
  have tr: "translate (small_space small_leaf) (nbase + 12) 0x400000 = Some small_leaf"
    by (simp add: small_translate [OF small_leaf_ok] PDX1_def PDX0_def PTX_def)
  show ?thesis
    using page_remove_unmaps [OF demo_space_parts la]
    unfolding tr option.case small_frees small_refs using la small_leaf_ok by (auto simp: leaf_ok_def)
qed

theorem page_insert_maps_witness:
  "\<exists>ret s'. page_insert (nbase + 12) 5 0x600000 (PTE_R OR PTE_U) (small_space small_leaf) = Some (ret, s') \<and> pg_ok s' \<and>
     (ret = - E_NO_MEM \<or> translate s' (nbase + 12) 0x400000 = Some small_leaf \<and> page_ref 5 s' = 2)"
proof -
  have la: "(0x400000::u64) < USERTOP" "(0x600000::u64) < USERTOP" by (simp_all add: USERTOP_def)
  have use: "in_use (small_space small_leaf) (5 + nbase)"
    by (simp add: in_use_def small_frees) (simp add: small_space_def)
  have nt: "\<not> table (small_space small_leaf) (nbase + 12) (5 + nbase)" by (simp add: small_table)
  have tr: "translate (small_space small_leaf) (nbase + 12) 0x400000 = Some small_leaf"
    "translate (small_space small_leaf) (nbase + 12) 0x600000 = None"
    by (simp_all add: small_translate [OF small_leaf_ok] PDX1_def PDX0_def PTX_def)
  have v: "vpn 0x400000 \<noteq> vpn 0x600000" by (simp add: vpn_def)
  show ?thesis
    using page_insert_maps [OF demo_space_parts(1,2) demo_space_maps la(2) use nt, of "PTE_R OR PTE_U"] la tr v small_refs(1) [of 5]
    by (auto simp: insert_refs_def)
qed

theorem unmap_range_clears_witness:
  "room_above (small_space small_leaf) (nbase + 12) \<and> translate (small_space small_leaf) (nbase + 12) 0x400000 \<noteq> None \<and>
   (\<exists>s'. unmap_range (nbase + 12) 0x400000 0x403000 (small_space small_leaf) = Some s' \<and> pg_ok s' \<and> refs_ok s' (nbase + 12) \<and>
      translate s' (nbase + 12) 0x400000 = None)"
proof -
  have sp: "pg_ok (small_space small_leaf)" "pt_ok (small_space small_leaf) (nbase + 12)" "maps_sound (small_space small_leaf) (nbase + 12)"
    "refs_ok (small_space small_leaf) (nbase + 12)" "frees (small_space small_leaf) \<noteq> {}" "room_above (small_space small_leaf) (nbase + 12)"
    using small_space_ok [OF small_leaf_ok] by (simp_all add: space_ok_def maps_ok_split)
  have "translate (small_space small_leaf) (nbase + 12) 0x400000 \<noteq> None"
    by (simp add: small_translate [OF small_leaf_ok] PDX1_def PDX0_def PTX_def)
  then show ?thesis
    using unmap_range_clears [OF sp, where start = "0x400000" and end' = "0x403000"] sp(6)
    by (simp add: USER_ACCESS_def USERBASE_def USERTOP_def PGSIZE_def) fastforce
qed

end
