(* ===== verification/Vmm.thy ===== *)
theory Vmm
  imports Paging Kernel_State
begin

text \<open>
  Virtual memory areas, page faults and copy on write: \<^verbatim>\<open>kern/mm/vmm.c\<close>, \<^verbatim>\<open>vmm.h\<close>, \<^verbatim>\<open>cow.c\<close> and \<^verbatim>\<open>cow.h\<close>.

  An address space (\<^verbatim>\<open>struct mm_struct\<close>) and an area (\<^verbatim>\<open>struct vma_struct\<close>) are named by numbers; the areas
  of an address space hang on a circular list whose head is the field \<^verbatim>\<open>mmap_list\<close>. The objects that
  \<^verbatim>\<open>kmalloc\<close> has handed out are the sets \<open>mm_live\<close> and \<open>vma_live\<close>; the choice \<^verbatim>\<open>kmalloc\<close> makes is the argument
  \<open>km\<close> of the routines that allocate, a function of the live objects whose result \<open>None\<close> is a failed
  allocation. A \<^verbatim>\<open>down\<close> of a semaphore that is held does not return in these sequential runs.
\<close>

section \<open>State\<close>

definition VM_READ :: u32 where "VM_READ = 1"
definition VM_WRITE :: u32 where "VM_WRITE = 2"
definition VM_EXEC :: u32 where "VM_EXEC = 4"
definition VM_STACK :: u32 where "VM_STACK = 8"

record vma_struct =
  vm_mm :: "nat option"
  vm_start :: u64
  vm_end :: u64
  vm_flags :: u32

record mm_struct =
  mmap_cache :: "nat option"
  mm_pgdir :: "nat option"
  map_count :: int
  mm_count :: int
  mm_sem :: int
  locked_by :: int

record cow_stats =
  cow_faults :: u64
  cow_copies :: u64
  cow_upgrades :: u64
  pages_saved :: u64

record vmm = paging +
  mms :: "nat \<Rightarrow> mm_struct"
  mm_live :: "nat set"
  vmas :: "nat \<Rightarrow> vma_struct"
  vma_live :: "nat set"
  vlinks :: "nat hook links"
  pgfault_num :: u32
  global_cow_stats :: cow_stats

definition set_mm :: "nat \<Rightarrow> (mm_struct \<Rightarrow> mm_struct) \<Rightarrow> 'a vmm_scheme \<Rightarrow> 'a vmm_scheme" where
  "set_mm m f s = s\<lparr>mms := (mms s)(m := f (mms s m))\<rparr>"

definition set_vma :: "nat \<Rightarrow> (vma_struct \<Rightarrow> vma_struct) \<Rightarrow> 'a vmm_scheme \<Rightarrow> 'a vmm_scheme" where
  "set_vma v f s = s\<lparr>vmas := (vmas s)(v := f (vmas s v))\<rparr>"

section \<open>Areas\<close>

definition mm_create :: "(nat set \<Rightarrow> nat option) \<Rightarrow> 'a vmm_scheme \<Rightarrow> nat option \<times> 'a vmm_scheme" where
  "mm_create km s =
     (case km (mm_live s) of
        None \<Rightarrow> (None, s)
      | Some m \<Rightarrow>
          (Some m,
           set_mm m (\<lambda>x. x\<lparr>mmap_cache := None, mm_pgdir := None, map_count := 0, mm_count := 0, mm_sem := 1\<rparr>)
             (s\<lparr>mm_live := insert m (mm_live s), vlinks := list_init (vlinks s) (Head m)\<rparr>)))"

definition vma_create ::
  "(nat set \<Rightarrow> nat option) \<Rightarrow> u64 \<Rightarrow> u64 \<Rightarrow> u32 \<Rightarrow> 'a vmm_scheme \<Rightarrow> nat option \<times> 'a vmm_scheme" where
  "vma_create km start end' flags s =
     (case km (vma_live s) of
        None \<Rightarrow> (None, s)
      | Some v \<Rightarrow>
          (Some v,
           set_vma v (\<lambda>a. a\<lparr>vm_start := start, vm_end := end', vm_flags := flags\<rparr>)
             (s\<lparr>vma_live := insert v (vma_live s)\<rparr>)))"

definition covers :: "vma_struct \<Rightarrow> u64 \<Rightarrow> bool" where
  "covers a addr \<longleftrightarrow> vm_start a \<le> addr \<and> addr < vm_end a"

partial_function (option) find_loop ::
  "nat \<Rightarrow> nat hook \<Rightarrow> u64 \<Rightarrow> 'a vmm_scheme \<Rightarrow> nat option option" where
  "find_loop m le addr s =
     (let le = list_next (vlinks s) le in
      if le = Head m then Some None
      else do {
        v \<leftarrow> owner le;
        if covers (vmas s v) addr then Some (Some v) else find_loop m le addr s
      })"

definition find_vma :: "nat option \<Rightarrow> u64 \<Rightarrow> 'a vmm_scheme \<Rightarrow> (nat option \<times> 'a vmm_scheme) option" where
  "find_vma mo addr s =
     (case mo of
        None \<Rightarrow> Some (None, s)
      | Some m \<Rightarrow> do {
          r \<leftarrow> (case mmap_cache (mms s m) of
                  Some v \<Rightarrow> if covers (vmas s v) addr then Some (Some v) else find_loop m (Head m) addr s
                | None \<Rightarrow> find_loop m (Head m) addr s);
          Some (r, if r \<noteq> None then set_mm m (\<lambda>x. x\<lparr>mmap_cache := r\<rparr>) s else s)
        })"

definition check_vma_overlap :: "vma_struct \<Rightarrow> vma_struct \<Rightarrow> unit option" where
  "check_vma_overlap p n = do {
     kassert (vm_start p < vm_end p);
     kassert (vm_end p \<le> vm_start n);
     kassert (vm_start n < vm_end n)
   }"

text \<open>The loop that looks for the entry after which the new area goes.\<close>

partial_function (option) insert_pos ::
  "nat \<Rightarrow> u64 \<Rightarrow> nat hook \<Rightarrow> nat hook \<Rightarrow> 'a vmm_scheme \<Rightarrow> nat hook option" where
  "insert_pos m start le_prev le s =
     (let le = list_next (vlinks s) le in
      if le = Head m then Some le_prev
      else do {
        v \<leftarrow> owner le;
        if vm_start (vmas s v) > start then Some le_prev else insert_pos m start le le s
      })"

definition insert_vma_struct :: "nat \<Rightarrow> nat \<Rightarrow> 'a vmm_scheme \<Rightarrow> 'a vmm_scheme option" where
  "insert_vma_struct m v s = do {
     kassert (vm_start (vmas s v) < vm_end (vmas s v));
     le_prev \<leftarrow> insert_pos m (vm_start (vmas s v)) (Head m) (Head m) s;
     let le_next = list_next (vlinks s) le_prev;
     (if le_prev \<noteq> Head m then do { p \<leftarrow> owner le_prev; check_vma_overlap (vmas s p) (vmas s v) } else Some ());
     (if le_next \<noteq> Head m then do { n \<leftarrow> owner le_next; check_vma_overlap (vmas s v) (vmas s n) } else Some ());
     let s = set_vma v (\<lambda>a. a\<lparr>vm_mm := Some m\<rparr>) s;
     let s = s\<lparr>vlinks := list_add_after (vlinks s) le_prev (Elem v)\<rparr>;
     Some (set_mm m (\<lambda>x. x\<lparr>map_count := map_count x + 1\<rparr>) s)
   }"

partial_function (option) destroy_loop :: "nat \<Rightarrow> 'a vmm_scheme \<Rightarrow> 'a vmm_scheme option" where
  "destroy_loop m s =
     (let le = list_next (vlinks s) (Head m) in
      if le = Head m then Some s
      else do {
        v \<leftarrow> owner le;
        destroy_loop m (s\<lparr>vlinks := list_del (vlinks s) le, vma_live := vma_live s - {v}\<rparr>)
      })"

definition mm_destroy :: "nat \<Rightarrow> 'a vmm_scheme \<Rightarrow> 'a vmm_scheme option" where
  "mm_destroy m s = do {
     kassert (mm_count (mms s m) = 0);
     s \<leftarrow> destroy_loop m s;
     Some (s\<lparr>mm_live := mm_live s - {m}\<rparr>)
   }"

definition mm_map ::
  "(nat set \<Rightarrow> nat option) \<Rightarrow> nat option \<Rightarrow> u64 \<Rightarrow> u64 \<Rightarrow> u32 \<Rightarrow> 'a vmm_scheme \<Rightarrow>
   (int \<times> nat option \<times> 'a vmm_scheme) option" where
  "mm_map km mo addr len flags s =
     (let start = ROUNDDOWN addr PGSIZE; end' = ROUNDUP (addr + len) PGSIZE in
      if \<not> USER_ACCESS start end' then Some (- E_INVAL, None, s)
      else case mo of
        None \<Rightarrow> panic
      | Some m \<Rightarrow> do {
          (r, s) \<leftarrow> find_vma mo start s;
          if (case r of None \<Rightarrow> False | Some v \<Rightarrow> end' > vm_start (vmas s v)) then Some (- E_INVAL, None, s)
          else (case vma_create km start end' flags s of
             (None, s) \<Rightarrow> Some (- E_NO_MEM, None, s)
           | (Some v, s) \<Rightarrow> do {
               s \<leftarrow> insert_vma_struct m v s;
               Some (0, Some v, s)
             })
        })"

partial_function (option) dup_loop ::
  "(nat set \<Rightarrow> nat option) \<Rightarrow> nat \<Rightarrow> nat \<Rightarrow> nat hook \<Rightarrow> 'a vmm_scheme \<Rightarrow> (int \<times> 'a vmm_scheme) option" where
  "dup_loop km to from le s =
     (let le = list_prev (vlinks s) le in
      if le = Head from then Some (0, s)
      else do {
        v \<leftarrow> owner le;
        let a = vmas s v;
        (case vma_create km (vm_start a) (vm_end a) (vm_flags a) s of
           (None, s) \<Rightarrow> Some (- E_NO_MEM, s)
         | (Some nv, s) \<Rightarrow> do {
             s \<leftarrow> insert_vma_struct to nv s;
             tod \<leftarrow> mm_pgdir (mms s to);
             fromd \<leftarrow> mm_pgdir (mms s from);
             (ret, s) \<leftarrow> copy_range tod fromd (vm_start a) (vm_end a) s;
             if ret \<noteq> 0 then Some (- E_NO_MEM, s) else dup_loop km to from le s
           })
      })"

definition dup_mmap ::
  "(nat set \<Rightarrow> nat option) \<Rightarrow> nat option \<Rightarrow> nat option \<Rightarrow> 'a vmm_scheme \<Rightarrow> (int \<times> 'a vmm_scheme) option" where
  "dup_mmap km to from s = do {
     kassert (to \<noteq> None \<and> from \<noteq> None);
     t \<leftarrow> to;
     f \<leftarrow> from;
     dup_loop km t f (Head f) s
   }"

partial_function (option) exit_unmap_loop :: "nat \<Rightarrow> nat \<Rightarrow> nat hook \<Rightarrow> 'a vmm_scheme \<Rightarrow> 'a vmm_scheme option" where
  "exit_unmap_loop m pgd le s =
     (let le = list_next (vlinks s) le in
      if le = Head m then Some s
      else do {
        v \<leftarrow> owner le;
        s \<leftarrow> unmap_range pgd (vm_start (vmas s v)) (vm_end (vmas s v)) s;
        exit_unmap_loop m pgd le s
      })"

partial_function (option) exit_range_loop :: "nat \<Rightarrow> nat \<Rightarrow> nat hook \<Rightarrow> 'a vmm_scheme \<Rightarrow> 'a vmm_scheme option" where
  "exit_range_loop m pgd le s =
     (let le = list_next (vlinks s) le in
      if le = Head m then Some s
      else do {
        v \<leftarrow> owner le;
        s \<leftarrow> exit_range pgd (vm_start (vmas s v)) (vm_end (vmas s v)) s;
        exit_range_loop m pgd le s
      })"

definition exit_mmap :: "nat option \<Rightarrow> 'a vmm_scheme \<Rightarrow> 'a vmm_scheme option" where
  "exit_mmap mo s =
     (case mo of
        None \<Rightarrow> panic
      | Some m \<Rightarrow> do {
          kassert (mm_count (mms s m) = 0);
          (case mm_pgdir (mms s m) of
             None \<Rightarrow> if list_empty (vlinks s) (Head m) then Some s else None
           | Some pgd \<Rightarrow> do {
               s \<leftarrow> exit_unmap_loop m pgd (Head m) s;
               exit_range_loop m pgd (Head m) s
             })
        })"

section \<open>Locking\<close>

text \<open>\<^verbatim>\<open>down\<close> on a semaphore whose count is not positive puts the caller to sleep until another process gives the lock back. These
  functions run one process alone, so such a run has no result here, as has one that panics; that waiting is what happens is shown by
  running the same call with the lock free. The queueing itself is modelled in the theory of semaphores.\<close>

definition mm_down :: "nat \<Rightarrow> 'a vmm_scheme \<Rightarrow> 'a vmm_scheme option" where
  "mm_down m s = (if mm_sem (mms s m) > 0 then Some (set_mm m (\<lambda>x. x\<lparr>mm_sem := mm_sem x - 1\<rparr>) s) else None)"

definition mm_up :: "nat \<Rightarrow> 'a vmm_scheme \<Rightarrow> 'a vmm_scheme" where
  "mm_up m s = set_mm m (\<lambda>x. x\<lparr>mm_sem := mm_sem x + 1\<rparr>) s"

text \<open>The process identifier that \<^verbatim>\<open>lock_mm\<close> records is that of the current process, if there is one.\<close>

definition lock_mm :: "int option \<Rightarrow> nat option \<Rightarrow> 'a vmm_scheme \<Rightarrow> 'a vmm_scheme option" where
  "lock_mm cur mo s =
     (case mo of
        None \<Rightarrow> Some s
      | Some m \<Rightarrow> do {
          s \<leftarrow> mm_down m s;
          Some (case cur of None \<Rightarrow> s | Some i \<Rightarrow> set_mm m (\<lambda>x. x\<lparr>locked_by := i\<rparr>) s)
        })"

definition unlock_mm :: "nat option \<Rightarrow> 'a vmm_scheme \<Rightarrow> 'a vmm_scheme" where
  "unlock_mm mo s =
     (case mo of None \<Rightarrow> s | Some m \<Rightarrow> set_mm m (\<lambda>x. x\<lparr>locked_by := 0\<rparr>) (mm_up m s))"

section \<open>Page faults\<close>

definition CAUSE_FETCH_PAGE_FAULT :: u64 where "CAUSE_FETCH_PAGE_FAULT = 0xC"
definition CAUSE_LOAD_PAGE_FAULT :: u64 where "CAUSE_LOAD_PAGE_FAULT = 0xD"
definition CAUSE_STORE_PAGE_FAULT :: u64 where "CAUSE_STORE_PAGE_FAULT = 0xF"

definition fault_perm :: "u32 \<Rightarrow> u64" where
  "fault_perm flags =
     (let perm = PTE_U;
          perm = (if flags AND VM_WRITE \<noteq> 0 then perm OR (PTE_R OR PTE_W) else perm);
          perm = (if flags AND VM_READ \<noteq> 0 then perm OR PTE_R else perm);
          perm = (if flags AND VM_EXEC \<noteq> 0 then perm OR PTE_X else perm);
          perm = perm OR PTE_A
      in if perm AND PTE_W \<noteq> 0 then perm OR PTE_D else perm)"

text \<open>The part of \<^verbatim>\<open>do_pgfault\<close> for an entry that is already there: a write to a shared page copies it, a write
  to a page with one reference gets the write permission back.\<close>

definition pgfault_present ::
  "nat \<Rightarrow> u64 \<Rightarrow> u64 \<Rightarrow> bool \<Rightarrow> nat \<times> nat \<Rightarrow> 'a vmm_scheme \<Rightarrow> (int \<times> 'a vmm_scheme) option" where
  "pgfault_present pgd addr perm write ptep s =
     (let (t, i) = ptep; pte = pmem s t i in
      if write \<and> valid pte \<and> pte AND PTE_W = 0 then
        if pte AND PTE_COW = 0 then Some (- E_NO_MEM, s)
        else do {
          page \<leftarrow> pte2page pte s;
          if page_ref page s > 1 then do {
            (np, s) \<leftarrow> alloc_page s;
            (case np of
               None \<Rightarrow> Some (- E_NO_MEM, s)
             | Some np1 \<Rightarrow> do {
                 src \<leftarrow> page2kva page s;
                 dst \<leftarrow> page2kva np1 s;
                 let s = put_page dst (pmem s src) s;
                 (r, s) \<leftarrow> page_insert pgd np1 addr perm s;
                 if r \<noteq> 0 then do { s \<leftarrow> free_page np1 s; Some (- E_NO_MEM, s) } else Some (0, s)
               })
          } else do {
            (r, s) \<leftarrow> page_insert pgd page addr perm s;
            Some (0, s)
          }
        }
      else Some (0, s))"

definition do_pgfault :: "nat option \<Rightarrow> u64 \<Rightarrow> u64 \<Rightarrow> 'a vmm_scheme \<Rightarrow> (int \<times> 'a vmm_scheme) option" where
  "do_pgfault mo error_code addr s = do {
     (r, s) \<leftarrow> find_vma mo addr s;
     let s = s\<lparr>pgfault_num := pgfault_num s + 1\<rparr>;
     (case r of
        None \<Rightarrow> Some (- E_INVAL, s)
      | Some v \<Rightarrow>
          if vm_start (vmas s v) > addr then Some (- E_INVAL, s)
          else do {
            let write = (error_code = CAUSE_STORE_PAGE_FAULT);
            let flags = vm_flags (vmas s v);
            m \<leftarrow> mo;
            s \<leftarrow> mm_down m s;
            if write \<and> flags AND VM_WRITE = 0 then Some (- E_INVAL, mm_up m s)
            else do {
              let perm = fault_perm flags;
              let addr = ROUNDDOWN addr PGSIZE;
              pgd \<leftarrow> mm_pgdir (mms s m);
              (pr, s) \<leftarrow> get_pte pgd addr True s;
              (ret, s) \<leftarrow>
                (case pr of
                   None \<Rightarrow> Some (- E_NO_MEM, s)
                 | Some (t, i) \<Rightarrow>
                     if pmem s t i = 0 then do {
                       (np, s) \<leftarrow> pgdir_alloc_page pgd addr perm s;
                       Some (if np = None then - E_NO_MEM else 0, s)
                     } else pgfault_present pgd addr perm write (t, i) s);
              Some (ret, mm_up m s)
            }
          })
   }"

section \<open>Copy on write\<close>

definition is_cow_page :: "u64 \<Rightarrow> bool" where
  "is_cow_page pte \<longleftrightarrow> valid pte \<and> pte AND PTE_W = 0 \<and> pte AND PTE_COW \<noteq> 0"

definition set_cow_pte :: "u64 \<Rightarrow> u64" where
  "set_cow_pte pte = (pte AND NOT PTE_W) OR PTE_COW"

definition clear_cow_pte :: "u64 \<Rightarrow> u64" where
  "clear_cow_pte pte = (pte AND NOT PTE_COW) OR PTE_W"

definition cow_stats_init :: "'a vmm_scheme \<Rightarrow> 'a vmm_scheme" where
  "cow_stats_init s =
     s\<lparr>global_cow_stats := \<lparr>cow_faults = 0, cow_copies = 0, cow_upgrades = 0, pages_saved = 0\<rparr>\<rparr>"

definition upd_stats :: "(cow_stats \<Rightarrow> cow_stats) \<Rightarrow> 'a vmm_scheme \<Rightarrow> 'a vmm_scheme" where
  "upd_stats f s = s\<lparr>global_cow_stats := f (global_cow_stats s)\<rparr>"

definition handle_cow_fault ::
  "nat option \<Rightarrow> u64 \<Rightarrow> (nat \<times> nat) option \<Rightarrow> 'a vmm_scheme \<Rightarrow> (int \<times> 'a vmm_scheme) option" where
  "handle_cow_fault mo addr ptep s = do {
     m \<leftarrow> mo;
     (t, i) \<leftarrow> ptep;
     let s = upd_stats (\<lambda>x. x\<lparr>cow_faults := cow_faults x + 1\<rparr>) s;
     let pte = pmem s t i;
     if \<not> valid pte then Some (- E_INVAL, s)
     else do {
       page \<leftarrow> pte2page pte s;
       let ref_count = page_ref page s;
       let perm = (pte AND PTE_USER) OR PTE_W;
       let la = ROUNDDOWN addr PGSIZE;
       if ref_count > 1 then do {
         (np, s) \<leftarrow> alloc_page s;
         (case np of
            None \<Rightarrow> Some (- E_NO_MEM, s)
          | Some new_page \<Rightarrow> do {
              src \<leftarrow> page2kva page s;
              dst \<leftarrow> page2kva new_page s;
              let s = put_page dst (pmem s src) s;
              pgd \<leftarrow> mm_pgdir (mms s m);
              (ret, s) \<leftarrow> page_insert pgd new_page la perm s;
              if ret \<noteq> 0 then do { s \<leftarrow> free_page new_page s; Some (ret, s) }
              else Some (0, upd_stats (\<lambda>x. x\<lparr>cow_copies := cow_copies x + 1\<rparr>) s)
            })
       } else if ref_count = 1 then do {
         pgd \<leftarrow> mm_pgdir (mms s m);
         (ret, s) \<leftarrow> page_insert pgd page la perm s;
         if ret \<noteq> 0 then Some (ret, s)
         else Some (0, upd_stats (\<lambda>x. x\<lparr>cow_upgrades := cow_upgrades x + 1\<rparr>) s)
       } else Some (- E_INVAL, s)
     }
   }"

definition make_page_cow :: "nat \<Rightarrow> u64 \<Rightarrow> 'a vmm_scheme \<Rightarrow> (int \<times> 'a vmm_scheme) option" where
  "make_page_cow pgd la s = do {
     (r, s) \<leftarrow> get_pte pgd la False s;
     (case r of
        None \<Rightarrow> Some (- E_INVAL, s)
      | Some (t, i) \<Rightarrow>
          if \<not> valid (pmem s t i) then Some (- E_INVAL, s)
          else Some (0, set_entry t i (set_cow_pte (pmem s t i)) s))
   }"

definition check_and_do_cow :: "nat \<Rightarrow> u64 \<Rightarrow> bool \<Rightarrow> 'a vmm_scheme \<Rightarrow> (int \<times> 'a vmm_scheme) option" where
  "check_and_do_cow m addr write s =
     (if \<not> write then Some (0, s)
      else do {
        pgd \<leftarrow> mm_pgdir (mms s m);
        (r, s) \<leftarrow> get_pte pgd addr False s;
        (case r of
           None \<Rightarrow> Some (- E_INVAL, s)
         | Some (t, i) \<Rightarrow>
             if is_cow_page (pmem s t i) then handle_cow_fault (Some m) addr (Some (t, i)) s
             else if pmem s t i AND PTE_W = 0 \<and> valid (pmem s t i) then handle_cow_fault (Some m) addr (Some (t, i)) s
             else Some (0, s))
      })"

definition validate_cow_security :: "nat option \<Rightarrow> u64 \<Rightarrow> nat option \<Rightarrow> 'a vmm_scheme \<Rightarrow> bool option" where
  "validate_cow_security mo addr vo s = do {
     m \<leftarrow> mo;
     v \<leftarrow> vo;
     let a = vmas s v;
     if vm_flags a AND VM_WRITE = 0 then Some False
     else if addr < vm_start a \<or> addr \<ge> vm_end a then Some False
     else do {
       pgd \<leftarrow> mm_pgdir (mms s m);
       (r, s) \<leftarrow> get_pte pgd addr False s;
       Some (case r of None \<Rightarrow> False | Some (t, i) \<Rightarrow> valid (pmem s t i))
     }
   }"

text \<open>The page loop of \<^verbatim>\<open>verify_cow_invariants\<close> for one area; \<open>ok\<close> is the running verdict.\<close>

definition cow_page_check :: "u64 \<Rightarrow> int \<Rightarrow> bool" where
  "cow_page_check pte ref \<longleftrightarrow> 0 < ref \<and> \<not> (1 < ref \<and> pte AND PTE_W \<noteq> 0) \<and>
     (is_cow_page pte \<longrightarrow> valid pte \<and> pte AND PTE_W = 0)"

partial_function (option) verify_area :: "nat \<Rightarrow> u64 \<Rightarrow> u64 \<Rightarrow> bool \<Rightarrow> 'a vmm_scheme \<Rightarrow> bool option" where
  "verify_area pgd addr end' ok s =
     (if addr < end' then do {
        (r, _) \<leftarrow> get_pte pgd addr False s;
        ok \<leftarrow> (case r of
                 None \<Rightarrow> Some ok
               | Some (t, i) \<Rightarrow>
                   if \<not> valid (pmem s t i) then Some ok
                   else do { page \<leftarrow> pte2page (pmem s t i) s; Some (ok \<and> cow_page_check (pmem s t i) (page_ref page s)) });
        verify_area pgd (addr + PGSIZE) end' ok s
      } else Some ok)"

partial_function (option) verify_loop :: "nat \<Rightarrow> nat \<Rightarrow> nat hook \<Rightarrow> bool \<Rightarrow> 'a vmm_scheme \<Rightarrow> bool option" where
  "verify_loop m pgd le ok s =
     (let le = list_next (vlinks s) le in
      if le = Head m then Some ok
      else do {
        v \<leftarrow> owner le;
        ok \<leftarrow> verify_area pgd (vm_start (vmas s v)) (vm_end (vmas s v)) ok s;
        verify_loop m pgd le ok s
      })"

definition verify_cow_invariants :: "nat option \<Rightarrow> 'a vmm_scheme \<Rightarrow> bool option" where
  "verify_cow_invariants mo s = do {
     m \<leftarrow> mo;
     (case mm_pgdir (mms s m) of
        None \<Rightarrow> if list_empty (vlinks s) (Head m) then Some True else None
      | Some pgd \<Rightarrow> verify_loop m pgd (Head m) True s)
   }"

section \<open>User memory\<close>

partial_function (option) mem_check_loop ::
  "nat option \<Rightarrow> bool \<Rightarrow> u64 \<Rightarrow> u64 \<Rightarrow> 'a vmm_scheme \<Rightarrow> (bool \<times> 'a vmm_scheme) option" where
  "mem_check_loop mo write start end' s =
     (if start < end' then do {
        (r, s) \<leftarrow> find_vma mo start s;
        (case r of
           None \<Rightarrow> Some (False, s)
         | Some v \<Rightarrow>
             let a = vmas s v in
             if start < vm_start a then Some (False, s)
             else if vm_flags a AND (if write then VM_WRITE else VM_READ) = 0 then Some (False, s)
             else if write \<and> vm_flags a AND VM_STACK \<noteq> 0 \<and> start < vm_start a + PGSIZE then Some (False, s)
             else mem_check_loop mo write (vm_end a) end' s)
      } else Some (True, s))"

definition user_mem_check ::
  "nat option \<Rightarrow> u64 \<Rightarrow> u64 \<Rightarrow> bool \<Rightarrow> 'a vmm_scheme \<Rightarrow> (bool \<times> 'a vmm_scheme) option" where
  "user_mem_check mo addr len write s =
     (if mo \<noteq> None then
        if \<not> USER_ACCESS addr (addr + len) then Some (False, s)
        else mem_check_loop mo write addr (addr + len) s
      else Some (KERN_ACCESS addr (addr + len), s))"

text \<open>
  A load or store of the kernel at a user address. The processor looks the address up; without a valid entry
  that allows the access it traps, the trap handler calls \<^verbatim>\<open>do_pgfault\<close> for the current address space, stops
  the kernel when that fails, and repeats the access when it succeeds.
\<close>

definition access_ok :: "bool \<Rightarrow> u64 \<Rightarrow> bool" where
  "access_ok write e \<longleftrightarrow> (if write then e AND PTE_W \<noteq> 0 else e AND PTE_R \<noteq> 0)"

partial_function (option) user_access :: "nat \<Rightarrow> bool \<Rightarrow> u64 \<Rightarrow> 'a vmm_scheme \<Rightarrow> (nat \<times> 'a vmm_scheme) option" where
  "user_access m write la s = do {
     pgd \<leftarrow> mm_pgdir (mms s m);
     (r, s) \<leftarrow> get_pte pgd la False s;
     let hit = (case r of None \<Rightarrow> None
                | Some (t, i) \<Rightarrow> if valid (pmem s t i) \<and> access_ok write (pmem s t i) then Some (pmem s t i) else None);
     (case hit of
        Some e \<Rightarrow> Some (PPN (PTE_ADDR e), s)
      | None \<Rightarrow> do {
          (ret, s) \<leftarrow> do_pgfault (Some m) (if write then CAUSE_STORE_PAGE_FAULT else CAUSE_LOAD_PAGE_FAULT) la s;
          if ret \<noteq> 0 then panic else user_access m write la s
        })
   }"

definition byte_at :: "(nat \<Rightarrow> u64) \<Rightarrow> nat \<Rightarrow> u8" where
  "byte_at w off = ucast (drop_bit (8 * (off mod 8)) (w (off div 8)))"

definition set_byte :: "(nat \<Rightarrow> u64) \<Rightarrow> nat \<Rightarrow> u8 \<Rightarrow> (nat \<Rightarrow> u64)" where
  "set_byte w off b =
     w(off div 8 := (w (off div 8) AND NOT (push_bit (8 * (off mod 8)) 0xFF)) OR push_bit (8 * (off mod 8)) (ucast b))"

definition load_byte :: "nat \<Rightarrow> u64 \<Rightarrow> 'a vmm_scheme \<Rightarrow> (u8 \<times> 'a vmm_scheme) option" where
  "load_byte m la s = do {
     (k, s) \<leftarrow> user_access m False la s;
     Some (byte_at (pmem s k) (unat (la mod PGSIZE)), s)
   }"

definition store_byte :: "nat \<Rightarrow> u64 \<Rightarrow> u8 \<Rightarrow> 'a vmm_scheme \<Rightarrow> 'a vmm_scheme option" where
  "store_byte m la b s = do {
     (k, s) \<leftarrow> user_access m True la s;
     Some (put_page k (set_byte (pmem s k) (unat (la mod PGSIZE)) b) s)
   }"

fun load_bytes :: "nat \<Rightarrow> u64 \<Rightarrow> nat \<Rightarrow> 'a vmm_scheme \<Rightarrow> (u8 list \<times> 'a vmm_scheme) option" where
  "load_bytes m la 0 s = Some ([], s)"
| "load_bytes m la (Suc n) s = do {
     (b, s) \<leftarrow> load_byte m la s;
     (bs, s) \<leftarrow> load_bytes m (la + 1) n s;
     Some (b # bs, s)
   }"

fun store_bytes :: "nat \<Rightarrow> u64 \<Rightarrow> u8 list \<Rightarrow> 'a vmm_scheme \<Rightarrow> 'a vmm_scheme option" where
  "store_bytes m la [] s = Some s"
| "store_bytes m la (b # bs) s = do { s \<leftarrow> store_byte m la b s; store_bytes m (la + 1) bs s }"

text \<open>The kernel buffer of the copies is the list of its bytes. Without an address space both ends are kernel
  addresses, which these routines are not used for; that copy has no value here.\<close>

definition copy_from_user ::
  "nat option \<Rightarrow> u64 \<Rightarrow> u64 \<Rightarrow> bool \<Rightarrow> 'a vmm_scheme \<Rightarrow> (u8 list option \<times> 'a vmm_scheme) option" where
  "copy_from_user mo src len writable s = do {
     (ok, s) \<leftarrow> user_mem_check mo src len writable s;
     if \<not> ok then Some (None, s)
     else do { m \<leftarrow> mo; (bs, s) \<leftarrow> load_bytes m src (unat len) s; Some (Some bs, s) }
   }"

definition copy_to_user :: "nat option \<Rightarrow> u64 \<Rightarrow> u8 list \<Rightarrow> 'a vmm_scheme \<Rightarrow> (bool \<times> 'a vmm_scheme) option" where
  "copy_to_user mo dst bs s = do {
     (ok, s) \<leftarrow> user_mem_check mo dst (of_nat (length bs)) True s;
     if \<not> ok then Some (False, s)
     else do { m \<leftarrow> mo; s \<leftarrow> store_bytes m dst bs s; Some (True, s) }
   }"

fun string_part :: "nat \<Rightarrow> u64 \<Rightarrow> nat \<Rightarrow> 'a vmm_scheme \<Rightarrow> (bool \<times> u8 list \<times> 'a vmm_scheme) option" where
  "string_part m src 0 s = Some (False, [], s)"
| "string_part m src (Suc n) s = do {
     (b, s) \<leftarrow> load_byte m src s;
     if b = 0 then Some (True, [b], s)
     else do { (e, bs, s) \<leftarrow> string_part m (src + 1) n s; Some (e, b # bs, s) }
   }"

partial_function (option) string_loop ::
  "nat \<Rightarrow> u64 \<Rightarrow> nat \<Rightarrow> nat \<Rightarrow> nat \<Rightarrow> 'a vmm_scheme \<Rightarrow> (bool \<times> u8 list \<times> 'a vmm_scheme) option" where
  "string_loop m src alpart copied maxn s = do {
     (ok, s) \<leftarrow> user_mem_check (Some m) src (of_nat alpart) False s;
     if \<not> ok then Some (False, [], s)
     else do {
       (e, bs, s) \<leftarrow> string_part m src alpart s;
       if e then Some (True, bs, s)
       else let copied = copied + alpart; src = src + of_nat alpart in
         if copied \<ge> maxn then Some (False, bs, s)
         else do {
           (r, bs', s) \<leftarrow> string_loop m src (min 4096 (maxn - copied)) copied maxn s;
           Some (r, bs @ bs', s)
         }
     }
   }"

definition copy_string :: "nat \<Rightarrow> u64 \<Rightarrow> nat \<Rightarrow> 'a vmm_scheme \<Rightarrow> (bool \<times> u8 list \<times> 'a vmm_scheme) option" where
  "copy_string m src maxn s =
     string_loop m src (min (4096 - unat (src mod PGSIZE)) maxn) 0 maxn s"

section \<open>The list of areas\<close>

lemma set_mm_simps [simp]:
  "mms (set_mm m f s) = (mms s)(m := f (mms s m))" "vmas (set_mm m f s) = vmas s" "vlinks (set_mm m f s) = vlinks s"
  "vma_live (set_mm m f s) = vma_live s" "mm_live (set_mm m f s) = mm_live s"
  "phys (set_mm m f s) = phys s" "npage (set_mm m f s) = npage s" "pmem (set_mm m f s) = pmem s"
  by (simp_all add: set_mm_def)

lemma set_vma_simps [simp]:
  "vmas (set_vma v f s) = (vmas s)(v := f (vmas s v))" "mms (set_vma v f s) = mms s" "vlinks (set_vma v f s) = vlinks s"
  "vma_live (set_vma v f s) = vma_live s" "mm_live (set_vma v f s) = mm_live s"
  by (simp_all add: set_vma_def)

text \<open>Areas in the order of their addresses, none empty, no two of them overlapping.\<close>

definition areas_ok :: "(nat \<Rightarrow> vma_struct) \<Rightarrow> nat list \<Rightarrow> bool" where
  "areas_ok A vs \<longleftrightarrow> sorted_wrt (\<lambda>v w. vm_end (A v) \<le> vm_start (A w)) vs \<and> (\<forall>v\<in>set vs. vm_start (A v) < vm_end (A v))"

definition mm_ok :: "'a vmm_scheme \<Rightarrow> nat \<Rightarrow> nat list \<Rightarrow> bool" where
  "mm_ok s m vs \<longleftrightarrow> ring (vlinks s) (Head m) (map Elem vs) \<and> areas_ok (vmas s) vs \<and> set vs \<subseteq> vma_live s \<and>
     mmap_cache (mms s m) \<in> insert None (Some ` set vs) \<and> map_count (mms s m) = int (length vs)"

lemma areas_ok_append:
  "areas_ok A (vs @ ws) \<longleftrightarrow> areas_ok A vs \<and> areas_ok A ws \<and> (\<forall>v\<in>set vs. \<forall>w\<in>set ws. vm_end (A v) \<le> vm_start (A w))"
  by (auto simp: areas_ok_def sorted_wrt_append)

lemma areas_ok_Cons:
  "areas_ok A (v # ws) \<longleftrightarrow> vm_start (A v) < vm_end (A v) \<and> areas_ok A ws \<and> (\<forall>w\<in>set ws. vm_end (A v) \<le> vm_start (A w))"
  by (auto simp: areas_ok_def)

lemma areas_ok_cong: "(\<And>v. v \<in> set vs \<Longrightarrow> vm_start (A v) = vm_start (B v) \<and> vm_end (A v) = vm_end (B v)) \<Longrightarrow> areas_ok A vs = areas_ok B vs"
  by (induction vs) (auto simp: areas_ok_Cons areas_ok_def)

lemma covers_unique:
  assumes "areas_ok A vs" "v \<in> set vs" "covers (A v) x"
  shows "find (\<lambda>w. covers (A w) x) vs = Some v"
  using assms
proof (induction vs)
  case (Cons u vs)
  show ?case
  proof (cases "u = v")
    case False
    then have "vm_end (A u) \<le> vm_start (A v)" using Cons.prems(1,2) by (auto simp: areas_ok_Cons)
    then have "\<not> covers (A u) x" using Cons.prems(3) by (auto simp: covers_def)
    then show ?thesis using Cons False by (auto simp: areas_ok_Cons)
  qed (use Cons.prems in auto)
qed simp

lemma find_loop_ok:
  assumes "ring (vlinks s) (Head m) (map Elem (pre @ vs))"
  shows "find_loop m (last (Head m # map Elem pre)) x s = Some (find (\<lambda>v. covers (vmas s v) x) vs)"
  using assms
proof (induction vs arbitrary: pre)
  case Nil
  then have "list_next (vlinks s) (last (Head m # map Elem pre)) = Head m"
    using ring_succ [of "vlinks s" "Head m" "map Elem pre" "[]"] by (simp add: list_next_def)
  then show ?case by (subst find_loop.simps) (simp add: Let_def)
next
  case (Cons v vs)
  have n: "list_next (vlinks s) (last (Head m # map Elem pre)) = Elem v"
    using ring_succ [of "vlinks s" "Head m" "map Elem pre" "map Elem (v # vs)"] Cons.prems by (simp add: list_next_def)
  have "find_loop m (Elem v) x s = Some (find (\<lambda>v. covers (vmas s v) x) vs)"
    using Cons.IH [of "pre @ [v]"] Cons.prems by simp
  then show ?case by (subst find_loop.simps) (simp add: Let_def n del: last.simps)
qed

text \<open>\<open>find_vma\<close> returns the area a plain search of the list returns, and only remembers it in the cache.\<close>

lemma find_vma_ok:
  assumes ok: "mm_ok s m vs"
  shows "\<exists>c. find_vma (Some m) x s = Some (find (\<lambda>v. covers (vmas s v) x) vs, set_mm m (\<lambda>y. y\<lparr>mmap_cache := c\<rparr>) s) \<and>
    c \<in> insert None (Some ` set vs)"
proof -
  let ?f = "find (\<lambda>v. covers (vmas s v) x) vs"
  have r: "ring (vlinks s) (Head m) (map Elem vs)" and a: "areas_ok (vmas s) vs"
    and c: "mmap_cache (mms s m) \<in> insert None (Some ` set vs)" using ok by (auto simp: mm_ok_def)
  have l: "find_loop m (Head m) x s = Some ?f" using find_loop_ok [of s m "[]"] r by simp
  have "(case mmap_cache (mms s m) of
           Some v \<Rightarrow> if covers (vmas s v) x then Some (Some v) else find_loop m (Head m) x s
         | None \<Rightarrow> find_loop m (Head m) x s) = Some ?f"
    using covers_unique [OF a, of _ x] c l by (auto split: option.splits)
  then have e: "find_vma (Some m) x s = Some (?f, if ?f \<noteq> None then set_mm m (\<lambda>y. y\<lparr>mmap_cache := ?f\<rparr>) s else s)"
    by (simp add: find_vma_def)
  show ?thesis
  proof (cases "?f = None")
    case True
    then have "find_vma (Some m) x s = Some (?f, set_mm m (\<lambda>y. y\<lparr>mmap_cache := mmap_cache (mms s m)\<rparr>) s)"
      using e by (simp add: set_mm_def)
    then show ?thesis using c by blast
  next
    case False
    then have "?f \<in> Some ` set vs" by (auto simp: find_Some_iff image_iff)
    then show ?thesis using e False by (intro exI [of _ ?f]) auto
  qed
qed

lemma mm_ok_cache: "mm_ok s m vs \<Longrightarrow> c \<in> insert None (Some ` set vs) \<Longrightarrow> mm_ok (set_mm m (\<lambda>y. y\<lparr>mmap_cache := c\<rparr>) s) m vs"
  by (simp add: mm_ok_def)

text \<open>\<open>find_vma\<close> with its cache is the plain search: on a well-formed address space it returns the one area
  that covers the address, or null when none does, and leaves every area, the list and the page
  tables as they are.\<close>

theorem find_vma_searches:
  assumes "mm_ok s m vs"
  shows "\<exists>r s'. find_vma (Some m) x s = Some (r, s') \<and> mm_ok s' m vs \<and> vmas s' = vmas s \<and> pmem s' = pmem s \<and>
    (\<forall>v. r = Some v \<longleftrightarrow> v \<in> set vs \<and> covers (vmas s v) x)"
proof -
  have "find (\<lambda>v. covers (vmas s v) x) vs = Some v \<longleftrightarrow> v \<in> set vs \<and> covers (vmas s v) x" for v
    using covers_unique [of "vmas s" vs v x] assms by (auto simp: mm_ok_def find_Some_iff)
  then show ?thesis using find_vma_ok [OF assms, of x] mm_ok_cache [OF assms] by force
qed

lemma insert_pos_ok:
  assumes "ring (vlinks s) (Head m) (map Elem (pre @ vs))"
  shows "insert_pos m st (last (Head m # map Elem pre)) (last (Head m # map Elem pre)) s =
    Some (last (Head m # map Elem (pre @ takeWhile (\<lambda>v. vm_start (vmas s v) \<le> st) vs)))"
  using assms
proof (induction vs arbitrary: pre)
  case Nil
  then have "list_next (vlinks s) (last (Head m # map Elem pre)) = Head m"
    using ring_succ [of "vlinks s" "Head m" "map Elem pre" "[]"] by (simp add: list_next_def)
  then show ?case by (subst insert_pos.simps) (simp add: Let_def del: last.simps)
next
  case (Cons v vs)
  have n: "list_next (vlinks s) (last (Head m # map Elem pre)) = Elem v"
    using ring_succ [of "vlinks s" "Head m" "map Elem pre" "map Elem (v # vs)"] Cons.prems by (simp add: list_next_def)
  have "insert_pos m st (Elem v) (Elem v) s =
      Some (last (Head m # map Elem (pre @ v # takeWhile (\<lambda>v. vm_start (vmas s v) \<le> st) vs)))"
    using Cons.IH [of "pre @ [v]"] Cons.prems by simp
  then show ?case
    by (subst insert_pos.simps) (simp add: Let_def n linorder_not_le [symmetric] del: last.simps)
qed

definition disjoint_areas :: "vma_struct \<Rightarrow> vma_struct \<Rightarrow> bool" where
  "disjoint_areas a b \<longleftrightarrow> vm_end a \<le> vm_start b \<or> vm_end b \<le> vm_start a"

text \<open>The list split at the place of an area that starts at \<open>st\<close>; the neighbours decide whether it overlaps any.\<close>

lemma split_at:
  assumes a: "areas_ok A vs" and st: "st < en"
    and pre: "pre = takeWhile (\<lambda>v. vm_start (A v) \<le> st) vs" and post: "post = dropWhile (\<lambda>v. vm_start (A v) \<le> st) vs"
  shows "(\<forall>w\<in>set vs. en \<le> vm_start (A w) \<or> vm_end (A w) \<le> st) \<longleftrightarrow>
    (pre \<noteq> [] \<longrightarrow> vm_end (A (last pre)) \<le> st) \<and> (post \<noteq> [] \<longrightarrow> en \<le> vm_start (A (hd post)))"
    and "(\<forall>w\<in>set vs. en \<le> vm_start (A w) \<or> vm_end (A w) \<le> st) \<Longrightarrow>
    (\<forall>w\<in>set pre. vm_end (A w) \<le> st) \<and> (\<forall>w\<in>set post. en \<le> vm_start (A w))"
proof -
  have vs: "vs = pre @ post" by (simp add: pre post)
  have lo: "vm_start (A w) \<le> st" if "w \<in> set pre" for w using that set_takeWhileD unfolding pre by fast
  have hi: "st < vm_start (A w)" if "w \<in> set post" for w
  proof -
    obtain u us where p: "post = u # us" using \<open>w \<in> set post\<close> by (cases post) auto
    have u: "st < vm_start (A u)" using p post by (metis dropWhile_eq_Cons_conv not_le)
    have "vm_start (A u) < vm_end (A u) \<and> vm_end (A u) \<le> vm_start (A w) \<or> w = u"
      using a vs p \<open>w \<in> set post\<close> by (auto simp: areas_ok_append areas_ok_Cons)
    then show ?thesis using u by auto
  qed
  have le1: "(\<forall>w\<in>set pre. vm_end (A w) \<le> st) \<longleftrightarrow> (pre \<noteq> [] \<longrightarrow> vm_end (A (last pre)) \<le> st)"
  proof (cases pre rule: rev_cases)
    case (snoc us u)
    then have "vm_end (A w) \<le> vm_end (A u)" if "w \<in> set us" for w
      using a vs that by (force simp: areas_ok_append areas_ok_Cons)
    then show ?thesis using snoc by force
  qed simp
  have le2: "(\<forall>w\<in>set post. en \<le> vm_start (A w)) \<longleftrightarrow> (post \<noteq> [] \<longrightarrow> en \<le> vm_start (A (hd post)))"
  proof (cases post)
    case (Cons u us)
    then have "vm_start (A u) \<le> vm_start (A w)" if "w \<in> set us" for w
      using a vs that by (force simp: areas_ok_append areas_ok_Cons)
    then show ?thesis using Cons by force
  qed simp
  have cut: "(\<forall>w\<in>set vs. en \<le> vm_start (A w) \<or> vm_end (A w) \<le> st) \<longleftrightarrow>
      (\<forall>w\<in>set pre. vm_end (A w) \<le> st) \<and> (\<forall>w\<in>set post. en \<le> vm_start (A w))" (is "?l \<longleftrightarrow> ?r")
  proof
    assume l: ?l
    have "vm_end (A w) \<le> st" if "w \<in> set pre" for w
      using l lo [OF that] st vs that by force
    moreover have "en \<le> vm_start (A w)" if w: "w \<in> set post" for w
    proof -
      have "vm_start (A w) < vm_end (A w)" using a vs w by (auto simp: areas_ok_def)
      then show ?thesis using l hi [OF w] vs w by force
    qed
    ultimately show ?r by blast
  qed (use vs in auto)
  show "(\<forall>w\<in>set vs. en \<le> vm_start (A w) \<or> vm_end (A w) \<le> st) \<longleftrightarrow>
    (pre \<noteq> [] \<longrightarrow> vm_end (A (last pre)) \<le> st) \<and> (post \<noteq> [] \<longrightarrow> en \<le> vm_start (A (hd post)))"
    unfolding cut le1 le2 ..
  show "(\<forall>w\<in>set vs. en \<le> vm_start (A w) \<or> vm_end (A w) \<le> st) \<Longrightarrow>
    (\<forall>w\<in>set pre. vm_end (A w) \<le> st) \<and> (\<forall>w\<in>set post. en \<le> vm_start (A w))"
    unfolding cut .
qed

lemma check_vma_overlap_iff:
  "check_vma_overlap p n = (if vm_start p < vm_end p \<and> vm_end p \<le> vm_start n \<and> vm_start n < vm_end n then Some () else None)"
  by (simp add: check_vma_overlap_def)

text \<open>The area fits: it is not empty and overlaps no area of the list.\<close>

definition fits :: "'a vmm_scheme \<Rightarrow> nat list \<Rightarrow> u64 \<Rightarrow> u64 \<Rightarrow> bool" where
  "fits s vs st en \<longleftrightarrow> st < en \<and> (\<forall>w\<in>set vs. en \<le> vm_start (vmas s w) \<or> vm_end (vmas s w) \<le> st)"

definition inserted :: "nat \<Rightarrow> nat \<Rightarrow> nat hook \<Rightarrow> 'a vmm_scheme \<Rightarrow> 'a vmm_scheme" where
  "inserted m v p s = set_mm m (\<lambda>x. x\<lparr>map_count := map_count x + 1\<rparr>)
     ((set_vma v (\<lambda>a. a\<lparr>vm_mm := Some m\<rparr>) s)\<lparr>vlinks := list_add_after (vlinks s) p (Elem v)\<rparr>)"

lemma insert_vma_ok:
  assumes ok: "mm_ok s m vs" and a: "a = vmas s v"
    and pre: "pre = takeWhile (\<lambda>w. vm_start (vmas s w) \<le> vm_start a) vs"
    and post: "post = dropWhile (\<lambda>w. vm_start (vmas s w) \<le> vm_start a) vs"
  shows "insert_vma_struct m v s =
    (if fits s vs (vm_start a) (vm_end a) then Some (inserted m v (last (Head m # map Elem pre)) s) else None)"
proof (cases "vm_start a < vm_end a")
  case ne: True
  have vs: "vs = pre @ post" by (simp add: pre post)
  have r: "ring (vlinks s) (Head m) (map Elem pre @ map Elem post)" and ar: "areas_ok (vmas s) vs"
    using ok vs by (auto simp: mm_ok_def)
  have pos: "insert_pos m (vm_start a) (Head m) (Head m) s = Some (last (Head m # map Elem pre))"
    using insert_pos_ok [of s m "[]" vs "vm_start a"] ok by (simp add: mm_ok_def pre)
  have nx: "list_next (vlinks s) (last (Head m # map Elem pre)) = hd (map Elem post @ [Head m])"
    using ring_succ [OF r] by (simp add: list_next_def)
  have lst: "last (Head m # map Elem pre) = (if pre = [] then Head m else Elem (last pre))" by (simp add: last_map)
  have hdp: "hd (map Elem post @ [Head m]) = (if post = [] then Head m else Elem (hd post))" by (cases post) auto
  have nonempty: "pre \<noteq> [] \<Longrightarrow> vm_start (vmas s (last pre)) < vm_end (vmas s (last pre))"
    "post \<noteq> [] \<Longrightarrow> vm_start (vmas s (hd post)) < vm_end (vmas s (hd post))"
    using ar vs by (auto simp: areas_ok_def)
  have f: "fits s vs (vm_start a) (vm_end a) \<longleftrightarrow>
      (pre \<noteq> [] \<longrightarrow> vm_end (vmas s (last pre)) \<le> vm_start a) \<and> (post \<noteq> [] \<longrightarrow> vm_end a \<le> vm_start (vmas s (hd post)))"
    using split_at(1) [OF ar ne pre post] ne by (simp add: fits_def)
  show ?thesis
    unfolding insert_vma_struct_def a [symmetric] pos Option.bind.bind_lunit Let_def nx hdp f
    unfolding lst using ne nonempty
    by (cases "pre = []"; cases "post = []") (simp_all add: check_vma_overlap_iff inserted_def)
next
  case False
  then show ?thesis by (simp add: insert_vma_struct_def fits_def a [symmetric])
qed

lemma inserted_ok:
  assumes ok: "mm_ok s m vs" and a: "a = vmas s v" and v: "v \<notin> set vs" "v \<in> vma_live s"
    and f: "fits s vs (vm_start a) (vm_end a)"
    and pre: "pre = takeWhile (\<lambda>w. vm_start (vmas s w) \<le> vm_start a) vs"
    and post: "post = dropWhile (\<lambda>w. vm_start (vmas s w) \<le> vm_start a) vs"
  shows "mm_ok (inserted m v (last (Head m # map Elem pre)) s) m (pre @ v # post)"
proof -
  have vs: "vs = pre @ post" by (simp add: pre post)
  have r: "ring (vlinks s) (Head m) (map Elem pre @ map Elem post)" and ar: "areas_ok (vmas s) vs"
    using ok vs by (auto simp: mm_ok_def)
  have "Elem v \<notin> set (Head m # map Elem pre @ map Elem post)" using v vs by auto
  then have r': "ring (list_add_after (vlinks s) (last (Head m # map Elem pre)) (Elem v)) (Head m) (map Elem (pre @ v # post))"
    using ring_add_at [OF r] by simp
  have ne: "vm_start a < vm_end a" using f by (simp add: fits_def)
  have sides: "\<forall>w\<in>set pre. vm_end (vmas s w) \<le> vm_start a" "\<forall>w\<in>set post. vm_end a \<le> vm_start (vmas s w)"
    using split_at(2) [OF ar ne pre post] f unfolding fits_def by blast+
  have "areas_ok (vmas s) pre" "areas_ok (vmas s) post"
    "\<forall>w\<in>set pre. \<forall>u\<in>set post. vm_end (vmas s w) \<le> vm_start (vmas s u)"
    using ar unfolding vs areas_ok_append by blast+
  with sides ne have "areas_ok (vmas s) (pre @ v # post)"
    unfolding areas_ok_append areas_ok_Cons a by (metis set_ConsD)
  then have "areas_ok (vmas (inserted m v (last (Head m # map Elem pre)) s)) (pre @ v # post)"
    by (subst areas_ok_cong [of _ _ "vmas s"]) (auto simp: inserted_def)
  with r' show ?thesis using ok v by (auto simp: mm_ok_def inserted_def vs simp del: last.simps)
qed

lemma inserted_frame:
  assumes "mm_ok s m vs" "p \<in> set (Head m # map Elem vs)" "mm_ok s n ws" "n \<noteq> m" "set ws \<inter> set (v # vs) = {}"
  shows "mm_ok (inserted m v p s) n ws"
proof -
  have "ring (list_add_after (vlinks s) p (Elem v)) (Head n) (map Elem ws)"
    using assms by (intro ring_frame_add_after [of _ _ _ "Head m" "map Elem vs"]) (auto simp: mm_ok_def)
  moreover have "areas_ok (vmas (inserted m v p s)) ws"
    using assms by (subst areas_ok_cong [of _ _ "vmas s"]) (auto simp: inserted_def mm_ok_def)
  ultimately show ?thesis using assms by (auto simp: mm_ok_def inserted_def)
qed

text \<open>C10: \<open>insert_vma_struct\<close> puts an area in its place in the address order. It stops the kernel exactly when the
  area is empty or overlaps one of the list; otherwise the list stays sorted, disjoint and linked both
  ways, with the new area between those below and those above it, and every other address space
  keeps its areas.\<close>

theorem insert_vma_sorted:
  assumes "mm_ok s m vs" "v \<notin> set vs" "v \<in> vma_live s"
  shows "(if vm_start (vmas s v) < vm_end (vmas s v) \<and> (\<forall>w\<in>set vs. disjoint_areas (vmas s v) (vmas s w))
    then \<exists>s' pre post. insert_vma_struct m v s = Some s' \<and> vs = pre @ post \<and> mm_ok s' m (pre @ v # post) \<and>
      (\<forall>n ws. n \<noteq> m \<and> set ws \<inter> set (v # vs) = {} \<and> mm_ok s n ws \<longrightarrow> mm_ok s' n ws)
    else insert_vma_struct m v s = None)"
proof -
  define pre where "pre = takeWhile (\<lambda>w. vm_start (vmas s w) \<le> vm_start (vmas s v)) vs"
  define post where "post = dropWhile (\<lambda>w. vm_start (vmas s w) \<le> vm_start (vmas s v)) vs"
  have vs: "vs = pre @ post" by (simp add: pre_def post_def)
  have "last (Head m # map Elem pre) \<in> set (Head m # map Elem vs)" by (auto simp: vs last_map)
  note fr = inserted_frame [OF assms(1) this]
  have f: "vm_start (vmas s v) < vm_end (vmas s v) \<and> (\<forall>w\<in>set vs. disjoint_areas (vmas s v) (vmas s w)) \<longleftrightarrow>
      fits s vs (vm_start (vmas s v)) (vm_end (vmas s v))"
    by (auto simp: fits_def disjoint_areas_def)
  show ?thesis
    unfolding f insert_vma_ok [OF assms(1) refl pre_def post_def]
    using inserted_ok [OF assms(1) refl assms(2,3) _ pre_def post_def] fr vs by (auto simp del: last.simps)
qed

section \<open>Checking user memory\<close>

definition user_areas :: "'a vmm_scheme \<Rightarrow> nat list \<Rightarrow> bool" where
  "user_areas s vs \<longleftrightarrow> (\<forall>v\<in>set vs. vm_end (vmas s v) \<le> USERTOP)"

text \<open>A byte may be accessed when an area covers it and allows the access; the lowest page of a stack area is
  not for writing.\<close>

definition allows :: "vma_struct \<Rightarrow> bool \<Rightarrow> u64 \<Rightarrow> bool" where
  "allows a write x \<longleftrightarrow> vm_flags a AND (if write then VM_WRITE else VM_READ) \<noteq> 0 \<and>
     \<not> (write \<and> vm_flags a AND VM_STACK \<noteq> 0 \<and> x < vm_start a + PGSIZE)"

definition may_access :: "'a vmm_scheme \<Rightarrow> nat list \<Rightarrow> bool \<Rightarrow> u64 \<Rightarrow> bool" where
  "may_access s vs write x \<longleftrightarrow> (\<exists>v\<in>set vs. covers (vmas s v) x \<and> allows (vmas s v) write x)"

lemma allows_up: "allows a write x \<Longrightarrow> x \<le> y \<Longrightarrow> allows a write y"
  by (auto simp: allows_def)

lemma mem_check_step:
  "mem_check_loop mo write start end' s =
     (if start < end' then do {
        (r, s) \<leftarrow> find_vma mo start s;
        (case r of
           None \<Rightarrow> Some (False, s)
         | Some v \<Rightarrow>
             if start < vm_start (vmas s v) \<or> \<not> allows (vmas s v) write start then Some (False, s)
             else mem_check_loop mo write (vm_end (vmas s v)) end' s)
      } else Some (True, s))"
  by (subst mem_check_loop.simps, cases "find_vma mo start s")
    (auto simp: allows_def Let_def split: option.splits)

lemma mem_check_loop_ok:
  assumes "mm_ok s m vs"
  shows "\<exists>c. mem_check_loop (Some m) write start end' s =
      Some (\<forall>x. start \<le> x \<and> x < end' \<longrightarrow> may_access s vs write x, set_mm m (\<lambda>y. y\<lparr>mmap_cache := c\<rparr>) s) \<and>
    c \<in> insert None (Some ` set vs)"
  using assms
proof (induction "unat end' - unat start" arbitrary: start s rule: less_induct)
  case less
  have id: "\<exists>c. s = set_mm m (\<lambda>y. y\<lparr>mmap_cache := c\<rparr>) s \<and> c \<in> insert None (Some ` set vs)"
    using less.prems by (intro exI [of _ "mmap_cache (mms s m)"]) (auto simp: mm_ok_def set_mm_def)
  show ?case
  proof (cases "start < end'")
    case True
    obtain c where c: "find_vma (Some m) start s =
        Some (find (\<lambda>v. covers (vmas s v) start) vs, set_mm m (\<lambda>y. y\<lparr>mmap_cache := c\<rparr>) s)"
      "c \<in> insert None (Some ` set vs)"
      using find_vma_ok [OF less.prems] by blast
    let ?s1 = "set_mm m (\<lambda>y. y\<lparr>mmap_cache := c\<rparr>) s"
    show ?thesis
    proof (cases "find (\<lambda>v. covers (vmas s v) start) vs")
      case None
      then have "\<not> may_access s vs write start" by (auto simp: find_None_iff may_access_def)
      then have "\<not> (\<forall>x. start \<le> x \<and> x < end' \<longrightarrow> may_access s vs write x)" using True by blast
      then show ?thesis using c True None by (subst mem_check_step) auto
    next
      case (Some v)
      then have v: "v \<in> set vs" "covers (vmas s v) start" by (auto simp: find_Some_iff)
      have uniq: "may_access s vs write x \<longleftrightarrow> allows (vmas s v) write x" if "covers (vmas s v) x" for x
      proof -
        have "w = v" if "w \<in> set vs" "covers (vmas s w) x" for w
          using covers_unique [of "vmas s" vs _ x] less.prems v(1) \<open>covers (vmas s v) x\<close> that unfolding mm_ok_def
          by (metis option.inject)
        then show ?thesis using v(1) that unfolding may_access_def by blast
      qed
      show ?thesis
      proof (cases "allows (vmas s v) write start")
        case al: True
        have lt: "start < vm_end (vmas s v)" using v by (simp add: covers_def)
        have ok1: "mm_ok ?s1 m vs" using mm_ok_cache [OF less.prems c(2)] .
        have "unat end' - unat (vm_end (vmas s v)) < unat end' - unat start"
          using lt True by (simp add: word_less_nat_alt diff_less_mono2)
        from less.hyps [OF this ok1] obtain d where d: "mem_check_loop (Some m) write (vm_end (vmas s v)) end' ?s1 =
            Some (\<forall>x. vm_end (vmas s v) \<le> x \<and> x < end' \<longrightarrow> may_access ?s1 vs write x, set_mm m (\<lambda>y. y\<lparr>mmap_cache := d\<rparr>) ?s1)"
          "d \<in> insert None (Some ` set vs)" by blast
        have e1: "may_access ?s1 vs write x = may_access s vs write x" for x by (simp add: may_access_def)
        have e2: "set_mm m (\<lambda>y. y\<lparr>mmap_cache := d\<rparr>) ?s1 = set_mm m (\<lambda>y. y\<lparr>mmap_cache := d\<rparr>) s"
          by (simp add: set_mm_def)
        have "may_access s vs write x" if "start \<le> x" "x < vm_end (vmas s v)" for x
          using uniq [of x] allows_up [OF al that(1)] v that by (auto simp: covers_def)
        then have "(\<forall>x. vm_end (vmas s v) \<le> x \<and> x < end' \<longrightarrow> may_access s vs write x) \<longleftrightarrow>
            (\<forall>x. start \<le> x \<and> x < end' \<longrightarrow> may_access s vs write x)"
          using lt by (meson linorder_not_le order.strict_implies_order order.trans)
        moreover have "\<not> start < vm_start (vmas s v)" using v(2) by (auto simp: covers_def)
        ultimately show ?thesis
          using d True c Some al unfolding e1 e2 by (subst mem_check_step, intro exI [of _ d]) simp
      next
        case False
        then have "\<not> may_access s vs write start" using uniq v(2) by simp
        then have "\<not> (\<forall>x. start \<le> x \<and> x < end' \<longrightarrow> may_access s vs write x)" using True by blast
        then show ?thesis using c True Some False by (subst mem_check_step) auto
      qed
    qed
  next
    case False
    then have "\<forall>x. start \<le> x \<and> x < end' \<longrightarrow> may_access s vs write x" by auto
    then show ?thesis using False id by (subst mem_check_step) auto
  qed
qed

text \<open>C17: \<open>user_mem_check\<close> answers exactly whether every byte of the range lies in the user part of the address
  space and in an area that allows the access, with the lowest page of a stack area refused for
  writing; it always ends and changes nothing but the cache. Without an address space it answers for the
  kernel's own range.\<close>

theorem user_mem_check_exact:
  assumes "mm_ok s m vs"
  shows "(\<exists>s'. user_mem_check (Some m) addr len write s =
      Some (USER_ACCESS addr (addr + len) \<and> (\<forall>x. addr \<le> x \<and> x < addr + len \<longrightarrow> may_access s vs write x), s') \<and>
      mm_ok s' m vs \<and> vmas s' = vmas s \<and> pmem s' = pmem s) \<and>
    user_mem_check None addr len write s = Some (KERN_ACCESS addr (addr + len), s)"
  using mem_check_loop_ok [OF assms, of "write" addr "addr + len"] mm_ok_cache [OF assms] assms
  by (auto simp: user_mem_check_def)

section \<open>Copy on write in the page fault handler\<close>

lemma paging_same:
  assumes "phys s' = phys s" "npage s' = npage s" "pmem s' = pmem s"
  shows "pg_ok s' \<longleftrightarrow> pg_ok s" "pt_ok s' r \<longleftrightarrow> pt_ok s r" "maps_ok s' r \<longleftrightarrow> maps_ok s r"
    "translate s' r = translate s r" "table s' r = table s r" "in_use s' = in_use s" "page_ref p s' = page_ref p s"
proof -
  show tr: "translate s' r = translate s r" using assms by (intro ext) (simp add: translate_def)
  show tb: "table s' r = table s r" using assms by (intro ext) (simp add: table_def)
  show iu: "in_use s' = in_use s" using assms by (intro ext) (simp add: in_use_def)
  show "pg_ok s' \<longleftrightarrow> pg_ok s" "page_ref p s' = page_ref p s" using assms by (simp_all add: pg_ok_def page_ref_def)
  show "pt_ok s' r \<longleftrightarrow> pt_ok s r" unfolding pt_ok_def iu assms(3) ..
  have "page_live s' = page_live s"
    using assms by (intro ext) (simp add: page_live_def can_release_def reserved_def has_top_def page_ref_def)
  then show "maps_ok s' r \<longleftrightarrow> maps_ok s r" unfolding maps_ok_def tr tb by simp
qed

lemma get_pte_hit:
  assumes ok: "pg_ok s" "pt_ok s r" and la: "la < USERTOP" and t: "node (pmem s) r [PDX1 la, PDX0 la] = Some t"
  shows "get_pte r la c s = Some (Some (t, PTX la), s)"
proof -
  have u2: "upath ([PDX1 la] @ [PDX0 la])" using upath_user [OF la] by simp
  have u1: "upath ([] @ [PDX1 la])" using upath_prefix [OF u2] by simp
  have v1: "valid (pmem s r (PDX1 la))" using t by (auto split: if_splits)
  note w1 = walk_level_found [OF ok u1 node.simps(1) v1]
  have n1: "node (pmem s) r [PDX1 la] = Some (PPN (PTE_ADDR (pmem s r (PDX1 la))))" using w1(2) by simp
  have v0: "valid (pmem s (PPN (PTE_ADDR (pmem s r (PDX1 la)))) (PDX0 la))" using t by (auto split: if_splits)
  show ?thesis
    unfolding get_pte_def using w1(1) walk_level_found(1) [OF ok u2 n1 v0] t v1 v0 by simp
qed

lemma node_put_page:
  assumes "\<not> table s r k" "upath p"
  shows "node (pmem (put_page k w s)) r p = node (pmem s) r p"
proof (rule node_cong)
  fix p' j rest u
  assume a: "p = p' @ j # rest" "node (pmem s) r p' = Some u"
  then have "table s r u" using upath_prefix assms(2) by (auto simp: table_def)
  then show "pmem (put_page k w s) u j = pmem s u j" using assms(1) by (auto simp: put_page_def)
qed

lemma translate_put_page:
  assumes "\<not> table s r k" "la < USERTOP"
  shows "translate (put_page k w s) r la = translate s r la"
proof -
  have u: "upath [PDX1 la, PDX0 la]" using upath_user [OF assms(2)] .
  have "t \<noteq> k" if "node (pmem s) r [PDX1 la, PDX0 la] = Some t" for t
    using that u assms(1) by (auto simp: table_def)
  then show ?thesis
    unfolding translate_def node_put_page [OF assms(1) u] by (auto simp: put_page_def split: option.splits)
qed

text \<open>A page fresh from the allocator, filled with any contents, leaves the address space as it was.\<close>

lemma alloc_fill:
  assumes ok: "pg_ok s" "pt_ok s r" "maps_ok s r" and a: "alloc_page s = Some (Some p, s1)"
    and s2: "s2 = put_page (p + nbase) w s1"
  shows "pg_ok s2" "pt_ok s2 r" "maps_ok s2 r" "\<forall>la<USERTOP. translate s2 r la = translate s r la"
    "in_use s2 (p + nbase)" "\<not> table s2 r (p + nbase)" "\<forall>q. page_ref q s2 = page_ref q s" "npage s2 = npage s"
    "\<forall>u. u \<noteq> p + nbase \<longrightarrow> pmem s2 u = pmem s u" "pmem s2 (p + nbase) = w" "p \<in> frees s" "frees s2 = frees s - {p}"
    "\<forall>u. table s2 r u \<longleftrightarrow> table s r u" "paging.more s2 = paging.more s"
    "\<forall>q. upath q \<longrightarrow> node (pmem s2) r q = node (pmem s) r q"
proof -
  have "p \<in> frees s \<and> frees s1 = frees s - {p} \<and> pg_ok s1 \<and> npage s1 = npage s \<and> pmem s1 = pmem s \<and>
      paging.more s1 = paging.more s \<and> same_refs s s1 {} \<and> (\<forall>f\<in>frees s. p \<le> f)"
    using ok(1) by (cases rule: alloc_page_step) (use a in auto)
  then have s1: "p \<in> frees s" "frees s1 = frees s - {p}" "pg_ok s1" "npage s1 = npage s" "pmem s1 = pmem s"
    "paging.more s1 = paging.more s" "same_refs s s1 {}" "\<forall>f\<in>frees s. p \<le> f" by blast+
  have tb: "table s1 r u \<longleftrightarrow> table s r u" for u by (simp add: table_def s1)
  have nt: "\<not> table s1 r (p + nbase)"
    using table_in_use [OF ok(2), of "p + nbase"] s1(1) unfolding tb by (auto simp: in_use_def)
  have eq: "phys s2 = phys s1" "npage s2 = npage s1" "paging.more s2 = paging.more s1" by (simp_all add: s2 put_page_def)
  have nd: "node (pmem s2) r q = node (pmem s) r q" if "upath q" for q
    using node_put_page [OF nt that] s1(5) by (simp add: s2)
  have tb2: "table s2 r u \<longleftrightarrow> table s r u" for u using nd by (auto simp: table_def)
  have iu: "in_use s u \<Longrightarrow> in_use s2 u" for u using s1(2,4) eq by (auto simp: in_use_def)
  have pn: "p < npage s - nbase" "nbase \<le> npage s" using ok(1) s1(1) by (auto simp: pg_ok_def)
  show "pg_ok s2" using s1(3) by (simp add: pg_ok_def eq)
  show "pt_ok s2 r" using pt_okD [OF ok(2)] iu unfolding pt_ok_def by (auto simp: nd)
  show tr: "\<forall>la<USERTOP. translate s2 r la = translate s r la"
    using translate_put_page [OF nt, of _ w] s1(5) by (simp add: s2 translate_def)
  have "page_live s2 q" if "page_live s q" for q
  proof -
    have "has_top s2 q" using that has_top_Diff [of s q s1 p] s1 eq by (simp add: page_live_def can_release_def has_top_def)
    then show ?thesis using that s1 eq
      by (auto simp: page_live_def can_release_def same_refs_def reserved_def page_ref_def)
  qed
  then show "maps_ok s2 r" using ok(3) tr tb2 by (auto simp: maps_ok_def)
  show "in_use s2 (p + nbase)" using pn s1 eq by (auto simp: in_use_def)
  show "\<not> table s2 r (p + nbase)" using nt tb tb2 by simp
  show "\<forall>q. page_ref q s2 = page_ref q s" using s1(7) eq by (simp add: same_refs_def page_ref_def)
  show "npage s2 = npage s" "frees s2 = frees s - {p}" "paging.more s2 = paging.more s" using eq s1 by simp_all
  show "\<forall>u. u \<noteq> p + nbase \<longrightarrow> pmem s2 u = pmem s u" "pmem s2 (p + nbase) = w" by (simp_all add: s2 put_page_def s1(5))
  show "p \<in> frees s" using s1 by simp
  show "\<forall>u. table s2 r u \<longleftrightarrow> table s r u" using tb2 by simp
  show "\<forall>q. upath q \<longrightarrow> node (pmem s2) r q = node (pmem s) r q" using nd by blast
qed

lemma vmm_same_more:
  fixes s s' :: "'a vmm_scheme"
  assumes "paging.more s' = paging.more s"
  shows "mms s' = mms s" "vmas s' = vmas s" "vlinks s' = vlinks s" "vma_live s' = vma_live s" "mm_live s' = mm_live s"
    "pgfault_num s' = pgfault_num s"
  using assms by (cases s; cases s'; simp)+

lemma set_mm_pgfault [simp]: "mms (s\<lparr>pgfault_num := k\<rparr>) = mms s" "vmas (s\<lparr>pgfault_num := k\<rparr>) = vmas s"
  by simp_all

lemma round_page: "vpn (ROUNDDOWN la PGSIZE) = vpn la" "la < USERTOP \<Longrightarrow> ROUNDDOWN la PGSIZE < USERTOP"
proof -
  have u: "unat (ROUNDDOWN la PGSIZE) = unat la - unat la mod 4096" by (simp add: unat_ROUNDDOWN PGSIZE_def)
  show "vpn (ROUNDDOWN la PGSIZE) = vpn la" unfolding vpn_def u by (simp add: minus_mod_eq_mult_div)
  show "la < USERTOP \<Longrightarrow> ROUNDDOWN la PGSIZE < USERTOP" unfolding word_less_nat_alt u by linarith
qed

lemma pte_w_bit: "(e :: u64) AND PTE_W \<noteq> 0 \<longleftrightarrow> bit e 2"
proof -
  have "PTE_W = 2 ^ 2" by (simp add: PTE_W_def)
  then show ?thesis using and_exp_eq_0_iff_not_bit [of e 2] by metis
qed

lemma fault_perm_write: "flags AND VM_WRITE \<noteq> 0 \<Longrightarrow> bit (fault_perm flags) 2"
  by (simp add: fault_perm_def Let_def bit_or_iff PTE_W_def bit_numeral_rec)

lemma fault_perm_bound: "PTE_V OR fault_perm flags < 1024"
  by (simp add: fault_perm_def Let_def PTE_V_def PTE_U_def PTE_R_def PTE_W_def PTE_X_def PTE_A_def PTE_D_def)

lemma created_pte:
  assumes "p + nbase < 2 ^ 32" "e = pte_create (page2ppn p) (PTE_V OR fault_perm flags)"
  shows "PPN (PTE_ADDR e) = p + nbase" "flags AND VM_WRITE \<noteq> 0 \<Longrightarrow> e AND PTE_W \<noteq> 0" "valid e"
proof -
  have "p + nbase < 2 ^ 44" using assms(1) by simp
  then show "PPN (PTE_ADDR e) = p + nbase" using PPN_create [OF _ fault_perm_bound] assms(2) by (simp add: page2ppn_def)
  show "flags AND VM_WRITE \<noteq> 0 \<Longrightarrow> e AND PTE_W \<noteq> 0"
    unfolding pte_w_bit using fault_perm_write [of flags] by (simp add: assms(2) pte_create_def bit_or_iff)
  have "PTE_V = 2 ^ 0" by (simp add: PTE_V_def)
  then have "e AND PTE_V = 0 \<longleftrightarrow> \<not> bit e 0" using and_exp_eq_0_iff_not_bit [of e 0] by metis
  then show "valid e" by (simp add: assms(2) pte_create_def bit_or_iff PTE_V_def)
qed

lemma page_insert_hit:
  assumes "pg_ok s" "pt_ok s r" "la < USERTOP" "node (pmem s) r [PDX1 la, PDX0 la] = Some t"
    and "page_insert r p la perm s = Some (ret, s')"
  shows "ret = 0"
  using assms(5) unfolding page_insert_def get_pte_hit [OF assms(1-4)]
  by (auto simp: Let_def elim!: bind_SomeE split: if_splits)

text \<open>What the handler leaves behind after a write to a page marked copy on write.\<close>

definition cow_resolved :: "'a vmm_scheme \<Rightarrow> nat \<Rightarrow> u64 \<Rightarrow> u64 \<Rightarrow> 'a vmm_scheme \<Rightarrow> bool" where
  "cow_resolved s r la e s' \<longleftrightarrow>
     (\<exists>e'. translate s' r la = Some e' \<and> e' AND PTE_W \<noteq> 0 \<and>
        pmem s' (PPN (PTE_ADDR e')) = pmem s (PPN (PTE_ADDR e)) \<and>
        (if page_ref (target e) s = 1 then PPN (PTE_ADDR e') = PPN (PTE_ADDR e)
         else target e' \<in> frees s \<and> pmem s' (PPN (PTE_ADDR e)) = pmem s (PPN (PTE_ADDR e)) \<and>
           page_ref (target e) s' = page_ref (target e) s - 1)) \<and>
     (\<forall>la'<USERTOP. vpn la' \<noteq> vpn la \<longrightarrow> translate s' r la' = translate s r la')"

lemma pgfault_present_cow:
  assumes ok: "pg_ok s" "pt_ok s r" "maps_ok s r" and la: "la < USERTOP"
    and t: "node (pmem s) r [PDX1 la, PDX0 la] = Some t" and e: "pmem s t (PTX la) = e" "is_cow_page e"
    and fl: "flags AND VM_WRITE \<noteq> 0"
  obtains (exhausted) "pgfault_present r la (fault_perm flags) True (t, PTX la) s = Some (- E_NO_MEM, s)"
      "frees s = {}" "1 < page_ref (target e) s"
  | (resolved) s' where "pgfault_present r la (fault_perm flags) True (t, PTX la) s = Some (0, s')"
      "cow_resolved s r la e s'" "pg_ok s'" "pt_ok s' r" "paging.more s' = paging.more s"
      "frees s \<noteq> {} \<or> page_ref (target e) s = 1"
proof -
  have ve: "valid e" "e AND PTE_W = 0" "e AND PTE_COW \<noteq> 0" using e(2) by (auto simp: is_cow_page_def)
  have tr: "translate s r la = Some e" using t e ve(1) by (auto simp: translate_def)
  have live: "nbase \<le> PPN (PTE_ADDR e)" "page_live s (target e)" "\<not> table s r (PPN (PTE_ADDR e))"
    using ok(3) la tr by (auto simp: maps_ok_def)
  let ?q = "target e"
  have q: "?q + nbase = PPN (PTE_ADDR e)" "?q < npage s - nbase" "?q \<notin> frees s" "1 \<le> page_ref ?q s"
    using live by (auto simp: page_live_def can_release_def)
  have np: "npage s \<le> 2 ^ 32" using ok(1) by (simp add: pg_ok_def)
  have qi: "in_use s (?q + nbase)" "\<not> table s r (?q + nbase)" using q live by (auto simp: in_use_def)
  have pg: "pte2page e s = Some ?q" using ve q by (auto simp: pte2page_def pa2page_def)
  have kv: "page2kva ?q s1 = Some (?q + nbase)" if "npage s1 = npage s" for s1 :: "'a vmm_scheme"
    using that q by (auto simp: page2kva_def KADDR_def page2ppn_def)
  have start: "pgfault_present r la (fault_perm flags) True (t, PTX la) s =
      (if page_ref ?q s > 1 then do {
          (np, s) \<leftarrow> alloc_page s;
          (case np of
             None \<Rightarrow> Some (- E_NO_MEM, s)
           | Some np1 \<Rightarrow> do {
               src \<leftarrow> page2kva ?q s;
               dst \<leftarrow> page2kva np1 s;
               let s = put_page dst (pmem s src) s;
               (rr, s) \<leftarrow> page_insert r np1 la (fault_perm flags) s;
               if rr \<noteq> 0 then do { s \<leftarrow> free_page np1 s; Some (- E_NO_MEM, s) } else Some (0, s)
             })
        } else do {
          (rr, s) \<leftarrow> page_insert r ?q la (fault_perm flags) s;
          Some (0, s)
        })"
    unfolding pgfault_present_def Let_def prod.case e(1) using ve pg by simp
  show ?thesis
  proof (cases "page_ref ?q s > 1")
    case shared: True
    show ?thesis
      using ok(1)
    proof (cases rule: alloc_page_step)
      case none
      then show ?thesis using exhausted start shared by simp
    next
      case (page p s1)
      define s2 where "s2 = put_page (p + nbase) (pmem s1 (?q + nbase)) s1"
      note f = alloc_fill [OF ok page(1) s2_def]
      have p: "p < npage s - nbase" "p \<noteq> ?q" "p + nbase < npage s"
        using page(2) q ok(1) by (auto simp: pg_ok_def)
      have nd: "node (pmem s2) r [PDX1 la, PDX0 la] = Some t"
        using f(15) upath_user [OF la] t by metis
      have e2: "translate s2 r la = Some e" using f(4) la tr by simp
      show ?thesis
        using f(1-3) la f(5,6)
      proof (cases rule: page_insert_ok [where perm = "fault_perm flags"])
        case (mapped s')
        have run: "pgfault_present r la (fault_perm flags) True (t, PTX la) s = Some (0, s')"
          unfolding start using shared page(1,5) kv [of s1] p mapped(1)
          by (simp add: page2kva_def KADDR_def page2ppn_def s2_def)
        define e' where "e' = pte_create (page2ppn p) (PTE_V OR fault_perm flags)"
        note ce = created_pte [OF _ e'_def]
        have pb: "p + nbase < 2 ^ 32" using p(3) np by linarith
        have iu2: "in_use s2 u" if "in_use s u" for u using that f(8,12) by (auto simp: in_use_def)
        have keep: "pmem s' (?q + nbase) = pmem s (?q + nbase)"
          using mapped(8) iu2 [OF qi(1)] qi(2) f(9,13) p(2) by simp
        have new: "pmem s' (p + nbase) = pmem s (?q + nbase)"
          using mapped(8) f(5,6,10) page(6) by simp
        have "page_ref ?q s' = page_ref ?q s - 1"
          using mapped(6) e2 p(2) f(7) by (auto simp: insert_refs_def)
        then have "cow_resolved s r la e s'"
          unfolding cow_resolved_def
          using mapped(7) la ce(1,2) pb fl new keep shared page(2) f(4) q(1) by (auto simp: e'_def)
        then show ?thesis using resolved [OF run] mapped f(14) page(2) by auto
      next
        case (full s')
        then show ?thesis using page_insert_hit [OF f(1,2) la nd full(1)] by (simp add: E_NO_MEM_def)
      qed
    qed
  next
    case False
    then have one: "page_ref ?q s = 1" using q(4) by simp
    show ?thesis
      using ok la qi
    proof (cases rule: page_insert_ok [where perm = "fault_perm flags"])
      case (mapped s')
      have run: "pgfault_present r la (fault_perm flags) True (t, PTX la) s = Some (0, s')"
        unfolding start using one mapped(1) by simp
      have pb: "?q + nbase < 2 ^ 32" using q(2) np by linarith
      note ce = created_pte [OF pb refl]
      have "cow_resolved s r la e s'"
        unfolding cow_resolved_def
        using mapped(7,8) la ce(1) ce(2) [OF fl] one q(1) qi by auto
      then show ?thesis using resolved [OF run] mapped one by auto
    next
      case (full s')
      then show ?thesis using page_insert_hit [OF ok(1,2) la t full(1)] by (simp add: E_NO_MEM_def)
    qed
  qed
qed

text \<open>The handler up to the lock: the area is found, the fault counted, the semaphore taken.\<close>

definition fault_entered :: "nat \<Rightarrow> nat option \<Rightarrow> 'a vmm_scheme \<Rightarrow> 'a vmm_scheme" where
  "fault_entered m c s = set_mm m (\<lambda>x. x\<lparr>mm_sem := mm_sem x - 1\<rparr>)
     ((set_mm m (\<lambda>y. y\<lparr>mmap_cache := c\<rparr>) s)\<lparr>pgfault_num := pgfault_num s + 1\<rparr>)"

lemma fault_entered_simps [simp]:
  "phys (fault_entered m c s) = phys s" "npage (fault_entered m c s) = npage s" "pmem (fault_entered m c s) = pmem s"
  "vmas (fault_entered m c s) = vmas s" "vlinks (fault_entered m c s) = vlinks s" "vma_live (fault_entered m c s) = vma_live s"
  "mms (fault_entered m c s) = (mms s)(m := (mms s m)\<lparr>mmap_cache := c, mm_sem := mm_sem (mms s m) - 1\<rparr>)"
  by (simp_all add: fault_entered_def set_mm_def)

lemma mm_ok_sem:
  assumes "mm_ok s m vs" "c \<in> insert None (Some ` set vs)" "vmas s' = vmas s" "vlinks s' = vlinks s" "vma_live s' = vma_live s"
    "mms s' m = (mms s m)\<lparr>mmap_cache := c, mm_sem := k\<rparr>"
  shows "mm_ok s' m vs"
  using assms by (simp add: mm_ok_def)

lemma fault_entry:
  assumes ok: "mm_ok s m vs" and v: "v \<in> set vs" "covers (vmas s v) addr"
  obtains c where "find_vma (Some m) addr s = Some (Some v, set_mm m (\<lambda>y. y\<lparr>mmap_cache := c\<rparr>) s)"
    "c \<in> insert None (Some ` set vs)"
proof -
  have "find (\<lambda>w. covers (vmas s w) addr) vs = Some v" using covers_unique [of "vmas s" vs v addr] ok v by (simp add: mm_ok_def)
  then show ?thesis using find_vma_ok [OF ok, of addr] that by auto
qed

lemma do_pgfault_entered:
  assumes ok: "mm_ok s m vs" and v: "v \<in> set vs" "covers (vmas s v) addr" and sem: "0 < mm_sem (mms s m)"
    and r: "mm_pgdir (mms s m) = Some r"
  obtains c where "c \<in> insert None (Some ` set vs)"
    "do_pgfault (Some m) k addr s =
      (if k = CAUSE_STORE_PAGE_FAULT \<and> vm_flags (vmas s v) AND VM_WRITE = 0
       then Some (- E_INVAL, mm_up m (fault_entered m c s))
       else do {
         (pr, s1) \<leftarrow> get_pte r (ROUNDDOWN addr PGSIZE) True (fault_entered m c s);
         (ret, s2) \<leftarrow>
           (case pr of
              None \<Rightarrow> Some (- E_NO_MEM, s1)
            | Some (t, i) \<Rightarrow>
                if pmem s1 t i = 0 then do {
                  (np, s2) \<leftarrow> pgdir_alloc_page r (ROUNDDOWN addr PGSIZE) (fault_perm (vm_flags (vmas s v))) s1;
                  Some (if np = None then - E_NO_MEM else 0, s2)
                } else pgfault_present r (ROUNDDOWN addr PGSIZE) (fault_perm (vm_flags (vmas s v)))
                   (k = CAUSE_STORE_PAGE_FAULT) (t, i) s1);
         Some (ret, mm_up m s2)
       })"
proof -
  obtain c where c: "find_vma (Some m) addr s = Some (Some v, set_mm m (\<lambda>y. y\<lparr>mmap_cache := c\<rparr>) s)"
    "c \<in> insert None (Some ` set vs)" using fault_entry [OF ok v] by blast
  have d: "mm_down m ((set_mm m (\<lambda>y. y\<lparr>mmap_cache := c\<rparr>) s)\<lparr>pgfault_num := pgfault_num s + 1\<rparr>) = Some (fault_entered m c s)"
    using sem by (simp add: mm_down_def fault_entered_def)
  have p: "pgfault_num (set_mm m (\<lambda>y. y\<lparr>mmap_cache := c\<rparr>) s) = pgfault_num s" by (simp add: set_mm_def)
  have st: "\<not> addr < vm_start (vmas s v)" using v(2) by (auto simp: covers_def)
  have rr: "mm_pgdir (mms (fault_entered m c s) m) = Some r" using r by simp
  show ?thesis
    by (rule that [OF c(2)])
      (simp add: do_pgfault_def Let_def c(1) p d st rr cong: if_cong option.case_cong del: fault_entered_simps(7))
qed

text \<open>Leaving the handler: the lock is given back, and the areas are as they were.\<close>

lemma mm_up_paging: "phys (mm_up m s) = phys s" "npage (mm_up m s) = npage s" "pmem (mm_up m s) = pmem s"
  by (simp_all add: mm_up_def)

lemma fault_left:
  assumes ok: "mm_ok s m vs" and c: "c \<in> insert None (Some ` set vs)"
    and more: "paging.more s2 = paging.more (fault_entered m c s)"
  shows "mm_ok (mm_up m s2) m vs" "mm_sem (mms (mm_up m s2) m) = mm_sem (mms s m)"
proof -
  note k = vmm_same_more [OF more]
  show "mm_ok (mm_up m s2) m vs"
    by (rule mm_ok_sem [OF ok c, where k = "mm_sem (mms s m)"]) (simp_all add: mm_up_def k)
  show "mm_sem (mms (mm_up m s2) m) = mm_sem (mms s m)" by (simp add: mm_up_def k)
qed

text \<open>C9: The page fault handler resolves copy on write. For a write to a page marked copy on write in a writable
  area it returns and leaves the lock free again; it reports exhausted memory exactly when the page is
  shared and no page is free, changing no translation; otherwise the address is writable with the
  same contents, on the same page if it was the last reference, else on a page that was free while the
  shared page keeps its contents and loses one reference. A write to an area that is not
  writable is refused.\<close>

theorem do_pgfault_cow:
  assumes "mm_ok s m vs" "mm_pgdir (mms s m) = Some r" "0 < mm_sem (mms s m)"
    and "pg_ok s" "pt_ok s r" "maps_ok s r"
    and "v \<in> set vs" "covers (vmas s v) addr" "addr < USERTOP"
    and "translate s r addr = Some e" "is_cow_page e"
  shows "\<exists>ret s'. do_pgfault (Some m) CAUSE_STORE_PAGE_FAULT addr s = Some (ret, s') \<and>
    mm_ok s' m vs \<and> mm_sem (mms s' m) = mm_sem (mms s m) \<and> pg_ok s' \<and> pt_ok s' r \<and>
    (if vm_flags (vmas s v) AND VM_WRITE = 0 then ret = - E_INVAL \<and> translate s' r = translate s r
     else if frees s = {} \<and> 1 < page_ref (target e) s then ret = - E_NO_MEM \<and> translate s' r = translate s r
     else ret = 0 \<and> cow_resolved s r addr e s')"
proof -
  let ?la = "ROUNDDOWN addr PGSIZE" and ?fl = "vm_flags (vmas s v)"
  obtain c where c: "c \<in> insert None (Some ` set vs)" and run: "do_pgfault (Some m) CAUSE_STORE_PAGE_FAULT addr s =
      (if ?fl AND VM_WRITE = 0 then Some (- E_INVAL, mm_up m (fault_entered m c s))
       else do {
         (pr, s1) \<leftarrow> get_pte r ?la True (fault_entered m c s);
         (ret, s2) \<leftarrow>
           (case pr of
              None \<Rightarrow> Some (- E_NO_MEM, s1)
            | Some (t, i) \<Rightarrow>
                if pmem s1 t i = 0 then do {
                  (np, s2) \<leftarrow> pgdir_alloc_page r ?la (fault_perm ?fl) s1;
                  Some (if np = None then - E_NO_MEM else 0, s2)
                } else pgfault_present r ?la (fault_perm ?fl) True (t, i) s1);
         Some (ret, mm_up m s2)
       })"
    by (rule do_pgfault_entered [OF assms(1,7,8,3,2), where k = CAUSE_STORE_PAGE_FAULT, unfolded simp_thms])
  define s1 where "s1 = fault_entered m c s"
  have p1: "phys s1 = phys s" "npage s1 = npage s" "pmem s1 = pmem s" by (simp_all add: s1_def)
  note same1 = paging_same [OF p1]
  have up: "mm_ok (mm_up m s2) m vs" "mm_sem (mms (mm_up m s2) m) = mm_sem (mms s m)"
    "pg_ok (mm_up m s2) = pg_ok s2" "pt_ok (mm_up m s2) r = pt_ok s2 r" "translate (mm_up m s2) r = translate s2 r"
    "cow_resolved s r addr e (mm_up m s2) = cow_resolved s r addr e s2" if "paging.more s2 = paging.more s1" for s2
    using fault_left [OF assms(1) c that [unfolded s1_def]] mm_up_paging [of m s2]
    by (simp_all add: cow_resolved_def paging_same [OF mm_up_paging])
  show ?thesis
  proof (cases "?fl AND VM_WRITE = 0")
    case True
    then show ?thesis using run up [of s1] same1 assms by (simp add: s1_def)
  next
    case fl: False
    note la = round_page(2) [OF assms(9)]
    have vp: "vpn ?la = vpn addr" by (rule round_page(1))
    have idx: "PDX1 ?la = PDX1 addr" "PDX0 ?la = PDX0 addr" "PTX ?la = PTX addr"
      using vpn_eq_iff [OF la assms(9)] vp by auto
    obtain t where t: "node (pmem s1) r [PDX1 ?la, PDX0 ?la] = Some t" "pmem s1 t (PTX ?la) = e"
      using assms(10) unfolding translate_def idx p1(3) by (auto split: option.splits if_splits)
    have e0: "pmem s1 t (PTX ?la) \<noteq> 0" using t(2) assms(11) by (auto simp: is_cow_page_def)
    have ok1: "pg_ok s1" "pt_ok s1 r" "maps_ok s1 r" using assms(4-6) same1 by simp_all
    have run1: "do_pgfault (Some m) CAUSE_STORE_PAGE_FAULT addr s = do {
        (ret, s2) \<leftarrow> pgfault_present r ?la (fault_perm ?fl) True (t, PTX ?la) s1;
        Some (ret, mm_up m s2) }"
      unfolding run s1_def [symmetric] get_pte_hit [OF ok1(1,2) la t(1)] using fl e0 by simp
    have cr: "cow_resolved s r addr e s2" if "cow_resolved s1 r ?la e s2" for s2
    proof -
      have "translate s2 r ?la = translate s2 r addr" by (simp add: translate_def idx)
      then show ?thesis using that unfolding cow_resolved_def vp same1 p1 by simp
    qed
    show ?thesis
      using ok1 la t assms(11) fl
    proof (cases rule: pgfault_present_cow)
      case exhausted
      then show ?thesis using run1 up [of s1] fl ok1 same1 p1 by auto
    next
      case (resolved s2)
      then show ?thesis using run1 up [OF resolved(5)] fl cr [OF resolved(2)] same1 p1 by auto
    qed
  qed
qed

section \<open>Demand paging\<close>

text \<open>Allocating and mapping a page where the walk ends at an empty entry: it fails only when no page is free.\<close>

lemma pgdir_alloc_page_ok:
  assumes ok: "pg_ok s" "pt_ok s r" "maps_ok s r" and la: "la < USERTOP"
    and t: "node (pmem s) r [PDX1 la, PDX0 la] = Some t" and e: "leaf_entry s r la = 0"
    and refs: "\<forall>q\<in>frees s. page_ref q s = 0"
  obtains (full) "pgdir_alloc_page r la perm s = Some (None, s)" "frees s = {}"
  | (mapped) p s' where "pgdir_alloc_page r la perm s = Some (Some p, s')" "p \<in> frees s" "p \<notin> frees s'" "page_ref p s' = 1"
      "pg_ok s'" "pt_ok s' r" "paging.more s' = paging.more s"
      "\<forall>la'<USERTOP. translate s' r la' =
         (if vpn la' = vpn la then Some (pte_create (page2ppn p) (PTE_V OR perm)) else translate s r la')"
  using ok(1)
proof (cases rule: alloc_page_step)
  case none
  then show ?thesis using full by (simp add: pgdir_alloc_page_def)
next
  case (page p s1)
  have "put_page (p + nbase) (pmem s1 (p + nbase)) s1 = s1" by (simp add: put_page_def)
  note f = alloc_fill [OF ok page(1) this [symmetric]]
  have t1: "node (pmem s1) r [PDX1 la, PDX0 la] = Some t" using f(15) upath_user [OF la] t by metis
  have none: "translate s1 r la = None" using f(4) la e by (simp add: translate_leaf)
  show ?thesis
    using f(1-3) la f(5,6)
  proof (cases rule: page_insert_ok [where perm = perm])
    case (mapped s')
    have pr: "page_ref p s' = 1" "frees s' \<subseteq> frees s1" using mapped(6) none refs f(7,11) by (auto simp: insert_refs_def)
    have "pgdir_alloc_page r la perm s = Some (Some p, s')" using page(1) mapped(1) pr(1) by (simp add: pgdir_alloc_page_def)
    moreover have "p \<notin> frees s'" using pr(2) f(12) by blast
    ultimately show ?thesis using that(2) [of p s'] f(11) pr(1) mapped(2,3,5,7) f(4,14) by simp
  next
    case (full s')
    then show ?thesis using page_insert_hit [OF f(1,2) la t1 full(1)] by (simp add: E_NO_MEM_def)
  qed
qed

text \<open>C33: Demand paging under the lock of the address space. A fault at an address that an area covers and no page table entry
  describes yet waits while the lock is held, by whom ever, also by the process itself: the run has no result. Otherwise it returns with the lock
  as free as before. A write to an area that is not writable is refused and changes no translation. Else, if the free pages do not suffice for the
  tables the walk has to create and the page itself, the handler reports \<^verbatim>\<open>-E_NO_MEM\<close> and no translation changes; if they suffice, a page that was
  free is mapped at the address with the permissions of the area and one reference, and every other address keeps its translation.\<close>

theorem do_pgfault_demand:
  assumes "mm_ok s m vs" "mm_pgdir (mms s m) = Some r"
    and "pg_ok s" "pt_ok s r" "maps_ok s r" "\<forall>q\<in>frees s. page_ref q s = 0"
    and "v \<in> set vs" "covers (vmas s v) addr" "addr < USERTOP" "leaf_entry s r addr = 0"
  shows "if mm_sem (mms s m) \<le> 0 then do_pgfault (Some m) k addr s = None
    else \<exists>ret s'. do_pgfault (Some m) k addr s = Some (ret, s') \<and>
      mm_ok s' m vs \<and> mm_sem (mms s' m) = mm_sem (mms s m) \<and> pg_ok s' \<and> pt_ok s' r \<and>
      (if k = CAUSE_STORE_PAGE_FAULT \<and> vm_flags (vmas s v) AND VM_WRITE = 0
       then ret = - E_INVAL \<and> translate s' r = translate s r
       else if card (frees s) \<le> tables_missing s r addr
       then ret = - E_NO_MEM \<and> (\<forall>la<USERTOP. translate s' r la = translate s r la)
       else ret = 0 \<and> (\<exists>p\<in>frees s. p \<notin> frees s' \<and> page_ref p s' = 1 \<and>
           (\<forall>la<USERTOP. translate s' r la =
              (if vpn la = vpn addr then Some (pte_create (page2ppn p) (PTE_V OR fault_perm (vm_flags (vmas s v))))
               else translate s r la))))"
proof (cases "mm_sem (mms s m) \<le> 0")
  case True
  obtain c where c: "find_vma (Some m) addr s = Some (Some v, set_mm m (\<lambda>y. y\<lparr>mmap_cache := c\<rparr>) s)"
    using fault_entry [OF assms(1,7,8)] by blast
  have "\<not> addr < vm_start (vmas s v)" using assms(8) by (auto simp: covers_def)
  then show ?thesis using True c by (simp add: do_pgfault_def mm_down_def)
next
  case False
  then have sem: "0 < mm_sem (mms s m)" by simp
  let ?la = "ROUNDDOWN addr PGSIZE" and ?fl = "vm_flags (vmas s v)"
  obtain c where c: "c \<in> insert None (Some ` set vs)" and run: "do_pgfault (Some m) k addr s =
      (if k = CAUSE_STORE_PAGE_FAULT \<and> ?fl AND VM_WRITE = 0 then Some (- E_INVAL, mm_up m (fault_entered m c s))
       else do {
         (pr, s1) \<leftarrow> get_pte r ?la True (fault_entered m c s);
         (ret, s2) \<leftarrow>
           (case pr of
              None \<Rightarrow> Some (- E_NO_MEM, s1)
            | Some (t, i) \<Rightarrow>
                if pmem s1 t i = 0 then do {
                  (np, s2) \<leftarrow> pgdir_alloc_page r ?la (fault_perm ?fl) s1;
                  Some (if np = None then - E_NO_MEM else 0, s2)
                } else pgfault_present r ?la (fault_perm ?fl) (k = CAUSE_STORE_PAGE_FAULT) (t, i) s1);
         Some (ret, mm_up m s2)
       })"
    by (rule do_pgfault_entered [OF assms(1,7,8) sem assms(2), where k = k])
  define s1 where "s1 = fault_entered m c s"
  have p1: "phys s1 = phys s" "npage s1 = npage s" "pmem s1 = pmem s" by (simp_all add: s1_def)
  note same1 = paging_same [OF p1]
  note up = paging_same [OF mm_up_paging]
  have left: "mm_ok (mm_up m s2) m vs \<and> mm_sem (mms (mm_up m s2) m) = mm_sem (mms s m)"
    if "paging.more s2 = paging.more s1" for s2
    using fault_left [OF assms(1) c that [unfolded s1_def]] by blast
  show ?thesis
  proof (cases "k = CAUSE_STORE_PAGE_FAULT \<and> ?fl AND VM_WRITE = 0")
    case True
    then have "do_pgfault (Some m) k addr s = Some (- E_INVAL, mm_up m s1)" unfolding run s1_def by simp
    then show ?thesis using True False left [of s1] assms(3,4) by (simp add: up same1)
  next
    case fl: False
    note la = round_page(2) [OF assms(9)]
    have vp: "vpn ?la = vpn addr" by (rule round_page(1))
    have idx: "PDX1 ?la = PDX1 addr" "PDX0 ?la = PDX0 addr" "PTX ?la = PTX addr"
      using vpn_eq_iff [OF la assms(9)] vp by auto
    have ok1: "pg_ok s1" "pt_ok s1 r" "maps_ok s1 r" "\<forall>q\<in>frees s1. page_ref q s1 = 0"
      using assms(3-6) by (simp_all add: same1 p1)
    have e0: "leaf_entry s1 r ?la = 0" using assms(10) unfolding leaf_entry_def idx p1 .
    have fr1: "frees s1 = frees s" by (simp add: p1)
    have miss: "tables_missing s1 r ?la = tables_missing s r addr" unfolding tables_missing_def idx p1 ..
    have fin: "finite (frees s2)" if "pg_ok s2" for s2 :: "'a vmm_scheme"
      using that finite_subset [of "frees s2" "{..<npage s2 - nbase}"] by (auto simp: pg_ok_def)
    show ?thesis
      using ok1(1,2) la
    proof (cases rule: get_pte_create)
      case (full s2)
      then have "do_pgfault (Some m) k addr s = Some (- E_NO_MEM, mm_up m s2)"
        unfolding run s1_def [symmetric] if_not_P [OF fl] full(1) by simp
      then show ?thesis unfolding if_not_P [OF fl] if_not_P [OF False] using full(2,4) left [of s2] by (auto simp: pt_ext_def up same1 fr1 miss)
    next
      case (found t s2)
      have x: "pg_ok s2" "pt_ok s2 r" "paging.more s2 = paging.more s1" "\<forall>la<USERTOP. translate s2 r la = translate s r la"
        "frees s2 \<subseteq> frees s" "leaf_entry s2 r ?la = 0" "\<forall>q\<in>frees s2. page_ref q s2 = 0"
        using found(2) same1 e0 la fr1 ok1(4) by (auto simp: pt_ext_def same_refs_def)
      have z: "pmem s2 t (PTX ?la) = 0" using x(6) unfolding leaf_entry_def found(3) by simp
      have run2: "do_pgfault (Some m) k addr s = do {
          (np, s3) \<leftarrow> pgdir_alloc_page r ?la (fault_perm ?fl) s2;
          Some (if np = None then - E_NO_MEM else 0, mm_up m s3) }"
        unfolding run s1_def [symmetric] if_not_P [OF fl] found(1) using z by (simp add: case_prod_unfold)
      show ?thesis
        using x(1,2) maps_ok_ext [OF found(2) ok1(3)] la found(3) x(6,7)
      proof (cases rule: pgdir_alloc_page_ok [where perm = "fault_perm ?fl"])
        case full
        then have "do_pgfault (Some m) k addr s = Some (- E_NO_MEM, mm_up m s2)" unfolding run2 by simp
        then show ?thesis unfolding if_not_P [OF fl] if_not_P [OF False] using full(2) found(4) fr1 miss left [OF x(3)] x(1,2,4) by (auto simp: up)
      next
        case (mapped p s3)
        have "do_pgfault (Some m) k addr s = Some (0, mm_up m s3)" unfolding run2 mapped(1) by simp
        moreover have "p \<in> frees s" using mapped(2) x(5) by blast
        moreover have "\<not> card (frees s) \<le> tables_missing s r addr"
          using found(4) fr1 miss mapped(2) fin [OF x(1)] card_gt_0_iff [of "frees s2"] by auto
        ultimately show ?thesis
          unfolding if_not_P [OF fl] if_not_P [OF False] using left [of s3] x(3,4) mapped(3-8) by (auto simp: vp mm_up_paging up)
      qed
    qed
  qed
qed

section \<open>Mapping an area\<close>

definition created :: "nat \<Rightarrow> u64 \<Rightarrow> u64 \<Rightarrow> u32 \<Rightarrow> 'a vmm_scheme \<Rightarrow> 'a vmm_scheme" where
  "created v st en fl s = set_vma v (\<lambda>a. a\<lparr>vm_start := st, vm_end := en, vm_flags := fl\<rparr>)
     (s\<lparr>vma_live := insert v (vma_live s)\<rparr>)"

lemma created_ok:
  assumes "mm_ok s m vs" "v \<notin> vma_live s"
  shows "mm_ok (created v st en fl s) m vs" "v \<notin> set vs" "v \<in> vma_live (created v st en fl s)"
    "fits (created v st en fl s) vs st en \<longleftrightarrow> fits s vs st en"
proof -
  show v: "v \<notin> set vs" using assms by (auto simp: mm_ok_def)
  have "areas_ok (vmas (created v st en fl s)) vs = areas_ok (vmas s) vs"
    using v by (intro areas_ok_cong) (auto simp: created_def)
  then show "mm_ok (created v st en fl s) m vs" using assms(1) by (auto simp: mm_ok_def created_def set_vma_def)
  show "v \<in> vma_live (created v st en fl s)" by (simp add: created_def)
  show "fits (created v st en fl s) vs st en \<longleftrightarrow> fits s vs st en" using v by (auto simp: fits_def created_def)
qed

text \<open>C40: \<open>mm_map\<close> on a well-formed address space. A range outside user memory, or whose first page lies in an area,
  is refused; with no memory for the descriptor it says so; a free range becomes a new area with these bounds and flags,
  in its place in the list. But a range whose first page is free and that runs into a higher area is
  not refused: the run stops at the assertion in \<open>insert_vma_struct\<close>.\<close>

theorem mm_map_cases:
  assumes "mm_ok s m vs" "\<forall>v. km (vma_live s) = Some v \<longrightarrow> v \<notin> vma_live s"
    and "st = ROUNDDOWN addr PGSIZE" "en = ROUNDUP (addr + len) PGSIZE"
  shows "if \<not> USER_ACCESS st en then mm_map km (Some m) addr len fl s = Some (- E_INVAL, None, s)
    else if \<exists>v\<in>set vs. covers (vmas s v) st
      then \<exists>s'. mm_map km (Some m) addr len fl s = Some (- E_INVAL, None, s') \<and> mm_ok s' m vs \<and> vmas s' = vmas s
    else case km (vma_live s) of
      None \<Rightarrow> \<exists>s'. mm_map km (Some m) addr len fl s = Some (- E_NO_MEM, None, s') \<and> mm_ok s' m vs \<and> vmas s' = vmas s
    | Some v \<Rightarrow>
        if \<exists>w\<in>set vs. st < vm_start (vmas s w) \<and> vm_start (vmas s w) < en then mm_map km (Some m) addr len fl s = None
        else \<exists>s' pre post. mm_map km (Some m) addr len fl s = Some (0, Some v, s') \<and> vs = pre @ post \<and>
          mm_ok s' m (pre @ v # post) \<and>
          vm_start (vmas s' v) = st \<and> vm_end (vmas s' v) = en \<and> vm_flags (vmas s' v) = fl"
proof -
  obtain c where c: "find_vma (Some m) st s =
      Some (find (\<lambda>v. covers (vmas s v) st) vs, set_mm m (\<lambda>y. y\<lparr>mmap_cache := c\<rparr>) s)" "c \<in> insert None (Some ` set vs)"
    using find_vma_ok [OF assms(1)] by blast
  define s1 where "s1 = set_mm m (\<lambda>y. y\<lparr>mmap_cache := c\<rparr>) s"
  have ok1: "mm_ok s1 m vs" unfolding s1_def by (rule mm_ok_cache [OF assms(1) c(2)])
  have k1: "vmas s1 = vmas s" "vma_live s1 = vma_live s" by (simp_all add: s1_def)
  show ?thesis
  proof (cases "USER_ACCESS st en")
    case ua: True
    then have lt: "st < en" by (simp add: USER_ACCESS_def)
    show ?thesis
    proof (cases "find (\<lambda>v. covers (vmas s v) st) vs")
      case None
      then have nc: "\<not> (\<exists>v\<in>set vs. covers (vmas s v) st)" by (auto simp: find_None_iff)
      have run: "mm_map km (Some m) addr len fl s = (case vma_create km st en fl s1 of
          (None, s) \<Rightarrow> Some (- E_NO_MEM, None, s)
        | (Some v, s) \<Rightarrow> do { s \<leftarrow> insert_vma_struct m v s; Some (0, Some v, s) })"
        using ua c(1) None by (simp add: mm_map_def Let_def assms(3,4) [symmetric] s1_def)
      show ?thesis
      proof (cases "km (vma_live s)")
        case None
        then show ?thesis using run ua nc ok1 k1 by (simp add: vma_create_def)
      next
        case (Some v)
        then have v: "v \<notin> vma_live s1" using assms(2) k1 by simp
        have vc: "vma_create km st en fl s1 = (Some v, created v st en fl s1)" using Some k1 by (simp add: vma_create_def created_def)
        define s2 where "s2 = created v st en fl s1"
        have cr: "mm_ok s2 m vs" "v \<notin> set vs" "v \<in> vma_live s2" "fits s2 vs st en \<longleftrightarrow> fits s1 vs st en"
          using created_ok [OF ok1 v] by (simp_all add: s2_def)
        have b: "vm_start (vmas s2 v) = st" "vm_end (vmas s2 v) = en" "vm_flags (vmas s2 v) = fl"
          by (simp_all add: s2_def created_def)
        have run2: "mm_map km (Some m) addr len fl s = do { s \<leftarrow> insert_vma_struct m v s2; Some (0, Some v, s) }"
          unfolding run vc s2_def by simp
        define pre where "pre = takeWhile (\<lambda>w. vm_start (vmas s2 w) \<le> vm_start (vmas s2 v)) vs"
        define post where "post = dropWhile (\<lambda>w. vm_start (vmas s2 w) \<le> vm_start (vmas s2 v)) vs"
        note ins = insert_vma_ok [OF cr(1) refl pre_def post_def, unfolded b cr(4)]
        have f: "fits s1 vs st en \<longleftrightarrow> \<not> (\<exists>w\<in>set vs. st < vm_start (vmas s w) \<and> vm_start (vmas s w) < en)"
        proof -
          have "en \<le> vm_start (vmas s w) \<or> vm_end (vmas s w) \<le> st \<longleftrightarrow> \<not> (st < vm_start (vmas s w) \<and> vm_start (vmas s w) < en)"
            if "w \<in> set vs" for w
          proof -
            have "vm_start (vmas s w) < vm_end (vmas s w)" using assms(1) that by (simp add: mm_ok_def areas_ok_def)
            moreover have "\<not> (vm_start (vmas s w) \<le> st \<and> st < vm_end (vmas s w))" using nc that by (simp add: covers_def)
            ultimately show ?thesis using lt by force
          qed
          then show ?thesis using lt by (auto simp: fits_def k1)
        qed
        show ?thesis
        proof (cases "fits s1 vs st en")
          case True
          let ?s3 = "inserted m v (last (Head m # map Elem pre)) s2"
          have "mm_ok ?s3 m (pre @ v # post)"
            by (rule inserted_ok [OF cr(1) refl cr(2,3) _ pre_def post_def]) (simp add: b cr(4) True)
          moreover have "vm_start (vmas ?s3 v) = st \<and> vm_end (vmas ?s3 v) = en \<and> vm_flags (vmas ?s3 v) = fl"
            using b by (simp add: inserted_def)
          moreover have "vs = pre @ post" by (simp add: pre_def post_def)
          moreover have "mm_map km (Some m) addr len fl s = Some (0, Some v, ?s3)" using run2 ins True by simp
          ultimately have "\<exists>s' pre post. mm_map km (Some m) addr len fl s = Some (0, Some v, s') \<and> vs = pre @ post \<and>
              mm_ok s' m (pre @ v # post) \<and> vm_start (vmas s' v) = st \<and> vm_end (vmas s' v) = en \<and> vm_flags (vmas s' v) = fl"
            by blast
          then show ?thesis using ua nc Some f True by auto
        next
          case False
          then show ?thesis using run2 ins ua nc Some f by simp
        qed
      qed
    next
      case (Some v)
      then have v: "v \<in> set vs" "covers (vmas s v) st" by (auto simp: find_Some_iff)
      then have "vm_start (vmas s v) < en" using lt by (auto simp: covers_def)
      then have "mm_map km (Some m) addr len fl s = Some (- E_INVAL, None, s1)"
        using ua c(1) Some by (simp add: mm_map_def Let_def assms(3,4) [symmetric] s1_def)
      then show ?thesis using ua v ok1 k1 by auto
    qed
  next
    case False
    then show ?thesis by (simp add: mm_map_def Let_def assms(3,4) [symmetric])
  qed
qed

section \<open>A concrete address space with areas\<close>

text \<open>Address space 0 over the tables of \<open>small_space\<close>: a writable area of two pages, whose first page is marked copy on
  write, and a readable one of one page.\<close>

definition cow_leaf :: u64 where
  "cow_leaf = pte_create (nbase + 2) (PTE_COW OR PTE_U OR PTE_R OR PTE_V)"

definition demo_vm :: vmm where
  "demo_vm = paging.extend (small_space cow_leaf) \<lparr>
     mms = (\<lambda>_. \<lparr>mmap_cache = None, mm_pgdir = Some (nbase + 12), map_count = 2, mm_count = 1, mm_sem = 1, locked_by = 0\<rparr>),
     mm_live = {0},
     vmas = (\<lambda>v. if v = 0 then \<lparr>vm_mm = Some 0, vm_start = 0x400000, vm_end = 0x402000, vm_flags = VM_READ OR VM_WRITE\<rparr>
       else \<lparr>vm_mm = Some 0, vm_start = 0x600000, vm_end = 0x601000, vm_flags = VM_READ\<rparr>),
     vma_live = {0, 1},
     vlinks = \<lparr>lprev = (\<lambda>l. l)(Head 0 := Elem 1, Elem 1 := Elem 0, Elem 0 := Head 0),
       lnext = (\<lambda>l. l)(Head 0 := Elem 0, Elem 0 := Elem 1, Elem 1 := Head 0)\<rparr>,
     pgfault_num = 0,
     global_cow_stats = \<lparr>cow_faults = 0, cow_copies = 0, cow_upgrades = 0, pages_saved = 0\<rparr>\<rparr>"

lemma demo_vm_paging:
  "phys demo_vm = phys (small_space cow_leaf)" "npage demo_vm = npage (small_space cow_leaf)"
  "pmem demo_vm = pmem (small_space cow_leaf)"
  by (simp_all add: demo_vm_def paging.defs small_space_def)

lemma demo_vm_fields:
  "vmas demo_vm v = (if v = 0 then \<lparr>vm_mm = Some 0, vm_start = 0x400000, vm_end = 0x402000, vm_flags = VM_READ OR VM_WRITE\<rparr>
       else \<lparr>vm_mm = Some 0, vm_start = 0x600000, vm_end = 0x601000, vm_flags = VM_READ\<rparr>)"
  "mms demo_vm m = \<lparr>mmap_cache = None, mm_pgdir = Some (nbase + 12), map_count = 2, mm_count = 1, mm_sem = 1, locked_by = 0\<rparr>"
  "vma_live demo_vm = {0, 1}"
  "vlinks demo_vm = \<lparr>lprev = (\<lambda>l. l)(Head 0 := Elem 1, Elem 1 := Elem 0, Elem 0 := Head 0),
     lnext = (\<lambda>l. l)(Head 0 := Elem 0, Elem 0 := Elem 1, Elem 1 := Head 0)\<rparr>"
  by (simp_all add: demo_vm_def paging.defs)

lemma demo_vm_ok: "mm_ok demo_vm 0 [0, 1]"
  unfolding mm_ok_def areas_ok_def demo_vm_fields(3,4) by (simp add: demo_vm_fields ring_def)

lemma cow_leaf_ok: "leaf_ok cow_leaf" "is_cow_page cow_leaf"
  by (simp_all add: leaf_ok_def is_cow_page_def cow_leaf_def pte_create_def nbase_def PTE_U_def PTE_V_def PTE_COW_def
      PTE_R_def PTE_W_def PTE_ADDR_def PPN_def)

theorem find_vma_searches_witness:
  "mm_ok demo_vm 0 [0, 1] \<and> (\<exists>s'. find_vma (Some 0) 0x600fff demo_vm = Some (Some 1, s') \<and> mm_ok s' 0 [0, 1])"
proof -
  have "covers (vmas demo_vm 1) 0x600fff" by (simp add: covers_def demo_vm_fields)
  then show ?thesis using find_vma_searches [OF demo_vm_ok, of "0x600fff"] demo_vm_ok by fastforce
qed

theorem insert_vma_sorted_witness:
  "mm_ok (created 7 0x500000 0x501000 VM_READ demo_vm) 0 [0, 1] \<and>
   (\<exists>s' pre post. insert_vma_struct 0 7 (created 7 0x500000 0x501000 VM_READ demo_vm) = Some s' \<and>
      [0, 1] = pre @ post \<and> mm_ok s' 0 (pre @ 7 # post))"
proof -
  let ?s = "created 7 0x500000 0x501000 VM_READ demo_vm"
  have v: "7 \<notin> vma_live demo_vm" by (simp add: demo_vm_fields)
  note cr = created_ok [OF demo_vm_ok v]
  have d: "vm_start (vmas ?s 7) < vm_end (vmas ?s 7) \<and> (\<forall>w\<in>set [0, 1]. disjoint_areas (vmas ?s 7) (vmas ?s w))"
    by (simp add: created_def disjoint_areas_def demo_vm_fields)
  show ?thesis
    using insert_vma_sorted [OF cr(1) cr(2) cr(3), of "0x500000" "0x501000" VM_READ, unfolded if_P [OF d]] cr(1) by blast
qed

theorem user_mem_check_exact_witness:
  "mm_ok demo_vm 0 [0, 1] \<and> (\<exists>s'. user_mem_check (Some 0) 0x401ffe 2 True demo_vm = Some (True, s')) \<and>
   (\<exists>s'. user_mem_check (Some 0) 0x401ffe 3 True demo_vm = Some (False, s'))"
proof -
  have a: "USER_ACCESS 0x401ffe (0x401ffe + 2)" by (simp add: USER_ACCESS_def USERBASE_def USERTOP_def)
  have b: "may_access demo_vm [0, 1] True x" if "0x401ffe \<le> x" "x < 0x401ffe + 2" for x
  proof -
    have "covers (vmas demo_vm 0) x" using that by (simp add: covers_def demo_vm_fields word_le_nat_alt word_less_nat_alt)
    moreover have "allows (vmas demo_vm 0) True x"
      by (simp add: allows_def demo_vm_fields VM_READ_def VM_WRITE_def VM_STACK_def)
    ultimately show ?thesis by (auto simp: may_access_def)
  qed
  have c: "\<not> may_access demo_vm [0, 1] True 0x402000" by (simp add: may_access_def covers_def demo_vm_fields)
  have d: "\<not> (\<forall>x. 0x401ffe \<le> x \<and> x < 0x401ffe + 3 \<longrightarrow> may_access demo_vm [0, 1] True x)"
  proof
    assume "\<forall>x. 0x401ffe \<le> x \<and> x < 0x401ffe + 3 \<longrightarrow> may_access demo_vm [0, 1] True x"
    then have "may_access demo_vm [0, 1] True 0x402000" by (rule allE [where x = "0x402000"]) simp
    then show False using c by simp
  qed
  have e: "USER_ACCESS 0x401ffe (0x401ffe + 2) \<and>
      (\<forall>x. 0x401ffe \<le> x \<and> x < 0x401ffe + 2 \<longrightarrow> may_access demo_vm [0, 1] True x) \<longleftrightarrow> True" using a b by blast
  have f: "USER_ACCESS 0x401ffe (0x401ffe + 3) \<and>
      (\<forall>x. 0x401ffe \<le> x \<and> x < 0x401ffe + 3 \<longrightarrow> may_access demo_vm [0, 1] True x) \<longleftrightarrow> False" using d by blast
  show ?thesis
    using user_mem_check_exact [OF demo_vm_ok, of "0x401ffe" 2 True, unfolded e]
      user_mem_check_exact [OF demo_vm_ok, of "0x401ffe" 3 True, unfolded f] demo_vm_ok by blast
qed

theorem mm_map_cases_witness:
  "(\<exists>s' pre post. mm_map (\<lambda>_. Some 7) (Some 0) 0x500010 0x20 VM_READ demo_vm = Some (0, Some 7, s') \<and>
      [0, 1] = pre @ post \<and> mm_ok s' 0 (pre @ 7 # post)) \<and>
   mm_map (\<lambda>_. Some 7) (Some 0) 0x5ff000 0x1800 VM_READ demo_vm = None"
proof -
  have fr: "\<forall>v. (\<lambda>_. Some 7) (vma_live demo_vm) = Some v \<longrightarrow> v \<notin> vma_live demo_vm" by (simp add: demo_vm_fields)
  have r: "0x500000 = ROUNDDOWN 0x500010 PGSIZE" "0x501000 = ROUNDUP (0x500010 + 0x20) PGSIZE"
    "0x5ff000 = ROUNDDOWN 0x5ff000 PGSIZE" "0x601000 = ROUNDUP (0x5ff000 + 0x1800) PGSIZE"
    by (simp_all add: ROUNDDOWN_def ROUNDUP_def PGSIZE_def)
  have ua: "USER_ACCESS 0x500000 0x501000" "USER_ACCESS 0x5ff000 0x601000"
    by (simp_all add: USER_ACCESS_def USERBASE_def USERTOP_def)
  show ?thesis
    using mm_map_cases [OF demo_vm_ok fr r(1,2), of VM_READ] mm_map_cases [OF demo_vm_ok fr r(3,4), of VM_READ] ua
    by (simp add: covers_def demo_vm_fields) blast
qed

theorem do_pgfault_cow_witness:
  "is_cow_page cow_leaf \<and> (\<exists>s'. do_pgfault (Some 0) CAUSE_STORE_PAGE_FAULT 0x400008 demo_vm = Some (0, s') \<and>
     cow_resolved demo_vm (nbase + 12) 0x400008 cow_leaf s')"
proof -
  note same = paging_same [OF demo_vm_paging]
  have ok: "pg_ok demo_vm" "pt_ok demo_vm (nbase + 12)" "maps_ok demo_vm (nbase + 12)"
    using small_space_parts [OF cow_leaf_ok(1)] same by simp_all
  have tr: "translate demo_vm (nbase + 12) 0x400008 = Some cow_leaf"
    unfolding same by (simp add: small_translate [OF cow_leaf_ok(1)] PDX1_def PDX0_def PTX_def)
  have v: "0 \<in> set [0, 1::nat]" "covers (vmas demo_vm 0) 0x400008" "vm_flags (vmas demo_vm 0) AND VM_WRITE \<noteq> 0"
    by (simp_all add: covers_def demo_vm_fields VM_READ_def VM_WRITE_def)
  have m: "mm_pgdir (mms demo_vm 0) = Some (nbase + 12)" "0 < mm_sem (mms demo_vm 0)" by (simp_all add: demo_vm_fields)
  have fr: "frees demo_vm \<noteq> {}" by (simp add: demo_vm_paging small_frees)
  have la: "(0x400008::u64) < USERTOP" by (simp add: USERTOP_def)
  show ?thesis
    using do_pgfault_cow [OF demo_vm_ok m ok v(1,2) la tr cow_leaf_ok(2)] v(3) fr cow_leaf_ok(2) by auto
qed

text \<open>What this means for the callers that copy to user memory between \<open>lock_mm\<close> and \<open>unlock_mm\<close>: after \<open>lock_mm\<close> on a free lock, a
  kernel access to a user byte that no page backs yet enters the handler, which waits for the lock the process itself holds.\<close>

theorem fault_under_lock_blocks:
  assumes "mm_ok s m vs" "mm_pgdir (mms s m) = Some r" "mm_sem (mms s m) = 1"
    and "pg_ok s" "pt_ok s r" "v \<in> set vs" "covers (vmas s v) addr" "addr < USERTOP" "translate s r addr = None"
  shows "\<exists>s1. lock_mm cur (Some m) s = Some s1 \<and> load_byte m addr s1 = None \<and> store_byte m addr b s1 = None"
proof -
  obtain s1 where s1: "lock_mm cur (Some m) s = Some s1" "phys s1 = phys s" "npage s1 = npage s" "pmem s1 = pmem s"
    "mm_ok s1 m vs" "vmas s1 = vmas s" "mm_sem (mms s1 m) = 0" "mm_pgdir (mms s1 m) = Some r"
    using assms(1-3) by (cases cur) (auto simp: lock_mm_def mm_down_def mm_ok_def)
  note same = paging_same [OF s1(2-4)]
  have ok: "pg_ok s1" "pt_ok s1 r" "translate s1 r addr = None" using assms same by simp_all
  obtain c where c: "find_vma (Some m) addr s1 = Some (Some v, set_mm m (\<lambda>y. y\<lparr>mmap_cache := c\<rparr>) s1)"
    using fault_entry [OF s1(5) assms(6)] assms(7) s1(6) by auto
  have st: "\<not> addr < vm_start (vmas s1 v)" using assms(7) s1(6) by (auto simp: covers_def)
  have pf: "do_pgfault (Some m) k addr s1 = None" for k
    unfolding do_pgfault_def c using st s1(7) by (simp add: mm_down_def)
  have "user_access m w addr s1 = None" for w
    using ok(3) pf
    by (subst user_access.simps)
      (auto simp: s1(8) get_pte_read [OF ok(1,2) assms(8)] translate_def Let_def split: option.splits if_splits)
  then show ?thesis using s1(1) by (simp add: load_byte_def store_byte_def)
qed

theorem fault_under_lock_blocks_witness:
  "\<exists>s1. lock_mm (Some 2) (Some 0) demo_vm = Some s1 \<and> load_byte 0 0x401000 s1 = None \<and> store_byte 0 0x401000 1 s1 = None"
proof -
  note same = paging_same [OF demo_vm_paging]
  have ok: "pg_ok demo_vm" "pt_ok demo_vm (nbase + 12)" using small_space_parts [OF cow_leaf_ok(1)] same by simp_all
  have tr: "translate demo_vm (nbase + 12) 0x401000 = None"
    unfolding same by (simp add: small_translate [OF cow_leaf_ok(1)] PDX1_def PDX0_def PTX_def)
  have v: "0 \<in> set [0, 1::nat]" "covers (vmas demo_vm 0) 0x401000" by (simp_all add: covers_def demo_vm_fields)
  have m: "mm_pgdir (mms demo_vm 0) = Some (nbase + 12)" "mm_sem (mms demo_vm 0) = 1" by (simp_all add: demo_vm_fields)
  have la: "(0x401000::u64) < USERTOP" by (simp add: USERTOP_def)
  show ?thesis by (rule fault_under_lock_blocks [OF demo_vm_ok m ok v la tr])
qed

theorem do_pgfault_demand_witness:
  "(\<exists>s' p. do_pgfault (Some 0) CAUSE_STORE_PAGE_FAULT 0x401000 demo_vm = Some (0, s') \<and> mm_sem (mms s' 0) = 1 \<and>
      p \<in> {0, 3} \<and> translate s' (nbase + 12) 0x401000 =
        Some (pte_create (page2ppn p) (PTE_V OR fault_perm (VM_READ OR VM_WRITE)))) \<and>
   (\<exists>s1. lock_mm (Some 2) (Some 0) demo_vm = Some s1 \<and> do_pgfault (Some 0) CAUSE_STORE_PAGE_FAULT 0x401000 s1 = None)"
proof -
  note same = paging_same [OF demo_vm_paging]
  have ok: "pg_ok demo_vm" "pt_ok demo_vm (nbase + 12)" "maps_ok demo_vm (nbase + 12)" "\<forall>q\<in>frees demo_vm. page_ref q demo_vm = 0"
    using small_space_parts [OF cow_leaf_ok(1)] by (simp_all add: same demo_vm_paging small_frees small_refs)
  have idx: "PDX1 (0x401000::u64) = 0" "PDX0 (0x401000::u64) = 2" "PTX (0x401000::u64) = 1"
    by (simp_all add: PDX1_def PDX0_def PTX_def)
  have nd: "node (pmem demo_vm) (nbase + 12) [PDX1 0x401000, PDX0 0x401000] = Some (nbase + 14)"
    unfolding idx demo_vm_paging by (simp add: small_node del: node.simps)
  have leaf: "leaf_entry demo_vm (nbase + 12) 0x401000 = 0"
    unfolding leaf_entry_def nd by (simp add: idx demo_vm_paging small_space_def)
  have miss: "tables_missing demo_vm (nbase + 12) 0x401000 = 0" unfolding tables_missing_def nd by simp
  have v: "0 \<in> set [0, 1::nat]" "covers (vmas demo_vm 0) 0x401000" "vm_flags (vmas demo_vm 0) AND VM_WRITE \<noteq> 0"
    "vm_flags (vmas demo_vm 0) = VM_READ OR VM_WRITE"
    by (simp_all add: covers_def demo_vm_fields VM_READ_def VM_WRITE_def)
  have m: "mm_pgdir (mms demo_vm 0) = Some (nbase + 12)" "mm_sem (mms demo_vm 0) = 1" by (simp_all add: demo_vm_fields)
  have la: "(0x401000::u64) < USERTOP" by (simp add: USERTOP_def)
  have "\<exists>ret s'. do_pgfault (Some 0) CAUSE_STORE_PAGE_FAULT 0x401000 demo_vm = Some (ret, s') \<and> mm_sem (mms s' 0) = 1 \<and>
      ret = 0 \<and> (\<exists>p\<in>{0, 3}. translate s' (nbase + 12) 0x401000 =
        Some (pte_create (page2ppn p) (PTE_V OR fault_perm (VM_READ OR VM_WRITE))))"
    using do_pgfault_demand [OF demo_vm_ok m(1) ok v(1,2) la leaf, of CAUSE_STORE_PAGE_FAULT] v(3,4) m(2) miss la
    by (auto simp: demo_vm_paging small_frees)
  moreover obtain s1 where s1: "lock_mm (Some 2) (Some 0) demo_vm = Some s1" "phys s1 = phys demo_vm" "npage s1 = npage demo_vm"
    "pmem s1 = pmem demo_vm" "mm_ok s1 0 [0, 1]" "vmas s1 = vmas demo_vm" "mm_sem (mms s1 0) = 0" "mm_pgdir (mms s1 0) = Some (nbase + 12)"
    using demo_vm_ok m by (auto simp: lock_mm_def mm_down_def mm_ok_def)
  have ok1: "pg_ok s1" "pt_ok s1 (nbase + 12)" "maps_ok s1 (nbase + 12)" "\<forall>q\<in>frees s1. page_ref q s1 = 0"
    using ok by (simp_all add: paging_same [OF s1(2-4)] s1(2))
  have v1: "covers (vmas s1 0) 0x401000" using v(2) s1(6) by simp
  have leaf1: "leaf_entry s1 (nbase + 12) 0x401000 = 0" using leaf unfolding leaf_entry_def s1(4) .
  have "do_pgfault (Some 0) CAUSE_STORE_PAGE_FAULT 0x401000 s1 = None"
    using do_pgfault_demand [OF s1(5,8) ok1 v(1) v1 la leaf1, of CAUSE_STORE_PAGE_FAULT] s1(7) by simp
  ultimately show ?thesis using s1(1) by blast
qed

end
