(* ===== verification/Process.thy ===== *)
theory Process
  imports Timer Proc_Table Vmm File_Table
begin

text \<open>
  The life of a process, \<^verbatim>\<open>kern/process/proc.c\<close>: creation, exit, waiting for children, killing, sleeping, and the start of
  the first two processes.

  The state \<open>machine\<close> is the kernel state with the memory of \<open>Vmm\<close>, the open files of \<open>File_Table\<close> and the trap frames on
  the kernel stacks; a routine of another component runs on its part, and the file routines see the table of the
  current process. \<^verbatim>\<open>kmalloc\<close> and the addresses of two assembly entry points are the record \<open>env\<close>. A routine that calls
  \<^verbatim>\<open>schedule\<close> in the middle is split there: the part before it ends in the state in which another process runs, the part after
  it starts when the process runs again.
\<close>

section \<open>State\<close>

datatype reg = R_zero | R_ra | R_sp | R_gp | R_tp | R_t nat | R_s nat | R_a nat

record trapframe =
  gpr :: "reg \<Rightarrow> u64"
  status :: u64
  epc :: u64
  tval :: u64
  cause :: u64

record 'f machine = kernel +
  vm :: vmm
  fsys :: "'f vfs_scheme"
  tframes :: "u64 \<Rightarrow> trapframe"
  proc_live :: "nat set"
  boot_pgdir :: nat
  sstatus :: u64

record env =
  km_proc :: "nat set \<Rightarrow> nat option"
  km_mm :: "nat set \<Rightarrow> nat option"
  km_vma :: "nat set \<Rightarrow> nat option"
  km_files :: "nat set \<Rightarrow> nat option"
  forkret :: u64
  kernel_thread_entry :: u64

definition on_vm :: "(vmm \<Rightarrow> ('r \<times> vmm) option) \<Rightarrow> ('f, 'a) machine_scheme \<Rightarrow> ('r \<times> ('f, 'a) machine_scheme) option" where
  "on_vm f s = do { (r, m) \<leftarrow> f (vm s); Some (r, s\<lparr>vm := m\<rparr>) }"

definition do_vm :: "(vmm \<Rightarrow> vmm option) \<Rightarrow> ('f, 'a) machine_scheme \<Rightarrow> ('f, 'a) machine_scheme option" where
  "do_vm f s = do { m \<leftarrow> f (vm s); Some (s\<lparr>vm := m\<rparr>) }"

definition fs_view :: "('f, 'a) machine_scheme \<Rightarrow> 'f vfs_scheme" where
  "fs_view s = (fsys s)\<lparr>cur_files := (case current s of None \<Rightarrow> None | Some c \<Rightarrow> filesp (procs s c))\<rparr>"

definition do_fs :: "('f vfs_scheme \<Rightarrow> 'f vfs_scheme option) \<Rightarrow> ('f, 'a) machine_scheme \<Rightarrow> ('f, 'a) machine_scheme option" where
  "do_fs f s = do { v \<leftarrow> f (fs_view s); Some (s\<lparr>fsys := v\<rparr>) }"

section \<open>Kernel addresses\<close>

definition PHYSICAL_MEMORY_OFFSET :: u64 where "PHYSICAL_MEMORY_OFFSET = 0xFFFFFFFF40000000"

text \<open>The kernel virtual address of a physical page, and back.\<close>

definition kva :: "nat \<Rightarrow> u64" where
  "kva ppn = of_nat ppn * PGSIZE + PHYSICAL_MEMORY_OFFSET"

definition PADDR :: "u64 \<Rightarrow> u64 option" where
  "PADDR a = (if a < KERNBASE then panic else Some (a - PHYSICAL_MEMORY_OFFSET))"

definition kva2page :: "u64 \<Rightarrow> 'a paging_scheme \<Rightarrow> nat option" where
  "kva2page a m = do { pa \<leftarrow> PADDR a; pa2page (PPN pa) m }"

definition boot_pgdir_pa :: "('f, 'a) machine_scheme \<Rightarrow> u64" where
  "boot_pgdir_pa s = of_nat (boot_pgdir s) * PGSIZE"

section \<open>Parts of a process\<close>

definition alloc_proc :: "env \<Rightarrow> ('f, 'a) machine_scheme \<Rightarrow> nat option \<times> ('f, 'a) machine_scheme" where
  "alloc_proc E s =
     (case km_proc E (proc_live s) of
        None \<Rightarrow> (None, s)
      | Some p \<Rightarrow>
          let s = s\<lparr>proc_live := insert p (proc_live s)\<rparr>;
              s = set_proc p (\<lambda>x. x\<lparr>state := PROC_UNINIT, pid := - 1, runs := 0, kstack := 0, need_resched := False,
                    parent := None, mm := None, pcontext := (\<lambda>_. 0), tf := 0, pgdir := boot_pgdir_pa s, pflags := 0,
                    pname := [], wait_state := 0, cptr := None, optr := None, yptr := None\<rparr>) s;
              s = init_sched_fields p s
          in (Some p, set_proc p (\<lambda>x. x\<lparr>filesp := None\<rparr>) s))"

definition PROC_NAME_LEN :: nat where "PROC_NAME_LEN = 15"

definition set_proc_name :: "nat \<Rightarrow> string \<Rightarrow> 'a kernel_scheme \<Rightarrow> 'a kernel_scheme" where
  "set_proc_name p name s = set_proc p (\<lambda>x. x\<lparr>pname := take PROC_NAME_LEN name\<rparr>) s"

definition get_proc_name :: "nat \<Rightarrow> 'a kernel_scheme \<Rightarrow> string" where
  "get_proc_name p s = take PROC_NAME_LEN (pname (procs s p))"

definition KSTACKPAGE :: nat where "KSTACKPAGE = 2"
definition KSTACKSIZE :: u64 where "KSTACKSIZE = of_nat KSTACKPAGE * PGSIZE"

definition setup_kstack :: "nat \<Rightarrow> ('f, 'a) machine_scheme \<Rightarrow> (int \<times> ('f, 'a) machine_scheme) option" where
  "setup_kstack p s = do {
     (r, s) \<leftarrow> on_vm (alloc_pages KSTACKPAGE) s;
     (case r of
        None \<Rightarrow> Some (- E_NO_MEM, s)
      | Some page \<Rightarrow> do {
          k \<leftarrow> page2kva page (vm s);
          Some (0, set_proc p (\<lambda>x. x\<lparr>kstack := kva k\<rparr>) s)
        })
   }"

definition put_kstack :: "nat \<Rightarrow> ('f, 'a) machine_scheme \<Rightarrow> ('f, 'a) machine_scheme option" where
  "put_kstack p s = do {
     page \<leftarrow> kva2page (kstack (procs s p)) (vm s);
     do_vm (free_pages page KSTACKPAGE) s
   }"

definition setup_pgdir :: "nat \<Rightarrow> nat \<Rightarrow> 'a vmm_scheme \<Rightarrow> (int \<times> 'a vmm_scheme) option" where
  "setup_pgdir boot m v = do {
     (r, v) \<leftarrow> alloc_page v;
     (case r of
        None \<Rightarrow> Some (- E_NO_MEM, v)
      | Some page \<Rightarrow> do {
          k \<leftarrow> page2kva page v;
          let v = put_page k (pmem v boot) v;
          Some (0, set_mm m (\<lambda>x. x\<lparr>mm_pgdir := Some k\<rparr>) v)
        })
   }"

definition put_pgdir :: "nat \<Rightarrow> 'a vmm_scheme \<Rightarrow> 'a vmm_scheme option" where
  "put_pgdir m v = do {
     pgd \<leftarrow> mm_pgdir (mms v m);
     page \<leftarrow> kva2page (kva pgd) v;
     free_page page v
   }"

definition mm_count_inc :: "nat \<Rightarrow> 'a vmm_scheme \<Rightarrow> 'a vmm_scheme" where
  "mm_count_inc m v = set_mm m (\<lambda>x. x\<lparr>mm_count := mm_count x + 1\<rparr>) v"

definition mm_count_dec :: "nat \<Rightarrow> 'a vmm_scheme \<Rightarrow> int \<times> 'a vmm_scheme" where
  "mm_count_dec m v = (let v = set_mm m (\<lambda>x. x\<lparr>mm_count := mm_count x - 1\<rparr>) v in (mm_count (mms v m), v))"

text \<open>Giving up an address space, as \<^verbatim>\<open>do_fork\<close>, \<^verbatim>\<open>do_exit\<close> and \<^verbatim>\<open>do_execve\<close> write it out: the last user releases everything.\<close>

definition free_mm :: "nat \<Rightarrow> 'a vmm_scheme \<Rightarrow> 'a vmm_scheme option" where
  "free_mm m v = do { v \<leftarrow> exit_mmap (Some m) v; v \<leftarrow> put_pgdir m v; mm_destroy m v }"

definition drop_mm :: "nat \<Rightarrow> 'a vmm_scheme \<Rightarrow> 'a vmm_scheme option" where
  "drop_mm m v = (let (c, v) = mm_count_dec m v in if c = 0 then free_mm m v else Some v)"

definition CLONE_VM :: u32 where "CLONE_VM = 0x100"
definition CLONE_FILES :: u32 where "CLONE_FILES = 0x400"

text \<open>The address space for the child, a copy made for it.\<close>

definition dup_mm :: "env \<Rightarrow> nat \<Rightarrow> int \<Rightarrow> nat \<Rightarrow> 'a vmm_scheme \<Rightarrow> (int \<times> nat option \<times> 'a vmm_scheme) option" where
  "dup_mm E boot cur oldmm v =
     (case mm_create (km_mm E) v of
        (None, v) \<Rightarrow> Some (- E_NO_MEM, None, v)
      | (Some m, v) \<Rightarrow> do {
          (ret, v) \<leftarrow> setup_pgdir boot m v;
          if ret \<noteq> 0 then do { v \<leftarrow> mm_destroy m v; Some (- E_NO_MEM, None, v) }
          else do {
            v \<leftarrow> lock_mm (Some cur) (Some oldmm) v;
            (ret, v) \<leftarrow> dup_mmap (km_vma E) (Some m) (Some oldmm) v;
            let v = unlock_mm (Some oldmm) v;
            if ret \<noteq> 0 then do { v \<leftarrow> free_mm m v; Some (ret, None, v) }
            else Some (0, Some m, v)
          }
        })"

definition copy_mm :: "env \<Rightarrow> u32 \<Rightarrow> nat \<Rightarrow> ('f, 'a) machine_scheme \<Rightarrow> (int \<times> ('f, 'a) machine_scheme) option" where
  "copy_mm E clone_flags p s = do {
     c \<leftarrow> current s;
     (case mm (procs s c) of
        None \<Rightarrow> Some (0, s)
      | Some oldmm \<Rightarrow> do {
          (ret, r, v) \<leftarrow>
            (if clone_flags AND CLONE_VM \<noteq> 0 then Some (0, Some oldmm, vm s)
             else dup_mm E (boot_pgdir s) (pid (procs s c)) oldmm (vm s));
          let s = s\<lparr>vm := v\<rparr>;
          if ret \<noteq> 0 then Some (ret, s)
          else do {
            m \<leftarrow> r;
            let s = s\<lparr>vm := mm_count_inc m (vm s)\<rparr>;
            let s = set_proc p (\<lambda>x. x\<lparr>mm := Some m\<rparr>) s;
            pgd \<leftarrow> mm_pgdir (mms (vm s) m);
            pa \<leftarrow> PADDR (kva pgd);
            Some (0, set_proc p (\<lambda>x. x\<lparr>pgdir := pa\<rparr>) s)
          }
        })
   }"

definition TRAPFRAME_SIZE :: u64 where "TRAPFRAME_SIZE = 36 * 8"

definition copy_thread :: "env \<Rightarrow> nat \<Rightarrow> u64 \<Rightarrow> trapframe \<Rightarrow> ('f, 'a) machine_scheme \<Rightarrow> ('f, 'a) machine_scheme" where
  "copy_thread E p esp t s =
     (let a = kstack (procs s p) + KSTACKSIZE - TRAPFRAME_SIZE;
          s = set_proc p (\<lambda>x. x\<lparr>tf := a\<rparr>) s;
          t = t\<lparr>gpr := (gpr t)(R_a 0 := 0, R_sp := (if esp = 0 then a else esp))\<rparr>;
          s = s\<lparr>tframes := (tframes s)(a := t)\<rparr>
      in set_proc p (\<lambda>x. x\<lparr>pcontext := (pcontext x)(Ctx_ra := forkret E, Ctx_sp := a)\<rparr>) s)"

definition copy_files :: "env \<Rightarrow> u32 \<Rightarrow> nat \<Rightarrow> ('f, 'a) machine_scheme \<Rightarrow> (int \<times> ('f, 'a) machine_scheme) option" where
  "copy_files E clone_flags p s = do {
     c \<leftarrow> current s;
     (case filesp (procs s c) of
        None \<Rightarrow>
          (case files_create (km_files E) (fs_view s) of
             (None, f) \<Rightarrow> Some (- E_NO_MEM, s\<lparr>fsys := f\<rparr>)
           | (Some t, f) \<Rightarrow> Some (0, set_proc p (\<lambda>x. x\<lparr>filesp := Some t\<rparr>) (s\<lparr>fsys := f\<rparr>)))
      | Some old \<Rightarrow>
          if clone_flags AND CLONE_FILES \<noteq> 0 then do {
            let s = s\<lparr>fsys := set_files old (\<lambda>x. x\<lparr>files_nlinks := files_nlinks x + 1\<rparr>) (fs_view s)\<rparr>;
            Some (0, set_proc p (\<lambda>x. x\<lparr>filesp := Some old\<rparr>) s)
          } else
            (case files_create (km_files E) (fs_view s) of
               (None, f) \<Rightarrow> Some (- E_NO_MEM, s\<lparr>fsys := f\<rparr>)
             | (Some t, f) \<Rightarrow> do {
                 (_, f) \<leftarrow> dup_files t old f;
                 Some (0, set_proc p (\<lambda>x. x\<lparr>filesp := Some t\<rparr>) (s\<lparr>fsys := f\<rparr>))
               }))
   }"

definition put_files :: "'f vfs_scheme world \<Rightarrow> nat \<Rightarrow> ('f, 'a) machine_scheme \<Rightarrow> ('f, 'a) machine_scheme option" where
  "put_files W p s =
     (case filesp (procs s p) of
        None \<Rightarrow> Some s
      | Some t \<Rightarrow> do_fs (\<lambda>f. do {
          let f = set_files t (\<lambda>x. x\<lparr>files_nlinks := files_nlinks x - 1\<rparr>) f;
          if files_nlinks (files f t) = 0 then files_destroy W t f else Some f
        }) s)"

definition kfree_proc :: "nat \<Rightarrow> ('f, 'a) machine_scheme \<Rightarrow> ('f, 'a) machine_scheme" where
  "kfree_proc p s = s\<lparr>proc_live := proc_live s - {p}\<rparr>"

section \<open>Creating a process\<close>

text \<open>The steps of \<^verbatim>\<open>do_fork\<close> after all parts of the child are there: identifier, tables, run queue.\<close>

definition fork_finish :: "'a kernel_scheme sched_class \<Rightarrow> nat \<Rightarrow> 'a kernel_scheme \<Rightarrow> (int \<times> 'a kernel_scheme) option" where
  "fork_finish cls p s = do {
     (i, s) \<leftarrow> get_pid s;
     let s = set_proc p (\<lambda>x. x\<lparr>pid := i\<rparr>) s;
     let s = hash_proc p s;
     s \<leftarrow> set_links p s;
     s \<leftarrow> wakeup_proc cls p s;
     Some (pid (procs s p), s)
   }"

text \<open>The exits of \<^verbatim>\<open>do_fork\<close> after a failure, from the label of the deepest one on.\<close>

definition fork_cleanup_proc :: "nat \<Rightarrow> int \<Rightarrow> ('f, 'a) machine_scheme \<Rightarrow> (int \<times> ('f, 'a) machine_scheme) option" where
  "fork_cleanup_proc p ret s = Some (ret, kfree_proc p s)"

definition fork_cleanup_kstack :: "nat \<Rightarrow> int \<Rightarrow> ('f, 'a) machine_scheme \<Rightarrow> (int \<times> ('f, 'a) machine_scheme) option" where
  "fork_cleanup_kstack p ret s = do { s \<leftarrow> put_kstack p s; fork_cleanup_proc p ret s }"

definition fork_cleanup_fs ::
  "'f vfs_scheme world \<Rightarrow> nat \<Rightarrow> int \<Rightarrow> ('f, 'a) machine_scheme \<Rightarrow> (int \<times> ('f, 'a) machine_scheme) option" where
  "fork_cleanup_fs W p ret s = do {
     s \<leftarrow> put_files W p s;
     s \<leftarrow> (case mm (procs s p) of None \<Rightarrow> Some s | Some m \<Rightarrow> do_vm (drop_mm m) s);
     fork_cleanup_kstack p ret s
   }"

definition do_fork ::
  "'f vfs_scheme world \<Rightarrow> env \<Rightarrow> ('f, 'a) machine_scheme sched_class \<Rightarrow> u32 \<Rightarrow> u64 \<Rightarrow> trapframe \<Rightarrow>
   ('f, 'a) machine_scheme \<Rightarrow> (int \<times> ('f, 'a) machine_scheme) option" where
  "do_fork W E cls clone_flags stack t s =
     (if nr_process s \<ge> MAX_PROCESS then Some (- E_NO_FREE_PROC, s)
      else let ret = - E_NO_MEM in
        case alloc_proc E s of
          (None, s) \<Rightarrow> Some (ret, s)
        | (Some p, s) \<Rightarrow> do {
            c \<leftarrow> current s;
            let s = set_proc p (\<lambda>x. x\<lparr>parent := Some c\<rparr>) s;
            kassert (wait_state (procs s c) = 0);
            (r, s) \<leftarrow> setup_kstack p s;
            if r \<noteq> 0 then fork_cleanup_proc p ret s
            else do {
              (r, s) \<leftarrow> copy_mm E clone_flags p s;
              if r \<noteq> 0 then fork_cleanup_kstack p ret s
              else do {
                (r, s) \<leftarrow> copy_files E clone_flags p s;
                if r \<noteq> 0 then fork_cleanup_fs W p ret s
                else fork_finish cls p (copy_thread E p stack t s)
              }
            }
          })"

definition SSTATUS_SIE :: u64 where "SSTATUS_SIE = 2"
definition SSTATUS_SPIE :: u64 where "SSTATUS_SPIE = 0x20"
definition SSTATUS_SPP :: u64 where "SSTATUS_SPP = 0x100"

definition kernel_thread ::
  "'f vfs_scheme world \<Rightarrow> env \<Rightarrow> ('f, 'a) machine_scheme sched_class \<Rightarrow> u64 \<Rightarrow> u64 \<Rightarrow> u32 \<Rightarrow>
   ('f, 'a) machine_scheme \<Rightarrow> (int \<times> ('f, 'a) machine_scheme) option" where
  "kernel_thread W E cls f arg clone_flags s =
     do_fork W E cls (clone_flags OR CLONE_VM) 0
       \<lparr>gpr = (\<lambda>_. 0)(R_s 0 := f, R_s 1 := arg), status = (sstatus s OR SSTATUS_SPP OR SSTATUS_SPIE) AND NOT SSTATUS_SIE,
        epc = kernel_thread_entry E, tval = 0, cause = 0\<rparr> s"

section \<open>The end of a process\<close>

text \<open>The parts of \<^verbatim>\<open>do_exit\<close>: giving up the address space, and the passing on of the children with interrupts off.
  The call of \<^verbatim>\<open>schedule\<close> at the end comes back to this process never; that it did is a panic.\<close>

definition leave_mm :: "nat \<Rightarrow> ('f, 'a) machine_scheme \<Rightarrow> ('f, 'a) machine_scheme option" where
  "leave_mm c s =
     (case mm (procs s c) of
        None \<Rightarrow> Some s
      | Some m \<Rightarrow> do {
          s \<leftarrow> do_vm (drop_mm m) (s\<lparr>satp := lsatp (boot_pgdir_pa s)\<rparr>);
          Some (set_proc c (\<lambda>x. x\<lparr>mm := None\<rparr>) s)
        })"

definition hand_over :: "'a kernel_scheme sched_class \<Rightarrow> nat \<Rightarrow> 'a kernel_scheme \<Rightarrow> 'a kernel_scheme option" where
  "hand_over cls c s = do {
     q \<leftarrow> parent (procs s c);
     s \<leftarrow> (if wait_state (procs s q) = WT_CHILD then wakeup_proc cls q s else Some s);
     i \<leftarrow> initproc s;
     reparent_loop (wakeup_proc cls i) c i s
   }"

definition do_exit ::
  "'f vfs_scheme world \<Rightarrow> ('f, 'a) machine_scheme sched_class \<Rightarrow> int \<Rightarrow> ('f, 'a) machine_scheme \<Rightarrow>
   ('f, 'a) machine_scheme option" where
  "do_exit W cls error_code s = do {
     kassert (current s \<noteq> idleproc s);
     kassert (current s \<noteq> initproc s);
     c \<leftarrow> current s;
     s \<leftarrow> leave_mm c s;
     s \<leftarrow> put_files W c s;
     let s = set_proc c (\<lambda>x. x\<lparr>state := PROC_ZOMBIE, exit_code := error_code\<rparr>) s;
     s \<leftarrow> hand_over cls c s;
     s \<leftarrow> schedule cls s;
     kassert (current s \<noteq> Some c);
     Some s
   }"

section \<open>Waiting for children\<close>

partial_function (option) child_scan :: "'a kernel_scheme \<Rightarrow> nat option \<Rightarrow> bool \<Rightarrow> (bool \<times> nat option) option" where
  "child_scan s r haskid =
     (case r of
        None \<Rightarrow> Some (haskid, None)
      | Some p \<Rightarrow>
          if state (procs s p) = PROC_ZOMBIE then Some (True, Some p) else child_scan s (optr (procs s p)) True)"

definition wait_scan :: "int \<Rightarrow> 'a kernel_scheme \<Rightarrow> (bool \<times> nat option) option" where
  "wait_scan i s = do {
     c \<leftarrow> current s;
     if i \<noteq> 0 then do {
       r \<leftarrow> find_proc i s;
       Some (case r of
               None \<Rightarrow> (False, None)
             | Some p \<Rightarrow>
                 if parent (procs s p) = Some c
                 then (True, if state (procs s p) = PROC_ZOMBIE then Some p else None) else (False, None))
     } else child_scan s (cptr (procs s c)) False
   }"

definition int_bytes :: "int \<Rightarrow> u8 list" where
  "int_bytes i = map (\<lambda>k. word_of_int (i div 256 ^ k)) [0..<4]"

text \<open>The store through the user's pointer. The kernel threads that wait pass no pointer; one that did would write kernel memory, which
  this state does not have, and has no result here.\<close>

definition store_code :: "u64 \<Rightarrow> int \<Rightarrow> ('f, 'a) machine_scheme \<Rightarrow> ('f, 'a) machine_scheme option" where
  "store_code code_store code s =
     (if code_store = 0 then Some s
      else do { c \<leftarrow> current s; m \<leftarrow> mm (procs s c); do_vm (store_bytes m code_store (int_bytes code)) s })"

definition reap :: "u64 \<Rightarrow> nat \<Rightarrow> ('f, 'a) machine_scheme \<Rightarrow> ('f, 'a) machine_scheme option" where
  "reap code_store p s = do {
     kassert (Some p \<noteq> idleproc s \<and> Some p \<noteq> initproc s);
     s \<leftarrow> store_code code_store (exit_code (procs s p)) s;
     s \<leftarrow> remove_links p (unhash_proc p s);
     s \<leftarrow> put_kstack p s;
     Some (kfree_proc p s)
   }"

datatype wait_result = Returned int | Asleep | Exited

definition wait_round ::
  "('f, 'a) machine_scheme sched_class \<Rightarrow> int \<Rightarrow> u64 \<Rightarrow> ('f, 'a) machine_scheme \<Rightarrow> (wait_result \<times> ('f, 'a) machine_scheme) option" where
  "wait_round cls i code_store s = do {
     c \<leftarrow> current s;
     (haskid, found) \<leftarrow> wait_scan i s;
     (case found of
        Some p \<Rightarrow> do { s \<leftarrow> reap code_store p s; Some (Returned 0, s) }
      | None \<Rightarrow>
          if haskid then do {
            s \<leftarrow> schedule cls (set_proc c (\<lambda>x. x\<lparr>state := PROC_SLEEPING, wait_state := WT_CHILD\<rparr>) s);
            Some (Asleep, s)
          } else Some (Returned (- E_BAD_PROC), s))
   }"

definition do_wait ::
  "('f, 'a) machine_scheme sched_class \<Rightarrow> int \<Rightarrow> u64 \<Rightarrow> ('f, 'a) machine_scheme \<Rightarrow> (wait_result \<times> ('f, 'a) machine_scheme) option" where
  "do_wait cls i code_store s = do {
     c \<leftarrow> current s;
     (ok, s) \<leftarrow> (if code_store \<noteq> 0 then on_vm (user_mem_check (mm (procs s c)) code_store 4 True) s else Some (True, s));
     if \<not> ok then Some (Returned (- E_INVAL), s) else wait_round cls i code_store s
   }"

text \<open>What happens when the process that slept in \<^verbatim>\<open>do_wait\<close> runs again.\<close>

definition do_wait_resume ::
  "'f vfs_scheme world \<Rightarrow> ('f, 'a) machine_scheme sched_class \<Rightarrow> int \<Rightarrow> u64 \<Rightarrow> ('f, 'a) machine_scheme \<Rightarrow>
   (wait_result \<times> ('f, 'a) machine_scheme) option" where
  "do_wait_resume W cls i code_store s = do {
     c \<leftarrow> current s;
     if pflags (procs s c) AND PF_EXITING \<noteq> 0 then do { s \<leftarrow> do_exit W cls (- E_KILLED) s; Some (Exited, s) }
     else wait_round cls i code_store s
   }"

section \<open>Other calls\<close>

definition do_yield :: "'a kernel_scheme \<Rightarrow> (int \<times> 'a kernel_scheme) option" where
  "do_yield s = do { c \<leftarrow> current s; Some (0, set_proc c (\<lambda>x. x\<lparr>need_resched := True\<rparr>) s) }"

definition do_kill :: "'a kernel_scheme sched_class \<Rightarrow> int \<Rightarrow> 'a kernel_scheme \<Rightarrow> (int \<times> 'a kernel_scheme) option" where
  "do_kill cls i s = do {
     r \<leftarrow> find_proc i s;
     (case r of
        None \<Rightarrow> Some (- E_INVAL, s)
      | Some p \<Rightarrow>
          if pflags (procs s p) AND PF_EXITING = 0 then do {
            let s = set_proc p (\<lambda>x. x\<lparr>pflags := pflags x OR PF_EXITING\<rparr>) s;
            s \<leftarrow> (if wait_state (procs s p) AND WT_INTERRUPTED \<noteq> 0 then wakeup_proc cls p s else Some s);
            Some (0, s)
          } else Some (- E_KILLED, s))
   }"

definition lab6_set_priority :: "u32 \<Rightarrow> 'a kernel_scheme \<Rightarrow> 'a kernel_scheme option" where
  "lab6_set_priority priority s = do {
     c \<leftarrow> current s;
     Some (set_proc c (\<lambda>x. x\<lparr>lab6_priority := if priority = 0 then 1 else priority\<rparr>) s)
   }"

text \<open>The timer of \<^verbatim>\<open>do_sleep\<close> is a local variable, \<open>t\<close>; the two parts are those before and after the call of \<^verbatim>\<open>schedule\<close>.\<close>

definition do_sleep :: "'a kernel_scheme sched_class \<Rightarrow> nat \<Rightarrow> nat \<Rightarrow> 'a kernel_scheme \<Rightarrow> (wait_result \<times> 'a kernel_scheme) option" where
  "do_sleep cls t time s =
     (if time = 0 then Some (Returned 0, s)
      else do {
        c \<leftarrow> current s;
        let s = timer_init t (Some c) (int time) s;
        let s = set_proc c (\<lambda>x. x\<lparr>state := PROC_SLEEPING, wait_state := WT_TIMER\<rparr>) s;
        s \<leftarrow> add_timer t s;
        s \<leftarrow> schedule cls s;
        Some (Asleep, s)
      })"

definition do_sleep_resume :: "nat \<Rightarrow> 'a kernel_scheme \<Rightarrow> int \<times> 'a kernel_scheme" where
  "do_sleep_resume t s = (0, del_timer t s)"

section \<open>The first processes\<close>

fun hash_init_loop :: "nat \<Rightarrow> nat \<Rightarrow> 'a kernel_scheme \<Rightarrow> 'a kernel_scheme" where
  "hash_init_loop i 0 s = s"
| "hash_init_loop i (Suc k) s = hash_init_loop (Suc i) k (s\<lparr>hash_links := list_init (hash_links s) (Head i)\<rparr>)"

definition proc_init ::
  "'f vfs_scheme world \<Rightarrow> env \<Rightarrow> ('f, 'a) machine_scheme sched_class \<Rightarrow> u64 \<Rightarrow> u64 \<Rightarrow> ('f, 'a) machine_scheme \<Rightarrow>
   ('f, 'a) machine_scheme option" where
  "proc_init W E cls init_main bootstack s = do {
     let s = s\<lparr>proc_links := list_init (proc_links s) (Head ())\<rparr>;
     let s = hash_init_loop 0 HASH_LIST_SIZE s;
     let (r, s) = alloc_proc E s;
     let s = s\<lparr>idleproc := r\<rparr>;
     idle \<leftarrow> r;
     let (t, f) = files_create (km_files E) (fs_view s);
     let s = set_proc idle (\<lambda>x. x\<lparr>filesp := t\<rparr>) (s\<lparr>fsys := f\<rparr>);
     kassert (t \<noteq> None);
     let s = set_proc idle (\<lambda>x. x\<lparr>pid := 0, state := PROC_RUNNABLE, kstack := bootstack, need_resched := True\<rparr>) s;
     let s = set_proc_name idle ''idle'' s;
     let s = s\<lparr>nr_process := nr_process s + 1\<rparr>;
     let s = s\<lparr>current := idleproc s\<rparr>;
     (i, s) \<leftarrow> kernel_thread W E cls init_main 0 0 s;
     kassert (i > 0);
     r \<leftarrow> find_proc i s;
     let s = s\<lparr>initproc := r\<rparr>;
     init \<leftarrow> r;
     let s = set_proc_name init ''init'' s;
     kassert (pid (procs s idle) = 0);
     kassert (pid (procs s init) = 1);
     Some s
   }"

end
