(* ===== verification/Process_Inv.thy ===== *)
theory Process_Inv
  imports Process
begin

text \<open>
  What holds of the processes between any two calls: the tables of \<open>Proc_Table\<close>, the run queue of \<open>Sched\<close> and the states of
  the processes agree. Every routine of \<open>Process\<close> keeps this, and the routines do what they promise to the process
  families, the run queue and the states.
\<close>

section \<open>The invariant\<close>

text \<open>\<open>L\<close> are the processes, \<open>C\<close> gives the children of each, youngest first, and \<open>ps\<close> is the global list, which has all but the
  idle process.\<close>

definition tables_ok :: "nat set \<Rightarrow> (nat \<Rightarrow> nat list) \<Rightarrow> nat list \<Rightarrow> 'a kernel_scheme \<Rightarrow> bool" where
  "tables_ok L C ps s \<longleftrightarrow> family s L C \<and> ring (proc_links s) (Head ()) (map Elem ps) \<and> (\<exists>B. hash_ok s B (set ps)) \<and>
     pid_window s ps \<and> (\<forall>p\<in>set ps. 0 < pid (procs s p) \<and> pid (procs s p) < MAX_PID) \<and> nr_process s = int (length ps) + 1 \<and>
     (\<exists>i. idleproc s = Some i \<and> i \<notin> set ps \<and> L = insert i (set ps)) \<and> (\<Union>q\<in>L. set (C q)) = set ps"

definition states_ok :: "nat set \<Rightarrow> (nat \<Rightarrow> nat list) \<Rightarrow> 'a kernel_scheme \<Rightarrow> bool" where
  "states_ok L C s \<longleftrightarrow>
     (\<forall>p\<in>L. state (procs s p) \<noteq> PROC_UNINIT \<and> (state (procs s p) \<noteq> PROC_SLEEPING \<longrightarrow> wait_state (procs s p) = 0) \<and>
        (state (procs s p) = PROC_ZOMBIE \<longrightarrow> C p = [])) \<and>
     (\<exists>c\<in>L. current s = Some c \<and> state (procs s c) = PROC_RUNNABLE) \<and>
     (\<exists>i. idleproc s = Some i \<and> state (procs s i) = PROC_RUNNABLE \<and>
        (\<forall>n. initproc s = Some n \<longrightarrow> n \<in> set (C i) \<and> state (procs s n) \<noteq> PROC_ZOMBIE))"

definition procs_inv ::
  "('a kernel_scheme \<Rightarrow> nat set \<Rightarrow> bool) \<Rightarrow> ('a kernel_scheme \<Rightarrow> nat \<Rightarrow> bool) \<Rightarrow> nat set \<Rightarrow> (nat \<Rightarrow> nat list) \<Rightarrow> nat list \<Rightarrow>
   'a kernel_scheme \<Rightarrow> bool" where
  "procs_inv ready detached L C ps s \<longleftrightarrow> tables_ok L C ps s \<and> states_ok L C s \<and> sched_inv ready detached L s"

lemma procs_invD:
  assumes "procs_inv ready detached L C ps s"
  shows "tables_ok L C ps s" "states_ok L C s" "sched_inv ready detached L s"
  using assms by (auto simp: procs_inv_def)

lemma tables_parent:
  assumes "tables_ok L C ps s" "p \<in> set ps"
  obtains q where "q \<in> L" "p \<in> set (C q)"
proof -
  have "p \<in> (\<Union>q\<in>L. set (C q))" using assms by (simp add: tables_ok_def)
  then show ?thesis using that by blast
qed

lemma tables_child: "tables_ok L C ps s \<Longrightarrow> q \<in> L \<Longrightarrow> set (C q) \<subseteq> set ps"
  by (auto simp: tables_ok_def)

lemma idle_and_init:
  assumes "tables_ok L C ps s" "states_ok L C s"
  obtains i where "idleproc s = Some i" "i \<in> L" "state (procs s i) = PROC_RUNNABLE" "L = insert i (set ps)" "i \<notin> set ps"
    "\<And>n. initproc s = Some n \<Longrightarrow> n \<in> set (C i) \<and> n \<in> L \<and> n \<noteq> i \<and> state (procs s n) \<noteq> PROC_ZOMBIE"
proof -
  obtain i where i: "idleproc s = Some i" "state (procs s i) = PROC_RUNNABLE"
    "\<forall>n. initproc s = Some n \<longrightarrow> n \<in> set (C i) \<and> state (procs s n) \<noteq> PROC_ZOMBIE"
    using assms(2) unfolding states_ok_def by blast
  have l: "i \<notin> set ps" "L = insert i (set ps)" using assms(1) i(1) by (auto simp: tables_ok_def)
  moreover have "set (C i) \<subseteq> L" "i \<notin> set (C i)" using assms(1) l by (auto simp: tables_ok_def family_def)
  ultimately show ?thesis using that [of i] i by blast
qed

lemma state_rules:
  assumes "states_ok L C s" "p \<in> L"
  shows "state (procs s p) \<noteq> PROC_UNINIT" "state (procs s p) \<noteq> PROC_SLEEPING \<Longrightarrow> wait_state (procs s p) = 0"
    "state (procs s p) = PROC_ZOMBIE \<Longrightarrow> C p = []"
  using assms by (auto simp: states_ok_def)

lemma states_okI:
  assumes "\<And>p. p \<in> L \<Longrightarrow> state (procs s p) \<noteq> PROC_UNINIT" "\<And>p. p \<in> L \<Longrightarrow> state (procs s p) \<noteq> PROC_SLEEPING \<Longrightarrow> wait_state (procs s p) = 0"
    "\<And>p. p \<in> L \<Longrightarrow> state (procs s p) = PROC_ZOMBIE \<Longrightarrow> C p = []"
    "current s = Some c" "c \<in> L" "state (procs s c) = PROC_RUNNABLE"
    "idleproc s = Some i" "state (procs s i) = PROC_RUNNABLE" "\<And>n. initproc s = Some n \<Longrightarrow> n \<in> set (C i) \<and> state (procs s n) \<noteq> PROC_ZOMBIE"
  shows "states_ok L C s"
  using assms by (auto simp: states_ok_def)

section \<open>What the tables depend on\<close>

definition linked :: "proc_struct \<Rightarrow> _" where
  "linked x = (pid x, parent x, cptr x, optr x, yptr x)"

lemma linked_ident: "ident x = ident y \<Longrightarrow> linked x = linked y"
  by (simp add: linked_def ident_def)

lemma family_cong:
  assumes "\<forall>p\<in>L. linked (procs s' p) = linked (procs s p)"
  shows "family s' L C \<longleftrightarrow> family s L C"
proof -
  have ch: "chain (procs s') f y cs = chain (procs s) f y cs" if "set cs \<subseteq> L" for f y cs
    using assms that by (induction cs arbitrary: f y) (auto simp: linked_def)
  have "(chain (procs s') (cptr (procs s' p)) None (C p) \<and> distinct (C p) \<and> (\<forall>c\<in>set (C p). parent (procs s' c) = Some p)) =
      (chain (procs s) (cptr (procs s p)) None (C p) \<and> distinct (C p) \<and> (\<forall>c\<in>set (C p). parent (procs s c) = Some p))"
    if "p \<in> L" "set (C p) \<subseteq> L" for p
    using ch that assms by (auto simp: linked_def subset_iff)
  then show ?thesis unfolding family_def fam_ok_def by blast
qed

lemma hash_ok_cong:
  assumes "hash_links s' = hash_links s" "\<forall>p\<in>T. pid (procs s' p) = pid (procs s p)"
  shows "hash_ok s' B T \<longleftrightarrow> hash_ok s B T"
proof -
  have "{p \<in> T. pid_hashfn (pid (procs s' p)) = b} = {p \<in> T. pid_hashfn (pid (procs s p)) = b}" for b
    using assms(2) by auto
  moreover have "inj_on (\<lambda>p. pid (procs s' p)) T \<longleftrightarrow> inj_on (\<lambda>p. pid (procs s p)) T"
    using assms(2) by (intro inj_on_cong) auto
  ultimately show ?thesis using assms(1) by (simp add: hash_ok_def)
qed

lemma tables_ok_subset: "tables_ok L C ps s \<Longrightarrow> set ps \<subseteq> L"
  by (auto simp: tables_ok_def)

lemma tables_ok_cong:
  assumes "\<forall>p\<in>L. linked (procs s' p) = linked (procs s p)" "proc_links s' = proc_links s" "hash_links s' = hash_links s"
    "last_pid s' = last_pid s" "next_safe s' = next_safe s" "nr_process s' = nr_process s" "idleproc s' = idleproc s"
    and ok: "tables_ok L C ps s"
  shows "tables_ok L C ps s'"
proof -
  have p: "\<forall>p\<in>set ps. pid (procs s' p) = pid (procs s p)" using assms(1) tables_ok_subset [OF ok] by (auto simp: linked_def)
  have "pids s' ps = pids s ps" using p by (auto simp: pids_def)
  then have "pid_window s' ps = pid_window s ps" using assms by (simp add: pid_window_def)
  then show ?thesis
    using ok p assms family_cong [OF assms(1)] hash_ok_cong [OF assms(3) p] by (simp add: tables_ok_def)
qed

lemma tables_ok_sched:
  assumes "sched_frame s s'" "\<And>p. ident (procs s' p) = ident (procs s p)" "tables_ok L C ps s"
  shows "tables_ok L C ps s'"
proof -
  have "\<forall>p\<in>L. linked (procs s' p) = linked (procs s p)" using linked_ident [OF assms(2)] by blast
  then show ?thesis using tables_ok_cong [of L s' s C ps] assms(1,3) by (simp add: sched_frame_def)
qed

text \<open>A step that touches nothing the invariant reads.\<close>

definition core where
  "core s = (current s, idleproc s, initproc s, proc_links s, hash_links s, nr_process s, last_pid s, next_safe s, sched_view s,
     \<lambda>p. (linked (procs s p), state (procs s p), wait_state (procs s p)))"

lemma coreD:
  assumes "core s' = core s"
  shows "current s' = current s" "idleproc s' = idleproc s" "initproc s' = initproc s" "proc_links s' = proc_links s"
    "hash_links s' = hash_links s" "nr_process s' = nr_process s" "last_pid s' = last_pid s" "next_safe s' = next_safe s"
    "sched_view s' = sched_view s" "linked (procs s' p) = linked (procs s p)" "state (procs s' p) = state (procs s p)"
    "wait_state (procs s' p) = wait_state (procs s p)"
  using assms by (auto simp: core_def dest: fun_cong [of _ _ p])

lemma core_set_proc:
  assumes "\<And>x. linked (f x) = linked x \<and> state (f x) = state x \<and> wait_state (f x) = wait_state x \<and> prq (f x) = prq x \<and>
    time_slice (f x) = time_slice x \<and> lab6_stride (f x) = lab6_stride x \<and> lab6_priority (f x) = lab6_priority x"
  shows "core (set_proc p f s) = core s"
  using assms by (auto simp: core_def sched_view_def)

context sched_policy
begin

lemma procs_inv_core:
  assumes "core s' = core s" "procs_inv ready detached L C ps s"
  shows "procs_inv ready detached L C ps s'"
proof -
  note d = coreD [OF assms(1)]
  have "tables_ok L C ps s'" using tables_ok_cong [of L s' s C ps] d procs_invD(1) [OF assms(2)] by simp
  moreover have "states_ok L C s'" using procs_invD(2) [OF assms(2)] d by (simp add: states_ok_def)
  moreover have "sched_inv ready detached L s'" using procs_invD(3) [OF assms(2)] inv_cong [of s' s L] d by simp
  ultimately show ?thesis by (simp add: procs_inv_def)
qed

end

section \<open>What changing the family links leaves alone\<close>

definition unlinked :: "proc_struct \<Rightarrow> proc_struct" where
  "unlinked x = x\<lparr>parent := None, cptr := None, optr := None, yptr := None\<rparr>"

lemma unlinked_fields:
  assumes "unlinked x = unlinked y"
  shows "state x = state y" "pid x = pid y" "wait_state x = wait_state y" "mm x = mm y" "filesp x = filesp y" "exit_code x = exit_code y"
    "pflags x = pflags y" "kstack x = kstack y" "tf x = tf y" "pgdir x = pgdir y" "pcontext x = pcontext y" "prq x = prq y"
    "time_slice x = time_slice y" "lab6_stride x = lab6_stride y" "lab6_priority x = lab6_priority y"
  using assms by (cases x; cases y; simp add: unlinked_def)+

definition links_only :: "'a kernel_scheme \<Rightarrow> 'a kernel_scheme \<Rightarrow> bool" where
  "links_only s s' \<longleftrightarrow> s' = s\<lparr>procs := procs s', proc_links := proc_links s', nr_process := nr_process s'\<rparr> \<and>
     (\<forall>p. unlinked (procs s' p) = unlinked (procs s p))"

lemma links_only_fields:
  assumes "links_only s s'"
  shows "current s' = current s" "idleproc s' = idleproc s" "initproc s' = initproc s" "hash_links s' = hash_links s"
    "last_pid s' = last_pid s" "next_safe s' = next_safe s" "kernel.more s' = kernel.more s" "rq s' = rq s" "run_links s' = run_links s"
    "pool s' = pool s" "timers s' = timers s" "timer_links s' = timer_links s"
  using assms by (cases s; cases s'; simp add: links_only_def)+

lemma links_only_view: "links_only s s' \<Longrightarrow> sched_view s' = sched_view s"
  using links_only_fields [of s s'] unlinked_fields [of "procs s' p" "procs s p" for p] by (simp add: sched_view_def links_only_def)

lemma links_only_set_proc:
  assumes "\<And>x. unlinked (f x) = unlinked x"
  shows "links_only s (set_proc p f s)"
  using assms by (simp add: links_only_def) (simp add: set_proc_def)

lemma links_only_trans: "links_only s s' \<Longrightarrow> links_only s' s'' \<Longrightarrow> links_only s s''"
  unfolding links_only_def by (cases s; cases s'; cases s''; simp)

lemma links_only_refl [simp]: "links_only s s"
  by (simp add: links_only_def)

lemma links_only_links: "links_only s (s\<lparr>proc_links := h\<rparr>)" "links_only s (s\<lparr>nr_process := n\<rparr>)"
  by (simp_all add: links_only_def)

lemma links_only_upd:
  assumes "links_only s s'" "\<And>x. unlinked (f x) = unlinked x"
  shows "links_only s (set_proc p f s')"
  using links_only_trans [OF assms(1) links_only_set_proc [OF assms(2)]] .

lemma links_only_case_upd:
  assumes "links_only s s'" "\<And>o1 x. unlinked (f o1 x) = unlinked x"
  shows "links_only s (case r of None \<Rightarrow> s' | Some o1 \<Rightarrow> set_proc o1 (f o1) s')"
  by (cases r) (auto intro: links_only_upd assms)

lemma links_only_more:
  "links_only s s' \<Longrightarrow> links_only s (s'\<lparr>proc_links := h\<rparr>)" "links_only s s' \<Longrightarrow> links_only s (s'\<lparr>nr_process := n\<rparr>)"
  using links_only_trans links_only_links by blast+

lemma adopt_links_only: "links_only s (adopt c i p s)"
  unfolding adopt_def Let_def by (intro links_only_upd links_only_case_upd links_only_refl) (simp_all add: unlinked_def)

lemma set_links_only: "set_links p s = Some s' \<Longrightarrow> links_only s s'"
  unfolding set_links_def Let_def
  apply (erule bind_SomeE)
  apply (simp only: option.inject)
  apply (erule subst [of _ s'])
  apply (intro links_only_more links_only_upd links_only_case_upd links_only_refl)
  apply (simp_all add: unlinked_def)
  done

lemma remove_links_only:
  assumes "remove_links p s = Some s'"
  shows "links_only s s'"
proof -
  define s1 where "s1 = s\<lparr>proc_links := list_del (proc_links s) (Elem p)\<rparr>"
  define s2 where "s2 = (case optr (procs s1 p) of None \<Rightarrow> s1 | Some o1 \<Rightarrow> set_proc o1 (\<lambda>x. x\<lparr>yptr := yptr (procs s1 p)\<rparr>) s1)"
  obtain s3 where s3: "(case yptr (procs s2 p) of Some y \<Rightarrow> Some (set_proc y (\<lambda>x. x\<lparr>optr := optr (procs s2 p)\<rparr>) s2)
           | None \<Rightarrow> do { q \<leftarrow> parent (procs s2 p); Some (set_proc q (\<lambda>x. x\<lparr>cptr := optr (procs s2 p)\<rparr>) s2) }) = Some s3"
      and s': "s' = s3\<lparr>nr_process := nr_process s3 - 1\<rparr>"
    using assms unfolding remove_links_def Let_def s1_def [symmetric] s2_def [symmetric] by (auto elim: bind_SomeE)
  have "links_only s s1" by (simp add: s1_def links_only_links)
  moreover have "links_only s1 s2" unfolding s2_def by (intro links_only_case_upd links_only_refl) (simp add: unlinked_def)
  moreover have "links_only s2 s3"
    using s3 by (auto split: option.splits elim!: bind_SomeE intro!: links_only_set_proc simp: unlinked_def)
  moreover have "links_only s3 s'" by (simp add: s' links_only_links)
  ultimately show ?thesis using links_only_trans by blast
qed

section \<open>Creation\<close>

lemma set_proc_more [simp]: "kernel.more (set_proc p f s) = kernel.more s"
  by (simp add: set_proc_def)

context sched_policy
begin

text \<open>A new process that is not yet runnable joins the tables.\<close>

lemma enter_tables:
  assumes ok: "tables_ok L C ps s" and p: "p \<notin> L" and c: "c \<in> L" "parent (procs s p) = Some c" "cptr (procs s p) = None"
    and n: "nr_process s < MAX_PROCESS"
  obtains i s1 s' where "get_pid s = Some (i, s1)" "set_links p (hash_proc p (set_proc p (\<lambda>x. x\<lparr>pid := i\<rparr>) s1)) = Some s'"
    "tables_ok (insert p L) (C(c := p # C c, p := [])) (p # ps) s'" "1 \<le> i" "i < MAX_PID" "i \<notin> pids s ps" "pid (procs s' p) = i"
    "current s' = current s" "initproc s' = initproc s" "idleproc s' = idleproc s" "sched_view s' = sched_view s" "kernel.more s' = kernel.more s"
    "\<forall>x. unlinked (procs s' x) = unlinked (procs s x\<lparr>pid := if x = p then i else pid (procs s x)\<rparr>)"
proof -
  note d = ok [unfolded tables_ok_def]
  obtain B where B: "hash_ok s B (set ps)" using d by blast
  have pps: "p \<notin> set ps" using p tables_ok_subset [OF ok] by blast
  have "int (length ps) < MAX_PID - 1" using n d by (simp add: MAX_PID_def MAX_PROCESS_def)
  then obtain i ns where g: "get_pid s = Some (i, s\<lparr>last_pid := i, next_safe := ns\<rparr>)" "1 \<le> i" "i < ns" "ns \<le> MAX_PID"
    "\<forall>j\<in>pids s ps. j < i \<or> ns \<le> j" using get_pid_ok [of s ps] d by auto
  define s1 where "s1 = s\<lparr>last_pid := i, next_safe := ns\<rparr>"
  define s2 where "s2 = set_proc p (\<lambda>x. x\<lparr>pid := i\<rparr>) s1"
  define s3 where "s3 = hash_proc p s2"
  have free: "i \<notin> pids s ps" using g(3,5) by auto
  have old: "pid (procs s2 x) = pid (procs s x)" if "x \<in> set ps" for x using that pps by (auto simp: s2_def s1_def)
  have "hash_ok s2 B (set ps)" using hash_ok_cong [of s2 s "set ps" B] B old by (simp add: s2_def s1_def)
  moreover have "pid (procs s2 p) \<notin> (\<lambda>x. pid (procs s2 x)) ` set ps" using free old by (auto simp: s2_def s1_def pids_def)
  ultimately obtain B' where B': "hash_ok s3 B' (insert p (set ps))" using hash_proc_ok pps unfolding s3_def by blast
  have s3p: "procs s3 = (procs s)(p := procs s p\<lparr>pid := i\<rparr>)" by (simp add: s3_def hash_proc_def s2_def s1_def)
  have "family s3 L C" using d family_cong [of L s3 s C] p by (auto simp: s3p linked_def)
  then obtain s' where s': "set_links p s3 = Some s'" "family s' (insert p L) (C(c := p # C c, p := []))"
    "proc_links s' = list_add (proc_links s3) (Head ()) (Elem p)" "nr_process s' = nr_process s3 + 1"
    using set_links_fam [of s3 L C c p] c p by (auto simp: s3p)
  note lo = set_links_only [OF s'(1)]
  note lf = links_only_fields [OF lo]
  have un: "unlinked (procs s' x) = unlinked (procs s x\<lparr>pid := if x = p then i else pid (procs s x)\<rparr>)" for x
    using lo by (simp add: links_only_def s3p)
  have pd: "pid (procs s' x) = (if x = p then i else pid (procs s x))" for x using unlinked_fields(2) [OF un] by simp
  have same: "proc_links s3 = proc_links s" "nr_process s3 = nr_process s" "idleproc s3 = idleproc s" "last_pid s3 = i" "next_safe s3 = ns"
    by (simp_all add: s3_def hash_proc_def s2_def s1_def)
  have "ring (proc_links s') (Head ()) (map Elem (p # ps))"
    using ring_add_after_head [of "proc_links s" "Head ()" "map Elem ps" "Elem p"] d pps by (auto simp: s'(3) same list_add_def)
  moreover have "hash_ok s' B' (set (p # ps))" using hash_ok_cong [of s' s3 "insert p (set ps)" B'] B' lf(4) pd by (simp add: s3p)
  moreover have "pid_window s' (p # ps)"
    using g(2-5) pps lf(5,6) same by (auto simp: pid_window_def pids_def pd)
  moreover have "\<forall>x\<in>set (p # ps). 0 < pid (procs s' x) \<and> pid (procs s' x) < MAX_PID" using d g by (auto simp: pd)
  moreover have "nr_process s' = int (length (p # ps)) + 1" using d by (simp add: s'(4) same)
  moreover have "\<exists>j. idleproc s' = Some j \<and> j \<notin> set (p # ps) \<and> insert p L = insert j (set (p # ps))"
    using d p lf(2) same by auto
  moreover have "(\<Union>q\<in>insert p L. set ((C(c := p # C c, p := [])) q)) = set (p # ps)"
  proof -
    have "(\<Union>q\<in>insert p L. set ((C(c := p # C c, p := [])) q)) = insert p (\<Union>q\<in>L. set (C q))"
      using c p by (auto split: if_splits)
    then show ?thesis using d by simp
  qed
  ultimately have "tables_ok (insert p L) (C(c := p # C c, p := [])) (p # ps) s'" unfolding tables_ok_def using s'(2) by blast
  moreover have "sched_view s' = sched_view s"
    using links_only_view [OF lo] by (simp add: s3_def hash_proc_def s2_def s1_def sched_view_def fun_eq_iff)
  ultimately show ?thesis
    using that [of i s1 s'] g s' free pd un lf unfolding s3_def [symmetric] s2_def [symmetric] s1_def [symmetric]
    by (simp add: s3_def hash_proc_def s2_def s1_def)
qed

lemma fork_finish_ok:
  assumes inv: "procs_inv ready detached L C ps s" and p: "p \<notin> L" "current s = Some c" "parent (procs s p) = Some c" "cptr (procs s p) = None"
      "state (procs s p) = PROC_UNINIT" "detached s p" and n: "nr_process s < MAX_PROCESS"
  obtains i s' where "fork_finish cls p s = Some (i, s')"
    "procs_inv ready detached (insert p L) (C(c := p # C c, p := [])) (p # ps) s'" "1 \<le> i" "i < MAX_PID" "i \<notin> pids s ps"
    "pid (procs s' p) = i" "state (procs s' p) = PROC_RUNNABLE" "current s' = current s" "kernel.more s' = kernel.more s"
    "\<forall>q\<in>L. state (procs s' q) = state (procs s q) \<and> pid (procs s' q) = pid (procs s q)"
    "kstack (procs s' p) = kstack (procs s p)" "mm (procs s' p) = mm (procs s p)" "filesp (procs s' p) = filesp (procs s p)"
    "tf (procs s' p) = tf (procs s p)" "pcontext (procs s' p) = pcontext (procs s p)"
proof -
  note t = procs_invD(1) [OF inv] and st = procs_invD(2) [OF inv] and sc = procs_invD(3) [OF inv]
  have c: "c \<in> L" "state (procs s c) = PROC_RUNNABLE" using st p(2) by (auto simp: states_ok_def)
  obtain i s1 s2 where e: "get_pid s = Some (i, s1)" "set_links p (hash_proc p (set_proc p (\<lambda>x. x\<lparr>pid := i\<rparr>) s1)) = Some s2"
    "tables_ok (insert p L) (C(c := p # C c, p := [])) (p # ps) s2" "1 \<le> i" "i < MAX_PID" "i \<notin> pids s ps" "pid (procs s2 p) = i"
    "current s2 = current s" "initproc s2 = initproc s" "idleproc s2 = idleproc s" "sched_view s2 = sched_view s" "kernel.more s2 = kernel.more s"
    "\<forall>x. unlinked (procs s2 x) = unlinked (procs s x\<lparr>pid := if x = p then i else pid (procs s x)\<rparr>)"
    by (rule enter_tables [OF t p(1) c(1) p(3,4) n]) blast
  have same: "state (procs s2 x) = state (procs s x)" "wait_state (procs s2 x) = wait_state (procs s x)" for x
    using unlinked_fields(1,3) [OF spec [OF e(13)]] by simp_all
  have w: "waiting_cpu (insert p L) s2 = waiting_cpu L s" using e(8,10) same p(5) by (auto simp: waiting_cpu_def)
  have "sched_inv ready detached (insert p L) s2"
    using sc p(6) e(8,10) ready_view [OF e(11)] detached_view [OF e(11)] unfolding sched_inv_def w by auto
  then obtain s' where s': "wakeup_proc cls p s2 = Some s'" "sched_inv ready detached (insert p L) s'" "state (procs s' p) = PROC_RUNNABLE"
    by (rule wakeup_inv [of _ _ p]) (use same p(5) in auto)
  note wf = wakeup_frame [OF s'(1)]
  have id: "ident (procs s' q) = ident (procs s2 q)" for q using wf(6) .
  have oth: "state (procs s' q) = state (procs s q)" "wait_state (procs s' q) = wait_state (procs s q)" if "q \<noteq> p" for q
    using bare_eq_fields(1,3) [OF wf(3) [OF that]] same by simp_all
  have "tables_ok (insert p L) (C(c := p # C c, p := [])) (p # ps) s'" by (rule tables_ok_sched [OF wf(1) id e(3)])
  moreover have "states_ok (insert p L) (C(c := p # C c, p := [])) s'"
  proof -
    have "wait_state (procs s' p) = 0" using wf(4) same p(5) by simp
    moreover have "current s' = current s" "idleproc s' = idleproc s" "initproc s' = initproc s"
      using wf(1,2) e(8,9,10) by (simp_all add: sched_frame_def)
    moreover have "q \<noteq> p" if "q \<in> L" for q using that p(1) by blast
    moreover note rules = state_rules [OF st]
    moreover obtain j where jk: "idleproc s = Some j" "j \<in> L" "state (procs s j) = PROC_RUNNABLE"
      "\<And>k. initproc s = Some k \<Longrightarrow> k \<in> set (C j) \<and> k \<in> L \<and> k \<noteq> j \<and> state (procs s k) \<noteq> PROC_ZOMBIE" by (rule idle_and_init [OF t st]) blast
    ultimately show ?thesis
      using s'(3) oth c p(2) by (intro states_okI [of _ _ _ c j]) auto
  qed
  ultimately have "procs_inv ready detached (insert p L) (C(c := p # C c, p := [])) (p # ps) s'" using s'(2) by (simp add: procs_inv_def)
  moreover have "fork_finish cls p s = Some (i, s')"
    using e(1,2,7) s'(1) ident_fields(1) [OF id [of p]] by (simp add: fork_finish_def)
  moreover have "kernel.more s' = kernel.more s" "current s' = current s" using wf(1,2) e(8,12) by (simp_all add: sched_frame_def)
  moreover have "pid (procs s' q) = (if q = p then i else pid (procs s q))" for q
    using ident_fields(1) [OF id [of q]] unlinked_fields(2) [OF spec [OF e(13)], of q] by simp
  moreover have "kstack (procs s' p) = kstack (procs s p)" "mm (procs s' p) = mm (procs s p)" "filesp (procs s' p) = filesp (procs s p)"
      "tf (procs s' p) = tf (procs s p)" "pcontext (procs s' p) = pcontext (procs s p)"
    using unlinked_fields [OF spec [OF e(13)], of p] ident_fields [OF id [of p]] by simp_all
  moreover have "state (procs s' q) = state (procs s q)" if "q \<in> L" for q by (rule oth(1)) (use that p(1) in auto)
  moreover have "q \<noteq> p" if "q \<in> L" for q using that p(1) by blast
  ultimately show ?thesis by (intro that [of i s']) (use e(4-6) s'(3) in auto)
qed

end

text \<open>The class over the whole machine.\<close>

locale machine_sched = sched_policy cls ready detached
  for cls :: "('f, 'b) machine_scheme sched_class"
    and ready :: "('f, 'b) machine_scheme \<Rightarrow> nat set \<Rightarrow> bool"
    and detached :: "('f, 'b) machine_scheme \<Rightarrow> nat \<Rightarrow> bool"
begin

lemma core_vm [simp]: "core (s\<lparr>vm := m\<rparr>) = core s" "core (s\<lparr>fsys := f\<rparr>) = core s" "core (s\<lparr>tframes := g\<rparr>) = core s"
  "core (s\<lparr>proc_live := l\<rparr>) = core s" "core (s\<lparr>satp := x\<rparr>) = core s"
  for s :: "('f, 'b) machine_scheme"
  by (simp_all add: core_def sched_view_def)

end

text \<open>A step beside the processes: memory, files, trap frames, and fields of a process that neither tables nor scheduler read.\<close>

definition aside :: "('f, 'a) machine_scheme \<Rightarrow> ('f, 'a) machine_scheme \<Rightarrow> bool" where
  "aside s s' \<longleftrightarrow> core s' = core s \<and> proc_live s' = proc_live s"

lemma aside_refl [simp]: "aside s s"
  by (simp add: aside_def)

lemma aside_trans: "aside s s' \<Longrightarrow> aside s' s'' \<Longrightarrow> aside s s''"
  by (simp add: aside_def)

lemma aside_parts [simp]:
  "aside s b \<Longrightarrow> aside s (b\<lparr>vm := m\<rparr>)" "aside s b \<Longrightarrow> aside s (b\<lparr>fsys := f\<rparr>)" "aside s b \<Longrightarrow> aside s (b\<lparr>tframes := g\<rparr>)"
  "aside s b \<Longrightarrow> aside s (b\<lparr>satp := x\<rparr>)"
  by (simp_all add: aside_def core_def sched_view_def)

lemma proc_live_set_proc [simp]: "proc_live (set_proc p f s) = proc_live s" "vm (set_proc p f s) = vm s" "fsys (set_proc p f s) = fsys s"
  "tframes (set_proc p f s) = tframes s" "boot_pgdir (set_proc p f s) = boot_pgdir s"
  by (simp_all add: set_proc_def)

lemma aside_set:
  assumes "aside s b" "\<And>x. linked (f x) = linked x \<and> state (f x) = state x \<and> wait_state (f x) = wait_state x \<and> prq (f x) = prq x \<and>
    time_slice (f x) = time_slice x \<and> lab6_stride (f x) = lab6_stride x \<and> lab6_priority (f x) = lab6_priority x"
  shows "aside s (set_proc p f b)"
  using assms(1) core_set_proc [OF assms(2), of p b] by (simp add: aside_def)

lemma aside_set_proc [simp]:
  assumes "aside s b"
  shows "aside s (set_proc p (\<lambda>x. x\<lparr>mm := a\<rparr>) b)" "aside s (set_proc p (\<lambda>x. x\<lparr>filesp := u\<rparr>) b)" "aside s (set_proc p (\<lambda>x. x\<lparr>kstack := d\<rparr>) b)"
  "aside s (set_proc p (\<lambda>x. x\<lparr>tf := d\<rparr>) b)" "aside s (set_proc p (\<lambda>x. x\<lparr>pgdir := d\<rparr>) b)" "aside s (set_proc p (\<lambda>x. x\<lparr>pcontext := e x\<rparr>) b)"
  "aside s (set_proc p (\<lambda>x. x\<lparr>pname := n\<rparr>) b)"
  by (rule aside_set [OF assms]; simp add: linked_def)+

lemma on_vm_aside: "on_vm f s = Some (r, s') \<Longrightarrow> aside s s'"
  by (auto simp: on_vm_def elim!: bind_SomeE)

lemma do_vm_aside: "do_vm f s = Some s' \<Longrightarrow> aside s s'"
  by (auto simp: do_vm_def elim!: bind_SomeE)

lemma do_fs_aside: "do_fs f s = Some s' \<Longrightarrow> aside s s'"
  by (auto simp: do_fs_def elim!: bind_SomeE)

lemma aside_satp: "aside (s\<lparr>satp := x\<rparr>) b \<Longrightarrow> aside s b"
  using aside_trans [OF aside_parts(4) [OF aside_refl]] .

lemma setup_kstack_aside: "setup_kstack p s = Some (r, s') \<Longrightarrow> aside s s'"
  by (auto simp: setup_kstack_def elim!: bind_SomeE dest!: on_vm_aside split: option.splits)

lemma put_kstack_aside: "put_kstack p s = Some s' \<Longrightarrow> aside s s'"
  by (auto simp: put_kstack_def elim!: bind_SomeE dest: do_vm_aside)

lemma put_files_aside: "put_files W p s = Some s' \<Longrightarrow> aside s s'"
  by (auto simp: put_files_def dest: do_fs_aside split: option.splits)

lemma leave_mm_aside: "leave_mm c s = Some s' \<Longrightarrow> aside s s'"
  by (auto simp: leave_mm_def elim!: bind_SomeE split: option.splits dest!: do_vm_aside aside_satp)

lemma copy_thread_aside: "aside s (copy_thread E p esp t s)"
  by (simp add: copy_thread_def Let_def)

lemma copy_files_aside: "copy_files E fl p s = Some (r, s') \<Longrightarrow> aside s s'"
  unfolding copy_files_def by (auto elim!: bind_SomeE split: option.splits prod.splits if_splits)

lemma copy_mm_aside: "copy_mm E fl p s = Some (r, s') \<Longrightarrow> aside s s'"
  unfolding copy_mm_def Let_def by (auto elim!: bind_SomeE split: option.splits if_splits)

lemmas aside_steps = setup_kstack_aside put_kstack_aside put_files_aside leave_mm_aside copy_thread_aside copy_files_aside copy_mm_aside
  do_vm_aside on_vm_aside

lemma asideD:
  assumes "aside s s'"
  shows "proc_live s' = proc_live s" "core s' = core s" "current s' = current s" "nr_process s' = nr_process s" "initproc s' = initproc s" "idleproc s' = idleproc s"
    "parent (procs s' p) = parent (procs s p)" "cptr (procs s' p) = cptr (procs s p)" "state (procs s' p) = state (procs s p)"
    "sched_view s' = sched_view s" "pid (procs s' p) = pid (procs s p)"
proof -
  have e: "core s' = core s" using assms by (simp add: aside_def)
  note d = coreD [OF e]
  show "proc_live s' = proc_live s" "core s' = core s" "current s' = current s" "nr_process s' = nr_process s" "initproc s' = initproc s" "idleproc s' = idleproc s"
    "state (procs s' p) = state (procs s p)" "sched_view s' = sched_view s"
    using assms d by (simp_all add: aside_def)
  show "parent (procs s' p) = parent (procs s p)" "cptr (procs s' p) = cptr (procs s p)" "pid (procs s' p) = pid (procs s p)"
    using d(10) [of p] by (simp_all add: linked_def)
qed

context machine_sched
begin

text \<open>A process under construction.\<close>

definition embryo :: "nat set \<Rightarrow> (nat \<Rightarrow> nat list) \<Rightarrow> nat list \<Rightarrow> nat \<Rightarrow> nat \<Rightarrow> ('f, 'b) machine_scheme \<Rightarrow> bool" where
  "embryo L C ps c p s \<longleftrightarrow> procs_inv ready detached L C ps s \<and> p \<notin> L \<and> current s = Some c \<and> parent (procs s p) = Some c \<and>
     cptr (procs s p) = None \<and> state (procs s p) = PROC_UNINIT \<and> detached s p \<and> nr_process s < MAX_PROCESS \<and> proc_live s = insert p L"

lemma embryo_aside: "aside s s' \<Longrightarrow> embryo L C ps c p s \<Longrightarrow> embryo L C ps c p s'"
  using asideD [of s s'] procs_inv_core [of s' s L C ps] detached_view [of s' s p] by (simp add: embryo_def)

lemma alloc_embryo:
  assumes inv: "procs_inv ready detached L C ps s" "proc_live s = L" and c: "current s = Some c" and n: "nr_process s < MAX_PROCESS"
    and a: "alloc_proc E s = (Some p, s1)" and fresh: "p \<notin> L"
  shows "embryo L C ps c p (set_proc p (\<lambda>x. x\<lparr>parent := Some c\<rparr>) s1)"
proof -
  define t where "t = set_proc p (\<lambda>x. x\<lparr>parent := Some c\<rparr>) s1"
  obtain f g where s1: "s1 = set_proc p g (init_sched_fields p (set_proc p f (s\<lparr>proc_live := insert p (proc_live s)\<rparr>)))"
      and f: "\<And>x. prq (f x) = prq x \<and> time_slice (f x) = time_slice x \<and> lab6_stride (f x) = lab6_stride x \<and> lab6_priority (f x) = lab6_priority x"
      and fx: "\<And>x. state (f x) = PROC_UNINIT \<and> cptr (f x) = None" and g: "g = (\<lambda>x. x\<lparr>filesp := None\<rparr>)"
    using a by (auto simp: alloc_proc_def Let_def split: option.splits)
  define s0 where "s0 = set_proc p f (s\<lparr>proc_live := insert p (proc_live s)\<rparr>)"
  have v0: "sched_view s0 = sched_view s"
    using sched_view_set_proc [of f p "s\<lparr>proc_live := insert p (proc_live s)\<rparr>"] f by (simp add: s0_def sched_view_def)
  have v: "sched_view t = sched_view (init_sched_fields p s0)"
    by (simp add: t_def s1 g s0_def sched_view_def fun_eq_iff)
  have oth: "procs t q = procs s q" if "q \<noteq> p" for q using that by (simp add: t_def s1 init_sched_fields_def Let_def)
  have me: "parent (procs t p) = Some c" "cptr (procs t p) = None" "state (procs t p) = PROC_UNINIT"
    using fx by (simp_all add: t_def s1 g init_sched_fields_def Let_def)
  have gl: "current t = current s" "idleproc t = idleproc s" "initproc t = initproc s" "proc_links t = proc_links s" "hash_links t = hash_links s"
    "last_pid t = last_pid s" "next_safe t = next_safe s" "nr_process t = nr_process s" "proc_live t = insert p L"
    using inv(2) by (simp_all add: t_def s1 init_sched_fields_def Let_def)
  have oL: "procs t q = procs s q" if "q \<in> L" for q using oth that fresh by metis
  have w: "waiting_cpu L t = waiting_cpu L s" using oL gl by (auto simp: waiting_cpu_def)
  note sc = procs_invD(3) [OF inv(1)]
  have wp: "p \<notin> waiting_cpu L s" using fresh by (simp add: waiting_cpu_def)
  have r0: "ready s0 (waiting_cpu L s)" using sc ready_view [OF v0] by (simp add: sched_inv_def)
  have "ready t (waiting_cpu L s)" using fresh_ready [OF r0 wp] ready_view [OF v] by simp
  moreover have d: "detached t q" if "q = p \<or> q \<in> L - waiting_cpu L s" for q
    using fresh_detached [OF r0 wp, of q] that sc detached_view [OF v0] detached_view [OF v] by (auto simp: sched_inv_def)
  ultimately have "sched_inv ready detached L t" using sc gl unfolding sched_inv_def w by auto
  moreover have "tables_ok L C ps t" by (rule tables_ok_cong [OF _ _ _ _ _ _ _ procs_invD(1) [OF inv(1)]]) (use gl oL in auto)
  moreover have "states_ok L C t"
  proof -
    note st = procs_invD(2) [OF inv(1)]
    obtain i where jk: "idleproc s = Some i" "i \<in> L" "state (procs s i) = PROC_RUNNABLE"
      "\<And>k. initproc s = Some k \<Longrightarrow> k \<in> set (C i) \<and> k \<in> L \<and> k \<noteq> i \<and> state (procs s k) \<noteq> PROC_ZOMBIE" by (rule idle_and_init [OF procs_invD(1,2) [OF inv(1)]]) blast
    have cc: "c \<in> L" "state (procs s c) = PROC_RUNNABLE" using st c by (auto simp: states_ok_def)
    show ?thesis using jk gl cc c state_rules [OF st] oL by (intro states_okI [of _ _ _ c i]) auto
  qed
  ultimately show ?thesis unfolding t_def [symmetric] using me gl c n d fresh by (simp add: embryo_def procs_inv_def)
qed

end

context machine_sched
begin

lemma kfree_embryo:
  assumes "embryo L C ps c p s"
  shows "procs_inv ready detached L C ps (kfree_proc p s)" "proc_live (kfree_proc p s) = L"
  using assms procs_inv_core [of "kfree_proc p s" s L C ps] by (auto simp: embryo_def kfree_proc_def core_vm)

lemma fork_cleanup_ok:
  assumes "embryo L C ps c p s"
  shows "fork_cleanup_kstack p ret s = Some (r, s') \<Longrightarrow> r = ret \<and> procs_inv ready detached L C ps s' \<and> proc_live s' = L"
    "fork_cleanup_fs W p ret s = Some (r, s') \<Longrightarrow> r = ret \<and> procs_inv ready detached L C ps s' \<and> proc_live s' = L"
proof -
  have k: "r = ret \<and> procs_inv ready detached L C ps s' \<and> proc_live s' = L"
    if "fork_cleanup_kstack p ret t = Some (r, s')" "embryo L C ps c p t" for t
    using that kfree_embryo embryo_aside [OF put_kstack_aside]
    by (fastforce simp: fork_cleanup_kstack_def fork_cleanup_proc_def elim!: bind_SomeE)
  then show "fork_cleanup_kstack p ret s = Some (r, s') \<Longrightarrow> r = ret \<and> procs_inv ready detached L C ps s' \<and> proc_live s' = L"
    using assms by blast
  assume "fork_cleanup_fs W p ret s = Some (r, s')"
  then obtain s1 s2 where s1: "put_files W p s = Some s1" and s2: "(case mm (procs s1 p) of None \<Rightarrow> Some s1 | Some m \<Rightarrow> do_vm (drop_mm m) s1) = Some s2"
    and f: "fork_cleanup_kstack p ret s2 = Some (r, s')"
    by (auto simp: fork_cleanup_fs_def elim!: bind_SomeE)
  have "embryo L C ps c p s1" by (rule embryo_aside [OF put_files_aside [OF s1] assms])
  then have "embryo L C ps c p s2" using s2 embryo_aside [OF do_vm_aside] by (fastforce split: option.splits)
  then show "r = ret \<and> procs_inv ready detached L C ps s' \<and> proc_live s' = L" using k [OF f] by blast
qed

text \<open>The child after all its parts are there, and every result \<open>do_fork\<close> can have.\<close>

lemma fork_success:
  assumes e: "embryo L C ps c p s"
  obtains i s' where "fork_finish cls p (copy_thread E p stack t s) = Some (i, s')"
    "procs_inv ready detached (insert p L) (C(c := p # C c, p := [])) (p # ps) s'" "proc_live s' = insert p L" "0 < i" "i < MAX_PID"
    "i \<notin> pids s ps" "pid (procs s' p) = i" "state (procs s' p) = PROC_RUNNABLE" "current s' = Some c"
    "\<forall>q\<in>L. state (procs s' q) = state (procs s q) \<and> pid (procs s' q) = pid (procs s q)"
    "tframes s' (tf (procs s' p)) = t\<lparr>gpr := (gpr t)(R_a 0 := 0, R_sp := (if stack = 0 then tf (procs s' p) else stack))\<rparr>"
    "pcontext (procs s' p) Ctx_sp = tf (procs s' p)" "pcontext (procs s' p) Ctx_ra = forkret E"
    "mm (procs s' p) = mm (procs s p)" "filesp (procs s' p) = filesp (procs s p)" "vm s' = vm s" "fsys s' = fsys s"
proof -
  let ?s = "copy_thread E p stack t s"
  have e': "embryo L C ps c p ?s" by (rule embryo_aside [OF copy_thread_aside e])
  obtain i s' where f: "fork_finish cls p ?s = Some (i, s')"
    "procs_inv ready detached (insert p L) (C(c := p # C c, p := [])) (p # ps) s'" "1 \<le> i" "i < MAX_PID" "i \<notin> pids ?s ps"
    "pid (procs s' p) = i" "state (procs s' p) = PROC_RUNNABLE" "current s' = current ?s" "kernel.more s' = kernel.more ?s"
    "\<forall>q\<in>L. state (procs s' q) = state (procs ?s q) \<and> pid (procs s' q) = pid (procs ?s q)"
    "kstack (procs s' p) = kstack (procs ?s p)" "mm (procs s' p) = mm (procs ?s p)" "filesp (procs s' p) = filesp (procs ?s p)"
    "tf (procs s' p) = tf (procs ?s p)" "pcontext (procs s' p) = pcontext (procs ?s p)"
    by (rule fork_finish_ok [of L C ps ?s p c]) (use e' in \<open>auto simp: embryo_def\<close>)
  have more: "proc_live s' = proc_live ?s" "vm s' = vm ?s" "fsys s' = fsys ?s" "tframes s' = tframes ?s"
    using f(9) by (cases s'; cases "?s"; simp)+
  note a = asideD [OF copy_thread_aside [of s E p stack t]]
  have "pids ?s ps = pids s ps" using a(11) by (simp add: pids_def)
  moreover have "current ?s = Some c" "proc_live ?s = insert p L" using e' by (simp_all add: embryo_def)
  moreover have "tframes s' (tf (procs s' p)) = t\<lparr>gpr := (gpr t)(R_a 0 := 0, R_sp := (if stack = 0 then tf (procs s' p) else stack))\<rparr>"
    "pcontext (procs s' p) Ctx_sp = tf (procs s' p)" "pcontext (procs s' p) Ctx_ra = forkret E" "vm s' = vm s" "fsys s' = fsys s"
    "mm (procs s' p) = mm (procs s p)" "filesp (procs s' p) = filesp (procs s p)"
    unfolding more f by (simp_all add: copy_thread_def Let_def)
  ultimately show ?thesis using that [of i s'] f a(9,11) more by simp
qed

definition forked :: "nat set \<Rightarrow> (nat \<Rightarrow> nat list) \<Rightarrow> nat list \<Rightarrow> nat \<Rightarrow> int \<Rightarrow> ('f, 'b) machine_scheme \<Rightarrow> bool" where
  "forked L C ps c ret s' \<longleftrightarrow> (ret < 0 \<and> procs_inv ready detached L C ps s' \<and> proc_live s' = L) \<or>
    (0 < ret \<and> (\<exists>p. p \<notin> L \<and> procs_inv ready detached (insert p L) (C(c := p # C c, p := [])) (p # ps) s' \<and> proc_live s' = insert p L \<and>
      pid (procs s' p) = ret \<and> state (procs s' p) = PROC_RUNNABLE \<and> current s' = Some c))"

lemma fork_files_stage:
  assumes e: "embryo L C ps c p s"
    and run: "do { (r, s) \<leftarrow> copy_files E fl p s; if r \<noteq> 0 then fork_cleanup_fs W p (- E_NO_MEM) s
        else fork_finish cls p (copy_thread E p stack t s) } = Some (ret, s')"
  shows "forked L C ps c ret s'"
proof -
  obtain r s1 where r: "copy_files E fl p s = Some (r, s1)"
    and g: "(if r \<noteq> 0 then fork_cleanup_fs W p (- E_NO_MEM) s1 else fork_finish cls p (copy_thread E p stack t s1)) = Some (ret, s')"
    using run by (auto elim!: bind_SomeE)
  have e1: "embryo L C ps c p s1" by (rule embryo_aside [OF copy_files_aside [OF r] e])
  show ?thesis
  proof (cases "r = 0")
    case False
    then show ?thesis using g fork_cleanup_ok(2) [OF e1, of W "- E_NO_MEM" ret s'] by (simp add: forked_def errno)
  next
    case True
    obtain i t' where "fork_finish cls p (copy_thread E p stack t s1) = Some (i, t')"
      "procs_inv ready detached (insert p L) (C(c := p # C c, p := [])) (p # ps) t'" "proc_live t' = insert p L" "0 < i" "pid (procs t' p) = i"
      "state (procs t' p) = PROC_RUNNABLE" "current t' = Some c"
      by (rule fork_success [OF e1]) blast
    then show ?thesis using g True e by (auto simp: forked_def embryo_def)
  qed
qed

lemma fork_mm_stage:
  assumes e: "embryo L C ps c p s"
    and run: "do { (r, s) \<leftarrow> copy_mm E fl p s; if r \<noteq> 0 then fork_cleanup_kstack p (- E_NO_MEM) s
        else do { (r, s) \<leftarrow> copy_files E fl p s; if r \<noteq> 0 then fork_cleanup_fs W p (- E_NO_MEM) s
        else fork_finish cls p (copy_thread E p stack t s) } } = Some (ret, s')"
  shows "forked L C ps c ret s'"
proof -
  obtain r s1 where r: "copy_mm E fl p s = Some (r, s1)"
    and g: "(if r \<noteq> 0 then fork_cleanup_kstack p (- E_NO_MEM) s1 else do { (r, s) \<leftarrow> copy_files E fl p s1; if r \<noteq> 0 then fork_cleanup_fs W p (- E_NO_MEM) s
        else fork_finish cls p (copy_thread E p stack t s) }) = Some (ret, s')"
    using run by (auto elim!: bind_SomeE)
  have e1: "embryo L C ps c p s1" by (rule embryo_aside [OF copy_mm_aside [OF r] e])
  show ?thesis
  proof (cases "r = 0")
    case False
    then show ?thesis using g fork_cleanup_ok(1) [OF e1, of "- E_NO_MEM" ret s'] by (simp add: forked_def errno)
  next
    case True
    then show ?thesis using g fork_files_stage [OF e1] by simp
  qed
qed

text \<open>With all the parts there, the child is made.\<close>

lemma do_fork_makes:
  assumes inv: "procs_inv ready detached L C ps s" "proc_live s = L" and c: "current s = Some c" and n: "nr_process s < MAX_PROCESS"
    and a: "alloc_proc E s = (Some p, s1)" and fresh: "p \<notin> L" and k: "setup_kstack p (set_proc p (\<lambda>x. x\<lparr>parent := Some c\<rparr>) s1) = Some (0, s2)"
    and m: "copy_mm E fl p s2 = Some (0, s3)" and f: "copy_files E fl p s3 = Some (0, s4)"
  obtains i s' where "do_fork W E cls fl stack t s = Some (i, s')"
    "procs_inv ready detached (insert p L) (C(c := p # C c, p := [])) (p # ps) s'" "proc_live s' = insert p L" "0 < i" "i < MAX_PID"
    "i \<notin> pids s ps" "pid (procs s' p) = i" "state (procs s' p) = PROC_RUNNABLE" "current s' = Some c"
    "tframes s' (tf (procs s' p)) = t\<lparr>gpr := (gpr t)(R_a 0 := 0, R_sp := (if stack = 0 then tf (procs s' p) else stack))\<rparr>"
    "pcontext (procs s' p) Ctx_sp = tf (procs s' p)" "pcontext (procs s' p) Ctx_ra = forkret E"
    "mm (procs s' p) = mm (procs s4 p)" "filesp (procs s' p) = filesp (procs s4 p)" "vm s' = vm s4" "fsys s' = fsys s4"
    "\<forall>q\<in>L. pid (procs s' q) = pid (procs s q)" "fork_finish cls p (copy_thread E p stack t s4) = Some (i, s')"
proof -
  have e: "embryo L C ps c p (set_proc p (\<lambda>x. x\<lparr>parent := Some c\<rparr>) s1)" by (rule alloc_embryo [OF inv c n a fresh])
  have as: "aside (set_proc p (\<lambda>x. x\<lparr>parent := Some c\<rparr>) s1) s4"
    using aside_trans [OF aside_trans [OF setup_kstack_aside [OF k] copy_mm_aside [OF m]] copy_files_aside [OF f]] .
  have e4: "embryo L C ps c p s4" by (rule embryo_aside [OF as e])
  obtain i s' where s': "fork_finish cls p (copy_thread E p stack t s4) = Some (i, s')"
    "procs_inv ready detached (insert p L) (C(c := p # C c, p := [])) (p # ps) s'" "proc_live s' = insert p L" "0 < i" "i < MAX_PID"
    "i \<notin> pids s4 ps" "pid (procs s' p) = i" "state (procs s' p) = PROC_RUNNABLE" "current s' = Some c"
    "tframes s' (tf (procs s' p)) = t\<lparr>gpr := (gpr t)(R_a 0 := 0, R_sp := (if stack = 0 then tf (procs s' p) else stack))\<rparr>"
    "pcontext (procs s' p) Ctx_sp = tf (procs s' p)" "pcontext (procs s' p) Ctx_ra = forkret E"
    "mm (procs s' p) = mm (procs s4 p)" "filesp (procs s' p) = filesp (procs s4 p)" "vm s' = vm s4" "fsys s' = fsys s4"
    "\<forall>q\<in>L. state (procs s' q) = state (procs s4 q) \<and> pid (procs s' q) = pid (procs s4 q)"
    by (rule fork_success [OF e4, of E stack t]) blast
  have oth: "procs s1 q = procs s q" if "q \<noteq> p" for q
    using a c that by (auto simp: alloc_proc_def Let_def init_sched_fields_def split: option.splits)
  have cur: "current s1 = Some c" using a c by (auto simp: alloc_proc_def Let_def init_sched_fields_def split: option.splits)
  have w: "wait_state (procs s1 c) = 0"
  proof -
    have cL: "c \<in> L" "state (procs s c) = PROC_RUNNABLE" using procs_invD(2) [OF inv(1)] c by (auto simp: states_ok_def)
    then have "c \<noteq> p" using fresh by blast
    then show ?thesis using oth state_rules(2) [OF procs_invD(2) [OF inv(1)] cL(1)] cL(2) by simp
  qed
  have wp: "wait_state (procs s1 p) = 0" using a by (auto simp: alloc_proc_def Let_def init_sched_fields_def split: option.splits)
  have "do_fork W E cls fl stack t s = Some (i, s')"
    using n a cur w wp k m f s'(1) by (simp add: do_fork_def Let_def)
  moreover have pd: "pid (procs s4 q) = pid (procs s q)" if "q \<in> L" for q
  proof -
    have "q \<noteq> p" using that fresh by blast
    then show ?thesis using asideD(11) [OF as, of q] oth by simp
  qed
  moreover have "pids s4 ps = pids s ps" using pd tables_ok_subset [OF procs_invD(1) [OF inv(1)]] by (auto simp: pids_def subset_iff image_iff)
  ultimately show ?thesis using that [of i s'] s' by simp
qed

text \<open>And every result it can have.\<close>

lemma do_fork_cases:
  assumes inv: "procs_inv ready detached L C ps s" "proc_live s = L" and c: "current s = Some c"
    and fresh: "\<forall>X p. km_proc E X = Some p \<longrightarrow> p \<notin> X" and run: "do_fork W E cls fl stack t s = Some (ret, s')"
  shows "forked L C ps c ret s'"
proof (cases "nr_process s \<ge> MAX_PROCESS")
  case True
  then show ?thesis using run inv by (auto simp: do_fork_def errno forked_def)
next
  case False
  then have n: "nr_process s < MAX_PROCESS" by simp
  show ?thesis
  proof (cases "km_proc E (proc_live s)")
    case None
    then show ?thesis using run n inv by (auto simp: do_fork_def alloc_proc_def errno forked_def)
  next
    case (Some p)
    then obtain s1 where a: "alloc_proc E s = (Some p, s1)" "current s1 = current s"
      by (auto simp: alloc_proc_def Let_def init_sched_fields_def)
    have fr: "p \<notin> L" using Some fresh inv(2) by blast
    define s2 where "s2 = set_proc p (\<lambda>x. x\<lparr>parent := Some c\<rparr>) s1"
    have e2: "embryo L C ps c p s2" unfolding s2_def by (rule alloc_embryo [OF inv c n a(1) fr])
    obtain r s3 where r: "setup_kstack p s2 = Some (r, s3)"
      and g: "(if r \<noteq> 0 then fork_cleanup_proc p (- E_NO_MEM) s3 else do { (r, s) \<leftarrow> copy_mm E fl p s3;
            if r \<noteq> 0 then fork_cleanup_kstack p (- E_NO_MEM) s
            else do { (r, s) \<leftarrow> copy_files E fl p s; if r \<noteq> 0 then fork_cleanup_fs W p (- E_NO_MEM) s
            else fork_finish cls p (copy_thread E p stack t s) } }) = Some (ret, s')"
      using run n a c by (auto simp: do_fork_def Let_def s2_def split: if_split_asm elim!: bind_SomeE)
    have e3: "embryo L C ps c p s3" by (rule embryo_aside [OF setup_kstack_aside [OF r] e2])
    show ?thesis
    proof (cases "r = 0")
      case False
      then show ?thesis using g kfree_embryo [OF e3] by (auto simp: fork_cleanup_proc_def errno forked_def)
    next
      case True
      then show ?thesis using g fork_mm_stage [OF e3] by simp
    qed
  qed
qed

end

section \<open>Giving up the processor\<close>

text \<open>The states with a current process that may be going to sleep or gone.\<close>

definition resting :: "nat set \<Rightarrow> (nat \<Rightarrow> nat list) \<Rightarrow> 'a kernel_scheme \<Rightarrow> bool" where
  "resting L C s \<longleftrightarrow>
     (\<forall>p\<in>L. state (procs s p) \<noteq> PROC_UNINIT \<and> (state (procs s p) \<noteq> PROC_SLEEPING \<longrightarrow> wait_state (procs s p) = 0) \<and>
        (state (procs s p) = PROC_ZOMBIE \<longrightarrow> C p = [])) \<and>
     (\<exists>i. idleproc s = Some i \<and> state (procs s i) = PROC_RUNNABLE \<and>
        (\<forall>n. initproc s = Some n \<longrightarrow> n \<in> set (C i) \<and> state (procs s n) \<noteq> PROC_ZOMBIE))"

lemma states_ok_resting: "states_ok L C s \<longleftrightarrow> resting L C s \<and> (\<exists>c\<in>L. current s = Some c \<and> state (procs s c) = PROC_RUNNABLE)"
  unfolding states_ok_def resting_def by blast

context sched_policy
begin

lemma current_state_free:
  assumes "sched_inv ready detached L s" "current s = Some c"
    and f: "\<And>x. prq (f x) = prq x \<and> time_slice (f x) = time_slice x \<and> lab6_stride (f x) = lab6_stride x \<and> lab6_priority (f x) = lab6_priority x"
  shows "sched_inv ready detached L (set_proc c f s)"
proof -
  have v: "sched_view (set_proc c f s) = sched_view s" by (rule sched_view_set_proc [OF f])
  have "waiting_cpu L (set_proc c f s) = waiting_cpu L s" using assms(2) by (auto simp: waiting_cpu_def)
  then show ?thesis using assms(1) ready_view [OF v] detached_view [OF v] by (simp add: sched_inv_def)
qed

lemma schedule_procs:
  assumes t: "tables_ok L C ps s" and r: "resting L C s" and sc: "sched_inv ready detached L s" and c: "current s = Some c"
  obtains s' n where "schedule cls s = Some s'" "procs_inv ready detached L C ps s'" "current s' = Some n"
    "state (procs s c) \<noteq> PROC_RUNNABLE \<Longrightarrow> n \<noteq> c" "\<And>p. state (procs s' p) = state (procs s p)"
    "\<And>p. wait_state (procs s' p) = wait_state (procs s p)" "\<And>p. ident (procs s' p) = ident (procs s p)" "kernel.more s' = kernel.more s"
    "initproc s' = initproc s" "idleproc s' = idleproc s"
proof -
  obtain s' n where s': "schedule cls s = Some s'" "sched_inv ready detached L s'" "current s' = Some n" "n \<in> L"
    "state (procs s n) = PROC_RUNNABLE \<or> Some n = idleproc s" "\<And>p. state (procs s' p) = state (procs s p)"
    "\<And>p. wait_state (procs s' p) = wait_state (procs s p)"
    by (rule schedule_inv [OF sc]) blast
  note f = schedule_frame [OF s'(1)]
  have fr: "initproc s' = initproc s" "idleproc s' = idleproc s" "kernel.more s' = kernel.more s" using f(1) by (simp_all add: sched_frame_def)
  have run: "state (procs s n) = PROC_RUNNABLE" using s'(5) r by (auto simp: resting_def)
  have "tables_ok L C ps s'" by (rule tables_ok_sched [OF f(1,4) t])
  moreover have "states_ok L C s'" unfolding states_ok_resting using r s'(3,4,6,7) run fr by (simp add: resting_def)
  ultimately have "procs_inv ready detached L C ps s'" using s'(2) by (simp add: procs_inv_def)
  moreover have "state (procs s c) \<noteq> PROC_RUNNABLE \<Longrightarrow> n \<noteq> c" using run by auto
  ultimately show ?thesis using that [of s' n] s'(1,3,6,7) f(4) fr by blast
qed

lemma sleep_current:
  assumes inv: "procs_inv ready detached L C ps s" and c: "current s = Some c" "idleproc s \<noteq> Some c"
  obtains s' n where "schedule cls (set_proc c (\<lambda>x. x\<lparr>state := PROC_SLEEPING, wait_state := w\<rparr>) s) = Some s'"
    "procs_inv ready detached L C ps s'" "current s' = Some n" "n \<noteq> c" "state (procs s' c) = PROC_SLEEPING" "wait_state (procs s' c) = w"
    "\<And>p. ident (procs s' p) = ident (procs s p)" "kernel.more s' = kernel.more s"
    "\<And>p. p \<noteq> c \<Longrightarrow> state (procs s' p) = state (procs s p)"
proof -
  let ?s = "set_proc c (\<lambda>x. x\<lparr>state := PROC_SLEEPING, wait_state := w\<rparr>) s"
  note t = procs_invD(1) [OF inv] and st = procs_invD(2) [OF inv]
  have "tables_ok L C ps ?s" by (rule tables_ok_cong [OF _ _ _ _ _ _ _ t]) (simp_all add: linked_def)
  moreover have "resting L C ?s" using st c unfolding states_ok_resting resting_def by auto
  moreover have "sched_inv ready detached L ?s" by (rule current_state_free [OF procs_invD(3) [OF inv] c(1)]) simp
  moreover have cur: "current ?s = Some c" using c by simp
  ultimately obtain s' n where s': "schedule cls ?s = Some s'" "procs_inv ready detached L C ps s'" "current s' = Some n"
    "state (procs ?s c) \<noteq> PROC_RUNNABLE \<Longrightarrow> n \<noteq> c" "\<And>p. state (procs s' p) = state (procs ?s p)"
    "\<And>p. wait_state (procs s' p) = wait_state (procs ?s p)" "\<And>p. ident (procs s' p) = ident (procs ?s p)" "kernel.more s' = kernel.more ?s"
    by (rule schedule_procs) blast
  have "ident (procs ?s p) = ident (procs s p)" for p by (simp add: ident_def)
  moreover have "n \<noteq> c" using s'(4) by simp
  ultimately show ?thesis using that [of s' n] s' by simp
qed

end

section \<open>Exit\<close>

definition calm where
  "calm x = (pid x, exit_code x, kstack x, mm x, filesp x, pflags x)"

lemma calm_eqs: "unlinked x = unlinked y \<Longrightarrow> calm x = calm y" "ident x = ident y \<Longrightarrow> calm x = calm y"
  using unlinked_fields [of x y] ident_fields [of x y] by (simp_all add: calm_def)

text \<open>What stays during the passing on of the children, where \<open>i\<close> may be woken.\<close>

definition passing :: "nat \<Rightarrow> 'a kernel_scheme \<Rightarrow> 'a kernel_scheme \<Rightarrow> bool" where
  "passing i s t \<longleftrightarrow> hash_links t = hash_links s \<and> proc_links t = proc_links s \<and> last_pid t = last_pid s \<and> next_safe t = next_safe s \<and>
     nr_process t = nr_process s \<and> idleproc t = idleproc s \<and> initproc t = initproc s \<and> current t = current s \<and> kernel.more t = kernel.more s \<and>
     (\<forall>p. calm (procs t p) = calm (procs s p)) \<and>
     (\<forall>p. state (procs t p) = state (procs s p) \<and> wait_state (procs t p) = wait_state (procs s p) \<or>
        p = i \<and> state (procs t p) = PROC_RUNNABLE \<and> wait_state (procs t p) = 0)"

lemma passing_refl [simp]: "passing i s s"
  by (simp add: passing_def)

lemma passing_adopt: "passing i s t \<Longrightarrow> passing i s (adopt c j p t)"
proof -
  assume a: "passing i s t"
  note lo = adopt_links_only [of t c j p]
  have u: "unlinked (procs (adopt c j p t) x) = unlinked (procs t x)" for x using lo by (simp add: links_only_def)
  have l: "proc_links (adopt c j p t) = proc_links t" "nr_process (adopt c j p t) = nr_process t"
    by (simp_all add: adopt_def Let_def split: option.splits)
  show ?thesis
    using a links_only_fields [OF lo] l calm_eqs(1) [OF u] adopt_states [of c j p t]
    by (simp add: passing_def)
qed

context sched_policy
begin

lemma passing_wakeup:
  assumes "passing i s t" "wakeup_proc cls i t = Some t'" "wait_state (procs t i) = WT_CHILD \<Longrightarrow> state (procs t i) \<noteq> PROC_RUNNABLE"
    "wait_state (procs t i) = WT_CHILD"
  shows "passing i s t'" "same_links t t'" "wait_state (procs t' i) = 0" "state (procs t' i) = PROC_RUNNABLE"
proof -
  note f = wakeup_frame [OF assms(2)]
  have st: "state (procs t' i) = PROC_RUNNABLE" "wait_state (procs t' i) = 0" using f(4) assms(3,4) by auto
  have oth: "state (procs t' x) = state (procs t x) \<and> wait_state (procs t' x) = wait_state (procs t x)" if "x \<noteq> i" for x
    using bare_eq_fields(1,3) [OF f(3) [OF that]] by simp
  have "state (procs t' x) = state (procs s x) \<and> wait_state (procs t' x) = wait_state (procs s x) \<or>
        x = i \<and> state (procs t' x) = PROC_RUNNABLE \<and> wait_state (procs t' x) = 0" for x
    using st oth [of x] assms(1) by (cases "x = i") (auto simp: passing_def)
  then show "passing i s t'"
    using assms(1) f(1,2) calm_eqs(2) [OF f(6)] by (simp add: passing_def sched_frame_def)
  show "same_links t t'" using ident_fields [OF f(6)] by (simp add: same_links_def)
  show "wait_state (procs t' i) = 0" "state (procs t' i) = PROC_RUNNABLE" using st by simp_all
qed

text \<open>The whole passing on, for a current process \<open>c\<close> that is a zombie already.\<close>

lemma reparent_procs:
  assumes t: "tables_ok L C ps s" and sc: "sched_inv ready detached L s" and c: "c \<in> L" "i \<in> L" "c \<noteq> i" "i \<notin> set (C c)"
    and i: "state (procs s i) \<noteq> PROC_ZOMBIE" "state (procs s i) \<noteq> PROC_SLEEPING \<longrightarrow> wait_state (procs s i) = 0"
  obtains s' where "reparent_loop (wakeup_proc cls i) c i s = Some s'" "tables_ok L (C(c := [], i := rev (C c) @ C i)) ps s'"
    "sched_inv ready detached L s'" "passing i s s'"
    "(\<exists>x\<in>set (C c). state (procs s x) = PROC_ZOMBIE) \<Longrightarrow> wait_state (procs s' i) \<noteq> WT_CHILD"
proof -
  let ?C = "C(c := [], i := rev (C c) @ C i)"
  let ?J = "\<lambda>u. sched_inv ready detached L u \<and> passing i s u"
  have fam: "family s L C" using t by (simp add: tables_ok_def)
  have hw: "half_way s c L C" using fam c(1) by (auto simp: half_way_def family_def fam_ok_def)
  have nz: "state (procs u i) \<noteq> PROC_ZOMBIE" "wait_state (procs u i) = WT_CHILD \<Longrightarrow> state (procs u i) \<noteq> PROC_RUNNABLE" if "passing i s u" for u
    using that i spec [of "\<lambda>p. state (procs u p) = state (procs s p) \<and> wait_state (procs u p) = wait_state (procs s p) \<or>
        p = i \<and> state (procs u p) = PROC_RUNNABLE \<and> wait_state (procs u p) = 0" i] by (auto simp: passing_def wt_defs)
  have J2: "\<forall>u p. ?J u \<longrightarrow> ?J (adopt c i p u)"
  proof (intro allI impI)
    fix u p assume a: "?J u"
    note lo = adopt_links_only [of u c i p]
    have "sched_inv ready detached L (adopt c i p u)"
      using a inv_cong [OF links_only_view [OF lo] links_only_fields(1,2) [OF lo] adopt_states(1), of L] by blast
    then show "?J (adopt c i p u)" using a passing_adopt by blast
  qed
  have J3: "\<forall>u. ?J u \<longrightarrow> wait_state (procs u i) = WT_CHILD \<longrightarrow>
      (\<exists>u'. wakeup_proc cls i u = Some u' \<and> same_links u u' \<and> ?J u')"
  proof (intro allI impI)
    fix u assume u: "?J u" "wait_state (procs u i) = WT_CHILD"
    obtain u' where u': "wakeup_proc cls i u = Some u'" "sched_inv ready detached L u'"
      by (rule wakeup_inv [OF conjunct1 [OF u(1)] c(2) nz(1) [OF conjunct2 [OF u(1)]]]) blast
    then show "\<exists>u'. wakeup_proc cls i u = Some u' \<and> same_links u u' \<and> ?J u'"
      using passing_wakeup [OF conjunct2 [OF u(1)] u'(1) nz(2) u(2)] u by blast
  qed
  obtain s' where s': "reparent_loop (wakeup_proc cls i) c i s = Some s'" "family s' L ?C" "sched_inv ready detached L s'" "passing i s s'"
    using reparent_ok [OF hw c, of ?J, OF _ J2 J3] sc by auto
  have ps: "pid (procs s' p) = pid (procs s p)" for p using s'(4) by (simp add: passing_def calm_def)
  have "\<exists>B. hash_ok s' B (set ps)" using t hash_ok_cong [of s' s "set ps"] ps s'(4) by (auto simp: tables_ok_def passing_def)
  moreover have "pid_window s' ps" using t s'(4) ps by (simp add: tables_ok_def passing_def pid_window_def pids_def)
  moreover have "(\<Union>q\<in>L. set (?C q)) = set ps"
  proof -
    have "x \<in> (\<Union>q\<in>L. set (?C q))" if "q \<in> L" "x \<in> set (C q)" for x q
      by (rule UN_I [of "if q = c \<or> q = i then i else q"]) (use that c in auto)
    then have "(\<Union>q\<in>L. set (?C q)) = (\<Union>q\<in>L. set (C q))" using c by (auto split: if_splits)
    then show ?thesis using t by (simp add: tables_ok_def)
  qed
  ultimately have "tables_ok L ?C ps s'" using t s'(2,4) ps by (simp add: tables_ok_def passing_def)
  moreover have "wait_state (procs s' i) \<noteq> WT_CHILD" if z: "\<exists>x\<in>set (C c). state (procs s x) = PROC_ZOMBIE"
  proof (rule reparent_notifies [OF hw c _ _ s'(1)])
    show "\<forall>u u'. wakeup_proc cls i u = Some u' \<longrightarrow> same_links u u' \<and> (wait_state (procs u i) = WT_CHILD \<longrightarrow> state (procs u i) \<noteq> PROC_RUNNABLE \<longrightarrow>
        wait_state (procs u' i) = 0 \<and> (\<forall>x. x \<noteq> i \<longrightarrow> state (procs u' x) = state (procs u x)))"
    proof (intro allI impI)
      fix u u' assume "wakeup_proc cls i u = Some u'"
      note f = wakeup_frame [OF this]
      show "same_links u u' \<and> (wait_state (procs u i) = WT_CHILD \<longrightarrow> state (procs u i) \<noteq> PROC_RUNNABLE \<longrightarrow>
          wait_state (procs u' i) = 0 \<and> (\<forall>x. x \<noteq> i \<longrightarrow> state (procs u' x) = state (procs u x)))"
        using ident_fields [OF f(6)] f(4) bare_eq_fields(1) [OF f(3)] by (simp add: same_links_def)
    qed
    show "wait_state (procs s i) = WT_CHILD \<longrightarrow> state (procs s i) \<noteq> PROC_RUNNABLE \<and> (\<exists>x\<in>set (C c). state (procs s x) = PROC_ZOMBIE)"
      using z nz(2) [of s] by simp
  qed
  ultimately show ?thesis using that s'(1,3,4) by blast
qed

lemma wakeup_tables:
  assumes "tables_ok L C ps s" "wakeup_proc cls p s = Some s'"
  shows "tables_ok L C ps s'"
  using tables_ok_sched [OF wakeup_frame(1,6) [OF assms(2)] assms(1)] .

lemma hand_over_ok:
  assumes t: "tables_ok L C ps s" and sc: "sched_inv ready detached L s" and q: "parent (procs s c) = Some q" "q \<in> L" "q \<noteq> c"
    and n: "initproc s = Some i" and c: "c \<in> L" "i \<in> L" "c \<noteq> i" "i \<notin> set (C c)"
    and st: "\<And>p. p \<in> {q, i} \<Longrightarrow> state (procs s p) \<noteq> PROC_ZOMBIE"
      "\<And>p. p \<in> {q, i} \<Longrightarrow> state (procs s p) \<noteq> PROC_SLEEPING \<Longrightarrow> wait_state (procs s p) = 0"
  obtains s1 s' where "hand_over cls c s = Some s'" "tables_ok L (C(c := [], i := rev (C c) @ C i)) ps s'" "sched_inv ready detached L s'"
    "passing q s s1" "passing i s1 s'" "wait_state (procs s1 q) \<noteq> WT_CHILD" "wait_state (procs s q) = WT_CHILD \<Longrightarrow> state (procs s1 q) = PROC_RUNNABLE"
    "(\<exists>x\<in>set (C c). state (procs s x) = PROC_ZOMBIE) \<Longrightarrow> wait_state (procs s' i) \<noteq> WT_CHILD"
proof -
  have nr: "wait_state (procs s q) = WT_CHILD \<Longrightarrow> state (procs s q) \<noteq> PROC_RUNNABLE" using st(2) [of q] by (auto simp: wt_defs)
  obtain s1 where s1: "(if wait_state (procs s q) = WT_CHILD then wakeup_proc cls q s else Some s) = Some s1" "tables_ok L C ps s1"
      "sched_inv ready detached L s1" "passing q s s1" "wait_state (procs s1 q) \<noteq> WT_CHILD"
      "wait_state (procs s q) = WT_CHILD \<Longrightarrow> state (procs s1 q) = PROC_RUNNABLE"
  proof (cases "wait_state (procs s q) = WT_CHILD")
    case True
    obtain u where u: "wakeup_proc cls q s = Some u" "sched_inv ready detached L u" by (rule wakeup_inv [OF sc q(2) st(1)]) auto
    then show ?thesis using that [of u] passing_wakeup [OF passing_refl u(1) nr True] wakeup_tables [OF t u(1)] True by (simp add: wt_defs)
  next
    case False
    then show ?thesis using that [of s] t sc by simp
  qed
  have same: "state (procs s1 p) = state (procs s p) \<and> wait_state (procs s1 p) = wait_state (procs s p) \<or>
      p = q \<and> state (procs s1 p) = PROC_RUNNABLE \<and> wait_state (procs s1 p) = 0" for p using s1(4) by (simp add: passing_def)
  have i1: "state (procs s1 i) \<noteq> PROC_ZOMBIE" "state (procs s1 i) \<noteq> PROC_SLEEPING \<longrightarrow> wait_state (procs s1 i) = 0"
    using same [of i] st by auto
  obtain s' where s': "reparent_loop (wakeup_proc cls i) c i s1 = Some s'" "tables_ok L (C(c := [], i := rev (C c) @ C i)) ps s'"
    "sched_inv ready detached L s'" "passing i s1 s'"
    "(\<exists>x\<in>set (C c). state (procs s1 x) = PROC_ZOMBIE) \<Longrightarrow> wait_state (procs s' i) \<noteq> WT_CHILD"
    by (rule reparent_procs [OF s1(2,3) c i1]) blast
  have "hand_over cls c s = Some s'" using q(1) s1(1) n s'(1) s1(4) by (simp add: hand_over_def passing_def)
  moreover have "\<exists>x\<in>set (C c). state (procs s1 x) = PROC_ZOMBIE" if "\<exists>x\<in>set (C c). state (procs s x) = PROC_ZOMBIE"
    using that same st(1) [of q] by (metis insertI1)
  ultimately show ?thesis using that [of s' s1] s' s1 by blast
qed

end

lemma exit_resting:
  assumes t: "tables_ok L C ps s" and st: "states_ok L C s" and c: "current s = Some c" "idleproc s \<noteq> Some c" "initproc s = Some i" "i \<noteq> c"
    and oth: "\<And>p. p \<noteq> c \<Longrightarrow> state (procs s' p) = state (procs s p) \<and> wait_state (procs s' p) = wait_state (procs s p) \<or>
      p \<in> Q \<and> state (procs s' p) = PROC_RUNNABLE \<and> wait_state (procs s' p) = 0"
    and me: "state (procs s' c) = PROC_ZOMBIE" "wait_state (procs s' c) = 0" and g: "idleproc s' = idleproc s" "initproc s' = initproc s"
  shows "resting L (C(c := [], i := rev (C c) @ C i)) s'"
proof -
  let ?C = "C(c := [], i := rev (C c) @ C i)"
  obtain idl where ik: "idleproc s = Some idl" "state (procs s idl) = PROC_RUNNABLE" "i \<in> set (C idl)" "state (procs s i) \<noteq> PROC_ZOMBIE" "i \<noteq> idl"
    by (rule idle_and_init [OF t st]) (use c(3) in blast)
  have ci: "idl \<noteq> c" using ik(1) c(2) by auto
  have nz: "state (procs s' i) \<noteq> PROC_ZOMBIE" using oth [OF c(4)] ik(4) by auto
  have "state (procs s' p) \<noteq> PROC_UNINIT \<and> (state (procs s' p) \<noteq> PROC_SLEEPING \<longrightarrow> wait_state (procs s' p) = 0) \<and>
      (state (procs s' p) = PROC_ZOMBIE \<longrightarrow> ?C p = [])" if "p \<in> L" for p
  proof (cases "p = c")
    case True
    then show ?thesis using me c(4) by simp
  next
    case False
    show ?thesis using oth [OF False] state_rules [OF st that] nz False by auto
  qed
  moreover have "state (procs s' idl) = PROC_RUNNABLE" using oth [OF ci] ik(2) by auto
  moreover have "i \<in> set (?C idl)" using ik(3,5) ci by auto
  moreover have "idleproc s' = Some idl" "initproc s' = Some i" using g c(3) ik(1) by simp_all
  ultimately show ?thesis using nz by (simp add: resting_def)
qed

context machine_sched
begin

lemma do_exit_ok:
  assumes inv: "procs_inv ready detached L C ps s" "proc_live s = L" and c: "current s = Some c" "idleproc s \<noteq> Some c" "initproc s = Some i" "i \<noteq> c"
    and m: "leave_mm c s = Some s1" "put_files W c s1 = Some s2"
  obtains s' q where "do_exit W cls code s = Some s'" "procs_inv ready detached L (C(c := [], i := rev (C c) @ C i)) ps s'" "proc_live s' = L"
    "parent (procs s c) = Some q" "state (procs s' c) = PROC_ZOMBIE" "exit_code (procs s' c) = code" "current s' \<noteq> Some c"
    "wait_state (procs s' q) \<noteq> WT_CHILD" "wait_state (procs s q) = WT_CHILD \<Longrightarrow> state (procs s' q) = PROC_RUNNABLE"
    "(\<exists>x\<in>set (C c). state (procs s x) = PROC_ZOMBIE) \<Longrightarrow> wait_state (procs s' i) \<noteq> WT_CHILD"
proof -
  let ?C = "C(c := [], i := rev (C c) @ C i)"
  have as: "aside s s2" using aside_trans [OF leave_mm_aside [OF m(1)] put_files_aside [OF m(2)]] .
  have inv2: "procs_inv ready detached L C ps s2" using procs_inv_core [OF asideD(2) [OF as] inv(1)] .
  note a = asideD [OF as]
  have ws2: "wait_state (procs s2 p) = wait_state (procs s p)" for p using coreD(12) [OF a(2)] .
  define s3 where "s3 = set_proc c (\<lambda>x. x\<lparr>state := PROC_ZOMBIE, exit_code := code\<rparr>) s2"
  note t2 = procs_invD(1) [OF inv2] and st2 = procs_invD(2) [OF inv2]
  have i2: "initproc s2 = Some i" using c(3) a(5) by simp
  obtain idl where ik: "idleproc s2 = Some idl" "idl \<in> L" "L = insert idl (set ps)" "i \<in> set (C idl)" "i \<in> L" "state (procs s2 i) \<noteq> PROC_ZOMBIE"
    by (rule idle_and_init [OF t2 st2]) (use i2 in blast)
  have cl: "c \<in> L" "state (procs s2 c) = PROC_RUNNABLE" using st2 c(1) a(3) by (auto simp: states_ok_def)
  have ci: "c \<noteq> idl" using c(2) ik(1) a(6) by auto
  then have "c \<in> set ps" using cl(1) ik(3) by auto
  then obtain q where q: "q \<in> L" "c \<in> set (C q)" by (rule tables_parent [OF t2])
  have fam: "family s2 L C" using t2 by (simp add: tables_ok_def)
  then have pq: "parent (procs s2 c) = Some q" "q \<noteq> c" using q by (auto simp: family_def fam_ok_def)
  have ni: "i \<notin> set (C c)" using fam_disjoint [of "procs s2" L C c idl i] fam cl ik(2,4) ci by (auto simp: family_def)
  have t3: "tables_ok L C ps s3" by (rule tables_ok_cong [OF _ _ _ _ _ _ _ t2]) (simp_all add: s3_def linked_def)
  have sc3: "sched_inv ready detached L s3"
    unfolding s3_def by (rule current_state_free [OF procs_invD(3) [OF inv2]]) (use c(1) a(3) in auto)
  have p3: "parent (procs s3 c) = Some q" "initproc s3 = Some i" using pq i2 by (simp_all add: s3_def)
  have st3: "state (procs s3 p) \<noteq> PROC_ZOMBIE" "state (procs s3 p) \<noteq> PROC_SLEEPING \<Longrightarrow> wait_state (procs s3 p) = 0" if "p \<in> {q, i}" for p
    using that state_rules [OF st2, of p] q pq(2) ik(5,6) c(4) by (auto simp: s3_def)
  obtain s4 s5 where h: "hand_over cls c s3 = Some s5" "tables_ok L ?C ps s5" "sched_inv ready detached L s5" "passing q s3 s4" "passing i s4 s5"
    "wait_state (procs s4 q) \<noteq> WT_CHILD" "wait_state (procs s3 q) = WT_CHILD \<Longrightarrow> state (procs s4 q) = PROC_RUNNABLE"
    "(\<exists>x\<in>set (C c). state (procs s3 x) = PROC_ZOMBIE) \<Longrightarrow> wait_state (procs s5 i) \<noteq> WT_CHILD"
    by (rule hand_over_ok [OF t3 sc3 p3(1) q(1) pq(2) p3(2) cl(1) ik(5) c(4) [symmetric] ni]) (use st3 in blast)+
  have s5: "state (procs s5 p) = state (procs s3 p) \<and> wait_state (procs s5 p) = wait_state (procs s3 p) \<or>
      p \<in> {q, i} \<and> state (procs s5 p) = PROC_RUNNABLE \<and> wait_state (procs s5 p) = 0" for p
    using h(4,5) unfolding passing_def by (metis insertCI)
  have pass: "idleproc s5 = idleproc s3" "initproc s5 = initproc s3" "current s5 = current s3" "kernel.more s5 = kernel.more s3"
    "calm (procs s5 p) = calm (procs s3 p)" for p using h(4,5) by (simp_all add: passing_def)
  have zc: "state (procs s5 c) = PROC_ZOMBIE" using s5 [of c] pq(2) c(4) by (auto simp: s3_def)
  have rest: "resting L ?C s5"
  proof (rule exit_resting [OF t2 st2, of c i _ "{q, i}"])
    show "state (procs s5 p) = state (procs s2 p) \<and> wait_state (procs s5 p) = wait_state (procs s2 p) \<or>
      p \<in> {q, i} \<and> state (procs s5 p) = PROC_RUNNABLE \<and> wait_state (procs s5 p) = 0" if "p \<noteq> c" for p
      using s5 [of p] that by (simp add: s3_def)
    show "wait_state (procs s5 c) = 0" using s5 [of c] state_rules(2) [OF st2 cl(1)] cl(2) by (auto simp: s3_def)
  qed (use c a(3,5,6) zc pass in \<open>simp_all add: s3_def\<close>)
  have cur5: "current s5 = Some c" using pass(3) c(1) a(3) by (simp add: s3_def)
  obtain s' n where s': "schedule cls s5 = Some s'" "procs_inv ready detached L ?C ps s'" "current s' = Some n"
    "state (procs s5 c) \<noteq> PROC_RUNNABLE \<Longrightarrow> n \<noteq> c" "\<And>p. state (procs s' p) = state (procs s5 p)"
    "\<And>p. wait_state (procs s' p) = wait_state (procs s5 p)" "\<And>p. ident (procs s' p) = ident (procs s5 p)" "kernel.more s' = kernel.more s5"
    by (rule schedule_procs [OF h(2) rest h(3) cur5]) blast
  have nc: "n \<noteq> c" using s'(4) zc by simp
  have guard: "current s \<noteq> idleproc s" "current s \<noteq> initproc s" using c by auto
  have run: "do_exit W cls code s = Some s'"
    using guard c(1) m h(1) s'(1,3) nc unfolding do_exit_def by (simp add: s3_def)
  have "kernel.more s' = kernel.more s2" using s'(8) pass(4) by (simp add: s3_def)
  then have live: "proc_live s' = L" using a(1) inv(2) by (cases s'; cases s2; simp)
  have ex: "exit_code (procs s' c) = code"
    using ident_fields(8) [OF s'(7) [of c]] pass(5) [of c] by (simp add: calm_def s3_def)
  have s45: "state (procs s5 q) = state (procs s4 q) \<and> wait_state (procs s5 q) = wait_state (procs s4 q) \<or>
      state (procs s5 q) = PROC_RUNNABLE \<and> wait_state (procs s5 q) = 0" using h(5) by (auto simp: passing_def)
  have q5: "wait_state (procs s5 q) \<noteq> WT_CHILD" using s45 h(6) by (auto simp: wt_defs)
  have qr: "state (procs s5 q) = PROC_RUNNABLE" if "wait_state (procs s q) = WT_CHILD"
    using s45 h(7) that pq(2) ws2 by (auto simp: s3_def)
  have zi: "wait_state (procs s5 i) \<noteq> WT_CHILD" if z: "\<exists>x\<in>set (C c). state (procs s x) = PROC_ZOMBIE"
  proof (rule h(8))
    obtain x where "x \<in> set (C c)" "state (procs s x) = PROC_ZOMBIE" using z by blast
    then show "\<exists>x\<in>set (C c). state (procs s3 x) = PROC_ZOMBIE" using a(9) [of x] by (intro bexI [of _ x]) (simp_all add: s3_def)
  qed
  show ?thesis
    by (rule that [OF run s'(2) live, of q]) (use pq a(7) zc ex s'(3,5,6) nc q5 qr zi in auto)
qed

end

section \<open>Waiting and killing\<close>

lemma filter_eq_single: "distinct xs \<Longrightarrow> p \<in> set xs \<Longrightarrow> filter (\<lambda>x. x = p) xs = [p]"
  by (induction xs) (auto simp: filter_empty_conv)

lemma child_scan_chain:
  "chain (procs s) r y cs \<Longrightarrow> child_scan s r k = Some (k \<or> cs \<noteq> [], find (\<lambda>p. state (procs s p) = PROC_ZOMBIE) cs)"
proof (induction cs arbitrary: r y k)
  case Nil
  then show ?case by (subst child_scan.simps) simp
next
  case (Cons p cs)
  then have "child_scan s (optr (procs s p)) True = Some (True, find (\<lambda>p. state (procs s p) = PROC_ZOMBIE) cs)"
    using Cons.IH [of "optr (procs s p)" "Some p" True] by simp
  then show ?case using Cons.prems by (subst child_scan.simps) simp
qed

text \<open>The search of \<^verbatim>\<open>do_wait\<close>: with identifier 0 among all children of the current process, otherwise the one with this identifier.\<close>

definition wanted :: "int \<Rightarrow> 'a kernel_scheme \<Rightarrow> nat list \<Rightarrow> nat list" where
  "wanted i s cs = (if i = 0 then cs else filter (\<lambda>p. pid (procs s p) = i) cs)"

lemma wait_scan_ok:
  assumes t: "tables_ok L C ps s" and c: "current s = Some c" "c \<in> L"
  shows "wait_scan i s = Some (wanted i s (C c) \<noteq> [], find (\<lambda>p. state (procs s p) = PROC_ZOMBIE) (wanted i s (C c)))"
proof (cases "i = 0")
  case True
  have "chain (procs s) (cptr (procs s c)) None (C c)" using t c(2) by (auto simp: tables_ok_def family_def fam_ok_def)
  from child_scan_chain [OF this, of False] show ?thesis using True c by (simp add: wait_scan_def wanted_def)
next
  case False
  have fam: "family s L C" using t by (simp add: tables_ok_def)
  have par: "p \<in> set (C c) \<longleftrightarrow> parent (procs s p) = Some c" if pp: "p \<in> set ps" for p
  proof -
    obtain q where q: "q \<in> L" "p \<in> set (C q)" by (rule tables_parent [OF t pp])
    have "parent (procs s p) = Some x" if "x \<in> L" "p \<in> set (C x)" for x using fam that by (auto simp: family_def fam_ok_def)
    then show ?thesis using q c(2) by (metis option.inject)
  qed
  obtain B where "hash_ok s B (set ps)" using t by (auto simp: tables_ok_def)
  then obtain r where r: "find_proc i s = Some r" "\<forall>p. r = Some p \<longleftrightarrow> p \<in> set ps \<and> pid (procs s p) = i \<and> 0 < i \<and> i < MAX_PID"
    using find_proc_ok [of s B "set ps"] by metis
  have inj: "inj_on (\<lambda>p. pid (procs s p)) (set ps)" using t by (auto simp: tables_ok_def hash_ok_def)
  have d: "distinct (C c)" "set (C c) \<subseteq> set ps" using fam c(2) tables_child [OF t c(2)] by (auto simp: family_def fam_ok_def)
  show ?thesis
  proof (cases "\<exists>p\<in>set (C c). pid (procs s p) = i")
    case True
    then obtain p where p: "p \<in> set (C c)" "pid (procs s p) = i" by blast
    have pp: "p \<in> set ps" using p d by blast
    have "0 < i \<and> i < MAX_PID" using t pp p(2) by (auto simp: tables_ok_def)
    then have "r = Some p" using r(2) pp p(2) by simp
    moreover have w: "filter (\<lambda>x. pid (procs s x) = i) (C c) = [p]"
    proof -
      have "filter (\<lambda>x. pid (procs s x) = i) (C c) = filter (\<lambda>x. x = p) (C c)"
      proof (rule filter_cong [OF refl])
        fix x assume "x \<in> set (C c)"
        then have "x \<in> set ps" using d(2) by (rule subsetD [rotated])
        then show "(pid (procs s x) = i) = (x = p)" using inj_on_eq_iff [OF inj, of x p] pp p(2) by simp
      qed
      then show ?thesis using filter_eq_single [OF d(1) p(1)] by simp
    qed
    ultimately show ?thesis using False c r(1) par [OF pp] p(1) by (simp add: wait_scan_def wanted_def)
  next
    case none: False
    then have w: "filter (\<lambda>x. pid (procs s x) = i) (C c) = []" by (auto simp: filter_empty_conv)
    have "(case r of None \<Rightarrow> (False, None) | Some p \<Rightarrow> if parent (procs s p) = Some c
        then (True, if state (procs s p) = PROC_ZOMBIE then Some p else None) else (False, None)) = (False, None)"
      using r(2) none par by (cases r) auto
    then show ?thesis using False c r(1) w by (simp add: wait_scan_def wanted_def)
  qed
qed

lemma leave_tables:
  assumes t: "tables_ok L C ps s" and c: "c \<in> L" "p \<in> set (C c)" and z: "C p = []"
  obtains s' where "remove_links p (unhash_proc p s) = Some s'" "tables_ok (L - {p}) (C(c := remove1 p (C c))) (remove1 p ps) s'"
    "links_only (unhash_proc p s) s'"
proof -
  note d = t [unfolded tables_ok_def]
  have pp: "p \<in> set ps" using tables_child [OF t c(1)] c(2) by blast
  obtain idl where idl: "idleproc s = Some idl" "idl \<notin> set ps" "L = insert idl (set ps)" using d by blast
  define s1 where "s1 = unhash_proc p s"
  have s1: "procs s1 = procs s" "proc_links s1 = proc_links s" "nr_process s1 = nr_process s" "idleproc s1 = idleproc s"
    "last_pid s1 = last_pid s" "next_safe s1 = next_safe s" by (simp_all add: s1_def unhash_proc_def)
  obtain B0 where "hash_ok s B0 (set ps)" using d by blast
  note B = unhash_proc_ok [OF this pp, folded s1_def]
  have f1: "family s1 L C" using d s1(1) by (simp add: family_def)
  obtain s' where s': "remove_links p s1 = Some s'" "family s' (L - {p}) (C(c := remove1 p (C c)))"
    "proc_links s' = list_del (proc_links s1) (Elem p)" "nr_process s' = nr_process s1 - 1"
    by (rule remove_links_fam [OF f1 c])
  note lo = remove_links_only [OF s'(1)]
  note lf = links_only_fields [OF lo]
  have pd: "pid (procs s' x) = pid (procs s x)" for x
    using lo unlinked_fields(2) [of "procs s' x" "procs s1 x"] s1(1) by (simp add: links_only_def)
  have dist: "distinct ps" using ring_distinct [of "proc_links s" "Head ()" "map Elem ps"] d by simp
  then have sps: "set (remove1 p ps) = set ps - {p}" by (rule set_remove1_eq)
  obtain us vs where uv: "ps = us @ p # vs" "p \<notin> set us" using split_list_first [OF pp] by blast
  have "ring (proc_links s) (Head ()) (map Elem us @ Elem p # map Elem vs)" using d uv by simp
  from ring_list_del [OF this] have r: "ring (proc_links s') (Head ()) (map Elem (remove1 p ps))"
    using uv s'(3) s1 by (simp add: remove1_append)
  have h: "hash_ok s' (\<lambda>b. remove1 p (B0 b)) (set (remove1 p ps))" using hash_ok_cong [of s' s1 "set ps - {p}"] B lf(4) pd s1(1) sps by simp
  have w: "pid_window s' (remove1 p ps)" using d lf(5,6) s1 pd sps by (auto simp: pid_window_def pids_def)
  have n: "nr_process s' = int (length (remove1 p ps)) + 1"
    using d s'(4) s1(3) pp uv by (simp add: remove1_append)
  have u: "(\<Union>q\<in>L - {p}. set ((C(c := remove1 p (C c))) q)) = set (remove1 p ps)"
  proof -
    have fam: "family s L C" using d by blast
    then have dc: "distinct (C c)" using c by (auto simp: family_def fam_ok_def)
    have "p \<notin> set (C x)" if "x \<in> L" "x \<noteq> c" for x using fam_disjoint [of "procs s" L C x c p] fam that c by (auto simp: family_def)
    moreover have "p \<noteq> c" using fam c by (auto simp: family_def)
    ultimately have "set ((C(c := remove1 p (C c))) q) = set (C q) - {p}" if "q \<in> L" for q
      using dc that by (cases "q = c") auto
    then have "(\<Union>q\<in>L - {p}. set ((C(c := remove1 p (C c))) q)) = (\<Union>q\<in>L - {p}. set (C q) - {p})" by simp
    also have "\<dots> = (\<Union>q\<in>L. set (C q)) - {p}" using z by auto
    finally have "(\<Union>q\<in>L - {p}. set ((C(c := remove1 p (C c))) q)) = (\<Union>q\<in>L. set (C q)) - {p}" .
    then show ?thesis using d sps by simp
  qed
  have "L - {p} = insert idl (set (remove1 p ps))" "idl \<notin> set (remove1 p ps)" using idl pp sps by auto
  then have "tables_ok (L - {p}) (C(c := remove1 p (C c))) (remove1 p ps) s'"
    unfolding tables_ok_def using s'(2) r h w n u d pd sps idl(1) lf(2) s1(4) by auto
  then show ?thesis using that s'(1) lo unfolding s1_def by blast
qed

context machine_sched
begin

lemma reap_ok:
  assumes inv: "procs_inv ready detached L C ps s" "proc_live s = L" and c: "c \<in> L" "p \<in> set (C c)" "state (procs s p) = PROC_ZOMBIE" "Some p \<noteq> initproc s"
    and code: "store_code a (exit_code (procs s p)) s = Some s1" and k: "put_kstack p s1 = Some s2"
  obtains s' where "reap a p s = Some s'" "procs_inv ready detached (L - {p}) (C(c := remove1 p (C c))) (remove1 p ps) s'" "proc_live s' = L - {p}"
    "current s' = current s" "\<And>q. state (procs s' q) = state (procs s q) \<and> pid (procs s' q) = pid (procs s q)" "vm s' = vm s2"
proof -
  let ?C = "C(c := remove1 p (C c))"
  have as: "aside s s1" using code do_vm_aside by (auto simp: store_code_def elim!: bind_SomeE split: if_splits)
  have inv1: "procs_inv ready detached L C ps s1" using procs_inv_core [OF asideD(2) [OF as] inv(1)] .
  note t = procs_invD(1) [OF inv1] and st = procs_invD(2) [OF inv1] and sc = procs_invD(3) [OF inv1] and a = asideD [OF as]
  obtain idl where ik: "idleproc s1 = Some idl" "state (procs s1 idl) = PROC_RUNNABLE"
    "\<And>n. initproc s1 = Some n \<Longrightarrow> n \<in> set (C idl) \<and> n \<in> L \<and> n \<noteq> idl \<and> state (procs s1 n) \<noteq> PROC_ZOMBIE" by (rule idle_and_init [OF t st]) blast
  have z: "state (procs s1 p) = PROC_ZOMBIE" using c(3) a(9) by simp
  have pL: "p \<in> L" using t c by (auto simp: tables_ok_def family_def)
  have Cp: "C p = []" using state_rules(3) [OF st pL z] .
  have pn: "p \<noteq> idl" using ik z by auto
  have nid: "Some p \<noteq> idleproc s" using pn ik(1) a(6) by simp
  obtain s3 where s3: "remove_links p (unhash_proc p s1) = Some s3" "tables_ok (L - {p}) ?C (remove1 p ps) s3" "links_only (unhash_proc p s1) s3"
    by (rule leave_tables [OF t c(1,2) Cp])
  note lf = links_only_fields [OF s3(3)]
  have un: "unlinked (procs s3 x) = unlinked (procs s1 x)" for x using s3(3) by (simp add: links_only_def unhash_proc_def)
  note uf = unlinked_fields [OF un]
  have g: "current s3 = current s1" "idleproc s3 = idleproc s1" "initproc s3 = initproc s1" "kernel.more s3 = kernel.more s1"
    using lf by (simp_all add: unhash_proc_def)
  have v: "sched_view s3 = sched_view s1" using links_only_view [OF s3(3)] by (simp add: sched_view_def unhash_proc_def)
  obtain cur where cur: "current s1 = Some cur" "cur \<in> L" "state (procs s1 cur) = PROC_RUNNABLE" using st by (auto simp: states_ok_def)
  have w: "waiting_cpu (L - {p}) s3 = waiting_cpu L s1" using z uf(1) g by (auto simp: waiting_cpu_def)
  have "sched_inv ready detached (L - {p}) s3"
    using sc g cur z ik pn ready_view [OF v] detached_view [OF v] unfolding sched_inv_def w by auto
  moreover have "states_ok (L - {p}) ?C s3"
  proof (rule states_okI [of _ _ _ cur idl])
    show "?C q = []" if "q \<in> L - {p}" "state (procs s3 q) = PROC_ZOMBIE" for q
      using state_rules(3) [OF st, of q] that uf(1) by auto
    show "n \<in> set (?C idl) \<and> state (procs s3 n) \<noteq> PROC_ZOMBIE" if n: "initproc s3 = Some n" for n
    proof -
      have k: "n \<in> set (C idl)" "n \<noteq> p" using ik(3) [of n] n g(3) z by auto
      then show ?thesis using ik(3) [of n] n g(3) uf(1) by (cases "idl = c") auto
    qed
  qed (use cur ik g z uf(1,3) state_rules [OF st] in auto)
  ultimately have i3: "procs_inv ready detached (L - {p}) ?C (remove1 p ps) s3" using s3(2) by (simp add: procs_inv_def)
  have m: "vm s3 = vm s1" "proc_live s3 = proc_live s1" using g(4) by (cases s3; cases s1; simp)+
  obtain pg m' where pg: "kva2page (kstack (procs s1 p)) (vm s1) = Some pg" "free_pages pg KSTACKPAGE (vm s1) = Some m'" "vm s2 = m'"
    using k by (auto simp: put_kstack_def do_vm_def elim!: bind_SomeE)
  have k3: "put_kstack p s3 = Some (s3\<lparr>vm := m'\<rparr>)" using pg m uf(8) by (simp add: put_kstack_def do_vm_def)
  define s' where "s' = kfree_proc p (s3\<lparr>vm := m'\<rparr>)"
  have "reap a p s = Some s'" using nid c(4) code s3(1) k3 by (simp add: reap_def s'_def)
  moreover have "core s' = core s3" by (simp add: s'_def kfree_proc_def)
  then have "procs_inv ready detached (L - {p}) ?C (remove1 p ps) s'" using procs_inv_core i3 by blast
  moreover have "proc_live s' = L - {p}" using m(2) a(1) inv(2) by (simp add: s'_def kfree_proc_def)
  moreover have "current s' = current s" using g(1) a(3) by (simp add: s'_def kfree_proc_def)
  moreover have "state (procs s' q) = state (procs s q) \<and> pid (procs s' q) = pid (procs s q)" for q
    using uf(1,2) [of q] a(9,11) [of q] by (simp add: s'_def kfree_proc_def)
  moreover have "vm s' = vm s2" using pg(3) by (simp add: s'_def kfree_proc_def)
  ultimately show ?thesis using that by blast
qed

end

end
