(* ===== verification/Process_Life.thy ===== *)
theory Process_Life
  imports Process_Inv
begin

text \<open>
  The life of a process as a whole: what \<^verbatim>\<open>do_fork\<close>, \<^verbatim>\<open>do_exit\<close>, \<^verbatim>\<open>do_wait\<close> and \<^verbatim>\<open>do_kill\<close> do to the families, the run queue and the
  states, that every sequence of these calls keeps the invariant of \<open>Process_Inv\<close>, and the theorems for the round-robin
  class.
\<close>

lemma wanted_children: "set (wanted i s cs) \<subseteq> set cs"
  by (auto simp: wanted_def)

context machine_sched
begin

text \<open>Rounds of waiting.\<close>

lemma wait_round_ok:
  assumes inv: "procs_inv ready detached L C ps s" "proc_live s = L" and c: "current s = Some c" "idleproc s \<noteq> Some c"
    and z: "find (\<lambda>p. state (procs s p) = PROC_ZOMBIE) (wanted i s (C c)) = r"
  shows "r = None \<Longrightarrow> wanted i s (C c) = [] \<Longrightarrow> wait_round cls i a s = Some (Returned (- E_BAD_PROC), s)"
    "r = None \<Longrightarrow> wanted i s (C c) \<noteq> [] \<Longrightarrow> \<exists>s' n. wait_round cls i a s = Some (Asleep, s') \<and> procs_inv ready detached L C ps s' \<and>
       proc_live s' = L \<and> current s' = Some n \<and> n \<noteq> c \<and> state (procs s' c) = PROC_SLEEPING \<and> wait_state (procs s' c) = WT_CHILD"
    "r = Some p \<Longrightarrow> reap a p s = Some s1 \<Longrightarrow> wait_round cls i a s = Some (Returned 0, s1)"
proof -
  note t = procs_invD(1) [OF inv(1)] and st = procs_invD(2) [OF inv(1)]
  have cl: "c \<in> L" using st c(1) by (auto simp: states_ok_def)
  have scan: "wait_scan i s = Some (wanted i s (C c) \<noteq> [], r)" using wait_scan_ok [OF t c(1) cl, of i] z by simp
  show "r = None \<Longrightarrow> wanted i s (C c) = [] \<Longrightarrow> wait_round cls i a s = Some (Returned (- E_BAD_PROC), s)"
    using scan c(1) by (simp add: wait_round_def)
  show "r = Some p \<Longrightarrow> reap a p s = Some s1 \<Longrightarrow> wait_round cls i a s = Some (Returned 0, s1)"
    using scan c(1) by (simp add: wait_round_def)
  assume "r = None" "wanted i s (C c) \<noteq> []"
  obtain s' n where s': "schedule cls (set_proc c (\<lambda>x. x\<lparr>state := PROC_SLEEPING, wait_state := WT_CHILD\<rparr>) s) = Some s'"
    "procs_inv ready detached L C ps s'" "current s' = Some n" "n \<noteq> c" "state (procs s' c) = PROC_SLEEPING" "wait_state (procs s' c) = WT_CHILD"
    "kernel.more s' = kernel.more s" by (rule sleep_current [OF inv(1) c]) blast
  have "proc_live s' = L" using s'(7) inv(2) by (cases s'; cases s; simp)
  moreover have "wait_round cls i a s = Some (Asleep, s')"
    using scan c(1) \<open>r = None\<close> \<open>wanted i s (C c) \<noteq> []\<close> s'(1) by (simp add: wait_round_def)
  ultimately show "\<exists>s' n. wait_round cls i a s = Some (Asleep, s') \<and> procs_inv ready detached L C ps s' \<and>
       proc_live s' = L \<and> current s' = Some n \<and> n \<noteq> c \<and> state (procs s' c) = PROC_SLEEPING \<and> wait_state (procs s' c) = WT_CHILD"
    using s' by blast
qed

text \<open>A reaped child: the stack it gives back is the one it had before the tables changed.\<close>

lemma reap_inversion:
  assumes "reap a p s = Some s'"
  obtains s1 s2 where "store_code a (exit_code (procs s p)) s = Some s1" "put_kstack p s1 = Some s2" "Some p \<noteq> initproc s"
proof -
  obtain s1 s3 s4 where s: "store_code a (exit_code (procs s p)) s = Some s1" "remove_links p (unhash_proc p s1) = Some s3" "put_kstack p s3 = Some s4"
    "Some p \<noteq> initproc s"
    using assms by (auto simp: reap_def elim!: bind_SomeE split: if_split_asm)
  have lo: "links_only (unhash_proc p s1) s3" by (rule remove_links_only [OF s(2)])
  have "kernel.more s3 = kernel.more s1" using links_only_fields(7) [OF lo] by (simp add: unhash_proc_def)
  then have v: "vm s3 = vm s1" by (cases s3; cases s1; simp)
  have "kstack (procs s3 p) = kstack (procs s1 p)"
    using lo unlinked_fields(8) [of "procs s3 p" "procs s1 p"] by (simp add: links_only_def unhash_proc_def)
  then have "\<exists>t. put_kstack p s1 = Some t" using s(3) v by (auto simp: put_kstack_def do_vm_def elim!: bind_SomeE)
  then show ?thesis using that s by blast
qed

text \<open>Whatever a round of \<^verbatim>\<open>do_wait\<close> returns, the invariant holds for the processes that are left.\<close>

lemma wait_round_keeps:
  assumes inv: "procs_inv ready detached L C ps s" "proc_live s = L" and c: "current s = Some c" "idleproc s \<noteq> Some c"
    and run: "wait_round cls i a s = Some (r, s')"
  shows "\<exists>L C ps. procs_inv ready detached L C ps s' \<and> proc_live s' = L"
proof (cases "find (\<lambda>p. state (procs s p) = PROC_ZOMBIE) (wanted i s (C c))")
  case None
  show ?thesis
  proof (cases "wanted i s (C c) = []")
    case True
    have "s' = s" using wait_round_ok(1) [OF inv c None refl True] run by simp
    then show ?thesis using inv by blast
  next
    case False
    then obtain t where "wait_round cls i a s = Some (Asleep, t)" "procs_inv ready detached L C ps t" "proc_live t = L"
      using wait_round_ok(2) [OF inv c None refl] by blast
    then show ?thesis using run by auto
  qed
next
  case (Some p)
  note t = procs_invD(1) [OF inv(1)] and st = procs_invD(2) [OF inv(1)]
  have cl: "c \<in> L" using st c(1) by (auto simp: states_ok_def)
  have p: "p \<in> set (C c)" "state (procs s p) = PROC_ZOMBIE" using find_mem [OF Some] wanted_children by blast+
  have scan: "wait_scan i s = Some (wanted i s (C c) \<noteq> [], Some p)" using wait_scan_ok [OF t c(1) cl, of i] Some by simp
  then have r: "reap a p s = Some s'" using run c(1) by (auto simp: wait_round_def elim!: bind_SomeE)
  then obtain s1 s2 where k: "store_code a (exit_code (procs s p)) s = Some s1" "put_kstack p s1 = Some s2" "Some p \<noteq> initproc s"
    by (rule reap_inversion)
  obtain s5 where "reap a p s = Some s5" "procs_inv ready detached (L - {p}) (C(c := remove1 p (C c))) (remove1 p ps) s5" "proc_live s5 = L - {p}"
    by (rule reap_ok [OF inv cl p k(3,1,2)])
  then show ?thesis using r by auto
qed

text \<open>Killing.\<close>

lemma wakeup_keeps:
  assumes inv: "procs_inv ready detached L C ps s" and p: "p \<in> L" "state (procs s p) = PROC_SLEEPING"
  obtains s' where "wakeup_proc cls p s = Some s'" "procs_inv ready detached L C ps s'" "state (procs s' p) = PROC_RUNNABLE"
    "ident (procs s' p) = ident (procs s p)" "kernel.more s' = kernel.more s" "current s' = current s"
proof -
  note t = procs_invD(1) [OF inv] and st = procs_invD(2) [OF inv]
  obtain s' where s': "wakeup_proc cls p s = Some s'" "sched_inv ready detached L s'" "state (procs s' p) = PROC_RUNNABLE"
    by (rule wakeup_inv [OF procs_invD(3) [OF inv] p(1)]) (use p(2) in auto)
  note wf = wakeup_frame [OF s'(1)]
  have fr: "current s' = current s" "idleproc s' = idleproc s" "initproc s' = initproc s" "kernel.more s' = kernel.more s"
    using wf(1,2) by (simp_all add: sched_frame_def)
  obtain j where jk: "idleproc s = Some j" "state (procs s j) = PROC_RUNNABLE"
    "\<And>k. initproc s = Some k \<Longrightarrow> k \<in> set (C j) \<and> k \<in> L \<and> k \<noteq> j \<and> state (procs s k) \<noteq> PROC_ZOMBIE" by (rule idle_and_init [OF t st]) blast
  obtain c where c: "current s = Some c" "c \<in> L" "state (procs s c) = PROC_RUNNABLE" using st by (auto simp: states_ok_def)
  have oth: "state (procs s' q) = state (procs s q)" "wait_state (procs s' q) = wait_state (procs s q)" if "q \<noteq> p" for q
    using bare_eq_fields(1,3) [OF wf(3) [OF that]] by simp_all
  have me: "state (procs s' p) = PROC_RUNNABLE" "wait_state (procs s' p) = 0" using wf(4) p(2) by simp_all
  have "state (procs s' q) \<noteq> PROC_UNINIT \<and> (state (procs s' q) \<noteq> PROC_SLEEPING \<longrightarrow> wait_state (procs s' q) = 0) \<and>
      (state (procs s' q) = PROC_ZOMBIE \<longrightarrow> C q = [])" if "q \<in> L" for q
    using oth [of q] me state_rules [OF st that] by (cases "q = p") auto
  moreover have "state (procs s' j) = PROC_RUNNABLE" using oth(1) [of j] me jk(2) by (cases "j = p") auto
  moreover have "state (procs s' c) = PROC_RUNNABLE" using oth(1) [of c] me c(3) by (cases "c = p") auto
  moreover have "state (procs s' k) \<noteq> PROC_ZOMBIE" if "initproc s = Some k" for k using oth(1) [of k] me jk(3) [OF that] by (cases "k = p") auto
  ultimately have "states_ok L C s'" using fr jk c by (intro states_okI [of _ _ _ c j]) auto
  then have "procs_inv ready detached L C ps s'" using s'(2) tables_ok_sched [OF wf(1,6) t] by (simp add: procs_inv_def)
  then show ?thesis using that s'(1,3) wf(6) fr by blast
qed

lemma do_kill_ok:
  assumes inv: "procs_inv ready detached L C ps s" "proc_live s = L"
  shows "(\<forall>p\<in>set ps. pid (procs s p) \<noteq> i) \<Longrightarrow> do_kill cls i s = Some (- E_INVAL, s)"
    "p \<in> set ps \<Longrightarrow> pid (procs s p) = i \<Longrightarrow> pflags (procs s p) AND PF_EXITING \<noteq> 0 \<Longrightarrow> do_kill cls i s = Some (- E_KILLED, s)"
    "p \<in> set ps \<Longrightarrow> pid (procs s p) = i \<Longrightarrow> pflags (procs s p) AND PF_EXITING = 0 \<Longrightarrow>
      \<exists>s'. do_kill cls i s = Some (0, s') \<and> procs_inv ready detached L C ps s' \<and> proc_live s' = L \<and> pflags (procs s' p) AND PF_EXITING \<noteq> 0 \<and>
        (wait_state (procs s p) AND WT_INTERRUPTED \<noteq> 0 \<longrightarrow> state (procs s' p) = PROC_RUNNABLE)"
proof -
  note t = procs_invD(1) [OF inv(1)] and st = procs_invD(2) [OF inv(1)] and sc = procs_invD(3) [OF inv(1)]
  obtain B where B: "hash_ok s B (set ps)" using t by (auto simp: tables_ok_def)
  obtain r where r: "find_proc i s = Some r" "\<forall>p. r = Some p \<longleftrightarrow> p \<in> set ps \<and> pid (procs s p) = i \<and> 0 < i \<and> i < MAX_PID"
    by (rule find_proc_ok [OF B, of i])
  have rng: "0 < pid (procs s p) \<and> pid (procs s p) < MAX_PID" if "p \<in> set ps" for p using t that by (auto simp: tables_ok_def)
  have some: "r = Some p" if "p \<in> set ps" "pid (procs s p) = i" for p using r(2) rng [OF that(1)] that by auto
  show "(\<forall>p\<in>set ps. pid (procs s p) \<noteq> i) \<Longrightarrow> do_kill cls i s = Some (- E_INVAL, s)"
    using r by (cases r) (auto simp: do_kill_def)
  show "p \<in> set ps \<Longrightarrow> pid (procs s p) = i \<Longrightarrow> pflags (procs s p) AND PF_EXITING \<noteq> 0 \<Longrightarrow> do_kill cls i s = Some (- E_KILLED, s)"
    using some r(1) by (simp add: do_kill_def)
  assume p: "p \<in> set ps" "pid (procs s p) = i" "pflags (procs s p) AND PF_EXITING = 0"
  have pL: "p \<in> L" using p(1) tables_ok_subset [OF t] by blast
  define s1 where "s1 = set_proc p (\<lambda>x. x\<lparr>pflags := pflags x OR PF_EXITING\<rparr>) s"
  have c1: "core s1 = core s" unfolding s1_def by (rule core_set_proc) (simp add: linked_def)
  have i1: "procs_inv ready detached L C ps s1" by (rule procs_inv_core [OF c1 inv(1)])
  have "(x OR PF_EXITING) AND PF_EXITING = PF_EXITING" for x by (simp add: bit_eq_iff bit_simps)
  then have f1: "pflags (procs s1 p) AND PF_EXITING \<noteq> 0" by (simp add: s1_def PF_EXITING_def)
  have l1: "proc_live s1 = L" using inv(2) by (simp add: s1_def)
  have w1: "wait_state (procs s1 p) = wait_state (procs s p)" "state (procs s1 p) = state (procs s p)" by (simp_all add: s1_def)
  show "\<exists>s'. do_kill cls i s = Some (0, s') \<and> procs_inv ready detached L C ps s' \<and> proc_live s' = L \<and> pflags (procs s' p) AND PF_EXITING \<noteq> 0 \<and>
        (wait_state (procs s p) AND WT_INTERRUPTED \<noteq> 0 \<longrightarrow> state (procs s' p) = PROC_RUNNABLE)"
  proof (cases "wait_state (procs s p) AND WT_INTERRUPTED \<noteq> 0")
    case False
    then have "do_kill cls i s = Some (0, s1)" using some [OF p(1,2)] r(1) p(3) w1 by (simp add: do_kill_def s1_def)
    then show ?thesis using i1 l1 f1 False by blast
  next
    case True
    then have sl: "state (procs s1 p) = PROC_SLEEPING" using state_rules(2) [OF st pL] w1(2) by (cases "state (procs s p) = PROC_SLEEPING") auto
    obtain s' where s': "wakeup_proc cls p s1 = Some s'" "procs_inv ready detached L C ps s'" "state (procs s' p) = PROC_RUNNABLE"
      "ident (procs s' p) = ident (procs s1 p)" "kernel.more s' = kernel.more s1"
      by (rule wakeup_keeps [OF i1 pL sl])
    have "do_kill cls i s = Some (0, s')" using some [OF p(1,2)] r(1) p(3) w1 True s'(1) by (simp add: do_kill_def s1_def)
    moreover have "pflags (procs s' p) AND PF_EXITING \<noteq> 0" using f1 ident_fields(9) [OF s'(4)] by simp
    moreover have "proc_live s' = L" using s'(5) l1 by (cases s'; cases s1; simp)
    ultimately show ?thesis using s'(2,3) by blast
  qed
qed

end


section \<open>Every sequence of calls\<close>

text \<open>
  One call of the process interface, in whatever order the processes make them: the calls that only a process other than the
  idle one makes (\<^verbatim>\<open>cpu_idle\<close> makes none of them) have that as a condition; a wake-up, by a timer, a semaphore or a device, is
  of a process that exists; \<open>Elsewhere\<close> is any work of the memory and file components.
\<close>

inductive life_step ::
  "'f vfs_scheme world \<Rightarrow> env \<Rightarrow> ('f, 'b) machine_scheme sched_class \<Rightarrow> ('f, 'b) machine_scheme \<Rightarrow> ('f, 'b) machine_scheme \<Rightarrow> bool"
  for W E cls where
  Fork: "do_fork W E cls fl stack t s = Some (r, s') \<Longrightarrow> life_step W E cls s s'"
| Exit: "do_exit W cls code s = Some s' \<Longrightarrow> life_step W E cls s s'"
| Wait: "current s \<noteq> idleproc s \<Longrightarrow> do_wait cls i a s = Some (w, s') \<Longrightarrow> life_step W E cls s s'"
| Wait_Resume: "current s \<noteq> idleproc s \<Longrightarrow> do_wait_resume W cls i a s = Some (w, s') \<Longrightarrow> life_step W E cls s s'"
| Kill: "do_kill cls i s = Some (r, s') \<Longrightarrow> life_step W E cls s s'"
| Yield: "do_yield s = Some (r, s') \<Longrightarrow> life_step W E cls s s'"
| Sleep: "current s \<noteq> idleproc s \<Longrightarrow> do_sleep cls t n s = Some (w, s') \<Longrightarrow> life_step W E cls s s'"
| Sleep_Resume: "do_sleep_resume t s = (r, s') \<Longrightarrow> life_step W E cls s s'"
| Priority: "lab6_set_priority n s = Some s' \<Longrightarrow> life_step W E cls s s'"
| Schedule: "schedule cls s = Some s' \<Longrightarrow> life_step W E cls s s'"
| Tick: "current s = Some c \<Longrightarrow> life_step W E cls s (sched_class_proc_tick cls c s)"
| Wakeup: "p \<in> proc_live s \<Longrightarrow> wakeup_proc cls p s = Some s' \<Longrightarrow> life_step W E cls s s'"
| Elsewhere: "life_step W E cls s (s\<lparr>vm := v, fsys := f, tframes := g\<rparr>)"

inductive_cases life_stepE: "life_step W E cls s s'"

abbreviation life_steps where
  "life_steps W E cls \<equiv> (life_step W E cls)\<^sup>*\<^sup>*"

text \<open>The processes are in order: for some families and some global list the invariant holds, and the process records in use are
  those of the processes.\<close>

definition procs_ok ::
  "(('f, 'b) machine_scheme \<Rightarrow> nat set \<Rightarrow> bool) \<Rightarrow> (('f, 'b) machine_scheme \<Rightarrow> nat \<Rightarrow> bool) \<Rightarrow> ('f, 'b) machine_scheme \<Rightarrow> bool" where
  "procs_ok ready detached s \<longleftrightarrow> (\<exists>C ps. procs_inv ready detached (proc_live s) C ps s)"

lemma procs_okI: "procs_inv ready detached L C ps s \<Longrightarrow> proc_live s = L \<Longrightarrow> procs_ok ready detached s"
  by (auto simp: procs_ok_def)

lemma procs_okE:
  assumes "procs_ok ready detached s"
  obtains L C ps where "procs_inv ready detached L C ps s" "proc_live s = L"
  using assms by (auto simp: procs_ok_def)

lemma more_proc_live: "kernel.more s' = kernel.more s \<Longrightarrow> proc_live s' = proc_live s"
  by (cases s; cases s'; simp)

text \<open>Timers are beside the processes.\<close>

lemma add_timer_loop_only:
  assumes "add_timer_loop t le s = Some (l, s')"
  shows "\<exists>tm. s' = s\<lparr>timers := tm\<rparr>"
proof -
  have "\<exists>tm. snd r = s\<lparr>timers := tm\<rparr>" if "add_timer_loop t le s = Some r" for r
  proof (rule add_timer_loop.raw_induct [of "\<lambda>t le s r. \<exists>tm. snd r = s\<lparr>timers := tm\<rparr>", OF _ that])
    fix f t le r and s :: "'a kernel_scheme"
    assume ih: "\<And>t le s y. f t le s = Some y \<Longrightarrow> \<exists>tm. snd y = s\<lparr>timers := tm\<rparr>"
      and r: "(case le of Head x \<Rightarrow> Some (le, s)
        | Elem n \<Rightarrow>
            if expires (timers s t) < expires (timers s n)
            then Some (le, set_timer n (\<lambda>x. x\<lparr>expires := expires x - expires (timers s t)\<rparr>) s)
            else f t (list_next (timer_links s) le) (set_timer t (\<lambda>x. x\<lparr>expires := expires x - expires (timers s n)\<rparr>) s)) = Some r"
    show "\<exists>tm. snd r = s\<lparr>timers := tm\<rparr>"
    proof (cases le)
      case (Head x)
      then show ?thesis using r by (auto intro: exI [of _ "timers s"])
    next
      case (Elem n)
      show ?thesis
      proof (cases "expires (timers s t) < expires (timers s n)")
        case True
        then have "r = (le, set_timer n (\<lambda>x. x\<lparr>expires := expires x - expires (timers s t)\<rparr>) s)" using r Elem by simp
        then show ?thesis by (simp add: set_timer_def) blast
      next
        case False
        then have "f t (list_next (timer_links s) le) (set_timer t (\<lambda>x. x\<lparr>expires := expires x - expires (timers s n)\<rparr>) s) = Some r"
          using r Elem by simp
        from ih [OF this] show ?thesis by (simp add: set_timer_def)
      qed
    qed
  qed
  then show ?thesis using assms by fastforce
qed

lemma add_timer_only:
  assumes "add_timer t s = Some s'"
  shows "\<exists>tm tl. s' = s\<lparr>timers := tm, timer_links := tl\<rparr>"
proof -
  obtain l s1 where l: "add_timer_loop t (list_next (timer_links s) (Head ())) s = Some (l, s1)" "s' = s1\<lparr>timer_links := list_add_before (timer_links s1) l (Elem t)\<rparr>"
    using assms by (auto simp: add_timer_def elim!: bind_SomeE split: if_splits)
  show ?thesis using add_timer_loop_only [OF l(1)] l(2) by auto
qed

lemma del_timer_core: "core (del_timer t s) = core s" "kernel.more (del_timer t s) = kernel.more s"
  by (cases "list_next (timer_links s) (Elem t)"; simp add: del_timer_def set_timer_def core_def sched_view_def Let_def)+

context machine_sched
begin

lemma aside_ok: "aside s s' \<Longrightarrow> procs_ok ready detached s \<Longrightarrow> procs_ok ready detached s'"
  unfolding procs_ok_def aside_def using procs_inv_core by fastforce

lemma hand_over_init:
  assumes "hand_over cls c s = Some s'"
  shows "\<exists>i. initproc s = Some i"
proof -
  obtain q s1 i where "(if wait_state (procs s q) = WT_CHILD then wakeup_proc cls q s else Some s) = Some s1" "initproc s1 = Some i"
    using assms by (auto simp: hand_over_def elim!: bind_SomeE)
  then show ?thesis using wakeup_frame(1) [of q s s1] by (auto simp: sched_frame_def split: if_split_asm intro: exI [of _ i])
qed

lemma exit_keeps:
  assumes "procs_ok ready detached s" and run: "do_exit W cls code s = Some s'"
  shows "procs_ok ready detached s'"
proof -
  obtain L C ps where inv: "procs_inv ready detached L C ps s" "proc_live s = L" using assms(1) by (rule procs_okE)
  obtain c s1 s2 s3 where c: "current s = Some c" "idleproc s \<noteq> Some c" "initproc s \<noteq> Some c"
    and r: "leave_mm c s = Some s1" "put_files W c s1 = Some s2" and h: "hand_over cls c (set_proc c (\<lambda>x. x\<lparr>state := PROC_ZOMBIE, exit_code := code\<rparr>) s2) = Some s3"
    using run by (auto simp: do_exit_def elim!: bind_SomeE split: if_splits)
  have "aside s s2" using aside_trans [OF leave_mm_aside [OF r(1)] put_files_aside [OF r(2)]] .
  note a = asideD [OF this]
  obtain i where i: "initproc s = Some i" using hand_over_init [OF h] a(5) by auto
  then have "i \<noteq> c" using c(3) by auto
  then obtain s5 where "do_exit W cls code s = Some s5" "procs_inv ready detached L (C(c := [], i := rev (C c) @ C i)) ps s5" "proc_live s5 = L"
    by (rule do_exit_ok [OF inv c(1,2) i _ r]) blast
  then show ?thesis using run procs_okI by fastforce
qed

lemma wait_keeps:
  assumes "procs_ok ready detached s" "current s \<noteq> idleproc s" and run: "wait_round cls i a s = Some (r, s')"
  shows "procs_ok ready detached s'"
proof -
  obtain L C ps where inv: "procs_inv ready detached L C ps s" "proc_live s = L" using assms(1) by (rule procs_okE)
  obtain c where c: "current s = Some c" using run by (auto simp: wait_round_def elim!: bind_SomeE)
  then have "idleproc s \<noteq> Some c" using assms(2) by auto
  then show ?thesis using wait_round_keeps [OF inv c _ run] procs_okI by blast
qed

lemma do_wait_keeps:
  assumes ok: "procs_ok ready detached s" and c: "current s \<noteq> idleproc s" and run: "do_wait cls i a s = Some (r, s')"
  shows "procs_ok ready detached s'"
proof -
  obtain p b s1 where "current s = Some p"
    and m: "(if a \<noteq> 0 then on_vm (user_mem_check (mm (procs s p)) a 4 True) s else Some (True, s)) = Some (b, s1)"
    and g: "(if \<not> b then Some (Returned (- E_INVAL), s1) else wait_round cls i a s1) = Some (r, s')"
    using run by (auto simp: do_wait_def elim!: bind_SomeE)
  have as: "aside s s1" using m on_vm_aside by (auto split: if_split_asm)
  have "current s1 \<noteq> idleproc s1" using asideD [OF as] c by simp
  then show ?thesis using g wait_keeps [OF aside_ok [OF as ok]] aside_ok [OF as ok] by (auto split: if_split_asm)
qed

lemma do_kill_keeps:
  assumes "procs_ok ready detached s" and run: "do_kill cls i s = Some (r, s')"
  shows "procs_ok ready detached s'"
proof -
  obtain L C ps where inv: "procs_inv ready detached L C ps s" "proc_live s = L" using assms(1) by (rule procs_okE)
  note k = do_kill_ok [OF inv, where i = i]
  show ?thesis
  proof (cases "\<exists>p\<in>set ps. pid (procs s p) = i")
    case False
    then have "s' = s" using k(1) run by auto
    then show ?thesis using assms(1) by simp
  next
    case True
    then obtain p where p: "p \<in> set ps" "pid (procs s p) = i" by blast
    show ?thesis
    proof (cases "pflags (procs s p) AND PF_EXITING = 0")
      case False
      then have "s' = s" using k(2) [OF p] run by auto
      then show ?thesis using assms(1) by simp
    next
      case True
      then obtain t where "do_kill cls i s = Some (0, t)" "procs_inv ready detached L C ps t" "proc_live t = L" using k(3) [OF p] by blast
      then show ?thesis using run procs_okI [of ready detached L C ps t] by simp
    qed
  qed
qed

lemma sleep_keeps:
  assumes "procs_ok ready detached s" "current s \<noteq> idleproc s" and run: "do_sleep cls t n s = Some (r, s')"
  shows "procs_ok ready detached s'"
proof (cases "n = 0")
  case True
  then show ?thesis using run assms(1) by (simp add: do_sleep_def)
next
  case False
  obtain L C ps where inv: "procs_inv ready detached L C ps s" "proc_live s = L" using assms(1) by (rule procs_okE)
  obtain c s1 where c: "current s = Some c"
    and a: "add_timer t (set_proc c (\<lambda>x. x\<lparr>state := PROC_SLEEPING, wait_state := WT_TIMER\<rparr>) (timer_init t (Some c) (int n) s)) = Some s1"
    and g: "schedule cls s1 = Some s'"
    using run False by (auto simp: do_sleep_def elim!: bind_SomeE)
  obtain tm tl where s1: "s1 = (set_proc c (\<lambda>x. x\<lparr>state := PROC_SLEEPING, wait_state := WT_TIMER\<rparr>) s)\<lparr>timers := tm, timer_links := tl\<rparr>"
    using add_timer_only [OF a] by (auto simp: timer_init_def set_timer_def set_proc_def)
  define s0 where "s0 = s\<lparr>timers := tm, timer_links := tl\<rparr>"
  have e: "s1 = set_proc c (\<lambda>x. x\<lparr>state := PROC_SLEEPING, wait_state := WT_TIMER\<rparr>) s0" unfolding s1 s0_def by (cases s) (simp add: set_proc_def)
  have "core s0 = core s" by (simp add: s0_def core_def sched_view_def)
  then have i0: "procs_inv ready detached L C ps s0" using procs_inv_core inv(1) by blast
  have c0: "current s0 = Some c" "idleproc s0 \<noteq> Some c" using c assms(2) by (auto simp: s0_def)
  obtain s2 where "schedule cls (set_proc c (\<lambda>x. x\<lparr>state := PROC_SLEEPING, wait_state := WT_TIMER\<rparr>) s0) = Some s2"
    "procs_inv ready detached L C ps s2" "kernel.more s2 = kernel.more s0"
    by (rule sleep_current [OF i0 c0]) blast
  moreover from this have "proc_live s2 = L" using more_proc_live [of s2 s0] inv(2) by (simp add: s0_def)
  ultimately show ?thesis using g e procs_okI by fastforce
qed

end

context machine_sched
begin

lemma fork_keeps:
  assumes "procs_ok ready detached s" and fresh: "\<forall>X p. km_proc E X = Some p \<longrightarrow> p \<notin> X" and run: "do_fork W E cls fl stack t s = Some (r, s')"
  shows "procs_ok ready detached s'"
proof -
  obtain L C ps where inv: "procs_inv ready detached L C ps s" "proc_live s = L" using assms(1) by (rule procs_okE)
  obtain c where c: "current s = Some c" using procs_invD(2) [OF inv(1)] by (auto simp: states_ok_def)
  have f: "forked L C ps c r s'" by (rule do_fork_cases [OF inv c fresh run])
  then show ?thesis unfolding forked_def using procs_okI [of ready detached _ _ _ s'] by blast
qed

lemma schedule_keeps:
  assumes "procs_ok ready detached s"
  shows "\<exists>s'. schedule cls s = Some s' \<and> procs_ok ready detached s'"
proof -
  obtain L C ps where inv: "procs_inv ready detached L C ps s" "proc_live s = L" using assms(1) by (rule procs_okE)
  note st = procs_invD(2) [OF inv(1)]
  obtain c where c: "current s = Some c" using st by (auto simp: states_ok_def)
  have "resting L C s" using st by (simp add: states_ok_resting)
  then obtain s' where s': "schedule cls s = Some s'" "procs_inv ready detached L C ps s'" "kernel.more s' = kernel.more s"
    by (rule schedule_procs [OF procs_invD(1) [OF inv(1)] _ procs_invD(3) [OF inv(1)] c]) blast
  have "proc_live s' = L" using more_proc_live [OF s'(3)] inv(2) by simp
  then show ?thesis using s' procs_okI by blast
qed

lemma wakeup_step_keeps:
  assumes ok: "procs_ok ready detached s" and p: "p \<in> proc_live s" and run: "wakeup_proc cls p s = Some s'"
  shows "procs_ok ready detached s'"
proof -
  obtain L C ps where inv: "procs_inv ready detached L C ps s" "proc_live s = L" using ok by (rule procs_okE)
  have pL: "p \<in> L" using p inv(2) by simp
  show ?thesis
  proof (cases "state (procs s p)")
    case PROC_SLEEPING
    obtain t where "wakeup_proc cls p s = Some t" "procs_inv ready detached L C ps t" "kernel.more t = kernel.more s"
      by (rule wakeup_keeps [OF inv(1) pL PROC_SLEEPING]) blast
    then show ?thesis using run inv(2) more_proc_live [of t s] procs_okI [of ready detached L C ps t] by simp
  next
    case PROC_UNINIT
    then show ?thesis using state_rules(1) [OF procs_invD(2) [OF inv(1)] pL] by simp
  next
    case PROC_RUNNABLE
    then show ?thesis using wakeup_frame(5) [OF run] ok by simp
  next
    case PROC_ZOMBIE
    then show ?thesis using run by (simp add: wakeup_proc_def)
  qed
qed

text \<open>A step that changes only what the class keeps for itself.\<close>

lemma class_only_keeps:
  assumes ok: "procs_ok ready detached s" and l: "proc_live s' = proc_live s" and f: "sched_frame s s'" "current s' = current s"
    and p: "\<And>p. ident (procs s' p) = ident (procs s p) \<and> state (procs s' p) = state (procs s p) \<and> wait_state (procs s' p) = wait_state (procs s p)"
    and rd: "\<And>Q. ready s Q \<Longrightarrow> ready s' Q" "\<And>q. detached s q \<Longrightarrow> detached s' q"
  shows "procs_ok ready detached s'"
proof -
  obtain L C ps where inv: "procs_inv ready detached L C ps s" "proc_live s = L" using ok by (rule procs_okE)
  have "tables_ok L C ps s'" by (rule tables_ok_sched [OF f(1) _ procs_invD(1) [OF inv(1)]]) (use p in blast)
  moreover have "states_ok L C s'" using procs_invD(2) [OF inv(1)] p f by (simp add: states_ok_def sched_frame_def)
  moreover have w: "waiting_cpu L s' = waiting_cpu L s" using p f by (simp add: waiting_cpu_def sched_frame_def)
  then have "sched_inv ready detached L s'" using procs_invD(3) [OF inv(1)] rd f unfolding sched_inv_def w by (simp add: sched_frame_def)
  ultimately show ?thesis using procs_okI [of ready detached L C ps s'] l inv(2) by (simp add: procs_inv_def)
qed

lemma tick_keeps_procs:
  assumes ok: "procs_ok ready detached s" and c: "current s = Some c"
  shows "procs_ok ready detached (sched_class_proc_tick cls c s)"
proof (cases "Some c = idleproc s")
  case True
  have "aside s (set_proc c (\<lambda>x. x\<lparr>need_resched := True\<rparr>) s)" by (rule aside_set) (simp_all add: linked_def)
  then show ?thesis using True aside_ok ok by (simp add: sched_class_proc_tick_def)
next
  case False
  define t where "t = cls_proc_tick cls c s"
  define t' where "t' = t\<lparr>procs := (procs t)(c := (procs t c)\<lparr>need_resched := need_resched (procs s c)\<rparr>)\<rparr>"
  have ro: "rq_only s t'" unfolding t'_def t_def by (rule tick_ok)
  have i: "ident (procs t p) = ident (procs t' p)" "state (procs t p) = state (procs t' p)" "wait_state (procs t p) = wait_state (procs t' p)" for p
    by (simp_all add: t'_def ident_def)
  have f: "sched_frame s t" "current t = current s" "proc_live t = proc_live s"
    using sched_frame_rq_only [OF ro] rq_only_fields(1) [OF ro] more_proc_live [of t' s] by (simp_all add: t'_def sched_frame_def)
  have "procs_ok ready detached t"
    by (rule class_only_keeps [OF ok f(3) f(1,2)])
      (use i ident_bare [OF rq_only_bare [OF ro]] rq_only_proc [OF ro] tick_ready tick_detached in \<open>simp_all add: t_def\<close>)
  then show ?thesis using False by (simp add: sched_class_proc_tick_def t_def)
qed

lemma priority_keeps:
  assumes ok: "procs_ok ready detached s" and run: "lab6_set_priority n s = Some s'"
  shows "procs_ok ready detached s'"
proof -
  obtain c where c: "s' = set_proc c (\<lambda>x. x\<lparr>lab6_priority := if n = 0 then 1 else n\<rparr>) s" using run by (auto simp: lab6_set_priority_def elim!: bind_SomeE)
  show ?thesis by (rule class_only_keeps [OF ok]) (simp_all add: c ident_def priority_ready priority_detached)
qed

lemma life_step_keeps:
  assumes ok: "procs_ok ready detached s" and fresh: "\<forall>X p. km_proc E X = Some p \<longrightarrow> p \<notin> X" and step: "life_step W E cls s s'"
  shows "procs_ok ready detached s'"
  using step
proof cases
  case (Fork fl stack t r)
  show ?thesis by (rule fork_keeps [OF ok fresh Fork])
next
  case (Exit code)
  show ?thesis by (rule exit_keeps [OF ok Exit])
next
  case (Wait i a w)
  show ?thesis by (rule do_wait_keeps [OF ok Wait])
next
  case (Wait_Resume i a w)
  then show ?thesis using exit_keeps [OF ok] wait_keeps [OF ok]
    by (auto simp: do_wait_resume_def elim!: bind_SomeE split: if_split_asm)
next
  case (Kill i r)
  show ?thesis by (rule do_kill_keeps [OF ok Kill])
next
  case (Yield r)
  then obtain c where "s' = set_proc c (\<lambda>x. x\<lparr>need_resched := True\<rparr>) s" by (auto simp: do_yield_def elim!: bind_SomeE)
  moreover have "aside s (set_proc c (\<lambda>x. x\<lparr>need_resched := True\<rparr>) s)" by (rule aside_set) (simp_all add: linked_def)
  ultimately show ?thesis using aside_ok [OF _ ok] by simp
next
  case (Sleep t n w)
  show ?thesis by (rule sleep_keeps [OF ok Sleep])
next
  case (Sleep_Resume t r)
  then have "aside s s'"
    using del_timer_core [of t s] more_proc_live by (auto simp: do_sleep_resume_def aside_def)
  then show ?thesis using aside_ok ok by blast
next
  case (Priority n)
  show ?thesis by (rule priority_keeps [OF ok Priority])
next
  case Schedule
  then show ?thesis using schedule_keeps [OF ok] by simp
next
  case (Tick c)
  then show ?thesis using tick_keeps_procs [OF ok] by simp
next
  case (Wakeup p)
  show ?thesis by (rule wakeup_step_keeps [OF ok Wakeup])
next
  case (Elsewhere v f g)
  have "aside s s'" unfolding Elsewhere by (simp add: aside_def)
  then show ?thesis using aside_ok ok by blast
qed

lemma life_steps_keep:
  assumes "life_steps W E cls s s'" "procs_ok ready detached s" "\<forall>X p. km_proc E X = Some p \<longrightarrow> p \<notin> X"
  shows "procs_ok ready detached s'"
  using assms by (induction rule: rtranclp_induct) (auto intro: life_step_keeps)

end

end
