(* ===== verification/Process_Boot.thy ===== *)
theory Process_Boot
  imports Process_Life
begin

text \<open>
  The start of the process component: \<^verbatim>\<open>proc_init\<close> makes the idle process and the first kernel thread, and the state it leaves
  satisfies the invariant that every later call keeps. With the class interface interpreted on the machine by the round-robin and
  the stride class, the theorems about processes are stated over the model's own definitions, with a small machine for the
  concrete instances.
\<close>

section \<open>The empty tables\<close>

lemma hash_init_loop_links:
  "hash_init_loop i k s = s\<lparr>hash_links := hash_links (hash_init_loop i k s)\<rparr>"
  by (induction i k s rule: hash_init_loop.induct) (simp, metis (no_types, lifting) hash_init_loop.simps(2) kernel.surjective kernel.update_convs(15))

lemma hash_init_loop_rings:
  "(i \<le> b \<and> b < i + k) \<or> ring (hash_links s) (Head b) [] \<Longrightarrow> ring (hash_links (hash_init_loop i k s)) (Head b) []"
proof (induction i k s rule: hash_init_loop.induct)
  case (2 i k s)
  show ?case using 2 ring_list_init [of "hash_links s" "Head i"] ring_frame_init [of "hash_links s" "Head b" "[]" "Head i"]
    by (cases "b = i") auto
qed auto

text \<open>Copying the table of a process that has no file open.\<close>

lemma dup_files_loop_none:
  "\<forall>j. i \<le> j \<and> j < i + k \<longrightarrow> fstatus (item s from j) \<noteq> FD_OPENED \<Longrightarrow> dup_files_loop t from i k s = Some s"
  by (induction t "from" i k s rule: dup_files_loop.induct) auto

lemma fd_init_loop_keeps: "pwd (files (fd_init_loop t fd k s) x) = pwd (files s x)" "files_count (files (fd_init_loop t fd k s) x) = files_count (files s x)"
  by (induction t fd k s rule: fd_init_loop.induct) (auto simp: set_item_def set_files_def)

lemma fd_init_loop_status:
  "fstatus (item (fd_init_loop t fd k s) x i) = (if x = t \<and> fd \<le> i \<and> i < fd + k then FD_NONE else fstatus (item s x i))"
  by (induction t fd k s rule: fd_init_loop.induct) (auto simp: set_item_def set_files_def)

lemma fd_init_loop_live: "files_live (fd_init_loop t fd k s) = files_live s"
  by (induction t fd k s rule: fd_init_loop.induct) (auto simp: set_item_def set_files_def)

lemma files_create_new:
  assumes "km (files_live s) = Some t"
  obtains s' where "files_create km s = (Some t, s')" "pwd (files s' t) = None" "files_count (files s' t) = 0"
    "\<And>i. i < FILES_STRUCT_NENTRY \<Longrightarrow> fstatus (item s' t i) = FD_NONE" "files_live s' = insert t (files_live s)"
    "\<And>x. x \<noteq> t \<Longrightarrow> pwd (files s' x) = pwd (files s x)" "\<And>x i. x \<noteq> t \<Longrightarrow> fstatus (item s' x i) = fstatus (item s x i)"
  using assms that by (simp add: files_create_def fd_array_init_def fd_init_loop_keeps fd_init_loop_live fd_init_loop_status set_files_def)

section \<open>The idle process\<close>

text \<open>The static data before \<^verbatim>\<open>proc_init\<close>, after \<^verbatim>\<open>sched_init\<close>: no process, no identifier given out, an empty run queue.\<close>

definition before_procs :: "(('f, 'b) machine_scheme \<Rightarrow> nat set \<Rightarrow> bool) \<Rightarrow> ('f, 'b) machine_scheme \<Rightarrow> bool" where
  "before_procs ready s \<longleftrightarrow> ready s {} \<and> initproc s = None \<and> nr_process s = 0 \<and> last_pid s = MAX_PID \<and> next_safe s = MAX_PID \<and>
     proc_live s = {}"

text \<open>The state after \<^verbatim>\<open>proc_init\<close>: the idle process runs, and its one child waits for the processor.\<close>

definition two_procs ::
  "(('f, 'b) machine_scheme \<Rightarrow> nat set \<Rightarrow> bool) \<Rightarrow> (('f, 'b) machine_scheme \<Rightarrow> nat \<Rightarrow> bool) \<Rightarrow> nat \<Rightarrow> nat \<Rightarrow>
   ('f, 'b) machine_scheme \<Rightarrow> bool" where
  "two_procs ready detached idle init s \<longleftrightarrow>
     procs_inv ready detached {idle, init} ((\<lambda>_. [])(idle := [init])) [init] s \<and> proc_live s = {idle, init} \<and>
     idle \<noteq> init \<and> idleproc s = Some idle \<and> initproc s = Some init \<and> current s = Some idle \<and> state (procs s init) = PROC_RUNNABLE \<and>
     pid (procs s idle) = 0 \<and> pid (procs s init) = 1"

context machine_sched
begin

lemma idle_alone:
  fixes s s1 :: "('f, 'b) machine_scheme" and f :: "'f vfs_scheme" and t :: "nat option" and bs :: u64 and n :: string
  assumes b: "before_procs ready s" and a: "alloc_proc E (hash_init_loop 0 HASH_LIST_SIZE (s\<lparr>proc_links := list_init (proc_links s) (Head ())\<rparr>)) = (Some idle, s1)"
  defines "s2 \<equiv> s1\<lparr>idleproc := Some idle, fsys := f\<rparr>"
  defines "s3 \<equiv> set_proc idle (\<lambda>x. x\<lparr>pid := 0, state := PROC_RUNNABLE, kstack := bs, need_resched := True\<rparr>) (set_proc idle (\<lambda>x. x\<lparr>filesp := t\<rparr>) s2)"
  defines "s4 \<equiv> (set_proc_name idle n s3)\<lparr>nr_process := nr_process s3 + 1, current := Some idle\<rparr>"
  shows "procs_inv ready detached {idle} (\<lambda>_. []) [] s4" "proc_live s4 = {idle}" "current s4 = Some idle" "nr_process s4 = 1"
    "mm (procs s4 idle) = None" "filesp (procs s4 idle) = t" "vm s4 = vm s" "fsys s4 = f" "initproc s4 = None" "idleproc s4 = Some idle"
    "pid (procs s4 idle) = 0"
proof -
  let ?s = "hash_init_loop 0 HASH_LIST_SIZE (s\<lparr>proc_links := list_init (proc_links s) (Head ())\<rparr>)"
  have q: "ring (hash_links ?s) (Head k) []" if "k < HASH_LIST_SIZE" for k
    using hash_init_loop_rings [of 0 k HASH_LIST_SIZE] that by simp
  obtain h where h: "?s = s\<lparr>proc_links := list_init (proc_links s) (Head ()), hash_links := h\<rparr>"
    using hash_init_loop_links [of 0 HASH_LIST_SIZE "s\<lparr>proc_links := list_init (proc_links s) (Head ())\<rparr>"] by simp
  obtain f1 g1 where s1: "s1 = set_proc idle g1 (init_sched_fields idle (set_proc idle f1 (?s\<lparr>proc_live := {idle}\<rparr>)))"
      and f1: "\<And>x. prq (f1 x) = prq x \<and> time_slice (f1 x) = time_slice x \<and> lab6_stride (f1 x) = lab6_stride x \<and> lab6_priority (f1 x) = lab6_priority x"
      and fx: "\<And>x. state (f1 x) = PROC_UNINIT \<and> cptr (f1 x) = None \<and> wait_state (f1 x) = 0 \<and> mm (f1 x) = None" and g1: "g1 = (\<lambda>x. x\<lparr>filesp := None\<rparr>)"
    using a b h by (auto simp: alloc_proc_def Let_def before_procs_def split: option.splits)
  define s0 where "s0 = set_proc idle f1 (?s\<lparr>proc_live := {idle}\<rparr>)"
  have v0: "sched_view s0 = sched_view s"
    using sched_view_set_proc [of f1 idle "?s\<lparr>proc_live := {idle}\<rparr>"] f1 by (simp add: s0_def sched_view_def h)
  have v: "sched_view s4 = sched_view (init_sched_fields idle s0)"
    by (simp add: s4_def s3_def s2_def s1 g1 s0_def sched_view_def fun_eq_iff set_proc_name_def)
  have me: "cptr (procs s4 idle) = None" "state (procs s4 idle) = PROC_RUNNABLE" "wait_state (procs s4 idle) = 0"
    using fx by (simp_all add: s4_def s3_def s2_def s1 g1 init_sched_fields_def Let_def set_proc_name_def)
  show gl: "proc_live s4 = {idle}" "current s4 = Some idle" "nr_process s4 = 1" "mm (procs s4 idle) = None" "filesp (procs s4 idle) = t"
    "vm s4 = vm s" "fsys s4 = f" "initproc s4 = None" "idleproc s4 = Some idle" "pid (procs s4 idle) = 0"
    using b fx by (simp_all add: s4_def s3_def s2_def s1 g1 init_sched_fields_def Let_def set_proc_name_def h before_procs_def)
  have l: "proc_links s4 = list_init (proc_links s) (Head ())" "hash_links s4 = hash_links ?s" "last_pid s4 = MAX_PID" "next_safe s4 = MAX_PID"
    using b by (simp_all add: s4_def s3_def s2_def s1 g1 init_sched_fields_def Let_def set_proc_name_def h before_procs_def)
  have r0: "ready s0 {}" using b ready_view [OF v0] by (simp add: before_procs_def)
  have w: "waiting_cpu {idle} s4 = {}" using gl by (auto simp: waiting_cpu_def)
  have "ready s4 {}" "detached s4 idle"
    using fresh_ready [OF r0, of idle] fresh_detached [OF r0, of idle idle] ready_view [OF v] detached_view [OF v] by simp_all
  then have "sched_inv ready detached {idle} s4" using gl w by (simp add: sched_inv_def)
  moreover have "\<exists>B. hash_ok s4 B {}" using q by (intro exI [of _ "\<lambda>_. []"]) (simp add: hash_ok_def l)
  then have "tables_ok {idle} (\<lambda>_. []) [] s4"
    using me gl l ring_list_init [of "proc_links s" "Head ()"]
    by (auto simp: tables_ok_def family_def fam_ok_def pid_window_def pids_def MAX_PID_def MAX_PROCESS_def)
  moreover have "states_ok {idle} (\<lambda>_. []) s4" using me gl by (intro states_okI [of _ _ _ idle idle]) auto
  ultimately show "procs_inv ready detached {idle} (\<lambda>_. []) [] s4" by (simp add: procs_inv_def)
qed

text \<open>The first identifier given out is 1.\<close>

lemma get_pid_first:
  assumes "ring (proc_links s) (Head ()) []" "last_pid s = MAX_PID"
  shows "get_pid s = Some (1, s\<lparr>last_pid := 1, next_safe := MAX_PID\<rparr>)"
proof -
  have "list_next (proc_links s) (Head ()) = Head ()" using assms(1) by (simp add: ring_def list_next_def)
  then have "pid_scan s (Head ()) 1 MAX_PID = Some (1, MAX_PID)" by (subst pid_scan.simps) (simp add: Let_def)
  then show ?thesis using assms(2) by (simp add: get_pid_def MAX_PID_def MAX_PROCESS_def)
qed

lemma fork_finish_pid:
  assumes "fork_finish cls p s = Some (i, s')" "get_pid s = Some (j, s\<lparr>last_pid := lp, next_safe := ns\<rparr>)"
  shows "i = j"
proof -
  obtain s1 s2 where s: "set_links p (hash_proc p (set_proc p (\<lambda>x. x\<lparr>pid := j\<rparr>) (s\<lparr>last_pid := lp, next_safe := ns\<rparr>))) = Some s1"
    "wakeup_proc cls p s1 = Some s2" "i = pid (procs s2 p)"
    using assms by (auto simp: fork_finish_def elim!: bind_SomeE)
  have "pid (procs s2 p) = pid (procs s1 p)" using ident_fields(1) [OF wakeup_frame(6) [OF s(2)]] .
  moreover have "pid (procs s1 p) = j" using unlinked_fields(2) [of "procs s1 p"] set_links_only [OF s(1)]
    by (fastforce simp: links_only_def hash_proc_def)
  ultimately show ?thesis using s(3) by simp
qed

lemma two_procs_ok: "two_procs ready detached idle init s \<Longrightarrow> procs_ok ready detached s"
  by (auto simp: two_procs_def procs_ok_def)

lemma proc_init_tail:
  assumes inv: "procs_inv ready detached {idle, p} ((\<lambda>_. [])(idle := [p], p := [])) [p] s" "proc_live s = {idle, p}" and np: "idle \<noteq> p"
    and st: "current s = Some idle" "idleproc s = Some idle" "pid (procs s p) = i" "state (procs s p) = PROC_RUNNABLE" "0 < i"
  shows "find_proc i s = Some (Some p)" "i = 1 \<Longrightarrow> pid (procs s idle) = 0 \<Longrightarrow> two_procs ready detached idle p (set_proc_name p n (s\<lparr>initproc := Some p\<rparr>))"
proof -
  note t = procs_invD(1) [OF inv(1)] and so = procs_invD(2) [OF inv(1)] and sc = procs_invD(3) [OF inv(1)]
  obtain B where B: "hash_ok s B {p}" using t by (auto simp: tables_ok_def)
  obtain r where r: "find_proc i s = Some r" "\<forall>q. r = Some q \<longleftrightarrow> q \<in> {p} \<and> pid (procs s q) = i \<and> 0 < i \<and> i < MAX_PID"
    by (rule find_proc_ok [OF B])
  have "i < MAX_PID" using t st(3) by (auto simp: tables_ok_def)
  then show "find_proc i s = Some (Some p)" using r st by auto
  define s1 where "s1 = s\<lparr>initproc := Some p\<rparr>"
  let ?C = "(\<lambda>_. [])(idle := [p])"
  have C: "(\<lambda>_. [])(idle := [p], p := []) = ?C" using np by auto
  have "sched_view s1 = sched_view s" by (simp add: s1_def sched_view_def)
  note v = ready_view [OF this] detached_view [OF this]
  have w: "waiting_cpu {idle, p} s1 = waiting_cpu {idle, p} s" by (simp add: waiting_cpu_def s1_def)
  have "current s1 = current s" "idleproc s1 = idleproc s" by (simp_all add: s1_def)
  then have "sched_inv ready detached {idle, p} s1" using sc v unfolding sched_inv_def w by auto
  moreover have "tables_ok {idle, p} ?C [p] s1" by (rule tables_ok_cong [OF _ _ _ _ _ _ _ t [unfolded C]]) (simp_all add: s1_def)
  moreover have "states_ok {idle, p} ?C s1" using so st np unfolding C by (auto simp: states_ok_def s1_def)
  ultimately have "procs_inv ready detached {idle, p} ?C [p] s1" by (simp add: procs_inv_def)
  moreover have c: "core (set_proc_name p n s1) = core s1" unfolding set_proc_name_def by (rule core_set_proc) (simp add: linked_def)
  ultimately have "procs_inv ready detached {idle, p} ?C [p] (set_proc_name p n s1)" using procs_inv_core by blast
  then show "i = 1 \<Longrightarrow> pid (procs s idle) = 0 \<Longrightarrow> two_procs ready detached idle p (set_proc_name p n (s\<lparr>initproc := Some p\<rparr>))"
    using st np inv(2) by (simp add: two_procs_def s1_def [symmetric]) (simp add: s1_def set_proc_name_def)
qed

lemma proc_init_ok:
  assumes b: "before_procs ready s" and fresh: "\<forall>X p. km_proc E X = Some p \<longrightarrow> p \<notin> X" and run: "proc_init W E cls im bs s = Some s'"
  shows "\<exists>idle init. two_procs ready detached idle init s'"
proof -
  let ?s = "hash_init_loop 0 HASH_LIST_SIZE (s\<lparr>proc_links := list_init (proc_links s) (Head ())\<rparr>)"
  obtain r s1 where a: "alloc_proc E ?s = (r, s1)" by (cases "alloc_proc E ?s")
  obtain t f where fc: "files_create (km_files E) (fs_view (s1\<lparr>idleproc := r\<rparr>)) = (t, f)" by (cases "files_create (km_files E) (fs_view (s1\<lparr>idleproc := r\<rparr>))")
  obtain idle where r: "r = Some idle" using run a by (auto simp: proc_init_def Let_def elim!: bind_SomeE)
  define s2 where "s2 = (set_proc_name idle ''idle'' (set_proc idle (\<lambda>x. x\<lparr>pid := 0, state := PROC_RUNNABLE, kstack := bs, need_resched := True\<rparr>)
    (set_proc idle (\<lambda>x. x\<lparr>filesp := t\<rparr>) (s1\<lparr>idleproc := Some idle, fsys := f\<rparr>))))"
  define s3 where "s3 = s2\<lparr>nr_process := nr_process s2 + 1, current := Some idle\<rparr>"
  note i = idle_alone [OF b a [unfolded r], where f = f and bs = bs and t = t and n = "''idle''"]
  have nr: "nr_process s2 + 1 = nr_process (set_proc idle (\<lambda>x. x\<lparr>pid := 0, state := PROC_RUNNABLE, kstack := bs, need_resched := True\<rparr>)
    (set_proc idle (\<lambda>x. x\<lparr>filesp := t\<rparr>) (s1\<lparr>idleproc := Some idle, fsys := f\<rparr>))) + 1" by (simp add: s2_def set_proc_name_def)
  note j = i [folded s2_def, folded nr, folded s3_def]
  have "idleproc s2 = Some idle" by (simp add: s2_def set_proc_name_def)
  then have e3: "s2\<lparr>nr_process := nr_process s2 + 1\<rparr>\<lparr>current := idleproc (s2\<lparr>nr_process := nr_process s2 + 1\<rparr>)\<rparr> = s3" by (simp add: s3_def)
  obtain k s4 where kt: "kernel_thread W E cls im 0 0 s3 = Some (k, s4)" and k: "0 < k"
    and rest: "do { r \<leftarrow> find_proc k s4; let s = s4\<lparr>initproc := r\<rparr>; init \<leftarrow> r; let s = set_proc_name init ''init'' s;
      kassert (pid (procs s idle) = 0); kassert (pid (procs s init) = 1); Some s } = Some s'"
    using run a fc r e3 unfolding s2_def by (auto simp: proc_init_def Let_def elim!: bind_SomeE split: if_split_asm)
  have "forked {idle} (\<lambda>_. []) [] idle k s4"
    by (rule do_fork_cases [OF j(1-3) fresh kt [unfolded kernel_thread_def]])
  then obtain p where p: "p \<noteq> idle" "procs_inv ready detached {p, idle} ((\<lambda>_. [])(idle := [p], p := [])) [p] s4" "proc_live s4 = {p, idle}"
    "pid (procs s4 p) = k" "state (procs s4 p) = PROC_RUNNABLE" "current s4 = Some idle"
    using k by (auto simp: forked_def)
  have t4: "tables_ok {p, idle} ((\<lambda>_. [])(idle := [p], p := [])) [p] s4" using procs_invD(1) [OF p(2)] .
  then have id4: "idleproc s4 = Some idle" using p(1) by (auto simp: tables_ok_def doubleton_eq_iff)
  have sw: "{p, idle} = {idle, p}" by auto
  note tl = proc_init_tail [OF p(2,3) [unfolded sw] p(1) [symmetric] p(6) id4 p(4,5) k]
  have "s' = set_proc_name p ''init'' (s4\<lparr>initproc := Some p\<rparr>) \<and> k = 1 \<and> pid (procs s4 idle) = 0"
    using rest tl(1) p(1,4) by (auto simp: set_proc_name_def Let_def split: if_split_asm)
  then show ?thesis using tl(2) by blast
qed

text \<open>With memory for the two processes, a kernel stack and the two tables of files, \<^verbatim>\<open>proc_init\<close> returns.\<close>

lemma proc_init_returns:
  assumes b: "before_procs ready s" and fresh: "\<forall>X p. km_proc E X = Some p \<longrightarrow> p \<notin> X" "\<forall>X p. km_files E X = Some p \<longrightarrow> p \<notin> X"
    and kp: "km_proc E {} = Some idle" "km_proc E {idle} = Some p"
    and kf: "km_files E (files_live (fsys s)) = Some t" "km_files E (insert t (files_live (fsys s))) = Some u"
    and al: "alloc_pages KSTACKPAGE (vm s) = Some (Some pg, v)" "page2kva pg v = Some k"
  shows "\<exists>s'. proc_init W E cls im bs s = Some s' \<and> two_procs ready detached idle p s'"
proof -
  let ?s = "hash_init_loop 0 HASH_LIST_SIZE (s\<lparr>proc_links := list_init (proc_links s) (Head ())\<rparr>)"
  obtain h where h: "?s = s\<lparr>proc_links := list_init (proc_links s) (Head ()), hash_links := h\<rparr>"
    using hash_init_loop_links [of 0 HASH_LIST_SIZE "s\<lparr>proc_links := list_init (proc_links s) (Head ())\<rparr>"] by simp
  obtain s1 where a: "alloc_proc E ?s = (Some idle, s1)" "fsys s1 = fsys s"
    using b kp(1) h by (simp add: alloc_proc_def Let_def before_procs_def init_sched_fields_def)
  have "km_files E (files_live (fs_view (s1\<lparr>idleproc := Some idle\<rparr>))) = Some t" using kf(1) a(2) by (simp add: fs_view_def)
  then obtain f where fc: "files_create (km_files E) (fs_view (s1\<lparr>idleproc := Some idle\<rparr>)) = (Some t, f)" "pwd (files f t) = None"
      "\<And>i. i < FILES_STRUCT_NENTRY \<Longrightarrow> fstatus (item f t i) = FD_NONE" "files_live f = insert t (files_live (fsys s))"
    by (rule files_create_new) (simp add: a(2) fs_view_def)
  define s2 where "s2 = (set_proc_name idle ''idle'' (set_proc idle (\<lambda>x. x\<lparr>pid := 0, state := PROC_RUNNABLE, kstack := bs, need_resched := True\<rparr>)
    (set_proc idle (\<lambda>x. x\<lparr>filesp := Some t\<rparr>) (s1\<lparr>idleproc := Some idle, fsys := f\<rparr>))))"
  define s3 where "s3 = s2\<lparr>nr_process := nr_process s2 + 1, current := Some idle\<rparr>"
  have nr: "nr_process s2 + 1 = nr_process (set_proc idle (\<lambda>x. x\<lparr>pid := 0, state := PROC_RUNNABLE, kstack := bs, need_resched := True\<rparr>)
    (set_proc idle (\<lambda>x. x\<lparr>filesp := Some t\<rparr>) (s1\<lparr>idleproc := Some idle, fsys := f\<rparr>))) + 1" by (simp add: s2_def set_proc_name_def)
  note j = idle_alone [OF b a(1), where f = f and bs = bs and t = "Some t" and n = "''idle''", folded s2_def, folded nr, folded s3_def]
  have "idleproc s2 = Some idle" by (simp add: s2_def set_proc_name_def)
  then have e3: "s2\<lparr>nr_process := nr_process s2 + 1\<rparr>\<lparr>current := idleproc (s2\<lparr>nr_process := nr_process s2 + 1\<rparr>)\<rparr> = s3" by (simp add: s3_def)
  have np: "p \<noteq> idle" using fresh(1) kp(2) by blast
  obtain s4 where s4: "alloc_proc E s3 = (Some p, s4)" "vm s4 = vm s" "fsys s4 = f" "current s4 = Some idle" "procs s4 idle = procs s3 idle"
    "nr_process s3 < MAX_PROCESS"
    using kp(2) j(2-4,7,8) np by (simp add: alloc_proc_def Let_def init_sched_fields_def MAX_PROCESS_def)
  define s5 where "s5 = set_proc p (\<lambda>x. x\<lparr>kstack := kva k\<rparr>) ((set_proc p (\<lambda>x. x\<lparr>parent := Some idle\<rparr>) s4)\<lparr>vm := v\<rparr>)"
  have k5: "setup_kstack p (set_proc p (\<lambda>x. x\<lparr>parent := Some idle\<rparr>) s4) = Some (0, s5)"
    using al s4(2) by (simp add: setup_kstack_def on_vm_def s5_def)
  have c5: "current s5 = Some idle" "procs s5 idle = procs s3 idle" "fsys s5 = f" using s4 np by (simp_all add: s5_def)
  have m5: "copy_mm E (0 OR CLONE_VM) p s5 = Some (0, s5)" using c5 j(5) by (simp add: copy_mm_def)
  have "km_files E (files_live (fs_view s5)) = Some u" using kf(2) fc(4) c5(3) by (simp add: fs_view_def)
  then obtain f2 where f2: "files_create (km_files E) (fs_view s5) = (Some u, f2)" "files_count (files f2 u) = 0"
      "\<And>x. x \<noteq> u \<Longrightarrow> pwd (files f2 x) = pwd (files f x)" "\<And>x i. x \<noteq> u \<Longrightarrow> fstatus (item f2 x i) = fstatus (item f x i)"
    by (rule files_create_new) (simp add: c5(3) fs_view_def)
  have tu: "t \<noteq> u" using fresh(2) kf(2) by blast
  have "dup_files_loop u t 0 FILES_STRUCT_NENTRY (set_files u (\<lambda>x. x\<lparr>pwd := None\<rparr>) f2) = Some (set_files u (\<lambda>x. x\<lparr>pwd := None\<rparr>) f2)"
    by (rule dup_files_loop_none) (use tu f2(4) fc(3) in \<open>simp add: set_files_def\<close>)
  then have d: "dup_files u t f2 = Some (0, set_files u (\<lambda>x. x\<lparr>pwd := None\<rparr>) f2)" using f2(2,3) fc(2) tu by (simp add: dup_files_def)
  have "CLONE_VM AND CLONE_FILES = 0" by (simp add: CLONE_VM_def CLONE_FILES_def)
  then obtain s6 where f5: "copy_files E (0 OR CLONE_VM) p s5 = Some (0, s6)" using c5 j(6) f2(1) d by (simp add: copy_files_def)
  define tf0 where "tf0 = \<lparr>gpr = (\<lambda>_. 0)(R_s 0 := im, R_s 1 := 0), status = (sstatus s3 OR SSTATUS_SPP OR SSTATUS_SPIE) AND NOT SSTATUS_SIE,
        epc = kernel_thread_entry E, tval = 0, cause = 0\<rparr>"
  obtain i s7 where kt: "do_fork W E cls (0 OR CLONE_VM) 0 tf0 s3 = Some (i, s7)"
    "procs_inv ready detached (insert p {idle}) ((\<lambda>_. [])(idle := [p], p := [])) [p] s7" "proc_live s7 = insert p {idle}" "0 < i"
    "pid (procs s7 p) = i" "state (procs s7 p) = PROC_RUNNABLE" "current s7 = Some idle" "\<forall>q\<in>{idle}. pid (procs s7 q) = pid (procs s3 q)"
    "fork_finish cls p (copy_thread E p 0 tf0 s6) = Some (i, s7)"
    by (rule do_fork_makes [OF j(1-3) s4(6,1) _ k5 m5 f5]) (use np in auto)
  have as: "aside (set_proc p (\<lambda>x. x\<lparr>parent := Some idle\<rparr>) s4) (copy_thread E p 0 tf0 s6)"
    using aside_trans [OF aside_trans [OF aside_trans [OF setup_kstack_aside [OF k5] copy_mm_aside [OF m5]] copy_files_aside [OF f5]] copy_thread_aside] .
  have "proc_links s4 = proc_links s3" "last_pid s4 = last_pid s3" using s4(1) by (auto simp: alloc_proc_def Let_def init_sched_fields_def split: option.splits)
  moreover have "last_pid s3 = MAX_PID"
    using a(1) b h by (auto simp: s3_def s2_def set_proc_name_def alloc_proc_def Let_def init_sched_fields_def before_procs_def split: option.splits)
  moreover have "ring (proc_links s3) (Head ()) []" using procs_invD(1) [OF j(1)] by (simp add: tables_ok_def)
  ultimately have "i = 1" using fork_finish_pid [OF kt(9) get_pid_first] coreD [OF asideD(2) [OF as]] by simp
  have sw: "insert p {idle} = {idle, p}" by auto
  have "idleproc s7 = Some idle" using procs_invD(1) [OF kt(2)] np by (auto simp: tables_ok_def doubleton_eq_iff)
  note tl = proc_init_tail [OF kt(2,3) [unfolded sw] np [symmetric] kt(7) this kt(5,6,4)]
  have p0: "pid (procs s7 idle) = 0" using kt(8) j(11) by simp
  have two: "two_procs ready detached idle p (set_proc_name p ''init'' (s7\<lparr>initproc := Some p\<rparr>))" by (rule tl(2) [OF \<open>i = 1\<close> p0])
  have "kernel_thread W E cls im 0 0 s3 = Some (i, s7)" using kt(1) by (simp add: kernel_thread_def tf0_def)
  then have "proc_init W E cls im bs s = Some (set_proc_name p ''init'' (s7\<lparr>initproc := Some p\<rparr>))"
    using a(1) fc(1) e3 tl(1) p0 kt(4,5) np \<open>i = 1\<close> unfolding s2_def by (simp add: proc_init_def Let_def set_proc_name_def)
  then show ?thesis using two by blast
qed

end

section \<open>The classes on the machine\<close>

interpretation rr_machine: machine_sched default_sched_class rr_ready rr_detached
  by unfold_locales

interpretation stride_machine: machine_sched stride_sched_class stride_ready stride_detached
  by unfold_locales

section \<open>A small machine\<close>

text \<open>A little memory, of which two pages above the kernel are one free block in \<open>demo_mem True\<close> and in use in \<open>demo_mem False\<close>.\<close>

definition demo_mem :: "bool \<Rightarrow> vmm" where
  "demo_mem free = \<lparr>
     phys = \<lparr>pages = (\<lambda>p. \<lparr>pg_ref = 0, pg_flags = (if free \<and> p = 0x200 then 2 else 0), pg_property = (if free \<and> p = 0x200 then 2 else 0)\<rparr>),
       plinks = (if free then \<lparr>lprev = id(Free_list := Page_link 0x200, Page_link 0x200 := Free_list), lnext = id(Free_list := Page_link 0x200, Page_link 0x200 := Free_list)\<rparr>
         else \<lparr>lprev = id, lnext = id\<rparr>),
       nr_free = (if free then 2 else 0)\<rparr>,
     npage = nbase + 0x208, pmem = (\<lambda>_ _. 0),
     mms = (\<lambda>_. \<lparr>mmap_cache = None, mm_pgdir = None, map_count = 0, mm_count = 0, mm_sem = 1, locked_by = 0\<rparr>), mm_live = {},
     vmas = (\<lambda>_. \<lparr>vm_mm = None, vm_start = 0, vm_end = 0, vm_flags = 0\<rparr>), vma_live = {}, vlinks = \<lparr>lprev = id, lnext = id\<rparr>,
     pgfault_num = 0, global_cow_stats = \<lparr>cow_faults = 0, cow_copies = 0, cow_upgrades = 0, pages_saved = 0\<rparr>\<rparr>"

definition demo_files :: vfs where
  "demo_files = \<lparr>inodes = (\<lambda>_. \<lparr>ref_count = 0, open_count = 0, in_fs = None, in_device = False, in_ops = Dev_node_ops\<rparr>), node_live = {},
     bootfs_node = None, vdevs = (\<lambda>_. \<lparr>devname = [], devnode = None, dev_fs = None, mountable = False\<rparr>), vdev_live = {},
     vdev_links = \<lparr>lprev = id, lnext = id\<rparr>,
     files = (\<lambda>_. \<lparr>pwd = None, fd_array = (\<lambda>i. \<lparr>fstatus = FD_NONE, readable = False, writable = False, ffd = i, fpos = 0,
        fnode = None, fopen_count = 0\<rparr>), files_count = 0, files_nlinks = 0\<rparr>),
     files_live = {}, cur_files = None\<rparr>"

definition demo_env :: env where
  "demo_env = \<lparr>km_proc = (\<lambda>X. find (\<lambda>p. p \<notin> X) [0, 1, 2, 3]), km_mm = (\<lambda>_. None), km_vma = (\<lambda>_. None),
     km_files = (\<lambda>X. find (\<lambda>p. p \<notin> X) [0, 1, 2, 3]), forkret = 0xffffffffc0200100, kernel_thread_entry = 0xffffffffc0200200\<rparr>"

lemma demo_env_fresh: "\<forall>X p. km_proc demo_env X = Some p \<longrightarrow> p \<notin> X" "\<forall>X p. km_files demo_env X = Some p \<longrightarrow> p \<notin> X"
  by (simp_all add: demo_env_def find_Some_iff)

definition demo_boot :: "unit machine" where
  "demo_boot = kernel.extend (blank_kernel\<lparr>current := None, idleproc := None, initproc := None, nr_process := 0, last_pid := MAX_PID,
       next_safe := MAX_PID\<rparr>)
     \<lparr>vm = demo_mem True, fsys = demo_files, tframes = (\<lambda>_. \<lparr>gpr = (\<lambda>_. 0), status = 0, epc = 0, tval = 0, cause = 0\<rparr>), proc_live = {},
      boot_pgdir = nbase + 0x207, sstatus = 0\<rparr>"

lemma demo_mem_alloc:
  "alloc_pages KSTACKPAGE (demo_mem True) = Some (Some 0x200, (demo_mem True)\<lparr>phys := take_block 0x200 2 (phys (demo_mem True))\<rparr>)"
  "page2kva 0x200 ((demo_mem True)\<lparr>phys := take_block 0x200 2 (phys (demo_mem True))\<rparr>) = Some (nbase + 0x200)"
proof -
  have "first_fit_scan (phys (demo_mem True)) 2 Free_list = Some (Some 0x200)"
    by (subst first_fit_scan.simps) (simp add: demo_mem_def list_next_def)
  then show "alloc_pages KSTACKPAGE (demo_mem True) = Some (Some 0x200, (demo_mem True)\<lparr>phys := take_block 0x200 2 (phys (demo_mem True))\<rparr>)"
    by (simp add: alloc_pages_def default_alloc_pages_def KSTACKPAGE_def) (simp add: demo_mem_def)
  show "page2kva 0x200 ((demo_mem True)\<lparr>phys := take_block 0x200 2 (phys (demo_mem True))\<rparr>) = Some (nbase + 0x200)"
    by (simp add: page2kva_def KADDR_def page2ppn_def demo_mem_def)
qed

lemma demo_boot_before: "before_procs rr_ready demo_boot"
  by (simp add: before_procs_def demo_boot_def kernel.defs blank_kernel_def rr_ready_def rr_queue_def to_u32_def)

lemma demo_boot_parts: "vm demo_boot = demo_mem True" "fsys demo_boot = demo_files"
  by (simp_all add: demo_boot_def kernel.defs)

lemma demo_boots: "\<exists>s. proc_init W demo_env default_sched_class im bs demo_boot = Some s \<and> two_procs rr_ready rr_detached 0 1 s"
  by (rule rr_machine.proc_init_returns [OF demo_boot_before demo_env_fresh _ _ _ _ demo_mem_alloc [folded demo_boot_parts(1)], where t = 0 and u = 1])
    (simp_all add: demo_boot_parts demo_env_def demo_files_def)

end
