(* ===== verification/Process_Props.thy ===== *)
theory Process_Props
  imports Process_Boot
begin

text \<open>
  The theorems about the life of processes, over the model's own round-robin class: the start, the invariant of every sequence of
  calls, and what creation, exit, waiting and killing do. Concrete instances are on the small machine of \<open>Process_Boot\<close> and on a
  machine with three processes.
\<close>

section \<open>From the start on\<close>

text \<open>C39: \<^verbatim>\<open>proc_init\<close> on the static data, with memory for two process records, a kernel stack and two tables of files, returns, and
  leaves the idle process (identifier 0) running with one child, the first kernel thread (identifier 1), in the tables and on the
  run queue.\<close>

theorem proc_init_boots:
  assumes "before_procs rr_ready s" "\<forall>X p. km_proc E X = Some p \<longrightarrow> p \<notin> X" "\<forall>X p. km_files E X = Some p \<longrightarrow> p \<notin> X"
    and "km_proc E {} = Some idle" "km_proc E {idle} = Some p"
    and "km_files E (files_live (fsys s)) = Some t" "km_files E (insert t (files_live (fsys s))) = Some u"
    and "alloc_pages KSTACKPAGE (vm s) = Some (Some pg, v)" "page2kva pg v = Some k"
  shows "\<exists>s'. proc_init W E default_sched_class im bs s = Some s' \<and> two_procs rr_ready rr_detached idle p s'"
  using assms by (rule rr_machine.proc_init_returns)

theorem proc_init_boots_witness:
  "\<forall>W :: vfs world. \<exists>s. proc_init W demo_env default_sched_class 0xffffffffc0200300 0xffffffffc0204000 demo_boot = Some s \<and>
     two_procs rr_ready rr_detached 0 1 s"
  by (rule allI, rule proc_init_boots [OF demo_boot_before demo_env_fresh _ _ _ _ demo_mem_alloc [folded demo_boot_parts(1)], where t = 0 and u = 1])
    (simp_all add: demo_boot_parts demo_env_def demo_files_def)

text \<open>C1: From the start on, after any sequence of creations, exits, waits, kills, sleeps, yields, priority changes, wake-ups, clock
  ticks and schedulings, in any order, the processes are in order: the tables, families, states and the run queue agree, and
  the next call of \<^verbatim>\<open>schedule\<close> returns.\<close>

theorem processes_stay_in_order:
  assumes "before_procs rr_ready s" "\<forall>X p. km_proc E X = Some p \<longrightarrow> p \<notin> X" "proc_init W E default_sched_class im bs s = Some s0"
    and "life_steps W E default_sched_class s0 s'"
  shows "procs_ok rr_ready rr_detached s' \<and> (\<exists>s''. schedule default_sched_class s' = Some s'')"
proof -
  obtain i p where "two_procs rr_ready rr_detached i p s0" using rr_machine.proc_init_ok [OF assms(1-3)] by blast
  then have "procs_ok rr_ready rr_detached s0" by (rule rr_machine.two_procs_ok)
  then have ok: "procs_ok rr_ready rr_detached s'" by (rule rr_machine.life_steps_keep [OF assms(4) _ assms(2)])
  then show ?thesis using rr_machine.schedule_keeps [OF ok] by blast
qed

theorem processes_stay_in_order_witness:
  "\<forall>W :: vfs world. \<exists>s0 s'. proc_init W demo_env default_sched_class 0 0 demo_boot = Some s0 \<and> schedule default_sched_class s0 = Some s' \<and>
     procs_ok rr_ready rr_detached s' \<and> (\<exists>s''. schedule default_sched_class s' = Some s'')"
proof
  fix W :: "vfs world"
  obtain s0 where s0: "proc_init W demo_env default_sched_class 0 0 demo_boot = Some s0" "two_procs rr_ready rr_detached 0 1 s0"
    using demo_boots by blast
  obtain s' where s': "schedule default_sched_class s0 = Some s'"
    using rr_machine.schedule_keeps [OF rr_machine.two_procs_ok [OF s0(2)]] by blast
  have "life_steps W demo_env default_sched_class s0 s'" using life_step.Schedule [OF s'] by blast
  from processes_stay_in_order [OF demo_boot_before demo_env_fresh(1) s0(1) this] s0(1) s'
  show "\<exists>s0 s'. proc_init W demo_env default_sched_class 0 0 demo_boot = Some s0 \<and> schedule default_sched_class s0 = Some s' \<and>
     procs_ok rr_ready rr_detached s' \<and> (\<exists>s''. schedule default_sched_class s' = Some s'')" by blast
qed

section \<open>Three processes\<close>

text \<open>The idle process 0, its child 1 and the child 2 of that; the states of 1 and 2 are \<open>x\<close> and \<open>y\<close>, and \<open>c\<close> is running.\<close>

definition demo_three :: "bool \<Rightarrow> nat \<Rightarrow> proc_state \<times> u32 \<Rightarrow> proc_state \<times> u32 \<Rightarrow> unit machine" where
  "demo_three free c x y = demo_boot\<lparr>
     procs := (\<lambda>_. blank_proc)(
       0 := blank_proc\<lparr>state := PROC_RUNNABLE, pid := 0, cptr := Some 1\<rparr>,
       1 := blank_proc\<lparr>state := fst x, wait_state := snd x, pid := 1, parent := Some 0, cptr := Some 2\<rparr>,
       2 := blank_proc\<lparr>state := fst y, wait_state := snd y, pid := 2, parent := Some 1, kstack := kva (nbase + 0x200)\<rparr>),
     current := Some c, idleproc := Some 0, initproc := Some 1, proc_live := {0, 1, 2}, nr_process := 3, last_pid := 2, next_safe := MAX_PID,
     proc_links := \<lparr>lprev = id(Head () := Elem 1, Elem 1 := Elem 2, Elem 2 := Head ()), lnext = id(Head () := Elem 2, Elem 2 := Elem 1, Elem 1 := Head ())\<rparr>,
     hash_links := \<lparr>lprev = id(Head 632 := Elem 1, Elem 1 := Head 632, Head 241 := Elem 2, Elem 2 := Head 241),
       lnext = id(Head 632 := Elem 1, Elem 1 := Head 632, Head 241 := Elem 2, Elem 2 := Head 241)\<rparr>,
     vm := demo_mem free\<rparr>"

lemma demo_three_fields:
  "procs (demo_three free c x y) = (\<lambda>_. blank_proc)(
       0 := blank_proc\<lparr>state := PROC_RUNNABLE, pid := 0, cptr := Some 1\<rparr>,
       1 := blank_proc\<lparr>state := fst x, wait_state := snd x, pid := 1, parent := Some 0, cptr := Some 2\<rparr>,
       2 := blank_proc\<lparr>state := fst y, wait_state := snd y, pid := 2, parent := Some 1, kstack := kva (nbase + 0x200)\<rparr>)"
  "current (demo_three free c x y) = Some c" "idleproc (demo_three free c x y) = Some 0" "initproc (demo_three free c x y) = Some 1"
  "proc_live (demo_three free c x y) = {0, 1, 2}" "nr_process (demo_three free c x y) = 3" "last_pid (demo_three free c x y) = 2"
  "next_safe (demo_three free c x y) = MAX_PID" "vm (demo_three free c x y) = demo_mem free" "fsys (demo_three free c x y) = demo_files"
  "run_links (demo_three free c x y) = \<lparr>lprev = id, lnext = id\<rparr>" "proc_num (rq (demo_three free c x y)) = 0"
  by (simp_all add: demo_three_def demo_boot_def kernel.defs blank_kernel_def)

lemma demo_hashes: "pid_hashfn 1 = 632" "pid_hashfn 2 = 241"
  by (simp_all add: pid_hashfn_def hash32_def HASH_SHIFT_def drop_bit_word_numeral)

lemma demo_three_inv:
  assumes "c = 1 \<and> fst x = PROC_RUNNABLE \<and> snd x = 0 \<and> (fst y = PROC_SLEEPING \<or> fst y = PROC_ZOMBIE \<and> snd y = 0) \<or>
    c = 2 \<and> fst y = PROC_RUNNABLE \<and> snd y = 0 \<and> fst x = PROC_SLEEPING"
  shows "procs_inv rr_ready rr_detached {0, 1, 2} ((\<lambda>_. [])(0 := [1], 1 := [2])) [2, 1] (demo_three free c x y)"
proof -
  let ?s = "demo_three free c x y"
  have "waiting_cpu {0, 1, 2} ?s = {}" using assms by (auto simp: waiting_cpu_def demo_three_fields)
  moreover have "rr_ready ?s {}" by (simp add: rr_ready_def rr_queue_def demo_three_fields to_u32_def)
  moreover have "rr_detached ?s p" if "p \<in> {0, 1, 2}" for p using that by (auto simp: rr_detached_def demo_three_fields blank_proc_def)
  ultimately have "sched_inv rr_ready rr_detached {0, 1, 2} ?s" using assms by (auto simp: sched_inv_def demo_three_fields)
  moreover have "states_ok {0, 1, 2} ((\<lambda>_. [])(0 := [1], 1 := [2])) ?s"
    using assms by (auto simp: states_ok_def demo_three_fields blank_proc_def)
  moreover have "tables_ok {0, 1, 2} ((\<lambda>_. [])(0 := [1], 1 := [2])) [2, 1] ?s"
  proof -
    have "family ?s {0, 1, 2} ((\<lambda>_. [])(0 := [1], 1 := [2]))" by (simp add: family_def fam_ok_def demo_three_fields blank_proc_def)
    moreover have "ring (proc_links ?s) (Head ()) (map Elem [2, 1])" by (simp add: ring_def demo_three_def)
    moreover have "hash_ok ?s ((\<lambda>_. [])(632 := [1], 241 := [2])) (set [2, 1])"
      by (auto simp: hash_ok_def demo_three_fields demo_three_def ring_def demo_hashes)
    ultimately show ?thesis
      by (auto simp: tables_ok_def pid_window_def pids_def demo_three_fields MAX_PID_def MAX_PROCESS_def)
  qed
  ultimately show ?thesis by (simp add: procs_inv_def)
qed

section \<open>Creation\<close>

lemma tables_find:
  assumes t: "tables_ok L C ps s" and p: "p \<in> set ps" "pid (procs s p) = i"
  shows "find_proc i s = Some (Some p)"
proof -
  obtain B where B: "hash_ok s B (set ps)" using t by (auto simp: tables_ok_def)
  obtain r where r: "find_proc i s = Some r" "\<forall>q. r = Some q \<longleftrightarrow> q \<in> set ps \<and> pid (procs s q) = i \<and> 0 < i \<and> i < MAX_PID"
    by (rule find_proc_ok [OF B])
  have "0 < i" "i < MAX_PID" using t p by (auto simp: tables_ok_def)
  then show ?thesis using r p by auto
qed

text \<open>C2: When record, kernel stack, address space and files for the child are there, \<^verbatim>\<open>do_fork\<close> returns a positive identifier that no
  process has. The child is the youngest child of the caller, is found under the identifier, is ready to run with the registers
  of the caller except that it returns 0 on the given stack, and all tables stay in order.\<close>

theorem do_fork_child:
  assumes "procs_inv rr_ready rr_detached L C ps s" "proc_live s = L" "current s = Some c" "nr_process s < MAX_PROCESS"
    and "alloc_proc E s = (Some p, s1)" "p \<notin> L" "setup_kstack p (set_proc p (\<lambda>x. x\<lparr>parent := Some c\<rparr>) s1) = Some (0, s2)"
    and "copy_mm E fl p s2 = Some (0, s3)" "copy_files E fl p s3 = Some (0, s4)"
  shows "\<exists>i s'. do_fork W E default_sched_class fl stack t s = Some (i, s') \<and> 0 < i \<and> i \<notin> pids s ps \<and>
    procs_inv rr_ready rr_detached (insert p L) (C(c := p # C c, p := [])) (p # ps) s' \<and> proc_live s' = insert p L \<and>
    find_proc i s' = Some (Some p) \<and> pid (procs s' p) = i \<and> state (procs s' p) = PROC_RUNNABLE \<and> current s' = Some c \<and>
    tframes s' (tf (procs s' p)) = t\<lparr>gpr := (gpr t)(R_a 0 := 0, R_sp := (if stack = 0 then tf (procs s' p) else stack))\<rparr> \<and>
    pcontext (procs s' p) Ctx_ra = forkret E \<and> pcontext (procs s' p) Ctx_sp = tf (procs s' p) \<and>
    mm (procs s' p) = mm (procs s4 p) \<and> filesp (procs s' p) = filesp (procs s4 p)"
proof -
  obtain i s' where s': "do_fork W E default_sched_class fl stack t s = Some (i, s')" 
    "procs_inv rr_ready rr_detached (insert p L) (C(c := p # C c, p := [])) (p # ps) s'" "proc_live s' = insert p L" "0 < i" "i < MAX_PID"
    "i \<notin> pids s ps" "pid (procs s' p) = i" "state (procs s' p) = PROC_RUNNABLE" "current s' = Some c"
    "tframes s' (tf (procs s' p)) = t\<lparr>gpr := (gpr t)(R_a 0 := 0, R_sp := (if stack = 0 then tf (procs s' p) else stack))\<rparr>"
    "pcontext (procs s' p) Ctx_sp = tf (procs s' p)" "pcontext (procs s' p) Ctx_ra = forkret E"
    "mm (procs s' p) = mm (procs s4 p)" "filesp (procs s' p) = filesp (procs s4 p)"
    by (rule rr_machine.do_fork_makes [OF assms]) blast
  have "find_proc i s' = Some (Some p)" by (rule tables_find [OF procs_invD(1) [OF s'(2)] _ s'(7)]) simp
  then show ?thesis using s' by blast
qed

lemma demo_alloc:
  obtains s1 where "alloc_proc demo_env (demo_three free c x y) = (Some 3, s1)" "vm s1 = demo_mem free" "fsys s1 = demo_files" "current s1 = Some c"
    "\<And>p. p \<noteq> 3 \<Longrightarrow> procs s1 p = procs (demo_three free c x y) p"
  by (auto simp: alloc_proc_def demo_env_def demo_three_fields Let_def init_sched_fields_def)

theorem do_fork_child_witness:
  "\<forall>W :: vfs world. \<forall>t. \<exists>i s'. do_fork W demo_env default_sched_class 0 0x7ffff000 t
     (demo_three True 1 (PROC_RUNNABLE, 0) (PROC_SLEEPING, WT_TIMER)) = Some (i, s') \<and> find_proc i s' = Some (Some 3) \<and>
     gpr (tframes s' (tf (procs s' 3))) (R_a 0) = 0"
proof (intro allI)
  fix W :: "vfs world" and t
  let ?s = "demo_three True 1 (PROC_RUNNABLE, 0) (PROC_SLEEPING, WT_TIMER)"
  obtain s1 where a: "alloc_proc demo_env ?s = (Some 3, s1)" "vm s1 = demo_mem True" "fsys s1 = demo_files" "current s1 = Some 1"
    "\<And>p. p \<noteq> 3 \<Longrightarrow> procs s1 p = procs ?s p" by (rule demo_alloc) blast
  obtain s2 where k: "setup_kstack 3 (set_proc 3 (\<lambda>x. x\<lparr>parent := Some 1\<rparr>) s1) = Some (0, s2)" "current s2 = Some 1" "procs s2 1 = procs ?s 1"
    "fsys s2 = demo_files"
    using a demo_mem_alloc by (simp add: setup_kstack_def on_vm_def)
  have m: "copy_mm demo_env 0 3 s2 = Some (0, s2)" using k by (simp add: copy_mm_def demo_three_fields blank_proc_def)
  obtain s4 where f: "copy_files demo_env 0 3 s2 = Some (0, s4)"
    using k by (auto simp: copy_files_def demo_three_fields blank_proc_def demo_env_def files_create_def fs_view_def demo_files_def)
  obtain i s' where "do_fork W demo_env default_sched_class 0 0x7ffff000 t ?s = Some (i, s')" "find_proc i s' = Some (Some 3)"
    "tframes s' (tf (procs s' 3)) = t\<lparr>gpr := (gpr t)(R_a 0 := 0, R_sp := 0x7ffff000)\<rparr>"
    using do_fork_child [OF demo_three_inv demo_three_fields(5,2) _ a(1) _ k(1) m f, of W "0x7ffff000" t]
    by (auto simp: demo_three_fields MAX_PROCESS_def)
  then show "\<exists>i s'. do_fork W demo_env default_sched_class 0 0x7ffff000 t ?s = Some (i, s') \<and> find_proc i s' = Some (Some 3) \<and>
     gpr (tframes s' (tf (procs s' 3))) (R_a 0) = 0" by auto
qed

text \<open>C37: Whatever makes \<^verbatim>\<open>do_fork\<close> fail, too many processes or no memory for one of the parts, the error code is negative and
  afterwards exactly the processes of before exist, in order.\<close>

theorem do_fork_fails_clean:
  assumes "procs_inv rr_ready rr_detached L C ps s" "proc_live s = L" "current s = Some c" "\<forall>X p. km_proc E X = Some p \<longrightarrow> p \<notin> X"
    and "do_fork W E default_sched_class fl stack t s = Some (ret, s')" "ret \<le> 0"
  shows "ret < 0 \<and> procs_inv rr_ready rr_detached L C ps s' \<and> proc_live s' = L"
  using rr_machine.do_fork_cases [OF assms(1-5)] assms(6) by (auto simp: rr_machine.forked_def)

theorem do_fork_fails_clean_witness:
  "\<forall>W :: vfs world. \<forall>t. \<exists>s'. do_fork W demo_env default_sched_class 0 0x7ffff000 t
     (demo_three False 1 (PROC_RUNNABLE, 0) (PROC_SLEEPING, WT_TIMER)) = Some (- E_NO_MEM, s') \<and> proc_live s' = {0, 1, 2}"
proof (intro allI)
  fix W :: "vfs world" and t
  let ?s = "demo_three False 1 (PROC_RUNNABLE, 0) (PROC_SLEEPING, WT_TIMER)"
  obtain s1 where a: "alloc_proc demo_env ?s = (Some 3, s1)" "vm s1 = demo_mem False" "current s1 = Some 1"
    "\<And>p. p \<noteq> 3 \<Longrightarrow> procs s1 p = procs ?s p" by (rule demo_alloc) blast
  have "alloc_pages KSTACKPAGE (demo_mem False) = Some (None, demo_mem False)"
    by (simp add: alloc_pages_def default_alloc_pages_def KSTACKPAGE_def demo_mem_def)
  then obtain s' where d: "do_fork W demo_env default_sched_class 0 0x7ffff000 t ?s = Some (- E_NO_MEM, s')"
    using a by (auto simp: do_fork_def setup_kstack_def on_vm_def fork_cleanup_proc_def demo_three_fields MAX_PROCESS_def blank_proc_def errno)
  then have "proc_live s' = {0, 1, 2}"
    using do_fork_fails_clean [OF demo_three_inv demo_three_fields(5,2) demo_env_fresh(1) d] by (simp add: errno)
  then show "\<exists>s'. do_fork W demo_env default_sched_class 0 0x7ffff000 t ?s = Some (- E_NO_MEM, s') \<and> proc_live s' = {0, 1, 2}"
    using d by blast
qed

section \<open>Exit\<close>

text \<open>C3: \<^verbatim>\<open>do_exit\<close> makes the caller a zombie that keeps its exit code, hands its children to \<^verbatim>\<open>init\<close>, eldest first, and lets another
  process run; a parent asleep in \<^verbatim>\<open>do_wait\<close> is woken, and so is \<^verbatim>\<open>init\<close> when a zombie is handed to it.\<close>

theorem do_exit_hands_over:
  assumes "procs_inv rr_ready rr_detached L C ps s" "proc_live s = L" "current s = Some c" "idleproc s \<noteq> Some c" "initproc s = Some i" "i \<noteq> c"
    and "leave_mm c s = Some s1" "put_files W c s1 = Some s2"
  shows "\<exists>s' q. do_exit W default_sched_class code s = Some s' \<and>
    procs_inv rr_ready rr_detached L (C(c := [], i := rev (C c) @ C i)) ps s' \<and> proc_live s' = L \<and> current s' \<noteq> Some c \<and>
    state (procs s' c) = PROC_ZOMBIE \<and> exit_code (procs s' c) = code \<and>
    parent (procs s c) = Some q \<and> wait_state (procs s' q) \<noteq> WT_CHILD \<and>
    (wait_state (procs s q) = WT_CHILD \<longrightarrow> state (procs s' q) = PROC_RUNNABLE) \<and>
    ((\<exists>x\<in>set (C c). state (procs s x) = PROC_ZOMBIE) \<longrightarrow> wait_state (procs s' i) \<noteq> WT_CHILD)"
  by (rule rr_machine.do_exit_ok [OF assms, where code = code]) blast

theorem do_exit_hands_over_witness:
  "\<forall>W :: vfs world. \<exists>s'. do_exit W default_sched_class 3 (demo_three False 2 (PROC_SLEEPING, WT_CHILD) (PROC_RUNNABLE, 0)) = Some s' \<and>
     state (procs s' 2) = PROC_ZOMBIE \<and> exit_code (procs s' 2) = 3 \<and> state (procs s' 1) = PROC_RUNNABLE"
proof
  fix W :: "vfs world"
  let ?s = "demo_three False 2 (PROC_SLEEPING, WT_CHILD) (PROC_RUNNABLE, 0)"
  have m: "leave_mm 2 ?s = Some ?s" "put_files W 2 ?s = Some ?s" by (simp_all add: leave_mm_def put_files_def demo_three_fields blank_proc_def)
  show "\<exists>s'. do_exit W default_sched_class 3 ?s = Some s' \<and>
     state (procs s' 2) = PROC_ZOMBIE \<and> exit_code (procs s' 2) = 3 \<and> state (procs s' 1) = PROC_RUNNABLE"
    using do_exit_hands_over [OF demo_three_inv demo_three_fields(5,2) _ demo_three_fields(4) _ m, where code = 3] by (auto simp: demo_three_fields)
qed

section \<open>Waiting\<close>

text \<open>C7: One round of \<^verbatim>\<open>do_wait\<close>, for any child or the one with a given identifier: without such a child it returns the error and
  changes nothing; with none that has ended the caller falls asleep until a child ends; otherwise it takes the first zombie
  found, in the order of the list of children, out of all tables, gives back its stack and returns 0.\<close>

theorem wait_round_cases:
  assumes "procs_inv rr_ready rr_detached L C ps s" "proc_live s = L" "current s = Some c" "idleproc s \<noteq> Some c"
    and "find (\<lambda>p. state (procs s p) = PROC_ZOMBIE) (wanted i s (C c)) = r"
  shows "case r of
      None \<Rightarrow> if wanted i s (C c) = [] then wait_round default_sched_class i a s = Some (Returned (- E_BAD_PROC), s)
        else \<exists>s' n. wait_round default_sched_class i a s = Some (Asleep, s') \<and> procs_inv rr_ready rr_detached L C ps s' \<and>
          current s' = Some n \<and> n \<noteq> c \<and> state (procs s' c) = PROC_SLEEPING \<and> wait_state (procs s' c) = WT_CHILD
    | Some p \<Rightarrow> \<forall>s1 s2. store_code a (exit_code (procs s p)) s = Some s1 \<and> put_kstack p s1 = Some s2 \<longrightarrow>
        (\<exists>s'. wait_round default_sched_class i a s = Some (Returned 0, s') \<and>
          procs_inv rr_ready rr_detached (L - {p}) (C(c := remove1 p (C c))) (remove1 p ps) s' \<and> proc_live s' = L - {p} \<and>
          current s' = Some c \<and> vm s' = vm s2)"
proof (cases r)
  case None
  then show ?thesis using rr_machine.wait_round_ok(1,2) [OF assms(1-4), of i r a] assms(5) by auto
next
  case (Some p)
  have p: "p \<in> set (C c)" "state (procs s p) = PROC_ZOMBIE" using find_mem [OF assms(5) [unfolded Some]] wanted_children by blast+
  note t = procs_invD(1) [OF assms(1)] and st = procs_invD(2) [OF assms(1)]
  have cL: "c \<in> L" using st assms(3) by (auto simp: states_ok_def)
  have "Some p \<noteq> initproc s" using st p(2) by (auto simp: states_ok_def)
  then have "\<exists>s'. wait_round default_sched_class i a s = Some (Returned 0, s') \<and>
          procs_inv rr_ready rr_detached (L - {p}) (C(c := remove1 p (C c))) (remove1 p ps) s' \<and> proc_live s' = L - {p} \<and>
          current s' = Some c \<and> vm s' = vm s2"
    if k: "store_code a (exit_code (procs s p)) s = Some s1" "put_kstack p s1 = Some s2" for s1 s2
    using rr_machine.reap_ok [OF assms(1,2) cL p _ k] rr_machine.wait_round_ok(3) [OF assms] Some assms(3) by metis
  then show ?thesis using Some by simp
qed

lemma demo_reap:
  assumes "x = demo_three False 1 (PROC_RUNNABLE, 0) (PROC_ZOMBIE, 0)"
  obtains s2 where "put_kstack 2 x = Some s2" "nr_free (phys (vm s2)) = 2"
proof -
  have "kva2page (kva (nbase + 0x200)) (demo_mem False) = Some 0x200"
    by (simp add: kva2page_def kva_def PADDR_def KERNBASE_def PHYSICAL_MEMORY_OFFSET_def PGSIZE_def nbase_def PPN_def pa2page_def demo_mem_def)
  moreover have two: "free_pages_reset b 2 s = free_pages_reset b (Suc (Suc 0)) s" for b s by (simp add: numeral_2_eq_2)
  have "\<exists>m. default_free_pages 0x200 2 (phys (demo_mem False)) = Some m \<and> nr_free m = 2"
    by (simp add: default_free_pages_def two demo_mem_def PageReserved_def PageProperty_def SetPageProperty_def insert_block_def
      list_empty_def list_add_def list_add_after_def link_between_def merge_prev_def merge_next_def list_prev_def list_next_def Let_def to_u32_def upd_page_def)
  ultimately show ?thesis using that assms
    by (auto simp: put_kstack_def demo_three_fields do_vm_def free_pages_def KSTACKPAGE_def)
qed

theorem wait_round_cases_witness:
  "\<exists>s'. wait_round default_sched_class 0 0 (demo_three False 1 (PROC_RUNNABLE, 0) (PROC_ZOMBIE, 0)) = Some (Returned 0, s') \<and>
     proc_live s' = {0, 1} \<and> nr_free (phys (vm s')) = 2"
proof -
  let ?s = "demo_three False 1 (PROC_RUNNABLE, 0) (PROC_ZOMBIE, 0)"
  obtain s2 where k: "put_kstack 2 ?s = Some s2" "nr_free (phys (vm s2)) = 2" by (rule demo_reap [OF refl])
  have z: "find (\<lambda>p. state (procs ?s p) = PROC_ZOMBIE) (wanted 0 ?s (((\<lambda>_. [])(0 := [1], 1 := [2])) 1)) = Some 2"
    by (simp add: wanted_def demo_three_fields)
  have "store_code 0 (exit_code (procs ?s 2)) ?s = Some ?s" by (simp add: store_code_def)
  then show ?thesis using wait_round_cases [OF demo_three_inv demo_three_fields(5,2) _ z, where a = 0] k
    by (force simp: demo_three_fields)
qed

section \<open>Killing\<close>

text \<open>C38: \<^verbatim>\<open>do_kill\<close> refuses an identifier that no process has and a process that was killed before; otherwise it marks the process and,
  if it sleeps interruptibly, makes it ready to run, so that it can end itself.\<close>

theorem do_kill_cases:
  assumes "procs_inv rr_ready rr_detached L C ps s" "proc_live s = L"
  shows "if \<forall>p\<in>set ps. pid (procs s p) \<noteq> i then do_kill default_sched_class i s = Some (- E_INVAL, s)
    else \<exists>p\<in>set ps. pid (procs s p) = i \<and>
      (if pflags (procs s p) AND PF_EXITING \<noteq> 0 then do_kill default_sched_class i s = Some (- E_KILLED, s)
       else \<exists>s'. do_kill default_sched_class i s = Some (0, s') \<and> procs_inv rr_ready rr_detached L C ps s' \<and> proc_live s' = L \<and>
         pflags (procs s' p) AND PF_EXITING \<noteq> 0 \<and>
         (wait_state (procs s p) AND WT_INTERRUPTED \<noteq> 0 \<longrightarrow> state (procs s' p) = PROC_RUNNABLE))"
proof (cases "\<forall>p\<in>set ps. pid (procs s p) \<noteq> i")
  case True
  then show ?thesis using rr_machine.do_kill_ok(1) [OF assms] by simp
next
  case False
  then obtain p where p: "p \<in> set ps" "pid (procs s p) = i" by blast
  then show ?thesis using rr_machine.do_kill_ok(2,3) [OF assms p] False by (intro if_not_P [THEN iffD2] bexI [of _ p]) auto
qed

theorem do_kill_cases_witness:
  "\<exists>s'. do_kill default_sched_class 2 (demo_three False 1 (PROC_RUNNABLE, 0) (PROC_SLEEPING, WT_TIMER)) = Some (0, s') \<and>
     state (procs s' 2) = PROC_RUNNABLE"
proof -
  let ?s = "demo_three False 1 (PROC_RUNNABLE, 0) (PROC_SLEEPING, WT_TIMER)"
  have inv: "procs_inv rr_ready rr_detached {0, 1, 2} ((\<lambda>_. [])(0 := [1], 1 := [2])) [2, 1] ?s" by (rule demo_three_inv) simp
  show ?thesis using do_kill_cases [OF inv demo_three_fields(5), where i = 2] by (auto simp: demo_three_fields blank_proc_def wt_defs)
qed

end
