(* ===== verification/Spec2Isabelle.thy ===== *)
theory Spec2Isabelle
  imports Timer Slub Philosophers_Sema Strings Sfs_Dir Devices Process_Props
begin

text \<open>
  A model of the ucore kernel for RISC-V in \<^verbatim>\<open>lab8\<close>, the last and complete one of the eight
  kernels of the repository (each lab directory holds a full copy of the tree, and the earlier ones
  are earlier states of the same files), with theorems about its memory management,
  processes, scheduling, synchronisation and file system.

  \<^bold>\<open>How code becomes HOL.\<close> A C routine is a function on an explicit state record. It returns an option: \<open>None\<close> is a
  run that does not come back, because an assertion failed, the kernel panicked, a null
  pointer was followed, a loop does not end, or (in \<open>Vmm\<close>) the process waits for the lock of an address space that is held. Loops over pointer structures are
  \<open>partial_function (option)\<close>, so that a claim that they end is a claim that the value is \<open>Some\<close>; no fuel
  is used anywhere. Loops over a known count are structural recursion. Pointers are numbers that name objects, linked
  lists are stores of \<^verbatim>\<open>prev\<close> and \<^verbatim>\<open>next\<close> pointers that the code's own list routines update, and
  the abstract list is recovered by the predicate \<open>ring\<close>. Error codes are the negated integers of
  \<^verbatim>\<open>libs/error.h\<close>. Words are used where the code computes bits or may wrap; \<open>int\<close> is used for C \<^verbatim>\<open>int\<close> fields
  whose range is not in question, and \<open>to_u32\<close> for truncated unsigned fields. Code between
  \<^verbatim>\<open>local_intr_save\<close> and \<^verbatim>\<open>local_intr_restore\<close> is one step.

  \<^bold>\<open>The theories.\<close>
  \<^item> \<open>Prelude\<close>: assertions, error codes, rounding macros (\<^verbatim>\<open>libs/defs.h\<close>, \<^verbatim>\<open>libs/error.h\<close>).
  \<^item> \<open>List_Heap\<close>: \<^verbatim>\<open>libs/list.h\<close> on a store of pointers; what insertion and removal do to a ring and to every other
    ring; the locale \<open>fifo_list\<close>, interpreted on the routines, gives first-in first-out order.
  \<^item> \<open>Page_Alloc\<close>: \<^verbatim>\<open>kern/mm/default_pmm.c\<close> and \<^verbatim>\<open>best_fit_pmm.c\<close>. First fit and best fit allocate what they say and
    keep the free list sorted and merged; allocated blocks are disjoint; a block freed behind the last
    free one breaks the list (the insertion loop has no exit there) and pages are then handed out twice.
  \<^item> \<open>Paging\<close>: \<^verbatim>\<open>kern/mm/pmm.c\<close>, \<^verbatim>\<open>pmm.h\<close>, \<^verbatim>\<open>mmu.h\<close>: the three-level walk, mapping, unmapping, releasing and copying
    of ranges over physical memory. The abstraction is the translation of user addresses; inserting, removing and unmapping
    change exactly the translations they should and the reference counts and the free list follow, while a free page lies above
    every mapped one (\<open>room_above\<close>): without it a page given back runs into the insertion loop named above.
  \<^item> \<open>Vmm\<close>: \<^verbatim>\<open>kern/mm/vmm.c\<close> and \<^verbatim>\<open>cow.c\<close>: the sorted area list with its cache, \<^verbatim>\<open>mm_map\<close>, the check of user memory, copies
    between kernel and user, the page fault handler (demand paging and copy on write, under the lock of the address space).
  \<^item> \<open>Slub\<close>: \<^verbatim>\<open>kern/mm/slub.c\<close>: \<^verbatim>\<open>kmalloc\<close> and \<^verbatim>\<open>kfree\<close> over either page allocator. Every object of every slab is held by one
    client or in one free list, in all runs of calls, writes of clients and other users of pages.
  \<^item> \<open>Skew_Heap\<close>: \<^verbatim>\<open>libs/skew_heap.h\<close>: the pointer heap refines a multiset with minimum.
  \<^item> \<open>Kernel_State\<close>: the process control block and the global variables the next theories share.
  \<^item> \<open>Sched_Class\<close>, \<open>Sched\<close>, \<open>Timer\<close>: \<^verbatim>\<open>kern/schedule\<close>: the round robin and the stride class behind the interface of
    \<^verbatim>\<open>struct sched_class\<close> (a locale, interpreted for both), \<^verbatim>\<open>wakeup_proc\<close>, \<^verbatim>\<open>schedule\<close> and the delta list of timers.
  \<^item> \<open>Sync\<close>: \<^verbatim>\<open>kern/sync/wait.c\<close> and \<^verbatim>\<open>sem.c\<close>: wait queues and semaphores; a step relation of the calls with the
    invariants that no signal is lost and that \<^verbatim>\<open>up\<close> wakes the longest waiter.
  \<^item> \<open>Monitor\<close>: \<^verbatim>\<open>kern/sync/monitor.c\<close> over those semaphores: signalling hands the monitor over, so in every interleaving at
    most one process is inside and no operation stops the kernel. \<open>Philosophers\<close> and \<open>Philosophers_Sema\<close>:
    \<^verbatim>\<open>kern/sync/check_sync.c\<close>, the dining philosophers with a monitor and with semaphores, cut where a philosopher may sleep:
    neighbours never eat at once, and who waits has a neighbour that eats. The rest of the kernel may do anything between the steps
    that keeps these semaphores and their sleepers.
  \<^item> \<open>Strings\<close>: \<^verbatim>\<open>libs/string.c\<close>.
  \<^item> \<open>Proc_Table\<close>: the tables of \<^verbatim>\<open>kern/process/proc.c\<close>: identifiers, hash lists, family links.
  \<^item> \<open>Process\<close>: the rest of \<^verbatim>\<open>proc.c\<close> but the loading of programs: \<^verbatim>\<open>alloc_proc\<close>, \<^verbatim>\<open>do_fork\<close> with all its exits, \<^verbatim>\<open>do_exit\<close>,
    \<^verbatim>\<open>do_wait\<close>, \<^verbatim>\<open>do_kill\<close>, \<^verbatim>\<open>do_sleep\<close>, \<^verbatim>\<open>proc_init\<close>, on a machine state that joins the kernel state with the memory of \<open>Vmm\<close> and
    the files of \<open>File_Table\<close>. \<open>Process_Inv\<close> states the invariant (tables, families, states and run queue agree) and that
    every routine keeps it; \<open>Process_Life\<close> has the step relation \<open>life_step\<close> of all calls and its closure; \<open>Process_Boot\<close> the start;
    \<open>Process_Props\<close> the theorems over the round-robin class.
  \<^item> \<open>Vfs\<close>, \<open>File_Table\<close>, \<open>File_Refs\<close>: \<^verbatim>\<open>kern/fs/vfs\<close>, \<^verbatim>\<open>file.c\<close>, \<^verbatim>\<open>fs.c\<close>: inodes and their counts, device names and paths, opening,
    descriptor tables; the invariant \<open>accounted\<close> says that every count of an inode is the number of its users, but for the
    reference that a refused \<^verbatim>\<open>O_CREAT | O_EXCL\<close> open leaves behind.
  \<^item> \<open>Stdin\<close>, \<open>Devices\<close>: \<^verbatim>\<open>kern/fs/devs\<close>: the keyboard buffer, the inode operations of devices, and the theorems about file
    calls on them.
  \<^item> \<open>Bitmap\<close>, \<open>Block_Dev\<close>, \<open>Sfs_Io\<close>, \<open>Sfs_Inode\<close>, \<open>Sfs_Dir\<close>: \<^verbatim>\<open>kern/fs\<close>: the block bitmap, I/O buffers, the disk device over the
    RAM disk, block I/O of the simple file system, the block map of an inode and reading and writing
    of files; reads and writes refine the abstract contents of a file, and a directory refines a map of names.

  \<^bold>\<open>Interfaces.\<close> Each locale states what a client may rely on and is interpreted on the definitions that model the code:
    \<open>fifo_list\<close> (queues, on the routines of \<^verbatim>\<open>list.h\<close>), \<open>page_allocator\<close> and \<open>slab_pages\<close> (both page allocators), \<open>sched_policy\<close> (both scheduling
    classes) with its extensions \<open>machine_sched\<close> (processes), \<open>monitor_machine\<close> and \<open>philosophers\<close>, and \<open>vnode_ops\<close> (the inode
    operations, on the devices).

  \<^bold>\<open>Parameters.\<close> Outside \<open>Slub\<close>, what an allocator returns is an argument (\<open>km\<close> in \<open>Vmm\<close> stands
  for the address \<^verbatim>\<open>kmalloc\<close> returns), with the assumption that it is not in use, which is what the theorem about \<^verbatim>\<open>kmalloc\<close> in \<open>Slub\<close> says. The record \<open>env\<close> of \<open>Process\<close> collects these choices and the addresses of two
  assembly routines. A routine that calls \<^verbatim>\<open>schedule\<close> in its middle is split there; what the process does when it runs again is a
  second definition.

  \<^bold>\<open>Not modelled.\<close> Assembly (\<^verbatim>\<open>entry.S\<close>, \<^verbatim>\<open>trapentry.S\<close>, \<^verbatim>\<open>switch.S\<close>), register definitions, device drivers other than the
  disk, console output and formatted printing, the self-tests of the memory managers (\<^verbatim>\<open>check_*\<close>), the boot-time
  detection of memory, the translation look-aside buffer, and the user programs. Of memory management
  \<^verbatim>\<open>buddy_pmm.c\<close>, the third page allocator; of the
  process component \<^verbatim>\<open>load_icode\<close>, \<^verbatim>\<open>do_execve\<close> and the bodies of the first threads; of the file system
  mounting (\<^verbatim>\<open>sfs_fs.c\<close>) and the copying of arguments in \<^verbatim>\<open>sysfile.c\<close>; the tables of \<^verbatim>\<open>syscall.c\<close> and \<^verbatim>\<open>trap.c\<close>
  that call the modelled routines.
\<close>

end
